(* ===== verification/Prelude.thy ===== *)
theory Prelude
  imports Main "HOL-Library.Word" "HOL-Library.List_Lexorder" "HOL-Library.Product_Lexorder"
begin

text \<open>
  Shared vocabulary of the development: machine integers, fallible results, big-endian
  bytes, and the generic lemmas on lists and words that the component theories use.

  Rust's \<open>Result<T, E>\<close> is the sum \<open>'e + 't\<close> with \<open>Inl\<close> for the error; the \<open>?\<close>
  operator is \<open>and_then\<close>, an early \<open>return Err(e)\<close> under a condition is \<open>ensure\<close>, and
  \<open>Option::ok_or\<close> is \<open>ok_or\<close>. A fixed-width unsigned integer is a word; a \<open>usize\<close> that
  counts elements of a collection in memory is a \<open>nat\<close>.
\<close>

type_synonym byte = "8 word"
type_synonym u8 = "8 word"
type_synonym u16 = "16 word"
type_synonym u32 = "32 word"
type_synonym u64 = "64 word"

text \<open>Facts that unfold encoders and decoders, and the rules that compose them.\<close>

named_theorems wire_defs
named_theorems wire_decodes
named_theorems wire_canonical

subsection \<open>Results\<close>

definition and_then :: "'e + 'a \<Rightarrow> ('a \<Rightarrow> 'e + 'b) \<Rightarrow> 'e + 'b" where
  "and_then m f = (case m of Inl e \<Rightarrow> Inl e | Inr x \<Rightarrow> f x)"

definition ensure :: "bool \<Rightarrow> 'e \<Rightarrow> 'e + unit" where
  "ensure b e = (if b then Inr () else Inl e)"

definition ok_or :: "'a option \<Rightarrow> 'e \<Rightarrow> 'e + 'a" where
  "ok_or x e = (case x of None \<Rightarrow> Inl e | Some y \<Rightarrow> Inr y)"

definition map_err :: "('e \<Rightarrow> 'f) \<Rightarrow> 'e + 'a \<Rightarrow> 'f + 'a" where
  "map_err f m = (case m of Inl e \<Rightarrow> Inl (f e) | Inr x \<Rightarrow> Inr x)"

lemma and_then_simps [simp]:
  "and_then (Inl e) f = Inl e"
  "and_then (Inr x) f = f x"
  by (simp_all add: and_then_def)

lemma and_then_Inr_iff [simp]:
  "and_then m f = Inr y \<longleftrightarrow> (\<exists>x. m = Inr x \<and> f x = Inr y)"
  by (cases m) auto

lemma and_then_Inl_iff:
  "and_then m f = Inl e \<longleftrightarrow> m = Inl e \<or> (\<exists>x. m = Inr x \<and> f x = Inl e)"
  by (cases m) auto

lemma and_then_Inr [simp]: "and_then m Inr = m"
  by (cases m) auto

lemma and_then_assoc: "and_then (and_then m f) g = and_then m (\<lambda>x. and_then (f x) g)"
  by (cases m) auto

lemma ensure_simps [simp]:
  "ensure True e = Inr ()"
  "ensure False e = Inl e"
  "ensure b e = Inr u \<longleftrightarrow> b"
  "ensure b e = Inl e' \<longleftrightarrow> \<not> b \<and> e' = e"
  by (auto simp: ensure_def)

lemma ok_or_simps [simp]:
  "ok_or None e = Inl e"
  "ok_or (Some x) e = Inr x"
  "ok_or y e = Inr x \<longleftrightarrow> y = Some x"
  "ok_or y e = Inl e' \<longleftrightarrow> y = None \<and> e' = e"
  by (auto simp: ok_or_def split: option.splits)

lemma map_err_simps [simp]:
  "map_err f (Inl e) = Inl (f e)"
  "map_err f (Inr x) = Inr x"
  "map_err f m = Inr y \<longleftrightarrow> m = Inr y"
  by (auto simp: map_err_def split: sum.splits)

text \<open>A fallible fold: the loop \<open>for x in xs { s = f(s, x)?; }\<close>.\<close>

fun try_fold :: "('s \<Rightarrow> 'x \<Rightarrow> 'e + 's) \<Rightarrow> 's \<Rightarrow> 'x list \<Rightarrow> 'e + 's" where
  "try_fold f s [] = Inr s"
| "try_fold f s (x # xs) = and_then (f s x) (\<lambda>s'. try_fold f s' xs)"

lemma try_fold_append:
  "try_fold f s (xs @ ys) = and_then (try_fold f s xs) (\<lambda>s'. try_fold f s' ys)"
  by (induction xs arbitrary: s) (auto simp: and_then_assoc)

text \<open>An invariant of the step is an invariant of the fold.\<close>

lemma try_fold_invariant:
  assumes "try_fold f s xs = Inr t"
    and "I s"
    and "\<And>s x s'. I s \<Longrightarrow> x \<in> set xs \<Longrightarrow> f s x = Inr s' \<Longrightarrow> I s'"
  shows "I t"
  using assms
proof (induction xs arbitrary: s)
  case Nil
  then show ?case by simp
next
  case (Cons x xs)
  from Cons.prems(1) obtain s' where "f s x = Inr s'" and rest: "try_fold f s' xs = Inr t"
    by auto
  have "I s'"
    by (rule Cons.prems(3) [OF Cons.prems(2) _ \<open>f s x = Inr s'\<close>]) simp
  then show ?case
    by (rule Cons.IH [OF rest]) (rule Cons.prems(3), auto)
qed

subsection \<open>Big-endian bytes\<close>

text \<open>\<open>be_bytes n v\<close> is \<open>to_be_bytes\<close> of an \<open>n\<close>-byte integer with value \<open>v\<close>.\<close>

fun be_bytes :: "nat \<Rightarrow> nat \<Rightarrow> byte list" where
  "be_bytes 0 v = []"
| "be_bytes (Suc n) v = be_bytes n (v div 256) @ [of_nat v]"

definition be_nat :: "byte list \<Rightarrow> nat" where
  "be_nat bs = foldl (\<lambda>a b. 256 * a + unat b) 0 bs"

lemma length_be_bytes [simp]: "length (be_bytes n v) = n"
  by (induction n arbitrary: v) auto

lemma be_nat_Nil [simp]: "be_nat [] = 0"
  by (simp add: be_nat_def)

lemma be_nat_snoc [simp]: "be_nat (bs @ [b]) = 256 * be_nat bs + unat b"
  by (simp add: be_nat_def)

lemma unat_byte_bound [simp]: "unat (b :: byte) < 256"
  using unsigned_less [of b] by simp

lemma be_nat_bound: "be_nat bs < 256 ^ length bs"
proof (induction bs rule: rev_induct)
  case Nil
  then show ?case by simp
next
  case (snoc b bs)
  have "256 * be_nat bs + unat b < 256 * be_nat bs + 256"
    using unat_byte_bound [of b] by linarith
  also have "\<dots> = 256 * Suc (be_nat bs)" by simp
  also have "\<dots> \<le> 256 * 256 ^ length bs"
    using snoc by (intro mult_le_mono2) simp
  finally show ?case by simp
qed

lemma word_eqI_unat: "unat v = unat w \<Longrightarrow> v = w"
  by (rule unsigned_word_eqI)

lemma unat_of_nat_u64: "n < 2 ^ 64 \<Longrightarrow> unat (of_nat n :: u64) = n"
  by (simp add: unat_of_nat)

lemma unat_of_nat_byte: "unat (of_nat v :: byte) = v mod 256"
  by (simp add: unat_of_nat)

lemma be_nat_be_bytes: "be_nat (be_bytes n v) = v mod 256 ^ n"
proof (induction n arbitrary: v)
  case 0
  then show ?case by simp
next
  case (Suc n)
  have "be_nat (be_bytes (Suc n) v) = 256 * ((v div 256) mod 256 ^ n) + v mod 256"
    by (simp add: Suc unat_of_nat_byte)
  also have "\<dots> = v mod (256 * 256 ^ n)"
    by (simp only: mod_mult2_eq)
  finally show ?case by simp
qed

lemma be_nat_be_bytes_id [simp]: "v < 256 ^ n \<Longrightarrow> be_nat (be_bytes n v) = v"
  by (simp add: be_nat_be_bytes)

lemma be_bytes_be_nat: "be_bytes (length bs) (be_nat bs) = bs"
proof (induction bs rule: rev_induct)
  case Nil
  then show ?case by simp
next
  case (snoc b bs)
  have "(256 * be_nat bs + unat b) div 256 = be_nat bs"
    using unat_byte_bound [of b] by (simp del: unat_byte_bound)
  moreover have "(of_nat (256 * be_nat bs + unat b) :: byte) = b"
    by (rule word_eqI_unat) (simp only: unat_of_nat_byte mod_mult_self4 mod_less unat_byte_bound)
  ultimately show ?case
    using snoc by simp
qed

lemma be_bytes_inj:
  assumes "be_bytes n v = be_bytes n w" and "v < 256 ^ n" and "w < 256 ^ n"
  shows "v = w"
  using assms by (metis be_nat_be_bytes_id)

text \<open>Comparing encodings byte by byte compares the values (\<section>4, sorted lists).\<close>

lemma lex_snoc:
  fixes xs ys :: "byte list"
  assumes "length xs = length ys"
  shows "xs @ [x] < ys @ [y] \<longleftrightarrow> xs < ys \<or> xs = ys \<and> x < y"
  using assms by (induction xs ys rule: list_induct2) auto

lemma div_less_cases:
  fixes v w :: nat
  shows "v < w \<longleftrightarrow> v div 256 < w div 256 \<or> v div 256 = w div 256 \<and> v mod 256 < w mod 256"
proof -
  have "v = 256 * (v div 256) + v mod 256" and "w = 256 * (w div 256) + w mod 256"
    by simp_all
  moreover have "v mod 256 < 256" and "w mod 256 < 256"
    by simp_all
  ultimately show ?thesis
    by (cases "v div 256" "w div 256" rule: linorder_cases) linarith+
qed

lemma be_bytes_less_iff:
  "v < 256 ^ n \<Longrightarrow> w < 256 ^ n \<Longrightarrow> be_bytes n v < be_bytes n w \<longleftrightarrow> v < w"
proof (induction n arbitrary: v w)
  case 0
  then show ?case by simp
next
  case (Suc n)
  have v: "v div 256 < 256 ^ n" and w: "w div 256 < 256 ^ n"
    using Suc.prems by (simp_all add: less_mult_imp_div_less mult.commute)
  have eq: "be_bytes n (v div 256) = be_bytes n (w div 256) \<longleftrightarrow> v div 256 = w div 256"
    using be_bytes_inj [OF _ v w] by auto
  have last: "(of_nat v :: byte) < of_nat w \<longleftrightarrow> v mod 256 < w mod 256"
    by (simp add: word_less_nat_alt unat_of_nat_byte)
  have "be_bytes (Suc n) v < be_bytes (Suc n) w \<longleftrightarrow>
      v div 256 < w div 256 \<or> v div 256 = w div 256 \<and> v mod 256 < w mod 256"
    using Suc.IH [OF v w] by (simp add: lex_snoc eq last)
  then show ?case using div_less_cases [of v w] by blast
qed

subsection \<open>Words of whole bytes\<close>

definition word_bytes :: "nat \<Rightarrow> 'a::len word \<Rightarrow> byte list" where
  "word_bytes n w = be_bytes n (unat w)"

definition bytes_word :: "byte list \<Rightarrow> 'a::len word" where
  "bytes_word bs = of_nat (be_nat bs)"

lemma length_word_bytes [simp]: "length (word_bytes n w) = n"
  by (simp add: word_bytes_def)

lemma unat_less_256:
  assumes "LENGTH('a::len) = 8 * n"
  shows "unat (w :: 'a word) < 256 ^ n"
proof -
  have "(256 :: nat) ^ n = 2 ^ LENGTH('a)"
    by (simp add: assms power_mult)
  then show ?thesis using unsigned_less [of w] by simp
qed

lemma bytes_word_word_bytes:
  assumes "LENGTH('a::len) = 8 * n"
  shows "bytes_word (word_bytes n w) = (w :: 'a word)"
  using unat_less_256 [OF assms, of w] by (simp add: bytes_word_def word_bytes_def)

lemma word_bytes_bytes_word:
  assumes "LENGTH('a::len) = 8 * n" and "length bs = n"
  shows "word_bytes n (bytes_word bs :: 'a word) = bs"
proof -
  have "be_nat bs < 2 ^ LENGTH('a)"
    using be_nat_bound [of bs] assms by (simp add: power_mult)
  then have "unat (of_nat (be_nat bs) :: 'a word) = be_nat bs"
    by (simp add: unat_of_nat)
  then show ?thesis
    using be_bytes_be_nat [of bs] assms(2) by (simp add: word_bytes_def bytes_word_def)
qed

lemma word_bytes_less_iff:
  assumes "LENGTH('a::len) = 8 * n"
  shows "word_bytes n v < word_bytes n w \<longleftrightarrow> (v :: 'a word) < w"
  using be_bytes_less_iff [OF unat_less_256 [OF assms] unat_less_256 [OF assms]]
  by (simp add: word_bytes_def word_less_nat_alt)

subsection \<open>Lists\<close>

definition windows2 :: "'a list \<Rightarrow> ('a \<times> 'a) list" where
  "windows2 xs = zip xs (tl xs)"

lemma windows2_simps [simp]:
  "windows2 [] = []"
  "windows2 [x] = []"
  "windows2 (x # y # zs) = (x, y) # windows2 (y # zs)"
  by (simp_all add: windows2_def)

text \<open>\<open>windows(2).all(p)\<close> for a transitive relation says the list is sorted by it.\<close>

lemma windows2_sorted_wrt:
  assumes "transp R"
  shows "list_all (\<lambda>(a, b). R a b) (windows2 xs) \<longleftrightarrow> sorted_wrt R xs"
proof (induction xs rule: induct_list012)
  case (3 x y zs)
  then show ?case
    using assms by (auto dest: transpD)
qed simp_all

end
