(* ===== verification/Types.thy ===== *)
theory Types
  imports Prelude
begin

text \<open>
  The fixed-size fields of \<^verbatim>\<open>types.rs\<close> and their text forms (\<section>4, \<section>5): an
  \<open>N\<close>-byte array newtype is a datatype around a word of \<open>8 * N\<close> bits, so its length is in
  its type, and the derived lexicographic order of the bytes is the order of the words.
  Hexadecimal and decimal text forms are lists of ASCII bytes.
\<close>

subsection \<open>The newtypes\<close>

datatype ident = Ident (ident_val: "128 word")
datatype ident_or_zero = IdOrZero (ident_or_zero_val: "128 word")
datatype digest = Digest (digest_val: "256 word")
datatype pubkey = Key (pubkey_val: "256 word")
datatype nonce = Nonce (nonce_val: "192 word")
datatype signature = Signature (signature_val: "512 word")
datatype secret_key = SecretKey (secret_val: "256 word")

definition ident_bytes :: "ident \<Rightarrow> byte list" where
  "ident_bytes i = word_bytes 16 (ident_val i)"

definition digest_bytes :: "digest \<Rightarrow> byte list" where
  "digest_bytes d = word_bytes 32 (digest_val d)"

definition pubkey_bytes :: "pubkey \<Rightarrow> byte list" where
  "pubkey_bytes k = word_bytes 32 (pubkey_val k)"

definition secret_bytes :: "secret_key \<Rightarrow> byte list" where
  "secret_bytes k = word_bytes 32 (secret_val k)"

definition ident_is_zero :: "ident \<Rightarrow> bool" where
  "ident_is_zero i \<longleftrightarrow> ident_val i = 0"

definition digest_is_zero :: "digest \<Rightarrow> bool" where
  "digest_is_zero d \<longleftrightarrow> digest_val d = 0"

definition nonce_is_zero :: "nonce \<Rightarrow> bool" where
  "nonce_is_zero n \<longleftrightarrow> nonce_val n = 0"

definition ZERO_digest :: digest where
  "ZERO_digest = Digest 0"

definition ZERO_nonce :: nonce where
  "ZERO_nonce = Nonce 0"

lemma is_zero_simps [simp]:
  "ident_is_zero (Ident w) \<longleftrightarrow> w = 0"
  "digest_is_zero d \<longleftrightarrow> d = ZERO_digest"
  "nonce_is_zero n \<longleftrightarrow> n = ZERO_nonce"
  by (auto simp: ident_is_zero_def digest_is_zero_def nonce_is_zero_def ZERO_digest_def
      ZERO_nonce_def digest.expand nonce.expand)

lemma length_fixed_bytes [simp]:
  "length (ident_bytes i) = 16"
  "length (digest_bytes d) = 32"
  "length (pubkey_bytes k) = 32"
  "length (secret_bytes s) = 32"
  by (simp_all add: ident_bytes_def digest_bytes_def pubkey_bytes_def secret_bytes_def)

subsection \<open>Derived order\<close>

instantiation ident :: linorder
begin

definition less_eq_ident :: "ident \<Rightarrow> ident \<Rightarrow> bool" where
  "less_eq_ident a b \<longleftrightarrow> ident_val a \<le> ident_val b"

definition less_ident :: "ident \<Rightarrow> ident \<Rightarrow> bool" where
  "less_ident a b \<longleftrightarrow> ident_val a < ident_val b"

instance
  by standard (auto simp: less_eq_ident_def less_ident_def ident.expand)

end

instantiation digest :: linorder
begin

definition less_eq_digest :: "digest \<Rightarrow> digest \<Rightarrow> bool" where
  "less_eq_digest a b \<longleftrightarrow> digest_val a \<le> digest_val b"

definition less_digest :: "digest \<Rightarrow> digest \<Rightarrow> bool" where
  "less_digest a b \<longleftrightarrow> digest_val a < digest_val b"

instance
  by standard (auto simp: less_eq_digest_def less_digest_def digest.expand)

end

lemma ident_less_simps [simp]:
  "Ident v < Ident w \<longleftrightarrow> v < w"
  "Ident v \<le> Ident w \<longleftrightarrow> v \<le> w"
  by (simp_all add: less_ident_def less_eq_ident_def)

lemma digest_less_simps [simp]:
  "Digest v < Digest w \<longleftrightarrow> v < w"
  "Digest v \<le> Digest w \<longleftrightarrow> v \<le> w"
  by (simp_all add: less_digest_def less_eq_digest_def)

text \<open>The derived \<open>Ord\<close> of a byte array is the byte-wise order of its encoding.\<close>

lemma ident_bytes_less_iff: "ident_bytes a < ident_bytes b \<longleftrightarrow> a < b"
  unfolding ident_bytes_def less_ident_def by (rule word_bytes_less_iff) simp

lemma digest_bytes_less_iff: "digest_bytes a < digest_bytes b \<longleftrightarrow> a < b"
  unfolding digest_bytes_def less_digest_def by (rule word_bytes_less_iff) simp

lemma ident_bytes_inject [simp]: "ident_bytes a = ident_bytes b \<longleftrightarrow> a = b"
  using ident_bytes_less_iff [of a b] ident_bytes_less_iff [of b a] by (metis linorder_neqE order.irrefl)

lemma digest_bytes_inject [simp]: "digest_bytes a = digest_bytes b \<longleftrightarrow> a = b"
  using digest_bytes_less_iff [of a b] digest_bytes_less_iff [of b a] by (metis linorder_neqE order.irrefl)

end
