(* ===== verification/Text_Forms.thy ===== *)
theory Text_Forms
  imports Types
begin

text \<open>
  The text forms of \<^verbatim>\<open>types.rs\<close> (\<section>5): lowercase hexadecimal and canonical unsigned
  decimal. A \<open>String\<close> is the list of its bytes. The base64url form is the work of a
  third-party engine and is not modelled.
\<close>

subsection \<open>Hexadecimal\<close>

text \<open>The digits \<open>b"0123456789abcdef"\<close>.\<close>

definition DIGITS :: "byte list" where
  "DIGITS = [48, 49, 50, 51, 52, 53, 54, 55, 56, 57, 97, 98, 99, 100, 101, 102]"

definition to_hex :: "byte list \<Rightarrow> byte list" where
  "to_hex bytes =
     concat (map (\<lambda>b. [DIGITS ! (unat b div 16), DIGITS ! (unat b mod 16)]) bytes)"

text \<open>\<open>char::to_digit(16)\<close> of a byte taken as a character.\<close>

definition to_digit16 :: "byte \<Rightarrow> nat option" where
  "to_digit16 c =
     (if 48 \<le> c \<and> c \<le> 57 then Some (unat c - 48)
      else if 97 \<le> c \<and> c \<le> 102 then Some (unat c - 87)
      else if 65 \<le> c \<and> c \<le> 70 then Some (unat c - 55)
      else None)"

fun hex_pairs :: "byte list \<Rightarrow> byte list option" where
  "hex_pairs [] = Some []"
| "hex_pairs [_] = None"
| "hex_pairs (h # l # rest) =
     (case (to_digit16 h, to_digit16 l) of
        (Some high, Some low) \<Rightarrow> map_option ((#) (of_nat (high * 16 + low))) (hex_pairs rest)
      | _ \<Rightarrow> None)"

definition from_hex :: "byte list \<Rightarrow> byte list option" where
  "from_hex s = (if even (length s) then hex_pairs s else None)"

text \<open>The newtypes' \<open>from_hex\<close>: hexadecimal of exactly the type's length.\<close>

definition ident_to_hex :: "ident \<Rightarrow> byte list" where
  "ident_to_hex i = to_hex (ident_bytes i)"

definition ident_from_hex :: "byte list \<Rightarrow> ident option" where
  "ident_from_hex s =
     (case from_hex s of
        Some bs \<Rightarrow> if length bs = 16 then Some (Ident (bytes_word bs)) else None
      | None \<Rightarrow> None)"

lemma less_16_cases: "(n::nat) < 16 \<longleftrightarrow> n \<in> {0,1,2,3,4,5,6,7,8,9,10,11,12,13,14,15}"
  by (simp only: insert_iff empty_iff) presburger

lemma to_digit16_DIGITS [simp]: "n < 16 \<Longrightarrow> to_digit16 (DIGITS ! n) = Some n"
  unfolding less_16_cases by (auto simp: DIGITS_def to_digit16_def)

lemma hex_pairs_to_hex: "hex_pairs (to_hex bs) = Some bs"
proof (induction bs)
  case Nil
  then show ?case by (simp add: to_hex_def)
next
  case (Cons b bs)
  have "unat b div 16 < 16"
    using unat_byte_bound [of b] by (simp add: less_mult_imp_div_less del: unat_byte_bound)
  moreover have "(of_nat (unat b div 16 * 16 + unat b mod 16) :: byte) = b"
    by (simp only: div_mult_mod_eq) simp
  ultimately show ?case
    using Cons by (simp add: to_hex_def)
qed

lemma length_to_hex: "length (to_hex bs) = 2 * length bs"
  by (induction bs) (simp_all add: to_hex_def)

lemma from_hex_to_hex: "from_hex (to_hex bs) = Some bs"
  by (simp add: from_hex_def length_to_hex hex_pairs_to_hex)

text \<open>
  The hexadecimal form of an ID parses back to that ID.
\<close>
lemma ident_hex_roundtrip: "ident_from_hex (ident_to_hex i) = Some i"
proof -
  have "bytes_word (ident_bytes i) = ident_val i"
    unfolding ident_bytes_def by (rule bytes_word_word_bytes) simp
  then show ?thesis
    by (simp add: ident_from_hex_def ident_to_hex_def from_hex_to_hex)
qed

subsection \<open>Decimal\<close>

datatype text_form_error = Base64 | Length | Decimal | ZeroId

text \<open>\<open>u64::to_string\<close> and \<open>str::parse::<u64>\<close> on a string of ASCII digits.\<close>

definition ascii_digit :: "nat \<Rightarrow> byte" where
  "ascii_digit n = of_nat (48 + n)"

fun decimal_digits :: "nat \<Rightarrow> byte list" where
  "decimal_digits n =
     (if n < 10 then [ascii_digit n] else decimal_digits (n div 10) @ [ascii_digit (n mod 10)])"

declare decimal_digits.simps [simp del]

definition digits_value :: "byte list \<Rightarrow> nat" where
  "digits_value ds = foldl (\<lambda>a d. a * 10 + (unat d - 48)) 0 ds"

definition is_ascii_digit :: "byte \<Rightarrow> bool" where
  "is_ascii_digit c \<longleftrightarrow> 48 \<le> c \<and> c \<le> 57"

definition to_decimal :: "u64 \<Rightarrow> byte list" where
  "to_decimal v = decimal_digits (unat v)"

definition from_decimal :: "byte list \<Rightarrow> text_form_error + u64" where
  "from_decimal s =
     (if s = [] \<or> \<not> list_all is_ascii_digit s \<or> (1 < length s \<and> s ! 0 = 48)
      then Inl Decimal
      else if digits_value s < 2 ^ 64 then Inr (of_nat (digits_value s))
      else Inl Decimal)"

lemma digits_value_simps [simp]:
  "digits_value [] = 0"
  "digits_value (ds @ [d]) = digits_value ds * 10 + (unat d - 48)"
  by (simp_all add: digits_value_def)

lemma unat_ascii_digit: "n < 10 \<Longrightarrow> unat (ascii_digit n) = 48 + n"
  unfolding ascii_digit_def unat_of_nat_byte by simp

lemma is_ascii_digit_unat: "is_ascii_digit c \<longleftrightarrow> 48 \<le> unat c \<and> unat c \<le> 57"
  by (simp add: is_ascii_digit_def word_le_nat_alt)

lemma is_ascii_digit_ascii_digit: "n < 10 \<Longrightarrow> is_ascii_digit (ascii_digit n)"
  by (simp add: is_ascii_digit_unat unat_ascii_digit)

lemma ascii_digit_of_value:
  assumes "is_ascii_digit c"
  shows "ascii_digit (unat c - 48) = c"
proof (rule word_eqI_unat)
  have "unat c - 48 < 10" and "48 \<le> unat c"
    using assms by (auto simp: is_ascii_digit_unat)
  then show "unat (ascii_digit (unat c - 48)) = unat c"
    by (simp add: unat_ascii_digit)
qed

lemma decimal_digits_value: "digits_value (decimal_digits n) = n"
proof (induction n rule: decimal_digits.induct)
  case (1 n)
  show ?case
  proof (cases "n < 10")
    case True
    have "digits_value ([] @ [ascii_digit n]) = n"
      unfolding digits_value_simps using unat_ascii_digit [OF True] by simp
    with True show ?thesis by (simp add: decimal_digits.simps [of n])
  next
    case False
    with 1 show ?thesis
      by (simp add: decimal_digits.simps [of n] unat_ascii_digit)
  qed
qed

lemma decimal_digits_ascii: "list_all is_ascii_digit (decimal_digits n)"
proof (induction n rule: decimal_digits.induct)
  case (1 n)
  then show ?case
    by (subst decimal_digits.simps) (simp add: is_ascii_digit_ascii_digit)
qed

lemma decimal_digits_nonempty [simp]: "decimal_digits n \<noteq> []"
  by (subst decimal_digits.simps) simp

lemma ascii_digit_zero: "n < 10 \<Longrightarrow> ascii_digit n = 48 \<longleftrightarrow> n = 0"
  using unat_ascii_digit [of n] by (auto simp: ascii_digit_def)

lemma decimal_digits_head: "0 < n \<Longrightarrow> decimal_digits n ! 0 \<noteq> 48"
proof (induction n rule: decimal_digits.induct)
  case (1 n)
  then show ?case
    by (subst decimal_digits.simps) (simp add: nth_append ascii_digit_zero)
qed

lemma decimal_canonical_length: "1 < length (decimal_digits n) \<Longrightarrow> 0 < n"
  by (cases n) (simp_all add: decimal_digits.simps [of 0])

lemma decimal_digits_of_value:
  "list_all is_ascii_digit ds \<Longrightarrow> ds \<noteq> [] \<Longrightarrow> (1 < length ds \<longrightarrow> ds ! 0 \<noteq> 48) \<Longrightarrow>
   decimal_digits (digits_value ds) = ds"
proof (induction ds rule: rev_induct)
  case Nil
  then show ?case by simp
next
  case (snoc d ds)
  have d: "is_ascii_digit d" and small: "unat d - 48 < 10"
    using snoc.prems(1) by (auto simp: is_ascii_digit_unat)
  show ?case
  proof (cases "ds = []")
    case True
    have "decimal_digits (digits_value ([] @ [d])) = [d]"
      unfolding digits_value_simps using small ascii_digit_of_value [OF d]
      by (subst decimal_digits.simps) simp
    with True show ?thesis by simp
  next
    case False
    have IH: "decimal_digits (digits_value ds) = ds"
      using snoc False by (auto simp: nth_append)
    have "ds ! 0 \<noteq> 48" using snoc.prems(3) False by (simp add: nth_append)
    moreover have "decimal_digits 0 ! 0 = 48"
      by (simp add: decimal_digits.simps ascii_digit_def)
    ultimately have "0 < digits_value ds"
      using IH by (cases "digits_value ds") auto
    with small show ?thesis
      by (subst decimal_digits.simps) (simp add: IH ascii_digit_of_value [OF d])
  qed
qed

text \<open>
  A decimal string stands for a \<open>u64\<close> exactly when it is that number's one decimal form:
  no sign, no leading zero, no empty string and no number past \<open>u64::MAX\<close> parses.
\<close>
theorem decimal_form_unique: "from_decimal s = Inr v \<longleftrightarrow> s = to_decimal v"
proof
  assume "from_decimal s = Inr v"
  then have "list_all is_ascii_digit s" "s \<noteq> []" "1 < length s \<longrightarrow> s ! 0 \<noteq> 48"
    "digits_value s < 2 ^ 64" and v: "v = of_nat (digits_value s)"
    by (auto simp: from_decimal_def split: if_splits)
  moreover from this have "unat v = digits_value s"
    by (simp add: unat_of_nat)
  ultimately show "s = to_decimal v"
    by (simp add: to_decimal_def decimal_digits_of_value)
next
  assume s: "s = to_decimal v"
  have "unat v < 2 ^ 64" using unsigned_less [of v] by simp
  moreover have "1 < length s \<longrightarrow> s ! 0 \<noteq> 48"
    using decimal_canonical_length decimal_digits_head by (auto simp: s to_decimal_def)
  ultimately show "from_decimal s = Inr v"
    by (simp add: from_decimal_def s to_decimal_def decimal_digits_value decimal_digits_ascii)
qed

end
