(* ===== verification/Tags.thy ===== *)
theory Tags
  imports Prelude
begin

text \<open>
  Record and tuple tags (\<^verbatim>\<open>tag.rs\<close>, \<section>4): one byte with the length of the domain
  string, the ASCII domain string, then the protocol version as a big-endian \<open>u16\<close>. The
  theorems make the tags a domain separation: they are pairwise different, no tag is a
  prefix of another record's bytes, and each is recognised from its domain string.
\<close>

definition PROTOCOL_VERSION :: u16 where
  "PROTOCOL_VERSION = 2"

datatype tag =
    Tag_DeviceCard
  | Tag_DeviceEnroll
  | Tag_DeviceId
  | Tag_Account
  | Tag_ApprovalCommit
  | Tag_ApprovalOffer
  | Tag_ApprovalCode
  | Tag_Policy
  | Tag_Epoch
  | Tag_EpochRecipients
  | Tag_KeyCheck
  | Tag_Envelope
  | Tag_Op
  | Tag_Payload
  | Tag_Checkpoint
  | Tag_ManifestLeaf
  | Tag_ManifestBucket
  | Tag_ManifestNode
  | Tag_ManifestHeads
  | Tag_Blob
  | Tag_BlobParts
  | Tag_Presence
  | Tag_PresencePayload
  | Tag_PresenceChannel
  | Tag_Profile
  | Tag_ProfilePayload
  | Tag_InviteToken
  | Tag_InviteContext
  | Tag_InvitePayload
  | Tag_ShareToken
  | Tag_Share
  | Tag_SharePayload
  | Tag_TextLineage
  | Tag_RecoveryKit
  | Tag_RecoveryKitPayload
  | Tag_RecoveryProof

text \<open>\<open>Tag::ALL\<close>, in the order of the table in \<section>32.\<close>

definition ALL_tags :: "tag list" where
  "ALL_tags =
    [Tag_DeviceCard, Tag_DeviceEnroll, Tag_DeviceId, Tag_Account,
     Tag_ApprovalCommit, Tag_ApprovalOffer, Tag_ApprovalCode, Tag_Policy,
     Tag_Epoch, Tag_EpochRecipients, Tag_KeyCheck, Tag_Envelope,
     Tag_Op, Tag_Payload, Tag_Checkpoint, Tag_ManifestLeaf,
     Tag_ManifestBucket, Tag_ManifestNode, Tag_ManifestHeads, Tag_Blob,
     Tag_BlobParts, Tag_Presence, Tag_PresencePayload, Tag_PresenceChannel,
     Tag_Profile, Tag_ProfilePayload, Tag_InviteToken, Tag_InviteContext,
     Tag_InvitePayload, Tag_ShareToken, Tag_Share, Tag_SharePayload,
     Tag_TextLineage, Tag_RecoveryKit, Tag_RecoveryKitPayload, Tag_RecoveryProof]"

primrec domain :: "tag \<Rightarrow> string" where
  "domain Tag_DeviceCard = ''noura.sync.device.card''"
| "domain Tag_DeviceEnroll = ''noura.sync.device.enroll''"
| "domain Tag_DeviceId = ''noura.sync.device.id''"
| "domain Tag_Account = ''noura.sync.account''"
| "domain Tag_ApprovalCommit = ''noura.sync.approval.commit''"
| "domain Tag_ApprovalOffer = ''noura.sync.approval.offer''"
| "domain Tag_ApprovalCode = ''noura.sync.approval.code''"
| "domain Tag_Policy = ''noura.sync.policy''"
| "domain Tag_Epoch = ''noura.sync.epoch''"
| "domain Tag_EpochRecipients = ''noura.sync.epoch.recipients''"
| "domain Tag_KeyCheck = ''noura.sync.key-check''"
| "domain Tag_Envelope = ''noura.sync.envelope''"
| "domain Tag_Op = ''noura.sync.op''"
| "domain Tag_Payload = ''noura.sync.payload''"
| "domain Tag_Checkpoint = ''noura.sync.checkpoint''"
| "domain Tag_ManifestLeaf = ''noura.sync.manifest.leaf''"
| "domain Tag_ManifestBucket = ''noura.sync.manifest.bucket''"
| "domain Tag_ManifestNode = ''noura.sync.manifest.node''"
| "domain Tag_ManifestHeads = ''noura.sync.manifest.heads''"
| "domain Tag_Blob = ''noura.sync.blob''"
| "domain Tag_BlobParts = ''noura.sync.blob.parts''"
| "domain Tag_Presence = ''noura.sync.presence''"
| "domain Tag_PresencePayload = ''noura.sync.presence.payload''"
| "domain Tag_PresenceChannel = ''noura.sync.presence.channel''"
| "domain Tag_Profile = ''noura.sync.profile''"
| "domain Tag_ProfilePayload = ''noura.sync.profile.payload''"
| "domain Tag_InviteToken = ''noura.sync.invite.token''"
| "domain Tag_InviteContext = ''noura.sync.invite.context''"
| "domain Tag_InvitePayload = ''noura.sync.invite.payload''"
| "domain Tag_ShareToken = ''noura.sync.share.token''"
| "domain Tag_Share = ''noura.sync.share''"
| "domain Tag_SharePayload = ''noura.sync.share.payload''"
| "domain Tag_TextLineage = ''noura.sync.text.lineage''"
| "domain Tag_RecoveryKit = ''noura.sync.recovery-kit''"
| "domain Tag_RecoveryKitPayload = ''noura.sync.recovery-kit.payload''"
| "domain Tag_RecoveryProof = ''noura.sync.recovery.proof''"

definition ascii :: "string \<Rightarrow> byte list" where
  "ascii = map of_char"

definition domain_bytes :: "tag \<Rightarrow> byte list" where
  "domain_bytes t = ascii (domain t)"

definition from_domain :: "byte list \<Rightarrow> tag option" where
  "from_domain d = find (\<lambda>t. domain_bytes t = d) ALL_tags"

definition tag_bytes :: "tag \<Rightarrow> byte list" where
  "tag_bytes t =
     of_nat (length (domain_bytes t)) # domain_bytes t @ word_bytes 2 PROTOCOL_VERSION"

definition encoded_len :: "tag \<Rightarrow> nat" where
  "encoded_len t = length (domain t) + 3"

subsection \<open>Domains tell tags apart\<close>

lemma ascii_inject [simp]: "ascii s = ascii t \<longleftrightarrow> s = t"
proof -
  have "inj (of_char :: char \<Rightarrow> byte)"
  proof (rule injI)
    fix c d :: char
    assume "(of_char c :: byte) = of_char d"
    then have "(of_nat (of_char c) :: byte) = of_nat (of_char d)"
      by (simp only: of_nat_of_char)
    then have "(of_char c :: nat) mod 256 = of_char d mod 256"
      by (metis unat_of_nat_byte)
    then show "c = d" by simp
  qed
  then show ?thesis by (simp add: ascii_def inj_map_eq_map)
qed

lemma length_ascii [simp]: "length (ascii s) = length s"
  by (simp add: ascii_def)

lemma all_tags_complete [simp]: "t \<in> set ALL_tags"
  by (cases t) (simp_all add: ALL_tags_def)

lemma domain_inject [simp]: "domain s = domain t \<longleftrightarrow> s = t"
proof
  have "distinct (map domain ALL_tags)"
    by code_simp
  moreover assume "domain s = domain t"
  ultimately show "s = t"
    by (metis all_tags_complete distinct_map inj_onD)
qed simp

lemma from_domain_bytes [simp]: "from_domain (domain_bytes t) = Some t"
proof -
  have "find (\<lambda>s. s = t) ts = Some t" if "t \<in> set ts" for ts
    using that by (induction ts) auto
  then show ?thesis
    by (simp add: from_domain_def domain_bytes_def)
qed

lemma from_domain_Some: "from_domain d = Some t \<Longrightarrow> d = domain_bytes t"
  by (auto simp: from_domain_def find_Some_iff)

lemma domain_short: "length (domain t) < 64"
  by (cases t) simp_all

lemma length_domain_bytes [simp]: "length (domain_bytes t) = length (domain t)"
  by (simp add: domain_bytes_def)

lemma unat_domain_length: "unat (of_nat (length (domain t)) :: byte) = length (domain t)"
  using domain_short [of t] by (simp add: unat_of_nat_byte)

lemma length_tag_bytes [simp]: "length (tag_bytes t) = encoded_len t"
  by (simp add: tag_bytes_def encoded_len_def)

text \<open>
  Tags separate domains: two byte strings that start with the encodings of
  two tags are equal only when the tags are the same and so is the rest, so a record of one
  kind never has the bytes of a record of another kind.\<close>

theorem tag_prefix_free: "tag_bytes s @ p = tag_bytes t @ q \<longleftrightarrow> s = t \<and> p = q"
proof
  assume eq: "tag_bytes s @ p = tag_bytes t @ q"
  then have "(of_nat (length (domain s)) :: byte) = of_nat (length (domain t))"
    by (simp add: tag_bytes_def)
  then have len: "length (domain s) = length (domain t)"
    by (metis unat_domain_length)
  with eq have "domain_bytes s = domain_bytes t"
    by (simp add: tag_bytes_def)
  then have "s = t"
    by (simp add: domain_bytes_def)
  with eq show "s = t \<and> p = q" by simp
qed simp

end
