(* ===== verification/Wire.thy ===== *)
theory Wire
  imports Tags Types
begin

text \<open>
  The binary encoding of \<^verbatim>\<open>codec.rs\<close> (\<section>4). A \<open>Writer\<close> only ever appends to its buffer,
  so an encoder is the list of bytes it appends. A \<open>Reader\<close> is a record of the whole input
  and the offset, and a decoder is a function from readers to an error or a value with the
  reader after it. The locale \<open>wire\<close> is the contract of the traits \<open>Encode\<close> and \<open>Decode\<close>;
  every field type is an interpretation of it, and the rules \<open>wire_decodes\<close> and
  \<open>wire_canonical\<close> carry it from the fields to the records.
\<close>

subsection \<open>Errors\<close>

datatype decode_error_kind =
    Truncated | TrailingBytes | TooLong | WrongLength | UnknownTag | WrongTag
  | UnsupportedVersion | UnknownValue | BadOption | NotSorted | ZeroId_kind | InvalidUtf8
  | DeviceIdMismatch | OutOfRange | InvalidPath

fun decode_kind_name :: "decode_error_kind \<Rightarrow> string" where
  "decode_kind_name Truncated = ''truncated''"
| "decode_kind_name TrailingBytes = ''trailing_bytes''"
| "decode_kind_name TooLong = ''too_long''"
| "decode_kind_name WrongLength = ''wrong_length''"
| "decode_kind_name UnknownTag = ''unknown_tag''"
| "decode_kind_name WrongTag = ''wrong_tag''"
| "decode_kind_name UnsupportedVersion = ''unsupported_version''"
| "decode_kind_name UnknownValue = ''unknown_value''"
| "decode_kind_name BadOption = ''bad_option''"
| "decode_kind_name NotSorted = ''not_sorted''"
| "decode_kind_name ZeroId_kind = ''zero_id''"
| "decode_kind_name InvalidUtf8 = ''invalid_utf8''"
| "decode_kind_name DeviceIdMismatch = ''device_id_mismatch''"
| "decode_kind_name OutOfRange = ''out_of_range''"
| "decode_kind_name InvalidPath = ''invalid_path''"

fun decode_server_code :: "decode_error_kind \<Rightarrow> string" where
  "decode_server_code UnsupportedVersion = ''version_unsupported''"
| "decode_server_code TooLong = ''too_large''"
| "decode_server_code _ = ''bad_request''"

record decode_error =
  de_kind :: decode_error_kind
  de_offset :: nat

text \<open>\<open>usize::MAX\<close> on the 64-bit targets, which stands for a field without a limit of its own.\<close>

definition usize_MAX :: nat where
  "usize_MAX = 2 ^ 64 - 1"

definition UNBOUNDED :: nat where
  "UNBOUNDED = usize_MAX"

definition STR_MAX :: nat where
  "STR_MAX = 4096"

subsection \<open>The reader\<close>

record reader =
  rbuf :: "byte list"
  rpos :: nat

type_synonym 'a decoder = "reader \<Rightarrow> decode_error + 'a \<times> reader"

definition new_reader :: "byte list \<Rightarrow> reader" where
  "new_reader buf = \<lparr>rbuf = buf, rpos = 0\<rparr>"

definition remaining :: "reader \<Rightarrow> nat" where
  "remaining r = length (rbuf r) - rpos r"

definition error_at :: "decode_error_kind \<Rightarrow> nat \<Rightarrow> decode_error" where
  "error_at kind offset = \<lparr>de_kind = kind, de_offset = offset\<rparr>"

text \<open>Sequencing with \<open>?\<close>, the current offset, and the early returns.\<close>

definition rret :: "'a \<Rightarrow> 'a decoder" where
  "rret x r = Inr (x, r)"

definition rbind :: "'a decoder \<Rightarrow> ('a \<Rightarrow> 'b decoder) \<Rightarrow> 'b decoder" where
  "rbind d f r = and_then (d r) (\<lambda>(x, r'). f x r')"

definition roffset :: "nat decoder" where
  "roffset r = Inr (rpos r, r)"

definition rfail :: "decode_error \<Rightarrow> 'a decoder" where
  "rfail e r = Inl e"

definition rensure :: "bool \<Rightarrow> decode_error \<Rightarrow> unit decoder" where
  "rensure b e = (if b then rret () else rfail e)"

definition rtake :: "nat \<Rightarrow> byte list decoder" where
  "rtake n r =
     (if n > remaining r then Inl (error_at Truncated (rpos r))
      else Inr (take n (drop (rpos r) (rbuf r)), r\<lparr>rpos := rpos r + n\<rparr>))"

text \<open>\<open>array::<N>\<close> read as a big-endian word: the integers and the fixed-size newtypes.\<close>

definition rword :: "nat \<Rightarrow> 'a::len word decoder" where
  "rword n = rbind (rtake n) (\<lambda>bs. rret (bytes_word bs))"

definition ru8 :: "u8 decoder" where "ru8 = rword 1"
definition ru16 :: "u16 decoder" where "ru16 = rword 2"
definition ru32 :: "u32 decoder" where "ru32 = rword 4"
definition ru64 :: "u64 decoder" where "ru64 = rword 8"

definition rbytes :: "nat \<Rightarrow> byte list decoder" where
  "rbytes limit =
     rbind roffset (\<lambda>start. rbind ru32 (\<lambda>len r.
       if unat len > limit then Inl (error_at TooLong start)
       else if unat len > remaining r then Inl (error_at Truncated start)
       else rtake (unat len) r))"

definition rbytes_exact :: "nat \<Rightarrow> byte list decoder" where
  "rbytes_exact len =
     rbind roffset (\<lambda>start. rbind ru32 (\<lambda>found.
       if unat found \<noteq> len then rfail (error_at WrongLength start) else rtake len))"

text \<open>\<open>std::str::from_utf8\<close>: well-formed UTF-8 without surrogates or overlong forms.\<close>

definition cont :: "byte \<Rightarrow> bool" where
  "cont b \<longleftrightarrow> 0x80 \<le> b \<and> b \<le> 0xBF"

fun utf8_valid :: "byte list \<Rightarrow> bool" where
  "utf8_valid [] = True"
| "utf8_valid (a # as) =
    (if a < 0x80 then utf8_valid as
     else case as of [] \<Rightarrow> False | b # bs \<Rightarrow>
       if 0xC2 \<le> a \<and> a \<le> 0xDF then cont b \<and> utf8_valid bs
       else case bs of [] \<Rightarrow> False | c # cs \<Rightarrow>
         if 0xE0 \<le> a \<and> a \<le> 0xEF
         then (a = 0xE0 \<longrightarrow> 0xA0 \<le> b) \<and> (a = 0xED \<longrightarrow> b \<le> 0x9F)
            \<and> cont b \<and> cont c \<and> utf8_valid cs
         else case cs of [] \<Rightarrow> False | d # ds \<Rightarrow>
           0xF0 \<le> a \<and> a \<le> 0xF4 \<and> (a = 0xF0 \<longrightarrow> 0x90 \<le> b) \<and> (a = 0xF4 \<longrightarrow> b \<le> 0x8F)
            \<and> cont b \<and> cont c \<and> cont d \<and> utf8_valid ds)"

definition rstr :: "nat \<Rightarrow> byte list decoder" where
  "rstr limit =
     rbind roffset (\<lambda>start. rbind ru16 (\<lambda>len.
       if unat len > limit then rfail (error_at TooLong start)
       else rbind (rtake (unat len)) (\<lambda>bs.
         rbind (rensure (utf8_valid bs) (error_at InvalidUtf8 start)) (\<lambda>_. rret bs))))"

definition saturating_mul :: "nat \<Rightarrow> nat \<Rightarrow> nat" where
  "saturating_mul a b = min (a * b) usize_MAX"

definition rcount :: "nat \<Rightarrow> nat \<Rightarrow> nat decoder" where
  "rcount limit min_size =
     rbind roffset (\<lambda>start. rbind ru32 (\<lambda>count r.
       if unat count > limit then Inl (error_at TooLong start)
       else if saturating_mul (unat count) (max min_size 1) > remaining r
       then Inl (error_at Truncated start)
       else Inr (unat count, r)))"

definition ropt :: "bool decoder" where
  "ropt = rbind roffset (\<lambda>start. rbind ru8 (\<lambda>b.
     if b = 0 then rret False else if b = 1 then rret True
     else rfail (error_at BadOption start)))"

definition any_tag :: "tag decoder" where
  "any_tag = rbind roffset (\<lambda>start. rbind ru8 (\<lambda>len.
     if unat len \<ge> 0x40 then rfail (error_at UnknownTag start)
     else rbind (rtake (unat len)) (\<lambda>d.
       case (if utf8_valid d then from_domain d else None) of
         None \<Rightarrow> rfail (error_at UnknownTag start)
       | Some t \<Rightarrow> rbind ru16 (\<lambda>version.
           if version \<noteq> PROTOCOL_VERSION then rfail (error_at UnsupportedVersion start)
           else rret t))))"

definition rtag :: "tag \<Rightarrow> unit decoder" where
  "rtag expected = rbind roffset (\<lambda>start. rbind any_tag (\<lambda>found.
     rensure (found = expected) (error_at WrongTag start)))"

definition finish :: "reader \<Rightarrow> decode_error + unit" where
  "finish r = ensure (remaining r = 0) (error_at TrailingBytes (rpos r))"

text \<open>\<open>Decode::from_bytes\<close>: one value and nothing after it.\<close>

definition from_bytes :: "'a decoder \<Rightarrow> byte list \<Rightarrow> decode_error + 'a" where
  "from_bytes dec bytes =
     and_then (dec (new_reader bytes)) (\<lambda>(value, r). and_then (finish r) (\<lambda>_. Inr value))"

subsection \<open>Field encodings\<close>

definition w_u8 :: "u8 \<Rightarrow> byte list" where "w_u8 v = [v]"
definition w_u16 :: "u16 \<Rightarrow> byte list" where "w_u16 v = word_bytes 2 v"
definition w_u32 :: "u32 \<Rightarrow> byte list" where "w_u32 v = word_bytes 4 v"
definition w_u64 :: "u64 \<Rightarrow> byte list" where "w_u64 v = word_bytes 8 v"

text \<open>
  \<open>Writer::bytes\<close>, \<open>Writer::str\<close> and \<open>encode_list\<close> panic when a length does not fit its
  prefix. \<open>fits_u32\<close> and \<open>fits_u16\<close> are the negations of those panics: the well-formedness
  predicate of every type that holds such a field includes them, and nothing is stated of
  the encoding of a value outside it.
\<close>

definition fits_u16 :: "nat \<Rightarrow> bool" where "fits_u16 n \<longleftrightarrow> n < 2 ^ 16"
definition fits_u32 :: "nat \<Rightarrow> bool" where "fits_u32 n \<longleftrightarrow> n < 2 ^ 32"

definition w_bytes :: "byte list \<Rightarrow> byte list" where
  "w_bytes bs = w_u32 (of_nat (length bs)) @ bs"

definition w_str :: "byte list \<Rightarrow> byte list" where
  "w_str s = w_u16 (of_nat (length s)) @ s"

definition enc_bool :: "bool \<Rightarrow> byte list" where
  "enc_bool b = w_u8 (if b then 1 else 0)"

definition dec_bool :: "bool decoder" where
  "dec_bool = rbind roffset (\<lambda>start. rbind ru8 (\<lambda>b.
     if b = 0 then rret False else if b = 1 then rret True
     else rfail (error_at UnknownValue start)))"

definition enc_option :: "('a \<Rightarrow> byte list) \<Rightarrow> 'a option \<Rightarrow> byte list" where
  "enc_option enc x = (case x of None \<Rightarrow> w_u8 0 | Some v \<Rightarrow> w_u8 1 @ enc v)"

definition dec_option :: "'a decoder \<Rightarrow> 'a option decoder" where
  "dec_option dec = rbind ropt (\<lambda>present.
     if present then rbind dec (\<lambda>v. rret (Some v)) else rret None)"

definition encode_list :: "('a \<Rightarrow> byte list) \<Rightarrow> 'a list \<Rightarrow> byte list" where
  "encode_list enc items = w_u32 (of_nat (length items)) @ concat (map enc items)"

fun rrepeat :: "nat \<Rightarrow> 'a decoder \<Rightarrow> 'a list decoder" where
  "rrepeat 0 d = rret []"
| "rrepeat (Suc n) d = rbind d (\<lambda>x. rbind (rrepeat n d) (\<lambda>xs. rret (x # xs)))"

definition decode_list :: "nat \<Rightarrow> nat \<Rightarrow> 'a decoder \<Rightarrow> 'a list decoder" where
  "decode_list limit min_size dec = rbind (rcount limit min_size) (\<lambda>count. rrepeat count dec)"

text \<open>\<open>Sorted<T, S>\<close>: the keys of neighbours rise strictly.\<close>

definition rises_strictly :: "('a \<Rightarrow> byte list) \<Rightarrow> 'a list \<Rightarrow> bool" where
  "rises_strictly key items = list_all (\<lambda>(a, b). key a < key b) (windows2 items)"

definition dec_sorted :: "('a \<Rightarrow> byte list) \<Rightarrow> nat \<Rightarrow> nat \<Rightarrow> 'a decoder \<Rightarrow> 'a list decoder" where
  "dec_sorted key limit min_size dec =
     rbind roffset (\<lambda>start. rbind (decode_list limit min_size dec) (\<lambda>items.
       rbind (rensure (rises_strictly key items) (error_at NotSorted start)) (\<lambda>_. rret items)))"

text \<open>\<open>Sorted::new\<close>: sorts by key, and refuses duplicate keys and too many elements.\<close>

definition sorted_new :: "('a \<Rightarrow> byte list) \<Rightarrow> nat \<Rightarrow> 'a list \<Rightarrow> decode_error_kind + 'a list" where
  "sorted_new key limit items =
     (if length items > limit then Inl TooLong
      else let items' = sort_key key items in
        if rises_strictly key items' then Inr items' else Inl NotSorted)"

text \<open>\<open>Nested<T>\<close>: a \<open>bytes\<close> field that holds another encoded value.\<close>

definition enc_nested :: "('a \<Rightarrow> byte list) \<Rightarrow> 'a \<Rightarrow> byte list" where
  "enc_nested enc x = w_bytes (enc x)"

definition dec_nested :: "'a decoder \<Rightarrow> 'a decoder" where
  "dec_nested dec = rbind (rbytes UNBOUNDED) (\<lambda>inner. rbind roffset (\<lambda>end.
     case from_bytes dec inner of
       Inl e \<Rightarrow> rfail (e\<lparr>de_offset := de_offset e + (end - length inner)\<rparr>)
     | Inr x \<Rightarrow> rret x))"

text \<open>The fixed-size newtypes; only \<open>Id\<close> refuses a value, the reserved zero.\<close>

definition dec_ident :: "ident decoder" where
  "dec_ident = rbind roffset (\<lambda>start. rbind (rword 16) (\<lambda>w.
     rbind (rensure (\<not> ident_is_zero (Ident w)) (error_at ZeroId_kind start)) (\<lambda>_. rret (Ident w))))"

definition dec_digest :: "digest decoder" where
  "dec_digest = rbind (rword 32) (\<lambda>w. rret (Digest w))"

definition dec_pubkey :: "pubkey decoder" where
  "dec_pubkey = rbind (rword 32) (\<lambda>w. rret (Key w))"

definition dec_nonce :: "nonce decoder" where
  "dec_nonce = rbind (rword 24) (\<lambda>w. rret (Nonce w))"

definition dec_signature :: "signature decoder" where
  "dec_signature = rbind (rword 64) (\<lambda>w. rret (Signature w))"

definition nonce_bytes :: "nonce \<Rightarrow> byte list" where
  "nonce_bytes n = word_bytes 24 (nonce_val n)"

definition signature_bytes :: "signature \<Rightarrow> byte list" where
  "signature_bytes s = word_bytes 64 (signature_val s)"

end
