(* ===== verification/Wire_Laws.thy ===== *)
theory Wire_Laws
  imports Wire
begin

text \<open>
  The contract of \<open>Encode\<close> and \<open>Decode\<close> as a locale, the rules that carry it through the
  reader's combinators, and its interpretations on the field types of \<^verbatim>\<open>codec.rs\<close> and
  \<^verbatim>\<open>types.rs\<close>. From the contract follow the two promises of the codec: what an encoder
  writes decodes to the value, and a decoder accepts no other bytes for it.
\<close>

subsection \<open>Consumption\<close>

text \<open>\<open>reads r r' bs\<close>: going from \<open>r\<close> to \<open>r'\<close> consumed exactly the bytes \<open>bs\<close>.\<close>

definition reads :: "reader \<Rightarrow> reader \<Rightarrow> byte list \<Rightarrow> bool" where
  "reads r r' bs \<longleftrightarrow> rbuf r' = rbuf r \<and> rpos r' = rpos r + length bs
     \<and> rpos r' \<le> length (rbuf r) \<and> take (length bs) (drop (rpos r) (rbuf r)) = bs"

definition decodes :: "'a decoder \<Rightarrow> byte list \<Rightarrow> 'a \<Rightarrow> bool" where
  "decodes d bs x \<longleftrightarrow> (\<forall>pre post. d \<lparr>rbuf = pre @ bs @ post, rpos = length pre\<rparr> =
     Inr (x, \<lparr>rbuf = pre @ bs @ post, rpos = length pre + length bs\<rparr>))"

definition accepts :: "'a decoder \<Rightarrow> ('a \<Rightarrow> byte list \<Rightarrow> bool) \<Rightarrow> bool" where
  "accepts d Q \<longleftrightarrow> (\<forall>r y r'. rpos r \<le> length (rbuf r) \<longrightarrow> d r = Inr (y, r') \<longrightarrow>
     (\<exists>bs. reads r r' bs \<and> Q y bs))"

lemma reads_refl [simp]: "rpos r \<le> length (rbuf r) \<Longrightarrow> reads r r []"
  by (simp add: reads_def)

lemma reads_trans:
  assumes "reads r r' as" and "reads r' r'' bs"
  shows "reads r r'' (as @ bs)"
proof -
  have "take (length as + length bs) (drop (rpos r) (rbuf r)) =
      take (length as) (drop (rpos r) (rbuf r)) @
      take (length bs) (drop (length as) (drop (rpos r) (rbuf r)))"
    by (rule take_add)
  then show ?thesis
    using assms by (simp add: reads_def add.assoc add.commute)
qed

lemma decodesI:
  "(\<And>pre post. d \<lparr>rbuf = pre @ bs @ post, rpos = length pre\<rparr> =
     Inr (x, \<lparr>rbuf = pre @ bs @ post, rpos = length pre + length bs\<rparr>)) \<Longrightarrow> decodes d bs x"
  by (simp add: decodes_def)

lemma decodesD:
  "decodes d bs x \<Longrightarrow> d \<lparr>rbuf = pre @ bs @ post, rpos = length pre\<rparr> =
     Inr (x, \<lparr>rbuf = pre @ bs @ post, rpos = length pre + length bs\<rparr>)"
  by (simp add: decodes_def)

lemma acceptsI:
  "(\<And>r y r'. rpos r \<le> length (rbuf r) \<Longrightarrow> d r = Inr (y, r') \<Longrightarrow> \<exists>bs. reads r r' bs \<and> Q y bs) \<Longrightarrow>
   accepts d Q"
  by (simp add: accepts_def)

lemma acceptsE:
  assumes "accepts d Q" and "d r = Inr (y, r')" and "rpos r \<le> length (rbuf r)"
  obtains bs where "reads r r' bs" and "Q y bs"
  using assms unfolding accepts_def by blast

subsection \<open>Rules for the combinators\<close>

lemma decodes_ret [wire_decodes]: "decodes (rret x) [] x"
  by (simp add: decodes_def rret_def)

lemma decodes_retI: "y = x \<Longrightarrow> decodes (rret y) [] x"
  by (simp add: decodes_ret)

lemma decodes_bind:
  assumes "decodes d as x" and "decodes (f x) bs y"
  shows "decodes (rbind d f) (as @ bs) y"
proof (rule decodesI)
  fix pre post
  have "d \<lparr>rbuf = pre @ as @ bs @ post, rpos = length pre\<rparr> =
      Inr (x, \<lparr>rbuf = pre @ as @ bs @ post, rpos = length pre + length as\<rparr>)"
    using decodesD [OF assms(1), of pre "bs @ post"] by simp
  moreover have "f x \<lparr>rbuf = pre @ as @ bs @ post, rpos = length pre + length as\<rparr> =
      Inr (y, \<lparr>rbuf = pre @ as @ bs @ post, rpos = length pre + (length as + length bs)\<rparr>)"
    using decodesD [OF assms(2), of "pre @ as" post] by (simp add: add.assoc)
  ultimately show "rbind d f \<lparr>rbuf = pre @ (as @ bs) @ post, rpos = length pre\<rparr> =
      Inr (y, \<lparr>rbuf = pre @ (as @ bs) @ post, rpos = length pre + length (as @ bs)\<rparr>)"
    by (simp add: rbind_def)
qed

text \<open>A last field, whose encoding is not an append.\<close>

lemma decodes_last:
  assumes "decodes d as x" and "decodes (f x) [] y"
  shows "decodes (rbind d f) as y"
  using decodes_bind [of d as x f "[]" y] assms by simp

lemma decodes_offset [wire_decodes]:
  "(\<And>off. decodes (f off) bs y) \<Longrightarrow> decodes (rbind roffset f) bs y"
  by (simp add: decodes_def rbind_def roffset_def)

lemma decodes_ensure [wire_decodes]: "b \<Longrightarrow> decodes (rensure b e) [] ()"
  by (simp add: rensure_def decodes_ret)

lemma decodes_if [wire_decodes]:
  "(b \<Longrightarrow> decodes d bs x) \<Longrightarrow> (\<not> b \<Longrightarrow> decodes d' bs x) \<Longrightarrow> decodes (if b then d else d') bs x"
  by simp

lemma accepts_ret [wire_canonical]: "Q x [] \<Longrightarrow> accepts (rret x) Q"
  by (rule acceptsI) (auto simp: rret_def intro!: exI [of _ "[]"])

lemma accepts_bind:
  assumes "accepts d P" and "\<And>x as. P x as \<Longrightarrow> accepts (f x) (\<lambda>y bs. Q y (as @ bs))"
  shows "accepts (rbind d f) Q"
proof (rule acceptsI)
  fix r y r''
  assume ok: "rpos r \<le> length (rbuf r)" and "rbind d f r = Inr (y, r'')"
  then obtain x r' where x: "d r = Inr (x, r')" and y: "f x r' = Inr (y, r'')"
    by (auto simp: rbind_def)
  obtain as where as: "reads r r' as" "P x as"
    using acceptsE [OF assms(1) x ok] by blast
  then have "rpos r' \<le> length (rbuf r')"
    by (simp add: reads_def)
  then obtain bs where "reads r' r'' bs" "Q y (as @ bs)"
    using acceptsE [OF assms(2) [OF as(2)] y] by blast
  with as show "\<exists>bs. reads r r'' bs \<and> Q y bs"
    using reads_trans by blast
qed

lemma accepts_mono: "accepts d P \<Longrightarrow> (\<And>x bs. P x bs \<Longrightarrow> Q x bs) \<Longrightarrow> accepts d Q"
  unfolding accepts_def by blast

lemma accepts_offset [wire_canonical]:
  "(\<And>off. accepts (f off) Q) \<Longrightarrow> accepts (rbind roffset f) Q"
  by (simp add: accepts_def rbind_def roffset_def)

lemma accepts_fail [wire_canonical]: "accepts (rfail e) Q"
  by (simp add: accepts_def rfail_def)

lemma accepts_ensure [wire_canonical]: "accepts (rensure b e) (\<lambda>_ bs. b \<and> bs = [])"
  by (auto simp: rensure_def intro: accepts_ret accepts_fail)

lemma accepts_if [wire_canonical]:
  "(b \<Longrightarrow> accepts d Q) \<Longrightarrow> (\<not> b \<Longrightarrow> accepts d' Q) \<Longrightarrow> accepts (if b then d else d') Q"
  by simp

lemma decodes_take [wire_decodes]: "length bs = n \<Longrightarrow> decodes (rtake n) bs bs"
  by (rule decodesI) (simp add: rtake_def remaining_def)

lemma accepts_take [wire_canonical]: "accepts (rtake n) (\<lambda>x bs. bs = x \<and> length x = n)"
  by (rule acceptsI) (auto simp: rtake_def remaining_def reads_def split: if_splits)

subsection \<open>The contract\<close>

locale wire =
  fixes enc :: "'a \<Rightarrow> byte list"
    and dec :: "'a decoder"
    and wf :: "'a \<Rightarrow> bool"
    and min_size :: nat
  assumes decodes_enc: "wf x \<Longrightarrow> decodes dec (enc x) x"
    and accepts_dec: "accepts dec (\<lambda>x bs. wf x \<and> bs = enc x)"
    and min_size_le: "wf x \<Longrightarrow> min_size \<le> length (enc x)"
begin

lemma from_bytes_enc: "wf x \<Longrightarrow> from_bytes dec (enc x) = Inr x"
  using decodesD [OF decodes_enc, of x "[]" "[]"]
  by (simp add: from_bytes_def new_reader_def finish_def remaining_def)

lemma from_bytes_canonical:
  assumes "from_bytes dec bs = Inr x"
  shows "wf x" and "enc x = bs"
proof -
  obtain r where r: "dec (new_reader bs) = Inr (x, r)" and fin: "remaining r = 0"
    using assms by (auto simp: from_bytes_def finish_def)
  obtain cs where "reads (new_reader bs) r cs" and "wf x" and "cs = enc x"
    using acceptsE [OF accepts_dec r] by (auto simp: new_reader_def)
  with fin show "wf x" and "enc x = bs"
    by (auto simp: reads_def new_reader_def remaining_def)
qed

lemma from_bytes_iff: "from_bytes dec bs = Inr x \<longleftrightarrow> wf x \<and> bs = enc x"
  using from_bytes_enc from_bytes_canonical by blast

lemma enc_prefix_free:
  assumes "wf x" and "wf y" and "enc x @ p = enc y @ q"
  shows "x = y \<and> p = q"
proof -
  have "Inr (x, \<lparr>rbuf = enc x @ p, rpos = length (enc x)\<rparr>) =
      dec \<lparr>rbuf = enc x @ p, rpos = 0\<rparr>"
    using decodesD [OF decodes_enc [OF assms(1)], of "[]" p] by simp
  also have "\<dots> = Inr (y, \<lparr>rbuf = enc y @ q, rpos = length (enc y)\<rparr>)"
    using decodesD [OF decodes_enc [OF assms(2)], of "[]" q] assms(3) by simp
  finally have "x = y" by simp
  with assms(3) show ?thesis by simp
qed

lemma enc_inject: "wf x \<Longrightarrow> wf y \<Longrightarrow> enc x = enc y \<Longrightarrow> x = y"
  using enc_prefix_free [of x y "[]" "[]"] by simp

end

text \<open>A type whose values a bijection takes to an encodable type.\<close>

lemma wire_word:
  assumes "LENGTH('a::len) = 8 * n"
  shows "wire (word_bytes n :: 'a word \<Rightarrow> byte list) (rword n) (\<lambda>_. True) n"
proof
  fix x :: "'a word"
  show "decodes (rword n) (word_bytes n x) x"
    unfolding rword_def
    by (rule decodes_last, rule decodes_take)
      (simp_all add: bytes_word_word_bytes [OF assms] decodes_ret)
  show "accepts (rword n) (\<lambda>x bs. True \<and> bs = word_bytes n (x :: 'a word))"
    unfolding rword_def
    by (rule accepts_bind, rule accepts_take, rule accepts_ret)
      (simp add: word_bytes_bytes_word [OF assms])
  show "n \<le> length (word_bytes n x)" by simp
qed

interpretation u8: wire "w_u8" ru8 "\<lambda>_. True" 1
proof -
  have eq: "w_u8 = word_bytes 1"
    by (simp add: fun_eq_iff w_u8_def word_bytes_def)
  show "wire w_u8 ru8 (\<lambda>_. True) 1"
    unfolding ru8_def eq by (rule wire_word) simp
qed

interpretation u16: wire w_u16 ru16 "\<lambda>_. True" 2
  unfolding w_u16_def ru16_def by (rule wire_word) simp

interpretation u32: wire w_u32 ru32 "\<lambda>_. True" 4
  unfolding w_u32_def ru32_def by (rule wire_word) simp

interpretation u64: wire w_u64 ru64 "\<lambda>_. True" 8
  unfolding w_u64_def ru64_def by (rule wire_word) simp

lemmas [wire_decodes] = u8.decodes_enc u16.decodes_enc u32.decodes_enc u64.decodes_enc
lemmas [wire_canonical] = u8.accepts_dec u16.accepts_dec u32.accepts_dec u64.accepts_dec

subsection \<open>Fixed-size newtypes and flags\<close>

definition wf_ident :: "ident \<Rightarrow> bool" where
  "wf_ident i \<longleftrightarrow> \<not> ident_is_zero i"

lemma wire_newtype:
  assumes len: "LENGTH('a::len) = 8 * n" and mk: "\<And>x. mk (val x) = x" "\<And>w. val (mk w) = w"
  shows "wire (\<lambda>x. word_bytes n (val x :: 'a word)) (rbind (rword n) (\<lambda>w. rret (mk w))) (\<lambda>_. True) n"
proof
  show "decodes (rbind (rword n) (\<lambda>w. rret (mk w))) (word_bytes n (val x)) x" for x
    by (rule decodes_last, rule wire.decodes_enc [OF wire_word [OF len]])
      (simp_all add: mk decodes_ret)
  show "accepts (rbind (rword n) (\<lambda>w. rret (mk w))) (\<lambda>x bs. True \<and> bs = word_bytes n (val x))"
    by (rule accepts_bind, rule wire.accepts_dec [OF wire_word [OF len]], rule accepts_ret)
      (simp add: mk)
qed simp

interpretation digest: wire digest_bytes dec_digest "\<lambda>_. True" 32
  unfolding digest_bytes_def dec_digest_def by (rule wire_newtype) simp_all

interpretation pubkey: wire pubkey_bytes dec_pubkey "\<lambda>_. True" 32
  unfolding pubkey_bytes_def dec_pubkey_def by (rule wire_newtype) simp_all

interpretation nonce: wire nonce_bytes dec_nonce "\<lambda>_. True" 24
  unfolding nonce_bytes_def dec_nonce_def by (rule wire_newtype) simp_all

interpretation signature: wire signature_bytes dec_signature "\<lambda>_. True" 64
  unfolding signature_bytes_def dec_signature_def by (rule wire_newtype) simp_all

lemma length_word16 [simp]: "LENGTH(128) = 8 * 16"
  by simp

interpretation ident: wire ident_bytes dec_ident wf_ident 16
proof
  have w: "wire (word_bytes 16 :: 128 word \<Rightarrow> byte list) (rword 16) (\<lambda>_. True) 16"
    by (rule wire_word) simp
  show "decodes dec_ident (ident_bytes x) x" if "wf_ident x" for x
    unfolding dec_ident_def ident_bytes_def
    by (rule decodes_offset, rule decodes_last, rule wire.decodes_enc [OF w], simp,
        rule decodes_last, rule decodes_ensure)
      (use that in \<open>simp_all add: wf_ident_def decodes_ret\<close>)
  show "accepts dec_ident (\<lambda>x bs. wf_ident x \<and> bs = ident_bytes x)"
    unfolding dec_ident_def ident_bytes_def
    by (rule accepts_offset, rule accepts_bind, rule wire.accepts_dec [OF w],
        rule accepts_bind, rule accepts_ensure, rule accepts_ret) (simp add: wf_ident_def)
qed simp

lemmas [wire_decodes] = digest.decodes_enc pubkey.decodes_enc nonce.decodes_enc
  signature.decodes_enc ident.decodes_enc
lemmas [wire_canonical] = digest.accepts_dec pubkey.accepts_dec nonce.accepts_dec
  signature.accepts_dec ident.accepts_dec

interpretation bool: wire enc_bool dec_bool "\<lambda>_. True" 1
proof
  show "decodes dec_bool (enc_bool x) x" for x
    unfolding dec_bool_def enc_bool_def
    by (rule decodes_offset, rule decodes_last, rule u8.decodes_enc) (simp_all add: decodes_ret)
  show "accepts dec_bool (\<lambda>x bs. True \<and> bs = enc_bool x)"
    unfolding dec_bool_def enc_bool_def
    by (rule accepts_offset, rule accepts_bind, rule u8.accepts_dec)
      (auto intro!: accepts_if accepts_ret accepts_fail)
qed (simp add: enc_bool_def w_u8_def)

lemmas [wire_decodes] = bool.decodes_enc
lemmas [wire_canonical] = bool.accepts_dec

subsection \<open>Length-prefixed fields\<close>

lemma unat_length_u32: "fits_u32 n \<Longrightarrow> unat (of_nat n :: u32) = n"
  by (simp add: fits_u32_def unat_of_nat)

lemma unat_length_u16: "fits_u16 n \<Longrightarrow> unat (of_nat n :: u16) = n"
  by (simp add: fits_u16_def unat_of_nat)

lemma unat_fits_u32: "fits_u32 (unat (w :: u32))"
  using unsigned_less [of w] by (simp add: fits_u32_def)

lemma unat_fits_u16: "fits_u16 (unat (w :: u16))"
  using unsigned_less [of w] by (simp add: fits_u16_def)

lemma of_nat_unat_eq: "n = unat w \<Longrightarrow> of_nat n = (w :: 'a::len word)"
  by simp

definition wf_bytes :: "nat \<Rightarrow> byte list \<Rightarrow> bool" where
  "wf_bytes limit bs \<longleftrightarrow> length bs \<le> limit \<and> fits_u32 (length bs)"

lemma wire_bytes: "wire w_bytes (rbytes limit) (wf_bytes limit) 4"
proof
  fix bs
  assume wf: "wf_bytes limit bs"
  show "decodes (rbytes limit) (w_bytes bs) bs"
    unfolding rbytes_def w_bytes_def
  proof (rule decodes_offset, rule decodes_bind [OF u32.decodes_enc [OF TrueI]], rule decodesI)
    fix off pre post
    have "unat (of_nat (length bs) :: u32) = length bs"
      using wf by (simp add: wf_bytes_def unat_length_u32)
    then show "(if unat (of_nat (length bs) :: u32) > limit then Inl (error_at TooLong off)
        else if unat (of_nat (length bs) :: u32) > remaining \<lparr>rbuf = pre @ bs @ post, rpos = length pre\<rparr>
        then Inl (error_at Truncated off)
        else rtake (unat (of_nat (length bs) :: u32)) \<lparr>rbuf = pre @ bs @ post, rpos = length pre\<rparr>) =
        Inr (bs, \<lparr>rbuf = pre @ bs @ post, rpos = length pre + length bs\<rparr>)"
      using wf decodesD [OF decodes_take [of bs, OF refl], of pre post]
      by (simp add: wf_bytes_def remaining_def)
  qed
next
  show "accepts (rbytes limit) (\<lambda>x bs. wf_bytes limit x \<and> bs = w_bytes x)"
    unfolding rbytes_def w_bytes_def
  proof (rule accepts_offset, rule accepts_bind, rule u32.accepts_dec)
    fix off and len :: u32 and as
    assume as: "True \<and> as = w_u32 len"
    have "accepts (rtake (unat len))
        (\<lambda>y bs. wf_bytes (max limit (unat len)) y \<and> as @ bs = w_u32 (of_nat (length y)) @ y)"
      by (rule accepts_mono [OF accepts_take])
        (use as in \<open>auto simp: wf_bytes_def unat_fits_u32\<close>)
    then show "accepts (\<lambda>r. if unat len > limit then Inl (error_at TooLong off)
          else if unat len > remaining r then Inl (error_at Truncated off)
          else rtake (unat len) r)
        (\<lambda>y bs. wf_bytes limit y \<and> as @ bs = w_u32 (of_nat (length y)) @ y)"
      unfolding accepts_def by (auto simp: max_def split: if_splits)
  qed
qed (simp add: w_bytes_def w_u32_def)

definition wf_exact :: "nat \<Rightarrow> byte list \<Rightarrow> bool" where
  "wf_exact n bs \<longleftrightarrow> length bs = n"

lemma wire_bytes_exact:
  assumes "fits_u32 n"
  shows "wire w_bytes (rbytes_exact n) (wf_exact n) (4 + n)"
proof
  show "decodes (rbytes_exact n) (w_bytes bs) bs" if "wf_exact n bs" for bs
    unfolding rbytes_exact_def w_bytes_def
    by (rule decodes_offset, rule decodes_bind [OF u32.decodes_enc [OF TrueI]])
      (use that assms in \<open>simp add: wf_exact_def unat_length_u32 decodes_take\<close>)
  show "accepts (rbytes_exact n) (\<lambda>x bs. wf_exact n x \<and> bs = w_bytes x)"
    unfolding rbytes_exact_def w_bytes_def
    by (rule accepts_offset, rule accepts_bind, rule u32.accepts_dec, rule accepts_if,
        rule accepts_fail, rule accepts_mono, rule accepts_take)
      (auto simp: wf_exact_def)
qed (simp add: w_bytes_def w_u32_def wf_exact_def)

definition wf_str :: "nat \<Rightarrow> byte list \<Rightarrow> bool" where
  "wf_str limit s \<longleftrightarrow> length s \<le> limit \<and> fits_u16 (length s) \<and> utf8_valid s"

lemma wire_str: "wire w_str (rstr limit) (wf_str limit) 2"
proof
  show "decodes (rstr limit) (w_str s) s" if "wf_str limit s" for s
    unfolding rstr_def w_str_def
    by (rule decodes_offset, rule decodes_bind [OF u16.decodes_enc [OF TrueI]])
      (use that in \<open>auto simp: wf_str_def unat_length_u16
        intro!: decodes_last [OF decodes_take] decodes_last [OF decodes_ensure] decodes_ret\<close>)
  show "accepts (rstr limit) (\<lambda>x bs. wf_str limit x \<and> bs = w_str x)"
    unfolding rstr_def w_str_def
    by (rule accepts_offset, rule accepts_bind, rule u16.accepts_dec, rule accepts_if,
        rule accepts_fail, rule accepts_bind, rule accepts_take, rule accepts_bind,
        rule accepts_ensure, rule accepts_ret)
      (auto simp: wf_str_def unat_fits_u16)
qed (simp add: w_str_def w_u16_def)

subsection \<open>Lists, options and nested values\<close>

definition wf_list :: "nat \<Rightarrow> ('a \<Rightarrow> bool) \<Rightarrow> 'a list \<Rightarrow> bool" where
  "wf_list limit ok xs \<longleftrightarrow> length xs \<le> limit \<and> fits_u32 (length xs) \<and> list_all ok xs"

definition wf_sorted :: "('a \<Rightarrow> byte list) \<Rightarrow> nat \<Rightarrow> ('a \<Rightarrow> bool) \<Rightarrow> 'a list \<Rightarrow> bool" where
  "wf_sorted key limit ok xs \<longleftrightarrow> wf_list limit ok xs \<and> rises_strictly key xs"

definition wf_nested :: "('a \<Rightarrow> byte list) \<Rightarrow> ('a \<Rightarrow> bool) \<Rightarrow> 'a \<Rightarrow> bool" where
  "wf_nested enc ok x \<longleftrightarrow> ok x \<and> fits_u32 (length (enc x))"

definition wf_option :: "('a \<Rightarrow> bool) \<Rightarrow> 'a option \<Rightarrow> bool" where
  "wf_option ok x \<longleftrightarrow> (case x of None \<Rightarrow> True | Some v \<Rightarrow> ok v)"

context wire
begin

lemma decodes_repeat: "list_all wf xs \<Longrightarrow> decodes (rrepeat (length xs) dec) (concat (map enc xs)) xs"
proof (induction xs)
  case Nil
  then show ?case by (simp add: decodes_ret)
next
  case (Cons x xs)
  then have "decodes (rbind (rrepeat (length xs) dec) (\<lambda>ys. rret (x # ys))) (concat (map enc xs)) (x # xs)"
    by (intro decodes_last [where x = xs]) (simp_all add: decodes_ret)
  with Cons.prems show ?case
    by (auto intro: decodes_bind decodes_enc)
qed

lemma accepts_repeat:
  "accepts (rrepeat n dec) (\<lambda>xs bs. length xs = n \<and> list_all wf xs \<and> bs = concat (map enc xs))"
proof (induction n)
  case 0
  then show ?case by (simp add: accepts_ret)
next
  case (Suc n)
  show ?case
    unfolding rrepeat.simps
    by (rule accepts_bind, rule accepts_dec, rule accepts_bind, rule Suc.IH, rule accepts_ret) simp
qed

lemma length_concat_enc: "list_all wf xs \<Longrightarrow> length xs * min_size \<le> length (concat (map enc xs))"
proof (induction xs)
  case (Cons x xs)
  then show ?case using min_size_le [of x] by simp
qed simp

lemma decodes_list:
  assumes "wf_list limit wf xs" and "0 < min_size"
  shows "decodes (decode_list limit min_size dec) (encode_list enc xs) xs"
proof (rule decodesI)
  fix pre post
  let ?body = "concat (map enc xs)"
  have len: "unat (of_nat (length xs) :: u32) = length xs" and all: "list_all wf xs"
    and limit: "length xs \<le> limit"
    using assms(1) by (simp_all add: wf_list_def unat_length_u32)
  have "length xs * max min_size 1 \<le> length ?body"
    using length_concat_enc [OF all] assms(2) by simp
  then have fits: "\<not> saturating_mul (length xs) (max min_size 1) > length (?body @ post)"
    by (simp add: saturating_mul_def)
  show "decode_list limit min_size dec \<lparr>rbuf = pre @ encode_list enc xs @ post, rpos = length pre\<rparr> =
      Inr (xs, \<lparr>rbuf = pre @ encode_list enc xs @ post, rpos = length pre + length (encode_list enc xs)\<rparr>)"
    using decodesD [OF u32.decodes_enc [OF TrueI, of "of_nat (length xs)"], of pre "?body @ post"]
      decodesD [OF decodes_repeat [OF all], of "pre @ w_u32 (of_nat (length xs))" post]
      len limit fits
    by (simp add: decode_list_def encode_list_def rcount_def rbind_def roffset_def remaining_def
        add.assoc)
qed

lemma accepts_count:
  "accepts (rcount limit m)
     (\<lambda>n bs. n \<le> limit \<and> fits_u32 n \<and> bs = w_u32 (of_nat n))"
  unfolding rcount_def
proof (rule accepts_offset, rule accepts_bind, rule u32.accepts_dec)
  fix off and n :: u32 and as
  assume "True \<and> as = w_u32 n"
  then show "accepts (\<lambda>r. if unat n > limit then Inl (error_at TooLong off)
        else if saturating_mul (unat n) (max m 1) > remaining r then Inl (error_at Truncated off)
        else Inr (unat n, r))
      (\<lambda>k bs. k \<le> limit \<and> fits_u32 k \<and> as @ bs = w_u32 (of_nat k))"
    by (intro acceptsI) (auto simp: unat_fits_u32 intro!: exI [of _ "[]"] split: if_splits)
qed

lemma accepts_list:
  "accepts (decode_list limit min_size dec) (\<lambda>xs bs. wf_list limit wf xs \<and> bs = encode_list enc xs)"
  unfolding decode_list_def
  by (rule accepts_bind, rule accepts_count, rule accepts_mono, rule accepts_repeat)
    (auto simp: wf_list_def encode_list_def)

end

lemma wire_list:
  assumes "wire enc dec ok m" and "0 < m"
  shows "wire (encode_list enc) (decode_list limit m dec) (wf_list limit ok) 4"
proof
  show "decodes (decode_list limit m dec) (encode_list enc xs) xs" if "wf_list limit ok xs" for xs
    using wire.decodes_list [OF assms(1) that assms(2)] .
  show "accepts (decode_list limit m dec) (\<lambda>xs bs. wf_list limit ok xs \<and> bs = encode_list enc xs)"
    using wire.accepts_list [OF assms(1)] .
qed (simp add: encode_list_def w_u32_def)

lemma wire_sorted:
  assumes "wire enc dec ok m" and "0 < m"
  shows "wire (encode_list enc) (dec_sorted key limit m dec) (wf_sorted key limit ok) 4"
proof
  show "decodes (dec_sorted key limit m dec) (encode_list enc xs) xs" if "wf_sorted key limit ok xs" for xs
    using that unfolding dec_sorted_def wf_sorted_def
    by (intro decodes_offset decodes_last [OF wire.decodes_list [OF assms(1) _ assms(2)]]
        decodes_last [OF decodes_ensure] decodes_ret) simp_all
  show "accepts (dec_sorted key limit m dec) (\<lambda>xs bs. wf_sorted key limit ok xs \<and> bs = encode_list enc xs)"
    unfolding dec_sorted_def
    by (rule accepts_offset, rule accepts_bind, rule wire.accepts_list [OF assms(1)],
        rule accepts_bind, rule accepts_ensure, rule accepts_ret) (simp add: wf_sorted_def)
qed (simp add: encode_list_def w_u32_def)

lemma wire_option:
  assumes "wire enc dec ok m"
  shows "wire (enc_option enc) (dec_option dec) (wf_option ok) 1"
proof
  have opt: "decodes ropt (w_u8 (if b then 1 else 0)) b" for b
    unfolding ropt_def
    by (rule decodes_offset, rule decodes_last [OF u8.decodes_enc]) (simp_all add: decodes_ret)
  have acc: "accepts ropt (\<lambda>b bs. bs = w_u8 (if b then 1 else 0))"
    unfolding ropt_def
    by (rule accepts_offset, rule accepts_bind, rule u8.accepts_dec)
      (auto intro!: accepts_if accepts_ret accepts_fail)
  show "decodes (dec_option dec) (enc_option enc x) x" if "wf_option ok x" for x
  proof (cases x)
    case None
    then show ?thesis
      using decodes_last [OF opt [of False], of "\<lambda>p. if p then rbind dec (\<lambda>v. rret (Some v)) else rret None" None]
      by (simp add: dec_option_def enc_option_def decodes_ret)
  next
    case (Some v)
    then have "decodes (rbind dec (\<lambda>v. rret (Some v))) (enc v) (Some v)"
      using that by (intro decodes_last [OF wire.decodes_enc [OF assms]])
        (simp_all add: wf_option_def decodes_ret)
    then show ?thesis
      using decodes_bind [OF opt [of True], of "\<lambda>p. if p then rbind dec (\<lambda>v. rret (Some v)) else rret None"] Some
      by (simp add: dec_option_def enc_option_def)
  qed
  show "accepts (dec_option dec) (\<lambda>x bs. wf_option ok x \<and> bs = enc_option enc x)"
    unfolding dec_option_def
    by (rule accepts_bind, rule acc, rule accepts_if, rule accepts_bind,
        rule wire.accepts_dec [OF assms])
      (auto intro!: accepts_ret simp: wf_option_def enc_option_def)
qed (auto simp: enc_option_def w_u8_def split: option.splits)

lemma wire_nested:
  assumes "wire enc dec ok m"
  shows "wire (enc_nested enc) (dec_nested dec) (wf_nested enc ok) (4 + m)"
proof
  show "decodes (dec_nested dec) (enc_nested enc x) x" if "wf_nested enc ok x" for x
  proof -
    have "wf_bytes UNBOUNDED (enc x)" and ok: "ok x"
      using that by (auto simp: wf_nested_def wf_bytes_def fits_u32_def UNBOUNDED_def usize_MAX_def)
    then show ?thesis
      unfolding dec_nested_def enc_nested_def
      by (intro decodes_last [OF wire.decodes_enc [OF wire_bytes]] decodes_offset)
        (simp_all add: wire.from_bytes_enc [OF assms ok] decodes_ret)
  qed
  show "accepts (dec_nested dec) (\<lambda>x bs. wf_nested enc ok x \<and> bs = enc_nested enc x)"
    unfolding dec_nested_def
    by (rule accepts_bind, rule wire.accepts_dec [OF wire_bytes], rule accepts_offset)
      (auto simp: wire.from_bytes_iff [OF assms] wf_nested_def wf_bytes_def enc_nested_def
        intro!: accepts_ret accepts_fail split: sum.split)
  show "4 + m \<le> length (enc_nested enc x)" if "wf_nested enc ok x" for x
    using that wire.min_size_le [OF assms, of x]
    by (simp add: wf_nested_def enc_nested_def w_bytes_def w_u32_def)
qed

subsection \<open>Tags\<close>

lemma utf8_valid_ascii: "list_all (\<lambda>b. b < 0x80) bs \<Longrightarrow> utf8_valid bs"
  by (induction bs) auto

lemma utf8_valid_domain: "utf8_valid (domain_bytes t)"
proof (rule utf8_valid_ascii)
  show "list_all (\<lambda>b. b < 0x80) (domain_bytes t)"
    by (cases t) (simp_all add: domain_bytes_def ascii_def)
qed

lemma decodes_any_tag: "decodes any_tag (tag_bytes t) t"
proof -
  have "tag_bytes t = w_u8 (of_nat (length (domain t))) @ domain_bytes t @ w_u16 PROTOCOL_VERSION"
    by (simp add: tag_bytes_def w_u8_def w_u16_def)
  then show ?thesis
    unfolding any_tag_def
    by (simp only:)
      (rule decodes_offset, rule decodes_bind [OF u8.decodes_enc [OF TrueI]],
        use domain_short [of t] in \<open>simp add: unat_domain_length del: append_assoc\<close>,
        rule decodes_bind [OF decodes_take],
        simp_all add: utf8_valid_domain,
        rule decodes_last [OF u16.decodes_enc [OF TrueI]], simp add: decodes_ret)
qed

lemma accepts_any_tag: "accepts any_tag (\<lambda>t bs. bs = tag_bytes t)"
  unfolding any_tag_def
proof (rule accepts_offset, rule accepts_bind, rule u8.accepts_dec, rule accepts_if,
    rule accepts_fail, rule accepts_bind, rule accepts_take)
  fix off and n :: u8 and as d bs :: "byte list"
  assume as: "True \<and> as = w_u8 n" and bs: "bs = d \<and> length d = unat n"
  show "accepts (case if utf8_valid d then from_domain d else None of
      None \<Rightarrow> rfail (error_at UnknownTag off)
    | Some t \<Rightarrow> rbind ru16 (\<lambda>version.
        if version \<noteq> PROTOCOL_VERSION then rfail (error_at UnsupportedVersion off) else rret t))
    (\<lambda>t cs. as @ bs @ cs = tag_bytes t)"
  proof (cases "if utf8_valid d then from_domain d else None")
    case None
    then show ?thesis by (simp add: accepts_fail)
  next
    case (Some t)
    then have "d = domain_bytes t"
      by (auto dest: from_domain_Some split: if_splits)
    with as bs have "as @ bs = w_u8 (of_nat (length (domain t))) @ domain_bytes t"
      by (metis length_domain_bytes of_nat_unat_eq)
    then show ?thesis
      unfolding Some option.case
      by (intro accepts_bind [OF u16.accepts_dec] accepts_if accepts_fail accepts_ret)
        (auto simp: tag_bytes_def w_u8_def w_u16_def)
  qed
qed

lemma decodes_tag [wire_decodes]: "decodes (rtag t) (tag_bytes t) ()"
  unfolding rtag_def
  by (rule decodes_offset, rule decodes_last [OF decodes_any_tag]) (simp add: decodes_ensure)

lemma accepts_tag [wire_canonical]: "accepts (rtag t) (\<lambda>_ bs. bs = tag_bytes t)"
  unfolding rtag_def
  by (rule accepts_offset, rule accepts_bind, rule accepts_any_tag, rule accepts_mono,
      rule accepts_ensure) auto

subsection \<open>Records\<close>

text \<open>One rule per field type: a record's two laws are one \<open>intro\<close> over its decoder.\<close>

lemma decodes_guard: "b \<Longrightarrow> decodes (f ()) bs y \<Longrightarrow> decodes (rbind (rensure b e) f) bs y"
  using decodes_bind [OF decodes_ensure, of b f bs y e] by simp

lemmas field_decodes = decodes_guard decodes_bind [OF decodes_tag] decodes_bind [OF ident.decodes_enc]
  decodes_bind [OF digest.decodes_enc] decodes_bind [OF pubkey.decodes_enc]
  decodes_bind [OF nonce.decodes_enc] decodes_bind [OF signature.decodes_enc]
  decodes_bind [OF u8.decodes_enc] decodes_bind [OF u16.decodes_enc] decodes_bind [OF u32.decodes_enc]
  decodes_bind [OF u64.decodes_enc] decodes_bind [OF bool.decodes_enc] decodes_offset

lemmas last_decodes = decodes_last [OF ident.decodes_enc] decodes_last [OF digest.decodes_enc]
  decodes_last [OF pubkey.decodes_enc] decodes_last [OF nonce.decodes_enc]
  decodes_last [OF signature.decodes_enc] decodes_last [OF u8.decodes_enc]
  decodes_last [OF u32.decodes_enc] decodes_last [OF u64.decodes_enc]
  decodes_last [OF bool.decodes_enc] decodes_last [OF decodes_ensure] decodes_retI

lemmas field_accepts = accepts_bind [OF accepts_tag] accepts_bind [OF ident.accepts_dec]
  accepts_bind [OF digest.accepts_dec] accepts_bind [OF pubkey.accepts_dec]
  accepts_bind [OF nonce.accepts_dec] accepts_bind [OF signature.accepts_dec]
  accepts_bind [OF u8.accepts_dec] accepts_bind [OF u16.accepts_dec] accepts_bind [OF u32.accepts_dec]
  accepts_bind [OF u64.accepts_dec] accepts_bind [OF bool.accepts_dec]
  accepts_bind [OF accepts_ensure] accepts_offset accepts_ret

end
