(* ===== verification/Padding.thy ===== *)
theory Padding
  imports Prelude
begin

unbundle bit_operations_syntax

text \<open>
  Padme padding (\<^verbatim>\<open>padding.rs\<close>, \<section>6). Lengths are \<open>u64\<close> words and the arithmetic is the
  code's own; the lemmas relate it to the natural numbers below \<open>2^63\<close>, where no addition
  wraps. The theorems bound the padded length from both sides and show that unpadding
  recovers the content.
\<close>

subsection \<open>Definitions\<close>

text \<open>\<open>u64::leading_zeros\<close>: 64 less the number of significant bits.\<close>

fun bit_len :: "nat \<Rightarrow> nat" where
  "bit_len n = (if n = 0 then 0 else Suc (bit_len (n div 2)))"

declare bit_len.simps [simp del]

definition leading_zeros :: "u64 \<Rightarrow> nat" where
  "leading_zeros w = 64 - bit_len (unat w)"

definition MIN_PADDED_LEN :: u64 where
  "MIN_PADDED_LEN = 256"

definition padme :: "u64 \<Rightarrow> u64" where
  "padme len =
     (if len < 2 then len
      else let e = 63 - leading_zeros len;
               s = (63 - leading_zeros (of_nat e)) + 1;
               m = push_bit (e - s) 1 - 1
           in (len + m) AND NOT m)"

definition padded_length :: "u64 \<Rightarrow> u64" where
  "padded_length len = max (padme len) MIN_PADDED_LEN"

definition is_valid_padded_length :: "u64 \<Rightarrow> bool" where
  "is_valid_padded_length x \<longleftrightarrow> MIN_PADDED_LEN \<le> x \<and> padme x = x"

datatype padding_error = PadLength | Oversized | NonzeroPadding | PadTooLong

text \<open>\<open>Vec::resize\<close> with zeros.\<close>

definition resize :: "byte list \<Rightarrow> nat \<Rightarrow> byte list" where
  "resize xs n = take n xs @ replicate (n - length xs) 0"

definition pad :: "byte list \<Rightarrow> padding_error + byte list" where
  "pad content =
     (if length content < 2 ^ 32
      then let n = of_nat (length content) :: u64;
               total = unat (padded_length (n + 4))
           in Inr (resize (be_bytes 4 (length content) @ content) total)
      else Inl PadTooLong)"

definition unpad :: "byte list \<Rightarrow> padding_error + byte list" where
  "unpad padded =
     (if \<not> is_valid_padded_length (of_nat (length padded)) then Inl PadLength
      else let n = be_nat (take 4 padded); rest = drop 4 padded in
        if n > length rest then Inl Oversized
        else if list_ex (\<lambda>b. b \<noteq> 0) (drop n rest) then Inl NonzeroPadding
        else Inr (take n rest))"

definition AEAD_TAG_LEN :: nat where
  "AEAD_TAG_LEN = 16"

definition is_padded_ciphertext_length :: "u64 \<Rightarrow> bool" where
  "is_padded_ciphertext_length n \<longleftrightarrow>
     of_nat AEAD_TAG_LEN \<le> n \<and> is_valid_padded_length (n - of_nat AEAD_TAG_LEN)"

subsection \<open>Significant bits\<close>

lemma bit_len_0 [simp]: "bit_len 0 = 0"
  by (simp add: bit_len.simps)

lemma bit_len_pos: "0 < n \<Longrightarrow> bit_len n = Suc (bit_len (n div 2))"
  by (subst bit_len.simps) simp

lemma bit_len_bounds: "0 < n \<Longrightarrow> 2 ^ (bit_len n - 1) \<le> n \<and> n < 2 ^ bit_len n"
proof (induction n rule: bit_len.induct)
  case (1 n)
  show ?case
  proof (cases "n div 2 = 0")
    case True
    with 1 have "n = 1" by simp
    then show ?thesis by (simp add: bit_len_pos)
  next
    case False
    with 1 have IH: "2 ^ (bit_len (n div 2) - 1) \<le> n div 2" "n div 2 < 2 ^ bit_len (n div 2)"
      by simp_all
    have pos: "0 < bit_len (n div 2)" using False by (simp add: bit_len_pos)
    have "(2::nat) ^ bit_len (n div 2) = 2 * 2 ^ (bit_len (n div 2) - 1)"
      using pos by (cases "bit_len (n div 2)") simp_all
    then have "2 ^ bit_len (n div 2) \<le> n" and "n < 2 * 2 ^ bit_len (n div 2)"
      using IH by linarith+
    then show ?thesis using 1 by (simp add: bit_len_pos)
  qed
qed

lemma bit_len_unique:
  assumes "2 ^ e \<le> n" and "n < 2 ^ Suc e"
  shows "bit_len n = Suc e"
proof -
  have n: "0 < n" using assms(1) by (metis gr0I not_less zero_less_numeral zero_less_power)
  have "2 ^ e < (2::nat) ^ bit_len n" and "(2::nat) ^ (bit_len n - 1) < 2 ^ Suc e"
    using bit_len_bounds [OF n] assms by linarith+
  then have "e < bit_len n" and "bit_len n - 1 < Suc e"
    by (simp_all only: power_strict_increasing_iff one_less_numeral_iff semiring_norm)
  then show ?thesis by simp
qed

lemma bit_len_mono: "m \<le> n \<Longrightarrow> bit_len m \<le> bit_len n"
proof (cases "m = 0")
  case False
  assume le: "m \<le> n"
  have "(2::nat) ^ (bit_len m - 1) < 2 ^ bit_len n"
    using bit_len_bounds [of m] bit_len_bounds [of n] False le by linarith
  then have "bit_len m - 1 < bit_len n"
    by (simp only: power_strict_increasing_iff one_less_numeral_iff semiring_norm)
  then show ?thesis by simp
qed simp

lemma bit_len_le: "bit_len n \<le> n"
proof (induction n rule: bit_len.induct)
  case (1 n)
  then show ?case by (cases "n = 0") (auto simp: bit_len_pos intro: order_trans)
qed

subsection \<open>The padded length on natural numbers\<close>

text \<open>The number of low bits that padding clears.\<close>

definition clear_bits :: "nat \<Rightarrow> nat" where
  "clear_bits n = (bit_len n - 1) - bit_len (bit_len n - 1)"

definition round_up :: "nat \<Rightarrow> nat \<Rightarrow> nat" where
  "round_up k n = (n + (2 ^ k - 1)) div 2 ^ k * 2 ^ k"

definition padme_nat :: "nat \<Rightarrow> nat" where
  "padme_nat n = (if n < 2 then n else round_up (clear_bits n) n)"

lemma round_up_ge: "n \<le> round_up k n"
proof -
  have "n + (2 ^ k - 1) = round_up k n + (n + (2 ^ k - 1)) mod 2 ^ k"
    unfolding round_up_def by (rule div_mult_mod_eq [symmetric])
  moreover have "(n + (2 ^ k - 1)) mod 2 ^ k < (2::nat) ^ k" by simp
  ultimately show ?thesis by linarith
qed

lemma round_up_less: "round_up k n < n + 2 ^ k"
proof -
  have "round_up k n \<le> n + (2 ^ k - 1)"
    unfolding round_up_def by (rule div_times_less_eq_dividend)
  then show ?thesis using zero_less_power [of "2::nat" k] by linarith
qed

lemma round_up_dvd: "2 ^ k dvd round_up k n"
  by (simp add: round_up_def)

lemma round_up_least:
  assumes "2 ^ k dvd m" and "n \<le> m"
  shows "round_up k n \<le> m"
proof -
  obtain q where q: "m = 2 ^ k * q" using assms(1) by (rule dvdE)
  have "n + (2 ^ k - 1) < 2 ^ k * q + 2 ^ k"
    using assms(2) q zero_less_power [of "2::nat" k] by linarith
  also have "\<dots> = (q + 1) * 2 ^ k" by (simp add: algebra_simps)
  finally have "(n + (2 ^ k - 1)) div 2 ^ k < q + 1"
    by (rule less_mult_imp_div_less)
  then show ?thesis by (simp add: round_up_def q)
qed

lemma round_up_fixed: "2 ^ k dvd n \<Longrightarrow> round_up k n = n"
  using round_up_ge [of n k] round_up_least [of k n n] by simp

lemma clear_bits_less: "2 \<le> n \<Longrightarrow> clear_bits n < bit_len n"
  by (simp add: clear_bits_def bit_len_pos)

lemma bit_len_ge_2: "2 \<le> n \<Longrightarrow> 2 \<le> bit_len n"
  using bit_len_mono [of 2 n] by (simp add: bit_len_pos)

lemma padme_nat_le_power: "2 \<le> n \<Longrightarrow> padme_nat n \<le> 2 ^ bit_len n"
  using bit_len_bounds [of n] clear_bits_less [of n]
  by (auto simp: padme_nat_def intro!: round_up_least le_imp_power_dvd)

lemma padme_nat_power: "padme_nat (2 ^ e) = 2 ^ e"
proof (cases "e = 0")
  case False
  have "bit_len (2 ^ e) = Suc e" by (rule bit_len_unique) simp_all
  then show ?thesis
    by (auto simp: padme_nat_def clear_bits_def intro!: round_up_fixed le_imp_power_dvd)
qed (simp add: padme_nat_def)

lemma padme_nat_ge: "n \<le> padme_nat n"
  by (simp add: padme_nat_def round_up_ge)

lemma padme_nat_idem: "padme_nat (padme_nat n) = padme_nat n"
proof (cases "n < 2")
  case True
  then show ?thesis by (simp add: padme_nat_def)
next
  case False
  then have n: "2 \<le> n" by simp
  show ?thesis
  proof (cases "padme_nat n = 2 ^ bit_len n")
    case True
    then show ?thesis by (simp add: padme_nat_power)
  next
    case not_power: False
    have "2 ^ (bit_len n - 1) \<le> padme_nat n"
      using bit_len_bounds [of n] padme_nat_ge [of n] n by linarith
    moreover have "padme_nat n < 2 ^ Suc (bit_len n - 1)"
      using padme_nat_le_power [OF n] not_power bit_len_ge_2 [OF n] by simp
    ultimately have "bit_len (padme_nat n) = bit_len n"
      using bit_len_unique [of "bit_len n - 1" "padme_nat n"] bit_len_ge_2 [OF n] by linarith
    then have "clear_bits (padme_nat n) = clear_bits n"
      by (simp add: clear_bits_def)
    moreover have "2 ^ clear_bits n dvd padme_nat n"
      using n by (simp add: padme_nat_def round_up_dvd)
    moreover have "2 \<le> padme_nat n"
      using padme_nat_ge [of n] n by linarith
    ultimately show ?thesis
      by (simp add: padme_nat_def [of "padme_nat n"] round_up_fixed)
  qed
qed

lemma padme_nat_mono: "m \<le> n \<Longrightarrow> padme_nat m \<le> padme_nat n"
proof (cases "m < 2")
  case True
  assume "m \<le> n"
  then show ?thesis using True padme_nat_ge [of n] by (simp add: padme_nat_def)
next
  case False
  assume le: "m \<le> n"
  with False have mn: "2 \<le> m" "2 \<le> n" by simp_all
  show ?thesis
  proof (cases "bit_len m = bit_len n")
    case True
    then have "clear_bits m = clear_bits n" by (simp add: clear_bits_def)
    then show ?thesis
      using mn le round_up_ge [of n "clear_bits n"]
      by (auto simp: padme_nat_def intro!: round_up_least round_up_dvd)
  next
    case differ: False
    then have "bit_len m \<le> bit_len n - 1"
      using bit_len_mono [OF le] by simp
    then have "(2::nat) ^ bit_len m \<le> 2 ^ (bit_len n - 1)"
      by (rule power_increasing) simp
    also have "\<dots> \<le> padme_nat n"
      using bit_len_bounds [of n] padme_nat_ge [of n] mn by linarith
    finally show ?thesis
      using padme_nat_le_power [OF mn(1)] by linarith
  qed
qed

text \<open>The overhead bound of \<section>6: less than \<open>2 ^ -S\<close> of the length, where \<open>S\<close> counts the
  significant bits of the length's binary exponent.\<close>

lemma padme_nat_overhead:
  assumes n: "2 \<le> n"
  shows "(padme_nat n - n) * 2 ^ bit_len (bit_len n - 1) < n"
proof -
  let ?e = "bit_len n - 1"
  have "padme_nat n - n \<le> 2 ^ clear_bits n - 1"
    using round_up_less [of "clear_bits n" n] n by (simp add: padme_nat_def)
  then have "(padme_nat n - n) * 2 ^ bit_len ?e \<le> (2 ^ clear_bits n - 1) * 2 ^ bit_len ?e"
    by (rule mult_le_mono1)
  also have "\<dots> < 2 ^ clear_bits n * 2 ^ bit_len ?e"
    by simp
  also have "\<dots> = 2 ^ ?e"
    using bit_len_le [of ?e] by (simp add: clear_bits_def flip: power_add)
  also have "\<dots> \<le> n" using bit_len_bounds [of n] n by simp
  finally show ?thesis .
qed

subsection \<open>The code's words\<close>

lemma unat_and_not_mask:
  fixes w :: "'a::len word"
  shows "unat (w AND NOT (mask k)) = unat w div 2 ^ k * 2 ^ k"
proof -
  have "unat w div 2 ^ k * 2 ^ k \<le> unat w"
    by (rule div_times_less_eq_dividend)
  also have "\<dots> < 2 ^ LENGTH('a)" by (rule unsigned_less)
  finally have "unat w div 2 ^ k * 2 ^ k < 2 ^ LENGTH('a)" .
  then have "take_bit LENGTH('a) (push_bit k (drop_bit k (unat w))) = unat w div 2 ^ k * 2 ^ k"
    by (simp add: push_bit_eq_mult drop_bit_eq_div take_bit_nat_eq_self)
  moreover have "take_bit LENGTH('a) (unat w) = unat w"
    using unsigned_less [of w] by (rule take_bit_nat_eq_self)
  moreover have "w AND NOT (mask k) = push_bit k (drop_bit k w)"
    by (rule bit_eqI) (auto simp: bit_simps)
  ultimately show ?thesis
    by (simp only: unsigned_push_bit_eq unsigned_drop_bit_eq)
qed

lemma unat_mask:
  assumes "k \<le> 64"
  shows "unat (mask k :: u64) = 2 ^ k - 1"
proof -
  have "(2::nat) ^ k \<le> 2 ^ 64"
    using assms by (rule power_increasing) simp
  then have "mask k < (2::nat) ^ 64"
    using zero_less_power [of "2::nat" k] by (simp add: mask_eq_exp_minus_1)
  then have "unat (of_nat (mask k) :: u64) = mask k"
    by (simp add: unat_of_nat)
  then show ?thesis
    by (simp add: of_nat_mask_eq mask_eq_exp_minus_1)
qed

lemma leading_zeros_e: "0 < unat w \<Longrightarrow> 63 - leading_zeros w = bit_len (unat w) - 1"
proof -
  assume pos: "0 < unat w"
  have "unat w < 2 ^ 64" using unsigned_less [of w] by simp
  then have "(2::nat) ^ (bit_len (unat w) - 1) < 2 ^ 64"
    using bit_len_bounds [OF pos] by linarith
  then have "bit_len (unat w) - 1 < 64"
    by (simp only: power_strict_increasing_iff one_less_numeral_iff semiring_norm)
  then show ?thesis by (simp add: leading_zeros_def)
qed

lemma bit_len_u64: "bit_len (unat (w :: u64)) \<le> 64"
proof (cases "unat w = 0")
  case False
  have "unat w < 2 ^ 64" using unsigned_less [of w] by simp
  then have "(2::nat) ^ (bit_len (unat w) - 1) < 2 ^ 64"
    using bit_len_bounds [of "unat w"] False by linarith
  then have "bit_len (unat w) - 1 < 64"
    by (simp only: power_strict_increasing_iff one_less_numeral_iff semiring_norm)
  then show ?thesis by simp
qed simp

lemma unat_padme:
  assumes "unat len \<le> 2 ^ 63"
  shows "unat (padme len) = padme_nat (unat len)"
proof (cases "len < 2")
  case True
  then show ?thesis by (simp add: padme_def padme_nat_def word_less_nat_alt)
next
  case False
  then have n: "2 \<le> unat len" by (simp add: word_less_nat_alt)
  let ?e = "bit_len (unat len) - 1" and ?k = "clear_bits (unat len)"
  have e: "63 - leading_zeros len = ?e"
    using n by (intro leading_zeros_e) simp
  have "?e < 2 ^ 64" using bit_len_u64 [of len] by simp
  then have unat_e: "unat (of_nat ?e :: u64) = ?e" by (simp add: unat_of_nat)
  have "0 < ?e" using bit_len_ge_2 [OF n] by simp
  then have s: "63 - leading_zeros (of_nat ?e) + 1 = bit_len ?e"
    using leading_zeros_e [of "of_nat ?e"] unat_e by (simp add: bit_len_pos)
  have k: "?e - bit_len ?e = ?k" by (simp add: clear_bits_def)
  have "?k \<le> 63" using bit_len_u64 [of len] by (simp add: clear_bits_def)
  then have "(2::nat) ^ ?k \<le> 2 ^ 63" by (rule power_increasing) simp
  have m: "push_bit ?k 1 - 1 = (mask ?k :: u64)"
    by (simp add: mask_eq_exp_minus_1 push_bit_eq_mult)
  have "unat (mask ?k :: u64) = 2 ^ ?k - 1"
    using \<open>?k \<le> 63\<close> by (simp add: unat_mask)
  moreover have "unat len + (2 ^ ?k - 1) < 2 ^ 64"
    using assms \<open>2 ^ ?k \<le> 2 ^ 63\<close> by simp
  ultimately have "unat (len + mask ?k) = unat len + (2 ^ ?k - 1)"
    by (simp add: unat_word_ariths)
  then have "unat ((len + mask ?k) AND NOT (mask ?k)) = round_up ?k (unat len)"
    by (simp add: unat_and_not_mask round_up_def)
  moreover have "padme len = (len + mask ?k) AND NOT (mask ?k)"
    using False by (simp only: padme_def Let_def e s k m if_False)
  ultimately show ?thesis
    using n by (simp add: padme_nat_def)
qed

text \<open>What \<open>padded_length\<close> returns, in the natural numbers.\<close>

definition padded_nat :: "nat \<Rightarrow> nat" where
  "padded_nat n = max (padme_nat n) 256"

lemma padme_nat_256: "padme_nat 256 = 256"
  using padme_nat_power [of 8] by simp

lemma padme_nat_2_63: "padme_nat (2 ^ 63) = 2 ^ 63"
  by (rule padme_nat_power)

lemma padded_nat_ge: "n \<le> padded_nat n"
  using padme_nat_ge [of n] by (simp add: padded_nat_def le_max_iff_disj)

lemma unat_max: "unat (max a b) = max (unat a) (unat b)"
  by (simp add: max_def word_le_nat_alt)

lemma unat_padded_length:
  "unat len \<le> 2 ^ 63 \<Longrightarrow> unat (padded_length len) = padded_nat (unat len)"
  by (simp add: padded_length_def padded_nat_def MIN_PADDED_LEN_def unat_max unat_padme)

lemma padme_nat_padded: "padme_nat (padded_nat n) = padded_nat n"
  by (simp add: padded_nat_def max_def padme_nat_idem padme_nat_256)

lemma valid_padded_iff:
  assumes "n \<le> 2 ^ 63"
  shows "is_valid_padded_length (of_nat n) \<longleftrightarrow> 256 \<le> n \<and> padme_nat n = n"
proof -
  have n: "unat (of_nat n :: u64) = n"
    using assms by (simp add: unat_of_nat)
  then have "unat (padme (of_nat n)) = padme_nat n"
    using assms unat_padme [of "of_nat n"] by simp
  then have "padme (of_nat n) = of_nat n \<longleftrightarrow> padme_nat n = n"
    by (metis n word_eqI_unat)
  then show ?thesis
    by (simp add: is_valid_padded_length_def MIN_PADDED_LEN_def word_le_nat_alt n)
qed

lemma padme_nat_bound: "n \<le> 2 ^ 63 \<Longrightarrow> padme_nat n \<le> 2 ^ 63"
  by (metis padme_nat_mono padme_nat_2_63)

lemma padded_nat_bound:
  assumes "n \<le> 2 ^ 63" shows "padded_nat n \<le> 2 ^ 63"
  using padme_nat_bound [OF assms] by (simp add: padded_nat_def)

lemma unat_of_nat_63: "n \<le> 2 ^ 63 \<Longrightarrow> unat (of_nat n :: u64) = n"
  by (simp add: unat_of_nat)

lemma pad_eq:
  assumes "length content < 2 ^ 32"
  shows "pad content = Inr (be_bytes 4 (length content) @ content
    @ replicate (padded_nat (length content + 4) - (length content + 4)) 0)"
proof -
  have "unat (of_nat (length content + 4) :: u64) = length content + 4"
    using assms by (simp only: unat_of_nat) simp
  then have "unat (of_nat (length content) + 4 :: u64) = length content + 4"
    by (simp only: of_nat_add of_nat_numeral)
  moreover have "length content + 4 \<le> 2 ^ 63"
    using assms by simp
  ultimately have "unat (padded_length (of_nat (length content) + 4)) = padded_nat (length content + 4)"
    by (simp only: unat_padded_length)
  then show ?thesis
    using assms padded_nat_ge [of "length content + 4"]
    by (simp add: pad_def resize_def Let_def)
qed

subsection \<open>Properties\<close>

text \<open>
  \<open>padme\<close> never shortens a length, adds less than \<open>2 ^ -S\<close> of it where \<open>S\<close> is
  \<open>floor(log2(floor(log2(L)))) + 1\<close>, is idempotent, and keeps the order of lengths.
\<close>

theorem padme_sound:
  assumes "unat len \<le> 2 ^ 63" and "2 \<le> len" and "len \<le> len'" and "unat len' \<le> 2 ^ 63"
  shows "len \<le> padme len
    \<and> unat (padme len - len) * 2 ^ bit_len (bit_len (unat len) - 1) < unat len
    \<and> padme (padme len) = padme len
    \<and> padme len \<le> padme len'"
proof -
  have n: "2 \<le> unat len" using assms(2) by (simp add: word_le_nat_alt)
  note u = unat_padme [OF assms(1)] and u' = unat_padme [OF assms(4)]
  have ge: "len \<le> padme len"
    by (simp add: word_le_nat_alt u padme_nat_ge)
  moreover have "unat (padme len - len) = padme_nat (unat len) - unat len"
    using ge by (simp add: unat_sub u)
  moreover have "padme len \<le> padme len'"
    using assms(3) by (simp add: word_le_nat_alt u u' padme_nat_mono)
  moreover have "padme (padme len) = padme len"
    using unat_padme [of "padme len"] padme_nat_bound [OF assms(1)] u
    by (intro word_eqI_unat) (simp add: padme_nat_idem)
  ultimately show ?thesis
    using padme_nat_overhead [OF n] by simp
qed

theorem padme_sound_witness:
  "(300::u64) \<le> padme 300 \<and> unat (padme 300 - 300 :: u64) * 2 ^ bit_len (bit_len (unat (300::u64)) - 1) < unat (300::u64)
    \<and> padme (padme 300) = padme 300 \<and> padme 300 \<le> padme 1000"
  by (rule padme_sound) simp_all

lemma pad_unpad:
  "if length content < 2 ^ 32
   then \<exists>padded. pad content = Inr padded \<and> unpad padded = Inr content
     \<and> is_valid_padded_length (of_nat (length padded))
     \<and> length padded = unat (padded_length (of_nat (length content + 4)))
     \<and> is_padded_ciphertext_length (of_nat (length padded + AEAD_TAG_LEN))
   else pad content = Inl PadTooLong"
proof (cases "length content < 2 ^ 32")
  case True
  let ?n = "length content"
  let ?z = "replicate (padded_nat (?n + 4) - (?n + 4)) 0 :: byte list"
  let ?p = "be_bytes 4 ?n @ content @ ?z"
  have n63: "?n + 4 \<le> 2 ^ 63" using True by simp
  have len: "length ?p = padded_nat (?n + 4)"
    using padded_nat_ge [of "?n + 4"] by simp
  have valid: "is_valid_padded_length (of_nat (length ?p))"
    unfolding len using padded_nat_bound [OF n63]
    by (subst valid_padded_iff) (simp_all add: padme_nat_padded, simp add: padded_nat_def)
  have "unpad ?p = Inr content"
    using True valid by (simp add: unpad_def Let_def list_ex_iff)
  moreover have "unat (of_nat (?n + 4) :: u64) = ?n + 4"
    using n63 by (rule unat_of_nat_63)
  then have "length ?p = unat (padded_length (of_nat (?n + 4)))"
    unfolding len using n63 by (simp only: unat_padded_length)
  moreover have "is_padded_ciphertext_length (of_nat (length ?p + AEAD_TAG_LEN))"
  proof -
    have "unat (of_nat (length ?p + AEAD_TAG_LEN) :: u64) = length ?p + AEAD_TAG_LEN"
      unfolding len using padded_nat_bound [OF n63]
      by (intro unat_of_nat_u64) (simp add: AEAD_TAG_LEN_def)
    then have "(of_nat AEAD_TAG_LEN :: u64) \<le> of_nat (length ?p + AEAD_TAG_LEN)"
      by (simp add: word_le_nat_alt AEAD_TAG_LEN_def)
    then show ?thesis using valid by (simp add: is_padded_ciphertext_length_def)
  qed
  ultimately show ?thesis
    using True valid pad_eq [OF True] by (intro if_P [THEN iffD2]) auto
qed (simp add: pad_def)

lemma padded_length_mono: "n \<le> m \<Longrightarrow> m \<le> 2 ^ 63 \<Longrightarrow>
  unat (padded_length (of_nat n)) \<le> unat (padded_length (of_nat m))"
  by (simp add: unat_padded_length unat_of_nat_63 padded_nat_def padme_nat_mono max.coboundedI1)

text \<open>
  Every content that fits the \<open>u32\<close> prefix pads, to a length that is a valid padded
  length and no shorter than prefix and content together, and unpadding returns exactly the
  content; content that does not fit is refused.
\<close>

theorem unpad_pad:
  "if length content < 2 ^ 32
   then \<exists>padded. pad content = Inr padded \<and> unpad padded = Inr content
     \<and> is_valid_padded_length (of_nat (length padded))
     \<and> length padded = unat (padded_length (of_nat (length content + 4)))
     \<and> is_padded_ciphertext_length (of_nat (length padded + AEAD_TAG_LEN))
   else pad content = Inl PadTooLong"
  by (rule pad_unpad)

text \<open>
  Unpadding accepts only canonical input: the total is a valid padded length, the prefix
  is the content's length in four big-endian bytes, and every byte after the content is
  zero.
\<close>

theorem unpad_accepts:
  assumes "length padded \<le> 2 ^ 63"
  shows "unpad padded = Inr content \<longleftrightarrow>
    256 \<le> length padded \<and> padme (of_nat (length padded)) = of_nat (length padded)
    \<and> (\<exists>k. padded = be_bytes 4 (length content) @ content @ replicate k 0)
    \<and> length content < 2 ^ 32" (is "?L \<longleftrightarrow> ?R")
proof -
  let ?n = "be_nat (take 4 padded)"
  have valid: "is_valid_padded_length (of_nat (length padded)) \<longleftrightarrow>
      256 \<le> length padded \<and> padme (of_nat (length padded)) = of_nat (length padded)"
    using assms by (simp add: is_valid_padded_length_def MIN_PADDED_LEN_def word_le_nat_alt unat_of_nat)
  show ?thesis
  proof
    assume l: ?L
    then have len: "256 \<le> length padded" and n: "?n \<le> length (drop 4 padded)"
      and zero: "\<forall>b\<in>set (drop ?n (drop 4 padded)). b = 0"
      and content: "content = take ?n (drop 4 padded)" and v: "is_valid_padded_length (of_nat (length padded))"
      using valid by (auto simp: unpad_def Let_def list_ex_iff split: if_splits)
    have four: "length (take 4 padded) = 4" using len by simp
    have "drop ?n (drop 4 padded) = replicate (length (drop ?n (drop 4 padded))) 0"
      using zero by (metis replicate_eqI)
    then have "drop 4 padded = content @ replicate (length (drop ?n (drop 4 padded))) 0"
      unfolding content by (metis append_take_drop_id)
    moreover have "length content = ?n" using content n by simp
    then have "take 4 padded = be_bytes 4 (length content)"
      using be_bytes_be_nat [of "take 4 padded"] four by simp
    ultimately have "padded = be_bytes 4 (length content) @ content
        @ replicate (length (drop ?n (drop 4 padded))) 0"
      by (metis append_take_drop_id)
    moreover have "length content < 2 ^ 32"
      using \<open>length content = ?n\<close> be_nat_bound [of "take 4 padded"] four by simp
    ultimately show ?R using v valid by blast
  next
    assume r: ?R
    then obtain k where p: "padded = be_bytes 4 (length content) @ content @ replicate k 0"
      and "length content < 2 ^ 32" by blast
    then show ?L using r valid by (simp add: unpad_def Let_def list_ex_iff p [symmetric]) (simp add: p)
  qed
qed

theorem unpad_accepts_witness:
  "unpad (be_bytes 4 1 @ [7] @ replicate 251 0) = Inr [7]"
proof -
  have "padme 256 = 256"
    using unat_padme [of 256] by (intro word_eqI_unat) (simp add: padme_nat_256)
  then show ?thesis
    by (subst unpad_accepts) (simp_all add: exI [of _ 251])
qed

end
