(* ===== verification/Crypto.thy ===== *)
theory Crypto
  imports Types Tags
begin

text \<open>
  The primitives of \<^verbatim>\<open>crypto.rs\<close> and the derived identifiers of \<^verbatim>\<open>ids.rs\<close> (\<section>3, \<section>5).
  The crates behind \<^verbatim>\<open>crypto.rs\<close> (\<^verbatim>\<open>blake3\<close>, \<^verbatim>\<open>ed25519-dalek\<close>, \<^verbatim>\<open>chacha20poly1305\<close>) are
  parameters: a record of functions that every definition using them takes as its first
  argument. Nothing is assumed of them. A theorem that rests on collision resistance says so
  by naming the collision that would break it.
\<close>

record crypto =
  blake3 :: "byte list \<Rightarrow> 256 word"
  blake3_keyed :: "256 word \<Rightarrow> byte list \<Rightarrow> 256 word"
  blake3_derive_key :: "string \<Rightarrow> byte list \<Rightarrow> 256 word"
  ed25519_point :: "256 word \<Rightarrow> bool"
  ed25519_verify_strict :: "256 word \<Rightarrow> byte list \<Rightarrow> 512 word \<Rightarrow> bool"
  ed25519_public :: "256 word \<Rightarrow> 256 word"
  ed25519_sign :: "256 word \<Rightarrow> byte list \<Rightarrow> 512 word"
  aead_encrypt :: "256 word \<Rightarrow> 192 word \<Rightarrow> byte list \<Rightarrow> byte list \<Rightarrow> byte list"
  aead_decrypt :: "256 word \<Rightarrow> 192 word \<Rightarrow> byte list \<Rightarrow> byte list \<Rightarrow> byte list option"

text \<open>
  An explicit collision: two given inputs that differ and hash alike. Functions on byte lists
  of any length always have collisions, so no theorem assumes there are none; each names the
  pair of inputs that would have to be one.
\<close>

definition collision :: "('a \<Rightarrow> 'b) \<Rightarrow> 'a \<Rightarrow> 'a \<Rightarrow> bool" where
  "collision h x y \<longleftrightarrow> x \<noteq> y \<and> h x = h y"

lemma collision_or_eq: "h x = h y \<Longrightarrow> x = y \<or> collision h x y"
  by (simp add: collision_def)

subsection \<open>Contexts\<close>

datatype kdf_context =
    OPERATION_KEY | LINEAGE_KEY | KEY_CHECK | PRESENCE_KEY | PROFILE_KEY | SHARE_KEY
  | INVITATION_KEY | INVITATION_PROOF | RECOVERY_KIT | BLOB_NONCE | ACCOUNT_ID | SECRET_CHECK
  | PASSKEY_USER | DEVICE_CONFIRMATION

fun context_str :: "kdf_context \<Rightarrow> string" where
  "context_str OPERATION_KEY = ''noura.sync.v2 operation key''"
| "context_str LINEAGE_KEY = ''noura.sync.v2 lineage key''"
| "context_str KEY_CHECK = ''noura.sync.v2 key check''"
| "context_str PRESENCE_KEY = ''noura.sync.v2 presence key''"
| "context_str PROFILE_KEY = ''noura.sync.v2 profile key''"
| "context_str SHARE_KEY = ''noura.sync.v2 share key''"
| "context_str INVITATION_KEY = ''noura.sync.v2 invitation key''"
| "context_str INVITATION_PROOF = ''noura.sync.v2 invitation proof''"
| "context_str RECOVERY_KIT = ''noura.sync.v2 recovery kit''"
| "context_str BLOB_NONCE = ''noura.sync.v2 blob nonce''"
| "context_str ACCOUNT_ID = ''noura.sync.v2 account id''"
| "context_str SECRET_CHECK = ''noura.sync.v2 secret check''"
| "context_str PASSKEY_USER = ''noura.sync.v2 passkey user''"
| "context_str DEVICE_CONFIRMATION = ''noura.sync.v2 device confirmation''"

definition ALL_contexts :: "kdf_context list" where
  "ALL_contexts =
     [OPERATION_KEY, LINEAGE_KEY, KEY_CHECK, PRESENCE_KEY, PROFILE_KEY, SHARE_KEY,
      INVITATION_KEY, INVITATION_PROOF, RECOVERY_KIT, BLOB_NONCE, ACCOUNT_ID, SECRET_CHECK,
      PASSKEY_USER, DEVICE_CONFIRMATION]"

subsection \<open>Hashes, signatures and authenticated encryption\<close>

definition hash :: "crypto \<Rightarrow> byte list \<Rightarrow> digest" where
  "hash cr data = Digest (blake3 cr data)"

text \<open>Feeding a hasher part by part hashes the concatenation.\<close>

definition hash_parts :: "crypto \<Rightarrow> byte list list \<Rightarrow> digest" where
  "hash_parts cr parts = Digest (blake3 cr (concat parts))"

definition keyed_hash :: "crypto \<Rightarrow> secret_key \<Rightarrow> byte list \<Rightarrow> digest" where
  "keyed_hash cr key data = Digest (blake3_keyed cr (secret_val key) data)"

definition derive_key :: "crypto \<Rightarrow> kdf_context \<Rightarrow> byte list \<Rightarrow> secret_key" where
  "derive_key cr ctx material = SecretKey (blake3_derive_key cr (context_str ctx) material)"

datatype crypto_error = Crypto_Signature | Crypto_PublicKey | Crypto_Decrypt

definition verify :: "crypto \<Rightarrow> pubkey \<Rightarrow> byte list \<Rightarrow> signature \<Rightarrow> crypto_error + unit" where
  "verify cr public message sig =
     (if \<not> ed25519_point cr (pubkey_val public) then Inl Crypto_PublicKey
      else if ed25519_verify_strict cr (pubkey_val public) message (signature_val sig) then Inr ()
      else Inl Crypto_Signature)"

text \<open>A signing key is its 32-byte seed.\<close>

definition signing_public_of :: "crypto \<Rightarrow> secret_key \<Rightarrow> pubkey" where
  "signing_public_of cr seed = Key (ed25519_public cr (secret_val seed))"

definition sign_with :: "crypto \<Rightarrow> secret_key \<Rightarrow> byte list \<Rightarrow> signature" where
  "sign_with cr seed message = Signature (ed25519_sign cr (secret_val seed) message)"

definition seal :: "crypto \<Rightarrow> secret_key \<Rightarrow> nonce \<Rightarrow> byte list \<Rightarrow> byte list \<Rightarrow> byte list" where
  "seal cr key n aad plaintext = aead_encrypt cr (secret_val key) (nonce_val n) aad plaintext"

definition open_sealed ::
  "crypto \<Rightarrow> secret_key \<Rightarrow> nonce \<Rightarrow> byte list \<Rightarrow> byte list \<Rightarrow> crypto_error + byte list" where
  "open_sealed cr key n aad ciphertext =
     ok_or (aead_decrypt cr (secret_val key) (nonce_val n) aad ciphertext) Crypto_Decrypt"

lemma hash_parts_hash: "hash_parts cr parts = hash cr (concat parts)"
  by (simp add: hash_parts_def hash_def)

subsection \<open>Derived identifiers\<close>

definition first_16 :: "digest \<Rightarrow> 128 word" where
  "first_16 d = bytes_word (take 16 (digest_bytes d))"

definition device_id :: "crypto \<Rightarrow> pubkey \<Rightarrow> ident" where
  "device_id cr signing_public =
     Ident (first_16 (hash_parts cr [tag_bytes Tag_DeviceId, pubkey_bytes signing_public]))"

definition text_lineage_id :: "crypto \<Rightarrow> ident \<Rightarrow> digest \<Rightarrow> byte list \<Rightarrow> ident" where
  "text_lineage_id cr rid base document =
     Ident (first_16 (hash_parts cr
       [tag_bytes Tag_TextLineage, ident_bytes rid, digest_bytes base, document]))"

definition secret_check :: "crypto \<Rightarrow> secret_key \<Rightarrow> secret_key" where
  "secret_check cr server_secret = derive_key cr SECRET_CHECK (secret_bytes server_secret)"

definition ascii_lower :: "byte \<Rightarrow> byte" where
  "ascii_lower b = (if 0x41 \<le> b \<and> b \<le> 0x5A then b + 0x20 else b)"

definition normalize_email :: "byte list \<Rightarrow> byte list" where
  "normalize_email email = map ascii_lower email"

definition account_id :: "crypto \<Rightarrow> secret_key \<Rightarrow> byte list \<Rightarrow> ident" where
  "account_id cr server_secret email =
     (let key = derive_key cr ACCOUNT_ID (secret_bytes server_secret)
      in Ident (first_16 (keyed_hash cr key (normalize_email email))))"

definition passkey_user_handle :: "crypto \<Rightarrow> secret_key \<Rightarrow> ident \<Rightarrow> 128 word" where
  "passkey_user_handle cr server_secret account =
     (let key = derive_key cr PASSKEY_USER (secret_bytes server_secret)
      in first_16 (keyed_hash cr key (ident_bytes account)))"

definition device_confirmation ::
  "crypto \<Rightarrow> secret_key \<Rightarrow> ident \<Rightarrow> byte list \<Rightarrow> u64 \<Rightarrow> digest" where
  "device_confirmation cr server_secret account user_code expires_at =
     (let key = derive_key cr DEVICE_CONFIRMATION (secret_bytes server_secret);
          code = hash cr user_code
      in keyed_hash cr key
           (ident_bytes account @ digest_bytes code @ word_bytes 8 expires_at))"

definition device_confirmation_matches ::
  "crypto \<Rightarrow> secret_key \<Rightarrow> ident \<Rightarrow> byte list \<Rightarrow> u64 \<Rightarrow> digest \<Rightarrow> bool" where
  "device_confirmation_matches cr server_secret account user_code expires_at confirmation \<longleftrightarrow>
     device_confirmation cr server_secret account user_code expires_at = confirmation"

definition MAX_CARD_INDEX :: u32 where
  "MAX_CARD_INDEX = 2 ^ 24 - 1"

definition MAX_LOAD :: u32 where
  "MAX_LOAD = 2 ^ 29 - 1"

definition yrs_client_id :: "u32 \<Rightarrow> u32 \<Rightarrow> u64 option" where
  "yrs_client_id card_index load =
     (let valid_index = 1 \<le> card_index \<and> card_index \<le> MAX_CARD_INDEX;
          valid_load = 1 \<le> load \<and> load \<le> MAX_LOAD
      in if valid_index \<and> valid_load
         then Some (push_bit 29 (ucast card_index) + ucast load) else None)"

subsection \<open>Properties\<close>

lemma ascii_lower_idem: "ascii_lower (ascii_lower b) = ascii_lower b"
proof (cases "0x41 \<le> b \<and> b \<le> 0x5A")
  case True
  then have "0x41 \<le> unat b" "unat b \<le> 0x5A" by (simp_all add: word_le_nat_alt)
  moreover from this have "unat (b + 0x20) = unat b + 0x20" by (simp add: unat_word_ariths)
  ultimately show ?thesis using True by (simp add: ascii_lower_def word_le_nat_alt)
qed (simp only: ascii_lower_def if_False)

text \<open>
  An account ID does not depend on the case of the ASCII letters of the sign-up email,
  and two emails that differ otherwise share an ID only through equal 16-byte prefixes of two
  keyed hashes of different inputs.
\<close>

theorem account_id_case:
  "account_id cr s (normalize_email email) = account_id cr s email
   \<and> (account_id cr s email = account_id cr s email' \<longrightarrow>
       normalize_email email = normalize_email email'
       \<or> collision (\<lambda>input. first_16 (keyed_hash cr (derive_key cr ACCOUNT_ID (secret_bytes s)) input))
           (normalize_email email) (normalize_email email'))"
proof (intro conjI impI)
  show "account_id cr s (normalize_email email) = account_id cr s email"
    by (simp add: account_id_def normalize_email_def comp_def ascii_lower_idem)
  assume "account_id cr s email = account_id cr s email'"
  then show "normalize_email email = normalize_email email'
       \<or> collision (\<lambda>input. first_16 (keyed_hash cr (derive_key cr ACCOUNT_ID (secret_bytes s)) input))
           (normalize_email email) (normalize_email email')"
    by (intro collision_or_eq) (simp add: account_id_def Let_def)
qed

definition confirmation_input :: "crypto \<Rightarrow> ident \<Rightarrow> byte list \<Rightarrow> u64 \<Rightarrow> byte list" where
  "confirmation_input cr account code expires =
     ident_bytes account @ digest_bytes (hash cr code) @ word_bytes 8 expires"

text \<open>
  A device-page confirmation binds the account, the user code and the expiry: when the
  confirmation of one triple is accepted for another, the triples are the same, or the two
  codes are a BLAKE3 collision, or the two hashed inputs are a collision of the keyed hash.
\<close>

theorem device_confirmation_binds:
  assumes "device_confirmation_matches cr s account code expires
      (device_confirmation cr s account' code' expires')"
  shows "(account = account' \<and> code = code' \<and> expires = expires')
    \<or> collision (hash cr) code code'
    \<or> collision (keyed_hash cr (derive_key cr DEVICE_CONFIRMATION (secret_bytes s)))
        (confirmation_input cr account code expires) (confirmation_input cr account' code' expires')"
proof -
  let ?in = "confirmation_input cr account code expires"
    and ?in' = "confirmation_input cr account' code' expires'"
  let ?h = "keyed_hash cr (derive_key cr DEVICE_CONFIRMATION (secret_bytes s))"
  have "?h ?in = ?h ?in'"
    using assms by (simp add: device_confirmation_matches_def device_confirmation_def
        confirmation_input_def Let_def)
  then consider "?in = ?in'" | "collision ?h ?in ?in'"
    by (auto simp: collision_def)
  then show ?thesis
  proof cases
    case 1
    then have "account = account'" and "hash cr code = hash cr code'"
      and e: "word_bytes 8 expires = word_bytes 8 expires'"
      by (simp_all add: confirmation_input_def append_eq_append_conv)
    moreover have "expires = expires'"
      using arg_cong [OF e, of "bytes_word :: byte list \<Rightarrow> u64"] by (simp add: bytes_word_word_bytes)
    ultimately show ?thesis
      by (auto simp: collision_def)
  qed blast
qed

theorem device_confirmation_binds_witness:
  "\<forall>cr. (Ident 1 = Ident 1 \<and> [2] = [2::byte] \<and> (3::u64) = 3)
    \<or> collision (hash cr) [2] [2]
    \<or> collision (keyed_hash cr (derive_key cr DEVICE_CONFIRMATION (secret_bytes (SecretKey 7))))
        (confirmation_input cr (Ident 1) [2] 3) (confirmation_input cr (Ident 1) [2] 3)"
  by (rule allI, rule device_confirmation_binds) (simp add: device_confirmation_matches_def)

lemma mult_add_cancel:
  fixes a b c d n :: nat
  assumes "b < n" and "d < n" and "a * n + b = c * n + d"
  shows "a = c \<and> b = d"
proof -
  have "(a * n + b) div n = a" and "(c * n + d) div n = c"
    using assms(1,2) by simp_all
  then show ?thesis using assms(3) by simp
qed

text \<open>
  A yrs client ID is below \<open>2 ^ 53\<close>, never the 0 of a first document, and names its card
  index and load: no two pairs share an ID.
\<close>

theorem yrs_client_id_unique:
  assumes "yrs_client_id i l = Some c"
  shows "unat c = unat i * 2 ^ 29 + unat l \<and> 0 < c \<and> unat c < 2 ^ 53
    \<and> (yrs_client_id i' l' = Some c \<longrightarrow> i' = i \<and> l' = l)"
proof -
  have val: "unat d = unat j * 2 ^ 29 + unat m \<and> 0 < unat m \<and> unat m < 2 ^ 29 \<and> unat j < 2 ^ 24"
    if "yrs_client_id j m = Some d" for j m d
  proof -
    have b: "1 \<le> unat j" "unat j \<le> 2 ^ 24 - 1" "1 \<le> unat m" "unat m \<le> 2 ^ 29 - 1"
      and d: "d = push_bit 29 (ucast j) + ucast m"
      using that by (auto simp: yrs_client_id_def Let_def MAX_CARD_INDEX_def MAX_LOAD_def
          word_le_nat_alt split: if_splits)
    have "unat (ucast j :: u64) = unat j" and "unat (ucast m :: u64) = unat m"
      using b by (simp_all add: unsigned_ucast_eq take_bit_nat_eq_self)
    moreover have "unat (push_bit 29 (ucast j :: u64)) = unat j * 2 ^ 29"
      using b calculation by (simp add: push_bit_eq_mult unat_word_ariths mult.commute)
    ultimately have "unat d = unat j * 2 ^ 29 + unat m"
      using b by (simp add: d unat_word_ariths)
    then show ?thesis using b by simp
  qed
  show ?thesis
  proof (intro conjI impI)
    show "unat c = unat i * 2 ^ 29 + unat l" using val [OF assms] by blast
    show "0 < c" using val [OF assms] by (simp add: word_less_nat_alt)
    show "unat c < 2 ^ 53" using val [OF assms] by simp
    assume other: "yrs_client_id i' l' = Some c"
    have "unat i' * 2 ^ 29 + unat l' = unat i * 2 ^ 29 + unat l"
      using val [OF assms] val [OF other] by simp
    then have "unat i' = unat i" and "unat l' = unat l"
      using mult_add_cancel [of "unat l'" "2 ^ 29" "unat l" "unat i'" "unat i"]
        val [OF assms] val [OF other] by blast+
    then show "i' = i" and "l' = l" by (auto intro: word_eqI_unat)
  qed
qed

lemma demo_client_id: "yrs_client_id 1 5 = Some (2 ^ 29 + 5)"
  by (simp add: yrs_client_id_def MAX_CARD_INDEX_def MAX_LOAD_def push_bit_eq_mult)

theorem yrs_client_id_unique_witness:
  "unat (2 ^ 29 + 5 :: u64) = unat (1 :: u32) * 2 ^ 29 + unat (5 :: u32)
    \<and> (0 :: u64) < 2 ^ 29 + 5 \<and> unat (2 ^ 29 + 5 :: u64) < 2 ^ 53"
  using yrs_client_id_unique [OF demo_client_id] by blast

end
