(* ===== verification/Records_Account.thy ===== *)
theory Records_Account
  imports Wire_Laws Crypto Padding
begin

text \<open>
  Signed records (\<^verbatim>\<open>records/mod.rs\<close>), the device card (\<^verbatim>\<open>records/card.rs\<close>) and the account
  chain's link and head (\<^verbatim>\<open>records/link.rs\<close>), with their encodings. Each type interprets the
  codec's contract, so its encoding is canonical and its decoder total.
\<close>

subsection \<open>Signed records\<close>

record 'b signed =
  body :: 'b
  sig :: signature

definition signed_sign :: "crypto \<Rightarrow> ('b \<Rightarrow> byte list) \<Rightarrow> 'b \<Rightarrow> secret_key \<Rightarrow> 'b signed" where
  "signed_sign cr enc b key = \<lparr>body = b, sig = sign_with cr key (enc b)\<rparr>"

definition enc_signed :: "('b \<Rightarrow> byte list) \<Rightarrow> 'b signed \<Rightarrow> byte list" where
  "enc_signed enc s = enc (body s) @ signature_bytes (sig s)"

definition signed_digest :: "crypto \<Rightarrow> ('b \<Rightarrow> byte list) \<Rightarrow> 'b signed \<Rightarrow> digest" where
  "signed_digest cr enc s = hash cr (enc_signed enc s)"

definition signed_verify ::
  "crypto \<Rightarrow> ('b \<Rightarrow> byte list) \<Rightarrow> 'b signed \<Rightarrow> pubkey \<Rightarrow> crypto_error + unit" where
  "signed_verify cr enc s public = verify cr public (enc (body s)) (sig s)"

definition dec_signed :: "'b decoder \<Rightarrow> 'b signed decoder" where
  "dec_signed dec = rbind dec (\<lambda>b. rbind dec_signature (\<lambda>s. rret \<lparr>body = b, sig = s\<rparr>))"

definition wf_signed :: "('b \<Rightarrow> bool) \<Rightarrow> 'b signed \<Rightarrow> bool" where
  "wf_signed ok s \<longleftrightarrow> ok (body s)"

lemma wire_signed:
  assumes "wire enc dec ok m"
  shows "wire (enc_signed enc) (dec_signed dec) (wf_signed ok) (m + 64)"
proof
  show "decodes (dec_signed dec) (enc_signed enc x) x" if "wf_signed ok x" for x
    using that unfolding dec_signed_def enc_signed_def wf_signed_def
    by (intro decodes_bind [OF wire.decodes_enc [OF assms]] decodes_last [OF signature.decodes_enc]
        decodes_retI) simp_all
  show "accepts (dec_signed dec) (\<lambda>x bs. wf_signed ok x \<and> bs = enc_signed enc x)"
    unfolding dec_signed_def
    by (rule accepts_bind, rule wire.accepts_dec [OF assms], rule accepts_bind,
        rule signature.accepts_dec, rule accepts_ret) (simp add: wf_signed_def enc_signed_def)
  show "m + 64 \<le> length (enc_signed enc x)" if "wf_signed ok x" for x
    using that wire.min_size_le [OF assms, of "body x"]
    by (simp add: wf_signed_def enc_signed_def signature_bytes_def)
qed

text \<open>A digest names one well-formed record, or exhibits a collision.\<close>

lemma signed_digest_binds:
  assumes "wire enc dec ok m" and "wf_signed ok s" and "wf_signed ok t"
    and "signed_digest cr enc s = signed_digest cr enc t"
  shows "s = t \<or> collision (hash cr) (enc_signed enc s) (enc_signed enc t)"
proof (cases "enc_signed enc s = enc_signed enc t")
  case True
  then show ?thesis
    using wire.enc_inject [OF wire_signed [OF assms(1)] assms(2,3)] by blast
next
  case False
  then show ?thesis using assms(4) by (simp add: signed_digest_def collision_def)
qed

subsection \<open>The device card\<close>

definition HPKE_PUBLIC_LEN :: nat where
  "HPKE_PUBLIC_LEN = 1216"

record card =
  card_account :: ident
  card_device :: ident
  signing_public :: pubkey
  hpke_public :: "byte list"

definition card_new :: "crypto \<Rightarrow> ident \<Rightarrow> pubkey \<Rightarrow> byte list \<Rightarrow> decode_error_kind + card" where
  "card_new cr account public hpke =
     (if length hpke = HPKE_PUBLIC_LEN
      then Inr \<lparr>card_account = account, card_device = device_id cr public,
                signing_public = public, hpke_public = hpke\<rparr>
      else Inl WrongLength)"

definition enc_card :: "card \<Rightarrow> byte list" where
  "enc_card c = tag_bytes Tag_DeviceCard @ ident_bytes (card_account c)
     @ ident_bytes (card_device c) @ pubkey_bytes (signing_public c) @ w_bytes (hpke_public c)"

definition dec_card :: "crypto \<Rightarrow> card decoder" where
  "dec_card cr =
     rbind (rtag Tag_DeviceCard) (\<lambda>_.
     rbind dec_ident (\<lambda>account.
     rbind roffset (\<lambda>device_offset.
     rbind dec_ident (\<lambda>device.
     rbind dec_pubkey (\<lambda>public.
     rbind (rbytes_exact HPKE_PUBLIC_LEN) (\<lambda>hpke.
     rbind (rensure (device_id cr public = device) (error_at DeviceIdMismatch device_offset)) (\<lambda>_.
     rret \<lparr>card_account = account, card_device = device,
           signing_public = public, hpke_public = hpke\<rparr>)))))))"

definition card_fingerprint :: "crypto \<Rightarrow> card \<Rightarrow> digest" where
  "card_fingerprint cr c = hash cr (enc_card c)"

definition card_hpke_digest :: "crypto \<Rightarrow> card \<Rightarrow> digest" where
  "card_hpke_digest cr c = hash cr (hpke_public c)"

definition wf_card :: "crypto \<Rightarrow> card \<Rightarrow> bool" where
  "wf_card cr c \<longleftrightarrow> wf_ident (card_account c) \<and> wf_ident (card_device c)
     \<and> wf_exact HPKE_PUBLIC_LEN (hpke_public c) \<and> device_id cr (signing_public c) = card_device c"

definition card_MIN_SIZE :: nat where
  "card_MIN_SIZE = encoded_len Tag_DeviceCard + 16 + 16 + 32 + 4 + HPKE_PUBLIC_LEN"

lemma fits_hpke [simp]: "fits_u32 HPKE_PUBLIC_LEN"
  by (simp add: fits_u32_def HPKE_PUBLIC_LEN_def)

lemmas hpke_decodes = wire.decodes_enc [OF wire_bytes_exact [OF fits_hpke]]
lemmas hpke_accepts = wire.accepts_dec [OF wire_bytes_exact [OF fits_hpke]]

interpretation card: wire enc_card "dec_card cr" "wf_card cr" card_MIN_SIZE for cr
proof
  show "decodes (dec_card cr) (enc_card x) x" if "wf_card cr x" for x
    using that unfolding dec_card_def enc_card_def wf_card_def
    by (intro decodes_bind [OF decodes_tag] decodes_bind [OF ident.decodes_enc] decodes_offset
        decodes_bind [OF pubkey.decodes_enc] decodes_last [OF hpke_decodes]
        decodes_last [OF decodes_ensure] decodes_retI) simp_all
  show "accepts (dec_card cr) (\<lambda>x bs. wf_card cr x \<and> bs = enc_card x)"
    unfolding dec_card_def
    by (rule accepts_bind, rule accepts_tag, rule accepts_bind, rule ident.accepts_dec,
        rule accepts_offset, rule accepts_bind, rule ident.accepts_dec, rule accepts_bind,
        rule pubkey.accepts_dec, rule accepts_bind, rule hpke_accepts, rule accepts_bind,
        rule accepts_ensure, rule accepts_ret) (simp add: wf_card_def enc_card_def)
  show "card_MIN_SIZE \<le> length (enc_card x)" if "wf_card cr x" for x
    using that by (simp add: enc_card_def card_MIN_SIZE_def wf_card_def wf_exact_def w_bytes_def
        w_u32_def)
qed

subsection \<open>The account head\<close>

definition MAX_ACTIVE_CARDS :: nat where
  "MAX_ACTIVE_CARDS = 256"

record account_head =
  ah_account :: ident
  ah_genesis :: digest
  ah_seqno :: u64
  ah_head :: digest

definition enc_account_head :: "account_head \<Rightarrow> byte list" where
  "enc_account_head h = ident_bytes (ah_account h) @ digest_bytes (ah_genesis h)
     @ w_u64 (ah_seqno h) @ digest_bytes (ah_head h)"

definition dec_account_head :: "account_head decoder" where
  "dec_account_head =
     rbind dec_ident (\<lambda>account. rbind dec_digest (\<lambda>genesis. rbind ru64 (\<lambda>seqno.
     rbind dec_digest (\<lambda>head.
     rret \<lparr>ah_account = account, ah_genesis = genesis, ah_seqno = seqno, ah_head = head\<rparr>))))"

definition wf_account_head :: "account_head \<Rightarrow> bool" where
  "wf_account_head h \<longleftrightarrow> wf_ident (ah_account h)"

text \<open>\<open>ByAccount\<close>: the sort key of account heads.\<close>

definition by_account_head :: "account_head \<Rightarrow> byte list" where
  "by_account_head h = ident_bytes (ah_account h)"

interpretation account_head: wire enc_account_head dec_account_head wf_account_head 88
proof
  show "decodes dec_account_head (enc_account_head x) x" if "wf_account_head x" for x
    using that unfolding dec_account_head_def enc_account_head_def wf_account_head_def
    by (intro decodes_bind [OF ident.decodes_enc] decodes_bind [OF digest.decodes_enc]
        decodes_bind [OF u64.decodes_enc] decodes_last [OF digest.decodes_enc] decodes_retI) simp_all
  show "accepts dec_account_head (\<lambda>x bs. wf_account_head x \<and> bs = enc_account_head x)"
    unfolding dec_account_head_def
    by (rule accepts_bind, rule ident.accepts_dec, rule accepts_bind, rule digest.accepts_dec,
        rule accepts_bind, rule u64.accepts_dec, rule accepts_bind, rule digest.accepts_dec,
        rule accepts_ret) (simp add: wf_account_head_def enc_account_head_def)
qed (simp add: enc_account_head_def w_u64_def)

subsection \<open>The link\<close>

datatype link_kind =
    Link_Genesis card
  | Link_AddDevice card digest
  | Link_AddRecovery card
  | Link_RecoverDevice card
  | Link_Remove ident "ident list"

fun link_code :: "link_kind \<Rightarrow> u8" where
  "link_code (Link_Genesis _) = 1"
| "link_code (Link_AddDevice _ _) = 2"
| "link_code (Link_AddRecovery _) = 3"
| "link_code (Link_RecoverDevice _) = 4"
| "link_code (Link_Remove _ _) = 5"

fun added_card :: "link_kind \<Rightarrow> card option" where
  "added_card (Link_Genesis c) = Some c"
| "added_card (Link_AddDevice c _) = Some c"
| "added_card (Link_AddRecovery c) = Some c"
| "added_card (Link_RecoverDevice c) = Some c"
| "added_card (Link_Remove _ _) = None"

record account_link =
  link_account :: ident
  link_seqno :: u64
  link_previous :: digest
  link_signer :: ident
  link_kind :: link_kind

fun enc_link_kind :: "link_kind \<Rightarrow> byte list" where
  "enc_link_kind (Link_Genesis c) = enc_nested enc_card c"
| "enc_link_kind (Link_AddDevice c offer) = enc_nested enc_card c @ digest_bytes offer"
| "enc_link_kind (Link_AddRecovery c) = enc_nested enc_card c"
| "enc_link_kind (Link_RecoverDevice c) = enc_nested enc_card c"
| "enc_link_kind (Link_Remove device keep) = ident_bytes device @ encode_list ident_bytes keep"

definition enc_account_link :: "account_link \<Rightarrow> byte list" where
  "enc_account_link l = tag_bytes Tag_Account @ ident_bytes (link_account l)
     @ w_u64 (link_seqno l) @ digest_bytes (link_previous l) @ ident_bytes (link_signer l)
     @ w_u8 (link_code (link_kind l)) @ enc_link_kind (link_kind l)"

text \<open>\<open>Sorted<Id, Whole, MAX_ACTIVE_CARDS>\<close> sorts by the whole encoding.\<close>

definition dec_keep :: "ident list decoder" where
  "dec_keep = dec_sorted ident_bytes MAX_ACTIVE_CARDS 16 dec_ident"

definition dec_link_kind :: "crypto \<Rightarrow> nat \<Rightarrow> u8 \<Rightarrow> link_kind decoder" where
  "dec_link_kind cr kind_offset k =
     (if k = 1 then rbind (dec_nested (dec_card cr)) (\<lambda>c. rret (Link_Genesis c))
      else if k = 2 then rbind (dec_nested (dec_card cr)) (\<lambda>c. rbind dec_digest (\<lambda>offer.
        rret (Link_AddDevice c offer)))
      else if k = 3 then rbind (dec_nested (dec_card cr)) (\<lambda>c. rret (Link_AddRecovery c))
      else if k = 4 then rbind (dec_nested (dec_card cr)) (\<lambda>c. rret (Link_RecoverDevice c))
      else if k = 5 then rbind dec_ident (\<lambda>device. rbind dec_keep (\<lambda>keep.
        rret (Link_Remove device keep)))
      else rfail (error_at UnknownValue kind_offset))"

definition dec_account_link :: "crypto \<Rightarrow> account_link decoder" where
  "dec_account_link cr =
     rbind (rtag Tag_Account) (\<lambda>_. rbind dec_ident (\<lambda>account. rbind ru64 (\<lambda>seqno.
     rbind dec_digest (\<lambda>previous. rbind dec_ident (\<lambda>signer. rbind roffset (\<lambda>kind_offset.
     rbind ru8 (\<lambda>k. rbind (dec_link_kind cr kind_offset k) (\<lambda>kind.
     rret \<lparr>link_account = account, link_seqno = seqno, link_previous = previous,
           link_signer = signer, link_kind = kind\<rparr>))))))))"

fun wf_link_kind :: "crypto \<Rightarrow> link_kind \<Rightarrow> bool" where
  "wf_link_kind cr (Link_Remove device keep) \<longleftrightarrow>
     wf_ident device \<and> wf_sorted ident_bytes MAX_ACTIVE_CARDS wf_ident keep"
| "wf_link_kind cr (Link_Genesis c) \<longleftrightarrow> wf_nested enc_card (wf_card cr) c"
| "wf_link_kind cr (Link_AddDevice c _) \<longleftrightarrow> wf_nested enc_card (wf_card cr) c"
| "wf_link_kind cr (Link_AddRecovery c) \<longleftrightarrow> wf_nested enc_card (wf_card cr) c"
| "wf_link_kind cr (Link_RecoverDevice c) \<longleftrightarrow> wf_nested enc_card (wf_card cr) c"

definition wf_account_link :: "crypto \<Rightarrow> account_link \<Rightarrow> bool" where
  "wf_account_link cr l \<longleftrightarrow> wf_ident (link_account l) \<and> wf_ident (link_signer l)
     \<and> wf_link_kind cr (link_kind l)"

definition account_link_MIN_SIZE :: nat where
  "account_link_MIN_SIZE = encoded_len Tag_Account + 16 + 8 + 32 + 16 + 1 + 16 + 4"

lemma sixteen_pos: "0 < (16::nat)"
  by simp

lemmas keep_wire = wire_sorted [OF ident.wire_axioms sixteen_pos,
    of ident_bytes MAX_ACTIVE_CARDS, folded dec_keep_def]
lemmas card_nested_wire = wire_nested [OF card.wire_axioms]

lemma decodes_link_kind:
  assumes "wf_link_kind cr k"
  shows "decodes (dec_link_kind cr off (link_code k)) (enc_link_kind k) k"
proof (cases k)
  case (Link_AddDevice c offer)
  then show ?thesis
    using assms by (auto simp: dec_link_kind_def
        intro!: decodes_bind [OF wire.decodes_enc [OF card_nested_wire]]
          decodes_last [OF digest.decodes_enc] decodes_retI)
next
  case (Link_Remove device keep)
  then show ?thesis
    using assms by (auto simp: dec_link_kind_def
        intro!: decodes_bind [OF ident.decodes_enc] decodes_last [OF wire.decodes_enc [OF keep_wire]]
          decodes_retI)
qed (use assms in \<open>auto simp: dec_link_kind_def
        intro!: decodes_last [OF wire.decodes_enc [OF card_nested_wire]] decodes_retI\<close>)

lemma accepts_link_kind:
  "accepts (dec_link_kind cr off k) (\<lambda>x bs. wf_link_kind cr x \<and> link_code x = k \<and> bs = enc_link_kind x)"
  unfolding dec_link_kind_def
  by (intro accepts_if accepts_fail
      accepts_bind [OF wire.accepts_dec [OF card_nested_wire]] accepts_bind [OF digest.accepts_dec]
      accepts_bind [OF ident.accepts_dec] accepts_bind [OF wire.accepts_dec [OF keep_wire]]
      accepts_ret) simp_all

lemma length_link_kind: "wf_link_kind cr k \<Longrightarrow> 20 \<le> length (enc_link_kind k)"
  using wire.min_size_le [OF card_nested_wire] wire.min_size_le [OF keep_wire]
  by (cases k) (fastforce simp: card_MIN_SIZE_def)+

interpretation account_link:
  wire enc_account_link "dec_account_link cr" "wf_account_link cr" account_link_MIN_SIZE for cr
proof
  show "decodes (dec_account_link cr) (enc_account_link x) x" if "wf_account_link cr x" for x
    using that unfolding dec_account_link_def enc_account_link_def wf_account_link_def
    by (intro decodes_bind [OF decodes_tag] decodes_bind [OF ident.decodes_enc] decodes_offset
        decodes_bind [OF u64.decodes_enc] decodes_bind [OF digest.decodes_enc]
        decodes_bind [OF u8.decodes_enc] decodes_last [OF decodes_link_kind] decodes_retI) simp_all
  show "accepts (dec_account_link cr) (\<lambda>x bs. wf_account_link cr x \<and> bs = enc_account_link x)"
    unfolding dec_account_link_def
    by (rule accepts_bind, rule accepts_tag, rule accepts_bind, rule ident.accepts_dec,
        rule accepts_bind, rule u64.accepts_dec, rule accepts_bind, rule digest.accepts_dec,
        rule accepts_bind, rule ident.accepts_dec, rule accepts_offset, rule accepts_bind,
        rule u8.accepts_dec, rule accepts_bind, rule accepts_link_kind, rule accepts_ret)
      (auto simp: wf_account_link_def enc_account_link_def)
  show "account_link_MIN_SIZE \<le> length (enc_account_link x)" if "wf_account_link cr x" for x
    using that length_link_kind [of cr "link_kind x"]
    by (simp add: wf_account_link_def enc_account_link_def account_link_MIN_SIZE_def w_u64_def w_u8_def)
qed

abbreviation signed_link_digest :: "crypto \<Rightarrow> account_link signed \<Rightarrow> digest" where
  "signed_link_digest cr \<equiv> signed_digest cr enc_account_link"

lemmas signed_link_wire = wire_signed [OF account_link.wire_axioms]

text \<open>
  A byte string decodes to a signed account link exactly when it is the encoding of that
  link, and then the link satisfies every limit of the format: no other bytes decode to it, and
  nothing but the whole string does.
\<close>

theorem signed_link_codec:
  "from_bytes (dec_signed (dec_account_link cr)) bs = Inr l \<longleftrightarrow>
     wf_signed (wf_account_link cr) l \<and> bs = enc_signed enc_account_link l"
  by (rule wire.from_bytes_iff [OF signed_link_wire])

subsection \<open>Laws of the primitives\<close>

text \<open>
  The documented laws of the third-party primitives, as predicates on the record of primitives.
  Theorems that show what honest use achieves take them as hypotheses; no definition rests on them.
\<close>

text \<open>The round trip of XChaCha20-Poly1305 with its 16-byte tag, and that an Ed25519 signature verifies
  under its own key.\<close>

definition aead_law :: "crypto \<Rightarrow> bool" where
  "aead_law cr \<longleftrightarrow> (\<forall>k n aad plain. aead_decrypt cr k n aad (aead_encrypt cr k n aad plain) = Some plain
     \<and> length (aead_encrypt cr k n aad plain) = length plain + AEAD_TAG_LEN)"

definition signature_law :: "crypto \<Rightarrow> bool" where
  "signature_law cr \<longleftrightarrow> (\<forall>k m. ed25519_point cr (ed25519_public cr k)
     \<and> ed25519_verify_strict cr (ed25519_public cr k) m (ed25519_sign cr k m))"

lemma signed_sign_verifies:
  "signature_law cr \<Longrightarrow> signed_verify cr enc (signed_sign cr enc b seed) (signing_public_of cr seed) = Inr ()"
  by (simp add: signature_law_def signed_verify_def signed_sign_def verify_def signing_public_of_def sign_with_def)

end
