(* ===== verification/BTree.thy ===== *)
theory BTree
  imports Prelude
begin

text \<open>
  The standard library's \<open>BTreeMap\<close>, which every component of the protocol crate keeps its
  state in: a finite map whose iterators run in key order. It is modelled by the type of
  association lists with strictly rising keys; the locale \<open>ordered_map\<close> states what the
  components rely on, and it is interpreted on the operations below. A \<open>BTreeSet\<close> is a set.
\<close>

subsection \<open>Sorted association lists\<close>

fun ins_sorted :: "'k::linorder \<Rightarrow> 'v \<Rightarrow> ('k \<times> 'v) list \<Rightarrow> ('k \<times> 'v) list" where
  "ins_sorted k v [] = [(k, v)]"
| "ins_sorted k v ((k', v') # kvs) =
     (if k < k' then (k, v) # (k', v') # kvs
      else if k = k' then (k, v) # kvs
      else (k', v') # ins_sorted k v kvs)"

definition rising :: "('k::linorder \<times> 'v) list \<Rightarrow> bool" where
  "rising kvs \<longleftrightarrow> sorted_wrt (<) (map fst kvs)"

lemma rising_simps [simp]:
  "rising []"
  "rising ((k, v) # kvs) \<longleftrightarrow> (\<forall>p \<in> set kvs. k < fst p) \<and> rising kvs"
  by (auto simp: rising_def)

lemma set_ins_sorted: "set (ins_sorted k v kvs) \<subseteq> insert (k, v) (set kvs)"
  by (induction k v kvs rule: ins_sorted.induct) auto

lemma ins_sorted_last: "\<forall>kv \<in> set xs. fst kv < k \<Longrightarrow> ins_sorted k v xs = xs @ [(k, v)]"
  by (induction k v xs rule: ins_sorted.induct) auto

lemma rising_ins_sorted: "rising kvs \<Longrightarrow> rising (ins_sorted k v kvs)"
proof (induction k v kvs rule: ins_sorted.induct)
  case (2 k v k' v' kvs)
  have "\<forall>p \<in> set (ins_sorted k v kvs). k' < fst p" if "\<not> k < k'" and "k \<noteq> k'"
    using that 2(2) set_ins_sorted [of k v kvs] by fastforce
  then show ?case
    using 2 by (auto intro: less_trans)
qed simp

lemma map_of_ins_sorted: "map_of (ins_sorted k v kvs) = (map_of kvs)(k \<mapsto> v)"
  by (induction k v kvs rule: ins_sorted.induct) (auto simp: fun_eq_iff)

lemma rising_filter: "rising kvs \<Longrightarrow> rising (filter P kvs)"
  by (induction kvs) auto

lemma rising_map: "rising kvs \<Longrightarrow> rising (map (\<lambda>(k, v). (k, f k v)) kvs)"
  by (simp add: rising_def comp_def case_prod_beta)

lemma rising_distinct: "rising kvs \<Longrightarrow> distinct (map fst kvs)"
  by (simp add: rising_def strict_sorted_iff)

lemma rising_rebuild:
  "rising kvs \<Longrightarrow> map (\<lambda>k. (k, the (map_of kvs k))) (map fst kvs) = kvs"
  by (auto intro!: map_idI simp: rising_distinct)

lemma rising_map_of_eq:
  assumes "rising xs" and "rising ys" and "map_of xs = map_of ys"
  shows "xs = ys"
proof -
  have "set (map fst xs) = set (map fst ys)"
    using assms(3) by (metis dom_map_of_conv_image_fst set_map)
  then have "map fst xs = map fst ys"
    using assms(1,2) unfolding rising_def by (intro strict_sorted_equal)
  then show ?thesis
    using rising_rebuild [OF assms(1)] rising_rebuild [OF assms(2)] assms(3) by metis
qed

subsection \<open>The map type and its operations\<close>

typedef (overloaded) ('k, 'v) btree = "{kvs :: ('k::linorder \<times> 'v) list. rising kvs}"
  by (rule exI [of _ "[]"]) simp

setup_lifting type_definition_btree

lift_definition bt_entries :: "('k::linorder, 'v) btree \<Rightarrow> ('k \<times> 'v) list" is "\<lambda>kvs. kvs" .

lift_definition bt_empty :: "('k::linorder, 'v) btree" is "[]"
  by simp

lift_definition bt_insert :: "'k::linorder \<Rightarrow> 'v \<Rightarrow> ('k, 'v) btree \<Rightarrow> ('k, 'v) btree" is ins_sorted
  by (rule rising_ins_sorted)

text \<open>\<open>retain\<close> and \<open>remove\<close>; and the mutation of every value through \<open>values_mut\<close>.\<close>

lift_definition bt_filter :: "('k::linorder \<Rightarrow> 'v \<Rightarrow> bool) \<Rightarrow> ('k, 'v) btree \<Rightarrow> ('k, 'v) btree"
  is "\<lambda>P. filter (\<lambda>(k, v). P k v)"
  by (rule rising_filter)

lift_definition bt_map :: "('k::linorder \<Rightarrow> 'v \<Rightarrow> 'w) \<Rightarrow> ('k, 'v) btree \<Rightarrow> ('k, 'w) btree"
  is "\<lambda>f. map (\<lambda>(k, v). (k, f k v))"
  by (rule rising_map)

definition bt_get :: "('k::linorder, 'v) btree \<Rightarrow> 'k \<Rightarrow> 'v option" where
  "bt_get m = map_of (bt_entries m)"

definition bt_remove :: "'k::linorder \<Rightarrow> ('k, 'v) btree \<Rightarrow> ('k, 'v) btree" where
  "bt_remove k = bt_filter (\<lambda>k' _. k' \<noteq> k)"

definition bt_keys :: "('k::linorder, 'v) btree \<Rightarrow> 'k list" where
  "bt_keys m = map fst (bt_entries m)"

definition bt_values :: "('k::linorder, 'v) btree \<Rightarrow> 'v list" where
  "bt_values m = map snd (bt_entries m)"

definition bt_len :: "('k::linorder, 'v) btree \<Rightarrow> nat" where
  "bt_len m = length (bt_entries m)"

definition bt_contains :: "('k::linorder, 'v) btree \<Rightarrow> 'k \<Rightarrow> bool" where
  "bt_contains m k \<longleftrightarrow> bt_get m k \<noteq> None"

text \<open>\<open>get_mut(k)\<close> followed by an assignment; a missing key changes nothing.\<close>

definition bt_adjust :: "'k::linorder \<Rightarrow> ('v \<Rightarrow> 'v) \<Rightarrow> ('k, 'v) btree \<Rightarrow> ('k, 'v) btree" where
  "bt_adjust k f = bt_map (\<lambda>k' v. if k' = k then f v else v)"

text \<open>\<open>collect()\<close> from an iterator of pairs: a later pair replaces an earlier one.\<close>

definition bt_collect :: "('k::linorder \<times> 'v) list \<Rightarrow> ('k, 'v) btree" where
  "bt_collect kvs = fold (\<lambda>(k, v). bt_insert k v) kvs bt_empty"

instantiation btree :: (linorder, equal) equal
begin

definition equal_btree :: "('a, 'b) btree \<Rightarrow> ('a, 'b) btree \<Rightarrow> bool" where
  "equal_btree m m' \<longleftrightarrow> HOL.equal (bt_entries m) (bt_entries m')"

instance
proof
  fix m m' :: "('a, 'b) btree"
  show "HOL.equal m m' \<longleftrightarrow> m = m'"
    unfolding equal_btree_def equal_eq by transfer simp
qed

end

subsection \<open>What the components rely on\<close>

locale ordered_map =
  fixes empty :: "'m"
    and insert :: "'k::linorder \<Rightarrow> 'v \<Rightarrow> 'm \<Rightarrow> 'm"
    and retain :: "('k \<Rightarrow> 'v \<Rightarrow> bool) \<Rightarrow> 'm \<Rightarrow> 'm"
    and entries :: "'m \<Rightarrow> ('k \<times> 'v) list"
  assumes entries_rising: "sorted_wrt (<) (map fst (entries m))"
    and entries_inject: "entries m = entries m' \<Longrightarrow> m = m'"
    and entries_empty: "entries empty = []"
    and lookup_insert: "map_of (entries (insert k v m)) = (map_of (entries m))(k \<mapsto> v)"
    and entries_retain: "entries (retain P m) = filter (\<lambda>(k, v). P k v) (entries m)"
begin

lemma keys_distinct: "distinct (map fst (entries m))"
  using entries_rising by (simp add: strict_sorted_iff)

lemma lookup_iff: "map_of (entries m) k = Some v \<longleftrightarrow> (k, v) \<in> set (entries m)"
  by (simp add: keys_distinct)

lemma lookup_ext: "map_of (entries m) = map_of (entries m') \<Longrightarrow> m = m'"
  using entries_rising by (intro entries_inject rising_map_of_eq) (simp_all add: rising_def)

lemma lookup_retain:
  "map_of (entries (retain P m)) k =
     (case map_of (entries m) k of None \<Rightarrow> None | Some v \<Rightarrow> if P k v then Some v else None)"
proof (cases "map_of (entries m) k")
  case None
  then have "k \<notin> fst ` set (entries m)" by (simp add: map_of_eq_None_iff)
  then have "k \<notin> fst ` set (entries (retain P m))" by (auto simp: entries_retain)
  then have "map_of (entries (retain P m)) k = None" by (simp only: map_of_eq_None_iff not_False_eq_True)
  then show ?thesis using None by simp
next
  case (Some v)
  then have in_entries: "(k, v) \<in> set (entries m)" by (simp add: lookup_iff)
  show ?thesis
  proof (cases "P k v")
    case True
    then have "(k, v) \<in> set (entries (retain P m))"
      using in_entries by (simp add: entries_retain)
    then have "map_of (entries (retain P m)) k = Some v" by (simp only: lookup_iff)
    then show ?thesis using Some True by simp
  next
    case False
    have "k \<notin> fst ` set (entries (retain P m))"
    proof
      assume "k \<in> fst ` set (entries (retain P m))"
      then obtain w where "(k, w) \<in> set (entries m)" and "P k w"
        by (auto simp: entries_retain)
      then show False using False Some by (simp add: lookup_iff [symmetric])
    qed
    then have "map_of (entries (retain P m)) k = None" by (simp only: map_of_eq_None_iff not_False_eq_True)
    then show ?thesis using Some False by simp
  qed
qed

lemma insert_same: "insert k v (insert k w m) = insert k v m"
  by (rule lookup_ext) (simp add: lookup_insert)

lemma insert_commute: "k \<noteq> l \<Longrightarrow> insert k v (insert l w m) = insert l w (insert k v m)"
  by (rule lookup_ext) (simp add: lookup_insert fun_upd_twist)

end

interpretation bt: ordered_map bt_empty bt_insert bt_filter bt_entries
proof
  show "sorted_wrt (<) (map fst (bt_entries m))" for m :: "('k::linorder, 'v) btree"
    by transfer (simp add: rising_def)
  show "m = m'" if "bt_entries m = bt_entries m'" for m m' :: "('k::linorder, 'v) btree"
    using that by transfer
  show "bt_entries (bt_empty :: ('k::linorder, 'v) btree) = []"
    by transfer simp
  show "map_of (bt_entries (bt_insert k v m)) = (map_of (bt_entries m))(k \<mapsto> v)"
    for k :: "'k::linorder" and v :: 'v and m
    by transfer (rule map_of_ins_sorted)
  show "bt_entries (bt_filter P m) = filter (\<lambda>(k, v). P k v) (bt_entries m)"
    for P :: "'k::linorder \<Rightarrow> 'v \<Rightarrow> bool" and m
    by transfer simp
qed

subsection \<open>Derived equations\<close>

lemma bt_entries_simps [simp]:
  "bt_entries bt_empty = []"
  "bt_entries (bt_insert k v m) = ins_sorted k v (bt_entries m)"
  "bt_entries (bt_filter P m) = filter (\<lambda>(k, v). P k v) (bt_entries m)"
  "bt_entries (bt_map f m) = map (\<lambda>(k, v). (k, f k v)) (bt_entries m)"
  by (transfer; simp)+

lemma bt_get_empty [simp]: "bt_get bt_empty k = None"
  by (simp add: bt_get_def)

lemma bt_get_insert [simp]: "bt_get (bt_insert k v m) = (bt_get m)(k \<mapsto> v)"
  unfolding bt_get_def by (rule bt.lookup_insert)

lemma bt_get_filter:
  "bt_get (bt_filter P m) k =
     (case bt_get m k of None \<Rightarrow> None | Some v \<Rightarrow> if P k v then Some v else None)"
  unfolding bt_get_def by (rule bt.lookup_retain)

lemma bt_get_filter_Some [simp]:
  "bt_get (bt_filter P m) k = Some v \<longleftrightarrow> bt_get m k = Some v \<and> P k v"
  by (auto simp: bt_get_filter split: option.splits)

lemma bt_get_remove [simp]: "bt_get (bt_remove k m) = (bt_get m)(k := None)"
  by (auto simp: bt_remove_def bt_get_filter fun_eq_iff split: option.splits)

lemma bt_get_map [simp]: "bt_get (bt_map f m) k = map_option (f k) (bt_get m k)"
proof -
  have "map_of (map (\<lambda>(k, v). (k, f k v)) kvs) k = map_option (f k) (map_of kvs k)" for kvs
    by (induction kvs) auto
  then show ?thesis by (simp add: bt_get_def)
qed

lemma bt_get_adjust [simp]:
  "bt_get (bt_adjust k f m) k' = (if k' = k then map_option f (bt_get m k) else bt_get m k')"
  by (simp add: bt_adjust_def option.map_ident)

lemma bt_in_entries [simp]: "(k, v) \<in> set (bt_entries m) \<longleftrightarrow> bt_get m k = Some v"
  unfolding bt_get_def by (rule bt.lookup_iff [symmetric])

lemma bt_entries_distinct [simp]: "distinct (map fst (bt_entries m))"
  by (rule bt.keys_distinct)

lemma bt_ext: "(\<And>k. bt_get m k = bt_get m' k) \<Longrightarrow> m = m'"
  unfolding bt_get_def by (rule bt.lookup_ext) (simp add: fun_eq_iff)

lemma bt_set_keys [simp]: "set (bt_keys m) = dom (bt_get m)"
  by (simp add: bt_keys_def bt_get_def dom_map_of_conv_image_fst)

lemma bt_keys_distinct [simp]: "distinct (bt_keys m)"
  by (simp add: bt_keys_def)

lemma bt_set_values [simp]: "set (bt_values m) = ran (bt_get m)"
  by (simp add: bt_values_def bt_get_def ran_distinct [symmetric] bt.keys_distinct)

lemma bt_contains_iff [simp]: "bt_contains m k \<longleftrightarrow> k \<in> dom (bt_get m)"
  by (simp add: bt_contains_def domIff)

lemma bt_finite_dom [simp]: "finite (dom (bt_get m))"
  by (simp add: bt_get_def finite_dom_map_of)

lemma bt_len_card: "bt_len m = card (dom (bt_get m))"
  by (metis bt_keys_def bt_keys_distinct bt_len_def bt_set_keys distinct_card length_map)

lemma bt_get_collect [simp]: "bt_get (bt_collect kvs) = map_of (rev kvs)"
proof (induction kvs rule: rev_induct)
  case Nil
  then show ?case by (simp add: bt_collect_def fun_eq_iff)
next
  case (snoc kv kvs)
  then show ?case by (cases kv) (simp add: bt_collect_def)
qed

end
