(* ===== verification/Hash_Chain.thy ===== *)
theory Hash_Chain
  imports Crypto
begin

text \<open>
  The argument that account chains and policy chains share (\<section>7, \<section>8): a list of records,
  numbered from 1, each naming the digest of the one before it. The digest of the last record
  determines the whole list, unless two of its records exhibit a hash collision.
\<close>

locale hash_chain =
  fixes digest_of :: "'r \<Rightarrow> digest"
    and bytes_of :: "'r \<Rightarrow> byte list"
    and hash_of :: "byte list \<Rightarrow> digest"
    and seqno_of :: "'r \<Rightarrow> u64"
    and previous_of :: "'r \<Rightarrow> digest"
    and ok :: "'r \<Rightarrow> bool"
  assumes digest_hash: "digest_of r = hash_of (bytes_of r)"
    and bytes_inject: "ok r \<Longrightarrow> ok s \<Longrightarrow> bytes_of r = bytes_of s \<Longrightarrow> r = s"
begin

definition linked :: "'r list \<Rightarrow> bool" where
  "linked rs \<longleftrightarrow> (\<forall>i < length rs. seqno_of (rs ! i) = of_nat (Suc i)
     \<and> (0 < i \<longrightarrow> previous_of (rs ! i) = digest_of (rs ! (i - 1))))"

text \<open>Two lists of which some records are a collision.\<close>

definition clash :: "'r list \<Rightarrow> 'r list \<Rightarrow> bool" where
  "clash rs ss \<longleftrightarrow> (\<exists>r \<in> set rs. \<exists>s \<in> set ss. collision hash_of (bytes_of r) (bytes_of s))"

lemma linked_snoc:
  "linked (rs @ [r]) \<longleftrightarrow> linked rs \<and> seqno_of r = of_nat (Suc (length rs))
     \<and> (rs \<noteq> [] \<longrightarrow> previous_of r = digest_of (last rs))"
  by (auto simp: linked_def nth_append last_conv_nth less_Suc_eq)

lemma linked_take: "linked rs \<Longrightarrow> linked (take n rs)"
  by (auto simp: linked_def)

lemma same_digest: "ok r \<Longrightarrow> ok s \<Longrightarrow> digest_of r = digest_of s \<Longrightarrow>
    r = s \<or> collision hash_of (bytes_of r) (bytes_of s)"
  using bytes_inject by (auto simp: digest_hash collision_def)

lemma seqno_last: "linked rs \<Longrightarrow> rs \<noteq> [] \<Longrightarrow> seqno_of (last rs) = of_nat (length rs)"
  by (cases rs rule: rev_cases) (simp_all add: linked_snoc)

lemma same_head_same_length:
  assumes "linked rs" and "linked ss" and "rs \<noteq> []" and "ss \<noteq> []"
    and "last rs = last ss" and "length rs < 2 ^ 64" and "length ss < 2 ^ 64"
  shows "length rs = length ss"
proof -
  have "seqno_of (last rs) = of_nat (length rs)" and "seqno_of (last ss) = of_nat (length ss)"
    using assms(1-4) by (simp_all only: seqno_last not_False_eq_True)
  then have "(of_nat (length rs) :: u64) = of_nat (length ss)"
    using assms(5) by simp
  then have "unat (of_nat (length rs) :: u64) = unat (of_nat (length ss) :: u64)"
    by simp
  then show ?thesis
    using assms(6,7) by (simp add: unat_of_nat)
qed

lemma head_binds_equal_length:
  assumes "length rs = length ss" and "linked rs" and "linked ss" and "list_all ok rs"
    and "list_all ok ss" and "rs \<noteq> []" and "digest_of (last rs) = digest_of (last ss)"
  shows "rs = ss \<or> clash rs ss"
  using assms
proof (induction rs arbitrary: ss rule: rev_induct)
  case (snoc r rs)
  then obtain ts s where ss: "ss = ts @ [s]"
    by (cases ss rule: rev_cases) auto
  have "r = s \<or> collision hash_of (bytes_of r) (bytes_of s)"
    using snoc.prems ss by (intro same_digest) simp_all
  then show ?case
  proof
    assume "collision hash_of (bytes_of r) (bytes_of s)"
    then show ?thesis by (auto simp: ss clash_def)
  next
    assume rs: "r = s"
    show ?thesis
    proof (cases "rs = []")
      case True
      then show ?thesis using snoc.prems(1) ss rs by simp
    next
      case False
      then have "ts \<noteq> []" using snoc.prems(1) ss by auto
      with False have "digest_of (last rs) = digest_of (last ts)"
        using snoc.prems(2,3) ss rs by (simp add: linked_snoc)
      then have "rs = ts \<or> clash rs ts"
        using snoc.prems ss False by (intro snoc.IH) (simp_all add: linked_snoc)
      then show ?thesis using rs ss by (auto simp: clash_def)
    qed
  qed
qed simp

text \<open>The head determines the chain.\<close>

lemma head_binds:
  assumes "linked rs" and "linked ss" and "list_all ok rs" and "list_all ok ss"
    and "rs \<noteq> []" and "ss \<noteq> []" and "length rs < 2 ^ 64" and "length ss < 2 ^ 64"
    and "digest_of (last rs) = digest_of (last ss)"
  shows "rs = ss \<or> clash rs ss"
proof -
  have "ok (last rs)" and "ok (last ss)"
    using assms(3-6) by (auto simp: list_all_iff)
  then have "last rs = last ss \<or> collision hash_of (bytes_of (last rs)) (bytes_of (last ss))"
    using assms(9) by (intro same_digest)
  then show ?thesis
  proof
    assume "last rs = last ss"
    then have "length rs = length ss"
      using assms by (intro same_head_same_length) simp_all
    then show ?thesis using assms by (intro head_binds_equal_length)
  next
    assume "collision hash_of (bytes_of (last rs)) (bytes_of (last ss))"
    then show ?thesis
      unfolding clash_def using assms(5,6) by (meson last_in_set)
  qed
qed

end

end
