(* ===== verification/Account.thy ===== *)
theory Account
  imports Records_Account BTree Hash_Chain
begin

text \<open>
  Account chain verification (\<^verbatim>\<open>account.rs\<close>, \<section>7): the cards of an account, the rules a
  link must follow, the cascade of a removal, the chain cut back to an earlier head, and the
  judgement of a served chain under a kept head. A \<open>&mut self\<close> method returns the changed
  chain; it changes nothing when it fails.
\<close>

subsection \<open>State\<close>

record card_state =
  cs_card :: card
  cs_parent :: "ident option"
  cs_added_at :: u64
  cs_removed_at :: "u64 option"
  cs_recovery :: bool
  cs_recovered_at :: "u64 option"

definition cs_active_at :: "card_state \<Rightarrow> u64 \<Rightarrow> bool" where
  "cs_active_at s seqno \<longleftrightarrow> cs_added_at s \<le> seqno
     \<and> (case cs_removed_at s of None \<Rightarrow> True | Some removed \<Rightarrow> seqno < removed)"

datatype account_error =
    Acc_Seqno u64 | Acc_Previous u64 | Acc_Account u64 | Acc_GenesisPosition u64
  | Acc_GenesisSigner u64 | Acc_SignerNotActive u64 | Acc_Signature u64 | Acc_CardAccount u64
  | Acc_DeviceListed u64 | Acc_RecoverySigns u64 | Acc_RecoveryNotSigner u64
  | Acc_RecoveryUsed u64 | Acc_SecondRecovery u64 | Acc_TooManyCards u64 | Acc_RemoveTarget u64
  | Acc_Keep u64

fun account_error_seqno :: "account_error \<Rightarrow> u64" where
  "account_error_seqno (Acc_Seqno s) = s"
| "account_error_seqno (Acc_Previous s) = s"
| "account_error_seqno (Acc_Account s) = s"
| "account_error_seqno (Acc_GenesisPosition s) = s"
| "account_error_seqno (Acc_GenesisSigner s) = s"
| "account_error_seqno (Acc_SignerNotActive s) = s"
| "account_error_seqno (Acc_Signature s) = s"
| "account_error_seqno (Acc_CardAccount s) = s"
| "account_error_seqno (Acc_DeviceListed s) = s"
| "account_error_seqno (Acc_RecoverySigns s) = s"
| "account_error_seqno (Acc_RecoveryNotSigner s) = s"
| "account_error_seqno (Acc_RecoveryUsed s) = s"
| "account_error_seqno (Acc_SecondRecovery s) = s"
| "account_error_seqno (Acc_TooManyCards s) = s"
| "account_error_seqno (Acc_RemoveTarget s) = s"
| "account_error_seqno (Acc_Keep s) = s"

fun account_server_code :: "account_error \<Rightarrow> string" where
  "account_server_code (Acc_Seqno _) = ''account_conflict''"
| "account_server_code (Acc_Previous _) = ''account_conflict''"
| "account_server_code (Acc_Signature _) = ''signature_invalid''"
| "account_server_code _ = ''forbidden''"

definition account_client_code :: "account_error \<Rightarrow> string" where
  "account_client_code e = ''sync_account_unauthorized''"

record account_chain =
  ac_account :: ident
  ac_digests :: "digest list"
  ac_cards :: "(ident, card_state) btree"

definition head_seqno :: "account_chain \<Rightarrow> u64" where
  "head_seqno c = of_nat (length (ac_digests c))"

definition head_digest :: "account_chain \<Rightarrow> digest" where
  "head_digest c = last (ac_digests c)"

definition chain_genesis :: "account_chain \<Rightarrow> digest" where
  "chain_genesis c = ac_digests c ! 0"

definition active_states :: "account_chain \<Rightarrow> u64 \<Rightarrow> card_state list" where
  "active_states c seqno = filter (\<lambda>s. cs_active_at s seqno) (bt_values (ac_cards c))"

definition is_active_at :: "account_chain \<Rightarrow> ident \<Rightarrow> u64 \<Rightarrow> bool" where
  "is_active_at c device seqno \<longleftrightarrow>
     (case bt_get (ac_cards c) device of None \<Rightarrow> False | Some s \<Rightarrow> cs_active_at s seqno)"

definition listed_devices :: "account_chain \<Rightarrow> ident set" where
  "listed_devices c = set (bt_keys (ac_cards c))"

text \<open>\<open>checked_sub\<close> and \<open>get\<close>: no head at 0 or above the chain.\<close>

definition head_at :: "account_chain \<Rightarrow> u64 \<Rightarrow> account_head option" where
  "head_at c seqno =
     (if seqno = 0 then None
      else let index = unat (seqno - 1) in
        if index < length (ac_digests c)
        then Some \<lparr>ah_account = ac_account c, ah_genesis = chain_genesis c, ah_seqno = seqno,
                   ah_head = ac_digests c ! index\<rparr>
        else None)"

definition chain_head :: "account_chain \<Rightarrow> account_head" where
  "chain_head c = the (head_at c (head_seqno c))"

definition chain_contains :: "account_chain \<Rightarrow> account_head \<Rightarrow> bool" where
  "chain_contains c h \<longleftrightarrow> ah_account h = ac_account c \<and> head_at c (ah_seqno h) = Some h"

definition truncated :: "account_chain \<Rightarrow> u64 \<Rightarrow> account_chain option" where
  "truncated c seqno =
     (if seqno = 0 \<or> seqno > head_seqno c then None
      else Some \<lparr>ac_account = ac_account c,
        ac_digests = take (unat seqno) (ac_digests c),
        ac_cards = bt_map (\<lambda>_ s. s\<lparr>
            cs_removed_at := (case cs_removed_at s of None \<Rightarrow> None
              | Some r \<Rightarrow> if r \<le> seqno then Some r else None),
            cs_recovered_at := (case cs_recovered_at s of None \<Rightarrow> None
              | Some r \<Rightarrow> if r \<le> seqno then Some r else None)\<rparr>)
          (bt_filter (\<lambda>_ s. cs_added_at s \<le> seqno) (ac_cards c))\<rparr>)"

subsection \<open>Removal\<close>

text \<open>One round of the cascade: the active cards it takes down next.\<close>

definition cascade_more ::
  "account_chain \<Rightarrow> u64 \<Rightarrow> ident \<Rightarrow> ident set \<Rightarrow> ident set \<Rightarrow> ident list" where
  "cascade_more c head signer kept removed =
     map (\<lambda>s. card_device (cs_card s))
       (filter (\<lambda>s. let ident = card_device (cs_card s) in
          ident \<notin> removed \<and> ident \<noteq> signer \<and> ident \<notin> kept
          \<and> (case cs_parent s of None \<Rightarrow> False | Some p \<Rightarrow> p \<in> removed))
        (active_states c head))"

text \<open>Termination: every round but the last takes a card that was not taken before.\<close>

definition cards_left :: "account_chain \<Rightarrow> u64 \<Rightarrow> ident set \<Rightarrow> nat" where
  "cards_left c head removed =
     card ((\<lambda>s. card_device (cs_card s)) ` set (active_states c head) - removed)"

lemma Diff_psubset: "M \<subseteq> A - R \<Longrightarrow> M \<noteq> {} \<Longrightarrow> A - (R \<union> M) \<subset> A - R"
  by auto

lemma cards_left_decreases:
  assumes "cascade_more c head signer kept removed \<noteq> []"
  shows "cards_left c head (removed \<union> set (cascade_more c head signer kept removed))
    < cards_left c head removed"
proof -
  let ?more = "set (cascade_more c head signer kept removed)"
    and ?all = "(\<lambda>s. card_device (cs_card s)) ` set (active_states c head)"
  have "?more \<subseteq> ?all - removed"
    by (auto simp: cascade_more_def Let_def)
  moreover have "?more \<noteq> {}" using assms by simp
  ultimately have "?all - (removed \<union> ?more) \<subset> ?all - removed"
    by (rule Diff_psubset)
  then show ?thesis
    unfolding cards_left_def by (intro psubset_card_mono) simp
qed

function cascade ::
  "account_chain \<Rightarrow> u64 \<Rightarrow> ident \<Rightarrow> ident set \<Rightarrow> ident set \<Rightarrow> ident set" where
  "cascade c head signer kept removed =
     (let more = cascade_more c head signer kept removed in
      if more = [] then removed else cascade c head signer kept (removed \<union> set more))"
  by pat_completeness auto
termination
  by (relation "measure (\<lambda>(c, head, _, _, removed). cards_left c head removed)")
    (auto intro: cards_left_decreases)

declare cascade.simps [simp del]

definition removal_set ::
  "account_chain \<Rightarrow> u64 \<Rightarrow> ident \<Rightarrow> ident \<Rightarrow> ident list \<Rightarrow> u64 \<Rightarrow> account_error + ident set" where
  "removal_set c head signer target keep seqno =
     (if \<not> is_active_at c target head then Inl (Acc_RemoveTarget seqno)
      else if target = signer
      then (if keep \<noteq> [] then Inl (Acc_Keep seqno) else Inr {signer})
      else let without_keep = cascade c head signer {} {target} in
        if list_all (\<lambda>i. i \<noteq> target \<and> i \<in> without_keep
            \<and> (case bt_get (ac_cards c) i of None \<Rightarrow> False | Some s \<Rightarrow> \<not> cs_recovery s)) keep
        then Inr (cascade c head signer (set keep) {target})
        else Inl (Acc_Keep seqno))"

definition removal :: "account_chain \<Rightarrow> ident \<Rightarrow> ident \<Rightarrow> ident list \<Rightarrow> account_error + ident set" where
  "removal c signer target keep =
     (let head = head_seqno c in removal_set c head signer target keep (head + 1))"

subsection \<open>Taking links\<close>

definition new_card_state :: "card \<Rightarrow> ident option \<Rightarrow> u64 \<Rightarrow> bool \<Rightarrow> card_state" where
  "new_card_state c parent seqno recovery =
     \<lparr>cs_card = c, cs_parent = parent, cs_added_at = seqno, cs_removed_at = None,
      cs_recovery = recovery, cs_recovered_at = None\<rparr>"

definition from_genesis ::
  "crypto \<Rightarrow> account_link signed \<Rightarrow> ident set \<Rightarrow> account_error + account_chain" where
  "from_genesis cr link listed_elsewhere =
     (let b = body link; seqno = link_seqno b in
      if seqno \<noteq> 1 then Inl (Acc_Seqno seqno)
      else if \<not> digest_is_zero (link_previous b) then Inl (Acc_Previous seqno)
      else case link_kind b of
        Link_Genesis c \<Rightarrow>
          if card_account c \<noteq> link_account b then Inl (Acc_CardAccount seqno)
          else if link_signer b \<noteq> card_device c then Inl (Acc_GenesisSigner seqno)
          else and_then (map_err (\<lambda>_. Acc_Signature seqno)
              (signed_verify cr enc_account_link link (signing_public c))) (\<lambda>_.
            if card_device c \<in> listed_elsewhere then Inl (Acc_DeviceListed seqno)
            else Inr \<lparr>ac_account = link_account b, ac_digests = [signed_link_digest cr link],
              ac_cards = bt_insert (card_device c) (new_card_state c None 1 False) bt_empty\<rparr>)
      | _ \<Rightarrow> Inl (Acc_GenesisPosition seqno))"

text \<open>The \<open>match\<close> on the kind and on whether a recovery identity signs.\<close>

fun recovery_rule :: "link_kind \<Rightarrow> bool \<Rightarrow> bool \<Rightarrow> u64 \<Rightarrow> account_error + unit" where
  "recovery_rule (Link_RecoverDevice _) False _ seqno = Inl (Acc_RecoveryNotSigner seqno)"
| "recovery_rule (Link_RecoverDevice _) True used seqno =
     (if used then Inl (Acc_RecoveryUsed seqno) else Inr ())"
| "recovery_rule _ True _ seqno = Inl (Acc_RecoverySigns seqno)"
| "recovery_rule _ False _ seqno = Inr ()"

definition add_card ::
  "account_chain \<Rightarrow> account_link \<Rightarrow> card \<Rightarrow> ident set \<Rightarrow> account_error + account_chain" where
  "add_card chain b c listed_elsewhere =
     (let seqno = link_seqno b; head = head_seqno chain;
          recovery = (case link_kind b of Link_AddRecovery _ \<Rightarrow> True | _ \<Rightarrow> False);
          recovers = (case link_kind b of Link_RecoverDevice _ \<Rightarrow> True | _ \<Rightarrow> False)
      in
      if card_account c \<noteq> ac_account chain then Inl (Acc_CardAccount seqno)
      else if bt_contains (ac_cards chain) (card_device c) \<or> card_device c \<in> listed_elsewhere
      then Inl (Acc_DeviceListed seqno)
      else if length (active_states chain head) + 1 > MAX_ACTIVE_CARDS
      then Inl (Acc_TooManyCards seqno)
      else if recovery \<and> list_ex cs_recovery (active_states chain head)
      then Inl (Acc_SecondRecovery seqno)
      else let cards = (if recovers
             then bt_adjust (link_signer b) (\<lambda>s. s\<lparr>cs_recovered_at := Some seqno\<rparr>) (ac_cards chain)
             else ac_cards chain)
        in Inr (chain\<lparr>ac_cards := bt_insert (card_device c)
             (new_card_state c (Some (link_signer b)) seqno recovery) cards\<rparr>))"

definition mark_removed :: "ident set \<Rightarrow> u64 \<Rightarrow> account_chain \<Rightarrow> account_chain" where
  "mark_removed removed seqno chain = chain\<lparr>ac_cards :=
     bt_map (\<lambda>i s. if i \<in> removed then s\<lparr>cs_removed_at := Some seqno\<rparr> else s) (ac_cards chain)\<rparr>"

definition apply_kind ::
  "account_chain \<Rightarrow> account_link \<Rightarrow> ident set \<Rightarrow> account_error + account_chain" where
  "apply_kind chain b listed_elsewhere =
     (case link_kind b of
        Link_Remove device keep \<Rightarrow>
          and_then (removal_set chain (head_seqno chain) (link_signer b) device keep (link_seqno b))
            (\<lambda>removed. Inr (mark_removed removed (link_seqno b) chain))
      | kind \<Rightarrow> (case added_card kind of
            None \<Rightarrow> Inr chain | Some c \<Rightarrow> add_card chain b c listed_elsewhere))"

definition append_link ::
  "crypto \<Rightarrow> account_chain \<Rightarrow> account_link signed \<Rightarrow> ident set \<Rightarrow> account_error + account_chain" where
  "append_link cr chain link listed_elsewhere =
     (let b = body link; seqno = link_seqno b; head = head_seqno chain in
      if seqno \<noteq> head + 1 then Inl (Acc_Seqno seqno)
      else if link_previous b \<noteq> head_digest chain then Inl (Acc_Previous seqno)
      else if link_account b \<noteq> ac_account chain then Inl (Acc_Account seqno)
      else if (case link_kind b of Link_Genesis _ \<Rightarrow> True | _ \<Rightarrow> False)
      then Inl (Acc_GenesisPosition seqno)
      else case bt_get (ac_cards chain) (link_signer b) of
        None \<Rightarrow> Inl (Acc_SignerNotActive seqno)
      | Some signer \<Rightarrow>
          if \<not> cs_active_at signer head then Inl (Acc_SignerNotActive seqno)
          else and_then (map_err (\<lambda>_. Acc_Signature seqno)
              (signed_verify cr enc_account_link link (signing_public (cs_card signer)))) (\<lambda>_.
            and_then (recovery_rule (link_kind b) (cs_recovery signer)
              (cs_recovered_at signer \<noteq> None) seqno) (\<lambda>_.
            and_then (apply_kind chain b listed_elsewhere) (\<lambda>chain'.
            Inr (chain'\<lparr>ac_digests := ac_digests chain' @ [signed_link_digest cr link]\<rparr>)))))"

fun verify_chain ::
  "crypto \<Rightarrow> account_link signed list \<Rightarrow> ident set \<Rightarrow> account_error + account_chain" where
  "verify_chain cr [] listed_elsewhere = Inl (Acc_Seqno 0)"
| "verify_chain cr (genesis # rest) listed_elsewhere =
     and_then (from_genesis cr genesis listed_elsewhere) (\<lambda>chain.
       try_fold (\<lambda>chain link. append_link cr chain link listed_elsewhere) chain rest)"

subsection \<open>Kept heads\<close>

record kept_head =
  kept_genesis :: digest
  kept_seqno :: u64
  kept_digest :: digest

definition kept_from :: "account_head \<Rightarrow> kept_head" where
  "kept_from h = \<lparr>kept_genesis = ah_genesis h, kept_seqno = ah_seqno h, kept_digest = ah_head h\<rparr>"

datatype account_forked = AccountForked

datatype chain_refusal = Forked | Unauthorized account_error

datatype stops = SharedWithAccount | EveryWorkspace

definition kept_check :: "kept_head \<Rightarrow> account_chain \<Rightarrow> account_forked + unit" where
  "kept_check k chain =
     (if chain_genesis chain \<noteq> kept_genesis k then Inr ()
      else case head_at chain (kept_seqno k) of
        Some h \<Rightarrow> if ah_head h = kept_digest k then Inr () else Inl AccountForked
      | None \<Rightarrow> Inl AccountForked)"

definition kept_check_recorded ::
  "kept_head \<Rightarrow> account_chain \<Rightarrow> account_head \<Rightarrow> account_forked + unit" where
  "kept_check_recorded k chain recorded =
     and_then (kept_check k chain) (\<lambda>_.
       if ah_genesis recorded = kept_genesis k \<and> \<not> chain_contains chain recorded
       then Inl AccountForked else Inr ())"

definition kept_extend ::
  "crypto \<Rightarrow> kept_head \<Rightarrow> account_chain \<Rightarrow> account_link signed list \<Rightarrow> ident set
   \<Rightarrow> chain_refusal + account_chain" where
  "kept_extend cr k held later listed_elsewhere =
     (if chain_genesis held \<noteq> kept_genesis k \<or> head_seqno held \<noteq> kept_seqno k
        \<or> head_digest held \<noteq> kept_digest k
      then Inl Forked
      else try_fold (\<lambda>chain link.
             if link_previous (body link) \<noteq> head_digest chain then Inl Forked
             else map_err Unauthorized (append_link cr chain link listed_elsewhere)) held later)"

definition kept_judge ::
  "crypto \<Rightarrow> kept_head \<Rightarrow> account_link signed list \<Rightarrow> ident set \<Rightarrow> chain_refusal + account_chain" where
  "kept_judge cr k served listed_elsewhere =
     (let kept = unat (kept_seqno k) in
      if kept = 0 \<or> length served < kept then Inl Forked
      else let held = take kept served; later = drop kept served in
        and_then (map_err (\<lambda>_. Forked) (verify_chain cr held listed_elsewhere)) (\<lambda>chain.
          if chain_genesis chain \<noteq> kept_genesis k \<or> head_digest chain \<noteq> kept_digest k
          then Inl Forked else kept_extend cr k chain later listed_elsewhere))"

definition refusal_client_code :: "chain_refusal \<Rightarrow> string" where
  "refusal_client_code r =
     (case r of Forked \<Rightarrow> ''sync_account_forked'' | Unauthorized e \<Rightarrow> account_client_code e)"

definition refusal_stops :: "chain_refusal \<Rightarrow> bool \<Rightarrow> stops" where
  "refusal_stops r own_account = (if own_account then EveryWorkspace else SharedWithAccount)"

end
