(* ===== verification/Account_Laws.thy ===== *)
theory Account_Laws
  imports Account
begin

text \<open>
  What account chain verification guarantees: how a link changes the active cards, the
  invariant of a verified chain, the cascade of a removal as a least set, the chain at an
  earlier head, and the judgement of a served chain.
\<close>

subsection \<open>Activity\<close>

definition active_ids :: "account_chain \<Rightarrow> u64 \<Rightarrow> ident set" where
  "active_ids c n = {k. is_active_at c k n}"

definition recovery_ids :: "account_chain \<Rightarrow> u64 \<Rightarrow> ident set" where
  "recovery_ids c n =
     {k. is_active_at c k n \<and> (\<exists>s. bt_get (ac_cards c) k = Some s \<and> cs_recovery s)}"

lemma is_active_at_iff:
  "is_active_at c k n \<longleftrightarrow> (\<exists>s. bt_get (ac_cards c) k = Some s \<and> cs_active_at s n)"
  by (auto simp: is_active_at_def split: option.split)

lemma length_filter_values:
  "length (filter P (bt_values m)) = card {k. \<exists>s. bt_get m k = Some s \<and> P s}"
proof -
  let ?es = "filter (P \<circ> snd) (bt_entries m)"
  have "distinct (map fst ?es)"
    by (simp add: distinct_map_filter)
  then have "card (set (map fst ?es)) = length ?es"
    by (metis distinct_card length_map)
  moreover have "set (map fst ?es) = {k. \<exists>s. bt_get m k = Some s \<and> P s}"
    by (force simp flip: bt_in_entries)
  ultimately show ?thesis
    by (simp add: bt_values_def filter_map)
qed

lemma length_active_states: "length (active_states c n) = card (active_ids c n)"
  by (simp add: active_states_def length_filter_values active_ids_def is_active_at_iff)

lemma length_active_recovery:
  "length (filter cs_recovery (active_states c n)) = card (recovery_ids c n)"
proof -
  have "recovery_ids c n = {k. \<exists>s. bt_get (ac_cards c) k = Some s \<and> (cs_active_at s n \<and> cs_recovery s)}"
    by (auto simp: recovery_ids_def is_active_at_iff)
  then show ?thesis
    by (simp add: active_states_def length_filter_values conj_commute)
qed

lemma set_active_states:
  "s \<in> set (active_states c n) \<longleftrightarrow> (\<exists>k. bt_get (ac_cards c) k = Some s) \<and> cs_active_at s n"
  by (auto simp: active_states_def ran_def)

lemma finite_active_ids [simp]: "finite (active_ids c n)"
  by (rule finite_subset [OF _ bt_finite_dom [of "ac_cards c"]])
    (auto simp: active_ids_def is_active_at_iff)

lemma recovery_ids_active: "recovery_ids c n \<subseteq> active_ids c n"
  by (auto simp: recovery_ids_def active_ids_def)

subsection \<open>The steps\<close>

lemma apply_kind_frame:
  assumes "apply_kind c b le = Inr c'"
  shows "ac_digests c' = ac_digests c" and "ac_account c' = ac_account c"
  using assms by (auto simp: apply_kind_def add_card_def mark_removed_def Let_def
      split: link_kind.splits if_splits)

lemma append_linkE:
  assumes "append_link cr c l le = Inr c'"
  obtains signer c1 where
    "link_seqno (body l) = head_seqno c + 1" "link_previous (body l) = head_digest c"
    "link_account (body l) = ac_account c" "\<And>g. link_kind (body l) \<noteq> Link_Genesis g"
    "bt_get (ac_cards c) (link_signer (body l)) = Some signer" "cs_active_at signer (head_seqno c)"
    "signed_verify cr enc_account_link l (signing_public (cs_card signer)) = Inr ()"
    "recovery_rule (link_kind (body l)) (cs_recovery signer) (cs_recovered_at signer \<noteq> None)
       (link_seqno (body l)) = Inr ()"
    "apply_kind c (body l) le = Inr c1"
    "c' = c1\<lparr>ac_digests := ac_digests c @ [signed_link_digest cr l]\<rparr>"
  using assms apply_kind_frame(1)
  by (fastforce simp: append_link_def Let_def split: if_splits option.splits link_kind.splits)

text \<open>What \<open>apply_kind\<close> does to the cards, by kind.\<close>

lemma apply_kind_add:
  assumes "apply_kind c b le = Inr c'" and "added_card (link_kind b) = Some d"
  shows "card_account d = ac_account c" and "bt_get (ac_cards c) (card_device d) = None"
    and "card_device d \<notin> le"
    and "card (active_ids c (head_seqno c)) < MAX_ACTIVE_CARDS"
    and "link_kind b = Link_AddRecovery d \<Longrightarrow> recovery_ids c (head_seqno c) = {}"
    and "bt_get (ac_cards c') k =
      (if k = card_device d
       then Some (new_card_state d (Some (link_signer b)) (link_seqno b) (link_kind b = Link_AddRecovery d))
       else if link_kind b = Link_RecoverDevice d \<and> k = link_signer b
       then map_option (\<lambda>s. s\<lparr>cs_recovered_at := Some (link_seqno b)\<rparr>) (bt_get (ac_cards c) k)
       else bt_get (ac_cards c) k)"
proof -
  have add: "add_card c b d le = Inr c'"
    using assms by (auto simp: apply_kind_def split: link_kind.splits)
  have none: "filter cs_recovery (active_states c (head_seqno c)) = [] \<Longrightarrow>
      recovery_ids c (head_seqno c) = {}"
    using length_active_recovery [of c "head_seqno c"]
      finite_subset [OF recovery_ids_active finite_active_ids] by (metis card_0_eq list.size(3))
  show "card_account d = ac_account c" "bt_get (ac_cards c) (card_device d) = None" "card_device d \<notin> le"
    "card (active_ids c (head_seqno c)) < MAX_ACTIVE_CARDS"
    using add by (auto simp: add_card_def Let_def length_active_states split: if_splits)
  show "recovery_ids c (head_seqno c) = {}" if "link_kind b = Link_AddRecovery d"
    using add that by (intro none) (auto simp: add_card_def Let_def list_ex_iff filter_empty_conv split: if_splits)
  show "bt_get (ac_cards c') k =
      (if k = card_device d
       then Some (new_card_state d (Some (link_signer b)) (link_seqno b) (link_kind b = Link_AddRecovery d))
       else if link_kind b = Link_RecoverDevice d \<and> k = link_signer b
       then map_option (\<lambda>s. s\<lparr>cs_recovered_at := Some (link_seqno b)\<rparr>) (bt_get (ac_cards c) k)
       else bt_get (ac_cards c) k)"
    using add assms(2) by (cases "link_kind b") (auto simp: add_card_def Let_def split: if_splits)
qed

lemma apply_kind_remove:
  assumes "apply_kind c b le = Inr c'" and "link_kind b = Link_Remove t keep"
  obtains removed where
    "removal_set c (head_seqno c) (link_signer b) t keep (link_seqno b) = Inr removed"
    "\<And>k. bt_get (ac_cards c') k =
       map_option (\<lambda>s. if k \<in> removed then s\<lparr>cs_removed_at := Some (link_seqno b)\<rparr> else s)
         (bt_get (ac_cards c) k)"
  using assms by (auto simp: apply_kind_def mark_removed_def)

subsection \<open>The cascade as a least set\<close>

text \<open>A card falls when it is the target, or when it is active, its parent falls, and neither
  the signer nor the kept devices include it.\<close>

inductive falls :: "account_chain \<Rightarrow> u64 \<Rightarrow> ident \<Rightarrow> ident set \<Rightarrow> ident \<Rightarrow> ident \<Rightarrow> bool"
  for c head signer kept target where
  target: "falls c head signer kept target target"
| child: "falls c head signer kept target p \<Longrightarrow> s \<in> set (active_states c head) \<Longrightarrow>
    cs_parent s = Some p \<Longrightarrow> card_device (cs_card s) \<noteq> signer \<Longrightarrow>
    card_device (cs_card s) \<notin> kept \<Longrightarrow>
    falls c head signer kept target (card_device (cs_card s))"

inductive_cases falls_cases: "falls c head signer kept target x"

lemma cascade_more_falls:
  assumes "\<And>x. x \<in> removed \<Longrightarrow> falls c head signer kept target x"
    and "x \<in> set (cascade_more c head signer kept removed)"
  shows "falls c head signer kept target x"
  using assms by (auto simp: cascade_more_def Let_def split: option.splits intro: falls.child)

lemma cascade_sound:
  "\<forall>x \<in> removed. falls c head signer kept target x \<Longrightarrow> x \<in> cascade c head signer kept removed \<Longrightarrow>
   falls c head signer kept target x"
proof (induction c head signer kept removed rule: cascade.induct)
  case (1 c head signer kept removed)
  show ?case
  proof (cases "cascade_more c head signer kept removed = []")
    case True
    then show ?thesis using 1(2,3) by (simp add: cascade.simps [of c head])
  next
    case False
    have "\<forall>x \<in> removed \<union> set (cascade_more c head signer kept removed). falls c head signer kept target x"
      using 1(2) cascade_more_falls [of removed] by blast
    then show ?thesis
      using 1(1) [OF refl False] 1(3) False by (simp add: cascade.simps [of c head signer kept removed])
  qed
qed

lemma cascade_superset: "removed \<subseteq> cascade c head signer kept removed"
proof (induction c head signer kept removed rule: cascade.induct)
  case (1 c head signer kept removed)
  then show ?case by (subst cascade.simps) (auto simp: Let_def)
qed

lemma cascade_closed: "cascade_more c head signer kept (cascade c head signer kept removed) = []"
proof (induction c head signer kept removed rule: cascade.induct)
  case (1 c head signer kept removed)
  then show ?case by (subst cascade.simps) (auto simp: Let_def)
qed

lemma cascade_falls: "cascade c head signer kept {target} = {x. falls c head signer kept target x}"
proof (intro set_eqI iffI; unfold mem_Collect_eq)
  fix x
  show "falls c head signer kept target x" if "x \<in> cascade c head signer kept {target}"
    using that by (intro cascade_sound [of "{target}"]) (auto intro: falls.target)
  assume "falls c head signer kept target x"
  then show "x \<in> cascade c head signer kept {target}"
  proof induction
    case target
    then show ?case using cascade_superset by blast
  next
    case (child p s)
    have "s \<in> set (active_states c head) \<Longrightarrow> card_device (cs_card s) \<in> cascade c head signer kept {target}
        \<or> card_device (cs_card s) = signer \<or> card_device (cs_card s) \<in> kept
        \<or> p \<notin> cascade c head signer kept {target}"
      using cascade_closed [of c head signer kept "{target}"] child.hyps(3)
      by (fastforce simp: cascade_more_def Let_def filter_empty_conv)
    then show ?case
      using child by blast
  qed
qed

lemma falls_active:
  "falls c head signer kept target x \<Longrightarrow>
   x = target \<or> x \<notin> kept \<and> x \<noteq> signer \<and> (\<exists>s \<in> set (active_states c head). card_device (cs_card s) = x)"
  by (induction rule: falls.induct) auto

text \<open>
  C37. A removal that succeeds takes down exactly the cards that fall: the target and, in turn,
  every active card whose parent falls, except the signer and the kept devices. It never takes
  the signer unless the link names the signer itself, and then it takes that card alone; it
  never takes a kept device; and everything it takes was active. It fails exactly when the
  target is not active, or a kept entry is the target, would not fall, or is a recovery
  identity.
\<close>

theorem removal_set_exact:
  "removal_set c head signer target keep seqno =
     (if \<not> is_active_at c target head then Inl (Acc_RemoveTarget seqno)
      else if target = signer
      then (if keep = [] then Inr {signer} else Inl (Acc_Keep seqno))
      else if \<forall>i \<in> set keep. i \<noteq> target \<and> falls c head signer {} target i
          \<and> (\<exists>s. bt_get (ac_cards c) i = Some s \<and> \<not> cs_recovery s)
      then Inr {x. falls c head signer (set keep) target x}
      else Inl (Acc_Keep seqno))"
  by (auto simp: removal_set_def Let_def cascade_falls list_all_iff split: option.splits)

subsection \<open>The invariant of a verified chain\<close>

lemma verify_chain_snoc:
  "links \<noteq> [] \<Longrightarrow> verify_chain cr (links @ [l]) le =
     and_then (verify_chain cr links le) (\<lambda>c. append_link cr c l le)"
  by (cases links) (simp_all add: and_then_assoc try_fold_append)

lemma verify_chain_induct [consumes 1, case_names genesis append]:
  assumes "verify_chain cr links le = Inr c"
    and "\<And>l c. from_genesis cr l le = Inr c \<Longrightarrow> P [l] c"
    and "\<And>ls l c c'. verify_chain cr ls le = Inr c \<Longrightarrow> ls \<noteq> [] \<Longrightarrow> P ls c \<Longrightarrow>
      append_link cr c l le = Inr c' \<Longrightarrow> P (ls @ [l]) c'"
  shows "P links c"
  using assms(1)
proof (induction links arbitrary: c rule: rev_induct)
  case Nil
  then show ?case by simp
next
  case (snoc l ls)
  show ?case
  proof (cases "ls = []")
    case True
    then show ?thesis using snoc.prems assms(2) by simp
  next
    case False
    then show ?thesis using snoc assms(3) by (auto simp: verify_chain_snoc)
  qed
qed

lemma from_genesisE:
  assumes "from_genesis cr l le = Inr c"
  obtains d where
    "link_seqno (body l) = 1" "link_kind (body l) = Link_Genesis d"
    "card_account d = link_account (body l)" "link_signer (body l) = card_device d"
    "card_device d \<notin> le"
    "signed_verify cr enc_account_link l (signing_public d) = Inr ()"
    "c = \<lparr>ac_account = link_account (body l), ac_digests = [signed_link_digest cr l],
          ac_cards = bt_insert (card_device d) (new_card_state d None 1 False) bt_empty\<rparr>"
  using assms by (auto simp: from_genesis_def Let_def split: if_splits link_kind.splits)

lemma from_genesis_previous: "from_genesis cr l le = Inr c \<Longrightarrow> link_previous (body l) = ZERO_digest"
  by (auto simp: from_genesis_def Let_def split: if_splits)

text \<open>What an appended link may do to a card that is in the chain already.\<close>

definition evolves :: "u64 \<Rightarrow> card_state \<Rightarrow> card_state \<Rightarrow> bool" where
  "evolves seqno s s' \<longleftrightarrow> cs_card s' = cs_card s \<and> cs_parent s' = cs_parent s
     \<and> cs_added_at s' = cs_added_at s \<and> cs_recovery s' = cs_recovery s
     \<and> (cs_removed_at s' = cs_removed_at s \<or> cs_removed_at s = None \<and> cs_removed_at s' = Some seqno)
     \<and> (cs_recovered_at s' = cs_recovered_at s
        \<or> cs_recovered_at s = None \<and> cs_recovery s \<and> cs_recovered_at s' = Some seqno)"

definition card_ok :: "account_chain \<Rightarrow> ident \<Rightarrow> card_state \<Rightarrow> bool" where
  "card_ok c k s \<longleftrightarrow> card_device (cs_card s) = k \<and> card_account (cs_card s) = ac_account c
     \<and> 1 \<le> cs_added_at s \<and> cs_added_at s \<le> head_seqno c
     \<and> (\<forall>r. cs_removed_at s = Some r \<longrightarrow> cs_added_at s < r \<and> r \<le> head_seqno c)
     \<and> (\<forall>r. cs_recovered_at s = Some r \<longrightarrow> cs_recovery s \<and> cs_added_at s < r \<and> r \<le> head_seqno c)"

definition parent_ok :: "account_chain \<Rightarrow> card_state \<Rightarrow> bool" where
  "parent_ok c s \<longleftrightarrow> (case cs_parent s of
     None \<Rightarrow> cs_added_at s = 1 \<and> \<not> cs_recovery s
   | Some p \<Rightarrow> 1 < cs_added_at s \<and> (\<exists>ps. bt_get (ac_cards c) p = Some ps
       \<and> cs_active_at ps (cs_added_at s - 1)
       \<and> (cs_recovery ps \<longrightarrow> cs_recovered_at ps = Some (cs_added_at s))))"

definition cards_ok :: "account_chain \<Rightarrow> bool" where
  "cards_ok c \<longleftrightarrow> (\<forall>k s. bt_get (ac_cards c) k = Some s \<longrightarrow> card_ok c k s)"

definition chain_bounded :: "account_chain \<Rightarrow> bool" where
  "chain_bounded c \<longleftrightarrow> ac_digests c \<noteq> [] \<and> length (ac_digests c) < 2 ^ 64"

lemma unat_head_seqno: "chain_bounded c \<Longrightarrow> unat (head_seqno c) = length (ac_digests c)"
  by (simp add: chain_bounded_def head_seqno_def unat_of_nat)

lemma seqno_step:
  assumes "length (ac_digests c) + 1 < 2 ^ 64"
  shows "n < head_seqno c + 1 \<longleftrightarrow> n \<le> head_seqno c"
proof -
  have "unat (head_seqno c + 1) = unat (head_seqno c) + 1"
    using assms by (simp add: head_seqno_def unat_word_ariths unat_of_nat)
  then show ?thesis by (simp add: word_less_nat_alt word_le_nat_alt less_Suc_eq_le)
qed

lemma append_head:
  assumes "append_link cr c l le = Inr c'"
  shows "head_seqno c' = head_seqno c + 1" and "ac_digests c' = ac_digests c @ [signed_link_digest cr l]"
    and "ac_account c' = ac_account c" and "link_seqno (body l) = head_seqno c + 1"
  using assms by (auto elim!: append_linkE simp: head_seqno_def apply_kind_frame)

lemma removal_set_member:
  assumes "removal_set c head signer t keep seqno = Inr removed" and "x \<in> removed"
    and "bt_get (ac_cards c) signer \<noteq> None \<Longrightarrow> is_active_at c signer head" and "cards_ok c"
  shows "is_active_at c x head"
proof -
  have t: "is_active_at c t head" using assms(1) by (auto simp: removal_set_exact split: if_splits)
  show ?thesis
  proof (cases "t = signer")
    case True
    then show ?thesis using assms(1,2) t by (auto simp: removal_set_exact split: if_splits)
  next
    case False
    then have "falls c head signer (set keep) t x"
      using assms(1,2) by (auto simp: removal_set_exact split: if_splits)
    then show ?thesis
      using t assms(4) by (auto dest!: falls_active simp: set_active_states is_active_at_iff cards_ok_def card_ok_def)
  qed
qed

lemma append_evolves:
  assumes "append_link cr c l le = Inr c'" and "cards_ok c" and "bt_get (ac_cards c) k = Some s"
  obtains s' where "bt_get (ac_cards c') k = Some s'" and "evolves (head_seqno c + 1) s s'"
proof -
  from assms(1) obtain signer c1 where
    seqno: "link_seqno (body l) = head_seqno c + 1" and
    signer: "bt_get (ac_cards c) (link_signer (body l)) = Some signer" "cs_active_at signer (head_seqno c)" and
    rule: "recovery_rule (link_kind (body l)) (cs_recovery signer) (cs_recovered_at signer \<noteq> None)
       (link_seqno (body l)) = Inr ()" and
    kind: "apply_kind c (body l) le = Inr c1" and c': "ac_cards c' = ac_cards c1"
    by (auto elim!: append_linkE)
  show ?thesis
  proof (cases "added_card (link_kind (body l))")
    case (Some d)
    note add = apply_kind_add [OF kind Some]
    have "k \<noteq> card_device d" using add(2) assms(3) by auto
    then show ?thesis
      using add(6) [of k] assms(3) seqno c' signer rule
      by (cases "link_kind (body l) = Link_RecoverDevice d \<and> k = link_signer (body l)")
        (auto intro!: that simp: evolves_def elim!: recovery_rule.elims split: if_splits)
  next
    case None
    then obtain t keep where rm: "link_kind (body l) = Link_Remove t keep"
      by (cases "link_kind (body l)") auto
    from apply_kind_remove [OF kind rm] obtain removed where
      set: "removal_set c (head_seqno c) (link_signer (body l)) t keep (link_seqno (body l)) = Inr removed"
      and cards: "bt_get (ac_cards c1) k =
       map_option (\<lambda>s. if k \<in> removed then s\<lparr>cs_removed_at := Some (link_seqno (body l))\<rparr> else s)
         (bt_get (ac_cards c) k)" by blast
    have "cs_removed_at s = None" if "k \<in> removed"
    proof -
      have "is_active_at c k (head_seqno c)"
        using removal_set_member [OF set that] signer assms(2) by (auto simp: is_active_at_iff)
      then show ?thesis
        using assms(2,3) by (fastforce simp: is_active_at_iff cards_ok_def card_ok_def cs_active_at_def
            split: option.splits)
    qed
    then show ?thesis
      using that cards assms(3) c' seqno by (cases "k \<in> removed") (auto simp: evolves_def)
  qed
qed

lemma append_new_card:
  assumes "append_link cr c l le = Inr c'" and "bt_get (ac_cards c) k = None"
    and "bt_get (ac_cards c') k = Some s'"
  obtains d where "added_card (link_kind (body l)) = Some d" and "card_device d = k"
    and "s' = new_card_state d (Some (link_signer (body l))) (head_seqno c + 1)
           (link_kind (body l) = Link_AddRecovery d)"
    and "card_account d = ac_account c"
proof -
  from assms(1) obtain c1 where seqno: "link_seqno (body l) = head_seqno c + 1"
    and kind: "apply_kind c (body l) le = Inr c1" and c': "ac_cards c' = ac_cards c1"
    by (auto elim!: append_linkE)
  show ?thesis
  proof (cases "added_card (link_kind (body l))")
    case (Some d)
    note add = apply_kind_add [OF kind Some]
    show ?thesis
      using add(1) add(6) [of k] assms(2,3) c' seqno Some that by (auto split: if_splits)
  next
    case None
    then obtain t keep where rm: "link_kind (body l) = Link_Remove t keep"
      by (cases "link_kind (body l)") auto
    show ?thesis
      by (rule apply_kind_remove [OF kind rm]) (use assms(2,3) c' in simp)
  qed
qed

lemma one_le_word: "w \<noteq> 0 \<Longrightarrow> 1 \<le> (w :: u64)"
  by (simp add: word_le_nat_alt Suc_le_eq unat_gt_0)

text \<open>An appended link leaves every earlier head as it was.\<close>

lemma evolves_active:
  "evolves (h + 1) s s' \<Longrightarrow> n \<le> h \<Longrightarrow> h < h + 1 \<Longrightarrow> cs_active_at s' n = cs_active_at s n"
  by (auto simp: evolves_def cs_active_at_def split: option.splits)

lemma append_earlier:
  assumes "append_link cr c l le = Inr c'" and "cards_ok c" and "length (ac_digests c) + 1 < 2 ^ 64"
    and "n \<le> head_seqno c"
  shows "is_active_at c' k n = is_active_at c k n"
proof -
  have less: "head_seqno c < head_seqno c + 1" using seqno_step [OF assms(3)] by simp
  show ?thesis
  proof (cases "bt_get (ac_cards c) k")
    case (Some s)
    obtain s' where "bt_get (ac_cards c') k = Some s'" and "evolves (head_seqno c + 1) s s'"
      using append_evolves [OF assms(1,2) Some] .
    then show ?thesis
      using Some evolves_active [OF _ assms(4) less] by (simp add: is_active_at_def)
  next
    case None
    have "\<not> cs_active_at s' n" if get: "bt_get (ac_cards c') k = Some s'" for s'
      using append_new_card [OF assms(1) None get] less assms(4)
      by (metis cs_active_at_def new_card_state_def card_state.select_convs(3) leD order_less_le_trans)
    then show ?thesis using None by (auto simp: is_active_at_def split: option.split)
  qed
qed

lemma append_recovery:
  assumes "append_link cr c l le = Inr c'" and "cards_ok c" and "length (ac_digests c) + 1 < 2 ^ 64"
    and "n \<le> head_seqno c"
  shows "recovery_ids c' n = recovery_ids c n"
proof -
  have "(\<exists>s. bt_get (ac_cards c') k = Some s \<and> cs_recovery s) \<longleftrightarrow>
      (\<exists>s. bt_get (ac_cards c) k = Some s \<and> cs_recovery s)" if k: "is_active_at c k n" for k
    using k append_evolves [OF assms(1,2)] by (fastforce simp: is_active_at_iff evolves_def)
  then show ?thesis
    by (auto simp: recovery_ids_def append_earlier [OF assms])
qed

lemma append_cards_ok:
  assumes "append_link cr c l le = Inr c'" and "cards_ok c" and "length (ac_digests c) + 1 < 2 ^ 64"
    and "ac_digests c \<noteq> []"
  shows "cards_ok c'"
  unfolding cards_ok_def
proof (intro allI impI)
  fix k s'
  assume get: "bt_get (ac_cards c') k = Some s'"
  note head = append_head [OF assms(1)] and step = seqno_step [OF assms(3)]
  show "card_ok c' k s'"
  proof (cases "bt_get (ac_cards c) k")
    case None
    have one: "1 \<le> head_seqno c + 1"
      using step [of 0] by (intro one_le_word) auto
    obtain d where "card_device d = k" and "card_account d = ac_account c"
      and "s' = new_card_state d (Some (link_signer (body l))) (head_seqno c + 1)
           (link_kind (body l) = Link_AddRecovery d)"
      using append_new_card [OF assms(1) None get] .
    then show ?thesis
      using one head by (simp add: card_ok_def new_card_state_def)
  next
    case (Some s)
    obtain t where t: "bt_get (ac_cards c') k = Some t" "evolves (head_seqno c + 1) s t"
      using append_evolves [OF assms(1,2) Some] .
    have ok: "card_ok c k s" using assms(2) Some by (simp add: cards_ok_def)
    have le: "n \<le> head_seqno c \<Longrightarrow> n \<le> head_seqno c + 1" for n
      using step [of n] by simp
    have "cs_added_at s < head_seqno c + 1"
      using ok step by (simp add: card_ok_def)
    then show ?thesis
      using ok t get head le unfolding card_ok_def evolves_def by auto
  qed
qed

lemma genesis_cards:
  assumes "from_genesis cr l le = Inr c"
  obtains d where "card_account d = ac_account c" and "ac_digests c = [signed_link_digest cr l]"
    and "ac_account c = link_account (body l)"
    and "\<And>k. bt_get (ac_cards c) k = (if k = card_device d then Some (new_card_state d None 1 False) else None)"
  using assms by (auto elim!: from_genesisE)

lemma genesis_cards_ok: "from_genesis cr l le = Inr c \<Longrightarrow> cards_ok c"
  by (erule genesis_cards) (auto simp: cards_ok_def card_ok_def new_card_state_def head_seqno_def)

text \<open>The records of a verified chain are a hash chain.\<close>

interpretation link_chain:
  hash_chain "signed_link_digest cr" "enc_signed enc_account_link" "hash cr"
    "\<lambda>l. link_seqno (body l)" "\<lambda>l. link_previous (body l)" "wf_signed (wf_account_link cr)" for cr
proof
  show "signed_link_digest cr r = hash cr (enc_signed enc_account_link r)" for r
    by (simp add: signed_digest_def)
  show "r = s" if "wf_signed (wf_account_link cr) r" "wf_signed (wf_account_link cr) s"
    and "enc_signed enc_account_link r = enc_signed enc_account_link s" for r s
    using wire.enc_inject [OF signed_link_wire that] .
qed

lemma verify_chain_linked:
  "verify_chain cr links le = Inr c \<Longrightarrow>
   ac_digests c = map (signed_link_digest cr) links \<and> links \<noteq> [] \<and> link_chain.linked cr links
   \<and> link_previous (body (hd links)) = ZERO_digest
   \<and> (\<forall>l \<in> set links. link_account (body l) = ac_account c)"
proof (induction rule: verify_chain_induct)
  case (genesis l c)
  then show ?case
    using from_genesis_previous [OF genesis]
    by (auto elim!: from_genesisE simp: link_chain.linked_def)
next
  case (append ls l c c')
  then show ?case
    using append_head [OF append.hyps(3)]
    by (auto simp: link_chain.linked_snoc head_seqno_def head_digest_def last_map
        elim: append_linkE)
qed

lemma verify_chain_length: "verify_chain cr links le = Inr c \<Longrightarrow> length (ac_digests c) = length links"
  using verify_chain_linked by fastforce

lemma verify_cards_ok:
  "verify_chain cr links le = Inr c \<Longrightarrow> length links < 2 ^ 64 \<Longrightarrow> cards_ok c"
proof (induction rule: verify_chain_induct)
  case (append ls l c c')
  then show ?case
    using append_cards_ok [OF append.hyps(3)] verify_chain_linked [OF append.hyps(1)] by auto
qed (rule genesis_cards_ok)

subsection \<open>Limits at every head\<close>

definition limits_at :: "account_chain \<Rightarrow> u64 \<Rightarrow> bool" where
  "limits_at c n \<longleftrightarrow> length (active_states c n) \<le> MAX_ACTIVE_CARDS
     \<and> length (filter cs_recovery (active_states c n)) \<le> 1"

lemma finite_recovery_ids [simp]: "finite (recovery_ids c n)"
  by (rule finite_subset [OF recovery_ids_active finite_active_ids])

lemma limits_at_card:
  "limits_at c n \<longleftrightarrow> card (active_ids c n) \<le> 256 \<and> card (recovery_ids c n) \<le> 1"
  by (simp add: limits_at_def length_active_states length_active_recovery MAX_ACTIVE_CARDS_def)

lemma card_subset_le: "finite B \<Longrightarrow> A \<subseteq> B \<Longrightarrow> card B \<le> n \<Longrightarrow> card A \<le> n"
  by (rule le_trans [OF card_mono])

lemma append_active_new:
  assumes "append_link cr c l le = Inr c'" and "cards_ok c" and "length (ac_digests c) + 1 < 2 ^ 64"
    and "is_active_at c' k (head_seqno c')"
  shows "is_active_at c k (head_seqno c) \<or>
    bt_get (ac_cards c) k = None \<and> (\<exists>d. added_card (link_kind (body l)) = Some d \<and> k = card_device d)"
proof (cases "bt_get (ac_cards c) k")
  case None
  then show ?thesis
    using assms(4) append_new_card [OF assms(1) None] by (auto simp: is_active_at_iff)
next
  case (Some s)
  then obtain s' where "bt_get (ac_cards c') k = Some s'" and "evolves (head_seqno c + 1) s s'"
    using append_evolves [OF assms(1,2)] by blast
  moreover have "card_ok c k s" using assms(2) Some by (simp add: cards_ok_def)
  moreover have "\<not> head_seqno c + 1 < r" if "r \<le> head_seqno c" for r
    using that seqno_step [OF assms(3), of r] by simp
  ultimately show ?thesis
    using assms(4) Some append_head(1) [OF assms(1)]
    by (auto simp: is_active_at_def cs_active_at_def evolves_def card_ok_def split: option.splits)
qed

lemma append_limits:
  assumes "append_link cr c l le = Inr c'" and "cards_ok c" and "length (ac_digests c) + 1 < 2 ^ 64"
    and "limits_at c (head_seqno c)"
  shows "limits_at c' (head_seqno c')"
proof -
  from assms(1) obtain c1 where kind: "apply_kind c (body l) le = Inr c1"
    by (auto elim!: append_linkE)
  have size: "card (active_ids c (head_seqno c)) \<le> 256" "card (recovery_ids c (head_seqno c)) \<le> 1"
    using assms(4) by (simp_all add: limits_at_card)
  note new = append_active_new [OF assms(1-3)]
  have rec: "k \<in> recovery_ids c (head_seqno c)"
    if "k \<in> recovery_ids c' (head_seqno c')" and "is_active_at c k (head_seqno c)" for k
    using that append_evolves [OF assms(1,2)] by (fastforce simp: recovery_ids_def is_active_at_iff evolves_def)
  show ?thesis
  proof (cases "added_card (link_kind (body l))")
    case None
    then have "active_ids c' (head_seqno c') \<subseteq> active_ids c (head_seqno c)"
      using new by (auto simp: active_ids_def)
    moreover from this have "recovery_ids c' (head_seqno c') \<subseteq> recovery_ids c (head_seqno c)"
      using rec by (auto simp: active_ids_def recovery_ids_def)
    ultimately show ?thesis
      using size unfolding limits_at_card by (blast intro: card_subset_le finite_active_ids finite_recovery_ids)
  next
    case (Some d)
    note add = apply_kind_add [OF kind Some]
    have sub: "active_ids c' (head_seqno c') \<subseteq> insert (card_device d) (active_ids c (head_seqno c))"
      using new Some by (auto simp: active_ids_def)
    have "card (insert (card_device d) (active_ids c (head_seqno c))) \<le> 256"
      using add(4) by (simp add: card_insert_if MAX_ACTIVE_CARDS_def)
    then have "card (active_ids c' (head_seqno c')) \<le> 256"
      using sub card_subset_le [OF _ sub] by simp
    moreover have "card (recovery_ids c' (head_seqno c')) \<le> 1"
    proof (cases "link_kind (body l) = Link_AddRecovery d")
      case True
      have "k = card_device d" if k: "k \<in> recovery_ids c' (head_seqno c')" for k
      proof -
        have "\<not> is_active_at c k (head_seqno c)"
          using rec [OF k] add(5) [OF True] by blast
        moreover have "is_active_at c' k (head_seqno c')"
          using k by (simp add: recovery_ids_def)
        ultimately show ?thesis
          using new Some by force
      qed
      then have "recovery_ids c' (head_seqno c') \<subseteq> {card_device d}" by blast
      then show ?thesis using card_subset_le [of "{card_device d}" "recovery_ids c' (head_seqno c')" 1] by simp
    next
      case False
      have "card_device d \<notin> recovery_ids c' (head_seqno c')"
      proof
        assume "card_device d \<in> recovery_ids c' (head_seqno c')"
        then obtain s where get: "bt_get (ac_cards c') (card_device d) = Some s" and "cs_recovery s"
          by (auto simp: recovery_ids_def)
        moreover obtain e where "added_card (link_kind (body l)) = Some e"
          and "s = new_card_state e (Some (link_signer (body l))) (head_seqno c + 1)
            (link_kind (body l) = Link_AddRecovery e)"
          using append_new_card [OF assms(1) add(2) get] .
        ultimately show False using Some False by (simp add: new_card_state_def)
      qed
      then have "is_active_at c k (head_seqno c)" if "k \<in> recovery_ids c' (head_seqno c')" for k
        using new [of k] that Some unfolding recovery_ids_def by force
      then have "recovery_ids c' (head_seqno c') \<subseteq> recovery_ids c (head_seqno c)"
        using rec by blast
      then show ?thesis
        using size card_subset_le [OF finite_recovery_ids] by blast
    qed
    ultimately show ?thesis
      by (simp add: limits_at_card)
  qed
qed

lemma genesis_limits: "from_genesis cr l le = Inr c \<Longrightarrow> limits_at c n"
proof (erule genesis_cards)
  fix d
  assume cards: "\<And>k. bt_get (ac_cards c) k = (if k = card_device d then Some (new_card_state d None 1 False) else None)"
  then have "active_ids c n \<subseteq> {card_device d}" and "recovery_ids c n = {}"
    by (auto simp: active_ids_def recovery_ids_def is_active_at_iff new_card_state_def split: if_splits)
  then show "limits_at c n"
    using card_subset_le [of "{card_device d}" "active_ids c n" 256] by (simp add: limits_at_card)
qed

lemma append_limits_earlier:
  assumes "append_link cr c l le = Inr c'" and "cards_ok c" and "length (ac_digests c) + 1 < 2 ^ 64"
    and "n \<le> head_seqno c"
  shows "limits_at c' n = limits_at c n"
  by (simp add: limits_at_card active_ids_def append_earlier [OF assms] append_recovery [OF assms])

text \<open>
  At every head of a verified account chain, the current one and every earlier one, at
  most 256 cards are active and at most one of them is a recovery identity.
\<close>

theorem verified_limits:
  assumes "verify_chain cr links le = Inr c" and "length links < 2 ^ 64" and "n \<le> head_seqno c"
  shows "length (active_states c n) \<le> MAX_ACTIVE_CARDS
    \<and> length (filter cs_recovery (active_states c n)) \<le> 1"
proof -
  have "\<forall>n \<le> head_seqno c. limits_at c n"
    using assms(1,2)
  proof (induction rule: verify_chain_induct)
    case (genesis l c)
    then show ?case by (simp add: genesis_limits)
  next
    case (append ls l c c')
    then have ok: "cards_ok c" and len: "length (ac_digests c) + 1 < 2 ^ 64"
      and old: "\<forall>n \<le> head_seqno c. limits_at c n"
      using verify_cards_ok [OF append.hyps(1)] by (simp_all add: verify_chain_length)
    have "limits_at c' (head_seqno c')"
      using append_limits [OF append.hyps(3) ok len] old by blast
    moreover have "n \<le> head_seqno c \<or> n = head_seqno c'" if "n \<le> head_seqno c'" for n
      using that seqno_step [OF len, of n] append_head(1) [OF append.hyps(3)] by auto
    ultimately show ?case
      using old append_limits_earlier [OF append.hyps(3) ok len] by blast
  qed
  then show ?thesis using assms(3) by (simp add: limits_at_def)
qed

end
