(* ===== verification/Account_History.thy ===== *)
theory Account_History
  imports Account_Laws
begin

text \<open>
  The history of a verified account chain: where each card came from, what recovery
  identities signed, the chain cut back to an earlier head, and the judgement of a served
  chain under a kept head.
\<close>

subsection \<open>Removals of a verified chain\<close>

text \<open>
  On a verified chain, a removal that succeeds takes only active cards, among them the
  target and none of the kept devices; it takes the signer only when the signer is the
  target, and then nothing else; and it leaves no orphan: an active card whose parent it takes
  is taken too, unless it is the signer or kept.
\<close>

theorem removal_safe:
  assumes "verify_chain cr links le = Inr c" and "length links < 2 ^ 64"
    and "removal c signer target keep = Inr removed"
  shows "target \<in> removed
    \<and> (\<forall>k \<in> removed. is_active_at c k (head_seqno c))
    \<and> removed \<inter> set keep = {}
    \<and> (signer \<in> removed \<longrightarrow> signer = target \<and> removed = {signer})
    \<and> (signer \<noteq> target \<longrightarrow> (\<forall>s \<in> set (active_states c (head_seqno c)). \<forall>p \<in> removed.
         cs_parent s = Some p \<longrightarrow> card_device (cs_card s) = signer \<or> card_device (cs_card s) \<in> set keep
         \<or> card_device (cs_card s) \<in> removed))"
proof -
  let ?h = "head_seqno c"
  have ok: "cards_ok c" using verify_cards_ok [OF assms(1,2)] .
  have set: "removal_set c ?h signer target keep (?h + 1) = Inr removed"
    using assms(3) by (simp add: removal_def Let_def)
  have active: "is_active_at c target ?h"
    using set by (auto simp: removal_set_exact split: if_splits)
  show ?thesis
  proof (cases "signer = target")
    case True
    then show ?thesis using set active by (auto simp: removal_set_exact split: if_splits)
  next
    case False
    then have removed: "removed = {x. falls c ?h signer (set keep) target x}"
      and keep: "\<forall>i \<in> set keep. i \<noteq> target"
      using set by (auto simp: removal_set_exact split: if_splits)
    have "target \<in> removed" by (simp add: removed falls.target)
    moreover have "\<forall>k \<in> removed. is_active_at c k ?h"
      using ok active by (auto simp: removed dest!: falls_active
          simp: set_active_states is_active_at_iff cards_ok_def card_ok_def)
    moreover have "removed \<inter> set keep = {}" and "signer \<notin> removed"
      using keep False by (auto simp: removed dest: falls_active)
    moreover have "\<forall>s \<in> set (active_states c ?h). \<forall>p \<in> removed. cs_parent s = Some p \<longrightarrow>
        card_device (cs_card s) = signer \<or> card_device (cs_card s) \<in> set keep
        \<or> card_device (cs_card s) \<in> removed"
      by (auto simp: removed intro: falls.child)
    ultimately show ?thesis by blast
  qed
qed

subsection \<open>Where cards come from\<close>

definition parents_ok :: "account_chain \<Rightarrow> bool" where
  "parents_ok c \<longleftrightarrow> (\<forall>k s. bt_get (ac_cards c) k = Some s \<longrightarrow> parent_ok c s)"

definition seqnos_unique :: "account_chain \<Rightarrow> bool" where
  "seqnos_unique c \<longleftrightarrow> (\<forall>k s k' s'. bt_get (ac_cards c) k = Some s \<longrightarrow>
     bt_get (ac_cards c) k' = Some s' \<longrightarrow> cs_added_at s = cs_added_at s' \<longrightarrow> k = k')"

lemma word_pred: "1 < (w :: u64) \<Longrightarrow> w - 1 < w"
  by (simp add: word_less_nat_alt unat_sub_if_size word_le_nat_alt)

text \<open>The signer of an appended link, and what a recovery identity may sign.\<close>

lemma append_signer:
  assumes step: "append_link cr c l le = Inr c'" and ok: "cards_ok c"
    and len: "length (ac_digests c) + 1 < 2 ^ 64"
  obtains ps where "bt_get (ac_cards c') (link_signer (body l)) = Some ps"
    and "cs_active_at ps (head_seqno c)"
    and "cs_recovery ps \<Longrightarrow> cs_recovered_at ps = Some (head_seqno c + 1)"
    and "cs_recovery ps \<Longrightarrow> \<exists>d. link_kind (body l) = Link_RecoverDevice d"
proof -
  let ?h = "head_seqno c"
  from step obtain signer c1 where seqno: "link_seqno (body l) = ?h + 1"
    and signer: "bt_get (ac_cards c) (link_signer (body l)) = Some signer" "cs_active_at signer ?h"
    and rule: "recovery_rule (link_kind (body l)) (cs_recovery signer)
      (cs_recovered_at signer \<noteq> None) (link_seqno (body l)) = Inr ()"
    and kind: "apply_kind c (body l) le = Inr c1" and c': "ac_cards c' = ac_cards c1"
    by (auto elim!: append_linkE)
  obtain ps where ps: "bt_get (ac_cards c') (link_signer (body l)) = Some ps" "evolves (?h + 1) signer ps"
    using append_evolves [OF step ok signer(1)] .
  have rec: "\<exists>d. link_kind (body l) = Link_RecoverDevice d" if "cs_recovery ps"
    using rule that ps(2) by (cases "link_kind (body l)") (auto simp: evolves_def)
  have "cs_recovered_at ps = Some (?h + 1)" if r: "cs_recovery ps"
  proof -
    obtain d where d: "link_kind (body l) = Link_RecoverDevice d" using rec [OF r] by blast
    then have some: "added_card (link_kind (body l)) = Some d" by simp
    note add = apply_kind_add [OF kind some]
    have "link_signer (body l) \<noteq> card_device d" using add(2) signer(1) by auto
    then show ?thesis
      using add(6) [of "link_signer (body l)"] ps(1) signer(1) seqno c' d by auto
  qed
  moreover have "cs_active_at ps ?h"
    using evolves_active [OF ps(2)] signer(2) seqno_step [OF len, of ?h] by simp
  ultimately show ?thesis using that ps(1) rec by blast
qed

lemma append_parents_ok:
  assumes step: "append_link cr c l le = Inr c'" and ok: "cards_ok c"
    and len: "length (ac_digests c) + 1 < 2 ^ 64" and nonempty: "ac_digests c \<noteq> []"
    and parents: "parents_ok c"
  shows "parents_ok c'"
  unfolding parents_ok_def
proof (intro allI impI)
  fix k s'
  assume get: "bt_get (ac_cards c') k = Some s'"
  let ?h = "head_seqno c"
  show "parent_ok c' s'"
  proof (cases "bt_get (ac_cards c) k")
    case (Some s)
    obtain t where "bt_get (ac_cards c') k = Some t" and ev: "evolves (?h + 1) s t"
      using append_evolves [OF step ok Some] .
    with get have t: "t = s'" by simp
    have old: "parent_ok c s" and s: "card_ok c k s"
      using parents ok Some by (auto simp: parents_ok_def cards_ok_def)
    show ?thesis
    proof (cases "cs_parent s")
      case None
      then show ?thesis using old ev t by (simp add: parent_ok_def evolves_def)
    next
      case (Some p)
      then obtain ps where ps: "bt_get (ac_cards c) p = Some ps"
        "cs_active_at ps (cs_added_at s - 1)" "1 < cs_added_at s"
        "cs_recovery ps \<longrightarrow> cs_recovered_at ps = Some (cs_added_at s)"
        using old by (auto simp: parent_ok_def)
      obtain ps' where ps': "bt_get (ac_cards c') p = Some ps'" "evolves (?h + 1) ps ps'"
        using append_evolves [OF step ok ps(1)] .
      have "cs_added_at s - 1 \<le> ?h"
        using s by (intro order_trans [OF less_imp_le [OF word_pred [OF ps(3)]]]) (simp add: card_ok_def)
      then have "cs_active_at ps' (cs_added_at s - 1)"
        using evolves_active [OF ps'(2)] ps(2) seqno_step [OF len, of ?h] by simp
      moreover have "cs_recovery ps' \<longrightarrow> cs_recovered_at ps' = Some (cs_added_at s)"
        using ps'(2) ps(4) by (auto simp: evolves_def)
      ultimately show ?thesis
        using Some ps ps' ev t by (simp add: parent_ok_def evolves_def)
    qed
  next
    case None
    obtain d where d: "added_card (link_kind (body l)) = Some d" "card_device d = k"
      "s' = new_card_state d (Some (link_signer (body l))) (?h + 1) (link_kind (body l) = Link_AddRecovery d)"
      using append_new_card [OF step None get] .
    obtain ps where ps: "bt_get (ac_cards c') (link_signer (body l)) = Some ps" "cs_active_at ps ?h"
      "cs_recovery ps \<Longrightarrow> cs_recovered_at ps = Some (?h + 1)"
      using append_signer [OF step ok len] by blast
    have "1 < ?h + 1"
      using seqno_step [OF len, of 1] nonempty len
      by (simp add: head_seqno_def word_le_nat_alt unat_of_nat Suc_le_eq)
    then show ?thesis
      using ps by (simp add: parent_ok_def d(3) new_card_state_def)
  qed
qed

lemma append_seqnos_unique:
  assumes step: "append_link cr c l le = Inr c'" and ok: "cards_ok c"
    and len: "length (ac_digests c) + 1 < 2 ^ 64" and unique: "seqnos_unique c"
  shows "seqnos_unique c'"
proof -
  let ?h = "head_seqno c"
  have origin: "(\<exists>s. bt_get (ac_cards c) k = Some s \<and> cs_added_at s = cs_added_at s' \<and> cs_added_at s' \<le> ?h)
      \<or> (cs_added_at s' = ?h + 1 \<and> (\<exists>d. added_card (link_kind (body l)) = Some d \<and> k = card_device d))"
    if get: "bt_get (ac_cards c') k = Some s'" for k s'
  proof (cases "bt_get (ac_cards c) k")
    case None
    show ?thesis
      by (rule append_new_card [OF step None get]) (auto simp: new_card_state_def)
  next
    case (Some s)
    show ?thesis
      by (rule append_evolves [OF step ok Some]) (use get Some ok in \<open>auto simp: evolves_def cards_ok_def card_ok_def\<close>)
  qed
  have "\<not> ?h + 1 \<le> ?h" using seqno_step [OF len, of "?h"] by simp
  then have fresh: "n \<noteq> ?h + 1" if "n \<le> ?h" for n using that by auto
  show ?thesis
    unfolding seqnos_unique_def
  proof (intro allI impI)
    fix k s k' s'
    assume a: "bt_get (ac_cards c') k = Some s" and b: "bt_get (ac_cards c') k' = Some s'"
      and eq: "cs_added_at s = cs_added_at s'"
    from origin [OF a] origin [OF b] show "k = k'"
    proof (elim disjE exE conjE)
      fix t t'
      assume "bt_get (ac_cards c) k = Some t" "bt_get (ac_cards c) k' = Some t'"
        and "cs_added_at t = cs_added_at s" "cs_added_at t' = cs_added_at s'"
      then show ?thesis using unique eq by (simp add: seqnos_unique_def)
    qed (use eq fresh in auto)
  qed
qed

lemma verified_invariant:
  assumes "verify_chain cr links le = Inr c" and "length links < 2 ^ 64"
  shows "cards_ok c \<and> parents_ok c \<and> seqnos_unique c"
  using assms
proof (induction rule: verify_chain_induct)
  case (genesis l c)
  then show ?case
    using genesis_cards_ok [OF genesis(1)]
    by (auto elim!: genesis_cards simp: parents_ok_def parent_ok_def seqnos_unique_def
        new_card_state_def split: if_splits)
next
  case (append ls l c c')
  have len: "length (ac_digests c) + 1 < 2 ^ 64" "ac_digests c \<noteq> []"
    using append verify_chain_linked [OF append.hyps(1)] by auto
  then show ?case
    using append append_cards_ok [OF append.hyps(3)] append_parents_ok [OF append.hyps(3)]
      append_seqnos_unique [OF append.hyps(3)] by simp
qed

text \<open>
  Every card of a verified chain is indexed by its own device ID, names the chain's
  account, and was added at a seqno of the chain that added no other card. It was removed, if
  at all, at a later seqno of the chain. All but the genesis card have a parent that was
  active at the head just before; a parent that is a recovery identity is marked as having
  recovered exactly that card, so it has no other child, and no card but a recovery identity
  carries that mark.
\<close>

theorem verified_cards:
  assumes "verify_chain cr links le = Inr c" and "length links < 2 ^ 64"
    and "bt_get (ac_cards c) k = Some s"
  shows "card_device (cs_card s) = k \<and> card_account (cs_card s) = ac_account c
    \<and> 1 \<le> cs_added_at s \<and> cs_added_at s \<le> head_seqno c
    \<and> (\<forall>k' s'. bt_get (ac_cards c) k' = Some s' \<longrightarrow> cs_added_at s' = cs_added_at s \<longrightarrow> k' = k)
    \<and> (\<forall>r. cs_removed_at s = Some r \<longrightarrow> cs_added_at s < r \<and> r \<le> head_seqno c)
    \<and> (\<forall>r. cs_recovered_at s = Some r \<longrightarrow> cs_recovery s \<and> cs_added_at s < r \<and> r \<le> head_seqno c)
    \<and> (case cs_parent s of
         None \<Rightarrow> cs_added_at s = 1 \<and> \<not> cs_recovery s
       | Some p \<Rightarrow> 1 < cs_added_at s \<and> is_active_at c p (cs_added_at s - 1)
           \<and> (\<forall>ps. bt_get (ac_cards c) p = Some ps \<and> cs_recovery ps \<longrightarrow>
                cs_recovered_at ps = Some (cs_added_at s)))"
proof -
  have inv: "card_ok c k s" "parent_ok c s" "seqnos_unique c"
    using verified_invariant [OF assms(1,2)] assms(3) by (auto simp: cards_ok_def parents_ok_def)
  have "case cs_parent s of
         None \<Rightarrow> cs_added_at s = 1 \<and> \<not> cs_recovery s
       | Some p \<Rightarrow> 1 < cs_added_at s \<and> is_active_at c p (cs_added_at s - 1)
           \<and> (\<forall>ps. bt_get (ac_cards c) p = Some ps \<and> cs_recovery ps \<longrightarrow>
                cs_recovered_at ps = Some (cs_added_at s))"
    using inv(2) by (auto simp: parent_ok_def is_active_at_iff split: option.splits)
  then show ?thesis
    using inv(1,3) assms(3) unfolding card_ok_def seqnos_unique_def by blast
qed

subsection \<open>What recovery identities sign\<close>

text \<open>Every signer is a card, and a link that a recovery identity signed is marked on its card.\<close>

lemma recovery_marks:
  "verify_chain cr links le = Inr c \<Longrightarrow> length links < 2 ^ 64 \<Longrightarrow>
   \<forall>l \<in> set links. \<exists>s. bt_get (ac_cards c) (link_signer (body l)) = Some s
     \<and> (cs_recovery s \<longrightarrow> cs_recovered_at s = Some (link_seqno (body l))
          \<and> (\<exists>d. link_kind (body l) = Link_RecoverDevice d))"
proof (induction rule: verify_chain_induct)
  case (genesis l c)
  then show ?case by (auto elim!: from_genesisE simp: new_card_state_def)
next
  case (append ls l c c')
  note step = append.hyps(3)
  have ok: "cards_ok c" and len: "length (ac_digests c) + 1 < 2 ^ 64"
    using verify_cards_ok [OF append.hyps(1)] verify_chain_length [OF append.hyps(1)] append.prems
    by simp_all
  have "\<exists>s. bt_get (ac_cards c') (link_signer (body m)) = Some s
     \<and> (cs_recovery s \<longrightarrow> cs_recovered_at s = Some (link_seqno (body m))
          \<and> (\<exists>d. link_kind (body m) = Link_RecoverDevice d))" if "m \<in> set ls" for m
  proof -
    obtain s where s: "bt_get (ac_cards c) (link_signer (body m)) = Some s"
      "cs_recovery s \<longrightarrow> cs_recovered_at s = Some (link_seqno (body m))
          \<and> (\<exists>d. link_kind (body m) = Link_RecoverDevice d)"
      using append.IH append.prems \<open>m \<in> set ls\<close> by auto
    show ?thesis
      by (rule append_evolves [OF step ok s(1)]) (use s(2) in \<open>auto simp: evolves_def\<close>)
  qed
  moreover have "\<exists>s. bt_get (ac_cards c') (link_signer (body l)) = Some s
     \<and> (cs_recovery s \<longrightarrow> cs_recovered_at s = Some (link_seqno (body l))
          \<and> (\<exists>d. link_kind (body l) = Link_RecoverDevice d))"
    by (rule append_signer [OF step ok len]) (use append_head(4) [OF step] in auto)
  ultimately show ?case by auto
qed

text \<open>
  A recovery identity signs at most one link of a verified chain, and that link is a
  \<open>recover_device\<close>.
\<close>

theorem recovery_signs_once:
  assumes "verify_chain cr links le = Inr c" and "length links < 2 ^ 64"
    and "bt_get (ac_cards c) r = Some s" and "cs_recovery s"
    and "i < length links" and "link_signer (body (links ! i)) = r"
  shows "(\<exists>d. link_kind (body (links ! i)) = Link_RecoverDevice d)
    \<and> (\<forall>j < length links. link_signer (body (links ! j)) = r \<longrightarrow> j = i)"
proof -
  have mark: "cs_recovered_at s = Some (of_nat (Suc j)) \<and> (\<exists>d. link_kind (body (links ! j)) = Link_RecoverDevice d)"
    if j: "j < length links" "link_signer (body (links ! j)) = r" for j
  proof -
    have "link_seqno (body (links ! j)) = of_nat (Suc j)"
      using verify_chain_linked [OF assms(1)] j(1) by (simp add: link_chain.linked_def)
    then show ?thesis
      using recovery_marks [OF assms(1,2)] j assms(3,4) by (metis nth_mem option.inject)
  qed
  have "j = i" if "j < length links" "link_signer (body (links ! j)) = r" for j
  proof -
    have "(of_nat (Suc j) :: u64) = of_nat (Suc i)"
      using mark [OF that] mark [OF assms(5,6)] by simp
    then have "unat (of_nat (Suc j) :: u64) = unat (of_nat (Suc i) :: u64)" by (rule arg_cong)
    moreover have "unat (of_nat (Suc j) :: u64) = Suc j" "unat (of_nat (Suc i) :: u64) = Suc i"
      using that(1) assms(2,5) by (intro unat_of_nat_u64; simp)+
    ultimately show ?thesis by simp
  qed
  then show ?thesis using mark [OF assms(5,6)] by blast
qed

subsection \<open>Earlier heads\<close>

definition cut_at :: "u64 \<Rightarrow> u64 option \<Rightarrow> u64 option" where
  "cut_at n x = (case x of None \<Rightarrow> None | Some r \<Rightarrow> if r \<le> n then Some r else None)"

definition cut_state :: "u64 \<Rightarrow> card_state \<Rightarrow> card_state" where
  "cut_state n s = s\<lparr>cs_removed_at := cut_at n (cs_removed_at s),
     cs_recovered_at := cut_at n (cs_recovered_at s)\<rparr>"

lemma truncated_eq:
  "truncated c n =
     (if n = 0 \<or> n > head_seqno c then None
      else Some \<lparr>ac_account = ac_account c, ac_digests = take (unat n) (ac_digests c),
        ac_cards = bt_map (\<lambda>_. cut_state n) (bt_filter (\<lambda>_ s. cs_added_at s \<le> n) (ac_cards c))\<rparr>)"
  by (simp add: truncated_def cut_state_def [abs_def] cut_at_def)

lemma get_truncated:
  "bt_get (bt_map (\<lambda>_. cut_state n) (bt_filter (\<lambda>_ s. cs_added_at s \<le> n) m)) k =
     (case bt_get m k of None \<Rightarrow> None
      | Some s \<Rightarrow> if cs_added_at s \<le> n then Some (cut_state n s) else None)"
  by (simp add: bt_get_filter split: option.split)

lemma cut_at_simps [simp]:
  "cut_at n None = None"
  "r \<le> n \<Longrightarrow> cut_at n (Some r) = Some r"
  "\<not> r \<le> n \<Longrightarrow> cut_at n (Some r) = None"
  by (simp_all add: cut_at_def)

lemma evolves_cut:
  assumes "evolves seqno s s'" and "\<not> seqno \<le> n"
  shows "cut_state n s' = cut_state n s"
  using assms by (intro card_state.equality) (auto simp: evolves_def cut_state_def)

lemma truncated_full:
  assumes "cards_ok c" and "chain_bounded c"
  shows "truncated c (head_seqno c) = Some c"
proof -
  have "head_seqno c \<noteq> 0"
    using unat_head_seqno [OF assms(2)] assms(2) by (auto simp: chain_bounded_def)
  moreover have "bt_map (\<lambda>_. cut_state (head_seqno c))
      (bt_filter (\<lambda>_ s. cs_added_at s \<le> head_seqno c) (ac_cards c)) = ac_cards c"
  proof (rule bt_ext, unfold get_truncated)
    fix k
    show "(case bt_get (ac_cards c) k of None \<Rightarrow> None
        | Some s \<Rightarrow> if cs_added_at s \<le> head_seqno c then Some (cut_state (head_seqno c) s) else None) =
      bt_get (ac_cards c) k"
    proof (cases "bt_get (ac_cards c) k")
      case (Some s)
      then have ok: "card_ok c k s" using assms(1) by (simp add: cards_ok_def)
      have "cut_state (head_seqno c) s = s"
        using ok by (intro card_state.equality; cases "cs_removed_at s"; cases "cs_recovered_at s")
          (auto simp: cut_state_def card_ok_def)
      then show ?thesis using Some ok by (simp add: card_ok_def)
    qed simp
  qed
  ultimately show ?thesis
    by (simp add: truncated_eq unat_head_seqno [OF assms(2)])
qed

lemma append_truncated:
  assumes step: "append_link cr c l le = Inr c'" and ok: "cards_ok c"
    and len: "length (ac_digests c) + 1 < 2 ^ 64" and n: "n \<le> head_seqno c"
  shows "truncated c' n = truncated c n"
proof -
  let ?h = "head_seqno c"
  note head = append_head [OF step]
  have above: "\<not> ?h + 1 \<le> n" using n seqno_step [OF len, of n] by simp
  have "unat n \<le> length (ac_digests c)"
    using n len by (simp add: word_le_nat_alt head_seqno_def unat_of_nat)
  moreover have "\<not> head_seqno c' < n"
    using above head(1) by auto
  moreover have "bt_map (\<lambda>_. cut_state n) (bt_filter (\<lambda>_ s. cs_added_at s \<le> n) (ac_cards c')) =
      bt_map (\<lambda>_. cut_state n) (bt_filter (\<lambda>_ s. cs_added_at s \<le> n) (ac_cards c))"
  proof (rule bt_ext, unfold get_truncated)
    fix k
    show "(case bt_get (ac_cards c') k of None \<Rightarrow> None
        | Some s \<Rightarrow> if cs_added_at s \<le> n then Some (cut_state n s) else None) =
      (case bt_get (ac_cards c) k of None \<Rightarrow> None
        | Some s \<Rightarrow> if cs_added_at s \<le> n then Some (cut_state n s) else None)"
    proof (cases "bt_get (ac_cards c) k")
      case (Some s)
      obtain s' where "bt_get (ac_cards c') k = Some s'" and ev: "evolves (?h + 1) s s'"
        using append_evolves [OF step ok Some] .
      moreover have "cs_added_at s' = cs_added_at s" using ev by (simp add: evolves_def)
      ultimately show ?thesis using Some evolves_cut [OF ev above] by simp
    next
      case None
      have "cs_added_at s' = ?h + 1" if get: "bt_get (ac_cards c') k = Some s'" for s'
        by (rule append_new_card [OF step None get]) (simp add: new_card_state_def)
      then show ?thesis using None above by (auto split: option.split)
    qed
  qed
  ultimately show ?thesis
    using n head by (auto simp: truncated_eq)
qed

lemma verified_bounded:
  "verify_chain cr links le = Inr c \<Longrightarrow> length links < 2 ^ 64 \<Longrightarrow> chain_bounded c"
  using verify_chain_linked [of cr links le c] verify_chain_length [of cr links le c]
  by (auto simp: chain_bounded_def)

text \<open>
  Cutting a verified chain back to seqno \<open>n\<close> gives exactly the chain that verifying its
  first \<open>n\<close> links gives, and the cards active at a head up to \<open>n\<close> are the same in both: later
  links never change what an earlier head means.
\<close>

theorem truncated_is_prefix:
  assumes "verify_chain cr links le = Inr c" and "length links < 2 ^ 64"
    and "1 \<le> n" and "n \<le> length links"
  shows "\<exists>c'. truncated c (of_nat n) = Some c' \<and> verify_chain cr (take n links) le = Inr c'
    \<and> (\<forall>m \<le> of_nat n. \<forall>k. is_active_at c' k m = is_active_at c k m)"
  using assms
proof (induction rule: verify_chain_induct)
  case (genesis l c)
  then have "n = 1" by simp
  moreover have "verify_chain cr [l] le = Inr c" using genesis(1) by simp
  moreover have "truncated c (head_seqno c) = Some c"
    using truncated_full genesis_cards_ok [OF genesis(1)] verified_bounded [OF calculation(2)] by simp
  moreover have "head_seqno c = 1"
    using verify_chain_length [OF calculation(2)] by (simp add: head_seqno_def)
  ultimately show ?case by auto
next
  case (append ls l c c')
  note step = append.hyps(3)
  have whole: "verify_chain cr (ls @ [l]) le = Inr c'"
    using append.hyps by (simp add: verify_chain_snoc)
  have ok: "cards_ok c" and len: "length (ac_digests c) + 1 < 2 ^ 64" and lc: "length (ac_digests c) = length ls"
    using verify_cards_ok [OF append.hyps(1)] verify_chain_length [OF append.hyps(1)] append.prems by simp_all
  show ?case
  proof (cases "n = length (ls @ [l])")
    case True
    then have "head_seqno c' = of_nat n"
      using verify_chain_length [OF whole] by (simp add: head_seqno_def)
    moreover have "truncated c' (head_seqno c') = Some c'"
      using truncated_full verify_cards_ok [OF whole append.prems(1)]
        verified_bounded [OF whole append.prems(1)] by simp
    ultimately show ?thesis using whole True by auto
  next
    case False
    then have n: "n \<le> length ls" using append.prems by simp
    have nh: "(of_nat n :: u64) \<le> head_seqno c"
      using n len lc by (simp add: word_le_nat_alt head_seqno_def unat_of_nat)
    obtain c0 where c0: "truncated c (of_nat n) = Some c0" "verify_chain cr (take n ls) le = Inr c0"
      "\<forall>m \<le> of_nat n. \<forall>k. is_active_at c0 k m = is_active_at c k m"
      using append.IH append.prems n by auto
    have "is_active_at c0 k m = is_active_at c' k m" if "m \<le> of_nat n" for k m
      using c0(3) append_earlier [OF step ok len order_trans [OF that nh]] that by simp
    then show ?thesis
      using c0 n append_truncated [OF step ok len nh] by simp
  qed
qed

subsection \<open>Kept heads\<close>

lemma last_take_nth: "1 \<le> n \<Longrightarrow> n \<le> length xs \<Longrightarrow> last (take n xs) = xs ! (n - 1)"
  by (cases n) (simp_all add: take_Suc_conv_app_nth)

lemma verify_chain_take:
  assumes "verify_chain cr links le = Inr c" and "1 \<le> n" and "n \<le> length links"
  obtains c' where "verify_chain cr (take n links) le = Inr c'"
    and "try_fold (\<lambda>c l. append_link cr c l le) c' (drop n links) = Inr c"
proof -
  obtain g rest where links: "links = g # rest" using assms(2,3) by (cases links) auto
  obtain m where n: "n = Suc m" using assms(2) by (cases n) auto
  let ?f = "\<lambda>c l. append_link cr c l le"
  obtain c0 where c0: "from_genesis cr g le = Inr c0" "try_fold ?f c0 (take m rest @ drop m rest) = Inr c"
    using assms(1) by (auto simp: links)
  then obtain c1 where "try_fold ?f c0 (take m rest) = Inr c1" "try_fold ?f c1 (drop m rest) = Inr c"
    unfolding try_fold_append by auto
  then show ?thesis
    using c0(1) by (intro that [of c1]) (simp_all add: links n)
qed

lemma verify_chain_join:
  assumes "verify_chain cr xs le = Inr c"
  shows "verify_chain cr (xs @ ys) le = try_fold (\<lambda>c l. append_link cr c l le) c ys"
  using assms by (cases xs) (auto simp: try_fold_append)

text \<open>Extending is appending, with the refusals told apart.\<close>

lemma kept_extend_fold:
  "try_fold (\<lambda>chain link.
     if link_previous (body link) \<noteq> head_digest chain then Inl Forked
     else map_err Unauthorized (append_link cr chain link le)) c ls = Inr c' \<longleftrightarrow>
   try_fold (\<lambda>chain link. append_link cr chain link le) c ls = Inr c'"
proof (induction ls arbitrary: c)
  case (Cons l ls)
  have "link_previous (body l) = head_digest c" if "append_link cr c l le = Inr c1" for c1
    using that by (auto elim: append_linkE)
  then show ?case using Cons by auto
qed simp

lemma judge_iff:
  assumes "length served < 2 ^ 64"
  shows "kept_judge cr k served le = Inr c \<longleftrightarrow>
    verify_chain cr served le = Inr c \<and> chain_genesis c = kept_genesis k
    \<and> 1 \<le> unat (kept_seqno k) \<and> unat (kept_seqno k) \<le> length served
    \<and> ac_digests c ! (unat (kept_seqno k) - 1) = kept_digest k" (is "?L \<longleftrightarrow> ?R")
proof -
  let ?n = "unat (kept_seqno k)"
  have prefix: "chain_genesis c' = chain_genesis c \<and> head_digest c' = ac_digests c ! (?n - 1)
      \<and> head_seqno c' = kept_seqno k"
    if "verify_chain cr served le = Inr c" "verify_chain cr (take ?n served) le = Inr c'"
      "1 \<le> ?n" "?n \<le> length served" for c c'
    using verify_chain_linked [OF that(1)] verify_chain_linked [OF that(2)] that(3,4)
    by (auto simp: chain_genesis_def head_digest_def head_seqno_def last_conv_nth nth_append)
  show ?thesis
  proof
    assume l: ?L
    then obtain c1 where n: "1 \<le> ?n" "?n \<le> length served"
      and c1: "verify_chain cr (take ?n served) le = Inr c1"
      and kept: "chain_genesis c1 = kept_genesis k" "head_digest c1 = kept_digest k"
      and ext: "kept_extend cr k c1 (drop ?n served) le = Inr c"
      by (auto simp: kept_judge_def Let_def split: if_splits)
    have "try_fold (\<lambda>c l. append_link cr c l le) c1 (drop ?n served) = Inr c"
      using ext by (simp add: kept_extend_def kept_extend_fold split: if_splits)
    then have c: "verify_chain cr served le = Inr c"
      using verify_chain_join [OF c1, of "drop ?n served"] by simp
    then show ?R using prefix [OF c c1 n] kept n by simp
  next
    assume r: ?R
    then obtain c1 where c1: "verify_chain cr (take ?n served) le = Inr c1"
      and fold: "try_fold (\<lambda>c l. append_link cr c l le) c1 (drop ?n served) = Inr c"
      using verify_chain_take [of cr served le c ?n] by blast
    then have "chain_genesis c1 = chain_genesis c" "head_digest c1 = ac_digests c ! (?n - 1)"
      "head_seqno c1 = kept_seqno k"
      using prefix r by blast+
    then show ?L
      using r c1 fold by (simp add: kept_judge_def Let_def kept_extend_def kept_extend_fold)
  qed
qed

lemma head_at_nth:
  "1 \<le> unat n \<Longrightarrow> head_at c n =
     (if unat n \<le> length (ac_digests c)
      then Some \<lparr>ah_account = ac_account c, ah_genesis = chain_genesis c, ah_seqno = n,
                 ah_head = ac_digests c ! (unat n - 1)\<rparr> else None)"
proof -
  assume n: "1 \<le> unat n"
  then have "unat (n - 1) = unat n - 1"
    by (simp add: unat_sub word_le_nat_alt)
  moreover have "n \<noteq> 0" using n by auto
  ultimately show ?thesis using n by (auto simp: head_at_def Let_def)
qed

text \<open>
  C38. Judging a served chain under a kept head accepts exactly the chains that verify whole,
  start at the kept genesis and reach the kept seqno with the kept digest; what it returns is
  the verified chain, and the kept head lies on it.
\<close>

theorem judge_exact:
  assumes "length served < 2 ^ 64"
  shows "kept_judge cr k served le = Inr c \<longleftrightarrow>
    verify_chain cr served le = Inr c
    \<and> head_at c (kept_seqno k) = Some \<lparr>ah_account = ac_account c, ah_genesis = kept_genesis k,
        ah_seqno = kept_seqno k, ah_head = kept_digest k\<rparr>"
proof (cases "1 \<le> unat (kept_seqno k)")
  case True
  then show ?thesis
    using judge_iff [OF assms] verify_chain_length [of cr served le c] by (auto simp: head_at_nth)
next
  case False
  then have "kept_seqno k = 0" by (simp add: Suc_le_eq unat_gt_0)
  then show ?thesis using judge_iff [OF assms, of cr k le c] by (simp add: head_at_def)
qed

text \<open>
  A server cannot rewrite what a device accepted: two chains judged fine under one kept
  head hold the same links up to the kept seqno, unless two of the links exhibit a BLAKE3
  collision.
\<close>

theorem judge_no_rewrite:
  assumes "kept_judge cr k served le = Inr c" and "kept_judge cr k served' le' = Inr c'"
    and "length served < 2 ^ 64" and "length served' < 2 ^ 64"
    and "list_all (wf_signed (wf_account_link cr)) served"
    and "list_all (wf_signed (wf_account_link cr)) served'"
  shows "take (unat (kept_seqno k)) served = take (unat (kept_seqno k)) served'
    \<or> (\<exists>l \<in> set served. \<exists>l' \<in> set served'.
        collision (hash cr) (enc_signed enc_account_link l) (enc_signed enc_account_link l'))"
proof -
  let ?n = "unat (kept_seqno k)"
  have j: "verify_chain cr served le = Inr c" "1 \<le> ?n" "?n \<le> length served"
    "ac_digests c ! (?n - 1) = kept_digest k"
    using judge_iff [OF assms(3)] assms(1) by simp_all
  have j': "verify_chain cr served' le' = Inr c'" "?n \<le> length served'"
    "ac_digests c' ! (?n - 1) = kept_digest k"
    using judge_iff [OF assms(4)] assms(2) by simp_all
  let ?xs = "take ?n served" and ?ys = "take ?n served'"
  have "link_chain.linked cr ?xs" and "link_chain.linked cr ?ys"
    using verify_chain_linked [OF j(1)] verify_chain_linked [OF j'(1)]
    by (simp_all add: link_chain.linked_take)
  moreover have "list_all (wf_signed (wf_account_link cr)) ?xs" "list_all (wf_signed (wf_account_link cr)) ?ys"
    using assms(5,6) by (auto simp: list_all_iff dest: in_set_takeD)
  moreover have "signed_link_digest cr (last ?xs) = signed_link_digest cr (last ?ys)"
  proof -
    have "last ?xs = served ! (?n - 1)" and "last ?ys = served' ! (?n - 1)"
      using j j' by (simp_all add: last_take_nth)
    then show ?thesis
      using j j' verify_chain_linked [OF j(1)] verify_chain_linked [OF j'(1)] by auto
  qed
  ultimately have "?xs = ?ys \<or> link_chain.clash cr ?xs ?ys"
    using j j' by (intro link_chain.head_binds_equal_length) auto
  then show ?thesis
    by (auto simp: link_chain.clash_def dest: in_set_takeD)
qed

text \<open>
  A verified account chain's head determines the chain: two verified chains with the same
  head digest are the same list of links and have the same cards, unless two links exhibit a
  BLAKE3 collision.
\<close>

theorem account_head_binds:
  assumes "verify_chain cr links le = Inr c" and "verify_chain cr links' le = Inr c'"
    and "length links < 2 ^ 64" and "length links' < 2 ^ 64"
    and "list_all (wf_signed (wf_account_link cr)) links"
    and "list_all (wf_signed (wf_account_link cr)) links'"
    and "head_digest c = head_digest c'"
  shows "(links = links' \<and> c = c')
    \<or> (\<exists>l \<in> set links. \<exists>l' \<in> set links'.
        collision (hash cr) (enc_signed enc_account_link l) (enc_signed enc_account_link l'))"
proof -
  have "signed_link_digest cr (last links) = signed_link_digest cr (last links')"
    using verify_chain_linked [OF assms(1)] verify_chain_linked [OF assms(2)] assms(7)
    by (auto simp: head_digest_def last_map)
  then have "links = links' \<or> link_chain.clash cr links links'"
    using verify_chain_linked [OF assms(1)] verify_chain_linked [OF assms(2)] assms
    by (intro link_chain.head_binds) auto
  then show ?thesis
    using assms(1,2) by (auto simp: link_chain.clash_def)
qed

end
