(* ===== verification/Account_Examples.thy ===== *)
theory Account_Examples
  imports Account_History
begin

text \<open>
  A concrete account chain on which the account theorems' hypotheses hold: a genesis device, a
  second device, a recovery identity, a device it recovers, and the removal of the second
  device. The third-party functions are instantiated by simple ones; the hash keeps the last
  byte of its input, which is enough to tell the cards and links of the example apart.
\<close>

definition demo_crypto :: crypto where
  "demo_crypto = \<lparr>blake3 = (\<lambda>bs. push_bit 128 (ucast (last bs))),
     blake3_keyed = (\<lambda>_ bs. push_bit 128 (ucast (last bs))),
     blake3_derive_key = (\<lambda>_ bs. push_bit 128 (ucast (last bs))),
     ed25519_point = (\<lambda>_. True), ed25519_verify_strict = (\<lambda>_ _ _. True),
     ed25519_public = (\<lambda>k. k), ed25519_sign = (\<lambda>k _. ucast k),
     aead_encrypt = (\<lambda>_ _ _ p. p), aead_decrypt = (\<lambda>_ _ _ c. Some c)\<rparr>"

definition demo_card :: "nat \<Rightarrow> card" where
  "demo_card n = \<lparr>card_account = Ident 99, card_device = Ident (of_nat n),
     signing_public = Key (of_nat n), hpke_public = replicate 1216 0\<rparr>"

definition demo_digest :: "nat \<Rightarrow> digest" where
  "demo_digest n = Digest (push_bit 128 (of_nat n))"

text \<open>The link at seqno \<open>n\<close>, of the card \<open>s\<close>; its signature ends in the byte \<open>n\<close>.\<close>

definition demo_link :: "nat \<Rightarrow> nat \<Rightarrow> link_kind \<Rightarrow> account_link signed" where
  "demo_link n s kind = \<lparr>body = \<lparr>link_account = Ident 99, link_seqno = of_nat n,
      link_previous = (if n = 1 then ZERO_digest else demo_digest (n - 1)),
      link_signer = Ident (of_nat s), link_kind = kind\<rparr>, sig = Signature (of_nat n)\<rparr>"

definition demo_links :: "account_link signed list" where
  "demo_links =
     [demo_link 1 1 (Link_Genesis (demo_card 1)),
      demo_link 2 1 (Link_AddDevice (demo_card 2) (demo_digest 5)),
      demo_link 3 2 (Link_AddRecovery (demo_card 3)),
      demo_link 4 3 (Link_RecoverDevice (demo_card 4)),
      demo_link 5 1 (Link_Remove (Ident 2) [Ident 4])]"

lemma last_word_bytes: "0 < n \<Longrightarrow> last (word_bytes n w) = of_nat (unat w)"
  by (cases n) (simp_all add: word_bytes_def)

lemma word_bytes_Nil [simp]: "word_bytes n w = [] \<longleftrightarrow> n = 0"
  using length_word_bytes [of n w] by (metis length_0_conv)

lemma take_be_bytes: "take m (be_bytes (m + k) v) = be_bytes m (v div 256 ^ k)"
  by (induction k arbitrary: v) (simp_all add: div_mult2_eq)

lemma unat_small:
  assumes "n < 256" and "8 \<le> LENGTH('a::len)"
  shows "unat (of_nat n :: 'a word) = n"
proof -
  have "(2::nat) ^ 8 \<le> 2 ^ LENGTH('a)"
    using assms(2) by (rule power_increasing) simp
  then show ?thesis using assms(1) by (simp add: unat_of_nat)
qed

lemma ucast_byte: "n < 256 \<Longrightarrow> (ucast (of_nat n :: byte) :: 256 word) = of_nat n"
  by (rule word_eqI_unat) (simp add: unsigned_ucast_eq unat_small take_bit_nat_eq_self)

lemma demo_hash: "n < 256 \<Longrightarrow> last bs = of_nat n \<Longrightarrow> hash demo_crypto bs = demo_digest n"
  by (simp add: hash_def demo_crypto_def demo_digest_def ucast_byte)

lemma demo_link_digest:
  "n < 256 \<Longrightarrow> signed_link_digest demo_crypto (demo_link n s kind) = demo_digest n"
  unfolding signed_digest_def
  by (rule demo_hash) (simp_all add: enc_signed_def demo_link_def signature_bytes_def
      last_word_bytes unat_small last_append)

lemma demo_device_id: "n < 256 \<Longrightarrow> device_id demo_crypto (Key (of_nat n)) = Ident (of_nat n)"
proof -
  assume n: "n < 256"
  have "hash demo_crypto (tag_bytes Tag_DeviceId @ pubkey_bytes (Key (of_nat n))) = demo_digest n"
    using n by (intro demo_hash) (simp_all add: pubkey_bytes_def last_word_bytes unat_small last_append)
  moreover have "first_16 (demo_digest n) = of_nat n"
  proof -
    have "unat (push_bit 128 (of_nat n) :: 256 word) = n * 256 ^ 16"
      using n by (simp add: push_bit_eq_mult unat_word_ariths unat_small)
    then have "take 16 (digest_bytes (demo_digest n)) = be_bytes 16 n"
      using take_be_bytes [of 16 16 "n * 256 ^ 16"]
      by (simp add: digest_bytes_def demo_digest_def word_bytes_def)
    then show ?thesis
      using n by (simp add: first_16_def bytes_word_def)
  qed
  ultimately show ?thesis by (simp add: device_id_def hash_parts_hash)
qed

lemma demo_verify: "signed_verify demo_crypto enc l k = Inr ()"
  by (simp add: signed_verify_def verify_def demo_crypto_def)

definition demo_state :: "nat \<Rightarrow> nat option \<Rightarrow> bool \<Rightarrow> u64 option \<Rightarrow> u64 option \<Rightarrow> card_state" where
  "demo_state n parent recovery removed recovered =
     \<lparr>cs_card = demo_card n, cs_parent = map_option (\<lambda>p. Ident (of_nat p)) parent, cs_added_at = of_nat n,
      cs_removed_at = removed, cs_recovery = recovery, cs_recovered_at = recovered\<rparr>"

definition demo_chain :: "nat \<Rightarrow> (ident, card_state) btree \<Rightarrow> account_chain" where
  "demo_chain n cards = \<lparr>ac_account = Ident 99, ac_digests = take n (map demo_digest [1, 2, 3, 4, 5]), ac_cards = cards\<rparr>"

definition demo_cards :: "nat \<Rightarrow> (ident, card_state) btree" where
  "demo_cards n =
    (let c1 = bt_insert (Ident 1) (demo_state 1 None False None None) bt_empty;
         c2 = bt_insert (Ident 2) (demo_state 2 (Some 1) False None None) c1;
         c3 = bt_insert (Ident 3) (demo_state 3 (Some 2) True None None) c2;
         c4 = bt_insert (Ident 4) (demo_state 4 (Some 3) False None None)
           (bt_insert (Ident 3) (demo_state 3 (Some 2) True None (Some 4)) c2);
         c5 = bt_insert (Ident 2) (demo_state 2 (Some 1) False (Some 5) None)
           (bt_insert (Ident 3) (demo_state 3 (Some 2) True (Some 5) (Some 4)) c4)
     in [c1, c2, c3, c4, c5] ! (n - 1))"

lemma demo_body: "body (demo_link n s kind) = \<lparr>link_account = Ident 99, link_seqno = of_nat n,
    link_previous = (if n = 1 then ZERO_digest else demo_digest (n - 1)),
    link_signer = Ident (of_nat s), link_kind = kind\<rparr>"
  by (simp add: demo_link_def)

lemmas demo_simps = demo_links_def demo_link_digest demo_verify demo_body demo_chain_def demo_cards_def
  demo_card_def demo_state_def new_card_state_def

lemma demo_step1: "from_genesis demo_crypto (demo_links ! 0) {} = Inr (demo_chain 1 (demo_cards 1))"
  by (simp add: demo_simps from_genesis_def)

lemma demo_step2:
  "append_link demo_crypto (demo_chain 1 (demo_cards 1)) (demo_links ! 1) {} = Inr (demo_chain 2 (demo_cards 2))"
  by (simp add: demo_simps append_link_def apply_kind_def add_card_def head_seqno_def head_digest_def
      active_states_def bt_values_def cs_active_at_def MAX_ACTIVE_CARDS_def Let_def domIff)

lemma demo_step3:
  "append_link demo_crypto (demo_chain 2 (demo_cards 2)) (demo_links ! 2) {} = Inr (demo_chain 3 (demo_cards 3))"
  by (simp add: demo_simps append_link_def apply_kind_def add_card_def head_seqno_def head_digest_def
      active_states_def bt_values_def cs_active_at_def MAX_ACTIVE_CARDS_def Let_def domIff)

lemma demo_adjust:
  "bt_adjust k f (bt_insert k' v m) = (if k = k' then bt_insert k (f v) m else bt_insert k' v (bt_adjust k f m))"
  by (rule bt_ext) auto

lemma demo_step4:
  "append_link demo_crypto (demo_chain 3 (demo_cards 3)) (demo_links ! 3) {} = Inr (demo_chain 4 (demo_cards 4))"
  by (simp add: demo_simps append_link_def apply_kind_def add_card_def head_seqno_def head_digest_def
      active_states_def bt_values_def cs_active_at_def MAX_ACTIVE_CARDS_def Let_def domIff demo_adjust)

lemma demo_active4: "active_states (demo_chain 4 (demo_cards 4)) 4 =
   [demo_state 1 None False None None, demo_state 2 (Some 1) False None None,
    demo_state 3 (Some 2) True None (Some 4), demo_state 4 (Some 3) False None None]"
  by (simp add: demo_chain_def demo_cards_def demo_state_def active_states_def bt_values_def cs_active_at_def)

lemma demo_more: "cascade_more (demo_chain 4 (demo_cards 4)) 4 (Ident 1) kept removed =
   map (\<lambda>s. card_device (cs_card s)) (filter (\<lambda>s.
     card_device (cs_card s) \<notin> removed \<and> card_device (cs_card s) \<noteq> Ident 1
     \<and> card_device (cs_card s) \<notin> kept
     \<and> (case cs_parent s of None \<Rightarrow> False | Some p \<Rightarrow> p \<in> removed))
   [demo_state 1 None False None None, demo_state 2 (Some 1) False None None,
    demo_state 3 (Some 2) True None (Some 4), demo_state 4 (Some 3) False None None])"
  by (simp add: cascade_more_def demo_active4 Let_def)

lemmas demo_more_simps = demo_more demo_state_def demo_card_def Let_def

lemma demo_cascade_all:
  "cascade (demo_chain 4 (demo_cards 4)) 4 (Ident 1) {} {Ident 2} = {Ident 2, Ident 3, Ident 4}"
  by (subst cascade.simps, simp add: demo_more_simps, subst cascade.simps, simp add: demo_more_simps,
      subst cascade.simps, simp add: demo_more_simps) auto

lemma demo_cascade_keep:
  "cascade (demo_chain 4 (demo_cards 4)) 4 (Ident 1) {Ident 4} {Ident 2} = {Ident 2, Ident 3}"
  by (subst cascade.simps, simp add: demo_more_simps, subst cascade.simps, simp add: demo_more_simps) auto

lemma demo_removal:
  "removal_set (demo_chain 4 (demo_cards 4)) 4 (Ident 1) (Ident 2) [Ident 4] 5 = Inr {Ident 2, Ident 3}"
proof -
  have "is_active_at (demo_chain 4 (demo_cards 4)) (Ident 2) 4"
    and "bt_get (ac_cards (demo_chain 4 (demo_cards 4))) (Ident 4) = Some (demo_state 4 (Some 3) False None None)"
    by (simp_all add: is_active_at_def demo_chain_def demo_cards_def demo_state_def cs_active_at_def)
  then show ?thesis
    by (simp add: removal_set_def demo_cascade_all demo_cascade_keep Let_def, simp add: demo_state_def)
qed

lemma demo_step5:
  "append_link demo_crypto (demo_chain 4 (demo_cards 4)) (demo_links ! 4) {} = Inr (demo_chain 5 (demo_cards 5))"
proof -
  let ?c = "demo_chain 4 (demo_cards 4)"
  have "head_seqno ?c = 4" "head_digest ?c = demo_digest 4" "ac_account ?c = Ident 99"
    "ac_digests ?c = take 4 (map demo_digest [1, 2, 3, 4, 5])"
    "bt_get (ac_cards ?c) (Ident 1) = Some (demo_state 1 None False None None)"
    by (simp_all add: demo_chain_def head_seqno_def head_digest_def demo_cards_def)
  moreover have "demo_links ! 4 = demo_link 5 1 (Link_Remove (Ident 2) [Ident 4])"
    by (simp add: demo_links_def)
  moreover have "(mark_removed {Ident 2, Ident 3} 5 ?c)\<lparr>ac_digests := take 4 (map demo_digest [1, 2, 3, 4, 5]) @ [demo_digest 5]\<rparr> =
      demo_chain 5 (demo_cards 5)"
    by (simp add: mark_removed_def demo_chain_def)
      (rule bt_ext, auto simp: demo_cards_def demo_state_def)
  ultimately show ?thesis
    by (simp add: append_link_def demo_link_digest demo_verify demo_body apply_kind_def demo_removal
        demo_state_def cs_active_at_def mark_removed_def)
qed

lemma demo_verified: "verify_chain demo_crypto demo_links {} = Inr (demo_chain 5 (demo_cards 5))"
proof -
  have "demo_links = [demo_links ! 0, demo_links ! 1, demo_links ! 2, demo_links ! 3, demo_links ! 4]"
    by (simp add: demo_links_def)
  moreover have "verify_chain demo_crypto
      [demo_links ! 0, demo_links ! 1, demo_links ! 2, demo_links ! 3, demo_links ! 4] {} =
      Inr (demo_chain 5 (demo_cards 5))"
    by (simp add: demo_step1 demo_step2 demo_step3 demo_step4 demo_step5 del: One_nat_def)
  ultimately show ?thesis by (rule back_subst [of "\<lambda>ls. verify_chain demo_crypto ls {} = Inr (demo_chain 5 (demo_cards 5))", rotated, OF sym])
qed

lemma demo_wf_card: "0 < n \<Longrightarrow> n < 256 \<Longrightarrow> wf_nested enc_card (wf_card demo_crypto) (demo_card n)"
proof -
  assume n: "0 < n" "n < 256"
  have "(of_nat n :: 128 word) \<noteq> 0"
  proof
    assume "(of_nat n :: 128 word) = 0"
    then have "unat (of_nat n :: 128 word) = 0" by simp
    then show False using n by (simp add: unat_small)
  qed
  then show ?thesis
    using n by (simp add: wf_nested_def wf_card_def demo_card_def wf_ident_def wf_exact_def
        HPKE_PUBLIC_LEN_def demo_device_id enc_card_def w_bytes_def w_u32_def fits_u32_def encoded_len_def)
qed

lemma demo_wf: "list_all (wf_signed (wf_account_link demo_crypto)) demo_links"
  using demo_wf_card [of 1] demo_wf_card [of 2] demo_wf_card [of 3] demo_wf_card [of 4]
  by (simp add: demo_links_def wf_signed_def demo_body wf_account_link_def wf_ident_def wf_sorted_def
      wf_list_def rises_strictly_def MAX_ACTIVE_CARDS_def fits_u32_def)

lemma demo_length [simp]: "length demo_links = 5"
  by (simp add: demo_links_def)

lemma demo_head [simp]: "head_seqno (demo_chain 5 m) = 5" "head_seqno (demo_chain 4 m) = 4"
  by (simp_all add: head_seqno_def demo_chain_def)

subsection \<open>The theorems on the example\<close>

theorem verified_limits_witness:
  "length (active_states (demo_chain 5 (demo_cards 5)) 4) \<le> MAX_ACTIVE_CARDS
    \<and> length (filter cs_recovery (active_states (demo_chain 5 (demo_cards 5)) 4)) \<le> 1"
  by (rule verified_limits [OF demo_verified]) simp_all

lemma demo_removal4: "removal (demo_chain 5 (demo_cards 5)) (Ident 1) (Ident 4) [] = Inr {Ident 4}"
proof -
  let ?c = "demo_chain 5 (demo_cards 5)"
  have "active_states ?c 5 = [demo_state 1 None False None None, demo_state 4 (Some 3) False None None]"
    by (simp add: demo_chain_def demo_cards_def demo_state_def active_states_def bt_values_def cs_active_at_def)
  then have "cascade ?c 5 (Ident 1) {} {Ident 4} = {Ident 4}"
    by (subst cascade.simps) (simp add: cascade_more_def demo_state_def demo_card_def Let_def)
  moreover have "is_active_at ?c (Ident 4) 5"
    by (simp add: is_active_at_def demo_chain_def demo_cards_def demo_state_def cs_active_at_def)
  ultimately show ?thesis by (simp add: removal_def removal_set_def Let_def)
qed

theorem removal_safe_witness:
  "is_active_at (demo_chain 5 (demo_cards 5)) (Ident 4) (head_seqno (demo_chain 5 (demo_cards 5)))"
  using removal_safe [OF demo_verified _ demo_removal4] by simp

lemma demo_get: "bt_get (ac_cards (demo_chain 5 (demo_cards 5))) (Ident 4) = Some (demo_state 4 (Some 3) False None None)"
  "bt_get (ac_cards (demo_chain 5 (demo_cards 5))) (Ident 3) = Some (demo_state 3 (Some 2) True (Some 5) (Some 4))"
  by (simp_all add: demo_chain_def demo_cards_def)

theorem verified_cards_witness:
  "is_active_at (demo_chain 5 (demo_cards 5)) (Ident 3) 3"
  using verified_cards [OF demo_verified _ demo_get(1)] by (simp add: demo_state_def)

theorem recovery_signs_once_witness: "\<exists>d. link_kind (body (demo_links ! 3)) = Link_RecoverDevice d"
proof -
  have "link_signer (body (demo_links ! 3)) = Ident 3" by (simp add: demo_links_def demo_body)
  then show ?thesis
    using recovery_signs_once [OF demo_verified _ demo_get(2), of 3] by (simp add: demo_state_def)
qed

theorem truncated_is_prefix_witness:
  "\<exists>c'. truncated (demo_chain 5 (demo_cards 5)) 4 = Some c'
    \<and> verify_chain demo_crypto (take 4 demo_links) {} = Inr c'"
  using truncated_is_prefix [OF demo_verified, of 4] by auto

definition demo_kept :: kept_head where
  "demo_kept = \<lparr>kept_genesis = demo_digest 1, kept_seqno = 3, kept_digest = demo_digest 3\<rparr>"

theorem judge_exact_witness:
  "kept_judge demo_crypto demo_kept demo_links {} = Inr (demo_chain 5 (demo_cards 5))"
  by (subst judge_exact) (simp_all add: demo_verified, simp add: demo_kept_def head_at_def demo_chain_def
      chain_genesis_def)

lemma demo_judged: "kept_judge demo_crypto demo_kept demo_links {} = Inr (demo_chain 5 (demo_cards 5))"
  by (subst judge_iff) (simp_all add: demo_verified, simp add: demo_kept_def demo_chain_def chain_genesis_def)

theorem judge_no_rewrite_witness:
  "take (unat (kept_seqno demo_kept)) demo_links = take (unat (kept_seqno demo_kept)) demo_links
    \<or> (\<exists>l \<in> set demo_links. \<exists>l' \<in> set demo_links.
        collision (hash demo_crypto) (enc_signed enc_account_link l) (enc_signed enc_account_link l'))"
  by (rule judge_no_rewrite [OF demo_judged demo_judged _ _ demo_wf demo_wf]) simp_all

theorem account_head_binds_witness:
  "(demo_links = demo_links \<and> demo_chain 5 (demo_cards 5) = demo_chain 5 (demo_cards 5))
    \<or> (\<exists>l \<in> set demo_links. \<exists>l' \<in> set demo_links.
        collision (hash demo_crypto) (enc_signed enc_account_link l) (enc_signed enc_account_link l'))"
  by (rule account_head_binds [OF demo_verified demo_verified _ _ demo_wf demo_wf]) simp_all

theorem removal_set_exact_witness:
  "{x. falls (demo_chain 4 (demo_cards 4)) 4 (Ident 1) {Ident 4} (Ident 2) x} = {Ident 2, Ident 3}"
  using demo_removal unfolding removal_set_exact by (simp split: if_splits)

theorem account_id_case_witness:
  "normalize_email [65] = normalize_email [97]
   \<or> collision (\<lambda>input. first_16 (keyed_hash demo_crypto (derive_key demo_crypto ACCOUNT_ID (secret_bytes (SecretKey 1))) input))
       (normalize_email [65]) (normalize_email [97])"
proof -
  have "normalize_email [65] = [97]" by (simp add: normalize_email_def ascii_lower_def)
  then have "account_id demo_crypto (SecretKey 1) [65] = account_id demo_crypto (SecretKey 1) [97]"
    using account_id_case [of demo_crypto "SecretKey 1" "[65]" "[65]"] by simp
  then show ?thesis
    using account_id_case [of demo_crypto "SecretKey 1" "[65]" "[97]"] by blast
qed

end
