(* ===== verification/Records_Policy.thy ===== *)
theory Records_Policy
  imports Records_Account
begin

text \<open>
  The policy change record (\<^verbatim>\<open>records/policy.rs\<close>, \<section>8): roles, grant levels, the kinds of
  change and their encoding.
\<close>

subsection \<open>Roles and levels\<close>

datatype role = Owner | Admin | Editor | Viewer

datatype level = Level_Read | Level_Write | Level_Manage

fun role_code :: "role \<Rightarrow> u8" where
  "role_code Owner = 1"
| "role_code Admin = 2"
| "role_code Editor = 3"
| "role_code Viewer = 4"

definition role_from_code :: "u8 \<Rightarrow> role option" where
  "role_from_code c = (if c = 1 then Some Owner else if c = 2 then Some Admin
     else if c = 3 then Some Editor else if c = 4 then Some Viewer else None)"

fun level_code :: "level \<Rightarrow> u8" where
  "level_code Level_Read = 1"
| "level_code Level_Write = 2"
| "level_code Level_Manage = 3"

definition level_from_code :: "u8 \<Rightarrow> level option" where
  "level_from_code c = (if c = 1 then Some Level_Read else if c = 2 then Some Level_Write
     else if c = 3 then Some Level_Manage else None)"

lemma role_codes [simp]: "role_from_code (role_code r) = Some r"
  by (cases r) (simp_all add: role_from_code_def)

lemma level_codes [simp]: "level_from_code (level_code l) = Some l"
  by (cases l) (simp_all add: level_from_code_def)

lemma role_from_code_Some: "role_from_code c = Some r \<Longrightarrow> c = role_code r"
  by (auto simp: role_from_code_def split: if_splits)

lemma level_from_code_Some: "level_from_code c = Some l \<Longrightarrow> c = level_code l"
  by (auto simp: level_from_code_def split: if_splits)

text \<open>The derived order of the levels.\<close>

instantiation level :: linorder
begin

definition less_eq_level :: "level \<Rightarrow> level \<Rightarrow> bool" where
  "less_eq_level a b \<longleftrightarrow> level_code a \<le> level_code b"

definition less_level :: "level \<Rightarrow> level \<Rightarrow> bool" where
  "less_level a b \<longleftrightarrow> level_code a < level_code b"

instance
proof
  fix x y :: level
  show "x = y" if "x \<le> y" and "y \<le> x"
    using that by (cases x; cases y) (simp_all add: less_eq_level_def word_le_nat_alt)
qed (auto simp: less_eq_level_def less_level_def)

end

text \<open>A byte enum: the \<open>byte_enum!\<close> macro's encoding and decoding.\<close>

definition dec_byte_enum :: "(u8 \<Rightarrow> 'a option) \<Rightarrow> 'a decoder" where
  "dec_byte_enum from_code = rbind roffset (\<lambda>start. rbind ru8 (\<lambda>c.
     case from_code c of Some x \<Rightarrow> rret x | None \<Rightarrow> rfail (error_at UnknownValue start)))"

lemma wire_byte_enum:
  assumes "\<And>x. from_code (code x) = Some x" and "\<And>c x. from_code c = Some x \<Longrightarrow> c = code x"
  shows "wire (\<lambda>x. w_u8 (code x)) (dec_byte_enum from_code) (\<lambda>_. True) 1"
proof
  show "decodes (dec_byte_enum from_code) (w_u8 (code x)) x" for x
    unfolding dec_byte_enum_def
    by (rule decodes_offset, rule decodes_last [OF u8.decodes_enc]) (simp_all add: assms(1) decodes_ret)
  show "accepts (dec_byte_enum from_code) (\<lambda>x bs. True \<and> bs = w_u8 (code x))"
    unfolding dec_byte_enum_def
    by (rule accepts_offset, rule accepts_bind, rule u8.accepts_dec)
      (auto dest: assms(2) intro!: accepts_ret accepts_fail split: option.split)
qed (simp add: w_u8_def)

definition dec_role :: "role decoder" where
  "dec_role = dec_byte_enum role_from_code"

definition dec_level :: "level decoder" where
  "dec_level = dec_byte_enum level_from_code"

definition enc_role :: "role \<Rightarrow> byte list" where
  "enc_role r = w_u8 (role_code r)"

definition enc_level :: "level \<Rightarrow> byte list" where
  "enc_level l = w_u8 (level_code l)"

interpretation role: wire enc_role dec_role "\<lambda>_. True" 1
  unfolding enc_role_def dec_role_def by (rule wire_byte_enum) (simp_all add: role_from_code_Some)

interpretation level: wire enc_level dec_level "\<lambda>_. True" 1
  unfolding enc_level_def dec_level_def by (rule wire_byte_enum) (simp_all add: level_from_code_Some)

subsection \<open>Access lists\<close>

definition MAX_ACCESS :: nat where
  "MAX_ACCESS = 1024"

record access =
  access_account :: ident
  access_level :: level

definition enc_access :: "access \<Rightarrow> byte list" where
  "enc_access a = ident_bytes (access_account a) @ enc_level (access_level a)"

definition dec_access :: "access decoder" where
  "dec_access = rbind dec_ident (\<lambda>account. rbind dec_level (\<lambda>level.
     rret \<lparr>access_account = account, access_level = level\<rparr>))"

definition wf_access :: "access \<Rightarrow> bool" where
  "wf_access a \<longleftrightarrow> wf_ident (access_account a)"

interpretation access: wire enc_access dec_access wf_access 17
proof
  show "decodes dec_access (enc_access x) x" if "wf_access x" for x
    using that unfolding dec_access_def enc_access_def wf_access_def
    by (intro decodes_bind [OF ident.decodes_enc] decodes_last [OF level.decodes_enc] decodes_retI)
      simp_all
  show "accepts dec_access (\<lambda>x bs. wf_access x \<and> bs = enc_access x)"
    unfolding dec_access_def
    by (rule accepts_bind, rule ident.accepts_dec, rule accepts_bind, rule level.accepts_dec,
        rule accepts_ret) (simp add: wf_access_def enc_access_def)
qed (simp add: enc_access_def enc_level_def w_u8_def)

definition by_access_account :: "access \<Rightarrow> byte list" where
  "by_access_account a = ident_bytes (access_account a)"

definition dec_access_list :: "access list decoder" where
  "dec_access_list = dec_sorted by_access_account MAX_ACCESS 17 dec_access"

definition wf_access_list :: "access list \<Rightarrow> bool" where
  "wf_access_list as \<longleftrightarrow> wf_sorted by_access_account MAX_ACCESS wf_access as"

lemma seventeen_pos: "0 < (17::nat)"
  by simp

interpretation access_list: wire "encode_list enc_access" dec_access_list wf_access_list 4
  unfolding dec_access_list_def wf_access_list_def
  using wire_sorted [OF access.wire_axioms seventeen_pos, of by_access_account MAX_ACCESS]
  by (simp add: wf_access_list_def [abs_def])

subsection \<open>The change\<close>

datatype policy_kind =
    Policy_Genesis ident
  | Policy_AccountHeads
  | Policy_AddMember ident role ident
  | Policy_SetRole ident role
  | Policy_RemoveMember ident
  | Policy_CreateDomain ident ident "access list"
  | Policy_SetAccess ident "access list"
  | Policy_DeleteDomain ident
  | Policy_TransferOwner ident
  | Policy_AcceptReset ident

fun policy_code :: "policy_kind \<Rightarrow> u8" where
  "policy_code (Policy_Genesis _) = 1"
| "policy_code Policy_AccountHeads = 2"
| "policy_code (Policy_AddMember _ _ _) = 3"
| "policy_code (Policy_SetRole _ _) = 4"
| "policy_code (Policy_RemoveMember _) = 5"
| "policy_code (Policy_CreateDomain _ _ _) = 6"
| "policy_code (Policy_SetAccess _ _) = 7"
| "policy_code (Policy_DeleteDomain _) = 8"
| "policy_code (Policy_TransferOwner _) = 9"
| "policy_code (Policy_AcceptReset _) = 10"

fun policy_kind_name :: "policy_kind \<Rightarrow> string" where
  "policy_kind_name (Policy_Genesis _) = ''genesis''"
| "policy_kind_name Policy_AccountHeads = ''account_heads''"
| "policy_kind_name (Policy_AddMember _ _ _) = ''add_member''"
| "policy_kind_name (Policy_SetRole _ _) = ''set_role''"
| "policy_kind_name (Policy_RemoveMember _) = ''remove_member''"
| "policy_kind_name (Policy_CreateDomain _ _ _) = ''create_domain''"
| "policy_kind_name (Policy_SetAccess _ _) = ''set_access''"
| "policy_kind_name (Policy_DeleteDomain _) = ''delete_domain''"
| "policy_kind_name (Policy_TransferOwner _) = ''transfer_owner''"
| "policy_kind_name (Policy_AcceptReset _) = ''accept_reset''"

record policy_change =
  pol_workspace :: ident
  pol_revision :: u64
  pol_previous :: digest
  pol_signer :: ident
  pol_heads :: "account_head list"
  pol_kind :: policy_kind

fun enc_policy_kind :: "policy_kind \<Rightarrow> byte list" where
  "enc_policy_kind (Policy_Genesis d) = ident_bytes d"
| "enc_policy_kind Policy_AccountHeads = []"
| "enc_policy_kind (Policy_AddMember a r i) = ident_bytes a @ enc_role r @ ident_bytes i"
| "enc_policy_kind (Policy_SetRole a r) = ident_bytes a @ enc_role r"
| "enc_policy_kind (Policy_RemoveMember a) = ident_bytes a"
| "enc_policy_kind (Policy_CreateDomain d m access) =
     ident_bytes d @ ident_bytes m @ encode_list enc_access access"
| "enc_policy_kind (Policy_SetAccess d access) = ident_bytes d @ encode_list enc_access access"
| "enc_policy_kind (Policy_DeleteDomain d) = ident_bytes d"
| "enc_policy_kind (Policy_TransferOwner a) = ident_bytes a"
| "enc_policy_kind (Policy_AcceptReset a) = ident_bytes a"

definition enc_policy_change :: "policy_change \<Rightarrow> byte list" where
  "enc_policy_change c = tag_bytes Tag_Policy @ ident_bytes (pol_workspace c)
     @ w_u64 (pol_revision c) @ digest_bytes (pol_previous c) @ ident_bytes (pol_signer c)
     @ encode_list enc_account_head (pol_heads c) @ w_u8 (policy_code (pol_kind c))
     @ enc_policy_kind (pol_kind c)"

definition dec_heads :: "account_head list decoder" where
  "dec_heads = dec_sorted by_account_head UNBOUNDED 88 dec_account_head"

definition dec_policy_kind :: "nat \<Rightarrow> u8 \<Rightarrow> policy_kind decoder" where
  "dec_policy_kind kind_offset k =
     (if k = 1 then rbind dec_ident (\<lambda>d. rret (Policy_Genesis d))
      else if k = 2 then rret Policy_AccountHeads
      else if k = 3 then rbind dec_ident (\<lambda>a. rbind dec_role (\<lambda>r. rbind dec_ident (\<lambda>i.
        rret (Policy_AddMember a r i))))
      else if k = 4 then rbind dec_ident (\<lambda>a. rbind dec_role (\<lambda>r. rret (Policy_SetRole a r)))
      else if k = 5 then rbind dec_ident (\<lambda>a. rret (Policy_RemoveMember a))
      else if k = 6 then rbind dec_ident (\<lambda>d. rbind dec_ident (\<lambda>m. rbind dec_access_list (\<lambda>access.
        rret (Policy_CreateDomain d m access))))
      else if k = 7 then rbind dec_ident (\<lambda>d. rbind dec_access_list (\<lambda>access.
        rret (Policy_SetAccess d access)))
      else if k = 8 then rbind dec_ident (\<lambda>d. rret (Policy_DeleteDomain d))
      else if k = 9 then rbind dec_ident (\<lambda>a. rret (Policy_TransferOwner a))
      else if k = 10 then rbind dec_ident (\<lambda>a. rret (Policy_AcceptReset a))
      else rfail (error_at UnknownValue kind_offset))"

definition dec_policy_change :: "policy_change decoder" where
  "dec_policy_change =
     rbind (rtag Tag_Policy) (\<lambda>_. rbind dec_ident (\<lambda>workspace. rbind ru64 (\<lambda>revision.
     rbind dec_digest (\<lambda>previous. rbind dec_ident (\<lambda>signer. rbind dec_heads (\<lambda>heads.
     rbind roffset (\<lambda>kind_offset. rbind ru8 (\<lambda>k. rbind (dec_policy_kind kind_offset k) (\<lambda>kind.
     rret \<lparr>pol_workspace = workspace, pol_revision = revision, pol_previous = previous,
           pol_signer = signer, pol_heads = heads, pol_kind = kind\<rparr>)))))))))"

fun wf_policy_kind :: "policy_kind \<Rightarrow> bool" where
  "wf_policy_kind (Policy_Genesis d) \<longleftrightarrow> wf_ident d"
| "wf_policy_kind Policy_AccountHeads \<longleftrightarrow> True"
| "wf_policy_kind (Policy_AddMember a r i) \<longleftrightarrow> wf_ident a \<and> wf_ident i"
| "wf_policy_kind (Policy_SetRole a r) \<longleftrightarrow> wf_ident a"
| "wf_policy_kind (Policy_RemoveMember a) \<longleftrightarrow> wf_ident a"
| "wf_policy_kind (Policy_CreateDomain d m access) \<longleftrightarrow> wf_ident d \<and> wf_ident m \<and> wf_access_list access"
| "wf_policy_kind (Policy_SetAccess d access) \<longleftrightarrow> wf_ident d \<and> wf_access_list access"
| "wf_policy_kind (Policy_DeleteDomain d) \<longleftrightarrow> wf_ident d"
| "wf_policy_kind (Policy_TransferOwner a) \<longleftrightarrow> wf_ident a"
| "wf_policy_kind (Policy_AcceptReset a) \<longleftrightarrow> wf_ident a"

definition wf_heads :: "account_head list \<Rightarrow> bool" where
  "wf_heads hs \<longleftrightarrow> wf_sorted by_account_head UNBOUNDED wf_account_head hs"

definition wf_policy_change :: "policy_change \<Rightarrow> bool" where
  "wf_policy_change c \<longleftrightarrow> wf_ident (pol_workspace c) \<and> wf_ident (pol_signer c)
     \<and> wf_heads (pol_heads c) \<and> wf_policy_kind (pol_kind c)"

definition policy_change_MIN_SIZE :: nat where
  "policy_change_MIN_SIZE = encoded_len Tag_Policy + 16 + 8 + 32 + 16 + 4 + 1"

lemma eightyeight_pos: "0 < (88::nat)"
  by simp

interpretation heads: wire "encode_list enc_account_head" dec_heads wf_heads 4
  unfolding dec_heads_def
  using wire_sorted [OF account_head.wire_axioms eightyeight_pos, of by_account_head UNBOUNDED]
  by (simp add: wf_heads_def [abs_def])

lemma decodes_policy_kind:
  assumes "wf_policy_kind k"
  shows "decodes (dec_policy_kind off (policy_code k)) (enc_policy_kind k) k"
  using assms
  by (cases k) (auto simp: dec_policy_kind_def decodes_ret
      intro!: decodes_bind [OF ident.decodes_enc] decodes_last [OF ident.decodes_enc]
        decodes_bind [OF role.decodes_enc] decodes_last [OF role.decodes_enc]
        decodes_last [OF access_list.decodes_enc])

lemma accepts_policy_kind:
  "accepts (dec_policy_kind off k)
     (\<lambda>x bs. wf_policy_kind x \<and> policy_code x = k \<and> bs = enc_policy_kind x)"
  unfolding dec_policy_kind_def
  by (intro accepts_if accepts_fail accepts_bind [OF ident.accepts_dec]
      accepts_bind [OF role.accepts_dec] accepts_bind [OF access_list.accepts_dec]
      accepts_ret) simp_all

interpretation policy_change: wire enc_policy_change dec_policy_change wf_policy_change
  policy_change_MIN_SIZE
proof
  show "decodes dec_policy_change (enc_policy_change x) x" if "wf_policy_change x" for x
    using that unfolding dec_policy_change_def enc_policy_change_def wf_policy_change_def
    by (intro decodes_bind [OF decodes_tag] decodes_bind [OF ident.decodes_enc] decodes_offset
        decodes_bind [OF u64.decodes_enc] decodes_bind [OF digest.decodes_enc]
        decodes_bind [OF heads.decodes_enc] decodes_bind [OF u8.decodes_enc]
        decodes_last [OF decodes_policy_kind] decodes_retI) simp_all
  show "accepts dec_policy_change (\<lambda>x bs. wf_policy_change x \<and> bs = enc_policy_change x)"
    unfolding dec_policy_change_def
    by (rule accepts_bind, rule accepts_tag, rule accepts_bind, rule ident.accepts_dec,
        rule accepts_bind, rule u64.accepts_dec, rule accepts_bind, rule digest.accepts_dec,
        rule accepts_bind, rule ident.accepts_dec, rule accepts_bind, rule heads.accepts_dec,
        rule accepts_offset, rule accepts_bind, rule u8.accepts_dec, rule accepts_bind,
        rule accepts_policy_kind, rule accepts_ret)
      (auto simp: wf_policy_change_def enc_policy_change_def)
  show "policy_change_MIN_SIZE \<le> length (enc_policy_change x)" if "wf_policy_change x" for x
    by (simp add: enc_policy_change_def policy_change_MIN_SIZE_def encode_list_def w_u64_def
        w_u32_def w_u8_def)
qed

lemmas signed_change_wire = wire_signed [OF policy_change.wire_axioms]

abbreviation signed_change_digest :: "crypto \<Rightarrow> policy_change signed \<Rightarrow> digest" where
  "signed_change_digest cr \<equiv> signed_digest cr enc_policy_change"

text \<open>
  A byte string decodes to a signed policy change exactly when it is the encoding of that
  change, and then the change satisfies every limit of the format.
\<close>

theorem signed_change_codec:
  "from_bytes (dec_signed dec_policy_change) bs = Inr c \<longleftrightarrow>
     wf_signed wf_policy_change c \<and> bs = enc_signed enc_policy_change c"
  by (rule wire.from_bytes_iff [OF signed_change_wire])

end
