(* ===== verification/Policy.thy ===== *)
theory Policy
  imports Records_Policy Account_History
begin

text \<open>
  Policy verification (\<^verbatim>\<open>policy.rs\<close>, \<section>8): the state after each revision, the rules a change
  must follow, and the queries that judge devices by the policy at a revision. A change is
  checked against the state before it and the verified account chains; taking it appends the
  change and the state it produces.
\<close>

subsection \<open>State\<close>

definition MAX_READERS :: nat where
  "MAX_READERS = 512"

definition MAX_DOMAINS :: nat where
  "MAX_DOMAINS = 256"

type_synonym account_chains = "(ident \<times> digest, account_chain) btree"

definition chains_insert :: "account_chain \<Rightarrow> account_chains \<Rightarrow> account_chains" where
  "chains_insert c acs = bt_insert (ac_account c, chain_genesis c) c acs"

definition chains_get :: "account_chains \<Rightarrow> ident \<Rightarrow> digest \<Rightarrow> account_chain option" where
  "chains_get acs account genesis = bt_get acs (account, genesis)"

definition chain_of :: "account_chains \<Rightarrow> account_head \<Rightarrow> account_chain option" where
  "chain_of acs h =
     (case chains_get acs (ah_account h) (ah_genesis h) of
        None \<Rightarrow> None | Some c \<Rightarrow> if chain_contains c h then Some c else None)"

record member =
  mem_role :: role
  mem_head :: account_head
  recorded_by_own :: bool

record domain_state =
  dom_restricted :: bool
  dom_marker_rid :: "ident option"
  dom_access :: "(ident, level) btree"
  dom_created_at :: u64
  dom_creator :: ident

record workspace_device =
  wd_account :: ident
  wd_card :: card
  wd_recovery :: bool

record snapshot =
  sn_revision :: u64
  sn_digest :: digest
  sn_signer :: ident
  sn_workspace_domain :: ident
  sn_members :: "(ident, member) btree"
  sn_former :: "(ident, account_head) btree"
  sn_domains :: "(ident, domain_state) btree"
  sn_used_domains :: "ident set"
  sn_devices :: "(ident, workspace_device) btree"
  sn_card_indices :: "(ident, u32) btree"
  sn_card_chains :: "(ident, ident \<times> digest) btree"
  sn_gone :: "ident set"
  sn_own_heads :: "(ident \<times> digest) set"
  sn_rotations :: "ident set"
  sn_new_readers :: "(ident, ident set) btree"

subsection \<open>Queries of a snapshot\<close>

definition sn_owner :: "snapshot \<Rightarrow> ident option" where
  "sn_owner s = map_option fst (find (\<lambda>(_, m). mem_role m = Owner) (bt_entries (sn_members s)))"

definition role_of :: "snapshot \<Rightarrow> ident \<Rightarrow> role option" where
  "role_of s account = map_option mem_role (bt_get (sn_members s) account)"

definition account_of :: "snapshot \<Rightarrow> ident \<Rightarrow> ident option" where
  "account_of s device = map_option wd_account (bt_get (sn_devices s) device)"

definition is_device :: "snapshot \<Rightarrow> ident \<Rightarrow> bool" where
  "is_device s device \<longleftrightarrow> bt_contains (sn_devices s) device"

definition account_level :: "snapshot \<Rightarrow> ident \<Rightarrow> ident \<Rightarrow> level option" where
  "account_level s account d =
     (case bt_get (sn_domains s) d of
        None \<Rightarrow> None
      | Some ds \<Rightarrow>
          if dom_restricted ds then bt_get (dom_access ds) account
          else (case role_of s account of
              None \<Rightarrow> None
            | Some Owner \<Rightarrow> Some Level_Write
            | Some Admin \<Rightarrow> Some Level_Write
            | Some Editor \<Rightarrow> Some Level_Write
            | Some Viewer \<Rightarrow> Some Level_Read))"

definition device_level :: "snapshot \<Rightarrow> ident \<Rightarrow> ident \<Rightarrow> level option" where
  "device_level s device d =
     (case account_of s device of None \<Rightarrow> None | Some a \<Rightarrow> account_level s a d)"

definition can_read :: "snapshot \<Rightarrow> ident \<Rightarrow> ident \<Rightarrow> bool" where
  "can_read s device d \<longleftrightarrow> device_level s device d \<noteq> None"

definition signs :: "snapshot \<Rightarrow> ident \<Rightarrow> bool" where
  "signs s device \<longleftrightarrow>
     (case bt_get (sn_devices s) device of None \<Rightarrow> False | Some wd \<Rightarrow> \<not> wd_recovery wd)"

definition can_write :: "snapshot \<Rightarrow> ident \<Rightarrow> ident \<Rightarrow> bool" where
  "can_write s device d \<longleftrightarrow> signs s device
     \<and> (case device_level s device d of None \<Rightarrow> False | Some l \<Rightarrow> l \<ge> Level_Write)"

definition can_wrap :: "snapshot \<Rightarrow> ident \<Rightarrow> ident \<Rightarrow> bool" where
  "can_wrap s device d \<longleftrightarrow> signs s device \<and> can_read s device d"

definition readers :: "snapshot \<Rightarrow> ident \<Rightarrow> ident set" where
  "readers s d = set (filter (\<lambda>device. can_read s device d) (bt_keys (sn_devices s)))"

definition manages :: "snapshot \<Rightarrow> ident \<Rightarrow> ident \<Rightarrow> bool" where
  "manages s account d \<longleftrightarrow>
     (case bt_get (sn_domains s) d of None \<Rightarrow> False
      | Some ds \<Rightarrow> dom_restricted ds \<and> bt_get (dom_access ds) account = Some Level_Manage)"

definition head_fits :: "snapshot \<Rightarrow> account_chain \<Rightarrow> u64 \<Rightarrow> bool" where
  "head_fits s chain seqno =
     (let account = ac_account chain; cards = length (active_states chain seqno) in
      list_all (\<lambda>d. account_level s account d = None
          \<or> card (Set.filter (\<lambda>device. account_of s device \<noteq> Some account) (readers s d)) + cards
            \<le> MAX_READERS)
        (bt_keys (sn_domains s)))"

subsection \<open>Errors\<close>

datatype policy_error =
    Pol_Workspace u64 | Pol_Revision u64 | Pol_Previous u64 | Pol_GenesisPosition u64
  | Pol_UnknownHead u64 | Pol_HeadBehind u64 | Pol_SignerNotInHeads u64 | Pol_ForeignHead u64
  | Pol_Signature u64 | Pol_RecoverySigner u64 | Pol_Unauthorized u64 | Pol_NothingNew u64
  | Pol_InvalidTarget u64 | Pol_SignerAhead u64 | Pol_DeviceUnderTwoAccounts u64
  | Pol_RecipientLimit u64 | Pol_DomainLimit u64

fun policy_server_code :: "policy_error \<Rightarrow> string" where
  "policy_server_code (Pol_Revision _) = ''policy_conflict''"
| "policy_server_code (Pol_Previous _) = ''policy_conflict''"
| "policy_server_code (Pol_UnknownHead _) = ''account_conflict''"
| "policy_server_code (Pol_HeadBehind _) = ''account_conflict''"
| "policy_server_code (Pol_Signature _) = ''signature_invalid''"
| "policy_server_code (Pol_DeviceUnderTwoAccounts _) = ''id_conflict''"
| "policy_server_code (Pol_RecipientLimit _) = ''recipient_limit''"
| "policy_server_code (Pol_DomainLimit _) = ''domain_limit''"
| "policy_server_code _ = ''forbidden''"

fun policy_client_code :: "policy_error \<Rightarrow> string" where
  "policy_client_code (Pol_Revision _) = ''sync_policy_forked''"
| "policy_client_code (Pol_Previous _) = ''sync_policy_forked''"
| "policy_client_code (Pol_UnknownHead _) = ''sync_account_forked''"
| "policy_client_code (Pol_HeadBehind _) = ''sync_account_forked''"
| "policy_client_code _ = ''sync_policy_unauthorized''"

subsection \<open>The state after a change\<close>

definition check_signer ::
  "crypto \<Rightarrow> policy_change signed \<Rightarrow> account_chain \<Rightarrow> account_head \<Rightarrow> policy_error + unit" where
  "check_signer cr change chain h =
     (let revision = pol_revision (body change) in
      case bt_get (ac_cards chain) (pol_signer (body change)) of
        None \<Rightarrow> Inl (Pol_SignerNotInHeads revision)
      | Some state \<Rightarrow>
          if \<not> cs_active_at state (ah_seqno h) then Inl (Pol_SignerNotInHeads revision)
          else if cs_recovery state then Inl (Pol_RecoverySigner revision)
          else map_err (\<lambda>_. Pol_Signature revision)
            (signed_verify cr enc_policy_change change (signing_public (cs_card state))))"

definition next_card_index :: "u32 \<Rightarrow> u32 option" where
  "next_card_index highest = (if highest < MAX_CARD_INDEX then Some (highest + 1) else None)"

definition drop_grants :: "ident \<Rightarrow> snapshot \<Rightarrow> snapshot" where
  "drop_grants account s = s\<lparr>sn_domains :=
     bt_map (\<lambda>_ ds. ds\<lparr>dom_access := bt_remove account (dom_access ds)\<rparr>) (sn_domains s)\<rparr>"

text \<open>Whether a head retires a card of the head's account for good.\<close>

definition retires :: "account_chains \<Rightarrow> account_head \<Rightarrow> ident \<Rightarrow> digest \<Rightarrow> bool" where
  "retires acs h device genesis \<longleftrightarrow> genesis \<noteq> ah_genesis h
     \<or> (case chain_of acs h of None \<Rightarrow> False | Some c \<Rightarrow>
          (case bt_get (ac_cards c) device of None \<Rightarrow> False | Some s \<Rightarrow>
            (case cs_removed_at s of None \<Rightarrow> False | Some r \<Rightarrow> r \<le> ah_seqno h)))"

definition gone_step :: "account_chains \<Rightarrow> account_head \<Rightarrow> snapshot \<Rightarrow> snapshot" where
  "gone_step acs h s = s\<lparr>sn_gone := sn_gone s \<union> set (map fst (filter
     (\<lambda>(device, account, genesis). account = ah_account h \<and> device \<notin> sn_gone s
        \<and> retires acs h device genesis)
     (bt_entries (sn_card_chains s))))\<rparr>"

definition record_gone :: "account_chains \<Rightarrow> account_head list \<Rightarrow> snapshot \<Rightarrow> snapshot" where
  "record_gone acs hs s = fold (gone_step acs) hs s"

text \<open>The accumulator of the loop over members: devices, new cards and card acs.\<close>

type_synonym collected =
  "(ident, workspace_device) btree \<times> (ident \<times> u64 \<times> ident) list \<times> (ident, ident \<times> digest) btree"

definition collect_card ::
  "(ident, u32) btree \<Rightarrow> u64 \<Rightarrow> ident \<Rightarrow> member \<Rightarrow> collected \<Rightarrow> card_state
   \<Rightarrow> policy_error + collected" where
  "collect_card indices revision account m acc state =
     (let (devices, new_cards, card_chains) = acc;
          device = card_device (cs_card state)
      in if bt_contains devices device then Inl (Pol_DeviceUnderTwoAccounts revision)
         else Inr
           (bt_insert device \<lparr>wd_account = account, wd_card = cs_card state,
                wd_recovery = cs_recovery state\<rparr> devices,
            (if bt_contains indices device then new_cards
             else new_cards @ [(account, cs_added_at state, device)]),
            (if bt_contains card_chains device then card_chains
             else bt_insert device (account, ah_genesis (mem_head m)) card_chains)))"

definition collect_member ::
  "account_chains \<Rightarrow> (ident, u32) btree \<Rightarrow> u64 \<Rightarrow> collected \<Rightarrow> ident \<times> member
   \<Rightarrow> policy_error + collected" where
  "collect_member acs indices revision acc am =
     (let (account, m) = am in
      case chain_of acs (mem_head m) of
        None \<Rightarrow> Inl (Pol_UnknownHead revision)
      | Some chain \<Rightarrow> try_fold (collect_card indices revision account m) acc
          (active_states chain (ah_seqno (mem_head m))))"

definition assign_index ::
  "u64 \<Rightarrow> u32 \<times> (ident, u32) btree \<Rightarrow> ident \<times> u64 \<times> ident \<Rightarrow> policy_error + u32 \<times> (ident, u32) btree"
where
  "assign_index revision acc new_card =
     (let (index, indices) = acc; (_, _, device) = new_card in
      and_then (ok_or (next_card_index index) (Pol_RecipientLimit revision)) (\<lambda>index.
        Inr (index, bt_insert device index indices)))"

definition highest_index :: "(ident, u32) btree \<Rightarrow> u32" where
  "highest_index indices = fold max (bt_values indices) 0"

definition finish_domain :: "snapshot \<Rightarrow> u64 \<Rightarrow> snapshot \<Rightarrow> ident \<Rightarrow> policy_error + snapshot" where
  "finish_domain prev revision s d =
     (let after = readers s d in
      if card after > MAX_READERS then Inl (Pol_RecipientLimit revision)
      else if bt_contains (sn_domains prev) d
      then let before = readers prev d;
               s = (if before - after \<noteq> {} then s\<lparr>sn_rotations := insert d (sn_rotations s)\<rparr> else s);
               added = after - before
           in Inr (if added \<noteq> {} then s\<lparr>sn_new_readers := bt_insert d added (sn_new_readers s)\<rparr> else s)
      else Inr (s\<lparr>sn_new_readers := bt_insert d after (sn_new_readers s)\<rparr>))"

definition finish_snapshot ::
  "snapshot \<Rightarrow> snapshot \<Rightarrow> account_chains \<Rightarrow> u64 \<Rightarrow> policy_error + snapshot" where
  "finish_snapshot s prev acs revision =
     and_then (try_fold (collect_member acs (sn_card_indices s) revision)
         (bt_empty, [], sn_card_chains s) (bt_entries (sn_members s)))
       (\<lambda>(devices, new_cards, card_chains).
     and_then (try_fold (assign_index revision)
         (highest_index (sn_card_indices s), sn_card_indices s) (sort new_cards))
       (\<lambda>(_, indices).
     try_fold (finish_domain prev revision)
       (s\<lparr>sn_devices := devices, sn_card_indices := indices, sn_card_chains := card_chains\<rparr>)
       (bt_keys (sn_domains s))))"

subsection \<open>The rules of a change\<close>

text \<open>The account an \<open>add_member\<close> or \<open>accept_reset\<close> names.\<close>

fun named_new :: "policy_kind \<Rightarrow> ident option" where
  "named_new (Policy_AddMember account _ _) = Some account"
| "named_new (Policy_AcceptReset account) = Some account"
| "named_new _ = None"

definition head_allowed :: "snapshot \<Rightarrow> policy_kind \<Rightarrow> ident \<Rightarrow> account_head \<Rightarrow> bool" where
  "head_allowed prev kind signer_account h \<longleftrightarrow>
     ah_account h = signer_account \<or> Some (ah_account h) = named_new kind
     \<or> kind = Policy_AccountHeads \<and> bt_contains (sn_members prev) (ah_account h)"

definition head_behind :: "snapshot \<Rightarrow> policy_kind \<Rightarrow> account_head \<Rightarrow> bool" where
  "head_behind prev kind h =
     (let reset = (kind = Policy_AcceptReset (ah_account h)) in
      case bt_get (sn_members prev) (ah_account h) of
        Some m \<Rightarrow>
          if ah_genesis h = ah_genesis (mem_head m)
          then reset \<or> ah_seqno h < ah_seqno (mem_head m)
          else \<not> reset
      | None \<Rightarrow> (case bt_get (sn_former prev) (ah_account h) of
            Some f \<Rightarrow> ah_genesis h = ah_genesis f \<and> ah_seqno h < ah_seqno f
          | None \<Rightarrow> False))"

definition heads_rules ::
  "snapshot \<Rightarrow> policy_change \<Rightarrow> ident \<Rightarrow> account_head \<Rightarrow> policy_error + unit" where
  "heads_rules prev b signer_account signer_head =
     (let revision = pol_revision b; kind = pol_kind b in
      and_then (ensure (list_all (head_allowed prev kind signer_account) (pol_heads b))
        (Pol_ForeignHead revision)) (\<lambda>_.
      and_then (case named_new kind of
          None \<Rightarrow> Inr ()
        | Some account \<Rightarrow>
            if account = signer_account then Inl (Pol_Unauthorized revision)
            else if \<not> list_ex (\<lambda>h. ah_account h = account) (pol_heads b)
            then Inl (Pol_ForeignHead revision)
            else if (case bt_get (sn_members prev) signer_account of
                None \<Rightarrow> False | Some m \<Rightarrow> mem_head m \<noteq> signer_head)
            then Inl (Pol_SignerAhead revision) else Inr ()) (\<lambda>_.
      ensure (\<not> list_ex (head_behind prev kind) (pol_heads b)) (Pol_HeadBehind revision))))"

definition is_admin :: "role \<Rightarrow> bool" where
  "is_admin r \<longleftrightarrow> r = Owner \<or> r = Admin"

definition below_admin :: "role \<Rightarrow> bool" where
  "below_admin r \<longleftrightarrow> r = Editor \<or> r = Viewer"

definition set_member_role :: "ident \<Rightarrow> role \<Rightarrow> snapshot \<Rightarrow> snapshot" where
  "set_member_role account r s = s\<lparr>sn_members := bt_adjust account (\<lambda>m. m\<lparr>mem_role := r\<rparr>) (sn_members s)\<rparr>"

definition access_map :: "access list \<Rightarrow> (ident, level) btree" where
  "access_map as = bt_collect (map (\<lambda>a. (access_account a, access_level a)) as)"

text \<open>One arm of the \<open>match\<close> on the kind per definition.\<close>

definition apply_account_heads ::
  "snapshot \<Rightarrow> policy_change \<Rightarrow> ident \<Rightarrow> account_head \<Rightarrow> snapshot \<Rightarrow> policy_error + snapshot" where
  "apply_account_heads prev b signer_account signer_head s =
     (let later = list_ex (\<lambda>h. case bt_get (sn_members prev) (ah_account h) of None \<Rightarrow> False
            | Some m \<Rightarrow> ah_genesis h = ah_genesis (mem_head m) \<and> ah_seqno h > ah_seqno (mem_head m))
          (pol_heads b);
          repeat = (case bt_get (sn_members prev) signer_account of None \<Rightarrow> False
            | Some own \<Rightarrow> length (pol_heads b) = 1 \<and> signer_head = mem_head own
                \<and> \<not> recorded_by_own own)
      in if later \<or> repeat then Inr s else Inl (Pol_NothingNew (pol_revision b)))"

definition apply_add_member ::
  "snapshot \<Rightarrow> policy_change \<Rightarrow> role \<Rightarrow> ident \<Rightarrow> role \<Rightarrow> snapshot \<Rightarrow> policy_error + snapshot" where
  "apply_add_member prev b signer_role account r s =
     (if bt_contains (sn_members prev) account then Inl (Pol_InvalidTarget (pol_revision b))
      else if \<not> (case signer_role of Owner \<Rightarrow> r \<noteq> Owner | Admin \<Rightarrow> below_admin r | _ \<Rightarrow> False)
      then Inl (Pol_Unauthorized (pol_revision b))
      else let h = the (find (\<lambda>h. ah_account h = account) (pol_heads b)) in
        Inr (s\<lparr>sn_former := bt_remove account (sn_former s),
               sn_members := bt_insert account \<lparr>mem_role = r, mem_head = h,
                 recorded_by_own = (account, ah_head h) \<in> sn_own_heads prev\<rparr> (sn_members s)\<rparr>))"

definition apply_set_role ::
  "snapshot \<Rightarrow> policy_change \<Rightarrow> role \<Rightarrow> ident \<Rightarrow> role \<Rightarrow> snapshot \<Rightarrow> policy_error + snapshot" where
  "apply_set_role prev b signer_role account r s =
     (case role_of prev account of
        None \<Rightarrow> Inl (Pol_InvalidTarget (pol_revision b))
      | Some current \<Rightarrow>
          if current = Owner \<or> r = Owner then Inl (Pol_InvalidTarget (pol_revision b))
          else if \<not> (case signer_role of Owner \<Rightarrow> True
              | Admin \<Rightarrow> below_admin current \<and> below_admin r | _ \<Rightarrow> False)
          then Inl (Pol_Unauthorized (pol_revision b))
          else Inr (set_member_role account r s))"

definition apply_remove_member ::
  "snapshot \<Rightarrow> policy_change \<Rightarrow> ident \<Rightarrow> role \<Rightarrow> ident \<Rightarrow> snapshot \<Rightarrow> policy_error + snapshot" where
  "apply_remove_member prev b signer_account signer_role account s =
     (case role_of prev account of
        None \<Rightarrow> Inl (Pol_InvalidTarget (pol_revision b))
      | Some current \<Rightarrow>
          if current = Owner then Inl (Pol_InvalidTarget (pol_revision b))
          else if \<not> (account = signer_account \<or> signer_role = Owner
              \<or> signer_role = Admin \<and> below_admin current)
          then Inl (Pol_Unauthorized (pol_revision b))
          else (case bt_get (sn_members s) account of
              None \<Rightarrow> Inr s
            | Some m \<Rightarrow> Inr (drop_grants account
                (s\<lparr>sn_members := bt_remove account (sn_members s),
                   sn_former := bt_insert account (mem_head m) (sn_former s)\<rparr>))))"

definition apply_create_domain ::
  "snapshot \<Rightarrow> policy_change \<Rightarrow> ident \<Rightarrow> role \<Rightarrow> ident \<Rightarrow> ident \<Rightarrow> access list \<Rightarrow> snapshot
   \<Rightarrow> policy_error + snapshot" where
  "apply_create_domain prev b signer_account signer_role d marker access_list s =
     (let access = access_map access_list in
      if \<not> is_admin signer_role then Inl (Pol_Unauthorized (pol_revision b))
      else if d \<in> sn_used_domains s then Inl (Pol_InvalidTarget (pol_revision b))
      else if bt_get access signer_account \<noteq> Some Level_Manage
        \<or> \<not> list_all (bt_contains (sn_members prev)) (bt_keys access)
      then Inl (Pol_InvalidTarget (pol_revision b))
      else if bt_len (sn_domains s) \<ge> MAX_DOMAINS then Inl (Pol_DomainLimit (pol_revision b))
      else Inr (s\<lparr>sn_used_domains := insert d (sn_used_domains s),
          sn_domains := bt_insert d \<lparr>dom_restricted = True, dom_marker_rid = Some marker,
            dom_access = access, dom_created_at = pol_revision b, dom_creator = pol_signer b\<rparr>
            (sn_domains s)\<rparr>))"

definition apply_set_access ::
  "snapshot \<Rightarrow> policy_change \<Rightarrow> ident \<Rightarrow> role \<Rightarrow> ident \<Rightarrow> access list \<Rightarrow> snapshot
   \<Rightarrow> policy_error + snapshot" where
  "apply_set_access prev b signer_account signer_role d access_list s =
     (let access = access_map access_list in
      case bt_get (sn_domains prev) d of
        None \<Rightarrow> Inl (Pol_InvalidTarget (pol_revision b))
      | Some current \<Rightarrow>
          if \<not> dom_restricted current then Inl (Pol_InvalidTarget (pol_revision b))
          else if \<not> list_all (bt_contains (sn_members prev)) (bt_keys access)
          then Inl (Pol_InvalidTarget (pol_revision b))
          else let only_removes = list_all (\<lambda>(account, level).
                  bt_get (dom_access current) account = Some level) (bt_entries access)
            in if manages prev signer_account d \<or> is_admin signer_role \<and> only_removes
               then Inr (s\<lparr>sn_domains := bt_adjust d (\<lambda>ds. ds\<lparr>dom_access := access\<rparr>) (sn_domains s)\<rparr>)
               else Inl (Pol_Unauthorized (pol_revision b)))"

definition apply_delete_domain ::
  "snapshot \<Rightarrow> policy_change \<Rightarrow> ident \<Rightarrow> role \<Rightarrow> ident \<Rightarrow> snapshot \<Rightarrow> policy_error + snapshot" where
  "apply_delete_domain prev b signer_account signer_role d s =
     (if \<not> (case bt_get (sn_domains prev) d of None \<Rightarrow> False | Some ds \<Rightarrow> dom_restricted ds)
      then Inl (Pol_InvalidTarget (pol_revision b))
      else if \<not> is_admin signer_role \<and> \<not> manages prev signer_account d
      then Inl (Pol_Unauthorized (pol_revision b))
      else Inr (s\<lparr>sn_domains := bt_remove d (sn_domains s)\<rparr>))"

definition apply_transfer_owner ::
  "snapshot \<Rightarrow> policy_change \<Rightarrow> ident \<Rightarrow> role \<Rightarrow> ident \<Rightarrow> snapshot \<Rightarrow> policy_error + snapshot" where
  "apply_transfer_owner prev b signer_account signer_role account s =
     (if signer_role \<noteq> Owner then Inl (Pol_Unauthorized (pol_revision b))
      else if account = signer_account \<or> \<not> bt_contains (sn_members prev) account
      then Inl (Pol_InvalidTarget (pol_revision b))
      else Inr (set_member_role account Owner (set_member_role signer_account Admin s)))"

definition apply_accept_reset ::
  "snapshot \<Rightarrow> policy_change \<Rightarrow> role \<Rightarrow> ident \<Rightarrow> snapshot \<Rightarrow> policy_error + snapshot" where
  "apply_accept_reset prev b signer_role account s =
     (if \<not> is_admin signer_role then Inl (Pol_Unauthorized (pol_revision b))
      else if \<not> bt_contains (sn_members prev) account then Inl (Pol_InvalidTarget (pol_revision b))
      else Inr (drop_grants account s))"

definition apply_policy_kind ::
  "snapshot \<Rightarrow> policy_change \<Rightarrow> ident \<Rightarrow> role \<Rightarrow> account_head \<Rightarrow> snapshot \<Rightarrow> policy_error + snapshot" where
  "apply_policy_kind prev b signer_account signer_role signer_head s =
     (case pol_kind b of
        Policy_Genesis _ \<Rightarrow> Inl (Pol_GenesisPosition (pol_revision b))
      | Policy_AccountHeads \<Rightarrow> apply_account_heads prev b signer_account signer_head s
      | Policy_AddMember account r _ \<Rightarrow> apply_add_member prev b signer_role account r s
      | Policy_SetRole account r \<Rightarrow> apply_set_role prev b signer_role account r s
      | Policy_RemoveMember account \<Rightarrow>
          apply_remove_member prev b signer_account signer_role account s
      | Policy_CreateDomain d marker access \<Rightarrow>
          apply_create_domain prev b signer_account signer_role d marker access s
      | Policy_SetAccess d access \<Rightarrow> apply_set_access prev b signer_account signer_role d access s
      | Policy_DeleteDomain d \<Rightarrow> apply_delete_domain prev b signer_account signer_role d s
      | Policy_TransferOwner account \<Rightarrow>
          apply_transfer_owner prev b signer_account signer_role account s
      | Policy_AcceptReset account \<Rightarrow> apply_accept_reset prev b signer_role account s)"

text \<open>Recording one head of the change.\<close>

definition record_head :: "snapshot \<Rightarrow> ident \<Rightarrow> account_head \<Rightarrow> snapshot \<Rightarrow> snapshot" where
  "record_head prev signer_account h s =
     (case bt_get (sn_members s) (ah_account h) of
        None \<Rightarrow> s
      | Some m \<Rightarrow>
          let m = (if mem_head m \<noteq> h
                   then m\<lparr>mem_head := h,
                     recorded_by_own := (ah_account h, ah_head h) \<in> sn_own_heads prev\<rparr>
                   else m)
          in if ah_account h = signer_account
             then s\<lparr>sn_members := bt_insert (ah_account h) (m\<lparr>recorded_by_own := True\<rparr>) (sn_members s),
                    sn_own_heads := insert (ah_account h, ah_head h) (sn_own_heads s)\<rparr>
             else s\<lparr>sn_members := bt_insert (ah_account h) m (sn_members s)\<rparr>)"

definition record_heads :: "snapshot \<Rightarrow> ident \<Rightarrow> account_head list \<Rightarrow> snapshot \<Rightarrow> snapshot" where
  "record_heads prev signer_account hs s = fold (record_head prev signer_account) hs s"

record policy_chain =
  pc_workspace :: ident
  pc_changes :: "policy_change signed list"
  pc_snapshots :: "snapshot list"

definition head_snapshot :: "policy_chain \<Rightarrow> snapshot" where
  "head_snapshot p = last (pc_snapshots p)"

definition start_next :: "crypto \<Rightarrow> snapshot \<Rightarrow> policy_change signed \<Rightarrow> snapshot" where
  "start_next cr prev change = prev\<lparr>sn_revision := pol_revision (body change),
     sn_digest := signed_change_digest cr change, sn_signer := pol_signer (body change),
     sn_rotations := {}, sn_new_readers := bt_empty\<rparr>"

definition check_change ::
  "crypto \<Rightarrow> policy_chain \<Rightarrow> policy_change signed \<Rightarrow> account_chains \<Rightarrow> policy_error + snapshot" where
  "check_change cr p change acs =
     (let prev = head_snapshot p; b = body change; revision = pol_revision b in
      if pol_workspace b \<noteq> pc_workspace p then Inl (Pol_Workspace revision)
      else if revision \<noteq> sn_revision prev + 1 then Inl (Pol_Revision revision)
      else if pol_previous b \<noteq> sn_digest prev then Inl (Pol_Previous revision)
      else if (case pol_kind b of Policy_Genesis _ \<Rightarrow> True | _ \<Rightarrow> False)
      then Inl (Pol_GenesisPosition revision)
      else if list_ex (\<lambda>h. chain_of acs h = None) (pol_heads b)
      then Inl (Pol_UnknownHead revision)
      else case find (\<lambda>h. case chain_of acs h of None \<Rightarrow> False
            | Some c \<Rightarrow> is_active_at c (pol_signer b) (ah_seqno h)) (pol_heads b) of
        None \<Rightarrow> Inl (Pol_SignerNotInHeads revision)
      | Some signer_head \<Rightarrow>
          let signer_account = ah_account signer_head in
          and_then (check_signer cr change (the (chain_of acs signer_head)) signer_head) (\<lambda>_.
          and_then (ok_or (role_of prev signer_account) (Pol_Unauthorized revision)) (\<lambda>signer_role.
          and_then (heads_rules prev b signer_account signer_head) (\<lambda>_.
          and_then (apply_policy_kind prev b signer_account signer_role signer_head
              (start_next cr prev change)) (\<lambda>s.
          finish_snapshot
            (record_gone acs (pol_heads b) (record_heads prev signer_account (pol_heads b) s))
            prev acs revision)))))"

definition append_change ::
  "crypto \<Rightarrow> policy_chain \<Rightarrow> policy_change signed \<Rightarrow> account_chains \<Rightarrow> policy_error + policy_chain" where
  "append_change cr p change acs =
     and_then (check_change cr p change acs) (\<lambda>s.
       Inr (p\<lparr>pc_changes := pc_changes p @ [change], pc_snapshots := pc_snapshots p @ [s]\<rparr>))"

definition genesis_snapshot ::
  "crypto \<Rightarrow> policy_change signed \<Rightarrow> ident \<Rightarrow> account_head \<Rightarrow> snapshot" where
  "genesis_snapshot cr change workspace_domain h =
     \<lparr>sn_revision = 1, sn_digest = signed_change_digest cr change,
      sn_signer = pol_signer (body change), sn_workspace_domain = workspace_domain,
      sn_members = bt_insert (ah_account h)
        \<lparr>mem_role = Owner, mem_head = h, recorded_by_own = True\<rparr> bt_empty,
      sn_former = bt_empty,
      sn_domains = bt_insert workspace_domain
        \<lparr>dom_restricted = False, dom_marker_rid = None, dom_access = bt_empty,
         dom_created_at = 1, dom_creator = pol_signer (body change)\<rparr> bt_empty,
      sn_used_domains = {workspace_domain}, sn_devices = bt_empty, sn_card_indices = bt_empty,
      sn_card_chains = bt_empty, sn_gone = {}, sn_own_heads = {(ah_account h, ah_head h)},
      sn_rotations = {}, sn_new_readers = bt_empty\<rparr>"

definition policy_from_genesis ::
  "crypto \<Rightarrow> policy_change signed \<Rightarrow> account_chains \<Rightarrow> policy_error + policy_chain" where
  "policy_from_genesis cr change acs =
     (let b = body change; revision = pol_revision b in
      if revision \<noteq> 1 then Inl (Pol_Revision revision)
      else if \<not> digest_is_zero (pol_previous b) then Inl (Pol_Previous revision)
      else case pol_kind b of
        Policy_Genesis workspace_domain \<Rightarrow>
          (case pol_heads b of
             [h] \<Rightarrow>
               and_then (ok_or (chain_of acs h) (Pol_UnknownHead revision)) (\<lambda>account_chain.
               and_then (check_signer cr change account_chain h) (\<lambda>_.
               let s = genesis_snapshot cr change workspace_domain h in
               and_then (finish_snapshot s s acs revision) (\<lambda>s.
               Inr \<lparr>pc_workspace = pol_workspace b, pc_changes = [change], pc_snapshots = [s]\<rparr>)))
           | _ \<Rightarrow> Inl (Pol_ForeignHead revision))
      | _ \<Rightarrow> Inl (Pol_GenesisPosition revision))"

fun verify_policy ::
  "crypto \<Rightarrow> policy_change signed list \<Rightarrow> account_chains \<Rightarrow> policy_error + policy_chain" where
  "verify_policy cr [] acs = Inl (Pol_Revision 0)"
| "verify_policy cr (genesis # rest) acs =
     and_then (policy_from_genesis cr genesis acs) (\<lambda>p.
       try_fold (\<lambda>p change. append_change cr p change acs) p rest)"

subsection \<open>Queries of a chain\<close>

definition policy_head :: "policy_chain \<Rightarrow> u64 \<times> digest" where
  "policy_head p = (sn_revision (head_snapshot p), sn_digest (head_snapshot p))"

definition snapshot_at :: "policy_chain \<Rightarrow> u64 \<Rightarrow> snapshot option" where
  "snapshot_at p revision =
     (if revision = 0 then None
      else let index = unat (revision - 1) in
        if index < length (pc_snapshots p) then Some (pc_snapshots p ! index) else None)"

definition change_at :: "policy_chain \<Rightarrow> u64 \<Rightarrow> policy_change signed option" where
  "change_at p revision =
     (if revision = 0 then None
      else let index = unat (revision - 1) in
        if index < length (pc_changes p) then Some (pc_changes p ! index) else None)"

definition card_gone :: "policy_chain \<Rightarrow> ident \<Rightarrow> u64 \<Rightarrow> bool" where
  "card_gone p device revision \<longleftrightarrow>
     (case snapshot_at p revision of None \<Rightarrow> False | Some s \<Rightarrow> device \<in> sn_gone s)"

text \<open>\<open>((after + 1)..=through).rev().find(...)\<close>: the highest revision of the range.\<close>

definition rotation_required :: "policy_chain \<Rightarrow> ident \<Rightarrow> u64 \<Rightarrow> u64 \<Rightarrow> u64 option" where
  "rotation_required p d after through =
     find (\<lambda>r. case snapshot_at p r of None \<Rightarrow> False | Some s \<Rightarrow> d \<in> sn_rotations s)
       (rev (map of_nat [unat (after + 1)..<Suc (unat through)]))"

definition anchored_by :: "policy_chain \<Rightarrow> account_chain \<Rightarrow> account_head \<Rightarrow> u64 option" where
  "anchored_by p own reference =
     (let kept = head_seqno own in
      map_option (\<lambda>change. pol_revision (body change)) (find (\<lambda>change.
        list_ex (\<lambda>h. ah_account h = ac_account own \<and> ah_genesis h = ah_genesis reference
          \<and> ah_genesis h = chain_genesis own \<and> ah_seqno h \<ge> ah_seqno reference
          \<and> chain_contains own h) (pol_heads (body change))
        \<and> is_active_at own (pol_signer (body change)) kept) (pc_changes p)))"

end
