(* ===== verification/Policy_Laws.thy ===== *)
theory Policy_Laws
  imports Policy
begin

text \<open>
  What computing a snapshot does: the devices and card indices it assigns, and the rotations
  and reader limits it records; and the facts that an accepted change gives.
\<close>

subsection \<open>Collecting the devices\<close>

definition item_device :: "ident \<times> member \<times> card_state \<Rightarrow> ident" where
  "item_device i = card_device (cs_card (snd (snd i)))"

definition item_wd :: "ident \<times> member \<times> card_state \<Rightarrow> workspace_device" where
  "item_wd i = \<lparr>wd_account = fst i, wd_card = cs_card (snd (snd i)), wd_recovery = cs_recovery (snd (snd i))\<rparr>"

definition member_items :: "account_chains \<Rightarrow> ident \<times> member \<Rightarrow> (ident \<times> member \<times> card_state) list" where
  "member_items acs am = (case chain_of acs (mem_head (snd am)) of None \<Rightarrow> []
     | Some c \<Rightarrow> map (\<lambda>st. (fst am, snd am, st)) (active_states c (ah_seqno (mem_head (snd am)))))"

definition items :: "account_chains \<Rightarrow> snapshot \<Rightarrow> (ident \<times> member \<times> card_state) list" where
  "items acs s = concat (map (member_items acs) (bt_entries (sn_members s)))"

abbreviation collect_item ::
  "(ident, u32) btree \<Rightarrow> u64 \<Rightarrow> collected \<Rightarrow> ident \<times> member \<times> card_state \<Rightarrow> policy_error + collected" where
  "collect_item indices revision acc i \<equiv> collect_card indices revision (fst i) (fst (snd i)) acc (snd (snd i))"

lemma try_fold_map: "try_fold f s (map g xs) = try_fold (\<lambda>s x. f s (g x)) s xs"
  by (induction xs arbitrary: s) (auto simp: fun_eq_iff)

lemma collect_members_flat:
  "try_fold (collect_member acs indices revision) acc ams = Inr r \<Longrightarrow>
   try_fold (collect_item indices revision) acc (concat (map (member_items acs) ams)) = Inr r
   \<and> (\<forall>am \<in> set ams. chain_of acs (mem_head (snd am)) \<noteq> None)"
proof (induction ams arbitrary: acc)
  case (Cons am ams)
  then obtain acc' where step: "collect_member acs indices revision acc am = Inr acc'"
    and rest: "try_fold (collect_member acs indices revision) acc' ams = Inr r" by auto
  obtain c where c: "chain_of acs (mem_head (snd am)) = Some c"
    using step by (cases am) (auto simp: collect_member_def split: option.splits)
  have "try_fold (collect_item indices revision) acc (member_items acs am) = Inr acc'"
    using step c by (cases am) (simp add: collect_member_def member_items_def try_fold_map)
  then show ?case using Cons.IH [OF rest] c by (simp add: try_fold_append)
qed simp

lemma collect_items:
  assumes "try_fold (collect_item indices revision) (D, N, C) is = Inr (D', N', C')"
  shows "distinct (map item_device is)"
    and "\<forall>i \<in> set is. bt_get D (item_device i) = None \<and> bt_get D' (item_device i) = Some (item_wd i)"
    and "\<forall>d. d \<notin> item_device ` set is \<longrightarrow> bt_get D' d = bt_get D d"
    and "N' = N @ map (\<lambda>i. (fst i, cs_added_at (snd (snd i)), item_device i))
           (filter (\<lambda>i. bt_get indices (item_device i) = None) is)"
    and "\<forall>d x. bt_get C d = Some x \<longrightarrow> bt_get C' d = Some x"
    and "\<forall>d. bt_get C d = None \<longrightarrow> bt_get C' d \<noteq> None \<longrightarrow> d \<in> item_device ` set is"
    and "\<forall>i \<in> set is. bt_get C' (item_device i) \<noteq> None"
proof -
  have "distinct (map item_device is)
    \<and> (\<forall>i \<in> set is. bt_get D (item_device i) = None \<and> bt_get D' (item_device i) = Some (item_wd i))
    \<and> (\<forall>d. d \<notin> item_device ` set is \<longrightarrow> bt_get D' d = bt_get D d)
    \<and> N' = N @ map (\<lambda>i. (fst i, cs_added_at (snd (snd i)), item_device i))
           (filter (\<lambda>i. bt_get indices (item_device i) = None) is)
    \<and> (\<forall>d x. bt_get C d = Some x \<longrightarrow> bt_get C' d = Some x)
    \<and> (\<forall>d. bt_get C d = None \<longrightarrow> bt_get C' d \<noteq> None \<longrightarrow> d \<in> item_device ` set is)
    \<and> (\<forall>i \<in> set is. bt_get C' (item_device i) \<noteq> None)"
    using assms
  proof (induction "is" arbitrary: D N C)
    case Nil
    then show ?case by simp
  next
    case (Cons i "is")
    let ?d = "item_device i"
    let ?D = "bt_insert ?d (item_wd i) D"
    let ?N = "if bt_get indices ?d = None then N @ [(fst i, cs_added_at (snd (snd i)), ?d)] else N"
    let ?C = "if bt_get C ?d = None then bt_insert ?d (fst i, ah_genesis (mem_head (fst (snd i)))) C else C"
    have d: "bt_get D ?d = None"
      and rest: "try_fold (collect_item indices revision) (?D, ?N, ?C) is = Inr (D', N', C')"
      using Cons.prems by (auto simp: collect_card_def item_device_def item_wd_def Let_def domIff
          split: if_splits)
    note IH = Cons.IH [OF rest]
    have fresh: "?d \<notin> item_device ` set is"
    proof
      assume "?d \<in> item_device ` set is"
      then obtain j where j: "j \<in> set is" "item_device j = ?d" by (metis imageE)
      have "bt_get ?D (item_device j) = None" using IH j(1) by blast
      then show False using j(2) by simp
    qed
    have "bt_get D' ?d = Some (item_wd i)" using IH fresh by simp
    moreover have "bt_get C' ?d \<noteq> None"
      using IH by (cases "bt_get C ?d") auto
    moreover have "\<forall>j \<in> set is. bt_get D (item_device j) = None"
      using IH fresh by (metis (no_types, lifting) bt_get_insert fun_upd_other image_eqI)
    moreover have "bt_get C' e = Some x" if "bt_get C e = Some x" for e x
    proof -
      have "bt_get ?C e = Some x" using that by (cases "e = ?d") auto
      then show ?thesis using IH by blast
    qed
    moreover have "e \<in> item_device ` set (i # is)" if "bt_get C e = None" "bt_get C' e \<noteq> None" for e
    proof (cases "e = ?d")
      case False
      then have "bt_get ?C e = None" using that by simp
      then have "e \<in> item_device ` set is" using IH that(2) by blast
      then show ?thesis by simp
    qed simp
    moreover have "bt_get D' e = bt_get D e" if "e \<notin> item_device ` set (i # is)" for e
      using IH that by auto
    moreover have "N' = N @ map (\<lambda>i. (fst i, cs_added_at (snd (snd i)), item_device i))
        (filter (\<lambda>i. bt_get indices (item_device i) = None) (i # is))"
      using IH by simp
    ultimately show ?case
      using IH d fresh by simp
  qed
  then show "distinct (map item_device is)"
    "\<forall>i \<in> set is. bt_get D (item_device i) = None \<and> bt_get D' (item_device i) = Some (item_wd i)"
    "\<forall>d. d \<notin> item_device ` set is \<longrightarrow> bt_get D' d = bt_get D d"
    "N' = N @ map (\<lambda>i. (fst i, cs_added_at (snd (snd i)), item_device i))
           (filter (\<lambda>i. bt_get indices (item_device i) = None) is)"
    "\<forall>d x. bt_get C d = Some x \<longrightarrow> bt_get C' d = Some x"
    "\<forall>d. bt_get C d = None \<longrightarrow> bt_get C' d \<noteq> None \<longrightarrow> d \<in> item_device ` set is"
    "\<forall>i \<in> set is. bt_get C' (item_device i) \<noteq> None"
    by blast+
qed

subsection \<open>Assigning card indices\<close>

definition indices_ok :: "(ident, u32) btree \<Rightarrow> bool" where
  "indices_ok m \<longleftrightarrow> (\<forall>d v. bt_get m d = Some v \<longrightarrow> 1 \<le> v \<and> v \<le> MAX_CARD_INDEX)
     \<and> (\<forall>d e v. bt_get m d = Some v \<longrightarrow> bt_get m e = Some v \<longrightarrow> d = e)"

lemma next_card_index_Some:
  "next_card_index i = Some j \<longleftrightarrow> i < MAX_CARD_INDEX \<and> j = i + 1"
  by (auto simp: next_card_index_def)

lemma index_step:
  assumes "i < MAX_CARD_INDEX"
  shows "i < i + 1 \<and> 1 \<le> i + 1 \<and> i + 1 \<le> MAX_CARD_INDEX"
proof -
  have "unat i < unat MAX_CARD_INDEX" using assms by (simp add: word_less_nat_alt)
  moreover have "unat MAX_CARD_INDEX < 2 ^ 32 - 1" by (simp add: MAX_CARD_INDEX_def)
  ultimately have "unat (i + 1) = unat i + 1" by (simp add: unat_word_ariths)
  then show ?thesis
    using \<open>unat i < unat MAX_CARD_INDEX\<close> by (simp add: word_less_nat_alt word_le_nat_alt)
qed

lemma assign_index_Inr:
  "assign_index revision (i, I) c = Inr r \<longleftrightarrow>
   i < MAX_CARD_INDEX \<and> r = (i + 1, bt_insert (snd (snd c)) (i + 1) I)"
  by (cases c) (auto simp: assign_index_def next_card_index_Some)

lemma assign_indices:
  assumes "try_fold (assign_index revision) (i, I) cards = Inr (i', I')"
    and "indices_ok I" and "\<forall>d v. bt_get I d = Some v \<longrightarrow> v \<le> i"
    and "distinct (map (snd \<circ> snd) cards)" and "\<forall>c \<in> set cards. bt_get I (snd (snd c)) = None"
  shows "indices_ok I' \<and> (\<forall>d v. bt_get I d = Some v \<longrightarrow> bt_get I' d = Some v)
    \<and> dom (bt_get I') = dom (bt_get I) \<union> (snd \<circ> snd) ` set cards"
  using assms
proof (induction cards arbitrary: i I)
  case Nil
  then show ?case by auto
next
  case (Cons c cards)
  let ?d = "snd (snd c)"
  have i: "i < MAX_CARD_INDEX" and rest: "try_fold (assign_index revision) (i + 1, bt_insert ?d (i + 1) I) cards = Inr (i', I')"
    using Cons.prems(1) by (auto simp: assign_index_Inr)
  note step = index_step [OF i]
  have old: "v \<le> i" if "bt_get I d = Some v" for d v using Cons.prems(3) that by blast
  have ok1: "indices_ok (bt_insert ?d (i + 1) I)"
    using Cons.prems(2) old step unfolding indices_ok_def by (auto split: if_splits dest: leD)
  have le1: "\<forall>d v. bt_get (bt_insert ?d (i + 1) I) d = Some v \<longrightarrow> v \<le> i + 1"
    using order_trans [OF old less_imp_le] step by (auto split: if_splits)
  have none1: "\<forall>e \<in> set cards. bt_get (bt_insert ?d (i + 1) I) (snd (snd e)) = None"
  proof
    fix e assume e: "e \<in> set cards"
    then have "snd (snd e) \<noteq> ?d" using Cons.prems(4) by (fastforce simp: image_iff)
    then show "bt_get (bt_insert ?d (i + 1) I) (snd (snd e)) = None" using Cons.prems(5) e by simp
  qed
  have "indices_ok I' \<and> (\<forall>d v. bt_get (bt_insert ?d (i + 1) I) d = Some v \<longrightarrow> bt_get I' d = Some v)
    \<and> dom (bt_get I') = dom (bt_get (bt_insert ?d (i + 1) I)) \<union> (snd \<circ> snd) ` set cards"
  proof -
    have "distinct (map (snd \<circ> snd) cards)" using Cons.prems(4) by (simp add: comp_def)
    then show ?thesis using ok1 le1 none1 by (intro Cons.IH [OF rest])
  qed
  moreover have "dom (bt_get (bt_insert ?d (i + 1) I)) = insert ?d (dom (bt_get I))"
    unfolding bt_get_insert dom_fun_upd by simp
  moreover have "bt_get (bt_insert ?d (i + 1) I) e = Some v" if "bt_get I e = Some v" for e v
    using that Cons.prems(5) by auto
  ultimately show ?case by (simp del: bt_get_insert)
qed

lemma fold_max_start: "a \<le> fold max xs (a :: u32)"
  by (induction xs arbitrary: a) (auto intro: order_trans [OF max.cobounded2])

lemma fold_max_le: "x \<in> set xs \<Longrightarrow> (x :: u32) \<le> fold max xs a"
proof (induction xs arbitrary: a)
  case (Cons y ys)
  then show ?case using order_trans [OF max.cobounded1 fold_max_start] by auto
qed simp

lemma highest_index_le: "bt_get m d = Some v \<Longrightarrow> v \<le> highest_index m"
  by (auto simp: highest_index_def ran_def intro!: fold_max_le)

subsection \<open>Finishing a snapshot\<close>

text \<open>The fields that finishing leaves alone.\<close>

definition same_core :: "snapshot \<Rightarrow> snapshot \<Rightarrow> bool" where
  "same_core s t \<longleftrightarrow> sn_revision t = sn_revision s \<and> sn_digest t = sn_digest s \<and> sn_signer t = sn_signer s
     \<and> sn_workspace_domain t = sn_workspace_domain s \<and> sn_members t = sn_members s
     \<and> sn_former t = sn_former s \<and> sn_domains t = sn_domains s
     \<and> sn_used_domains t = sn_used_domains s \<and> sn_gone t = sn_gone s \<and> sn_own_heads t = sn_own_heads s"

definition same_devices :: "snapshot \<Rightarrow> snapshot \<Rightarrow> bool" where
  "same_devices s t \<longleftrightarrow> same_core s t \<and> sn_devices t = sn_devices s
     \<and> sn_card_indices t = sn_card_indices s \<and> sn_card_chains t = sn_card_chains s"

lemma same_devices_refl [simp]: "same_devices s s"
  by (simp add: same_devices_def same_core_def)

lemma same_devices_trans: "same_devices s t \<Longrightarrow> same_devices t u \<Longrightarrow> same_devices s u"
  by (simp add: same_devices_def same_core_def)

lemma readers_iff: "x \<in> readers s d \<longleftrightarrow>
    (\<exists>wd. bt_get (sn_devices s) x = Some wd \<and> account_level s (wd_account wd) d \<noteq> None)"
  by (auto simp: readers_def can_read_def device_level_def account_of_def)

lemma account_level_cong:
  assumes "sn_domains s = sn_domains t" and "sn_members s = sn_members t"
  shows "account_level s = account_level t"
  unfolding account_level_def [abs_def] role_of_def [abs_def] assms by (rule refl)

lemma readers_same: "same_devices s t \<Longrightarrow> readers t d = readers s d"
  using account_level_cong [of s t] by (auto simp: same_devices_def same_core_def readers_iff)

lemma finite_readers [simp]: "finite (readers s d)"
  by (simp add: readers_def)

lemma finish_domain_Inr:
  assumes "finish_domain prev revision s d = Inr t"
  shows "same_devices s t \<and> card (readers s d) \<le> MAX_READERS
    \<and> sn_rotations t = sn_rotations s \<union> {e. e = d \<and> bt_contains (sn_domains prev) d \<and> \<not> readers prev d \<subseteq> readers s d}
    \<and> (\<forall>e. e \<noteq> d \<longrightarrow> bt_get (sn_new_readers t) e = bt_get (sn_new_readers s) e)
    \<and> (bt_get (sn_new_readers s) d = None \<longrightarrow> bt_get (sn_new_readers t) d =
        (let new = (if bt_contains (sn_domains prev) d then readers s d - readers prev d else readers s d)
         in if bt_contains (sn_domains prev) d \<and> new = {} then None else Some new))"
  using assms by (auto simp: finish_domain_def Let_def same_devices_def same_core_def split: if_splits)

lemma finish_domains:
  assumes "try_fold (finish_domain prev revision) s ds = Inr t"
  shows "same_devices s t \<and> (\<forall>d \<in> set ds. card (readers s d) \<le> MAX_READERS)
    \<and> sn_rotations t = sn_rotations s
        \<union> {d \<in> set ds. bt_contains (sn_domains prev) d \<and> \<not> readers prev d \<subseteq> readers s d}"
  using assms
proof (induction ds arbitrary: s)
  case (Cons d ds)
  then obtain u where step: "finish_domain prev revision s d = Inr u"
    and rest: "try_fold (finish_domain prev revision) u ds = Inr t" by auto
  note f = finish_domain_Inr [OF step] and IH = Cons.IH [OF rest]
  have "readers u e = readers s e" for e using f readers_same by blast
  then show ?case using f IH same_devices_trans by auto
qed simp

text \<open>The devices of a snapshot: the active cards at its members' heads.\<close>

definition member_card :: "account_chains \<Rightarrow> snapshot \<Rightarrow> ident \<Rightarrow> member \<Rightarrow> card_state \<Rightarrow> bool" where
  "member_card acs s account m st \<longleftrightarrow> bt_get (sn_members s) account = Some m
     \<and> (\<exists>c. chain_of acs (mem_head m) = Some c \<and> st \<in> set (active_states c (ah_seqno (mem_head m))))"

lemma set_items: "i \<in> set (items acs s) \<longleftrightarrow> member_card acs s (fst i) (fst (snd i)) (snd (snd i))"
proof
  assume "i \<in> set (items acs s)"
  then show "member_card acs s (fst i) (fst (snd i)) (snd (snd i))"
    by (auto simp: items_def member_items_def member_card_def split: option.splits) metis
next
  assume "member_card acs s (fst i) (fst (snd i)) (snd (snd i))"
  then obtain c where m: "(fst i, fst (snd i)) \<in> set (bt_entries (sn_members s))"
    and c: "chain_of acs (mem_head (fst (snd i))) = Some c"
      "snd (snd i) \<in> set (active_states c (ah_seqno (mem_head (fst (snd i)))))"
    by (auto simp: member_card_def)
  have "i \<in> set (member_items acs (fst i, fst (snd i)))"
    using c by (cases i) (simp add: member_items_def)
  then show "i \<in> set (items acs s)" using m by (auto simp: items_def)
qed

lemma finish_snapshot_Inr:
  assumes fin: "finish_snapshot s prev acs revision = Inr t" and idx: "indices_ok (sn_card_indices s)"
  shows "same_core s t"
    and "\<forall>account m. bt_get (sn_members s) account = Some m \<longrightarrow> chain_of acs (mem_head m) \<noteq> None"
    and "\<forall>d wd. bt_get (sn_devices t) d = Some wd \<longleftrightarrow> (\<exists>account m st. member_card acs s account m st
          \<and> d = card_device (cs_card st)
          \<and> wd = \<lparr>wd_account = account, wd_card = cs_card st, wd_recovery = cs_recovery st\<rparr>)"
    and "indices_ok (sn_card_indices t)"
    and "\<forall>d v. bt_get (sn_card_indices s) d = Some v \<longrightarrow> bt_get (sn_card_indices t) d = Some v"
    and "dom (bt_get (sn_card_indices t)) = dom (bt_get (sn_card_indices s)) \<union> dom (bt_get (sn_devices t))"
    and "\<forall>d \<in> dom (bt_get (sn_domains s)). card (readers t d) \<le> MAX_READERS"
    and "sn_rotations t = sn_rotations s \<union> {d. d \<in> dom (bt_get (sn_domains s))
          \<and> d \<in> dom (bt_get (sn_domains prev)) \<and> \<not> readers prev d \<subseteq> readers t d}"
proof -
  obtain D N C i I where
    f1: "try_fold (collect_member acs (sn_card_indices s) revision) (bt_empty, [], sn_card_chains s)
      (bt_entries (sn_members s)) = Inr (D, N, C)" and
    f2: "try_fold (assign_index revision) (highest_index (sn_card_indices s), sn_card_indices s) (sort N) = Inr (i, I)" and
    f3: "try_fold (finish_domain prev revision)
      (s\<lparr>sn_devices := D, sn_card_indices := I, sn_card_chains := C\<rparr>) (bt_keys (sn_domains s)) = Inr t"
    using fin by (auto simp: finish_snapshot_def)
  let ?u = "s\<lparr>sn_devices := D, sn_card_indices := I, sn_card_chains := C\<rparr>"
  have flat: "try_fold (collect_item (sn_card_indices s) revision) (bt_empty, [], sn_card_chains s) (items acs s) = Inr (D, N, C)"
    and heads: "\<forall>am \<in> set (bt_entries (sn_members s)). chain_of acs (mem_head (snd am)) \<noteq> None"
    using collect_members_flat [OF f1] by (simp_all add: items_def)
  note ci = collect_items [OF flat]
  note fd = finish_domains [OF f3]
  have dev: "sn_devices t = D" "sn_card_indices t = I"
    using fd by (simp_all add: same_devices_def)
  show "same_core s t" using fd by (simp add: same_devices_def same_core_def)
  show "\<forall>account m. bt_get (sn_members s) account = Some m \<longrightarrow> chain_of acs (mem_head m) \<noteq> None"
    using heads by (metis bt_in_entries snd_conv)
  show "\<forall>d wd. bt_get (sn_devices t) d = Some wd \<longleftrightarrow> (\<exists>account m st. member_card acs s account m st
          \<and> d = card_device (cs_card st)
          \<and> wd = \<lparr>wd_account = account, wd_card = cs_card st, wd_recovery = cs_recovery st\<rparr>)"
  proof (intro allI iffI)
    fix d wd
    assume get: "bt_get (sn_devices t) d = Some wd"
    then have "d \<in> item_device ` set (items acs s)" using ci(3) dev by fastforce
    then obtain j where j: "j \<in> set (items acs s)" "d = item_device j" by blast
    then have "wd = item_wd j" using ci(2) get dev by auto
    then show "\<exists>account m st. member_card acs s account m st \<and> d = card_device (cs_card st)
          \<and> wd = \<lparr>wd_account = account, wd_card = cs_card st, wd_recovery = cs_recovery st\<rparr>"
      using j by (auto simp: set_items item_wd_def item_device_def)
  next
    fix d wd
    assume "\<exists>account m st. member_card acs s account m st \<and> d = card_device (cs_card st)
          \<and> wd = \<lparr>wd_account = account, wd_card = cs_card st, wd_recovery = cs_recovery st\<rparr>"
    then obtain account m st where "(account, m, st) \<in> set (items acs s)" "d = card_device (cs_card st)"
      "wd = \<lparr>wd_account = account, wd_card = cs_card st, wd_recovery = cs_recovery st\<rparr>"
      by (auto simp: set_items)
    then show "bt_get (sn_devices t) d = Some wd"
      using ci(2) dev by (force simp: item_device_def item_wd_def)
  qed
  let ?new = "filter (\<lambda>i. bt_get (sn_card_indices s) (item_device i) = None) (items acs s)"
  have N: "map (snd \<circ> snd) N = map item_device ?new" using ci(4) by simp
  have "distinct (map item_device ?new)" using ci(1) by (simp add: distinct_map_filter)
  then have "distinct (map (snd \<circ> snd) N)" by (simp only: N)
  then have dis: "distinct (map (snd \<circ> snd) (sort N))"
    by (simp add: distinct_map)
  have dom_new: "(snd \<circ> snd) ` set N = item_device ` set ?new"
    using N by (metis set_map)
  have none: "\<forall>c \<in> set (sort N). bt_get (sn_card_indices s) (snd (snd c)) = None"
  proof
    fix c assume "c \<in> set (sort N)"
    then have "snd (snd c) \<in> (snd \<circ> snd) ` set N" by (simp add: image_iff) blast
    then show "bt_get (sn_card_indices s) (snd (snd c)) = None" unfolding dom_new by auto
  qed
  note ai = assign_indices [OF f2 idx _ dis none]
  have le: "\<forall>d v. bt_get (sn_card_indices s) d = Some v \<longrightarrow> v \<le> highest_index (sn_card_indices s)"
    by (simp add: highest_index_le)
  show "indices_ok (sn_card_indices t)"
    "\<forall>d v. bt_get (sn_card_indices s) d = Some v \<longrightarrow> bt_get (sn_card_indices t) d = Some v"
    using ai [OF le] dev by simp_all
  have "dom (bt_get D) = item_device ` set (items acs s)"
    using ci(2,3) by (auto simp: dom_def)
  moreover have "item_device ` set ?new = item_device ` set (items acs s) - dom (bt_get (sn_card_indices s))"
    by auto
  ultimately show "dom (bt_get (sn_card_indices t)) = dom (bt_get (sn_card_indices s)) \<union> dom (bt_get (sn_devices t))"
    using ai [OF le] dev dom_new by auto
  have same: "same_devices ?u t" using fd by simp
  show "\<forall>d \<in> dom (bt_get (sn_domains s)). card (readers t d) \<le> MAX_READERS"
    using fd readers_same [OF same] by simp
  show "sn_rotations t = sn_rotations s \<union> {d. d \<in> dom (bt_get (sn_domains s))
          \<and> d \<in> dom (bt_get (sn_domains prev)) \<and> \<not> readers prev d \<subseteq> readers t d}"
    using fd readers_same [OF same] by simp
qed

end
