(* ===== verification/Policy_Invariant.thy ===== *)
theory Policy_Invariant
  imports Policy_Laws
begin

text \<open>
  What every revision of a verified policy satisfies, and what one accepted change may do:
  who may sign it, how it changes roles and grants, which devices and card indices result,
  and which rotations it makes due.
\<close>

subsection \<open>Accepted changes\<close>

lemma check_changeE:
  assumes "check_change cr p change acs = Inr t"
  obtains h sr c s where
    "pol_workspace (body change) = pc_workspace p"
    "pol_revision (body change) = sn_revision (head_snapshot p) + 1"
    "pol_previous (body change) = sn_digest (head_snapshot p)"
    "\<And>d. pol_kind (body change) \<noteq> Policy_Genesis d"
    "\<forall>h' \<in> set (pol_heads (body change)). chain_of acs h' \<noteq> None"
    "h \<in> set (pol_heads (body change))" "chain_of acs h = Some c"
    "is_active_at c (pol_signer (body change)) (ah_seqno h)"
    "check_signer cr change c h = Inr ()"
    "role_of (head_snapshot p) (ah_account h) = Some sr"
    "heads_rules (head_snapshot p) (body change) (ah_account h) h = Inr ()"
    "apply_policy_kind (head_snapshot p) (body change) (ah_account h) sr h
       (start_next cr (head_snapshot p) change) = Inr s"
    "finish_snapshot (record_gone acs (pol_heads (body change))
        (record_heads (head_snapshot p) (ah_account h) (pol_heads (body change)) s))
      (head_snapshot p) acs (pol_revision (body change)) = Inr t"
proof -
  from assms obtain h where
    basics: "pol_workspace (body change) = pc_workspace p"
    "pol_revision (body change) = sn_revision (head_snapshot p) + 1"
    "pol_previous (body change) = sn_digest (head_snapshot p)"
    "\<not> (case pol_kind (body change) of Policy_Genesis _ \<Rightarrow> True | _ \<Rightarrow> False)"
    "\<not> list_ex (\<lambda>h. chain_of acs h = None) (pol_heads (body change))"
    and find: "find (\<lambda>h. case chain_of acs h of None \<Rightarrow> False
            | Some c \<Rightarrow> is_active_at c (pol_signer (body change)) (ah_seqno h)) (pol_heads (body change)) = Some h"
    and rest: "and_then (check_signer cr change (the (chain_of acs h)) h) (\<lambda>_.
          and_then (ok_or (role_of (head_snapshot p) (ah_account h)) (Pol_Unauthorized (pol_revision (body change)))) (\<lambda>signer_role.
          and_then (heads_rules (head_snapshot p) (body change) (ah_account h) h) (\<lambda>_.
          and_then (apply_policy_kind (head_snapshot p) (body change) (ah_account h) signer_role h
              (start_next cr (head_snapshot p) change)) (\<lambda>s.
          finish_snapshot
            (record_gone acs (pol_heads (body change)) (record_heads (head_snapshot p) (ah_account h) (pol_heads (body change)) s))
            (head_snapshot p) acs (pol_revision (body change)))))) = Inr t"
    by (simp add: check_change_def Let_def split: if_splits option.splits)
  obtain c where "h \<in> set (pol_heads (body change))" "chain_of acs h = Some c"
    "is_active_at c (pol_signer (body change)) (ah_seqno h)"
    using find by (auto simp: find_Some_iff split: option.splits)
  moreover obtain sr s where "role_of (head_snapshot p) (ah_account h) = Some sr"
    "heads_rules (head_snapshot p) (body change) (ah_account h) h = Inr ()"
    "apply_policy_kind (head_snapshot p) (body change) (ah_account h) sr h
       (start_next cr (head_snapshot p) change) = Inr s"
    "check_signer cr change (the (chain_of acs h)) h = Inr ()"
    "finish_snapshot (record_gone acs (pol_heads (body change))
        (record_heads (head_snapshot p) (ah_account h) (pol_heads (body change)) s))
      (head_snapshot p) acs (pol_revision (body change)) = Inr t"
    using rest by auto
  moreover have "pol_kind (body change) \<noteq> Policy_Genesis d" for d
    using basics(4) by auto
  ultimately show ?thesis
    using basics by (intro that [of h c sr s]) (auto simp: list_ex_iff)
qed

subsection \<open>What the parts of a change leave alone\<close>

definition same_rest :: "snapshot \<Rightarrow> snapshot \<Rightarrow> bool" where
  "same_rest s t \<longleftrightarrow> sn_revision t = sn_revision s \<and> sn_digest t = sn_digest s \<and> sn_signer t = sn_signer s
     \<and> sn_workspace_domain t = sn_workspace_domain s \<and> sn_devices t = sn_devices s
     \<and> sn_card_indices t = sn_card_indices s \<and> sn_card_chains t = sn_card_chains s
     \<and> sn_rotations t = sn_rotations s \<and> sn_new_readers t = sn_new_readers s"

lemma record_gone_frame:
  "same_rest s (record_gone acs hs s) \<and> sn_members (record_gone acs hs s) = sn_members s
   \<and> sn_former (record_gone acs hs s) = sn_former s \<and> sn_domains (record_gone acs hs s) = sn_domains s
   \<and> sn_used_domains (record_gone acs hs s) = sn_used_domains s
   \<and> sn_own_heads (record_gone acs hs s) = sn_own_heads s \<and> sn_gone s \<subseteq> sn_gone (record_gone acs hs s)"
  unfolding record_gone_def
proof (induction hs arbitrary: s)
  case (Cons h hs)
  have "sn_gone s \<subseteq> sn_gone (gone_step acs h s)" by (simp add: gone_step_def)
  also have "\<dots> \<subseteq> sn_gone (fold (gone_step acs) hs (gone_step acs h s))" using Cons.IH by blast
  finally show ?case
    using Cons.IH [of "gone_step acs h s"] by (simp add: same_rest_def gone_step_def)
qed (simp add: same_rest_def)

lemma record_head_frame:
  "same_rest s (record_head prev sa h s) \<and> sn_former (record_head prev sa h s) = sn_former s
   \<and> sn_domains (record_head prev sa h s) = sn_domains s
   \<and> sn_used_domains (record_head prev sa h s) = sn_used_domains s
   \<and> sn_gone (record_head prev sa h s) = sn_gone s
   \<and> sn_own_heads s \<subseteq> sn_own_heads (record_head prev sa h s)"
  by (auto simp: record_head_def Let_def same_rest_def split: option.split)

lemma record_head_role: "role_of (record_head prev sa h s) a = role_of s a"
  by (auto simp: record_head_def Let_def role_of_def split: option.split)

definition record_member :: "snapshot \<Rightarrow> ident \<Rightarrow> account_head \<Rightarrow> member \<Rightarrow> member" where
  "record_member prev sa h m = \<lparr>mem_role = mem_role m, mem_head = h,
     recorded_by_own = (ah_account h = sa \<or> (if mem_head m = h then recorded_by_own m
       else (ah_account h, ah_head h) \<in> sn_own_heads prev))\<rparr>"

lemma record_head_member:
  "bt_get (sn_members (record_head prev sa h s)) a =
     map_option (\<lambda>m. if a = ah_account h then record_member prev sa h m else m) (bt_get (sn_members s) a)"
proof (cases "bt_get (sn_members s) (ah_account h)")
  case None
  then show ?thesis by (cases "bt_get (sn_members s) a") (auto simp: record_head_def)
next
  case (Some m)
  then show ?thesis
    by (cases "a = ah_account h"; cases "bt_get (sn_members s) a")
      (auto simp: record_head_def record_member_def)
qed

lemma record_heads_frame:
  "same_rest s (record_heads prev sa hs s) \<and> sn_former (record_heads prev sa hs s) = sn_former s
   \<and> sn_domains (record_heads prev sa hs s) = sn_domains s
   \<and> sn_used_domains (record_heads prev sa hs s) = sn_used_domains s
   \<and> sn_gone (record_heads prev sa hs s) = sn_gone s
   \<and> sn_own_heads s \<subseteq> sn_own_heads (record_heads prev sa hs s)
   \<and> (\<forall>a. role_of (record_heads prev sa hs s) a = role_of s a)"
  unfolding record_heads_def
proof (induction hs arbitrary: s)
  case (Cons h hs)
  show ?case
    using Cons.IH [of "record_head prev sa h s"] record_head_frame [of s prev sa h]
      record_head_role [of prev sa h s]
      subset_trans [of "sn_own_heads s" "sn_own_heads (record_head prev sa h s)"]
    by (simp add: same_rest_def)
qed (simp add: same_rest_def)

subsection \<open>Roles and domains\<close>

text \<open>How each kind changes the roles.\<close>

definition roles_after :: "policy_kind \<Rightarrow> ident \<Rightarrow> (ident \<Rightarrow> role option) \<Rightarrow> ident \<Rightarrow> role option" where
  "roles_after kind signer_account roles =
     (case kind of
        Policy_AddMember a r _ \<Rightarrow> roles(a \<mapsto> r)
      | Policy_SetRole a r \<Rightarrow> roles(a \<mapsto> r)
      | Policy_RemoveMember a \<Rightarrow> roles(a := None)
      | Policy_TransferOwner a \<Rightarrow> roles(signer_account \<mapsto> Admin, a \<mapsto> Owner)
      | _ \<Rightarrow> roles)"

text \<open>
  Who may sign each kind after \<open>prev\<close>: the table of \<section>8, Roles and authority. An owner or admin who does
  not manage a domain may only remove entries of its access list: every entry of the new list
  is one of the old.
\<close>

definition only_removes :: "snapshot \<Rightarrow> ident \<Rightarrow> access list \<Rightarrow> bool" where
  "only_removes prev d access \<longleftrightarrow> (\<exists>ds. bt_get (sn_domains prev) d = Some ds
     \<and> bt_get (access_map access) \<subseteq>\<^sub>m bt_get (dom_access ds))"

definition authorized :: "policy_kind \<Rightarrow> ident \<Rightarrow> role \<Rightarrow> snapshot \<Rightarrow> bool" where
  "authorized kind signer_account signer_role prev =
     (case kind of
        Policy_Genesis _ \<Rightarrow> False
      | Policy_AccountHeads \<Rightarrow> True
      | Policy_AddMember a r _ \<Rightarrow> role_of prev a = None \<and> a \<noteq> signer_account
          \<and> (signer_role = Owner \<and> r \<noteq> Owner \<or> signer_role = Admin \<and> (r = Editor \<or> r = Viewer))
      | Policy_SetRole a r \<Rightarrow> r \<noteq> Owner \<and> role_of prev a \<noteq> None \<and> role_of prev a \<noteq> Some Owner
          \<and> (signer_role = Owner
             \<or> signer_role = Admin \<and> (role_of prev a = Some Editor \<or> role_of prev a = Some Viewer)
               \<and> (r = Editor \<or> r = Viewer))
      | Policy_RemoveMember a \<Rightarrow> role_of prev a \<noteq> None \<and> role_of prev a \<noteq> Some Owner
          \<and> (a = signer_account \<or> signer_role = Owner
             \<or> signer_role = Admin \<and> (role_of prev a = Some Editor \<or> role_of prev a = Some Viewer))
      | Policy_CreateDomain _ _ access \<Rightarrow> (signer_role = Owner \<or> signer_role = Admin)
          \<and> bt_get (access_map access) signer_account = Some Level_Manage
      | Policy_SetAccess d access \<Rightarrow> manages prev signer_account d
          \<or> (signer_role = Owner \<or> signer_role = Admin) \<and> only_removes prev d access
      | Policy_DeleteDomain d \<Rightarrow> manages prev signer_account d \<or> signer_role = Owner \<or> signer_role = Admin
      | Policy_TransferOwner a \<Rightarrow> signer_role = Owner \<and> a \<noteq> signer_account \<and> role_of prev a \<noteq> None
      | Policy_AcceptReset a \<Rightarrow> (signer_role = Owner \<or> signer_role = Admin) \<and> role_of prev a \<noteq> None
          \<and> a \<noteq> signer_account)"

text \<open>An \<open>accept_reset\<close> records its account's head on another chain than the one \<open>prev\<close> records.\<close>

definition resets_chain :: "policy_change \<Rightarrow> snapshot \<Rightarrow> bool" where
  "resets_chain b prev \<longleftrightarrow> (\<forall>a. pol_kind b = Policy_AcceptReset a \<longrightarrow> (\<exists>g m. g \<in> set (pol_heads b)
     \<and> ah_account g = a \<and> bt_get (sn_members prev) a = Some m \<and> ah_genesis g \<noteq> ah_genesis (mem_head m)))"

lemma heads_rules_reset:
  assumes "heads_rules prev b sa h = Inr ()" and "\<forall>a. pol_kind b = Policy_AcceptReset a \<longrightarrow> role_of prev a \<noteq> None"
  shows "resets_chain b prev"
  unfolding resets_chain_def
proof (intro allI impI)
  fix a assume k: "pol_kind b = Policy_AcceptReset a"
  then obtain m where m: "bt_get (sn_members prev) a = Some m" using assms(2) by (auto simp: role_of_def)
  obtain g where "g \<in> set (pol_heads b)" "ah_account g = a" "\<not> head_behind prev (pol_kind b) g"
    using assms(1) k by (auto simp: heads_rules_def Let_def list_ex_iff split: if_splits)
  then show "\<exists>g m. g \<in> set (pol_heads b) \<and> ah_account g = a \<and> bt_get (sn_members prev) a = Some m
      \<and> ah_genesis g \<noteq> ah_genesis (mem_head m)"
    using m k by (intro exI [of _ g]) (auto simp: head_behind_def Let_def)
qed

lemma contains_member: "bt_contains (sn_members s) a \<longleftrightarrow> role_of s a \<noteq> None"
  by (simp add: role_of_def domIff)

lemma drop_grants_simps [simp]:
  "sn_members (drop_grants a s) = sn_members s" "sn_former (drop_grants a s) = sn_former s"
  "sn_used_domains (drop_grants a s) = sn_used_domains s" "sn_gone (drop_grants a s) = sn_gone s"
  "sn_own_heads (drop_grants a s) = sn_own_heads s" "same_rest s (drop_grants a s)"
  "bt_get (sn_domains (drop_grants a s)) d =
     map_option (\<lambda>ds. ds\<lparr>dom_access := bt_remove a (dom_access ds)\<rparr>) (bt_get (sn_domains s) d)"
  by (simp_all add: drop_grants_def same_rest_def)

lemma role_of_simps [simp]:
  "role_of (drop_grants a s) = role_of s"
  "role_of (set_member_role a r s) x = (if x = a \<and> role_of s a \<noteq> None then Some r else role_of s x)"
  by (auto simp: role_of_def set_member_role_def fun_eq_iff)

lemmas kind_defs = apply_account_heads_def apply_add_member_def apply_set_role_def
  apply_remove_member_def apply_create_domain_def apply_set_access_def apply_delete_domain_def
  apply_transfer_owner_def apply_accept_reset_def

lemma apply_kind_authorized:
  assumes "apply_policy_kind prev b sa sr h s = Inr t" and "named_new (pol_kind b) \<noteq> Some sa"
  shows "authorized (pol_kind b) sa sr prev"
proof (cases "pol_kind b")
  case (Policy_SetAccess d access)
  then obtain ds where ds: "bt_get (sn_domains prev) d = Some ds"
    and who: "manages prev sa d \<or> is_admin sr
      \<and> list_all (\<lambda>(account, level). bt_get (dom_access ds) account = Some level) (bt_entries (access_map access))"
    using assms(1) by (auto simp: apply_policy_kind_def apply_set_access_def Let_def split: if_splits option.splits)
  have "bt_get (access_map access) \<subseteq>\<^sub>m bt_get (dom_access ds)"
    if "list_all (\<lambda>(account, level). bt_get (dom_access ds) account = Some level) (bt_entries (access_map access))"
    unfolding map_le_def
  proof
    fix a assume "a \<in> dom (bt_get (access_map access))"
    then obtain l where l: "bt_get (access_map access) a = Some l" by blast
    show "bt_get (access_map access) a = bt_get (dom_access ds) a"
      using bspec [OF that [unfolded list_all_iff], of "(a, l)"] l by simp
  qed
  then show ?thesis using who ds by (auto simp: Policy_SetAccess authorized_def only_removes_def is_admin_def)
qed (use assms in \<open>(cases sr; auto simp: apply_policy_kind_def kind_defs authorized_def contains_member Let_def is_admin_def
      below_admin_def simp del: bt_contains_iff split: if_splits option.splits)+\<close>)

lemma apply_kind_roles:
  assumes "apply_policy_kind prev b sa sr h s = Inr t" and "role_of s = role_of prev"
    and "role_of prev sa = Some sr"
  shows "role_of t = roles_after (pol_kind b) sa (role_of prev)"
proof -
  have upd: "role_of (s\<lparr>sn_former := f, sn_members := bt_insert a m (sn_members s)\<rparr>) =
      (role_of s)(a \<mapsto> mem_role m)" for f a m
    by (auto simp: role_of_def fun_eq_iff)
  have del: "role_of (s\<lparr>sn_members := bt_remove a (sn_members s), sn_former := f\<rparr>) = (role_of s)(a := None)" for a f
    by (auto simp: role_of_def fun_eq_iff)
  have frame: "role_of (s\<lparr>sn_domains := d\<rparr>) = role_of s"
    "role_of (s\<lparr>sn_used_domains := u, sn_domains := d\<rparr>) = role_of s" for u d
    by (simp_all add: role_of_def [abs_def])
  have none: "role_of prev a = None" if "bt_get (sn_members s) a = None" for a
    using that assms(2) [symmetric] by (simp add: role_of_def)
  show ?thesis
  proof (cases "pol_kind b")
    case (Policy_RemoveMember a)
    then have "role_of prev a \<noteq> None"
      using assms(1) by (auto simp: apply_policy_kind_def apply_remove_member_def split: option.splits)
    then obtain m where "bt_get (sn_members s) a = Some m"
      using none [of a] by (cases "bt_get (sn_members s) a") auto
    then show ?thesis
      using assms Policy_RemoveMember
      by (auto simp: apply_policy_kind_def apply_remove_member_def roles_after_def del
          split: if_splits option.splits)
  qed (use assms in \<open>auto simp: apply_policy_kind_def kind_defs roles_after_def contains_member Let_def
      upd frame fun_eq_iff simp del: bt_contains_iff split: if_splits option.splits\<close>)
qed

text \<open>
  The well-formedness of a snapshot: one owner; the workspace domain is live and is the one
  unrestricted domain; grants name members only; at most 256 domains, all of them used IDs.
\<close>

definition one_owner :: "snapshot \<Rightarrow> bool" where
  "one_owner s \<longleftrightarrow> (\<exists>a. role_of s a = Some Owner \<and> (\<forall>b. role_of s b = Some Owner \<longrightarrow> b = a))"

definition domain_ok :: "snapshot \<Rightarrow> ident \<Rightarrow> domain_state \<Rightarrow> bool" where
  "domain_ok s d ds \<longleftrightarrow> (dom_restricted ds \<longleftrightarrow> d \<noteq> sn_workspace_domain s)
     \<and> (\<not> dom_restricted ds \<longrightarrow> bt_get (dom_access ds) = Map.empty)
     \<and> (\<forall>a l. bt_get (dom_access ds) a = Some l \<longrightarrow> role_of s a \<noteq> None)"

definition domains_ok :: "snapshot \<Rightarrow> bool" where
  "domains_ok s \<longleftrightarrow> bt_get (sn_domains s) (sn_workspace_domain s) \<noteq> None
     \<and> (\<forall>d ds. bt_get (sn_domains s) d = Some ds \<longrightarrow> domain_ok s d ds)
     \<and> bt_len (sn_domains s) \<le> MAX_DOMAINS \<and> dom (bt_get (sn_domains s)) \<subseteq> sn_used_domains s"

lemma one_owner_after:
  assumes "one_owner s" and "authorized kind sa sr s" and "role_of s sa = Some sr"
    and "role_of t = roles_after kind sa (role_of s)"
  shows "one_owner t"
proof -
  show ?thesis
  proof (cases "\<exists>a. kind = Policy_TransferOwner a")
    case True
    then obtain a where a: "kind = Policy_TransferOwner a" by blast
    have sa: "role_of s sa = Some Owner" and "a \<noteq> sa"
      using assms(2,3) by (simp_all add: a authorized_def)
    have t: "role_of t = (role_of s)(sa \<mapsto> Admin, a \<mapsto> Owner)"
      using assms(4) by (simp add: a roles_after_def)
    have "role_of t a = Some Owner" by (simp add: t)
    moreover have "b = a" if "role_of t b = Some Owner" for b
      using that assms(1) sa unfolding one_owner_def t by (metis fun_upd_apply option.inject role.distinct(1))
    ultimately show ?thesis unfolding one_owner_def by blast
  next
    case False
    have "role_of t b = Some Owner \<longleftrightarrow> role_of s b = Some Owner" for b
      using False assms(2,4) by (cases kind) (auto simp: authorized_def roles_after_def)
    then show ?thesis using assms(1) by (simp add: one_owner_def)
  qed
qed

lemma bt_len_insert_le: "bt_len (bt_insert k v m) \<le> Suc (bt_len m)"
  by (simp add: bt_len_card dom_fun_upd card_insert_if)

lemma bt_len_le:
  assumes "dom (bt_get m) \<subseteq> dom (bt_get m')" shows "bt_len m \<le> bt_len m'"
  unfolding bt_len_card using assms by (rule card_mono [OF bt_finite_dom])

lemma bt_get_access_map: "bt_get (access_map as) a = Some l \<Longrightarrow> a \<in> access_account ` set as"
  by (auto simp: access_map_def dest!: map_of_SomeD)

lemma domains_ok_mono:
  assumes "domains_ok s" and "sn_domains t = sn_domains s" and "sn_used_domains t = sn_used_domains s"
    and "sn_workspace_domain t = sn_workspace_domain s"
    and "\<And>a. role_of s a \<noteq> None \<Longrightarrow> role_of t a \<noteq> None"
  shows "domains_ok t"
  using assms unfolding domains_ok_def domain_ok_def by metis

lemma domains_ok_drop:
  assumes ok: "domains_ok s"
    and get: "\<And>d. bt_get (sn_domains t) d =
      map_option (\<lambda>ds. ds\<lparr>dom_access := bt_remove a (dom_access ds)\<rparr>) (bt_get (sn_domains s) d)"
    and same: "sn_used_domains t = sn_used_domains s" "sn_workspace_domain t = sn_workspace_domain s"
    and roles: "\<And>x. x \<noteq> a \<Longrightarrow> role_of s x \<noteq> None \<Longrightarrow> role_of t x \<noteq> None"
  shows "domains_ok t"
  unfolding domains_ok_def
proof (intro conjI allI impI)
  have dom: "dom (bt_get (sn_domains t)) = dom (bt_get (sn_domains s))"
    by (auto simp: get dom_def)
  show "bt_get (sn_domains t) (sn_workspace_domain t) \<noteq> None"
    using ok by (simp add: domains_ok_def get same)
  show "bt_len (sn_domains t) \<le> MAX_DOMAINS" "dom (bt_get (sn_domains t)) \<subseteq> sn_used_domains t"
    using ok by (simp_all add: domains_ok_def bt_len_card dom same)
  fix d ds assume "bt_get (sn_domains t) d = Some ds"
  then obtain ds0 where ds0: "bt_get (sn_domains s) d = Some ds0"
    and ds: "ds = ds0\<lparr>dom_access := bt_remove a (dom_access ds0)\<rparr>"
    by (auto simp: get)
  have "domain_ok s d ds0" using ok ds0 by (simp add: domains_ok_def)
  then show "domain_ok t d ds"
    using roles by (auto simp: domain_ok_def ds same fun_eq_iff split: if_splits)
qed

lemma domains_ok_insert:
  assumes ok: "domains_ok s" and "domain_ok s d ds" and "d \<in> sn_used_domains t"
    and t: "sn_domains t = bt_insert d ds (sn_domains s)" "sn_used_domains s \<subseteq> sn_used_domains t"
      "sn_workspace_domain t = sn_workspace_domain s" "role_of t = role_of s"
    and len: "bt_len (bt_insert d ds (sn_domains s)) \<le> MAX_DOMAINS"
  shows "domains_ok t"
  using assms unfolding domains_ok_def domain_ok_def by (auto split: if_splits)

lemma bt_adjust_insert: "bt_get m k = Some v \<Longrightarrow> bt_adjust k f m = bt_insert k (f v) m"
  by (rule bt_ext) auto

lemma bt_len_replace: "bt_get m k = Some v \<Longrightarrow> bt_len (bt_insert k w m) = bt_len m"
  by (simp add: bt_len_card dom_fun_upd insert_absorb domI)

lemma role_of_members: "sn_members s = sn_members t \<Longrightarrow> role_of s = role_of t"
  by (simp add: role_of_def [abs_def])

lemma apply_create_ok:
  assumes step: "apply_create_domain prev b sa sr d marker as s = Inr t"
    and same: "sn_domains s = sn_domains prev" "sn_used_domains s = sn_used_domains prev"
      "sn_workspace_domain s = sn_workspace_domain prev" "sn_members s = sn_members prev"
    and ok: "domains_ok prev"
  shows "domains_ok t"
proof -
  let ?ds = "\<lparr>dom_restricted = True, dom_marker_rid = Some marker, dom_access = access_map as,
    dom_created_at = pol_revision b, dom_creator = pol_signer b\<rparr>"
  have new: "d \<notin> sn_used_domains prev" and len: "bt_len (sn_domains prev) < MAX_DOMAINS"
    and members: "list_all (bt_contains (sn_members prev)) (bt_keys (access_map as))"
    and t: "t = s\<lparr>sn_used_domains := insert d (sn_used_domains s), sn_domains := bt_insert d ?ds (sn_domains s)\<rparr>"
    using step same by (auto simp: apply_create_domain_def Let_def split: if_splits)
  have "d \<noteq> sn_workspace_domain prev"
    using ok new by (auto simp: domains_ok_def)
  moreover have "role_of prev a \<noteq> None" if "bt_get (access_map as) a = Some l" for a l
  proof -
    have "a \<in> set (bt_keys (access_map as))" using that by auto
    then show ?thesis using members by (auto simp: list_all_iff role_of_def)
  qed
  ultimately have "domain_ok prev d ?ds" by (simp add: domain_ok_def)
  moreover have "bt_len (bt_insert d ?ds (sn_domains prev)) \<le> MAX_DOMAINS"
    using bt_len_insert_le [of d ?ds "sn_domains prev"] len by simp
  ultimately show ?thesis
    using ok same role_of_members [of t prev] by (intro domains_ok_insert [of prev d ?ds t]) (auto simp: t)
qed

lemma apply_set_access_ok:
  assumes step: "apply_set_access prev b sa sr d as s = Inr t"
    and same: "sn_domains s = sn_domains prev" "sn_used_domains s = sn_used_domains prev"
      "sn_workspace_domain s = sn_workspace_domain prev" "sn_members s = sn_members prev"
    and ok: "domains_ok prev"
  shows "domains_ok t"
proof -
  obtain current where cur: "bt_get (sn_domains prev) d = Some current" "dom_restricted current"
    and members: "list_all (bt_contains (sn_members prev)) (bt_keys (access_map as))"
    and t: "t = s\<lparr>sn_domains := bt_adjust d (\<lambda>ds. ds\<lparr>dom_access := access_map as\<rparr>) (sn_domains s)\<rparr>"
    using step by (auto simp: apply_set_access_def Let_def split: if_splits option.splits)
  let ?ds = "current\<lparr>dom_access := access_map as\<rparr>"
  have "role_of prev a \<noteq> None" if "bt_get (access_map as) a = Some l" for a l
  proof -
    have "a \<in> set (bt_keys (access_map as))" using that by auto
    then show ?thesis using members by (auto simp: list_all_iff role_of_def)
  qed
  moreover have "domain_ok prev d current" using ok cur(1) by (simp add: domains_ok_def)
  ultimately have "domain_ok prev d ?ds" using cur(2) by (auto simp: domain_ok_def)
  moreover have "d \<in> sn_used_domains prev" using ok cur(1) by (auto simp: domains_ok_def)
  moreover have "bt_len (bt_insert d ?ds (sn_domains prev)) \<le> MAX_DOMAINS"
    using ok bt_len_replace [OF cur(1), of ?ds] by (simp add: domains_ok_def)
  ultimately show ?thesis
    using ok same role_of_members [of t prev] bt_adjust_insert [OF cur(1)]
    by (intro domains_ok_insert [of prev d ?ds t]) (auto simp: t)
qed

lemma apply_delete_ok:
  assumes step: "apply_delete_domain prev b sa sr d s = Inr t"
    and same: "sn_domains s = sn_domains prev" "sn_used_domains s = sn_used_domains prev"
      "sn_workspace_domain s = sn_workspace_domain prev" "sn_members s = sn_members prev"
    and ok: "domains_ok prev"
  shows "domains_ok t"
proof -
  obtain ds where ds: "bt_get (sn_domains prev) d = Some ds" "dom_restricted ds"
    and t: "t = s\<lparr>sn_domains := bt_remove d (sn_domains s)\<rparr>"
    using step by (auto simp: apply_delete_domain_def split: if_splits option.splits)
  have roles: "role_of t = role_of prev" using same by (intro role_of_members) (simp add: t)
  have "domain_ok prev d ds" using ok ds(1) by (simp add: domains_ok_def)
  then have "d \<noteq> sn_workspace_domain prev" using ds(2) by (simp add: domain_ok_def)
  moreover have "bt_len (bt_remove d (sn_domains prev)) \<le> bt_len (sn_domains prev)"
    by (rule bt_len_le) (auto simp: dom_def)
  ultimately show ?thesis
    using ok same roles unfolding domains_ok_def domain_ok_def t by (auto split: if_splits)
qed

lemma apply_kind_domains:
  assumes step: "apply_policy_kind prev b sa sr h s = Inr t"
    and auth: "authorized (pol_kind b) sa sr prev"
    and sa: "role_of prev sa = Some sr"
    and same: "sn_domains s = sn_domains prev" "sn_used_domains s = sn_used_domains prev"
      "sn_workspace_domain s = sn_workspace_domain prev" "sn_members s = sn_members prev"
    and ok: "domains_ok prev"
  shows "domains_ok t"
proof -
  note roles = apply_kind_roles [OF step role_of_members [OF same(4)] sa]
  show ?thesis
  proof (cases "pol_kind b")
    case (Policy_RemoveMember a)
    then have "role_of prev a \<noteq> None" using auth by (simp add: authorized_def)
    then obtain m where "bt_get (sn_members s) a = Some m"
      using same(4) by (cases "bt_get (sn_members s) a") (auto simp: role_of_def)
    then have t: "t = drop_grants a (s\<lparr>sn_members := bt_remove a (sn_members s),
          sn_former := bt_insert a (mem_head m) (sn_former s)\<rparr>)"
      using step Policy_RemoveMember
      by (auto simp: apply_policy_kind_def apply_remove_member_def split: if_splits option.splits)
    show ?thesis
      using ok by (rule domains_ok_drop [where a = a])
        (use same in \<open>simp_all add: t drop_grants_def role_of_def\<close>)
  next
    case (Policy_AcceptReset a)
    then have t: "t = drop_grants a s"
      using step by (auto simp: apply_policy_kind_def apply_accept_reset_def split: if_splits)
    show ?thesis
      using ok by (rule domains_ok_drop [where a = a])
        (use same in \<open>simp_all add: t drop_grants_def role_of_def\<close>)
  next
    case (Policy_CreateDomain d marker as)
    then show ?thesis
      using apply_create_ok [OF _ same ok] step by (simp add: apply_policy_kind_def)
  next
    case (Policy_SetAccess d as)
    then show ?thesis
      using apply_set_access_ok [OF _ same ok] step by (simp add: apply_policy_kind_def)
  next
    case (Policy_DeleteDomain d)
    then show ?thesis
      using apply_delete_ok [OF _ same ok] step by (simp add: apply_policy_kind_def)
  next
    case (Policy_Genesis d)
    then show ?thesis using step by (simp add: apply_policy_kind_def)
  next
    case Policy_AccountHeads
    then have "t = s" using step
      by (simp add: apply_policy_kind_def apply_account_heads_def Let_def split: if_splits)
    then show ?thesis using same role_of_members [OF same(4)] by (intro domains_ok_mono [OF ok]) auto
  next
    case (Policy_AddMember a r i)
    then have "sn_domains t = sn_domains s" "sn_used_domains t = sn_used_domains s"
      "sn_workspace_domain t = sn_workspace_domain s"
      using step by (auto simp: apply_policy_kind_def apply_add_member_def Let_def split: if_splits)
    then show ?thesis using same roles Policy_AddMember
      by (intro domains_ok_mono [OF ok]) (auto simp: roles_after_def)
  next
    case (Policy_SetRole a r)
    then have "sn_domains t = sn_domains s" "sn_used_domains t = sn_used_domains s"
      "sn_workspace_domain t = sn_workspace_domain s"
      using step by (auto simp: apply_policy_kind_def apply_set_role_def set_member_role_def
          split: if_splits option.splits)
    then show ?thesis using same roles Policy_SetRole
      by (intro domains_ok_mono [OF ok]) (auto simp: roles_after_def)
  next
    case (Policy_TransferOwner a)
    then have "sn_domains t = sn_domains s" "sn_used_domains t = sn_used_domains s"
      "sn_workspace_domain t = sn_workspace_domain s"
      using step by (auto simp: apply_policy_kind_def apply_transfer_owner_def set_member_role_def
          split: if_splits)
    then show ?thesis using same roles Policy_TransferOwner
      by (intro domains_ok_mono [OF ok]) (auto simp: roles_after_def)
  qed
qed

end
