(* ===== verification/Policy_Theorems.thy ===== *)
theory Policy_Theorems
  imports Policy_Invariant
begin

text \<open>
  The theorems on verified policies: the invariant of every revision, the authority and effect
  of a change, the rotations it makes due, the heads it may record, and the chain's binding.
\<close>

subsection \<open>One accepted change\<close>

definition devices_exact :: "account_chains \<Rightarrow> snapshot \<Rightarrow> bool" where
  "devices_exact acs s \<longleftrightarrow> (\<forall>d wd. bt_get (sn_devices s) d = Some wd \<longleftrightarrow>
     (\<exists>account m st. member_card acs s account m st \<and> d = card_device (cs_card st)
        \<and> wd = \<lparr>wd_account = account, wd_card = cs_card st, wd_recovery = cs_recovery st\<rparr>))"

definition snapshot_ok :: "account_chains \<Rightarrow> snapshot \<Rightarrow> bool" where
  "snapshot_ok acs s \<longleftrightarrow> one_owner s \<and> domains_ok s \<and> indices_ok (sn_card_indices s)
     \<and> devices_exact acs s \<and> dom (bt_get (sn_devices s)) \<subseteq> dom (bt_get (sn_card_indices s))
     \<and> (\<forall>d \<in> dom (bt_get (sn_domains s)). card (readers s d) \<le> MAX_READERS)"

lemma start_next_simps [simp]:
  "sn_members (start_next cr prev c) = sn_members prev" "sn_domains (start_next cr prev c) = sn_domains prev"
  "sn_used_domains (start_next cr prev c) = sn_used_domains prev"
  "sn_workspace_domain (start_next cr prev c) = sn_workspace_domain prev"
  "sn_card_indices (start_next cr prev c) = sn_card_indices prev"
  "sn_card_chains (start_next cr prev c) = sn_card_chains prev"
  "sn_former (start_next cr prev c) = sn_former prev" "sn_gone (start_next cr prev c) = sn_gone prev"
  "sn_own_heads (start_next cr prev c) = sn_own_heads prev" "sn_rotations (start_next cr prev c) = {}"
  "sn_revision (start_next cr prev c) = pol_revision (body c)"
  "sn_digest (start_next cr prev c) = signed_change_digest cr c"
  "sn_signer (start_next cr prev c) = pol_signer (body c)"
  "role_of (start_next cr prev c) = role_of prev"
  by (simp_all add: start_next_def role_of_def [abs_def])

lemma apply_kind_rest:
  assumes "apply_policy_kind prev b sa sr h s = Inr t"
  shows "same_rest s t \<and> sn_gone t = sn_gone s \<and> sn_own_heads t = sn_own_heads s"
  using assms
  by (cases "pol_kind b") (auto simp: apply_policy_kind_def kind_defs same_rest_def set_member_role_def
      drop_grants_def Let_def split: if_splits option.splits)

lemma apply_kind_used:
  assumes "apply_policy_kind prev b sa sr h s = Inr t"
  shows "sn_used_domains s \<subseteq> sn_used_domains t"
  using assms
  by (cases "pol_kind b") (auto simp: apply_policy_kind_def kind_defs set_member_role_def
      drop_grants_def Let_def split: if_splits option.splits)

text \<open>An accepted change, taken apart once.\<close>

lemma accepted_change:
  assumes check: "check_change cr p change acs = Inr t" and ok: "snapshot_ok acs (head_snapshot p)"
  obtains h c sr s u where
    "pol_revision (body change) = sn_revision (head_snapshot p) + 1"
    "h \<in> set (pol_heads (body change))" "chain_of acs h = Some c"
    "check_signer cr change c h = Inr ()"
    "role_of (head_snapshot p) (ah_account h) = Some sr"
    "heads_rules (head_snapshot p) (body change) (ah_account h) h = Inr ()"
    "authorized (pol_kind (body change)) (ah_account h) sr (head_snapshot p)"
    "apply_policy_kind (head_snapshot p) (body change) (ah_account h) sr h
       (start_next cr (head_snapshot p) change) = Inr s"
    "u = record_gone acs (pol_heads (body change))
       (record_heads (head_snapshot p) (ah_account h) (pol_heads (body change)) s)"
    "finish_snapshot u (head_snapshot p) acs (pol_revision (body change)) = Inr t"
    "same_core u t" "indices_ok (sn_card_indices u)"
    "sn_card_indices u = sn_card_indices (head_snapshot p)" "sn_rotations u = {}"
    "role_of t = roles_after (pol_kind (body change)) (ah_account h) (role_of (head_snapshot p))"
    "sn_domains t = sn_domains s" "sn_revision t = pol_revision (body change)"
    "sn_digest t = signed_change_digest cr change" "sn_signer t = pol_signer (body change)"
    "sn_workspace_domain t = sn_workspace_domain (head_snapshot p)"
    "sn_used_domains t = sn_used_domains s" "sn_former t = sn_former s"
    "sn_gone (head_snapshot p) \<subseteq> sn_gone t"
proof -
  let ?prev = "head_snapshot p" and ?b = "body change"
  obtain h sr c s where
    basics: "pol_revision ?b = sn_revision ?prev + 1" "h \<in> set (pol_heads ?b)" "chain_of acs h = Some c"
      "check_signer cr change c h = Inr ()" "role_of ?prev (ah_account h) = Some sr"
    and rules: "heads_rules ?prev ?b (ah_account h) h = Inr ()"
    and kind: "apply_policy_kind ?prev ?b (ah_account h) sr h (start_next cr ?prev change) = Inr s"
    and fin: "finish_snapshot (record_gone acs (pol_heads ?b)
        (record_heads ?prev (ah_account h) (pol_heads ?b) s)) ?prev acs (pol_revision ?b) = Inr t"
    using check by (rule check_changeE)
  let ?u = "record_gone acs (pol_heads ?b) (record_heads ?prev (ah_account h) (pol_heads ?b) s)"
  note rest = apply_kind_rest [OF kind]
  note gone = record_gone_frame [of "record_heads ?prev (ah_account h) (pol_heads ?b) s" acs "pol_heads ?b"]
  note heads = record_heads_frame [of s ?prev "ah_account h" "pol_heads ?b"]
  have idx: "sn_card_indices ?u = sn_card_indices ?prev"
    using rest gone heads by (simp add: same_rest_def)
  then have iok: "indices_ok (sn_card_indices ?u)" using ok by (simp add: snapshot_ok_def)
  have core: "same_core ?u t" using finish_snapshot_Inr(1) [OF fin iok] .
  have "named_new (pol_kind ?b) \<noteq> Some (ah_account h)"
    using rules by (auto simp: heads_rules_def Let_def)
  then have auth: "authorized (pol_kind ?b) (ah_account h) sr ?prev"
    by (rule apply_kind_authorized [OF kind])
  have "role_of s = roles_after (pol_kind ?b) (ah_account h) (role_of ?prev)"
    using apply_kind_roles [OF kind _ basics(5)] by simp
  moreover have "role_of t = role_of s"
  proof
    fix a
    have "role_of t a = role_of ?u a" using core by (simp add: same_core_def role_of_def)
    also have "\<dots> = role_of (record_heads ?prev (ah_account h) (pol_heads ?b) s) a"
      using gone by (simp add: role_of_def)
    also have "\<dots> = role_of s a" using heads by blast
    finally show "role_of t a = role_of s a" .
  qed
  ultimately have "role_of t = roles_after (pol_kind ?b) (ah_account h) (role_of ?prev)" by simp
  moreover have "sn_gone ?prev \<subseteq> sn_gone t"
    using rest gone heads core by (simp add: same_core_def)
  ultimately show ?thesis
    using basics rules auth kind fin core iok idx rest gone heads
    by (intro that [of h c sr s ?u]) (simp_all add: same_core_def same_rest_def)
qed

lemma accepted_ok:
  assumes check: "check_change cr p change acs = Inr t" and ok: "snapshot_ok acs (head_snapshot p)"
  shows "snapshot_ok acs t"
  using check ok
proof (rule accepted_change)
  let ?prev = "head_snapshot p" and ?b = "body change"
  fix h c sr s u
  assume role: "role_of ?prev (ah_account h) = Some sr"
    and auth: "authorized (pol_kind ?b) (ah_account h) sr ?prev"
    and kind: "apply_policy_kind ?prev ?b (ah_account h) sr h (start_next cr ?prev change) = Inr s"
    and fin: "finish_snapshot u ?prev acs (pol_revision ?b) = Inr t"
    and core: "same_core u t" and iok: "indices_ok (sn_card_indices u)"
    and roles: "role_of t = roles_after (pol_kind ?b) (ah_account h) (role_of ?prev)"
    and doms: "sn_domains t = sn_domains s" "sn_workspace_domain t = sn_workspace_domain ?prev"
      "sn_used_domains t = sn_used_domains s"
  have "domains_ok s"
    using ok by (intro apply_kind_domains [OF kind auth role]) (simp_all add: snapshot_ok_def)
  moreover have "role_of s = role_of t"
    using apply_kind_roles [OF kind _ role] roles by simp
  moreover have "sn_workspace_domain s = sn_workspace_domain t"
    using apply_kind_rest [OF kind] doms(2) by (simp add: same_rest_def)
  ultimately have "domains_ok t"
    using doms by (intro domains_ok_mono [of s t]) simp_all
  moreover have "one_owner t"
    using ok by (intro one_owner_after [OF _ auth role roles]) (simp add: snapshot_ok_def)
  moreover have "devices_exact acs t"
    using finish_snapshot_Inr(3) [OF fin iok] core
    by (simp add: devices_exact_def member_card_def same_core_def)
  moreover have "sn_domains u = sn_domains t" using core by (simp add: same_core_def)
  ultimately show "snapshot_ok acs t"
    using finish_snapshot_Inr(4,6,7) [OF fin iok] by (auto simp: snapshot_ok_def)
qed

subsection \<open>A whole chain\<close>

lemma verify_policy_snoc:
  "cs \<noteq> [] \<Longrightarrow> verify_policy cr (cs @ [c]) acs =
     and_then (verify_policy cr cs acs) (\<lambda>p. append_change cr p c acs)"
  by (cases cs) (simp_all add: and_then_assoc try_fold_append)

lemma verify_policy_induct [consumes 1, case_names genesis append]:
  assumes "verify_policy cr cs acs = Inr p"
    and "\<And>c p. policy_from_genesis cr c acs = Inr p \<Longrightarrow> P [c] p"
    and "\<And>cs c p t. verify_policy cr cs acs = Inr p \<Longrightarrow> cs \<noteq> [] \<Longrightarrow> P cs p \<Longrightarrow>
      check_change cr p c acs = Inr t \<Longrightarrow>
      P (cs @ [c]) (p\<lparr>pc_changes := pc_changes p @ [c], pc_snapshots := pc_snapshots p @ [t]\<rparr>)"
  shows "P cs p"
  using assms(1)
proof (induction cs arbitrary: p rule: rev_induct)
  case Nil
  then show ?case by simp
next
  case (snoc c cs)
  show ?case
  proof (cases "cs = []")
    case True
    then show ?thesis using snoc.prems assms(2) by simp
  next
    case False
    then show ?thesis using snoc assms(3) by (auto simp: verify_policy_snoc append_change_def)
  qed
qed

lemma policy_from_genesisE:
  assumes "policy_from_genesis cr c acs = Inr p"
  obtains wd h ac t where "pol_revision (body c) = 1" "pol_previous (body c) = ZERO_digest"
    "pol_kind (body c) = Policy_Genesis wd" "pol_heads (body c) = [h]"
    "chain_of acs h = Some ac" "check_signer cr c ac h = Inr ()"
    "finish_snapshot (genesis_snapshot cr c wd h) (genesis_snapshot cr c wd h) acs 1 = Inr t"
    "p = \<lparr>pc_workspace = pol_workspace (body c), pc_changes = [c], pc_snapshots = [t]\<rparr>"
  using assms by (auto simp: policy_from_genesis_def Let_def split: if_splits policy_kind.splits list.splits)

lemma genesis_snapshot_ok:
  assumes fin: "finish_snapshot (genesis_snapshot cr c wd h) prev acs r = Inr t"
  shows "snapshot_ok acs t"
proof -
  let ?s = "genesis_snapshot cr c wd h"
  have iok: "indices_ok (sn_card_indices ?s)" by (simp add: genesis_snapshot_def indices_ok_def)
  note f = finish_snapshot_Inr [OF fin iok]
  have role: "role_of t a = (if a = ah_account h then Some Owner else None)" for a
    using f(1) by (simp add: same_core_def role_of_def genesis_snapshot_def)
  have doms: "sn_domains t = sn_domains ?s" "sn_workspace_domain t = wd" "sn_used_domains t = {wd}"
    using f(1) by (simp_all add: same_core_def genesis_snapshot_def)
  have "one_owner t" by (auto simp: one_owner_def role)
  moreover have "domains_ok t"
    by (auto simp: domains_ok_def domain_ok_def doms genesis_snapshot_def bt_len_card MAX_DOMAINS_def
        dom_def split: if_splits)
  moreover have "devices_exact acs t"
    using f(1,3) by (simp add: devices_exact_def member_card_def same_core_def)
  ultimately show ?thesis
    using f(4,6,7) doms(1) by (auto simp: snapshot_ok_def)
qed

lemma verify_policy_structure:
  "verify_policy cr cs acs = Inr p \<Longrightarrow>
   pc_changes p = cs \<and> cs \<noteq> [] \<and> length (pc_snapshots p) = length cs
   \<and> (\<forall>i < length cs. sn_digest (pc_snapshots p ! i) = signed_change_digest cr (cs ! i)
        \<and> sn_revision (pc_snapshots p ! i) = of_nat (Suc i) \<and> pol_revision (body (cs ! i)) = of_nat (Suc i)
        \<and> (0 < i \<longrightarrow> pol_previous (body (cs ! i)) = signed_change_digest cr (cs ! (i - 1)))
        \<and> snapshot_ok acs (pc_snapshots p ! i))
   \<and> (\<forall>c \<in> set cs. pol_workspace (body c) = pc_workspace p)"
proof (induction rule: verify_policy_induct)
  case (genesis c p)
  then obtain wd h ac t where g: "pol_revision (body c) = 1"
    "finish_snapshot (genesis_snapshot cr c wd h) (genesis_snapshot cr c wd h) acs 1 = Inr t"
    "p = \<lparr>pc_workspace = pol_workspace (body c), pc_changes = [c], pc_snapshots = [t]\<rparr>"
    by (rule policy_from_genesisE)
  have "same_core (genesis_snapshot cr c wd h) t"
    by (rule finish_snapshot_Inr(1) [OF g(2)]) (simp add: genesis_snapshot_def indices_ok_def)
  then show ?case
    using g genesis_snapshot_ok [OF g(2)] by (simp add: same_core_def genesis_snapshot_def)
next
  case (append cs c p t)
  then have n: "length (pc_snapshots p) = length cs" and ne: "cs \<noteq> []" by simp_all
  then have head: "head_snapshot p = pc_snapshots p ! (length cs - 1)"
    by (metis head_snapshot_def last_conv_nth length_0_conv)
  have i: "length cs - 1 < length cs" using ne by simp
  then have ok: "snapshot_ok acs (head_snapshot p)" using append.IH head by simp
  have rev: "sn_revision (head_snapshot p) = of_nat (length cs)"
  proof -
    obtain m where "length cs = Suc m" using ne by (cases "length cs") auto
    then show ?thesis using append.IH head by simp
  qed
  have dig: "sn_digest (head_snapshot p) = signed_change_digest cr (cs ! (length cs - 1))"
    using append.IH head i by simp
  have "pol_revision (body c) = of_nat (Suc (length cs))" "sn_digest t = signed_change_digest cr c"
    "sn_revision t = of_nat (Suc (length cs))"
    using append.hyps(3) ok by (rule accepted_change; simp add: rev)+
  moreover have "pol_previous (body c) = signed_change_digest cr (cs ! (length cs - 1))"
    and "pol_workspace (body c) = pc_workspace p"
    using append.hyps(3) dig by (auto elim!: check_changeE)
  ultimately show ?case
    using append.IH n accepted_ok [OF append.hyps(3) ok] by (auto simp: nth_append less_Suc_eq)
qed

text \<open>Every revision's state, by index.\<close>

lemma snapshot_at_ok:
  assumes "verify_policy cr cs acs = Inr p" and "snapshot_at p r = Some s"
  shows "snapshot_ok acs s"
proof -
  have "unat (r - 1) < length cs" and "s = pc_snapshots p ! unat (r - 1)"
    using assms verify_policy_structure [OF assms(1)] by (auto simp: snapshot_at_def Let_def split: if_splits)
  then show ?thesis using verify_policy_structure [OF assms(1)] by simp
qed

lemma head_snapshot_nth:
  assumes "verify_policy cr cs acs = Inr p"
  shows "head_snapshot p = pc_snapshots p ! (length cs - 1) \<and> length cs - 1 < length cs"
proof -
  have "length (pc_snapshots p) = length cs" and "cs \<noteq> []"
    using verify_policy_structure [OF assms] by blast+
  then show ?thesis by (metis head_snapshot_def last_conv_nth length_0_conv diff_less length_greater_0_conv zero_less_one)
qed

lemma head_snapshot_ok: "verify_policy cr cs acs = Inr p \<Longrightarrow> snapshot_ok acs (head_snapshot p)"
  using head_snapshot_nth [of cr cs acs p] verify_policy_structure [of cr cs acs p] by simp

subsection \<open>Properties of every revision\<close>

text \<open>
  C2. At every revision of a verified policy exactly one member account is the owner; the
  workspace domain is live and is the one unrestricted domain; grants name members only, and
  the workspace domain carries none; and the workspace holds at most 256 domains, each with at
  most 512 readers.
\<close>

theorem policy_membership_invariant:
  assumes "verify_policy cr changes acs = Inr p" and "snapshot_at p r = Some s"
  shows "(\<exists>!a. role_of s a = Some Owner)
    \<and> bt_get (sn_domains s) (sn_workspace_domain s) \<noteq> None
    \<and> bt_len (sn_domains s) \<le> MAX_DOMAINS
    \<and> (\<forall>d ds. bt_get (sn_domains s) d = Some ds \<longrightarrow>
        (dom_restricted ds \<longleftrightarrow> d \<noteq> sn_workspace_domain s)
        \<and> (\<not> dom_restricted ds \<longrightarrow> dom (bt_get (dom_access ds)) = {})
        \<and> (\<forall>a \<in> dom (bt_get (dom_access ds)). role_of s a \<noteq> None)
        \<and> card (readers s d) \<le> MAX_READERS)"
proof -
  have ok: "one_owner s" "domains_ok s" "\<forall>d \<in> dom (bt_get (sn_domains s)). card (readers s d) \<le> MAX_READERS"
    using snapshot_at_ok [OF assms] by (simp_all add: snapshot_ok_def)
  have "\<exists>!a. role_of s a = Some Owner" using ok(1) unfolding one_owner_def by blast
  moreover have "(dom_restricted ds \<longleftrightarrow> d \<noteq> sn_workspace_domain s)
        \<and> (\<not> dom_restricted ds \<longrightarrow> dom (bt_get (dom_access ds)) = {})
        \<and> (\<forall>a \<in> dom (bt_get (dom_access ds)). role_of s a \<noteq> None)
        \<and> card (readers s d) \<le> MAX_READERS" if get: "bt_get (sn_domains s) d = Some ds" for d ds
  proof -
    have "domain_ok s d ds" using ok(2) get by (simp add: domains_ok_def)
    then show ?thesis using ok(3) get by (auto simp: domain_ok_def)
  qed
  ultimately show ?thesis using ok(2) by (simp add: domains_ok_def)
qed

text \<open>
  The devices of a revision are exactly the cards active at the head the policy records
  for each member account, each under the account whose chain lists it; and every one of them
  has a card index from 1 to 16,777,215 that no other card of the workspace has.
\<close>

theorem policy_devices:
  assumes "verify_policy cr changes acs = Inr p" and "snapshot_at p r = Some s"
  shows "(\<forall>d wd. bt_get (sn_devices s) d = Some wd \<longleftrightarrow>
      (\<exists>account m c st. bt_get (sn_members s) account = Some m \<and> chain_of acs (mem_head m) = Some c
        \<and> st \<in> set (active_states c (ah_seqno (mem_head m))) \<and> d = card_device (cs_card st)
        \<and> wd = \<lparr>wd_account = account, wd_card = cs_card st, wd_recovery = cs_recovery st\<rparr>))
    \<and> (\<forall>d. is_device s d \<longrightarrow> (\<exists>v. bt_get (sn_card_indices s) d = Some v))
    \<and> (\<forall>d v. bt_get (sn_card_indices s) d = Some v \<longrightarrow> 1 \<le> v \<and> v \<le> MAX_CARD_INDEX
        \<and> (\<forall>e. bt_get (sn_card_indices s) e = Some v \<longrightarrow> e = d))"
proof -
  have ok: "devices_exact acs s" "dom (bt_get (sn_devices s)) \<subseteq> dom (bt_get (sn_card_indices s))"
    "indices_ok (sn_card_indices s)"
    using snapshot_at_ok [OF assms] by (simp_all add: snapshot_ok_def)
  have "(\<exists>account m st. member_card acs s account m st \<and> P account st) \<longleftrightarrow>
      (\<exists>account m c st. bt_get (sn_members s) account = Some m \<and> chain_of acs (mem_head m) = Some c
        \<and> st \<in> set (active_states c (ah_seqno (mem_head m))) \<and> P account st)" for P
    by (auto simp: member_card_def)
  then show ?thesis
    using ok unfolding devices_exact_def indices_ok_def is_device_def by auto
qed

text \<open>
  A device reads a domain only if it is an active card of a member account at its recorded
  head, and the account is granted the domain or holds a role while the domain is the
  workspace's; and a recovery identity neither writes nor wraps anywhere.
\<close>

theorem policy_readers:
  assumes "verify_policy cr changes acs = Inr p" and "snapshot_at p r = Some s"
  shows "(can_read s device d \<longleftrightarrow> (\<exists>account m c st ds.
        bt_get (sn_members s) account = Some m \<and> chain_of acs (mem_head m) = Some c
        \<and> st \<in> set (active_states c (ah_seqno (mem_head m))) \<and> card_device (cs_card st) = device
        \<and> bt_get (sn_domains s) d = Some ds
        \<and> (d = sn_workspace_domain s \<or> bt_get (dom_access ds) account \<noteq> None)))
    \<and> (can_write s device d \<longrightarrow> can_wrap s device d)
    \<and> (can_wrap s device d \<longrightarrow> can_read s device d
        \<and> (\<exists>wd. bt_get (sn_devices s) device = Some wd \<and> \<not> wd_recovery wd))"
proof -
  have ok: "devices_exact acs s" "domains_ok s"
    using snapshot_at_ok [OF assms] by (simp_all add: snapshot_ok_def)
  have level: "account_level s a d \<noteq> None \<longleftrightarrow> (\<exists>ds. bt_get (sn_domains s) d = Some ds
      \<and> (d = sn_workspace_domain s \<or> bt_get (dom_access ds) a \<noteq> None))"
    if "role_of s a \<noteq> None" for a
  proof (cases "bt_get (sn_domains s) d")
    case (Some ds)
    then have "domain_ok s d ds" using ok(2) by (simp add: domains_ok_def)
    then show ?thesis
      using Some that by (auto simp: account_level_def domain_ok_def split: option.splits role.splits)
  qed (simp add: account_level_def)
  have dev: "can_read s device d \<longleftrightarrow> (\<exists>account m c st. bt_get (sn_members s) account = Some m
        \<and> chain_of acs (mem_head m) = Some c \<and> st \<in> set (active_states c (ah_seqno (mem_head m)))
        \<and> card_device (cs_card st) = device \<and> account_level s account d \<noteq> None)"
    (is "_ \<longleftrightarrow> ?R")
  proof
    assume "can_read s device d"
    then obtain wd where wd: "bt_get (sn_devices s) device = Some wd" "account_level s (wd_account wd) d \<noteq> None"
      by (auto simp: can_read_def device_level_def account_of_def split: option.splits)
    then obtain account m st where "member_card acs s account m st" "device = card_device (cs_card st)"
      "wd_account wd = account"
      using ok(1) unfolding devices_exact_def by (metis workspace_device.select_convs(1))
    then show ?R using wd(2) unfolding member_card_def by blast
  next
    assume ?R
    then obtain account m c st where r: "bt_get (sn_members s) account = Some m"
      "chain_of acs (mem_head m) = Some c" "st \<in> set (active_states c (ah_seqno (mem_head m)))"
      "card_device (cs_card st) = device" "account_level s account d \<noteq> None" by blast
    then have "bt_get (sn_devices s) device =
        Some \<lparr>wd_account = account, wd_card = cs_card st, wd_recovery = cs_recovery st\<rparr>"
      using ok(1) unfolding devices_exact_def member_card_def by blast
    then show "can_read s device d" using r(5) by (simp add: can_read_def device_level_def account_of_def)
  qed
  have lev: "account_level s a d \<noteq> None \<longleftrightarrow> (\<exists>ds. bt_get (sn_domains s) d = Some ds
      \<and> (d = sn_workspace_domain s \<or> bt_get (dom_access ds) a \<noteq> None))"
    if "bt_get (sn_members s) a = Some m" for a m
    using that by (intro level) (simp add: role_of_def)
  have "can_read s device d \<longleftrightarrow> (\<exists>account m c st ds.
        bt_get (sn_members s) account = Some m \<and> chain_of acs (mem_head m) = Some c
        \<and> st \<in> set (active_states c (ah_seqno (mem_head m))) \<and> card_device (cs_card st) = device
        \<and> bt_get (sn_domains s) d = Some ds
        \<and> (d = sn_workspace_domain s \<or> bt_get (dom_access ds) account \<noteq> None))"
    unfolding dev by (simp only: lev ex_simps conj_assoc cong: conj_cong)
  then show ?thesis
    by (auto simp: can_write_def can_wrap_def can_read_def signs_def split: option.splits)
qed

subsection \<open>Properties of a change\<close>

text \<open>
  C1. A change that is accepted after a verified policy is signed by a device that is active, and
  no recovery identity, at a head of a member account that the change records; the account's role
  and its place in the domain's access list allow the change as the table of \<section>8 says: an owner or admin
  who does not manage a domain may only remove entries of its access list, a domain's creator must
  manage it, and an \<open>accept_reset\<close> moves another member's head to another account chain (the
  invitation that an \<open>add_member\<close> uses up is the server's to check); and the roles
  change exactly as the kind says: in particular ownership moves only by the owner's own
  \<open>transfer_owner\<close>, and only the owner makes an admin.
\<close>

theorem policy_change_authorized:
  assumes "verify_policy cr changes acs = Inr p" and "check_change cr p change acs = Inr t"
  shows "\<exists>h c st sr. h \<in> set (pol_heads (body change)) \<and> chain_of acs h = Some c
    \<and> bt_get (ac_cards c) (pol_signer (body change)) = Some st \<and> cs_active_at st (ah_seqno h)
    \<and> \<not> cs_recovery st
    \<and> signed_verify cr enc_policy_change change (signing_public (cs_card st)) = Inr ()
    \<and> role_of (head_snapshot p) (ah_account h) = Some sr
    \<and> authorized (pol_kind (body change)) (ah_account h) sr (head_snapshot p)
    \<and> resets_chain (body change) (head_snapshot p)
    \<and> role_of t = roles_after (pol_kind (body change)) (ah_account h) (role_of (head_snapshot p))"
proof -
  have ok: "snapshot_ok acs (head_snapshot p)" using head_snapshot_ok [OF assms(1)] .
  show ?thesis
    using assms(2) ok
  proof (rule accepted_change)
    fix h c sr s u
    assume h: "h \<in> set (pol_heads (body change))" "chain_of acs h = Some c"
      "role_of (head_snapshot p) (ah_account h) = Some sr"
      "authorized (pol_kind (body change)) (ah_account h) sr (head_snapshot p)"
      "role_of t = roles_after (pol_kind (body change)) (ah_account h) (role_of (head_snapshot p))"
      and rules: "heads_rules (head_snapshot p) (body change) (ah_account h) h = Inr ()"
      and "check_signer cr change c h = Inr ()"
    have "resets_chain (body change) (head_snapshot p)"
      by (rule heads_rules_reset [OF rules]) (use h(4) in \<open>auto simp: authorized_def\<close>)
    moreover obtain st where "bt_get (ac_cards c) (pol_signer (body change)) = Some st"
      "cs_active_at st (ah_seqno h)" "\<not> cs_recovery st"
      "signed_verify cr enc_policy_change change (signing_public (cs_card st)) = Inr ()"
      using \<open>check_signer cr change c h = Inr ()\<close>
      by (auto simp: check_signer_def Let_def split: option.splits if_splits)
    ultimately show ?thesis using h by blast
  qed
qed

lemma change_rotations:
  assumes check: "check_change cr p change acs = Inr t" and ok: "snapshot_ok acs (head_snapshot p)"
  shows "d \<in> sn_rotations t \<longleftrightarrow> bt_contains (sn_domains (head_snapshot p)) d \<and> bt_contains (sn_domains t) d
    \<and> (\<exists>device. can_read (head_snapshot p) device d \<and> \<not> can_read t device d)"
  using check ok
proof (rule accepted_change)
  fix h c sr s u
  assume fin: "finish_snapshot u (head_snapshot p) acs (pol_revision (body change)) = Inr t"
    and core: "same_core u t" and iok: "indices_ok (sn_card_indices u)" and none: "sn_rotations u = {}"
  have read: "can_read x device e \<longleftrightarrow> device \<in> readers x e" for x device e
    by (auto simp: readers_def can_read_def device_level_def account_of_def split: option.splits)
  have "sn_domains u = sn_domains t" using core by (simp add: same_core_def)
  then show ?thesis
    using finish_snapshot_Inr(8) [OF fin iok] none by (auto simp: read)
qed

text \<open>
  A change makes exactly those domains due for rotation that live on both sides of it and
  that some device could read before it and cannot read after it.
\<close>

theorem policy_rotations:
  assumes "verify_policy cr changes acs = Inr p" and "check_change cr p change acs = Inr t"
  shows "d \<in> sn_rotations t \<longleftrightarrow> bt_contains (sn_domains (head_snapshot p)) d \<and> bt_contains (sn_domains t) d
    \<and> (\<exists>device. can_read (head_snapshot p) device d \<and> \<not> can_read t device d)"
  using assms(2) head_snapshot_ok [OF assms(1)] by (rule change_rotations)

text \<open>
  A change keeps every card index assigned before it, every domain ID used before it and
  every card retired before it; it is numbered one above the state it follows.
\<close>

theorem policy_monotone:
  assumes "verify_policy cr changes acs = Inr p" and "check_change cr p change acs = Inr t"
  shows "(\<forall>d v. bt_get (sn_card_indices (head_snapshot p)) d = Some v \<longrightarrow> bt_get (sn_card_indices t) d = Some v)
    \<and> sn_used_domains (head_snapshot p) \<subseteq> sn_used_domains t
    \<and> sn_gone (head_snapshot p) \<subseteq> sn_gone t
    \<and> sn_revision t = sn_revision (head_snapshot p) + 1"
proof -
  have ok: "snapshot_ok acs (head_snapshot p)" using head_snapshot_ok [OF assms(1)] .
  show ?thesis
    using assms(2) ok
  proof (rule accepted_change)
    fix h c sr s u
    assume a: "finish_snapshot u (head_snapshot p) acs (pol_revision (body change)) = Inr t"
      "indices_ok (sn_card_indices u)" "sn_card_indices u = sn_card_indices (head_snapshot p)"
      "sn_gone (head_snapshot p) \<subseteq> sn_gone t" "sn_revision t = pol_revision (body change)"
      "pol_revision (body change) = sn_revision (head_snapshot p) + 1" "sn_used_domains t = sn_used_domains s"
      "apply_policy_kind (head_snapshot p) (body change) (ah_account h) sr h
       (start_next cr (head_snapshot p) change) = Inr s"
    then show ?thesis
      using finish_snapshot_Inr(5) [OF a(1,2)] apply_kind_used [OF a(8)] by simp
  qed
qed

end
