(* ===== verification/Policy_Heads.thy ===== *)
theory Policy_Heads
  imports Policy_Theorems
begin

text \<open>
  Which account heads a policy records as its changes go on, what leaving a workspace does,
  and the binding of a policy chain by its head.
\<close>

subsection \<open>Heads\<close>

lemma record_heads_member:
  assumes "bt_get (sn_members (record_heads prev sa hs s)) a = Some m'"
  shows "\<exists>m. bt_get (sn_members s) a = Some m
    \<and> (mem_head m' = mem_head m \<or> mem_head m' \<in> set hs \<and> ah_account (mem_head m') = a)"
  using assms unfolding record_heads_def
proof (induction hs arbitrary: s)
  case (Cons h hs)
  then obtain m1 where m1: "bt_get (sn_members (record_head prev sa h s)) a = Some m1"
    "mem_head m' = mem_head m1 \<or> mem_head m' \<in> set hs \<and> ah_account (mem_head m') = a" by auto
  then obtain m where m: "bt_get (sn_members s) a = Some m"
    "m1 = (if a = ah_account h then record_member prev sa h m else m)"
    by (auto simp: record_head_member)
  have "mem_head m1 = mem_head m \<or> mem_head m1 = h \<and> ah_account h = a"
    using m(2) by (auto simp: record_member_def)
  then show ?case using m1(2) m(1) by auto
qed simp

lemma find_the:
  assumes "list_ex P xs"
  shows "the (find P xs) \<in> set xs \<and> P (the (find P xs))"
  using assms by (induction xs) auto

text \<open>The members after a change: each was a member with some head, or is the one just added.\<close>

lemma apply_kind_member:
  assumes "apply_policy_kind prev b sa sr h s = Inr t" and "sn_members s = sn_members prev"
    and "bt_get (sn_members t) a = Some m"
  shows "(\<exists>m0. bt_get (sn_members prev) a = Some m0 \<and> mem_head m = mem_head m0)
    \<or> (\<exists>r i. pol_kind b = Policy_AddMember a r i \<and> bt_get (sn_members prev) a = None
        \<and> mem_head m = the (find (\<lambda>h. ah_account h = a) (pol_heads b)))"
  using assms
  by (cases "pol_kind b") (auto simp: apply_policy_kind_def kind_defs set_member_role_def Let_def
      split: if_splits option.splits)

lemma member_sources:
  assumes rules: "heads_rules prev b sa h = Inr ()" and kind: "apply_policy_kind prev b sa sr h s = Inr t"
    and same: "sn_members s = sn_members prev" and get: "bt_get (sn_members t) a = Some m"
  shows "(\<exists>m0. bt_get (sn_members prev) a = Some m0 \<and> mem_head m = mem_head m0)
    \<or> bt_get (sn_members prev) a = None \<and> mem_head m \<in> set (pol_heads b) \<and> ah_account (mem_head m) = a"
proof -
  have "list_ex (\<lambda>h. ah_account h = a) (pol_heads b)" if "pol_kind b = Policy_AddMember a r i" for r i
    using rules that by (auto simp: heads_rules_def Let_def split: if_splits)
  then have "the (find (\<lambda>h. ah_account h = a) (pol_heads b)) \<in> set (pol_heads b)
      \<and> ah_account (the (find (\<lambda>h. ah_account h = a) (pol_heads b))) = a"
    if "pol_kind b = Policy_AddMember a r i" for r i
    using find_the [of "\<lambda>h. ah_account h = a"] that by blast
  then show ?thesis using apply_kind_member [OF kind same get] by auto
qed

text \<open>
  Account heads only move forward: when a change is accepted, a member's head either stays
  on its recorded chain at the same or a later seqno, or moves to another chain by an
  \<open>accept_reset\<close> of that account; and the head recorded for a returning member is not behind
  the head kept when it left, on the same chain.
\<close>

theorem policy_heads_forward:
  assumes "verify_policy cr changes acs = Inr p" and "check_change cr p change acs = Inr t"
    and "bt_get (sn_members t) a = Some m'"
  shows "(\<forall>m. bt_get (sn_members (head_snapshot p)) a = Some m \<longrightarrow>
      (if ah_genesis (mem_head m') = ah_genesis (mem_head m)
       then ah_seqno (mem_head m) \<le> ah_seqno (mem_head m')
       else pol_kind (body change) = Policy_AcceptReset a))
    \<and> (\<forall>f. bt_get (sn_members (head_snapshot p)) a = None \<longrightarrow> bt_get (sn_former (head_snapshot p)) a = Some f \<longrightarrow>
        ah_genesis (mem_head m') = ah_genesis f \<longrightarrow> ah_seqno f \<le> ah_seqno (mem_head m'))"
proof -
  let ?prev = "head_snapshot p" and ?b = "body change"
  have ok: "snapshot_ok acs ?prev" using head_snapshot_ok [OF assms(1)] .
  show ?thesis
    using assms(2) ok
  proof (rule accepted_change)
    fix h c sr s u
    assume rules: "heads_rules ?prev ?b (ah_account h) h = Inr ()"
      and kind: "apply_policy_kind ?prev ?b (ah_account h) sr h (start_next cr ?prev change) = Inr s"
      and u: "u = record_gone acs (pol_heads ?b) (record_heads ?prev (ah_account h) (pol_heads ?b) s)"
      and core: "same_core u t"
    have behind: "\<not> head_behind ?prev (pol_kind ?b) g" if "g \<in> set (pol_heads ?b)" for g
      using rules that by (auto simp: heads_rules_def Let_def list_ex_iff)
    have "bt_get (sn_members (record_heads ?prev (ah_account h) (pol_heads ?b) s)) a = Some m'"
      using assms(3) core record_gone_frame u by (simp add: same_core_def)
    then obtain m1 where m1: "bt_get (sn_members s) a = Some m1"
      "mem_head m' = mem_head m1 \<or> mem_head m' \<in> set (pol_heads ?b) \<and> ah_account (mem_head m') = a"
      using record_heads_member by blast
    have "(\<exists>m0. bt_get (sn_members ?prev) a = Some m0 \<and> mem_head m1 = mem_head m0)
      \<or> bt_get (sn_members ?prev) a = None \<and> mem_head m1 \<in> set (pol_heads ?b) \<and> ah_account (mem_head m1) = a"
      using member_sources [OF rules kind _ m1(1)] by simp
    then consider (kept) m0 where "bt_get (sn_members ?prev) a = Some m0" "mem_head m' = mem_head m0"
      | (recorded) "mem_head m' \<in> set (pol_heads ?b)" "ah_account (mem_head m') = a"
      using m1(2) by metis
    then show ?thesis
    proof cases
      case kept
      then show ?thesis by simp
    next
      case recorded
      then show ?thesis
        using behind [OF recorded(1)] by (auto simp: head_behind_def Let_def not_less split: if_splits)
    qed
  qed
qed

text \<open>
  C35. After an accepted \<open>remove_member\<close>, whoever signed it, the account is no member, none of
  the workspace's devices is the account's, and it is granted nothing in any domain.
\<close>

theorem removed_member_is_out:
  assumes "verify_policy cr changes acs = Inr p" and "check_change cr p change acs = Inr t"
    and "pol_kind (body change) = Policy_RemoveMember a"
  shows "role_of t a = None
    \<and> (\<forall>d wd. bt_get (sn_devices t) d = Some wd \<longrightarrow> wd_account wd \<noteq> a)
    \<and> (\<forall>d. account_level t a d = None)
    \<and> (\<forall>d device. account_of t device = Some a \<longrightarrow> \<not> can_read t device d)"
proof -
  have "snapshot_ok acs (head_snapshot p)" using head_snapshot_ok [OF assms(1)] .
  then have ok: "snapshot_ok acs t" using accepted_ok [OF assms(2)] by blast
  have none: "role_of t a = None"
    using assms(2) \<open>snapshot_ok acs (head_snapshot p)\<close>
    by (rule accepted_change) (simp add: assms(3) roles_after_def)
  have level: "account_level t a d = None" for d
  proof (cases "bt_get (sn_domains t) d")
    case (Some ds)
    then have "domain_ok t d ds" using ok by (simp add: snapshot_ok_def domains_ok_def)
    then have "bt_get (dom_access ds) a = None"
      using none by (cases "bt_get (dom_access ds) a") (auto simp: domain_ok_def)
    then show ?thesis using Some none by (simp add: account_level_def)
  qed (simp add: account_level_def)
  have "wd_account wd \<noteq> a" if "bt_get (sn_devices t) d = Some wd" for d wd
  proof
    assume "wd_account wd = a"
    then have "\<exists>m st. member_card acs t a m st"
      using ok that unfolding snapshot_ok_def devices_exact_def by (metis workspace_device.select_convs(1))
    then show False using none by (auto simp: member_card_def role_of_def)
  qed
  then show ?thesis
    using none level by (auto simp: account_of_def can_read_def device_level_def)
qed

text \<open>
  The head kept for a member that leaves is the head recorded before the change, not one
  the leaving change itself records: when a member signs its own \<open>remove_member\<close> at a later head
  of its chain, that later head is in the change's \<open>heads\<close> and the kept head stays behind it,
  so a later \<open>add_member\<close> may record a head between the two.
\<close>

theorem former_head_is_stale:
  assumes "verify_policy cr changes acs = Inr p" and "check_change cr p change acs = Inr t"
    and "pol_kind (body change) = Policy_RemoveMember a"
    and "bt_get (sn_members (head_snapshot p)) a = Some m"
  shows "bt_get (sn_former t) a = Some (mem_head m)"
proof -
  have "snapshot_ok acs (head_snapshot p)" using head_snapshot_ok [OF assms(1)] .
  with assms(2) show ?thesis
  proof (rule accepted_change)
    fix h c sr s u
    assume "apply_policy_kind (head_snapshot p) (body change) (ah_account h) sr h
        (start_next cr (head_snapshot p) change) = Inr s" and "sn_former t = sn_former s"
    then show ?thesis
      using assms(3,4) by (auto simp: apply_policy_kind_def apply_remove_member_def
          split: option.splits if_splits)
  qed
qed

subsection \<open>The chain\<close>

interpretation change_chain:
  hash_chain "signed_change_digest cr" "enc_signed enc_policy_change" "hash cr"
    "\<lambda>c. pol_revision (body c)" "\<lambda>c. pol_previous (body c)" "wf_signed wf_policy_change" for cr
proof
  show "signed_change_digest cr r = hash cr (enc_signed enc_policy_change r)" for r
    by (simp add: signed_digest_def)
  show "r = s" if "wf_signed wf_policy_change r" "wf_signed wf_policy_change s"
    and "enc_signed enc_policy_change r = enc_signed enc_policy_change s" for r s
    using wire.enc_inject [OF signed_change_wire that] .
qed

lemma verify_policy_linked:
  assumes "verify_policy cr cs acs = Inr p"
  shows "change_chain.linked cr cs" and "cs \<noteq> []"
    and "policy_head p = (of_nat (length cs), signed_change_digest cr (last cs))"
proof -
  note v = verify_policy_structure [OF assms]
  show "change_chain.linked cr cs" using v by (simp add: change_chain.linked_def)
  show ne: "cs \<noteq> []" using v by simp
  obtain m where "length cs = Suc m" using ne by (cases "length cs") auto
  then show "policy_head p = (of_nat (length cs), signed_change_digest cr (last cs))"
    using v head_snapshot_nth [OF assms] ne by (simp add: policy_head_def last_conv_nth)
qed

text \<open>
  The head of a verified policy determines it: two verified policies with the same head are
  the same list of changes, and so the same state at every revision for the same account
  chains, unless two changes exhibit a BLAKE3 collision.
\<close>

theorem policy_head_binds:
  assumes "verify_policy cr cs acs = Inr p" and "verify_policy cr cs' acs = Inr p'"
    and "length cs < 2 ^ 64" and "length cs' < 2 ^ 64"
    and "list_all (wf_signed wf_policy_change) cs" and "list_all (wf_signed wf_policy_change) cs'"
    and "policy_head p = policy_head p'"
  shows "(cs = cs' \<and> p = p')
    \<or> (\<exists>c \<in> set cs. \<exists>c' \<in> set cs'.
        collision (hash cr) (enc_signed enc_policy_change c) (enc_signed enc_policy_change c'))"
proof -
  have "signed_change_digest cr (last cs) = signed_change_digest cr (last cs')"
    using assms(7) verify_policy_linked(3) [OF assms(1)] verify_policy_linked(3) [OF assms(2)] by simp
  then have "cs = cs' \<or> change_chain.clash cr cs cs'"
    using verify_policy_linked [OF assms(1)] verify_policy_linked [OF assms(2)] assms(3-6)
    by (intro change_chain.head_binds) auto
  then show ?thesis
    using assms(1,2) by (auto simp: change_chain.clash_def)
qed

end
