(* ===== verification/Policy_Examples.thy ===== *)
theory Policy_Examples
  imports Policy_Heads Account_Examples
begin

declare One_nat_def [simp del]

lemma take_one [simp]: "take 1 (x # xs) = [x]"
  by (simp add: One_nat_def)

text \<open>
  A concrete workspace on which the policy theorems' hypotheses hold: account 99 creates it,
  adds account 98 as an editor, and creates a domain both may read; then account 98 adds a
  device to its own chain and leaves, recording its newer head as it does.
\<close>

definition demo_card98 :: "nat \<Rightarrow> card" where
  "demo_card98 n = (demo_card n)\<lparr>card_account := Ident 98\<rparr>"

definition demo_state98 :: "nat \<Rightarrow> nat \<Rightarrow> ident option \<Rightarrow> card_state" where
  "demo_state98 n seqno parent = \<lparr>cs_card = demo_card98 n, cs_parent = parent, cs_added_at = of_nat seqno,
     cs_removed_at = None, cs_recovery = False, cs_recovered_at = None\<rparr>"

definition demo_links98 :: "account_link signed list" where
  "demo_links98 =
     [\<lparr>body = \<lparr>link_account = Ident 98, link_seqno = 1, link_previous = ZERO_digest,
         link_signer = Ident 11, link_kind = Link_Genesis (demo_card98 11)\<rparr>, sig = Signature 11\<rparr>,
      \<lparr>body = \<lparr>link_account = Ident 98, link_seqno = 2, link_previous = demo_digest 11,
         link_signer = Ident 11, link_kind = Link_AddDevice (demo_card98 12) (demo_digest 5)\<rparr>, sig = Signature 12\<rparr>]"

definition demo_chain98 :: "nat \<Rightarrow> account_chain" where
  "demo_chain98 n = \<lparr>ac_account = Ident 98, ac_digests = take n [demo_digest 11, demo_digest 12],
     ac_cards = (let c = bt_insert (Ident 11) (demo_state98 11 1 None) bt_empty
       in if n = 1 then c else bt_insert (Ident 12) (demo_state98 12 2 (Some (Ident 11))) c)\<rparr>"

lemma demo_sig_digest:
  assumes "n < 256"
  shows "signed_digest demo_crypto enc \<lparr>body = b, sig = Signature (of_nat n)\<rparr> = demo_digest n"
  using assms unfolding signed_digest_def
  by (intro demo_hash) (simp_all add: enc_signed_def signature_bytes_def last_word_bytes unat_small last_append)

lemmas demo_sig = demo_sig_digest [of "numeral k" for k, simplified]

lemma demo_verified98: "verify_chain demo_crypto demo_links98 {} = Inr (demo_chain98 2)"
proof -
  have "from_genesis demo_crypto (demo_links98 ! 0) {} = Inr (demo_chain98 1)"
    by (simp add: demo_links98_def demo_sig demo_verify demo_chain98_def demo_card98_def demo_card_def
        demo_state98_def new_card_state_def from_genesis_def)
  moreover have "append_link demo_crypto (demo_chain98 1) (demo_links98 ! 1) {} = Inr (demo_chain98 2)"
    by (simp add: demo_links98_def demo_sig demo_verify demo_chain98_def demo_card98_def demo_card_def
        demo_state98_def new_card_state_def append_link_def apply_kind_def add_card_def head_seqno_def
        head_digest_def active_states_def bt_values_def cs_active_at_def MAX_ACTIVE_CARDS_def Let_def domIff)
  moreover have "verify_chain demo_crypto demo_links98 {} =
      and_then (from_genesis demo_crypto (demo_links98 ! 0) {})
        (\<lambda>c. append_link demo_crypto c (demo_links98 ! 1) {})"
    by (simp add: demo_links98_def)
  ultimately show ?thesis by simp
qed

definition demo_acs :: account_chains where
  "demo_acs = chains_insert (demo_chain98 2) (chains_insert (demo_chain 5 (demo_cards 5)) bt_empty)"

definition demo_h99 :: account_head where
  "demo_h99 = \<lparr>ah_account = Ident 99, ah_genesis = demo_digest 1, ah_seqno = 1, ah_head = demo_digest 1\<rparr>"

definition demo_h98 :: "nat \<Rightarrow> account_head" where
  "demo_h98 n = \<lparr>ah_account = Ident 98, ah_genesis = demo_digest 11, ah_seqno = of_nat n,
     ah_head = demo_digest (10 + n)\<rparr>"

lemma demo_digest_eq: "n < 256 \<Longrightarrow> m < 256 \<Longrightarrow> demo_digest n = demo_digest m \<longleftrightarrow> n = m"
proof
  assume a: "n < 256" "m < 256" and eq: "demo_digest n = demo_digest m"
  then have "(push_bit 128 (of_nat n) :: 256 word) = push_bit 128 (of_nat m)"
    by (simp add: demo_digest_def)
  then have "unat (push_bit 128 (of_nat n) :: 256 word) = unat (push_bit 128 (of_nat m) :: 256 word)" by simp
  then show "n = m" using a by (simp add: push_bit_eq_mult unat_word_ariths unat_small)
qed simp

lemma demo_chain_of [simp]:
  "chain_of demo_acs demo_h99 = Some (demo_chain 5 (demo_cards 5))"
  "chain_of demo_acs (demo_h98 1) = Some (demo_chain98 2)"
  "chain_of demo_acs (demo_h98 2) = Some (demo_chain98 2)"
  by (simp_all add: chain_of_def demo_acs_def chains_get_def chains_insert_def chain_genesis_def
      demo_chain_def demo_chain98_def demo_h99_def demo_h98_def chain_contains_def head_at_def)

lemma demo_active99: "active_states (demo_chain 5 (demo_cards 5)) 1 = [demo_state 1 None False None None]"
  by (simp add: demo_chain_def demo_cards_def demo_state_def active_states_def bt_values_def cs_active_at_def
      word_le_nat_alt)

lemma demo_active98:
  "active_states (demo_chain98 2) 1 = [demo_state98 11 1 None]"
  "active_states (demo_chain98 2) 2 = [demo_state98 11 1 None, demo_state98 12 2 (Some (Ident 11))]"
  by (simp_all add: demo_chain98_def demo_state98_def active_states_def bt_values_def cs_active_at_def
      word_le_nat_alt)


subsection \<open>The workspace\<close>

definition demo_change :: "nat \<Rightarrow> nat \<Rightarrow> account_head list \<Rightarrow> policy_kind \<Rightarrow> policy_change signed" where
  "demo_change n s hs kind = \<lparr>body = \<lparr>pol_workspace = Ident 40, pol_revision = of_nat n,
     pol_previous = (if n = 1 then ZERO_digest else demo_digest (19 + n)), pol_signer = Ident (of_nat s),
     pol_heads = hs, pol_kind = kind\<rparr>, sig = Signature (of_nat (20 + n))\<rparr>"

definition demo_changes :: "policy_change signed list" where
  "demo_changes =
     [demo_change 1 1 [demo_h99] (Policy_Genesis (Ident 50)),
      demo_change 2 1 [demo_h98 1, demo_h99] (Policy_AddMember (Ident 98) Editor (Ident 7)),
      demo_change 3 1 [demo_h99] (Policy_CreateDomain (Ident 51) (Ident 8)
        [\<lparr>access_account = Ident 98, access_level = Level_Read\<rparr>,
         \<lparr>access_account = Ident 99, access_level = Level_Manage\<rparr>])]"

definition demo_leave :: "policy_change signed" where
  "demo_leave = demo_change 4 11 [demo_h98 2] (Policy_RemoveMember (Ident 98))"

definition demo_member99 :: "(ident, member) btree" where
  "demo_member99 = bt_insert (Ident 99) \<lparr>mem_role = Owner, mem_head = demo_h99, recorded_by_own = True\<rparr> bt_empty"

definition demo_members :: "(ident, member) btree" where
  "demo_members = bt_insert (Ident 98) \<lparr>mem_role = Editor, mem_head = demo_h98 1, recorded_by_own = False\<rparr>
     demo_member99"

definition demo_wd :: "ident \<Rightarrow> card \<Rightarrow> workspace_device" where
  "demo_wd a c = \<lparr>wd_account = a, wd_card = c, wd_recovery = False\<rparr>"

definition demo_devices :: "nat \<Rightarrow> (ident, workspace_device) btree" where
  "demo_devices n = bt_insert (Ident 1) (demo_wd (Ident 99) (demo_card 1))
     (if n = 1 \<or> n = 4 then bt_empty else bt_insert (Ident 11) (demo_wd (Ident 98) (demo_card98 11)) bt_empty)"

definition demo_domain :: "domain_state" where
  "demo_domain = \<lparr>dom_restricted = False, dom_marker_rid = None, dom_access = bt_empty,
     dom_created_at = 1, dom_creator = Ident 1\<rparr>"

definition demo_domain51 :: "domain_state" where
  "demo_domain51 = \<lparr>dom_restricted = True, dom_marker_rid = Some (Ident 8),
     dom_access = bt_insert (Ident 98) Level_Read (bt_insert (Ident 99) Level_Manage bt_empty),
     dom_created_at = 3, dom_creator = Ident 1\<rparr>"

definition demo_snapshot :: "nat \<Rightarrow> snapshot" where
  "demo_snapshot n =
    (let d1 = bt_insert (Ident 50) demo_domain bt_empty;
         s1 = \<lparr>sn_revision = 1, sn_digest = demo_digest 21, sn_signer = Ident 1, sn_workspace_domain = Ident 50,
           sn_members = demo_member99, sn_former = bt_empty, sn_domains = d1, sn_used_domains = {Ident 50},
           sn_devices = demo_devices 1, sn_card_indices = bt_insert (Ident 1) 1 bt_empty,
           sn_card_chains = bt_insert (Ident 1) (Ident 99, demo_digest 1) bt_empty, sn_gone = {},
           sn_own_heads = {(Ident 99, demo_digest 1)}, sn_rotations = {},
           sn_new_readers = bt_insert (Ident 50) {Ident 1} bt_empty\<rparr>;
         s2 = s1\<lparr>sn_revision := 2, sn_digest := demo_digest 22, sn_members := demo_members,
           sn_devices := demo_devices 2, sn_card_indices := bt_insert (Ident 11) 2 (bt_insert (Ident 1) 1 bt_empty),
           sn_card_chains := bt_insert (Ident 11) (Ident 98, demo_digest 11) (sn_card_chains s1),
           sn_new_readers := bt_insert (Ident 50) {Ident 11} bt_empty\<rparr>;
         s3 = s2\<lparr>sn_revision := 3, sn_digest := demo_digest 23,
           sn_domains := bt_insert (Ident 51) demo_domain51 d1, sn_used_domains := {Ident 50, Ident 51},
           sn_new_readers := bt_insert (Ident 51) {Ident 1, Ident 11} bt_empty\<rparr>;
         s4 = s3\<lparr>sn_revision := 4, sn_digest := demo_digest 24, sn_signer := Ident 11, sn_members := demo_member99,
           sn_former := bt_insert (Ident 98) (demo_h98 1) bt_empty,
           sn_domains := bt_insert (Ident 51) (demo_domain51\<lparr>dom_access := bt_insert (Ident 99) Level_Manage bt_empty\<rparr>) d1,
           sn_devices := demo_devices 4, sn_own_heads := {(Ident 99, demo_digest 1)},
           sn_rotations := {Ident 50, Ident 51}, sn_new_readers := bt_empty\<rparr>
     in [s1, s2, s3, s4] ! (n - 1))"

definition demo_policy :: "nat \<Rightarrow> policy_chain" where
  "demo_policy n = \<lparr>pc_workspace = Ident 40, pc_changes = take n demo_changes,
     pc_snapshots = take n (map demo_snapshot [1, 2, 3])\<rparr>"

lemma demo_change_digest:
  "20 + n < 256 \<Longrightarrow> signed_change_digest demo_crypto (demo_change n s hs kind) = demo_digest (20 + n)"
  unfolding demo_change_def by (rule demo_sig_digest)

lemma demo_check_signer:
  "bt_get (ac_cards c) (pol_signer (body change)) = Some st \<Longrightarrow> cs_active_at st (ah_seqno h) \<Longrightarrow> \<not> cs_recovery st \<Longrightarrow>
   check_signer demo_crypto change c h = Inr ()"
  by (simp add: check_signer_def demo_verify)

lemma demo_h_simps [simp]:
  "ah_account demo_h99 = Ident 99" "ah_genesis demo_h99 = demo_digest 1" "ah_seqno demo_h99 = 1"
  "ah_head demo_h99 = demo_digest 1"
  "ah_account (demo_h98 n) = Ident 98" "ah_genesis (demo_h98 n) = demo_digest 11" "ah_seqno (demo_h98 n) = of_nat n"
  "ah_head (demo_h98 n) = demo_digest (10 + n)"
  by (simp_all add: demo_h99_def demo_h98_def)

text \<open>The three loops of \<open>finish_snapshot\<close>, run one after another.\<close>

lemma finish_snapshot_run:
  assumes "try_fold (collect_member acs (sn_card_indices s) revision)
         (bt_empty, [], sn_card_chains s) (bt_entries (sn_members s)) = Inr (dv, nc, cc)"
    and "try_fold (assign_index revision)
         (highest_index (sn_card_indices s), sn_card_indices s) (sort nc) = Inr (i, idx)"
    and "try_fold (finish_domain prev revision)
       (s\<lparr>sn_devices := dv, sn_card_indices := idx, sn_card_chains := cc\<rparr>) (bt_keys (sn_domains s)) = Inr t"
  shows "finish_snapshot s prev acs revision = Inr t"
  using assms by (simp add: finish_snapshot_def)

lemmas demo_collect_simps = collect_member_def collect_card_def Let_def demo_active99 demo_active98
  demo_members_def demo_member99_def demo_state_def demo_state98_def demo_card_def demo_card98_def
  demo_devices_def demo_wd_def domIff

lemmas demo_domain_simps = finish_domain_def readers_def can_read_def device_level_def account_of_def
  account_level_def role_of_def bt_keys_def demo_devices_def demo_wd_def demo_domain_def demo_domain51_def
  demo_members_def demo_member99_def MAX_READERS_def Let_def

lemma demo_collect:
  "try_fold (collect_member demo_acs bt_empty r) (bt_empty, [], bt_empty) (bt_entries demo_member99) =
     Inr (demo_devices 1, [(Ident 99, 1, Ident 1)], bt_insert (Ident 1) (Ident 99, demo_digest 1) bt_empty)"
  by (simp add: demo_collect_simps)

lemma demo_assign:
  "try_fold (assign_index r) (highest_index bt_empty, bt_empty) (sort [(Ident 99, 1, Ident 1)]) =
     Inr (1, bt_insert (Ident 1) 1 bt_empty)"
  by (simp add: assign_index_def next_card_index_def MAX_CARD_INDEX_def ok_or_def highest_index_def bt_values_def)

lemma demo_policy1: "policy_from_genesis demo_crypto (demo_changes ! 0) demo_acs = Inr (demo_policy 1)"
proof -
  let ?s = "genesis_snapshot demo_crypto (demo_changes ! 0) (Ident 50) demo_h99"
  have "check_signer demo_crypto (demo_changes ! 0) (demo_chain 5 (demo_cards 5)) demo_h99 = Inr ()"
    by (rule demo_check_signer [of _ _ "demo_state 1 None False None None"])
      (simp_all add: demo_changes_def demo_change_def demo_chain_def demo_cards_def demo_state_def
        cs_active_at_def)
  moreover have "finish_snapshot ?s ?s demo_acs 1 = Inr (demo_snapshot 1)"
  proof (rule finish_snapshot_run)
    show "try_fold (collect_member demo_acs (sn_card_indices ?s) 1) (bt_empty, [], sn_card_chains ?s)
        (bt_entries (sn_members ?s)) = Inr (demo_devices 1, [(Ident 99, 1, Ident 1)],
          bt_insert (Ident 1) (Ident 99, demo_digest 1) bt_empty)"
      using demo_collect by (simp add: genesis_snapshot_def demo_member99_def)
    show "try_fold (assign_index 1) (highest_index (sn_card_indices ?s), sn_card_indices ?s)
        (sort [(Ident 99, 1, Ident 1)]) = Inr (1, bt_insert (Ident 1) 1 bt_empty)"
      using demo_assign by (simp add: genesis_snapshot_def)
    show "try_fold (finish_domain ?s 1) (?s\<lparr>sn_devices := demo_devices 1,
          sn_card_indices := bt_insert (Ident 1) 1 bt_empty,
          sn_card_chains := bt_insert (Ident 1) (Ident 99, demo_digest 1) bt_empty\<rparr>) (bt_keys (sn_domains ?s)) =
        Inr (demo_snapshot 1)"
      using demo_change_digest [of 1]
      by (simp add: genesis_snapshot_def demo_changes_def demo_snapshot_def demo_domain_simps, simp add: demo_change_def)
  qed
  ultimately show ?thesis
    by (simp add: policy_from_genesis_def demo_changes_def demo_change_def demo_policy_def)
qed


lemma bt_remove_empty [simp]: "bt_remove k bt_empty = bt_empty"
  by (rule bt_ext) simp

lemma bt_insert_present: "bt_get m k = Some v \<Longrightarrow> bt_insert k v m = m"
  by (rule bt_ext) auto

text \<open>A change accepted by \<open>check_change\<close>, from the outcome of each of its stages.\<close>

lemma check_change_run:
  assumes "prev = head_snapshot p" and "b = body change"
    and "pol_workspace b = pc_workspace p" and "pol_revision b = sn_revision prev + 1"
    and "pol_previous b = sn_digest prev" and "\<not> (case pol_kind b of Policy_Genesis _ \<Rightarrow> True | _ \<Rightarrow> False)"
    and "\<not> list_ex (\<lambda>h. chain_of acs h = None) (pol_heads b)"
    and "find (\<lambda>h. case chain_of acs h of None \<Rightarrow> False
            | Some c \<Rightarrow> is_active_at c (pol_signer b) (ah_seqno h)) (pol_heads b) = Some h"
    and "check_signer cr change (the (chain_of acs h)) h = Inr ()" and "role_of prev (ah_account h) = Some sr"
    and "heads_rules prev b (ah_account h) h = Inr ()"
    and "apply_policy_kind prev b (ah_account h) sr h (start_next cr prev change) = Inr s"
    and "finish_snapshot (record_gone acs (pol_heads b) (record_heads prev (ah_account h) (pol_heads b) s))
            prev acs (pol_revision b) = Inr t"
  shows "check_change cr p change acs = Inr t"
  unfolding check_change_def Let_def assms(1,2) [symmetric] assms(8)
  using assms(3-7,9-13) by (simp add: ok_or_def)

lemma demo_signer:
  "bt_get (ac_cards (demo_chain 5 (demo_cards 5))) (Ident 1) = Some (demo_state 1 None False None None)"
  "bt_get (ac_cards (demo_chain98 2)) (Ident 11) = Some (demo_state98 11 1 None)"
  "bt_get (ac_cards (demo_chain98 2)) (Ident 1) = None"
  by (simp_all add: demo_chain_def demo_cards_def demo_chain98_def)

lemmas demo_check_simps = demo_changes_def demo_change_def demo_policy_def head_snapshot_def is_active_at_def
  demo_signer demo_state_def demo_state98_def cs_active_at_def Let_def heads_rules_def head_allowed_def
  head_behind_def ensure_def role_of_def demo_member99_def demo_members_def domIff

definition demo_cards2 :: "(ident, ident \<times> digest) btree" where
  "demo_cards2 = bt_insert (Ident 11) (Ident 98, demo_digest 11) (bt_insert (Ident 1) (Ident 99, demo_digest 1) bt_empty)"

lemma demo_policy2:
  "check_change demo_crypto (demo_policy 1) (demo_changes ! 1) demo_acs = Inr (demo_snapshot 2)"
proof (rule check_change_run [OF refl refl, where h = demo_h99 and sr = Owner])
  let ?p = "demo_policy 1" and ?c = "demo_changes ! 1"
  let ?prev = "head_snapshot ?p"
  have prev: "?prev = demo_snapshot 1" by (simp add: demo_policy_def head_snapshot_def)
  show "check_signer demo_crypto ?c (the (chain_of demo_acs demo_h99)) demo_h99 = Inr ()"
    by (rule demo_check_signer [of _ _ "demo_state 1 None False None None"]) (simp_all add: demo_check_simps)
  show "apply_policy_kind ?prev (body ?c) (ah_account demo_h99) Owner demo_h99 (start_next demo_crypto ?prev ?c) =
    Inr ((start_next demo_crypto (demo_snapshot 1) ?c)\<lparr>sn_members := demo_members\<rparr>)"
    by (simp add: prev apply_policy_kind_def apply_add_member_def demo_check_simps demo_snapshot_def start_next_def)
  let ?s = "(start_next demo_crypto (demo_snapshot 1) ?c)\<lparr>sn_members := demo_members\<rparr>"
  have gone: "record_gone demo_acs (pol_heads (body ?c)) (record_heads ?prev (ah_account demo_h99)
      (pol_heads (body ?c)) ?s) = ?s"
    by (simp add: prev record_gone_def record_heads_def record_head_def gone_step_def retires_def demo_check_simps
      demo_snapshot_def start_next_def bt_insert_present demo_chain_def demo_cards_def)
  have "finish_snapshot ?s (demo_snapshot 1) demo_acs 2 = Inr (demo_snapshot 2)"
  proof (rule finish_snapshot_run)
    show "try_fold (collect_member demo_acs (sn_card_indices ?s) 2) (bt_empty, [], sn_card_chains ?s)
        (bt_entries (sn_members ?s)) = Inr (demo_devices 2, [(Ident 98, 1, Ident 11)], demo_cards2)"
      by (simp add: demo_snapshot_def demo_collect_simps demo_cards2_def)
    show "try_fold (assign_index 2) (highest_index (sn_card_indices ?s), sn_card_indices ?s)
        (sort [(Ident 98, 1, Ident 11)]) = Inr (2, bt_insert (Ident 11) 2 (bt_insert (Ident 1) 1 bt_empty))"
      by (simp add: demo_snapshot_def assign_index_def next_card_index_def MAX_CARD_INDEX_def ok_or_def
        highest_index_def bt_values_def)
    show "try_fold (finish_domain (demo_snapshot 1) 2) (?s\<lparr>sn_devices := demo_devices 2,
          sn_card_indices := bt_insert (Ident 11) 2 (bt_insert (Ident 1) 1 bt_empty),
          sn_card_chains := demo_cards2\<rparr>) (bt_keys (sn_domains ?s)) = Inr (demo_snapshot 2)"
      using demo_change_digest [of 2]
      by (simp add: demo_changes_def demo_snapshot_def start_next_def demo_domain_simps demo_cards2_def,
        simp add: demo_change_def)
  qed
  then show "finish_snapshot (record_gone demo_acs (pol_heads (body ?c)) (record_heads ?prev (ah_account demo_h99)
      (pol_heads (body ?c)) ?s)) ?prev demo_acs (pol_revision (body ?c)) = Inr (demo_snapshot 2)"
    unfolding gone unfolding prev by (simp add: demo_changes_def demo_change_def)
qed (simp_all add: demo_check_simps demo_snapshot_def)


lemma demo_policy3:
  "check_change demo_crypto (demo_policy 2) (demo_changes ! 2) demo_acs = Inr (demo_snapshot 3)"
proof (rule check_change_run [OF refl refl, where h = demo_h99 and sr = Owner])
  let ?p = "demo_policy 2" and ?c = "demo_changes ! 2"
  let ?prev = "head_snapshot ?p"
  have prev: "?prev = demo_snapshot 2" by (simp add: demo_policy_def head_snapshot_def)
  show "check_signer demo_crypto ?c (the (chain_of demo_acs demo_h99)) demo_h99 = Inr ()"
    by (rule demo_check_signer [of _ _ "demo_state 1 None False None None"]) (simp_all add: demo_check_simps)
  let ?s = "(start_next demo_crypto (demo_snapshot 2) ?c)\<lparr>sn_used_domains := {Ident 50, Ident 51},
    sn_domains := bt_insert (Ident 51) demo_domain51 (bt_insert (Ident 50) demo_domain bt_empty)\<rparr>"
  have access: "access_map [\<lparr>access_account = Ident 98, access_level = Level_Read\<rparr>,
      \<lparr>access_account = Ident 99, access_level = Level_Manage\<rparr>] =
    bt_insert (Ident 98) Level_Read (bt_insert (Ident 99) Level_Manage bt_empty)"
    by (rule bt_ext) (simp add: access_map_def)
  show "apply_policy_kind ?prev (body ?c) (ah_account demo_h99) Owner demo_h99 (start_next demo_crypto ?prev ?c) = Inr ?s"
    by (simp add: prev apply_policy_kind_def apply_create_domain_def access demo_check_simps demo_snapshot_def
      start_next_def is_admin_def bt_keys_def bt_len_def MAX_DOMAINS_def demo_domain51_def) auto
  have gone: "record_gone demo_acs (pol_heads (body ?c)) (record_heads ?prev (ah_account demo_h99)
      (pol_heads (body ?c)) ?s) = ?s"
    by (simp add: prev record_gone_def record_heads_def record_head_def gone_step_def retires_def demo_check_simps
      demo_snapshot_def start_next_def bt_insert_present demo_chain_def demo_cards_def)
  have eq: "{x. x \<noteq> Ident 11 \<longrightarrow> x = Ident 1} = {Ident 1, Ident 11}" by auto
  have "finish_snapshot ?s (demo_snapshot 2) demo_acs 3 = Inr (demo_snapshot 3)"
  proof (rule finish_snapshot_run)
    show "try_fold (collect_member demo_acs (sn_card_indices ?s) 3) (bt_empty, [], sn_card_chains ?s)
        (bt_entries (sn_members ?s)) = Inr (demo_devices 2, [], demo_cards2)"
      by (simp add: demo_snapshot_def demo_collect_simps demo_cards2_def)
    show "try_fold (assign_index 3) (highest_index (sn_card_indices ?s), sn_card_indices ?s)
        (sort []) = Inr (2, bt_insert (Ident 11) 2 (bt_insert (Ident 1) 1 bt_empty))"
      by (simp add: demo_snapshot_def highest_index_def bt_values_def)
    show "try_fold (finish_domain (demo_snapshot 2) 3) (?s\<lparr>sn_devices := demo_devices 2,
          sn_card_indices := bt_insert (Ident 11) 2 (bt_insert (Ident 1) 1 bt_empty),
          sn_card_chains := demo_cards2\<rparr>) (bt_keys (sn_domains ?s)) = Inr (demo_snapshot 3)"
      using demo_change_digest [of 3]
      by (simp add: demo_changes_def demo_snapshot_def start_next_def demo_domain_simps demo_cards2_def,
        simp add: demo_change_def eq) auto
  qed
  then show "finish_snapshot (record_gone demo_acs (pol_heads (body ?c)) (record_heads ?prev (ah_account demo_h99)
      (pol_heads (body ?c)) ?s)) ?prev demo_acs (pol_revision (body ?c)) = Inr (demo_snapshot 3)"
    unfolding gone unfolding prev by (simp add: demo_changes_def demo_change_def)
qed (simp_all add: demo_check_simps demo_snapshot_def)

lemma demo_policy4:
  "check_change demo_crypto (demo_policy 3) demo_leave demo_acs = Inr (demo_snapshot 4)"
proof (rule check_change_run [OF refl refl, where h = "demo_h98 2" and sr = Editor])
  let ?p = "demo_policy 3" and ?c = "demo_leave"
  let ?prev = "head_snapshot ?p"
  have prev: "?prev = demo_snapshot 3" by (simp add: demo_policy_def head_snapshot_def demo_changes_def)
  show "check_signer demo_crypto ?c (the (chain_of demo_acs (demo_h98 2))) (demo_h98 2) = Inr ()"
    by (rule demo_check_signer [of _ _ "demo_state98 11 1 None"]) (simp_all add: demo_leave_def demo_check_simps)
  let ?s = "(start_next demo_crypto (demo_snapshot 3) ?c)\<lparr>sn_members := demo_member99,
    sn_former := bt_insert (Ident 98) (demo_h98 1) bt_empty,
    sn_domains := bt_insert (Ident 51) (demo_domain51\<lparr>dom_access := bt_insert (Ident 99) Level_Manage bt_empty\<rparr>)
      (bt_insert (Ident 50) demo_domain bt_empty)\<rparr>"
  have no_access: "bt_remove (Ident 98) (bt_insert (Ident 98) Level_Read (bt_insert (Ident 99) Level_Manage bt_empty)) =
      bt_insert (Ident 99) Level_Manage bt_empty" "bt_remove (Ident 98) (bt_empty :: (ident, level) btree) = bt_empty"
    by (rule bt_ext, simp)+
  have access: "bt_map (\<lambda>_ ds. ds\<lparr>dom_access := bt_remove (Ident 98) (dom_access ds)\<rparr>)
      (bt_insert (Ident 51) demo_domain51 (bt_insert (Ident 50) demo_domain bt_empty)) =
    bt_insert (Ident 51) (demo_domain51\<lparr>dom_access := bt_insert (Ident 99) Level_Manage bt_empty\<rparr>)
      (bt_insert (Ident 50) demo_domain bt_empty)"
    by (rule bt_ext) (simp add: demo_domain51_def demo_domain_def no_access)
  have members: "bt_remove (Ident 98) demo_members = demo_member99"
    by (rule bt_ext) (simp add: demo_members_def demo_member99_def)
  show "apply_policy_kind ?prev (body ?c) (ah_account (demo_h98 2)) Editor (demo_h98 2)
      (start_next demo_crypto ?prev ?c) = Inr ?s"
    using access members
    by (simp add: prev apply_policy_kind_def apply_remove_member_def demo_leave_def demo_change_def
      demo_snapshot_def start_next_def drop_grants_def role_of_def demo_members_def)
  have gone: "record_gone demo_acs (pol_heads (body ?c)) (record_heads ?prev (ah_account (demo_h98 2))
      (pol_heads (body ?c)) ?s) = ?s"
    by (simp add: prev record_gone_def record_heads_def record_head_def gone_step_def retires_def demo_check_simps
      demo_leave_def demo_snapshot_def start_next_def demo_chain98_def)
  have "finish_snapshot ?s (demo_snapshot 3) demo_acs 4 = Inr (demo_snapshot 4)"
  proof (rule finish_snapshot_run)
    show "try_fold (collect_member demo_acs (sn_card_indices ?s) 4) (bt_empty, [], sn_card_chains ?s)
        (bt_entries (sn_members ?s)) = Inr (demo_devices 4, [], demo_cards2)"
      by (simp add: demo_snapshot_def demo_collect_simps demo_cards2_def)
    show "try_fold (assign_index 4) (highest_index (sn_card_indices ?s), sn_card_indices ?s)
        (sort []) = Inr (2, bt_insert (Ident 11) 2 (bt_insert (Ident 1) 1 bt_empty))"
      by (simp add: demo_snapshot_def highest_index_def bt_values_def)
    show "try_fold (finish_domain (demo_snapshot 3) 4) (?s\<lparr>sn_devices := demo_devices 4,
          sn_card_indices := bt_insert (Ident 11) 2 (bt_insert (Ident 1) 1 bt_empty),
          sn_card_chains := demo_cards2\<rparr>) (bt_keys (sn_domains ?s)) = Inr (demo_snapshot 4)"
      using demo_change_digest [of 4]
      by (simp add: demo_leave_def demo_snapshot_def start_next_def demo_domain_simps demo_cards2_def insert_commute,
        simp add: demo_change_def)
  qed
  then show "finish_snapshot (record_gone demo_acs (pol_heads (body ?c)) (record_heads ?prev (ah_account (demo_h98 2))
      (pol_heads (body ?c)) ?s)) ?prev demo_acs (pol_revision (body ?c)) = Inr (demo_snapshot 4)"
    unfolding gone unfolding prev by (simp add: demo_leave_def demo_change_def)
qed (simp_all add: demo_leave_def demo_check_simps demo_snapshot_def)

lemma demo_policy_verified: "verify_policy demo_crypto demo_changes demo_acs = Inr (demo_policy 3)"
proof -
  have "append_change demo_crypto (demo_policy 1) (demo_changes ! 1) demo_acs = Inr (demo_policy 2)"
    and "append_change demo_crypto (demo_policy 2) (demo_changes ! 2) demo_acs = Inr (demo_policy 3)"
    by (simp_all add: append_change_def demo_policy2 demo_policy3) (simp_all add: demo_policy_def demo_changes_def)
  moreover have "verify_policy demo_crypto demo_changes demo_acs =
      and_then (policy_from_genesis demo_crypto (demo_changes ! 0) demo_acs) (\<lambda>p.
      and_then (append_change demo_crypto p (demo_changes ! 1) demo_acs) (\<lambda>p.
      append_change demo_crypto p (demo_changes ! 2) demo_acs))"
    by (simp add: demo_changes_def)
  ultimately show ?thesis by (simp add: demo_policy1)
qed


lemma demo_policy_head [simp]: "head_snapshot (demo_policy 3) = demo_snapshot 3"
  by (simp add: demo_policy_def head_snapshot_def)

lemma demo_at3: "snapshot_at (demo_policy 3) 3 = Some (demo_snapshot 3)"
  by (simp add: demo_policy_def snapshot_at_def)

lemma append_less: "a < b \<Longrightarrow> xs @ [a] < xs @ [b]" for xs :: "byte list"
  by (induction xs) simp_all

lemma demo_sorted: "ident_bytes (Ident 98) < ident_bytes (Ident 99)"
proof -
  have "be_bytes (Suc 15) 98 < be_bytes (Suc 15) 99"
    using append_less [of 98 99 "be_bytes 15 0"] unfolding be_bytes.simps by (simp add: word_less_nat_alt)
  then show ?thesis by (simp add: ident_bytes_def word_bytes_def)
qed

lemma demo_wf_changes: "list_all (wf_signed wf_policy_change) demo_changes"
  using demo_sorted
  by (simp add: demo_changes_def wf_signed_def demo_change_def wf_policy_change_def wf_heads_def wf_access_list_def
    wf_sorted_def wf_list_def rises_strictly_def wf_account_head_def wf_access_def wf_ident_def UNBOUNDED_def MAX_ACCESS_def
    by_account_head_def by_access_account_def fits_u32_def usize_MAX_def)

subsection \<open>The theorems on the example\<close>

theorem policy_membership_invariant_witness: "\<exists>!a. role_of (demo_snapshot 3) a = Some Owner"
  by (rule policy_membership_invariant [OF demo_policy_verified demo_at3, THEN conjunct1])

theorem policy_devices_witness:
  "\<exists>v. bt_get (sn_card_indices (demo_snapshot 3)) (Ident 11) = Some v"
  using policy_devices [OF demo_policy_verified demo_at3]
  by (simp add: demo_snapshot_def is_device_def demo_devices_def)

theorem policy_readers_witness: "can_wrap (demo_snapshot 3) (Ident 11) (Ident 50)"
proof -
  have "can_write (demo_snapshot 3) (Ident 11) (Ident 50)"
    by (simp add: demo_snapshot_def can_write_def signs_def demo_domain_simps)
  then show ?thesis
    using policy_readers [OF demo_policy_verified demo_at3] by blast
qed

theorem policy_change_authorized_witness:
  "role_of (demo_snapshot 4) (Ident 98) = None"
  using policy_change_authorized [OF demo_policy_verified demo_policy4]
  by (auto simp: demo_leave_def demo_change_def roles_after_def)

theorem policy_rotations_witness: "Ident 51 \<in> sn_rotations (demo_snapshot 4)"
  using policy_rotations [OF demo_policy_verified demo_policy4, of "Ident 51"]
  by (simp add: demo_snapshot_def)

theorem policy_monotone_witness: "sn_revision (demo_snapshot 4) = 3 + 1"
  using policy_monotone [OF demo_policy_verified demo_policy4] by (simp add: demo_snapshot_def)

lemma demo_owner4: "bt_get (sn_members (demo_snapshot 4)) (Ident 99) =
    Some \<lparr>mem_role = Owner, mem_head = demo_h99, recorded_by_own = True\<rparr>"
  by (simp add: demo_snapshot_def demo_member99_def)

theorem policy_heads_forward_witness: "ah_seqno demo_h99 \<le> ah_seqno demo_h99"
  using policy_heads_forward [OF demo_policy_verified demo_policy4 demo_owner4] by simp

theorem removed_member_is_out_witness: "account_level (demo_snapshot 4) (Ident 98) (Ident 51) = None"
  using removed_member_is_out [OF demo_policy_verified demo_policy4, of "Ident 98"]
  by (simp add: demo_leave_def demo_change_def)

theorem former_head_is_stale_witness:
  "bt_get (sn_former (demo_snapshot 4)) (Ident 98) = Some (demo_h98 1)
    \<and> demo_h98 2 \<in> set (pol_heads (body demo_leave))"
  using former_head_is_stale [OF demo_policy_verified demo_policy4, of "Ident 98"]
  by (simp add: demo_leave_def demo_change_def demo_snapshot_def demo_members_def)

theorem policy_head_binds_witness:
  "(demo_changes = demo_changes \<and> demo_policy 3 = demo_policy 3)
    \<or> (\<exists>c \<in> set demo_changes. \<exists>c' \<in> set demo_changes. collision (hash demo_crypto)
        (enc_signed enc_policy_change c) (enc_signed enc_policy_change c'))"
  by (rule policy_head_binds [OF demo_policy_verified demo_policy_verified _ _ demo_wf_changes demo_wf_changes])
    (simp_all add: demo_changes_def)

end
