(* ===== verification/Policy_Queries.thy ===== *)
theory Policy_Queries
  imports Policy_Heads Policy_Examples
begin

text \<open>
  The remaining queries of \<^verbatim>\<open>policy.rs\<close> on a verified chain: what a removed device's changes
  can be undone by, when a recovering device trusts a log, which changes the device list alerts
  on, and how much of an account chain a session may read through the workspace (\<section>7, \<section>12).
\<close>

datatype recovery_stage = Stage_Review | Stage_Removing | Stage_Done

record removed_card_change =
  rcc_revision :: u64
  rcc_signer :: ident
  rcc_kind :: string
  rcc_undo :: "string option"

definition undo_for :: "policy_kind \<Rightarrow> role option \<Rightarrow> role option \<Rightarrow> bool \<Rightarrow> string option" where
  "undo_for kind r target_role mng =
     (let admin = (r = Some Owner \<or> r = Some Admin);
          reaches = (case r of
              Some Owner \<Rightarrow> target_role \<noteq> None \<and> target_role \<noteq> Some Owner
            | Some Admin \<Rightarrow> target_role = Some Editor \<or> target_role = Some Viewer
            | _ \<Rightarrow> False)
      in case kind of
          Policy_AddMember _ _ _ \<Rightarrow> if reaches then Some ''remove_member'' else None
        | Policy_AcceptReset _ \<Rightarrow> if reaches then Some ''remove_member'' else None
        | Policy_SetRole _ _ \<Rightarrow> if reaches then Some ''set_role'' else None
        | Policy_SetAccess _ _ \<Rightarrow> if mng then Some ''set_access'' else None
        | Policy_CreateDomain _ _ _ \<Rightarrow> if admin \<or> mng then Some ''delete_domain'' else None
        | _ \<Rightarrow> None)"

definition removed_card_changes :: "policy_chain \<Rightarrow> ident \<Rightarrow> ident set \<Rightarrow> removed_card_change list" where
  "removed_card_changes p viewer cards =
     (let s = head_snapshot p; r = role_of s viewer in
      map (\<lambda>change.
          let kind = pol_kind (body change);
              target_role = (case kind of
                  Policy_AddMember account _ _ \<Rightarrow> role_of s account
                | Policy_SetRole account _ \<Rightarrow> role_of s account
                | Policy_AcceptReset account \<Rightarrow> role_of s account
                | _ \<Rightarrow> None);
              mng = (case kind of
                  Policy_SetAccess d _ \<Rightarrow> manages s viewer d
                | Policy_CreateDomain d _ _ \<Rightarrow> manages s viewer d
                | _ \<Rightarrow> False)
          in \<lparr>rcc_revision = pol_revision (body change), rcc_signer = pol_signer (body change),
              rcc_kind = policy_kind_name kind, rcc_undo = undo_for kind r target_role mng\<rparr>)
        (filter (\<lambda>change. pol_kind (body change) \<noteq> Policy_AccountHeads)
          (filter (\<lambda>change. pol_signer (body change) \<in> cards) (pc_changes p))))"

definition recovery_anchor ::
  "policy_chain \<Rightarrow> account_chain \<Rightarrow> account_head \<Rightarrow> recovery_stage \<Rightarrow> u64 option" where
  "recovery_anchor p own kit_head stage =
     (case stage of Stage_Removing \<Rightarrow> None
      | Stage_Review \<Rightarrow> anchored_by p own kit_head
      | Stage_Done \<Rightarrow> anchored_by p own kit_head)"

definition alerted_changes :: "policy_chain \<Rightarrow> account_chain \<Rightarrow> ident \<Rightarrow> u64 \<Rightarrow> u64 list" where
  "alerted_changes p own this_device trusted_after =
     map (\<lambda>change. pol_revision (body change))
       (filter (\<lambda>change. let signer = pol_signer (body change) in
           signer \<noteq> this_device \<and> bt_get (ac_cards own) signer \<noteq> None
           \<and> pol_kind (body change) \<noteq> Policy_AccountHeads)
         (filter (\<lambda>change. pol_revision (body change) > trusted_after) (pc_changes p)))"

definition names_genesis :: "policy_chain \<Rightarrow> ident \<Rightarrow> digest \<Rightarrow> bool" where
  "names_genesis p account genesis \<longleftrightarrow> list_ex (\<lambda>change.
     let b = body change;
         anchors = (case pol_kind b of
             Policy_Genesis _ \<Rightarrow> True
           | Policy_AddMember added _ _ \<Rightarrow> added = account
           | Policy_AcceptReset added \<Rightarrow> added = account
           | _ \<Rightarrow> False)
     in anchors \<and> list_ex (\<lambda>h. ah_account h = account \<and> ah_genesis h = genesis) (pol_heads b))
     (pc_changes p)"

definition recorded_heads :: "policy_chain \<Rightarrow> u64 \<Rightarrow> account_head list" where
  "recorded_heads p revision =
     concat (map (\<lambda>c. pol_heads (body c))
       (takeWhile (\<lambda>c. pol_revision (body c) \<le> revision) (pc_changes p)))"

definition reads_invitees :: "policy_chain \<Rightarrow> ident \<Rightarrow> bool" where
  "reads_invitees p reader_account \<longleftrightarrow> role_of (head_snapshot p) reader_account \<noteq> None"

definition reads_reset_chain :: "policy_chain \<Rightarrow> ident list \<Rightarrow> ident \<Rightarrow> digest \<Rightarrow> bool" where
  "reads_reset_chain p reader account genesis \<longleftrightarrow>
     list_ex (is_device (head_snapshot p)) reader
     \<and> (case bt_get (sn_members (head_snapshot p)) account of
          None \<Rightarrow> False | Some m \<Rightarrow> ah_genesis (mem_head m) \<noteq> genesis)"

text \<open>\<open>iter().max()\<close>.\<close>

definition list_max :: "u64 list \<Rightarrow> u64 option" where
  "list_max xs = (case xs of [] \<Rightarrow> None | y # ys \<Rightarrow> Some (fold max ys y))"

definition removed_reader :: "policy_chain \<Rightarrow> ident list \<Rightarrow> ident \<Rightarrow> u64 \<Rightarrow> bool" where
  "removed_reader p reader reader_account revision \<longleftrightarrow>
     (case change_at p revision of None \<Rightarrow> False
      | Some c \<Rightarrow> pol_kind (body c) = Policy_RemoveMember reader_account)
     \<and> (case snapshot_at p (revision - 1) of None \<Rightarrow> False
        | Some before \<Rightarrow> list_ex (is_device before) reader)"

definition chain_read_bound ::
  "policy_chain \<Rightarrow> ident list \<Rightarrow> ident \<Rightarrow> ident \<Rightarrow> digest \<Rightarrow> u64 \<Rightarrow> u64 option" where
  "chain_read_bound p reader reader_account account genesis chain_head_seqno =
     (let s = head_snapshot p;
          active = list_ex (is_device s) reader;
          limit_revision = (if active then Some (sn_revision s)
            else find (removed_reader p reader reader_account)
              (rev (map of_nat [2..<Suc (unat (sn_revision s))])))
      in case limit_revision of None \<Rightarrow> None | Some r \<Rightarrow>
        (case list_max (map ah_seqno (filter (\<lambda>h. ah_account h = account \<and> ah_genesis h = genesis)
            (recorded_heads p r))) of
          None \<Rightarrow> None
        | Some recorded \<Rightarrow>
            let named = (case bt_get (sn_members s) account of
                None \<Rightarrow> False | Some m \<Rightarrow> ah_genesis (mem_head m) = genesis)
            in Some (if active \<and> named then chain_head_seqno else recorded)))"

subsection \<open>What a session reads\<close>

lemma list_max_Some:
  assumes "list_max xs = Some m"
  shows "m \<in> set xs" and "\<And>x. x \<in> set xs \<Longrightarrow> x \<le> m"
proof -
  have fold: "fold max ys y \<in> insert y (set ys) \<and> (\<forall>x \<in> insert y (set ys). x \<le> fold max ys y)"
    for ys and y :: u64
  proof (induction ys arbitrary: y)
    case (Cons z ys)
    have "max z y \<in> {z, y}" by (simp add: max_def)
    then show ?case
      using Cons.IH [of "max z y"] by auto
  qed simp
  show "m \<in> set xs" "\<And>x. x \<in> set xs \<Longrightarrow> x \<le> m"
    using assms fold by (cases xs; force simp: list_max_def)+
qed

text \<open>
  A session reads an account chain through the workspace only under the chain's genesis the
  policy recorded: a session with a device of the workspace reads all of the chain the policy
  names for a current member, and any other chain up to a head the policy records; a session of
  a removed account reads up to a head recorded by the change that removed the account while
  one of the session's devices was a device of the workspace; any other session reads nothing.
\<close>

theorem chain_read_bound_safe:
  assumes "chain_read_bound p reader reader_account account genesis hs = Some n"
  shows "(list_ex (is_device (head_snapshot p)) reader
      \<and> (\<exists>m. bt_get (sn_members (head_snapshot p)) account = Some m \<and> ah_genesis (mem_head m) = genesis)
      \<and> n = hs)
    \<or> (\<exists>limit_revision h.
        (if list_ex (is_device (head_snapshot p)) reader then limit_revision = sn_revision (head_snapshot p)
         else removed_reader p reader reader_account limit_revision)
        \<and> h \<in> set (recorded_heads p limit_revision) \<and> ah_account h = account \<and> ah_genesis h = genesis
        \<and> n = ah_seqno h)"
proof -
  let ?s = "head_snapshot p"
  let ?active = "list_ex (is_device ?s) reader"
  obtain r m where r: "(if ?active then Some (sn_revision ?s)
            else find (removed_reader p reader reader_account)
              (rev (map of_nat [2..<Suc (unat (sn_revision ?s))]))) = Some r"
    and m: "list_max (map ah_seqno (filter (\<lambda>h. ah_account h = account \<and> ah_genesis h = genesis)
            (recorded_heads p r))) = Some m"
    and n: "n = (if ?active \<and> (case bt_get (sn_members ?s) account of
                None \<Rightarrow> False | Some m \<Rightarrow> ah_genesis (mem_head m) = genesis) then hs else m)"
    using assms unfolding chain_read_bound_def Let_def by (auto split: option.splits)
  have "if ?active then r = sn_revision ?s else removed_reader p reader reader_account r"
    using r by (auto simp: find_Some_iff split: if_splits)
  moreover obtain h where "h \<in> set (recorded_heads p r)" "ah_account h = account" "ah_genesis h = genesis"
    "ah_seqno h = m"
    using list_max_Some(1) [OF m] by auto
  ultimately show ?thesis
    using n by (auto split: option.splits if_splits)
qed

theorem chain_read_bound_safe_witness: "bt_get (sn_members (demo_snapshot 3)) (Ident 98) \<noteq> None"
proof -
  have "chain_read_bound (demo_policy 3) [Ident 1] (Ident 99) (Ident 98) (demo_digest 11) 2 = Some 2"
    by (simp add: chain_read_bound_def recorded_heads_def Let_def list_max_def)
      (simp add: demo_policy_def demo_changes_def demo_change_def demo_snapshot_def is_device_def
        demo_devices_def demo_members_def takeWhile.simps)
  from chain_read_bound_safe [OF this] show ?thesis
    by (simp add: demo_snapshot_def demo_members_def)
qed

subsection \<open>Where a chain enters the log\<close>

definition names_in :: "policy_change \<Rightarrow> ident \<Rightarrow> digest \<Rightarrow> bool" where
  "names_in b account genesis \<longleftrightarrow>
     ((\<exists>d. pol_kind b = Policy_Genesis d) \<or> named_new (pol_kind b) = Some account)
     \<and> (\<exists>h \<in> set (pol_heads b). ah_account h = account \<and> ah_genesis h = genesis)"

lemma names_genesis_iff:
  "names_genesis p account genesis \<longleftrightarrow> (\<exists>c \<in> set (pc_changes p). names_in (body c) account genesis)"
proof -
  have "(case k of Policy_Genesis _ \<Rightarrow> True | Policy_AddMember added _ _ \<Rightarrow> added = account
      | Policy_AcceptReset added \<Rightarrow> added = account | _ \<Rightarrow> False)
    \<longleftrightarrow> (\<exists>d. k = Policy_Genesis d) \<or> named_new k = Some account" for k
    by (cases k) auto
  then show ?thesis
    by (simp add: names_genesis_def names_in_def Let_def list_ex_iff)
qed

text \<open>The chain of each head of an accepted change is the recorded one, or the change names it.\<close>

lemma accepted_head_named:
  assumes rules: "heads_rules prev b sa h = Inr ()" and role: "role_of prev sa \<noteq> None"
    and g: "g \<in> set (pol_heads b)"
  shows "(\<exists>m. bt_get (sn_members prev) (ah_account g) = Some m \<and> ah_genesis g = ah_genesis (mem_head m))
    \<or> names_in b (ah_account g) (ah_genesis g)"
proof -
  have allowed: "head_allowed prev (pol_kind b) sa g" and behind: "\<not> head_behind prev (pol_kind b) g"
    using rules g by (auto simp: heads_rules_def Let_def list_all_iff list_ex_iff)
  show ?thesis
  proof (cases "bt_get (sn_members prev) (ah_account g)")
    case None
    then have "ah_account g \<noteq> sa" using role by (auto simp: role_of_def)
    then have "named_new (pol_kind b) = Some (ah_account g)"
      using allowed None by (auto simp: head_allowed_def)
    then show ?thesis using g by (auto simp: names_in_def)
  next
    case (Some m)
    show ?thesis
    proof (cases "ah_genesis g = ah_genesis (mem_head m)")
      case False
      then have "pol_kind b = Policy_AcceptReset (ah_account g)"
        using behind Some by (auto simp: head_behind_def Let_def)
      then show ?thesis using g by (auto simp: names_in_def)
    qed (use Some in blast)
  qed
qed

definition heads_named :: "policy_chain \<Rightarrow> bool" where
  "heads_named p \<longleftrightarrow>
     (\<forall>a m. bt_get (sn_members (head_snapshot p)) a = Some m \<longrightarrow> names_genesis p a (ah_genesis (mem_head m)))
     \<and> (\<forall>c \<in> set (pc_changes p). \<forall>h \<in> set (pol_heads (body c)). names_genesis p (ah_account h) (ah_genesis h))"

lemma heads_named_genesis:
  assumes "policy_from_genesis cr c acs = Inr p"
  shows "heads_named p"
  using assms
proof (rule policy_from_genesisE)
  fix wd h ac t
  assume g: "pol_kind (body c) = Policy_Genesis wd" "pol_heads (body c) = [h]"
    "finish_snapshot (genesis_snapshot cr c wd h) (genesis_snapshot cr c wd h) acs 1 = Inr t"
    "p = \<lparr>pc_workspace = pol_workspace (body c), pc_changes = [c], pc_snapshots = [t]\<rparr>"
  have "same_core (genesis_snapshot cr c wd h) t"
    by (rule finish_snapshot_Inr(1) [OF g(3)]) (simp add: genesis_snapshot_def indices_ok_def)
  then show "heads_named p"
    using g by (auto simp: heads_named_def names_genesis_iff names_in_def same_core_def head_snapshot_def
        genesis_snapshot_def split: if_splits)
qed

lemma heads_named_append:
  assumes check: "check_change cr p c acs = Inr t" and ok: "snapshot_ok acs (head_snapshot p)"
    and named: "heads_named p"
  shows "heads_named (p\<lparr>pc_changes := pc_changes p @ [c], pc_snapshots := pc_snapshots p @ [t]\<rparr>)"
    (is "heads_named ?p'")
  using check ok
proof (rule accepted_change)
  let ?prev = "head_snapshot p" and ?b = "body c"
  fix h chain sr s u
  assume role: "role_of ?prev (ah_account h) = Some sr"
    and rules: "heads_rules ?prev ?b (ah_account h) h = Inr ()"
    and kind: "apply_policy_kind ?prev ?b (ah_account h) sr h (start_next cr ?prev c) = Inr s"
    and u: "u = record_gone acs (pol_heads ?b) (record_heads ?prev (ah_account h) (pol_heads ?b) s)"
    and core: "same_core u t"
  have mono: "names_genesis ?p' a g" if "names_genesis p a g \<or> names_in ?b a g" for a g
    using that by (auto simp: names_genesis_iff)
  have old: "names_genesis p a (ah_genesis (mem_head m))" if "bt_get (sn_members ?prev) a = Some m" for a m
    using named that by (auto simp: heads_named_def)
  have new: "names_genesis ?p' (ah_account g) (ah_genesis g)" if "g \<in> set (pol_heads ?b)" for g
    using accepted_head_named [OF rules _ that] role old mono by (metis option.distinct(1))
  have "names_genesis ?p' a (ah_genesis (mem_head m'))" if "bt_get (sn_members t) a = Some m'" for a m'
  proof -
    have "bt_get (sn_members (record_heads ?prev (ah_account h) (pol_heads ?b) s)) a = Some m'"
      using that core record_gone_frame u by (simp add: same_core_def)
    then obtain m1 where m1: "bt_get (sn_members s) a = Some m1"
      "mem_head m' = mem_head m1 \<or> mem_head m' \<in> set (pol_heads ?b) \<and> ah_account (mem_head m') = a"
      using record_heads_member by blast
    have "(\<exists>m0. bt_get (sn_members ?prev) a = Some m0 \<and> mem_head m1 = mem_head m0)
      \<or> mem_head m1 \<in> set (pol_heads ?b) \<and> ah_account (mem_head m1) = a"
      using member_sources [OF rules kind _ m1(1)] by auto
    then show ?thesis using m1(2) new old mono by metis
  qed
  moreover have "head_snapshot ?p' = t" by (simp add: head_snapshot_def)
  ultimately show "heads_named ?p'"
    using new named mono by (auto simp: heads_named_def)
qed

text \<open>
  Every account head that a verified policy records lies on a chain that the log names where
  a chain may enter: in the genesis, in the \<open>add_member\<close> of that account or in an
  \<open>accept_reset\<close> of it; an \<open>account_heads\<close> change, or any other, never brings a new chain in.
\<close>

theorem recorded_chains_named:
  assumes "verify_policy cr changes acs = Inr p"
    and "c \<in> set changes" and "h \<in> set (pol_heads (body c))"
  shows "names_genesis p (ah_account h) (ah_genesis h)"
proof -
  have "heads_named p" using assms(1)
  proof (induction rule: verify_policy_induct)
    case (genesis c p)
    then show ?case by (rule heads_named_genesis)
  next
    case (append cs c p t)
    then show ?case using head_snapshot_ok heads_named_append by blast
  qed
  then show ?thesis
    using assms verify_policy_structure [OF assms(1)] by (auto simp: heads_named_def)
qed

theorem recorded_chains_named_witness: "names_genesis (demo_policy 3) (Ident 98) (demo_digest 11)"
  using recorded_chains_named [OF demo_policy_verified, of "demo_changes ! 1" "demo_h98 1"]
  by (simp add: demo_changes_def demo_change_def)

end
