(* ===== verification/Records_Epoch.thy ===== *)
theory Records_Epoch
  imports Records_Account
begin

text \<open>
  Epoch records, epoch bundles and envelopes (\<^verbatim>\<open>records/epoch.rs\<close>, \<section>9) and their encodings.
\<close>

definition LINEAGE_LEN :: nat where "LINEAGE_LEN = 48"
definition MAX_RECIPIENTS :: nat where "MAX_RECIPIENTS = 512"
definition ENCAPSULATED_KEY_LEN :: nat where "ENCAPSULATED_KEY_LEN = 1120"
definition ENVELOPE_CIPHERTEXT_LEN :: nat where "ENVELOPE_CIPHERTEXT_LEN = 48"

subsection \<open>The lineage field\<close>

definition dec_lineage :: "byte list decoder" where
  "dec_lineage = rbind roffset (\<lambda>offset. rbind (rbytes LINEAGE_LEN) (\<lambda>bs.
     rbind (rensure (\<not> (bs \<noteq> [] \<and> length bs \<noteq> LINEAGE_LEN)) (error_at WrongLength offset)) (\<lambda>_. rret bs)))"

definition wf_lineage :: "byte list \<Rightarrow> bool" where
  "wf_lineage bs \<longleftrightarrow> bs = [] \<or> length bs = LINEAGE_LEN"

lemmas lineage_bytes_wire = wire_bytes [of LINEAGE_LEN]

interpretation lineage: wire w_bytes dec_lineage wf_lineage 4
proof
  have wf: "wf_bytes LINEAGE_LEN bs" if "wf_lineage bs" for bs
    using that by (auto simp: wf_lineage_def wf_bytes_def fits_u32_def LINEAGE_LEN_def)
  show "decodes dec_lineage (w_bytes x) x" if "wf_lineage x" for x
    using that wf [OF that] unfolding dec_lineage_def
    by (intro decodes_offset decodes_last [OF wire.decodes_enc [OF lineage_bytes_wire]] last_decodes)
      (auto simp: wf_lineage_def)
  show "accepts dec_lineage (\<lambda>x bs. wf_lineage x \<and> bs = w_bytes x)"
    unfolding dec_lineage_def
    by (intro accepts_offset accepts_bind [OF wire.accepts_dec [OF lineage_bytes_wire]] field_accepts)
      (auto simp: wf_lineage_def)
qed (simp add: w_bytes_def w_u32_def)

subsection \<open>Epoch records\<close>

record epoch =
  ep_workspace :: ident
  ep_domain :: ident
  ep_epoch :: u64
  ep_previous :: digest
  ep_policy_revision :: u64
  ep_policy_head :: digest
  ep_rotating_device :: ident
  ep_recipients_digest :: digest
  ep_key_check :: digest
  ep_lineage_nonce :: nonce
  ep_lineage :: "byte list"

definition epoch_prefix :: "epoch \<Rightarrow> byte list" where
  "epoch_prefix e = tag_bytes Tag_Epoch @ ident_bytes (ep_workspace e) @ ident_bytes (ep_domain e)
     @ w_u64 (ep_epoch e) @ digest_bytes (ep_previous e) @ w_u64 (ep_policy_revision e)
     @ digest_bytes (ep_policy_head e) @ ident_bytes (ep_rotating_device e)
     @ digest_bytes (ep_recipients_digest e) @ digest_bytes (ep_key_check e)"

definition epoch_aad :: "epoch \<Rightarrow> byte list" where
  "epoch_aad e = epoch_prefix e"

definition enc_epoch :: "epoch \<Rightarrow> byte list" where
  "enc_epoch e = epoch_prefix e @ nonce_bytes (ep_lineage_nonce e) @ w_bytes (ep_lineage e)"

definition dec_epoch :: "epoch decoder" where
  "dec_epoch =
     rbind (rtag Tag_Epoch) (\<lambda>_. rbind dec_ident (\<lambda>workspace. rbind dec_ident (\<lambda>d.
     rbind roffset (\<lambda>epoch_offset. rbind ru64 (\<lambda>number.
     rbind (rensure (number \<noteq> 0) (error_at OutOfRange epoch_offset)) (\<lambda>_.
     rbind dec_digest (\<lambda>previous. rbind ru64 (\<lambda>policy_revision. rbind dec_digest (\<lambda>policy_head.
     rbind dec_ident (\<lambda>rotating. rbind dec_digest (\<lambda>recipients. rbind dec_digest (\<lambda>check.
     rbind dec_nonce (\<lambda>n. rbind dec_lineage (\<lambda>lineage.
     rret \<lparr>ep_workspace = workspace, ep_domain = d, ep_epoch = number, ep_previous = previous,
       ep_policy_revision = policy_revision, ep_policy_head = policy_head, ep_rotating_device = rotating,
       ep_recipients_digest = recipients, ep_key_check = check, ep_lineage_nonce = n,
       ep_lineage = lineage\<rparr>))))))))))))))"

definition wf_epoch :: "epoch \<Rightarrow> bool" where
  "wf_epoch e \<longleftrightarrow> wf_ident (ep_workspace e) \<and> wf_ident (ep_domain e) \<and> ep_epoch e \<noteq> 0
     \<and> wf_ident (ep_rotating_device e) \<and> wf_lineage (ep_lineage e)"

definition epoch_MIN_SIZE :: nat where
  "epoch_MIN_SIZE = encoded_len Tag_Epoch + 16 + 16 + 8 + 32 + 8 + 32 + 16 + 32 + 32 + 24 + 4"

interpretation epoch: wire enc_epoch dec_epoch wf_epoch epoch_MIN_SIZE
proof
  show "decodes dec_epoch (enc_epoch x) x" if "wf_epoch x" for x
    using that unfolding dec_epoch_def enc_epoch_def epoch_prefix_def wf_epoch_def append_assoc
    by (intro field_decodes decodes_last [OF lineage.decodes_enc] last_decodes) simp_all
  show "accepts dec_epoch (\<lambda>x bs. wf_epoch x \<and> bs = enc_epoch x)"
    unfolding dec_epoch_def
    by (intro field_accepts accepts_bind [OF lineage.accepts_dec])
      (auto simp: wf_epoch_def enc_epoch_def epoch_prefix_def)
  show "epoch_MIN_SIZE \<le> length (enc_epoch x)" if "wf_epoch x" for x
    by (simp add: enc_epoch_def epoch_prefix_def epoch_MIN_SIZE_def w_u64_def w_bytes_def w_u32_def
        nonce_bytes_def)
qed

lemmas signed_epoch_wire = wire_signed [OF epoch.wire_axioms]

abbreviation signed_epoch_digest :: "crypto \<Rightarrow> epoch signed \<Rightarrow> digest" where
  "signed_epoch_digest cr \<equiv> signed_digest cr enc_epoch"

subsection \<open>Epoch bundles\<close>

record epoch_bundle =
  eb_epoch :: "epoch signed"
  eb_recipients :: "ident list"

definition enc_epoch_bundle :: "epoch_bundle \<Rightarrow> byte list" where
  "enc_epoch_bundle b = enc_nested (enc_signed enc_epoch) (eb_epoch b)
     @ encode_list ident_bytes (eb_recipients b)"

definition dec_recipients :: "ident list decoder" where
  "dec_recipients = dec_sorted ident_bytes MAX_RECIPIENTS 16 dec_ident"

definition dec_epoch_bundle :: "epoch_bundle decoder" where
  "dec_epoch_bundle =
     rbind (dec_nested (dec_signed dec_epoch)) (\<lambda>e. rbind dec_recipients (\<lambda>recipients.
     rret \<lparr>eb_epoch = e, eb_recipients = recipients\<rparr>))"

definition wf_epoch_bundle :: "epoch_bundle \<Rightarrow> bool" where
  "wf_epoch_bundle b \<longleftrightarrow> wf_nested (enc_signed enc_epoch) (wf_signed wf_epoch) (eb_epoch b)
     \<and> wf_sorted ident_bytes MAX_RECIPIENTS wf_ident (eb_recipients b)"

lemmas recipients_wire = wire_sorted [OF ident.wire_axioms sixteen_pos,
    of ident_bytes MAX_RECIPIENTS, folded dec_recipients_def]
lemmas epoch_nested_wire = wire_nested [OF signed_epoch_wire]

interpretation epoch_bundle: wire enc_epoch_bundle dec_epoch_bundle wf_epoch_bundle 8
proof
  show "decodes dec_epoch_bundle (enc_epoch_bundle x) x" if "wf_epoch_bundle x" for x
    using that unfolding dec_epoch_bundle_def enc_epoch_bundle_def wf_epoch_bundle_def
    by (intro decodes_bind [OF wire.decodes_enc [OF epoch_nested_wire]]
        decodes_last [OF wire.decodes_enc [OF recipients_wire]] last_decodes) simp_all
  show "accepts dec_epoch_bundle (\<lambda>x bs. wf_epoch_bundle x \<and> bs = enc_epoch_bundle x)"
    unfolding dec_epoch_bundle_def
    by (intro accepts_bind [OF wire.accepts_dec [OF epoch_nested_wire]]
        accepts_bind [OF wire.accepts_dec [OF recipients_wire]] accepts_ret)
      (simp add: wf_epoch_bundle_def enc_epoch_bundle_def)
qed (simp add: enc_epoch_bundle_def enc_nested_def w_bytes_def encode_list_def w_u32_def)

subsection \<open>Envelopes\<close>

record envelope =
  en_workspace :: ident
  en_domain :: ident
  en_epoch :: u64
  en_recipient :: ident
  en_recipient_hpke_digest :: digest
  en_wrapping_device :: ident
  en_enc :: "byte list"
  en_ciphertext :: "byte list"

definition envelope_prefix :: "envelope \<Rightarrow> byte list" where
  "envelope_prefix e = tag_bytes Tag_Envelope @ ident_bytes (en_workspace e) @ ident_bytes (en_domain e)
     @ w_u64 (en_epoch e) @ ident_bytes (en_recipient e) @ digest_bytes (en_recipient_hpke_digest e)
     @ ident_bytes (en_wrapping_device e)"

definition envelope_info :: "envelope \<Rightarrow> byte list" where
  "envelope_info e = envelope_prefix e"

definition enc_envelope :: "envelope \<Rightarrow> byte list" where
  "enc_envelope e = envelope_prefix e @ w_bytes (en_enc e) @ w_bytes (en_ciphertext e)"

definition dec_envelope :: "envelope decoder" where
  "dec_envelope =
     rbind (rtag Tag_Envelope) (\<lambda>_. rbind dec_ident (\<lambda>workspace. rbind dec_ident (\<lambda>d.
     rbind ru64 (\<lambda>number. rbind dec_ident (\<lambda>recipient. rbind dec_digest (\<lambda>hpke.
     rbind dec_ident (\<lambda>wrapping. rbind (rbytes_exact ENCAPSULATED_KEY_LEN) (\<lambda>enc.
     rbind (rbytes_exact ENVELOPE_CIPHERTEXT_LEN) (\<lambda>ciphertext.
     rret \<lparr>en_workspace = workspace, en_domain = d, en_epoch = number, en_recipient = recipient,
       en_recipient_hpke_digest = hpke, en_wrapping_device = wrapping, en_enc = enc,
       en_ciphertext = ciphertext\<rparr>)))))))))"

definition wf_envelope :: "envelope \<Rightarrow> bool" where
  "wf_envelope e \<longleftrightarrow> wf_ident (en_workspace e) \<and> wf_ident (en_domain e) \<and> wf_ident (en_recipient e)
     \<and> wf_ident (en_wrapping_device e) \<and> wf_exact ENCAPSULATED_KEY_LEN (en_enc e)
     \<and> wf_exact ENVELOPE_CIPHERTEXT_LEN (en_ciphertext e)"

definition envelope_MIN_SIZE :: nat where
  "envelope_MIN_SIZE = encoded_len Tag_Envelope + 16 + 16 + 8 + 16 + 32 + 16 + 4 + ENCAPSULATED_KEY_LEN
     + 4 + ENVELOPE_CIPHERTEXT_LEN"

lemma fits_envelope: "fits_u32 ENCAPSULATED_KEY_LEN" "fits_u32 ENVELOPE_CIPHERTEXT_LEN"
  by (simp_all add: fits_u32_def ENCAPSULATED_KEY_LEN_def ENVELOPE_CIPHERTEXT_LEN_def)

lemmas envelope_bytes_wire = wire_bytes_exact [OF fits_envelope(1)] wire_bytes_exact [OF fits_envelope(2)]

interpretation envelope: wire enc_envelope dec_envelope wf_envelope envelope_MIN_SIZE
proof
  show "decodes dec_envelope (enc_envelope x) x" if "wf_envelope x" for x
    using that unfolding dec_envelope_def enc_envelope_def envelope_prefix_def wf_envelope_def append_assoc
    by (intro field_decodes decodes_bind [OF wire.decodes_enc [OF envelope_bytes_wire(1)]]
        decodes_last [OF wire.decodes_enc [OF envelope_bytes_wire(2)]] last_decodes) simp_all
  show "accepts dec_envelope (\<lambda>x bs. wf_envelope x \<and> bs = enc_envelope x)"
    unfolding dec_envelope_def
    by (intro field_accepts accepts_bind [OF wire.accepts_dec [OF envelope_bytes_wire(1)]]
        accepts_bind [OF wire.accepts_dec [OF envelope_bytes_wire(2)]])
      (auto simp: wf_envelope_def enc_envelope_def envelope_prefix_def)
  show "envelope_MIN_SIZE \<le> length (enc_envelope x)" if "wf_envelope x" for x
    using that by (simp add: enc_envelope_def envelope_prefix_def envelope_MIN_SIZE_def w_u64_def
        w_bytes_def w_u32_def wf_envelope_def wf_exact_def)
qed

lemmas signed_envelope_wire = wire_signed [OF envelope.wire_axioms]

end
