(* ===== verification/Keys.thy ===== *)
theory Keys
  imports Records_Epoch Policy
begin

text \<open>
  Key domains (\<^verbatim>\<open>keys.rs\<close>, \<section>9): epoch keys and their subkeys, the records a client accepts with
  the replacements that end epochs, envelope checks, and the judge that walks a domain's log.
\<close>

subsection \<open>Keys and epoch records\<close>

definition operation_key :: "crypto \<Rightarrow> secret_key \<Rightarrow> secret_key" where
  "operation_key cr k = derive_key cr OPERATION_KEY (secret_bytes k)"

definition lineage_key :: "crypto \<Rightarrow> secret_key \<Rightarrow> secret_key" where
  "lineage_key cr k = derive_key cr LINEAGE_KEY (secret_bytes k)"

definition presence_key :: "crypto \<Rightarrow> secret_key \<Rightarrow> secret_key" where
  "presence_key cr k = derive_key cr PRESENCE_KEY (secret_bytes k)"

definition profile_key :: "crypto \<Rightarrow> secret_key \<Rightarrow> secret_key" where
  "profile_key cr k = derive_key cr PROFILE_KEY (secret_bytes k)"

definition key_check :: "crypto \<Rightarrow> secret_key \<Rightarrow> ident \<Rightarrow> ident \<Rightarrow> u64 \<Rightarrow> digest" where
  "key_check cr k workspace d number =
     keyed_hash cr (derive_key cr KEY_CHECK (secret_bytes k))
       (tag_bytes Tag_KeyCheck @ ident_bytes workspace @ ident_bytes d @ w_u64 number)"

text \<open>A \<open>BTreeSet\<close> iterates in the order of its elements.\<close>

definition set_list :: "ident set \<Rightarrow> ident list" where
  "set_list s = sorted_list_of_set s"

definition recipients_digest :: "crypto \<Rightarrow> ident set \<Rightarrow> digest" where
  "recipients_digest cr recipients =
     hash_parts cr [tag_bytes Tag_EpochRecipients @ encode_list ident_bytes (set_list recipients)]"

definition key_matches :: "crypto \<Rightarrow> epoch \<Rightarrow> secret_key \<Rightarrow> bool" where
  "key_matches cr e k \<longleftrightarrow> key_check cr k (ep_workspace e) (ep_domain e) (ep_epoch e) = ep_key_check e"

record epoch_params =
  pa_workspace :: ident
  pa_domain :: ident
  pa_epoch :: u64
  pa_previous :: digest
  pa_policy_revision :: u64
  pa_policy_head :: digest
  pa_rotating_device :: ident
  pa_recipients :: "ident set"

definition build_epoch :: "crypto \<Rightarrow> epoch_params \<Rightarrow> secret_key \<Rightarrow> secret_key option \<Rightarrow> nonce \<Rightarrow> epoch" where
  "build_epoch cr params k previous_key n =
     (let e = \<lparr>ep_workspace = pa_workspace params, ep_domain = pa_domain params,
            ep_epoch = pa_epoch params, ep_previous = pa_previous params,
            ep_policy_revision = pa_policy_revision params, ep_policy_head = pa_policy_head params,
            ep_rotating_device = pa_rotating_device params,
            ep_recipients_digest = recipients_digest cr (pa_recipients params),
            ep_key_check = key_check cr k (pa_workspace params) (pa_domain params) (pa_epoch params),
            ep_lineage_nonce = ZERO_nonce, ep_lineage = []\<rparr>
      in case previous_key of None \<Rightarrow> e
        | Some previous \<Rightarrow> e\<lparr>ep_lineage_nonce := n,
            ep_lineage := seal cr (lineage_key cr k) n (epoch_aad (e\<lparr>ep_lineage_nonce := n\<rparr>))
              (secret_bytes previous)\<rparr>)"

datatype key_error =
    Key_Domain | Key_Signature | Key_Signer | Key_FirstEpochSigner | Key_PolicyRevision | Key_PolicyHead
  | Key_Recipients | Key_Chain | Key_Lineage | Key_KeyCheck | Key_Recipient

fun key_client_code :: "key_error \<Rightarrow> string" where
  "key_client_code Key_PolicyHead = ''sync_policy_forked''"
| "key_client_code _ = ''sync_key_mismatch''"

definition open_lineage :: "crypto \<Rightarrow> epoch \<Rightarrow> secret_key \<Rightarrow> key_error + secret_key" where
  "open_lineage cr e k =
     (if length (ep_lineage e) \<noteq> LINEAGE_LEN then Inl Key_Lineage
      else and_then (map_err (\<lambda>_. Key_Lineage)
          (open_sealed cr (lineage_key cr k) (ep_lineage_nonce e) (epoch_aad e) (ep_lineage e))) (\<lambda>bs.
        if length bs = 32 then Inr (SecretKey (bytes_word bs)) else Inl Key_Lineage))"

fun walk_lineage :: "crypto \<Rightarrow> epoch signed list \<Rightarrow> secret_key \<Rightarrow> key_error + secret_key list" where
  "walk_lineage cr [] k = Inr []"
| "walk_lineage cr [r] k = (if \<not> key_matches cr (body r) k then Inl Key_KeyCheck else Inr [k])"
| "walk_lineage cr (r # older # rs) k =
     (if \<not> key_matches cr (body r) k then Inl Key_KeyCheck
      else if ep_previous (body r) \<noteq> signed_epoch_digest cr older then Inl Key_Chain
      else and_then (open_lineage cr (body r) k) (\<lambda>k'.
        and_then (walk_lineage cr (older # rs) k') (\<lambda>ks. Inr (k # ks))))"

subsection \<open>The accepted records of a domain\<close>

record accepted_epoch =
  acc_record :: "epoch signed"
  acc_digest :: digest

text \<open>\<open>RangeInclusive<u64>\<close> as its two ends.\<close>

datatype epoch_acceptance = Acceptance_Next | Acceptance_Replacement u64 u64

record epoch_chain =
  ec_workspace :: ident
  ec_domain :: ident
  ec_accepted :: "(u64, accepted_epoch) btree"
  ec_ended :: "(u64, u64) btree"

definition new_epoch_chain :: "ident \<Rightarrow> ident \<Rightarrow> epoch_chain" where
  "new_epoch_chain workspace d =
     \<lparr>ec_workspace = workspace, ec_domain = d, ec_accepted = bt_empty, ec_ended = bt_empty\<rparr>"

definition ec_latest :: "epoch_chain \<Rightarrow> accepted_epoch option" where
  "ec_latest c = (case rev (bt_values (ec_accepted c)) of [] \<Rightarrow> None | a # _ \<Rightarrow> Some a)"

definition ec_oldest :: "epoch_chain \<Rightarrow> accepted_epoch option" where
  "ec_oldest c = (case bt_values (ec_accepted c) of [] \<Rightarrow> None | a # _ \<Rightarrow> Some a)"

definition ec_get :: "epoch_chain \<Rightarrow> u64 \<Rightarrow> accepted_epoch option" where
  "ec_get c number = bt_get (ec_accepted c) number"

definition ended_at :: "epoch_chain \<Rightarrow> u64 \<Rightarrow> u64 option" where
  "ended_at c number = bt_get (ec_ended c) number"

definition check_signed ::
  "crypto \<Rightarrow> epoch_chain \<Rightarrow> epoch signed \<Rightarrow> policy_chain \<Rightarrow> key_error + unit" where
  "check_signed cr c r p =
     (let b = body r in
      if ep_workspace b \<noteq> ec_workspace c \<or> ep_domain b \<noteq> ec_domain c then Inl Key_Domain
      else case snapshot_at p (ep_policy_revision b) of None \<Rightarrow> Inl Key_PolicyRevision
      | Some s \<Rightarrow>
        if sn_digest s \<noteq> ep_policy_head b then Inl Key_PolicyHead
        else (case bt_get (sn_devices s) (ep_rotating_device b) of None \<Rightarrow> Inl Key_Signer
        | Some wd \<Rightarrow>
          and_then (map_err (\<lambda>_. Key_Signature)
              (signed_verify cr enc_epoch r (signing_public (wd_card wd)))) (\<lambda>_.
            if \<not> can_wrap s (ep_rotating_device b) (ec_domain c) then Inl Key_Signer
            else if ep_recipients_digest b \<noteq> recipients_digest cr (readers s (ec_domain c))
            then Inl Key_Recipients else Inr ())))"

definition check_ended_entry ::
  "crypto \<Rightarrow> epoch_chain \<Rightarrow> epoch signed \<Rightarrow> policy_chain \<Rightarrow> key_error + unit" where
  "check_ended_entry cr c r p = check_signed cr c r p"

definition check_record ::
  "crypto \<Rightarrow> epoch_chain \<Rightarrow> epoch signed \<Rightarrow> secret_key \<Rightarrow> policy_chain \<Rightarrow> key_error + unit" where
  "check_record cr c r k p =
     and_then (check_signed cr c r p) (\<lambda>_. ensure (key_matches cr (body r) k) Key_KeyCheck)"

definition ec_take :: "crypto \<Rightarrow> epoch signed \<Rightarrow> epoch_chain \<Rightarrow> epoch_chain" where
  "ec_take cr r c = c\<lparr>ec_accepted := bt_insert (ep_epoch (body r))
     \<lparr>acc_record = r, acc_digest = signed_epoch_digest cr r\<rparr> (ec_accepted c)\<rparr>"

text \<open>The rules of epoch 1: nothing before it, and a restricted domain's creator signs it.\<close>

definition check_first_epoch :: "epoch_chain \<Rightarrow> epoch \<Rightarrow> policy_chain \<Rightarrow> key_error + unit" where
  "check_first_epoch c b p =
     (if ep_lineage b \<noteq> [] \<or> \<not> nonce_is_zero (ep_lineage_nonce b) then Inl Key_Lineage
      else case snapshot_at p (ep_policy_revision b) of None \<Rightarrow> Inl Key_PolicyRevision
      | Some s \<Rightarrow> (case bt_get (sn_domains s) (ec_domain c) of None \<Rightarrow> Inl Key_Domain
        | Some ds \<Rightarrow>
            if dom_restricted ds \<and> dom_creator ds \<noteq> ep_rotating_device b then Inl Key_FirstEpochSigner
            else Inr ()))"

definition judge_position ::
  "crypto \<Rightarrow> epoch_chain \<Rightarrow> epoch \<Rightarrow> secret_key \<Rightarrow> policy_chain \<Rightarrow> key_error + epoch_acceptance" where
  "judge_position cr c b k p =
     (case ec_latest c of
        None \<Rightarrow>
          if ep_epoch b \<noteq> 1 \<or> \<not> digest_is_zero (ep_previous b) then Inl Key_Chain
          else and_then (check_first_epoch c b p) (\<lambda>_. Inr Acceptance_Next)
      | Some latest \<Rightarrow>
          (case find (\<lambda>a. acc_digest a = ep_previous b) (bt_values (ec_accepted c)) of
             None \<Rightarrow> Inl Key_Chain
           | Some named \<Rightarrow>
               let latest_epoch = ep_epoch (body (acc_record latest));
                   named_body = body (acc_record named)
               in if ep_epoch b \<le> latest_epoch then Inl Key_Chain
                  else if ep_policy_revision b < ep_policy_revision named_body then Inl Key_PolicyRevision
                  else and_then (open_lineage cr b k) (\<lambda>previous_key.
                    if \<not> key_matches cr named_body previous_key then Inl Key_Lineage
                    else if acc_digest named = acc_digest latest \<and> ep_epoch b = latest_epoch + 1
                    then Inr Acceptance_Next
                    else Inr (Acceptance_Replacement (ep_epoch named_body + 1) (ep_epoch b - 1)))))"

definition end_epochs :: "u64 \<Rightarrow> u64 \<Rightarrow> u64 \<Rightarrow> epoch_chain \<Rightarrow> epoch_chain" where
  "end_epochs first final revision c =
     fold (\<lambda>number c. c\<lparr>ec_accepted := bt_remove number (ec_accepted c),
         ec_ended := bt_insert number revision (ec_ended c)\<rparr>)
       (map of_nat [unat first..<Suc (unat final)]) c"

definition accept_epoch ::
  "crypto \<Rightarrow> epoch_chain \<Rightarrow> epoch signed \<Rightarrow> secret_key \<Rightarrow> policy_chain \<Rightarrow> key_error + epoch_chain \<times> epoch_acceptance"
where
  "accept_epoch cr c r k p =
     and_then (check_signed cr c r p) (\<lambda>_.
     and_then (ensure (key_matches cr (body r) k) Key_KeyCheck) (\<lambda>_.
     and_then (judge_position cr c (body r) k p) (\<lambda>acceptance.
       let c = (case acceptance of Acceptance_Next \<Rightarrow> c
           | Acceptance_Replacement first final \<Rightarrow> end_epochs first final (ep_policy_revision (body r)) c)
       in Inr (ec_take cr r c, acceptance))))"

definition start_at ::
  "crypto \<Rightarrow> epoch_chain \<Rightarrow> epoch signed \<Rightarrow> secret_key \<Rightarrow> policy_chain \<Rightarrow> key_error + epoch_chain" where
  "start_at cr c r k p =
     (if bt_entries (ec_accepted c) \<noteq> [] then Inl Key_Chain
      else if ep_epoch (body r) = 1 then and_then (accept_epoch cr c r k p) (\<lambda>(c, _). Inr c)
      else if digest_is_zero (ep_previous (body r)) then Inl Key_Chain
      else and_then (check_record cr c r k p) (\<lambda>_. Inr (ec_take cr r c)))"

definition accept_older ::
  "crypto \<Rightarrow> epoch_chain \<Rightarrow> epoch signed \<Rightarrow> secret_key \<Rightarrow> policy_chain \<Rightarrow> key_error + epoch_chain" where
  "accept_older cr c r k p =
     (let b = body r in
      case ec_oldest c of None \<Rightarrow> Inl Key_Chain
      | Some a \<Rightarrow>
        let newer = body (acc_record a) in
        if ep_previous newer \<noteq> signed_epoch_digest cr r \<or> ep_epoch b \<ge> ep_epoch newer then Inl Key_Chain
        else if ep_policy_revision newer < ep_policy_revision b then Inl Key_PolicyRevision
        else and_then (check_record cr c r k p) (\<lambda>_.
          and_then (if ep_epoch b = 1
              then if \<not> digest_is_zero (ep_previous b) then Inl Key_Chain else check_first_epoch c b p
              else if digest_is_zero (ep_previous b) then Inl Key_Chain else Inr ()) (\<lambda>_.
          Inr (ec_take cr r (c\<lparr>ec_ended := fold (\<lambda>number. bt_insert number (ep_policy_revision newer))
            (map of_nat [unat (ep_epoch b + 1)..<unat (ep_epoch newer)]) (ec_ended c)\<rparr>)))))"

subsection \<open>Replacements\<close>

datatype skipped_epoch_record = Skipped_Unreadable | Skipped_Hold

definition reads_at :: "policy_chain \<Rightarrow> ident \<Rightarrow> ident \<Rightarrow> u64 \<Rightarrow> bool" where
  "reads_at p d device r \<longleftrightarrow> (case snapshot_at p r of None \<Rightarrow> False | Some s \<Rightarrow> can_read s device d)"

definition lost_read_access :: "policy_chain \<Rightarrow> ident \<Rightarrow> ident \<Rightarrow> u64 \<Rightarrow> bool" where
  "lost_read_access p d device through \<longleftrightarrow> \<not> reads_at p d device through
     \<and> list_ex (\<lambda>r. reads_at p d device (of_nat r)) [1..<unat through]"

definition judge_skipped_epoch_record ::
  "policy_chain \<Rightarrow> ident \<Rightarrow> ident \<Rightarrow> ident option \<Rightarrow> u64 \<Rightarrow> skipped_epoch_record" where
  "judge_skipped_epoch_record p d signer rotator replacement_revision =
     (if rotator = Some signer \<or> lost_read_access p d signer replacement_revision
      then Skipped_Unreadable else Skipped_Hold)"

definition makes_checkpoint_due :: "digest \<Rightarrow> epoch \<Rightarrow> bool" where
  "makes_checkpoint_due latest r \<longleftrightarrow> ep_previous r \<noteq> latest"

definition check_replacement ::
  "policy_chain \<Rightarrow> epoch \<Rightarrow> u64 \<Rightarrow> u64 \<Rightarrow> (u64, ident \<times> ident set) btree \<Rightarrow> string + unit" where
  "check_replacement p replacement named_epoch latest_epoch users =
     (if named_epoch \<ge> latest_epoch \<or> ep_epoch replacement \<noteq> latest_epoch + 1 then Inl ''epoch_conflict''
      else ensure (list_all (\<lambda>number.
          case bt_get users (of_nat number) of None \<Rightarrow> True
          | Some (rotator, signers) \<Rightarrow> list_all (\<lambda>signer. \<not> (signer \<noteq> rotator
              \<and> \<not> lost_read_access p (ep_domain replacement) signer (ep_policy_revision replacement)))
            (set_list signers))
        [unat (named_epoch + 1)..<Suc (unat latest_epoch)]) ''epoch_conflict'')"

subsection \<open>Envelopes\<close>

datatype envelope_verdict = Envelope_Accept | Envelope_Wait
datatype failed_envelopes = Failed_Replace | Failed_Rewrap

definition after_failed_envelopes :: "bool \<Rightarrow> failed_envelopes" where
  "after_failed_envelopes accepted_earlier_epoch =
     (if accepted_earlier_epoch then Failed_Replace else Failed_Rewrap)"

definition envelope_authorizes ::
  "crypto \<Rightarrow> envelope signed \<Rightarrow> policy_chain \<Rightarrow> u64 \<Rightarrow> bool option" where
  "envelope_authorizes cr e p revision =
     (case snapshot_at p revision of None \<Rightarrow> None | Some s \<Rightarrow>
       (case bt_get (sn_devices s) (en_wrapping_device (body e)) of None \<Rightarrow> None | Some wd \<Rightarrow>
         if can_wrap s (en_wrapping_device (body e)) (en_domain (body e))
         then Some (signed_verify cr enc_envelope e (signing_public (wd_card wd)) = Inr ()) else None))"

definition check_envelope ::
  "crypto \<Rightarrow> envelope signed \<Rightarrow> epoch \<Rightarrow> secret_key \<Rightarrow> card \<Rightarrow> policy_chain \<Rightarrow> u64 \<Rightarrow> u64 option
   \<Rightarrow> key_error + envelope_verdict" where
  "check_envelope cr e ep k recipient p accepted_head entry_revision =
     (let b = body e in
      if en_workspace b \<noteq> ep_workspace ep \<or> en_domain b \<noteq> ep_domain ep \<or> en_epoch b \<noteq> ep_epoch ep
      then Inl Key_Domain
      else if en_recipient b \<noteq> card_device recipient
        \<or> en_recipient_hpke_digest b \<noteq> card_hpke_digest cr recipient then Inl Key_Recipient
      else if \<not> key_matches cr ep k then Inl Key_KeyCheck
      else case envelope_authorizes cr e p accepted_head of
        Some True \<Rightarrow> Inr Envelope_Accept
      | Some False \<Rightarrow> Inl Key_Signature
      | None \<Rightarrow> (case entry_revision of
            None \<Rightarrow> Inr Envelope_Wait
          | Some revision \<Rightarrow> (case envelope_authorizes cr e p revision of
                Some True \<Rightarrow> Inr Envelope_Accept
              | Some False \<Rightarrow> Inl Key_Signature
              | None \<Rightarrow> Inl Key_Signer)))"

subsection \<open>The judge of a log\<close>

datatype position_error = Pos_WriterNotAuthorized | Pos_EpochStale | Pos_PolicyEntry

fun position_client_code :: "position_error \<Rightarrow> string" where
  "position_client_code Pos_WriterNotAuthorized = ''sync_writer_not_authorized''"
| "position_client_code Pos_EpochStale = ''sync_epoch_stale''"
| "position_client_code Pos_PolicyEntry = ''sync_chain_gap''"

record log_judge =
  lj_domain :: ident
  lj_policy_entry :: "u64 option"
  lj_epoch :: "(u64 \<times> u64) option"

definition new_judge :: "ident \<Rightarrow> log_judge" where
  "new_judge d = \<lparr>lj_domain = d, lj_policy_entry = None, lj_epoch = None\<rparr>"

definition judge_from_checkpoint :: "ident \<Rightarrow> u64 \<Rightarrow> u64 \<Rightarrow> u64 \<Rightarrow> log_judge" where
  "judge_from_checkpoint d policy_revision number epoch_policy_revision =
     \<lparr>lj_domain = d, lj_policy_entry = Some policy_revision, lj_epoch = Some (number, epoch_policy_revision)\<rparr>"

definition judge_policy_entry :: "log_judge \<Rightarrow> u64 \<Rightarrow> policy_chain \<Rightarrow> position_error + log_judge" where
  "judge_policy_entry j revision p =
     (if (case lj_policy_entry j of None \<Rightarrow> False | Some r \<Rightarrow> revision \<le> r) \<or> snapshot_at p revision = None
      then Inl Pos_PolicyEntry else Inr (j\<lparr>lj_policy_entry := Some revision\<rparr>))"

definition judge_epoch_entry :: "log_judge \<Rightarrow> epoch \<Rightarrow> log_judge" where
  "judge_epoch_entry j e = j\<lparr>lj_epoch := Some (ep_epoch e, ep_policy_revision e)\<rparr>"

definition latest_policy_entry :: "log_judge \<Rightarrow> u64 option" where
  "latest_policy_entry j = lj_policy_entry j"

definition rotation_pending :: "log_judge \<Rightarrow> policy_chain \<Rightarrow> bool" where
  "rotation_pending j p =
     (case (lj_policy_entry j, lj_epoch j) of
        (Some entry, Some (_, epoch_revision)) \<Rightarrow>
          rotation_required p (lj_domain j) epoch_revision entry \<noteq> None
      | _ \<Rightarrow> False)"

definition writes_at :: "policy_chain \<Rightarrow> ident \<Rightarrow> ident \<Rightarrow> u64 \<Rightarrow> bool" where
  "writes_at p d device r \<longleftrightarrow> (case snapshot_at p r of None \<Rightarrow> False | Some s \<Rightarrow> can_write s device d)"

definition check_writer :: "log_judge \<Rightarrow> ident \<Rightarrow> u64 \<Rightarrow> policy_chain \<Rightarrow> position_error + unit" where
  "check_writer j device policy_revision p =
     (case lj_policy_entry j of None \<Rightarrow> Inl Pos_WriterNotAuthorized
      | Some entry \<Rightarrow>
          if policy_revision > entry \<or> \<not> writes_at p (lj_domain j) device entry
            \<or> \<not> writes_at p (lj_domain j) device policy_revision
          then Inl Pos_WriterNotAuthorized else Inr ())"

definition check_operation ::
  "log_judge \<Rightarrow> ident \<Rightarrow> u64 \<Rightarrow> u64 \<Rightarrow> policy_chain \<Rightarrow> position_error + unit" where
  "check_operation j device policy_revision number p =
     and_then (check_writer j device policy_revision p) (\<lambda>_.
       case lj_epoch j of None \<Rightarrow> Inl Pos_EpochStale
       | Some (current, _) \<Rightarrow>
           if current = number \<and> \<not> rotation_pending j p then Inr () else Inl Pos_EpochStale)"

end
