(* ===== verification/Keys_Laws.thy ===== *)
theory Keys_Laws
  imports Keys Policy_Queries
begin

text \<open>
  The laws of \<^verbatim>\<open>keys.rs\<close>: what a client's accepted epoch records satisfy however they were taken,
  that the newest key opens every older one, and that replacements account for every epoch.
\<close>

subsection \<open>Ordered maps at their ends\<close>

lemma ins_sorted_first: "\<forall>kv \<in> set xs. k < fst kv \<Longrightarrow> ins_sorted k v xs = (k, v) # xs"
  by (cases xs) auto

lemma set_bt_entries: "kv \<in> set (bt_entries m) \<longleftrightarrow> bt_get m (fst kv) = Some (snd kv)"
  using bt_in_entries [of "fst kv" "snd kv" m] by simp

lemma bt_sorted_keys: "sorted_wrt (<) (bt_keys m)"
  unfolding bt_keys_def by transfer (simp add: rising_def)

subsection \<open>Taking a record\<close>

lemma end_range:
  fixes first final n :: u64
  shows "n \<in> set (map of_nat [unat first..<Suc (unat final)]) \<longleftrightarrow> first \<le> n \<and> n \<le> final"
proof
  assume "n \<in> set (map of_nat [unat first..<Suc (unat final)])"
  then obtain i where i: "n = of_nat i" "unat first \<le> i" "i \<le> unat final" by auto
  have "unat final < 2 ^ 64" using unsigned_less [of final] by simp
  then have "unat n = i" using i by (simp add: unat_of_nat_u64)
  then show "first \<le> n \<and> n \<le> final" using i by (simp add: word_le_nat_alt)
next
  assume "first \<le> n \<and> n \<le> final"
  then have "unat n \<in> set [unat first..<Suc (unat final)]" by (auto simp: word_le_nat_alt)
  then show "n \<in> set (map of_nat [unat first..<Suc (unat final)])"
    unfolding set_map by (rule image_eqI [rotated]) simp
qed

lemma get_end_epochs:
  "bt_get (ec_accepted (end_epochs first final r c)) n =
     (if first \<le> n \<and> n \<le> final then None else bt_get (ec_accepted c) n)"
  "bt_get (ec_ended (end_epochs first final r c)) n =
     (if first \<le> n \<and> n \<le> final then Some r else bt_get (ec_ended c) n)"
  "ec_workspace (end_epochs first final r c) = ec_workspace c"
  "ec_domain (end_epochs first final r c) = ec_domain c"
proof -
  let ?step = "\<lambda>number c. c\<lparr>ec_accepted := bt_remove number (ec_accepted c),
         ec_ended := bt_insert number r (ec_ended c)\<rparr>"
  have fold: "bt_get (ec_accepted (fold ?step ns c)) n = (if n \<in> set ns then None else bt_get (ec_accepted c) n)
    \<and> bt_get (ec_ended (fold ?step ns c)) n = (if n \<in> set ns then Some r else bt_get (ec_ended c) n)
    \<and> ec_workspace (fold ?step ns c) = ec_workspace c \<and> ec_domain (fold ?step ns c) = ec_domain c" for ns c
    by (induction ns arbitrary: c) auto
  show "bt_get (ec_accepted (end_epochs first final r c)) n =
     (if first \<le> n \<and> n \<le> final then None else bt_get (ec_accepted c) n)"
  "bt_get (ec_ended (end_epochs first final r c)) n =
     (if first \<le> n \<and> n \<le> final then Some r else bt_get (ec_ended c) n)"
  "ec_workspace (end_epochs first final r c) = ec_workspace c"
  "ec_domain (end_epochs first final r c) = ec_domain c"
    using fold [of "map of_nat [unat first..<Suc (unat final)]" c] end_range [of n first final] by (simp_all add: end_epochs_def)
qed

lemma accepted_end_epochs:
  "ec_accepted (end_epochs first final r c) = bt_filter (\<lambda>n _. \<not> (first \<le> n \<and> n \<le> final)) (ec_accepted c)"
  by (rule bt_ext) (auto simp: get_end_epochs bt_get_filter split: option.splits)

lemma take_simps [simp]:
  "bt_get (ec_accepted (ec_take cr r c)) n = (if n = ep_epoch (body r)
     then Some \<lparr>acc_record = r, acc_digest = signed_epoch_digest cr r\<rparr> else bt_get (ec_accepted c) n)"
  "ec_ended (ec_take cr r c) = ec_ended c"
  "ec_workspace (ec_take cr r c) = ec_workspace c" "ec_domain (ec_take cr r c) = ec_domain c"
  by (simp_all add: ec_take_def)

lemma rising_entries: "rising (bt_entries m)"
  by transfer

lemma rising_split:
  "rising xs \<Longrightarrow> xs = filter (\<lambda>kv. fst kv \<le> k) xs @ filter (\<lambda>kv. k < fst kv) xs"
proof (induction xs)
  case (Cons x xs)
  then have x: "\<forall>kv \<in> set xs. fst x < fst kv" and IH: "xs = filter (\<lambda>kv. fst kv \<le> k) xs @ filter (\<lambda>kv. k < fst kv) xs"
    by (cases x; simp)+
  show ?case
  proof (cases "fst x \<le> k")
    case True
    then show ?thesis using IH by simp
  next
    case False
    then have "filter (\<lambda>kv. fst kv \<le> k) xs = []" "filter (\<lambda>kv. k < fst kv) xs = xs"
      using x by (auto simp: filter_empty_conv filter_id_conv not_le intro: less_trans)
    then show ?thesis using False by simp
  qed
qed simp

lemma rising_last:
  assumes "rising xs" and "(k, v) \<in> set xs" and "\<forall>kv \<in> set xs. fst kv \<le> k"
  shows "xs \<noteq> [] \<and> last xs = (k, v)"
  using assms
proof (induction xs)
  case (Cons x xs)
  show ?case
  proof (cases "xs = []")
    case False
    then obtain y where y: "y \<in> set xs" by (cases xs) auto
    then have "fst x < fst y" using Cons.prems(1) by (cases x) auto
    then have "x \<noteq> (k, v)" using Cons.prems(3) y by force
    then show ?thesis using Cons False by (cases x) auto
  qed (use Cons.prems in auto)
qed simp

lemma latest_entry:
  assumes "ec_latest c = Some a"
  obtains n where "bt_get (ec_accepted c) n = Some a" and "\<And>m x. bt_get (ec_accepted c) m = Some x \<Longrightarrow> m \<le> n"
proof -
  let ?xs = "bt_entries (ec_accepted c)"
  have ne: "?xs \<noteq> []" and a: "a = snd (last ?xs)"
    using assms by (auto simp: ec_latest_def bt_values_def rev_map hd_rev split: list.splits)
  obtain n where n: "last ?xs = (n, a)" using a by (cases "last ?xs") auto
  have "m \<le> n" if "bt_get (ec_accepted c) m = Some x" for m x
  proof -
    have "(m, x) \<in> set ?xs" using that by simp
    moreover have "\<forall>kv \<in> set (butlast ?xs). fst kv < n"
    proof -
      have "rising (butlast ?xs @ [last ?xs])" using rising_entries [of "ec_accepted c"] ne by simp
      then show ?thesis unfolding n by (auto simp: rising_def sorted_wrt_append)
    qed
    ultimately show ?thesis
      using n ne by (metis append_butlast_last_id fst_conv in_set_conv_decomp less_imp_le order_refl
          UnE empty_iff insertE list.set(1) list.set(2) set_append)
  qed
  moreover have "bt_get (ec_accepted c) n = Some a"
    using n ne last_in_set [OF ne] by simp
  ultimately show ?thesis using that by blast
qed

lemma oldest_entry:
  assumes "ec_oldest c = Some a"
  obtains n where "bt_get (ec_accepted c) n = Some a" and "\<And>m x. bt_get (ec_accepted c) m = Some x \<Longrightarrow> n \<le> m"
    and "\<exists>rest. bt_entries (ec_accepted c) = (n, a) # rest"
proof -
  obtain n rest where xs: "bt_entries (ec_accepted c) = (n, a) # rest"
    using assms by (auto simp: ec_oldest_def bt_values_def split: list.splits)
  have "n \<le> m" if "bt_get (ec_accepted c) m = Some x" for m x
  proof -
    have "(m, x) \<in> set ((n, a) # rest)" using that xs by (metis bt_in_entries)
    then show ?thesis
      using rising_entries [of "ec_accepted c"] unfolding xs by (auto intro: less_imp_le)
  qed
  moreover have "bt_get (ec_accepted c) n = Some a" using xs by (metis bt_in_entries list.set_intros(1))
  ultimately show ?thesis using that xs by blast
qed

lemma latest_None: "ec_latest c = None \<longleftrightarrow> bt_entries (ec_accepted c) = []"
  by (auto simp: ec_latest_def bt_values_def split: list.splits)

lemma entries_None: "bt_entries m = [] \<longleftrightarrow> (\<forall>k. bt_get m k = None)"
proof -
  have "bt_entries m = [] \<longleftrightarrow> (\<forall>kv. kv \<notin> set (bt_entries m))" by (cases "bt_entries m") auto
  then show ?thesis by (auto simp: set_bt_entries)
qed

subsection \<open>The checks a record passes\<close>

lemma check_record_Inr:
  "check_record cr c r k p = Inr () \<longleftrightarrow> check_signed cr c r p = Inr () \<and> key_matches cr (body r) k"
  by (simp add: check_record_def)

lemma check_signed_cong:
  assumes "ec_workspace c' = ec_workspace c" and "ec_domain c' = ec_domain c"
  shows "check_signed cr c' r p = check_signed cr c r p"
  unfolding check_signed_def assms by (rule refl)

text \<open>What \<open>accept\<close> did, by the state it was in.\<close>

lemma accept_epochE:
  assumes "accept_epoch cr c r k p = Inr (c', acceptance)"
  obtains (first) "check_signed cr c r p = Inr ()" "key_matches cr (body r) k" "bt_entries (ec_accepted c) = []"
      "ep_epoch (body r) = 1" "ep_previous (body r) = ZERO_digest" "acceptance = Acceptance_Next"
      "c' = ec_take cr r c"
  | (later) named latest k' where "check_signed cr c r p = Inr ()" "key_matches cr (body r) k"
      "ec_latest c = Some latest" "named \<in> set (bt_values (ec_accepted c))"
      "acc_digest named = ep_previous (body r)"
      "ep_epoch (body (acc_record latest)) < ep_epoch (body r)"
      "ep_policy_revision (body (acc_record named)) \<le> ep_policy_revision (body r)"
      "open_lineage cr (body r) k = Inr k'" "key_matches cr (body (acc_record named)) k'"
      "acc_digest named = acc_digest latest \<and> ep_epoch (body r) = ep_epoch (body (acc_record latest)) + 1
          \<and> acceptance = Acceptance_Next \<and> c' = ec_take cr r c
        \<or> acceptance = Acceptance_Replacement (ep_epoch (body (acc_record named)) + 1) (ep_epoch (body r) - 1)
          \<and> c' = ec_take cr r (end_epochs (ep_epoch (body (acc_record named)) + 1) (ep_epoch (body r) - 1)
               (ep_policy_revision (body r)) c)"
proof -
  from assms have checks: "check_signed cr c r p = Inr ()" "key_matches cr (body r) k"
    and pos: "judge_position cr c (body r) k p = Inr acceptance"
    and c': "c' = ec_take cr r (case acceptance of Acceptance_Next \<Rightarrow> c
           | Acceptance_Replacement first final \<Rightarrow> end_epochs first final (ep_policy_revision (body r)) c)"
    by (auto simp: accept_epoch_def Let_def)
  show ?thesis
  proof (cases "ec_latest c")
    case None
    then have "acceptance = Acceptance_Next" "ep_epoch (body r) = 1" "ep_previous (body r) = ZERO_digest"
      using pos by (auto simp: judge_position_def split: if_splits)
    then show ?thesis
      using None checks c' by (intro first) (auto simp: latest_None)
  next
    case (Some latest)
    then obtain named where named: "find (\<lambda>a. acc_digest a = ep_previous (body r)) (bt_values (ec_accepted c)) = Some named"
      using pos by (auto simp: judge_position_def split: option.splits)
    then have "named \<in> set (bt_values (ec_accepted c))" "acc_digest named = ep_previous (body r)"
      by (auto simp: find_Some_iff simp del: bt_set_values)
    then show ?thesis
      using checks pos c' Some named
      by (auto simp: judge_position_def Let_def not_le not_less split: if_splits intro: later)
  qed
qed

subsection \<open>The invariant\<close>

definition taken_ok :: "crypto \<Rightarrow> policy_chain \<Rightarrow> epoch_chain \<Rightarrow> u64 \<Rightarrow> accepted_epoch \<Rightarrow> secret_key \<Rightarrow> bool" where
  "taken_ok cr p c n a k \<longleftrightarrow> ep_epoch (body (acc_record a)) = n
     \<and> acc_digest a = signed_epoch_digest cr (acc_record a)
     \<and> check_signed cr c (acc_record a) p = Inr () \<and> key_matches cr (body (acc_record a)) k"

definition epoch_link :: "crypto \<Rightarrow> (u64 \<Rightarrow> secret_key) \<Rightarrow> u64 \<times> accepted_epoch \<Rightarrow> u64 \<times> accepted_epoch \<Rightarrow> bool" where
  "epoch_link cr ks older newer \<longleftrightarrow>
     ep_previous (body (acc_record (snd newer))) = acc_digest (snd older)
     \<and> ep_policy_revision (body (acc_record (snd older))) \<le> ep_policy_revision (body (acc_record (snd newer)))
     \<and> (\<exists>k'. open_lineage cr (body (acc_record (snd newer))) (ks (fst newer)) = Inr k'
          \<and> key_matches cr (body (acc_record (snd older))) k')"

definition epochs_linked :: "crypto \<Rightarrow> epoch_chain \<Rightarrow> (u64 \<Rightarrow> secret_key) \<Rightarrow> bool" where
  "epochs_linked cr c ks \<longleftrightarrow> successively (epoch_link cr ks) (bt_entries (ec_accepted c))"

definition epochs_taken :: "crypto \<Rightarrow> policy_chain \<Rightarrow> epoch_chain \<Rightarrow> (u64 \<Rightarrow> secret_key) \<Rightarrow> bool" where
  "epochs_taken cr p c ks \<longleftrightarrow>
     (\<forall>n a. bt_get (ec_accepted c) n = Some a \<longrightarrow> taken_ok cr p c n a (ks n))"

text \<open>The epochs that ended are exactly the gaps between accepted ones.\<close>

definition in_gap :: "epoch_chain \<Rightarrow> u64 \<Rightarrow> bool" where
  "in_gap c n \<longleftrightarrow> bt_get (ec_accepted c) n = None
     \<and> (\<exists>lo hi. bt_get (ec_accepted c) lo \<noteq> None \<and> bt_get (ec_accepted c) hi \<noteq> None \<and> lo < n \<and> n < hi)"

definition epochs_accounted :: "epoch_chain \<Rightarrow> bool" where
  "epochs_accounted c \<longleftrightarrow> (\<forall>n. bt_get (ec_ended c) n \<noteq> None \<longleftrightarrow> in_gap c n)"

lemma successively_mono_set:
  "successively P xs \<Longrightarrow> (\<And>x y. x \<in> set xs \<Longrightarrow> y \<in> set xs \<Longrightarrow> P x y \<Longrightarrow> Q x y) \<Longrightarrow> successively Q xs"
  by (induction xs rule: induct_list012) auto

lemma epoch_link_upd:
  "n \<notin> fst ` set xs \<Longrightarrow> successively (epoch_link cr ks) xs \<Longrightarrow> successively (epoch_link cr (ks(n := k))) xs"
  by (rule successively_mono_set [where P = "epoch_link cr ks"]) (auto simp: epoch_link_def image_iff)

text \<open>Taking a record above every accepted one, or below every accepted one.\<close>

lemma entries_take_above:
  assumes "\<And>m x. bt_get (ec_accepted c) m = Some x \<Longrightarrow> m < ep_epoch (body r)"
  shows "bt_entries (ec_accepted (ec_take cr r c)) = bt_entries (ec_accepted c)
    @ [(ep_epoch (body r), \<lparr>acc_record = r, acc_digest = signed_epoch_digest cr r\<rparr>)]"
  unfolding ec_take_def using assms by (auto intro!: ins_sorted_last simp: set_bt_entries)

lemma entries_take_below:
  assumes "\<And>m x. bt_get (ec_accepted c) m = Some x \<Longrightarrow> ep_epoch (body r) < m"
  shows "bt_entries (ec_accepted (ec_take cr r c)) =
    (ep_epoch (body r), \<lparr>acc_record = r, acc_digest = signed_epoch_digest cr r\<rparr>) # bt_entries (ec_accepted c)"
  unfolding ec_take_def using assms by (auto intro!: ins_sorted_first simp: set_bt_entries)

lemma epochs_taken_take:
  assumes "epochs_taken cr p c ks" and "check_signed cr c r p = Inr ()" and "key_matches cr (body r) k"
    and "\<And>n a. n \<noteq> ep_epoch (body r) \<Longrightarrow> bt_get (ec_accepted c') n = Some a \<Longrightarrow> bt_get (ec_accepted c) n = Some a"
    and "bt_get (ec_accepted c') (ep_epoch (body r)) = Some \<lparr>acc_record = r, acc_digest = signed_epoch_digest cr r\<rparr>"
    and "ec_workspace c' = ec_workspace c" and "ec_domain c' = ec_domain c"
  shows "epochs_taken cr p c' (ks(ep_epoch (body r) := k))"
  unfolding epochs_taken_def
proof (intro allI impI)
  fix n a
  assume get: "bt_get (ec_accepted c') n = Some a"
  have signed: "check_signed cr c' x p = check_signed cr c x p" for x
    using assms(6,7) by (rule check_signed_cong)
  show "taken_ok cr p c' n a ((ks(ep_epoch (body r) := k)) n)"
  proof (cases "n = ep_epoch (body r)")
    case True
    then have a: "a = \<lparr>acc_record = r, acc_digest = signed_epoch_digest cr r\<rparr>" using get assms(5) by simp
    show ?thesis unfolding a using True assms(2,3) by (simp add: taken_ok_def signed)
  next
    case False
    then have "taken_ok cr p c n a (ks n)"
      using assms(1) assms(4) [OF False get] by (simp add: epochs_taken_def)
    then show ?thesis using False by (simp add: taken_ok_def signed)
  qed
qed

lemma word_gap:
  fixes x n m :: u64
  assumes "n < x"
  shows "n + 1 \<le> m \<longleftrightarrow> n < m" and "m \<le> x - 1 \<longleftrightarrow> m < x"
proof -
  have "unat (n + 1) = unat n + 1" using assms by unat_arith
  then show "n + 1 \<le> m \<longleftrightarrow> n < m" by (simp add: word_le_nat_alt word_less_nat_alt Suc_le_eq)
  have "unat (x - 1) = unat x - 1" and "0 < unat x" using assms by unat_arith+
  then show "m \<le> x - 1 \<longleftrightarrow> m < x" by (simp add: word_le_nat_alt word_less_nat_alt) linarith
qed

text \<open>A record taken above the epochs up to \<open>named\<close>, when all later ones are dropped.\<close>

lemma linked_above:
  assumes named: "bt_get (ec_accepted c) ne = Some named" and ne: "ne < ep_epoch (body r)"
    and kept: "\<And>n. bt_get (ec_accepted c'') n = (if n \<le> ne then bt_get (ec_accepted c) n else None)"
    and linked: "epochs_linked cr c ks"
    and link: "epoch_link cr (ks(ep_epoch (body r) := k)) (ne, named)
      (ep_epoch (body r), \<lparr>acc_record = r, acc_digest = signed_epoch_digest cr r\<rparr>)"
  shows "epochs_linked cr (ec_take cr r c'') (ks(ep_epoch (body r) := k))"
proof -
  let ?ks = "ks(ep_epoch (body r) := k)"
  let ?xs = "filter (\<lambda>kv. fst kv \<le> ne) (bt_entries (ec_accepted c))"
  have "ec_accepted c'' = bt_filter (\<lambda>n _. n \<le> ne) (ec_accepted c)"
    by (rule bt_ext) (auto simp: kept bt_get_filter split: option.splits)
  then have xs: "bt_entries (ec_accepted c'') = ?xs" by (simp add: case_prod_beta')
  have below: "m < ep_epoch (body r)" if "bt_get (ec_accepted c'') m = Some x" for m x
    using that ne kept by (auto split: if_splits)
  have "successively (epoch_link cr ks) (?xs @ filter (\<lambda>kv. ne < fst kv) (bt_entries (ec_accepted c)))"
    using linked rising_split [OF rising_entries [of "ec_accepted c"], of ne] by (simp add: epochs_linked_def)
  then have "successively (epoch_link cr ks) ?xs" by (simp add: successively_append_iff)
  moreover have "ep_epoch (body r) \<notin> fst ` set ?xs" using ne by auto
  ultimately have "successively (epoch_link cr ?ks) ?xs" by (intro epoch_link_upd)
  moreover have "?xs \<noteq> [] \<and> last ?xs = (ne, named)"
    using named by (intro rising_last rising_filter rising_entries) auto
  ultimately show ?thesis
    using link by (simp add: epochs_linked_def entries_take_above [OF below] xs successively_append_iff)
qed

lemma accounted_above:
  assumes acc: "epochs_accounted c" and ne: "bt_get (ec_accepted c) ne \<noteq> None" "ne < x"
    and top: "\<And>m. bt_get (ec_accepted c) m \<noteq> None \<Longrightarrow> m < x"
    and kept: "\<And>n. bt_get (ec_accepted c') n = (if n = x then Some v else if n \<le> ne then bt_get (ec_accepted c) n else None)"
    and ended: "\<And>n. bt_get (ec_ended c') n = (if ne < n \<and> n < x then Some revision else bt_get (ec_ended c) n)"
  shows "epochs_accounted c'"
  unfolding epochs_accounted_def
proof
  fix n
  have gap: "bt_get (ec_ended c) n \<noteq> None \<longleftrightarrow> in_gap c n" using acc by (simp add: epochs_accounted_def)
  consider "ne < n" "n < x" | "n \<le> ne" | "x \<le> n" by force
  then show "bt_get (ec_ended c') n \<noteq> None \<longleftrightarrow> in_gap c' n"
  proof cases
    case 1
    then have "in_gap c' n" unfolding in_gap_def kept using ne by (intro conjI exI [of _ ne] exI [of _ x]) auto
    then show ?thesis using 1 ended by simp
  next
    case 2
    then have n: "bt_get (ec_accepted c') n = bt_get (ec_accepted c) n" using ne(2) kept by auto
    have below: "bt_get (ec_accepted c') lo = bt_get (ec_accepted c) lo" if "lo < n" for lo
      using that 2 ne(2) kept [of lo] by (auto dest: less_le_trans)
    have "in_gap c' n \<longleftrightarrow> bt_get (ec_accepted c) n = None \<and> (\<exists>lo < n. bt_get (ec_accepted c) lo \<noteq> None)"
    proof -
      have "bt_get (ec_accepted c') x \<noteq> None" "n < x" using kept [of x] 2 ne(2) by (auto intro: le_less_trans)
      then show ?thesis unfolding in_gap_def n using below by metis
    qed
    moreover have "in_gap c n \<longleftrightarrow> bt_get (ec_accepted c) n = None \<and> (\<exists>lo < n. bt_get (ec_accepted c) lo \<noteq> None)"
    proof (cases "n = ne")
      case False
      then have "n < ne" using 2 by simp
      then show ?thesis using ne(1) unfolding in_gap_def by blast
    qed (use ne(1) in \<open>auto simp: in_gap_def\<close>)
    ultimately show ?thesis using 2 gap ended by auto
  next
    case 3
    have "m \<le> x" if "bt_get (ec_accepted c') m \<noteq> None" for m
      using that kept [of m] ne(2) by (auto split: if_splits)
    then have "\<not> in_gap c' n" using 3 unfolding in_gap_def by (meson leD le_less_trans order.trans)
    moreover have "\<not> in_gap c n" using 3 top unfolding in_gap_def by (meson less_asym not_le order.strict_trans2)
    ultimately show ?thesis using 3 gap ended by auto
  qed
qed

subsection \<open>Each operation keeps the invariant\<close>

definition digests_apart :: "epoch_chain \<Rightarrow> bool" where
  "digests_apart c \<longleftrightarrow> (\<forall>n a m b. bt_get (ec_accepted c) n = Some a \<longrightarrow> bt_get (ec_accepted c) m = Some b \<longrightarrow>
     acc_digest a = acc_digest b \<longrightarrow> n = m)"

definition epochs_ok :: "crypto \<Rightarrow> policy_chain \<Rightarrow> epoch_chain \<Rightarrow> (u64 \<Rightarrow> secret_key) \<Rightarrow> bool" where
  "epochs_ok cr p c ks \<longleftrightarrow> epochs_taken cr p c ks \<and> epochs_linked cr c ks \<and> epochs_accounted c"

lemma first_epochs_ok:
  assumes empty: "bt_entries (ec_accepted c) = []" and ok: "epochs_ok cr p c ks"
    and checks: "check_signed cr c r p = Inr ()" "key_matches cr (body r) k"
  shows "epochs_ok cr p (ec_take cr r c) (ks(ep_epoch (body r) := k))"
proof -
  have none: "bt_get (ec_accepted c) n = None" for n using empty by (simp add: entries_None)
  then have "bt_get (ec_ended c) n = None" for n
    using ok by (simp add: epochs_ok_def epochs_accounted_def in_gap_def)
  then have "epochs_accounted (ec_take cr r c)"
    by (auto simp: epochs_accounted_def in_gap_def none)
  moreover have "epochs_linked cr (ec_take cr r c) (ks(ep_epoch (body r) := k))"
    using entries_take_above [of c r cr] by (simp add: epochs_linked_def none empty)
  moreover have "epochs_taken cr p (ec_take cr r c) (ks(ep_epoch (body r) := k))"
    using ok checks by (intro epochs_taken_take [of cr p c]) (simp_all add: epochs_ok_def)
  ultimately show ?thesis by (simp add: epochs_ok_def)
qed

lemma accept_taken:
  assumes accept: "accept_epoch cr c r k p = Inr (c', acceptance)" and ok: "epochs_taken cr p c ks"
  shows "epochs_taken cr p c' (ks(ep_epoch (body r) := k))"
  using accept
proof (cases rule: accept_epochE)
  case first
  then show ?thesis using ok by (intro epochs_taken_take [of cr p c]) simp_all
next
  case (later named latest k')
  then obtain first final where c': "c' = ec_take cr r c
      \<or> c' = ec_take cr r (end_epochs first final (ep_policy_revision (body r)) c)" by blast
  then show ?thesis
    using ok later(1,2) by (intro epochs_taken_take [of cr p c]) (auto simp: get_end_epochs split: if_splits)
qed

lemma start_at_cases:
  assumes "start_at cr c r k p = Inr c'"
  obtains acceptance where "accept_epoch cr c r k p = Inr (c', acceptance)"
  | "bt_entries (ec_accepted c) = []" "check_signed cr c r p = Inr ()" "key_matches cr (body r) k"
    "c' = ec_take cr r c"
  using assms by (auto simp: start_at_def check_record_Inr split: if_splits)

lemma accept_epochs_ok:
  assumes accept: "accept_epoch cr c r k p = Inr (c', acceptance)" and ok: "epochs_ok cr p c ks"
    and apart: "digests_apart c"
  shows "epochs_ok cr p c' (ks(ep_epoch (body r) := k))"
  using accept
proof (cases rule: accept_epochE)
  case first
  then show ?thesis using first_epochs_ok ok by blast
next
  case (later named latest k')
  let ?x = "ep_epoch (body r)" and ?ks = "ks(ep_epoch (body r) := k)"
  obtain le where le: "bt_get (ec_accepted c) le = Some latest" "\<And>m x. bt_get (ec_accepted c) m = Some x \<Longrightarrow> m \<le> le"
    using latest_entry [OF later(3)] by metis
  obtain ne where ne: "bt_get (ec_accepted c) ne = Some named"
    using later(4) by (auto simp: ran_def)
  have nums: "ep_epoch (body (acc_record latest)) = le" "ep_epoch (body (acc_record named)) = ne"
    using ok le(1) ne by (auto simp: epochs_ok_def epochs_taken_def taken_ok_def)
  have lx: "le < ?x" and nx: "ne < ?x" using later(6) le(2) [OF ne] nums by auto
  have top: "m < ?x" if "bt_get (ec_accepted c) m \<noteq> None" for m
    using that le(2) lx by (meson le_less_trans not_None_eq)
  have link: "epoch_link cr ?ks (ne, named) (?x, \<lparr>acc_record = r, acc_digest = signed_epoch_digest cr r\<rparr>)"
    using later(5,7-9) by (simp add: epoch_link_def)
  obtain c'' where c'': "c' = ec_take cr r c''" "ec_workspace c'' = ec_workspace c" "ec_domain c'' = ec_domain c"
    and kept: "\<And>n. bt_get (ec_accepted c'') n = (if n \<le> ne then bt_get (ec_accepted c) n else None)"
    and ended: "\<And>n. bt_get (ec_ended c'') n =
      (if ne < n \<and> n < ?x then Some (ep_policy_revision (body r)) else bt_get (ec_ended c) n)"
    using later(10)
  proof (elim disjE conjE)
    assume next_epoch: "acc_digest named = acc_digest latest" "?x = ep_epoch (body (acc_record latest)) + 1"
      "c' = ec_take cr r c"
    have "ne = le" using apart ne le(1) next_epoch(1) by (auto simp: digests_apart_def)
    moreover have "\<not> (le < n \<and> n < ?x)" for n
      using next_epoch(2) nums lx word_gap(1) [of le ?x n] by auto
    moreover have "bt_get (ec_accepted c) n = None" if "\<not> n \<le> le" for n
      using le(2) that by (cases "bt_get (ec_accepted c) n") auto
    ultimately show ?thesis by (intro that [of c]) (auto simp: next_epoch(3))
  next
    let ?c = "end_epochs (ep_epoch (body (acc_record named)) + 1) (?x - 1) (ep_policy_revision (body r)) c"
    assume repl: "c' = ec_take cr r ?c"
    have range: "ep_epoch (body (acc_record named)) + 1 \<le> n \<and> n \<le> ?x - 1 \<longleftrightarrow> ne < n \<and> n < ?x" for n
      unfolding nums word_gap [OF nx] by (rule refl)
    have gone: "bt_get (ec_accepted c) n = None" if "\<not> n < ?x" for n using top that by blast
    show ?thesis
      by (rule that [OF repl]) (auto simp: get_end_epochs range gone not_le)
  qed
  have "epochs_linked cr c' ?ks"
    unfolding c''(1) using ok by (intro linked_above [OF ne nx kept _ link]) (simp add: epochs_ok_def)
  moreover have "epochs_accounted c'"
  proof (rule accounted_above [OF _ _ nx top])
    show "epochs_accounted c" using ok by (simp add: epochs_ok_def)
    show "bt_get (ec_accepted c) ne \<noteq> None" using ne by simp
    show "bt_get (ec_accepted c') n = (if n = ?x then Some \<lparr>acc_record = r, acc_digest = signed_epoch_digest cr r\<rparr>
        else if n \<le> ne then bt_get (ec_accepted c) n else None)" for n
      by (simp add: c''(1) kept)
    show "bt_get (ec_ended c') n = (if ne < n \<and> n < ?x then Some (ep_policy_revision (body r))
        else bt_get (ec_ended c) n)" for n
      by (simp add: c''(1) ended)
  qed
  moreover have "epochs_taken cr p c' ?ks"
    using accept_taken [OF accept] ok by (simp add: epochs_ok_def)
  ultimately show ?thesis by (simp add: epochs_ok_def)
qed

lemma accept_olderE:
  assumes "accept_older cr c r k p = Inr c'"
  obtains a where "ec_oldest c = Some a" "ep_previous (body (acc_record a)) = signed_epoch_digest cr r"
    "ep_epoch (body r) < ep_epoch (body (acc_record a))"
    "ep_policy_revision (body r) \<le> ep_policy_revision (body (acc_record a))"
    "check_signed cr c r p = Inr ()" "key_matches cr (body r) k"
    "c' = ec_take cr r (c\<lparr>ec_ended := fold (\<lambda>number. bt_insert number (ep_policy_revision (body (acc_record a))))
        (map of_nat [unat (ep_epoch (body r) + 1)..<unat (ep_epoch (body (acc_record a)))]) (ec_ended c)\<rparr>)"
  using assms by (auto simp: accept_older_def Let_def check_record_Inr not_le not_less split: option.splits if_splits)

lemma fold_insert_get:
  "bt_get (fold (\<lambda>n. bt_insert n v) ns m) k = (if k \<in> set ns then Some v else bt_get m k)"
  by (induction ns arbitrary: m) auto

lemma older_range:
  fixes x y n :: u64
  assumes "x < y"
  shows "n \<in> set (map of_nat [unat (x + 1)..<unat y]) \<longleftrightarrow> x < n \<and> n < y"
proof -
  have suc: "unat (x + 1) = unat x + 1" using assms by unat_arith
  show ?thesis
  proof
    assume "n \<in> set (map of_nat [unat (x + 1)..<unat y])"
    then obtain i where i: "n = of_nat i" "unat x < i" "i < unat y" using suc by auto
    have "unat y < 2 ^ 64" using unsigned_less [of y] by simp
    then have "unat n = i" using i by (simp add: unat_of_nat_u64)
    then show "x < n \<and> n < y" using i by (simp add: word_less_nat_alt)
  next
    assume "x < n \<and> n < y"
    then have "unat n \<in> set [unat (x + 1)..<unat y]" by (auto simp: word_less_nat_alt suc)
    then show "n \<in> set (map of_nat [unat (x + 1)..<unat y])"
      unfolding set_map by (rule image_eqI [rotated]) simp
  qed
qed

lemma older_epochs_ok:
  assumes older: "accept_older cr c r k p = Inr c'" and ok: "epochs_ok cr p c ks"
    and oldest: "ec_oldest c = Some a" and opened: "open_lineage cr (body (acc_record a)) (ks (ep_epoch (body (acc_record a)))) = Inr k"
  shows "epochs_ok cr p c' (ks(ep_epoch (body r) := k))"
  using older
proof (rule accept_olderE)
  fix a'
  let ?x = "ep_epoch (body r)" and ?ks = "ks(ep_epoch (body r) := k)"
  let ?new = "\<lparr>acc_record = r, acc_digest = signed_epoch_digest cr r\<rparr>"
  assume a': "ec_oldest c = Some a'" and prev: "ep_previous (body (acc_record a')) = signed_epoch_digest cr r"
    and less: "?x < ep_epoch (body (acc_record a'))"
    and rev: "ep_policy_revision (body r) \<le> ep_policy_revision (body (acc_record a'))"
    and checks: "check_signed cr c r p = Inr ()" "key_matches cr (body r) k"
    and c': "c' = ec_take cr r (c\<lparr>ec_ended := fold (\<lambda>number. bt_insert number (ep_policy_revision (body (acc_record a'))))
        (map of_nat [unat (?x + 1)..<unat (ep_epoch (body (acc_record a')))]) (ec_ended c)\<rparr>)"
  have aa: "a' = a" using a' oldest by simp
  obtain ne rest where ne: "bt_get (ec_accepted c) ne = Some a"
    "\<And>m x. bt_get (ec_accepted c) m = Some x \<Longrightarrow> ne \<le> m" "bt_entries (ec_accepted c) = (ne, a) # rest"
    using oldest_entry [OF oldest] by metis
  have num: "ep_epoch (body (acc_record a)) = ne"
    using ok ne(1) by (auto simp: epochs_ok_def epochs_taken_def taken_ok_def)
  have xn: "?x < ne" using less aa num by simp
  have low: "?x < m" if "bt_get (ec_accepted c) m \<noteq> None" for m
    using that ne(2) xn by (meson less_le_trans not_None_eq)
  have x_new: "?x \<notin> fst ` set (bt_entries (ec_accepted c))"
    using low [of ?x] by (auto simp: set_bt_entries)
  have acc: "bt_get (ec_accepted c') n = (if n = ?x then Some ?new else bt_get (ec_accepted c) n)" for n
    by (simp add: c')
  have ended: "bt_get (ec_ended c') n = (if ?x < n \<and> n < ne
      then Some (ep_policy_revision (body (acc_record a))) else bt_get (ec_ended c) n)" for n
    using older_range [OF xn, of n] by (simp add: c' aa num fold_insert_get)
  have "epochs_linked cr c' ?ks"
  proof -
    have entries: "bt_entries (ec_accepted c') = (?x, ?new) # (ne, a) # rest"
      unfolding c' using entries_take_below [of "c\<lparr>ec_ended := e\<rparr>" r cr for e] low ne(3) by simp
    have "successively (epoch_link cr ks) (bt_entries (ec_accepted c))"
      using ok by (simp add: epochs_ok_def epochs_linked_def)
    then have "successively (epoch_link cr ?ks) ((ne, a) # rest)"
      using epoch_link_upd [OF x_new] ne(3) by simp
    moreover have "epoch_link cr ?ks (?x, ?new) (ne, a)"
      using prev rev opened checks(2) aa num less_imp_neq [OF xn] by (simp add: epoch_link_def)
    ultimately show ?thesis by (simp add: epochs_linked_def entries)
  qed
  moreover have "epochs_accounted c'"
    unfolding epochs_accounted_def
  proof
    fix n
    have gap: "bt_get (ec_ended c) n \<noteq> None \<longleftrightarrow> in_gap c n"
      using ok by (simp add: epochs_ok_def epochs_accounted_def)
    have above: "ne \<le> m" if "bt_get (ec_accepted c) m \<noteq> None" for m using that ne(2) by auto
    consider "?x < n \<and> n < ne" | "n \<le> ?x" | "ne \<le> n" by force
    then show "bt_get (ec_ended c') n \<noteq> None \<longleftrightarrow> in_gap c' n"
    proof cases
      case 1
      have "bt_get (ec_accepted c') n = None" "bt_get (ec_accepted c') ?x \<noteq> None" "bt_get (ec_accepted c') ne \<noteq> None"
        using above [of n] 1 ne(1) by (cases "bt_get (ec_accepted c) n"; auto simp: acc)+
      then have "in_gap c' n" unfolding in_gap_def using 1 by blast
      then show ?thesis using 1 ended by simp
    next
      case 2
      have "?x \<le> m" if "bt_get (ec_accepted c') m \<noteq> None" for m
        using that acc [of m] low [of m] by (auto split: if_splits)
      then have "\<not> in_gap c' n" using 2 unfolding in_gap_def by (meson leD order.trans)
      moreover have "\<not> in_gap c n" using 2 xn above unfolding in_gap_def by (meson leD less_trans order.strict_trans1)
      ultimately show ?thesis using 2 gap ended by auto
    next
      case 3
      then have nx: "n \<noteq> ?x" "\<not> n < ne" using xn by auto
      have "in_gap c' n \<longleftrightarrow> in_gap c n"
      proof (cases "bt_get (ec_accepted c) n")
        case None
        then have "ne < n" using 3 ne(1) by (cases "n = ne") auto
        then show ?thesis
          unfolding in_gap_def acc using None nx ne(1) xn by (auto split: if_splits intro: less_trans) (metis less_trans option.distinct(1))+
      qed (simp add: in_gap_def acc nx)
      then show ?thesis using 3 gap ended nx by auto
    qed
  qed
  moreover have "epochs_taken cr p c' ?ks"
    using ok checks by (intro epochs_taken_take [of cr p c]) (auto simp: epochs_ok_def acc c')
  ultimately show ?thesis by (simp add: epochs_ok_def)
qed

subsection \<open>Every run of a client\<close>

text \<open>
  The states an epoch chain reaches from the empty one, with the records it took and the key it
  took each epoch under. An older record comes with the key that the oldest record's lineage
  opens to (\<section>9, \<section>18); the keys of the others come from envelopes.
\<close>

inductive epoch_run ::
  "crypto \<Rightarrow> policy_chain \<Rightarrow> ident \<Rightarrow> ident \<Rightarrow> epoch signed set \<Rightarrow> epoch_chain \<Rightarrow> (u64 \<Rightarrow> secret_key) \<Rightarrow> bool"
  for cr p w d where
  run_new: "epoch_run cr p w d {} (new_epoch_chain w d) ks"
| run_start: "epoch_run cr p w d T c ks \<Longrightarrow> start_at cr c r k p = Inr c' \<Longrightarrow>
    epoch_run cr p w d (insert r T) c' (ks(ep_epoch (body r) := k))"
| run_accept: "epoch_run cr p w d T c ks \<Longrightarrow> accept_epoch cr c r k p = Inr (c', acceptance) \<Longrightarrow>
    epoch_run cr p w d (insert r T) c' (ks(ep_epoch (body r) := k))"
| run_older: "epoch_run cr p w d T c ks \<Longrightarrow> ec_oldest c = Some a \<Longrightarrow>
    open_lineage cr (body (acc_record a)) (ks (ep_epoch (body (acc_record a)))) = Inr k \<Longrightarrow>
    accept_older cr c r k p = Inr c' \<Longrightarrow>
    epoch_run cr p w d (insert r T) c' (ks(ep_epoch (body r) := k))"

lemma accept_frame:
  assumes "accept_epoch cr c r k p = Inr (c', acceptance)"
  shows "ec_workspace c' = ec_workspace c \<and> ec_domain c' = ec_domain c
    \<and> (\<forall>n a. bt_get (ec_accepted c') n = Some a \<longrightarrow> acc_record a = r \<or> bt_get (ec_accepted c) n = Some a)"
  using assms by (cases rule: accept_epochE) (auto simp: get_end_epochs split: if_splits)

lemma start_frame:
  assumes "start_at cr c r k p = Inr c'"
  shows "ec_workspace c' = ec_workspace c \<and> ec_domain c' = ec_domain c
    \<and> (\<forall>n a. bt_get (ec_accepted c') n = Some a \<longrightarrow> acc_record a = r \<or> bt_get (ec_accepted c) n = Some a)"
  using assms by (cases rule: start_at_cases) (auto dest: accept_frame split: if_splits)

lemma older_frame:
  assumes "accept_older cr c r k p = Inr c'"
  shows "ec_workspace c' = ec_workspace c \<and> ec_domain c' = ec_domain c
    \<and> (\<forall>n a. bt_get (ec_accepted c') n = Some a \<longrightarrow> acc_record a = r \<or> bt_get (ec_accepted c) n = Some a)"
  using assms by (rule accept_olderE) (auto split: if_splits)

lemma start_taken:
  assumes "start_at cr c r k p = Inr c'" and "epochs_taken cr p c ks"
  shows "epochs_taken cr p c' (ks(ep_epoch (body r) := k))"
  using assms(1)
proof (cases rule: start_at_cases)
  case 2
  then show ?thesis using assms(2) by (intro epochs_taken_take [of cr p c]) simp_all
qed (use assms(2) accept_taken in blast)

lemma older_taken:
  assumes "accept_older cr c r k p = Inr c'" and "epochs_taken cr p c ks"
  shows "epochs_taken cr p c' (ks(ep_epoch (body r) := k))"
  using assms(1) by (rule accept_olderE) (use assms(2) in \<open>intro epochs_taken_take [of cr p c]; simp\<close>)

lemma run_frame:
  "epoch_run cr p w d T c ks \<Longrightarrow> ec_workspace c = w \<and> ec_domain c = d \<and> epochs_taken cr p c ks
   \<and> (\<forall>n a. bt_get (ec_accepted c) n = Some a \<longrightarrow> acc_record a \<in> T)"
proof (induction rule: epoch_run.induct)
  case (run_new ks)
  then show ?case by (simp add: new_epoch_chain_def epochs_taken_def)
next
  case (run_start T c ks r k c')
  then show ?case
    using start_frame [OF run_start.hyps(2)] start_taken [OF run_start.hyps(2), of ks] by (simp del: fun_upd_apply) blast
next
  case (run_accept T c ks r k c' acceptance)
  then show ?case
    using accept_frame [OF run_accept.hyps(2)] accept_taken [OF run_accept.hyps(2), of ks] by (simp del: fun_upd_apply) blast
next
  case (run_older T c ks a k r c')
  then show ?case
    using older_frame [OF run_older.hyps(4)] older_taken [OF run_older.hyps(4), of ks] by (simp del: fun_upd_apply) blast
qed

definition taken_collision :: "crypto \<Rightarrow> epoch signed set \<Rightarrow> bool" where
  "taken_collision cr T \<longleftrightarrow> (\<exists>r \<in> T. \<exists>r' \<in> T. collision (signed_epoch_digest cr) r r')"

lemma run_digests_apart:
  assumes "epoch_run cr p w d T c ks" and "\<not> taken_collision cr T"
  shows "digests_apart c"
  unfolding digests_apart_def
proof (intro allI impI)
  fix n a m b
  assume ab: "bt_get (ec_accepted c) n = Some a" "bt_get (ec_accepted c) m = Some b" "acc_digest a = acc_digest b"
  have "taken_ok cr p c n a (ks n)" "taken_ok cr p c m b (ks m)" "acc_record a \<in> T" "acc_record b \<in> T"
    using run_frame [OF assms(1)] ab by (auto simp: epochs_taken_def)
  moreover from this have "acc_record a = acc_record b"
    using assms(2) ab(3) by (auto simp: taken_collision_def collision_def taken_ok_def)
  ultimately show "n = m" by (auto simp: taken_ok_def)
qed

lemma run_epochs_ok:
  "epoch_run cr p w d T c ks \<Longrightarrow> \<not> taken_collision cr T \<Longrightarrow> epochs_ok cr p c ks"
proof (induction rule: epoch_run.induct)
  case (run_new ks)
  then show ?case
    by (simp add: new_epoch_chain_def epochs_ok_def epochs_taken_def epochs_linked_def epochs_accounted_def in_gap_def)
next
  case (run_start T c ks r k c')
  then have apart: "digests_apart c" and ok: "epochs_ok cr p c ks"
    using run_digests_apart by (auto simp: taken_collision_def)
  show ?case
    using run_start.hyps(2)
  proof (cases rule: start_at_cases)
    case (1 acceptance)
    then show ?thesis using accept_epochs_ok ok apart by blast
  qed (use first_epochs_ok ok in blast)
next
  case (run_accept T c ks r k c' acceptance)
  then have "digests_apart c" and "epochs_ok cr p c ks"
    using run_digests_apart by (auto simp: taken_collision_def)
  then show ?case using accept_epochs_ok run_accept.hyps(2) by blast
next
  case (run_older T c ks a k r c')
  then have "epochs_ok cr p c ks" by (auto simp: taken_collision_def)
  then show ?case using older_epochs_ok run_older.hyps(2-4) by blast
qed

subsection \<open>Walking back\<close>

lemma walk_linked:
  assumes "successively (epoch_link cr ks) xs" and "xs \<noteq> []"
    and "\<forall>(n, a) \<in> set xs. taken_ok cr p c n a (ks n)"
    and "\<And>na k'. na \<in> set xs \<Longrightarrow> key_matches cr (body (acc_record (snd na))) k' \<Longrightarrow>
      (\<exists>nb \<in> set xs. open_lineage cr (body (acc_record (snd nb))) (ks (fst nb)) = Inr k') \<Longrightarrow> k' = ks (fst na)"
  shows "walk_lineage cr (rev (map (acc_record \<circ> snd) xs)) (ks (fst (last xs))) = Inr (rev (map (ks \<circ> fst) xs))"
  using assms
proof (induction xs rule: rev_induct)
  case (snoc x xs)
  have key: "key_matches cr (body (acc_record (snd x))) (ks (fst x))"
    using snoc.prems(3) by (auto simp: taken_ok_def split_beta)
  show ?case
  proof (cases "xs = []")
    case True
    then show ?thesis using key by simp
  next
    case False
    then obtain ys y where xs: "xs = ys @ [y]" by (cases xs rule: rev_cases) auto
    have link: "epoch_link cr ks y x"
      using snoc.prems(1) xs by (simp add: successively_append_iff)
    then obtain k' where k': "open_lineage cr (body (acc_record (snd x))) (ks (fst x)) = Inr k'"
      "key_matches cr (body (acc_record (snd y))) k'" by (auto simp: epoch_link_def)
    have "k' = ks (fst y)" using snoc.prems(4) [of y k'] k' xs by auto
    moreover have "acc_digest (snd y) = signed_epoch_digest cr (acc_record (snd y))"
      using snoc.prems(3) xs by (auto simp: taken_ok_def split_beta)
    moreover have "successively (epoch_link cr ks) xs"
      using snoc.prems(1) by (simp add: successively_append_iff)
    then have "walk_lineage cr (rev (map (acc_record \<circ> snd) xs)) (ks (fst (last xs))) = Inr (rev (map (ks \<circ> fst) xs))"
      using snoc.prems(3) False by (intro snoc.IH) (auto intro!: snoc.prems(4))
    ultimately show ?thesis
      using key k' link xs by (simp add: epoch_link_def comp_def)
  qed
qed simp

end
