(* ===== verification/Keys_Theorems.thy ===== *)
theory Keys_Theorems
  imports Keys_Laws
begin

text \<open>
  The theorems on key domains: the epoch records a client accepts, the keys they open, and how
  they account for every epoch number.
\<close>

subsection \<open>Accepted epoch records\<close>

text \<open>
  C4. However a client came by its epoch records, each accepted one is its domain's record of
  that epoch, signed by a device that could wrap the domain's keys at the record's policy
  revision, over the digest of the client's own change at that revision and over exactly the
  readers the client computes there; and the client's key of that epoch matches its key check.
\<close>

theorem accepted_epoch_authorized:
  assumes "epoch_run cr p w d T c ks" and "ec_get c n = Some a"
  shows "acc_record a \<in> T \<and> ep_epoch (body (acc_record a)) = n
    \<and> ep_workspace (body (acc_record a)) = w \<and> ep_domain (body (acc_record a)) = d
    \<and> key_matches cr (body (acc_record a)) (ks n)
    \<and> (\<exists>s wd. snapshot_at p (ep_policy_revision (body (acc_record a))) = Some s
        \<and> sn_digest s = ep_policy_head (body (acc_record a))
        \<and> bt_get (sn_devices s) (ep_rotating_device (body (acc_record a))) = Some wd
        \<and> signed_verify cr enc_epoch (acc_record a) (signing_public (wd_card wd)) = Inr ()
        \<and> can_wrap s (ep_rotating_device (body (acc_record a))) d
        \<and> ep_recipients_digest (body (acc_record a)) = recipients_digest cr (readers s d))"
proof -
  have "taken_ok cr p c n a (ks n)" "acc_record a \<in> T" and c: "ec_workspace c = w" "ec_domain c = d"
    using run_frame [OF assms(1)] assms(2) by (auto simp: epochs_taken_def ec_get_def)
  moreover from this have "check_signed cr c (acc_record a) p = Inr ()" by (simp add: taken_ok_def)
  ultimately show ?thesis
    by (auto simp: taken_ok_def check_signed_def Let_def split: if_splits option.splits)
qed

text \<open>
  C17. Every epoch number between the oldest and the newest accepted epoch is either accepted or
  ended by a replacement, never both, and no other number is ended; each accepted record names
  the digest of the accepted record below it, and its policy revision is no lower: unless two
  records the client took exhibit a BLAKE3 collision.
\<close>

theorem epochs_account_for_all:
  assumes "epoch_run cr p w d T c ks"
  shows "((\<forall>n. ended_at c n \<noteq> None \<longleftrightarrow> ec_get c n = None
        \<and> (\<exists>lo hi. ec_get c lo \<noteq> None \<and> ec_get c hi \<noteq> None \<and> lo < n \<and> n < hi))
      \<and> successively (\<lambda>a b. ep_previous (body (acc_record b)) = acc_digest a
          \<and> ep_policy_revision (body (acc_record a)) \<le> ep_policy_revision (body (acc_record b)))
        (bt_values (ec_accepted c)))
    \<or> (\<exists>r \<in> T. \<exists>r' \<in> T. collision (signed_epoch_digest cr) r r')"
proof (cases "taken_collision cr T")
  case False
  then have ok: "epochs_accounted c" "epochs_linked cr c ks"
    using run_epochs_ok [OF assms] by (auto simp: epochs_ok_def)
  have "successively (\<lambda>x y. ep_previous (body (acc_record (snd y))) = acc_digest (snd x)
      \<and> ep_policy_revision (body (acc_record (snd x))) \<le> ep_policy_revision (body (acc_record (snd y))))
    (bt_entries (ec_accepted c))"
    using ok(2) unfolding epochs_linked_def
    by (rule successively_mono_set) (simp add: epoch_link_def)
  then show ?thesis
    using ok(1) by (simp add: epochs_accounted_def in_gap_def ended_at_def ec_get_def bt_values_def successively_map)
qed (simp add: taken_collision_def)

text \<open>
  C18. The key of the newest accepted epoch opens every older accepted one: walking the lineage
  back from it returns each accepted record's key. The exceptions are explicit: two records the
  client took with one digest, or a lineage that opens to a second key with the key check of an
  accepted record.
\<close>

theorem lineage_opens_every_epoch:
  assumes "epoch_run cr p w d T c ks" and "ec_latest c = Some a"
  shows "walk_lineage cr (rev (map acc_record (bt_values (ec_accepted c)))) (ks (ep_epoch (body (acc_record a)))) =
      Inr (rev (map ks (bt_keys (ec_accepted c))))
    \<or> (\<exists>r \<in> T. \<exists>r' \<in> T. collision (signed_epoch_digest cr) r r')
    \<or> (\<exists>n x m y k'. ec_get c n = Some x \<and> ec_get c m = Some y
        \<and> open_lineage cr (body (acc_record y)) (ks m) = Inr k'
        \<and> k' \<noteq> ks n \<and> key_matches cr (body (acc_record x)) k' \<and> key_matches cr (body (acc_record x)) (ks n))"
    (is "?walk \<or> ?digests \<or> ?keys")
proof (rule ccontr)
  assume "\<not> (?walk \<or> ?digests \<or> ?keys)"
  then have apart: "\<not> taken_collision cr T" and keys: "\<not> ?keys" and walk: "\<not> ?walk"
    unfolding taken_collision_def by blast+
  let ?xs = "bt_entries (ec_accepted c)"
  have ok: "epochs_linked cr c ks" "epochs_taken cr p c ks"
    using run_epochs_ok [OF assms(1) apart] by (auto simp: epochs_ok_def)
  have taken: "taken_ok cr p c (fst na) (snd na) (ks (fst na))" "ec_get c (fst na) = Some (snd na)"
    if "na \<in> set ?xs" for na
    using that ok(2) by (auto simp: set_bt_entries epochs_taken_def ec_get_def)
  obtain n where n: "bt_get (ec_accepted c) n = Some a" "\<And>m x. bt_get (ec_accepted c) m = Some x \<Longrightarrow> m \<le> n"
    using latest_entry [OF assms(2)] by metis
  have "?xs \<noteq> [] \<and> last ?xs = (n, a)"
    using n by (intro rising_last rising_entries) (auto simp: set_bt_entries)
  moreover have "ep_epoch (body (acc_record a)) = n"
    using n(1) ok(2) by (auto simp: epochs_taken_def taken_ok_def)
  moreover have "walk_lineage cr (rev (map (acc_record \<circ> snd) ?xs)) (ks (fst (last ?xs))) = Inr (rev (map (ks \<circ> fst) ?xs))"
  proof (rule walk_linked)
    show "successively (epoch_link cr ks) ?xs" using ok(1) by (simp add: epochs_linked_def)
    show "?xs \<noteq> []" using \<open>?xs \<noteq> [] \<and> _\<close> by simp
    show "\<forall>(n, a) \<in> set ?xs. taken_ok cr p c n a (ks n)" using taken(1) by (auto simp: split_beta)
    fix na k'
    assume na: "na \<in> set ?xs" "key_matches cr (body (acc_record (snd na))) k'"
      "\<exists>nb \<in> set ?xs. open_lineage cr (body (acc_record (snd nb))) (ks (fst nb)) = Inr k'"
    have "key_matches cr (body (acc_record (snd na))) (ks (fst na))"
      using taken(1) [OF na(1)] by (simp add: taken_ok_def)
    then show "k' = ks (fst na)"
      using keys na taken(2) by blast
  qed
  ultimately show False
    using walk by (simp add: bt_values_def bt_keys_def comp_def)
qed

subsection \<open>Replacements\<close>

lemma set_set_list: "finite s \<Longrightarrow> set (set_list s) = s"
  by (simp add: set_list_def)

text \<open>
  The server takes a replacement exactly when it follows the latest epoch, skips at least one,
  and every client would count every known record under a skipped epoch as unreadable: no client
  ever holds its cursor on a record that an honest server let in.
\<close>

theorem replacement_agrees_with_clients:
  assumes "\<forall>n rotator signers. bt_get users n = Some (rotator, signers) \<longrightarrow> finite signers"
  shows "check_replacement p replacement named_epoch latest_epoch users = Inr () \<longleftrightarrow>
    named_epoch < latest_epoch \<and> ep_epoch replacement = latest_epoch + 1
    \<and> (\<forall>n rotator signers signer. named_epoch < n \<longrightarrow> n \<le> latest_epoch \<longrightarrow>
        bt_get users n = Some (rotator, signers) \<longrightarrow> signer \<in> signers \<longrightarrow>
        judge_skipped_epoch_record p (ep_domain replacement) signer (Some rotator)
          (ep_policy_revision replacement) = Skipped_Unreadable)"
proof (cases "named_epoch < latest_epoch \<and> ep_epoch replacement = latest_epoch + 1")
  case True
  have range: "n \<in> set (map of_nat [unat (named_epoch + 1)..<Suc (unat latest_epoch)]) \<longleftrightarrow>
      named_epoch < n \<and> n \<le> latest_epoch" for n
    unfolding end_range using word_gap(1) [of named_epoch latest_epoch n] True by blast
  have judge: "judge_skipped_epoch_record p d signer (Some rotator) r = Skipped_Unreadable \<longleftrightarrow>
      \<not> (signer \<noteq> rotator \<and> \<not> lost_read_access p d signer r)" for d signer rotator r
    by (auto simp: judge_skipped_epoch_record_def)
  let ?readable = "\<lambda>n. case bt_get users n of None \<Rightarrow> True
    | Some (rotator, signers) \<Rightarrow> list_all (\<lambda>signer. \<not> (signer \<noteq> rotator
        \<and> \<not> lost_read_access p (ep_domain replacement) signer (ep_policy_revision replacement))) (set_list signers)"
  have readable: "?readable n \<longleftrightarrow> (\<forall>rotator signers signer. bt_get users n = Some (rotator, signers) \<longrightarrow>
      signer \<in> signers \<longrightarrow> judge_skipped_epoch_record p (ep_domain replacement) signer (Some rotator)
        (ep_policy_revision replacement) = Skipped_Unreadable)" for n
    using assms by (auto simp: judge list_all_iff set_set_list split: option.splits)
  have "check_replacement p replacement named_epoch latest_epoch users = Inr () \<longleftrightarrow>
    list_all ?readable (map of_nat [unat (named_epoch + 1)..<Suc (unat latest_epoch)])"
    using True by (simp add: check_replacement_def ensure_def not_le list.pred_map comp_def del: upt_Suc)
  then have "check_replacement p replacement named_epoch latest_epoch users = Inr () \<longleftrightarrow>
    (\<forall>n. named_epoch < n \<and> n \<le> latest_epoch \<longrightarrow> ?readable n)"
    unfolding list_all_iff [of ?readable] Ball_def range .
  then show ?thesis using True unfolding readable by (simp add: imp_conjL)
qed (auto simp: check_replacement_def)

subsection \<open>Envelopes\<close>

text \<open>
  A recipient takes the key of an envelope only when the envelope is its own, for this epoch,
  the key matches the epoch record's key check, and the wrapping device's card in the client's
  policy, at the accepted head or at the entry the recipient reached, signed the envelope while
  the device could wrap the domain.
\<close>

theorem envelope_accepted_sound:
  assumes "check_envelope cr e ep k recipient p accepted_head entry_revision = Inr Envelope_Accept"
  shows "en_workspace (body e) = ep_workspace ep \<and> en_domain (body e) = ep_domain ep
    \<and> en_epoch (body e) = ep_epoch ep \<and> en_recipient (body e) = card_device recipient
    \<and> en_recipient_hpke_digest (body e) = card_hpke_digest cr recipient \<and> key_matches cr ep k
    \<and> (\<exists>r s wd. (r = accepted_head \<or> entry_revision = Some r) \<and> snapshot_at p r = Some s
        \<and> bt_get (sn_devices s) (en_wrapping_device (body e)) = Some wd
        \<and> can_wrap s (en_wrapping_device (body e)) (ep_domain ep)
        \<and> signed_verify cr enc_envelope e (signing_public (wd_card wd)) = Inr ())"
proof -
  have auth: "envelope_authorizes cr e p r = Some True \<longleftrightarrow> (\<exists>s wd. snapshot_at p r = Some s
        \<and> bt_get (sn_devices s) (en_wrapping_device (body e)) = Some wd
        \<and> can_wrap s (en_wrapping_device (body e)) (en_domain (body e))
        \<and> signed_verify cr enc_envelope e (signing_public (wd_card wd)) = Inr ())" for r
    by (auto simp: envelope_authorizes_def split: option.splits)
  have "\<exists>r. (r = accepted_head \<or> entry_revision = Some r) \<and> envelope_authorizes cr e p r = Some True"
    using assms by (auto simp: check_envelope_def Let_def split: if_splits option.splits bool.splits)
  then show ?thesis
    using assms unfolding auth by (auto simp: check_envelope_def Let_def split: if_splits)
qed

subsection \<open>An honest rotation\<close>

lemma open_built_lineage:
  assumes "aead_law cr"
  shows "open_lineage cr (build_epoch cr params k (Some previous) n) k = Inr previous"
proof -
  have "bytes_word (secret_bytes previous) = secret_val previous"
    unfolding secret_bytes_def by (rule bytes_word_word_bytes) simp
  then have "SecretKey (bytes_word (secret_bytes previous)) = previous" by simp
  then show ?thesis
    using assms
    by (simp add: open_lineage_def build_epoch_def Let_def seal_def open_sealed_def aead_law_def LINEAGE_LEN_def
        AEAD_TAG_LEN_def ok_or_def epoch_aad_def epoch_prefix_def)
qed

text \<open>
  C36. An honest rotation is accepted: when a device that may wrap the domain builds the next epoch
  record at a revision no lower than the latest record's, for exactly the domain's readers and
  with the latest record's key in its lineage, every client holding the same records takes it as
  the next epoch. The hypotheses on the primitives are the round trip of the AEAD, its 16-byte
  tag, and that a signature verifies under its own key.
\<close>

theorem honest_rotation_accepted:
  assumes "aead_law cr" and "signature_law cr" and "digests_apart c"
    and "ec_latest c = Some a" and "bt_get (ec_accepted c) (ep_epoch (body (acc_record a))) = Some a"
    and "key_matches cr (body (acc_record a)) previous_key"
    and "unat (ep_epoch (body (acc_record a))) + 1 < 2 ^ 64"
    and "snapshot_at p r = Some s" and "ep_policy_revision (body (acc_record a)) \<le> r"
    and "bt_get (sn_devices s) device = Some wd" and "signing_public (wd_card wd) = signing_public_of cr seed"
    and "can_wrap s device (ec_domain c)"
    and "params = \<lparr>pa_workspace = ec_workspace c, pa_domain = ec_domain c,
      pa_epoch = ep_epoch (body (acc_record a)) + 1, pa_previous = acc_digest a, pa_policy_revision = r,
      pa_policy_head = sn_digest s, pa_rotating_device = device, pa_recipients = readers s (ec_domain c)\<rparr>"
    and "record = signed_sign cr enc_epoch (build_epoch cr params k (Some previous_key) n) seed"
  shows "accept_epoch cr c record k p = Inr (ec_take cr record c, Acceptance_Next)"
proof -
  let ?b = "build_epoch cr params k (Some previous_key) n"
  have body: "body record = ?b" by (simp add: assms(14) signed_sign_def)
  have fields: "ep_workspace ?b = ec_workspace c" "ep_domain ?b = ec_domain c"
    "ep_epoch ?b = ep_epoch (body (acc_record a)) + 1" "ep_previous ?b = acc_digest a"
    "ep_policy_revision ?b = r" "ep_policy_head ?b = sn_digest s" "ep_rotating_device ?b = device"
    "ep_recipients_digest ?b = recipients_digest cr (readers s (ec_domain c))" "key_matches cr ?b k"
    by (simp_all add: build_epoch_def assms(13) Let_def key_matches_def)
  have "check_signed cr c record p = Inr ()"
    using assms(8,10,11,12) signed_sign_verifies [OF assms(2)]
    by (simp add: check_signed_def body fields) (simp add: assms(14))
  moreover have "judge_position cr c ?b k p = Inr Acceptance_Next"
  proof -
    have in_values: "a \<in> set (bt_values (ec_accepted c))" using assms(5) by (auto simp: ran_def)
    then obtain named where named: "find (\<lambda>x. acc_digest x = acc_digest a) (bt_values (ec_accepted c)) = Some named"
      by (cases "find (\<lambda>x. acc_digest x = acc_digest a) (bt_values (ec_accepted c))") (auto simp: find_None_iff)
    then have "named \<in> set (bt_values (ec_accepted c))" and same: "acc_digest named = acc_digest a"
      by (auto simp: find_Some_iff simp del: bt_set_values)
    then have "named = a" using assms(3,5) by (auto simp: digests_apart_def ran_def) (metis option.inject)
    moreover have "\<not> ep_epoch (body (acc_record a)) + 1 \<le> ep_epoch (body (acc_record a))"
      using assms(7) by (simp add: word_le_nat_alt unat_word_ariths)
    ultimately show ?thesis
      using assms(4,6,9) named open_built_lineage [OF assms(1)]
      by (simp add: judge_position_def fields Let_def not_less)
  qed
  ultimately show ?thesis
    by (simp add: accept_epoch_def body fields)
qed

end
