(* ===== verification/Keys_Log.thy ===== *)
theory Keys_Log
  imports Keys Policy_Theorems
begin

text \<open>
  The judge of a domain's log against the policy: what an operation it lets through says of the
  devices that hold the operation's epoch key (\<section>8, Policy entries; \<section>9, Epoch validity).
\<close>

subsection \<open>Neighbouring revisions\<close>

lemma apply_kind_new_domain:
  assumes "apply_policy_kind prev b sa sr h s = Inr t" and "bt_get (sn_domains t) d \<noteq> None"
  shows "bt_get (sn_domains s) d \<noteq> None \<or> d \<notin> sn_used_domains s"
  using assms
  by (cases "pol_kind b") (auto simp: apply_policy_kind_def kind_defs set_member_role_def
      drop_grants_def Let_def split: if_splits option.splits)

definition next_revision :: "snapshot \<Rightarrow> snapshot \<Rightarrow> bool" where
  "next_revision s t \<longleftrightarrow>
     (\<forall>d. d \<in> sn_rotations t \<longleftrightarrow> bt_contains (sn_domains s) d \<and> bt_contains (sn_domains t) d
        \<and> (\<exists>device. can_read s device d \<and> \<not> can_read t device d))
     \<and> dom (bt_get (sn_domains s)) \<subseteq> sn_used_domains s \<and> sn_used_domains s \<subseteq> sn_used_domains t
     \<and> (\<forall>d. bt_get (sn_domains t) d \<noteq> None \<longrightarrow> bt_get (sn_domains s) d \<noteq> None \<or> d \<notin> sn_used_domains s)"

lemma change_next_revision:
  assumes check: "check_change cr p c acs = Inr t" and ok: "snapshot_ok acs (head_snapshot p)"
  shows "next_revision (head_snapshot p) t"
proof -
  note rot = change_rotations [OF check ok]
  show ?thesis
    using check ok
  proof (rule accepted_change)
    fix h ch sr s u
    assume kind: "apply_policy_kind (head_snapshot p) (body c) (ah_account h) sr h
        (start_next cr (head_snapshot p) c) = Inr s"
      and t: "sn_domains t = sn_domains s" "sn_used_domains t = sn_used_domains s"
    show ?thesis
      unfolding next_revision_def
      using rot apply_kind_new_domain [OF kind] apply_kind_used [OF kind] t ok
      by (simp add: snapshot_ok_def domains_ok_def)
  qed
qed

lemma verified_next_revision:
  "verify_policy cr cs acs = Inr p \<Longrightarrow> Suc i < length (pc_snapshots p) \<Longrightarrow>
   next_revision (pc_snapshots p ! i) (pc_snapshots p ! Suc i)"
proof (induction arbitrary: i rule: verify_policy_induct)
  case (genesis c p)
  then obtain t where "pc_snapshots p = [t]" by (auto elim: policy_from_genesisE)
  then show ?case using genesis by simp
next
  case (append cs c p t)
  have n: "length (pc_snapshots p) = length cs"
    using verify_policy_structure [OF append.hyps(1)] by simp
  show ?case
  proof (cases "Suc i < length (pc_snapshots p)")
    case True
    then show ?thesis using append.IH [of i] by (simp add: nth_append)
  next
    case False
    then have i: "Suc i = length cs" using append.prems n by simp
    have "next_revision (head_snapshot p) t"
      using append.hyps(3) head_snapshot_ok [OF append.hyps(1)] by (rule change_next_revision)
    moreover have "head_snapshot p = pc_snapshots p ! i"
      using head_snapshot_nth [OF append.hyps(1)] i by (metis diff_Suc_1)
    ultimately show ?thesis using i n by (simp add: nth_append)
  qed
qed

subsection \<open>Across revisions\<close>

lemma domain_stays_gone:
  assumes v: "verify_policy cr cs acs = Inr p" and "i \<le> j" and "j < length (pc_snapshots p)"
    and "d \<in> sn_used_domains (pc_snapshots p ! i)" and "bt_get (sn_domains (pc_snapshots p ! i)) d = None"
  shows "d \<in> sn_used_domains (pc_snapshots p ! j) \<and> bt_get (sn_domains (pc_snapshots p ! j)) d = None"
  using assms(2-5)
proof (induction j rule: nat_induct_at_least)
  case (Suc j)
  then have "next_revision (pc_snapshots p ! j) (pc_snapshots p ! Suc j)"
    using verified_next_revision [OF v] by simp
  then show ?case using Suc by (auto simp: next_revision_def)
qed simp

lemma used_domains_grow:
  assumes v: "verify_policy cr cs acs = Inr p" and "i \<le> j" and "j < length (pc_snapshots p)"
  shows "sn_used_domains (pc_snapshots p ! i) \<subseteq> sn_used_domains (pc_snapshots p ! j)"
  using assms(2,3)
proof (induction j rule: nat_induct_at_least)
  case (Suc j)
  then have "next_revision (pc_snapshots p ! j) (pc_snapshots p ! Suc j)"
    using verified_next_revision [OF v] by simp
  then show ?case using Suc by (auto simp: next_revision_def)
qed simp

lemma readers_kept:
  assumes v: "verify_policy cr cs acs = Inr p" and "i \<le> k" and k: "k < length (pc_snapshots p)"
    and live: "bt_get (sn_domains (pc_snapshots p ! i)) d \<noteq> None" "bt_get (sn_domains (pc_snapshots p ! k)) d \<noteq> None"
    and none: "\<And>j. i < j \<Longrightarrow> j \<le> k \<Longrightarrow> d \<notin> sn_rotations (pc_snapshots p ! j)"
    and read: "can_read (pc_snapshots p ! i) device d"
  shows "can_read (pc_snapshots p ! k) device d"
proof -
  have between: "bt_get (sn_domains (pc_snapshots p ! j)) d \<noteq> None" if "i \<le> j" "j \<le> k" for j
  proof
    assume gone: "bt_get (sn_domains (pc_snapshots p ! j)) d = None"
    have "d \<in> sn_used_domains (pc_snapshots p ! i)"
    proof (cases "i = k")
      case True
      then show ?thesis using gone that live by simp
    next
      case False
      then have "next_revision (pc_snapshots p ! i) (pc_snapshots p ! Suc i)"
        using verified_next_revision [OF v] \<open>i \<le> k\<close> k by simp
      then show ?thesis using live(1) by (auto simp: next_revision_def)
    qed
    then have "d \<in> sn_used_domains (pc_snapshots p ! j)"
      using used_domains_grow [OF v that(1)] that(2) k by auto
    then show False
      using domain_stays_gone [OF v that(2) k _ gone] live(2) by simp
  qed
  have "j \<le> k \<longrightarrow> can_read (pc_snapshots p ! j) device d" if "i \<le> j" for j
    using that
  proof (induction j rule: nat_induct_at_least)
    case (Suc j)
    show ?case
    proof
      assume jk: "Suc j \<le> k"
      then have "next_revision (pc_snapshots p ! j) (pc_snapshots p ! Suc j)"
        using verified_next_revision [OF v] k by simp
      then show "can_read (pc_snapshots p ! Suc j) device d"
        using Suc jk none [of "Suc j"] between [of j] between [of "Suc j"] by (auto simp: next_revision_def)
    qed
  qed (use read in simp)
  then show ?thesis using \<open>i \<le> k\<close> by simp
qed

subsection \<open>Operations\<close>

lemma rotation_required_None:
  assumes "rotation_required p d after through = None" and "after < r" and "r \<le> through"
    and "snapshot_at p r = Some s"
  shows "d \<notin> sn_rotations s"
proof -
  have "unat (after + 1) \<le> unat r" using assms(2) by unat_arith
  then have "unat r \<in> set [unat (after + 1)..<Suc (unat through)]"
    using assms(3) by (auto simp: word_le_nat_alt)
  then have "r \<in> set (rev (map of_nat [unat (after + 1)..<Suc (unat through)]))"
    unfolding set_rev set_map by (rule image_eqI [rotated]) simp
  then show ?thesis
    using assms(1,4) by (auto simp: rotation_required_def find_None_iff)
qed

lemma snapshot_at_nth:
  "snapshot_at p r = Some s \<longleftrightarrow> r \<noteq> 0 \<and> unat r - 1 < length (pc_snapshots p) \<and> s = pc_snapshots p ! (unat r - 1)"
proof -
  have "unat (r - 1) = unat r - 1" if "r \<noteq> 0" using that by unat_arith
  then show ?thesis by (auto simp: snapshot_at_def Let_def)
qed

text \<open>
  C3. An operation that its position in the log lets through is written by a device that may
  write its domain at the latest policy entry and at the operation's own policy revision, no
  later; it is under the latest epoch; and every device that could read the domain at any policy
  revision from that of the epoch's record on can still read it at the latest policy entry. So, as
  long as an epoch's key goes only to devices that read the domain at its record's revision or
  later, no device that lost access, also one that was granted the key after the record and then
  removed, holds the key of an operation accepted after its loss.
\<close>

theorem operation_key_holders_read:
  assumes "verify_policy cr changes acs = Inr p" and "lj_policy_entry j = Some entry"
    and "lj_epoch j = Some (current, epoch_revision)"
    and "check_operation j device policy_revision number p = Inr ()"
  shows "number = current \<and> policy_revision \<le> entry \<and> writes_at p (lj_domain j) device entry
    \<and> writes_at p (lj_domain j) device policy_revision
    \<and> (\<forall>r holder. epoch_revision \<le> r \<and> r \<le> entry \<and> reads_at p (lj_domain j) holder r
        \<longrightarrow> reads_at p (lj_domain j) holder entry)"
proof -
  let ?d = "lj_domain j"
  have checks: "policy_revision \<le> entry" "writes_at p ?d device entry" "writes_at p ?d device policy_revision"
    "current = number" "rotation_required p ?d epoch_revision entry = None"
    using assms(2-4) by (auto simp: check_operation_def check_writer_def rotation_pending_def split: if_splits)
  obtain t where t: "snapshot_at p entry = Some t" "can_write t device ?d"
    using checks(2) by (auto simp: writes_at_def split: option.splits)
  have live: "bt_get (sn_domains t) ?d \<noteq> None"
    using t(2) by (auto simp: can_write_def device_level_def account_level_def split: option.splits)
  have "can_read t holder ?d"
    if range: "epoch_revision \<le> r" "r \<le> entry" and s: "snapshot_at p r = Some s" "can_read s holder ?d" for r s holder
  proof -
    note st = s(1) [unfolded snapshot_at_nth] t(1) [unfolded snapshot_at_nth]
    have "?d \<notin> sn_rotations (pc_snapshots p ! i)" if "unat r - 1 < i" "i \<le> unat entry - 1" for i
    proof -
      let ?r = "of_nat (Suc i) :: u64"
      have "unat entry < 2 ^ 64" using unsigned_less [of entry] by simp
      moreover have "0 < unat r" "0 < unat entry" using st by (simp_all add: unat_gt_0)
      ultimately have r: "unat ?r = Suc i" using that by (intro unat_of_nat_u64) linarith
      have "snapshot_at p ?r = Some (pc_snapshots p ! i)"
        using r that st unfolding snapshot_at_nth by (auto simp: unat_eq_zero simp del: of_nat_Suc)
      moreover have "epoch_revision < ?r" "?r \<le> entry"
        using range unfolding word_less_nat_alt word_le_nat_alt r using that st \<open>0 < unat entry\<close> by linarith+
      ultimately show ?thesis using rotation_required_None [OF checks(5)] by blast
    qed
    moreover have "bt_get (sn_domains s) ?d \<noteq> None"
      using s(2) by (auto simp: can_read_def device_level_def account_level_def split: option.splits)
    ultimately show ?thesis
      using readers_kept [OF assms(1), of "unat r - 1" "unat entry - 1" ?d holder] st range live s(2)
      by (auto simp: word_le_nat_alt diff_le_mono)
  qed
  then show ?thesis
    using checks t(1) by (auto simp: reads_at_def split: option.splits)
qed

end
