(* ===== verification/Keys_Examples.thy ===== *)
theory Keys_Examples
  imports Keys_Theorems Keys_Log Policy_Examples
begin

declare One_nat_def [simp del]

text \<open>
  A concrete key domain on which the theorems' hypotheses hold: domain 50 of the demo workspace,
  whose epochs 1 and 2 are accepted and whose epoch 3 is a replacement that ends epoch 2.
\<close>

definition epoch_crypto :: crypto where
  "epoch_crypto = demo_crypto\<lparr>aead_encrypt := (\<lambda>_ _ _ plain. plain @ replicate 16 0),
     aead_decrypt := (\<lambda>_ _ _ c. Some (take (length c - 16) c))\<rparr>"

definition demo_key :: "nat \<Rightarrow> secret_key" where
  "demo_key n = SecretKey (of_nat n)"

definition demo_params :: "u64 \<Rightarrow> digest \<Rightarrow> nat \<Rightarrow> epoch_params" where
  "demo_params n previous r = \<lparr>pa_workspace = Ident 40, pa_domain = Ident 50, pa_epoch = n,
     pa_previous = previous, pa_policy_revision = of_nat r, pa_policy_head = sn_digest (demo_snapshot r),
     pa_rotating_device = Ident 1, pa_recipients = readers (demo_snapshot r) (Ident 50)\<rparr>"

definition demo_epoch :: "nat \<Rightarrow> epoch signed" where
  "demo_epoch n = \<lparr>body = build_epoch epoch_crypto
       (demo_params (of_nat n) (if n = 1 then ZERO_digest else demo_digest 31) n) (demo_key n)
       (if n = 1 then None else Some (demo_key 1)) ZERO_nonce,
     sig = Signature (of_nat (30 + n))\<rparr>"

lemma epoch_laws: "aead_law epoch_crypto" "signature_law epoch_crypto"
  by (simp_all add: aead_law_def signature_law_def epoch_crypto_def demo_crypto_def AEAD_TAG_LEN_def)

lemma demo_epoch_digest [simp]:
  "20 + n < 246 \<Longrightarrow> signed_epoch_digest epoch_crypto (demo_epoch n) = demo_digest (30 + n)"
proof -
  assume "20 + n < 246"
  then have "signed_epoch_digest demo_crypto (demo_epoch n) = demo_digest (30 + n)"
    unfolding demo_epoch_def by (intro demo_sig_digest) simp
  then show ?thesis by (simp add: signed_digest_def hash_def epoch_crypto_def)
qed

lemma demo_epoch_fields [simp]:
  "ep_workspace (body (demo_epoch n)) = Ident 40" "ep_domain (body (demo_epoch n)) = Ident 50"
  "ep_epoch (body (demo_epoch n)) = of_nat n" "ep_policy_revision (body (demo_epoch n)) = of_nat n"
  "ep_policy_head (body (demo_epoch n)) = sn_digest (demo_snapshot n)"
  "ep_rotating_device (body (demo_epoch n)) = Ident 1"
  "ep_recipients_digest (body (demo_epoch n)) = recipients_digest epoch_crypto (readers (demo_snapshot n) (Ident 50))"
  "ep_previous (body (demo_epoch n)) = (if n = 1 then ZERO_digest else demo_digest 31)"
  "key_matches epoch_crypto (body (demo_epoch n)) (demo_key n)"
  by (simp_all add: demo_epoch_def build_epoch_def demo_params_def Let_def key_matches_def)

lemma demo_lineage [simp]:
  "n \<noteq> 1 \<Longrightarrow> open_lineage epoch_crypto (body (demo_epoch n)) (demo_key n) = Inr (demo_key 1)"
  by (simp add: demo_epoch_def open_built_lineage [OF epoch_laws(1)])

lemma demo_snapshot_at:
  "n \<in> {1, 2, 3} \<Longrightarrow> snapshot_at (demo_policy 3) (of_nat n) = Some (demo_snapshot n)"
  by (auto simp: snapshot_at_nth demo_policy_def)

lemma demo_wraps:
  "n \<in> {1, 2, 3} \<Longrightarrow> can_wrap (demo_snapshot n) (Ident 1) (Ident 50)
     \<and> bt_get (sn_devices (demo_snapshot n)) (Ident 1) = Some (demo_wd (Ident 99) (demo_card 1))"
  by (auto simp: can_wrap_def signs_def demo_snapshot_def demo_domain_simps)

lemma demo_check_signed:
  assumes "n \<in> {1, 2, 3}" and "ec_workspace c = Ident 40" and "ec_domain c = Ident 50"
  shows "check_signed epoch_crypto c (demo_epoch n) (demo_policy 3) = Inr ()"
proof -
  have "signed_verify epoch_crypto enc_epoch (demo_epoch n) pk = Inr ()" for pk
    by (simp add: signed_verify_def verify_def epoch_crypto_def demo_crypto_def)
  then show ?thesis
    using assms demo_snapshot_at [OF assms(1)] demo_wraps [OF assms(1)] by (simp add: check_signed_def)
qed

definition demo_epochs :: "nat \<Rightarrow> epoch_chain" where
  "demo_epochs n = (let at = \<lambda>k. \<lparr>acc_record = demo_epoch k, acc_digest = demo_digest (30 + k)\<rparr>
     in \<lparr>ec_workspace = Ident 40, ec_domain = Ident 50,
       ec_accepted = (if n = 0 then bt_empty else if n = 1 then bt_insert 1 (at 1) bt_empty
         else bt_insert (of_nat n) (at n) (bt_insert 1 (at 1) bt_empty)),
       ec_ended = (if n = 3 then bt_insert 2 3 bt_empty else bt_empty)\<rparr>)"

lemma demo_judge:
  "judge_position epoch_crypto (demo_epochs 0) (body (demo_epoch 1)) (demo_key 1) (demo_policy 3) = Inr Acceptance_Next"
  "judge_position epoch_crypto (demo_epochs 1) (body (demo_epoch 2)) (demo_key 2) (demo_policy 3) = Inr Acceptance_Next"
  "judge_position epoch_crypto (demo_epochs 2) (body (demo_epoch 3)) (demo_key 3) (demo_policy 3) =
     Inr (Acceptance_Replacement 2 2)"
proof -
  have first: "ep_lineage (body (demo_epoch 1)) = []" "ep_lineage_nonce (body (demo_epoch 1)) = ZERO_nonce"
    by (simp_all add: demo_epoch_def build_epoch_def Let_def)
  have key: "key_matches epoch_crypto (body (demo_epoch 1)) (demo_key 1)" by simp
  have snapshot: "snapshot_at (demo_policy 3) 1 = Some (demo_snapshot 1)"
    using demo_snapshot_at [of 1] by simp
  show "judge_position epoch_crypto (demo_epochs 0) (body (demo_epoch 1)) (demo_key 1) (demo_policy 3) =
      Inr Acceptance_Next"
    using first snapshot
    by (simp add: judge_position_def demo_epochs_def ec_latest_def bt_values_def check_first_epoch_def)
      (simp add: demo_snapshot_def demo_domain_def)
  show "judge_position epoch_crypto (demo_epochs 1) (body (demo_epoch 2)) (demo_key 2) (demo_policy 3) =
      Inr Acceptance_Next"
    using key by (simp add: judge_position_def demo_epochs_def ec_latest_def bt_values_def Let_def word_le_nat_alt)
  show "judge_position epoch_crypto (demo_epochs 2) (body (demo_epoch 3)) (demo_key 3) (demo_policy 3) =
      Inr (Acceptance_Replacement 2 2)"
    using key demo_digest_eq [of 31 32]
    by (simp add: judge_position_def demo_epochs_def ec_latest_def bt_values_def Let_def)
qed

lemma demo_accept:
  "accept_epoch epoch_crypto (demo_epochs 0) (demo_epoch 1) (demo_key 1) (demo_policy 3) =
     Inr (demo_epochs 1, Acceptance_Next)"
  "accept_epoch epoch_crypto (demo_epochs 1) (demo_epoch 2) (demo_key 2) (demo_policy 3) =
     Inr (demo_epochs 2, Acceptance_Next)"
  "accept_epoch epoch_crypto (demo_epochs 2) (demo_epoch 3) (demo_key 3) (demo_policy 3) =
     Inr (demo_epochs 3, Acceptance_Replacement 2 2)"
proof -
  have w: "ec_workspace (demo_epochs n) = Ident 40" "ec_domain (demo_epochs n) = Ident 50" for n
    by (simp_all add: demo_epochs_def Let_def)
  note signed = demo_check_signed [OF _ w]
  have taken: "ec_take epoch_crypto (demo_epoch 1) (demo_epochs 0) = demo_epochs 1"
    "ec_take epoch_crypto (demo_epoch 2) (demo_epochs 1) = demo_epochs 2"
    by (simp_all add: ec_take_def demo_epochs_def Let_def)
  have ended: "bt_remove 2 (bt_insert 2 x (bt_insert (1 :: u64) y bt_empty)) = bt_insert 1 y bt_empty"
    for x y :: accepted_epoch by (rule bt_ext) simp
  have "end_epochs 2 2 3 (demo_epochs 2) = (demo_epochs 1)\<lparr>ec_ended := bt_insert 2 3 bt_empty\<rparr>"
    by (simp add: end_epochs_def demo_epochs_def Let_def ended)
  then have third: "ec_take epoch_crypto (demo_epoch 3) (end_epochs 2 2 3 (demo_epochs 2)) = demo_epochs 3"
    by (simp add: ec_take_def demo_epochs_def Let_def)
  show "accept_epoch epoch_crypto (demo_epochs 0) (demo_epoch 1) (demo_key 1) (demo_policy 3) =
      Inr (demo_epochs 1, Acceptance_Next)"
    using signed [of 1] demo_judge(1) taken by (simp add: accept_epoch_def)
  show "accept_epoch epoch_crypto (demo_epochs 1) (demo_epoch 2) (demo_key 2) (demo_policy 3) =
      Inr (demo_epochs 2, Acceptance_Next)"
    using signed [of 2] demo_judge(2) taken by (simp add: accept_epoch_def)
  show "accept_epoch epoch_crypto (demo_epochs 2) (demo_epoch 3) (demo_key 3) (demo_policy 3) =
      Inr (demo_epochs 3, Acceptance_Replacement 2 2)"
    using signed [of 3] demo_judge(3) third by (simp add: accept_epoch_def)
qed

definition demo_keys :: "u64 \<Rightarrow> secret_key" where
  "demo_keys = (\<lambda>_. demo_key 0)(1 := demo_key 1, 2 := demo_key 2, 3 := demo_key 3)"

lemma demo_epoch_run:
  "epoch_run epoch_crypto (demo_policy 3) (Ident 40) (Ident 50)
     {demo_epoch 3, demo_epoch 2, demo_epoch 1} (demo_epochs 3) demo_keys"
proof -
  have "new_epoch_chain (Ident 40) (Ident 50) = demo_epochs 0"
    by (simp add: new_epoch_chain_def demo_epochs_def Let_def)
  then have "epoch_run epoch_crypto (demo_policy 3) (Ident 40) (Ident 50) {} (demo_epochs 0) (\<lambda>_. demo_key 0)"
    using run_new [of epoch_crypto "demo_policy 3" "Ident 40" "Ident 50" "\<lambda>_. demo_key 0"] by simp
  from run_accept [OF run_accept [OF run_accept [OF this demo_accept(1)] demo_accept(2)] demo_accept(3)]
  show ?thesis by (simp add: demo_keys_def)
qed


subsection \<open>Witnesses\<close>

theorem accepted_epoch_authorized_witness:
  "ep_workspace (body (demo_epoch 3)) = Ident 40
   \<and> (\<exists>s wd. snapshot_at (demo_policy 3) 3 = Some s
        \<and> bt_get (sn_devices s) (Ident 1) = Some wd
        \<and> signed_verify epoch_crypto enc_epoch (demo_epoch 3) (signing_public (wd_card wd)) = Inr ()
        \<and> can_wrap s (Ident 1) (Ident 50))"
  using accepted_epoch_authorized [OF demo_epoch_run, of 3 "\<lparr>acc_record = demo_epoch 3, acc_digest = demo_digest 33\<rparr>"]
  by (auto simp: ec_get_def demo_epochs_def Let_def)

lemma demo_no_collision:
  "\<not> (\<exists>r \<in> {demo_epoch 3, demo_epoch 2, demo_epoch 1}. \<exists>r' \<in> {demo_epoch 3, demo_epoch 2, demo_epoch 1}.
     collision (signed_epoch_digest epoch_crypto) r r')"
  by (simp add: collision_def demo_digest_eq)

theorem epochs_account_for_all_witness:
  "ended_at (demo_epochs 3) 2 = Some 3 \<and> ended_at (demo_epochs 3) 1 = None
   \<and> successively (\<lambda>a b. ep_previous (body (acc_record b)) = acc_digest a
        \<and> ep_policy_revision (body (acc_record a)) \<le> ep_policy_revision (body (acc_record b)))
      (bt_values (ec_accepted (demo_epochs 3)))"
  using epochs_account_for_all [OF demo_epoch_run] demo_no_collision
  by (simp add: ended_at_def demo_epochs_def Let_def)

theorem lineage_opens_every_epoch_witness:
  "walk_lineage epoch_crypto [demo_epoch 3, demo_epoch 1] (demo_key 3) = Inr [demo_key 3, demo_key 1]"
proof -
  let ?a = "\<lparr>acc_record = demo_epoch 3, acc_digest = demo_digest 33\<rparr>"
  have latest: "ec_latest (demo_epochs 3) = Some ?a"
    by (simp add: ec_latest_def demo_epochs_def bt_values_def Let_def)
  show ?thesis
    using lineage_opens_every_epoch [OF demo_epoch_run latest]
    by simp
qed

theorem replacement_agrees_with_clients_witness:
  "check_replacement (demo_policy 3) (body (demo_epoch 3)) 1 2 bt_empty = Inr ()"
  using replacement_agrees_with_clients [of bt_empty "demo_policy 3" "body (demo_epoch 3)" 1 2] by simp


definition demo_envelope :: "envelope signed" where
  "demo_envelope = \<lparr>body = \<lparr>en_workspace = Ident 40, en_domain = Ident 50, en_epoch = 1, en_recipient = Ident 11,
     en_recipient_hpke_digest = card_hpke_digest epoch_crypto (demo_card98 11), en_wrapping_device = Ident 1,
     en_enc = replicate 1120 0, en_ciphertext = replicate 48 0\<rparr>, sig = Signature 40\<rparr>"

lemma demo_envelope_accepted:
  "check_envelope epoch_crypto demo_envelope (body (demo_epoch 1)) (demo_key 1) (demo_card98 11) (demo_policy 3) 3 None =
     Inr Envelope_Accept"
proof -
  have verifies: "signed_verify epoch_crypto enc_envelope demo_envelope pk = Inr ()" for pk
    by (simp add: signed_verify_def verify_def epoch_crypto_def demo_crypto_def)
  have "envelope_authorizes epoch_crypto demo_envelope (demo_policy 3) 3 = Some True"
    using demo_snapshot_at [of 3] demo_wraps [of 3] verifies
    by (simp add: envelope_authorizes_def) (simp add: demo_envelope_def)
  then show ?thesis
    using demo_epoch_fields(9) [of 1]
    by (simp add: check_envelope_def) (simp add: demo_envelope_def demo_card98_def demo_card_def)
qed

theorem envelope_accepted_sound_witness:
  "en_recipient (body demo_envelope) = Ident 11 \<and> key_matches epoch_crypto (body (demo_epoch 1)) (demo_key 1)
   \<and> (\<exists>s. snapshot_at (demo_policy 3) 3 = Some s \<and> can_wrap s (Ident 1) (Ident 50))"
  using envelope_accepted_sound [OF demo_envelope_accepted]
  by (auto simp: demo_envelope_def demo_card98_def demo_card_def)

theorem honest_rotation_accepted_witness:
  "\<exists>c. accept_epoch epoch_crypto (demo_epochs 1)
     (signed_sign epoch_crypto enc_epoch
       (build_epoch epoch_crypto (demo_params 2 (demo_digest 31) 3) (demo_key 2) (Some (demo_key 1)) ZERO_nonce)
       (demo_key 1))
     (demo_key 2) (demo_policy 3) = Inr (c, Acceptance_Next)"
proof (rule exI, rule honest_rotation_accepted [OF epoch_laws _ _ _ _ _ _ _ _ _ _ _ refl])
  let ?a = "\<lparr>acc_record = demo_epoch 1, acc_digest = demo_digest 31\<rparr>"
  show "digests_apart (demo_epochs 1)"
    by (auto simp: digests_apart_def demo_epochs_def Let_def split: if_splits)
  show "ec_latest (demo_epochs 1) = Some ?a"
    by (simp add: ec_latest_def demo_epochs_def bt_values_def Let_def)
  show "bt_get (ec_accepted (demo_epochs 1)) (ep_epoch (body (acc_record ?a))) = Some ?a"
    by (simp add: demo_epochs_def Let_def)
  show "key_matches epoch_crypto (body (acc_record ?a)) (demo_key 1)"
    using demo_epoch_fields(9) [of 1] by simp
  show "snapshot_at (demo_policy 3) 3 = Some (demo_snapshot 3)"
    using demo_snapshot_at [of 3] by simp
  show "bt_get (sn_devices (demo_snapshot 3)) (Ident 1) = Some (demo_wd (Ident 99) (demo_card 1))"
    using demo_wraps [of 3] by simp
  show "can_wrap (demo_snapshot 3) (Ident 1) (ec_domain (demo_epochs 1))"
    using demo_wraps [of 3] by (simp add: demo_epochs_def Let_def)
qed (simp_all add: demo_wd_def demo_card_def signing_public_of_def demo_key_def epoch_crypto_def demo_crypto_def
  demo_params_def demo_epochs_def Let_def)

definition demo_judge_at :: log_judge where
  "demo_judge_at = \<lparr>lj_domain = Ident 50, lj_policy_entry = Some 3, lj_epoch = Some (2, 2)\<rparr>"

theorem operation_key_holders_read_witness:
  "writes_at (demo_policy 3) (Ident 50) (Ident 1) 3 \<and> reads_at (demo_policy 3) (Ident 50) (Ident 11) 3"
proof -
  have snapshots: "snapshot_at (demo_policy 3) 2 = Some (demo_snapshot 2)"
    "snapshot_at (demo_policy 3) 3 = Some (demo_snapshot 3)"
    using demo_snapshot_at [of 2] demo_snapshot_at [of 3] by simp_all
  have pending: "\<not> rotation_pending demo_judge_at (demo_policy 3)"
    using snapshots
    by (simp add: rotation_pending_def demo_judge_at_def rotation_required_def upt_rec)
      (simp add: demo_snapshot_def)
  have writer: "writes_at (demo_policy 3) (Ident 50) (Ident 1) 3"
    using snapshots
    by (simp add: writes_at_def can_write_def) (simp add: signs_def demo_snapshot_def demo_domain_simps)
  have reads: "reads_at (demo_policy 3) (Ident 50) (Ident 11) 2"
    using snapshots by (simp add: reads_at_def) (simp add: can_read_def demo_snapshot_def demo_domain_simps)
  have accepted: "check_operation demo_judge_at (Ident 1) 3 2 (demo_policy 3) = Inr ()"
    using pending writer by (simp add: check_operation_def check_writer_def) (simp add: demo_judge_at_def)
  have "reads_at (demo_policy 3) (Ident 50) (Ident 11) 3"
    using operation_key_holders_read [OF demo_policy_verified _ _ accepted, of 3 2 2] reads
    by (auto simp: demo_judge_at_def dest: spec [of _ 2])
  then show ?thesis using writer by simp
qed

end
