(* ===== verification/Records_Operation.thy ===== *)
theory Records_Operation
  imports Records_Policy
begin

text \<open>
  The operation record of a domain's log (\<^verbatim>\<open>records/operation.rs\<close>, \<section>13) and its encoding. Its
  payload is in \<open>Payloads\<close>.
\<close>

definition MAX_COVERS :: nat where "MAX_COVERS = 256"
definition MAX_BLOBS :: nat where "MAX_BLOBS = 4"
definition MAX_PAYLOAD_LEN :: nat where "MAX_PAYLOAD_LEN = 262144"
definition MAX_OPERATION_CIPHERTEXT :: nat where "MAX_OPERATION_CIPHERTEXT = 270352"
definition MAX_PATH_LEN :: nat where "MAX_PATH_LEN = 4096"
definition MAX_LOAD :: u32 where "MAX_LOAD = 2 ^ 29 - 1"

subsection \<open>Covers\<close>

record cover =
  cov_device :: ident
  cov_counter :: u64

definition enc_cover :: "cover \<Rightarrow> byte list" where
  "enc_cover c = ident_bytes (cov_device c) @ w_u64 (cov_counter c)"

definition dec_cover :: "cover decoder" where
  "dec_cover = rbind dec_ident (\<lambda>device. rbind ru64 (\<lambda>counter.
     rret \<lparr>cov_device = device, cov_counter = counter\<rparr>))"

definition wf_cover :: "cover \<Rightarrow> bool" where
  "wf_cover c \<longleftrightarrow> wf_ident (cov_device c)"

interpretation cover: wire enc_cover dec_cover wf_cover 24
proof
  show "decodes dec_cover (enc_cover x) x" if "wf_cover x" for x
    using that unfolding dec_cover_def enc_cover_def wf_cover_def
    by (intro field_decodes last_decodes) simp_all
  show "accepts dec_cover (\<lambda>x bs. wf_cover x \<and> bs = enc_cover x)"
    unfolding dec_cover_def by (intro field_accepts) (simp add: wf_cover_def enc_cover_def)
qed (simp add: enc_cover_def w_u64_def)

definition by_device :: "cover \<Rightarrow> byte list" where
  "by_device c = ident_bytes (cov_device c)"

definition dec_covers :: "cover list decoder" where
  "dec_covers = dec_sorted by_device MAX_COVERS 24 dec_cover"

definition wf_covers :: "cover list \<Rightarrow> bool" where
  "wf_covers cs \<longleftrightarrow> wf_sorted by_device MAX_COVERS wf_cover cs"

definition dec_blobs :: "ident list decoder" where
  "dec_blobs = dec_sorted ident_bytes MAX_BLOBS 16 dec_ident"

definition wf_blobs :: "ident list \<Rightarrow> bool" where
  "wf_blobs bs \<longleftrightarrow> wf_sorted ident_bytes MAX_BLOBS wf_ident bs"

interpretation covers: wire "encode_list enc_cover" dec_covers wf_covers 4
  unfolding dec_covers_def wf_covers_def [abs_def]
  using wire_sorted [OF cover.wire_axioms, of by_device MAX_COVERS] by simp

interpretation blobs: wire "encode_list ident_bytes" dec_blobs wf_blobs 4
  unfolding dec_blobs_def wf_blobs_def [abs_def]
  using wire_sorted [OF ident.wire_axioms, of ident_bytes MAX_BLOBS] by simp

subsection \<open>Operations\<close>

datatype op_class = Class_State | Class_Patch

record operation =
  op_workspace :: ident
  op_domain :: ident
  op_device :: ident
  op_counter :: u64
  op_previous :: digest
  op_epoch :: u64
  op_policy_revision :: u64
  op_policy_head :: digest
  op_previous_attempt :: digest
  op_generation :: u64
  op_checkpoint_seq :: u64
  op_checkpoint :: digest
  op_rid :: ident
  op_delete :: bool
  op_supersedes :: "cover list"
  op_blobs :: "ident list"
  op_nonce :: nonce
  op_ciphertext :: "byte list"

definition operation_prefix :: "operation \<Rightarrow> byte list" where
  "operation_prefix o1 = tag_bytes Tag_Op @ ident_bytes (op_workspace o1) @ ident_bytes (op_domain o1)
     @ ident_bytes (op_device o1) @ w_u64 (op_counter o1) @ digest_bytes (op_previous o1)
     @ w_u64 (op_epoch o1) @ w_u64 (op_policy_revision o1) @ digest_bytes (op_policy_head o1)
     @ digest_bytes (op_previous_attempt o1) @ w_u64 (op_generation o1) @ w_u64 (op_checkpoint_seq o1)
     @ digest_bytes (op_checkpoint o1) @ ident_bytes (op_rid o1) @ enc_bool (op_delete o1)
     @ encode_list enc_cover (op_supersedes o1) @ encode_list ident_bytes (op_blobs o1)"

definition operation_aad :: "operation \<Rightarrow> digest \<Rightarrow> byte list" where
  "operation_aad o1 epoch_record = operation_prefix o1 @ digest_bytes epoch_record"

definition enc_operation :: "operation \<Rightarrow> byte list" where
  "enc_operation o1 = operation_prefix o1 @ nonce_bytes (op_nonce o1) @ w_bytes (op_ciphertext o1)"

definition dec_operation :: "operation decoder" where
  "dec_operation =
     rbind (rtag Tag_Op) (\<lambda>_. rbind dec_ident (\<lambda>workspace. rbind dec_ident (\<lambda>d. rbind dec_ident (\<lambda>device.
     rbind roffset (\<lambda>counter_offset. rbind ru64 (\<lambda>counter.
     rbind (rensure (counter \<noteq> 0) (error_at OutOfRange counter_offset)) (\<lambda>_.
     rbind dec_digest (\<lambda>previous. rbind ru64 (\<lambda>number. rbind ru64 (\<lambda>policy_revision.
     rbind dec_digest (\<lambda>policy_head. rbind dec_digest (\<lambda>previous_attempt. rbind ru64 (\<lambda>generation.
     rbind ru64 (\<lambda>checkpoint_seq. rbind dec_digest (\<lambda>checkpoint. rbind dec_ident (\<lambda>rid.
     rbind dec_bool (\<lambda>delete. rbind dec_covers (\<lambda>supersedes. rbind dec_blobs (\<lambda>blobs.
     rbind dec_nonce (\<lambda>n. rbind (rbytes MAX_OPERATION_CIPHERTEXT) (\<lambda>ciphertext.
     rret \<lparr>op_workspace = workspace, op_domain = d, op_device = device, op_counter = counter,
       op_previous = previous, op_epoch = number, op_policy_revision = policy_revision,
       op_policy_head = policy_head, op_previous_attempt = previous_attempt,
       op_generation = generation, op_checkpoint_seq = checkpoint_seq, op_checkpoint = checkpoint,
       op_rid = rid, op_delete = delete, op_supersedes = supersedes, op_blobs = blobs,
       op_nonce = n, op_ciphertext = ciphertext\<rparr>)))))))))))))))))))))"

definition operation_MIN_SIZE :: nat where
  "operation_MIN_SIZE = encoded_len Tag_Op + 16 * 3 + 8 + 32 + 8 * 2 + 32 * 2 + 8 * 2 + 32 + 16 + 1
     + 4 + 4 + 24 + 4"

definition wf_operation :: "operation \<Rightarrow> bool" where
  "wf_operation o1 \<longleftrightarrow> wf_ident (op_workspace o1) \<and> wf_ident (op_domain o1) \<and> wf_ident (op_device o1)
     \<and> op_counter o1 \<noteq> 0 \<and> wf_ident (op_rid o1) \<and> wf_covers (op_supersedes o1)
     \<and> wf_blobs (op_blobs o1) \<and> wf_bytes MAX_OPERATION_CIPHERTEXT (op_ciphertext o1)"

lemmas operation_ciphertext_wire = wire_bytes [of MAX_OPERATION_CIPHERTEXT]

interpretation operation: wire enc_operation dec_operation wf_operation operation_MIN_SIZE
proof
  show "decodes dec_operation (enc_operation x) x" if "wf_operation x" for x
    using that unfolding dec_operation_def enc_operation_def operation_prefix_def wf_operation_def
      append_assoc
    by (intro field_decodes decodes_bind [OF covers.decodes_enc] decodes_bind [OF blobs.decodes_enc]
        decodes_last [OF wire.decodes_enc [OF operation_ciphertext_wire]] last_decodes) simp_all
  show "accepts dec_operation (\<lambda>x bs. wf_operation x \<and> bs = enc_operation x)"
    unfolding dec_operation_def
    by (intro field_accepts accepts_bind [OF covers.accepts_dec] accepts_bind [OF blobs.accepts_dec]
        accepts_bind [OF wire.accepts_dec [OF operation_ciphertext_wire]])
      (auto simp: wf_operation_def enc_operation_def operation_prefix_def)
  show "operation_MIN_SIZE \<le> length (enc_operation x)" if "wf_operation x" for x
    by (simp add: enc_operation_def operation_prefix_def operation_MIN_SIZE_def w_u64_def w_bytes_def
        w_u32_def w_u8_def enc_bool_def encode_list_def nonce_bytes_def)
qed

lemmas signed_operation_wire = wire_signed [OF operation.wire_axioms]

abbreviation signed_operation_digest :: "crypto \<Rightarrow> operation signed \<Rightarrow> digest" where
  "signed_operation_digest cr \<equiv> signed_digest cr enc_operation"

text \<open>The rule that a chain's policy revision and generation never fall.\<close>

datatype regressed = Regressed

definition check_monotonic :: "operation \<Rightarrow> operation \<Rightarrow> regressed + unit" where
  "check_monotonic previous next_op =
     (if op_policy_revision next_op < op_policy_revision previous
        \<or> op_generation next_op < op_generation previous then Inl Regressed else Inr ())"

end
