(* ===== verification/Payloads.thy ===== *)
theory Payloads
  imports Records_Operation
begin

text \<open>
  Payloads (\<^verbatim>\<open>records/operation.rs\<close>, \<section>13): paths, contents, meta entries, the four kinds, and sealing
  a payload into an operation and opening it.
\<close>

subsection \<open>Paths\<close>

text \<open>The characters of well-formed UTF-8, as \<open>str::chars\<close> yields them.\<close>

fun utf8_chars :: "byte list \<Rightarrow> nat list" where
  "utf8_chars [] = []"
| "utf8_chars (a # as) =
    (if a < 0x80 then unat a # utf8_chars as
     else case as of [] \<Rightarrow> [] | b # bs \<Rightarrow>
       if a \<le> 0xDF then (unat (a AND 0x1F) * 64 + unat (b AND 0x3F)) # utf8_chars bs
       else case bs of [] \<Rightarrow> [] | c # cs \<Rightarrow>
         if a \<le> 0xEF
         then (unat (a AND 0x0F) * 4096 + unat (b AND 0x3F) * 64 + unat (c AND 0x3F)) # utf8_chars cs
         else case cs of [] \<Rightarrow> [] | d # ds \<Rightarrow>
           (unat (a AND 0x07) * 262144 + unat (b AND 0x3F) * 4096 + unat (c AND 0x3F) * 64
              + unat (d AND 0x3F)) # utf8_chars ds)"

text \<open>\<open>str::split\<close> on one character: at least one part, empty parts kept.\<close>

fun split_on :: "nat \<Rightarrow> nat list \<Rightarrow> nat list list" where
  "split_on sep [] = [[]]"
| "split_on sep (c # cs) =
     (if c = sep then [] # split_on sep cs
      else case split_on sep cs of [] \<Rightarrow> [[c]] | p # ps \<Rightarrow> (c # p) # ps)"

definition chars :: "string \<Rightarrow> nat list" where
  "chars s = map of_char s"

text \<open>
  \<open>str::to_uppercase\<close> as far as equality with a device name goes: outside ASCII only the dotless i
  and the long s uppercase to one ASCII letter, the expansions (to \<open>SS\<close>, \<open>FF\<close>, \<open>FI\<close>, \<open>FL\<close>, \<open>ST\<close>)
  occur in no device name, and no character but itself uppercases to a superscript digit.
\<close>

definition upper_char :: "nat \<Rightarrow> nat" where
  "upper_char c = (if 97 \<le> c \<and> c \<le> 122 then c - 32 else if c = 0x131 then 73 else if c = 0x17F then 83 else c)"

definition ascii_lower_char :: "nat \<Rightarrow> nat" where
  "ascii_lower_char c = (if 65 \<le> c \<and> c \<le> 90 then c + 32 else c)"

definition is_control :: "nat \<Rightarrow> bool" where
  "is_control c \<longleftrightarrow> c < 0x20 \<or> 0x7F \<le> c \<and> c \<le> 0x9F"

definition WINDOWS_DEVICES :: "nat list list" where
  "WINDOWS_DEVICES =
     map chars [''CON'', ''CONIN$'', ''CONOUT$'', ''PRN'', ''AUX'', ''NUL'']
     @ map (\<lambda>d. chars ''COM'' @ [d]) ([49..<58] @ [0xB9, 0xB2, 0xB3])
     @ map (\<lambda>d. chars ''LPT'' @ [d]) ([49..<58] @ [0xB9, 0xB2, 0xB3])"

definition trim_end_spaces :: "nat list \<Rightarrow> nat list" where
  "trim_end_spaces cs = rev (dropWhile (\<lambda>c. c = 32) (rev cs))"

definition component_stem :: "nat list \<Rightarrow> nat list" where
  "component_stem component = map upper_char (trim_end_spaces (hd (split_on 46 component)))"

definition bad_component :: "nat list \<Rightarrow> bool" where
  "bad_component component \<longleftrightarrow> component = [] \<or> component = chars ''.'' \<or> component = chars ''..''
     \<or> last component = 46 \<or> last component = 32 \<or> component_stem component \<in> set WINDOWS_DEVICES"

definition reserved_chars :: "nat list" where
  "reserved_chars = [92, 58, 60, 62, 34, 124, 63, 42]"

definition validate_path :: "byte list \<Rightarrow> decode_error_kind + unit" where
  "validate_path bs =
     (if length bs > MAX_PATH_LEN then Inl TooLong
      else if \<not> utf8_valid bs then Inl InvalidUtf8
      else let path = utf8_chars bs in
        if path = [] \<or> list_ex (\<lambda>c. is_control c \<or> c \<in> set reserved_chars) path then Inl InvalidPath
        else if list_ex bad_component (split_on 47 path) then Inl InvalidPath
        else let root = map ascii_lower_char (hd (split_on 47 path)) in
          if root = chars ''.noura'' \<or> root = chars ''.git'' then Inl InvalidPath else Inr ())"

definition wf_path :: "byte list \<Rightarrow> bool" where
  "wf_path bs \<longleftrightarrow> validate_path bs = Inr ()"

definition dec_path :: "byte list decoder" where
  "dec_path = rbind roffset (\<lambda>offset. rbind (rbytes MAX_PATH_LEN) (\<lambda>bs.
     case validate_path bs of Inl kind \<Rightarrow> rfail (error_at kind offset) | Inr _ \<Rightarrow> rret bs))"

lemmas path_bytes_wire = wire_bytes [of MAX_PATH_LEN]

interpretation path: wire w_bytes dec_path wf_path 4
proof
  have wf: "wf_bytes MAX_PATH_LEN bs" if "wf_path bs" for bs
    using that by (auto simp: wf_path_def validate_path_def wf_bytes_def fits_u32_def MAX_PATH_LEN_def
        split: if_splits)
  show "decodes dec_path (w_bytes x) x" if "wf_path x" for x
    using that wf [OF that] unfolding dec_path_def
    by (intro decodes_offset decodes_last [OF wire.decodes_enc [OF path_bytes_wire]])
      (auto simp: wf_path_def decodes_ret)
  show "accepts dec_path (\<lambda>x bs. wf_path x \<and> bs = w_bytes x)"
    unfolding dec_path_def
    by (intro accepts_offset accepts_bind [OF wire.accepts_dec [OF path_bytes_wire]])
      (auto simp: wf_path_def split: sum.split intro: accepts_ret accepts_fail)
qed (simp add: w_bytes_def w_u32_def)

subsection \<open>Fields\<close>

record origin =
  or_domain :: ident
  or_rid :: ident

definition enc_origin :: "origin \<Rightarrow> byte list" where
  "enc_origin x = ident_bytes (or_domain x) @ ident_bytes (or_rid x)"

definition dec_origin :: "origin decoder" where
  "dec_origin = rbind dec_ident (\<lambda>d. rbind dec_ident (\<lambda>rid. rret \<lparr>or_domain = d, or_rid = rid\<rparr>))"

definition wf_origin :: "origin \<Rightarrow> bool" where
  "wf_origin x \<longleftrightarrow> wf_ident (or_domain x) \<and> wf_ident (or_rid x)"

interpretation origin: wire enc_origin dec_origin wf_origin 32
proof
  show "decodes dec_origin (enc_origin x) x" if "wf_origin x" for x
    using that unfolding dec_origin_def enc_origin_def wf_origin_def
    by (intro field_decodes last_decodes) simp_all
  show "accepts dec_origin (\<lambda>x bs. wf_origin x \<and> bs = enc_origin x)"
    unfolding dec_origin_def by (intro field_accepts) (simp add: wf_origin_def enc_origin_def)
qed (simp add: enc_origin_def)

record blob_ref =
  br_blob :: ident
  br_ciphertext_length :: u64
  br_ciphertext_digest :: digest
  br_blob_key :: secret_key
  br_plaintext_length :: u64

definition dec_secret_key :: "secret_key decoder" where
  "dec_secret_key = rbind (rword 32) (\<lambda>w. rret (SecretKey w))"

interpretation secret_key: wire secret_bytes dec_secret_key "\<lambda>_. True" 32
  unfolding secret_bytes_def dec_secret_key_def by (rule wire_newtype) simp_all

definition enc_blob_ref :: "blob_ref \<Rightarrow> byte list" where
  "enc_blob_ref b = ident_bytes (br_blob b) @ w_u64 (br_ciphertext_length b)
     @ digest_bytes (br_ciphertext_digest b) @ secret_bytes (br_blob_key b) @ w_u64 (br_plaintext_length b)"

definition dec_blob_ref :: "blob_ref decoder" where
  "dec_blob_ref = rbind dec_ident (\<lambda>blob. rbind ru64 (\<lambda>len. rbind dec_digest (\<lambda>d.
     rbind dec_secret_key (\<lambda>key. rbind ru64 (\<lambda>plain.
     rret \<lparr>br_blob = blob, br_ciphertext_length = len, br_ciphertext_digest = d, br_blob_key = key,
       br_plaintext_length = plain\<rparr>)))))"

definition wf_blob_ref :: "blob_ref \<Rightarrow> bool" where
  "wf_blob_ref b \<longleftrightarrow> wf_ident (br_blob b)"

interpretation blob_ref: wire enc_blob_ref dec_blob_ref wf_blob_ref 96
proof
  show "decodes dec_blob_ref (enc_blob_ref x) x" if "wf_blob_ref x" for x
    using that unfolding dec_blob_ref_def enc_blob_ref_def wf_blob_ref_def
    by (intro field_decodes decodes_bind [OF secret_key.decodes_enc] last_decodes) simp_all
  show "accepts dec_blob_ref (\<lambda>x bs. wf_blob_ref x \<and> bs = enc_blob_ref x)"
    unfolding dec_blob_ref_def
    by (intro field_accepts accepts_bind [OF secret_key.accepts_dec])
      (simp add: wf_blob_ref_def enc_blob_ref_def)
qed (simp add: enc_blob_ref_def w_u64_def secret_bytes_def)

datatype content = Content_Inline "byte list" | Content_Blob blob_ref

fun enc_content :: "content \<Rightarrow> byte list" where
  "enc_content (Content_Inline bs) = w_u8 1 @ w_bytes bs"
| "enc_content (Content_Blob b) = w_u8 2 @ enc_blob_ref b"

definition dec_content :: "content decoder" where
  "dec_content = rbind roffset (\<lambda>offset. rbind ru8 (\<lambda>form.
     if form = 1 then rbind (rbytes UNBOUNDED) (\<lambda>bs. rret (Content_Inline bs))
     else if form = 2 then rbind dec_blob_ref (\<lambda>b. rret (Content_Blob b))
     else rfail (error_at UnknownValue offset)))"

fun wf_content :: "content \<Rightarrow> bool" where
  "wf_content (Content_Inline bs) \<longleftrightarrow> wf_bytes UNBOUNDED bs"
| "wf_content (Content_Blob b) \<longleftrightarrow> wf_blob_ref b"

lemmas unbounded_wire = wire_bytes [of UNBOUNDED]

interpretation content: wire enc_content dec_content wf_content 5
proof
  show "decodes dec_content (enc_content x) x" if "wf_content x" for x
    using that unfolding dec_content_def
    by (cases x) (auto simp: decodes_ret intro!: field_decodes
        decodes_last [OF wire.decodes_enc [OF unbounded_wire]] decodes_last [OF blob_ref.decodes_enc])
  show "accepts dec_content (\<lambda>x bs. wf_content x \<and> bs = enc_content x)"
    unfolding dec_content_def
    by (intro field_accepts accepts_if accepts_fail accepts_bind [OF blob_ref.accepts_dec]
        accepts_bind [OF wire.accepts_dec [OF unbounded_wire]]) simp_all
  show "5 \<le> length (enc_content x)" if "wf_content x" for x
    by (cases x) (simp_all add: w_u8_def w_bytes_def w_u32_def enc_blob_ref_def)
qed

record meta =
  meta_key :: "byte list"
  meta_seq :: u64
  meta_value :: "byte list option"

definition enc_meta :: "meta \<Rightarrow> byte list" where
  "enc_meta m = w_str (meta_key m) @ w_u64 (meta_seq m) @ enc_option w_bytes (meta_value m)"

definition dec_meta :: "meta decoder" where
  "dec_meta = rbind (rstr STR_MAX) (\<lambda>key. rbind ru64 (\<lambda>seqno. rbind (dec_option (rbytes UNBOUNDED)) (\<lambda>v.
     rret \<lparr>meta_key = key, meta_seq = seqno, meta_value = v\<rparr>)))"

definition wf_meta :: "meta \<Rightarrow> bool" where
  "wf_meta m \<longleftrightarrow> wf_str STR_MAX (meta_key m) \<and> wf_option (wf_bytes UNBOUNDED) (meta_value m)"

lemmas text_wire = wire_str [of STR_MAX]
lemmas opt_bytes_wire = wire_option [OF unbounded_wire]

interpretation meta: wire enc_meta dec_meta wf_meta 11
proof
  show "decodes dec_meta (enc_meta x) x" if "wf_meta x" for x
    using that unfolding dec_meta_def enc_meta_def wf_meta_def
    by (intro decodes_bind [OF wire.decodes_enc [OF text_wire]] field_decodes
        decodes_last [OF wire.decodes_enc [OF opt_bytes_wire]] last_decodes) simp_all
  show "accepts dec_meta (\<lambda>x bs. wf_meta x \<and> bs = enc_meta x)"
    unfolding dec_meta_def
    by (intro accepts_bind [OF wire.accepts_dec [OF text_wire]] field_accepts
        accepts_bind [OF wire.accepts_dec [OF opt_bytes_wire]])
      (simp add: wf_meta_def enc_meta_def)
  show "11 \<le> length (enc_meta x)" if "wf_meta x" for x
    using wire.min_size_le [OF text_wire, of "meta_key x"] wire.min_size_le [OF opt_bytes_wire, of "meta_value x"] that
    by (simp add: wf_meta_def enc_meta_def w_u64_def)
qed

definition by_key :: "meta \<Rightarrow> byte list" where
  "by_key m = meta_key m"

definition dec_meta_list :: "meta list decoder" where
  "dec_meta_list = dec_sorted by_key UNBOUNDED 11 dec_meta"

definition wf_meta_list :: "meta list \<Rightarrow> bool" where
  "wf_meta_list ms \<longleftrightarrow> wf_sorted by_key UNBOUNDED wf_meta ms"

interpretation meta_list: wire "encode_list enc_meta" dec_meta_list wf_meta_list 4
  unfolding dec_meta_list_def wf_meta_list_def [abs_def]
  using wire_sorted [OF meta.wire_axioms, of by_key UNBOUNDED] by simp

datatype delete_reason = Deleted | Moved

fun delete_reason_code :: "delete_reason \<Rightarrow> u8" where
  "delete_reason_code Deleted = 1"
| "delete_reason_code Moved = 2"

definition delete_reason_from_code :: "u8 \<Rightarrow> delete_reason option" where
  "delete_reason_from_code c = (if c = 1 then Some Deleted else if c = 2 then Some Moved else None)"

definition enc_delete_reason :: "delete_reason \<Rightarrow> byte list" where
  "enc_delete_reason r = w_u8 (delete_reason_code r)"

definition dec_delete_reason :: "delete_reason decoder" where
  "dec_delete_reason = dec_byte_enum delete_reason_from_code"

lemma delete_reason_codes: "delete_reason_from_code (delete_reason_code r) = Some r"
  by (cases r) (simp_all add: delete_reason_from_code_def)

lemma delete_reason_from_code_Some: "delete_reason_from_code c = Some r \<Longrightarrow> c = delete_reason_code r"
  by (auto simp: delete_reason_from_code_def split: if_splits)

interpretation delete_reason: wire enc_delete_reason dec_delete_reason "\<lambda>_. True" 1
  unfolding enc_delete_reason_def dec_delete_reason_def
  by (rule wire_byte_enum) (simp_all add: delete_reason_codes delete_reason_from_code_Some)

lemmas opt_origin_wire = wire_option [OF origin.wire_axioms]

subsection \<open>Payloads\<close>

datatype payload_kind =
    Payload_File "byte list" "byte list" digest content "origin option"
  | Payload_Delete "byte list" digest delete_reason "origin option"
  | Payload_TextSnapshot "byte list" digest ident "meta list" content "origin option"
  | Payload_TextUpdate "byte list" ident u32 "meta list" content

fun payload_code :: "payload_kind \<Rightarrow> u8" where
  "payload_code (Payload_File _ _ _ _ _) = 1"
| "payload_code (Payload_Delete _ _ _ _) = 2"
| "payload_code (Payload_TextSnapshot _ _ _ _ _ _) = 3"
| "payload_code (Payload_TextUpdate _ _ _ _ _) = 4"

fun payload_is_delete :: "payload_kind \<Rightarrow> bool" where
  "payload_is_delete (Payload_Delete _ _ _ _) = True"
| "payload_is_delete _ = False"

fun payload_class :: "payload_kind \<Rightarrow> op_class" where
  "payload_class (Payload_TextUpdate _ _ _ _ _) = Class_Patch"
| "payload_class _ = Class_State"

record payload =
  pay_rid :: ident
  pay_kind :: payload_kind

fun enc_payload_kind :: "payload_kind \<Rightarrow> byte list" where
  "enc_payload_kind (Payload_File object_id path revision c org) =
     w_str object_id @ w_bytes path @ digest_bytes revision @ enc_content c @ enc_option enc_origin org"
| "enc_payload_kind (Payload_Delete object_id revision reason target) =
     w_str object_id @ digest_bytes revision @ enc_delete_reason reason @ enc_option enc_origin target"
| "enc_payload_kind (Payload_TextSnapshot object_id revision lineage ms c org) =
     w_str object_id @ digest_bytes revision @ ident_bytes lineage @ encode_list enc_meta ms
       @ enc_content c @ enc_option enc_origin org"
| "enc_payload_kind (Payload_TextUpdate object_id lineage load ms c) =
     w_str object_id @ ident_bytes lineage @ w_u32 load @ encode_list enc_meta ms @ enc_content c"

definition enc_payload :: "payload \<Rightarrow> byte list" where
  "enc_payload p = tag_bytes Tag_Payload @ ident_bytes (pay_rid p) @ w_u8 (payload_code (pay_kind p))
     @ enc_payload_kind (pay_kind p)"

definition dec_payload_kind :: "nat \<Rightarrow> u8 \<Rightarrow> payload_kind decoder" where
  "dec_payload_kind kind_offset k =
     (if k = 1 then rbind (rstr STR_MAX) (\<lambda>object_id. rbind dec_path (\<lambda>path. rbind dec_digest (\<lambda>revision.
        rbind dec_content (\<lambda>c. rbind (dec_option dec_origin) (\<lambda>org.
        rret (Payload_File object_id path revision c org))))))
      else if k = 2 then rbind (rstr STR_MAX) (\<lambda>object_id. rbind dec_digest (\<lambda>revision.
        rbind dec_delete_reason (\<lambda>reason. rbind (dec_option dec_origin) (\<lambda>target.
        rret (Payload_Delete object_id revision reason target)))))
      else if k = 3 then rbind (rstr STR_MAX) (\<lambda>object_id. rbind dec_digest (\<lambda>revision.
        rbind dec_ident (\<lambda>lineage. rbind dec_meta_list (\<lambda>ms. rbind dec_content (\<lambda>c.
        rbind (dec_option dec_origin) (\<lambda>org.
        rret (Payload_TextSnapshot object_id revision lineage ms c org)))))))
      else if k = 4 then rbind (rstr STR_MAX) (\<lambda>object_id. rbind dec_ident (\<lambda>lineage.
        rbind roffset (\<lambda>load_offset. rbind ru32 (\<lambda>load.
        rbind (rensure (1 \<le> load \<and> load \<le> MAX_LOAD) (error_at OutOfRange load_offset)) (\<lambda>_.
        rbind dec_meta_list (\<lambda>ms. rbind dec_content (\<lambda>c.
        rret (Payload_TextUpdate object_id lineage load ms c))))))))
      else rfail (error_at UnknownValue kind_offset))"

definition dec_payload :: "payload decoder" where
  "dec_payload = rbind (rtag Tag_Payload) (\<lambda>_. rbind dec_ident (\<lambda>rid.
     rbind roffset (\<lambda>kind_offset. rbind ru8 (\<lambda>k. rbind (dec_payload_kind kind_offset k) (\<lambda>kind.
     rret \<lparr>pay_rid = rid, pay_kind = kind\<rparr>)))))"

fun wf_payload_kind :: "payload_kind \<Rightarrow> bool" where
  "wf_payload_kind (Payload_File object_id path revision c org) \<longleftrightarrow> wf_str STR_MAX object_id
     \<and> wf_path path \<and> wf_content c \<and> wf_option wf_origin org"
| "wf_payload_kind (Payload_Delete object_id revision reason target) \<longleftrightarrow> wf_str STR_MAX object_id
     \<and> wf_option wf_origin target"
| "wf_payload_kind (Payload_TextSnapshot object_id revision lineage ms c org) \<longleftrightarrow>
     wf_str STR_MAX object_id \<and> wf_ident lineage \<and> wf_meta_list ms \<and> wf_content c \<and> wf_option wf_origin org"
| "wf_payload_kind (Payload_TextUpdate object_id lineage load ms c) \<longleftrightarrow> wf_str STR_MAX object_id
     \<and> wf_ident lineage \<and> 1 \<le> load \<and> load \<le> MAX_LOAD \<and> wf_meta_list ms \<and> wf_content c"

definition wf_payload :: "payload \<Rightarrow> bool" where
  "wf_payload p \<longleftrightarrow> wf_ident (pay_rid p) \<and> wf_payload_kind (pay_kind p)"

definition payload_MIN_SIZE :: nat where
  "payload_MIN_SIZE = encoded_len Tag_Payload + 16 + 1 + 2 + 32 + 1 + 1"

lemmas payload_decodes = decodes_bind [OF wire.decodes_enc [OF text_wire]] decodes_bind [OF path.decodes_enc]
  decodes_bind [OF content.decodes_enc] decodes_bind [OF delete_reason.decodes_enc]
  decodes_bind [OF meta_list.decodes_enc] decodes_last [OF content.decodes_enc]
  decodes_last [OF wire.decodes_enc [OF opt_origin_wire]]

lemmas payload_accepts = accepts_bind [OF wire.accepts_dec [OF text_wire]] accepts_bind [OF path.accepts_dec]
  accepts_bind [OF content.accepts_dec] accepts_bind [OF delete_reason.accepts_dec]
  accepts_bind [OF meta_list.accepts_dec] accepts_bind [OF wire.accepts_dec [OF opt_origin_wire]]

lemma decodes_payload_kind:
  assumes "wf_payload_kind k"
  shows "decodes (dec_payload_kind off (payload_code k)) (enc_payload_kind k) k"
  using assms
  by (cases k) (auto simp: dec_payload_kind_def intro!: payload_decodes field_decodes last_decodes)

lemma accepts_payload_kind:
  "accepts (dec_payload_kind off k) (\<lambda>x bs. wf_payload_kind x \<and> payload_code x = k \<and> bs = enc_payload_kind x)"
  unfolding dec_payload_kind_def
  by (intro accepts_if accepts_fail payload_accepts field_accepts) simp_all

text \<open>
  \<open>Payload::MIN_SIZE\<close> is not the length of the smallest encoding: a text update without an object
  id, meta entries or content takes five bytes less. No list holds payloads, so nothing reads it.
\<close>

definition payload_min :: nat where
  "payload_min = payload_MIN_SIZE - 5"

lemma length_payload_kind:
  assumes "wf_payload_kind k"
  shows "31 \<le> length (enc_payload_kind k)"
proof -
  have key: "2 \<le> length (w_str t)" if "wf_str STR_MAX t" for t
    using wire.min_size_le [OF text_wire that] .
  have org: "1 \<le> length (enc_option enc_origin t)" if "wf_option wf_origin t" for t
    using wire.min_size_le [OF opt_origin_wire that] .
  show ?thesis
    using assms content.min_size_le key org
    by (cases k) (fastforce simp: enc_delete_reason_def w_u8_def w_u32_def w_bytes_def encode_list_def)+
qed

interpretation payload: wire enc_payload dec_payload wf_payload payload_min
proof
  show "decodes dec_payload (enc_payload x) x" if "wf_payload x" for x
    using that unfolding dec_payload_def enc_payload_def wf_payload_def
    by (intro field_decodes decodes_last [OF decodes_payload_kind] last_decodes) simp_all
  show "accepts dec_payload (\<lambda>x bs. wf_payload x \<and> bs = enc_payload x)"
    unfolding dec_payload_def
    by (intro field_accepts accepts_bind [OF accepts_payload_kind]) (auto simp: wf_payload_def enc_payload_def)
  show "payload_min \<le> length (enc_payload x)" if "wf_payload x" for x
    using that length_payload_kind [of "pay_kind x"]
    by (simp add: wf_payload_def enc_payload_def payload_min_def payload_MIN_SIZE_def w_u8_def)
qed

lemma payload_min_size_overstated:
  "\<exists>p. wf_payload p \<and> length (enc_payload p) < payload_MIN_SIZE"
proof -
  let ?p = "\<lparr>pay_rid = Ident 1, pay_kind = Payload_TextUpdate [] (Ident 1) 1 [] (Content_Inline [])\<rparr>"
  have "wf_payload ?p"
    by (simp add: wf_payload_def wf_str_def fits_u16_def wf_ident_def wf_meta_list_def wf_sorted_def
        wf_list_def rises_strictly_def wf_bytes_def fits_u32_def MAX_LOAD_def)
  moreover have "length (enc_payload ?p) < payload_MIN_SIZE"
    by (simp add: enc_payload_def payload_MIN_SIZE_def w_u8_def w_u16_def w_u32_def w_str_def w_bytes_def
        encode_list_def)
  ultimately show ?thesis by blast
qed

subsection \<open>Sealing and opening\<close>

datatype seal_error = Seal_TooLarge

datatype open_error =
    Open_Decrypt crypto_error | Open_Padding padding_error | Open_TooLarge | Open_Decode decode_error
  | Open_RidMismatch | Open_DeleteFlagMismatch | Open_ClassMismatch

definition seal_payload ::
  "crypto \<Rightarrow> operation \<Rightarrow> payload \<Rightarrow> secret_key \<Rightarrow> digest \<Rightarrow> nonce \<Rightarrow> seal_error + operation" where
  "seal_payload cr op1 p epoch_key epoch_record n =
     (let encoded = enc_payload p in
      if length encoded > MAX_PAYLOAD_LEN then Inl Seal_TooLarge
      else and_then (map_err (\<lambda>_. Seal_TooLarge) (pad encoded)) (\<lambda>padded.
        let op2 = op1\<lparr>op_nonce := n\<rparr>;
            key = derive_key cr OPERATION_KEY (secret_bytes epoch_key)
        in Inr (op2\<lparr>op_ciphertext := seal cr key n (operation_aad op2 epoch_record) padded\<rparr>)))"

definition open_payload ::
  "crypto \<Rightarrow> operation \<Rightarrow> secret_key \<Rightarrow> digest \<Rightarrow> op_class \<Rightarrow> open_error + payload" where
  "open_payload cr op1 epoch_key epoch_record class1 =
     (let key = derive_key cr OPERATION_KEY (secret_bytes epoch_key) in
      and_then (map_err Open_Decrypt
        (open_sealed cr key (op_nonce op1) (operation_aad op1 epoch_record) (op_ciphertext op1))) (\<lambda>padded.
      and_then (map_err Open_Padding (unpad padded)) (\<lambda>encoded.
      if length encoded > MAX_PAYLOAD_LEN then Inl Open_TooLarge
      else and_then (map_err Open_Decode (from_bytes dec_payload encoded)) (\<lambda>p.
        if pay_rid p \<noteq> op_rid op1 then Inl Open_RidMismatch
        else if payload_is_delete (pay_kind p) \<noteq> op_delete op1 then Inl Open_DeleteFlagMismatch
        else if payload_class (pay_kind p) \<noteq> class1 then Inl Open_ClassMismatch
        else Inr p))))"

definition operation_ciphertext_len :: "nat \<Rightarrow> u64" where
  "operation_ciphertext_len n = padded_length (of_nat n + 4) + of_nat AEAD_TAG_LEN"

lemma operation_prefix_update [simp]:
  "operation_prefix (x\<lparr>op_nonce := n\<rparr>) = operation_prefix x"
  "operation_prefix (x\<lparr>op_nonce := n, op_ciphertext := c\<rparr>) = operation_prefix x"
  by (simp_all add: operation_prefix_def)

text \<open>The limit on ciphertexts is the padded length of the largest payload with its tag.\<close>

lemma MAX_OPERATION_CIPHERTEXT_exact: "unat (operation_ciphertext_len MAX_PAYLOAD_LEN) = MAX_OPERATION_CIPHERTEXT"
proof -
  have bits: "bit_len 262148 = 19" "bit_len 18 = 5"
    using bit_len_unique [of 18 262148] bit_len_unique [of 4 18] by simp_all
  have "padded_nat 262148 = 270336"
    by (simp add: padded_nat_def padme_nat_def clear_bits_def bits round_up_def)
  then have "unat (padded_length 262148) = 270336"
    using unat_padded_length [of 262148] by simp
  then have "padded_length 262148 = 270336" by (intro word_eqI_unat) simp
  then show ?thesis
    by (simp add: operation_ciphertext_len_def MAX_PAYLOAD_LEN_def MAX_OPERATION_CIPHERTEXT_def AEAD_TAG_LEN_def)
qed

text \<open>
  C24. A payload that fits seals into its operation without touching the cleartext header, to a
  ciphertext of exactly the length the padding prescribes and within the record's limit; opening
  it under the same key and epoch record returns exactly that payload when the server's class
  agrees, and reports the class mismatch when it does not. The one hypothesis on the primitives is
  the AEAD's documented round trip.
\<close>

theorem sealed_payload_opens:
  assumes "aead_law cr" and "wf_payload p" and "length (enc_payload p) \<le> MAX_PAYLOAD_LEN"
    and "pay_rid p = op_rid op1" and "payload_is_delete (pay_kind p) = op_delete op1"
  shows "\<exists>op2. seal_payload cr op1 p k epoch_record n = Inr op2
    \<and> operation_prefix op2 = operation_prefix op1
    \<and> length (op_ciphertext op2) = unat (operation_ciphertext_len (length (enc_payload p)))
    \<and> length (op_ciphertext op2) \<le> MAX_OPERATION_CIPHERTEXT
    \<and> open_payload cr op2 k epoch_record class1 =
        (if class1 = payload_class (pay_kind p) then Inr p else Inl Open_ClassMismatch)"
proof -
  let ?e = "enc_payload p" and ?len = "\<lambda>m. unat (padded_length (of_nat (m + 4)))"
  have fits: "length ?e < 2 ^ 32" using assms(3) by (simp add: MAX_PAYLOAD_LEN_def)
  then obtain padded where padded: "pad ?e = Inr padded" "unpad padded = Inr ?e" "length padded = ?len (length ?e)"
    using pad_unpad [of ?e] by auto
  have max: "?len (length ?e) \<le> ?len MAX_PAYLOAD_LEN"
    using assms(3) by (intro padded_length_mono) (simp_all add: MAX_PAYLOAD_LEN_def)
  have "unat (operation_ciphertext_len m) = ?len m + AEAD_TAG_LEN" if "m \<le> MAX_PAYLOAD_LEN" for m
  proof -
    have "?len m \<le> ?len MAX_PAYLOAD_LEN"
      using that by (intro padded_length_mono) (simp_all add: MAX_PAYLOAD_LEN_def)
    also have "\<dots> < 2 ^ 63"
    proof -
      have "unat (padded_length 262148) \<le> 2 ^ 62"
        using unat_padded_length [of 262148] padme_nat_le_power [of 262148]
          bit_len_unique [of 18 262148] by (simp add: padded_nat_def)
      then show ?thesis by (simp add: MAX_PAYLOAD_LEN_def)
    qed
    finally show ?thesis
      by (simp add: operation_ciphertext_len_def AEAD_TAG_LEN_def unat_word_ariths)
  qed
  note len = this
  let ?op = "op1\<lparr>op_nonce := n\<rparr>"
  let ?key = "derive_key cr OPERATION_KEY (secret_bytes k)"
  let ?c = "seal cr ?key n (operation_aad ?op epoch_record) padded"
  let ?op2 = "?op\<lparr>op_ciphertext := ?c\<rparr>"
  have "seal_payload cr op1 p k epoch_record n = Inr ?op2"
    using assms(3) padded(1) by (simp add: seal_payload_def Let_def)
  moreover have "operation_prefix ?op2 = operation_prefix op1" by simp
  moreover have "length ?c = unat (operation_ciphertext_len (length ?e))"
    using assms(1) padded(3) len [OF assms(3)] by (simp add: seal_def aead_law_def)
  moreover have "\<dots> \<le> MAX_OPERATION_CIPHERTEXT"
    using max len [OF assms(3)] len [OF order_refl] MAX_OPERATION_CIPHERTEXT_exact by simp
  moreover have "open_payload cr ?op2 k epoch_record class1 =
      (if class1 = payload_class (pay_kind p) then Inr p else Inl Open_ClassMismatch)"
  proof -
    have "open_sealed cr ?key n (operation_aad ?op2 epoch_record) ?c = Inr padded"
      using assms(1) by (simp add: operation_aad_def open_sealed_def seal_def aead_law_def ok_or_def)
    then show ?thesis
      using assms(3-5) padded(2) payload.from_bytes_enc [OF assms(2)] by (simp add: open_payload_def Let_def)
  qed
  ultimately show ?thesis by (intro exI [of _ ?op2]) simp
qed

end
