(* ===== verification/Records_Checkpoint.thy ===== *)
theory Records_Checkpoint
  imports Records_Operation
begin

text \<open>
  Chain positions, checkpoints and checkpoint bundles (\<^verbatim>\<open>records/checkpoint.rs\<close>, \<section>17) and their
  encodings.
\<close>

record op_ref =
  ref_device :: ident
  ref_counter :: u64
  ref_seq :: u64
  ref_op_digest :: digest

definition enc_ref :: "op_ref \<Rightarrow> byte list" where
  "enc_ref r = ident_bytes (ref_device r) @ w_u64 (ref_counter r) @ w_u64 (ref_seq r)
     @ digest_bytes (ref_op_digest r)"

definition dec_ref :: "op_ref decoder" where
  "dec_ref = rbind dec_ident (\<lambda>device. rbind ru64 (\<lambda>counter. rbind ru64 (\<lambda>seqno. rbind dec_digest (\<lambda>d.
     rret \<lparr>ref_device = device, ref_counter = counter, ref_seq = seqno, ref_op_digest = d\<rparr>))))"

definition wf_ref :: "op_ref \<Rightarrow> bool" where
  "wf_ref r \<longleftrightarrow> wf_ident (ref_device r)"

interpretation op_ref: wire enc_ref dec_ref wf_ref 64
proof
  show "decodes dec_ref (enc_ref x) x" if "wf_ref x" for x
    using that unfolding dec_ref_def enc_ref_def wf_ref_def by (intro field_decodes last_decodes) simp_all
  show "accepts dec_ref (\<lambda>x bs. wf_ref x \<and> bs = enc_ref x)"
    unfolding dec_ref_def by (intro field_accepts) (simp add: wf_ref_def enc_ref_def)
qed (simp add: enc_ref_def w_u64_def)

definition ref_by_device :: "op_ref \<Rightarrow> byte list" where
  "ref_by_device r = ident_bytes (ref_device r)"

definition ref_by_device_counter :: "op_ref \<Rightarrow> byte list" where
  "ref_by_device_counter r = ident_bytes (ref_device r) @ word_bytes 8 (ref_counter r)"

subsection \<open>Checkpoints\<close>

record checkpoint =
  cp_workspace :: ident
  cp_domain :: ident
  cp_previous :: digest
  cp_number :: u64
  cp_skip :: digest
  cp_covered_seq :: u64
  cp_floor :: u64
  cp_policy_revision :: u64
  cp_policy_head :: digest
  cp_live_objects :: u64
  cp_manifest_root :: digest
  cp_heads_digest :: digest
  cp_epoch :: u64
  cp_epoch_record :: digest
  cp_signer :: ident

definition enc_checkpoint :: "checkpoint \<Rightarrow> byte list" where
  "enc_checkpoint c = tag_bytes Tag_Checkpoint @ ident_bytes (cp_workspace c) @ ident_bytes (cp_domain c)
     @ digest_bytes (cp_previous c) @ w_u64 (cp_number c) @ digest_bytes (cp_skip c)
     @ w_u64 (cp_covered_seq c) @ w_u64 (cp_floor c) @ w_u64 (cp_policy_revision c)
     @ digest_bytes (cp_policy_head c) @ w_u64 (cp_live_objects c) @ digest_bytes (cp_manifest_root c)
     @ digest_bytes (cp_heads_digest c) @ w_u64 (cp_epoch c) @ digest_bytes (cp_epoch_record c)
     @ ident_bytes (cp_signer c)"

definition dec_checkpoint :: "checkpoint decoder" where
  "dec_checkpoint =
     rbind (rtag Tag_Checkpoint) (\<lambda>_. rbind dec_ident (\<lambda>workspace. rbind dec_ident (\<lambda>d.
     rbind dec_digest (\<lambda>previous. rbind roffset (\<lambda>number_offset. rbind ru64 (\<lambda>number.
     rbind (rensure (number \<noteq> 0) (error_at OutOfRange number_offset)) (\<lambda>_.
     rbind dec_digest (\<lambda>skip. rbind ru64 (\<lambda>covered_seq. rbind ru64 (\<lambda>floor. rbind ru64 (\<lambda>policy_revision.
     rbind dec_digest (\<lambda>policy_head. rbind ru64 (\<lambda>live_objects. rbind dec_digest (\<lambda>manifest_root.
     rbind dec_digest (\<lambda>heads_digest. rbind ru64 (\<lambda>number_epoch. rbind dec_digest (\<lambda>epoch_record.
     rbind dec_ident (\<lambda>signer.
     rret \<lparr>cp_workspace = workspace, cp_domain = d, cp_previous = previous, cp_number = number,
       cp_skip = skip, cp_covered_seq = covered_seq, cp_floor = floor,
       cp_policy_revision = policy_revision, cp_policy_head = policy_head,
       cp_live_objects = live_objects, cp_manifest_root = manifest_root,
       cp_heads_digest = heads_digest, cp_epoch = number_epoch, cp_epoch_record = epoch_record,
       cp_signer = signer\<rparr>))))))))))))))))))"

definition checkpoint_MIN_SIZE :: nat where
  "checkpoint_MIN_SIZE = encoded_len Tag_Checkpoint + 16 + 16 + 32 + 8 + 32 + 8 * 4 + 32 * 3 + 8 + 32 + 16"

definition wf_checkpoint :: "checkpoint \<Rightarrow> bool" where
  "wf_checkpoint c \<longleftrightarrow> wf_ident (cp_workspace c) \<and> wf_ident (cp_domain c) \<and> cp_number c \<noteq> 0
     \<and> wf_ident (cp_signer c)"

interpretation checkpoint: wire enc_checkpoint dec_checkpoint wf_checkpoint checkpoint_MIN_SIZE
proof
  show "decodes dec_checkpoint (enc_checkpoint x) x" if "wf_checkpoint x" for x
    using that unfolding dec_checkpoint_def enc_checkpoint_def wf_checkpoint_def
    by (intro field_decodes last_decodes) simp_all
  show "accepts dec_checkpoint (\<lambda>x bs. wf_checkpoint x \<and> bs = enc_checkpoint x)"
    unfolding dec_checkpoint_def by (intro field_accepts) (auto simp: wf_checkpoint_def enc_checkpoint_def)
qed (simp add: enc_checkpoint_def checkpoint_MIN_SIZE_def w_u64_def)

lemmas signed_checkpoint_wire = wire_signed [OF checkpoint.wire_axioms]

abbreviation signed_checkpoint_digest :: "crypto \<Rightarrow> checkpoint signed \<Rightarrow> digest" where
  "signed_checkpoint_digest cr \<equiv> signed_digest cr enc_checkpoint"

definition dec_ref_heads :: "op_ref list decoder" where
  "dec_ref_heads = dec_sorted ref_by_device UNBOUNDED 64 dec_ref"

definition wf_ref_heads :: "op_ref list \<Rightarrow> bool" where
  "wf_ref_heads hs \<longleftrightarrow> wf_sorted ref_by_device UNBOUNDED wf_ref hs"

interpretation ref_heads: wire "encode_list enc_ref" dec_ref_heads wf_ref_heads 4
  unfolding dec_ref_heads_def wf_ref_heads_def [abs_def]
  using wire_sorted [OF op_ref.wire_axioms, of ref_by_device UNBOUNDED] by simp

record checkpoint_bundle =
  cb_checkpoint :: "checkpoint signed"
  cb_heads :: "op_ref list"

definition enc_checkpoint_bundle :: "checkpoint_bundle \<Rightarrow> byte list" where
  "enc_checkpoint_bundle b = enc_nested (enc_signed enc_checkpoint) (cb_checkpoint b)
     @ encode_list enc_ref (cb_heads b)"

definition dec_checkpoint_bundle :: "checkpoint_bundle decoder" where
  "dec_checkpoint_bundle = rbind (dec_nested (dec_signed dec_checkpoint)) (\<lambda>c. rbind dec_ref_heads (\<lambda>hs.
     rret \<lparr>cb_checkpoint = c, cb_heads = hs\<rparr>))"

definition wf_checkpoint_bundle :: "checkpoint_bundle \<Rightarrow> bool" where
  "wf_checkpoint_bundle b \<longleftrightarrow> wf_nested (enc_signed enc_checkpoint) (wf_signed wf_checkpoint) (cb_checkpoint b)
     \<and> wf_ref_heads (cb_heads b)"

lemmas checkpoint_nested_wire = wire_nested [OF signed_checkpoint_wire]

interpretation checkpoint_bundle: wire enc_checkpoint_bundle dec_checkpoint_bundle wf_checkpoint_bundle 8
proof
  show "decodes dec_checkpoint_bundle (enc_checkpoint_bundle x) x" if "wf_checkpoint_bundle x" for x
    using that unfolding dec_checkpoint_bundle_def enc_checkpoint_bundle_def wf_checkpoint_bundle_def
    by (intro decodes_bind [OF wire.decodes_enc [OF checkpoint_nested_wire]]
        decodes_last [OF ref_heads.decodes_enc] last_decodes) simp_all
  show "accepts dec_checkpoint_bundle (\<lambda>x bs. wf_checkpoint_bundle x \<and> bs = enc_checkpoint_bundle x)"
    unfolding dec_checkpoint_bundle_def
    by (intro accepts_bind [OF wire.accepts_dec [OF checkpoint_nested_wire]]
        accepts_bind [OF ref_heads.accepts_dec] accepts_ret)
      (simp add: wf_checkpoint_bundle_def enc_checkpoint_bundle_def)
qed (simp add: enc_checkpoint_bundle_def enc_nested_def w_bytes_def encode_list_def w_u32_def)

end
