(* ===== verification/Chain.thy ===== *)
theory Chain
  imports Records_Checkpoint BTree
begin

text \<open>
  The chain verifier (\<^verbatim>\<open>chain.rs\<close>, \<section>14): per device, the head and the positions above the latest
  accepted checkpoint, and how a client tells dropped, reordered, replayed and forked records apart.
\<close>

subsection \<open>Records, errors and verdicts\<close>

record chain_record =
  cr_device :: ident
  cr_counter :: u64
  cr_previous :: digest
  cr_previous_attempt :: digest
  cr_digest :: digest
  cr_seq :: u64

definition chain_record_of :: "crypto \<Rightarrow> operation signed \<Rightarrow> u64 \<Rightarrow> chain_record" where
  "chain_record_of cr op1 seqno = \<lparr>cr_device = op_device (body op1), cr_counter = op_counter (body op1),
     cr_previous = op_previous (body op1), cr_previous_attempt = op_previous_attempt (body op1),
     cr_digest = signed_operation_digest cr op1, cr_seq = seqno\<rparr>"

datatype chain_error = Chain_Gap | Chain_Reordered | Chain_Replayed | Chain_Forked | Chain_Pruned

fun chain_client_code :: "chain_error \<Rightarrow> string" where
  "chain_client_code Chain_Gap = ''sync_chain_gap''"
| "chain_client_code Chain_Reordered = ''sync_chain_reordered''"
| "chain_client_code Chain_Replayed = ''sync_chain_replayed''"
| "chain_client_code Chain_Forked = ''sync_chain_forked''"
| "chain_client_code Chain_Pruned = ''pruned''"

datatype chain_verdict = Chain_Accept | Chain_Ignore | Chain_Replace digest

datatype fetched = Fetched_Record chain_record | Fetched_NotFound | Fetched_Pruned

text \<open>A fetcher answers from its own state, which it may change.\<close>

type_synonym 'f fetcher = "'f \<Rightarrow> ident \<Rightarrow> u64 \<Rightarrow> fetched \<times> 'f"

definition no_fetch :: "unit fetcher" where
  "no_fetch = (\<lambda>f _ _. (Fetched_NotFound, f))"

record reverted =
  rv_counter :: u64
  rv_digest :: digest
  rv_seq :: u64

record chain_pos =
  hd_counter :: u64
  hd_digest :: digest
  hd_seq :: u64

definition NONE_head :: chain_pos where
  "NONE_head = \<lparr>hd_counter = 0, hd_digest = ZERO_digest, hd_seq = 0\<rparr>"

subsection \<open>The verifier's state\<close>

record attempt =
  at_previous_attempt :: digest
  at_seq :: u64

record position =
  pos_applied :: digest
  pos_attempts :: "(digest, attempt) btree"

definition position_seq :: "position \<Rightarrow> u64" where
  "position_seq p = (case bt_get (pos_attempts p) (pos_applied p) of None \<Rightarrow> 0 | Some a \<Rightarrow> at_seq a)"

record device_chain =
  dc_head :: "chain_pos option"
  dc_positions :: "(u64, position) btree"
  dc_ignored :: "(digest, u64) btree"

definition default_chain :: device_chain where
  "default_chain = \<lparr>dc_head = None, dc_positions = bt_empty, dc_ignored = bt_empty\<rparr>"

record chain_verifier =
  cv_devices :: "(ident, device_chain) btree"

definition new_verifier :: chain_verifier where
  "new_verifier = \<lparr>cv_devices = bt_empty\<rparr>"

definition device_entry :: "chain_verifier \<Rightarrow> ident \<Rightarrow> device_chain" where
  "device_entry v device = (case bt_get (cv_devices v) device of None \<Rightarrow> default_chain | Some c \<Rightarrow> c)"

definition put_chain :: "ident \<Rightarrow> device_chain \<Rightarrow> chain_verifier \<Rightarrow> chain_verifier" where
  "put_chain device c v = v\<lparr>cv_devices := bt_insert device c (cv_devices v)\<rparr>"

definition verifier_from_heads :: "op_ref list \<Rightarrow> chain_verifier" where
  "verifier_from_heads heads = fold (\<lambda>h. put_chain (ref_device h)
     \<lparr>dc_head = Some \<lparr>hd_counter = ref_counter h, hd_digest = ref_op_digest h, hd_seq = ref_seq h\<rparr>,
       dc_positions = bt_empty, dc_ignored = bt_empty\<rparr>) heads new_verifier"

definition device_head :: "chain_verifier \<Rightarrow> ident \<Rightarrow> chain_pos" where
  "device_head v device = (case bt_get (cv_devices v) device of None \<Rightarrow> NONE_head
     | Some c \<Rightarrow> (case dc_head c of None \<Rightarrow> NONE_head | Some h \<Rightarrow> h))"

definition forget_chain :: "u64 \<Rightarrow> device_chain \<Rightarrow> device_chain" where
  "forget_chain covered_seq c =
     (let below = map_option fst (find (\<lambda>(_, p). position_seq p \<le> covered_seq) (rev (bt_entries (dc_positions c))))
      in c\<lparr>dc_positions := bt_filter (\<lambda>counter p. position_seq p > covered_seq \<or> Some counter = below)
             (dc_positions c),
           dc_ignored := bt_filter (\<lambda>_ seqno. seqno > covered_seq) (dc_ignored c)\<rparr>)"

definition forget_below :: "u64 \<Rightarrow> chain_verifier \<Rightarrow> chain_verifier" where
  "forget_below covered_seq v = v\<lparr>cv_devices := bt_map (\<lambda>_. forget_chain covered_seq) (cv_devices v)\<rparr>"

definition retained :: "chain_verifier \<Rightarrow> nat" where
  "retained v = sum_list (map (\<lambda>c. bt_len (dc_positions c) + bt_len (dc_ignored c)) (bt_values (cv_devices v)))"

definition ignores :: "chain_verifier \<Rightarrow> ident \<Rightarrow> digest \<Rightarrow> bool" where
  "ignores v device d = (case bt_get (cv_devices v) device of None \<Rightarrow> False
     | Some c \<Rightarrow> bt_contains (dc_ignored c) d)"

definition restore :: "ident \<Rightarrow> device_chain option \<Rightarrow> chain_verifier \<Rightarrow> chain_verifier" where
  "restore device saved v = (case saved of Some c \<Rightarrow> put_chain device c v
     | None \<Rightarrow> v\<lparr>cv_devices := bt_remove device (cv_devices v)\<rparr>)"

subsection \<open>Judging a record\<close>

type_synonym carried = "(ident \<times> u64 \<times> digest, digest) btree"

definition accept_record :: "chain_record \<Rightarrow> chain_verifier \<Rightarrow> chain_verifier" where
  "accept_record r v =
     (let c = device_entry v (cr_device r);
          p = \<lparr>pos_applied = cr_digest r, pos_attempts = bt_insert (cr_digest r)
            \<lparr>at_previous_attempt = cr_previous_attempt r, at_seq = cr_seq r\<rparr> bt_empty\<rparr>
      in put_chain (cr_device r) (c\<lparr>dc_positions := bt_insert (cr_counter r) p (dc_positions c),
           dc_head := Some \<lparr>hd_counter = cr_counter r, hd_digest = cr_digest r, hd_seq = cr_seq r\<rparr>\<rparr>) v)"

lemma finite_digest: "finite (UNIV :: digest set)"
proof -
  have "(UNIV :: digest set) = range Digest" by (metis digest.exhaust surj_def)
  then show ?thesis by (metis finite finite_imageI)
qed

lemma finite_ident: "finite (UNIV :: ident set)"
proof -
  have "(UNIV :: ident set) = range Ident" by (metis ident.exhaust surj_def)
  then show ?thesis by (metis finite finite_imageI)
qed

lemma card_insert_less: "current \<notin> seen \<Longrightarrow> card (- insert (current :: digest) seen) < card (- seen)"
  by (intro psubset_card_mono finite_subset [OF subset_UNIV finite_digest]) auto

text \<open>
  The loop of \<open>reaches\<close>: along the previous attempts that \<open>lookup\<close> knows, from \<open>current\<close> to
  \<open>target\<close>. The set of digests seen makes it end: there are \<open>2 ^ 256\<close> digests.
\<close>

function reaches :: "(digest \<Rightarrow> digest option) \<Rightarrow> digest \<Rightarrow> digest set \<Rightarrow> digest \<Rightarrow> bool" where
  "reaches lookup target seen current =
     (if digest_is_zero current \<or> current \<in> seen then False
      else if current = target then True
      else case lookup current of None \<Rightarrow> False
        | Some previous \<Rightarrow> reaches lookup target (insert current seen) previous)"
  by pat_completeness auto
termination
  by (relation "measure (\<lambda>(_, _, seen, _). card (- seen))") (auto simp: card_insert_less)

declare reaches.simps [simp del]

definition attempt_lookup :: "position \<Rightarrow> ident \<Rightarrow> u64 \<Rightarrow> carried \<Rightarrow> digest \<Rightarrow> digest option" where
  "attempt_lookup p device counter carried d =
     (case bt_get (pos_attempts p) d of Some a \<Rightarrow> Some (at_previous_attempt a)
      | None \<Rightarrow> bt_get carried (device, counter, d))"

definition rule_one ::
  "chain_record \<Rightarrow> chain_pos \<Rightarrow> carried \<Rightarrow> chain_verifier \<Rightarrow> (chain_error + chain_verdict) \<times> chain_verifier"
where
  "rule_one r h carried v =
     (let c = device_entry v (cr_device r); v = put_chain (cr_device r) c v in
      case bt_get (dc_positions c) (cr_counter r) of
        None \<Rightarrow> (if cr_seq r > hd_seq h then (Inl Chain_Replayed, v) else (Inr Chain_Ignore, v))
      | Some p \<Rightarrow>
        (case bt_get (pos_attempts p) (cr_digest r) of
           Some known \<Rightarrow> (if at_seq known = cr_seq r then (Inr Chain_Ignore, v) else (Inl Chain_Replayed, v))
         | None \<Rightarrow>
           let lookup = attempt_lookup p (cr_device r) (cr_counter r) carried;
               shares_previous = (\<not> digest_is_zero (cr_previous_attempt r)
                 \<and> list_ex (\<lambda>a. at_previous_attempt a = cr_previous_attempt r) (bt_values (pos_attempts p)));
               applied = pos_applied p;
               applied_previous = at_previous_attempt (the (bt_get (pos_attempts p) applied));
               p' = p\<lparr>pos_attempts := bt_insert (cr_digest r)
                 \<lparr>at_previous_attempt = cr_previous_attempt r, at_seq = cr_seq r\<rparr> (pos_attempts p)\<rparr>
           in if shares_previous then (Inl Chain_Forked, v)
              else if reaches lookup applied {} (cr_previous_attempt r)
              then if cr_counter r \<noteq> hd_counter h then (Inl Chain_Forked, v)
                else (Inr (Chain_Replace applied), put_chain (cr_device r)
                  (c\<lparr>dc_positions := bt_insert (cr_counter r) (p'\<lparr>pos_applied := cr_digest r\<rparr>) (dc_positions c),
                     dc_head := Some \<lparr>hd_counter = cr_counter r, hd_digest = cr_digest r, hd_seq = cr_seq r\<rparr>\<rparr>) v)
              else if reaches lookup (cr_digest r) {} applied_previous
              then (Inr Chain_Ignore, put_chain (cr_device r)
                (c\<lparr>dc_positions := bt_insert (cr_counter r) p' (dc_positions c)\<rparr>) v)
              else (Inl Chain_Forked, v)))"

text \<open>A digest that the position at \<open>counter\<close> of \<open>device\<close> holds an attempt with.\<close>

definition attempted :: "chain_verifier \<Rightarrow> u64 \<Rightarrow> (ident \<times> digest) set" where
  "attempted v counter = {(device, d). \<exists>p. bt_get (dc_positions (device_entry v device)) counter = Some p
     \<and> bt_contains (pos_attempts p) d}"

lemma device_entry_put [simp]: "device_entry (put_chain device c v) d = (if d = device then c else device_entry v d)"
  by (simp add: device_entry_def put_chain_def)

lemma device_head_put [simp]: "device_head (put_chain device c v) d =
    (if d = device then (case dc_head c of None \<Rightarrow> NONE_head | Some h \<Rightarrow> h) else device_head v d)"
  by (simp add: device_head_def put_chain_def)

lemma rule_one_Replace:
  assumes "rule_one x h carried v = (Inr (Chain_Replace g), v')"
  shows "cr_counter x = hd_counter h"
    and "device_head v' d = (if d = cr_device x
      then \<lparr>hd_counter = cr_counter x, hd_digest = cr_digest x, hd_seq = cr_seq x\<rparr> else device_head v d)"
    and "attempted v' (cr_counter x) = insert (cr_device x, cr_digest x) (attempted v (cr_counter x))"
    and "(cr_device x, cr_digest x) \<notin> attempted v (cr_counter x)"
  using assms
  by (auto simp: rule_one_def Let_def attempted_def domIff split: option.splits if_splits)

definition later_attempt ::
  "'f fetcher \<Rightarrow> chain_record \<Rightarrow> chain_pos \<Rightarrow> 'f \<Rightarrow> chain_record option \<times> 'f" where
  "later_attempt fetch r h f =
     (if hd_counter h = 0 then (None, f)
      else (case fetch f (cr_device r) (hd_counter h) of
        (Fetched_Record x, f') \<Rightarrow>
          (if cr_counter x = hd_counter h \<and> cr_digest x \<noteq> hd_digest h then Some x else None, f')
      | (_, f') \<Rightarrow> (None, f')))"

definition explain_break :: "'f fetcher \<Rightarrow> chain_record \<Rightarrow> chain_pos \<Rightarrow> 'f \<Rightarrow> chain_error \<times> 'f" where
  "explain_break fetch r h f =
     (case fetch f (cr_device r) (hd_counter h + 1) of
        (Fetched_Pruned, f') \<Rightarrow> (Chain_Pruned, f')
      | (Fetched_NotFound, f') \<Rightarrow> (Chain_Gap, f')
      | (Fetched_Record x, f') \<Rightarrow>
          (if cr_digest x = cr_digest r \<or> cr_counter x \<le> hd_counter h \<or> cr_counter x > cr_counter r then Chain_Gap
           else if cr_previous x \<noteq> hd_digest h \<or> cr_counter x = cr_counter r then Chain_Forked
           else if cr_seq x > cr_seq r then Chain_Reordered
           else Chain_Gap, f'))"

function process ::
  "'f fetcher \<Rightarrow> carried \<Rightarrow> chain_record \<Rightarrow> chain_verifier \<Rightarrow> 'f
   \<Rightarrow> (chain_error + chain_verdict) \<times> chain_verifier \<times> 'f" where
  "process fetch carried r v f =
     (if ignores v (cr_device r) (cr_digest r) then (Inr Chain_Ignore, v, f)
      else if cr_counter r \<le> hd_counter (device_head v (cr_device r))
      then (case rule_one r (device_head v (cr_device r)) carried v of (res, v') \<Rightarrow> (res, v', f))
      else if cr_previous r = hd_digest (device_head v (cr_device r))
      then (Inr Chain_Accept, accept_record r v, f)
      else (case later_attempt fetch r (device_head v (cr_device r)) f of
        (None, f') \<Rightarrow> (case explain_break fetch r (device_head v (cr_device r)) f' of (e, f'') \<Rightarrow> (Inl e, v, f''))
      | (Some x, f') \<Rightarrow>
          let saved = bt_get (cv_devices v) (cr_device r) in
          (case rule_one x (device_head v (cr_device r)) carried v of
             (Inr (Chain_Replace g), v') \<Rightarrow>
               if cr_seq x < cr_seq r then process fetch carried r v' f'
               else (Inl Chain_Reordered, restore (cr_device r) saved v', f')
           | (_, v') \<Rightarrow> (case explain_break fetch r (device_head v (cr_device r)) f' of
               (e, f'') \<Rightarrow> (Inl e, restore (cr_device r) saved v', f'')))))"
  by pat_completeness auto

definition unattempted :: "chain_record \<Rightarrow> chain_verifier \<Rightarrow> nat" where
  "unattempted r v = card (- attempted v (hd_counter (device_head v (cr_device r))))"

lemma later_attempt_Some:
  "later_attempt fetch r h f = (Some x, f') \<Longrightarrow> cr_counter x = hd_counter h \<and> cr_digest x \<noteq> hd_digest h"
  by (auto simp: later_attempt_def split: if_splits prod.splits fetched.splits)

lemma unattempted_less:
  assumes "rule_one x (device_head v (cr_device r)) carried v = (Inr (Chain_Replace g), v')"
  shows "unattempted r v' < unattempted r v"
proof -
  note rule = rule_one_Replace [OF assms]
  have "finite (UNIV :: (ident \<times> digest) set)"
    using finite_ident finite_digest by (simp add: finite_prod)
  moreover have "hd_counter (device_head v' (cr_device r)) = cr_counter x"
    unfolding rule(2) using rule(1) by auto
  ultimately show ?thesis
    using rule(1,3,4) unfolding unattempted_def
    by (intro psubset_card_mono) (auto intro: finite_subset)
qed

termination process
  by (relation "measure (\<lambda>(_, _, r, v, _). unattempted r v)") (auto dest: unattempted_less [OF sym])

declare process.simps [simp del]

definition carried_of :: "chain_record list \<Rightarrow> carried" where
  "carried_of page = bt_collect (map (\<lambda>r. ((cr_device r, cr_counter r, cr_digest r), cr_previous_attempt r)) page)"

text \<open>The records of a page, in order, up to the first error.\<close>

fun process_from ::
  "'f fetcher \<Rightarrow> carried \<Rightarrow> nat \<Rightarrow> chain_record list \<Rightarrow> chain_verifier \<Rightarrow> 'f
   \<Rightarrow> ((nat \<times> chain_error) + chain_verdict list) \<times> chain_verifier \<times> 'f" where
  "process_from fetch carried i [] v f = (Inr [], v, f)"
| "process_from fetch carried i (r # rs) v f =
     (case process fetch carried r v f of
        (Inl e, v', f') \<Rightarrow> (Inl (i, e), v', f')
      | (Inr verdict, v', f') \<Rightarrow>
          (case process_from fetch carried (Suc i) rs v' f' of
             (Inl e, v'', f'') \<Rightarrow> (Inl e, v'', f'')
           | (Inr verdicts, v'', f'') \<Rightarrow> (Inr (verdict # verdicts), v'', f'')))"

definition process_page ::
  "chain_record list \<Rightarrow> 'f fetcher \<Rightarrow> chain_verifier \<Rightarrow> 'f
   \<Rightarrow> ((nat \<times> chain_error) + chain_verdict list) \<times> chain_verifier \<times> 'f" where
  "process_page page fetch v f = process_from fetch (carried_of page) 0 page v f"

definition process_one ::
  "chain_record \<Rightarrow> 'f fetcher \<Rightarrow> chain_verifier \<Rightarrow> 'f \<Rightarrow> (chain_error + chain_verdict) \<times> chain_verifier \<times> 'f"
where
  "process_one r fetch v f = process fetch bt_empty r v f"

definition compare_checkpoint_head :: "chain_verifier \<Rightarrow> op_ref \<Rightarrow> string + unit" where
  "compare_checkpoint_head v h =
     (let own = device_head v (ref_device h) in
      if ref_counter h > hd_counter own then Inl ''sync_chain_gap''
      else if ref_counter h < hd_counter own then Inl ''sync_manifest_mismatch''
      else ensure (ref_op_digest h = hd_digest own) ''sync_manifest_mismatch'')"

subsection \<open>Settling a fork\<close>

text \<open>
  The closure \<open>attempts\<close>: along the previous attempts of the log's records, adding each to \<open>keep\<close>,
  and whether it reaches the client's head.
\<close>

function walk_attempts ::
  "digest \<Rightarrow> (digest, chain_record) btree \<Rightarrow> digest \<Rightarrow> digest set \<Rightarrow> bool \<times> digest set" where
  "walk_attempts h mine current keep =
     (if current = h \<and> \<not> digest_is_zero current then (True, keep)
      else case bt_get mine current of None \<Rightarrow> (False, keep)
      | Some r \<Rightarrow> if current \<in> keep then (False, keep)
          else walk_attempts h mine (cr_previous_attempt r) (insert current keep))"
  by pat_completeness auto
termination
  by (relation "measure (\<lambda>(_, _, _, keep). card (- keep))") (auto simp: card_insert_less)

declare walk_attempts.simps [simp del]

text \<open>
  The loop that follows the kept branch back: to the head (\<open>None\<close>), or to a record the client
  applied (its counter). It gives up after as many steps as the log has records of the device.
\<close>

function walk_branch ::
  "chain_pos \<Rightarrow> (digest, chain_record) btree \<Rightarrow> (digest, u64 \<times> u64) btree \<Rightarrow> nat \<Rightarrow> digest \<Rightarrow> digest set
   \<Rightarrow> chain_error + u64 option \<times> digest set" where
  "walk_branch h mine applied steps current keep =
     (if current = hd_digest h then Inr (None, keep)
      else case bt_get applied current of Some (counter, _) \<Rightarrow> Inr (Some counter, keep)
      | None \<Rightarrow>
          if Suc steps > bt_len mine then Inl Chain_Forked
          else (case bt_get mine current of None \<Rightarrow> Inl Chain_Forked
          | Some r \<Rightarrow>
              let (reached, keep1) = (if cr_counter r = hd_counter h
                then walk_attempts (hd_digest h) mine current keep else (False, keep))
              in if reached then Inr (None, keep1)
                 else walk_branch h mine applied (Suc steps) (cr_previous r)
                   (snd (walk_attempts (hd_digest h) mine current keep1))))"
  by pat_completeness auto
termination
  by (relation "measure (\<lambda>(_, mine, _, steps, _, _). bt_len mine - steps)") auto

declare walk_branch.simps [simp del]

definition revert_position ::
  "u64 \<Rightarrow> device_chain \<times> reverted list \<Rightarrow> device_chain \<times> reverted list" where
  "revert_position counter state =
     (case state of (c, rs) \<Rightarrow>
       (case bt_get (dc_positions c) counter of None \<Rightarrow> (c, rs)
        | Some p \<Rightarrow>
            (c\<lparr>dc_positions := bt_remove counter (dc_positions c),
               dc_ignored := fold (\<lambda>(d, a). bt_insert d (at_seq a)) (bt_entries (pos_attempts p)) (dc_ignored c)\<rparr>,
             rs @ [\<lparr>rv_counter = counter, rv_digest = pos_applied p, rv_seq = position_seq p\<rparr>])))"

definition applied_records :: "chain_verifier \<Rightarrow> ident \<Rightarrow> (digest, u64 \<times> u64) btree" where
  "applied_records v device = (case bt_get (cv_devices v) device of None \<Rightarrow> bt_empty
     | Some c \<Rightarrow> bt_collect (map (\<lambda>(counter, p). (pos_applied p, (counter, position_seq p)))
         (bt_entries (dc_positions c))))"

definition device_records :: "ident \<Rightarrow> chain_record list \<Rightarrow> (digest, chain_record) btree" where
  "device_records device records =
     bt_collect (map (\<lambda>r. (cr_digest r, r)) (filter (\<lambda>r. cr_device r = device) records))"

definition kept_known :: "op_ref \<Rightarrow> chain_pos \<Rightarrow> (digest, u64 \<times> u64) btree \<Rightarrow> (digest, chain_record) btree \<Rightarrow> bool" where
  "kept_known kept h applied mine =
     (let holds = (\<lambda>counter seqno. counter = ref_counter kept \<and> seqno = ref_seq kept) in
      if ref_op_digest kept = hd_digest h then holds (hd_counter h) (hd_seq h)
      else case bt_get applied (ref_op_digest kept) of Some (counter, seqno) \<Rightarrow> holds counter seqno
      | None \<Rightarrow> (case bt_get mine (ref_op_digest kept) of None \<Rightarrow> False
          | Some r \<Rightarrow> holds (cr_counter r) (cr_seq r)))"

definition ignore_others ::
  "(digest, chain_record) btree \<Rightarrow> digest set \<Rightarrow> device_chain \<Rightarrow> device_chain" where
  "ignore_others mine keep c = c\<lparr>dc_ignored := fold (\<lambda>(d, r) ig. if d \<in> keep then ig else bt_insert d (cr_seq r) ig)
     (bt_entries mine) (dc_ignored c)\<rparr>"

definition resolve_fork ::
  "op_ref \<Rightarrow> chain_record list \<Rightarrow> chain_verifier \<Rightarrow> (chain_error + reverted list) \<times> chain_verifier" where
  "resolve_fork kept records v =
     (let device = ref_device kept;
          h = device_head v device;
          mine = device_records device records;
          applied = applied_records v device
      in if \<not> kept_known kept h applied mine then (Inl Chain_Forked, v)
         else case walk_branch h mine applied 0 (ref_op_digest kept) {} of
           Inl e \<Rightarrow> (Inl e, v)
         | Inr (fork_point, keep) \<Rightarrow>
             let c = device_entry v device in
             (case fork_point of
                None \<Rightarrow> (Inr [], put_chain device (ignore_others mine keep c) v)
              | Some base \<Rightarrow>
                  (case bt_get (dc_positions c) base of
                     None \<Rightarrow> (Inl Chain_Forked, put_chain device c v)
                   | Some p \<Rightarrow>
                       let base_head = \<lparr>hd_counter = base, hd_digest = pos_applied p, hd_seq = position_seq p\<rparr>;
                           above = filter (\<lambda>counter. base + 1 \<le> counter) (bt_keys (dc_positions c));
                           (c, reverted) = fold revert_position above (c, [])
                       in (Inr reverted,
                           put_chain device (ignore_others mine keep (c\<lparr>dc_head := Some base_head\<rparr>)) v))))"

end
