(* ===== verification/Chain_Laws.thy ===== *)
theory Chain_Laws
  imports Chain
begin

text \<open>
  What the chain verifier lets through. The first part is about one device's honest history served
  by an arbitrary server, the second about an honest server's pages.
\<close>

subsection \<open>One step of the verifier\<close>

lemma device_entry_accept [simp]:
  "device_entry (accept_record r v) d = (if d = cr_device r then
     (device_entry v d)\<lparr>dc_positions := bt_insert (cr_counter r) \<lparr>pos_applied = cr_digest r,
         pos_attempts = bt_insert (cr_digest r) \<lparr>at_previous_attempt = cr_previous_attempt r, at_seq = cr_seq r\<rparr> bt_empty\<rparr>
         (dc_positions (device_entry v d)),
       dc_head := Some \<lparr>hd_counter = cr_counter r, hd_digest = cr_digest r, hd_seq = cr_seq r\<rparr>\<rparr>
     else device_entry v d)"
  by (simp add: accept_record_def Let_def)

lemma device_head_entry: "device_head v d = (case dc_head (device_entry v d) of None \<Rightarrow> NONE_head | Some h \<Rightarrow> h)"
  by (simp add: device_head_def device_entry_def default_chain_def split: option.splits)

lemma ignores_entry: "ignores v device d \<longleftrightarrow> bt_contains (dc_ignored (device_entry v device)) d"
  by (simp add: ignores_def device_entry_def default_chain_def domIff split: option.splits)

lemma rule_one_other:
  "rule_one x h carried v = (res, v') \<Longrightarrow> d \<noteq> cr_device x \<Longrightarrow> device_entry v' d = device_entry v d"
  by (auto simp: rule_one_def Let_def split: option.splits if_splits)

lemma restore_entry [simp]:
  "device_entry (restore d saved v) d' =
     (if d' = d then (case saved of None \<Rightarrow> default_chain | Some c \<Rightarrow> c) else device_entry v d')"
  by (auto simp: restore_def device_entry_def put_chain_def split: option.splits)

text \<open>A fetcher that answers with records of the device it was asked for.\<close>

definition own_records :: "'f fetcher \<Rightarrow> bool" where
  "own_records fetch \<longleftrightarrow> (\<forall>f d n x f'. fetch f d n = (Fetched_Record x, f') \<longrightarrow> cr_device x = d)"

lemma later_attempt_own:
  "own_records fetch \<Longrightarrow> later_attempt fetch r h f = (Some x, f') \<Longrightarrow> cr_device x = cr_device r"
  by (fastforce simp: later_attempt_def own_records_def split: if_splits prod.splits fetched.splits)

lemma process_other:
  assumes "own_records fetch" and "process fetch carried r v f = (res, v', f')" and "d \<noteq> cr_device r"
  shows "device_entry v' d = device_entry v d"
  using assms
proof (induction fetch carried r v f arbitrary: res v' f' rule: process.induct)
  case (1 fetch carried r v f)
  show ?case
    using 1(3) 1(2,4)
    by (subst (asm) process.simps)
      (auto simp: Let_def rule_one_other later_attempt_own dest: 1(1) split: if_splits prod.splits option.splits
        sum.splits chain_verdict.splits)
qed


subsection \<open>One device's history, served by anyone\<close>

text \<open>
  The records an honest device signs into one domain: at each position of its chain the attempts in the
  order in which it sealed them, one unless the server rejected it. Counters rise from 1; an attempt names the
  attempt before it at its position, and an attempt of the position before that.
\<close>

definition counter_at :: "operation signed list list \<Rightarrow> nat \<Rightarrow> u64" where
  "counter_at hist i = op_counter (body (hd (hist ! i)))"

definition device_history :: "crypto \<Rightarrow> ident \<Rightarrow> operation signed list list \<Rightarrow> bool" where
  "device_history cr device hist \<longleftrightarrow>
     (\<forall>i < length hist. hist ! i \<noteq> [] \<and> (\<forall>a < length (hist ! i).
         op_device (body (hist ! i ! a)) = device \<and> op_counter (body (hist ! i ! a)) = counter_at hist i
       \<and> op_previous_attempt (body (hist ! i ! a))
           = (if a = 0 then ZERO_digest else signed_operation_digest cr (hist ! i ! (a - 1)))
       \<and> op_previous (body (hist ! i ! a))
           \<in> (if i = 0 then {ZERO_digest} else signed_operation_digest cr ` set (hist ! (i - 1)))
       \<and> signed_operation_digest cr (hist ! i ! a) \<noteq> ZERO_digest))
     \<and> sorted_wrt (<) (0 # map (\<lambda>attempts. op_counter (body (hd attempts))) hist)"

text \<open>What the server may answer a fetch with: the chain fields of operations among \<open>S\<close>, signed or not.\<close>

definition fetches_from :: "crypto \<Rightarrow> operation signed set \<Rightarrow> 'f fetcher \<Rightarrow> bool" where
  "fetches_from cr S fetch \<longleftrightarrow> (\<forall>f d n x f'. fetch f d n = (Fetched_Record x, f') \<longrightarrow>
     (\<exists>op1 \<in> S. \<exists>s. x = chain_record_of cr op1 s \<and> op_device (body op1) = d))"

definition digests_collide :: "crypto \<Rightarrow> operation signed set \<Rightarrow> bool" where
  "digests_collide cr T \<longleftrightarrow> (\<exists>x \<in> T. \<exists>y \<in> T. collision (signed_operation_digest cr) x y)"

lemma digests_apart_eq:
  "\<not> digests_collide cr T \<Longrightarrow> x \<in> T \<Longrightarrow> y \<in> T \<Longrightarrow> signed_operation_digest cr x = signed_operation_digest cr y \<Longrightarrow> x = y"
  by (auto simp: digests_collide_def collision_def)

lemma chain_record_of_simps [simp]:
  "cr_device (chain_record_of cr op1 s) = op_device (body op1)"
  "cr_counter (chain_record_of cr op1 s) = op_counter (body op1)"
  "cr_previous (chain_record_of cr op1 s) = op_previous (body op1)"
  "cr_previous_attempt (chain_record_of cr op1 s) = op_previous_attempt (body op1)"
  "cr_digest (chain_record_of cr op1 s) = signed_operation_digest cr op1"
  "cr_seq (chain_record_of cr op1 s) = s"
  by (simp_all add: chain_record_of_def)

lemma historyD:
  assumes "device_history cr device hist" and "i < length hist" and "x \<in> set (hist ! i)"
  shows "op_device (body x) = device" and "op_counter (body x) = counter_at hist i"
    and "op_previous (body x) \<in> (if i = 0 then {ZERO_digest} else signed_operation_digest cr ` set (hist ! (i - 1)))"
    and "signed_operation_digest cr x \<noteq> ZERO_digest"
proof -
  obtain a where a: "a < length (hist ! i)" "x = hist ! i ! a" using assms(3) by (auto simp: in_set_conv_nth)
  have "op_device (body (hist ! i ! a)) = device \<and> op_counter (body (hist ! i ! a)) = counter_at hist i
      \<and> op_previous (body (hist ! i ! a)) \<in> (if i = 0 then {ZERO_digest} else signed_operation_digest cr ` set (hist ! (i - 1)))
      \<and> signed_operation_digest cr (hist ! i ! a) \<noteq> ZERO_digest"
    using assms(1,2) a(1) unfolding device_history_def by blast
  then show "op_device (body x) = device" "op_counter (body x) = counter_at hist i"
    "op_previous (body x) \<in> (if i = 0 then {ZERO_digest} else signed_operation_digest cr ` set (hist ! (i - 1)))"
    "signed_operation_digest cr x \<noteq> ZERO_digest"
    unfolding a(2) by blast+
qed

lemma history_attempt:
  assumes "device_history cr device hist" and "i < length hist" and "a < length (hist ! i)"
  shows "op_previous_attempt (body (hist ! i ! a)) = (if a = 0 then ZERO_digest else signed_operation_digest cr (hist ! i ! (a - 1)))"
  using assms unfolding device_history_def by blast

lemma history_counters:
  assumes "device_history cr device hist" and "i < length hist" and "j < length hist"
  shows "counter_at hist i < counter_at hist j \<longleftrightarrow> i < j" and "counter_at hist i = counter_at hist j \<longleftrightarrow> i = j"
    and "0 < counter_at hist i"
proof -
  let ?c = "\<lambda>attempts. op_counter (body (hd attempts))"
  have sorted: "sorted_wrt (<) (map ?c hist)" and pos: "\<forall>x \<in> set hist. 0 < ?c x"
    using assms(1) by (auto simp: device_history_def)
  have less: "counter_at hist i < counter_at hist j" if "i < j" "j < length hist" for i j
    using sorted_wrt_nth_less [OF sorted, of i j] that by (simp add: counter_at_def)
  show "counter_at hist i < counter_at hist j \<longleftrightarrow> i < j"
    using less [of i j] less [of j i] assms(2,3) by (metis linorder_neqE_nat not_less_iff_gr_or_eq)
  show "counter_at hist i = counter_at hist j \<longleftrightarrow> i = j"
    using less [of i j] less [of j i] assms(2,3) by (metis linorder_neqE_nat less_irrefl)
  show "0 < counter_at hist i" using pos assms(2) by (simp add: counter_at_def)
qed

subsection \<open>The attempts that a lookup leads back through\<close>

text \<open>The attempts that \<open>current\<close> leads back to, itself included: what \<open>reaches\<close> decides.\<close>

inductive leads_to :: "(digest \<Rightarrow> digest option) \<Rightarrow> digest \<Rightarrow> digest \<Rightarrow> bool" for lookup where
  leads_here: "\<not> digest_is_zero d \<Longrightarrow> leads_to lookup d d"
| leads_on: "\<not> digest_is_zero d \<Longrightarrow> lookup d = Some d' \<Longrightarrow> leads_to lookup d' target \<Longrightarrow> leads_to lookup d target"

lemma reaches_sound: "reaches lookup target seen current \<Longrightarrow> leads_to lookup current target"
proof (induction lookup target seen current rule: reaches.induct)
  case (1 lookup target seen current)
  then show ?case
    by (subst (asm) (2) reaches.simps) (auto intro: leads_here leads_on split: if_splits option.splits)
qed

text \<open>What a client knows of attempts is what operations of \<open>T\<close> name.\<close>

definition known_attempts :: "crypto \<Rightarrow> operation signed set \<Rightarrow> (digest \<Rightarrow> digest option) \<Rightarrow> bool" where
  "known_attempts cr T lookup \<longleftrightarrow> (\<forall>d previous. lookup d = Some previous \<longrightarrow>
     (\<exists>x \<in> T. d = signed_operation_digest cr x \<and> previous = op_previous_attempt (body x)))"

lemma earlier_attempt:
  assumes "device_history cr device hist" and "i < length hist" and "b < length (hist ! i)"
    and "\<not> digest_is_zero (op_previous_attempt (body (hist ! i ! b)))"
  shows "b \<noteq> 0" and "op_previous_attempt (body (hist ! i ! b)) = signed_operation_digest cr (hist ! i ! (b - 1))"
proof -
  have "digest_is_zero ZERO_digest" by (simp add: digest_is_zero_def ZERO_digest_def)
  then show "b \<noteq> 0" using history_attempt [OF assms(1-3)] assms(4) by (cases "b = 0") simp_all
  then show "op_previous_attempt (body (hist ! i ! b)) = signed_operation_digest cr (hist ! i ! (b - 1))"
    using history_attempt [OF assms(1-3)] by simp
qed

text \<open>From an attempt of the device only its earlier attempts at the position are reached.\<close>

lemma leads_back:
  assumes "leads_to lookup d target" and "known_attempts cr T lookup" and "\<not> digests_collide cr T"
    and "device_history cr device hist" and "i < length hist" and "set (hist ! i) \<subseteq> T"
    and "b < length (hist ! i)" and "d = op_previous_attempt (body (hist ! i ! b))"
  shows "\<exists>a < b. target = signed_operation_digest cr (hist ! i ! a)"
  using assms(1,7,8)
proof (induction arbitrary: b rule: leads_to.induct)
  case (leads_here d)
  then show ?case using earlier_attempt [OF assms(4,5), of b] by (intro exI [of _ "b - 1"]) simp
next
  case (leads_on d d' target)
  then have d: "d = signed_operation_digest cr (hist ! i ! (b - 1))" and b: "b - 1 < length (hist ! i)"
    using earlier_attempt [OF assms(4,5), of b] by simp_all
  obtain x where x: "x \<in> T" "d = signed_operation_digest cr x" "d' = op_previous_attempt (body x)"
    using assms(2) leads_on.hyps(2) unfolding known_attempts_def by blast
  have "hist ! i ! (b - 1) \<in> T" using assms(6) b by auto
  then have "x = hist ! i ! (b - 1)" using digests_apart_eq [OF assms(3) x(1)] x(2) d by metis
  then obtain a where "a < b - 1" "target = signed_operation_digest cr (hist ! i ! a)"
    using leads_on.IH [OF b] x(3) by auto
  then show ?case by (intro exI [of _ a]) simp
qed

subsection \<open>A client that applied a prefix\<close>

lemma attempts_listed: "i < length hist \<Longrightarrow> set (hist ! i) \<subseteq> set (concat hist)"
  by (auto intro!: bexI [of _ "hist ! i"])

text \<open>
  The state of a device with its first \<open>k\<close> positions: the head is an operation of \<open>T\<close> at the last of
  them, applied there, and every attempt known is of \<open>T\<close>.
\<close>

definition applied_first ::
  "crypto \<Rightarrow> operation signed set \<Rightarrow> operation signed list list \<Rightarrow> nat \<Rightarrow> operation signed option \<Rightarrow> device_chain \<Rightarrow> bool" where
  "applied_first cr T hist k at_head c \<longleftrightarrow> k \<le> length hist \<and> dc_ignored c = bt_empty
     \<and> (case at_head of None \<Rightarrow> k = 0 \<and> dc_head c = None
        | Some x \<Rightarrow> 0 < k \<and> x \<in> T \<and> op_counter (body x) = counter_at hist (k - 1)
            \<and> (\<exists>s. dc_head c = Some \<lparr>hd_counter = op_counter (body x), hd_digest = signed_operation_digest cr x, hd_seq = s\<rparr>)
            \<and> (\<exists>p. bt_get (dc_positions c) (op_counter (body x)) = Some p \<and> pos_applied p = signed_operation_digest cr x))
     \<and> (\<forall>n p. bt_get (dc_positions c) n = Some p \<longrightarrow>
          known_attempts cr T (\<lambda>d. map_option at_previous_attempt (bt_get (pos_attempts p) d)))"

text \<open>One rule on a record of the history at a position already applied.\<close>

lemma rule_attempt:
  assumes "device_history cr device hist" and "\<not> digests_collide cr T" and "set (concat hist) \<subseteq> T"
    and "known_attempts cr T (\<lambda>d. bt_get carried (device, counter_at hist j, d))"
    and "applied_first cr T hist k (Some y) (device_entry v device)" and "k - 1 = j \<longrightarrow> y \<in> set (hist ! j)"
    and r: "r = chain_record_of cr x s" "x \<in> set (hist ! j)" "j < k"
    and "rule_one r (device_head v device) carried v = (Inr verdict, v')"
  shows "verdict = Chain_Ignore \<and> applied_first cr T hist k (Some y) (device_entry v' device)
    \<or> (\<exists>a b. verdict = Chain_Replace (signed_operation_digest cr (hist ! j ! a)) \<and> j = k - 1 \<and> a < b \<and> b < length (hist ! j)
        \<and> x = hist ! j ! b \<and> applied_first cr T hist k (Some x) (device_entry v' device))"
proof -
  have j: "j < length hist" and k: "0 < k" "k \<le> length hist" "k - 1 < length hist" using assms(5) r(3) by (auto simp: applied_first_def)
  note of_x = historyD [OF assms(1) j r(2)]
  have T: "x \<in> T" "set (hist ! j) \<subseteq> T" using subset_trans [OF attempts_listed [OF j] assms(3)] r(2) by blast+
  have head: "hd_counter (device_head v device) = counter_at hist (k - 1)"
    using assms(5) by (auto simp: applied_first_def device_head_entry)
  show ?thesis
  proof (cases "bt_get (dc_positions (device_entry v device)) (cr_counter r)")
    case None
    then show ?thesis using assms(5,10) r(1) of_x by (auto simp: rule_one_def Let_def split: if_splits)
  next
    case (Some p)
    have known: "known_attempts cr T (attempt_lookup p device (counter_at hist j) carried)"
      using assms(4,5) Some unfolding applied_first_def known_attempts_def attempt_lookup_def
      by (fastforce split: option.splits)
    show ?thesis
    proof (cases "bt_get (pos_attempts p) (cr_digest r)")
      case (Some q)
      then show ?thesis using \<open>bt_get _ (cr_counter r) = Some p\<close> assms(5,10) r(1) of_x
        by (auto simp: rule_one_def Let_def split: if_splits)
    next
      case None
      let ?more = "p\<lparr>pos_attempts := bt_insert (cr_digest r) \<lparr>at_previous_attempt = cr_previous_attempt r, at_seq = cr_seq r\<rparr> (pos_attempts p)\<rparr>"
      have more_known: "known_attempts cr T (\<lambda>d. map_option at_previous_attempt (bt_get (pos_attempts ?more) d))"
        using assms(5) Some T(1) r(1) unfolding applied_first_def known_attempts_def by auto
      consider "verdict = Chain_Ignore" "device_entry v' device = (device_entry v device)\<lparr>dc_positions :=
            bt_insert (cr_counter r) ?more (dc_positions (device_entry v device))\<rparr>"
        | "verdict = Chain_Replace (pos_applied p)" "cr_counter r = counter_at hist (k - 1)"
            "reaches (attempt_lookup p device (counter_at hist j) carried) (pos_applied p) {} (cr_previous_attempt r)"
            "device_entry v' device = (device_entry v device)\<lparr>dc_positions :=
              bt_insert (cr_counter r) (?more\<lparr>pos_applied := cr_digest r\<rparr>) (dc_positions (device_entry v device)),
              dc_head := Some \<lparr>hd_counter = cr_counter r, hd_digest = cr_digest r, hd_seq = cr_seq r\<rparr>\<rparr>"
        using assms(10) Some None r(1) of_x head by (auto simp: rule_one_def Let_def split: if_splits)
      then show ?thesis
      proof cases
        case 1
        then have "applied_first cr T hist k (Some y) (device_entry v' device)"
          using assms(5) more_known Some unfolding applied_first_def by auto
        then show ?thesis using 1(1) by simp
      next
        case 2
        have at: "j = k - 1" using 2(2) r(1) of_x history_counters(2) [OF assms(1) j k(3)] by simp
        then have applied: "pos_applied p = signed_operation_digest cr y" and y: "y \<in> set (hist ! j)"
          using assms(5,6) Some r(1) of_x by (auto simp: applied_first_def)
        obtain b where b: "b < length (hist ! j)" "x = hist ! j ! b" using r(2) by (auto simp: in_set_conv_nth)
        obtain a where a: "a < b" "pos_applied p = signed_operation_digest cr (hist ! j ! a)"
          using leads_back [OF reaches_sound [OF 2(3)] known assms(2,1) j T(2) b(1)] r(1) b(2) by auto
        have "applied_first cr T hist k (Some x) (device_entry v' device)"
          using assms(5) more_known T(1) r(1) of_x at k unfolding applied_first_def 2(4) by auto
        then show ?thesis using 2(1) at a b by auto
      qed
    qed
  qed
qed

lemma replaced_head:
  assumes "applied_first cr T hist k (Some y) (device_entry v device)"
    and "rule_one (chain_record_of cr x s) h carried v = (Inr (Chain_Replace g), v')"
    and "x \<in> T" and "op_device (body x) = device" and "op_counter (body x) = counter_at hist (k - 1)"
  shows "applied_first cr T hist k (Some x) (device_entry v' device)"
proof -
  obtain p where p: "bt_get (dc_positions (device_entry v device)) (op_counter (body x)) = Some p"
    using assms(2,4) by (auto simp: rule_one_def Let_def split: option.splits if_splits)
  let ?more = "p\<lparr>pos_attempts := bt_insert (signed_operation_digest cr x)
    \<lparr>at_previous_attempt = op_previous_attempt (body x), at_seq = s\<rparr> (pos_attempts p), pos_applied := signed_operation_digest cr x\<rparr>"
  have "device_entry v' device = (device_entry v device)\<lparr>dc_positions :=
      bt_insert (op_counter (body x)) ?more (dc_positions (device_entry v device)),
      dc_head := Some \<lparr>hd_counter = op_counter (body x), hd_digest = signed_operation_digest cr x, hd_seq = s\<rparr>\<rparr>"
    using assms(2,4) p by (auto simp: rule_one_def Let_def split: option.splits if_splits)
  moreover have "known_attempts cr T (\<lambda>d. map_option at_previous_attempt (bt_get (pos_attempts ?more) d))"
    using assms(1,3) p unfolding applied_first_def known_attempts_def by auto
  ultimately show ?thesis using assms(1,3,5) unfolding applied_first_def by auto
qed

lemma accepted_head:
  assumes "applied_first cr T hist k y (device_entry v device)" and "x \<in> T" and "op_device (body x) = device"
    and "k < length hist" and "op_counter (body x) = counter_at hist k"
  shows "applied_first cr T hist (Suc k) (Some x) (device_entry (accept_record (chain_record_of cr x s) v) device)"
  using assms unfolding applied_first_def known_attempts_def by auto

lemma fetched_attempt:
  assumes "fetches_from cr S fetch" and "later_attempt fetch r h f = (Some x, f')"
  obtains op1 s where "op1 \<in> S" and "x = chain_record_of cr op1 s" and "cr_device x = cr_device r"
  using assms by (fastforce simp: later_attempt_def fetches_from_def split: if_splits prod.splits fetched.splits)

lemma attempt_step:
  assumes "device_history cr device hist" and "fetches_from cr S fetch" and "T = set (concat hist) \<union> S"
    and "\<not> digests_collide cr T" and "\<And>n. known_attempts cr T (\<lambda>d. bt_get carried (device, n, d))"
    and "applied_first cr T hist k y (device_entry v device)"
    and "k \<le> j \<or> (\<forall>z. y = Some z \<longrightarrow> z \<in> set (hist ! (k - 1)))"
    and "r = chain_record_of cr x s" and "x \<in> set (hist ! j)" and "j < length hist"
    and "process fetch carried r v f = (Inr verdict, v', f')"
  shows "(verdict = Chain_Accept \<and> j = k \<and> applied_first cr T hist (Suc k) (Some x) (device_entry v' device))
    \<or> (verdict = Chain_Ignore \<and> j < k \<and> applied_first cr T hist k y (device_entry v' device))
    \<or> (\<exists>a b. verdict = Chain_Replace (signed_operation_digest cr (hist ! j ! a)) \<and> Suc j = k \<and> a < b \<and> b < length (hist ! j)
        \<and> x = hist ! j ! b \<and> applied_first cr T hist k (Some x) (device_entry v' device))"
  using assms
proof (induction fetch carried r v f arbitrary: y rule: process.induct)
  case (1 fetch carried r v f)
  note hist = 1(2) and apart = 1(5) and state = 1(7) and r = 1(9) and x = 1(10) and j = 1(11) and run = 1(12)
  let ?h = "device_head v (cr_device r)"
  note of_x = historyD [OF hist j x]
  have T: "set (concat hist) \<subseteq> T" "S \<subseteq> T" using 1(4) by auto
  then have xT: "x \<in> T" using attempts_listed [OF j] x by blast
  have dev: "cr_device r = device" "cr_counter r = counter_at hist j" using r of_x by simp_all
  have k: "k \<le> length hist" and fresh: "\<not> ignores v (cr_device r) (cr_digest r)"
    using state by (auto simp: applied_first_def ignores_entry dev domIff)
  have none: "k = 0 \<longleftrightarrow> y = None" using state by (auto simp: applied_first_def split: option.splits)
  have head: "hd_counter ?h = (if k = 0 then 0 else counter_at hist (k - 1))"
    "hd_digest ?h = (case y of None \<Rightarrow> ZERO_digest | Some z \<Rightarrow> signed_operation_digest cr z)"
    using state none by (auto simp: applied_first_def device_head_entry dev NONE_head_def split: option.splits)
  have below: "cr_counter r \<le> hd_counter ?h \<longleftrightarrow> j < k"
  proof (cases "k = 0")
    case True
    then show ?thesis using history_counters(3) [OF hist j j] head dev by simp
  next
    case False
    then have "cr_counter r \<le> hd_counter ?h \<longleftrightarrow> \<not> k - 1 < j"
      using history_counters(1) [OF hist, of "k - 1" j] j k head dev by (simp add: not_less [symmetric])
    then show ?thesis using False by auto
  qed
  show ?case
  proof (cases "j < k")
    case True
    then obtain z where z: "y = Some z" using none by auto
    have rule: "rule_one r (device_head v device) carried v = (Inr verdict, v')"
      using run fresh below True unfolding dev(1) by (subst (asm) process.simps) (simp add: dev(1) split: prod.splits)
    have mine: "k - 1 = j \<longrightarrow> z \<in> set (hist ! j)" using 1(8) True z by auto
    from rule_attempt [OF hist apart T(1) 1(6) state [unfolded z] mine r x True rule]
    show ?thesis using True z by (elim disjE exE conjE) auto
  next
    case False
    show ?thesis
    proof (cases "cr_previous r = hd_digest ?h")
      case True
      have "j = k"
      proof (cases y)
        case None
        then have "op_previous (body x) = ZERO_digest" using True r head by simp
        moreover have "ZERO_digest \<notin> signed_operation_digest cr ` set (hist ! (j - 1))" if "j \<noteq> 0"
          using historyD(4) [OF hist, of "j - 1"] that j by fastforce
        ultimately show ?thesis using of_x(3) none None by (auto split: if_splits)
      next
        case (Some z)
        then have z: "0 < k" "z \<in> T" "op_counter (body z) = counter_at hist (k - 1)"
          using state by (auto simp: applied_first_def)
        have "op_previous (body x) = signed_operation_digest cr z" using True r head Some by simp
        then obtain y' where y': "y' \<in> set (hist ! (j - 1))" "signed_operation_digest cr y' = signed_operation_digest cr z"
          using of_x(3) False z(1) by (auto split: if_splits)
        have "y' \<in> T" using attempts_listed [of "j - 1" hist] y'(1) T(1) j by (meson less_imp_diff_less subsetD)
        then have "y' = z" using digests_apart_eq [OF apart _ z(2) y'(2)] by simp
        then have "counter_at hist (j - 1) = counter_at hist (k - 1)"
          using historyD(2) [OF hist _ y'(1)] j z(3) by simp
        then have "j - 1 = k - 1" using history_counters(2) [OF hist, of "j - 1" "k - 1"] j k z(1) by simp
        then show ?thesis using False z(1) by simp
      qed
      moreover have "verdict = Chain_Accept" "v' = accept_record r v"
        using run fresh below False True by (subst (asm) process.simps; simp)+
      ultimately show ?thesis
        using accepted_head [OF state xT of_x(1), of s] j of_x(2) r by simp
    next
      case break: False
      obtain later f1 where later: "later_attempt fetch r ?h f = (later, f1)" by fastforce
      obtain x2 g v1 where x2: "later = Some x2" "rule_one x2 ?h carried v = (Inr (Chain_Replace g), v1)" "cr_seq x2 < cr_seq r"
        "process fetch carried r v1 f1 = (Inr verdict, v', f')"
        using run fresh below False break later
        by (subst (asm) process.simps)
          (auto simp: Let_def split: option.splits prod.splits sum.splits chain_verdict.splits if_splits)
      obtain op2 t where op2: "op2 \<in> S" "x2 = chain_record_of cr op2 t" "cr_device x2 = cr_device r"
        using fetched_attempt [OF 1(3)] later x2(1) by metis
      have counter: "cr_counter x2 = hd_counter ?h" using later_attempt_Some [of fetch r ?h f x2 f1] later x2(1) by simp
      have "k \<noteq> 0" using later x2(1) head by (auto simp: later_attempt_def split: if_splits)
      then obtain z where z: "y = Some z" using none by auto
      have state2: "applied_first cr T hist k (Some op2) (device_entry v1 device)"
        using replaced_head [OF state [unfolded z] x2(2) [unfolded op2(2)]] op2 T(2) counter head dev \<open>k \<noteq> 0\<close> by auto
      have above: "k \<le> j \<or> (\<forall>z. Some op2 = Some z \<longrightarrow> z \<in> set (hist ! (k - 1)))" using False by simp
      have step: "\<not> cr_counter r \<le> hd_counter ?h" using below False by simp
      from 1(1) [of later f1 x2 "bt_get (cv_devices v) (cr_device r)" "Inr (Chain_Replace g)" v1 "Chain_Replace g" g "Some op2"]
        fresh step break later x2 hist 1(3-6) state2 above r x j
      show ?thesis using False by simp
    qed
  qed
qed

subsection \<open>A page\<close>

text \<open>
  The operations of a device that a client holds applied after a page's verdicts: an accepted record is
  added, a later attempt takes the place of the head, and the others are skipped.
\<close>

definition apply_verdict ::
  "ident \<Rightarrow> operation signed list \<Rightarrow> (operation signed \<times> u64) \<times> chain_verdict \<Rightarrow> operation signed list" where
  "apply_verdict device applied = (\<lambda>((x, _), verdict).
     if op_device (body x) \<noteq> device then applied
     else case verdict of Chain_Accept \<Rightarrow> applied @ [x] | Chain_Ignore \<Rightarrow> applied | Chain_Replace _ \<Rightarrow> butlast applied @ [x])"

definition applied_of ::
  "ident \<Rightarrow> (operation signed \<times> u64) list \<Rightarrow> chain_verdict list \<Rightarrow> operation signed list" where
  "applied_of device page verdicts = foldl (apply_verdict device) [] (zip page verdicts)"

text \<open>One attempt of each position.\<close>

abbreviation one_of_each :: "operation signed list \<Rightarrow> operation signed list list \<Rightarrow> bool" where
  "one_of_each \<equiv> list_all2 (\<lambda>x attempts. x \<in> set attempts)"

text \<open>\<open>x\<close> is a later attempt than the one with digest \<open>g\<close> at its position.\<close>

definition replaces :: "crypto \<Rightarrow> operation signed list list \<Rightarrow> operation signed \<Rightarrow> digest \<Rightarrow> bool" where
  "replaces cr hist x g \<longleftrightarrow> (\<exists>attempts \<in> set hist. \<exists>a b. a < b \<and> b < length attempts
     \<and> x = attempts ! b \<and> g = signed_operation_digest cr (attempts ! a))"

lemma own_fetches: "fetches_from cr S fetch \<Longrightarrow> own_records fetch"
  by (fastforce simp: fetches_from_def own_records_def)

lemma page_attempts:
  assumes "device_history cr device hist" and "fetches_from cr S fetch" and "T = set (concat hist) \<union> S"
    and "\<not> digests_collide cr T" and "\<And>n. known_attempts cr T (\<lambda>d. bt_get carried (device, n, d))"
    and "\<forall>x \<in> set page. op_device (body (fst x)) = device \<longrightarrow> fst x \<in> set (concat hist)"
    and "applied_first cr T hist k y (device_entry v device)" and "\<forall>z. y = Some z \<longrightarrow> z \<in> set (hist ! (k - 1))"
    and "one_of_each applied (take k hist)"
    and "process_from fetch carried i (map (\<lambda>(x, s). chain_record_of cr x s) page) v f = (Inr verdicts, v', f')"
  shows "\<exists>m. k \<le> m \<and> one_of_each (foldl (apply_verdict device) applied (zip page verdicts)) (take m hist)
    \<and> (\<forall>x \<in> set page. op_device (body (fst x)) = device \<longrightarrow> fst x \<in> set (concat (take m hist)))
    \<and> (\<forall>((x, _), verdict) \<in> set (zip page verdicts). \<forall>g. op_device (body x) = device \<and> verdict = Chain_Replace g
        \<longrightarrow> replaces cr hist x g)"
  using assms(6-10)
proof (induction page arbitrary: k y v f i verdicts applied)
  case Nil
  then show ?case by auto
next
  case (Cons e page)
  obtain x s where e: "e = (x, s)" by fastforce
  obtain verdict v1 f1 verdicts1 where step: "process fetch carried (chain_record_of cr x s) v f = (Inr verdict, v1, f1)"
    "process_from fetch carried (Suc i) (map (\<lambda>(x, s). chain_record_of cr x s) page) v1 f1 = (Inr verdicts1, v', f')"
    and verdicts: "verdicts = verdict # verdicts1"
    using Cons.prems(5) e by (auto split: prod.splits sum.splits)
  have rest: "\<forall>x \<in> set page. op_device (body (fst x)) = device \<longrightarrow> fst x \<in> set (concat hist)" using Cons.prems(1) by simp
  show ?case
  proof (cases "op_device (body x) = device")
    case False
    then have "device_entry v1 device = device_entry v device"
      using process_other [OF own_fetches [OF assms(2)] step(1)] by auto
    then have "applied_first cr T hist k y (device_entry v1 device)" using Cons.prems(2) by simp
    from Cons.IH [OF rest this Cons.prems(3,4) step(2)] show ?thesis
      using False by (auto simp: e verdicts apply_verdict_def)
  next
    case True
    then obtain j where j: "j < length hist" "x \<in> set (hist ! j)"
      using Cons.prems(1) e by (fastforce simp: in_set_conv_nth)
    have k: "k \<le> length hist" using Cons.prems(2) by (simp add: applied_first_def)
    have go: ?thesis if next_state: "applied_first cr T hist k' y' (device_entry v1 device)" "\<forall>z. y' = Some z \<longrightarrow> z \<in> set (hist ! (k' - 1))"
      "one_of_each (apply_verdict device applied (e, verdict)) (take k' hist)" and "k \<le> k'" "j < k'"
      and replaced: "\<forall>g. verdict = Chain_Replace g \<longrightarrow> replaces cr hist x g" for k' y'
    proof -
      obtain m where m: "k' \<le> m" "one_of_each (foldl (apply_verdict device) (apply_verdict device applied (e, verdict)) (zip page verdicts1)) (take m hist)"
        "\<forall>x \<in> set page. op_device (body (fst x)) = device \<longrightarrow> fst x \<in> set (concat (take m hist))"
        "\<forall>((x, _), verdict) \<in> set (zip page verdicts1). \<forall>g. op_device (body x) = device \<and> verdict = Chain_Replace g \<longrightarrow> replaces cr hist x g"
        using Cons.IH [OF rest next_state step(2)] by blast
      have "x \<in> set (concat (take m hist))"
        using attempts_listed [of j "take m hist"] j m(1) \<open>j < k'\<close> by auto
      then show ?thesis using m \<open>k \<le> k'\<close> replaced by (intro exI [of _ m]) (auto simp: e verdicts)
    qed
    have len: "length applied = k" using Cons.prems(4) k by (simp add: list_all2_lengthD)
    from attempt_step [OF assms(1-5) Cons.prems(2) disjI2 [OF Cons.prems(3)] refl j(2,1) step(1)]
    show ?thesis
    proof (elim disjE exE conjE)
      assume "verdict = Chain_Accept" "j = k" and next_state: "applied_first cr T hist (Suc k) (Some x) (device_entry v1 device)"
      moreover have "one_of_each (applied @ [x]) (take k hist @ [hist ! k])"
        using Cons.prems(4) j \<open>j = k\<close> by (intro list_all2_appendI) simp_all
      ultimately show ?thesis
        using j True by (intro go [OF next_state]) (simp_all add: apply_verdict_def e take_Suc_conv_app_nth)
    next
      assume "verdict = Chain_Ignore" "j < k" and next_state: "applied_first cr T hist k y (device_entry v1 device)"
      then show ?thesis
        using Cons.prems(3,4) by (intro go [OF next_state]) (simp_all add: apply_verdict_def e)
    next
      fix a b assume verdict: "verdict = Chain_Replace (signed_operation_digest cr (hist ! j ! a))" and at: "Suc j = k" "a < b"
        "b < length (hist ! j)" "x = hist ! j ! b" and next_state: "applied_first cr T hist k (Some x) (device_entry v1 device)"
      have "take k hist = take j hist @ [hist ! j]"
        unfolding at(1) [symmetric] using j(1) by (rule take_Suc_conv_app_nth)
      moreover obtain us y' where "applied = us @ [y']" "one_of_each us (take j hist)"
        using Cons.prems(4) unfolding calculation list_all2_append2 by (auto simp: length_Suc_conv)
      ultimately have "one_of_each (butlast applied @ [x]) (take k hist)"
        using j(2) by (simp add: list_all2_appendI)
      moreover have "\<forall>g. verdict = Chain_Replace g \<longrightarrow> replaces cr hist x g"
        using verdict at j(1) unfolding replaces_def by (auto intro!: bexI [of _ "hist ! j"])
      ultimately show ?thesis
        using at j True verdict by (intro go [OF next_state]) (auto simp: apply_verdict_def e)
    qed
  qed
qed

lemma carried_known:
  assumes "\<forall>x \<in> set page. op_device (body (fst x)) = device \<longrightarrow> fst x \<in> T"
  shows "known_attempts cr T (\<lambda>d. bt_get (carried_of (map (\<lambda>(x, s). chain_record_of cr x s) page)) (device, n, d))"
  using assms unfolding known_attempts_def carried_of_def by (fastforce dest!: map_of_SomeD)

text \<open>
  C19. Whatever a server does with an honest device's records, dropping, reordering, repeating or
  moving them, and whatever it answers to fetches, a page that the verifier lets through leaves the
  client with exactly one attempt of each position of a prefix of the device's history, in order, and holds
  no record of the device beyond that prefix; a record that takes the place of another is a later
  attempt at its position. At a position that the device sealed once that is its record itself; at another it need
  not be the attempt that the next record follows, since no verdict names one the verifier only fetched. Signatures confine
  the page to the device's records, fetched operations need not be signed; the exception is
  a digest collision among them.
\<close>

theorem page_applies_prefix:
  assumes "device_history cr device hist" and "fetches_from cr S fetch"
    and "\<forall>x \<in> set page. op_device (body (fst x)) = device \<longrightarrow> fst x \<in> set (concat hist)"
    and "process_page (map (\<lambda>(x, s). chain_record_of cr x s) page) fetch new_verifier f = (Inr verdicts, v, f')"
  shows "(\<exists>m. list_all2 (\<lambda>x attempts. x \<in> set attempts) (applied_of device page verdicts) (take m hist)
      \<and> (\<forall>x \<in> set page. op_device (body (fst x)) = device \<longrightarrow> fst x \<in> set (concat (take m hist)))
      \<and> (\<forall>((x, _), verdict) \<in> set (zip page verdicts). \<forall>g. op_device (body x) = device \<and> verdict = Chain_Replace g
          \<longrightarrow> replaces cr hist x g))
    \<or> digests_collide cr (set (concat hist) \<union> S)"
proof (cases "digests_collide cr (set (concat hist) \<union> S)")
  case False
  let ?T = "set (concat hist) \<union> S"
  have start: "applied_first cr ?T hist 0 None (device_entry new_verifier device)"
    by (simp add: applied_first_def device_entry_def new_verifier_def default_chain_def)
  have "known_attempts cr ?T (\<lambda>d. bt_get (carried_of (map (\<lambda>(x, s). chain_record_of cr x s) page)) (device, n, d))" for n
    by (rule carried_known) (use assms(3) in blast)
  from page_attempts [OF assms(1,2) refl False this assms(3) start _ _ assms(4) [unfolded process_page_def], of "[]"]
  show ?thesis by (auto simp: applied_of_def)
qed simp


subsection \<open>An honest server's pages\<close>

text \<open>
  The heads after a record, and when a page extends them: each record follows its device's head.
  This is the chain rule a server keeps when it accepts records.
\<close>

fun extends :: "(ident \<Rightarrow> u64 \<times> digest) \<Rightarrow> chain_record list \<Rightarrow> bool" where
  "extends heads [] \<longleftrightarrow> True"
| "extends heads (r # rs) \<longleftrightarrow> fst (heads (cr_device r)) < cr_counter r \<and> cr_previous r = snd (heads (cr_device r))
     \<and> extends (heads(cr_device r := (cr_counter r, cr_digest r))) rs"

definition heads_of :: "chain_verifier \<Rightarrow> ident \<Rightarrow> u64 \<times> digest" where
  "heads_of v = (\<lambda>device. (hd_counter (device_head v device), hd_digest (device_head v device)))"

definition ignores_none :: "chain_verifier \<Rightarrow> bool" where
  "ignores_none v \<longleftrightarrow> (\<forall>device d. \<not> ignores v device d)"

lemma heads_of_accept: "heads_of (accept_record r v) = (heads_of v)(cr_device r := (cr_counter r, cr_digest r))"
  by (rule ext) (simp add: heads_of_def device_head_entry)

lemma ignores_accept [simp]: "ignores (accept_record r v) device d = ignores v device d"
  by (simp add: ignores_entry)

text \<open>The record of an accepted position, and that later records leave it alone.\<close>

definition holds :: "chain_verifier \<Rightarrow> chain_record \<Rightarrow> bool" where
  "holds v r \<longleftrightarrow> cr_counter r \<le> hd_counter (device_head v (cr_device r))
     \<and> (\<exists>p a. bt_get (dc_positions (device_entry v (cr_device r))) (cr_counter r) = Some p
        \<and> bt_get (pos_attempts p) (cr_digest r) = Some a \<and> at_seq a = cr_seq r)"

lemma holds_accept: "holds (accept_record r v) r"
  by (simp add: holds_def device_head_entry)

lemma holds_kept:
  assumes "holds v r" and "hd_counter (device_head v (cr_device x)) < cr_counter x"
  shows "holds (accept_record x v) r"
proof -
  have "cr_counter r \<noteq> cr_counter x" if "cr_device r = cr_device x"
    using assms that by (auto simp: holds_def)
  then show ?thesis
    using assms by (auto simp: holds_def device_head_entry)
qed

lemma honest_from:
  assumes "ignores_none v" and "extends (heads_of v) page"
  shows "\<exists>v'. process_from fetch carried i page v f = (Inr (replicate (length page) Chain_Accept), v', f)
    \<and> ignores_none v' \<and> (\<forall>r. holds v r \<longrightarrow> holds v' r) \<and> (\<forall>r \<in> set page. holds v' r)"
  using assms
proof (induction page arbitrary: v i)
  case (Cons r page)
  have counter: "hd_counter (device_head v (cr_device r)) < cr_counter r"
    and previous: "cr_previous r = hd_digest (device_head v (cr_device r))"
    using Cons(3) by (simp_all add: heads_of_def)
  have "\<not> cr_counter r \<le> hd_counter (device_head v (cr_device r))" using counter by (simp add: not_le)
  then have step: "process fetch carried r v f = (Inr Chain_Accept, accept_record r v, f)"
    using previous Cons(2) by (subst process.simps) (simp add: ignores_none_def)
  have "ignores_none (accept_record r v)" using Cons(2) by (simp add: ignores_none_def)
  moreover have "extends (heads_of (accept_record r v)) page" using Cons(3) by (simp add: heads_of_accept)
  ultimately obtain v' where v': "process_from fetch carried (Suc i) page (accept_record r v) f =
      (Inr (replicate (length page) Chain_Accept), v', f)" "ignores_none v'"
    "\<forall>x. holds (accept_record r v) x \<longrightarrow> holds v' x" "\<forall>x \<in> set page. holds v' x"
    using Cons(1) by blast
  then show ?case
    using step holds_accept holds_kept [OF _ counter] by auto
qed simp

lemma same_entries:
  "device_entry v' = device_entry v \<Longrightarrow> holds v' = holds v \<and> ignores_none v' = ignores_none v"
  by (simp add: fun_eq_iff holds_def device_head_entry ignores_none_def ignores_entry)

lemma repeat_ignored:
  assumes "ignores_none v" and "\<forall>r \<in> set page. holds v r"
  shows "\<exists>v'. process_from fetch carried i page v f = (Inr (replicate (length page) Chain_Ignore), v', f)
    \<and> (\<forall>d. device_entry v' d = device_entry v d)"
  using assms
proof (induction page arbitrary: v i)
  case (Cons r page)
  obtain p a where p: "bt_get (dc_positions (device_entry v (cr_device r))) (cr_counter r) = Some p"
    "bt_get (pos_attempts p) (cr_digest r) = Some a" "at_seq a = cr_seq r"
    and below: "cr_counter r \<le> hd_counter (device_head v (cr_device r))"
    using Cons(3) by (auto simp: holds_def)
  let ?v = "put_chain (cr_device r) (device_entry v (cr_device r)) v"
  have same: "device_entry ?v d = device_entry v d" for d by (simp only: device_entry_put split: if_splits) simp
  have step: "process fetch carried r v f = (Inr Chain_Ignore, ?v, f)"
    using Cons(2) below p by (subst process.simps) (simp add: ignores_none_def rule_one_def Let_def)
  have "ignores_none ?v" "\<forall>x \<in> set page. holds ?v x"
    using Cons(2,3) same_entries [of ?v v] same by (simp_all add: fun_eq_iff)
  then obtain v' where "process_from fetch carried (Suc i) page ?v f = (Inr (replicate (length page) Chain_Ignore), v', f)"
    "\<forall>d. device_entry v' d = device_entry ?v d"
    using Cons(1) by blast
  then show ?case using step same by simp
qed simp

text \<open>
  C20. A page in which every record follows its device's head, devices interleaved as they like and
  counters skipped or not, is applied whole without a single fetch; and the same page served again
  is ignored whole, also without a fetch, and changes no device's state.
\<close>

theorem honest_page_applies:
  assumes "ignores_none v" and "extends (heads_of v) page"
  shows "\<exists>v'. process_page page fetch v f = (Inr (replicate (length page) Chain_Accept), v', f)
    \<and> (\<exists>v''. process_page page fetch v' f = (Inr (replicate (length page) Chain_Ignore), v'', f)
        \<and> (\<forall>d. device_entry v'' d = device_entry v' d))"
  using honest_from [OF assms] repeat_ignored unfolding process_page_def by metis

subsection \<open>Attempts\<close>

text \<open>Steps back along the lookup, as a function: it ends at zero or where the lookup ends.\<close>

fun follow :: "(digest \<Rightarrow> digest option) \<Rightarrow> nat \<Rightarrow> digest \<Rightarrow> digest option" where
  "follow lookup 0 d = (if digest_is_zero d then None else Some d)"
| "follow lookup (Suc n) d = (if digest_is_zero d then None
     else case lookup d of None \<Rightarrow> None | Some d' \<Rightarrow> follow lookup n d')"

lemma leads_to_follow: "leads_to lookup d target \<longleftrightarrow> (\<exists>n. follow lookup n d = Some target)"
proof
  show "leads_to lookup d target \<Longrightarrow> \<exists>n. follow lookup n d = Some target"
  proof (induction rule: leads_to.induct)
    case (leads_here d)
    then show ?case by (intro exI [of _ 0]) simp
  next
    case (leads_on d d' target)
    then obtain n where "follow lookup n d' = Some target" by blast
    then show ?case using leads_on by (intro exI [of _ "Suc n"]) simp
  qed
  have "follow lookup n d = Some target \<Longrightarrow> leads_to lookup d target" for n
    by (induction n arbitrary: d) (auto intro: leads_here leads_on split: if_splits option.splits)
  then show "\<exists>n. follow lookup n d = Some target \<Longrightarrow> leads_to lookup d target" by blast
qed

lemma follow_add:
  "follow lookup n d = Some d' \<Longrightarrow> follow lookup (n + m) d = follow lookup m d'"
  by (induction n arbitrary: d) (auto split: if_splits option.splits)


lemma reaches_complete:
  assumes "follow lookup n d = Some target" and "\<forall>m < n. follow lookup m d \<noteq> Some target"
    and "\<forall>m \<le> n. \<forall>x. follow lookup m d = Some x \<longrightarrow> x \<notin> seen"
  shows "reaches lookup target seen d"
  using assms
proof (induction n arbitrary: d seen)
  case 0
  then show ?case by (subst reaches.simps) (auto split: if_splits)
next
  case (Suc n)
  obtain d' where d': "\<not> digest_is_zero d" "lookup d = Some d'" "follow lookup n d' = Some target"
    using Suc(2) by (auto split: if_splits option.splits)
  have step: "follow lookup (Suc m) d = follow lookup m d'" for m using d'(1,2) by simp
  have "d \<noteq> target" using Suc(3) d'(1) by (metis follow.simps(1) zero_less_Suc)
  have again: "follow lookup m d' \<noteq> Some d" if "m \<le> n" for m
  proof
    assume "follow lookup m d' = Some d"
    then have "follow lookup (Suc m + (n - m)) d = follow lookup (n - m) d"
      using follow_add [of lookup "Suc m" d d "n - m"] step by simp
    then have "follow lookup (n - m) d = Some target" using that Suc(2) by simp
    then show False using Suc(3) by auto
  qed
  have "reaches lookup target (insert d seen) d'"
  proof (rule Suc(1) [OF d'(3)])
    show "\<forall>m < n. follow lookup m d' \<noteq> Some target" using Suc(3) step by (metis Suc_less_eq)
    show "\<forall>m \<le> n. \<forall>x. follow lookup m d' = Some x \<longrightarrow> x \<notin> insert d seen"
      using Suc(4) step again by (metis Suc_le_mono insert_iff)
  qed
  moreover have "d \<notin> seen" using Suc(4) d'(1) by (metis follow.simps(1) zero_le)
  ultimately show ?case using d'(1,2) \<open>d \<noteq> target\<close> by (subst reaches.simps) simp
qed

text \<open>
  The loop that follows attempts back decides exactly whether one attempt leads to another
  through the attempts known at the position and those the page carries: stopping at a digest seen
  before loses no path, and the loop always ends.
\<close>

theorem reaches_exact: "reaches lookup target {} current \<longleftrightarrow> leads_to lookup current target"
proof
  assume "leads_to lookup current target"
  then have "\<exists>n. follow lookup n current = Some target" by (simp add: leads_to_follow)
  then obtain n where "follow lookup n current = Some target" "\<forall>m < n. follow lookup m current \<noteq> Some target"
    using exists_least_iff [of "\<lambda>n. follow lookup n current = Some target"] by blast
  then show "reaches lookup target {} current" by (intro reaches_complete) simp_all
qed (rule reaches_sound)


subsection \<open>An attempt the caller never hears of\<close>

text \<open>
  C39. A record that follows a later attempt of the head, which the page left out, is accepted after
  the verifier fetched that attempt; the verdict is the record's own, and the attempt is ignored
  when the server serves it afterwards. No verdict ever tells the caller to apply the attempt.
\<close>

theorem fetched_attempt_unreported:
  assumes "ignores_none v" and "dc_head (device_entry v d) = Some h" and "hd_counter h \<noteq> 0"
    and "bt_get (dc_positions (device_entry v d)) (hd_counter h) = Some
      \<lparr>pos_applied = hd_digest h, pos_attempts = bt_insert (hd_digest h)
        \<lparr>at_previous_attempt = ZERO_digest, at_seq = hd_seq h\<rparr> bt_empty\<rparr>"
    and "\<not> digest_is_zero (hd_digest h)"
    and x: "cr_device x = d" "cr_counter x = hd_counter h" "cr_previous_attempt x = hd_digest h"
      "cr_digest x \<noteq> hd_digest h"
    and r: "cr_device r = d" "hd_counter h < cr_counter r" "cr_previous r = cr_digest x" "cr_seq x < cr_seq r"
    and fetch: "fetch f d (hd_counter h) = (Fetched_Record x, f)"
  shows "\<exists>v'. process fetch bt_empty r v f = (Inr Chain_Accept, v', f)
    \<and> (\<exists>v''. process fetch bt_empty x v' f = (Inr Chain_Ignore, v'', f))"
proof -
  have h: "device_head v d = h" using assms(2) by (simp add: device_head_entry)
  have reach: "reaches lookup (hd_digest h) {} (hd_digest h)" for lookup
    using assms(5) by (subst reaches.simps) simp
  have zero: "hd_digest h \<noteq> ZERO_digest" using assms(5) by (auto simp: digest_is_zero_def ZERO_digest_def)
  obtain v1 where rule: "rule_one x h bt_empty v = (Inr (Chain_Replace (hd_digest h)), v1)"
    and v1: "device_head v1 d = \<lparr>hd_counter = hd_counter h, hd_digest = cr_digest x, hd_seq = cr_seq x\<rparr>"
      "ignores_none v1"
      "\<exists>p. bt_get (dc_positions (device_entry v1 d)) (hd_counter h) = Some p
        \<and> bt_get (pos_attempts p) (cr_digest x) = Some \<lparr>at_previous_attempt = hd_digest h, at_seq = cr_seq x\<rparr>"
    using assms(1,4,5) x reach zero
    by (auto simp: rule_one_def Let_def bt_values_def ignores_none_def ignores_entry)
  have above: "\<not> cr_counter r \<le> hd_counter h" using r(2) by (simp add: not_le)
  have "process fetch bt_empty r v f = process fetch bt_empty r v1 f"
    using assms(1,3) h above x r fetch rule
    by (subst process.simps) (simp add: ignores_none_def later_attempt_def)
  also have "\<dots> = (Inr Chain_Accept, accept_record r v1, f)"
    using v1(1,2) r above by (subst process.simps) (simp add: ignores_none_def)
  finally have accepted: "process fetch bt_empty r v f = (Inr Chain_Accept, accept_record r v1, f)" .
  have "holds v1 x" using v1(1,3) x by (auto simp: holds_def)
  then have "holds (accept_record r v1) x"
    using v1(1) r by (intro holds_kept) simp_all
  moreover have "ignores_none (accept_record r v1)" using v1(2) by (simp add: ignores_none_def)
  ultimately obtain v'' where "process_from fetch bt_empty 0 [x] (accept_record r v1) f = (Inr [Chain_Ignore], v'', f)"
    using repeat_ignored [of "accept_record r v1" "[x]" fetch bt_empty 0 f] by auto
  then have "\<exists>v''. process fetch bt_empty x (accept_record r v1) f = (Inr Chain_Ignore, v'', f)"
    by (auto split: prod.splits sum.splits)
  with accepted show ?thesis by blast
qed

end
