(* ===== verification/Live.thy ===== *)
theory Live
  imports Records_Checkpoint BTree
begin

text \<open>
  Live sets (\<^verbatim>\<open>live.rs\<close>, \<section>13): which operations on each object are live, the server's checks that
  they decide, lone deletes that a rising floor drops, and the covers an edit writes.
\<close>

definition MAX_LIVE_PATCHES :: nat where "MAX_LIVE_PATCHES = 2048"
definition MAX_LIVE_PATCH_BYTES :: u64 where "MAX_LIVE_PATCH_BYTES = 8 * 1024 * 1024"
definition MAX_LIVE_STATES :: nat where "MAX_LIVE_STATES = 64"

record live_op =
  lo_rid :: ident
  lo_device :: ident
  lo_counter :: u64
  lo_seq :: u64
  lo_digest :: digest
  lo_delete :: bool
  lo_covers :: "cover list"
  lo_weight :: u64

definition live_op_of :: "crypto \<Rightarrow> operation signed \<Rightarrow> u64 \<Rightarrow> live_op" where
  "live_op_of cr op1 seqno = \<lparr>lo_rid = op_rid (body op1), lo_device = op_device (body op1),
     lo_counter = op_counter (body op1), lo_seq = seqno, lo_digest = signed_operation_digest cr op1,
     lo_delete = op_delete (body op1), lo_covers = op_supersedes (body op1),
     lo_weight = of_nat (length (op_ciphertext (body op1)))\<rparr>"

definition as_ref :: "live_op \<Rightarrow> op_ref" where
  "as_ref x = \<lparr>ref_device = lo_device x, ref_counter = lo_counter x, ref_seq = lo_seq x, ref_op_digest = lo_digest x\<rparr>"

definition covered_by :: "live_op \<Rightarrow> cover \<Rightarrow> bool" where
  "covered_by x c \<longleftrightarrow> lo_device x = cov_device c \<and> lo_counter x \<le> cov_counter c"

text \<open>Whether one of the covers of \<open>y\<close> covers \<open>x\<close>.\<close>

definition covers :: "live_op \<Rightarrow> live_op \<Rightarrow> bool" where
  "covers y x \<longleftrightarrow> list_ex (covered_by x) (lo_covers y)"

record rid_state =
  rs_ops :: "(live_op \<times> op_class) list"
  rs_dropped :: "(ident \<times> u64) set"

definition empty_rid :: rid_state where
  "empty_rid = \<lparr>rs_ops = [], rs_dropped = {}\<rparr>"

definition state_live_at :: "rid_state \<Rightarrow> u64 \<Rightarrow> (live_op \<times> op_class) list" where
  "state_live_at s at =
     (let visible = filter (\<lambda>(x, _). lo_seq x \<le> at) (rs_ops s)
      in filter (\<lambda>(x, _). \<not> list_ex (\<lambda>(y, _). covers y x) visible)
           (filter (\<lambda>(x, _). (lo_device x, lo_counter x) \<notin> rs_dropped s) visible))"

datatype live_error = Live_SupersedesUnknown | Live_SupersedesIncomplete | Live_SnapshotRequired | Live_ConflictLimit

fun live_server_code :: "live_error \<Rightarrow> string" where
  "live_server_code Live_SupersedesUnknown = ''supersedes_unknown''"
| "live_server_code Live_SupersedesIncomplete = ''supersedes_incomplete''"
| "live_server_code Live_SnapshotRequired = ''snapshot_required''"
| "live_server_code Live_ConflictLimit = ''conflict_limit''"

record live_set =
  ls_rids :: "(ident, rid_state) btree"

definition new_live :: live_set where
  "new_live = \<lparr>ls_rids = bt_empty\<rparr>"

definition class_of :: "live_op \<Rightarrow> bool \<Rightarrow> op_class" where
  "class_of x rid_exists = (if lo_covers x = [] \<and> rid_exists then Class_Patch else Class_State)"

definition live_class_of :: "live_set \<Rightarrow> live_op \<Rightarrow> op_class" where
  "live_class_of ls x = class_of x (bt_contains (ls_rids ls) (lo_rid x))"

definition live_at :: "live_set \<Rightarrow> ident \<Rightarrow> u64 \<Rightarrow> (live_op \<times> op_class) list" where
  "live_at ls rid at = (case bt_get (ls_rids ls) rid of None \<Rightarrow> [] | Some s \<Rightarrow> state_live_at s at)"

definition live :: "live_set \<Rightarrow> ident \<Rightarrow> (live_op \<times> op_class) list" where
  "live ls rid = live_at ls rid (- 1)"

text \<open>The sum of the weights is the \<open>u64\<close> sum.\<close>

definition judge_live ::
  "live_op \<Rightarrow> bool \<Rightarrow> bool \<Rightarrow> bool \<Rightarrow> (live_op \<times> op_class) list \<Rightarrow> live_error + op_class" where
  "judge_live x rid_exists unknown_cover covered lives =
     (let class1 = class_of x rid_exists in
      if unknown_cover then Inl Live_SupersedesUnknown
      else let after = filter (\<lambda>(y, _). \<not> covers x y) lives @ (if covered then [] else [(x, class1)]);
               own_states = length (filter (\<lambda>(y, c). c = Class_State \<and> lo_device y = lo_device x) after);
               patches = filter (\<lambda>(_, c). c = Class_Patch) after
        in if class1 = Class_State \<and> own_states > 1 then Inl Live_SupersedesIncomplete
           else if length patches > MAX_LIVE_PATCHES \<or> sum_list (map (lo_weight \<circ> fst) patches) > MAX_LIVE_PATCH_BYTES
           then Inl Live_SnapshotRequired
           else if length (filter (\<lambda>(_, c). c = Class_State) after) > MAX_LIVE_STATES then Inl Live_ConflictLimit
           else Inr class1)"

definition names_op :: "rid_state option \<Rightarrow> cover \<Rightarrow> bool" where
  "names_op s c = (case s of None \<Rightarrow> False
     | Some s \<Rightarrow> list_ex (\<lambda>(x, _). lo_device x = cov_device c \<and> lo_counter x = cov_counter c) (rs_ops s))"

definition live_check :: "live_set \<Rightarrow> live_op \<Rightarrow> live_error + op_class" where
  "live_check ls x =
     (let s = bt_get (ls_rids ls) (lo_rid x);
          unknown_cover = list_ex (\<lambda>c. \<not> names_op s c) (lo_covers x);
          covered = (case s of None \<Rightarrow> False | Some s \<Rightarrow> list_ex (\<lambda>(y, _). covers y x) (rs_ops s))
      in judge_live x (s \<noteq> None) unknown_cover covered (live ls (lo_rid x)))"

definition live_insert :: "live_op \<Rightarrow> op_class \<Rightarrow> live_set \<Rightarrow> live_set" where
  "live_insert x class1 ls =
     (let s = (case bt_get (ls_rids ls) (lo_rid x) of None \<Rightarrow> empty_rid | Some s \<Rightarrow> s)
      in ls\<lparr>ls_rids := bt_insert (lo_rid x) (s\<lparr>rs_ops := rs_ops s @ [(x, class1)]\<rparr>) (ls_rids ls)\<rparr>)"

definition live_apply :: "live_op \<Rightarrow> live_set \<Rightarrow> op_class \<times> live_set" where
  "live_apply x ls = (let class1 = live_class_of ls x in (class1, live_insert x class1 ls))"

definition live_remove :: "ident \<Rightarrow> digest \<Rightarrow> live_set \<Rightarrow> bool \<times> live_set" where
  "live_remove rid d ls =
     (case bt_get (ls_rids ls) rid of None \<Rightarrow> (False, ls)
      | Some s \<Rightarrow> let kept = filter (\<lambda>(x, _). lo_digest x \<noteq> d) (rs_ops s)
          in (length (rs_ops s) \<noteq> length kept, ls\<lparr>ls_rids := bt_insert rid (s\<lparr>rs_ops := kept\<rparr>) (ls_rids ls)\<rparr>))"

definition live_forget :: "ident \<Rightarrow> live_set \<Rightarrow> live_set" where
  "live_forget rid ls = ls\<lparr>ls_rids := bt_remove rid (ls_rids ls)\<rparr>"

definition live_rids :: "live_set \<Rightarrow> ident list" where
  "live_rids ls = bt_keys (ls_rids ls)"

definition live_remove_digest :: "digest \<Rightarrow> live_set \<Rightarrow> ident option \<times> live_set" where
  "live_remove_digest d ls =
     (case find (\<lambda>(_, s). list_ex (\<lambda>(x, _). lo_digest x = d) (rs_ops s)) (bt_entries (ls_rids ls)) of
        None \<Rightarrow> (None, ls)
      | Some (rid, _) \<Rightarrow>
          let ls = snd (live_remove rid d ls) in
          (Some rid, if (case bt_get (ls_rids ls) rid of None \<Rightarrow> False | Some s \<Rightarrow> rs_ops s = [] \<and> rs_dropped s = {})
             then ls\<lparr>ls_rids := bt_remove rid (ls_rids ls)\<rparr> else ls))"

definition leaves_at :: "live_set \<Rightarrow> u64 \<Rightarrow> (ident, op_ref list) btree" where
  "leaves_at ls at = bt_collect (List.map_filter (\<lambda>rid.
     let refs = map (as_ref \<circ> fst) (live_at ls rid at)
     in if refs = [] then None else Some (rid, sort_key (\<lambda>r. (ref_device r, ref_counter r)) refs)) (live_rids ls))"

definition floor_drop :: "live_set \<Rightarrow> u64 \<Rightarrow> u64 \<Rightarrow> u64 \<Rightarrow> ident \<Rightarrow> (ident \<times> op_ref) option" where
  "floor_drop ls previous_floor flr covered_seq rid =
     (case live_at ls rid covered_seq of
        [(x, _)] \<Rightarrow> if lo_delete x \<and> lo_seq x > previous_floor \<and> lo_seq x \<le> flr then Some (rid, as_ref x) else None
      | _ \<Rightarrow> None)"

definition apply_floor ::
  "u64 \<Rightarrow> u64 \<Rightarrow> u64 \<Rightarrow> live_set \<Rightarrow> (ident \<times> op_ref) list \<times> live_set" where
  "apply_floor previous_floor flr covered_seq ls =
     (let dropped = List.map_filter (floor_drop ls previous_floor flr covered_seq) (live_rids ls)
      in (dropped, ls\<lparr>ls_rids := fold (\<lambda>(rid, r). bt_adjust rid
           (\<lambda>s. s\<lparr>rs_dropped := insert (ref_device r, ref_counter r) (rs_dropped s)\<rparr>)) dropped (ls_rids ls)\<rparr>))"

subsection \<open>The covers of an edit\<close>

record device_tally =
  dt_highest :: "u64 option"
  dt_lowest_kept :: "u64 option"
  dt_count :: nat

definition tally_op ::
  "(ident \<times> u64) set \<Rightarrow> ident \<Rightarrow> live_op \<Rightarrow> (ident, device_tally) btree \<Rightarrow> (ident, device_tally) btree" where
  "tally_op chosen own x m =
     (let t = (case bt_get m (lo_device x) of None \<Rightarrow> \<lparr>dt_highest = None, dt_lowest_kept = None, dt_count = 0\<rparr>
          | Some t \<Rightarrow> t);
          t = t\<lparr>dt_count := Suc (dt_count t)\<rparr>
      in bt_insert (lo_device x)
        (if (lo_device x, lo_counter x) \<in> chosen \<or> lo_device x = own
         then t\<lparr>dt_highest := Some (case dt_highest t of None \<Rightarrow> lo_counter x | Some c \<Rightarrow> max c (lo_counter x))\<rparr>
         else t\<lparr>dt_lowest_kept := Some (case dt_lowest_kept t of None \<Rightarrow> lo_counter x | Some c \<Rightarrow> min c (lo_counter x))\<rparr>) m)"

definition tally_cover :: "ident \<times> device_tally \<Rightarrow> (nat \<times> cover) option" where
  "tally_cover = (\<lambda>(device, t). map_option (\<lambda>counter. (dt_count t, \<lparr>cov_device = device, cov_counter = counter\<rparr>))
     (case (dt_highest t, dt_lowest_kept t) of
        (None, _) \<Rightarrow> None
      | (Some h, Some k) \<Rightarrow> if h \<ge> k then (if k = 0 \<or> k - 1 = 0 then None else Some (k - 1)) else Some h
      | (Some h, None) \<Rightarrow> Some h))"

definition covers_for :: "live_op list \<Rightarrow> (ident \<times> u64) set \<Rightarrow> ident \<Rightarrow> cover list" where
  "covers_for lives chosen own =
     (let cs = List.map_filter tally_cover (bt_entries (fold (tally_op chosen own) lives bt_empty));
          cs = (if length cs > MAX_COVERS
            then take MAX_COVERS (sort_key (\<lambda>(n, c). (if cov_device c = own then 0 else 1 :: nat, - int n, cov_device c)) cs)
            else cs)
      in sort_key cov_device (map snd cs))"

end
