(* ===== verification/Live_Laws.thy ===== *)
theory Live_Laws
  imports Live
begin

text \<open>
  What the server's checks keep of every live set, what a rising floor does to them, and that the
  covers an honest writer computes keep the other branches of a conflict.
\<close>

subsection \<open>Limits\<close>

definition patches_of :: "(live_op \<times> op_class) list \<Rightarrow> (live_op \<times> op_class) list" where
  "patches_of xs = filter (\<lambda>(_, c). c = Class_Patch) xs"

definition states_of :: "(live_op \<times> op_class) list \<Rightarrow> (live_op \<times> op_class) list" where
  "states_of xs = filter (\<lambda>(_, c). c = Class_State) xs"

definition within_limits :: "(live_op \<times> op_class) list \<Rightarrow> bool" where
  "within_limits xs \<longleftrightarrow> length (patches_of xs) \<le> MAX_LIVE_PATCHES
     \<and> sum_list (map (unat \<circ> lo_weight \<circ> fst) (patches_of xs)) \<le> unat MAX_LIVE_PATCH_BYTES
     \<and> length (states_of xs) \<le> MAX_LIVE_STATES
     \<and> (\<forall>device. length (filter (\<lambda>(y, _). lo_device y = device) (states_of xs)) \<le> 1)"

lemma unat_sum_list:
  "sum_list (map unat ws) < 2 ^ 64 \<Longrightarrow> unat (sum_list ws :: u64) = sum_list (map unat ws)"
  by (induction ws) (simp_all add: unat_word_ariths)

lemma live_at_max: "live_at ls rid (- 1) = (case bt_get (ls_rids ls) rid of None \<Rightarrow> []
    | Some s \<Rightarrow> filter (\<lambda>(x, _). \<not> list_ex (\<lambda>(y, _). covers y x) (rs_ops s))
        (filter (\<lambda>(x, _). (lo_device x, lo_counter x) \<notin> rs_dropped s) (rs_ops s)))"
  by (simp add: live_at_def state_live_at_def Let_def split: option.split)

text \<open>The live set after an operation: what it covers leaves, and it joins unless it is covered.\<close>

lemma live_apply_same:
  assumes "s = (case bt_get (ls_rids ls) (lo_rid x) of None \<Rightarrow> empty_rid | Some s \<Rightarrow> s)"
  shows "live (snd (live_apply x ls)) (lo_rid x) =
    filter (\<lambda>(y, _). \<not> covers x y) (live ls (lo_rid x))
    @ (if list_ex (\<lambda>(y, _). covers y x) (rs_ops s) \<or> covers x x \<or> (lo_device x, lo_counter x) \<in> rs_dropped s
       then [] else [(x, live_class_of ls x)])"
  using assms
  by (cases "bt_get (ls_rids ls) (lo_rid x)")
    (auto simp: live_def live_at_max live_apply_def live_insert_def empty_rid_def Let_def split_beta
      intro!: filter_cong)

lemma live_apply_other: "rid \<noteq> lo_rid x \<Longrightarrow> live_at (snd (live_apply x ls)) rid at = live_at ls rid at"
  by (simp add: live_apply_def live_insert_def live_at_def Let_def)

lemma within_limits_filter:
  assumes "within_limits xs"
  shows "within_limits (filter P xs)"
proof -
  have swap: "patches_of (filter P xs) = filter P (patches_of xs)" "states_of (filter P xs) = filter P (states_of xs)"
    by (simp_all add: patches_of_def states_of_def conj_commute)
  have sum: "sum_list (map f (filter P ys)) \<le> sum_list (map f ys)" for f :: "live_op \<times> op_class \<Rightarrow> nat" and ys
    by (induction ys) auto
  have "length (filter Q (filter P ys)) \<le> length (filter Q ys)" for Q and ys :: "(live_op \<times> op_class) list"
    by (induction ys) auto
  with sum length_filter_le show ?thesis
    using assms unfolding within_limits_def swap by (meson le_trans)
qed

text \<open>
  C23. The server's checks keep every live set within its limits: whatever was accepted, no object
  holds more than 2,048 live patches or 8 MiB of them, more than 64 live states, or two live states
  of one device; and applying an accepted operation gives it the class the check returned. Weights
  must not wrap the \<open>u64\<close> sum, which a ciphertext's length cannot.
\<close>

theorem check_keeps_limits:
  assumes "within_limits (live ls rid)" and "within_limits (live ls (lo_rid x))"
    and "live_check ls x = Inr c" and "unat (lo_weight x) < 2 ^ 63"
  shows "fst (live_apply x ls) = c \<and> within_limits (live (snd (live_apply x ls)) rid)"
proof -
  let ?old = "filter (\<lambda>(y, _). \<not> covers x y) (live ls (lo_rid x))"
  define s where "s = (case bt_get (ls_rids ls) (lo_rid x) of None \<Rightarrow> empty_rid | Some s \<Rightarrow> s)"
  define covered where "covered = list_ex (\<lambda>(y, _). covers y x) (rs_ops s)"
  have class1: "c = live_class_of ls x" and state: "bt_get (ls_rids ls) (lo_rid x) \<noteq> None \<longleftrightarrow> bt_contains (ls_rids ls) (lo_rid x)"
    using assms(3) by (auto simp: live_check_def judge_live_def live_class_of_def Let_def domIff split: if_splits)
  have "live_check ls x = judge_live x (bt_contains (ls_rids ls) (lo_rid x))
      (list_ex (\<lambda>c. \<not> names_op (bt_get (ls_rids ls) (lo_rid x)) c) (lo_covers x)) covered (live ls (lo_rid x))"
    unfolding live_check_def Let_def covered_def s_def state [symmetric]
    by (cases "bt_get (ls_rids ls) (lo_rid x)") (simp_all add: empty_rid_def)
  with assms(3) have judged: "c = Class_State \<Longrightarrow>
      length (filter (\<lambda>(y, c). c = Class_State \<and> lo_device y = lo_device x) (?old @ (if covered then [] else [(x, c)]))) \<le> 1"
    "length (patches_of (?old @ (if covered then [] else [(x, c)]))) \<le> MAX_LIVE_PATCHES"
    "sum_list (map (lo_weight \<circ> fst) (patches_of (?old @ (if covered then [] else [(x, c)])))) \<le> MAX_LIVE_PATCH_BYTES"
    "length (states_of (?old @ (if covered then [] else [(x, c)]))) \<le> MAX_LIVE_STATES"
    unfolding class1 live_class_of_def patches_of_def states_of_def judge_live_def Let_def
    by (auto simp: not_less split: if_splits)
  have old: "within_limits ?old" using assms(2) by (rule within_limits_filter)
  have joined: "within_limits (?old @ (if covered then [] else [(x, c)]))"
  proof (cases covered)
    case False
    have bytes: "sum_list (map unat (map (lo_weight \<circ> fst) (patches_of ?old))) \<le> 2 ^ 23"
      using old by (simp add: within_limits_def MAX_LIVE_PATCH_BYTES_def comp_def)
    have "unat (sum_list (map (lo_weight \<circ> fst) (patches_of (?old @ [(x, c)])))) =
        sum_list (map unat (map (lo_weight \<circ> fst) (patches_of (?old @ [(x, c)]))))"
      using bytes assms(4) by (intro unat_sum_list) (simp add: patches_of_def)
    then have "sum_list (map (unat \<circ> lo_weight \<circ> fst) (patches_of (?old @ [(x, c)]))) \<le> unat MAX_LIVE_PATCH_BYTES"
      using judged(3) False by (simp add: word_le_nat_alt comp_def)
    moreover have "length (filter (\<lambda>(y, _). lo_device y = device) (states_of (?old @ [(x, c)]))) \<le> 1" for device
    proof (cases "c = Class_State \<and> device = lo_device x")
      case True
      then show ?thesis using judged(1) False by (simp add: states_of_def split_beta conj_ac)
    next
      case other: False
      then have "filter (\<lambda>(y, _). lo_device y = device) (states_of (?old @ [(x, c)])) =
          filter (\<lambda>(y, _). lo_device y = device) (states_of ?old)"
        by (auto simp: states_of_def)
      then show ?thesis using old by (simp add: within_limits_def)
    qed
    ultimately show ?thesis using judged(2,4) False by (simp add: within_limits_def)
  qed (use old in simp)
  have "within_limits (live (snd (live_apply x ls)) (lo_rid x))"
    unfolding live_apply_same [OF s_def] class1 [symmetric] covered_def [symmetric]
    using old joined by (auto split: if_splits)
  then show ?thesis
    using assms(1) live_apply_other [of rid x ls "- 1"] class1
    by (cases "rid = lo_rid x") (simp_all add: live_apply_def Let_def live_def)
qed

subsection \<open>The covers of an edit\<close>

text \<open>The counters of a device's live operations that the edit covers, and of those it leaves.\<close>

definition taken :: "(ident \<times> u64) set \<Rightarrow> ident \<Rightarrow> live_op \<Rightarrow> bool" where
  "taken chosen own x \<longleftrightarrow> (lo_device x, lo_counter x) \<in> chosen \<or> lo_device x = own"

definition taken_counters :: "(ident \<times> u64) set \<Rightarrow> ident \<Rightarrow> ident \<Rightarrow> live_op list \<Rightarrow> u64 set" where
  "taken_counters chosen own d xs = lo_counter ` {x \<in> set xs. lo_device x = d \<and> taken chosen own x}"

definition kept_counters :: "(ident \<times> u64) set \<Rightarrow> ident \<Rightarrow> ident \<Rightarrow> live_op list \<Rightarrow> u64 set" where
  "kept_counters chosen own d xs = lo_counter ` {x \<in> set xs. lo_device x = d \<and> \<not> taken chosen own x}"

definition opt_max :: "u64 set \<Rightarrow> u64 option" where
  "opt_max H = (if H = {} then None else Some (Max H))"

definition opt_min :: "u64 set \<Rightarrow> u64 option" where
  "opt_min H = (if H = {} then None else Some (Min H))"

lemma finite_counters [simp]: "finite (taken_counters chosen own d xs)" "finite (kept_counters chosen own d xs)"
  by (simp_all add: taken_counters_def kept_counters_def)

lemma counters_snoc:
  "taken_counters chosen own d (xs @ [x]) = (if lo_device x = d \<and> taken chosen own x
     then insert (lo_counter x) (taken_counters chosen own d xs) else taken_counters chosen own d xs)"
  "kept_counters chosen own d (xs @ [x]) = (if lo_device x = d \<and> \<not> taken chosen own x
     then insert (lo_counter x) (kept_counters chosen own d xs) else kept_counters chosen own d xs)"
  by (auto simp: taken_counters_def kept_counters_def)

lemma opt_insert:
  "finite H \<Longrightarrow> opt_max (insert c H) = Some (case opt_max H of None \<Rightarrow> c | Some m \<Rightarrow> max m c)"
  "finite H \<Longrightarrow> opt_min (insert c H) = Some (case opt_min H of None \<Rightarrow> c | Some m \<Rightarrow> min m c)"
  by (auto simp: opt_max_def opt_min_def max.commute min.commute)

definition tally_of :: "(ident \<times> u64) set \<Rightarrow> ident \<Rightarrow> ident \<Rightarrow> live_op list \<Rightarrow> device_tally" where
  "tally_of chosen own d xs = \<lparr>dt_highest = opt_max (taken_counters chosen own d xs),
     dt_lowest_kept = opt_min (kept_counters chosen own d xs), dt_count = length (filter (\<lambda>x. lo_device x = d) xs)\<rparr>"

lemma tally_of_absent:
  "d \<notin> lo_device ` set xs \<Longrightarrow> tally_of chosen own d xs = \<lparr>dt_highest = None, dt_lowest_kept = None, dt_count = 0\<rparr>"
  by (auto simp: tally_of_def opt_max_def opt_min_def taken_counters_def kept_counters_def filter_empty_conv)

definition tally_one :: "(ident \<times> u64) set \<Rightarrow> ident \<Rightarrow> live_op \<Rightarrow> device_tally \<Rightarrow> device_tally" where
  "tally_one chosen own x t =
     (let t = t\<lparr>dt_count := Suc (dt_count t)\<rparr> in
      if taken chosen own x
      then t\<lparr>dt_highest := Some (case dt_highest t of None \<Rightarrow> lo_counter x | Some c \<Rightarrow> max c (lo_counter x))\<rparr>
      else t\<lparr>dt_lowest_kept := Some (case dt_lowest_kept t of None \<Rightarrow> lo_counter x | Some c \<Rightarrow> min c (lo_counter x))\<rparr>)"

lemma get_tally_op: "bt_get (tally_op chosen own x m) d =
    (if lo_device x = d then Some (tally_one chosen own x (case bt_get m d of
       None \<Rightarrow> \<lparr>dt_highest = None, dt_lowest_kept = None, dt_count = 0\<rparr> | Some t \<Rightarrow> t)) else bt_get m d)"
  by (simp add: tally_op_def tally_one_def taken_def Let_def)

lemma tally_of_snoc:
  "tally_of chosen own d (xs @ [x]) =
     (if lo_device x = d then tally_one chosen own x (tally_of chosen own d xs) else tally_of chosen own d xs)"
  by (simp add: tally_of_def tally_one_def Let_def counters_snoc opt_insert)

lemma tally_spec:
  "bt_get (fold (tally_op chosen own) xs bt_empty) d =
     (if d \<in> lo_device ` set xs then Some (tally_of chosen own d xs) else None)"
proof (induction xs rule: rev_induct)
  case (snoc x xs)
  have "(case bt_get (fold (tally_op chosen own) xs bt_empty) d of
      None \<Rightarrow> \<lparr>dt_highest = None, dt_lowest_kept = None, dt_count = 0\<rparr> | Some t \<Rightarrow> t) = tally_of chosen own d xs"
    using snoc tally_of_absent [of d xs] by simp
  then show ?case
    using snoc by (simp add: get_tally_op tally_of_snoc)
qed simp

text \<open>What the cover of one device says of that device's counters.\<close>

lemma le_pred: "(0 :: u64) < k \<Longrightarrow> x \<le> k - 1 \<longleftrightarrow> x < k"
  by uint_arith

lemma tally_cover_cases:
  "tally_cover (d, tally_of chosen own d xs) =
     (let H = taken_counters chosen own d xs; K = kept_counters chosen own d xs in
      map_option (\<lambda>counter. (length (filter (\<lambda>x. lo_device x = d) xs), \<lparr>cov_device = d, cov_counter = counter\<rparr>))
        (if H = {} then None
         else if K = {} \<or> \<not> Min K \<le> Max H then Some (Max H)
         else if Min K = 0 \<or> Min K - 1 = 0 then None else Some (Min K - 1)))"
  by (cases "taken_counters chosen own d xs = {}"; cases "kept_counters chosen own d xs = {}")
    (simp_all add: tally_cover_def tally_of_def opt_max_def opt_min_def Let_def
      del: Min_le_iff Max_ge_iff finite_counters)

lemma tally_cover_below:
  assumes "tally_cover (d, tally_of chosen own d xs) = Some (n, c)"
  shows "cov_device c = d" and "k \<in> kept_counters chosen own d xs \<Longrightarrow> cov_counter c < k"
proof -
  define m where "m = Min (kept_counters chosen own d xs)"
  define h where "h = Max (taken_counters chosen own d xs)"
  note cases = assms [unfolded tally_cover_cases Let_def, folded m_def h_def]
  show "cov_device c = d" using cases by (auto split: if_splits)
  assume k: "k \<in> kept_counters chosen own d xs"
  then have "m \<le> k" by (simp add: m_def)
  moreover have "m \<noteq> 0 \<Longrightarrow> m - 1 < m" using le_pred [of m "m - 1"] by (simp add: word_gt_0)
  ultimately show "cov_counter c < k"
    using cases k by (auto simp: not_le split: if_splits intro: less_le_trans)
qed

lemma tally_cover_reaches:
  assumes "x \<in> set xs" and "taken chosen own x"
    and "\<And>k. k \<in> kept_counters chosen own (lo_device x) xs \<Longrightarrow> 0 < lo_counter x \<and> lo_counter x < k"
  obtains n c where "tally_cover (lo_device x, tally_of chosen own (lo_device x) xs) = Some (n, c)"
    and "covered_by x c"
proof -
  define m where "m = Min (kept_counters chosen own (lo_device x) xs)"
  define h where "h = Max (taken_counters chosen own (lo_device x) xs)"
  have mem: "lo_counter x \<in> taken_counters chosen own (lo_device x) xs"
    using assms(1,2) by (auto simp: taken_counters_def)
  then have high: "lo_counter x \<le> h" by (simp add: h_def)
  have low: "lo_counter x \<le> m - 1 \<and> m \<noteq> 0 \<and> m - 1 \<noteq> 0"
    if "kept_counters chosen own (lo_device x) xs \<noteq> {}"
  proof -
    have "0 < lo_counter x" "lo_counter x < m" using assms(3) that by (auto simp: m_def)
    then show ?thesis by uint_arith
  qed
  note cases = tally_cover_cases [of "lo_device x" chosen own xs, unfolded Let_def, folded m_def h_def]
  show thesis
  proof (cases "kept_counters chosen own (lo_device x) xs = {} \<or> \<not> m \<le> h")
    case True
    with mem high show thesis by (intro that) (auto simp: cases covered_by_def)
  next
    case False
    with mem low show thesis by (intro that) (auto simp: cases covered_by_def)
  qed
qed

text \<open>The covers of every device, and the at most 256 of them that the edit carries.\<close>

definition device_covers :: "live_op list \<Rightarrow> (ident \<times> u64) set \<Rightarrow> ident \<Rightarrow> (nat \<times> cover) list" where
  "device_covers lives chosen own = List.map_filter tally_cover (bt_entries (fold (tally_op chosen own) lives bt_empty))"

definition capped :: "ident \<Rightarrow> (nat \<times> cover) list \<Rightarrow> (nat \<times> cover) list" where
  "capped own cs = (if length cs > MAX_COVERS
     then take MAX_COVERS (sort_key (\<lambda>(n, c). (if cov_device c = own then 0 else 1 :: nat, - int n, cov_device c)) cs)
     else cs)"

lemma covers_for_capped:
  "covers_for lives chosen own = sort_key cov_device (map snd (capped own (device_covers lives chosen own)))"
  by (simp add: covers_for_def device_covers_def capped_def Let_def)

lemma in_map_filter: "y \<in> set (List.map_filter f xs) \<longleftrightarrow> (\<exists>x \<in> set xs. f x = Some y)"
  by (induction xs) (auto split: option.split)

lemma in_device_covers:
  "p \<in> set (device_covers lives chosen own) \<longleftrightarrow>
     (\<exists>d \<in> lo_device ` set lives. tally_cover (d, tally_of chosen own d lives) = Some p)"
  by (force simp: device_covers_def in_map_filter tally_spec split: if_splits)

lemma tally_cover_device: "tally_cover (d, t) = Some p \<Longrightarrow> cov_device (snd p) = d"
  by (auto simp: tally_cover_def)

lemma devices_distinct: "distinct (map fst kvs) \<Longrightarrow> distinct (map (cov_device \<circ> snd) (List.map_filter tally_cover kvs))"
  by (induction kvs) (force simp: in_map_filter dest: tally_cover_device split: option.split)+

lemma capped_bounds:
  "set (capped own cs) \<subseteq> set cs" "length (capped own cs) \<le> MAX_COVERS"
  "distinct (map (cov_device \<circ> snd) cs) \<Longrightarrow> distinct (map (cov_device \<circ> snd) (capped own cs))"
proof -
  let ?f = "\<lambda>(n, c). (if cov_device c = own then 0 else 1 :: nat, - int n, cov_device c)"
  show "set (capped own cs) \<subseteq> set cs" using set_take_subset [of MAX_COVERS "sort_key ?f cs"] by (auto simp: capped_def)
  show "length (capped own cs) \<le> MAX_COVERS" by (simp add: capped_def)
  assume "distinct (map (cov_device \<circ> snd) cs)"
  then show "distinct (map (cov_device \<circ> snd) (capped own cs))"
    by (auto simp: capped_def take_map [symmetric] distinct_map intro: inj_on_subset [OF _ set_take_subset])
qed

lemma sort_key_first:
  assumes "p \<in> set xs"
  shows "\<exists>a rest. sort_key f xs = a # rest \<and> a \<in> set xs \<and> f a \<le> f p"
proof -
  obtain a rest where l: "sort_key f xs = a # rest"
    using assms by (metis empty_iff empty_set list.exhaust set_sort)
  have "set (a # rest) = set xs" "sorted (map f (a # rest))"
    unfolding l [symmetric] by simp_all
  then show ?thesis using assms l by auto
qed

text \<open>The writer's own device comes first, so the cap never drops its cover.\<close>

lemma capped_keeps_own:
  assumes "p \<in> set cs" and "cov_device (snd p) = own" and "distinct (map (cov_device \<circ> snd) cs)"
  shows "p \<in> set (capped own cs)"
proof (cases "length cs > MAX_COVERS")
  case True
  let ?f = "\<lambda>(n, c). (if cov_device c = own then 0 else 1 :: nat, - int n, cov_device c)"
  obtain a rest where l: "sort_key ?f cs = a # rest" and a: "a \<in> set cs" and "?f a \<le> ?f p"
    using sort_key_first [OF assms(1), of ?f] by blast
  then have "cov_device (snd a) = own" using assms(2) by (auto split: prod.splits if_splits)
  then have "p = a" using a assms by (auto simp: distinct_map inj_on_def)
  then show ?thesis using True l by (simp add: capped_def MAX_COVERS_def)
qed (use assms in \<open>simp add: capped_def\<close>)

lemma in_covers_for:
  "c \<in> set (covers_for lives chosen own) \<longleftrightarrow> c \<in> snd ` set (capped own (device_covers lives chosen own))"
  by (simp add: covers_for_capped)

lemma device_covers_distinct: "distinct (map (cov_device \<circ> snd) (device_covers lives chosen own))"
  by (simp add: device_covers_def devices_distinct)

lemma covers_for_sorted: "sorted_wrt (<) (map cov_device (covers_for lives chosen own))"
proof -
  define cs where "cs = map snd (capped own (device_covers lives chosen own))"
  have "distinct (map cov_device cs)"
    using capped_bounds(3) [OF device_covers_distinct] by (simp only: cs_def map_map)
  then have "distinct (map cov_device (sort_key cov_device cs))"
    by (simp add: distinct_map)
  then show ?thesis
    unfolding covers_for_capped cs_def [symmetric] by (simp add: strict_sorted_iff)
qed

lemma covers_for_spares:
  assumes "x \<in> set lives" and "\<not> taken chosen own x"
  shows "\<not> list_ex (covered_by x) (covers_for lives chosen own)"
proof
  assume "list_ex (covered_by x) (covers_for lives chosen own)"
  then obtain c where "c \<in> set (covers_for lives chosen own)" and c: "covered_by x c"
    by (auto simp: list_ex_iff)
  then obtain n d where t: "tally_cover (d, tally_of chosen own d lives) = Some (n, c)"
    using capped_bounds(1) by (fastforce simp: in_covers_for in_device_covers)
  have "lo_counter x \<in> kept_counters chosen own d lives"
    using assms c tally_cover_below(1) [OF t] by (auto simp: kept_counters_def covered_by_def)
  then show False using tally_cover_below(2) [OF t] c by (force simp: covered_by_def)
qed

lemma covers_for_own:
  assumes "x \<in> set lives" and "lo_device x = own"
  shows "list_ex (covered_by x) (covers_for lives chosen own)"
proof -
  have "kept_counters chosen own (lo_device x) lives = {}" and "taken chosen own x"
    using assms(2) by (auto simp: kept_counters_def taken_def)
  then obtain n c where t: "tally_cover (lo_device x, tally_of chosen own (lo_device x) lives) = Some (n, c)" "covered_by x c"
    using tally_cover_reaches [OF assms(1)] by (metis empty_iff)
  then have "(n, c) \<in> set (device_covers lives chosen own)"
    using assms(1) by (auto simp: in_device_covers)
  then have "(n, c) \<in> set (capped own (device_covers lives chosen own))"
    using tally_cover_device [OF t(1)] assms(2) by (intro capped_keeps_own device_covers_distinct) simp_all
  then show ?thesis using t(2) by (force simp: list_ex_iff in_covers_for)
qed

text \<open>
  The covers of an edit keep every branch of a conflict that the writer did not choose: they
  are at most 256, one per device in rising order, as the wire format wants them; they cover every
  live operation of the writer's own device, whatever the cap drops; and they cover no operation
  of another device that was not chosen.
\<close>

theorem covers_for_keeps_branches:
  "sorted_wrt (<) (map cov_device (covers_for lives chosen own))
   \<and> length (covers_for lives chosen own) \<le> MAX_COVERS
   \<and> {x \<in> set lives. lo_device x = own} \<subseteq> {x. list_ex (covered_by x) (covers_for lives chosen own)}
   \<and> {x \<in> set lives. list_ex (covered_by x) (covers_for lives chosen own)}
       \<subseteq> {x. lo_device x = own \<or> (lo_device x, lo_counter x) \<in> chosen}"
proof -
  have "length (covers_for lives chosen own) \<le> MAX_COVERS"
    by (simp add: covers_for_capped capped_bounds(2))
  moreover have "taken chosen own x"
    if "x \<in> set lives" and "list_ex (covered_by x) (covers_for lives chosen own)" for x
    using covers_for_spares that by blast
  ultimately show ?thesis
    using covers_for_sorted covers_for_own by (auto simp: taken_def)
qed

text \<open>
  Up to 256 devices, the covers are as wide as one counter per device allows: a live operation
  is covered exactly when it is chosen or the writer's own and lies below every operation of its
  device that stays live. Counters start at 1, as the device chain requires.
\<close>

theorem covers_for_exact:
  assumes "card (lo_device ` set lives) \<le> MAX_COVERS" and "x \<in> set lives" and "0 < lo_counter x"
  shows "list_ex (covered_by x) (covers_for lives chosen own) \<longleftrightarrow>
     (lo_device x = own \<or> (lo_device x, lo_counter x) \<in> chosen)
     \<and> lo_counter ` {y \<in> set lives. lo_device y = lo_device x \<and> lo_device y \<noteq> own
           \<and> (lo_device y, lo_counter y) \<notin> chosen} \<subseteq> {lo_counter x <..}" (is "?covered \<longleftrightarrow> ?below")
proof
  have kept: "lo_counter ` {y \<in> set lives. lo_device y = lo_device x \<and> lo_device y \<noteq> own
      \<and> (lo_device y, lo_counter y) \<notin> chosen} = kept_counters chosen own (lo_device x) lives"
    by (auto simp: kept_counters_def taken_def)
  have "set (map (cov_device \<circ> snd) (device_covers lives chosen own)) \<subseteq> lo_device ` set lives"
    by (force simp: in_device_covers dest: tally_cover_device)
  then have "length (device_covers lives chosen own) \<le> card (lo_device ` set lives)"
    using distinct_card [OF device_covers_distinct] card_mono [of "lo_device ` set lives"] by (metis List.finite_set finite_imageI length_map)
  then have uncapped: "capped own (device_covers lives chosen own) = device_covers lives chosen own"
    using assms(1) by (simp add: capped_def)
  show ?below if ?covered
  proof -
    from that obtain n c d where t: "tally_cover (d, tally_of chosen own d lives) = Some (n, c)" and c: "covered_by x c"
      by (auto simp: list_ex_iff in_covers_for uncapped in_device_covers)
    with tally_cover_below(1) [OF t] have "d = lo_device x" by (simp add: covered_by_def)
    with tally_cover_below(2) [OF t] c have "kept_counters chosen own (lo_device x) lives \<subseteq> {lo_counter x <..}"
      by (auto simp: covered_by_def intro: le_less_trans)
    with covers_for_spares [OF assms(2)] that show ?thesis unfolding kept by (auto simp: taken_def)
  qed
  show ?covered if ?below
  proof -
    from that have "taken chosen own x" "kept_counters chosen own (lo_device x) lives \<subseteq> {lo_counter x <..}"
      unfolding kept by (auto simp: taken_def)
    then obtain n c where "tally_cover (lo_device x, tally_of chosen own (lo_device x) lives) = Some (n, c)" "covered_by x c"
      using tally_cover_reaches [OF assms(2), of chosen own] assms(3) by (metis greaterThan_iff subsetD)
    then show ?thesis
      using assms(2) by (force simp: list_ex_iff in_covers_for uncapped in_device_covers)
  qed
qed

text \<open>
  A writer that covers its choice among the live operations of an object is never told that its
  covers are incomplete: whatever it chose, none of its earlier states stays live beside the new one.
\<close>

theorem writer_covers_complete:
  assumes "lo_covers x = covers_for (map fst (live ls (lo_rid x))) chosen (lo_device x)"
  shows "live_check ls x \<noteq> Inl Live_SupersedesIncomplete"
proof -
  have "filter (\<lambda>(y, c). c = Class_State \<and> lo_device y = lo_device x)
      (filter (\<lambda>(y, _). \<not> covers x y) (live ls (lo_rid x))) = []"
    using covers_for_own [of _ "map fst (live ls (lo_rid x))" "lo_device x" chosen]
    by (force simp: filter_empty_conv covers_def assms)
  then show ?thesis
    by (auto simp: live_check_def judge_live_def Let_def split: if_splits)
qed

subsection \<open>Floors and the past\<close>

lemma get_fold_adjust:
  "distinct (map fst ds) \<Longrightarrow> bt_get (fold (\<lambda>(k, r). bt_adjust k (f r)) ds m) k =
     (case map_of ds k of None \<Rightarrow> bt_get m k | Some r \<Rightarrow> map_option (f r) (bt_get m k))"
proof (induction ds arbitrary: m)
  case (Cons p ds)
  then have "fst p \<notin> fst ` set ds" by simp
  then have "map_of ds (fst p) = None" by (simp add: map_of_eq_None_iff)
  with Cons show ?case by (auto split: prod.split option.split)
qed simp

lemma map_of_map_filter:
  assumes "\<And>k k' r. g k = Some (k', r) \<Longrightarrow> k' = k"
  shows "map_of (List.map_filter g ks) k = (if k \<in> set ks then map_option snd (g k) else None)"
    and "distinct ks \<Longrightarrow> distinct (map fst (List.map_filter g ks))"
proof -
  show "map_of (List.map_filter g ks) k = (if k \<in> set ks then map_option snd (g k) else None)"
    by (induction ks) (auto split: option.split dest: assms)
  show "distinct ks \<Longrightarrow> distinct (map fst (List.map_filter g ks))"
    by (induction ks) (auto simp: in_map_filter split: option.split dest!: assms)
qed

lemma floor_drop_rid: "floor_drop ls p f c rid = Some (rid', r) \<Longrightarrow> rid' = rid"
  by (auto simp: floor_drop_def split: list.splits if_splits)

text \<open>
  A rising floor drops from every live set, whatever sequence it is read at, exactly the delete
  that stood alone at the checkpoint's covered sequence above the floor before and at or below the
  new one; every other live set stays as it was.
\<close>

theorem floor_drops_lone_deletes:
  "live_at (snd (apply_floor previous_floor flr covered_seq ls)) rid at =
     (case live_at ls rid covered_seq of
        [(x, _)] \<Rightarrow> if lo_delete x \<and> previous_floor < lo_seq x \<and> lo_seq x \<le> flr
          then filter (\<lambda>(y, _). (lo_device y, lo_counter y) \<noteq> (lo_device x, lo_counter x)) (live_at ls rid at)
          else live_at ls rid at
      | _ \<Rightarrow> live_at ls rid at)"
proof -
  let ?g = "floor_drop ls previous_floor flr covered_seq"
  have known: "rid \<in> set (live_rids ls)" if "live_at ls rid covered_seq \<noteq> []"
    using that by (auto simp: live_at_def live_rids_def split: option.splits)
  have "bt_get (ls_rids (snd (apply_floor previous_floor flr covered_seq ls))) rid =
      (case (if rid \<in> set (live_rids ls) then map_option snd (?g rid) else None) of None \<Rightarrow> bt_get (ls_rids ls) rid
       | Some r \<Rightarrow> map_option (\<lambda>s. s\<lparr>rs_dropped := insert (ref_device r, ref_counter r) (rs_dropped s)\<rparr>) (bt_get (ls_rids ls) rid))"
    using map_of_map_filter [of ?g "live_rids ls", OF floor_drop_rid]
    by (simp add: apply_floor_def Let_def get_fold_adjust live_rids_def del: set_map)
  then have "live_at (snd (apply_floor previous_floor flr covered_seq ls)) rid at =
      (case ?g rid of None \<Rightarrow> live_at ls rid at
       | Some (_, r) \<Rightarrow> filter (\<lambda>(y, _). (lo_device y, lo_counter y) \<noteq> (ref_device r, ref_counter r)) (live_at ls rid at))"
    using known
    by (auto simp: live_at_def [of _ rid at] state_live_at_def Let_def floor_drop_def
        split: option.splits list.splits intro!: filter_cong)
  then show ?thesis
    by (auto simp: floor_drop_def as_ref_def split: list.split)
qed

text \<open>
  Operations that the log takes later leave the live set at every earlier sequence as it was, so
  two devices that read one checkpoint's live set agree however far each has pulled.
\<close>

theorem later_operations_keep_the_past:
  assumes "\<forall>x \<in> set xs. at < lo_seq x"
  shows "live_at (fold (\<lambda>x ls. snd (live_apply x ls)) xs ls) rid at = live_at ls rid at"
  using assms
proof (induction xs arbitrary: ls)
  case (Cons x xs)
  then have "\<not> lo_seq x \<le> at" by (auto simp: not_le)
  then have "live_at (snd (live_apply x ls)) rid at = live_at ls rid at"
    by (auto simp: live_apply_def live_insert_def live_at_def state_live_at_def empty_rid_def Let_def
        split: option.split)
  with Cons show ?case by simp
qed simp

end
