(* ===== verification/Log_Examples.thy ===== *)
theory Log_Examples
  imports Payloads Chain_Laws Live_Laws Keys_Examples
begin

text \<open>
  Concrete inputs for the theorems about operations: a delete that is sealed and opened, a device's
  history of two operations with a skipped counter, and live sets with a conflict between two devices.
\<close>

subsection \<open>Payloads and chains\<close>

definition demo_delete :: payload where
  "demo_delete = \<lparr>pay_rid = Ident 60, pay_kind = Payload_Delete [] ZERO_digest Deleted None\<rparr>"

definition demo_op :: "nat \<Rightarrow> operation signed" where
  "demo_op n = \<lparr>body = \<lparr>op_workspace = Ident 40, op_domain = Ident 50, op_device = Ident 1,
       op_counter = of_nat (2 * n - 1), op_previous = (if n = 1 then ZERO_digest else demo_digest (70 + n - 1)),
       op_epoch = 1, op_policy_revision = 1, op_policy_head = ZERO_digest, op_previous_attempt = ZERO_digest,
       op_generation = 0, op_checkpoint_seq = 0, op_checkpoint = ZERO_digest, op_rid = Ident 60, op_delete = True,
       op_supersedes = [], op_blobs = [], op_nonce = ZERO_nonce, op_ciphertext = []\<rparr>,
     sig = Signature (of_nat (70 + n))\<rparr>"

lemma demo_op_digest [simp]: "70 + n < 256 \<Longrightarrow> signed_operation_digest epoch_crypto (demo_op n) = demo_digest (70 + n)"
proof -
  assume "70 + n < 256"
  then have "signed_operation_digest demo_crypto (demo_op n) = demo_digest (70 + n)"
    unfolding demo_op_def by (intro demo_sig_digest)
  then show ?thesis by (simp add: signed_digest_def hash_def epoch_crypto_def)
qed

lemma demo_digests [simp]: "demo_digest 71 \<noteq> ZERO_digest" "demo_digest 72 \<noteq> ZERO_digest" "demo_digest 71 \<noteq> demo_digest 72" "demo_digest 72 \<noteq> demo_digest 71"
  by (simp_all add: demo_digest_def ZERO_digest_def)

lemma demo_op_fields [simp]: "op_device (body (demo_op n)) = Ident 1" "op_rid (body (demo_op n)) = Ident 60"
  "op_delete (body (demo_op n))" "op_counter (body (demo_op n)) = of_nat (2 * n - 1)"
  "op_previous_attempt (body (demo_op n)) = ZERO_digest"
  "op_previous (body (demo_op n)) = (if n = 1 then ZERO_digest else demo_digest (70 + n - 1))"
  by (simp_all add: demo_op_def)

lemma demo_delete_length: "length (enc_payload demo_delete) = length (tag_bytes Tag_Payload) + 53"
  by (simp add: demo_delete_def enc_payload_def w_u8_def w_str_def w_u16_def enc_delete_reason_def enc_option_def)

theorem sealed_payload_opens_witness:
  "\<exists>op2. seal_payload epoch_crypto (body (demo_op 1)) demo_delete (demo_key 1) (demo_digest 31) ZERO_nonce = Inr op2
    \<and> open_payload epoch_crypto op2 (demo_key 1) (demo_digest 31) Class_State = Inr demo_delete"
proof -
  have "wf_payload demo_delete"
    by (simp add: demo_delete_def wf_payload_def wf_ident_def ident_is_zero_def wf_str_def fits_u16_def STR_MAX_def wf_option_def)
  moreover have "length (enc_payload demo_delete) \<le> MAX_PAYLOAD_LEN"
    unfolding demo_delete_length by (simp add: MAX_PAYLOAD_LEN_def tag_bytes_def)
  moreover have "pay_rid demo_delete = op_rid (body (demo_op 1))"
    "payload_is_delete (pay_kind demo_delete) = op_delete (body (demo_op 1))"
    "payload_class (pay_kind demo_delete) = Class_State"
    by (simp_all add: demo_delete_def)
  ultimately show ?thesis
    using sealed_payload_opens [OF epoch_laws(1), of demo_delete "body (demo_op 1)" "demo_key 1" "demo_digest 31" ZERO_nonce Class_State]
    by auto
qed

lemma demo_page_extends:
  "extends (heads_of new_verifier) [chain_record_of epoch_crypto (demo_op 1) 5, chain_record_of epoch_crypto (demo_op 2) 6]"
  by (simp add: heads_of_def device_head_entry device_entry_def new_verifier_def default_chain_def NONE_head_def)

lemma demo_ignores_none: "ignores_none new_verifier"
  by (simp add: ignores_none_def ignores_entry device_entry_def new_verifier_def default_chain_def domIff)

theorem honest_page_applies_witness:
  "\<exists>v'. process_page [chain_record_of epoch_crypto (demo_op 1) 5, chain_record_of epoch_crypto (demo_op 2) 6] no_fetch
     new_verifier () = (Inr [Chain_Accept, Chain_Accept], v', ())"
  using honest_page_applies [OF demo_ignores_none demo_page_extends, of no_fetch "()"] by (auto simp: numeral_2_eq_2)

text \<open>
  Device 1 seals its first position again: the second attempt, whose digest is 73, names the first, and the next
  record, with digest 74, follows the second.
\<close>

definition demo_again :: "operation signed" where
  "demo_again = \<lparr>body = (body (demo_op 1))\<lparr>op_previous_attempt := demo_digest 71\<rparr>, sig = Signature 73\<rparr>"

lemma demo_again_fields [simp]: "op_device (body demo_again) = Ident 1" "op_counter (body demo_again) = 1"
  "op_previous (body demo_again) = ZERO_digest" "op_previous_attempt (body demo_again) = demo_digest 71"
  by (simp_all add: demo_again_def)

definition demo_follow :: "operation signed" where
  "demo_follow = \<lparr>body = (body (demo_op 2))\<lparr>op_previous := demo_digest 73\<rparr>, sig = Signature 74\<rparr>"

lemma demo_follow_fields [simp]: "op_device (body demo_follow) = Ident 1" "op_counter (body demo_follow) = 3"
  "op_previous (body demo_follow) = demo_digest 73" "op_previous_attempt (body demo_follow) = ZERO_digest"
  by (simp_all add: demo_follow_def)

lemma demo_again_digests [simp]:
  "signed_operation_digest epoch_crypto demo_again = demo_digest 73" "signed_operation_digest epoch_crypto demo_follow = demo_digest 74"
proof -
  have "signed_operation_digest demo_crypto \<lparr>body = b, sig = Signature 73\<rparr> = demo_digest 73"
    "signed_operation_digest demo_crypto \<lparr>body = b, sig = Signature 74\<rparr> = demo_digest 74" for b
    using demo_sig_digest [of 73 enc_operation b] demo_sig_digest [of 74 enc_operation b] by simp_all
  then show "signed_operation_digest epoch_crypto demo_again = demo_digest 73" "signed_operation_digest epoch_crypto demo_follow = demo_digest 74"
    by (simp_all add: demo_again_def demo_follow_def signed_digest_def hash_def epoch_crypto_def)
qed

abbreviation demo_page :: "(operation signed \<times> u64) list" where
  "demo_page \<equiv> [(demo_op 1, 5), (demo_again, 6), (demo_follow, 7)]"

abbreviation demo_verdicts :: "chain_verdict list" where
  "demo_verdicts \<equiv> [Chain_Accept, Chain_Replace (demo_digest 71), Chain_Accept]"

lemma demo_page_passes:
  "\<exists>v. process_page (map (\<lambda>(x, s). chain_record_of epoch_crypto x s) demo_page) no_fetch new_verifier () = (Inr demo_verdicts, v, ())"
proof -
  let ?r = "\<lambda>x s. chain_record_of epoch_crypto x s" and ?c = "carried_of (map (\<lambda>(x, s). chain_record_of epoch_crypto x s) demo_page)"
  define v1 where "v1 = accept_record (?r (demo_op 1) 5) new_verifier"
  have first: "process no_fetch ?c (?r (demo_op 1) 5) new_verifier () = (Inr Chain_Accept, v1, ())"
    using demo_ignores_none
    by (subst process.simps) (simp add: v1_def ignores_none_def device_head_entry device_entry_def new_verifier_def default_chain_def NONE_head_def)
  have head1: "device_head v1 (Ident 1) = \<lparr>hd_counter = 1, hd_digest = demo_digest 71, hd_seq = 5\<rparr>"
    by (simp add: v1_def device_head_entry)
  have reach: "reaches lookup (demo_digest 71) {} (demo_digest 71)" for lookup
    by (subst reaches.simps) (simp add: digest_is_zero_def demo_digest_def ZERO_digest_def)
  obtain v2 where rule: "rule_one (?r demo_again 6) (device_head v1 (Ident 1)) ?c v1 = (Inr (Chain_Replace (demo_digest 71)), v2)"
    and v2: "device_head v2 (Ident 1) = \<lparr>hd_counter = 1, hd_digest = demo_digest 73, hd_seq = 6\<rparr>" "ignores_none v2"
    using demo_ignores_none reach head1
    by (auto simp: rule_one_def Let_def v1_def digest_is_zero_def demo_digest_def ZERO_digest_def bt_values_def ignores_none_def ignores_entry)
  have "ignores_none v1" using demo_ignores_none by (simp add: v1_def ignores_none_def)
  then have second: "process no_fetch ?c (?r demo_again 6) v1 () = (Inr (Chain_Replace (demo_digest 71)), v2, ())"
    using rule head1 by (subst process.simps) (simp add: ignores_none_def)
  have third: "process no_fetch ?c (?r demo_follow 7) v2 () = (Inr Chain_Accept, accept_record (?r demo_follow 7) v2, ())"
    using v2 by (subst process.simps) (simp add: ignores_none_def word_le_nat_alt)
  show ?thesis using first second third by (simp add: process_page_def)
qed

theorem page_applies_prefix_witness:
  "list_all2 (\<lambda>x attempts. x \<in> set attempts) (applied_of (Ident 1) demo_page demo_verdicts) [[demo_op 1, demo_again], [demo_follow]]
    \<and> replaces epoch_crypto [[demo_op 1, demo_again], [demo_follow]] demo_again (demo_digest 71)"
proof -
  let ?hist = "[[demo_op 1, demo_again], [demo_follow]]"
  have hist: "device_history epoch_crypto (Ident 1) ?hist"
    by (simp add: device_history_def less_Suc_eq counter_at_def numeral_2_eq_2 [symmetric])
      (simp add: demo_digest_def ZERO_digest_def)
  have fetch: "fetches_from epoch_crypto {} no_fetch"
    by (simp add: fetches_from_def no_fetch_def)
  have apart: "\<not> digests_collide epoch_crypto (set (concat ?hist) \<union> {})"
    by (auto simp: digests_collide_def collision_def demo_digest_def)
  obtain v where run: "process_page (map (\<lambda>(x, s). chain_record_of epoch_crypto x s) demo_page) no_fetch new_verifier ()
      = (Inr demo_verdicts, v, ())"
    using demo_page_passes by blast
  have differ: "demo_follow \<noteq> demo_op 1" "demo_follow \<noteq> demo_again" by (simp_all add: demo_follow_def demo_op_def demo_again_def)
  obtain m where m: "list_all2 (\<lambda>x attempts. x \<in> set attempts) (applied_of (Ident 1) demo_page demo_verdicts) (take m ?hist)"
    "demo_follow \<in> set (concat (take m ?hist))" "replaces epoch_crypto ?hist demo_again (demo_digest 71)"
    using page_applies_prefix [OF hist fetch _ run] apart by auto
  then have "2 \<le> m" using differ by (cases m; cases "m - 1") auto
  then show ?thesis using m(1,3) by simp
qed

text \<open>
  Device 1 re-sealed its first operation: the attempt has digest 5, its next record, with digest 6,
  follows the attempt, and the server's page leaves the attempt out.
\<close>

definition demo_record :: "nat \<Rightarrow> nat \<Rightarrow> digest \<Rightarrow> digest \<Rightarrow> nat \<Rightarrow> chain_record" where
  "demo_record counter d previous previous_attempt at = \<lparr>cr_device = Ident 1, cr_counter = of_nat counter,
     cr_previous = previous, cr_previous_attempt = previous_attempt, cr_digest = demo_digest d, cr_seq = of_nat at\<rparr>"

theorem fetched_attempt_unreported_witness:
  "\<exists>v'. process (\<lambda>f _ _. (Fetched_Record (demo_record 1 5 ZERO_digest (demo_digest 4) 2), f)) bt_empty
      (demo_record 2 6 (demo_digest 5) ZERO_digest 3)
      (accept_record (demo_record 1 4 ZERO_digest ZERO_digest 1) new_verifier) () = (Inr Chain_Accept, v', ())"
proof -
  let ?v = "accept_record (demo_record 1 4 ZERO_digest ZERO_digest 1) new_verifier"
  have "\<exists>v'. process (\<lambda>f _ _. (Fetched_Record (demo_record 1 5 ZERO_digest (demo_digest 4) 2), f)) bt_empty
      (demo_record 2 6 (demo_digest 5) ZERO_digest 3) ?v () = (Inr Chain_Accept, v', ())
    \<and> (\<exists>v''. process (\<lambda>f _ _. (Fetched_Record (demo_record 1 5 ZERO_digest (demo_digest 4) 2), f)) bt_empty
      (demo_record 1 5 ZERO_digest (demo_digest 4) 2) v' () = (Inr Chain_Ignore, v'', ()))"
    using demo_ignores_none
    by (intro fetched_attempt_unreported [of ?v "Ident 1" "\<lparr>hd_counter = 1, hd_digest = demo_digest 4, hd_seq = 1\<rparr>"])
      (simp_all add: ignores_none_def demo_record_def demo_digest_def digest_is_zero_def ZERO_digest_def)
  then show ?thesis by blast
qed

subsection \<open>Live sets\<close>

text \<open>An operation on object 60 with 100 bytes of ciphertext.\<close>

definition demo_live_op :: "nat \<Rightarrow> nat \<Rightarrow> nat \<Rightarrow> (nat \<times> nat) list \<Rightarrow> live_op" where
  "demo_live_op device counter at cs = \<lparr>lo_rid = Ident 60, lo_device = Ident (of_nat device), lo_counter = of_nat counter,
     lo_seq = of_nat at, lo_digest = demo_digest at, lo_delete = False,
     lo_covers = map (\<lambda>(d, n). \<lparr>cov_device = Ident (of_nat d), cov_counter = of_nat n\<rparr>) cs, lo_weight = 100\<rparr>"

text \<open>Two states in conflict: device 2 did not know of device 1's edit.\<close>

definition demo_conflict :: live_set where
  "demo_conflict = snd (live_apply (demo_live_op 2 1 2 [(1, 0)]) (snd (live_apply (demo_live_op 1 1 1 []) new_live)))"

lemma demo_live: "live demo_conflict (Ident 60) =
    [(demo_live_op 1 1 1 [], Class_State), (demo_live_op 2 1 2 [(1, 0)], Class_State)]"
  by (simp add: live_def live_at_max demo_conflict_def live_apply_def live_insert_def live_class_of_def class_of_def
      new_live_def empty_rid_def Let_def demo_live_op_def covers_def covered_by_def domIff)

theorem check_keeps_limits_witness:
  "within_limits (live (snd (live_apply (demo_live_op 1 2 3 [(1, 1)]) demo_conflict)) (Ident 60))"
proof -
  have limits: "within_limits (live demo_conflict (Ident 60))"
    unfolding demo_live
    by (simp add: within_limits_def patches_of_def states_of_def MAX_LIVE_PATCHES_def MAX_LIVE_STATES_def demo_live_op_def)
  have "lo_rid (demo_live_op 1 2 3 [(1, 1)]) = Ident 60" by (simp add: demo_live_op_def)
  moreover have "live_check demo_conflict (demo_live_op 1 2 3 [(1, 1)]) = Inr Class_State"
    unfolding live_check_def calculation demo_live
    by (simp add: Let_def judge_live_def demo_conflict_def live_apply_def live_insert_def live_class_of_def class_of_def
        new_live_def empty_rid_def demo_live_op_def covers_def covered_by_def names_op_def MAX_LIVE_PATCHES_def
        MAX_LIVE_STATES_def MAX_LIVE_PATCH_BYTES_def)
  moreover have "unat (lo_weight (demo_live_op 1 2 3 [(1, 1)])) < 2 ^ 63" by (simp add: demo_live_op_def)
  ultimately show ?thesis
    using check_keeps_limits [of demo_conflict "Ident 60" "demo_live_op 1 2 3 [(1, 1)]" Class_State] limits by simp
qed

theorem covers_for_exact_witness:
  "list_ex (covered_by (demo_live_op 1 2 1 [])) (covers_for [demo_live_op 1 2 1 [], demo_live_op 1 5 2 []] {(Ident 1, 2)} (Ident 3))"
  by (subst covers_for_exact) (auto simp: demo_live_op_def MAX_COVERS_def)

theorem writer_covers_complete_witness:
  "live_check demo_conflict (demo_live_op 1 2 3 []
     \<lparr>lo_covers := covers_for (map fst (live demo_conflict (Ident 60))) {(Ident 2, 1)} (Ident 1)\<rparr>)
   \<noteq> Inl Live_SupersedesIncomplete"
  by (rule writer_covers_complete [of _ _ "{(Ident 2, 1)}"]) (simp add: demo_live_op_def)

theorem later_operations_keep_the_past_witness:
  "live_at (snd (live_apply (demo_live_op 1 2 3 [(1, 1)]) demo_conflict)) (Ident 60) 2 = live_at demo_conflict (Ident 60) 2"
  using later_operations_keep_the_past [of "[demo_live_op 1 2 3 [(1, 1)]]" 2 demo_conflict "Ident 60"]
  by (simp add: demo_live_op_def)

definition demo_gaps :: live_set where
  "demo_gaps = fold (\<lambda>x ls. snd (live_apply x ls))
     [demo_live_op 1 2 1 [], demo_live_op 1 5 2 [], demo_live_op 1 9 3 []] new_live"

text \<open>
  The covers of an edit may be covers that the server refuses. Device 1 has a state and two
  patches live on object 60 at counters 2, 5
  and 9; a writer of another device chooses the first and the last and leaves the patch at 5, which its
  document does not hold yet. The cover computed for device 1 is counter 4, one below the patch, not
  2, the highest chosen counter below it; no operation has counter 4, so the server's check answers
  \<open>supersedes_unknown\<close>.
\<close>

theorem covers_may_name_no_operation:
  "covers_for (map fst (live demo_gaps (Ident 60))) {(Ident 1, 2), (Ident 1, 9)} (Ident 3)
     = [\<lparr>cov_device = Ident 1, cov_counter = 4\<rparr>]
   \<and> live_check demo_gaps (demo_live_op 3 1 4 [(1, 4)]) = Inl Live_SupersedesUnknown
   \<and> live_check demo_gaps (demo_live_op 3 1 4 [(1, 2)]) = Inr Class_State"
proof -
  have lives: "live demo_gaps (Ident 60) = [(demo_live_op 1 2 1 [], Class_State),
      (demo_live_op 1 5 2 [], Class_Patch), (demo_live_op 1 9 3 [], Class_Patch)]"
    by (simp add: live_def live_at_max demo_gaps_def live_apply_def live_insert_def live_class_of_def class_of_def
        new_live_def empty_rid_def Let_def demo_live_op_def covers_def domIff)
  have ops: "\<exists>s. bt_get (ls_rids demo_gaps) (Ident 60) = Some s \<and> rs_ops s = live demo_gaps (Ident 60)"
    unfolding lives
    by (simp add: demo_gaps_def live_apply_def live_insert_def live_class_of_def class_of_def
        new_live_def empty_rid_def Let_def demo_live_op_def domIff)
  have "covers_for (map fst (live demo_gaps (Ident 60))) {(Ident 1, 2), (Ident 1, 9)} (Ident 3)
      = [\<lparr>cov_device = Ident 1, cov_counter = 4\<rparr>]"
    unfolding lives
    by (simp add: covers_for_def tally_op_def tally_cover_def demo_live_op_def Let_def MAX_COVERS_def)
  moreover have "live_check demo_gaps (demo_live_op 3 1 4 [(1, 4)]) = Inl Live_SupersedesUnknown"
    using ops unfolding lives
    by (auto simp: live_check_def Let_def judge_live_def demo_live_op_def names_op_def)
  moreover have "live_check demo_gaps (demo_live_op 3 1 4 [(1, 2)]) = Inr Class_State"
    using ops lives
    by (auto simp: live_check_def Let_def judge_live_def demo_live_op_def names_op_def class_of_def covers_def
        covered_by_def MAX_LIVE_PATCHES_def MAX_LIVE_STATES_def MAX_LIVE_PATCH_BYTES_def)
  ultimately show ?thesis by blast
qed

end
