(* ===== verification/Manifest.thy ===== *)
theory Manifest
  imports Records_Checkpoint BTree
begin

text \<open>
  The Merkle-rooted manifest of a domain and its checkpoint chain (\<^verbatim>\<open>manifest.rs\<close>, \<section>17): buckets,
  nodes and roots, the checks of a bootstrap, the descent walk, the checks on a checkpoint, and the
  walk for checkpoints that a log left out.
\<close>

unbundle bit_operations_syntax

subsection \<open>The tree\<close>

definition BUCKETS :: nat where "BUCKETS = 4096"

definition bucket_of :: "ident \<Rightarrow> u16" where
  "bucket_of rid = push_bit 4 (ucast (ident_bytes rid ! 0)) OR drop_bit 4 (ucast (ident_bytes rid ! 1))"

definition leaf_input :: "ident \<Rightarrow> op_ref list \<Rightarrow> byte list" where
  "leaf_input rid refs = tag_bytes Tag_ManifestLeaf @ ident_bytes rid @ encode_list enc_ref refs"

definition leaf_hash :: "crypto \<Rightarrow> ident \<Rightarrow> op_ref list \<Rightarrow> digest" where
  "leaf_hash cr rid refs = hash_parts cr [leaf_input rid refs]"

definition bucket_input :: "u16 \<Rightarrow> digest list \<Rightarrow> byte list" where
  "bucket_input index leaf_hashes = tag_bytes Tag_ManifestBucket @ w_u16 index @ encode_list digest_bytes leaf_hashes"

definition bucket_hash :: "crypto \<Rightarrow> u16 \<Rightarrow> digest list \<Rightarrow> digest" where
  "bucket_hash cr index leaf_hashes = hash_parts cr [bucket_input index leaf_hashes]"

definition node_input :: "u8 \<Rightarrow> u16 \<Rightarrow> digest list \<Rightarrow> byte list" where
  "node_input level index children = tag_bytes Tag_ManifestNode @ w_u8 level @ w_u16 index
     @ concat (map digest_bytes children)"

definition node_hash :: "crypto \<Rightarrow> u8 \<Rightarrow> u16 \<Rightarrow> digest list \<Rightarrow> digest" where
  "node_hash cr level index children = hash_parts cr [node_input level index children]"

text \<open>The slice \<open>hs[j * 16..j * 16 + 16]\<close>, and the level above a list of hashes.\<close>

definition slice16 :: "nat \<Rightarrow> 'a list \<Rightarrow> 'a list" where
  "slice16 j hs = take 16 (drop (j * 16) hs)"

definition level_above :: "crypto \<Rightarrow> u8 \<Rightarrow> nat \<Rightarrow> digest list \<Rightarrow> digest list" where
  "level_above cr level n hs = map (\<lambda>j. node_hash cr level (of_nat j) (slice16 j hs)) [0..<n]"

text \<open>Its callers check or build the 4,096 hashes, so the assertion on their number holds.\<close>

definition root_of_buckets :: "crypto \<Rightarrow> digest list \<Rightarrow> digest" where
  "root_of_buckets cr buckets =
     (let level2 = level_above cr 2 256 buckets; level1 = level_above cr 1 16 level2
      in node_hash cr 0 0 level1)"

definition node_children :: "crypto \<Rightarrow> digest list \<Rightarrow> u8 \<Rightarrow> u16 \<Rightarrow> digest list option" where
  "node_children cr buckets level index =
     (let i = unat index;
          level2 = (\<lambda>j. node_hash cr 2 (of_nat j) (slice16 j buckets));
          level1 = (\<lambda>j. node_hash cr 1 (of_nat j) (map level2 [j * 16..<j * 16 + 16]))
      in if level = 0 \<and> i = 0 then Some (map level1 [0..<16])
         else if level = 1 \<and> i < 16 then Some (map level2 [i * 16..<i * 16 + 16])
         else if level = 2 \<and> i < 256 then Some (slice16 i buckets)
         else None)"

definition heads_input :: "op_ref list \<Rightarrow> byte list" where
  "heads_input heads = tag_bytes Tag_ManifestHeads @ encode_list enc_ref heads"

definition heads_digest :: "crypto \<Rightarrow> op_ref list \<Rightarrow> digest" where
  "heads_digest cr heads = hash_parts cr [heads_input heads]"

subsection \<open>Manifests\<close>

record manifest =
  mf_leaves :: "(ident, op_ref list) btree"

definition new_manifest :: "(ident, op_ref list) btree \<Rightarrow> manifest" where
  "new_manifest leaves = \<lparr>mf_leaves = bt_map (\<lambda>_ refs. sort_key (\<lambda>r. (ref_device r, ref_counter r)) refs)
     (bt_filter (\<lambda>_ refs. refs \<noteq> []) leaves)\<rparr>"

definition manifest_live_objects :: "manifest \<Rightarrow> u64" where
  "manifest_live_objects m = of_nat (bt_len (mf_leaves m))"

definition push_leaf :: "crypto \<Rightarrow> ident \<times> op_ref list \<Rightarrow> digest list list \<Rightarrow> digest list list" where
  "push_leaf cr = (\<lambda>(rid, refs) per_bucket. per_bucket[unat (bucket_of rid) :=
     per_bucket ! unat (bucket_of rid) @ [leaf_hash cr rid refs]])"

definition bucket_hashes :: "crypto \<Rightarrow> manifest \<Rightarrow> digest list" where
  "bucket_hashes cr m =
     (let per_bucket = fold (push_leaf cr) (bt_entries (mf_leaves m)) (replicate BUCKETS [])
      in map (\<lambda>(i, hashes). bucket_hash cr (of_nat i) hashes) (List.enumerate 0 per_bucket))"

definition manifest_root :: "crypto \<Rightarrow> manifest \<Rightarrow> digest" where
  "manifest_root cr m = root_of_buckets cr (bucket_hashes cr m)"

definition bucket_leaves :: "manifest \<Rightarrow> u16 \<Rightarrow> (ident \<times> op_ref list) list" where
  "bucket_leaves m index = filter (\<lambda>(rid, _). bucket_of rid = index) (bt_entries (mf_leaves m))"

datatype manifest_mismatch = ManifestMismatch

definition verify_buckets :: "crypto \<Rightarrow> digest list \<Rightarrow> digest \<Rightarrow> manifest_mismatch + unit" where
  "verify_buckets cr buckets root =
     (if length buckets \<noteq> BUCKETS \<or> root_of_buckets cr buckets \<noteq> root then Inl ManifestMismatch else Inr ())"

definition verify_bucket ::
  "crypto \<Rightarrow> u16 \<Rightarrow> (ident \<times> op_ref list) list \<Rightarrow> digest \<Rightarrow> manifest_mismatch + unit" where
  "verify_bucket cr index leaves h =
     (let sorted_leaves = list_all (\<lambda>(x, y). fst x < fst y) (windows2 leaves) in
      if \<not> sorted_leaves \<or> list_ex (\<lambda>(rid, _). bucket_of rid \<noteq> index) leaves then Inl ManifestMismatch
      else if bucket_hash cr index (map (\<lambda>(rid, refs). leaf_hash cr rid refs) leaves) \<noteq> h then Inl ManifestMismatch
      else Inr ())"

definition verify_manifest :: "crypto \<Rightarrow> manifest \<Rightarrow> digest \<Rightarrow> u64 \<Rightarrow> manifest_mismatch + unit" where
  "verify_manifest cr m root live_objects =
     (if manifest_root cr m \<noteq> root \<or> manifest_live_objects m \<noteq> live_objects then Inl ManifestMismatch else Inr ())"

subsection \<open>Descent\<close>

definition skip_number :: "u64 \<Rightarrow> u64" where
  "skip_number number = number AND (number - 1)"

definition descent_step :: "u64 \<Rightarrow> u64 \<Rightarrow> u64" where
  "descent_step to current = (let skip = skip_number current in if skip \<ge> to \<and> skip > 0 then skip else current - 1)"

lemma pred_less: "(0 :: u64) < n \<Longrightarrow> n - 1 < n"
  by uint_arith

lemma skip_number_less: "0 < n \<Longrightarrow> skip_number n < n"
  using pred_less [of n] word_and_le1 [of n "n - 1"] by (simp add: skip_number_def)

lemma descent_step_less: "to < current \<Longrightarrow> descent_step to current < current"
  using skip_number_less [of current] pred_less [of current]
  by (simp add: descent_step_def Let_def order_le_less_trans [OF word_zero_le])

function descent_from :: "u64 \<Rightarrow> u64 \<Rightarrow> u64 list" where
  "descent_from to current =
     (if current > to then descent_step to current # descent_from to (descent_step to current) else [])"
  by pat_completeness auto
termination
  by (relation "measure (\<lambda>(_, current). unat current)") (simp_all add: descent_step_less word_less_nat_alt [symmetric])

declare descent_from.simps [simp del]

definition descent_path :: "u64 \<Rightarrow> u64 \<Rightarrow> u64 list" where
  "descent_path from to = from # descent_from to from"

datatype descent_error = DescentError

definition descends_to :: "crypto \<Rightarrow> checkpoint signed \<Rightarrow> checkpoint signed \<Rightarrow> bool" where
  "descends_to cr newer older \<longleftrightarrow>
     (let n = body newer; d = signed_checkpoint_digest cr older; number = cp_number (body older);
          via_previous = (cp_previous n = d \<and> cp_number n = number + 1);
          via_skip = (cp_skip n = d \<and> skip_number (cp_number n) = number \<and> number > 0)
      in via_previous \<or> via_skip)"

definition verify_descent :: "crypto \<Rightarrow> checkpoint signed list \<Rightarrow> digest \<Rightarrow> descent_error + unit" where
  "verify_descent cr walk anchor =
     (if walk = [] then Inl DescentError
      else if signed_checkpoint_digest cr (last walk) \<noteq> anchor then Inl DescentError
      else if list_all (\<lambda>(newer, older). descends_to cr newer older) (windows2 walk) then Inr ()
      else Inl DescentError)"

subsection \<open>The checkpoint chain\<close>

record checkpoint_chain =
  cc_by_number :: "(u64, digest \<times> checkpoint) btree"

datatype checkpoint_error = Cp_Heads | Cp_Link | Cp_Rollback | Cp_Mismatch

fun checkpoint_client_code :: "checkpoint_error \<Rightarrow> string" where
  "checkpoint_client_code Cp_Heads = ''sync_manifest_mismatch''"
| "checkpoint_client_code Cp_Mismatch = ''sync_manifest_mismatch''"
| "checkpoint_client_code Cp_Link = ''sync_chain_gap''"
| "checkpoint_client_code Cp_Rollback = ''sync_manifest_rollback''"

definition new_checkpoint_chain :: checkpoint_chain where
  "new_checkpoint_chain = \<lparr>cc_by_number = bt_empty\<rparr>"

definition latest_checkpoint :: "checkpoint_chain \<Rightarrow> (digest \<times> checkpoint) option" where
  "latest_checkpoint c = (let vs = bt_values (cc_by_number c) in if vs = [] then None else Some (last vs))"

definition checkpoint_digest_of :: "checkpoint_chain \<Rightarrow> u64 \<Rightarrow> digest option" where
  "checkpoint_digest_of c number = map_option fst (bt_get (cc_by_number c) number)"

record chain_view =
  vw_last :: "(digest \<times> u64) option"
  vw_skip_of :: "u64 \<Rightarrow> digest option"
  vw_accepted :: "(checkpoint \<times> op_ref list) option"

definition heads_fell_back :: "op_ref list \<Rightarrow> op_ref list \<Rightarrow> (ident \<Rightarrow> bool) \<Rightarrow> bool" where
  "heads_fell_back heads previous_heads may_leave \<longleftrightarrow>
     list_ex (\<lambda>old. case find (\<lambda>h. ref_device h = ref_device old) heads of
         Some new \<Rightarrow> ref_counter new < ref_counter old
       | None \<Rightarrow> \<not> may_leave (ref_device old)) previous_heads"

definition check_checkpoint ::
  "crypto \<Rightarrow> checkpoint signed \<Rightarrow> op_ref list \<Rightarrow> manifest \<Rightarrow> chain_view \<Rightarrow> (ident \<Rightarrow> bool)
   \<Rightarrow> checkpoint_error + unit" where
  "check_checkpoint cr record1 heads m view may_leave =
     (let b = body record1 in
      if heads_digest cr heads \<noteq> cp_heads_digest b \<or> list_ex (\<lambda>h. ref_seq h > cp_covered_seq b) heads
      then Inl Cp_Heads
      else let (previous, number) = (case vw_last view of None \<Rightarrow> (ZERO_digest, 0) | Some l \<Rightarrow> l);
               skip = skip_number (cp_number b);
               expected_skip = (if skip = 0 then Some ZERO_digest else vw_skip_of view skip)
        in if cp_previous b \<noteq> previous \<or> cp_number b \<noteq> number + 1
             \<or> (case expected_skip of None \<Rightarrow> False | Some s \<Rightarrow> s \<noteq> cp_skip b)
           then Inl Cp_Link
           else if (case vw_accepted view of None \<Rightarrow> False
             | Some (accepted, previous_heads) \<Rightarrow>
                 cp_floor b < cp_floor accepted \<or> cp_covered_seq b \<le> cp_covered_seq accepted
                 \<or> heads_fell_back heads previous_heads may_leave)
           then Inl Cp_Rollback
           else if manifest_root cr m \<noteq> cp_manifest_root b \<or> manifest_live_objects m \<noteq> cp_live_objects b
           then Inl Cp_Mismatch
           else Inr ())"

definition checkpoint_chain_check ::
  "crypto \<Rightarrow> checkpoint_chain \<Rightarrow> checkpoint signed \<Rightarrow> op_ref list \<Rightarrow> manifest \<Rightarrow> op_ref list
   \<Rightarrow> (ident \<Rightarrow> bool) \<Rightarrow> checkpoint_error + unit" where
  "checkpoint_chain_check cr c record1 heads m previous_heads may_leave =
     check_checkpoint cr record1 heads m
       \<lparr>vw_last = map_option (\<lambda>(d, l). (d, cp_number l)) (latest_checkpoint c),
        vw_skip_of = checkpoint_digest_of c,
        vw_accepted = map_option (\<lambda>(_, l). (l, previous_heads)) (latest_checkpoint c)\<rparr> may_leave"

definition checkpoint_chain_accept :: "crypto \<Rightarrow> checkpoint_chain \<Rightarrow> checkpoint signed \<Rightarrow> checkpoint_chain" where
  "checkpoint_chain_accept cr c record1 = c\<lparr>cc_by_number := bt_insert (cp_number (body record1))
     (signed_checkpoint_digest cr record1, body record1) (cc_by_number c)\<rparr>"

subsection \<open>Hidden checkpoints\<close>

record chain_link =
  cl_number :: u64
  cl_digest :: digest
  cl_previous :: digest

definition chain_link_of :: "crypto \<Rightarrow> checkpoint signed \<Rightarrow> chain_link" where
  "chain_link_of cr record1 = \<lparr>cl_number = cp_number (body record1),
     cl_digest = signed_checkpoint_digest cr record1, cl_previous = cp_previous (body record1)\<rparr>"

datatype walk_entry = Walk_Checkpoint chain_link | Walk_Operation u64 u64 digest | Walk_Other

text \<open>A fetcher answers with a link or nothing, from a state of its own.\<close>

type_synonym 'f checkpoint_fetcher = "'f \<Rightarrow> digest \<Rightarrow> chain_link option \<times> 'f"

datatype walk_gap = WalkGap

record checkpoint_walk =
  wk_last :: "u64 \<times> digest"
  wk_known :: "digest set"
  wk_floor :: u64
  wk_generation :: u64

definition new_walk :: "(u64 \<times> digest) list \<Rightarrow> u64 \<Rightarrow> u64 \<Rightarrow> checkpoint_walk" where
  "new_walk reached flr generation = \<lparr>wk_last = fold (\<lambda>l last1. max last1 l) reached (0, ZERO_digest),
     wk_known = set (map snd reached), wk_floor = flr, wk_generation = generation\<rparr>"

text \<open>
  The loop that follows \<open>previous\<close> from \<open>wanted\<close> back to the last checkpoint, newest first. After
  its first step it goes down by one number at a time and stays above the last one, so it ends.
\<close>

definition walk_height :: "u64 option \<Rightarrow> nat" where
  "walk_height bound = (case bound of None \<Rightarrow> 2 ^ 64 + 1 | Some n \<Rightarrow> if n = 0 then 2 ^ 64 else unat n)"

lemma walk_height_less:
  assumes "\<not> number \<le> l" and "case bound of None \<Rightarrow> True | Some n \<Rightarrow> number + 1 = n"
  shows "walk_height (Some number) < walk_height bound"
proof -
  have number: "number \<noteq> 0" using assms(1) by (auto simp: not_le)
  have "unat number < 2 ^ 64" using unsigned_less [of number] by simp
  moreover have "unat (number + 1) = Suc (unat number)" if "number + 1 \<noteq> 0"
    using that by unat_arith
  ultimately show ?thesis
    using assms(2) number by (auto simp: walk_height_def split: option.splits)
qed

function walk_back ::
  "'f checkpoint_fetcher \<Rightarrow> u64 \<times> digest \<Rightarrow> digest \<Rightarrow> u64 option \<Rightarrow> 'f \<Rightarrow> (walk_gap + chain_link list) \<times> 'f" where
  "walk_back fetch last1 wanted bound f =
     (if wanted = snd last1 then (Inr [], f)
      else case fetch f wanted of
        (None, f') \<Rightarrow> (Inl WalkGap, f')
      | (Some link, f') \<Rightarrow>
          if cl_digest link \<noteq> wanted \<or> cl_number link \<le> fst last1
            \<or> (case bound of None \<Rightarrow> False | Some n \<Rightarrow> cl_number link + 1 \<noteq> n)
          then (Inl WalkGap, f')
          else (case walk_back fetch last1 (cl_previous link) (Some (cl_number link)) f' of
            (Inl e, f'') \<Rightarrow> (Inl e, f'')
          | (Inr walk, f'') \<Rightarrow> (Inr (link # walk), f'')))"
  by pat_completeness auto

termination
  by (relation "measure (\<lambda>(_, _, _, bound, _). walk_height bound)") (auto intro!: walk_height_less split: option.splits)

declare walk_back.simps [simp del]

definition note_link :: "chain_link \<Rightarrow> checkpoint_walk \<Rightarrow> checkpoint_walk" where
  "note_link link w = w\<lparr>wk_known := insert (cl_digest link) (wk_known w), wk_last := (cl_number link, cl_digest link)\<rparr>"

text \<open>What an entry names: nothing to do, the walk with the entry noted, or a digest to walk back from.\<close>

datatype walk_need = Need_Nothing | Need_Noted chain_link | Need_Walk digest "chain_link option"

definition entry_need :: "checkpoint_walk \<Rightarrow> walk_entry \<Rightarrow> walk_need" where
  "entry_need w e = (case e of
       Walk_Checkpoint link \<Rightarrow>
         if cl_digest link \<in> wk_known w then Need_Nothing
         else if cl_previous link = snd (wk_last w) \<or> cl_previous link \<in> wk_known w then Need_Noted link
         else Need_Walk (cl_previous link) (Some link)
     | Walk_Operation generation checkpoint_seq checkpoint \<Rightarrow>
         if generation = wk_generation w \<and> \<not> digest_is_zero checkpoint \<and> checkpoint_seq \<ge> wk_floor w
           \<and> checkpoint \<notin> wk_known w
         then Need_Walk checkpoint None else Need_Nothing
     | Walk_Other \<Rightarrow> Need_Nothing)"

fun plan_from ::
  "'f checkpoint_fetcher \<Rightarrow> nat \<Rightarrow> walk_entry list \<Rightarrow> checkpoint_walk \<Rightarrow> (nat, chain_link list) btree \<Rightarrow> 'f
   \<Rightarrow> ((nat \<times> walk_gap) + (nat, chain_link list) btree) \<times> checkpoint_walk \<times> 'f" where
  "plan_from fetch index [] w extra f = (Inr extra, w, f)"
| "plan_from fetch index (e # es) w extra f =
     (case entry_need w e of
        Need_Nothing \<Rightarrow> plan_from fetch (Suc index) es w extra f
      | Need_Noted link \<Rightarrow> plan_from fetch (Suc index) es
          (w\<lparr>wk_known := insert (cl_digest link) (wk_known w),
             wk_last := max (wk_last w) (cl_number link, cl_digest link)\<rparr>) extra f
      | Need_Walk named then1 \<Rightarrow>
          (case walk_back fetch (wk_last w) named (map_option cl_number then1) f of
             (Inl e, f') \<Rightarrow> (Inl (index, e), w, f')
           | (Inr back, f') \<Rightarrow>
               let walk = rev back;
                   w = fold note_link walk w;
                   w = (case then1 of None \<Rightarrow> w | Some link \<Rightarrow> note_link link w)
               in plan_from fetch (Suc index) es w (if walk = [] then extra else bt_insert index walk extra) f'))"

definition plan ::
  "walk_entry list \<Rightarrow> 'f checkpoint_fetcher \<Rightarrow> checkpoint_walk \<Rightarrow> 'f
   \<Rightarrow> ((nat \<times> walk_gap) + (nat, chain_link list) btree) \<times> checkpoint_walk \<times> 'f" where
  "plan entries fetch w f = plan_from fetch 0 entries w bt_empty f"

end
