(* ===== verification/Manifest_Laws.thy ===== *)
theory Manifest_Laws
  imports Manifest
begin

text \<open>
  What a manifest root binds, and what a bootstrapping client learns from buckets and leaves that
  hash to it. Every statement that rests on the hash names the two inputs that would collide.
\<close>

unbundle bit_operations_syntax

subsection \<open>Encodings that determine their input\<close>

lemma concat_fixed_inject:
  assumes "\<And>x. length (f x) = c" and "0 < c" and "concat (map f xs) = concat (map f ys)"
  shows "map f xs = map f ys"
  using assms(3)
proof (induction xs arbitrary: ys)
  case Nil
  then show ?case using assms(1,2) by (cases ys) (auto dest: arg_cong [of _ _ length])
next
  case (Cons x xs)
  then obtain y ys' where "ys = y # ys'"
    using assms(1,2) by (cases ys) (auto dest: arg_cong [of _ _ length])
  with Cons show ?case using assms(1) by simp
qed

lemma u64_bytes_inject [simp]: "word_bytes 8 (v :: u64) = word_bytes 8 w \<longleftrightarrow> v = w"
proof
  have "bytes_word (word_bytes 8 x) = x" for x :: u64 by (rule bytes_word_word_bytes) simp
  then show "word_bytes 8 v = word_bytes 8 w \<Longrightarrow> v = w" by metis
qed simp

lemma enc_ref_inject [simp]: "enc_ref r = enc_ref s \<longleftrightarrow> r = s"
  by (auto simp: enc_ref_def w_u64_def intro!: op_ref.equality)

lemma length_enc_ref [simp]: "length (enc_ref r) = 64"
  by (simp add: enc_ref_def w_u64_def)

lemma concat_refs_inject [simp]: "concat (map enc_ref rs) = concat (map enc_ref ss) \<longleftrightarrow> rs = ss"
  using concat_fixed_inject [of enc_ref 64 rs ss] by (auto simp: inj_map_eq_map inj_def)

lemma concat_digests_inject [simp]: "concat (map digest_bytes rs) = concat (map digest_bytes ss) \<longleftrightarrow> rs = ss"
  using concat_fixed_inject [of digest_bytes 32 rs ss] by (auto simp: inj_map_eq_map inj_def)

lemma input_injects [simp]:
  "leaf_input rid refs = leaf_input rid' refs' \<longleftrightarrow> rid = rid' \<and> refs = refs'"
  "bucket_input i ds = bucket_input i es \<longleftrightarrow> ds = es"
  "node_input l i ds = node_input l i es \<longleftrightarrow> ds = es"
  "heads_input hs = heads_input gs \<longleftrightarrow> hs = gs"
  by (auto simp: leaf_input_def bucket_input_def node_input_def heads_input_def encode_list_def w_u32_def)

text \<open>Two sets of hashed inputs that hold a collision.\<close>

definition inputs_collide :: "crypto \<Rightarrow> byte list set \<Rightarrow> byte list set \<Rightarrow> bool" where
  "inputs_collide cr A B \<longleftrightarrow> (\<exists>x \<in> A. \<exists>y \<in> B. collision (hash cr) x y)"

lemma hash_eq: "\<not> inputs_collide cr A B \<Longrightarrow> x \<in> A \<Longrightarrow> y \<in> B \<Longrightarrow> hash_parts cr [x] = hash_parts cr [y] \<Longrightarrow> x = y"
  by (auto simp: inputs_collide_def collision_def hash_parts_hash)

subsection \<open>Buckets\<close>

text \<open>The bucket of an object is its first 12 bits, so buckets follow the order of the objects.\<close>

lemma bucket_bytes: "unat (push_bit 4 (ucast a) OR drop_bit 4 (ucast b) :: u16) = unat a * 16 + unat b div 16" for a b :: byte
proof -
  have "push_bit 4 (ucast a) AND drop_bit 4 (ucast b) = (0 :: u16)"
    by (rule bit_word_eqI) (auto simp: bit_simps dest: bit_imp_le_length)
  then have "(push_bit 4 (ucast a) OR drop_bit 4 (ucast b) :: u16) = push_bit 4 (ucast a) + drop_bit 4 (ucast b)"
    using word_plus_and_or [of "push_bit 4 (ucast a) :: u16" "drop_bit 4 (ucast b)"] by simp
  moreover have "unat a * 16 + unat b div 16 < 65536" using unat_byte_bound [of a] unat_byte_bound [of b] by presburger
  moreover have "unat (ucast c :: u16) = unat c" for c :: byte
  proof -
    have "unat c < 65536" using unat_byte_bound [of c] by linarith
    then show ?thesis by (simp add: unsigned_ucast_eq take_bit_nat_eq_self)
  qed
  ultimately show ?thesis
    using unat_byte_bound [of a]
    by (simp add: unat_word_ariths push_bit_eq_mult unat_drop_bit_eq drop_bit_eq_div take_bit_eq_mod)
qed

lemma nth_be_bytes: "i < n \<Longrightarrow> be_bytes n v ! i = of_nat (v div 256 ^ (n - 1 - i))"
proof (induction n arbitrary: v)
  case (Suc n)
  show ?case
  proof (cases "i = n")
    case False
    then have "i < n" "Suc (n - 1 - i) = n - i" using Suc.prems by auto
    then show ?thesis
      using Suc.IH [of "v div 256"] power_Suc [of "256 :: nat" "n - 1 - i"]
      by (simp add: nth_append div_mult2_eq)
  qed (simp add: nth_append)
qed simp

lemma div_256_16: "x div 256 * 16 + x mod 256 div 16 = x div (16 :: nat)"
proof -
  have "x mod 256 + x div 256 * 16 * 16 = x" using mod_div_mult_eq [of x 256] by (simp add: mult.assoc)
  then have "x div 16 = (x mod 256 + x div 256 * 16 * 16) div 16" by simp
  also have "\<dots> = x div 256 * 16 + x mod 256 div 16" by (rule div_mult_self1) simp
  finally show ?thesis by simp
qed

lemma bucket_of_nat: "unat (bucket_of rid) = unat (ident_val rid) div 2 ^ 116"
proof -
  define v where "v = unat (ident_val rid)"
  have v: "v < 256 ^ 16" using unat_less_256 [of 16 "ident_val rid"] by (simp add: v_def)
  have "unat (ident_bytes rid ! 0) = v div 256 ^ 15" "unat (ident_bytes rid ! 1) = v div 256 ^ 14 mod 256"
    using v by (simp_all add: ident_bytes_def word_bytes_def nth_be_bytes unat_of_nat_byte v_def)
  then have "unat (bucket_of rid) = v div 256 ^ 15 * 16 + v div 256 ^ 14 mod 256 div 16"
    unfolding bucket_of_def bucket_bytes by (rule arg_cong2)
  also have "(256 :: nat) ^ 15 = 256 ^ 14 * 256" by simp
  also have "v div (256 ^ 14 * 256) = v div 256 ^ 14 div 256" by (rule div_mult2_eq)
  also have "v div 256 ^ 14 div 256 * 16 + v div 256 ^ 14 mod 256 div 16 = v div 256 ^ 14 div 16"
    by (rule div_256_16)
  also have "v div 256 ^ 14 div 16 = v div (256 ^ 14 * 16)" by (rule div_mult2_eq [symmetric])
  also have "(256 :: nat) ^ 14 * 16 = 2 ^ 116" by simp
  finally show ?thesis unfolding v_def .
qed

lemma bucket_of_less: "unat (bucket_of rid) < BUCKETS"
proof -
  have "unat (ident_val rid) < 2 ^ 12 * 2 ^ 116" using unat_less_256 [of 16 "ident_val rid"] by simp
  then show ?thesis unfolding bucket_of_nat BUCKETS_def by (simp add: less_mult_imp_div_less)
qed

lemma bucket_of_mono: "a \<le> b \<Longrightarrow> bucket_of a \<le> bucket_of b"
  by (simp add: word_le_nat_alt [of "bucket_of a"] bucket_of_nat div_le_mono less_eq_ident_def word_le_nat_alt)

lemma push_leaves:
  assumes "\<forall>(rid, _) \<in> set es. unat (bucket_of rid) < length ps"
  shows "length (fold (push_leaf cr) es ps) = length ps
    \<and> (\<forall>i < length ps. fold (push_leaf cr) es ps ! i =
        ps ! i @ map (\<lambda>(rid, refs). leaf_hash cr rid refs) (filter (\<lambda>(rid, _). unat (bucket_of rid) = i) es))"
  using assms
  by (induction es arbitrary: ps) (auto simp: push_leaf_def nth_list_update)

lemma bucket_hashes_nth:
  shows "length (bucket_hashes cr m) = BUCKETS"
    and "i < BUCKETS \<Longrightarrow> bucket_hashes cr m ! i =
      bucket_hash cr (of_nat i) (map (\<lambda>(rid, refs). leaf_hash cr rid refs) (bucket_leaves m (of_nat i)))"
proof -
  let ?ps = "fold (push_leaf cr) (bt_entries (mf_leaves m)) (replicate BUCKETS [])"
  have pushed: "length ?ps = BUCKETS" "i < BUCKETS \<Longrightarrow> ?ps ! i = map (\<lambda>(rid, refs). leaf_hash cr rid refs)
      (filter (\<lambda>(rid, _). unat (bucket_of rid) = i) (bt_entries (mf_leaves m)))" for i
    using push_leaves [of "bt_entries (mf_leaves m)" "replicate BUCKETS []" cr] bucket_of_less by auto
  then show "length (bucket_hashes cr m) = BUCKETS" by (simp add: bucket_hashes_def Let_def)
  assume i: "i < BUCKETS"
  have "unat b = i \<longleftrightarrow> b = of_nat i" for b :: u16
  proof -
    have "unat (of_nat i :: u16) = i" using i by (simp add: BUCKETS_def unat_of_nat)
    then show ?thesis by (auto simp: word_eqI_unat)
  qed
  then show "bucket_hashes cr m ! i =
      bucket_hash cr (of_nat i) (map (\<lambda>(rid, refs). leaf_hash cr rid refs) (bucket_leaves m (of_nat i)))"
    using pushed i by (simp add: bucket_hashes_def Let_def nth_enumerate_eq bucket_leaves_def)
qed

subsection \<open>The tree\<close>

text \<open>The inputs hashed above the buckets, and all inputs of a manifest.\<close>

definition tree_inputs :: "crypto \<Rightarrow> digest list \<Rightarrow> byte list set" where
  "tree_inputs cr bs =
     (let level2 = level_above cr 2 256 bs; level1 = level_above cr 1 16 level2
      in insert (node_input 0 0 level1) ((\<lambda>j. node_input 1 (of_nat j) (slice16 j level2)) ` {..<16}
         \<union> (\<lambda>j. node_input 2 (of_nat j) (slice16 j bs)) ` {..<256}))"

definition bucket_inputs :: "crypto \<Rightarrow> nat \<Rightarrow> (ident \<times> op_ref list) list \<Rightarrow> byte list set" where
  "bucket_inputs cr i leaves = insert (bucket_input (of_nat i) (map (\<lambda>(rid, refs). leaf_hash cr rid refs) leaves))
     ((\<lambda>(rid, refs). leaf_input rid refs) ` set leaves)"

definition manifest_inputs :: "crypto \<Rightarrow> manifest \<Rightarrow> byte list set" where
  "manifest_inputs cr m = tree_inputs cr (bucket_hashes cr m)
     \<union> (\<Union>i < BUCKETS. bucket_inputs cr i (bucket_leaves m (of_nat i)))"

lemma slices_eq:
  assumes "length xs = 16 * n" and "length ys = 16 * n" and "\<And>j. j < n \<Longrightarrow> slice16 j xs = slice16 j ys"
  shows "xs = ys"
proof (rule nth_equalityI)
  fix k assume k: "k < length xs"
  then have j: "k div 16 < n" using assms(1) by simp
  have at: "slice16 (k div 16) zs ! (k mod 16) = zs ! k" if "length zs = 16 * n" for zs :: "'a list"
    using that k assms(1) by (simp add: slice16_def)
  show "xs ! k = ys ! k" using assms(3) [OF j] at assms(1,2) by metis
qed (use assms in simp)

lemma level_above_inject:
  assumes "level_above cr l n xs = level_above cr l n ys"
    and "length xs = 16 * n" and "length ys = 16 * n" and "\<not> inputs_collide cr A B"
    and "(\<lambda>j. node_input l (of_nat j) (slice16 j xs)) ` {..<n} \<subseteq> A"
    and "(\<lambda>j. node_input l (of_nat j) (slice16 j ys)) ` {..<n} \<subseteq> B"
  shows "xs = ys"
proof (rule slices_eq [OF assms(2,3)])
  fix j assume j: "j < n"
  have "level_above cr l n xs ! j = level_above cr l n ys ! j" using assms(1) by simp
  then have "node_hash cr l (of_nat j) (slice16 j xs) = node_hash cr l (of_nat j) (slice16 j ys)"
    using j by (simp add: level_above_def)
  then have "node_input l (of_nat j) (slice16 j xs) = node_input l (of_nat j) (slice16 j ys)"
    using j assms(5,6) by (intro hash_eq [OF assms(4)]) (auto simp: node_hash_def)
  then show "slice16 j xs = slice16 j ys" by simp
qed

lemma root_binds_buckets:
  assumes "root_of_buckets cr xs = root_of_buckets cr ys" and "length xs = BUCKETS" and "length ys = BUCKETS"
    and "\<not> inputs_collide cr A B" and "tree_inputs cr xs \<subseteq> A" and "tree_inputs cr ys \<subseteq> B"
  shows "xs = ys"
proof -
  let ?l2 = "level_above cr 2 256" and ?l1 = "level_above cr 1 16"
  have "node_input 0 0 (?l1 (?l2 xs)) = node_input 0 0 (?l1 (?l2 ys))"
    using assms(1,5,6) by (intro hash_eq [OF assms(4)])
      (auto simp: root_of_buckets_def node_hash_def tree_inputs_def Let_def)
  then have "?l1 (?l2 xs) = ?l1 (?l2 ys)" by simp
  then have "?l2 xs = ?l2 ys"
    using assms(4-6)
    by (intro level_above_inject [of cr 1 16 "?l2 xs" "?l2 ys" A B]) (auto simp: level_above_def tree_inputs_def Let_def)
  then show ?thesis
    using assms by (intro level_above_inject [of cr 2 256 xs ys A B]) (auto simp: BUCKETS_def tree_inputs_def Let_def)
qed

lemma bucket_binds:
  assumes "bucket_hash cr i (map (\<lambda>(rid, refs). leaf_hash cr rid refs) xs) =
      bucket_hash cr i (map (\<lambda>(rid, refs). leaf_hash cr rid refs) ys)"
    and "\<not> inputs_collide cr A B" and "bucket_inputs cr n xs \<subseteq> A" and "bucket_inputs cr n ys \<subseteq> B" and "i = of_nat n"
  shows "xs = ys"
proof -
  let ?h = "\<lambda>(rid, refs). leaf_hash cr rid refs"
  have "bucket_input i (map ?h xs) = bucket_input i (map ?h ys)"
    using assms by (intro hash_eq [OF assms(2)]) (auto simp: bucket_hash_def bucket_inputs_def)
  then have hashes: "map ?h xs = map ?h ys" by simp
  show ?thesis
  proof (rule nth_equalityI)
    show "length xs = length ys" using hashes by (rule map_eq_imp_length_eq)
    fix k assume k: "k < length xs"
    then have "?h (xs ! k) = ?h (ys ! k)" "k < length ys"
      using hashes map_eq_imp_length_eq [OF hashes] by (metis nth_map)+
    moreover have "(\<lambda>(rid, refs). leaf_input rid refs) (xs ! k) \<in> A" "(\<lambda>(rid, refs). leaf_input rid refs) (ys ! k) \<in> B"
      using assms(3,4) k calculation(2) nth_mem unfolding bucket_inputs_def by blast+
    ultimately have "(\<lambda>(rid, refs). leaf_input rid refs) (xs ! k) = (\<lambda>(rid, refs). leaf_input rid refs) (ys ! k)"
      by (intro hash_eq [OF assms(2)]) (auto simp: leaf_hash_def split_beta)
    then show "xs ! k = ys ! k" by (auto simp: split_beta prod_eq_iff)
  qed
qed

text \<open>The leaves of a manifest, bucket by bucket, are its entries in order.\<close>

lemma filter_less_Suc:
  assumes "sorted (map f xs)"
  shows "filter (\<lambda>x. f x < Suc n) xs = filter (\<lambda>x. f x < n) xs @ filter (\<lambda>x. f x = n) xs"
  using assms
proof (induction xs)
  case (Cons x xs)
  have "filter (\<lambda>y. f y < n) xs = []" if "n \<le> f x"
    using Cons(2) that by (auto simp: filter_empty_conv)
  then show ?case using Cons by (auto simp: less_Suc_eq)
qed simp

lemma concat_buckets:
  assumes "sorted (map f xs)"
  shows "concat (map (\<lambda>i. filter (\<lambda>x. f x = i) xs) [0..<n]) = filter (\<lambda>x. f x < n) xs"
  by (induction n) (simp_all add: filter_less_Suc [OF assms])

lemma entries_by_bucket: "concat (map (\<lambda>i. bucket_leaves m (of_nat i)) [0..<BUCKETS]) = bt_entries (mf_leaves m)"
proof -
  let ?es = "bt_entries (mf_leaves m)" and ?f = "\<lambda>(rid, _). unat (bucket_of rid)"
  have "sorted_wrt (\<lambda>x y. fst x \<le> fst y) ?es"
    using bt.entries_rising [of "mf_leaves m"] by (auto simp: rising_def sorted_wrt_map elim: sorted_wrt_mono_rel [rotated])
  then have "sorted (map ?f ?es)"
    by (auto simp: sorted_map split_beta word_le_nat_alt [symmetric] dest: bucket_of_mono elim!: sorted_wrt_mono_rel [rotated])
  then have "concat (map (\<lambda>i. filter (\<lambda>x. ?f x = i) ?es) [0..<BUCKETS]) = ?es"
    using bucket_of_less by (subst concat_buckets) (auto intro!: filter_True)
  moreover have "bucket_leaves m (of_nat i) = filter (\<lambda>x. ?f x = i) ?es" if "i < BUCKETS" for i
    using that unfolding bucket_leaves_def
    by (intro filter_cong) (auto simp: BUCKETS_def unat_of_nat word_eqI_unat)
  then have "map (\<lambda>i. bucket_leaves m (of_nat i)) [0..<BUCKETS] = map (\<lambda>i. filter (\<lambda>x. ?f x = i) ?es) [0..<BUCKETS]"
    by (intro map_cong) simp_all
  ultimately show ?thesis by (simp only:)
qed

text \<open>
  C27. A bootstrap ends with exactly the manifest that the checkpoint's signer had: when the bucket
  hashes a server sends verify against the root of a manifest, and the leaves of every bucket
  verify against their hash, the leaves, bucket after bucket, are the manifest's entries in
  order, none dropped, added or altered; otherwise two of the inputs hashed are a collision.
\<close>

theorem bootstrap_gets_manifest:
  assumes "verify_buckets cr buckets (manifest_root cr m) = Inr ()"
    and "\<forall>i < BUCKETS. verify_bucket cr (of_nat i) (leaves i) (buckets ! i) = Inr ()"
  shows "concat (map leaves [0..<BUCKETS]) = bt_entries (mf_leaves m)
    \<or> inputs_collide cr (tree_inputs cr buckets \<union> (\<Union>i < BUCKETS. bucket_inputs cr i (leaves i))) (manifest_inputs cr m)"
proof (rule disjCI)
  assume apart: "\<not> inputs_collide cr (tree_inputs cr buckets \<union> (\<Union>i < BUCKETS. bucket_inputs cr i (leaves i)))
    (manifest_inputs cr m)"
  have "buckets = bucket_hashes cr m"
    using assms(1) bucket_hashes_nth(1) [of cr m]
    by (intro root_binds_buckets [OF _ _ _ apart])
      (auto simp: verify_buckets_def manifest_root_def manifest_inputs_def split: if_splits)
  then have "bucket_hash cr (of_nat i) (map (\<lambda>(rid, refs). leaf_hash cr rid refs) (leaves i)) = bucket_hashes cr m ! i"
    if "i < BUCKETS" for i
    using assms(2) that by (fastforce simp: verify_bucket_def Let_def split: if_splits)
  then have "leaves i = bucket_leaves m (of_nat i)" if "i < BUCKETS" for i
    using that bucket_hashes_nth(2) [OF that, of cr m]
    by (intro bucket_binds [OF _ apart, of "of_nat i" _ _ i]) (auto simp: manifest_inputs_def)
  then have "map leaves [0..<BUCKETS] = map (\<lambda>i. bucket_leaves m (of_nat i)) [0..<BUCKETS]"
    by (intro map_cong) simp_all
  then show "concat (map leaves [0..<BUCKETS]) = bt_entries (mf_leaves m)"
    using entries_by_bucket [of m] by (simp only:)
qed

lemma honest_bucket:
  assumes "i < BUCKETS"
  shows "verify_bucket cr (of_nat i) (bucket_leaves m (of_nat i)) (bucket_hashes cr m ! i) = Inr ()"
proof -
  have "list_all (\<lambda>(x, y). fst x < fst y) (windows2 (bucket_leaves m i))" for i
    using bt.entries_rising [of "mf_leaves m"]
    by (subst windows2_sorted_wrt) (auto simp: transp_def rising_def sorted_wrt_map bucket_leaves_def intro: sorted_wrt_filter)
  then show ?thesis
    using bucket_hashes_nth(2) [OF assms, of cr m]
    by (auto simp: verify_bucket_def Let_def bucket_leaves_def list_ex_iff)
qed

lemma honest_buckets: "verify_buckets cr (bucket_hashes cr m) (manifest_root cr m) = Inr ()"
  using bucket_hashes_nth(1) [of cr m] by (simp add: verify_buckets_def manifest_root_def)

text \<open>
  What an honest server sends of a manifest verifies: its bucket hashes against its root, and
  the leaves of each bucket against the bucket's hash.
\<close>

theorem honest_manifest_verifies:
  "verify_buckets cr (bucket_hashes cr m) (manifest_root cr m) = Inr ()
   \<and> filter (\<lambda>i. verify_bucket cr (of_nat i) (bucket_leaves m (of_nat i)) (bucket_hashes cr m ! i) \<noteq> Inr ()) [0..<BUCKETS] = []"
  using honest_bucket [of _ cr m] honest_buckets [of cr m] by (auto simp: filter_empty_conv)

end
