(* ===== verification/Checkpoint_Laws.thy ===== *)
theory Checkpoint_Laws
  imports Manifest Hash_Chain
begin

text \<open>
  The checkpoint chain: how long a descent walk gets, what it proves, what the checks on one
  checkpoint after another keep, and what a walk for hidden checkpoints brings back.
\<close>

unbundle bit_operations_syntax

subsection \<open>Clearing the lowest bit\<close>

definition low :: "nat \<Rightarrow> nat" where
  "low n = n AND (n - 1)"

lemma low_simps: "low 0 = 0" "0 < m \<Longrightarrow> low (2 * m) = 2 * low m" "low (2 * m + 1) = 2 * m"
proof -
  show "low 0 = 0" by (simp add: low_def)
  show "low (2 * m + 1) = 2 * m" unfolding low_def by (subst and_rec) simp
  assume "0 < m"
  then have "2 * m - 1 = 2 * (m - 1) + 1" by simp
  then show "low (2 * m) = 2 * low m" unfolding low_def by (subst and_rec) simp
qed

lemma low_less: "0 < n \<Longrightarrow> low n < n"
proof (induction n rule: nat_bit_induct)
  case (odd n)
  then show ?case using low_simps(3) [of n] by simp
qed (simp_all add: low_simps)

lemma low_high: "0 < a \<Longrightarrow> a < 2 ^ k \<Longrightarrow> low (2 ^ k + a) = 2 ^ k + low a"
proof (induction k arbitrary: a)
  case (Suc k)
  show ?case
  proof (cases "even a")
    case True
    then obtain b where b: "a = 2 * b" by blast
    then have "low (2 ^ Suc k + a) = 2 * low (2 ^ k + b)" using low_simps(2) [of "2 ^ k + b"] by simp
    also have "\<dots> = 2 ^ Suc k + low a" using Suc b low_simps(2) [of b] by simp
    finally show ?thesis .
  next
    case False
    then obtain b where b: "a = 2 * b + 1" by (auto elim: oddE)
    then show ?thesis using low_simps(3) [of "2 ^ k + b"] low_simps(3) [of b] by simp
  qed
qed simp

lemma low_power: "low (2 ^ k) = 0"
proof (induction k)
  case 0
  then show ?case using low_simps(3) [of 0] by simp
qed (simp add: low_simps)

lemma skip_number_low: "unat (skip_number w) = low (unat w)"
proof (cases "w = 0")
  case False
  then have "unat (w - 1) = unat w - 1" by (simp add: unat_minus_one)
  then show ?thesis by (simp add: skip_number_def low_def unsigned_and_eq)
qed (simp add: skip_number_def low_def)

text \<open>How many bits are set, and that clearing the lowest one takes one away.\<close>

fun ones :: "nat \<Rightarrow> nat" where
  "ones n = (if n = 0 then 0 else n mod 2 + ones (n div 2))"

declare ones.simps [simp del]

lemma ones_simps [simp]: "ones 0 = 0" "ones (2 * n) = ones n" "ones (2 * n + 1) = Suc (ones n)"
proof -
  show "ones 0 = 0" by (subst ones.simps) simp
  then show "ones (2 * n) = ones n" by (cases "n = 0", simp, subst ones.simps) simp
  show "ones (2 * n + 1) = Suc (ones n)" by (subst ones.simps) simp
qed

lemma ones_low: "0 < n \<Longrightarrow> Suc (ones (low n)) = ones n"
proof (induction n rule: nat_bit_induct)
  case (odd n)
  then show ?case using low_simps(3) [of n] ones_simps(3) [of n] by simp
qed (simp_all add: low_simps)

lemma ones_le: "n < 2 ^ k \<Longrightarrow> ones n \<le> k"
proof (induction k arbitrary: n)
  case (Suc k)
  show ?case
  proof (cases "even n")
    case True
    then obtain b where "n = 2 * b" by blast
    with Suc show ?thesis by (simp add: le_SucI)
  next
    case False
    then obtain b where "n = 2 * b + 1" by (auto elim: oddE)
    with Suc show ?thesis using ones_simps(3) [of b] by simp
  qed
qed simp

subsection \<open>The length of a descent\<close>

definition nat_step :: "nat \<Rightarrow> nat \<Rightarrow> nat" where
  "nat_step t n = (if t \<le> low n \<and> 0 < low n then low n else n - 1)"

lemma nat_step_less: "t < n \<Longrightarrow> nat_step t n < n"
  using low_less [of n] by (auto simp: nat_step_def)

function walk_len :: "nat \<Rightarrow> nat \<Rightarrow> nat" where
  "walk_len t n = (if t < n then Suc (walk_len t (nat_step t n)) else 1)"
  by pat_completeness auto
termination
  by (relation "measure snd") (simp_all add: nat_step_less)

declare walk_len.simps [simp del]

lemma unat_descent_step: "to < current \<Longrightarrow> unat (descent_step to current) = nat_step (unat to) (unat current)"
proof -
  assume "to < current"
  then have "current \<noteq> 0" by auto
  then show ?thesis
    by (auto simp: descent_step_def nat_step_def Let_def word_le_nat_alt word_less_nat_alt skip_number_low unat_minus_one)
qed

lemma length_descent_path: "length (descent_path from to) = walk_len (unat to) (unat from)"
proof -
  have "Suc (length (descent_from to current)) = walk_len (unat to) (unat current)" for current
  proof (induction to current rule: descent_from.induct)
    case (1 to current)
    then show ?case
      by (subst descent_from.simps, subst walk_len.simps) (simp add: word_less_nat_alt unat_descent_step)
  qed
  then show ?thesis by (simp add: descent_path_def)
qed

lemma walk_len_clears:
  assumes "1 \<le> t" and "t \<le> 2 ^ k" and "a < 2 ^ k"
  shows "walk_len t (2 ^ k + a) = ones a + walk_len t (2 ^ k)"
  using assms(3)
proof (induction a rule: less_induct)
  case (less a)
  show ?case
  proof (cases "a = 0")
    case False
    then have "nat_step t (2 ^ k + a) = 2 ^ k + low a"
      using assms less(2) by (simp add: nat_step_def low_high)
    then have "walk_len t (2 ^ k + a) = Suc (walk_len t (2 ^ k + low a))"
      using False assms by (subst walk_len.simps) simp
    also have "\<dots> = Suc (ones (low a)) + walk_len t (2 ^ k)"
      using less(1) [of "low a"] less(2) False low_less [of a] by simp
    finally show ?thesis using False ones_low [of a] by simp
  qed simp
qed

lemma walk_len_shift:
  assumes "1 \<le> t" and "a < 2 ^ k" and "t \<le> a"
  shows "walk_len (2 ^ k + t) (2 ^ k + a) = walk_len t a"
  using assms(2,3)
proof (induction a rule: less_induct)
  case (less a)
  show ?case
  proof (cases "t < a")
    case True
    then have step: "nat_step (2 ^ k + t) (2 ^ k + a) = 2 ^ k + nat_step t a" "t \<le> nat_step t a"
      using less(2) assms(1) by (auto simp: nat_step_def low_high)
    then have "walk_len (2 ^ k + t) (2 ^ k + nat_step t a) = walk_len t (nat_step t a)"
      using less(1) [of "nat_step t a"] less(2) True nat_step_less [OF True] by simp
    then show ?thesis
      using True step(1) by (subst walk_len.simps, subst (2) walk_len.simps) simp
  next
    case False
    then show ?thesis by (subst walk_len.simps, subst (2) walk_len.simps) simp
  qed
qed

lemma walk_len_bound: "n < 2 ^ k \<Longrightarrow> 1 \<le> t \<Longrightarrow> t \<le> n \<Longrightarrow> 2 * walk_len t n \<le> k * (k + 1)"
proof (induction k arbitrary: n t)
  case (Suc k)
  show ?case
  proof (cases "n < 2 ^ k")
    case True
    then show ?thesis using Suc.IH [of n t] Suc.prems by simp
  next
    case False
    define a where "a = n - 2 ^ k"
    have n: "n = 2 ^ k + a" "a < 2 ^ k" using False Suc.prems(1) by (simp_all add: a_def)
    show ?thesis
    proof (cases "t \<le> 2 ^ k")
      case True
      have "2 * walk_len t (2 ^ k) \<le> 2 + k * (k + 1)"
      proof (cases "t = 2 ^ k")
        case False
        then have "t < 2 ^ k" using True by simp
        moreover from this have "2 * walk_len t (2 ^ k - 1) \<le> k * (k + 1)"
          using Suc.IH [of "2 ^ k - 1" t] Suc.prems(2) by simp
        ultimately show ?thesis
          by (subst walk_len.simps) (simp add: nat_step_def low_power)
      qed (subst walk_len.simps, simp)
      then show ?thesis
        using walk_len_clears [OF Suc.prems(2) True n(2)] ones_le [OF n(2)] n(1) by simp
    next
      case False
      then have "walk_len t n = walk_len (t - 2 ^ k) a"
        using walk_len_shift [of "t - 2 ^ k" a k] n Suc.prems(3) by simp
      moreover have "2 * walk_len (t - 2 ^ k) a \<le> k * (k + 1)"
        using Suc.IH [OF n(2), of "t - 2 ^ k"] False n(1) Suc.prems(3) by simp
      ultimately show ?thesis by simp
    qed
  qed
qed simp

text \<open>
  A descent walk from a checkpoint numbered below \<open>2 ^ k\<close> back to any checkpoint takes at most
  \<open>k (k + 1) / 2\<close> records, both ends included: 210 after a million checkpoints.
\<close>

theorem descent_walk_short:
  assumes "unat from < 2 ^ k" and "1 \<le> to" and "to \<le> from"
  shows "length (descent_path from to) \<le> k * (k + 1) div 2"
  using walk_len_bound [OF assms(1), of "unat to"] assms(2,3)
  by (simp add: length_descent_path word_le_nat_alt)

subsection \<open>Accepting one checkpoint after another\<close>

interpretation checkpoints:
  hash_chain "signed_checkpoint_digest cr" "enc_signed enc_checkpoint" "hash cr"
    "\<lambda>r. cp_number (body r)" "\<lambda>r. cp_previous (body r)" "wf_signed wf_checkpoint" for cr
proof
  show "signed_checkpoint_digest cr r = hash cr (enc_signed enc_checkpoint r)" for r
    by (simp add: signed_digest_def)
  show "r = s" if "wf_signed wf_checkpoint r" "wf_signed wf_checkpoint s"
    and "enc_signed enc_checkpoint r = enc_signed enc_checkpoint s" for r s
    using wire.enc_inject [OF signed_checkpoint_wire that] .
qed

text \<open>The client's loop: each checkpoint it reaches is checked, then accepted, with its heads.\<close>

definition accept_step :: "crypto \<Rightarrow> checkpoint_chain \<times> op_ref list
   \<Rightarrow> checkpoint signed \<times> op_ref list \<times> manifest \<times> (ident \<Rightarrow> bool)
   \<Rightarrow> checkpoint_error + checkpoint_chain \<times> op_ref list" where
  "accept_step cr = (\<lambda>(c, previous_heads) (r, heads, m, may_leave).
     and_then (checkpoint_chain_check cr c r heads m previous_heads may_leave)
       (\<lambda>_. Inr (checkpoint_chain_accept cr c r, heads)))"

definition accept_checkpoints ::
  "crypto \<Rightarrow> (checkpoint signed \<times> op_ref list \<times> manifest \<times> (ident \<Rightarrow> bool)) list
   \<Rightarrow> checkpoint_error + checkpoint_chain \<times> op_ref list" where
  "accept_checkpoints cr = try_fold (accept_step cr) (new_checkpoint_chain, [])"

text \<open>The rules a chain of checkpoints keeps.\<close>

definition follows :: "crypto \<Rightarrow> checkpoint signed list \<Rightarrow> checkpoint signed \<Rightarrow> bool" where
  "follows cr rs r \<longleftrightarrow> cp_number (body r) = of_nat (Suc (length rs))
     \<and> cp_previous (body r) = (if rs = [] then ZERO_digest else signed_checkpoint_digest cr (last rs))
     \<and> cp_skip (body r) = (if low (Suc (length rs)) = 0 then ZERO_digest
         else signed_checkpoint_digest cr (rs ! (low (Suc (length rs)) - 1)))
     \<and> (rs \<noteq> [] \<longrightarrow> cp_covered_seq (body (last rs)) < cp_covered_seq (body r)
         \<and> cp_floor (body (last rs)) \<le> cp_floor (body r))"

definition genuine_chain :: "crypto \<Rightarrow> checkpoint signed list \<Rightarrow> bool" where
  "genuine_chain cr rs \<longleftrightarrow> length rs < 2 ^ 64 \<and> (\<forall>i < length rs. follows cr (take i rs) (rs ! i))"

lemma genuine_snoc:
  "genuine_chain cr (rs @ [r]) \<longleftrightarrow> genuine_chain cr rs \<and> Suc (length rs) < 2 ^ 64 \<and> follows cr rs r"
  by (auto simp: genuine_chain_def less_Suc_eq nth_append)

definition chain_entries :: "crypto \<Rightarrow> checkpoint signed list \<Rightarrow> (u64 \<times> digest \<times> checkpoint) list" where
  "chain_entries cr rs = map (\<lambda>i. (of_nat (Suc i), signed_checkpoint_digest cr (rs ! i), body (rs ! i))) [0..<length rs]"

lemma chain_entries_snoc:
  "chain_entries cr (rs @ [r]) = chain_entries cr rs @ [(of_nat (Suc (length rs)), signed_checkpoint_digest cr r, body r)]"
  by (auto simp: chain_entries_def nth_append intro!: map_cong)

lemma chain_entries_last: "rs \<noteq> [] \<Longrightarrow>
    last (chain_entries cr rs) = (of_nat (length rs), signed_checkpoint_digest cr (last rs), body (last rs))"
  by (cases rs rule: rev_cases) (simp_all add: chain_entries_snoc)

lemma chain_entries_Nil [simp]: "chain_entries cr rs = [] \<longleftrightarrow> rs = []"
  by (simp add: chain_entries_def)

lemma digest_of_entries:
  assumes "bt_entries (cc_by_number c) = chain_entries cr rs" and "length rs < 2 ^ 64" and "1 \<le> n" and "n \<le> length rs"
  shows "checkpoint_digest_of c (of_nat n) = Some (signed_checkpoint_digest cr (rs ! (n - 1)))"
proof -
  have "(of_nat n, signed_checkpoint_digest cr (rs ! (n - 1)), body (rs ! (n - 1))) \<in> set (chain_entries cr rs)"
    using assms(3,4) by (auto simp: chain_entries_def intro!: rev_image_eqI [of "n - 1"])
  then have "bt_get (cc_by_number c) (of_nat n) = Some (signed_checkpoint_digest cr (rs ! (n - 1)), body (rs ! (n - 1)))"
    by (simp only: assms(1) [symmetric] bt_in_entries)
  then show ?thesis by (simp add: checkpoint_digest_of_def)
qed

lemma accepted_step:
  assumes "checkpoint_chain_check cr c r heads m previous_heads may_leave = Inr ()"
    and "bt_entries (cc_by_number c) = chain_entries cr rs" and "genuine_chain cr rs" and "Suc (length rs) < 2 ^ 64"
  shows "genuine_chain cr (rs @ [r])"
    and "bt_entries (cc_by_number (checkpoint_chain_accept cr c r)) = chain_entries cr (rs @ [r])"
    and "rs \<noteq> [] \<Longrightarrow> \<not> heads_fell_back heads previous_heads may_leave"
    and "manifest_root cr m = cp_manifest_root (body r)" and "heads_digest cr heads = cp_heads_digest (body r)"
proof -
  let ?n = "Suc (length rs)"
  have latest: "latest_checkpoint c = (if rs = [] then None else Some (signed_checkpoint_digest cr (last rs), body (last rs)))"
    using assms(2) chain_entries_last [of rs cr]
    by (auto simp: latest_checkpoint_def bt_values_def Let_def last_map)
  have number_last: "rs \<noteq> [] \<Longrightarrow> cp_number (body (last rs)) = of_nat (length rs)"
    using assms(3) by (cases rs rule: rev_cases) (simp_all add: genuine_snoc follows_def)
  have number: "cp_number (body r) = of_nat ?n"
    using assms(1) number_last
    by (auto simp: checkpoint_chain_check_def check_checkpoint_def latest Let_def split: if_splits)
  have skip: "unat (skip_number (cp_number (body r))) = low ?n" "low ?n \<le> length rs"
    using assms(4) low_less [of ?n] by (simp_all only: number skip_number_low unat_of_nat_u64) auto
  have zero: "skip_number (cp_number (body r)) = 0 \<longleftrightarrow> low ?n = 0"
    using skip(1) by (metis unat_0 unat_eq_zero)
  have digest: "low ?n \<noteq> 0 \<Longrightarrow> checkpoint_digest_of c (skip_number (cp_number (body r))) =
      Some (signed_checkpoint_digest cr (rs ! (low ?n - 1)))"
  proof -
    assume "low ?n \<noteq> 0"
    moreover have "skip_number (cp_number (body r)) = of_nat (low ?n)"
      using skip assms(4) by (intro word_eqI_unat) (simp add: unat_of_nat_u64)
    ultimately show ?thesis using digest_of_entries [OF assms(2), of "low ?n"] skip(2) assms(4) by simp
  qed
  show "genuine_chain cr (rs @ [r])"
    using assms(1,3,4) number zero digest
    by (auto simp: genuine_snoc follows_def checkpoint_chain_check_def check_checkpoint_def latest Let_def split: if_splits)
  show "rs \<noteq> [] \<Longrightarrow> \<not> heads_fell_back heads previous_heads may_leave"
    "manifest_root cr m = cp_manifest_root (body r)" "heads_digest cr heads = cp_heads_digest (body r)"
    using assms(1) by (auto simp: checkpoint_chain_check_def check_checkpoint_def latest Let_def split: if_splits)
  have "\<forall>p \<in> set (chain_entries cr rs). fst p < of_nat ?n"
    using assms(4) by (auto simp: chain_entries_def word_less_nat_alt unat_of_nat_u64 simp del: of_nat_Suc)
  then show "bt_entries (cc_by_number (checkpoint_chain_accept cr c r)) = chain_entries cr (rs @ [r])"
    using assms(2) by (simp add: checkpoint_chain_accept_def number ins_sorted_last chain_entries_snoc del: of_nat_Suc)
qed

lemma accepted_run:
  assumes "accept_checkpoints cr xs = Inr (c, hs)" and "length xs < 2 ^ 64"
  shows "genuine_chain cr (map fst xs) \<and> bt_entries (cc_by_number c) = chain_entries cr (map fst xs)
    \<and> hs = (if xs = [] then [] else fst (snd (last xs)))
    \<and> (\<forall>(r, heads, m, _) \<in> set xs. manifest_root cr m = cp_manifest_root (body r) \<and> heads_digest cr heads = cp_heads_digest (body r))
    \<and> (\<forall>i. Suc i < length xs \<longrightarrow>
        \<not> heads_fell_back (fst (snd (xs ! Suc i))) (fst (snd (xs ! i))) (snd (snd (snd (xs ! Suc i)))))"
  using assms
proof (induction xs arbitrary: c hs rule: rev_induct)
  case Nil
  then show ?case
    by (auto simp: accept_checkpoints_def genuine_chain_def chain_entries_def new_checkpoint_chain_def)
next
  case (snoc x xs)
  obtain r heads m may_leave where x: "x = (r, heads, m, may_leave)" by (cases x)
  obtain c' hs' where run: "accept_checkpoints cr xs = Inr (c', hs')"
    and check: "checkpoint_chain_check cr c' r heads m hs' may_leave = Inr ()"
    and c: "c = checkpoint_chain_accept cr c' r" "hs = heads"
    using snoc.prems(1) by (auto simp: accept_checkpoints_def try_fold_append accept_step_def x split: prod.splits)
  note ih = snoc.IH [OF run] 
  have n: "length xs < 2 ^ 64" "Suc (length (map fst xs)) < 2 ^ 64" using snoc.prems(2) by simp_all
  note step = accepted_step [OF check _ _ n(2)]
  have rising: "\<not> heads_fell_back (fst (snd ((xs @ [x]) ! Suc i))) (fst (snd ((xs @ [x]) ! i))) (snd (snd (snd ((xs @ [x]) ! Suc i))))"
    if "Suc i < length (xs @ [x])" for i
  proof (cases "Suc i < length xs")
    case True
    then show ?thesis using ih n(1) by (simp add: nth_append)
  next
    case False
    then have "i = length xs - 1" "xs \<noteq> []" using that by auto
    then show ?thesis using step(3) ih n(1) x by (simp add: nth_append last_conv_nth)
  qed
  show ?case
    using ih n(1) step(1,2,4,5) rising by (simp add: x c)
qed

lemma sorted_wrt_snoc:
  assumes "transp R" and "sorted_wrt R (map f rs)" and "rs \<noteq> [] \<Longrightarrow> R (f (last rs)) (f r)"
  shows "sorted_wrt R (map f (rs @ [r]))"
proof (cases rs rule: rev_cases)
  case (snoc ys y)
  then have "R (f x) (f y)" if "x \<in> set ys" for x using assms(2) that by (simp add: sorted_wrt_append)
  then have "R (f x) (f r)" if "x \<in> set rs" for x
    using that snoc assms(1,3) by (auto dest: transpD)
  then show ?thesis using assms(2) by (auto simp: sorted_wrt_append)
qed simp

lemma genuine_rising:
  "genuine_chain cr rs \<Longrightarrow> sorted_wrt (<) (map (\<lambda>r. cp_covered_seq (body r)) rs)
     \<and> sorted_wrt (\<le>) (map (\<lambda>r. cp_floor (body r)) rs)"
proof (induction rs rule: rev_induct)
  case (snoc r rs)
  then show ?case
    using sorted_wrt_snoc [of "(<)" "\<lambda>r. cp_covered_seq (body r)" rs r] sorted_wrt_snoc [of "(\<le>)" "\<lambda>r. cp_floor (body r)" rs r]
    by (simp add: genuine_snoc follows_def)
qed simp

text \<open>
  C34. The checkpoints a client accepts from its log, one after another, form one chain: numbered
  from 1 without a gap, each naming the digest of the one before and, through \<open>skip\<close>, of the one
  whose number has its lowest bit cleared; covered sequences rise, floors never fall, and each has
  the root and the heads of the client's own live set at that point.
\<close>

theorem accepted_checkpoints_follow:
  assumes "accept_checkpoints cr xs = Inr (c, hs)" and "length xs < 2 ^ 64"
  shows "genuine_chain cr (map fst xs)
    \<and> sorted_wrt (<) (map (\<lambda>x. cp_covered_seq (body (fst x))) xs)
    \<and> sorted_wrt (\<le>) (map (\<lambda>x. cp_floor (body (fst x))) xs)
    \<and> map (\<lambda>(_, _, m, _). manifest_root cr m) xs = map (\<lambda>(r, _). cp_manifest_root (body r)) xs
    \<and> map (\<lambda>(_, heads, _). heads_digest cr heads) xs = map (\<lambda>(r, _). cp_heads_digest (body r)) xs"
  using accepted_run [OF assms] genuine_rising [of cr "map fst xs"]
  by (auto simp: split_beta comp_def)

text \<open>
  A device that may not leave the heads never falls back in them: from one accepted checkpoint
  to any later one its head stays listed, at the same counter or a higher one.
\<close>

theorem heads_never_fall_back:
  assumes "accept_checkpoints cr xs = Inr (c, hs)" and "length xs < 2 ^ 64"
    and "i \<le> j" and "j < length xs" and "\<forall>(_, _, _, may_leave) \<in> set xs. \<not> may_leave d"
    and "find (\<lambda>h. ref_device h = d) (fst (snd (xs ! i))) = Some h"
  shows "\<exists>h'. find (\<lambda>h. ref_device h = d) (fst (snd (xs ! j))) = Some h' \<and> ref_counter h \<le> ref_counter h'"
  using assms(3,4)
proof (induction j rule: dec_induct)
  case (step j)
  then obtain h' where h': "find (\<lambda>h. ref_device h = d) (fst (snd (xs ! j))) = Some h'" "ref_counter h \<le> ref_counter h'"
    by auto
  then have "h' \<in> set (fst (snd (xs ! j)))" "ref_device h' = d" by (auto simp: find_Some_iff)
  moreover have "\<not> heads_fell_back (fst (snd (xs ! Suc j))) (fst (snd (xs ! j))) (snd (snd (snd (xs ! Suc j))))"
    using accepted_run [OF assms(1,2)] step.prems by blast
  moreover have "\<not> (snd (snd (snd (xs ! Suc j)))) d"
    using assms(5) nth_mem [OF step.prems] by (auto simp: split_beta)
  ultimately show ?case
    using h'(2) by (fastforce simp: heads_fell_back_def list_ex_iff not_less split: option.splits)
qed (use assms(6) in auto)

subsection \<open>Descent\<close>

lemma descent_step_ge: "to < current \<Longrightarrow> to \<le> descent_step to current"
proof -
  assume "to < current"
  then have "to \<le> current - 1" by uint_arith
  then show ?thesis by (simp add: descent_step_def Let_def)
qed

lemma descent_windows:
  assumes "to \<le> current"
  shows "last (current # descent_from to current) = to
    \<and> list_all (\<lambda>(a, b). to < a \<and> a \<le> current \<and> b = descent_step to a) (windows2 (current # descent_from to current))"
  using assms
proof (induction to current rule: descent_from.induct)
  case (1 to current)
  show ?case
  proof (cases "to < current")
    case True
    let ?next = "descent_step to current"
    have rest: "descent_from to current = ?next # descent_from to ?next"
      using True by (subst descent_from.simps) simp
    have "list_all (\<lambda>(a, b). to < a \<and> a \<le> current \<and> b = descent_step to a) (windows2 (?next # descent_from to ?next))"
      using 1(1) [OF True descent_step_ge [OF True]] descent_step_less [OF True]
      by (auto simp: list_all_iff dest!: bspec)
    then show ?thesis
      using 1(1) [OF True descent_step_ge [OF True]] True by (simp add: rest)
  next
    case False
    then show ?thesis using 1(2) by (subst (1 2) descent_from.simps) simp
  qed
qed

lemma descent_path_le: "n \<in> set (current # descent_from to current) \<Longrightarrow> n \<le> current"
proof (induction to current arbitrary: n rule: descent_from.induct)
  case (1 to current)
  show ?case
  proof (cases "to < current \<and> n \<noteq> current")
    case True
    then have "n \<in> set (descent_step to current # descent_from to (descent_step to current))"
      using 1(2) by (subst (asm) descent_from.simps) auto
    then have "n \<le> descent_step to current" using 1(1) True by blast
    also have "\<dots> \<le> current" using descent_step_less [of to current] True by simp
    finally show ?thesis .
  next
    case False
    then show ?thesis using 1(2) by (subst (asm) descent_from.simps) (auto split: if_splits)
  qed
qed

lemma windows2_map: "windows2 (map f xs) = map (\<lambda>(a, b). (f a, f b)) (windows2 xs)"
  by (induction xs rule: induct_list012) simp_all

lemma genuine_nth:
  assumes "genuine_chain cr rs" and "1 \<le> n" and "n \<le> length rs"
  shows "cp_number (body (rs ! (n - 1))) = of_nat n" and "unat (of_nat n :: u64) = n"
    and "1 < n \<Longrightarrow> cp_previous (body (rs ! (n - 1))) = signed_checkpoint_digest cr (rs ! (n - 2))"
    and "0 < low n \<Longrightarrow> cp_skip (body (rs ! (n - 1))) = signed_checkpoint_digest cr (rs ! (low n - 1))"
proof -
  obtain k where k: "n = Suc k" "k < length rs" using assms(2,3) by (cases n) auto
  then have f: "follows cr (take k rs) (rs ! k)" using assms(1) by (simp add: genuine_chain_def)
  show "unat (of_nat n :: u64) = n" using assms(1,3) by (intro unat_of_nat_u64) (simp add: genuine_chain_def)
  show "cp_number (body (rs ! (n - 1))) = of_nat n" using f k by (simp add: follows_def del: of_nat_Suc)
  show "1 < n \<Longrightarrow> cp_previous (body (rs ! (n - 1))) = signed_checkpoint_digest cr (rs ! (n - 2))"
    using f k by (auto simp: follows_def last_conv_nth)
  have "low (Suc k) - 1 < k" if "0 < low (Suc k)" using that low_less [of "Suc k"] by simp
  then show "0 < low n \<Longrightarrow> cp_skip (body (rs ! (n - 1))) = signed_checkpoint_digest cr (rs ! (low n - 1))"
    using f k by (auto simp: follows_def)
qed

lemma genuine_descends:
  assumes "genuine_chain cr rs" and "1 \<le> to" and "to < n" and "unat n \<le> length rs"
  shows "descends_to cr (rs ! (unat n - 1)) (rs ! (unat (descent_step to n) - 1))"
proof -
  define k where "k = unat n"
  have k: "unat to < k" "1 \<le> unat to" "k \<le> length rs"
    using assms(2-4) by (simp_all add: k_def word_less_nat_alt word_le_nat_alt)
  note new = genuine_nth [OF assms(1) _ k(3)]
  have step: "unat (descent_step to n) = nat_step (unat to) k" using unat_descent_step [OF assms(3)] by (simp add: k_def)
  show ?thesis
    unfolding step k_def [symmetric]
  proof (cases "unat to \<le> low k \<and> 0 < low k")
    case True
    then have old: "nat_step (unat to) k = low k" "1 \<le> low k" "low k \<le> length rs"
      using k low_less [of k] by (auto simp: nat_step_def)
    have "skip_number (of_nat k) = of_nat (low k)"
      using genuine_nth(2) [OF assms(1) old(2,3)] by (intro word_eqI_unat) (simp add: skip_number_low k_def)
    moreover have "(0 :: u64) < of_nat (low k)"
      using genuine_nth(2) [OF assms(1) old(2,3)] old(2) by (metis less_numeral_extra(3) unat_gt_0 unat_0 word_gt_0 zero_less_one_class.zero_less_one le_less_trans not_le)
    ultimately show "descends_to cr (rs ! (k - 1)) (rs ! (nat_step (unat to) k - 1))"
      using new(1,4) k old True genuine_nth(1) [OF assms(1) old(2,3)]
      by (simp add: descends_to_def Let_def)
  next
    case False
    then have "nat_step (unat to) k = k - 1" by (auto simp: nat_step_def)
    moreover have "cp_number (body (rs ! (k - 2))) + 1 = of_nat k"
      using genuine_nth(1) [OF assms(1), of "k - 1"] k by (auto simp: of_nat_diff numeral_2_eq_2)
    ultimately show "descends_to cr (rs ! (k - 1)) (rs ! (nat_step (unat to) k - 1))"
      using new(1,3) k by (simp add: descends_to_def Let_def numeral_2_eq_2)
  qed
qed

lemma genuine_path_verifies:
  assumes "genuine_chain cr rs" and "1 \<le> to" and "to \<le> from" and "unat from \<le> length rs"
  shows "verify_descent cr (map (\<lambda>n. rs ! (unat n - 1)) (descent_path from to))
    (signed_checkpoint_digest cr (rs ! (unat to - 1))) = Inr ()"
proof -
  let ?f = "\<lambda>n. rs ! (unat n - 1)"
  note path = descent_windows [OF assms(3)]
  have "list_all (\<lambda>(newer, older). descends_to cr newer older) (windows2 (map ?f (descent_path from to)))"
    using path genuine_descends [OF assms(1,2)] assms(4)
    unfolding windows2_map descent_path_def list_all_iff
    by (fastforce simp: word_le_nat_alt)
  moreover have "last (map ?f (descent_path from to)) = ?f to"
    using path last_map [of "descent_path from to" ?f] by (simp add: descent_path_def del: last.simps list.map)
  ultimately show ?thesis by (simp add: verify_descent_def descent_path_def)
qed

text \<open>
  A device whose anchor lies on the chain is never stranded: from any checkpoint a client
  accepted, the walk that the server takes back to any earlier one verifies against it.
\<close>

theorem accepted_chain_descends:
  assumes "accept_checkpoints cr xs = Inr (c, hs)" and "length xs < 2 ^ 64"
    and "1 \<le> to" and "to \<le> from" and "unat from \<le> length xs"
  shows "verify_descent cr (map (\<lambda>n. fst (xs ! (unat n - 1))) (descent_path from to))
    (signed_checkpoint_digest cr (fst (xs ! (unat to - 1)))) = Inr ()"
proof -
  let ?path = "descent_path from to"
  have genuine: "genuine_chain cr (map fst xs)" using accepted_run [OF assms(1,2)] by simp
  have "unat n - 1 < length xs" if "n \<in> set ?path" for n
  proof -
    have "n \<le> from" using descent_path_le [of n "from" to] that by (simp add: descent_path_def)
    then show ?thesis using assms(3-5) by (auto simp: word_le_nat_alt)
  qed
  then have "map (\<lambda>n. fst (xs ! (unat n - 1))) ?path = map (\<lambda>n. map fst xs ! (unat n - 1)) ?path"
    by (intro map_cong) simp_all
  moreover have "map fst xs ! (unat to - 1) = fst (xs ! (unat to - 1))"
    using assms(3-5) by (auto simp: word_le_nat_alt)
  ultimately show ?thesis
    using genuine_path_verifies [OF genuine assms(3,4)] assms(5) by (simp only: length_map)
qed

lemma genuine_older:
  assumes "genuine_chain cr rs" and "list_all (wf_signed wf_checkpoint) rs" and "wf_signed wf_checkpoint older"
    and "1 \<le> n" and "n \<le> length rs" and "descends_to cr (rs ! (n - 1)) older"
    and "\<not> checkpoints.clash cr rs ws" and "older \<in> set ws"
  shows "\<exists>k. 1 \<le> k \<and> k < n \<and> older = rs ! (k - 1)"
proof -
  note at = genuine_nth [OF assms(1,4,5)]
  have same: "older = rs ! (k - 1)"
    if "signed_checkpoint_digest cr (rs ! (k - 1)) = signed_checkpoint_digest cr older" "1 \<le> k" "k \<le> length rs" for k
  proof -
    have mem: "rs ! (k - 1) \<in> set rs" using that by simp
    then have "wf_signed wf_checkpoint (rs ! (k - 1))" using assms(2) by (simp add: list_all_iff)
    from checkpoints.same_digest [OF this assms(3) that(1)] show ?thesis
      using assms(7,8) mem by (auto simp: checkpoints.clash_def)
  qed
  from assms(6) consider
      (previous) "cp_previous (body (rs ! (n - 1))) = signed_checkpoint_digest cr older" "of_nat n = cp_number (body older) + 1"
    | (skip) "cp_skip (body (rs ! (n - 1))) = signed_checkpoint_digest cr older" "0 < skip_number (of_nat n)"
    unfolding descends_to_def Let_def at(1) by metis
  then show ?thesis
  proof cases
    case previous
    have "cp_number (body older) \<noteq> 0" using assms(3) by (simp add: wf_signed_def wf_checkpoint_def)
    with previous(2) have "n \<noteq> 1" by auto
    then have "1 < n" using assms(4) by simp
    have "older = rs ! (n - 1 - 1)"
    proof (rule same)
      have "n - 1 - 1 = n - 2" by simp
      then show "signed_checkpoint_digest cr (rs ! (n - 1 - 1)) = signed_checkpoint_digest cr older"
        using at(3) [OF \<open>1 < n\<close>] previous(1) by simp
    qed (use \<open>1 < n\<close> assms(5) in simp_all)
    then show ?thesis using \<open>1 < n\<close> by (intro exI [of _ "n - 1"]) simp
  next
    case skip
    then have low: "0 < low n" using skip_number_low [of "of_nat n"] at(2) by (simp add: word_less_nat_alt)
    have less: "low n < n" using low_less [of n] assms(4) by linarith
    have "older = rs ! (low n - 1)"
    proof (rule same)
      show "signed_checkpoint_digest cr (rs ! (low n - 1)) = signed_checkpoint_digest cr older"
        using at(4) [OF low] skip(1) by simp
    qed (use low less assms(5) in linarith)+
    with low less show ?thesis by (intro exI [of _ "low n"]) linarith
  qed
qed

text \<open>
  A walk that verifies proves descent: when its newest record is one of a genuine chain, its
  last one, which has the anchor's digest, is a record of that chain at or below it, and so is every
  record between; a server can pass off no other chain's checkpoint as an ancestor without a
  collision of two of the records' digests. Records are well-formed, as decoding leaves them.
\<close>

theorem descent_proves_ancestor:
  assumes "genuine_chain cr rs" and "list_all (wf_signed wf_checkpoint) (rs @ walk)"
    and "verify_descent cr walk anchor = Inr ()" and "1 \<le> n" and "n \<le> length rs" and "hd walk = rs ! (n - 1)"
  shows "set walk \<subseteq> set (take n rs) \<and> signed_checkpoint_digest cr (last walk) = anchor \<or> checkpoints.clash cr rs walk"
proof (rule disjCI)
  assume apart: "\<not> checkpoints.clash cr rs walk"
  have walk: "walk \<noteq> []" "signed_checkpoint_digest cr (last walk) = anchor"
    "list_all (\<lambda>(newer, older). descends_to cr newer older) (windows2 walk)"
    using assms(3) by (auto simp: verify_descent_def split: if_splits)
  have "set ws \<subseteq> set (take n rs)" if "ws \<noteq> []" "list_all (\<lambda>(newer, older). descends_to cr newer older) (windows2 ws)"
    "1 \<le> n" "n \<le> length rs" "hd ws = rs ! (n - 1)" "set ws \<subseteq> set walk" for ws n
    using that
  proof (induction ws arbitrary: n rule: induct_list012)
    case (2 x)
    then show ?case by (auto simp: in_set_conv_nth intro!: exI [of _ "n - 1"])
  next
    case (3 x y zs)
    have wf: "list_all (wf_signed wf_checkpoint) rs" "wf_signed wf_checkpoint y"
      using assms(2) 3(8) by (auto simp: list_all_iff)
    obtain k where k: "1 \<le> k" "k < n" "y = rs ! (k - 1)"
      using genuine_older [OF assms(1) wf(1,2) 3(5,6) _ apart] 3(4,7,8) by auto
    have "set (y # zs) \<subseteq> set (take k rs)"
      using 3(4,6,8) k by (intro 3(2)) auto
    moreover have "set (take k rs) \<subseteq> set (take n rs)" using k(2) by (simp add: set_take_subset_set_take)
    moreover have "x \<in> set (take n rs)"
      using 3(5-7) by (auto simp: in_set_conv_nth intro!: exI [of _ "n - 1"])
    ultimately show ?case by auto
  qed simp
  then show "set walk \<subseteq> set (take n rs) \<and> signed_checkpoint_digest cr (last walk) = anchor"
    using walk assms(4-6) by blast
qed

end
