(* ===== verification/Checkpoint_Walks.thy ===== *)
theory Checkpoint_Walks
  imports Checkpoint_Laws
begin

text \<open>
  The walk for hidden checkpoints against a server that serves what it likes: a plan that succeeds
  leaves no checkpoint of the genuine chain out up to the highest one that any entry names.
\<close>

definition records_collide :: "crypto \<Rightarrow> checkpoint signed set \<Rightarrow> checkpoint signed set \<Rightarrow> bool" where
  "records_collide cr A B \<longleftrightarrow> (\<exists>x \<in> A. \<exists>y \<in> B. collision (signed_checkpoint_digest cr) x y)"

text \<open>The digest of the \<open>n\<close>th checkpoint, zero before the first.\<close>

definition nth_digest :: "crypto \<Rightarrow> checkpoint signed list \<Rightarrow> nat \<Rightarrow> digest" where
  "nth_digest cr rs n = (if n = 0 then ZERO_digest else signed_checkpoint_digest cr (rs ! (n - 1)))"

text \<open>What a fetch may answer with: the link of any record among \<open>T\<close>, genuine or not.\<close>

definition links_from :: "crypto \<Rightarrow> checkpoint signed set \<Rightarrow> 'f checkpoint_fetcher \<Rightarrow> bool" where
  "links_from cr T fetch \<longleftrightarrow> (\<forall>f d link f'. fetch f d = (Some link, f') \<longrightarrow> (\<exists>r \<in> T. link = chain_link_of cr r))"

text \<open>A genuine chain and the records a server may serve, none of them with a zero digest.\<close>

definition served_chain :: "crypto \<Rightarrow> checkpoint signed list \<Rightarrow> checkpoint signed set \<Rightarrow> bool" where
  "served_chain cr rs T \<longleftrightarrow> genuine_chain cr rs \<and> \<not> records_collide cr (set rs) (set rs \<union> T)
     \<and> (\<forall>r \<in> set rs \<union> T. signed_checkpoint_digest cr r \<noteq> ZERO_digest)"

lemma nth_digest_inject:
  assumes "served_chain cr rs T" and "nth_digest cr rs a = nth_digest cr rs b" and "a \<le> length rs" and "b \<le> length rs"
  shows "a = b"
proof -
  have genuine: "genuine_chain cr rs" and zero: "\<And>n. 1 \<le> n \<Longrightarrow> n \<le> length rs \<Longrightarrow> nth_digest cr rs n \<noteq> ZERO_digest"
    using assms(1) by (auto simp: served_chain_def nth_digest_def)
  show ?thesis
  proof (cases "a = 0 \<or> b = 0")
    case True
    have none: "nth_digest cr rs 0 = ZERO_digest" by (simp add: nth_digest_def)
    from True assms(2-4) none zero [of a] zero [of b] show ?thesis
      by (metis One_nat_def Suc_leI neq0_conv)
  next
    case False
    then have mem: "rs ! (a - 1) \<in> set rs" "rs ! (b - 1) \<in> set rs" using assms(3,4) by auto
    have "rs ! (a - 1) = rs ! (b - 1)"
      using assms(1,2) mem False by (auto simp: served_chain_def records_collide_def collision_def nth_digest_def)
    then have "(of_nat a :: u64) = of_nat b"
      using genuine_nth(1) [OF genuine, of a] genuine_nth(1) [OF genuine, of b] assms(3,4) False by simp
    then show ?thesis
      using genuine_nth(2) [OF genuine, of a] genuine_nth(2) [OF genuine, of b] assms(3,4) False
      by (metis One_nat_def Suc_leI neq0_conv)
  qed
qed

lemma served_link:
  assumes "served_chain cr rs T" and "r \<in> T \<or> r \<in> set rs" and "signed_checkpoint_digest cr r = nth_digest cr rs m" and "m \<le> length rs"
  shows "1 \<le> m" and "r = rs ! (m - 1)"
proof -
  have "m \<noteq> 0"
  proof
    assume "m = 0"
    then show False using assms(1-3) by (auto simp: served_chain_def nth_digest_def)
  qed
  then show "1 \<le> m" by simp
  then have "rs ! (m - 1) \<in> set rs" using assms(4) by auto
  moreover have "signed_checkpoint_digest cr (rs ! (m - 1)) = signed_checkpoint_digest cr r"
    using assms(3) \<open>m \<noteq> 0\<close> by (simp add: nth_digest_def)
  ultimately show "r = rs ! (m - 1)"
    using assms(1,2) unfolding served_chain_def records_collide_def collision_def by (metis UnI1 UnI2)
qed

lemma link_fields:
  assumes "served_chain cr rs T" and "1 \<le> m" and "m \<le> length rs"
  shows "chain_link_of cr (rs ! (m - 1)) =
    \<lparr>cl_number = of_nat m, cl_digest = nth_digest cr rs m, cl_previous = nth_digest cr rs (m - 1)\<rparr>"
    and "unat (of_nat m :: u64) = m"
proof -
  have genuine: "genuine_chain cr rs" using assms(1) by (simp add: served_chain_def)
  note at = genuine_nth [OF genuine assms(2,3)]
  show "unat (of_nat m :: u64) = m" by (rule at(2))
  have "cp_previous (body (rs ! (m - 1))) = nth_digest cr rs (m - 1)"
  proof (cases "m = 1")
    case True
    then have "0 < length rs" using assms(3) by linarith
    then have "follows cr (take 0 rs) (rs ! 0)" using genuine unfolding genuine_chain_def by blast
    then show ?thesis using True by (simp add: follows_def nth_digest_def)
  next
    case False
    then have "1 < m" using assms(2) by simp
    have "m - 2 = m - 1 - 1" by simp
    with at(3) [OF \<open>1 < m\<close>] \<open>1 < m\<close> show ?thesis by (simp add: nth_digest_def)
  qed
  then show "chain_link_of cr (rs ! (m - 1)) =
      \<lparr>cl_number = of_nat m, cl_digest = nth_digest cr rs m, cl_previous = nth_digest cr rs (m - 1)\<rparr>"
    using at(1) assms(2) by (simp add: chain_link_of_def nth_digest_def)
qed

lemma walk_back_genuine:
  assumes "served_chain cr rs T" and "links_from cr T fetch" and "j \<le> length rs"
    and "walk_back fetch (of_nat j, nth_digest cr rs j) wanted bound f = (Inr walk, f')"
    and "wanted = nth_digest cr rs m" and "m \<le> length rs"
  shows "j \<le> m \<and> walk = rev (map (chain_link_of cr) (drop j (take m rs)))"
  using assms(2,4-6)
proof (induction fetch "(of_nat j :: u64, nth_digest cr rs j)" wanted bound f arbitrary: m walk f' rule: walk_back.induct)
  case (1 fetch wanted bound f)
  show ?case
  proof (cases "wanted = nth_digest cr rs j")
    case True
    then have "m = j" using nth_digest_inject [OF assms(1)] 1(4,5) assms(3) by metis
    then show ?thesis using 1(3) True by (simp add: walk_back.simps)
  next
    case False
    then obtain link g walk' where link: "fetch f wanted = (Some link, g)" "cl_digest link = wanted"
      "\<not> cl_number link \<le> of_nat j" "\<not> (case bound of None \<Rightarrow> False | Some n \<Rightarrow> cl_number link + 1 \<noteq> n)"
      and rest: "walk_back fetch (of_nat j, nth_digest cr rs j) (cl_previous link) (Some (cl_number link)) g = (Inr walk', f')"
        "walk = link # walk'"
      using 1(3) by (subst (asm) walk_back.simps) (auto split: prod.splits option.splits if_splits sum.splits)
    obtain r where r: "r \<in> T" "link = chain_link_of cr r"
      using 1(2) link(1) unfolding links_from_def by blast
    have m: "1 \<le> m" "r = rs ! (m - 1)"
      using served_link [OF assms(1), of r m] r link(2) 1(4,5) by (simp_all add: chain_link_of_def)
    note fields = link_fields [OF assms(1) m(1) 1(5)]
    have at_m: "cl_previous link = nth_digest cr rs (m - 1)" "cl_number link = of_nat m"
      using fields(1) r(2) m(2) by simp_all
    have "unat (of_nat j :: u64) = j"
      using assms(1,3) by (intro unat_of_nat_u64) (simp add: served_chain_def genuine_chain_def)
    then have "j < m" using link(3) at_m(2) fields(2) by (simp add: word_le_nat_alt)
    have "j \<le> m - 1 \<and> walk' = rev (map (chain_link_of cr) (drop j (take (m - 1) rs)))"
    proof (rule 1(1))
      show "\<not> (cl_digest link \<noteq> wanted \<or> cl_number link \<le> fst (of_nat j :: u64, nth_digest cr rs j)
          \<or> (case bound of None \<Rightarrow> False | Some n \<Rightarrow> cl_number link + 1 \<noteq> n))"
        using link by simp
    qed (use 1(2) False link(1) rest(1) at_m(1) 1(5) in simp_all)
    moreover have "take m rs = take (m - 1) rs @ [rs ! (m - 1)]"
      using take_Suc_conv_app_nth [of "m - 1" rs] m(1) 1(5) by simp
    ultimately show ?thesis using rest(2) r(2) m(2) \<open>j < m\<close> 1(5) by simp
  qed
qed

lemma nth_digest_nonzero:
  "served_chain cr rs T \<Longrightarrow> 1 \<le> i \<Longrightarrow> i \<le> length rs \<Longrightarrow> nth_digest cr rs i \<noteq> ZERO_digest"
  using nth_digest_inject [of cr rs T i 0] by (fastforce simp: nth_digest_def)

text \<open>The walk stands at the \<open>j\<close>th checkpoint and knows none beyond it.\<close>

definition stands_at :: "crypto \<Rightarrow> checkpoint signed list \<Rightarrow> checkpoint_walk \<Rightarrow> nat \<Rightarrow> bool" where
  "stands_at cr rs w j \<longleftrightarrow> j \<le> length rs \<and> wk_last w = (of_nat j, nth_digest cr rs j)
     \<and> wk_known w \<subseteq> nth_digest cr rs ` {1..j}"

lemma stands_note:
  assumes "served_chain cr rs T" and "stands_at cr rs w j" and "j < length rs"
  shows "stands_at cr rs (note_link (chain_link_of cr (rs ! j)) w) (Suc j)"
  using assms(2,3) link_fields(1) [OF assms(1), of "Suc j"]
  by (auto simp: stands_at_def note_link_def)

lemma stands_walk:
  assumes "served_chain cr rs T" and "stands_at cr rs w j" and "j \<le> m" and "m \<le> length rs"
  shows "stands_at cr rs (fold note_link (map (chain_link_of cr) (drop j (take m rs))) w) m"
  using assms(3,4)
proof (induction m rule: dec_induct)
  case base
  then show ?case using assms(2) by simp
next
  case (step m)
  then have "drop j (take (Suc m) rs) = drop j (take m rs) @ [rs ! m]"
    by (simp add: take_Suc_conv_app_nth)
  then show ?case using step stands_note [OF assms(1), of _ m] by simp
qed

lemma note_fields [simp]:
  "wk_floor (fold note_link links w) = wk_floor w" "wk_generation (fold note_link links w) = wk_generation w"
  "wk_floor (note_link link w) = wk_floor w" "wk_generation (note_link link w) = wk_generation w"
proof -
  show "wk_floor (note_link link w) = wk_floor w" "wk_generation (note_link link w) = wk_generation w" for link w
    by (simp_all add: note_link_def)
  then show "wk_floor (fold note_link links w) = wk_floor w" "wk_generation (fold note_link links w) = wk_generation w"
    by (induction links arbitrary: w) simp_all
qed

lemma max_nth:
  assumes "served_chain cr rs T" and "i \<le> length rs" and "j \<le> length rs"
  shows "max (of_nat j :: u64, nth_digest cr rs j) (of_nat i, nth_digest cr rs i) = (of_nat (max i j), nth_digest cr rs (max i j))"
proof -
  have small: "unat (of_nat i :: u64) = i" "unat (of_nat j :: u64) = j"
    using assms by (auto simp: served_chain_def genuine_chain_def intro!: unat_of_nat_u64)
  consider "i = j" | "i < j" "(of_nat i :: u64) < of_nat j" | "j < i" "(of_nat j :: u64) < of_nat i"
    using small by (metis linorder_neqE_nat word_less_nat_alt)
  then show ?thesis by cases (auto simp: max_def)
qed

lemma stands_new:
  assumes "served_chain cr rs T" and "set reached \<subseteq> (\<lambda>n. (of_nat n, nth_digest cr rs n)) ` {1..length rs}"
  shows "\<exists>j. stands_at cr rs (new_walk reached flr generation) j \<and> (j = 0 \<or> (of_nat j, nth_digest cr rs j) \<in> set reached)"
  using assms(2)
proof (induction reached rule: rev_induct)
  case Nil
  have "(0, ZERO_digest) = (of_nat 0, nth_digest cr rs 0)" by (simp add: nth_digest_def)
  then show ?case by (auto simp: stands_at_def new_walk_def intro!: exI [of _ 0])
next
  case (snoc l reached)
  then obtain j where j: "stands_at cr rs (new_walk reached flr generation) j" "j = 0 \<or> (of_nat j, nth_digest cr rs j) \<in> set reached"
    by auto
  obtain i where i: "1 \<le> i" "i \<le> length rs" "l = (of_nat i, nth_digest cr rs i)" using snoc.prems by auto
  have "stands_at cr rs (new_walk (reached @ [l]) flr generation) (max i j)"
    using j(1) i max_nth [OF assms(1) i(2), of j]
    by (auto simp: stands_at_def new_walk_def max_def)
  then show ?case using i(3) j(2) by (intro exI [of _ "max i j"]) (auto simp: max_def)
qed

lemma stands_noted:
  assumes "served_chain cr rs T" and "stands_at cr rs w j" and "1 \<le> i" and "i \<le> length rs"
    and "entry_need w (Walk_Checkpoint (chain_link_of cr (rs ! (i - 1)))) = Need_Noted link"
  shows "i \<le> Suc j" and "link = chain_link_of cr (rs ! (i - 1))"
    and "stands_at cr rs (w\<lparr>wk_known := insert (cl_digest link) (wk_known w),
      wk_last := max (wk_last w) (cl_number link, cl_digest link)\<rparr>) (max i j)"
proof -
  note fields = link_fields [OF assms(1,3,4)]
  show link: "link = chain_link_of cr (rs ! (i - 1))"
    using assms(5) by (auto simp: entry_need_def split: if_splits)
  have prev: "cl_previous link = nth_digest cr rs (i - 1)" using fields(1) link by simp
  have "cl_previous link = snd (wk_last w) \<or> cl_previous link \<in> wk_known w"
    using assms(5) by (auto simp: entry_need_def split: if_splits)
  then have "cl_previous link \<in> nth_digest cr rs ` {0..j}" and "j \<le> length rs"
    using assms(2) by (auto simp: stands_at_def)
  then obtain k where "nth_digest cr rs (i - 1) = nth_digest cr rs k" "k \<le> j" "k \<le> length rs"
    unfolding prev by (auto intro: order_trans)
  then have "i - 1 = k" using nth_digest_inject [OF assms(1)] assms(4) by simp
  then show i: "i \<le> Suc j" using \<open>k \<le> j\<close> by simp
  have "wk_last w = (of_nat j, nth_digest cr rs j)" using assms(2) by (simp add: stands_at_def)
  then have "max (wk_last w) (cl_number link, cl_digest link) = (of_nat (max i j), nth_digest cr rs (max i j))"
    using max_nth [OF assms(1,4) \<open>j \<le> length rs\<close>] fields(1) link by simp
  then show "stands_at cr rs (w\<lparr>wk_known := insert (cl_digest link) (wk_known w),
      wk_last := max (wk_last w) (cl_number link, cl_digest link)\<rparr>) (max i j)"
    using assms(2-4) fields(1) link unfolding stands_at_def by (auto simp: max_def)
qed

text \<open>
  What an entry names: a checkpoint entry the checkpoint itself, an operation of this restore
  generation at or above the floor the checkpoint its writer reached.
\<close>

definition entry_names :: "crypto \<Rightarrow> checkpoint signed list \<Rightarrow> u64 \<Rightarrow> u64 \<Rightarrow> walk_entry \<Rightarrow> nat \<Rightarrow> bool" where
  "entry_names cr rs flr generation e i \<longleftrightarrow> 1 \<le> i \<and> i \<le> length rs \<and> (case e of
       Walk_Checkpoint link \<Rightarrow> link = chain_link_of cr (rs ! (i - 1))
     | Walk_Operation g s d \<Rightarrow> g = generation \<and> flr \<le> s \<and> d = nth_digest cr rs i
     | Walk_Other \<Rightarrow> False)"

text \<open>Entries of honest writers name checkpoints of the genuine chain.\<close>

definition entry_genuine :: "crypto \<Rightarrow> checkpoint signed list \<Rightarrow> walk_entry \<Rightarrow> bool" where
  "entry_genuine cr rs e = (case e of
       Walk_Checkpoint link \<Rightarrow> link \<in> chain_link_of cr ` set rs
     | Walk_Operation _ _ d \<Rightarrow> d \<in> insert ZERO_digest (signed_checkpoint_digest cr ` set rs)
     | Walk_Other \<Rightarrow> True)"

text \<open>The checkpoints of the chain from \<open>j\<close> to \<open>k\<close> are among the links \<open>L\<close>.\<close>

definition shown :: "crypto \<Rightarrow> checkpoint signed list \<Rightarrow> nat \<Rightarrow> nat \<Rightarrow> chain_link set \<Rightarrow> bool" where
  "shown cr rs j k L \<longleftrightarrow> chain_link_of cr ` set (drop j (take k rs)) \<subseteq> L"

lemma set_segment: "set (drop i (take k xs)) = (!) xs ` {i..<min k (length xs)}"
proof -
  have "drop i (take k xs) = map ((!) xs) [i..<min k (length xs)]"
    by (rule nth_equalityI) (auto simp: nth_append add.commute less_diff_conv)
  then show ?thesis by simp
qed

lemma shown_trans: "shown cr rs i j L \<Longrightarrow> shown cr rs j k L \<Longrightarrow> shown cr rs i k L"
  unfolding shown_def set_segment image_image image_subset_iff Ball_def atLeastLessThan_iff by (metis min_less_iff_conj not_le)

lemma shown_mono: "shown cr rs j k L \<Longrightarrow> L \<subseteq> M \<Longrightarrow> shown cr rs j k M"
  by (auto simp: shown_def)

lemma shown_le: "k \<le> j \<Longrightarrow> shown cr rs j k L"
  by (simp add: shown_def)

lemma shown_one: "k \<le> Suc j \<Longrightarrow> 1 \<le> k \<Longrightarrow> k \<le> length rs \<Longrightarrow> chain_link_of cr (rs ! (k - 1)) \<in> L \<Longrightarrow> shown cr rs j k L"
proof -
  assume "k \<le> Suc j" "1 \<le> k" "k \<le> length rs" "chain_link_of cr (rs ! (k - 1)) \<in> L"
  moreover from this have "take k rs = take (k - 1) rs @ [rs ! (k - 1)]"
    using take_Suc_conv_app_nth [of "k - 1" rs] by simp
  ultimately show ?thesis by (auto simp: shown_def dest: set_drop_subset [THEN subsetD])
qed

text \<open>One entry: what its handling leaves.\<close>

definition extra_links :: "(nat, chain_link list) btree \<Rightarrow> chain_link set" where
  "extra_links extra = \<Union> (set ` ran (bt_get extra))"

lemma extra_links_insert:
  "bt_get extra index = None \<Longrightarrow> extra_links (bt_insert index walk extra) = set walk \<union> extra_links extra"
  by (simp add: extra_links_def)

lemma plan_shows:
  assumes "served_chain cr rs T" and "links_from cr T fetch"
    and "plan_from fetch index es w extra f = (Inr extra', w', f')"
    and "list_all (entry_genuine cr rs) es" and "stands_at cr rs w j" and "dom (bt_get extra) \<subseteq> {..<index}"
  shows "\<exists>k. j \<le> k \<and> stands_at cr rs w' k
    \<and> shown cr rs j k ({link. Walk_Checkpoint link \<in> set es} \<union> extra_links extra')
    \<and> extra_links extra \<subseteq> extra_links extra'
    \<and> (\<forall>e \<in> set es. \<forall>i. entry_names cr rs (wk_floor w) (wk_generation w) e i \<longrightarrow> i \<le> k)"
  using assms(3-6)
proof (induction es arbitrary: index w extra f j)
  case Nil
  then show ?case by (auto intro!: exI [of _ j] shown_le)
next
  case (Cons e es)
  note served = assms(1)
  have j: "j \<le> length rs" using Cons.prems(3) by (simp add: stands_at_def)
  text \<open>What remains to be shown of an entry, given the state after it.\<close>
  have continue: "\<exists>k. j \<le> k \<and> stands_at cr rs w' k
      \<and> shown cr rs j k ({link. Walk_Checkpoint link \<in> set (e # es)} \<union> extra_links extra')
      \<and> extra_links extra \<subseteq> extra_links extra'
      \<and> (\<forall>e \<in> set (e # es). \<forall>i. entry_names cr rs (wk_floor w) (wk_generation w) e i \<longrightarrow> i \<le> k)"
    if after: "plan_from fetch (Suc index) es v extras g = (Inr extra', w', f')" "stands_at cr rs v l" "j \<le> l"
      "dom (bt_get extras) \<subseteq> {..<Suc index}" "extra_links extra \<subseteq> extra_links extras"
      and same: "wk_floor v = wk_floor w" "wk_generation v = wk_generation w"
      and here: "shown cr rs j l ({link. Walk_Checkpoint link = e} \<union> extra_links extras)"
      and last: "\<And>i. entry_names cr rs (wk_floor w) (wk_generation w) e i \<Longrightarrow> i \<le> l" for v extras g l
  proof -
    obtain k where k: "l \<le> k" "stands_at cr rs w' k"
      "shown cr rs l k ({link. Walk_Checkpoint link \<in> set es} \<union> extra_links extra')"
      "extra_links extras \<subseteq> extra_links extra'"
      "\<forall>e \<in> set es. \<forall>i. entry_names cr rs (wk_floor w) (wk_generation w) e i \<longrightarrow> i \<le> k"
      using Cons.IH [OF after(1) _ after(2,4)] Cons.prems(2) same by auto
    have "shown cr rs j k ({link. Walk_Checkpoint link \<in> set (e # es)} \<union> extra_links extra')"
      using k(4) by (intro shown_trans [OF shown_mono [OF here] shown_mono [OF k(3)]]) auto
    then show ?thesis
      using k after(3,5) last by (intro exI [of _ k]) (fastforce intro: order_trans)
  qed
  have named: "i \<le> j" if "nth_digest cr rs i \<in> wk_known w" "i \<le> length rs" for i
    using that Cons.prems(3) nth_digest_inject [OF served, of i] by (fastforce simp: stands_at_def)
  have same: "i = m" if "chain_link_of cr (rs ! (i - 1)) = chain_link_of cr (rs ! (m - 1))"
    "1 \<le> i" "i \<le> length rs" "1 \<le> m" "m \<le> length rs" for i m
    using that link_fields(1) [OF served, of i] link_fields(1) [OF served, of m] nth_digest_inject [OF served, of i m] by simp
  have fresh: "bt_get extra index = None" using Cons.prems(4) by (auto simp: dom_def)
  show ?case
  proof (cases "entry_need w e")
    case Need_Nothing
    have "i \<le> j" if "entry_names cr rs (wk_floor w) (wk_generation w) e i" for i
    proof (rule named)
      show "nth_digest cr rs i \<in> wk_known w"
        using that Need_Nothing link_fields(1) [OF served, of i] nth_digest_nonzero [OF served, of i]
        by (auto simp: entry_names_def entry_need_def split: walk_entry.splits if_splits)
    qed (use that in \<open>simp add: entry_names_def\<close>)
    then show ?thesis
      using Cons.prems Need_Nothing
      by (intro continue [where v = w and l = j and extras = extra and g = f]) (auto simp: shown_le)
  next
    case (Need_Noted link)
    then have e: "e = Walk_Checkpoint link" by (auto simp: entry_need_def split: walk_entry.splits if_splits)
    then obtain r where r: "r \<in> set rs" "link = chain_link_of cr r"
      using Cons.prems(2) by (auto simp: entry_genuine_def)
    then obtain n where "n < length rs" "rs ! n = r" by (auto simp: in_set_conv_nth)
    then obtain i where i: "1 \<le> i" "i \<le> length rs" "link = chain_link_of cr (rs ! (i - 1))"
      using r(2) by (intro that [of "Suc n"]) auto
    note noted = stands_noted [OF served Cons.prems(3) i(1,2), of link]
    have need: "entry_need w (Walk_Checkpoint (chain_link_of cr (rs ! (i - 1)))) = Need_Noted link"
      using Need_Noted e i(3) by simp
    have "shown cr rs j (max i j) ({link. Walk_Checkpoint link = e} \<union> extra_links extra)"
      using noted(1) [OF need] i e by (cases "i \<le> j") (auto simp: max_def shown_le intro: shown_one)
    note seen = this
    have rest: "plan_from fetch (Suc index) es (w\<lparr>wk_known := insert (cl_digest link) (wk_known w),
        wk_last := max (wk_last w) (cl_number link, cl_digest link)\<rparr>) extra f = (Inr extra', w', f')"
      using Cons.prems(1) Need_Noted by simp
    have names: "l = i" if "entry_names cr rs (wk_floor w) (wk_generation w) e l" for l
      using that i e same [of l i] by (simp add: entry_names_def)
    show ?thesis
    proof (rule continue [OF rest noted(3) [OF need] _ _ _ _ _ seen])
      show "dom (bt_get extra) \<subseteq> {..<Suc index}" using Cons.prems(4) by auto
    qed (use names in auto)
  next
    case (Need_Walk wanted then1)
    have "\<exists>m. wanted = nth_digest cr rs m \<and> m \<le> length rs
      \<and> (\<forall>link. then1 = Some link \<longrightarrow> e = Walk_Checkpoint link \<and> m < length rs \<and> link = chain_link_of cr (rs ! m))
      \<and> (\<forall>i. then1 = None \<longrightarrow> entry_names cr rs (wk_floor w) (wk_generation w) e i \<longrightarrow> i = m)"
    proof (cases e)
      case (Walk_Checkpoint link)
      then obtain n where n: "n < length rs" "link = chain_link_of cr (rs ! n)"
        using Cons.prems(2) by (auto simp: entry_genuine_def in_set_conv_nth)
      moreover have "wanted = cl_previous link" "then1 = Some link"
        using Need_Walk Walk_Checkpoint by (auto simp: entry_need_def split: if_splits)
      ultimately show ?thesis
        using Walk_Checkpoint link_fields(1) [OF served, of "Suc n"] by (auto intro!: exI [of _ n])
    next
      case (Walk_Operation g s d)
      then have d: "d \<noteq> ZERO_digest" "wanted = d" "then1 = None"
        using Need_Walk by (auto simp: entry_need_def split: if_splits)
      then obtain n where n: "n < length rs" "d = nth_digest cr rs (Suc n)"
        using Cons.prems(2) Walk_Operation by (auto simp: entry_genuine_def in_set_conv_nth nth_digest_def)
      then show ?thesis
        using Walk_Operation d nth_digest_inject [OF served, of _ "Suc n"]
        by (intro exI [of _ "Suc n"]) (auto simp: entry_names_def)
    next
      case Walk_Other
      then show ?thesis using Need_Walk by (simp add: entry_need_def)
    qed
    then obtain m where m: "wanted = nth_digest cr rs m" "m \<le> length rs"
      and then1: "\<And>link. then1 = Some link \<Longrightarrow> e = Walk_Checkpoint link \<and> m < length rs \<and> link = chain_link_of cr (rs ! m)"
      and other: "\<And>i. then1 = None \<Longrightarrow> entry_names cr rs (wk_floor w) (wk_generation w) e i \<Longrightarrow> i = m"
      by blast
    obtain walk g where walk: "walk_back fetch (wk_last w) wanted (map_option cl_number then1) f = (Inr walk, g)"
      using Cons.prems(1) Need_Walk by (auto split: prod.splits sum.splits)
    have "wk_last w = (of_nat j, nth_digest cr rs j)" using Cons.prems(3) by (simp add: stands_at_def)
    with walk have "j \<le> m" and links: "rev walk = map (chain_link_of cr) (drop j (take m rs))"
      using walk_back_genuine [OF served assms(2) j _ m] by (metis rev_rev_ident)+
    define w1 where "w1 = fold note_link (rev walk) w"
    define extras where "extras = (if walk = [] then extra else bt_insert index (rev walk) extra)"
    have at_m: "stands_at cr rs w1 m" unfolding w1_def links by (rule stands_walk [OF served Cons.prems(3) \<open>j \<le> m\<close> m(2)])
    have kept: "wk_floor w1 = wk_floor w" "wk_generation w1 = wk_generation w" by (simp_all add: w1_def)
    have extras: "extra_links extra \<subseteq> extra_links extras" "set (rev walk) \<subseteq> extra_links extras"
      "dom (bt_get extras) \<subseteq> {..<Suc index}"
      using extra_links_insert [OF fresh] Cons.prems(4) by (auto simp: extras_def)
    have walked: "shown cr rs j m L" if "set (rev walk) \<subseteq> L" for L
      using that unfolding shown_def links by simp
    show ?thesis
    proof (cases then1)
      case None
      have rest: "plan_from fetch (Suc index) es w1 extras g = (Inr extra', w', f')"
        using Cons.prems(1) Need_Walk walk None by (simp add: w1_def extras_def Let_def)
      show ?thesis
        using extras other [OF None] by (intro continue [OF rest at_m \<open>j \<le> m\<close> _ _ kept walked]) auto
    next
      case (Some link)
      note at = then1 [OF Some]
      have rest: "plan_from fetch (Suc index) es (note_link link w1) extras g = (Inr extra', w', f')"
        using Cons.prems(1) Need_Walk walk Some by (simp add: w1_def extras_def Let_def)
      have here: "stands_at cr rs (note_link link w1) (Suc m)" using stands_note [OF served at_m] at by simp
      have "shown cr rs m (Suc m) {link}" using at by (intro shown_one) auto
      then have "shown cr rs j (Suc m) ({link. Walk_Checkpoint link = e} \<union> extra_links extras)"
        using extras at by (intro shown_trans [OF walked shown_mono]) auto
      then show ?thesis
        using extras kept \<open>j \<le> m\<close> at same [of _ "Suc m"]
        by (intro continue [OF rest here]) (auto simp: entry_names_def)
    qed
  qed
qed

text \<open>
  C28. A server cannot hide a checkpoint by leaving it out of the log. Let \<open>rs\<close> be the workspace's
  checkpoint chain, let the client's known checkpoints and the log's entries name checkpoints of it,
  and let the server answer each fetch with whatever record it likes, forged ones included. When the
  plan for those entries succeeds, every checkpoint above the known ones and up to the highest one
  that an entry names (a checkpoint entry itself, or an operation of this generation at or above the
  floor) is either among the entries or among the links planned before an entry, unless two records
  collide under BLAKE3 or one hashes to zero.
\<close>

theorem plan_hides_nothing:
  assumes "genuine_chain cr rs"
    and "set reached \<subseteq> (\<lambda>r. (cp_number (body r), signed_checkpoint_digest cr r)) ` set rs"
    and "list_all (entry_genuine cr rs) entries"
    and "links_from cr T fetch"
    and "plan entries fetch (new_walk reached flr generation) f = (Inr extra, w, f')"
    and "e \<in> set entries" and "entry_names cr rs flr generation e i"
    and "1 \<le> n" and "n \<le> i" and "\<forall>l \<in> set reached. fst l < of_nat n"
  shows "Walk_Checkpoint (chain_link_of cr (rs ! (n - 1))) \<in> set entries
    \<or> (\<exists>index links. bt_get extra index = Some links \<and> chain_link_of cr (rs ! (n - 1)) \<in> set links)
    \<or> records_collide cr (set rs) (set rs \<union> T)
    \<or> ZERO_digest \<in> signed_checkpoint_digest cr ` (set rs \<union> T)"
proof (cases "served_chain cr rs T")
  case True
  have "set reached \<subseteq> (\<lambda>n. (of_nat n, nth_digest cr rs n)) ` {1..length rs}"
  proof
    fix l assume "l \<in> set reached"
    then obtain k where k: "k < length rs" "l = (cp_number (body (rs ! k)), signed_checkpoint_digest cr (rs ! k))"
      using assms(2) unfolding set_conv_nth [of rs] by blast
    then show "l \<in> (\<lambda>n. (of_nat n, nth_digest cr rs n)) ` {1..length rs}"
      using link_fields(1) [OF True, of "Suc k"] by (intro image_eqI [of _ _ "Suc k"]) (auto simp: chain_link_of_def)
  qed
  from stands_new [OF True this] obtain j
    where j: "stands_at cr rs (new_walk reached flr generation) j" "j = 0 \<or> (of_nat j, nth_digest cr rs j) \<in> set reached"
    by blast
  obtain k where k: "shown cr rs j k ({link. Walk_Checkpoint link \<in> set entries} \<union> extra_links extra)" "i \<le> k"
    using plan_shows [OF True assms(4) assms(5) [unfolded plan_def] assms(3) j(1)] assms(6,7) by (fastforce simp: new_walk_def)
  have n: "n \<le> length rs" using assms(7,9) by (simp add: entry_names_def)
  have "j < n"
  proof (cases "j = 0")
    case False
    then have "(of_nat j :: u64) < of_nat n" using j(2) assms(10) by auto
    moreover have "unat (of_nat j :: u64) = j"
      using j(1) assms(1) by (intro unat_of_nat_u64) (auto simp: stands_at_def genuine_chain_def)
    ultimately show ?thesis using link_fields(2) [OF True assms(8) n] by (simp add: word_less_nat_alt)
  qed (use assms(8) in simp)
  then have "n - 1 \<in> {j..<min k (length rs)}" using assms(8,9) k(2) n by auto
  then have "chain_link_of cr (rs ! (n - 1)) \<in> {link. Walk_Checkpoint link \<in> set entries} \<union> extra_links extra"
    using k(1) unfolding shown_def set_segment by blast
  then show ?thesis by (auto simp: extra_links_def ran_def)
next
  case False
  then show ?thesis using assms(1) by (force simp: served_chain_def)
qed

end
