(* ===== verification/Checkpoint_Examples.thy ===== *)
theory Checkpoint_Examples
  imports Manifest_Laws Checkpoint_Walks Log_Examples
begin

text \<open>
  Concrete inputs for the theorems about manifests and checkpoints: a workspace with one object and
  a chain of three checkpoints of it.
\<close>

definition demo_manifest :: manifest where
  "demo_manifest = new_manifest (bt_insert (Ident 60) [\<lparr>ref_device = Ident 1, ref_counter = 1, ref_seq = 5, ref_op_digest = demo_digest 90\<rparr>] bt_empty)"

definition demo_heads :: "nat \<Rightarrow> op_ref list" where
  "demo_heads n = [\<lparr>ref_device = Ident 1, ref_counter = of_nat n, ref_seq = 5, ref_op_digest = demo_digest 90\<rparr>]"

definition demo_checkpoint :: "nat \<Rightarrow> checkpoint signed" where
  "demo_checkpoint n = \<lparr>body = \<lparr>cp_workspace = Ident 40, cp_domain = Ident 50,
       cp_previous = (if n = 1 then ZERO_digest else demo_digest (80 + n - 1)), cp_number = of_nat n,
       cp_skip = (if n = 3 then demo_digest 82 else ZERO_digest), cp_covered_seq = of_nat (10 * n), cp_floor = of_nat n,
       cp_policy_revision = 1, cp_policy_head = ZERO_digest,
       cp_live_objects = manifest_live_objects demo_manifest, cp_manifest_root = manifest_root epoch_crypto demo_manifest,
       cp_heads_digest = heads_digest epoch_crypto (demo_heads n), cp_epoch = 1, cp_epoch_record = ZERO_digest,
       cp_signer = Ident 1\<rparr>, sig = Signature (of_nat (80 + n))\<rparr>"

lemma demo_checkpoint_digest [simp]:
  "80 + n < 256 \<Longrightarrow> signed_checkpoint_digest epoch_crypto (demo_checkpoint n) = demo_digest (80 + n)"
proof -
  assume "80 + n < 256"
  then have "signed_checkpoint_digest demo_crypto (demo_checkpoint n) = demo_digest (80 + n)"
    unfolding demo_checkpoint_def by (intro demo_sig_digest)
  then show ?thesis by (simp add: signed_digest_def hash_def epoch_crypto_def)
qed

lemma demo_checkpoint_fields [simp]:
  "cp_previous (body (demo_checkpoint n)) = (if n = 1 then ZERO_digest else demo_digest (80 + n - 1))"
  "cp_number (body (demo_checkpoint n)) = of_nat n"
  "cp_skip (body (demo_checkpoint n)) = (if n = 3 then demo_digest 82 else ZERO_digest)"
  "cp_covered_seq (body (demo_checkpoint n)) = of_nat (10 * n)" "cp_floor (body (demo_checkpoint n)) = of_nat n"
  "cp_live_objects (body (demo_checkpoint n)) = manifest_live_objects demo_manifest"
  "cp_manifest_root (body (demo_checkpoint n)) = manifest_root epoch_crypto demo_manifest"
  "cp_heads_digest (body (demo_checkpoint n)) = heads_digest epoch_crypto (demo_heads n)"
  by (simp_all add: demo_checkpoint_def)

lemma checkpoint_digests [simp]:
  "demo_digest 81 \<noteq> ZERO_digest" "demo_digest 82 \<noteq> ZERO_digest" "demo_digest 83 \<noteq> ZERO_digest"
  "demo_digest 81 \<noteq> demo_digest 82" "demo_digest 82 \<noteq> demo_digest 81" "demo_digest 81 \<noteq> demo_digest 83"
  "demo_digest 83 \<noteq> demo_digest 81" "demo_digest 82 \<noteq> demo_digest 83" "demo_digest 83 \<noteq> demo_digest 82"
  by (simp_all add: demo_digest_def ZERO_digest_def)

definition demo_checkpoints :: "(checkpoint signed \<times> op_ref list \<times> manifest \<times> (ident \<Rightarrow> bool)) list" where
  "demo_checkpoints = map (\<lambda>n. (demo_checkpoint n, demo_heads n, demo_manifest, \<lambda>_. False)) [1, 2, 3]"

lemma demo_accepted: "\<exists>c hs. accept_checkpoints epoch_crypto demo_checkpoints = Inr (c, hs)"
  by (simp add: accept_checkpoints_def demo_checkpoints_def accept_step_def checkpoint_chain_check_def
      check_checkpoint_def checkpoint_chain_accept_def new_checkpoint_chain_def latest_checkpoint_def
      checkpoint_digest_of_def bt_values_def heads_fell_back_def skip_number_def demo_heads_def Let_def)

subsection \<open>Applying the theorems\<close>

theorem bootstrap_gets_manifest_witness:
  "mf_leaves demo_manifest \<noteq> bt_empty
   \<and> (concat (map (\<lambda>i. bucket_leaves demo_manifest (of_nat i)) [0..<BUCKETS]) = bt_entries (mf_leaves demo_manifest)
     \<or> inputs_collide epoch_crypto (tree_inputs epoch_crypto (bucket_hashes epoch_crypto demo_manifest)
         \<union> (\<Union>i < BUCKETS. bucket_inputs epoch_crypto i (bucket_leaves demo_manifest (of_nat i))))
         (manifest_inputs epoch_crypto demo_manifest))"
proof
  have "bt_entries (mf_leaves demo_manifest) \<noteq> []" by (simp add: demo_manifest_def new_manifest_def)
  then show "mf_leaves demo_manifest \<noteq> bt_empty" by auto
  show "concat (map (\<lambda>i. bucket_leaves demo_manifest (of_nat i)) [0..<BUCKETS]) = bt_entries (mf_leaves demo_manifest)
     \<or> inputs_collide epoch_crypto (tree_inputs epoch_crypto (bucket_hashes epoch_crypto demo_manifest)
         \<union> (\<Union>i < BUCKETS. bucket_inputs epoch_crypto i (bucket_leaves demo_manifest (of_nat i))))
         (manifest_inputs epoch_crypto demo_manifest)"
    by (rule bootstrap_gets_manifest [OF honest_buckets]) (simp add: honest_bucket)
qed

theorem descent_walk_short_witness:
  "descent_path 7 1 = [7, 6, 4, 3, 2, 1] \<and> length (descent_path 7 1) \<le> 6"
  using descent_walk_short [of 7 3 1]
  by (simp add: descent_path_def descent_from.simps descent_step_def skip_number_def)

theorem accepted_checkpoints_follow_witness:
  "genuine_chain epoch_crypto (map fst demo_checkpoints)
   \<and> map (\<lambda>(_, _, m, _). manifest_root epoch_crypto m) demo_checkpoints =
     map (\<lambda>(r, _). cp_manifest_root (body r)) demo_checkpoints"
proof -
  obtain c hs where "accept_checkpoints epoch_crypto demo_checkpoints = Inr (c, hs)" using demo_accepted by blast
  from accepted_checkpoints_follow [OF this] show ?thesis by (simp add: demo_checkpoints_def)
qed

theorem heads_never_fall_back_witness:
  "\<exists>h'. find (\<lambda>h. ref_device h = Ident 1) (demo_heads 3) = Some h' \<and> 1 \<le> ref_counter h'"
proof -
  obtain c hs where "accept_checkpoints epoch_crypto demo_checkpoints = Inr (c, hs)" using demo_accepted by blast
  from heads_never_fall_back [OF this, of 0 2 "Ident 1" "hd (demo_heads 1)"] show ?thesis
    by (simp add: demo_checkpoints_def demo_heads_def)
qed

lemma demo_path: "descent_path 3 1 = [3, 2, 1]"
  by (simp add: descent_path_def descent_from.simps descent_step_def skip_number_def)

theorem accepted_chain_descends_witness:
  "verify_descent epoch_crypto (map demo_checkpoint [3, 2, 1]) (demo_digest 81) = Inr ()"
proof -
  obtain c hs where "accept_checkpoints epoch_crypto demo_checkpoints = Inr (c, hs)" using demo_accepted by blast
  from accepted_chain_descends [OF this, of 1 3] show ?thesis
    by (simp add: demo_path demo_checkpoints_def)
qed

lemma demo_genuine: "genuine_chain epoch_crypto (map demo_checkpoint [1, 2, 3])"
proof -
  obtain c hs where "accept_checkpoints epoch_crypto demo_checkpoints = Inr (c, hs)" using demo_accepted by blast
  from accepted_run [OF this] show ?thesis by (simp add: demo_checkpoints_def)
qed

lemma demo_checkpoint_wf: "1 \<le> n \<Longrightarrow> n < 4 \<Longrightarrow> wf_signed wf_checkpoint (demo_checkpoint n)"
  by (cases "n = 1"; cases "n = 2"; cases "n = 3"; simp add: wf_signed_def demo_checkpoint_def wf_checkpoint_def wf_ident_def)

theorem descent_proves_ancestor_witness:
  "set (map demo_checkpoint [3, 2, 1]) \<subseteq> set (map demo_checkpoint [1, 2, 3])
   \<or> checkpoints.clash epoch_crypto (map demo_checkpoint [1, 2, 3]) (map demo_checkpoint [3, 2, 1])"
proof -
  have "verify_descent epoch_crypto (map demo_checkpoint [3, 2, 1]) (demo_digest 81) = Inr ()"
    by (simp add: verify_descent_def descends_to_def Let_def)
  from descent_proves_ancestor [OF demo_genuine _ this, of 3] show ?thesis
    by (auto simp: demo_checkpoint_wf)
qed

text \<open>
  The client knows the first checkpoint; the log leaves out the other two, but an operation names
  the third.
\<close>

definition demo_fetch :: "unit checkpoint_fetcher" where
  "demo_fetch f d = (map_option (chain_link_of epoch_crypto)
     (find (\<lambda>r. signed_checkpoint_digest epoch_crypto r = d) (map demo_checkpoint [1, 2, 3])), f)"

lemma demo_plan:
  "fst (plan [Walk_Operation 0 30 (demo_digest 83)] demo_fetch (new_walk [(1, demo_digest 81)] 1 0) ()) =
   Inr (bt_insert 0 (map (\<lambda>n. chain_link_of epoch_crypto (demo_checkpoint n)) [2, 3]) bt_empty)"
  by (simp add: plan_def new_walk_def entry_need_def walk_back.simps demo_fetch_def
      chain_link_of_def max_def word_le_nat_alt)

theorem plan_hides_nothing_witness:
  "(\<exists>index links. bt_get (bt_insert (0 :: nat) (map (\<lambda>n. chain_link_of epoch_crypto (demo_checkpoint n)) [2, 3]) bt_empty) index = Some links
      \<and> chain_link_of epoch_crypto (demo_checkpoint 2) \<in> set links)
   \<or> records_collide epoch_crypto (set (map demo_checkpoint [1, 2, 3])) (set (map demo_checkpoint [1, 2, 3]))
   \<or> ZERO_digest \<in> signed_checkpoint_digest epoch_crypto ` set (map demo_checkpoint [1, 2, 3])"
proof -
  obtain w f where plan: "plan [Walk_Operation 0 30 (demo_digest 83)] demo_fetch (new_walk [(1, demo_digest 81)] 1 0) () =
      (Inr (bt_insert 0 (map (\<lambda>n. chain_link_of epoch_crypto (demo_checkpoint n)) [2, 3]) bt_empty), w, f)"
    using demo_plan by (metis prod.collapse)
  have served: "links_from epoch_crypto (set (map demo_checkpoint [1, 2, 3])) demo_fetch"
    by (auto simp: links_from_def demo_fetch_def find_Some_iff)
  have known: "set [(1, demo_digest 81)] \<subseteq>
      (\<lambda>r. (cp_number (body r), signed_checkpoint_digest epoch_crypto r)) ` set (map demo_checkpoint [1, 2, 3])"
    by simp
  have entry: "list_all (entry_genuine epoch_crypto (map demo_checkpoint [1, 2, 3])) [Walk_Operation 0 30 (demo_digest 83)]"
    "entry_names epoch_crypto (map demo_checkpoint [1, 2, 3]) 1 0 (Walk_Operation 0 30 (demo_digest 83)) 3"
    by (simp_all add: entry_genuine_def entry_names_def nth_digest_def)
  from plan_hides_nothing [OF demo_genuine known entry(1) served plan _ entry(2), of 2] show ?thesis
    by simp
qed

end
