(* ===== verification/Store.thy ===== *)
theory Store
  imports Live
begin

text \<open>
  The server's tables as a push reads and writes them: the rows of \<^verbatim>\<open>sync-store/src/lib.rs\<close> and the
  queries and updates of \<^verbatim>\<open>sync-store-sqlite/src/txn.rs\<close>. A table with a primary key that rows are
  looked up by is an ordered map; the tables that queries scan are lists of rows, oldest first. An
  insert that breaks a key fails, as the database does. An \<open>INTEGER\<close> column holds at most
  \<open>2 ^ 63 - 1\<close>; the byte counters that SQL adds to are integers.
\<close>

subsection \<open>Errors and columns\<close>

text \<open>
  A refusal's code and its structured detail; the message for people and the retry hint of rate
  limits are left out. \<open>Store_Internal\<close> is a failure of the database.
\<close>

datatype store_error = Refused string "byte list option" | Store_Internal

definition refuse :: "string \<Rightarrow> store_error" where
  "refuse code = Refused code None"

definition INTEGER_MAX :: u64 where "INTEGER_MAX = 2 ^ 63 - 1"

definition int_column :: "u64 \<Rightarrow> store_error + u64" where
  "int_column v = (if v \<le> INTEGER_MAX then Inr v else Inl Store_Internal)"

definition at_most :: "u64 \<Rightarrow> u64" where
  "at_most v = min v INTEGER_MAX"

definition uint_column :: "int \<Rightarrow> store_error + int" where
  "uint_column i = (if i < 0 then Inl Store_Internal else Inr i)"

text \<open>\<open>signed\<close>: a \<open>u64\<close> as an \<open>i64\<close>, capped.\<close>

definition signed_i64 :: "u64 \<Rightarrow> int" where
  "signed_i64 v = uint (at_most v)"

definition saturating_add :: "u64 \<Rightarrow> u64 \<Rightarrow> u64" where
  "saturating_add a b = (if a + b < a then - 1 else a + b)"

subsection \<open>Rows\<close>

record domain_columns =
  dr_head_seq :: u64
  dr_epoch :: u64
  dr_epoch_digest :: digest
  dr_epoch_policy_revision :: u64
  dr_retention_floor :: u64
  dr_checkpoint_seq :: u64
  dr_checkpoint_due :: u64
  dr_entries_since_checkpoint :: u64
  dr_weight_since_checkpoint :: u64
  dr_deleted :: bool
  dr_log_weight :: u64
  dr_usage_bytes :: int
  dr_history_bytes :: int
  dr_pruned_floor :: u64
  dr_crossing_seen :: u64

text \<open>A head row as it is read, with its workspace's count of quota crossings.\<close>

record domain_row = domain_columns +
  dr_quota_crossings :: u64

record chain_head_row =
  chr_counter :: u64
  chr_digest :: digest
  chr_seq :: u64
  chr_policy_revision :: u64
  chr_generation :: u64

record checkpoint_progress =
  cpr_entries :: u64
  cpr_weight :: u64
  cpr_due :: u64
  cpr_log_weight :: u64
  cpr_crossing_seen :: u64

record checkpoint_interval =
  ci_entries :: u64
  ci_weight :: u64

definition default_interval :: checkpoint_interval where
  "default_interval = \<lparr>ci_entries = 10000, ci_weight = push_bit 20 64\<rparr>"

record operation_row =
  or_workspace :: ident
  or_domain :: ident
  or_seq :: u64
  or_device :: ident
  or_counter :: u64
  or_rid :: ident
  or_digest :: digest
  or_delete :: bool
  or_class :: op_class
  or_weight :: u64
  or_dropped :: bool

record cover_row =
  cvr_workspace :: ident
  cvr_rid :: ident
  cvr_device :: ident
  cvr_counter :: u64
  cvr_by_seq :: u64
  cvr_domain :: ident

record checkpoint_row =
  cpw_number :: u64
  cpw_digest :: digest
  cpw_seq :: u64
  cpw_covered_seq :: u64
  cpw_floor :: u64
  cpw_record :: "byte list"
  cpw_heads :: "byte list"
  cpw_log_weight :: u64

text \<open>A row of the table \<^verbatim>\<open>checkpoints\<close>: retention clears its bucket hashes.\<close>

record stored_checkpoint =
  scp_workspace :: ident
  scp_domain :: ident
  scp_row :: checkpoint_row
  scp_buckets :: "byte list option"

record blob_row =
  br_domain :: ident
  br_device :: ident
  br_length :: u64
  br_digest :: digest
  br_offset :: u64
  br_complete :: bool
  br_delete_after :: "u64 option"
  br_marked :: bool
  br_live_listings :: int

record workspace_columns =
  wsr_policy_revision :: u64
  wsr_policy_head :: digest
  wsr_closed :: bool
  wsr_quota_pressure :: bool
  wsr_quota_crossings :: u64

record epoch_row =
  er_epoch :: u64
  er_seq :: u64
  er_digest :: digest
  er_previous :: digest
  er_record :: "byte list"

record raw_entry =
  re_seq :: u64
  re_type :: u8
  re_record :: "byte list"

record delete_row =
  del_rid :: ident
  del_op :: op_ref

record store =
  st_workspaces :: "(ident, workspace_columns) btree"
  st_domains :: "(ident \<times> ident, domain_columns) btree"
  st_entries :: "(ident \<times> ident \<times> u64, u8 \<times> byte list) btree"
  st_operations :: "operation_row list"
  st_covers :: "cover_row list"
  st_rids :: "(ident \<times> ident, ident) btree"
  st_chain_heads :: "(ident \<times> ident \<times> ident, chain_head_row) btree"
  st_checkpoints :: "stored_checkpoint list"
  st_blobs :: "(ident \<times> ident, blob_row) btree"
  st_blob_listings :: "(ident \<times> ident \<times> ident \<times> u64) list"
  st_history_floors :: "(ident \<times> ident \<times> ident, u64) btree"
  st_epochs :: "(ident \<times> ident \<times> u64, epoch_row) btree"

subsection \<open>Queries\<close>

definition store_domain :: "store \<Rightarrow> ident \<Rightarrow> ident \<Rightarrow> domain_row option" where
  "store_domain st w d = map_option (\<lambda>c. domain_columns.extend c (domain_row.fields
       (case bt_get (st_workspaces st) w of None \<Rightarrow> 0 | Some row \<Rightarrow> wsr_quota_crossings row)))
     (bt_get (st_domains st) (w, d))"

definition chain_head_at :: "store \<Rightarrow> ident \<Rightarrow> ident \<Rightarrow> ident \<Rightarrow> chain_head_row option" where
  "chain_head_at st w d device = bt_get (st_chain_heads st) (w, d, device)"

definition rid_domain :: "store \<Rightarrow> ident \<Rightarrow> ident \<Rightarrow> ident option" where
  "rid_domain st w rid = bt_get (st_rids st) (w, rid)"

definition operation_state ::
  "store \<Rightarrow> ident \<Rightarrow> ident \<Rightarrow> ident \<Rightarrow> ident \<Rightarrow> domain_row option \<times> chain_head_row option \<times> ident option" where
  "operation_state st w d device rid = (store_domain st w d, chain_head_at st w d device, rid_domain st w rid)"

definition op_position :: "store \<Rightarrow> ident \<Rightarrow> ident \<Rightarrow> ident \<Rightarrow> u64 \<Rightarrow> (u64 \<times> digest) option" where
  "op_position st w d device counter = map_option (\<lambda>r. (or_seq r, or_digest r))
     (find (\<lambda>r. or_workspace r = w \<and> or_domain r = d \<and> or_device r = device \<and> or_counter r = counter)
       (st_operations st))"

definition op_exists :: "store \<Rightarrow> ident \<Rightarrow> ident \<Rightarrow> ident \<Rightarrow> u64 \<Rightarrow> bool" where
  "op_exists st w rid device counter \<longleftrightarrow> list_ex (\<lambda>r. or_workspace r = w \<and> or_rid r = rid
     \<and> or_device r = device \<and> or_counter r = counter) (st_operations st)"

definition covered :: "store \<Rightarrow> ident \<Rightarrow> ident \<Rightarrow> ident \<Rightarrow> u64 \<Rightarrow> u64 \<Rightarrow> bool" where
  "covered st w rid device counter at \<longleftrightarrow> list_ex (\<lambda>c. cvr_workspace c = w \<and> cvr_rid c = rid
     \<and> cvr_device c = device \<and> cvr_counter c \<ge> counter \<and> cvr_by_seq c \<le> at_most at) (st_covers st)"

definition row_op :: "operation_row \<Rightarrow> live_op" where
  "row_op r = \<lparr>lo_rid = or_rid r, lo_device = or_device r, lo_counter = or_counter r, lo_seq = or_seq r,
     lo_digest = or_digest r, lo_delete = or_delete r, lo_covers = [], lo_weight = or_weight r\<rparr>"

definition live_ops :: "store \<Rightarrow> ident \<Rightarrow> ident \<Rightarrow> u64 \<Rightarrow> (live_op \<times> op_class) list" where
  "live_ops st w rid at = map (\<lambda>r. (row_op r, or_class r)) (sort_key or_seq
     (filter (\<lambda>r. or_workspace r = w \<and> or_rid r = rid \<and> or_seq r \<le> at_most at \<and> \<not> or_dropped r
         \<and> \<not> list_ex (\<lambda>c. cvr_workspace c = or_workspace r \<and> cvr_rid c = or_rid r
             \<and> cvr_device c = or_device r \<and> cvr_counter c \<ge> or_counter r \<and> cvr_by_seq c \<le> at_most at)
           (st_covers st))
       (st_operations st)))"

definition deletes_between :: "store \<Rightarrow> ident \<Rightarrow> ident \<Rightarrow> u64 \<Rightarrow> u64 \<Rightarrow> delete_row list" where
  "deletes_between st w d after through = map (\<lambda>r. \<lparr>del_rid = or_rid r, del_op = \<lparr>ref_device = or_device r,
       ref_counter = or_counter r, ref_seq = or_seq r, ref_op_digest = or_digest r\<rparr>\<rparr>) (sort_key or_seq
     (filter (\<lambda>r. or_workspace r = w \<and> or_domain r = d \<and> or_delete r \<and> \<not> or_dropped r
         \<and> or_seq r > at_most after \<and> or_seq r \<le> at_most through) (st_operations st)))"

definition checkpoint_exists :: "store \<Rightarrow> ident \<Rightarrow> ident \<Rightarrow> u64 \<Rightarrow> digest \<Rightarrow> bool" where
  "checkpoint_exists st w d covered_seq checkpoint \<longleftrightarrow> list_ex (\<lambda>c. scp_workspace c = w \<and> scp_domain c = d
     \<and> cpw_covered_seq (scp_row c) = at_most covered_seq \<and> cpw_digest (scp_row c) = checkpoint) (st_checkpoints st)"

definition store_blob :: "store \<Rightarrow> ident \<Rightarrow> ident \<Rightarrow> store_error + blob_row option" where
  "store_blob st w blob = (case bt_get (st_blobs st) (w, blob) of
       None \<Rightarrow> Inr None
     | Some row \<Rightarrow> and_then (uint_column (br_live_listings row)) (\<lambda>_. Inr (Some row)))"

definition blob_listed :: "store \<Rightarrow> ident \<Rightarrow> ident \<Rightarrow> bool" where
  "blob_listed st w blob \<longleftrightarrow> list_ex (\<lambda>(w', b, _, _). w' = w \<and> b = blob) (st_blob_listings st)"

definition listed_blobs :: "store \<Rightarrow> ident \<Rightarrow> ident \<Rightarrow> u64 \<Rightarrow> ident list" where
  "listed_blobs st w d seqno = map (\<lambda>(_, b, _, _). b)
     (filter (\<lambda>(w', _, d', s). w' = w \<and> d' = d \<and> s = seqno) (st_blob_listings st))"

definition entry_length :: "store \<Rightarrow> ident \<Rightarrow> ident \<Rightarrow> u64 \<Rightarrow> u64 option" where
  "entry_length st w d seqno = map_option (\<lambda>(_, bs). of_nat (length bs)) (bt_get (st_entries st) (w, d, seqno))"

text \<open>A column of sequences holds at most \<open>INTEGER_MAX\<close>.\<close>

definition entries_after :: "store \<Rightarrow> ident \<Rightarrow> ident \<Rightarrow> u64 \<Rightarrow> nat \<Rightarrow> raw_entry list" where
  "entries_after st w d after limit = take limit (map (\<lambda>((_, _, s), (t, bs)). \<lparr>re_seq = s, re_type = t, re_record = bs\<rparr>)
     (sort_key (\<lambda>((_, _, s), _). s)
       (filter (\<lambda>((w', d', s), _). w' = w \<and> d' = d \<and> s > at_most after \<and> s \<le> INTEGER_MAX) (bt_entries (st_entries st)))))"

definition history_floor :: "store \<Rightarrow> ident \<Rightarrow> ident \<Rightarrow> ident \<Rightarrow> u64" where
  "history_floor st w account d = (case bt_get (st_history_floors st) (w, account, d) of None \<Rightarrow> 0 | Some f \<Rightarrow> f)"

definition device_rows :: "store \<Rightarrow> ident \<Rightarrow> ident \<Rightarrow> ident \<Rightarrow> operation_row list" where
  "device_rows st w d device = sort_key or_counter
     (filter (\<lambda>r. or_workspace r = w \<and> or_domain r = d \<and> or_device r = device) (st_operations st))"

definition position_below :: "store \<Rightarrow> ident \<Rightarrow> ident \<Rightarrow> ident \<Rightarrow> u64 \<Rightarrow> (u64 \<times> digest) option" where
  "position_below st w d device counter = map_option (\<lambda>r. (or_seq r, or_digest r))
     (find (\<lambda>r. or_counter r < counter) (rev (device_rows st w d device)))"

text \<open>The join with the entries: an operation's row without its entry is no answer.\<close>

definition position_at_or_above :: "store \<Rightarrow> ident \<Rightarrow> ident \<Rightarrow> ident \<Rightarrow> u64 \<Rightarrow> raw_entry option" where
  "position_at_or_above st w d device counter = map_option (\<lambda>r.
       case the (bt_get (st_entries st) (w, d, or_seq r)) of (t, bs) \<Rightarrow> \<lparr>re_seq = or_seq r, re_type = t, re_record = bs\<rparr>)
     (find (\<lambda>r. or_counter r \<ge> counter \<and> bt_contains (st_entries st) (w, d, or_seq r)) (device_rows st w d device))"

definition store_epoch :: "store \<Rightarrow> ident \<Rightarrow> ident \<Rightarrow> u64 \<Rightarrow> epoch_row option" where
  "store_epoch st w d number = bt_get (st_epochs st) (w, d, at_most number)"

definition epoch_by_digest :: "store \<Rightarrow> ident \<Rightarrow> ident \<Rightarrow> digest \<Rightarrow> epoch_row option" where
  "epoch_by_digest st w d epoch_digest = find (\<lambda>r. er_digest r = epoch_digest)
     (map snd (filter (\<lambda>((w', d', _), _). w' = w \<and> d' = d) (bt_entries (st_epochs st))))"

definition store_workspace :: "store \<Rightarrow> ident \<Rightarrow> workspace_columns option" where
  "store_workspace st w = (case bt_get (st_workspaces st) w of
       None \<Rightarrow> None
     | Some row \<Rightarrow> if wsr_closed row then None else Some row)"

record workspace_usage =
  wu_usage :: int
  wu_history :: int
  wu_quota_pressure :: "bool option"

definition workspace_usage_of :: "store \<Rightarrow> ident \<Rightarrow> store_error + workspace_usage" where
  "workspace_usage_of st w =
     (let rows = map snd (filter (\<lambda>((w', _), c). w' = w \<and> \<not> dr_deleted c) (bt_entries (st_domains st)))
      in and_then (uint_column (sum_list (map dr_usage_bytes rows))) (\<lambda>usage.
         and_then (uint_column (sum_list (map dr_history_bytes rows))) (\<lambda>history.
         Inr \<lparr>wu_usage = usage, wu_history = history,
           wu_quota_pressure = map_option wsr_quota_pressure (store_workspace st w)\<rparr>)))"

subsection \<open>Updates\<close>

definition append_entry ::
  "ident \<Rightarrow> ident \<Rightarrow> u8 \<Rightarrow> byte list \<Rightarrow> store \<Rightarrow> store_error + u64 \<times> store" where
  "append_entry w d record_type bs st =
     (case bt_get (st_domains st) (w, d) of
        None \<Rightarrow> Inl Store_Internal
      | Some c \<Rightarrow> and_then (if dr_head_seq c < INTEGER_MAX then Inr (dr_head_seq c + 1) else Inl Store_Internal) (\<lambda>seqno.
          if bt_contains (st_entries st) (w, d, seqno) then Inl Store_Internal
          else Inr (seqno, st\<lparr>st_domains := bt_insert (w, d) (c\<lparr>dr_head_seq := seqno\<rparr>) (st_domains st),
            st_entries := bt_insert (w, d, seqno) (record_type, bs) (st_entries st)\<rparr>)))"

definition insert_rid :: "ident \<Rightarrow> ident \<Rightarrow> ident \<Rightarrow> store \<Rightarrow> store_error + store" where
  "insert_rid w rid d st =
     (if bt_contains (st_rids st) (w, rid) then Inl Store_Internal
      else Inr (st\<lparr>st_rids := bt_insert (w, rid) d (st_rids st)\<rparr>))"

definition insert_cover :: "ident \<Rightarrow> ident \<Rightarrow> ident \<Rightarrow> u64 \<Rightarrow> store \<Rightarrow> cover \<Rightarrow> store_error + store" where
  "insert_cover w rid d seqno st c =
     (if list_ex (\<lambda>r. cvr_workspace r = w \<and> cvr_rid r = rid \<and> cvr_device r = cov_device c
          \<and> cvr_counter r = cov_counter c \<and> cvr_by_seq r = seqno) (st_covers st)
      then Inl Store_Internal
      else Inr (st\<lparr>st_covers := st_covers st @ [\<lparr>cvr_workspace = w, cvr_rid = rid, cvr_device = cov_device c,
        cvr_counter = cov_counter c, cvr_by_seq = seqno, cvr_domain = d\<rparr>]\<rparr>))"

definition op_row :: "ident \<Rightarrow> ident \<Rightarrow> live_op \<Rightarrow> op_class \<Rightarrow> operation_row" where
  "op_row w d x class1 = \<lparr>or_workspace = w, or_domain = d, or_seq = lo_seq x, or_device = lo_device x,
     or_counter = lo_counter x, or_rid = lo_rid x, or_digest = lo_digest x, or_delete = lo_delete x,
     or_class = class1, or_weight = lo_weight x, or_dropped = False\<rparr>"

definition insert_operation :: "ident \<Rightarrow> ident \<Rightarrow> live_op \<Rightarrow> op_class \<Rightarrow> store \<Rightarrow> store_error + store" where
  "insert_operation w d x class1 st =
     and_then (int_column (lo_seq x)) (\<lambda>seqno.
     and_then (int_column (lo_weight x)) (\<lambda>_.
       if list_ex (\<lambda>r. or_workspace r = w \<and> or_domain r = d
            \<and> (or_seq r = seqno \<or> or_device r = lo_device x \<and> or_counter r = lo_counter x)) (st_operations st)
       then Inl Store_Internal
       else try_fold (insert_cover w (lo_rid x) d seqno)
         (st\<lparr>st_operations := st_operations st @ [op_row w d x class1]\<rparr>) (lo_covers x)))"

definition set_checkpoint_progress ::
  "ident \<Rightarrow> ident \<Rightarrow> checkpoint_progress \<Rightarrow> store \<Rightarrow> store_error + store" where
  "set_checkpoint_progress w d progress1 st =
     and_then (int_column (cpr_due progress1)) (\<lambda>due.
       Inr (st\<lparr>st_domains := bt_adjust (w, d) (\<lambda>c. c\<lparr>dr_entries_since_checkpoint := at_most (cpr_entries progress1),
         dr_weight_since_checkpoint := at_most (cpr_weight progress1), dr_checkpoint_due := due,
         dr_log_weight := at_most (cpr_log_weight progress1),
         dr_crossing_seen := at_most (cpr_crossing_seen progress1)\<rparr>) (st_domains st)\<rparr>))"

definition add_usage :: "ident \<Rightarrow> ident \<Rightarrow> int \<Rightarrow> int \<Rightarrow> store \<Rightarrow> store" where
  "add_usage w d usage history st =
     (if usage = 0 \<and> history = 0 then st
      else st\<lparr>st_domains := bt_adjust (w, d) (\<lambda>c. c\<lparr>dr_usage_bytes := max (dr_usage_bytes c + usage) 0,
        dr_history_bytes := max (dr_history_bytes c + history) 0\<rparr>) (st_domains st)\<rparr>)"

definition set_chain_head ::
  "ident \<Rightarrow> ident \<Rightarrow> ident \<Rightarrow> chain_head_row \<Rightarrow> store \<Rightarrow> store_error + store" where
  "set_chain_head w d device h st =
     and_then (int_column (chr_seq h)) (\<lambda>_. and_then (int_column (chr_policy_revision h)) (\<lambda>_.
     and_then (int_column (chr_generation h)) (\<lambda>_.
       Inr (st\<lparr>st_chain_heads := bt_insert (w, d, device) h (st_chain_heads st)\<rparr>))))"

definition insert_blob_listing ::
  "ident \<Rightarrow> ident \<Rightarrow> u64 \<Rightarrow> store \<Rightarrow> ident \<Rightarrow> store_error + store" where
  "insert_blob_listing w d seqno st blob =
     and_then (int_column seqno) (\<lambda>s.
       if (w, blob, d, s) \<in> set (st_blob_listings st) then Inl Store_Internal
       else Inr (st\<lparr>st_blob_listings := st_blob_listings st @ [(w, blob, d, s)]\<rparr>))"

definition add_blob_live :: "ident \<Rightarrow> ident \<Rightarrow> int \<Rightarrow> store \<Rightarrow> store" where
  "add_blob_live w blob delta st =
     st\<lparr>st_blobs := bt_adjust (w, blob) (\<lambda>r. r\<lparr>br_live_listings := br_live_listings r + delta\<rparr>) (st_blobs st)\<rparr>"

definition set_blob_delete_after :: "ident \<Rightarrow> ident \<Rightarrow> u64 option \<Rightarrow> store \<Rightarrow> store" where
  "set_blob_delete_after w blob delete_after st =
     st\<lparr>st_blobs := bt_adjust (w, blob) (\<lambda>r. r\<lparr>br_delete_after := map_option at_most delete_after\<rparr>) (st_blobs st)\<rparr>"

definition set_quota_pressure :: "ident \<Rightarrow> bool \<Rightarrow> store \<Rightarrow> store" where
  "set_quota_pressure w above1 st = st\<lparr>st_workspaces := bt_adjust w (\<lambda>r.
     if above1 \<and> \<not> wsr_quota_pressure r
     then r\<lparr>wsr_quota_pressure := True, wsr_quota_crossings := wsr_quota_crossings r + 1\<rparr>
     else if \<not> above1 then r\<lparr>wsr_quota_pressure := False\<rparr> else r) (st_workspaces st)\<rparr>"

definition drop_delete :: "ident \<Rightarrow> ident \<Rightarrow> ident \<Rightarrow> u64 \<Rightarrow> store \<Rightarrow> store" where
  "drop_delete w rid device counter st = st\<lparr>st_operations := map (\<lambda>r.
     if or_workspace r = w \<and> or_rid r = rid \<and> or_device r = device \<and> or_counter r = counter
     then r\<lparr>or_dropped := True\<rparr> else r) (st_operations st)\<rparr>"

subsection \<open>Writing an operation\<close>

record operation_write =
  ow_record :: "byte list"
  ow_op :: live_op
  ow_class :: op_class
  ow_new_rid :: bool
  ow_progress :: checkpoint_progress
  ow_usage :: int
  ow_chain_head :: chain_head_row

definition ENTRY_OPERATION :: u8 where "ENTRY_OPERATION = 1"

definition write_operation :: "ident \<Rightarrow> ident \<Rightarrow> operation_write \<Rightarrow> store \<Rightarrow> store_error + store" where
  "write_operation w d x st =
     and_then (append_entry w d ENTRY_OPERATION (ow_record x) st) (\<lambda>(seqno, st).
     if seqno \<noteq> lo_seq (ow_op x) then Inl Store_Internal
     else and_then (if ow_new_rid x then insert_rid w (lo_rid (ow_op x)) d st else Inr st) (\<lambda>st.
     and_then (insert_operation w d (ow_op x) (ow_class x) st) (\<lambda>st.
     and_then (set_checkpoint_progress w d (ow_progress x) st) (\<lambda>st.
     set_chain_head w d (lo_device (ow_op x)) (ow_chain_head x) (add_usage w d (ow_usage x) 0 st)))))"

end
