(* ===== verification/Push.thy ===== *)
theory Push
  imports Store Policy
begin

text \<open>
  Pushing operations (\<^verbatim>\<open>sync-store/src/push.rs\<close>, with \<^verbatim>\<open>retention.rs\<close>, \<^verbatim>\<open>blobs.rs\<close> and the progress rule of
  \<^verbatim>\<open>checkpoints.rs\<close>): the checks of \<section>13 against the policy, the tables and the records before each
  operation, and its write. An update that fails rolls the transaction back, so only the error is kept.
\<close>

subsection \<open>Sessions and answers\<close>

record session =
  ss_account :: ident
  ss_device :: ident
  ss_recovery :: "ident option"

definition new_session :: "ident \<Rightarrow> ident \<Rightarrow> session" where
  "new_session account device = \<lparr>ss_account = account, ss_device = device, ss_recovery = None\<rparr>"

record receipt =
  rc_record_digest :: digest
  rc_domain :: ident
  rc_seq :: u64

record push_response =
  pr_policy_revision :: u64
  pr_receipts :: "receipt list"

text \<open>The details of a \<open>chain_conflict\<close>, the server's head, and of a failed push.\<close>

definition chain_conflict_detail :: "ident \<Rightarrow> u64 \<Rightarrow> digest \<Rightarrow> byte list" where
  "chain_conflict_detail d counter record_digest = ident_bytes d @ w_u64 counter @ digest_bytes record_digest"

definition push_failure_detail :: "u32 \<Rightarrow> string \<Rightarrow> byte list option \<Rightarrow> byte list" where
  "push_failure_detail record_index code record_detail =
     w_u32 record_index @ w_str (ascii code) @ enc_option w_bytes record_detail"

definition failure :: "nat \<Rightarrow> string \<Rightarrow> byte list option \<Rightarrow> store_error" where
  "failure index code detail = Refused code (Some (push_failure_detail
     (if index < 2 ^ 32 then of_nat index else - 1) code detail))"

definition chain_conflict :: "ident \<Rightarrow> chain_head_row option \<Rightarrow> store_error" where
  "chain_conflict d h = (case h of
       None \<Rightarrow> Refused ''chain_conflict'' (Some (chain_conflict_detail d 0 ZERO_digest))
     | Some h \<Rightarrow> Refused ''chain_conflict'' (Some (chain_conflict_detail d (chr_counter h) (chr_digest h))))"

text \<open>The device a session reads a workspace as.\<close>

definition session_reader :: "snapshot \<Rightarrow> session \<Rightarrow> ident option" where
  "session_reader s sess =
     (if is_device s (ss_device sess) then Some (ss_device sess)
      else case ss_recovery sess of None \<Rightarrow> None | Some r \<Rightarrow> if is_device s r then Some r else None)"

subsection \<open>Quota and usage\<close>

definition check_quota :: "ident \<Rightarrow> u64 option \<Rightarrow> int \<Rightarrow> store \<Rightarrow> store_error + unit" where
  "check_quota w quota raised st =
     (case quota of
        None \<Rightarrow> Inr ()
      | Some quota \<Rightarrow> if raised \<le> 0 then Inr ()
          else and_then (workspace_usage_of st w) (\<lambda>u.
            ensure (\<not> wu_usage u > uint quota) (refuse ''quota_exceeded'')))"

definition note_pressure :: "ident \<Rightarrow> u64 option \<Rightarrow> store \<Rightarrow> store_error + store" where
  "note_pressure w quota st =
     (case quota of
        None \<Rightarrow> Inr st
      | Some quota \<Rightarrow> and_then (workspace_usage_of st w) (\<lambda>u.
          case wu_quota_pressure u of
            None \<Rightarrow> Inr st
          | Some pressure \<Rightarrow>
              let total = wu_usage u + wu_history u in
              Inr (if \<not> pressure \<and> total > uint quota then set_quota_pressure w True st
                else if pressure \<and> total * 10 < uint quota * 9 then set_quota_pressure w False st
                else st)))"

definition leave_blob ::
  "ident \<Rightarrow> (int \<times> int) \<times> store \<Rightarrow> ident \<Rightarrow> store_error + (int \<times> int) \<times> store" where
  "leave_blob w = (\<lambda>((usage, history), st) blob.
     let st = add_blob_live w blob (- 1) st in
     and_then (store_blob st w blob) (\<lambda>row.
       case row of
         Some row \<Rightarrow> Inr (if br_live_listings row = 0
             then (usage - signed_i64 (br_length row), history + signed_i64 (br_length row))
             else (usage, history), st)
       | None \<Rightarrow> Inr ((usage, history), st)))"

definition leave_live :: "ident \<Rightarrow> ident \<Rightarrow> u64 \<Rightarrow> store \<Rightarrow> store_error + (int \<times> int) \<times> store" where
  "leave_live w d seqno st =
     and_then (ok_or (entry_length st w d seqno) Store_Internal) (\<lambda>len.
     try_fold (leave_blob w) ((- signed_i64 len, signed_i64 len), st) (listed_blobs st w d seqno))"

text \<open>A blob a new operation lists, and whether an earlier operation lists it.\<close>

type_synonym new_listing = "ident \<times> bool"

definition counted_by_write :: "new_listing list \<Rightarrow> u64 list \<Rightarrow> bool" where
  "counted_by_write blobs left \<longleftrightarrow> blobs = [] \<and> left = []"

definition note_listing ::
  "ident \<Rightarrow> (int \<times> int) \<times> store \<Rightarrow> new_listing \<Rightarrow> store_error + (int \<times> int) \<times> store" where
  "note_listing w = (\<lambda>((usage, history), st) (blob, listed).
     and_then (store_blob st w blob) (\<lambda>row.
     and_then (ok_or row Store_Internal) (\<lambda>row.
     let back = listed \<and> br_live_listings row = 0; len = signed_i64 (br_length row) in
     Inr ((if back then usage + len else usage, if back then history - len else history),
       set_blob_delete_after w blob None (add_blob_live w blob 1 st)))))"

definition note_left ::
  "ident \<Rightarrow> ident \<Rightarrow> (int \<times> int) \<times> store \<Rightarrow> u64 \<Rightarrow> store_error + (int \<times> int) \<times> store" where
  "note_left w d = (\<lambda>((usage, history), st) seqno.
     and_then (leave_live w d seqno st) (\<lambda>((used, kept), st). Inr ((usage + used, history + kept), st)))"

definition note_operation ::
  "u64 option \<Rightarrow> ident \<Rightarrow> ident \<Rightarrow> u64 \<Rightarrow> u64 option \<Rightarrow> new_listing list \<Rightarrow> u64 list \<Rightarrow> store
   \<Rightarrow> store_error + store" where
  "note_operation quota w d len payload blobs left st =
     (if counted_by_write blobs left
      then and_then (check_quota w quota (case payload of None \<Rightarrow> 0 | Some v \<Rightarrow> signed_i64 v) st) (\<lambda>_. Inr st)
      else and_then (try_fold (note_listing w) ((signed_i64 len, 0), st) blobs) (\<lambda>s.
        and_then (try_fold (note_left w d) s left) (\<lambda>((usage, history), st).
        let st = add_usage w d usage history st;
            raised = (case payload of None \<Rightarrow> 0 | Some v \<Rightarrow> usage - signed_i64 len + signed_i64 v)
        in and_then (check_quota w quota raised st) (\<lambda>_. Inr st))))"

subsection \<open>Blobs and checkpoints\<close>

definition check_listed_blob :: "ident \<Rightarrow> ident \<Rightarrow> store \<Rightarrow> unit \<Rightarrow> ident \<Rightarrow> store_error + unit" where
  "check_listed_blob w d st = (\<lambda>_ blob. and_then (store_blob st w blob) (\<lambda>row.
     case row of
       None \<Rightarrow> Inl (refuse ''blob_incomplete'')
     | Some row \<Rightarrow>
         if \<not> (br_complete row \<and> \<not> br_marked row) then Inl (refuse ''blob_incomplete'')
         else if br_domain row \<noteq> d then Inl (refuse ''blob_domain_mismatch'')
         else Inr ()))"

definition check_listed :: "ident \<Rightarrow> ident \<Rightarrow> ident list \<Rightarrow> store \<Rightarrow> store_error + unit" where
  "check_listed w d blobs st = try_fold (check_listed_blob w d st) () blobs"

definition list_blobs :: "ident \<Rightarrow> ident \<Rightarrow> u64 \<Rightarrow> ident list \<Rightarrow> store \<Rightarrow> store_error + store" where
  "list_blobs w d seqno blobs st = try_fold (insert_blob_listing w d seqno) st blobs"

definition progress ::
  "domain_row \<Rightarrow> checkpoint_interval \<Rightarrow> u64 \<Rightarrow> u64 \<Rightarrow> bool \<Rightarrow> checkpoint_progress" where
  "progress row interval seqno weight due_now =
     (let entries = dr_entries_since_checkpoint row + 1;
          log_weight = saturating_add (dr_log_weight row) weight;
          weight = saturating_add (dr_weight_since_checkpoint row) weight;
          due = dr_checkpoint_due row;
          due = (if due = 0 \<and> (entries \<ge> ci_entries interval \<or> weight \<ge> ci_weight interval) then seqno else due);
          due = (if dr_crossing_seen row < dr_quota_crossings row \<and> dr_entries_since_checkpoint row > 0
                 then max due seqno else due);
          due = (if due_now then max due seqno else due)
      in \<lparr>cpr_entries = entries, cpr_weight = weight, cpr_due = due, cpr_log_weight = log_weight,
           cpr_crossing_seen = dr_quota_crossings row\<rparr>)"

subsection \<open>One operation\<close>

record pushed_op =
  po_index :: nat
  po_op :: "operation signed"
  po_digest :: digest
  po_bytes :: "byte list"

definition add_listing ::
  "ident \<Rightarrow> store \<Rightarrow> u64 \<times> new_listing list \<Rightarrow> ident \<Rightarrow> store_error + u64 \<times> new_listing list" where
  "add_listing w st = (\<lambda>(weight, listings) blob.
     let listed = blob_listed st w blob in
     if listed then Inr (weight, listings @ [(blob, listed)])
     else and_then (store_blob st w blob) (\<lambda>row.
       Inr (case row of None \<Rightarrow> weight | Some row \<Rightarrow> saturating_add weight (br_length row),
         listings @ [(blob, listed)])))"

text \<open>The device's record at the operation's counter, looked up only at or below its head.\<close>

definition held_at :: "store \<Rightarrow> ident \<Rightarrow> operation \<Rightarrow> chain_head_row option \<Rightarrow> (u64 \<times> digest) option" where
  "held_at st w b h = (case h of
       None \<Rightarrow> None
     | Some h \<Rightarrow> if op_counter b \<le> chr_counter h then op_position st w (op_domain b) (op_device b) (op_counter b)
         else None)"

text \<open>The checks of the policy, the epoch, the restore generation, the checkpoint and the chain.\<close>

definition check_access ::
  "policy_chain \<Rightarrow> operation \<Rightarrow> domain_row \<Rightarrow> chain_head_row option \<Rightarrow> store_error + unit" where
  "check_access p b row h =
     (let s = head_snapshot p; head_revision = fst (policy_head p); d = op_domain b;
          at_revision = (if op_policy_revision b \<le> head_revision then snapshot_at p (op_policy_revision b) else None)
      in if \<not> can_write s (op_device b) d then Inl (refuse ''forbidden'')
         else if \<not> (case at_revision of None \<Rightarrow> False | Some s \<Rightarrow> can_write s (op_device b) d)
         then Inl (refuse ''policy_stale'')
         else if (case h of None \<Rightarrow> False | Some h \<Rightarrow> op_policy_revision b < chr_policy_revision h)
         then Inl (refuse ''policy_regressed'')
         else if (case at_revision of None \<Rightarrow> False | Some s \<Rightarrow> sn_digest s \<noteq> op_policy_head b)
         then Inl (refuse ''policy_conflict'')
         else if dr_epoch row = 0 \<or> op_epoch b \<noteq> dr_epoch row then Inl (refuse ''epoch_stale'')
         else if rotation_required p d (dr_epoch_policy_revision row) head_revision \<noteq> None
         then Inl (refuse ''rotation_pending'')
         else Inr ())"

definition check_position ::
  "store \<Rightarrow> ident \<Rightarrow> u64 \<Rightarrow> operation \<Rightarrow> domain_row \<Rightarrow> chain_head_row option \<Rightarrow> store_error + unit" where
  "check_position st w generation b row h =
     (let d = op_domain b;
          reached_none = (op_checkpoint_seq b = 0 \<and> digest_is_zero (op_checkpoint b));
          (head_counter, head_digest) = (case h of None \<Rightarrow> (0, ZERO_digest) | Some h \<Rightarrow> (chr_counter h, chr_digest h))
      in if op_generation b > generation \<or> (case h of None \<Rightarrow> False | Some h \<Rightarrow> op_generation b < chr_generation h)
         then Inl (refuse ''policy_regressed'')
         else if op_generation b = generation \<and> op_checkpoint_seq b \<ge> dr_retention_floor row \<and> \<not> reached_none
           \<and> \<not> checkpoint_exists st w d (op_checkpoint_seq b) (op_checkpoint b)
         then Inl (refuse ''checkpoint_unknown'')
         else if op_counter b \<le> head_counter \<or> op_previous b \<noteq> head_digest then Inl (chain_conflict d h)
         else Inr ())"

definition apply_operation ::
  "crypto \<Rightarrow> policy_chain \<Rightarrow> checkpoint_interval \<Rightarrow> u64 option \<Rightarrow> u64 \<Rightarrow> ident \<Rightarrow> pushed_op \<Rightarrow> store
   \<Rightarrow> store_error + receipt \<times> store" where
  "apply_operation cr p interval quota generation w pushed st =
     (let b = body (po_op pushed); s = head_snapshot p; d = op_domain b in
      if \<not> is_device s (op_device b) then Inl (refuse ''forbidden'')
      else if \<not> bt_contains (sn_domains s) d then Inl (refuse ''not_found'')
      else case operation_state st w d (op_device b) (op_rid b) of
        (None, _, _) \<Rightarrow> Inl (refuse ''not_found'')
      | (Some row, h, rid_d) \<Rightarrow> (case held_at st w b h of
          Some (seqno, held_digest) \<Rightarrow>
            if held_digest = po_digest pushed
            then Inr (\<lparr>rc_record_digest = held_digest, rc_domain = d, rc_seq = seqno\<rparr>, st)
            else Inl (chain_conflict d h)
        | None \<Rightarrow>
            and_then (check_access p b row h) (\<lambda>_.
            and_then (check_position st w generation b row h) (\<lambda>_.
            if (case rid_d of None \<Rightarrow> False | Some d' \<Rightarrow> d' \<noteq> d) then Inl (refuse ''rid_domain_mismatch'')
            else
              let x = live_op_of cr (po_op pushed) 0;
                  unknown_cover = list_ex (\<lambda>c. \<not> op_exists st w (op_rid b) (cov_device c) (cov_counter c)) (op_supersedes b);
                  (is_covered, lives) = (if rid_d \<noteq> None
                    then (covered st w (op_rid b) (op_device b) (op_counter b) (- 1), live_ops st w (op_rid b) (- 1))
                    else (False, []))
              in and_then (map_err (\<lambda>e. refuse (live_server_code e))
                   (judge_live x (rid_d \<noteq> None) unknown_cover is_covered lives)) (\<lambda>class1.
                 and_then (check_listed w d (op_blobs b) st) (\<lambda>_.
                 and_then (try_fold (add_listing w st) (of_nat (length (po_bytes pushed)), []) (op_blobs b)) (\<lambda>(weight, listings).
                 let left = map (lo_seq \<circ> fst) (filter (\<lambda>(y, _). list_ex (covered_by y) (op_supersedes b)) lives);
                     len = of_nat (length (po_bytes pushed));
                     usage = (if counted_by_write listings left then signed_i64 len else 0);
                     seqno = dr_head_seq row + 1
                 in and_then (write_operation w d \<lparr>ow_record = po_bytes pushed, ow_op = x\<lparr>lo_seq := seqno\<rparr>,
                      ow_class = class1, ow_new_rid = (rid_d = None),
                      ow_progress = progress row interval seqno weight False, ow_usage = usage,
                      ow_chain_head = \<lparr>chr_counter = op_counter b, chr_digest = po_digest pushed, chr_seq = seqno,
                        chr_policy_revision = op_policy_revision b, chr_generation = op_generation b\<rparr>\<rparr> st) (\<lambda>st.
                    and_then (list_blobs w d seqno (op_blobs b) st) (\<lambda>st.
                    and_then (note_operation quota w d len
                      (if op_delete b then None else Some (of_nat (length (op_ciphertext b)))) listings left st) (\<lambda>st.
                    Inr (\<lparr>rc_record_digest = po_digest pushed, rc_domain = d, rc_seq = seqno\<rparr>, st)))))))))))"

subsection \<open>A push of operations\<close>

definition push_step ::
  "crypto \<Rightarrow> policy_chain \<Rightarrow> checkpoint_interval \<Rightarrow> u64 option \<Rightarrow> u64 \<Rightarrow> ident
   \<Rightarrow> receipt list \<times> store \<Rightarrow> pushed_op \<Rightarrow> store_error + receipt list \<times> store" where
  "push_step cr p interval quota generation w = (\<lambda>(receipts, st) pushed.
     case apply_operation cr p interval quota generation w pushed st of
       Inl (Refused code detail) \<Rightarrow> Inl (failure (po_index pushed) code detail)
     | Inl Store_Internal \<Rightarrow> Inl Store_Internal
     | Inr (r, st) \<Rightarrow> Inr (receipts @ [r], st))"

text \<open>
  \<open>commit\<close> for a push of operations alone: \<open>policy\<close> is the verified chain at the head that the
  workspace's row names, which \<open>policy::load\<close> reads or rebuilds.
\<close>

definition commit_operations ::
  "crypto \<Rightarrow> policy_chain \<Rightarrow> checkpoint_interval \<Rightarrow> u64 option \<Rightarrow> u64 \<Rightarrow> session \<Rightarrow> ident \<Rightarrow> pushed_op list
   \<Rightarrow> store \<Rightarrow> store_error + push_response \<times> store" where
  "commit_operations cr p interval quota generation sess w pushed st =
     (case store_workspace st w of
        None \<Rightarrow> Inl (refuse ''not_found'')
      | Some row \<Rightarrow>
          if session_reader (head_snapshot p) sess = None then Inl (refuse ''forbidden'')
          else and_then (try_fold (push_step cr p interval quota generation w) ([], st) pushed) (\<lambda>(receipts, st).
            and_then (note_pressure w quota st) (\<lambda>st.
            Inr (\<lparr>pr_policy_revision = max (fst (policy_head p)) (wsr_policy_revision row),
              pr_receipts = receipts\<rparr>, st))))"

end
