(* ===== verification/Push_Laws.thy ===== *)
theory Push_Laws
  imports Push Live_Laws
begin

text \<open>
  What a push of an operation changes and what it leaves alone, and the log that the accepted
  operations form, as the tables hold it.
\<close>

subsection \<open>What an update leaves alone\<close>

text \<open>The tables that decide live sets, chains and checkpoints, and each domain's head.\<close>

definition core_tables :: "store \<Rightarrow> operation_row list \<times> cover_row list \<times> (ident \<times> ident, ident) btree
    \<times> (ident \<times> ident \<times> ident, chain_head_row) btree \<times> (ident \<times> ident \<times> u64, u8 \<times> byte list) btree
    \<times> stored_checkpoint list" where
  "core_tables st = (st_operations st, st_covers st, st_rids st, st_chain_heads st, st_entries st, st_checkpoints st)"

definition head_seq_of :: "store \<Rightarrow> ident \<Rightarrow> ident \<Rightarrow> u64 option" where
  "head_seq_of st w d = map_option dr_head_seq (bt_get (st_domains st) (w, d))"

definition same_tables :: "store \<Rightarrow> store \<Rightarrow> bool" where
  "same_tables st st' \<longleftrightarrow> core_tables st' = core_tables st \<and> head_seq_of st' = head_seq_of st"

lemma same_tables_refl [simp]: "same_tables st st"
  by (simp add: same_tables_def)

lemma same_tables_trans: "same_tables a b \<Longrightarrow> same_tables b c \<Longrightarrow> same_tables a c"
  by (simp add: same_tables_def)

lemma same_tables_updates [simp]:
  "same_tables st (add_blob_live w blob delta st)" "same_tables st (set_blob_delete_after w blob t st)"
  "same_tables st (add_usage w d usage history st)" "same_tables st (set_quota_pressure w up st)"
  by (auto simp: same_tables_def core_tables_def head_seq_of_def add_blob_live_def set_blob_delete_after_def add_usage_def
      set_quota_pressure_def option.map_comp comp_def fun_eq_iff)

lemma same_tables_fold:
  assumes "\<And>s x s'. f s x = Inr s' \<Longrightarrow> same_tables (g s) (g s')" and "try_fold f s xs = Inr s'"
  shows "same_tables (g s) (g s')"
  using assms(2)
proof (induction xs arbitrary: s)
  case (Cons x xs)
  then obtain t where "f s x = Inr t" "try_fold f t xs = Inr s'" by auto
  then show ?case using assms(1) Cons.IH same_tables_trans by blast
qed simp

lemma same_tables_progress:
  "set_checkpoint_progress w d x st = Inr st' \<Longrightarrow> same_tables st st'"
  by (auto simp: set_checkpoint_progress_def same_tables_def core_tables_def head_seq_of_def option.map_comp comp_def fun_eq_iff)

lemma same_tables_list_blobs: "list_blobs w d seqno blobs st = Inr st' \<Longrightarrow> same_tables st st'"
  unfolding list_blobs_def
  by (rule same_tables_fold [where g = "\<lambda>s. s"])
    (auto simp: insert_blob_listing_def same_tables_def core_tables_def head_seq_of_def fun_eq_iff split: if_splits)

lemma same_tables_leave_live:
  assumes "leave_live w d seqno st = Inr (x, st')"
  shows "same_tables st st'"
proof -
  have step: "same_tables (snd s) (snd s')" if "leave_blob w s blob = Inr s'" for s blob s'
  proof -
    obtain usage history st0 where s: "s = ((usage, history), st0)" by (metis surj_pair)
    from that show ?thesis
      unfolding leave_blob_def s by (auto simp: Let_def split: option.splits if_splits)
  qed
  have steps: "same_tables (snd s) (snd s')" if "try_fold (leave_blob w) s bs = Inr s'" for s bs s'
    by (rule same_tables_fold [where g = snd, OF _ that]) (rule step)
  obtain len where "try_fold (leave_blob w) ((- signed_i64 len, signed_i64 len), st) (listed_blobs st w d seqno) = Inr (x, st')"
    using assms by (auto simp: leave_live_def)
  from steps [OF this] show ?thesis by simp
qed

lemma same_tables_note:
  assumes "note_operation quota w d len payload blobs left st = Inr st'"
  shows "same_tables st st'"
proof -
  have listing: "same_tables (snd s) (snd s')" if "note_listing w s x = Inr s'" for s x s'
  proof -
    obtain usage history st0 where s: "s = ((usage, history), st0)" by (metis surj_pair)
    obtain blob listed where x: "x = (blob, listed)" by (cases x)
    from that show ?thesis
      unfolding note_listing_def s x
      by (auto simp: Let_def intro: same_tables_trans [OF same_tables_updates(1) same_tables_updates(2)])
  qed
  have gone: "same_tables (snd s) (snd s')" if "note_left w d s x = Inr s'" for s x s'
  proof -
    obtain usage history st0 where s: "s = ((usage, history), st0)" by (metis surj_pair)
    from that show ?thesis
      unfolding note_left_def s by (auto dest: same_tables_leave_live)
  qed
  show ?thesis
  proof (cases "counted_by_write blobs left")
    case True
    then show ?thesis using assms by (auto simp: note_operation_def)
  next
    case False
    then obtain s usage history st1 where
      "try_fold (note_listing w) ((signed_i64 len, 0), st) blobs = Inr s"
      "try_fold (note_left w d) s left = Inr ((usage, history), st1)" "st' = add_usage w d usage history st1"
      using assms by (auto simp: note_operation_def Let_def)
    then have fold: "try_fold (note_listing w) ((signed_i64 len, 0), st) blobs = Inr s"
      "try_fold (note_left w d) s left = Inr ((usage, history), st1)" and st': "st' = add_usage w d usage history st1"
      by simp_all
    have "same_tables (snd ((signed_i64 len, 0 :: int), st)) (snd s)"
      by (rule same_tables_fold [where g = snd, OF _ fold(1)]) (rule listing)
    moreover have "same_tables (snd s) (snd ((usage, history), st1))"
      by (rule same_tables_fold [where g = snd, OF _ fold(2)]) (rule gone)
    ultimately show ?thesis unfolding st' snd_conv by (blast intro: same_tables_trans same_tables_updates(3))
  qed
qed

subsection \<open>What an accepted operation writes\<close>

definition cover_row_of :: "ident \<Rightarrow> ident \<Rightarrow> live_op \<Rightarrow> cover \<Rightarrow> cover_row" where
  "cover_row_of w d x c = \<lparr>cvr_workspace = w, cvr_rid = lo_rid x, cvr_device = cov_device c,
     cvr_counter = cov_counter c, cvr_by_seq = lo_seq x, cvr_domain = d\<rparr>"

lemma insert_covers:
  assumes "try_fold (insert_cover w (lo_rid x) d (lo_seq x)) st cs = Inr st'"
  shows "st' = st\<lparr>st_covers := st_covers st @ map (cover_row_of w d x) cs\<rparr>"
  using assms
proof (induction cs arbitrary: st)
  case (Cons c cs)
  then obtain st1 where st1: "insert_cover w (lo_rid x) d (lo_seq x) st c = Inr st1"
    and rest: "try_fold (insert_cover w (lo_rid x) d (lo_seq x)) st1 cs = Inr st'" by auto
  have "st1 = st\<lparr>st_covers := st_covers st @ [cover_row_of w d x c]\<rparr>"
    using st1 by (auto simp: insert_cover_def cover_row_of_def split: if_splits)
  with Cons.IH [OF rest] show ?case by simp
qed simp

lemma insert_operationD:
  assumes "insert_operation w d x class1 st = Inr st'"
  shows "st' = st\<lparr>st_operations := st_operations st @ [op_row w d x class1],
      st_covers := st_covers st @ map (cover_row_of w d x) (lo_covers x)\<rparr>"
    and "\<forall>r \<in> set (st_operations st). or_workspace r = w \<and> or_domain r = d
      \<longrightarrow> or_seq r \<noteq> lo_seq x \<and> \<not> (or_device r = lo_device x \<and> or_counter r = lo_counter x)"
proof -
  have "int_column (lo_seq x) = Inr (lo_seq x)"
    using assms by (auto simp: insert_operation_def int_column_def split: if_splits)
  then show "st' = st\<lparr>st_operations := st_operations st @ [op_row w d x class1],
      st_covers := st_covers st @ map (cover_row_of w d x) (lo_covers x)\<rparr>"
    and "\<forall>r \<in> set (st_operations st). or_workspace r = w \<and> or_domain r = d
      \<longrightarrow> or_seq r \<noteq> lo_seq x \<and> \<not> (or_device r = lo_device x \<and> or_counter r = lo_counter x)"
    using assms by (auto simp: insert_operation_def list_ex_iff dest!: insert_covers split: if_splits)
qed

lemma append_entryD:
  assumes "append_entry w d record_type bs st = Inr (seqno, st')"
  obtains c where "bt_get (st_domains st) (w, d) = Some c" and "seqno = dr_head_seq c + 1" and "dr_head_seq c < INTEGER_MAX"
    and "bt_get (st_entries st) (w, d, seqno) = None"
    and "st' = st\<lparr>st_domains := bt_insert (w, d) (c\<lparr>dr_head_seq := seqno\<rparr>) (st_domains st),
        st_entries := bt_insert (w, d, seqno) (record_type, bs) (st_entries st)\<rparr>"
proof -
  obtain c where c: "bt_get (st_domains st) (w, d) = Some c"
    using assms by (cases "bt_get (st_domains st) (w, d)") (simp_all add: append_entry_def)
  then have "seqno = dr_head_seq c + 1" "dr_head_seq c < INTEGER_MAX" "bt_get (st_entries st) (w, d, seqno) = None"
    "st' = st\<lparr>st_domains := bt_insert (w, d) (c\<lparr>dr_head_seq := seqno\<rparr>) (st_domains st),
        st_entries := bt_insert (w, d, seqno) (record_type, bs) (st_entries st)\<rparr>"
    using assms by (auto simp: append_entry_def split: if_splits)
  with c show ?thesis by (rule that)
qed

lemma write_operationD:
  assumes "write_operation w d x st = Inr st'"
  shows "st_operations st' = st_operations st @ [op_row w d (ow_op x) (ow_class x)]"
    and "st_covers st' = st_covers st @ map (cover_row_of w d (ow_op x)) (lo_covers (ow_op x))"
    and "st_rids st' = (if ow_new_rid x then bt_insert (w, lo_rid (ow_op x)) d (st_rids st) else st_rids st)"
    and "st_chain_heads st' = bt_insert (w, d, lo_device (ow_op x)) (ow_chain_head x) (st_chain_heads st)"
    and "st_entries st' = bt_insert (w, d, lo_seq (ow_op x)) (ENTRY_OPERATION, ow_record x) (st_entries st)"
    and "head_seq_of st' = (head_seq_of st)(w := (head_seq_of st w)(d := Some (lo_seq (ow_op x))))"
    and "\<exists>h. head_seq_of st w d = Some h \<and> h < INTEGER_MAX \<and> lo_seq (ow_op x) = h + 1"
    and "\<forall>r \<in> set (st_operations st). or_workspace r = w \<and> or_domain r = d
      \<longrightarrow> or_seq r \<noteq> lo_seq (ow_op x) \<and> \<not> (or_device r = lo_device (ow_op x) \<and> or_counter r = lo_counter (ow_op x))"
    and "st_checkpoints st' = st_checkpoints st"
proof -
  obtain st1 st2 st3 st4 where steps: "append_entry w d ENTRY_OPERATION (ow_record x) st = Inr (lo_seq (ow_op x), st1)"
    "(if ow_new_rid x then insert_rid w (lo_rid (ow_op x)) d st1 else Inr st1) = Inr st2"
    "insert_operation w d (ow_op x) (ow_class x) st2 = Inr st3"
    "set_checkpoint_progress w d (ow_progress x) st3 = Inr st4"
    "set_chain_head w d (lo_device (ow_op x)) (ow_chain_head x) (add_usage w d (ow_usage x) 0 st4) = Inr st'"
    using assms by (auto simp: write_operation_def split: if_splits)
  obtain c where c: "bt_get (st_domains st) (w, d) = Some c" "lo_seq (ow_op x) = dr_head_seq c + 1"
    "dr_head_seq c < INTEGER_MAX"
    "st1 = st\<lparr>st_domains := bt_insert (w, d) (c\<lparr>dr_head_seq := lo_seq (ow_op x)\<rparr>) (st_domains st),
        st_entries := bt_insert (w, d, lo_seq (ow_op x)) (ENTRY_OPERATION, ow_record x) (st_entries st)\<rparr>"
    by (rule append_entryD [OF steps(1)])
  have st2: "st2 = (if ow_new_rid x then st1\<lparr>st_rids := bt_insert (w, lo_rid (ow_op x)) d (st_rids st1)\<rparr> else st1)"
    using steps(2) by (auto simp: insert_rid_def split: if_splits)
  note st3 = insert_operationD [OF steps(3)]
  have "same_tables st3 (add_usage w d (ow_usage x) 0 st4)"
    using same_tables_progress [OF steps(4)] same_tables_updates(3) same_tables_trans by blast
  moreover have "\<exists>h. st' = (add_usage w d (ow_usage x) 0 st4)\<lparr>st_chain_heads := h\<rparr>
      \<and> h = bt_insert (w, d, lo_device (ow_op x)) (ow_chain_head x) (st_chain_heads (add_usage w d (ow_usage x) 0 st4))"
    using steps(5) by (auto simp: set_chain_head_def)
  ultimately have last: "st_operations st' = st_operations st3" "st_covers st' = st_covers st3" "st_rids st' = st_rids st3"
    "st_entries st' = st_entries st3" "st_checkpoints st' = st_checkpoints st3" "head_seq_of st' = head_seq_of st3"
    "st_chain_heads st' = bt_insert (w, d, lo_device (ow_op x)) (ow_chain_head x) (st_chain_heads st3)"
    by (auto simp: same_tables_def core_tables_def head_seq_of_def fun_eq_iff)
  show "st_operations st' = st_operations st @ [op_row w d (ow_op x) (ow_class x)]"
    and "st_covers st' = st_covers st @ map (cover_row_of w d (ow_op x)) (lo_covers (ow_op x))"
    and "st_rids st' = (if ow_new_rid x then bt_insert (w, lo_rid (ow_op x)) d (st_rids st) else st_rids st)"
    and "st_chain_heads st' = bt_insert (w, d, lo_device (ow_op x)) (ow_chain_head x) (st_chain_heads st)"
    and "st_entries st' = bt_insert (w, d, lo_seq (ow_op x)) (ENTRY_OPERATION, ow_record x) (st_entries st)"
    and "head_seq_of st' = (head_seq_of st)(w := (head_seq_of st w)(d := Some (lo_seq (ow_op x))))"
    and "\<exists>h. head_seq_of st w d = Some h \<and> h < INTEGER_MAX \<and> lo_seq (ow_op x) = h + 1"
    and "\<forall>r \<in> set (st_operations st). or_workspace r = w \<and> or_domain r = d
      \<longrightarrow> or_seq r \<noteq> lo_seq (ow_op x) \<and> \<not> (or_device r = lo_device (ow_op x) \<and> or_counter r = lo_counter (ow_op x))"
    and "st_checkpoints st' = st_checkpoints st"
    using c st2 st3 last by (auto simp: head_seq_of_def fun_eq_iff split: if_splits)
qed

text \<open>What an accepted operation that is no retry passed and left.\<close>

definition accepted_fresh ::
  "crypto \<Rightarrow> policy_chain \<Rightarrow> u64 \<Rightarrow> ident \<Rightarrow> pushed_op \<Rightarrow> store \<Rightarrow> domain_row \<Rightarrow> op_class \<Rightarrow> receipt \<Rightarrow> store \<Rightarrow> bool" where
  "accepted_fresh cr p generation w pushed st row class1 r st' \<longleftrightarrow>
     (let b = body (po_op pushed); d = op_domain b; h = chain_head_at st w d (op_device b); rid_d = rid_domain st w (op_rid b);
          x = live_op_of cr (po_op pushed) (dr_head_seq row + 1)
      in is_device (head_snapshot p) (op_device b) \<and> bt_contains (sn_domains (head_snapshot p)) d
       \<and> store_domain st w d = Some row \<and> held_at st w b h = None
       \<and> check_access p b row h = Inr () \<and> check_position st w generation b row h = Inr ()
       \<and> (rid_d = None \<or> rid_d = Some d)
       \<and> judge_live (x\<lparr>lo_seq := 0\<rparr>) (rid_d \<noteq> None)
           (list_ex (\<lambda>c. \<not> op_exists st w (op_rid b) (cov_device c) (cov_counter c)) (op_supersedes b))
           (rid_d \<noteq> None \<and> covered st w (op_rid b) (op_device b) (op_counter b) (- 1))
           (if rid_d = None then [] else live_ops st w (op_rid b) (- 1)) = Inr class1
       \<and> r = \<lparr>rc_record_digest = po_digest pushed, rc_domain = d, rc_seq = dr_head_seq row + 1\<rparr>
       \<and> (\<exists>y st1. write_operation w d y st = Inr st1 \<and> same_tables st1 st' \<and> ow_op y = x \<and> ow_class y = class1
           \<and> ow_record y = po_bytes pushed \<and> (ow_new_rid y \<longleftrightarrow> rid_d = None)
           \<and> ow_chain_head y = \<lparr>chr_counter = op_counter b, chr_digest = po_digest pushed, chr_seq = dr_head_seq row + 1,
               chr_policy_revision = op_policy_revision b, chr_generation = op_generation b\<rparr>))"

lemma apply_operation_cases:
  assumes "apply_operation cr p interval quota generation w pushed st = Inr (r, st')"
  shows "st' = st \<and> (\<exists>h. chain_head_at st w (op_domain (body (po_op pushed))) (op_device (body (po_op pushed))) = Some h
        \<and> op_counter (body (po_op pushed)) \<le> chr_counter h)
      \<and> op_position st w (op_domain (body (po_op pushed))) (op_device (body (po_op pushed))) (op_counter (body (po_op pushed)))
        = Some (rc_seq r, po_digest pushed)
      \<and> rc_record_digest r = po_digest pushed \<and> rc_domain r = op_domain (body (po_op pushed))
    \<or> (\<exists>row class1. accepted_fresh cr p generation w pushed st row class1 r st')"
proof -
  let ?b = "body (po_op pushed)"
  let ?d = "op_domain ?b"
  let ?h = "chain_head_at st w ?d (op_device ?b)"
  obtain row where row: "store_domain st w ?d = Some row" and
    active: "is_device (head_snapshot p) (op_device ?b)" "bt_contains (sn_domains (head_snapshot p)) ?d"
    using assms by (auto simp: apply_operation_def operation_state_def Let_def split: if_splits option.splits)
  show ?thesis
  proof (cases "held_at st w ?b ?h")
    case (Some held)
    obtain seqno held_digest where held: "held = (seqno, held_digest)" by (cases held)
    have "held_digest = po_digest pushed" "st' = st"
      "r = \<lparr>rc_record_digest = held_digest, rc_domain = ?d, rc_seq = seqno\<rparr>"
      using assms row active Some held by (auto simp: apply_operation_def operation_state_def Let_def split: if_splits)
    then show ?thesis
      using Some held by (auto simp: held_at_def split: option.splits if_splits)
  next
    case None
    let ?rid = "rid_domain st w (op_rid ?b)"
    let ?seq = "dr_head_seq row + 1"
    let ?x = "live_op_of cr (po_op pushed) 0"
    let ?unknown = "list_ex (\<lambda>c. \<not> op_exists st w (op_rid ?b) (cov_device c) (cov_counter c)) (op_supersedes ?b)"
    define cov lives where "cov = (?rid \<noteq> None \<and> covered st w (op_rid ?b) (op_device ?b) (op_counter ?b) (- 1))"
      and "lives = (if ?rid = None then [] else live_ops st w (op_rid ?b) (- 1))"
    have split: "(if ?rid \<noteq> None then (covered st w (op_rid ?b) (op_device ?b) (op_counter ?b) (- 1),
        live_ops st w (op_rid ?b) (- 1)) else (False, [])) = (cov, lives)"
      by (simp add: cov_def lives_def)
    from assms row active None have access: "check_access p ?b row ?h = Inr ()"
      and position: "check_position st w generation ?b row ?h = Inr ()"
      and rid: "?rid = None \<or> ?rid = Some ?d"
      by (auto simp: apply_operation_def operation_state_def Let_def split: if_splits option.splits)
    then have rid1: "\<not> (case ?rid of None \<Rightarrow> False | Some d' \<Rightarrow> d' \<noteq> ?d)" by auto
    let ?left = "map (lo_seq \<circ> fst) (filter (\<lambda>(y, _). list_ex (covered_by y) (op_supersedes ?b)) lives)"
    let ?len = "of_nat (length (po_bytes pushed)) :: u64"
    let ?new_op = "\<lambda>class1 weight listings. \<lparr>ow_record = po_bytes pushed, ow_op = ?x\<lparr>lo_seq := ?seq\<rparr>, ow_class = class1,
        ow_new_rid = (?rid = None), ow_progress = progress row interval ?seq weight False,
        ow_usage = (if counted_by_write listings ?left then signed_i64 ?len else 0),
        ow_chain_head = \<lparr>chr_counter = op_counter ?b, chr_digest = po_digest pushed, chr_seq = ?seq,
          chr_policy_revision = op_policy_revision ?b, chr_generation = op_generation ?b\<rparr>\<rparr>"
    obtain class1 weight listings st1 st2 where judged: "judge_live ?x (?rid \<noteq> None) ?unknown cov lives = Inr class1"
      and r: "r = \<lparr>rc_record_digest = po_digest pushed, rc_domain = ?d, rc_seq = ?seq\<rparr>"
      and written: "write_operation w ?d (?new_op class1 weight listings) st = Inr st1"
      and listed: "list_blobs w ?d ?seq (op_blobs ?b) st1 = Inr st2"
      and noted: "note_operation quota w ?d ?len (if op_delete ?b then None else Some (of_nat (length (op_ciphertext ?b))))
        listings ?left st2 = Inr st'"
      using assms active
      unfolding apply_operation_def operation_state_def Let_def row None option.case prod.case if_not_P [OF rid1] access position split
      by (simp only: if_False not_not and_then_simps simp_thms if_True) (auto split: prod.splits)
    have same: "same_tables st1 st'"
      using same_tables_list_blobs [OF listed] same_tables_note [OF noted] same_tables_trans by blast
    have x: "?x\<lparr>lo_seq := ?seq\<rparr> = live_op_of cr (po_op pushed) ?seq" "?x = (live_op_of cr (po_op pushed) ?seq)\<lparr>lo_seq := 0\<rparr>"
      by (simp_all add: live_op_of_def)
    have "\<exists>y st1. write_operation w ?d y st = Inr st1 \<and> same_tables st1 st' \<and> ow_op y = live_op_of cr (po_op pushed) ?seq
        \<and> ow_class y = class1 \<and> ow_record y = po_bytes pushed \<and> (ow_new_rid y \<longleftrightarrow> ?rid = None)
        \<and> ow_chain_head y = \<lparr>chr_counter = op_counter ?b, chr_digest = po_digest pushed, chr_seq = ?seq,
            chr_policy_revision = op_policy_revision ?b, chr_generation = op_generation ?b\<rparr>"
      using written same x(1) by (intro exI [of _ "?new_op class1 weight listings"] exI [of _ st1]) simp
    with row active None access position rid judged [unfolded x(2) cov_def lives_def] r
    have "accepted_fresh cr p generation w pushed st row class1 r st'"
      unfolding accepted_fresh_def Let_def by (intro conjI) simp_all
    then show ?thesis by blast
  qed
qed

end
