(* ===== verification/Pages.thy ===== *)
theory Pages
  imports Records_Checkpoint Records_Epoch Records_Policy
begin

text \<open>
  Log entries and pull pages (\<^verbatim>\<open>messages.rs\<close>, \<section>15): their encodings, and the shape rules that a page's
  fields alone show.
\<close>

subsection \<open>Entries\<close>

record policy_entry =
  pe_revision :: u64
  pe_head :: digest

definition enc_policy_entry :: "policy_entry \<Rightarrow> byte list" where
  "enc_policy_entry p = w_u64 (pe_revision p) @ digest_bytes (pe_head p)"

definition dec_policy_entry :: "policy_entry decoder" where
  "dec_policy_entry = rbind ru64 (\<lambda>revision. rbind dec_digest (\<lambda>head.
     rret \<lparr>pe_revision = revision, pe_head = head\<rparr>))"

interpretation policy_entry: wire enc_policy_entry dec_policy_entry "\<lambda>_. True" 40
proof
  show "decodes dec_policy_entry (enc_policy_entry x) x" for x
    unfolding dec_policy_entry_def enc_policy_entry_def by (intro field_decodes last_decodes) simp_all
  show "accepts dec_policy_entry (\<lambda>x bs. True \<and> bs = enc_policy_entry x)"
    unfolding dec_policy_entry_def by (intro field_accepts) (simp add: enc_policy_entry_def)
qed (simp add: enc_policy_entry_def w_u64_def)

datatype entry_record =
    Entry_Operation "operation signed"
  | Entry_Checkpoint checkpoint_bundle
  | Entry_Epoch "epoch signed"
  | Entry_Policy policy_entry

fun entry_code :: "entry_record \<Rightarrow> u8" where
  "entry_code (Entry_Operation _) = 1"
| "entry_code (Entry_Checkpoint _) = 5"
| "entry_code (Entry_Epoch _) = 8"
| "entry_code (Entry_Policy _) = 9"

record wire_entry =
  we_seq :: u64
  we_record :: entry_record

fun entry_bytes :: "entry_record \<Rightarrow> byte list" where
  "entry_bytes (Entry_Operation r) = enc_signed enc_operation r"
| "entry_bytes (Entry_Checkpoint r) = enc_checkpoint_bundle r"
| "entry_bytes (Entry_Epoch r) = enc_signed enc_epoch r"
| "entry_bytes (Entry_Policy r) = enc_policy_entry r"

definition enc_entry :: "wire_entry \<Rightarrow> byte list" where
  "enc_entry e = w_u64 (we_seq e) @ w_u8 (entry_code (we_record e)) @ w_bytes (entry_bytes (we_record e))"

definition dec_entry_record :: "nat \<Rightarrow> u8 \<Rightarrow> entry_record decoder" where
  "dec_entry_record offset k =
     (if k = 1 then rbind (dec_nested (dec_signed dec_operation)) (\<lambda>r. rret (Entry_Operation r))
      else if k = 5 then rbind (dec_nested dec_checkpoint_bundle) (\<lambda>r. rret (Entry_Checkpoint r))
      else if k = 8 then rbind (dec_nested (dec_signed dec_epoch)) (\<lambda>r. rret (Entry_Epoch r))
      else if k = 9 then rbind (dec_nested dec_policy_entry) (\<lambda>r. rret (Entry_Policy r))
      else rfail (error_at UnknownValue offset))"

definition dec_entry :: "wire_entry decoder" where
  "dec_entry = rbind ru64 (\<lambda>seqno. rbind roffset (\<lambda>offset. rbind ru8 (\<lambda>k.
     rbind (dec_entry_record offset k) (\<lambda>record1. rret \<lparr>we_seq = seqno, we_record = record1\<rparr>))))"

fun wf_record :: "entry_record \<Rightarrow> bool" where
  "wf_record (Entry_Operation r) \<longleftrightarrow> wf_signed wf_operation r"
| "wf_record (Entry_Checkpoint r) \<longleftrightarrow> wf_checkpoint_bundle r"
| "wf_record (Entry_Epoch r) \<longleftrightarrow> wf_signed wf_epoch r"
| "wf_record (Entry_Policy r) \<longleftrightarrow> True"

definition wf_entry :: "wire_entry \<Rightarrow> bool" where
  "wf_entry e \<longleftrightarrow> wf_record (we_record e) \<and> fits_u32 (length (entry_bytes (we_record e)))"

lemmas entry_wires = wire_nested [OF signed_operation_wire] wire_nested [OF checkpoint_bundle.wire_axioms]
  wire_nested [OF signed_epoch_wire] wire_nested [OF policy_entry.wire_axioms]

lemma decodes_entry_record:
  assumes "wf_record r" and "fits_u32 (length (entry_bytes r))"
  shows "decodes (dec_entry_record off (entry_code r)) (w_bytes (entry_bytes r)) r"
  using assms unfolding dec_entry_record_def
  by (cases r) (auto simp: wf_nested_def enc_nested_def [symmetric]
      intro!: decodes_last [OF wire.decodes_enc [OF entry_wires(1)]] decodes_last [OF wire.decodes_enc [OF entry_wires(2)]]
        decodes_last [OF wire.decodes_enc [OF entry_wires(3)]] decodes_last [OF wire.decodes_enc [OF entry_wires(4)]]
        decodes_retI)

lemma accepts_entry_record:
  "accepts (dec_entry_record off k) (\<lambda>x bs. wf_record x \<and> fits_u32 (length (entry_bytes x))
     \<and> entry_code x = k \<and> bs = w_bytes (entry_bytes x))"
  unfolding dec_entry_record_def
  by (intro accepts_if accepts_fail accepts_bind [OF wire.accepts_dec [OF entry_wires(1)]]
      accepts_bind [OF wire.accepts_dec [OF entry_wires(2)]] accepts_bind [OF wire.accepts_dec [OF entry_wires(3)]]
      accepts_bind [OF wire.accepts_dec [OF entry_wires(4)]] accepts_ret)
    (simp_all add: wf_nested_def enc_nested_def)

interpretation wire_entry: wire enc_entry dec_entry wf_entry "8 + 1 + 4"
proof
  show "decodes dec_entry (enc_entry x) x" if "wf_entry x" for x
    using that unfolding dec_entry_def enc_entry_def wf_entry_def
    by (intro field_decodes decodes_last [OF decodes_entry_record] decodes_retI) simp_all
  show "accepts dec_entry (\<lambda>x bs. wf_entry x \<and> bs = enc_entry x)"
    unfolding dec_entry_def
    by (intro field_accepts accepts_bind [OF accepts_entry_record]) (auto simp: wf_entry_def enc_entry_def)
qed (simp add: enc_entry_def w_u64_def w_u8_def w_bytes_def w_u32_def)

definition by_seq :: "wire_entry \<Rightarrow> byte list" where
  "by_seq e = word_bytes 8 (we_seq e)"

definition dec_entries :: "wire_entry list decoder" where
  "dec_entries = dec_sorted by_seq UNBOUNDED (8 + 1 + 4) dec_entry"

definition wf_entries :: "wire_entry list \<Rightarrow> bool" where
  "wf_entries es \<longleftrightarrow> wf_sorted by_seq UNBOUNDED wf_entry es"

interpretation entries: wire "encode_list enc_entry" dec_entries wf_entries 4
  unfolding dec_entries_def wf_entries_def [abs_def]
  using wire_sorted [OF wire_entry.wire_axioms, of by_seq UNBOUNDED] by simp

subsection \<open>Pages\<close>

record pull_cursor =
  pc_domain :: ident
  pc_after :: u64

definition enc_pull_cursor :: "pull_cursor \<Rightarrow> byte list" where
  "enc_pull_cursor c = ident_bytes (pc_domain c) @ w_u64 (pc_after c)"

definition dec_pull_cursor :: "pull_cursor decoder" where
  "dec_pull_cursor = rbind dec_ident (\<lambda>d. rbind ru64 (\<lambda>after. rret \<lparr>pc_domain = d, pc_after = after\<rparr>))"

definition wf_pull_cursor :: "pull_cursor \<Rightarrow> bool" where
  "wf_pull_cursor c \<longleftrightarrow> wf_ident (pc_domain c)"

interpretation pull_cursor: wire enc_pull_cursor dec_pull_cursor wf_pull_cursor 24
proof
  show "decodes dec_pull_cursor (enc_pull_cursor x) x" if "wf_pull_cursor x" for x
    using that unfolding dec_pull_cursor_def enc_pull_cursor_def wf_pull_cursor_def
    by (intro field_decodes last_decodes) simp_all
  show "accepts dec_pull_cursor (\<lambda>x bs. wf_pull_cursor x \<and> bs = enc_pull_cursor x)"
    unfolding dec_pull_cursor_def by (intro field_accepts) (simp add: wf_pull_cursor_def enc_pull_cursor_def)
qed (simp add: enc_pull_cursor_def w_u64_def)

datatype page_status = Page_Ok | Page_Compacted | Page_BeforeHistoryFloor | Page_Forbidden | Page_NotFound

fun page_status_code :: "page_status \<Rightarrow> u8" where
  "page_status_code Page_Ok = 1"
| "page_status_code Page_Compacted = 2"
| "page_status_code Page_BeforeHistoryFloor = 3"
| "page_status_code Page_Forbidden = 4"
| "page_status_code Page_NotFound = 5"

definition page_status_from_code :: "u8 \<Rightarrow> page_status option" where
  "page_status_from_code c = (if c = 1 then Some Page_Ok else if c = 2 then Some Page_Compacted
     else if c = 3 then Some Page_BeforeHistoryFloor else if c = 4 then Some Page_Forbidden
     else if c = 5 then Some Page_NotFound else None)"

definition enc_page_status :: "page_status \<Rightarrow> byte list" where
  "enc_page_status s = w_u8 (page_status_code s)"

definition dec_page_status :: "page_status decoder" where
  "dec_page_status = dec_byte_enum page_status_from_code"

lemma page_status_codes [simp]: "page_status_from_code (page_status_code s) = Some s"
  by (cases s) (simp_all add: page_status_from_code_def)

lemma page_status_from_code_Some: "page_status_from_code c = Some s \<Longrightarrow> c = page_status_code s"
  by (auto simp: page_status_from_code_def split: if_splits)

interpretation page_status: wire enc_page_status dec_page_status "\<lambda>_. True" 1
  unfolding enc_page_status_def dec_page_status_def by (rule wire_byte_enum) (simp_all add: page_status_from_code_Some)

record page =
  pg_domain :: ident
  pg_status :: page_status
  pg_after :: u64
  pg_complete_through :: u64
  pg_head :: u64
  pg_retention_floor :: u64
  pg_checkpoint_seq :: u64
  pg_restore_generation :: u64
  pg_policy_revision :: u64
  pg_checkpoint_due :: u64
  pg_entries :: "wire_entry list"

definition enc_page :: "page \<Rightarrow> byte list" where
  "enc_page p = ident_bytes (pg_domain p) @ enc_page_status (pg_status p) @ w_u64 (pg_after p)
     @ w_u64 (pg_complete_through p) @ w_u64 (pg_head p) @ w_u64 (pg_retention_floor p)
     @ w_u64 (pg_checkpoint_seq p) @ w_u64 (pg_restore_generation p) @ w_u64 (pg_policy_revision p)
     @ w_u64 (pg_checkpoint_due p) @ encode_list enc_entry (pg_entries p)"

definition dec_page :: "page decoder" where
  "dec_page = rbind dec_ident (\<lambda>d. rbind dec_page_status (\<lambda>status. rbind ru64 (\<lambda>after.
     rbind ru64 (\<lambda>complete. rbind ru64 (\<lambda>head. rbind ru64 (\<lambda>floor. rbind ru64 (\<lambda>checkpoint.
     rbind ru64 (\<lambda>generation. rbind ru64 (\<lambda>revision. rbind ru64 (\<lambda>due. rbind dec_entries (\<lambda>es.
     rret \<lparr>pg_domain = d, pg_status = status, pg_after = after, pg_complete_through = complete, pg_head = head,
       pg_retention_floor = floor, pg_checkpoint_seq = checkpoint, pg_restore_generation = generation,
       pg_policy_revision = revision, pg_checkpoint_due = due, pg_entries = es\<rparr>)))))))))))"

definition wf_page :: "page \<Rightarrow> bool" where
  "wf_page p \<longleftrightarrow> wf_ident (pg_domain p) \<and> wf_entries (pg_entries p)"

definition page_MIN_SIZE :: nat where
  "page_MIN_SIZE = 16 + 1 + 8 + 8 + 8 + 8 + 8 + 8 + 8 + 8 + 4"

interpretation page: wire enc_page dec_page wf_page page_MIN_SIZE
proof
  show "decodes dec_page (enc_page x) x" if "wf_page x" for x
    using that unfolding dec_page_def enc_page_def wf_page_def
    by (intro field_decodes decodes_bind [OF page_status.decodes_enc] decodes_last [OF entries.decodes_enc] decodes_retI)
      simp_all
  show "accepts dec_page (\<lambda>x bs. wf_page x \<and> bs = enc_page x)"
    unfolding dec_page_def
    by (intro field_accepts accepts_bind [OF page_status.accepts_dec] accepts_bind [OF entries.accepts_dec])
      (simp add: wf_page_def enc_page_def)
qed (simp add: enc_page_def page_MIN_SIZE_def w_u64_def enc_page_status_def w_u8_def encode_list_def w_u32_def)

datatype shape_error = Shape_NotEmpty | Shape_OutOfRange | Shape_Range

definition check_shape :: "page \<Rightarrow> shape_error + unit" where
  "check_shape p =
     (if pg_status p \<noteq> Page_Ok
      then if pg_entries p \<noteq> [] \<or> pg_complete_through p \<noteq> pg_after p \<or> pg_head p \<noteq> 0 \<or> pg_checkpoint_due p \<noteq> 0
          \<or> pg_status p \<noteq> Page_Compacted \<and> (pg_retention_floor p \<noteq> 0 \<or> pg_checkpoint_seq p \<noteq> 0)
        then Inl Shape_NotEmpty else Inr ()
      else if pg_complete_through p < pg_after p \<or> pg_complete_through p > pg_head p then Inl Shape_Range
      else if list_ex (\<lambda>e. we_seq e \<le> pg_after p \<or> we_seq e > pg_complete_through p) (pg_entries p)
      then Inl Shape_OutOfRange
      else Inr ())"

end
