(* ===== verification/Pull.thy ===== *)
theory Pull
  imports Push Pages
begin

text \<open>
  The read routes of the log: pull (\<^verbatim>\<open>sync-store/src/pull.rs\<close>), and the epoch records, chain records and
  chain heads of \<^verbatim>\<open>sync-store/src/reads.rs\<close>. Each reads one snapshot of the tables and changes none.
\<close>

definition MAX_BODY :: nat where "MAX_BODY = 1048576"
definition PAGE_FIXED :: nat where "PAGE_FIXED = 16 + 1 + 8 * 8 + 4"
definition ENTRY_FIXED :: nat where "ENTRY_FIXED = 8 + 1 + 4"
definition CHUNK :: nat where "CHUNK = 256"

text \<open>A failed decode of a stored record is a failure of the database.\<close>

definition stored :: "'a decoder \<Rightarrow> byte list \<Rightarrow> store_error + 'a" where
  "stored dec bs = map_err (\<lambda>_. Store_Internal) (from_bytes dec bs)"

definition entry_of_raw :: "raw_entry \<Rightarrow> store_error + wire_entry" where
  "entry_of_raw raw = and_then
     (if re_type raw = 1 then and_then (stored (dec_signed dec_operation) (re_record raw)) (\<lambda>r. Inr (Entry_Operation r))
      else if re_type raw = 5 then and_then (stored dec_checkpoint_bundle (re_record raw)) (\<lambda>r. Inr (Entry_Checkpoint r))
      else if re_type raw = 8 then and_then (stored (dec_signed dec_epoch) (re_record raw)) (\<lambda>r. Inr (Entry_Epoch r))
      else if re_type raw = 9 then and_then (stored dec_policy_entry (re_record raw)) (\<lambda>r. Inr (Entry_Policy r))
      else Inl Store_Internal)
     (\<lambda>record1. Inr \<lparr>we_seq = re_seq raw, we_record = record1\<rparr>)"

subsection \<open>Pull\<close>

text \<open>What a page's reading has so far: the budget, the last sequence it holds, and its entries.\<close>

type_synonym page_read = "nat \<times> u64 \<times> wire_entry list"

text \<open>The rows of one query; the result says whether the budget cut the page off.\<close>

fun read_rows :: "raw_entry list \<Rightarrow> page_read \<Rightarrow> store_error + bool \<times> page_read" where
  "read_rows [] (budget, complete, entries) = Inr (False, budget, complete, entries)"
| "read_rows (raw # rows) (budget, complete, entries) =
     (let size1 = ENTRY_FIXED + length (re_record raw) in
      if size1 > budget then Inr (True, budget, complete, entries)
      else and_then (entry_of_raw raw) (\<lambda>e. read_rows rows (budget - size1, re_seq raw, entries @ [e])))"

lemma entries_after_above: "raw \<in> set (entries_after st w d after limit) \<Longrightarrow> after < re_seq raw"
  by (auto simp: entries_after_def at_most_def min_def dest!: in_set_takeD split: if_splits)

lemma read_rows_last:
  "read_rows rows (budget, complete, entries) = Inr (False, budget', complete', entries')
    \<Longrightarrow> complete' = (if rows = [] then complete else re_seq (last rows))"
  by (induction rows "(budget, complete, entries)" arbitrary: budget complete entries rule: read_rows.induct)
    (auto simp: Let_def split: if_splits)

lemma below_top: "a < b \<Longrightarrow> unat (- 1 - b) < unat (- 1 - (a :: u64))"
  using unat_sub [of a "- 1"] unat_sub [of b "- 1"] word_le_nat_alt [of b "- 1"] by (simp add: word_less_nat_alt)

function read_page :: "store \<Rightarrow> ident \<Rightarrow> ident \<Rightarrow> u64 \<Rightarrow> page_read \<Rightarrow> store_error + bool \<times> page_read" where
  "read_page st w d head (budget, complete, entries) =
     (if \<not> complete < head then Inr (False, budget, complete, entries)
      else case entries_after st w d complete CHUNK of
        [] \<Rightarrow> Inr (False, budget, complete, entries)
      | raw # rows \<Rightarrow> (case read_rows (raw # rows) (budget, complete, entries) of
          Inl e \<Rightarrow> Inl e
        | Inr (True, r) \<Rightarrow> Inr (True, r)
        | Inr (False, r) \<Rightarrow> read_page st w d head r))"
  by pat_completeness auto
termination
proof (relation "measure (\<lambda>(_, _, _, _, _, complete, _). unat (- 1 - complete))", force)
  fix st w d head budget complete entries raw rows b x and r :: page_read
  assume rows: "entries_after st w d complete CHUNK = raw # rows"
    and "read_rows (raw # rows) (budget, complete, entries) = Inr b" "(x, r) = b" "x = False"
  moreover obtain budget' complete' entries' where r: "r = (budget', complete', entries')" by (cases r)
  ultimately have "complete' = re_seq (last (raw # rows))"
    using read_rows_last [of "raw # rows" budget complete entries] by (simp del: read_rows.simps) auto
  moreover have "last (raw # rows) \<in> set (entries_after st w d complete CHUNK)"
    unfolding rows by (rule last_in_set) simp
  ultimately have "complete < complete'" using entries_after_above by metis
  then have "unat (- 1 - complete') < unat (- 1 - complete)"
    by (rule below_top)
  then show "((st, w, d, head, r), st, w, d, head, budget, complete, entries)
      \<in> measure (\<lambda>(_, _, _, _, _, complete, _). unat (- 1 - complete))"
    by (simp add: r)
qed

declare read_page.simps [simp del]

text \<open>A page before its entries: the status, and the fields that every status reports.\<close>

definition empty_page :: "pull_cursor \<Rightarrow> u64 \<Rightarrow> u64 \<Rightarrow> page_status \<Rightarrow> page" where
  "empty_page cursor generation revision status = \<lparr>pg_domain = pc_domain cursor, pg_status = status,
     pg_after = pc_after cursor, pg_complete_through = pc_after cursor, pg_head = 0, pg_retention_floor = 0,
     pg_checkpoint_seq = 0, pg_restore_generation = generation, pg_policy_revision = revision,
     pg_checkpoint_due = 0, pg_entries = []\<rparr>"

definition pull_page ::
  "store \<Rightarrow> policy_chain \<Rightarrow> u64 \<Rightarrow> session \<Rightarrow> ident \<Rightarrow> u64 \<Rightarrow> nat \<Rightarrow> pull_cursor \<Rightarrow> store_error + nat \<times> page" where
  "pull_page st p generation sess w revision budget cursor =
     (let s = head_snapshot p; d = pc_domain cursor; after = pc_after cursor;
          empty = empty_page cursor generation revision
      in if \<not> is_device s (ss_device sess) then Inr (budget, empty Page_Forbidden)
         else if \<not> bt_contains (sn_domains s) d then Inr (budget, empty Page_NotFound)
         else if \<not> can_read s (ss_device sess) d then Inr (budget, empty Page_Forbidden)
         else case store_domain st w d of
           None \<Rightarrow> Inr (budget, empty Page_NotFound)
         | Some row \<Rightarrow>
             if after < history_floor st w (ss_account sess) d then Inr (budget, empty Page_BeforeHistoryFloor)
             else if after < dr_retention_floor row
             then Inr (budget, (empty Page_Compacted)\<lparr>pg_retention_floor := dr_retention_floor row,
               pg_checkpoint_seq := dr_checkpoint_seq row\<rparr>)
             else and_then (read_page st w d (dr_head_seq row) (budget, after, [])) (\<lambda>(truncated, budget, complete, es).
               and_then (map_err (\<lambda>_. Store_Internal) (sorted_new by_seq UNBOUNDED es)) (\<lambda>es.
               Inr (budget, (empty Page_Ok)\<lparr>
                 pg_complete_through := (if truncated then complete else max complete (dr_head_seq row)),
                 pg_head := dr_head_seq row, pg_retention_floor := dr_retention_floor row,
                 pg_checkpoint_seq := dr_checkpoint_seq row, pg_checkpoint_due := dr_checkpoint_due row,
                 pg_entries := es\<rparr>))))"

definition pull_step ::
  "store \<Rightarrow> policy_chain \<Rightarrow> u64 \<Rightarrow> session \<Rightarrow> ident \<Rightarrow> u64 \<Rightarrow> nat \<times> page list \<Rightarrow> pull_cursor
   \<Rightarrow> store_error + nat \<times> page list" where
  "pull_step st p generation sess w revision = (\<lambda>(budget, pages) cursor.
     and_then (pull_page st p generation sess w revision budget cursor) (\<lambda>(budget, page).
     Inr (budget, pages @ [page])))"

text \<open>A device that the policy once had: its pages say that it is out.\<close>

definition former_device :: "policy_chain \<Rightarrow> u64 \<Rightarrow> ident \<Rightarrow> bool" where
  "former_device p revision device \<longleftrightarrow>
     list_ex (\<lambda>r. case snapshot_at p (of_nat r) of None \<Rightarrow> False | Some s \<Rightarrow> is_device s device) [1 ..< unat revision]"

definition pull_snapshot ::
  "store \<Rightarrow> policy_chain \<Rightarrow> u64 \<Rightarrow> session \<Rightarrow> ident \<Rightarrow> pull_cursor list \<Rightarrow> store_error + page list" where
  "pull_snapshot st p generation sess w cursors =
     (case store_workspace st w of
        None \<Rightarrow> Inl (refuse ''not_found'')
      | Some row \<Rightarrow>
          if \<not> is_device (head_snapshot p) (ss_device sess) \<and> \<not> former_device p (wsr_policy_revision row) (ss_device sess)
          then Inl (refuse ''forbidden'')
          else and_then (try_fold (pull_step st p generation sess w (wsr_policy_revision row))
              (MAX_BODY - 4 - PAGE_FIXED * length cursors, []) cursors) (\<lambda>(_, pages). Inr pages))"

text \<open>One round of \<open>Store::pull\<close>; without records it waits for a change and asks again.\<close>

definition pull_round ::
  "store \<Rightarrow> policy_chain \<Rightarrow> u64 \<Rightarrow> session \<Rightarrow> ident \<Rightarrow> pull_cursor list \<Rightarrow> store_error + page list" where
  "pull_round st p generation sess w cursors =
     (if length cursors > MAX_DOMAINS then Inl (refuse ''too_large'')
      else pull_snapshot st p generation sess w cursors)"

subsection \<open>Reads of one domain\<close>

definition authorize :: "store \<Rightarrow> policy_chain \<Rightarrow> session \<Rightarrow> ident \<Rightarrow> store_error + workspace_columns" where
  "authorize st p sess w = (case store_workspace st w of
       None \<Rightarrow> Inl (refuse ''not_found'')
     | Some row \<Rightarrow> if session_reader (head_snapshot p) sess = None then Inl (refuse ''forbidden'') else Inr row)"

definition authorize_domain :: "store \<Rightarrow> policy_chain \<Rightarrow> session \<Rightarrow> ident \<Rightarrow> ident \<Rightarrow> store_error + unit" where
  "authorize_domain st p sess w d = and_then (authorize st p sess w) (\<lambda>_.
     let s = head_snapshot p in
     if \<not> bt_contains (sn_domains s) d then Inl (refuse ''not_found'')
     else let device = (case session_reader s sess of None \<Rightarrow> ss_device sess | Some device \<Rightarrow> device) in
     ensure (can_read s device d) (refuse ''forbidden''))"

function read_epochs ::
  "store \<Rightarrow> ident \<Rightarrow> ident \<Rightarrow> epoch_row option \<Rightarrow> nat \<Rightarrow> epoch signed list \<Rightarrow> store_error + epoch signed list" where
  "read_epochs st w d next1 budget records =
     (case next1 of
        None \<Rightarrow> Inr records
      | Some row \<Rightarrow>
          let size1 = 4 + length (er_record row) in
          if size1 > budget then Inr records
          else and_then (stored (dec_signed dec_epoch) (er_record row)) (\<lambda>e.
            read_epochs st w d (if digest_is_zero (er_previous row) then None else epoch_by_digest st w d (er_previous row))
              (budget - size1) (records @ [e])))"
  by pat_completeness auto
termination
  by (relation "measure (\<lambda>(_, _, _, _, budget, _). budget)") auto

declare read_epochs.simps [simp del]

definition epochs_read ::
  "store \<Rightarrow> policy_chain \<Rightarrow> session \<Rightarrow> ident \<Rightarrow> ident \<Rightarrow> u64 \<Rightarrow> store_error + epoch signed list" where
  "epochs_read st p sess w d number = and_then (authorize_domain st p sess w d) (\<lambda>_.
     if store_epoch st w d number = None then Inl (refuse ''not_found'')
     else read_epochs st w d (store_epoch st w d number) (MAX_BODY - 4) [])"

definition chain_read ::
  "store \<Rightarrow> policy_chain \<Rightarrow> session \<Rightarrow> ident \<Rightarrow> ident \<Rightarrow> ident \<Rightarrow> u64 \<Rightarrow> store_error + wire_entry" where
  "chain_read st p sess w d device counter = and_then (authorize_domain st p sess w d) (\<lambda>_.
     case position_at_or_above st w d device counter of
       None \<Rightarrow> (case chain_head_at st w d device of
           Some h \<Rightarrow> if counter \<le> chr_counter h then Inl (refuse ''pruned'') else Inl (refuse ''not_found'')
         | None \<Rightarrow> Inl (refuse ''not_found''))
     | Some raw \<Rightarrow> and_then (entry_of_raw raw) (\<lambda>e.
         if (case we_record e of
               Entry_Operation op1 \<Rightarrow> op_counter (body op1) \<noteq> counter
                 \<and> op_previous (body op1) \<noteq> (case position_below st w d device counter of None \<Rightarrow> ZERO_digest | Some (_, x) \<Rightarrow> x)
             | _ \<Rightarrow> False)
         then Inl (refuse ''pruned'')
         else if device \<noteq> ss_device sess \<and> re_seq raw \<le> history_floor st w (ss_account sess) d
         then Inl (refuse ''before_history_floor'')
         else entry_of_raw raw))"

definition chain_head_read ::
  "store \<Rightarrow> policy_chain \<Rightarrow> session \<Rightarrow> ident \<Rightarrow> ident \<Rightarrow> ident \<Rightarrow> store_error + chain_head_row" where
  "chain_head_read st p sess w d device = and_then (authorize_domain st p sess w d) (\<lambda>_.
     ok_or (chain_head_at st w d device) (refuse ''not_found''))"

end
