(* ===== verification/Pull_Laws.thy ===== *)
theory Pull_Laws
  imports Pull
begin

text \<open>
  A page's reading in chunks is one pass over the rows above its cursor: it takes a prefix of them,
  decoded, and stops early only for want of room. Rows come in the order of their sequences.
\<close>

subsection \<open>The rows above a cursor\<close>

abbreviation row_entry :: "(ident \<times> ident \<times> u64) \<times> u8 \<times> byte list \<Rightarrow> raw_entry" where
  "row_entry \<equiv> \<lambda>((_, _, s), (t, bs)). \<lparr>re_seq = s, re_type = t, re_record = bs\<rparr>"

definition rows_after :: "store \<Rightarrow> ident \<Rightarrow> ident \<Rightarrow> u64 \<Rightarrow> raw_entry list" where
  "rows_after st w d after = map row_entry
     (sort_key (\<lambda>((_, _, s), _). s)
       (filter (\<lambda>((w', d', s), _). w' = w \<and> d' = d \<and> s > at_most after \<and> s \<le> INTEGER_MAX) (bt_entries (st_entries st))))"

lemma entries_after_rows: "entries_after st w d after n = take n (rows_after st w d after)"
  by (simp add: entries_after_def rows_after_def)

lemma rows_after_iff:
  "raw \<in> set (rows_after st w d after) \<longleftrightarrow> bt_get (st_entries st) (w, d, re_seq raw) = Some (re_type raw, re_record raw)
    \<and> after < re_seq raw \<and> re_seq raw \<le> INTEGER_MAX"
  by (cases raw) (force simp: rows_after_def at_most_def min_def)

lemma sorted_key_strict:
  assumes "sorted_wrt (\<lambda>x y. f x \<le> (f y :: 'b::linorder)) xs" and "distinct (map f xs)"
  shows "sorted_wrt (\<lambda>x y. f x < f y) xs"
  using assms by (induction xs) (auto simp: order_less_le)

lemma rows_rise: "sorted_wrt (\<lambda>x y. re_seq x < re_seq y) (rows_after st w d after)"
proof -
  let ?key = "(\<lambda>((_, _, s), _). s) :: (ident \<times> ident \<times> u64) \<times> u8 \<times> byte list \<Rightarrow> u64"
  let ?xs = "filter (\<lambda>((w', d', s), _). w' = w \<and> d' = d \<and> s > at_most after \<and> s \<le> INTEGER_MAX) (bt_entries (st_entries st))"
  have distinct: "distinct (map fst (sort_key ?key ?xs))"
    using bt_entries_distinct [of "st_entries st"] by (auto simp: distinct_map intro: inj_on_subset)
  have "\<forall>x \<in> set ?xs. \<forall>y \<in> set ?xs. ?key x = ?key y \<longrightarrow> fst x = fst y" by auto
  then have "distinct (map ?key (sort_key ?key ?xs))"
    using distinct by (auto simp: distinct_map inj_on_def)
  moreover have "sorted_wrt (\<lambda>x y. ?key x \<le> ?key y) (sort_key ?key ?xs)"
    using sorted_sort_key [of ?key ?xs] by (simp add: sorted_wrt_map)
  ultimately have "sorted_wrt (\<lambda>x y. ?key x < ?key y) (sort_key ?key ?xs)" by (rule sorted_key_strict [rotated])
  then show ?thesis
    unfolding rows_after_def sorted_wrt_map by (rule sorted_wrt_mono_rel [rotated]) auto
qed

lemma rising_eq:
  assumes "sorted_wrt (\<lambda>x y. f x < (f y :: 'b::linorder)) xs" and "sorted_wrt (\<lambda>x y. f x < f y) ys" and "set xs = set ys"
  shows "xs = ys"
  using assms
proof (induction xs arbitrary: ys)
  case (Cons x xs)
  then obtain y ys' where ys: "ys = y # ys'" by (cases ys) auto
  have "x \<in> set ys" "y \<in> set (x # xs)" using Cons.prems(3) ys by auto
  then have "x = y \<or> f y < f x" "y = x \<or> f x < f y" using Cons.prems(1,2) ys by auto
  then have "x = y" by (auto dest: less_asym)
  moreover have "x \<notin> set xs" "y \<notin> set ys'" using Cons.prems by (auto simp: ys)
  ultimately have "set xs = set ys'" using Cons.prems(3) by (auto simp: ys)
  then show ?case using Cons \<open>x = y\<close> by (simp add: ys)
qed simp

text \<open>The rows beyond the last of a chunk are the rows above it.\<close>

lemma rows_beyond:
  assumes "n < length (rows_after st w d after)"
  shows "rows_after st w d (re_seq (rows_after st w d after ! n)) = drop (Suc n) (rows_after st w d after)"
proof (rule rising_eq [where f = re_seq])
  let ?rows = "rows_after st w d after"
  have split: "?rows = take n ?rows @ ?rows ! n # drop (Suc n) ?rows" using assms by (rule id_take_nth_drop)
  have "sorted_wrt (\<lambda>x y. re_seq x < re_seq y) (take n ?rows @ ?rows ! n # drop (Suc n) ?rows)"
    using rows_rise [of st w d after] split by simp
  then have order: "\<forall>x \<in> set (take n ?rows). re_seq x < re_seq (?rows ! n)"
    "\<forall>x \<in> set (drop (Suc n) ?rows). re_seq (?rows ! n) < re_seq x"
    by (simp_all add: sorted_wrt_append)
  have "x \<in> set (rows_after st w d (re_seq (?rows ! n))) \<longleftrightarrow> x \<in> set ?rows \<and> re_seq (?rows ! n) < re_seq x" for x
    using rows_after_iff [of "?rows ! n" st w d after] nth_mem [OF assms]
    by (auto simp: rows_after_iff intro: less_trans)
  moreover have "x \<in> set ?rows \<and> re_seq (?rows ! n) < re_seq x \<longleftrightarrow> x \<in> set (drop (Suc n) ?rows)" for x
    using order by (subst split) (auto dest: less_asym)
  ultimately show "set (rows_after st w d (re_seq (?rows ! n))) = set (drop (Suc n) ?rows)" by blast
qed (use rows_rise in \<open>auto intro: sorted_wrt_drop\<close>)

subsection \<open>One pass\<close>

lemma read_rows_append:
  "read_rows (xs @ ys) r = and_then (read_rows xs r) (\<lambda>(trunc, r). if trunc then Inr (True, r) else read_rows ys r)"
  by (induction xs r rule: read_rows.induct) (auto simp: Let_def and_then_def split: sum.splits)

lemma read_page_one_pass:
  assumes "\<forall>raw \<in> set (rows_after st w d complete). re_seq raw \<le> head"
  shows "read_page st w d head (budget, complete, entries) = read_rows (rows_after st w d complete) (budget, complete, entries)"
  using assms
proof (induction st w d head "(budget, complete, entries)" arbitrary: budget complete entries rule: read_page.induct)
  case (1 st w d head budget complete entries)
  let ?rows = "rows_after st w d complete"
  show ?case
  proof (cases "?rows = []")
    case True
    then show ?thesis by (subst read_page.simps) (simp add: entries_after_rows)
  next
    case False
    define chunk where "chunk = take CHUNK ?rows"
    obtain raw rows where chunk: "chunk = raw # rows"
      using False by (cases chunk) (auto simp: chunk_def CHUNK_def)
    define n where "n = length rows"
    have "length chunk = Suc n" using chunk by (simp add: n_def)
    moreover have "length chunk \<le> length ?rows" by (simp add: chunk_def)
    ultimately have len: "length chunk = Suc n" "length chunk \<le> length ?rows" by simp_all
    then have n: "n < length ?rows" "chunk = take (Suc n) ?rows"
      by (simp, metis chunk_def length_take min.commute min_def take_all_iff take_take)
    then have n3: "last chunk = ?rows ! n" by (simp add: take_Suc_conv_app_nth)
    have "raw \<in> set ?rows"
      using set_take_subset [of CHUNK ?rows] chunk by (simp add: chunk_def)
    then have "complete < re_seq raw" "re_seq raw \<le> head" using rows_after_iff "1.prems" by blast+
    then have below: "complete < head" by simp
    have entries: "entries_after st w d complete CHUNK = raw # rows"
      using chunk by (simp add: entries_after_rows chunk_def)
    have all: "?rows = chunk @ drop (Suc n) ?rows" using n(2) by simp
    have pass: "read_rows ?rows (budget, complete, entries) = and_then (read_rows chunk (budget, complete, entries))
        (\<lambda>(trunc, r). if trunc then Inr (True, r) else read_rows (drop (Suc n) ?rows) r)"
      by (subst all) (rule read_rows_append)
    have step: "read_page st w d head (budget, complete, entries) = (case read_rows chunk (budget, complete, entries) of
        Inl e \<Rightarrow> Inl e | Inr (True, r) \<Rightarrow> Inr (True, r) | Inr (False, r) \<Rightarrow> read_page st w d head r)"
      unfolding chunk by (subst read_page.simps) (simp add: below entries del: read_rows.simps)
    show ?thesis
    proof (cases "read_rows chunk (budget, complete, entries)")
      case (Inl e)
      then show ?thesis using pass step by simp
    next
      case (Inr b)
      obtain trunc budget' complete' entries' where b: "b = (trunc, budget', complete', entries')" by (cases b)
      show ?thesis
      proof (cases trunc)
        case True
        then show ?thesis using pass step Inr b by simp
      next
        case False
        then have last: "complete' = re_seq (?rows ! n)"
          using read_rows_last [of chunk budget complete entries] Inr b n3 chunk by simp
        have beyond: "rows_after st w d complete' = drop (Suc n) ?rows"
          unfolding last by (rule rows_beyond [OF n(1)])
        moreover have "\<forall>raw \<in> set (rows_after st w d complete'). re_seq raw \<le> head"
          using "1.prems" unfolding beyond by (auto dest: in_set_dropD)
        ultimately have "read_page st w d head (budget', complete', entries')
            = read_rows (drop (Suc n) ?rows) (budget', complete', entries')"
          using "1.hyps" [OF _ entries] below Inr [unfolded chunk] b False by fastforce
        then show ?thesis using pass step Inr b False by simp
      qed
    qed
  qed
qed

text \<open>What a pass takes: a prefix of the rows, decoded, all of them unless the page is cut off.\<close>

lemma read_rows_prefix:
  assumes "read_rows rows (budget, complete, entries) = Inr (trunc, budget', complete', entries')"
  shows "\<exists>k es. k \<le> length rows \<and> (trunc \<longleftrightarrow> k < length rows) \<and> entries' = entries @ es
    \<and> list_all2 (\<lambda>raw e. entry_of_raw raw = Inr e) (take k rows) es
    \<and> complete' = (if k = 0 then complete else re_seq (rows ! (k - 1))) \<and> length es * ENTRY_FIXED \<le> budget"
  using assms
proof (induction rows "(budget, complete, entries)" arbitrary: budget complete entries rule: read_rows.induct)
  case (1 budget complete entries)
  then show ?case by (intro exI [of _ 0] exI [of _ "[]"]) simp
next
  case (2 raw rows budget complete entries)
  let ?size = "ENTRY_FIXED + length (re_record raw)"
  show ?case
  proof (cases "?size > budget")
    case True
    then show ?thesis using "2.prems" by (intro exI [of _ 0] exI [of _ "[]"]) simp
  next
    case False
    then obtain e where e: "entry_of_raw raw = Inr e"
      and rest: "read_rows rows (budget - ?size, re_seq raw, entries @ [e]) = Inr (trunc, budget', complete', entries')"
      using "2.prems" by (auto simp: Let_def)
    obtain k es where k: "k \<le> length rows" "trunc \<longleftrightarrow> k < length rows" "entries' = (entries @ [e]) @ es"
      "list_all2 (\<lambda>raw e. entry_of_raw raw = Inr e) (take k rows) es"
      "complete' = (if k = 0 then re_seq raw else re_seq (rows ! (k - 1)))" "length es * ENTRY_FIXED \<le> budget - ?size"
      using "2.hyps" [OF refl _ rest] False by blast
    then show ?thesis
      using e False by (intro exI [of _ "Suc k"] exI [of _ "e # es"]) (auto simp: nth_Cons' algebra_simps)
  qed
qed

end
