(* ===== verification/Push_Log.thy ===== *)
theory Push_Log
  imports Push_Laws Pull_Laws Chain_Laws
begin

text \<open>
  The log that a run of the server builds: accepted operations, of any workspaces and domains, in
  between whatever else the server does to other tables. What a client then reads is checked by the
  same rules from the other side.
\<close>

subsection \<open>The log behind the tables\<close>

record log_entry =
  lg_workspace :: ident
  lg_op :: "operation signed"
  lg_seq :: u64
  lg_class :: op_class

abbreviation lg_domain :: "log_entry \<Rightarrow> ident" where "lg_domain e \<equiv> op_domain (body (lg_op e))"
abbreviation lg_device :: "log_entry \<Rightarrow> ident" where "lg_device e \<equiv> op_device (body (lg_op e))"
abbreviation lg_rid :: "log_entry \<Rightarrow> ident" where "lg_rid e \<equiv> op_rid (body (lg_op e))"

definition in_domain :: "ident \<Rightarrow> ident \<Rightarrow> log_entry \<Rightarrow> bool" where
  "in_domain w d e \<longleftrightarrow> lg_workspace e = w \<and> lg_domain e = d"

definition entry_live :: "crypto \<Rightarrow> log_entry \<Rightarrow> live_op" where
  "entry_live cr e = live_op_of cr (lg_op e) (lg_seq e)"

definition entry_row :: "crypto \<Rightarrow> log_entry \<Rightarrow> operation_row" where
  "entry_row cr e = op_row (lg_workspace e) (lg_domain e) (entry_live cr e) (lg_class e)"

definition entry_covers :: "crypto \<Rightarrow> log_entry \<Rightarrow> cover_row list" where
  "entry_covers cr e = map (cover_row_of (lg_workspace e) (lg_domain e) (entry_live cr e)) (op_supersedes (body (lg_op e)))"

definition entry_head :: "crypto \<Rightarrow> log_entry \<Rightarrow> chain_head_row" where
  "entry_head cr e = \<lparr>chr_counter = op_counter (body (lg_op e)), chr_digest = signed_operation_digest cr (lg_op e),
     chr_seq = lg_seq e, chr_policy_revision = op_policy_revision (body (lg_op e)),
     chr_generation = op_generation (body (lg_op e))\<rparr>"

definition last_opt :: "'a list \<Rightarrow> 'a option" where
  "last_opt xs = (if xs = [] then None else Some (last xs))"

lemma last_opt_simps [simp]: "last_opt [] = None" "last_opt (xs @ [x]) = Some x"
  by (simp_all add: last_opt_def)

text \<open>The live set a client computes from the entries of one domain, in order.\<close>

definition live_of :: "crypto \<Rightarrow> log_entry list \<Rightarrow> live_set" where
  "live_of cr es = fold (\<lambda>e ls. snd (live_apply (entry_live cr e) ls)) es new_live"

text \<open>\<open>e\<close> comes before \<open>e'\<close>: within a domain sequences rise, within a device's chain counters too.\<close>

definition before :: "log_entry \<Rightarrow> log_entry \<Rightarrow> bool" where
  "before e e' \<longleftrightarrow> (lg_workspace e = lg_workspace e' \<and> lg_domain e = lg_domain e' \<longrightarrow>
     lg_seq e < lg_seq e' \<and> (lg_device e = lg_device e' \<longrightarrow>
       op_counter (body (lg_op e)) < op_counter (body (lg_op e'))
       \<and> op_policy_revision (body (lg_op e)) \<le> op_policy_revision (body (lg_op e'))
       \<and> op_generation (body (lg_op e)) \<le> op_generation (body (lg_op e'))))"

definition entry_record :: "crypto \<Rightarrow> log_entry \<Rightarrow> chain_record" where
  "entry_record cr e = chain_record_of cr (lg_op e) (lg_seq e)"

definition holds_log :: "crypto \<Rightarrow> store \<Rightarrow> log_entry list \<Rightarrow> bool" where
  "holds_log cr st log \<longleftrightarrow>
     st_operations st = map (entry_row cr) log
   \<and> st_covers st = concat (map (entry_covers cr) log)
   \<and> (\<forall>w rid d. rid_domain st w rid = Some d \<longleftrightarrow> (\<exists>e \<in> set log. in_domain w d e \<and> lg_rid e = rid))
   \<and> (\<forall>w d device. chain_head_at st w d device =
        map_option (entry_head cr) (last_opt (filter (\<lambda>e. in_domain w d e \<and> lg_device e = device) log)))
   \<and> (\<forall>e \<in> set log. lg_seq e \<le> INTEGER_MAX \<and> (\<exists>h. head_seq_of st (lg_workspace e) (lg_domain e) = Some h \<and> lg_seq e \<le> h))
   \<and> (\<forall>w d s bs. bt_get (st_entries st) (w, d, s) = Some (ENTRY_OPERATION, bs) \<longleftrightarrow>
        (\<exists>e \<in> set log. in_domain w d e \<and> lg_seq e = s \<and> bs = enc_signed enc_operation (lg_op e)))"

text \<open>Every entry passes the client's check of live sets against the entries before it.\<close>

definition checked :: "crypto \<Rightarrow> log_entry list \<Rightarrow> bool" where
  "checked cr es \<longleftrightarrow> (\<forall>i < length es. live_check (live_of cr (take i es)) (entry_live cr (es ! i)) = Inr (lg_class (es ! i)))"

text \<open>What the entries passed when they were accepted.\<close>

definition good_log :: "crypto \<Rightarrow> log_entry list \<Rightarrow> bool" where
  "good_log cr log \<longleftrightarrow> sorted_wrt before log
   \<and> (\<forall>e \<in> set log. wf_signed wf_operation (lg_op e))
   \<and> (\<forall>w d. extends (\<lambda>_. (0, ZERO_digest)) (map (entry_record cr) (filter (in_domain w d) log)))
   \<and> (\<forall>w d. checked cr (filter (in_domain w d) log))"

subsection \<open>Runs\<close>

text \<open>Every entry decodes, and its domain's head is at or above it.\<close>

definition sound_entries :: "store \<Rightarrow> bool" where
  "sound_entries st \<longleftrightarrow> (\<forall>w d s t bs. bt_get (st_entries st) (w, d, s) = Some (t, bs) \<longrightarrow>
     (\<exists>e. entry_of_raw \<lparr>re_seq = s, re_type = t, re_record = bs\<rparr> = Inr e) \<and> s \<le> INTEGER_MAX
     \<and> (\<exists>h. head_seq_of st w d = Some h \<and> s \<le> h))"

definition blank :: "store \<Rightarrow> bool" where
  "blank st \<longleftrightarrow> sound_entries st \<and> st_operations st = [] \<and> st_covers st = [] \<and> st_rids st = bt_empty \<and> st_chain_heads st = bt_empty
     \<and> (\<forall>k bs. bt_get (st_entries st) k \<noteq> Some (ENTRY_OPERATION, bs))"

text \<open>
  What the server's other work does to these tables: it appends entries of other kinds, which decode,
  and changes the policy, epochs, checkpoints, blobs and counters.
\<close>

definition other_work :: "store \<Rightarrow> store \<Rightarrow> bool" where
  "other_work st st' \<longleftrightarrow> sound_entries st' \<and> st_operations st' = st_operations st \<and> st_covers st' = st_covers st \<and> st_rids st' = st_rids st
     \<and> st_chain_heads st' = st_chain_heads st
     \<and> (\<forall>k bs. bt_get (st_entries st') k = Some (ENTRY_OPERATION, bs) \<longleftrightarrow> bt_get (st_entries st) k = Some (ENTRY_OPERATION, bs))
     \<and> (\<forall>w d h. head_seq_of st w d = Some h \<longrightarrow> (\<exists>h'. head_seq_of st' w d = Some h' \<and> h \<le> h'))"

text \<open>A pushed operation as the decoder builds it.\<close>

definition decoded_op :: "crypto \<Rightarrow> pushed_op \<Rightarrow> bool" where
  "decoded_op cr pushed \<longleftrightarrow> wf_signed wf_operation (po_op pushed)
     \<and> po_bytes pushed = enc_signed enc_operation (po_op pushed)
     \<and> po_digest pushed = signed_operation_digest cr (po_op pushed)"

inductive server_run :: "crypto \<Rightarrow> store \<Rightarrow> log_entry list \<Rightarrow> bool" for cr where
  served_start: "blank st \<Longrightarrow> server_run cr st []"
| served_push: "server_run cr st log \<Longrightarrow> decoded_op cr pushed
    \<Longrightarrow> apply_operation cr p interval quota generation w pushed st = Inr (r, st')
    \<Longrightarrow> st_operations st' = st_operations st @ [row]
    \<Longrightarrow> server_run cr st' (log @ [\<lparr>lg_workspace = w, lg_op = po_op pushed, lg_seq = rc_seq r, lg_class = or_class row\<rparr>])"
| served_retry: "server_run cr st log
    \<Longrightarrow> apply_operation cr p interval quota generation w pushed st = Inr (r, st)
    \<Longrightarrow> server_run cr st log"
| served_other: "server_run cr st log \<Longrightarrow> other_work st st' \<Longrightarrow> server_run cr st' log"

subsection \<open>Live sets\<close>

lemma live_of_snoc: "live_of cr (es @ [e]) = snd (live_apply (entry_live cr e) (live_of cr es))"
  by (simp add: live_of_def)

lemma checked_snoc:
  "checked cr (es @ [e]) \<longleftrightarrow> checked cr es \<and> live_check (live_of cr es) (entry_live cr e) = Inr (lg_class e)"
  by (auto simp: checked_def nth_append less_Suc_eq)

lemma check_class: "live_check ls x = Inr c \<Longrightarrow> c = live_class_of ls x"
  by (auto simp: live_check_def judge_live_def live_class_of_def Let_def domIff split: if_splits)

lemma live_of_rids:
  assumes "checked cr es"
  shows "bt_get (ls_rids (live_of cr es)) rid =
    (let xs = filter (\<lambda>e. lg_rid e = rid) es
     in if xs = [] then None else Some \<lparr>rs_ops = map (\<lambda>e. (entry_live cr e, lg_class e)) xs, rs_dropped = {}\<rparr>)"
  using assms
proof (induction es rule: rev_induct)
  case Nil
  then show ?case by (simp add: live_of_def new_live_def)
next
  case (snoc e es)
  have rid: "lo_rid (entry_live cr e) = lg_rid e" by (simp add: entry_live_def live_op_of_def)
  have "lg_class e = live_class_of (live_of cr es) (entry_live cr e)"
    using snoc.prems check_class by (simp add: checked_snoc)
  then show ?case
    using snoc.IH snoc.prems
    by (auto simp: live_of_snoc live_apply_def live_insert_def rid checked_snoc Let_def empty_rid_def)
qed

lemma live_of_at:
  assumes "checked cr es"
  shows "live_at (live_of cr es) rid at =
    state_live_at \<lparr>rs_ops = map (\<lambda>e. (entry_live cr e, lg_class e)) (filter (\<lambda>e. lg_rid e = rid) es), rs_dropped = {}\<rparr> at"
  using live_of_rids [OF assms, of rid] by (auto simp: live_at_def Let_def state_live_at_def)

lemma entry_live_fields [simp]:
  "lo_rid (entry_live cr e) = lg_rid e" "lo_device (entry_live cr e) = lg_device e"
  "lo_counter (entry_live cr e) = op_counter (body (lg_op e))" "lo_seq (entry_live cr e) = lg_seq e"
  "lo_covers (entry_live cr e) = op_supersedes (body (lg_op e))"
  by (simp_all add: entry_live_def live_op_of_def)

lemma entry_row_fields [simp]:
  "or_workspace (entry_row cr e) = lg_workspace e" "or_domain (entry_row cr e) = lg_domain e"
  "or_rid (entry_row cr e) = lg_rid e" "or_device (entry_row cr e) = lg_device e"
  "or_counter (entry_row cr e) = op_counter (body (lg_op e))" "or_seq (entry_row cr e) = lg_seq e"
  "or_digest (entry_row cr e) = signed_operation_digest cr (lg_op e)" "or_class (entry_row cr e) = lg_class e"
  "\<not> or_dropped (entry_row cr e)" "row_op (entry_row cr e) = (entry_live cr e)\<lparr>lo_covers := []\<rparr>"
  by (simp_all add: entry_row_def op_row_def row_op_def entry_live_def live_op_of_def)

lemma own_rid:
  assumes "holds_log cr st log" and "rid_domain st w rid = None \<or> rid_domain st w rid = Some d" and "e \<in> set log"
  shows "lg_workspace e = w \<and> lg_rid e = rid \<longleftrightarrow> in_domain w d e \<and> lg_rid e = rid"
proof -
  have "rid_domain st (lg_workspace e) (lg_rid e) = Some (lg_domain e)"
    using assms(1,3) unfolding holds_log_def in_domain_def by blast
  then show ?thesis using assms(2) by (auto simp: in_domain_def)
qed

lemma covers_entry:
  "covers (entry_live cr e) x \<longleftrightarrow> (\<exists>c \<in> set (op_supersedes (body (lg_op e))). cov_device c = lo_device x \<and> lo_counter x \<le> cov_counter c)"
  by (auto simp: covers_def covered_by_def list_ex_iff eq_commute [of "lo_device x"])

lemma in_log_covers:
  assumes "holds_log cr st log"
  shows "list_ex (\<lambda>c. cvr_workspace c = w \<and> cvr_rid c = rid \<and> cvr_device c = device
      \<and> cvr_counter c \<ge> counter \<and> cvr_by_seq c \<le> s) (st_covers st)
    \<longleftrightarrow> (\<exists>e \<in> set log. lg_workspace e = w \<and> lg_rid e = rid \<and> lg_seq e \<le> s
      \<and> (\<exists>c \<in> set (op_supersedes (body (lg_op e))). cov_device c = device \<and> counter \<le> cov_counter c))"
  using assms by (auto simp: holds_log_def list_ex_iff entry_covers_def cover_row_of_def)

lemma at_most_le: "s \<le> INTEGER_MAX \<Longrightarrow> s \<le> at_most at \<longleftrightarrow> s \<le> at"
  by (simp add: at_most_def)

lemma sort_key_sorted: "sorted_wrt (\<lambda>x y. f x < f y) xs \<Longrightarrow> sort_key (f :: 'a \<Rightarrow> 'b::linorder) xs = xs"
proof -
  assume "sorted_wrt (\<lambda>x y. f x < f y) xs"
  then have "sorted_wrt (\<lambda>x y. f x \<le> f y) xs" by (rule sorted_wrt_mono_rel [rotated]) auto
  then show ?thesis by (intro sort_key_id_if_sorted) (simp add: sorted_wrt_map)
qed

lemma seqs_rise:
  assumes "sorted_wrt before log"
  shows "sorted_wrt (\<lambda>e e'. lg_seq e < lg_seq e') (filter (in_domain w d) log)"
proof (rule sorted_wrt_mono_rel [rotated])
  show "sorted_wrt before (filter (in_domain w d) log)" using assms by (rule sorted_wrt_filter)
qed (auto simp: before_def in_domain_def)

lemma live_ops_log:
  assumes "holds_log cr st log" and "good_log cr log" and "rid_domain st w rid = Some d"
  shows "live_ops st w rid at =
    map (\<lambda>(x, c). (x\<lparr>lo_covers := []\<rparr>, c)) (live_at (live_of cr (filter (in_domain w d) log)) rid at)"
proof -
  let ?es = "filter (in_domain w d) log"
  let ?mine = "filter (\<lambda>e. lg_rid e = rid) ?es"
  let ?gone = "\<lambda>e. \<exists>e' \<in> set ?mine. lg_seq e' \<le> at
      \<and> (\<exists>c \<in> set (op_supersedes (body (lg_op e'))). cov_device c = lg_device e \<and> op_counter (body (lg_op e)) \<le> cov_counter c)"
  have small: "lg_seq e \<le> at_most at \<longleftrightarrow> lg_seq e \<le> at" if "e \<in> set log" for e
    using assms(1) that at_most_le by (auto simp: holds_log_def)
  note own = own_rid [OF assms(1) disjI2 [OF assms(3)]]
  have gone: "(\<exists>e' \<in> set log. lg_workspace e' = w \<and> lg_rid e' = rid \<and> lg_seq e' \<le> at_most at
      \<and> (\<exists>c \<in> set (op_supersedes (body (lg_op e'))). cov_device c = lg_device e \<and> op_counter (body (lg_op e)) \<le> cov_counter c))
    \<longleftrightarrow> ?gone e" for e
    using small own by auto
  have "filter (\<lambda>r. or_workspace r = w \<and> or_rid r = rid \<and> or_seq r \<le> at_most at \<and> \<not> or_dropped r
         \<and> \<not> list_ex (\<lambda>c. cvr_workspace c = or_workspace r \<and> cvr_rid c = or_rid r
             \<and> cvr_device c = or_device r \<and> cvr_counter c \<ge> or_counter r \<and> cvr_by_seq c \<le> at_most at)
           (st_covers st)) (st_operations st)
      = map (entry_row cr) (filter (\<lambda>e. lg_seq e \<le> at \<and> \<not> ?gone e) ?mine)"
  proof -
    have ops: "st_operations st = map (entry_row cr) log" using assms(1) by (simp add: holds_log_def)
    have "lg_workspace e = w \<and> lg_rid e = rid \<and> lg_seq e \<le> at_most at
          \<and> \<not> list_ex (\<lambda>c. cvr_workspace c = lg_workspace e \<and> cvr_rid c = lg_rid e
             \<and> cvr_device c = lg_device e \<and> cvr_counter c \<ge> op_counter (body (lg_op e)) \<and> cvr_by_seq c \<le> at_most at) (st_covers st)
        \<longleftrightarrow> lg_seq e \<le> at \<and> \<not> ?gone e \<and> lg_rid e = rid \<and> in_domain w d e" if "e \<in> set log" for e
      unfolding in_log_covers [OF assms(1)] using own [OF that] small [OF that] gone [of e] by auto
    then show ?thesis
      unfolding ops filter_map filter_filter comp_def
      by (intro arg_cong [where f = "map (entry_row cr)"] filter_cong refl) (simp add: conj_ac)
  qed
  moreover have "sorted_wrt (\<lambda>r r'. or_seq r < or_seq r') (map (entry_row cr) (filter (\<lambda>e. lg_seq e \<le> at \<and> \<not> ?gone e) ?mine))"
  proof -
    have "sorted_wrt (\<lambda>e e'. lg_seq e < lg_seq e') ?es" using seqs_rise assms(2) by (simp add: good_log_def)
    then show ?thesis unfolding sorted_wrt_map entry_row_fields by (rule sorted_wrt_filter [OF sorted_wrt_filter])
  qed
  moreover have "live_at (live_of cr ?es) rid at =
      map (\<lambda>e. (entry_live cr e, lg_class e)) (filter (\<lambda>e. lg_seq e \<le> at \<and> \<not> ?gone e) ?mine)"
  proof -
    have "checked cr ?es" using assms(2) by (simp add: good_log_def)
    then show ?thesis
      unfolding live_of_at [OF \<open>checked cr ?es\<close>]
      by (simp add: state_live_at_def Let_def filter_map comp_def covers_def covered_by_def list_ex_iff split_beta
          filter_filter cong: filter_cong)
       (intro arg_cong [where f = "map _"] filter_cong, auto)
  qed
  ultimately show ?thesis by (simp add: live_ops_def sort_key_sorted comp_def)
qed

subsection \<open>The server's check is the client's\<close>

lemma judge_live_cong:
  assumes "lo_covers x = lo_covers x'" and "lo_device x = lo_device x'" and "lo_weight x = lo_weight x'"
  shows "judge_live x b u c lives = judge_live x' b u c lives"
proof -
  have "class_of x b = class_of x' b" "covers x = covers x'"
    using assms by (auto simp: class_of_def covers_def fun_eq_iff)
  then show ?thesis using assms by (simp add: judge_live_def Let_def comp_def)
qed

lemma judge_live_strip:
  "judge_live x b u c (map (\<lambda>(y, k). (y\<lparr>lo_covers := []\<rparr>, k)) lives) = judge_live x b u c lives"
proof -
  have "covers x (y\<lparr>lo_covers := []\<rparr>) = covers x y" for y by (simp add: covers_def covered_by_def [abs_def])
  then show ?thesis
    by (simp add: judge_live_def Let_def filter_map comp_def split_beta)
qed

lemma names_op_log:
  assumes "holds_log cr st log" and "good_log cr log" and "rid_domain st w rid = None \<or> rid_domain st w rid = Some d"
  shows "names_op (bt_get (ls_rids (live_of cr (filter (in_domain w d) log))) rid) c
    \<longleftrightarrow> op_exists st w rid (cov_device c) (cov_counter c)"
proof -
  note own_rid [OF assms(1,3)]
  moreover have "st_operations st = map (entry_row cr) log" using assms(1) by (simp add: holds_log_def)
  moreover have "checked cr (filter (in_domain w d) log)" using assms(2) by (simp add: good_log_def)
  ultimately show ?thesis
    by (auto simp: live_of_rids Let_def names_op_def op_exists_def list_ex_iff filter_empty_conv)
qed

lemma server_check:
  assumes "holds_log cr st log" and "good_log cr log" and "rid_domain st w rid = None \<or> rid_domain st w rid = Some d"
    and "lo_rid x = rid"
  shows "live_check (live_of cr (filter (in_domain w d) log)) x =
    judge_live x (rid_domain st w rid \<noteq> None)
      (list_ex (\<lambda>c. \<not> op_exists st w rid (cov_device c) (cov_counter c)) (lo_covers x))
      (rid_domain st w rid \<noteq> None \<and> covered st w rid (lo_device x) (lo_counter x) (- 1))
      (if rid_domain st w rid = None then [] else live_ops st w rid (- 1))"
proof -
  let ?es = "filter (in_domain w d) log"
  let ?s = "bt_get (ls_rids (live_of cr ?es)) rid"
  have checked: "checked cr ?es" using assms(2) by (simp add: good_log_def)
  have none: "?s = None \<longleftrightarrow> rid_domain st w rid = None"
  proof (cases "rid_domain st w rid")
    case None
    then have "\<not> (in_domain w d e \<and> lg_rid e = rid)" if "e \<in> set log" for e
      using assms(1) that unfolding holds_log_def by (metis option.distinct(1))
    then show ?thesis using None by (auto simp: live_of_rids [OF checked] Let_def filter_empty_conv)
  next
    case (Some d')
    then have "d' = d" using assms(3) by simp
    then obtain e where "e \<in> set log" "in_domain w d e" "lg_rid e = rid"
      using assms(1) Some unfolding holds_log_def by blast
    then show ?thesis using Some by (auto simp: live_of_rids [OF checked] Let_def filter_empty_conv)
  qed
  have lives: "judge_live x b u c (live (live_of cr ?es) rid)
      = judge_live x b u c (if rid_domain st w rid = None then [] else live_ops st w rid (- 1))" for b u c
  proof (cases "rid_domain st w rid")
    case None
    then show ?thesis using none by (simp add: live_def live_at_def)
  next
    case (Some d')
    then show ?thesis
      using live_ops_log [OF assms(1,2), of w rid d "- 1"] assms(3) judge_live_strip by (simp add: live_def)
  qed
  have cov: "(case ?s of None \<Rightarrow> False | Some s \<Rightarrow> list_ex (\<lambda>(y, _). covers y x) (rs_ops s))
      \<longleftrightarrow> rid_domain st w rid \<noteq> None \<and> covered st w rid (lo_device x) (lo_counter x) (- 1)"
  proof (cases "rid_domain st w rid")
    case None
    then show ?thesis using none by simp
  next
    case (Some d')
    then have d: "rid_domain st w rid = Some d" using assms(3) by simp
    note own = own_rid [OF assms(1,3)]
    have small: "lg_seq e \<le> at_most (- 1)" if "e \<in> set log" for e
      using assms(1) that by (auto simp: holds_log_def at_most_def min_def)
    have "covered st w rid (lo_device x) (lo_counter x) (- 1) \<longleftrightarrow>
        (\<exists>e \<in> set log. in_domain w d e \<and> lg_rid e = rid \<and> covers (entry_live cr e) x)"
      unfolding covered_def in_log_covers [OF assms(1)] covers_entry using own small by blast
    moreover have "(case ?s of None \<Rightarrow> False | Some s \<Rightarrow> list_ex (\<lambda>(y, _). covers y x) (rs_ops s)) \<longleftrightarrow>
        (\<exists>e \<in> set log. in_domain w d e \<and> lg_rid e = rid \<and> covers (entry_live cr e) x)"
      by (auto simp: live_of_rids [OF checked] Let_def list_ex_iff filter_empty_conv)
    ultimately show ?thesis using Some by simp
  qed
  have unknown: "list_ex (\<lambda>c. \<not> names_op ?s c) (lo_covers x)
      = list_ex (\<lambda>c. \<not> op_exists st w rid (cov_device c) (cov_counter c)) (lo_covers x)"
    using names_op_log [OF assms(1-3)] by simp
  show ?thesis
    unfolding live_check_def Let_def assms(4) cov unknown lives using none by simp
qed

subsection \<open>Every run keeps the log\<close>

definition heads_after :: "(ident \<Rightarrow> u64 \<times> digest) \<Rightarrow> chain_record list \<Rightarrow> ident \<Rightarrow> u64 \<times> digest" where
  "heads_after h rs = fold (\<lambda>r h. h(cr_device r := (cr_counter r, cr_digest r))) rs h"

lemma extends_snoc:
  "extends h (rs @ [r]) \<longleftrightarrow> extends h rs \<and> fst (heads_after h rs (cr_device r)) < cr_counter r
     \<and> cr_previous r = snd (heads_after h rs (cr_device r))"
  by (induction rs arbitrary: h) (auto simp: heads_after_def)

lemma heads_after_last:
  "heads_after h rs device = (case last_opt (filter (\<lambda>r. cr_device r = device) rs) of
     None \<Rightarrow> h device | Some r \<Rightarrow> (cr_counter r, cr_digest r))"
proof (induction rs rule: rev_induct)
  case (snoc r rs)
  then show ?case by (cases "cr_device r = device") (auto simp: heads_after_def)
qed (simp add: heads_after_def)

lemma last_opt_map [simp]: "last_opt (map f xs) = map_option f (last_opt xs)"
  by (simp add: last_opt_def last_map)

lemma server_head:
  assumes "holds_log cr st log"
  shows "heads_after (\<lambda>_. (0, ZERO_digest)) (map (entry_record cr) (filter (in_domain w d) log)) device
    = (case chain_head_at st w d device of None \<Rightarrow> (0, ZERO_digest) | Some h \<Rightarrow> (chr_counter h, chr_digest h))"
proof -
  have "chain_head_at st w d device = map_option (entry_head cr) (last_opt (filter (\<lambda>e. in_domain w d e \<and> lg_device e = device) log))"
    using assms by (simp add: holds_log_def)
  moreover have "filter (\<lambda>r. cr_device r = device) (map (entry_record cr) (filter (in_domain w d) log))
      = map (entry_record cr) (filter (\<lambda>e. in_domain w d e \<and> lg_device e = device) log)"
    by (simp add: filter_map comp_def entry_record_def chain_record_of_def conj_commute)
  ultimately show ?thesis
    unfolding heads_after_last
    by (cases "last_opt (filter (\<lambda>e. in_domain w d e \<and> lg_device e = device) log)")
      (simp_all add: entry_record_def chain_record_of_def entry_head_def)
qed

text \<open>The device's head is its latest entry: none of its entries is beyond it.\<close>

lemma below_last:
  assumes "sorted_wrt before log" and "e \<in> set log" and "in_domain w d e" and "lg_device e = device"
    and "last_opt (filter (\<lambda>e. in_domain w d e \<and> lg_device e = device) log) = Some l"
  shows "op_counter (body (lg_op e)) \<le> op_counter (body (lg_op l))
    \<and> op_policy_revision (body (lg_op e)) \<le> op_policy_revision (body (lg_op l))
    \<and> op_generation (body (lg_op e)) \<le> op_generation (body (lg_op l))"
proof -
  let ?mine = "filter (\<lambda>e. in_domain w d e \<and> lg_device e = device) log"
  have l: "?mine \<noteq> []" "l = last ?mine" using assms(5) by (auto simp: last_opt_def split: if_splits)
  then have mine: "?mine = butlast ?mine @ [l]" by simp
  have "sorted_wrt before ?mine" using assms(1) by (rule sorted_wrt_filter)
  then have "\<forall>x \<in> set (butlast ?mine). before x l" by (subst (asm) mine) (simp add: sorted_wrt_append)
  moreover have "e \<in> set ?mine" using assms(2-4) by simp
  then have "e = l \<or> e \<in> set (butlast ?mine)" by (subst (asm) mine) auto
  moreover have "in_domain w d l \<and> lg_device l = device" using l(1,2) last_in_set by fastforce
  ultimately show ?thesis using assms(3,4) by (auto simp: before_def in_domain_def)
qed

lemma head_room: "h < INTEGER_MAX \<Longrightarrow> h < h + 1 \<and> h + 1 \<le> INTEGER_MAX"
  by (simp add: INTEGER_MAX_def word_less_nat_alt word_le_nat_alt unat_word_ariths)

lemma pushed_before:
  assumes "holds_log cr st log" and "good_log cr log" and "e \<in> set log"
    and "accepted_fresh cr p generation w pushed st row class1 r st'"
  shows "before e \<lparr>lg_workspace = w, lg_op = po_op pushed, lg_seq = rc_seq r, lg_class = class1\<rparr>"
proof -
  let ?b = "body (po_op pushed)"
  let ?h = "chain_head_at st w (op_domain ?b) (op_device ?b)"
  have row: "store_domain st w (op_domain ?b) = Some row" and r: "rc_seq r = dr_head_seq row + 1"
    and position: "check_position st w generation ?b row ?h = Inr ()" and access: "check_access p ?b row ?h = Inr ()"
    using assms(4) by (auto simp: accepted_fresh_def Let_def)
  obtain y st1 where y: "write_operation w (op_domain ?b) y st = Inr st1" "lo_seq (ow_op y) = dr_head_seq row + 1"
    using assms(4) by (auto simp: accepted_fresh_def Let_def live_op_of_def)
  obtain h where h: "head_seq_of st w (op_domain ?b) = Some h" "h < INTEGER_MAX" "rc_seq r = h + 1"
    using write_operationD(7) [OF y(1)] y(2) r by auto
  have "lg_seq e < rc_seq r" if "in_domain w (op_domain ?b) e"
  proof -
    have "lg_seq e \<le> h" using assms(1,3) h(1) that by (auto simp: holds_log_def in_domain_def)
    moreover have "h < h + 1" using head_room [OF h(2)] by simp
    ultimately show ?thesis using h(3) by (simp add: order_le_less_trans)
  qed
  moreover have "op_counter (body (lg_op e)) < op_counter ?b
      \<and> op_policy_revision (body (lg_op e)) \<le> op_policy_revision ?b \<and> op_generation (body (lg_op e)) \<le> op_generation ?b"
    if mine: "in_domain w (op_domain ?b) e" "lg_device e = op_device ?b"
  proof -
    let ?mine = "filter (\<lambda>e. in_domain w (op_domain ?b) e \<and> lg_device e = op_device ?b) log"
    have "?mine \<noteq> []" using assms(3) mine by (auto simp: filter_empty_conv)
    then obtain l where l: "last_opt ?mine = Some l" by (simp add: last_opt_def)
    then have head: "?h = Some (entry_head cr l)" using assms(1) by (simp add: holds_log_def)
    have "op_counter (body (lg_op l)) < op_counter ?b \<and> op_generation (body (lg_op l)) \<le> op_generation ?b"
      using position head by (auto simp: check_position_def entry_head_def Let_def not_le split: if_splits)
    moreover have "op_policy_revision (body (lg_op l)) \<le> op_policy_revision ?b"
      using access head by (auto simp: check_access_def entry_head_def Let_def not_less split: if_splits)
    moreover have "sorted_wrt before log" using assms(2) by (simp add: good_log_def)
    ultimately show ?thesis using below_last [OF _ assms(3) mine l] by auto
  qed
  ultimately show ?thesis by (auto simp: before_def in_domain_def)
qed

lemma pushed_holds:
  assumes "holds_log cr st log" and "decoded_op cr pushed"
    and "accepted_fresh cr p generation w pushed st row class1 r st'"
  shows "holds_log cr st' (log @ [\<lparr>lg_workspace = w, lg_op = po_op pushed, lg_seq = rc_seq r, lg_class = class1\<rparr>])"
proof -
  let ?b = "body (po_op pushed)"
  let ?d = "op_domain ?b"
  let ?e = "\<lparr>lg_workspace = w, lg_op = po_op pushed, lg_seq = rc_seq r, lg_class = class1\<rparr>"
  have rid: "rid_domain st w (op_rid ?b) = None \<or> rid_domain st w (op_rid ?b) = Some ?d"
    using assms(3) by (simp add: accepted_fresh_def Let_def)
  obtain y st1 where written: "write_operation w ?d y st = Inr st1" and same: "same_tables st1 st'"
    and y: "ow_op y = entry_live cr ?e" "ow_class y = class1" "ow_record y = po_bytes pushed"
      "ow_new_rid y \<longleftrightarrow> rid_domain st w (op_rid ?b) = None" "ow_chain_head y = entry_head cr ?e"
    using assms(2,3) by (auto simp: accepted_fresh_def Let_def entry_live_def entry_head_def decoded_op_def)
  note wrote = write_operationD [OF written]
  have core: "st_operations st' = st_operations st1" "st_covers st' = st_covers st1" "st_rids st' = st_rids st1"
    "st_chain_heads st' = st_chain_heads st1" "st_entries st' = st_entries st1" "head_seq_of st' = head_seq_of st1"
    using same by (simp_all add: same_tables_def core_tables_def)
  obtain h where h: "head_seq_of st w ?d = Some h" "h < INTEGER_MAX" "rc_seq r = h + 1"
    using wrote(7) y(1) by auto
  note room = head_room [OF h(2)]
  have "st_operations st' = map (entry_row cr) (log @ [?e])"
    using assms(1) wrote(1) y core by (simp add: holds_log_def entry_row_def)
  moreover have "st_covers st' = concat (map (entry_covers cr) (log @ [?e]))"
    using assms(1) wrote(2) y core by (simp add: holds_log_def entry_covers_def)
  moreover have "rid_domain st' w' rid = Some d \<longleftrightarrow> (\<exists>e \<in> set (log @ [?e]). in_domain w' d e \<and> lg_rid e = rid)" for w' rid d
  proof -
    have "rid_domain st w' rid = Some d \<longleftrightarrow> (\<exists>e \<in> set log. in_domain w' d e \<and> lg_rid e = rid)"
      using assms(1) by (simp add: holds_log_def)
    moreover have "rid_domain st' w' rid = (if w' = w \<and> rid = op_rid ?b then Some ?d else rid_domain st w' rid)"
      using rid wrote(3) y core by (auto simp: rid_domain_def)
    ultimately show ?thesis using rid by (auto simp: in_domain_def)
  qed
  moreover have "chain_head_at st' w' d device =
      map_option (entry_head cr) (last_opt (filter (\<lambda>e. in_domain w' d e \<and> lg_device e = device) (log @ [?e])))" for w' d device
  proof -
    have "chain_head_at st' w' d device = (if w' = w \<and> d = ?d \<and> device = op_device ?b then Some (entry_head cr ?e)
        else chain_head_at st w' d device)"
      using wrote(4) y core by (auto simp: chain_head_at_def)
    then show ?thesis using assms(1) by (auto simp: holds_log_def in_domain_def)
  qed
  moreover have "lg_seq e \<le> INTEGER_MAX \<and> (\<exists>k. head_seq_of st' (lg_workspace e) (lg_domain e) = Some k \<and> lg_seq e \<le> k)"
    if "e \<in> set (log @ [?e])" for e
  proof (cases "e \<in> set log")
    case True
    then obtain k where k: "head_seq_of st (lg_workspace e) (lg_domain e) = Some k" "lg_seq e \<le> k" "lg_seq e \<le> INTEGER_MAX"
      using assms(1) by (auto simp: holds_log_def)
    then show ?thesis
      using wrote(6) y(1) core h room by (auto intro: order_trans [OF _ less_imp_le])
  next
    case False
    then show ?thesis using that wrote(6) y(1) core h room by auto
  qed
  moreover have "bt_get (st_entries st') (w', d, s) = Some (ENTRY_OPERATION, bs) \<longleftrightarrow>
      (\<exists>e \<in> set (log @ [?e]). in_domain w' d e \<and> lg_seq e = s \<and> bs = enc_signed enc_operation (lg_op e))" for w' d s bs
  proof -
    have old: "bt_get (st_entries st) (w', d, s) = Some (ENTRY_OPERATION, bs) \<longleftrightarrow>
        (\<exists>e \<in> set log. in_domain w' d e \<and> lg_seq e = s \<and> bs = enc_signed enc_operation (lg_op e))"
      using assms(1) by (simp add: holds_log_def)
    have "\<not> (in_domain w ?d e \<and> lg_seq e = rc_seq r)" if "e \<in> set log" for e
      using wrote(8) y(1) that assms(1) by (auto simp: holds_log_def in_domain_def)
    moreover have "bt_get (st_entries st') (w', d, s) = (if w' = w \<and> d = ?d \<and> s = rc_seq r
        then Some (ENTRY_OPERATION, enc_signed enc_operation (po_op pushed)) else bt_get (st_entries st) (w', d, s))"
      using wrote(5) y core assms(2) by (auto simp: decoded_op_def)
    ultimately show ?thesis using old by (auto simp: in_domain_def)
  qed
  ultimately show ?thesis by (simp add: holds_log_def)
qed

lemma pushed_good:
  assumes "holds_log cr st log" and "good_log cr log" and "decoded_op cr pushed"
    and "accepted_fresh cr p generation w pushed st row class1 r st'"
  shows "good_log cr (log @ [\<lparr>lg_workspace = w, lg_op = po_op pushed, lg_seq = rc_seq r, lg_class = class1\<rparr>])"
proof -
  let ?b = "body (po_op pushed)"
  let ?d = "op_domain ?b"
  let ?e = "\<lparr>lg_workspace = w, lg_op = po_op pushed, lg_seq = rc_seq r, lg_class = class1\<rparr>"
  let ?h = "chain_head_at st w ?d (op_device ?b)"
  have facts: "rid_domain st w (op_rid ?b) = None \<or> rid_domain st w (op_rid ?b) = Some ?d"
    "check_position st w generation ?b row ?h = Inr ()" "rc_seq r = dr_head_seq row + 1"
    "judge_live ((live_op_of cr (po_op pushed) (dr_head_seq row + 1))\<lparr>lo_seq := 0\<rparr>) (rid_domain st w (op_rid ?b) \<noteq> None)
       (list_ex (\<lambda>c. \<not> op_exists st w (op_rid ?b) (cov_device c) (cov_counter c)) (op_supersedes ?b))
       (rid_domain st w (op_rid ?b) \<noteq> None \<and> covered st w (op_rid ?b) (op_device ?b) (op_counter ?b) (- 1))
       (if rid_domain st w (op_rid ?b) = None then [] else live_ops st w (op_rid ?b) (- 1)) = Inr class1"
    using assms(4) by (auto simp: accepted_fresh_def Let_def)
  have "sorted_wrt before (log @ [?e])"
    using assms(2) pushed_before [OF assms(1,2) _ assms(4)] by (simp add: good_log_def sorted_wrt_append)
  moreover have "wf_signed wf_operation (lg_op ?e)" using assms(3) by (simp add: decoded_op_def)
  moreover have "extends (\<lambda>_. (0, ZERO_digest)) (map (entry_record cr) (filter (in_domain w' d) (log @ [?e])))" for w' d
  proof -
    have old: "extends (\<lambda>_. (0, ZERO_digest)) (map (entry_record cr) (filter (in_domain w' d) log))"
      using assms(2) by (simp add: good_log_def)
    show ?thesis
    proof (cases "w' = w \<and> d = ?d")
      case True
      have "fst (heads_after (\<lambda>_. (0, ZERO_digest)) (map (entry_record cr) (filter (in_domain w ?d) log)) (op_device ?b)) < op_counter ?b
        \<and> op_previous ?b = snd (heads_after (\<lambda>_. (0, ZERO_digest)) (map (entry_record cr) (filter (in_domain w ?d) log)) (op_device ?b))"
        using facts(2) unfolding server_head [OF assms(1)]
        by (auto simp: check_position_def Let_def not_le word_gt_0 split: if_splits option.splits prod.splits)
      moreover have "in_domain w ?d ?e" by (simp add: in_domain_def)
      ultimately show ?thesis
        using old True by (simp add: extends_snoc) (simp add: entry_record_def chain_record_of_def)
    qed (use old in \<open>auto simp: in_domain_def\<close>)
  qed
  moreover have "checked cr (filter (in_domain w' d) (log @ [?e]))" for w' d
  proof -
    have old: "checked cr (filter (in_domain w' d) log)" using assms(2) by (simp add: good_log_def)
    have "live_check (live_of cr (filter (in_domain w ?d) log)) (entry_live cr ?e) = Inr class1"
    proof -
      have "judge_live ((live_op_of cr (po_op pushed) (dr_head_seq row + 1))\<lparr>lo_seq := 0\<rparr>) b u c lives
          = judge_live (entry_live cr ?e) b u c lives" for b u c lives
        by (rule judge_live_cong) (simp_all add: entry_live_def live_op_of_def)
      then show ?thesis
        using server_check [OF assms(1,2) facts(1), of "entry_live cr ?e"] facts(4) by simp
    qed
    then show ?thesis
      using old by (cases "in_domain w' d ?e") (auto simp: checked_snoc in_domain_def)
  qed
  ultimately show ?thesis using assms(2) by (simp add: good_log_def)
qed

lemma pushed_sound:
  assumes "sound_entries st" and "decoded_op cr pushed" and "accepted_fresh cr p generation w pushed st row class1 r st'"
  shows "sound_entries st'"
proof -
  let ?d = "op_domain (body (po_op pushed))"
  obtain y st1 where written: "write_operation w ?d y st = Inr st1" and same: "same_tables st1 st'"
    and y: "ow_record y = enc_signed enc_operation (po_op pushed)"
    using assms(2,3) by (auto simp: accepted_fresh_def Let_def decoded_op_def)
  note wrote = write_operationD [OF written]
  have core: "st_entries st' = st_entries st1" "head_seq_of st' = head_seq_of st1"
    using same by (simp_all add: same_tables_def core_tables_def)
  obtain h where h: "head_seq_of st w ?d = Some h" "h < INTEGER_MAX" "lo_seq (ow_op y) = h + 1"
    using wrote(7) by auto
  note room = head_room [OF h(2)]
  have "from_bytes (dec_signed dec_operation) (enc_signed enc_operation (po_op pushed)) = Inr (po_op pushed)"
    using assms(2) wire.from_bytes_enc [OF signed_operation_wire] by (simp add: decoded_op_def)
  then have decodes: "entry_of_raw \<lparr>re_seq = h + 1, re_type = ENTRY_OPERATION, re_record = ow_record y\<rparr>
      = Inr \<lparr>we_seq = h + 1, we_record = Entry_Operation (po_op pushed)\<rparr>"
    by (simp add: entry_of_raw_def stored_def y ENTRY_OPERATION_def)
  show ?thesis
    unfolding sound_entries_def
  proof (intro allI impI)
    fix w' d s t bs
    assume got: "bt_get (st_entries st') (w', d, s) = Some (t, bs)"
    show "(\<exists>e. entry_of_raw \<lparr>re_seq = s, re_type = t, re_record = bs\<rparr> = Inr e) \<and> s \<le> INTEGER_MAX
      \<and> (\<exists>h. head_seq_of st' w' d = Some h \<and> s \<le> h)"
    proof (cases "w' = w \<and> d = ?d \<and> s = h + 1")
      case True
      then show ?thesis using got core wrote(5,6) h(3) decodes room by auto
    next
      case False
      then have "bt_get (st_entries st) (w', d, s) = Some (t, bs)"
        using got core wrote(5) h(3) by (auto split: if_splits)
      then obtain e k where old: "entry_of_raw \<lparr>re_seq = s, re_type = t, re_record = bs\<rparr> = Inr e" "s \<le> INTEGER_MAX"
        "head_seq_of st w' d = Some k" "s \<le> k"
        using assms(1) unfolding sound_entries_def by blast
      then have "\<exists>k. head_seq_of st' w' d = Some k \<and> s \<le> k"
        using core wrote(6) h room by (auto intro: order_trans [OF _ less_imp_le])
      then show ?thesis using old by blast
    qed
  qed
qed

lemma run_log: "server_run cr st log \<Longrightarrow> holds_log cr st log \<and> good_log cr log \<and> sound_entries st"
proof (induction rule: server_run.induct)
  case (served_start st)
  then show ?case
    by (simp add: blank_def holds_log_def good_log_def rid_domain_def chain_head_at_def checked_def)
next
  case (served_push st log pushed p interval quota generation w r st' row)
  have "st' \<noteq> st" using served_push.hyps(4) by auto
  then obtain row' class1 where fresh: "accepted_fresh cr p generation w pushed st row' class1 r st'"
    using apply_operation_cases [OF served_push.hyps(3)] by blast
  have "holds_log cr st' (log @ [\<lparr>lg_workspace = w, lg_op = po_op pushed, lg_seq = rc_seq r, lg_class = class1\<rparr>])"
    using pushed_holds served_push fresh by blast
  moreover from this have "or_class row = class1"
    using served_push.hyps(4) by (auto simp: holds_log_def entry_row_def op_row_def)
  moreover have "good_log cr (log @ [\<lparr>lg_workspace = w, lg_op = po_op pushed, lg_seq = rc_seq r, lg_class = class1\<rparr>])"
    using pushed_good [OF _ _ served_push.hyps(2) fresh] served_push.IH by blast
  moreover have "sound_entries st'" using pushed_sound [OF _ served_push.hyps(2) fresh] served_push.IH by blast
  ultimately show ?case by simp
next
  case (served_retry st log p interval quota generation w pushed r)
  then show ?case by simp
next
  case (served_other st log st')
  have "\<exists>k. head_seq_of st' (lg_workspace e) (lg_domain e) = Some k \<and> lg_seq e \<le> k" if "e \<in> set log" for e
    using served_other that unfolding holds_log_def other_work_def by (meson order_trans)
  then show ?case
    using served_other by (auto simp: other_work_def holds_log_def rid_domain_def chain_head_at_def)
qed

end
