(* ===== verification/Push_Theorems.thy ===== *)
theory Push_Theorems
  imports Push_Log
begin

text \<open>
  What the server promises of a push: an operation it accepts was authorised and follows its chain, and
  its tables hold the live sets that clients compute.
\<close>

subsection \<open>Acceptance\<close>

text \<open>
  C5. An operation that the server accepts either is one it already holds at that counter, with the
  same digest, and then nothing changes; or its device may write the domain both at the policy's head
  and at the revision the operation names, whose digest it names too, the operation is sealed under the
  domain's current epoch, no rotation is pending, its restore generation is not ahead of the server's,
  its counter is above the device's head, whose digest it names, and its sequence is the next one.
\<close>

theorem accepted_operation_authorized:
  fixes pushed
  defines "b \<equiv> body (po_op pushed)"
  assumes "apply_operation cr p interval quota generation w pushed st = Inr (r, st')"
  shows "st' = st \<and> op_position st w (op_domain b) (op_device b) (op_counter b) = Some (rc_seq r, po_digest pushed)
    \<or> can_write (head_snapshot p) (op_device b) (op_domain b)
      \<and> (\<exists>s. snapshot_at p (op_policy_revision b) = Some s \<and> can_write s (op_device b) (op_domain b)
          \<and> sn_digest s = op_policy_head b \<and> op_policy_revision b \<le> fst (policy_head p))
      \<and> (\<exists>row. store_domain st w (op_domain b) = Some row \<and> op_epoch b = dr_epoch row \<and> dr_epoch row \<noteq> 0
          \<and> rotation_required p (op_domain b) (dr_epoch_policy_revision row) (fst (policy_head p)) = None
          \<and> rc_seq r = dr_head_seq row + 1)
      \<and> op_generation b \<le> generation
      \<and> (case chain_head_at st w (op_domain b) (op_device b) of
           None \<Rightarrow> op_counter b \<noteq> 0 \<and> op_previous b = ZERO_digest
         | Some h \<Rightarrow> op_counter b > chr_counter h \<and> op_previous b = chr_digest h
             \<and> op_policy_revision b \<ge> chr_policy_revision h \<and> op_generation b \<ge> chr_generation h)"
  using apply_operation_cases [OF assms(2)]
proof
  assume "st' = st \<and> (\<exists>h. chain_head_at st w (op_domain (body (po_op pushed))) (op_device (body (po_op pushed))) = Some h
        \<and> op_counter (body (po_op pushed)) \<le> chr_counter h)
      \<and> op_position st w (op_domain (body (po_op pushed))) (op_device (body (po_op pushed))) (op_counter (body (po_op pushed)))
        = Some (rc_seq r, po_digest pushed)
      \<and> rc_record_digest r = po_digest pushed \<and> rc_domain r = op_domain (body (po_op pushed))"
  then show ?thesis by (simp add: b_def)
next
  assume "\<exists>row class1. accepted_fresh cr p generation w pushed st row class1 r st'"
  then obtain row where row: "store_domain st w (op_domain b) = Some row" "rc_seq r = dr_head_seq row + 1"
    and access: "check_access p b row (chain_head_at st w (op_domain b) (op_device b)) = Inr ()"
    and position: "check_position st w generation b row (chain_head_at st w (op_domain b) (op_device b)) = Inr ()"
    unfolding b_def by (auto simp: accepted_fresh_def Let_def)
  have "can_write (head_snapshot p) (op_device b) (op_domain b)"
    "\<exists>s. snapshot_at p (op_policy_revision b) = Some s \<and> can_write s (op_device b) (op_domain b)
        \<and> sn_digest s = op_policy_head b \<and> op_policy_revision b \<le> fst (policy_head p)"
    "op_epoch b = dr_epoch row" "dr_epoch row \<noteq> 0"
    "rotation_required p (op_domain b) (dr_epoch_policy_revision row) (fst (policy_head p)) = None"
    using access by (auto simp: check_access_def Let_def split: if_splits option.splits)
  moreover have "case chain_head_at st w (op_domain b) (op_device b) of
       None \<Rightarrow> op_counter b \<noteq> 0 \<and> op_previous b = ZERO_digest
     | Some h \<Rightarrow> op_counter b > chr_counter h \<and> op_previous b = chr_digest h
         \<and> op_policy_revision b \<ge> chr_policy_revision h \<and> op_generation b \<ge> chr_generation h"
    using access position
    by (auto simp: check_access_def check_position_def Let_def not_le not_less word_gt_0 split: if_splits option.splits)
  moreover have "op_generation b \<le> generation"
    using position by (auto simp: check_position_def Let_def not_less split: if_splits prod.splits)
  ultimately show ?thesis using row by blast
qed

subsection \<open>Live sets\<close>

text \<open>
  C6. The server's tables refine the clients' live sets: after any run of pushes, retries and work on
  other tables, as long as nothing was pruned and no checkpoint dropped a delete, for each object and as of each
  sequence, the rows that the server's query returns are the operations that a client holds live after
  applying the domain's log, with the same classes and in the same order, and each operation the
  server accepted passes the client's check, with the same class, against the log before it.
  A further theorem, on the log behind a pruned server, says what stays of this when it prunes and drops deletes.
\<close>

theorem server_refines_live_sets:
  assumes "server_run cr st log" and "rid_domain st w rid = Some d"
  shows "live_ops st w rid at =
      map (\<lambda>(x, c). (x\<lparr>lo_covers := []\<rparr>, c)) (live_at (live_of cr (filter (in_domain w d) log)) rid at)
    \<and> (\<forall>i < length (filter (in_domain w d) log).
        live_check (live_of cr (take i (filter (in_domain w d) log))) (entry_live cr (filter (in_domain w d) log ! i))
        = Inr (lg_class (filter (in_domain w d) log ! i)))"
proof -
  have run: "holds_log cr st log" "good_log cr log" using run_log [OF assms(1)] by blast+
  then have "checked cr (filter (in_domain w d) log)" by (simp add: good_log_def)
  then show ?thesis using live_ops_log [OF run assms(2)] by (auto simp: checked_def)
qed

end
