(* ===== verification/Pull_Theorems.thy ===== *)
theory Pull_Theorems
  imports Pull_Laws "HOL-Library.Multiset"
begin

text \<open>
  A pull's answer: every page is a well-formed message, and all of them together fit the body that the
  budget stands for.
\<close>

subsection \<open>Rows and entries\<close>

lemma stored_Inr: "wire enc dec ok m \<Longrightarrow> stored dec bs = Inr x \<longleftrightarrow> ok x \<and> bs = enc x"
  using wire.from_bytes_iff [of enc dec ok m bs x] by (simp add: stored_def)

text \<open>A row decodes to an entry exactly when it holds that entry's sequence, code and encoding.\<close>

lemma entry_of_raw_Inr:
  "entry_of_raw raw = Inr e \<longleftrightarrow> wf_record (we_record e) \<and> re_seq raw = we_seq e
    \<and> re_type raw = entry_code (we_record e) \<and> re_record raw = entry_bytes (we_record e)"
proof -
  note decoded = stored_Inr [OF signed_operation_wire] stored_Inr [OF checkpoint_bundle.wire_axioms]
    stored_Inr [OF signed_epoch_wire] stored_Inr [OF policy_entry.wire_axioms]
  obtain s r where e: "e = \<lparr>we_seq = s, we_record = r\<rparr>" by (cases e)
  show ?thesis unfolding entry_of_raw_def e by (cases r) (auto simp: decoded)
qed

definition entry_size :: "wire_entry \<Rightarrow> nat" where
  "entry_size e = ENTRY_FIXED + length (entry_bytes (we_record e))"

lemma length_enc_entry [simp]: "length (enc_entry e) = entry_size e"
  by (simp add: enc_entry_def entry_size_def ENTRY_FIXED_def w_u64_def w_u8_def w_bytes_def w_u32_def)

lemma read_rows_spends:
  assumes "read_rows rows (budget, complete, entries) = Inr (trunc, budget', complete', entries')"
  shows "sum_list (map entry_size entries') + budget' = sum_list (map entry_size entries) + budget \<and> budget' \<le> budget"
  using assms
proof (induction rows "(budget, complete, entries)" arbitrary: budget complete entries rule: read_rows.induct)
  case (2 raw rows budget complete entries)
  show ?case
  proof (cases "ENTRY_FIXED + length (re_record raw) > budget")
    case False
    then obtain e where e: "entry_of_raw raw = Inr e"
      and rest: "read_rows rows (budget - (ENTRY_FIXED + length (re_record raw)), re_seq raw, entries @ [e])
        = Inr (trunc, budget', complete', entries')"
      using "2.prems" by (auto simp: Let_def)
    have "entry_size e = ENTRY_FIXED + length (re_record raw)" using e by (simp add: entry_of_raw_Inr entry_size_def)
    moreover note "2.hyps" [OF refl _ rest, unfolded map_append sum_list_append]
    ultimately show ?thesis using False by force
  qed (use "2.prems" in simp)
qed simp

lemma read_rows_ok:
  assumes "read_rows rows (budget, complete, entries) = Inr (trunc, budget', complete', entries')"
    and "list_all wf_entry entries" and "budget \<le> MAX_BODY"
  shows "list_all wf_entry entries'"
  using assms
proof (induction rows "(budget, complete, entries)" arbitrary: budget complete entries rule: read_rows.induct)
  case (2 raw rows budget complete entries)
  show ?case
  proof (cases "ENTRY_FIXED + length (re_record raw) > budget")
    case False
    then obtain e where e: "entry_of_raw raw = Inr e"
      and rest: "read_rows rows (budget - (ENTRY_FIXED + length (re_record raw)), re_seq raw, entries @ [e])
        = Inr (trunc, budget', complete', entries')"
      using "2.prems"(1) by (auto simp: Let_def)
    have "wf_entry e"
      using e False "2.prems"(3) by (auto simp: entry_of_raw_Inr wf_entry_def fits_u32_def MAX_BODY_def)
    then show ?thesis using "2.hyps" [OF refl _ rest] False "2.prems"(2,3) by simp
  qed (use "2.prems" in simp)
qed simp

text \<open>The loop over the chunks is made of such passes.\<close>

lemma read_page_induct:
  assumes "read_page st w d head r = Inr (trunc, r')" and "P r"
    and "\<And>rows r trunc r'. read_rows rows r = Inr (trunc, r') \<Longrightarrow> P r \<Longrightarrow> P r'"
  shows "P r'"
  using assms(1,2)
proof (induction st w d head r rule: read_page.induct)
  case (1 st w d head budget complete entries)
  let ?r = "(budget, complete, entries)"
  show ?case
  proof (cases "complete < head \<and> entries_after st w d complete CHUNK \<noteq> []")
    case False
    then have "r' = ?r" using "1.prems"(1) by (subst (asm) read_page.simps) (auto split: if_splits list.splits)
    then show ?thesis using "1.prems"(2) by simp
  next
    case True
    then obtain raw rows where rows: "entries_after st w d complete CHUNK = raw # rows" "complete < head"
      by (cases "entries_after st w d complete CHUNK") auto
    obtain trunc1 r1 where step: "read_rows (raw # rows) ?r = Inr (trunc1, r1)"
      using "1.prems"(1) rows by (subst (asm) read_page.simps) (auto split: sum.splits simp del: read_rows.simps)
    have P: "P r1" using assms(3) [OF step "1.prems"(2)] .
    have "read_page st w d head ?r = (if trunc1 then Inr (True, r1) else read_page st w d head r1)"
      using rows step by (subst read_page.simps) (simp del: read_rows.simps split: bool.split)
    then show ?thesis
      using "1.IH" [OF _ rows(1) step _ _ _ P] "1.prems"(1) rows(2) P by (cases trunc1) auto
  qed
qed

lemma read_page_spends:
  assumes "read_page st w d head (budget, after, []) = Inr (trunc, budget', complete, es)"
  shows "sum_list (map entry_size es) + budget' = budget"
proof -
  have "(\<lambda>(b, c, es). sum_list (map entry_size es) + b = budget) (budget', complete, es)"
    by (rule read_page_induct [OF assms]) (use read_rows_spends in fastforce)+
  then show ?thesis by simp
qed

lemma read_page_ok:
  assumes "read_page st w d head (budget, after, []) = Inr (trunc, budget', complete, es)" and "budget \<le> MAX_BODY"
  shows "list_all wf_entry es"
proof -
  have "(\<lambda>(b, c, es). b \<le> MAX_BODY \<and> list_all wf_entry es) (budget', complete, es)"
  proof (rule read_page_induct [OF assms(1)])
    fix rows r trunc r'
    assume "read_rows rows r = Inr (trunc, r')" "(\<lambda>(b, c, es). b \<le> MAX_BODY \<and> list_all wf_entry es) (r :: page_read)"
    then show "(\<lambda>(b, c, es). b \<le> MAX_BODY \<and> list_all wf_entry es) r'"
      using read_rows_ok read_rows_spends by (cases r, cases r') fastforce
  qed (use assms(2) in simp)
  then show ?thesis by simp
qed

lemma sorted_new_perm: "sorted_new key limit xs = Inr ys \<Longrightarrow> mset ys = mset xs \<and> rises_strictly key ys \<and> length ys \<le> limit"
  by (auto simp: sorted_new_def Let_def split: if_splits)

subsection \<open>Pages\<close>

lemma length_enc_page: "length (enc_page pg) = PAGE_FIXED + sum_list (map entry_size (pg_entries pg))"
  by (simp add: enc_page_def PAGE_FIXED_def w_u64_def enc_page_status_def w_u8_def encode_list_def w_u32_def
      length_concat comp_def)

lemma pull_page_cases:
  assumes "pull_page st p generation sess w revision budget cursor = Inr (budget', pg)"
  shows "pg_domain pg = pc_domain cursor \<and> pg_after pg = pc_after cursor \<and> pg_policy_revision pg = revision
    \<and> (pg_status pg \<noteq> Page_Ok \<and> pg_entries pg = [] \<and> pg_complete_through pg = pc_after cursor \<and> budget' = budget
      \<or> pg_status pg = Page_Ok \<and> (\<exists>row trunc complete es. store_domain st w (pc_domain cursor) = Some row
        \<and> read_page st w (pc_domain cursor) (dr_head_seq row) (budget, pc_after cursor, []) = Inr (trunc, budget', complete, es)
        \<and> sorted_new by_seq UNBOUNDED es = Inr (pg_entries pg) \<and> pg_head pg = dr_head_seq row
        \<and> pg_complete_through pg = (if trunc then complete else max complete (dr_head_seq row))))"
  using assms
  by (cases "store_domain st w (pc_domain cursor)")
    (auto simp: pull_page_def Let_def empty_page_def split: if_splits prod.splits)

lemma pull_page_spends:
  assumes "pull_page st p generation sess w revision budget cursor = Inr (budget', pg)"
  shows "length (enc_page pg) + budget' = PAGE_FIXED + budget"
proof (cases "pg_status pg = Page_Ok")
  case True
  then obtain row :: domain_row and trunc complete es where
    "read_page st w (pc_domain cursor) (dr_head_seq row) (budget, pc_after cursor, []) = Inr (trunc, budget', complete, es)"
    "sorted_new by_seq UNBOUNDED es = Inr (pg_entries pg)"
    using pull_page_cases [OF assms] by blast
  then have "sum_list (map entry_size es) + budget' = budget" "mset (pg_entries pg) = mset es"
    using read_page_spends sorted_new_perm by blast+
  then have "sum_list (map entry_size (pg_entries pg)) + budget' = budget"
    by (metis mset_map sum_mset_sum_list)
  then show ?thesis by (simp add: length_enc_page)
next
  case False
  then show ?thesis using pull_page_cases [OF assms] by (simp add: length_enc_page)
qed

lemma pull_page_ok:
  assumes "pull_page st p generation sess w revision budget cursor = Inr (budget', pg)"
    and "wf_pull_cursor cursor" and "budget \<le> MAX_BODY"
  shows "wf_page pg"
proof -
  have "wf_entries (pg_entries pg)"
  proof (cases "pg_status pg = Page_Ok")
    case True
    then obtain row :: domain_row and trunc complete es where
      page: "read_page st w (pc_domain cursor) (dr_head_seq row) (budget, pc_after cursor, []) = Inr (trunc, budget', complete, es)"
      and es: "sorted_new by_seq UNBOUNDED es = Inr (pg_entries pg)"
      using pull_page_cases [OF assms(1)] by blast
    note perm = sorted_new_perm [OF es]
    have "length es \<le> sum_list (map entry_size es)"
      by (induction es) (simp_all add: entry_size_def ENTRY_FIXED_def)
    then have "length es \<le> MAX_BODY" using read_page_spends [OF page] assms(3) by linarith
    then have "fits_u32 (length (pg_entries pg))"
      using perm mset_eq_length [of "pg_entries pg" es] by (simp add: fits_u32_def MAX_BODY_def)
    moreover have "list_all wf_entry (pg_entries pg)"
      using read_page_ok [OF page assms(3)] perm mset_eq_setD [of "pg_entries pg" es] by (simp add: list_all_iff)
    ultimately show ?thesis using perm by (simp add: wf_entries_def wf_sorted_def wf_list_def)
  next
    case False
    then have "pg_entries pg = []" using pull_page_cases [OF assms(1)] by blast
    then show ?thesis by (simp add: wf_entries_def wf_sorted_def wf_list_def fits_u32_def rises_strictly_def)
  qed
  then show ?thesis using pull_page_cases [OF assms(1)] assms(2) by (simp add: wf_page_def wf_pull_cursor_def)
qed

subsection \<open>The whole answer\<close>

definition body_length :: "page list \<Rightarrow> nat" where
  "body_length pages = length (encode_list enc_page pages)"

lemma pull_fold:
  assumes "try_fold (pull_step st p generation sess w revision) (budget, pages) cursors = Inr (budget', pages')"
    and "\<forall>cursor \<in> set cursors. wf_pull_cursor cursor" and "budget \<le> MAX_BODY" and "list_all wf_page pages"
  shows "sum_list (map (length \<circ> enc_page) pages') + budget'
      = sum_list (map (length \<circ> enc_page) pages) + PAGE_FIXED * length cursors + budget
    \<and> list_all wf_page pages' \<and> length pages' = length pages + length cursors"
  using assms
proof (induction cursors arbitrary: budget pages)
  case (Cons cursor cursors)
  obtain budget1 pg where step: "pull_page st p generation sess w revision budget cursor = Inr (budget1, pg)"
    and rest: "try_fold (pull_step st p generation sess w revision) (budget1, pages @ [pg]) cursors = Inr (budget', pages')"
    using Cons.prems(1) by (auto simp: pull_step_def)
  note spent = pull_page_spends [OF step]
  have "PAGE_FIXED \<le> length (enc_page pg)" by (simp add: length_enc_page)
  then have "budget1 \<le> MAX_BODY" using spent Cons.prems(3) by linarith
  moreover have "wf_page pg" using pull_page_ok [OF step] Cons.prems by simp
  ultimately show ?case using Cons.IH [OF rest] Cons.prems(2,4) spent by simp
qed simp

text \<open>
  C33. Every page of a pull's answer is a well-formed message, with its entries in strictly rising
  order of sequence, so the bytes that the server sends decode to the same pages; and the whole answer
  is at most 1 MiB, whatever the tables hold and however many cursors the pull lists.
\<close>

theorem pull_answers_decode:
  assumes "pull_round st p generation sess w cursors = Inr pages" and "\<forall>cursor \<in> set cursors. wf_pull_cursor cursor"
  shows "from_bytes (decode_list UNBOUNDED page_MIN_SIZE dec_page) (encode_list enc_page pages) = Inr pages
    \<and> length (encode_list enc_page pages) \<le> MAX_BODY \<and> length pages = length cursors"
proof -
  have few: "length cursors \<le> 256" using assms(1) by (auto simp: pull_round_def MAX_DOMAINS_def split: if_splits)
  obtain revision budget where fold: "try_fold (pull_step st p generation sess w revision)
      (MAX_BODY - 4 - PAGE_FIXED * length cursors, []) cursors = Inr (budget, pages)"
    using assms(1) by (auto simp: pull_round_def pull_snapshot_def split: if_splits option.splits)
  have room: "PAGE_FIXED * length cursors + 4 \<le> MAX_BODY" using few by (simp add: PAGE_FIXED_def MAX_BODY_def)
  note whole = pull_fold [OF fold assms(2)]
  have "sum_list (map (length \<circ> enc_page) pages) \<le> MAX_BODY - 4" "list_all wf_page pages" "length pages = length cursors"
    using whole room by simp_all
  moreover have "length (encode_list enc_page pages) = 4 + sum_list (map (length \<circ> enc_page) pages)"
    by (simp add: encode_list_def w_u32_def length_concat comp_def)
  moreover have "wf_list UNBOUNDED wf_page pages"
    using calculation few by (simp add: wf_list_def fits_u32_def UNBOUNDED_def usize_MAX_def)
  ultimately show ?thesis
    using wire.from_bytes_enc [OF wire_list [OF page.wire_axioms]] room by (simp add: page_MIN_SIZE_def)
qed

end
