(* ===== verification/Push_Pull.thy ===== *)
theory Push_Pull
  imports Push_Theorems Pull_Theorems
begin

text \<open>
  The server's log and its readers: a page of a pull holds the operations of its range, all of them and
  in order, a client at the page's cursor applies them all, and a chain read answers from the same log.
\<close>

subsection \<open>A page's operations\<close>

definition page_operations :: "wire_entry list \<Rightarrow> (u64 \<times> operation signed) list" where
  "page_operations es = concat (map (\<lambda>e. case we_record e of Entry_Operation op1 \<Rightarrow> [(we_seq e, op1)] | _ \<Rightarrow> []) es)"

lemma in_page_operations: "(s, op1) \<in> set (page_operations es) \<longleftrightarrow> \<lparr>we_seq = s, we_record = Entry_Operation op1\<rparr> \<in> set es"
proof -
  have "(s, op1) \<in> set (case we_record e of Entry_Operation op1 \<Rightarrow> [(we_seq e, op1)] | _ \<Rightarrow> [])
      \<longleftrightarrow> e = \<lparr>we_seq = s, we_record = Entry_Operation op1\<rparr>" for e
    by (cases e) (auto split: entry_record.splits)
  then show ?thesis by (auto simp: page_operations_def)
qed

lemma page_operations_rise:
  "sorted_wrt (\<lambda>x y. we_seq x < we_seq y) es \<Longrightarrow> sorted_wrt (\<lambda>x y. fst x < fst y) (page_operations es)"
proof (induction es)
  case (Cons e es)
  have "\<forall>x \<in> set (page_operations es). we_seq e < fst x"
    using Cons.prems by (force simp: in_page_operations)
  moreover have "page_operations (e # es) =
      (case we_record e of Entry_Operation op1 \<Rightarrow> [(we_seq e, op1)] | _ \<Rightarrow> []) @ page_operations es"
    by (simp add: page_operations_def)
  ultimately show ?case using Cons by (auto simp: sorted_wrt_append split: entry_record.splits)
qed (simp add: page_operations_def)

lemma by_seq_less [simp]: "by_seq x < by_seq y \<longleftrightarrow> we_seq x < we_seq y"
  unfolding by_seq_def by (rule word_bytes_less_iff) simp

lemma sorted_new_rising:
  assumes "sorted_wrt (\<lambda>x y. we_seq x < we_seq y) es"
  shows "sorted_new by_seq limit es = (if length es > limit then Inl TooLong else Inr es)"
proof -
  have "sorted_wrt (\<lambda>x y. by_seq x < by_seq y) es" using assms by simp
  then have "sort_key by_seq es = es"
    by (rule sort_key_sorted)
  moreover have "rises_strictly by_seq es" 
    using assms windows2_sorted_wrt [of "\<lambda>x y. by_seq x < by_seq y" es] by (auto simp: rises_strictly_def transp_def dest: less_trans)
  ultimately show ?thesis by (simp add: sorted_new_def)
qed

text \<open>What a read of sound rows gives: the decoded rows of the page's range, in order.\<close>

lemma read_rows_sound:
  assumes "\<forall>raw \<in> set rows. \<exists>e. entry_of_raw raw = Inr e"
  shows "\<exists>trunc r. read_rows rows (budget, complete, entries) = Inr (trunc, r)"
  using assms
proof (induction rows arbitrary: budget complete entries)
  case (Cons raw rows)
  then obtain e where "entry_of_raw raw = Inr e" by auto
  then show ?case using Cons by (auto simp: Let_def)
qed (intro exI [of _ False], simp)

lemma sound_rows:
  assumes "sound_entries st" and "store_domain st w d = Some row" and "raw \<in> set (rows_after st w d after)"
  shows "re_seq raw \<le> dr_head_seq row \<and> (\<exists>e. entry_of_raw raw = Inr e)"
proof -
  have "bt_get (st_entries st) (w, d, re_seq raw) = Some (re_type raw, re_record raw)"
    using assms(3) by (simp add: rows_after_iff)
  moreover have "head_seq_of st w d = Some (dr_head_seq row)"
    using assms(2) by (auto simp: head_seq_of_def store_domain_def domain_columns.extend_def)
  ultimately show ?thesis using assms(1) by (cases raw) (force simp: sound_entries_def)
qed

lemma list_all2_results: "list_all2 (\<lambda>x y. f x = Inr y) xs ys \<Longrightarrow> y \<in> set ys \<longleftrightarrow> (\<exists>x \<in> set xs. f x = Inr y)"
  by (induction rule: list_all2_induct) auto

text \<open>A page of status ok, on sound tables: its entries are the rows of its range.\<close>

lemma sound_page:
  assumes "sound_entries st" and "pull_page st p generation sess w revision budget cursor = Inr (budget', pg)"
    and "pg_status pg = Page_Ok"
  shows "sorted_wrt (\<lambda>x y. we_seq x < we_seq y) (pg_entries pg)"
    and "e \<in> set (pg_entries pg) \<longleftrightarrow> (\<exists>raw \<in> set (rows_after st w (pc_domain cursor) (pc_after cursor)).
      entry_of_raw raw = Inr e \<and> re_seq raw \<le> pg_complete_through pg)"
    and "pc_after cursor \<le> pg_complete_through pg"
    and "pc_after cursor \<le> pg_head pg \<Longrightarrow> pg_complete_through pg \<le> pg_head pg"
    and "\<exists>row. store_domain st w (pc_domain cursor) = Some row \<and> pg_head pg = dr_head_seq row"
proof -
  let ?rows = "rows_after st w (pc_domain cursor) (pc_after cursor)"
  obtain row :: domain_row and trunc complete es where row: "store_domain st w (pc_domain cursor) = Some row"
    and read: "read_page st w (pc_domain cursor) (dr_head_seq row) (budget, pc_after cursor, []) = Inr (trunc, budget', complete, es)"
    and new: "sorted_new by_seq UNBOUNDED es = Inr (pg_entries pg)" and head: "pg_head pg = dr_head_seq row"
    and through: "pg_complete_through pg = (if trunc then complete else max complete (dr_head_seq row))"
    using pull_page_cases [OF assms(2)] assms(3) by blast
  note sound = sound_rows [OF assms(1) row]
  have pass: "read_rows ?rows (budget, pc_after cursor, []) = Inr (trunc, budget', complete, es)"
    using read read_page_one_pass [of st w "pc_domain cursor" "pc_after cursor" "dr_head_seq row"] sound by auto
  obtain k where k: "k \<le> length ?rows" "trunc \<longleftrightarrow> k < length ?rows"
    "list_all2 (\<lambda>raw e. entry_of_raw raw = Inr e) (take k ?rows) es"
    "complete = (if k = 0 then pc_after cursor else re_seq (?rows ! (k - 1)))"
    using read_rows_prefix [OF pass] by (simp only: append_Nil) blast
  have rise: "sorted_wrt (\<lambda>x y. re_seq x < re_seq y) ?rows" by (rule rows_rise)
  have seqs: "re_seq (?rows ! i) = we_seq (es ! i)" if "i < k" for i
    using k(1,3) that by (auto simp: list_all2_conv_all_nth entry_of_raw_Inr)
  have len: "length es = k" using k(1,3) by (auto dest: list_all2_lengthD)
  have es: "sorted_wrt (\<lambda>x y. we_seq x < we_seq y) es"
    unfolding sorted_wrt_iff_nth_less
  proof (intro allI impI)
    fix i j assume "i < j" "j < length es"
    then show "we_seq (es ! i) < we_seq (es ! j)"
      using seqs [of i] seqs [of j] len k(1) sorted_wrt_nth_less [OF rise, of i j] by simp
  qed
  then have entries: "pg_entries pg = es" using new by (simp add: sorted_new_rising split: if_splits)
  show "sorted_wrt (\<lambda>x y. we_seq x < we_seq y) (pg_entries pg)" using es entries by simp
  have last: "re_seq (?rows ! i) \<le> complete \<longleftrightarrow> i < k" if "i < length ?rows" for i
  proof (cases "k = 0")
    case True
    have "?rows ! i \<in> set ?rows" using that by simp
    then have "pc_after cursor < re_seq (?rows ! i)" using rows_after_iff by blast
    then show ?thesis using True k(4) by simp
  next
    case False
    then show ?thesis
      using sorted_wrt_nth_less [OF rise, of i "k - 1"] sorted_wrt_nth_less [OF rise, of "k - 1" i] that k(1,4)
      by (cases "i < k - 1"; cases "i = k - 1") (auto simp: not_less less_imp_le)
  qed
  have range: "re_seq raw \<le> pg_complete_through pg \<longleftrightarrow> raw \<in> set (take k ?rows)" if raw: "raw \<in> set ?rows" for raw
  proof (cases trunc)
    case True
    obtain i where i: "i < length ?rows" "raw = ?rows ! i" using raw by (auto simp: in_set_conv_nth)
    have "raw \<in> set (take k ?rows) \<longleftrightarrow> i < k"
    proof
      assume "raw \<in> set (take k ?rows)"
      then obtain j where "j < k" "j < length ?rows" "?rows ! i = ?rows ! j" using i by (auto simp: in_set_conv_nth)
      then show "i < k" using last [OF i(1)] last [of j] by simp
    qed (use i k(1) in \<open>auto simp: in_set_conv_nth\<close>)
    then show ?thesis using last [OF i(1)] True through i(2) by simp
  next
    case False
    then have "k = length ?rows" using k(1,2) by simp
    then show ?thesis using False raw sound through by (auto simp: le_max_iff_disj)
  qed
  have "e \<in> set es \<longleftrightarrow> (\<exists>raw \<in> set (take k ?rows). entry_of_raw raw = Inr e)"
    using k(3) by (rule list_all2_results)
  then show "e \<in> set (pg_entries pg) \<longleftrightarrow> (\<exists>raw \<in> set ?rows. entry_of_raw raw = Inr e \<and> re_seq raw \<le> pg_complete_through pg)"
    using entries range by (auto dest: in_set_takeD)
  have above: "pc_after cursor \<le> complete"
  proof (cases "k = 0")
    case False
    then have "?rows ! (k - 1) \<in> set ?rows" using k(1) by simp
    then have "pc_after cursor < re_seq (?rows ! (k - 1))" using rows_after_iff by blast
    then show ?thesis using k(4) False by simp
  qed (use k(4) in simp)
  then show "pc_after cursor \<le> pg_complete_through pg" using through by (auto simp: le_max_iff_disj)
  show "pg_complete_through pg \<le> pg_head pg" if "pc_after cursor \<le> pg_head pg"
  proof (cases "k = 0")
    case False
    then have "?rows ! (k - 1) \<in> set ?rows" using k(1) by simp
    then have "complete \<le> dr_head_seq row" using sound k(4) False by simp
    then show ?thesis using through head by simp
  qed (use that k(4) through head in simp)
  show "\<exists>row. store_domain st w (pc_domain cursor) = Some row \<and> pg_head pg = dr_head_seq row" using row head by blast
qed

subsection \<open>Pulls of a run\<close>

lemma operation_entry:
  "entry_of_raw raw = Inr \<lparr>we_seq = s, we_record = Entry_Operation op1\<rparr> \<longleftrightarrow>
    wf_signed wf_operation op1 \<and> raw = \<lparr>re_seq = s, re_type = ENTRY_OPERATION, re_record = enc_signed enc_operation op1\<rparr>"
  by (cases raw) (auto simp: entry_of_raw_Inr ENTRY_OPERATION_def)

lemma log_operations:
  assumes "holds_log cr st log" and "good_log cr log" and "wf_signed wf_operation op1"
  shows "bt_get (st_entries st) (w, d, s) = Some (ENTRY_OPERATION, enc_signed enc_operation op1) \<longleftrightarrow>
    (\<exists>e \<in> set log. in_domain w d e \<and> lg_seq e = s \<and> lg_op e = op1)"
proof -
  have "lg_op e = op1 \<longleftrightarrow> enc_signed enc_operation op1 = enc_signed enc_operation (lg_op e)" if "e \<in> set log" for e
  proof -
    have "wf_signed wf_operation (lg_op e)" using assms(2) that by (simp add: good_log_def)
    then show ?thesis using wire.from_bytes_enc [OF signed_operation_wire] assms(3) by (metis Inr_inject)
  qed
  then show ?thesis using assms(1) by (auto simp: holds_log_def)
qed

lemma log_pairs_rise:
  assumes "good_log cr log"
  shows "sorted_wrt (\<lambda>x y. fst x < fst y) (map (\<lambda>e. (lg_seq e, lg_op e)) (filter P (filter (in_domain w d) log)))"
proof -
  have "sorted_wrt before log" using assms by (simp add: good_log_def)
  from sorted_wrt_filter [OF seqs_rise [OF this]] show ?thesis by (simp add: sorted_wrt_map)
qed

abbreviation in_range :: "ident \<Rightarrow> ident \<Rightarrow> u64 \<Rightarrow> u64 \<Rightarrow> log_entry \<Rightarrow> bool" where
  "in_range w d after through \<equiv> \<lambda>e. in_domain w d e \<and> after < lg_seq e \<and> lg_seq e \<le> through"

lemma page_of_log:
  assumes "holds_log cr st log" and "good_log cr log" and "sound_entries st"
    and "pull_page st p generation sess w revision budget cursor = Inr (budget', pg)" and "pg_status pg = Page_Ok"
  shows "page_operations (pg_entries pg) = map (\<lambda>e. (lg_seq e, lg_op e))
    (filter (in_range w (pc_domain cursor) (pc_after cursor) (pg_complete_through pg)) log)"
proof -
  let ?d = "pc_domain cursor" and ?after = "pc_after cursor" and ?through = "pg_complete_through pg"
  note page = sound_page [OF assms(3-5)]
  have filters: "filter (in_range w ?d ?after ?through) log
      = filter (\<lambda>e. ?after < lg_seq e \<and> lg_seq e \<le> ?through) (filter (in_domain w ?d) log)"
    by (simp add: conj_commute)
  have small: "lg_seq e \<le> INTEGER_MAX" if "e \<in> set log" for e
    using assms(1) that by (simp add: holds_log_def)
  have "(s, op1) \<in> set (page_operations (pg_entries pg)) \<longleftrightarrow>
      (\<exists>e \<in> set log. in_range w ?d ?after ?through e \<and> lg_seq e = s \<and> lg_op e = op1)" for s op1
  proof -
    have "(s, op1) \<in> set (page_operations (pg_entries pg)) \<longleftrightarrow> wf_signed wf_operation op1
        \<and> bt_get (st_entries st) (w, ?d, s) = Some (ENTRY_OPERATION, enc_signed enc_operation op1)
        \<and> ?after < s \<and> s \<le> INTEGER_MAX \<and> s \<le> ?through"
      by (auto simp: in_page_operations page(2) rows_after_iff operation_entry)
    moreover have "wf_signed wf_operation (lg_op e)" if "e \<in> set log" for e
      using assms(2) that by (simp add: good_log_def)
    ultimately show ?thesis
      using log_operations [OF assms(1,2), of op1 w ?d s] small by blast
  qed
  then have "set (page_operations (pg_entries pg)) = set (map (\<lambda>e. (lg_seq e, lg_op e)) (filter (in_range w ?d ?after ?through) log))"
    by auto
  then show ?thesis
    using rising_eq [where f = fst] page_operations_rise [OF page(1)] log_pairs_rise [OF assms(2)] unfolding filters by blast
qed

text \<open>
  C21. A page of a pull holds every operation of its range and no other: those that the server accepted
  in the domain with sequences above the cursor and up to \<open>complete_through\<close>, in the order of their
  acceptance, as the devices pushed them; and a page whose cursor is not beyond the head keeps the
  shape that clients check.
\<close>

theorem pulled_page_is_complete:
  assumes "server_run cr st log"
    and "pull_page st p generation sess w revision budget cursor = Inr (budget', pg)" and "pg_status pg = Page_Ok"
  shows "page_operations (pg_entries pg) = map (\<lambda>e. (lg_seq e, lg_op e))
      (filter (\<lambda>e. lg_workspace e = w \<and> lg_domain e = pc_domain cursor
        \<and> pc_after cursor < lg_seq e \<and> lg_seq e \<le> pg_complete_through pg) log)
    \<and> (pc_after cursor \<le> pg_head pg \<longrightarrow> check_shape pg = Inr ())"
proof -
  have run: "holds_log cr st log" "good_log cr log" "sound_entries st" using run_log [OF assms(1)] by blast+
  note page = sound_page [OF run(3) assms(2,3)]
  have "we_seq e \<le> pg_complete_through pg \<and> pc_after cursor < we_seq e" if "e \<in> set (pg_entries pg)" for e
    using that by (auto simp: page(2) rows_after_iff entry_of_raw_Inr)
  moreover have "pg_after pg = pc_after cursor" using pull_page_cases [OF assms(2)] by blast
  ultimately have "check_shape pg = Inr ()" if "pc_after cursor \<le> pg_head pg"
    using page(3) page(4) [OF that] assms(3) by (auto simp: check_shape_def list_ex_iff not_le not_less)
  then show ?thesis using page_of_log [OF run assms(2,3)] by (simp add: in_domain_def conj_assoc)
qed

subsection \<open>A client that pulls\<close>

lemma extends_append: "extends h (xs @ ys) \<longleftrightarrow> extends h xs \<and> extends (heads_after h xs) ys"
  by (induction xs arbitrary: h) (auto simp: heads_after_def)

lemma heads_after_append: "heads_after h (xs @ ys) = heads_after (heads_after h xs) ys"
  by (simp add: heads_after_def)

lemma honest_heads:
  assumes "ignores_none v" and "extends (heads_of v) page"
  shows "\<exists>v'. process_from fetch carried i page v f = (Inr (replicate (length page) Chain_Accept), v', f)
    \<and> ignores_none v' \<and> heads_of v' = heads_after (heads_of v) page"
  using assms
proof (induction page arbitrary: v i)
  case (Cons r page)
  have "hd_counter (device_head v (cr_device r)) < cr_counter r" "cr_previous r = hd_digest (device_head v (cr_device r))"
    using Cons.prems(2) by (simp_all add: heads_of_def)
  then have step: "process fetch carried r v f = (Inr Chain_Accept, accept_record r v, f)"
    using Cons.prems(1) by (subst process.simps) (auto simp: ignores_none_def not_le [symmetric])
  have "ignores_none (accept_record r v)" using Cons.prems(1) by (simp add: ignores_none_def)
  moreover have "extends (heads_of (accept_record r v)) page" using Cons.prems(2) by (simp add: heads_of_accept)
  ultimately obtain v' where "process_from fetch carried (Suc i) page (accept_record r v) f =
      (Inr (replicate (length page) Chain_Accept), v', f)" "ignores_none v'"
    "heads_of v' = heads_after (heads_of (accept_record r v)) page"
    using Cons.IH by blast
  then show ?case using step by (simp add: heads_of_accept heads_after_def)
qed (simp add: heads_after_def)

text \<open>A client's verifier after the log's operations up to a cursor.\<close>

definition client_at :: "crypto \<Rightarrow> chain_verifier \<Rightarrow> log_entry list \<Rightarrow> ident \<Rightarrow> ident \<Rightarrow> u64 \<Rightarrow> bool" where
  "client_at cr v log w d reached \<longleftrightarrow> ignores_none v \<and> heads_of v =
     heads_after (\<lambda>_. (0, ZERO_digest)) (map (entry_record cr) (filter (\<lambda>e. in_domain w d e \<and> lg_seq e \<le> reached) log))"

lemma log_upto:
  assumes "good_log cr log" and "after \<le> through"
  shows "filter (\<lambda>e. in_domain w d e \<and> lg_seq e \<le> through) log
    = filter (\<lambda>e. in_domain w d e \<and> lg_seq e \<le> after) log @ filter (in_range w d after through) log"
proof -
  have mine: "sorted_wrt (\<lambda>e e'. lg_seq e < lg_seq e') (filter (in_domain w d) log)"
    using assms(1) seqs_rise by (simp add: good_log_def)
  have "sorted_wrt (\<lambda>e e'. lg_seq e < lg_seq e') (filter P (filter (in_domain w d) log))" for P
    using mine by (rule sorted_wrt_filter)
  then have rise: "sorted_wrt (\<lambda>e e'. lg_seq e < lg_seq e') (filter (\<lambda>e. in_domain w d e \<and> P e) log)" for P
    by (simp add: conj_commute)
  show ?thesis
  proof (rule rising_eq [where f = lg_seq])
    show "sorted_wrt (\<lambda>e e'. lg_seq e < lg_seq e')
        (filter (\<lambda>e. in_domain w d e \<and> lg_seq e \<le> after) log @ filter (in_range w d after through) log)"
      using rise by (auto simp: sorted_wrt_append intro: le_less_trans)
    show "set (filter (\<lambda>e. in_domain w d e \<and> lg_seq e \<le> through) log)
        = set (filter (\<lambda>e. in_domain w d e \<and> lg_seq e \<le> after) log @ filter (in_range w d after through) log)"
      using assms(2) by (auto simp: not_le intro: order_trans)
  qed (rule rise)
qed

text \<open>
  C7. A client that pulls from its cursor applies every page whole: on a server in any state that a run
  reaches, a verifier that has applied the domain's operations up to the cursor accepts every operation
  of the page, in order and without a single fetch, and has then applied those up to the page's
  \<open>complete_through\<close>, the next cursor.
\<close>

theorem pulled_page_applies:
  assumes "server_run cr st log"
    and "pull_page st p generation sess w revision budget cursor = Inr (budget', pg)" and "pg_status pg = Page_Ok"
    and "client_at cr v log w (pc_domain cursor) (pc_after cursor)"
  shows "\<exists>v'. process_page (map (\<lambda>(s, op1). chain_record_of cr op1 s) (page_operations (pg_entries pg))) fetch v f
      = (Inr (replicate (length (page_operations (pg_entries pg))) Chain_Accept), v', f)
    \<and> client_at cr v' log w (pc_domain cursor) (pg_complete_through pg)"
proof -
  let ?d = "pc_domain cursor" and ?through = "pg_complete_through pg"
  let ?new = "filter (in_range w ?d (pc_after cursor) ?through) log"
  have run: "holds_log cr st log" "good_log cr log" "sound_entries st" using run_log [OF assms(1)] by blast+
  note page = sound_page [OF run(3) assms(2,3)]
  have records: "map (\<lambda>(s, op1). chain_record_of cr op1 s) (page_operations (pg_entries pg)) = map (entry_record cr) ?new"
    unfolding page_of_log [OF run assms(2,3)] by (simp add: entry_record_def comp_def)
  note upto = log_upto [OF run(2) page(3), of w ?d]
  have "extends (\<lambda>_. (0, ZERO_digest)) (map (entry_record cr) (filter (in_domain w ?d) log))"
    using run(2) by (simp add: good_log_def)
  moreover have "filter (in_domain w ?d) log = filter (\<lambda>e. in_domain w ?d e \<and> lg_seq e \<le> ?through) log
      @ filter (in_range w ?d ?through (- 1)) log"
    using log_upto [OF run(2), of ?through "- 1" w ?d] by simp
  ultimately have "extends (heads_of v) (map (entry_record cr) ?new)"
    using assms(4) by (simp add: upto extends_append client_at_def)
  moreover have "ignores_none v" using assms(4) by (simp add: client_at_def)
  ultimately obtain v' where
    "process_page (map (entry_record cr) ?new) fetch v f = (Inr (replicate (length ?new) Chain_Accept), v', f)"
    "ignores_none v'" "heads_of v' = heads_after (heads_of v) (map (entry_record cr) ?new)"
    using honest_heads [of v "map (entry_record cr) ?new" fetch "carried_of (map (entry_record cr) ?new)" 0 f]
    by (auto simp: process_page_def)
  moreover have "length (page_operations (pg_entries pg)) = length ?new"
    unfolding page_of_log [OF run assms(2,3)] by simp
  ultimately show ?thesis
    using assms(4) unfolding records by (auto simp: client_at_def upto heads_after_append)
qed

end
