(* ===== verification/Push_Reads.thy ===== *)
theory Push_Reads
  imports Push_Pull
begin

text \<open>
  Reads of a device's chain, and that a pull of a run's server always answers and moves the cursor on.
\<close>

subsection \<open>A device's rows\<close>

abbreviation of_device :: "ident \<Rightarrow> ident \<Rightarrow> ident \<Rightarrow> log_entry \<Rightarrow> bool" where
  "of_device w d device \<equiv> \<lambda>e. in_domain w d e \<and> lg_device e = device"

abbreviation lg_counter :: "log_entry \<Rightarrow> u64" where "lg_counter e \<equiv> op_counter (body (lg_op e))"

lemma counters_rise:
  assumes "good_log cr log"
  shows "sorted_wrt (\<lambda>e e'. lg_counter e < lg_counter e') (filter (of_device w d device) log)"
proof (rule sorted_wrt_mono_rel [rotated])
  show "sorted_wrt before (filter (of_device w d device) log)" using assms by (auto simp: good_log_def intro: sorted_wrt_filter)
qed (auto simp: before_def in_domain_def)

lemma device_rows_log:
  assumes "holds_log cr st log" and "good_log cr log"
  shows "device_rows st w d device = map (entry_row cr) (filter (of_device w d device) log)"
proof -
  have rows: "st_operations st = map (entry_row cr) log" using assms(1) by (simp add: holds_log_def)
  have "filter (\<lambda>r. or_workspace r = w \<and> or_domain r = d \<and> or_device r = device) (st_operations st)
      = map (entry_row cr) (filter (of_device w d device) log)"
    by (simp add: rows filter_map comp_def in_domain_def conj_assoc)
  moreover have "sorted_wrt (\<lambda>r r'. or_counter r < or_counter r') (map (entry_row cr) (filter (of_device w d device) log))"
    using counters_rise [OF assms(2), of w d device] by (simp add: sorted_wrt_map)
  ultimately show ?thesis by (simp add: device_rows_def sort_key_sorted)
qed

lemma entry_of_log:
  assumes "holds_log cr st log" and "e \<in> set log"
  shows "bt_get (st_entries st) (lg_workspace e, lg_domain e, lg_seq e) = Some (ENTRY_OPERATION, enc_signed enc_operation (lg_op e))"
  using assms unfolding holds_log_def in_domain_def by blast

lemma last_opt_in: "last_opt xs = Some x \<Longrightarrow> x \<in> set xs"
  by (auto simp: last_opt_def split: if_splits)

lemma find_filter: "find P (filter Q xs) = find (\<lambda>x. Q x \<and> P x) xs"
  by (induction xs) auto

lemma find_map: "find P (map f xs) = map_option f (find (P \<circ> f) xs)"
  by (induction xs) auto

lemma find_cong1: "(\<And>x. x \<in> set xs \<Longrightarrow> P x = Q x) \<Longrightarrow> find P xs = find Q xs"
  by (induction xs) auto

lemma position_above_log:
  assumes "holds_log cr st log" and "good_log cr log"
  shows "position_at_or_above st w d device counter = map_option
      (\<lambda>e. \<lparr>re_seq = lg_seq e, re_type = ENTRY_OPERATION, re_record = enc_signed enc_operation (lg_op e)\<rparr>)
      (find (\<lambda>e. of_device w d device e \<and> counter \<le> lg_counter e) log)"
proof -
  let ?mine = "filter (of_device w d device) log"
  have entry: "bt_get (st_entries st) (w, d, lg_seq e) = Some (ENTRY_OPERATION, enc_signed enc_operation (lg_op e))"
    if "e \<in> set ?mine" for e
    using that entry_of_log [OF assms(1)] by (auto simp: in_domain_def)
  have "find (\<lambda>r. or_counter r \<ge> counter \<and> bt_contains (st_entries st) (w, d, or_seq r)) (device_rows st w d device)
      = map_option (entry_row cr) (find (\<lambda>e. counter \<le> lg_counter e) ?mine)"
    unfolding device_rows_log [OF assms] find_map
    by (intro arg_cong [where f = "map_option (entry_row cr)"] find_cong1) (use entry in \<open>auto simp: domIff\<close>)
  moreover have "e \<in> set ?mine" if "find (\<lambda>e. counter \<le> lg_counter e) ?mine = Some e" for e
    using that nth_mem unfolding find_Some_iff by blast
  ultimately show ?thesis
    using entry unfolding position_at_or_above_def find_filter [symmetric]
    by (cases "find (\<lambda>e. counter \<le> lg_counter e) ?mine") auto
qed

lemma find_below_sorted:
  assumes "sorted_wrt (\<lambda>x y. f x < (f y :: 'b::linorder)) xs"
  shows "find (\<lambda>x. f x < c) (rev xs) = last_opt (filter (\<lambda>x. f x < c) xs)"
  using assms
proof (induction xs rule: rev_induct)
  case (snoc x xs)
  then show ?case by (auto simp: sorted_wrt_append)
qed simp

lemma position_below_log:
  assumes "holds_log cr st log" and "good_log cr log"
  shows "position_below st w d device counter = map_option (\<lambda>e. (lg_seq e, signed_operation_digest cr (lg_op e)))
    (last_opt (filter (\<lambda>e. of_device w d device e \<and> lg_counter e < counter) log))"
proof -
  have "find (\<lambda>r. or_counter r < counter) (rev (device_rows st w d device))
      = map_option (entry_row cr) (find (\<lambda>e. lg_counter e < counter) (rev (filter (of_device w d device) log)))"
    unfolding device_rows_log [OF assms] rev_map find_map by (simp add: comp_def)
  also have "\<dots> = map_option (entry_row cr) (last_opt (filter (\<lambda>e. lg_counter e < counter) (filter (of_device w d device) log)))"
    using find_below_sorted [OF counters_rise [OF assms(2)]] by simp
  finally show ?thesis
    by (simp add: position_below_def option.map_comp comp_def conj_commute)
qed

text \<open>Each entry names the digest of the device's entry before it.\<close>

lemma previous_entry:
  assumes "good_log cr log" and "find (\<lambda>e. of_device w d device e \<and> counter \<le> lg_counter e) log = Some e"
  shows "op_previous (body (lg_op e)) = (case last_opt (filter (\<lambda>e. of_device w d device e \<and> lg_counter e < counter) log) of
    None \<Rightarrow> ZERO_digest | Some e' \<Rightarrow> signed_operation_digest cr (lg_op e'))"
proof -
  obtain i where i: "i < length log" "e = log ! i" "of_device w d device e" "counter \<le> lg_counter e"
    "\<forall>j < i. \<not> (of_device w d device (log ! j) \<and> counter \<le> lg_counter (log ! j))"
    using assms(2) unfolding find_Some_iff by blast
  let ?before = "take i log"
  have log: "log = ?before @ e # drop (Suc i) log" using i(1,2) id_take_nth_drop by blast
  have order: "sorted_wrt before (?before @ e # drop (Suc i) log)" using assms(1) log by (simp add: good_log_def)
  have later: "\<not> lg_counter x < counter" if "x \<in> set (drop (Suc i) log)" "of_device w d device x" for x
    using order that i(3,4) by (auto simp: sorted_wrt_append before_def in_domain_def not_less intro: order_trans less_imp_le)
  have earlier: "lg_counter x < counter" if "x \<in> set ?before" "of_device w d device x" for x
    using i(5) that by (auto simp: in_set_conv_nth not_le)
  have "filter (\<lambda>e. of_device w d device e \<and> lg_counter e < counter) log
      = filter (\<lambda>e. of_device w d device e \<and> lg_counter e < counter) ?before
        @ filter (\<lambda>e. of_device w d device e \<and> lg_counter e < counter) (e # drop (Suc i) log)"
    by (subst log) simp
  also have "filter (\<lambda>e. of_device w d device e \<and> lg_counter e < counter) (e # drop (Suc i) log) = []"
    using later i(4) by (auto simp: filter_empty_conv not_less)
  also have "filter (\<lambda>e. of_device w d device e \<and> lg_counter e < counter) ?before = filter (of_device w d device) ?before"
    using earlier by (intro filter_cong) auto
  finally have below: "filter (\<lambda>e. of_device w d device e \<and> lg_counter e < counter) log = filter (of_device w d device) ?before"
    by simp
  have mine: "filter (in_domain w d) log = filter (in_domain w d) ?before @ e # filter (in_domain w d) (drop (Suc i) log)"
    using i(3) by (subst log) simp
  have "extends (\<lambda>_. (0, ZERO_digest)) (map (entry_record cr) (filter (in_domain w d) log))"
    using assms(1) by (simp add: good_log_def)
  then have "op_previous (body (lg_op e))
      = snd (heads_after (\<lambda>_. (0, ZERO_digest)) (map (entry_record cr) (filter (in_domain w d) ?before)) device)"
    using i(3) unfolding mine by (simp add: extends_append) (simp add: entry_record_def chain_record_of_def)
  moreover have "filter (\<lambda>r. cr_device r = device) (map (entry_record cr) (filter (in_domain w d) ?before))
      = map (entry_record cr) (filter (of_device w d device) ?before)"
    by (simp add: filter_map comp_def entry_record_def chain_record_of_def conj_commute)
  ultimately show ?thesis
    unfolding below heads_after_last
    by (cases "last_opt (filter (of_device w d device) ?before)") (simp_all add: entry_record_def chain_record_of_def)
qed

subsection \<open>Chain reads\<close>

text \<open>
  C31. A chain read answers from the log: the device's first operation at or above the counter, exactly
  as it was pushed, unless it is another device's and lies below the reader's history floor; and when
  the device has none there, that it was not found. A server that pruned nothing never answers
  \<open>pruned\<close>, however the device skipped counters.
\<close>

theorem chain_read_answers:
  assumes "server_run cr st log" and "authorize_domain st p sess w d = Inr ()"
  shows "chain_read st p sess w d device counter =
    (case find (\<lambda>e. lg_workspace e = w \<and> lg_domain e = d \<and> lg_device e = device \<and> counter \<le> op_counter (body (lg_op e))) log of
       None \<Rightarrow> Inl (refuse ''not_found'')
     | Some e \<Rightarrow> if device \<noteq> ss_device sess \<and> lg_seq e \<le> history_floor st w (ss_account sess) d
         then Inl (refuse ''before_history_floor'')
         else Inr \<lparr>we_seq = lg_seq e, we_record = Entry_Operation (lg_op e)\<rparr>)"
proof -
  have run: "holds_log cr st log" "good_log cr log" using run_log [OF assms(1)] by blast+
  let ?first = "find (\<lambda>e. of_device w d device e \<and> counter \<le> lg_counter e) log"
  note above = position_above_log [OF run, of w d device counter]
  note below = position_below_log [OF run, of w d device counter]
  have "chain_read st p sess w d device counter = (case ?first of
       None \<Rightarrow> Inl (refuse ''not_found'')
     | Some e \<Rightarrow> if device \<noteq> ss_device sess \<and> lg_seq e \<le> history_floor st w (ss_account sess) d
         then Inl (refuse ''before_history_floor'')
         else Inr \<lparr>we_seq = lg_seq e, we_record = Entry_Operation (lg_op e)\<rparr>)"
  proof (cases ?first)
    case None
    have "\<not> counter \<le> chr_counter h" if h: "chain_head_at st w d device = Some h" for h
    proof -
      have "map_option (entry_head cr) (last_opt (filter (of_device w d device) log)) = Some h"
        using run(1) h unfolding holds_log_def by metis
      then obtain l where l: "last_opt (filter (of_device w d device) log) = Some l" "h = entry_head cr l"
        by auto
      then have "l \<in> set (filter (of_device w d device) log)"
        by (intro last_opt_in)
      then show ?thesis using None l(2) by (auto simp: find_None_iff entry_head_def)
    qed
    then show ?thesis
      using None assms(2) above by (auto simp: chain_read_def split: option.split)
  next
    case (Some e)
    then have "e \<in> set log" using nth_mem unfolding find_Some_iff by blast
    then have wf: "wf_signed wf_operation (lg_op e)" using run(2) by (simp add: good_log_def)
    let ?raw = "\<lparr>re_seq = lg_seq e, re_type = ENTRY_OPERATION, re_record = enc_signed enc_operation (lg_op e)\<rparr>"
    have raw: "entry_of_raw ?raw = Inr \<lparr>we_seq = lg_seq e, we_record = Entry_Operation (lg_op e)\<rparr>"
      using wf by (simp add: operation_entry)
    have "op_previous (body (lg_op e)) = (case position_below st w d device counter of None \<Rightarrow> ZERO_digest | Some (_, x) \<Rightarrow> x)"
      unfolding previous_entry [OF run(2) Some] below by (auto split: option.split)
    then show ?thesis
      using Some assms(2) above raw by (simp add: chain_read_def)
  qed
  moreover have "?first = find (\<lambda>e. lg_workspace e = w \<and> lg_domain e = d \<and> lg_device e = device \<and> counter \<le> lg_counter e) log"
    by (rule find_cong1) (simp add: in_domain_def)
  ultimately show ?thesis by simp
qed

subsection \<open>Progress\<close>

text \<open>A pass that stops early stops at a row that the budget has no room for.\<close>

lemma read_rows_stop:
  assumes "read_rows rows (budget, complete, []) = Inr (trunc, budget', complete', es)"
  shows "trunc \<longrightarrow> budget' < ENTRY_FIXED + length (re_record (rows ! length es))"
proof -
  have "trunc \<longrightarrow> length entries \<le> length es \<and> budget' < ENTRY_FIXED + length (re_record (rows ! (length es - length entries)))"
    if "read_rows rows (budget, complete, entries) = Inr (trunc, budget', complete', es)" for entries
    using that
  proof (induction rows "(budget, complete, entries)" arbitrary: budget complete entries rule: read_rows.induct)
    case (2 raw rows budget complete entries)
    show ?case
    proof (cases "ENTRY_FIXED + length (re_record raw) > budget")
      case False
      then obtain e where "read_rows rows (budget - (ENTRY_FIXED + length (re_record raw)), re_seq raw, entries @ [e])
          = Inr (trunc, budget', complete', es)"
        using "2.prems" by (auto simp: Let_def)
      from "2.hyps" [OF refl _ this] show ?thesis using False by (auto simp: nth_Cons' Suc_diff_le)
    qed (use "2.prems" in auto)
  qed simp
  from this [OF assms] show ?thesis by simp
qed

text \<open>
  C32. On a server in any state that a run reaches, a reader at or above the floors gets its page: the
  pull never fails, and the page reaches the domain's head unless the budget has no room for the next
  entry, so a budget with room for one entry moves a cursor below the head's entries on.
\<close>

theorem pull_makes_progress:
  assumes "server_run cr st log" and "budget \<le> MAX_BODY" and "store_domain st w d = Some row"
    and "can_read (head_snapshot p) (ss_device sess) d" and "is_device (head_snapshot p) (ss_device sess)"
    and "bt_contains (sn_domains (head_snapshot p)) d"
    and "history_floor st w (ss_account sess) d \<le> after" and "dr_retention_floor row \<le> after"
  shows "\<exists>budget' pg. pull_page st p generation sess w revision budget \<lparr>pc_domain = d, pc_after = after\<rparr> = Inr (budget', pg)
    \<and> pg_status pg = Page_Ok
    \<and> (pg_complete_through pg = max after (dr_head_seq row)
       \<or> (\<exists>raw :: raw_entry. bt_get (st_entries st) (w, d, re_seq raw) = Some (re_type raw, re_record raw)
           \<and> pg_complete_through pg < re_seq raw \<and> budget' < ENTRY_FIXED + length (re_record raw)))"
proof -
  let ?rows = "rows_after st w d after" and ?cursor = "\<lparr>pc_domain = d, pc_after = after\<rparr>"
  have sound: "sound_entries st" using run_log [OF assms(1)] by blast
  note rows = sound_rows [OF sound assms(3)]
  have pass: "read_page st w d (dr_head_seq row) (budget, after, []) = read_rows ?rows (budget, after, [])"
    by (rule read_page_one_pass) (use rows in blast)
  obtain trunc budget' complete es where read: "read_rows ?rows (budget, after, []) = Inr (trunc, budget', complete, es)"
    using read_rows_sound [of ?rows budget after "[]"] rows by (metis prod_cases3)
  obtain k where k: "k \<le> length ?rows" "trunc \<longleftrightarrow> k < length ?rows"
    "list_all2 (\<lambda>raw e. entry_of_raw raw = Inr e) (take k ?rows) es" "length es * ENTRY_FIXED \<le> budget"
    "complete = (if k = 0 then after else re_seq (?rows ! (k - 1)))"
    using read_rows_prefix [OF read] by (simp only: append_Nil) blast
  have len: "length es = k" using k(1,3) by (auto dest: list_all2_lengthD)
  have seqs: "re_seq (?rows ! i) = we_seq (es ! i)" if "i < k" for i
    using k(1,3) that by (auto simp: list_all2_conv_all_nth entry_of_raw_Inr)
  have "sorted_wrt (\<lambda>x y. we_seq x < we_seq y) es"
    unfolding sorted_wrt_iff_nth_less
  proof (intro allI impI)
    fix i j assume "i < j" "j < length es"
    then show "we_seq (es ! i) < we_seq (es ! j)"
      using seqs [of i] seqs [of j] len k(1) sorted_wrt_nth_less [OF rows_rise, of i j st w d after] by auto
  qed
  moreover have "length es \<le> UNBOUNDED" using k(4) assms(2) by (simp add: ENTRY_FIXED_def MAX_BODY_def UNBOUNDED_def usize_MAX_def)
  ultimately have new: "sorted_new by_seq UNBOUNDED es = Inr es" by (simp add: sorted_new_rising)
  define pg where "pg = (empty_page ?cursor generation revision Page_Ok)\<lparr>
      pg_complete_through := (if trunc then complete else max complete (dr_head_seq row)),
      pg_head := dr_head_seq row, pg_retention_floor := dr_retention_floor row,
      pg_checkpoint_seq := dr_checkpoint_seq row, pg_checkpoint_due := dr_checkpoint_due row, pg_entries := es\<rparr>"
  have "pull_page st p generation sess w revision budget ?cursor = Inr (budget', pg)"
    using assms(3-8) read pass new by (simp add: pull_page_def Let_def pg_def not_less [symmetric])
  moreover have "pg_status pg = Page_Ok" by (simp add: pg_def empty_page_def)
  moreover have "pg_complete_through pg = max after (dr_head_seq row)
      \<or> (\<exists>raw :: raw_entry. bt_get (st_entries st) (w, d, re_seq raw) = Some (re_type raw, re_record raw)
           \<and> pg_complete_through pg < re_seq raw \<and> budget' < ENTRY_FIXED + length (re_record raw))"
  proof (cases trunc)
    case False
    have "?rows ! (k - 1) \<in> set ?rows" if "k \<noteq> 0" using that k(1) by simp
    then have "k \<noteq> 0 \<Longrightarrow> re_seq (?rows ! (k - 1)) \<le> dr_head_seq row \<and> after < re_seq (?rows ! (k - 1))"
      using rows rows_after_iff by blast
    then show ?thesis using False k(5) by (auto simp: pg_def max_def not_le)
  next
    case True
    then have "k < length ?rows" using k(2) by simp
    then have raw: "?rows ! k \<in> set ?rows" by simp
    have "complete < re_seq (?rows ! k)"
      using sorted_wrt_nth_less [OF rows_rise, of "k - 1" k] \<open>k < length ?rows\<close> k(5) raw rows_after_iff by (cases "k = 0") auto
    moreover have "budget' < ENTRY_FIXED + length (re_record (?rows ! k))"
      using read_rows_stop [OF read] True len by simp
    moreover have "bt_get (st_entries st) (w, d, re_seq (?rows ! k)) = Some (re_type (?rows ! k), re_record (?rows ! k))"
      using raw rows_after_iff by blast
    ultimately show ?thesis using True by (intro disjI2 exI [of _ "?rows ! k"]) (simp add: pg_def)
  qed
  ultimately show ?thesis by blast
qed

end
