(* ===== verification/Push_Examples.thy ===== *)
theory Push_Examples
  imports Push_Reads Log_Examples
begin

declare One_nat_def [simp del]

text \<open>
  A small server: the demo workspace with its first domain, on which device 1 pushes a delete, which is
  pulled, read and pushed again.
\<close>

definition demo_push :: pushed_op where
  "demo_push = (let op1 = (demo_op 1)\<lparr>body := (body (demo_op 1))\<lparr>op_policy_head := demo_digest 21\<rparr>\<rparr>
     in \<lparr>po_index = 0, po_op = op1, po_digest = demo_digest 71, po_bytes = enc_signed enc_operation op1\<rparr>)"

definition demo_columns :: domain_columns where
  "demo_columns = \<lparr>dr_head_seq = 0, dr_epoch = 1, dr_epoch_digest = demo_digest 31, dr_epoch_policy_revision = 1,
     dr_retention_floor = 0, dr_checkpoint_seq = 0, dr_checkpoint_due = 1, dr_entries_since_checkpoint = 0,
     dr_weight_since_checkpoint = 0, dr_deleted = False, dr_log_weight = 0, dr_usage_bytes = 0, dr_history_bytes = 0,
     dr_pruned_floor = 0, dr_crossing_seen = 0\<rparr>"

definition demo_store :: store where
  "demo_store = \<lparr>st_workspaces = bt_insert (Ident 40) \<lparr>wsr_policy_revision = 1, wsr_policy_head = demo_digest 21,
       wsr_closed = False, wsr_quota_pressure = False, wsr_quota_crossings = 0\<rparr> bt_empty,
     st_domains = bt_insert (Ident 40, Ident 50) demo_columns bt_empty, st_entries = bt_empty, st_operations = [],
     st_covers = [], st_rids = bt_empty, st_chain_heads = bt_empty, st_checkpoints = [], st_blobs = bt_empty,
     st_blob_listings = [], st_history_floors = bt_empty, st_epochs = bt_empty\<rparr>"

definition demo_session :: session where
  "demo_session = new_session (Ident 99) (Ident 1)"

abbreviation demo_apply :: "store \<Rightarrow> store_error + receipt \<times> store" where
  "demo_apply \<equiv> apply_operation epoch_crypto (demo_policy 1) default_interval None 0 (Ident 40) demo_push"

definition demo_after :: store where
  "demo_after = (case demo_apply demo_store of Inl _ \<Rightarrow> demo_store | Inr (_, st) \<Rightarrow> st)"

definition demo_receipt :: receipt where
  "demo_receipt = \<lparr>rc_record_digest = demo_digest 71, rc_domain = Ident 50, rc_seq = 1\<rparr>"

lemma demo_push_fields [simp]: "po_digest demo_push = demo_digest 71" "op_domain (body (po_op demo_push)) = Ident 50"
  "op_device (body (po_op demo_push)) = Ident 1" "op_counter (body (po_op demo_push)) = 1"
  "op_policy_revision (body (po_op demo_push)) = 1" "op_policy_head (body (po_op demo_push)) = demo_digest 21"
  "op_epoch (body (po_op demo_push)) = 1" "op_generation (body (po_op demo_push)) = 0"
  "op_checkpoint_seq (body (po_op demo_push)) = 0" "op_checkpoint (body (po_op demo_push)) = ZERO_digest"
  "op_previous (body (po_op demo_push)) = ZERO_digest" "op_rid (body (po_op demo_push)) = Ident 60"
  "op_supersedes (body (po_op demo_push)) = []" "op_blobs (body (po_op demo_push)) = []"
  "op_delete (body (po_op demo_push))" "op_ciphertext (body (po_op demo_push)) = []"
  by (simp_all add: demo_push_def demo_op_def Let_def)

lemma demo_push_digest: "signed_operation_digest epoch_crypto (po_op demo_push) = demo_digest 71"
proof -
  have "signed_operation_digest demo_crypto (po_op demo_push) = demo_digest 71"
    unfolding demo_push_def demo_op_def using demo_sig_digest [of 71] by (simp add: Let_def)
  then show ?thesis by (simp add: signed_digest_def hash_def epoch_crypto_def)
qed

lemma demo_head1: "head_snapshot (demo_policy 1) = demo_snapshot 1" "policy_head (demo_policy 1) = (1, demo_digest 21)"
  "snapshot_at (demo_policy 1) 1 = Some (demo_snapshot 1)"
  by (simp_all add: demo_policy_def head_snapshot_def policy_head_def snapshot_at_def demo_snapshot_def)

lemma demo_active1: "is_device (demo_snapshot 1) (Ident 1)" "can_write (demo_snapshot 1) (Ident 1) (Ident 50)"
  "can_read (demo_snapshot 1) (Ident 1) (Ident 50)" "bt_contains (sn_domains (demo_snapshot 1)) (Ident 50)"
  "sn_digest (demo_snapshot 1) = demo_digest 21"
  by (simp_all add: demo_snapshot_def is_device_def can_write_def signs_def demo_domain_simps)

lemma demo_domain_row: "store_domain demo_store (Ident 40) (Ident 50) =
    Some (domain_columns.extend demo_columns (domain_row.fields 0))"
  by (simp add: store_domain_def demo_store_def)

abbreviation demo_row :: domain_row where
  "demo_row \<equiv> domain_columns.extend demo_columns (domain_row.fields 0)"

lemma demo_row_fields [simp]: "dr_head_seq demo_row = 0" "dr_epoch demo_row = 1" "dr_epoch_policy_revision demo_row = 1"
  "dr_retention_floor demo_row = 0" "dr_checkpoint_due demo_row = 1" "dr_crossing_seen demo_row = 0"
  "dr_quota_crossings demo_row = 0" "dr_entries_since_checkpoint demo_row = 0"
  by (simp_all add: demo_columns_def domain_columns.extend_def domain_row.fields_def)

lemma demo_state0: "chain_head_at demo_store w d device = None" "rid_domain demo_store w rid = None"
  by (simp_all add: chain_head_at_def rid_domain_def demo_store_def)

lemma demo_check_access: "check_access (demo_policy 1) (body (po_op demo_push)) demo_row None = Inr ()"
proof -
  have "rotation_required (demo_policy 1) (Ident 50) 1 1 = None" by (simp add: rotation_required_def)
  then show ?thesis using demo_head1 demo_active1 by (simp add: check_access_def)
qed

lemma demo_check_position: "check_position demo_store (Ident 40) 0 (body (po_op demo_push)) demo_row None = Inr ()"
  by (simp add: check_position_def digest_is_zero_def ZERO_digest_def)

lemma demo_push_judged: "judge_live (live_op_of epoch_crypto (po_op demo_push) n) False False False [] = Inr Class_State"
  by (simp add: judge_live_def live_op_of_def class_of_def Let_def MAX_LIVE_PATCHES_def MAX_LIVE_STATES_def)

lemma demo_written:
  assumes "ow_op x = live_op_of epoch_crypto (po_op demo_push) 1" and "ow_new_rid x" and "cpr_due (ow_progress x) = 1"
    and "ow_chain_head x = \<lparr>chr_counter = 1, chr_digest = demo_digest 71, chr_seq = 1, chr_policy_revision = 1, chr_generation = 0\<rparr>"
  shows "\<exists>st c. write_operation (Ident 40) (Ident 50) x demo_store = Inr st \<and> st_workspaces st = st_workspaces demo_store
    \<and> st_entries st = bt_insert (Ident 40, Ident 50, 1) (ENTRY_OPERATION, ow_record x) bt_empty
    \<and> st_history_floors st = bt_empty \<and> bt_get (st_domains st) (Ident 40, Ident 50) = Some c
    \<and> dr_head_seq c = 1 \<and> dr_retention_floor c = 0"
proof -
  have "append_entry (Ident 40) (Ident 50) ENTRY_OPERATION (ow_record x) demo_store
      = Inr (1, demo_store\<lparr>st_domains := bt_insert (Ident 40, Ident 50) (demo_columns\<lparr>dr_head_seq := 1\<rparr>) (st_domains demo_store),
          st_entries := bt_insert (Ident 40, Ident 50, 1) (ENTRY_OPERATION, ow_record x) bt_empty\<rparr>)"
    by (simp add: append_entry_def demo_store_def demo_columns_def INTEGER_MAX_def domIff)
  then show ?thesis
    using assms
    by (simp add: write_operation_def live_op_of_def insert_rid_def insert_operation_def int_column_def INTEGER_MAX_def
        set_checkpoint_progress_def set_chain_head_def) (simp add: demo_store_def add_usage_def Let_def demo_columns_def domIff)
qed

lemma demo_applied:
  "demo_apply demo_store = Inr (demo_receipt, demo_after)"
  "st_workspaces demo_after = st_workspaces demo_store" "st_history_floors demo_after = bt_empty"
  "st_entries demo_after = bt_insert (Ident 40, Ident 50, 1) (ENTRY_OPERATION, po_bytes demo_push) bt_empty"
  "\<exists>c. bt_get (st_domains demo_after) (Ident 40, Ident 50) = Some c \<and> dr_head_seq c = 1 \<and> dr_retention_floor c = 0"
proof -
  have progress1: "cpr_due (progress demo_row default_interval 1 weight False) = 1" for weight
    by (simp add: progress_def Let_def)
  let ?len = "of_nat (length (po_bytes demo_push)) :: u64"
  let ?new_op = "\<lparr>ow_record = po_bytes demo_push, ow_op = (live_op_of epoch_crypto (po_op demo_push) 0)\<lparr>lo_seq := 1\<rparr>,
      ow_class = Class_State, ow_new_rid = True, ow_progress = progress demo_row default_interval 1 ?len False,
      ow_usage = signed_i64 ?len, ow_chain_head = \<lparr>chr_counter = 1, chr_digest = demo_digest 71, chr_seq = 1,
        chr_policy_revision = 1, chr_generation = 0\<rparr>\<rparr>"
  obtain st where st: "write_operation (Ident 40) (Ident 50) ?new_op demo_store = Inr st"
    "st_workspaces st = st_workspaces demo_store" "st_history_floors st = bt_empty"
    "st_entries st = bt_insert (Ident 40, Ident 50, 1) (ENTRY_OPERATION, po_bytes demo_push) bt_empty"
    "\<exists>c. bt_get (st_domains st) (Ident 40, Ident 50) = Some c \<and> dr_head_seq c = 1 \<and> dr_retention_floor c = 0"
    using demo_written [of ?new_op] progress1 by (auto simp: live_op_of_def)
  then have applied: "demo_apply demo_store = Inr (demo_receipt, st)"
    using demo_head1 demo_active1 demo_check_access demo_check_position demo_push_judged [of 0]
    by (simp add: apply_operation_def operation_state_def demo_domain_row demo_state0 held_at_def Let_def check_listed_def
        counted_by_write_def list_blobs_def note_operation_def check_quota_def demo_receipt_def)
  then have "demo_after = st" by (simp add: demo_after_def)
  then show "demo_apply demo_store = Inr (demo_receipt, demo_after)"
    "st_workspaces demo_after = st_workspaces demo_store" "st_history_floors demo_after = bt_empty"
    "st_entries demo_after = bt_insert (Ident 40, Ident 50, 1) (ENTRY_OPERATION, po_bytes demo_push) bt_empty"
    "\<exists>c. bt_get (st_domains demo_after) (Ident 40, Ident 50) = Some c \<and> dr_head_seq c = 1 \<and> dr_retention_floor c = 0"
    using st(2-5) applied by simp_all
qed

definition demo_entry :: log_entry where
  "demo_entry = \<lparr>lg_workspace = Ident 40, lg_op = po_op demo_push, lg_seq = 1, lg_class = Class_State\<rparr>"

lemma demo_push_decoded: "decoded_op epoch_crypto demo_push"
proof -
  have "wf_operation (body (po_op demo_push))"
    by (simp add: demo_push_def demo_op_def Let_def wf_operation_def wf_ident_def ident_is_zero_def wf_covers_def wf_blobs_def
        wf_sorted_def wf_list_def fits_u32_def rises_strictly_def wf_bytes_def)
  moreover have "po_bytes demo_push = enc_signed enc_operation (po_op demo_push)" by (simp add: demo_push_def Let_def)
  ultimately show ?thesis using demo_push_digest by (simp add: decoded_op_def wf_signed_def)
qed

lemma demo_run: "server_run epoch_crypto demo_after [demo_entry]"
proof -
  have "blank demo_store" by (simp add: blank_def demo_store_def sound_entries_def)
  then have "server_run epoch_crypto demo_store []" by (rule server_run.served_start)
  moreover have row: "st_operations demo_after = st_operations demo_store @ [entry_row epoch_crypto demo_entry]"
    using apply_operation_cases [OF demo_applied(1)]
  proof
    assume "\<exists>row class1. accepted_fresh epoch_crypto (demo_policy 1) 0 (Ident 40) demo_push demo_store row class1 demo_receipt demo_after"
    then obtain row class1 where fresh: "accepted_fresh epoch_crypto (demo_policy 1) 0 (Ident 40) demo_push demo_store row class1 demo_receipt demo_after"
      by blast
    then have "dr_head_seq row = 0" "class1 = Class_State"
      using demo_push_judged [of 0]
      by (auto simp: accepted_fresh_def Let_def demo_domain_row demo_state0 live_op_of_def)
    moreover from fresh obtain y st1 where "write_operation (Ident 40) (Ident 50) y demo_store = Inr st1" "same_tables st1 demo_after"
      "ow_op y = live_op_of epoch_crypto (po_op demo_push) (dr_head_seq row + 1)" "ow_class y = class1"
      by (auto simp: accepted_fresh_def Let_def)
    moreover note write_operationD(1) [OF calculation(3)]
    ultimately show ?thesis
      by (simp add: same_tables_def core_tables_def entry_row_def demo_entry_def entry_live_def)
  qed (simp add: demo_state0)
  ultimately have "server_run epoch_crypto demo_after ([] @ [\<lparr>lg_workspace = Ident 40, lg_op = po_op demo_push,
      lg_seq = rc_seq demo_receipt, lg_class = or_class (entry_row epoch_crypto demo_entry)\<rparr>])"
    using demo_push_decoded demo_applied(1) by (intro server_run.served_push)
  then show ?thesis by (simp add: demo_entry_def demo_receipt_def)
qed

subsection \<open>Witnesses\<close>

theorem accepted_operation_authorized_witness:
  "can_write (head_snapshot (demo_policy 1)) (Ident 1) (Ident 50) \<and> op_epoch (body (po_op demo_push)) = 1 \<and> rc_seq demo_receipt = 1"
proof -
  have "op_position demo_store (Ident 40) (Ident 50) (Ident 1) 1 = None" by (simp add: op_position_def demo_store_def)
  then show ?thesis
    using accepted_operation_authorized [OF demo_applied(1)] by (simp add: demo_domain_row)
qed

theorem server_refines_live_sets_witness:
  "live_ops demo_after (Ident 40) (Ident 60) 1 = [((entry_live epoch_crypto demo_entry)\<lparr>lo_covers := []\<rparr>, Class_State)]"
proof -
  have "holds_log epoch_crypto demo_after [demo_entry]" using run_log [OF demo_run] by blast
  then have "rid_domain demo_after (Ident 40) (Ident 60) = Some (Ident 50)"
    by (simp add: holds_log_def in_domain_def demo_entry_def)
  moreover have "in_domain (Ident 40) (Ident 50) demo_entry" by (simp add: in_domain_def demo_entry_def)
  moreover have "live_at (live_of epoch_crypto [demo_entry]) (Ident 60) 1 = [(entry_live epoch_crypto demo_entry, Class_State)]"
    by (simp add: live_of_def live_apply_def live_insert_def live_class_of_def class_of_def new_live_def empty_rid_def
        live_at_def state_live_at_def covers_def covered_by_def Let_def domIff)
      (simp add: demo_entry_def entry_live_def live_op_of_def)
  ultimately show ?thesis using server_refines_live_sets [OF demo_run, of "Ident 40" "Ident 60" "Ident 50" 1] by simp
qed

lemma demo_push_length: "length (po_bytes demo_push) \<le> 1000"
  by (simp add: demo_push_def demo_op_def Let_def enc_signed_def enc_operation_def operation_prefix_def w_u64_def w_bytes_def
      w_u32_def w_u8_def enc_bool_def encode_list_def nonce_bytes_def signature_bytes_def tag_bytes_def)

abbreviation demo_cursor :: pull_cursor where
  "demo_cursor \<equiv> \<lparr>pc_domain = Ident 50, pc_after = 0\<rparr>"

abbreviation demo_pull :: "nat \<Rightarrow> store_error + nat \<times> page" where
  "demo_pull budget \<equiv> pull_page demo_after (demo_policy 1) 0 demo_session (Ident 40) 1 budget demo_cursor"

lemma demo_session_fields [simp]: "ss_device demo_session = Ident 1" "ss_account demo_session = Ident 99"
  by (simp_all add: demo_session_def new_session_def)

lemma demo_after_row: "\<exists>row. store_domain demo_after (Ident 40) (Ident 50) = Some row \<and> dr_head_seq row = 1
    \<and> dr_retention_floor row = 0"
  using demo_applied(5) by (auto simp: store_domain_def domain_columns.extend_def)

lemma demo_pulled:
  assumes "2000 \<le> budget"
  shows "\<exists>budget' pg. demo_pull budget = Inr (budget', pg) \<and> pg_status pg = Page_Ok \<and> pg_complete_through pg = 1
    \<and> pg_entries pg = [\<lparr>we_seq = 1, we_record = Entry_Operation (po_op demo_push)\<rparr>]"
proof -
  let ?raw = "\<lparr>re_seq = 1, re_type = ENTRY_OPERATION, re_record = po_bytes demo_push\<rparr>"
  let ?e = "\<lparr>we_seq = 1, we_record = Entry_Operation (po_op demo_push)\<rparr>"
  have rows: "rows_after demo_after (Ident 40) (Ident 50) 0 = [?raw]"
    by (simp add: rows_after_def demo_applied(4) at_most_def INTEGER_MAX_def)
  have raw: "entry_of_raw ?raw = Inr ?e"
    using demo_push_decoded by (simp add: operation_entry decoded_op_def)
  obtain row where row: "store_domain demo_after (Ident 40) (Ident 50) = Some row" "dr_head_seq row = 1" "dr_retention_floor row = 0"
    using demo_after_row by blast
  have "read_page demo_after (Ident 40) (Ident 50) 1 (budget, 0, [])
      = Inr (False, budget - (ENTRY_FIXED + length (po_bytes demo_push)), 1, [?e])"
    using read_page_one_pass [of demo_after "Ident 40" "Ident 50" 0 1] rows raw demo_push_length assms
    by (simp add: ENTRY_FIXED_def)
  moreover have "sorted_new by_seq UNBOUNDED [?e] = Inr [?e]"
    by (simp add: sorted_new_rising UNBOUNDED_def usize_MAX_def)
  ultimately show ?thesis
    using row demo_head1 demo_active1 demo_applied(3)
    by (simp add: pull_page_def Let_def history_floor_def empty_page_def)
qed

theorem pulled_page_is_complete_witness:
  "\<exists>budget pg. demo_pull 2000 = Inr (budget, pg) \<and> page_operations (pg_entries pg) = [(1, po_op demo_push)]"
proof -
  obtain budget pg where pg: "demo_pull 2000 = Inr (budget, pg)" "pg_status pg = Page_Ok" "pg_complete_through pg = 1"
    using demo_pulled [of 2000] by auto
  then show ?thesis using pulled_page_is_complete [OF demo_run pg(1,2)] by (simp add: demo_entry_def)
qed

theorem pulled_page_applies_witness:
  "\<exists>v'. process_page [chain_record_of epoch_crypto (po_op demo_push) 1] no_fetch new_verifier () = (Inr [Chain_Accept], v', ())
    \<and> client_at epoch_crypto v' [demo_entry] (Ident 40) (Ident 50) 1"
proof -
  obtain budget pg where pg: "demo_pull 2000 = Inr (budget, pg)" "pg_status pg = Page_Ok" "pg_complete_through pg = 1"
    "pg_entries pg = [\<lparr>we_seq = 1, we_record = Entry_Operation (po_op demo_push)\<rparr>]"
    using demo_pulled [of 2000] by auto
  have "client_at epoch_crypto new_verifier [demo_entry] (Ident 40) (pc_domain demo_cursor) (pc_after demo_cursor)"
    using demo_ignores_none
    by (simp add: client_at_def demo_entry_def heads_after_def fun_eq_iff heads_of_def device_head_entry device_entry_def
        new_verifier_def default_chain_def NONE_head_def)
  from pulled_page_applies [OF demo_run pg(1,2) this, of no_fetch "()"] pg(3,4) show ?thesis
    by (simp add: page_operations_def)
qed

lemma demo_authorized: "authorize_domain demo_after (demo_policy 1) demo_session (Ident 40) (Ident 50) = Inr ()"
  using demo_head1 demo_active1 demo_applied(2)
  by (simp add: authorize_domain_def authorize_def session_reader_def store_workspace_def demo_store_def Let_def)

theorem chain_read_answers_witness:
  "chain_read demo_after (demo_policy 1) demo_session (Ident 40) (Ident 50) (Ident 1) 1
    = Inr \<lparr>we_seq = 1, we_record = Entry_Operation (po_op demo_push)\<rparr>
   \<and> chain_read demo_after (demo_policy 1) demo_session (Ident 40) (Ident 50) (Ident 1) 2 = Inl (refuse ''not_found'')"
  using chain_read_answers [OF demo_run demo_authorized, of "Ident 1" 1] chain_read_answers [OF demo_run demo_authorized, of "Ident 1" 2]
  by (simp add: demo_entry_def word_le_nat_alt)

theorem pull_makes_progress_witness:
  "\<exists>budget pg. demo_pull 2000 = Inr (budget, pg) \<and> pg_status pg = Page_Ok"
proof -
  obtain row where "store_domain demo_after (Ident 40) (Ident 50) = Some row" "dr_retention_floor row = 0"
    using demo_after_row by blast
  then show ?thesis
    using pull_makes_progress [OF demo_run, of 2000 "Ident 40" "Ident 50" row "demo_policy 1" demo_session 0 0 1]
      demo_head1 demo_active1 demo_applied(3)
    by (fastforce simp: MAX_BODY_def history_floor_def)
qed

theorem pull_answers_decode_witness:
  "\<exists>pg. pull_round demo_after (demo_policy 1) 0 demo_session (Ident 40) [demo_cursor] = Inr [pg]
    \<and> from_bytes (decode_list UNBOUNDED page_MIN_SIZE dec_page) (encode_list enc_page [pg]) = Inr [pg]"
proof -
  let ?budget = "MAX_BODY - 4 - PAGE_FIXED * length [demo_cursor]"
  obtain budget pg where "demo_pull ?budget = Inr (budget, pg)"
    using demo_pulled [of ?budget] by (auto simp: MAX_BODY_def PAGE_FIXED_def)
  moreover have "store_workspace demo_after (Ident 40) = Some \<lparr>wsr_policy_revision = 1, wsr_policy_head = demo_digest 21,
       wsr_closed = False, wsr_quota_pressure = False, wsr_quota_crossings = 0\<rparr>"
    using demo_applied(2) by (simp add: store_workspace_def demo_store_def)
  ultimately have "pull_round demo_after (demo_policy 1) 0 demo_session (Ident 40) [demo_cursor] = Inr [pg]"
    using demo_head1 demo_active1 by (simp add: pull_round_def pull_snapshot_def pull_step_def MAX_DOMAINS_def)
  moreover have "wf_pull_cursor demo_cursor" by (simp add: wf_pull_cursor_def wf_ident_def ident_is_zero_def)
  ultimately show ?thesis using pull_answers_decode by fastforce
qed

end
