(* ===== verification/Blob.thy ===== *)
theory Blob
  imports Payloads
begin

text \<open>
  The blob format of \<^verbatim>\<open>blob.rs\<close> (\<section>21): a file is laid out as its length, its bytes and
  zeros up to a padded length, cut into chunks of 65,536 bytes, and each chunk is sealed under
  the blob's key with its position and a last-chunk flag. Lengths are \<open>u64\<close> words; a
  \<open>usize\<close> is a \<open>nat\<close>. \<open>StreamBE32\<close> of the crate \<^verbatim>\<open>aead_stream\<close> is a parameter, a record of
  its two functions. A \<open>Read\<close> is the bytes it has left and how it ends, a \<open>Write\<close> the bytes it
  took and where it fails. A function that fails returns its error and no sink: \<^verbatim>\<open>blob.rs\<close>
  has the caller discard what a failed call wrote.
\<close>

subsection \<open>Machine integers\<close>

definition div_ceil :: "u64 \<Rightarrow> u64 \<Rightarrow> u64" where
  "div_ceil a b = (if 0 < a mod b then a div b + 1 else a div b)"

definition checked_sub :: "u64 \<Rightarrow> u64 \<Rightarrow> u64 option" where
  "checked_sub a b = (if b \<le> a then Some (a - b) else None)"

definition checked_add :: "u64 \<Rightarrow> u64 \<Rightarrow> u64 option" where
  "checked_add a b = (if a \<le> a + b then Some (a + b) else None)"

text \<open>The range \<open>0..n\<close> a \<open>for\<close> loop runs over.\<close>

definition range_u64 :: "u64 \<Rightarrow> u64 list" where
  "range_u64 n = map of_nat [0..<unat n]"

subsection \<open>Streams\<close>

text \<open>\<open>std::io::ErrorKind\<close>: the one kind the code looks at, and the others by number.\<close>

datatype io_kind = Io_UnexpectedEof | Io_Other nat

record source =
  src_bytes :: "byte list"
  src_fault :: "io_kind option"

definition read_exact :: "source \<Rightarrow> nat \<Rightarrow> io_kind + byte list \<times> source" where
  "read_exact s n =
     (if n \<le> length (src_bytes s)
      then Inr (take n (src_bytes s), s\<lparr>src_bytes := drop n (src_bytes s)\<rparr>)
      else case src_fault s of Some kind \<Rightarrow> Inl kind | None \<Rightarrow> Inl Io_UnexpectedEof)"

text \<open>\<open>read\<close> into a buffer of one byte: how many bytes it got.\<close>

definition read_extra :: "source \<Rightarrow> io_kind + nat" where
  "read_extra s =
     (if src_bytes s \<noteq> [] then Inr 1
      else case src_fault s of Some kind \<Rightarrow> Inl kind | None \<Rightarrow> Inr 0)"

text \<open>A slice as a \<open>Read\<close> and an empty \<open>Vec\<close> as a \<open>Write\<close>.\<close>

definition slice_source :: "byte list \<Rightarrow> source" where
  "slice_source bytes = \<lparr>src_bytes = bytes, src_fault = None\<rparr>"

record sink =
  snk_bytes :: "byte list"
  snk_fault :: "(nat \<times> io_kind) option"

definition vec_sink :: sink where
  "vec_sink = \<lparr>snk_bytes = [], snk_fault = None\<rparr>"

definition write_all :: "sink \<Rightarrow> byte list \<Rightarrow> io_kind + sink" where
  "write_all k bytes =
     (case snk_fault k of
        Some (limit, kind) \<Rightarrow>
          if limit < length (snk_bytes k @ bytes) then Inl kind
          else Inr (k\<lparr>snk_bytes := snk_bytes k @ bytes\<rparr>)
      | None \<Rightarrow> Inr (k\<lparr>snk_bytes := snk_bytes k @ bytes\<rparr>))"

subsection \<open>The format\<close>

definition CHUNK_LEN :: nat where "CHUNK_LEN = 65536"
definition SEGMENT_LEN :: nat where "SEGMENT_LEN = 1048576"
definition MAX_BLOB_FILE :: u64 where "MAX_BLOB_FILE = push_bit 31 1"
definition NONCE_PREFIX_LEN :: nat where "NONCE_PREFIX_LEN = 19"

definition header_len :: nat where
  "header_len = encoded_len Tag_Blob + 16 + NONCE_PREFIX_LEN"

definition nonce_prefix :: "crypto \<Rightarrow> secret_key \<Rightarrow> ident \<Rightarrow> byte list" where
  "nonce_prefix cr blob_key blob =
     (let derived = derive_key cr BLOB_NONCE (secret_bytes blob_key @ ident_bytes blob)
      in take NONCE_PREFIX_LEN (secret_bytes derived))"

definition blob_header :: "ident \<Rightarrow> byte list \<Rightarrow> byte list" where
  "blob_header blob prefix = tag_bytes Tag_Blob @ ident_bytes blob @ prefix"

definition ciphertext_len_for_padded :: "u64 \<Rightarrow> u64" where
  "ciphertext_len_for_padded p =
     of_nat header_len + p + of_nat AEAD_TAG_LEN * div_ceil p (of_nat CHUNK_LEN)"

definition blob_ciphertext_len :: "u64 \<Rightarrow> u64" where
  "blob_ciphertext_len file_len = ciphertext_len_for_padded (padded_length (file_len + 8))"

definition is_valid_blob_ciphertext_len :: "u64 \<Rightarrow> bool" where
  "is_valid_blob_ciphertext_len len =
     (case checked_sub len (of_nat header_len) of None \<Rightarrow> False
      | Some room \<Rightarrow>
          let per_chunk = of_nat (CHUNK_LEN + AEAD_TAG_LEN);
              chunks = div_ceil room per_chunk
          in case checked_sub room (chunks * of_nat AEAD_TAG_LEN) of None \<Rightarrow> False
             | Some p \<Rightarrow> is_valid_padded_length p \<and> ciphertext_len_for_padded p = len)"

text \<open>\<open>slice::chunks\<close>.\<close>

function chunks_of :: "nat \<Rightarrow> byte list \<Rightarrow> byte list list" where
  "chunks_of n xs =
     (if xs = [] \<or> n = 0 then [] else take n xs # chunks_of n (drop n xs))"
  by pat_completeness auto
termination by (relation "measure (length \<circ> snd)") auto

declare chunks_of.simps [simp del]

definition digest_of_segment_hashes :: "crypto \<Rightarrow> digest list \<Rightarrow> digest" where
  "digest_of_segment_hashes cr hashes =
     hash_parts cr [tag_bytes Tag_BlobParts @ encode_list digest_bytes hashes]"

definition ciphertext_digest :: "crypto \<Rightarrow> byte list \<Rightarrow> digest" where
  "ciphertext_digest cr ciphertext =
     digest_of_segment_hashes cr (map (hash cr) (chunks_of SEGMENT_LEN ciphertext))"

datatype blob_error =
    Blob_TooLarge | Blob_Length | Blob_Digest | Blob_Header | Blob_Decrypt | Blob_Padding
  | Blob_PlaintextLength | Blob_Revision | Blob_FileChanged | Blob_Io io_kind

text \<open>
  The stream cipher by the blob's key and nonce prefix: the arguments are the key, the prefix,
  the position, the last-chunk flag, the associated data and the message.
\<close>

record stream_cipher =
  stream_encrypt ::
    "256 word \<Rightarrow> byte list \<Rightarrow> u32 \<Rightarrow> bool \<Rightarrow> byte list \<Rightarrow> byte list \<Rightarrow> byte list option"
  stream_decrypt ::
    "256 word \<Rightarrow> byte list \<Rightarrow> u32 \<Rightarrow> bool \<Rightarrow> byte list \<Rightarrow> byte list \<Rightarrow> byte list option"

subsection \<open>Hashing in segments\<close>

text \<open>
  A \<open>blake3::Hasher\<close> is the bytes it was fed. The loop of \<open>update\<close> runs while bytes are left;
  \<open>filled\<close> stays below \<open>SEGMENT_LEN\<close>, which the guard writes out.
\<close>

record segment_hasher =
  sh_hashes :: "digest list"
  sh_current :: "byte list"
  sh_filled :: nat
  sh_total :: u64

definition segments_new :: segment_hasher where
  "segments_new = \<lparr>sh_hashes = [], sh_current = [], sh_filled = 0, sh_total = 0\<rparr>"

definition segments_take :: "crypto \<Rightarrow> segment_hasher \<Rightarrow> byte list \<Rightarrow> segment_hasher" where
  "segments_take cr s part =
     (let s = s\<lparr>sh_current := sh_current s @ part, sh_filled := sh_filled s + length part\<rparr>
      in if sh_filled s = SEGMENT_LEN
         then s\<lparr>sh_hashes := sh_hashes s @ [hash cr (sh_current s)], sh_current := [],
                sh_filled := 0\<rparr>
         else s)"

function segments_loop :: "crypto \<Rightarrow> segment_hasher \<Rightarrow> byte list \<Rightarrow> segment_hasher" where
  "segments_loop cr s bytes =
     (if bytes = [] \<or> SEGMENT_LEN \<le> sh_filled s then s
      else let n = min (SEGMENT_LEN - sh_filled s) (length bytes)
           in segments_loop cr (segments_take cr s (take n bytes)) (drop n bytes))"
  by pat_completeness auto
termination by (relation "measure (\<lambda>(cr, s, bytes). length bytes)") auto

declare segments_loop.simps [simp del]

definition segments_update :: "crypto \<Rightarrow> segment_hasher \<Rightarrow> byte list \<Rightarrow> segment_hasher" where
  "segments_update cr s bytes =
     segments_loop cr (s\<lparr>sh_total := sh_total s + of_nat (length bytes)\<rparr>) bytes"

definition segments_finish :: "crypto \<Rightarrow> segment_hasher \<Rightarrow> digest \<times> u64" where
  "segments_finish cr s =
     (let hashes = (if 0 < sh_filled s then sh_hashes s @ [hash cr (sh_current s)]
                    else sh_hashes s)
      in (digest_of_segment_hashes cr hashes, sh_total s))"

subsection \<open>Encryption\<close>

definition map_eof :: "blob_error \<Rightarrow> io_kind \<Rightarrow> blob_error" where
  "map_eof e kind = (case kind of Io_UnexpectedEof \<Rightarrow> e | _ \<Rightarrow> Blob_Io kind)"

text \<open>What the loop of \<open>encrypt_blob_to\<close> changes.\<close>

record encrypting =
  ef_file :: source
  ef_out :: sink
  ef_segments :: segment_hasher
  ef_hash :: "byte list"
  ef_remaining :: u64

definition encrypt_chunk ::
  "crypto \<Rightarrow> stream_cipher \<Rightarrow> secret_key \<Rightarrow> byte list \<Rightarrow> byte list \<Rightarrow> u64 \<Rightarrow> u64 \<Rightarrow> u64
   \<Rightarrow> encrypting \<Rightarrow> u64 \<Rightarrow> blob_error + encrypting" where
  "encrypt_chunk cr sc blob_key prefix hdr file_len p chunk_count s i =
     (let len = unat (min (p - i * of_nat CHUNK_LEN) (of_nat CHUNK_LEN));
          first = (if i = 0 then word_bytes 8 file_len else []);
          n = unat (min (of_nat (len - length first)) (ef_remaining s))
      in and_then (map_err (map_eof Blob_FileChanged) (read_exact (ef_file s) n)) (\<lambda>(bytes, file).
         let chunk = first @ bytes @ replicate (len - length first - n) 0
         in and_then (ok_or (stream_encrypt sc (secret_val blob_key) prefix (ucast i)
                               (i + 1 = chunk_count) hdr chunk) Blob_TooLarge) (\<lambda>sealed.
            and_then (map_err Blob_Io (write_all (ef_out s) sealed)) (\<lambda>out.
            Inr \<lparr>ef_file = file, ef_out = out,
                 ef_segments = segments_update cr (ef_segments s) sealed,
                 ef_hash = ef_hash s @ bytes, ef_remaining = ef_remaining s - of_nat n\<rparr>))))"

definition encrypt_blob_to ::
  "crypto \<Rightarrow> stream_cipher \<Rightarrow> source \<Rightarrow> u64 \<Rightarrow> ident \<Rightarrow> secret_key \<Rightarrow> sink
   \<Rightarrow> blob_error + (blob_ref \<times> digest) \<times> sink" where
  "encrypt_blob_to cr sc file file_len blob blob_key out =
     (if MAX_BLOB_FILE < file_len then Inl Blob_TooLarge
      else let p = padded_length (file_len + 8);
               prefix = nonce_prefix cr blob_key blob;
               hdr = blob_header blob prefix;
               chunk_count = div_ceil p (of_nat CHUNK_LEN)
      in and_then (map_err Blob_Io (write_all out hdr)) (\<lambda>out.
         and_then (try_fold (encrypt_chunk cr sc blob_key prefix hdr file_len p chunk_count)
             \<lparr>ef_file = file, ef_out = out, ef_segments = segments_update cr segments_new hdr,
              ef_hash = [], ef_remaining = file_len\<rparr>
             (range_u64 chunk_count)) (\<lambda>s.
         and_then (map_err Blob_Io (read_extra (ef_file s))) (\<lambda>extra.
         and_then (ensure (extra = 0) Blob_FileChanged) (\<lambda>_.
         let (d, len) = segments_finish cr (ef_segments s)
         in Inr ((\<lparr>br_blob = blob, br_ciphertext_length = len, br_ciphertext_digest = d,
                    br_blob_key = blob_key, br_plaintext_length = file_len\<rparr>,
                  hash cr (ef_hash s)), ef_out s))))))"

definition encrypt_blob ::
  "crypto \<Rightarrow> stream_cipher \<Rightarrow> byte list \<Rightarrow> ident \<Rightarrow> secret_key
   \<Rightarrow> blob_error + byte list \<times> blob_ref" where
  "encrypt_blob cr sc file blob blob_key =
     and_then (encrypt_blob_to cr sc (slice_source file) (of_nat (length file)) blob blob_key
                 vec_sink) (\<lambda>((blob_ref, _), out). Inr (snk_bytes out, blob_ref))"

subsection \<open>Decryption\<close>

text \<open>What the loop of \<open>decrypt_blob_to\<close> changes.\<close>

record decrypting =
  df_file :: source
  df_out :: sink
  df_hash :: "byte list"
  df_len :: u64
  df_remaining :: u64
  df_padding_ok :: bool

text \<open>
  The first 8 bytes of the first chunk are the file's length; the AEAD returns 16 bytes less
  than it is given, at least 256 for a valid length, so the slice of 8 is always there.
\<close>

definition read_file_len ::
  "u64 \<Rightarrow> u64 \<Rightarrow> decrypting \<Rightarrow> byte list \<Rightarrow> blob_error + decrypting" where
  "read_file_len room chunk_count s opened =
     (let file_len = bytes_word (take 8 opened);
          padded = room - chunk_count * of_nat AEAD_TAG_LEN
      in and_then (ensure (case checked_add file_len 8 of None \<Rightarrow> False
                           | Some stop \<Rightarrow> stop \<le> padded) Blob_Padding) (\<lambda>_.
         Inr (s\<lparr>df_len := file_len, df_remaining := file_len\<rparr>)))"

definition decrypt_chunk ::
  "stream_cipher \<Rightarrow> secret_key \<Rightarrow> byte list \<Rightarrow> byte list \<Rightarrow> u64 \<Rightarrow> u64
   \<Rightarrow> decrypting \<Rightarrow> u64 \<Rightarrow> blob_error + decrypting" where
  "decrypt_chunk sc blob_key prefix hdr room chunk_count s i =
     (let sealed_chunk = of_nat (CHUNK_LEN + AEAD_TAG_LEN);
          len = unat (min (room - i * sealed_chunk) sealed_chunk)
      in and_then (map_err (map_eof Blob_Length) (read_exact (df_file s) len)) (\<lambda>(sealed, file).
         and_then (ok_or (stream_decrypt sc (secret_val blob_key) prefix (ucast i)
                            (i + 1 = chunk_count) hdr sealed) Blob_Decrypt) (\<lambda>opened.
         and_then (if i = 0 then read_file_len room chunk_count s opened else Inr s) (\<lambda>s.
         let start = (if i = 0 then 8 else 0);
             n = unat (min (of_nat (length opened - start)) (df_remaining s));
             bytes = take n (drop start opened)
         in and_then (map_err Blob_Io (write_all (df_out s) bytes)) (\<lambda>out.
            Inr (s\<lparr>df_file := file, df_out := out, df_hash := df_hash s @ bytes,
                   df_remaining := df_remaining s - of_nat n,
                   df_padding_ok := df_padding_ok s
                     \<and> list_all (\<lambda>b. b = 0) (drop (start + n) opened)\<rparr>))))))"

definition decrypt_blob_to ::
  "crypto \<Rightarrow> stream_cipher \<Rightarrow> source \<Rightarrow> blob_ref \<Rightarrow> sink \<Rightarrow> blob_error + digest \<times> sink" where
  "decrypt_blob_to cr sc ciphertext bref out =
     (let len = br_ciphertext_length bref
      in and_then (ensure (is_valid_blob_ciphertext_len len) Blob_Length) (\<lambda>_.
      let prefix = nonce_prefix cr (br_blob_key bref) (br_blob bref);
          expected = blob_header (br_blob bref) prefix
      in and_then (map_err (map_eof Blob_Length) (read_exact ciphertext (length expected)))
        (\<lambda>(found, file).
         and_then (ensure (found = expected) Blob_Header) (\<lambda>_.
         let room = len - of_nat (length expected);
             chunk_count = div_ceil room (of_nat (CHUNK_LEN + AEAD_TAG_LEN))
         in and_then (try_fold (decrypt_chunk sc (br_blob_key bref) prefix expected room chunk_count)
               \<lparr>df_file = file, df_out = out, df_hash = [], df_len = 0, df_remaining = 0,
                df_padding_ok = True\<rparr>
               (range_u64 chunk_count)) (\<lambda>s.
         and_then (map_err Blob_Io (read_extra (df_file s))) (\<lambda>extra.
         and_then (ensure (extra = 0) Blob_Length) (\<lambda>_.
         and_then (ensure (df_padding_ok s) Blob_Padding) (\<lambda>_.
         and_then (ensure (df_len s = br_plaintext_length bref) Blob_PlaintextLength) (\<lambda>_.
         Inr (hash cr (df_hash s), df_out s))))))))))"

definition decrypt_blob ::
  "crypto \<Rightarrow> stream_cipher \<Rightarrow> byte list \<Rightarrow> blob_ref \<Rightarrow> digest option
   \<Rightarrow> blob_error + byte list" where
  "decrypt_blob cr sc ciphertext bref revision =
     and_then (ensure (of_nat (length ciphertext) = br_ciphertext_length bref
         \<and> is_valid_blob_ciphertext_len (of_nat (length ciphertext))) Blob_Length) (\<lambda>_.
     and_then (ensure (ciphertext_digest cr ciphertext = br_ciphertext_digest bref) Blob_Digest) (\<lambda>_.
     and_then (decrypt_blob_to cr sc (slice_source ciphertext) bref vec_sink) (\<lambda>(file_hash, out).
     and_then (ensure (revision = None \<or> revision = Some file_hash) Blob_Revision) (\<lambda>_.
     Inr (snk_bytes out)))))"

end
