(* ===== verification/Blob_Segments.thy ===== *)
theory Blob_Segments
  imports Blob
begin

text \<open>
  The incremental hashing of \<^verbatim>\<open>blob.rs\<close>: a hasher fed part by part gives what the whole
  input gives, however it is cut. The locale \<open>feeder\<close> states the contract; the segment hasher
  is its interpretation, with \<open>ciphertext_digest\<close> and the length as what it gives.
\<close>

locale feeder =
  fixes feed :: "'s \<Rightarrow> byte list \<Rightarrow> 's"
    and fed :: "'s \<Rightarrow> byte list \<Rightarrow> bool"
    and give :: "'s \<Rightarrow> 'r"
    and whole :: "byte list \<Rightarrow> 'r"
  assumes fed_feed: "fed s bs \<Longrightarrow> fed (feed s part) (bs @ part)"
    and give_fed: "fed s bs \<Longrightarrow> give s = whole bs"
begin

lemma fed_all: "fed s bs \<Longrightarrow> fed (foldl feed s parts) (bs @ concat parts)"
proof (induction parts arbitrary: s bs)
  case (Cons part parts)
  show ?case
    using Cons.IH [OF fed_feed [OF Cons.prems]] by simp
qed simp

lemma give_all: "fed s [] \<Longrightarrow> give (foldl feed s parts) = whole (concat parts)"
  using give_fed [OF fed_all] by fastforce

end

subsection \<open>Chunks\<close>

lemma chunks_of_Nil [simp]: "chunks_of n [] = []"
  by (subst chunks_of.simps) simp

lemma chunks_of_short: "xs \<noteq> [] \<Longrightarrow> length xs \<le> n \<Longrightarrow> chunks_of n xs = [xs]"
  by (cases "n = 0") (simp_all add: chunks_of.simps [of n xs])

lemma chunks_of_append:
  assumes "0 < n" and "n dvd length xs"
  shows "chunks_of n (xs @ ys) = chunks_of n xs @ chunks_of n ys"
  using assms
proof (induction n xs rule: chunks_of.induct)
  case (1 n xs)
  show ?case
  proof (cases "xs = []")
    case False
    then have le: "n \<le> length xs"
      using 1(3) by (auto dest: dvd_imp_le)
    have "n dvd length (drop n xs)"
      using 1(3) le by simp
    then have IH: "chunks_of n (drop n xs @ ys) = chunks_of n (drop n xs) @ chunks_of n ys"
      using 1 False by simp
    have "chunks_of n (xs @ ys) = take n xs # chunks_of n (drop n xs @ ys)"
      using le False 1(2) by (subst chunks_of.simps) simp
    also have "\<dots> = (take n xs # chunks_of n (drop n xs)) @ chunks_of n ys"
      by (simp add: IH)
    also have "take n xs # chunks_of n (drop n xs) = chunks_of n xs"
      using False 1(2) by (subst (2) chunks_of.simps) simp
    finally show ?thesis .
  qed simp
qed

lemma concat_chunks_of: "0 < n \<Longrightarrow> concat (chunks_of n xs) = xs"
proof (induction n xs rule: chunks_of.induct)
  case (1 n xs)
  then show ?case by (subst chunks_of.simps) simp
qed

lemma SEGMENT_LEN_pos [simp]: "0 < SEGMENT_LEN"
  by (simp add: SEGMENT_LEN_def)

subsection \<open>The segment hasher\<close>

text \<open>The bytes the segments in \<open>sh_hashes\<close> and the one being filled hold.\<close>

definition segments_hold :: "crypto \<Rightarrow> segment_hasher \<Rightarrow> byte list \<Rightarrow> bool" where
  "segments_hold cr s bs \<longleftrightarrow>
     (\<exists>full. bs = full @ sh_current s \<and> SEGMENT_LEN dvd length full
        \<and> sh_hashes s = map (hash cr) (chunks_of SEGMENT_LEN full))
     \<and> sh_filled s = length (sh_current s) \<and> sh_filled s < SEGMENT_LEN"

definition segments_fed :: "crypto \<Rightarrow> segment_hasher \<Rightarrow> byte list \<Rightarrow> bool" where
  "segments_fed cr s bs \<longleftrightarrow> segments_hold cr s bs \<and> sh_total s = of_nat (length bs)"

lemma segments_hold_take:
  assumes "segments_hold cr s bs" and "length part \<le> SEGMENT_LEN - sh_filled s"
  shows "segments_hold cr (segments_take cr s part) (bs @ part)"
proof -
  obtain full where bs: "bs = full @ sh_current s" and full: "SEGMENT_LEN dvd length full"
      and hashes: "sh_hashes s = map (hash cr) (chunks_of SEGMENT_LEN full)"
      and filled: "sh_filled s = length (sh_current s)" "sh_filled s < SEGMENT_LEN"
    using assms(1) by (auto simp: segments_hold_def)
  show ?thesis
  proof (cases "sh_filled s + length part = SEGMENT_LEN")
    case True
    let ?segment = "sh_current s @ part"
    have len: "length ?segment = SEGMENT_LEN"
      using True filled by simp
    then have "?segment \<noteq> []"
      using SEGMENT_LEN_pos by (metis less_numeral_extra(3) list.size(3))
    then have "chunks_of SEGMENT_LEN (full @ ?segment) = chunks_of SEGMENT_LEN full @ [?segment]"
      using full len by (simp add: chunks_of_append chunks_of_short del: append_is_Nil_conv)
    moreover have "SEGMENT_LEN dvd length (full @ ?segment)"
      using full len by (simp only: length_append dvd_add dvd_refl)
    ultimately show ?thesis
      using True hashes bs
      by (auto simp: segments_hold_def segments_take_def Let_def intro!: exI [of _ "full @ ?segment"])
  next
    case False
    then show ?thesis
      using assms(2) bs full hashes filled
      by (auto simp: segments_hold_def segments_take_def Let_def)
  qed
qed

lemma segments_take_total [simp]: "sh_total (segments_take cr s part) = sh_total s"
  by (simp add: segments_take_def Let_def)

lemma segments_hold_loop:
  "segments_hold cr s bs \<Longrightarrow>
     segments_hold cr (segments_loop cr s bytes) (bs @ bytes)
     \<and> sh_total (segments_loop cr s bytes) = sh_total s"
proof (induction cr s bytes arbitrary: bs rule: segments_loop.induct)
  case (1 cr s bytes)
  have room: "sh_filled s < SEGMENT_LEN"
    using 1(2) by (simp add: segments_hold_def)
  show ?case
  proof (cases "bytes = []")
    case True
    then show ?thesis using 1(2) by (simp add: segments_loop.simps)
  next
    case False
    let ?n = "min (SEGMENT_LEN - sh_filled s) (length bytes)"
    have "segments_hold cr (segments_take cr s (take ?n bytes)) (bs @ take ?n bytes)"
      using 1(2) by (rule segments_hold_take) simp
    then have "segments_hold cr
        (segments_loop cr (segments_take cr s (take ?n bytes)) (drop ?n bytes))
        ((bs @ take ?n bytes) @ drop ?n bytes)
      \<and> sh_total (segments_loop cr (segments_take cr s (take ?n bytes)) (drop ?n bytes))
          = sh_total s"
      using 1(1) False room by (auto simp del: append_assoc)
    moreover have "segments_loop cr s bytes
        = segments_loop cr (segments_take cr s (take ?n bytes)) (drop ?n bytes)"
      using False room by (subst segments_loop.simps) (simp add: Let_def)
    ultimately show ?thesis by simp
  qed
qed

lemma segments_hold_total [simp]:
  "segments_hold cr (s\<lparr>sh_total := t\<rparr>) bs \<longleftrightarrow> segments_hold cr s bs"
  by (simp add: segments_hold_def)

lemma segments_fed_new: "segments_fed cr segments_new []"
  by (simp add: segments_fed_def segments_hold_def segments_new_def)

interpretation segments: feeder "segments_update cr" "segments_fed cr" "segments_finish cr"
    "\<lambda>bs. (ciphertext_digest cr bs, of_nat (length bs))" for cr
proof
  fix s bs part
  assume fed: "segments_fed cr s bs"
  then show "segments_fed cr (segments_update cr s part) (bs @ part)"
    using segments_hold_loop [of cr "s\<lparr>sh_total := sh_total s + of_nat (length part)\<rparr>" bs part]
    by (simp add: segments_fed_def segments_update_def)
  obtain full where bs: "bs = full @ sh_current s" and full: "SEGMENT_LEN dvd length full"
      and hashes: "sh_hashes s = map (hash cr) (chunks_of SEGMENT_LEN full)"
      and filled: "sh_filled s = length (sh_current s)" "sh_filled s < SEGMENT_LEN"
    using fed by (auto simp: segments_fed_def segments_hold_def)
  have "chunks_of SEGMENT_LEN bs = chunks_of SEGMENT_LEN full
      @ (if sh_filled s = 0 then [] else [sh_current s])"
    using filled by (auto simp: bs chunks_of_append [OF _ full] chunks_of_short)
  then show "segments_finish cr s = (ciphertext_digest cr bs, of_nat (length bs))"
    using fed hashes
    by (simp add: segments_finish_def ciphertext_digest_def segments_fed_def)
qed

text \<open>However the ciphertext is cut, the segment hasher gives its digest and its length.\<close>

theorem segments_any_split:
  "segments_finish cr (foldl (segments_update cr) segments_new parts)
   = (ciphertext_digest cr (concat parts), of_nat (length (concat parts)))"
  by (rule segments.give_all [OF segments_fed_new])

end
