(* ===== verification/Blob_Laws.thy ===== *)
theory Blob_Laws
  imports Blob_Segments
begin

text \<open>
  What \<^verbatim>\<open>blob.rs\<close> keeps: the lengths of a blob of at most 2 GiB without a wrap, the chunks
  that the loops of \<open>encrypt_blob_to\<close> and \<open>decrypt_blob_to\<close> see, and what the two loops do on
  them. \<open>stream_law\<close> is what the code relies on of the stream cipher: a chunk of at most
  65,536 bytes seals, to 16 bytes more, and the sealed chunk opens to it again.
\<close>

definition stream_law :: "stream_cipher \<Rightarrow> bool" where
  "stream_law sc \<longleftrightarrow>
     (\<forall>key prefix i final aad m. length m \<le> CHUNK_LEN \<longrightarrow>
        (\<exists>c. stream_encrypt sc key prefix i final aad m = Some c
           \<and> length c = length m + AEAD_TAG_LEN
           \<and> stream_decrypt sc key prefix i final aad c = Some m))"

subsection \<open>Loops over a range\<close>

lemma try_fold_upt:
  assumes "\<And>i s. m \<le> i \<Longrightarrow> i < n \<Longrightarrow> I i s \<Longrightarrow> \<exists>s'. f s (g i) = Inr s' \<and> I (Suc i) s'"
    and "I m s" and "m \<le> n"
  shows "\<exists>t. try_fold f s (map g [m..<n]) = Inr t \<and> I n t"
  using assms
proof (induction "n - m" arbitrary: m s)
  case (Suc k)
  then have less: "m < n" by simp
  obtain s' where step: "f s (g m) = Inr s'" and "I (Suc m) s'"
    using Suc.prems(1) [OF order_refl less Suc.prems(2)] by blast
  moreover have "k = n - Suc m" using Suc.hyps(2) by simp
  ultimately have "\<exists>t. try_fold f s' (map g [Suc m..<n]) = Inr t \<and> I n t"
    using Suc.hyps(1) [of "Suc m" s'] Suc.prems(1) less by simp
  then show ?case
    using step less by (simp add: upt_conv_Cons)
qed simp

lemma try_fold_upt_cases:
  assumes "\<And>i s. m \<le> i \<Longrightarrow> i < n \<Longrightarrow> I i s \<Longrightarrow>
      (\<exists>s'. f s (g i) = Inr s' \<and> I (Suc i) s') \<or> f s (g i) = Inl e"
    and "I m s" and "m \<le> n"
  shows "(\<exists>t. try_fold f s (map g [m..<n]) = Inr t \<and> I n t)
    \<or> try_fold f s (map g [m..<n]) = Inl e"
  using assms
proof (induction "n - m" arbitrary: m s)
  case (Suc k)
  then have less: "m < n" by simp
  have k: "k = n - Suc m" using Suc.hyps(2) by simp
  from Suc.prems(1) [OF order_refl less Suc.prems(2)] show ?case
  proof
    assume "\<exists>s'. f s (g m) = Inr s' \<and> I (Suc m) s'"
    then obtain s' where step: "f s (g m) = Inr s'" "I (Suc m) s'" by blast
    then have "(\<exists>t. try_fold f s' (map g [Suc m..<n]) = Inr t \<and> I n t)
        \<or> try_fold f s' (map g [Suc m..<n]) = Inl e"
      using Suc.hyps(1) [OF k, of s'] Suc.prems(1) less by simp
    then show ?case using step less by (simp add: upt_conv_Cons)
  qed (use less in \<open>simp add: upt_conv_Cons\<close>)
qed simp

subsection \<open>Lengths\<close>

definition ceil_nat :: "nat \<Rightarrow> nat \<Rightarrow> nat" where
  "ceil_nat a b = (a + (b - 1)) div b"

lemma ceil_nat_eq: "0 < b \<Longrightarrow> ceil_nat a b = (if 0 < a mod b then a div b + 1 else a div b)"
proof -
  assume b: "0 < b"
  have a: "a = b * (a div b) + a mod b" by simp
  have "ceil_nat a b = (b * (a div b) + (a mod b + (b - 1))) div b"
    unfolding ceil_nat_def by (metis add.assoc a)
  also have "\<dots> = a div b + (a mod b + (b - 1)) div b"
    by (rule div_mult_self4) (use b in simp)
  also have "(a mod b + (b - 1)) div b = (if 0 < a mod b then 1 else 0)"
    using b mod_less_divisor [OF b, of a] by (auto simp: div_nat_eqI)
  finally show ?thesis by simp
qed

lemma unat_div_ceil:
  assumes "0 < unat b"
  shows "unat (div_ceil a b) = ceil_nat (unat a) (unat b)"
proof (cases "0 < a mod b")
  case True
  then have "0 < unat a mod unat b"
    by (simp add: word_less_nat_alt unat_mod)
  then have two: "2 \<le> unat b"
    using assms by (cases "unat b = 1") auto
  have "unat a div unat b \<le> unat a div 2"
    using two by (intro div_le_mono2) simp_all
  also have "\<dots> < 2 ^ 63"
  proof -
    have "unat a < 2 ^ 64" using unsigned_less [of a] by simp
    then show ?thesis by (simp add: less_mult_imp_div_less)
  qed
  finally have "unat (a div b) + 1 < 2 ^ 64"
    by (simp add: unat_div)
  then have "unat (a div b + 1) = unat (a div b) + 1"
    by (simp add: unat_word_ariths)
  then show ?thesis
    using True assms by (simp add: div_ceil_def ceil_nat_eq unat_div word_less_nat_alt unat_mod)
next
  case False
  then show ?thesis
    using assms by (simp add: div_ceil_def ceil_nat_eq unat_div word_less_nat_alt unat_mod)
qed

lemma unat_min_u64:
  "a < 2 ^ 64 \<Longrightarrow> b < 2 ^ 64 \<Longrightarrow> unat (min (of_nat a) (of_nat b) :: u64) = min a b"
  by (simp add: min_def word_le_nat_alt unat_of_nat_u64)

text \<open>The length of a window: \<open>(p - i * c).min(c)\<close>.\<close>

lemma unat_window:
  assumes "i * c \<le> p" and "p < 2 ^ 64" and "c < 2 ^ 64"
  shows "unat (min (of_nat p - of_nat i * of_nat c) (of_nat c) :: u64) = min (p - i * c) c"
proof -
  have "of_nat p - of_nat i * of_nat c = (of_nat (p - i * c) :: u64)"
    using assms(1) by (simp add: of_nat_diff)
  then show ?thesis
    using assms unat_min_u64 [of "p - i * c" c] by simp
qed

lemma ceil_nat_bounds:
  assumes "0 < c" and "0 < p"
  shows "i < ceil_nat p c \<longleftrightarrow> i * c < p"
proof -
  have "i < ceil_nat p c \<longleftrightarrow> Suc i \<le> (p + (c - 1)) div c"
    by (simp add: ceil_nat_def Suc_le_eq)
  also have "\<dots> \<longleftrightarrow> Suc i * c \<le> p + (c - 1)"
    using assms(1) by (simp add: less_eq_div_iff_mult_less_eq)
  also have "\<dots> \<longleftrightarrow> i * c < p"
    using assms by (cases c) auto
  finally show ?thesis .
qed

lemma ceil_nat_unique:
  assumes "0 < c" and "0 < p" and "\<And>i. i < n \<longleftrightarrow> i * c < p"
  shows "ceil_nat p c = n"
  using ceil_nat_bounds [OF assms(1,2)] assms(3) by (meson linorder_neqE_nat order.irrefl)

text \<open>Sealing every chunk adds a tag to each, and the sealed chunks are as many.\<close>

lemma ceil_nat_sealed:
  assumes "0 < c" and "0 < p"
  shows "ceil_nat (p + t * ceil_nat p c) (c + t) = ceil_nat p c"
proof (rule ceil_nat_unique)
  fix i
  let ?n = "ceil_nat p c"
  have pos: "0 < ?n"
    using ceil_nat_bounds [OF assms, of 0] assms by simp
  then obtain q where q: "?n = Suc q" using gr0_conv_Suc by blast
  have low: "q * c < p" and high: "p \<le> Suc q * c"
    using ceil_nat_bounds [OF assms, of q] ceil_nat_bounds [OF assms, of "Suc q"] q by simp_all
  show "i < ?n \<longleftrightarrow> i * (c + t) < p + t * ?n"
  proof
    assume "i < ?n"
    then have "i \<le> q" using q by simp
    then have "i * (c + t) \<le> q * (c + t)" by (rule mult_le_mono1)
    also have "\<dots> = q * c + q * t" by (rule distrib_left)
    also have "\<dots> < p + t * ?n"
      using low by (simp add: q mult.commute)
    finally show "i * (c + t) < p + t * ?n" .
  next
    assume less: "i * (c + t) < p + t * ?n"
    show "i < ?n"
    proof (rule ccontr)
      assume "\<not> i < ?n"
      then have le: "Suc q \<le> i" using q by simp
      have "Suc q * c \<le> i * c" by (rule mult_le_mono1 [OF le])
      moreover have "t * ?n \<le> i * t"
        unfolding q mult.commute [of t] by (rule mult_le_mono1 [OF le])
      ultimately have "p + t * ?n \<le> i * c + i * t"
        using high by linarith
      then have "p + t * ?n \<le> i * (c + t)"
        by (simp only: distrib_left)
      then show False using less by simp
    qed
  qed
qed (use assms in simp_all)

lemma sealed_window:
  assumes "0 < c" and "0 < p" and "i < ceil_nat p c"
  shows "min (p + t * ceil_nat p c - i * (c + t)) (c + t) = min (p - i * c) c + t"
proof (cases "Suc i < ceil_nat p c")
  case True
  then have "Suc i * c < p" using ceil_nat_bounds [OF assms(1,2)] by blast
  then have "c < p - i * c" by simp
  moreover have "Suc i * t \<le> t * ceil_nat p c"
    using True by (simp only: mult.commute [of t]) (rule mult_le_mono1, simp)
  ultimately have "c + t \<le> p + t * ceil_nat p c - i * (c + t)"
    by (simp add: distrib_left)
  then show ?thesis using \<open>c < p - i * c\<close> by simp
next
  case False
  then have n: "ceil_nat p c = Suc i" using assms(3) by simp
  then have "p \<le> Suc i * c" "i * c < p"
    using ceil_nat_bounds [OF assms(1,2), of "Suc i"] ceil_nat_bounds [OF assms(1,2), of i] by simp_all
  moreover have "p + t * ceil_nat p c - i * (c + t) = p - i * c + t"
    using \<open>i * c < p\<close> by (simp add: n distrib_left mult.commute)
  ultimately show ?thesis by simp
qed

subsection \<open>The lengths of a blob\<close>

text \<open>The padded plaintext of a file of \<open>n\<close> bytes.\<close>

definition blob_padded :: "nat \<Rightarrow> nat" where
  "blob_padded n = padded_nat (n + 8)"

lemma padded_nat_mono: "m \<le> n \<Longrightarrow> padded_nat m \<le> padded_nat n"
  using padme_nat_mono [of m n] by (auto simp: padded_nat_def)

lemma blob_padded_bounds:
  assumes "n \<le> 2 ^ 31"
  shows "n + 8 \<le> blob_padded n" and "256 \<le> blob_padded n" and "blob_padded n \<le> 2 ^ 32"
proof -
  have "blob_padded n \<le> padded_nat (2 ^ 32)"
    unfolding blob_padded_def using assms by (intro padded_nat_mono) simp
  also have "\<dots> = 2 ^ 32"
    using padme_nat_power [of 32] by (simp add: padded_nat_def)
  finally show "blob_padded n \<le> 2 ^ 32" .
qed (use padded_nat_ge [of "n + 8"] in \<open>simp_all add: blob_padded_def padded_nat_def\<close>)

lemma blob_padded_word:
  assumes "n \<le> 2 ^ 31"
  shows "padded_length (of_nat n + 8) = of_nat (blob_padded n)"
proof (rule word_eqI_unat)
  have "unat (of_nat n + 8 :: u64) = n + 8"
    using assms by (simp add: unat_word_ariths unat_of_nat)
  then show "unat (padded_length (of_nat n + 8)) = unat (of_nat (blob_padded n) :: u64)"
    using assms blob_padded_bounds(3) [OF assms]
    by (simp add: unat_padded_length blob_padded_def unat_of_nat_u64)
qed

lemma header_len_eq: "header_len = 53"
  by (simp add: header_len_def encoded_len_def NONCE_PREFIX_LEN_def)

lemma length_nonce_prefix [simp]: "length (nonce_prefix cr key blob) = NONCE_PREFIX_LEN"
  by (simp add: nonce_prefix_def Let_def NONCE_PREFIX_LEN_def)

lemma length_blob_header:
  "length (blob_header blob (nonce_prefix cr key b)) = header_len"
  by (simp add: blob_header_def header_len_def encoded_len_def tag_bytes_def)

text \<open>The chunks of a padded length, the ciphertext length, and the chunks of a ciphertext.\<close>

definition blob_chunks :: "nat \<Rightarrow> nat" where
  "blob_chunks p = ceil_nat p CHUNK_LEN"

lemma CHUNK_LEN_pos [simp]: "0 < CHUNK_LEN"
  by (simp add: CHUNK_LEN_def)

lemma chunk_words:
  "unat (of_nat CHUNK_LEN :: u64) = CHUNK_LEN"
  "unat (of_nat (CHUNK_LEN + AEAD_TAG_LEN) :: u64) = CHUNK_LEN + AEAD_TAG_LEN"
  by (simp_all add: CHUNK_LEN_def AEAD_TAG_LEN_def)

lemma blob_chunks_le: "blob_chunks p \<le> p"
proof (cases "p = 0")
  case False
  have "\<not> p * CHUNK_LEN < p" by (simp add: CHUNK_LEN_def)
  then show ?thesis
    using ceil_nat_bounds [OF CHUNK_LEN_pos, of p p] False
    unfolding blob_chunks_def by (metis gr0I linorder_not_less)
qed (simp add: blob_chunks_def ceil_nat_def CHUNK_LEN_def)

lemma chunk_count_word:
  "p < 2 ^ 64 \<Longrightarrow> div_ceil (of_nat p) (of_nat CHUNK_LEN) = of_nat (blob_chunks p)"
proof (rule word_eqI_unat)
  assume p: "p < 2 ^ 64"
  then have "blob_chunks p < 2 ^ 64" using blob_chunks_le [of p] by linarith
  then show "unat (div_ceil (of_nat p) (of_nat CHUNK_LEN)) = unat (of_nat (blob_chunks p) :: u64)"
    using p by (simp add: unat_div_ceil chunk_words unat_of_nat_u64 blob_chunks_def)
qed

lemma ciphertext_len_word:
  "p < 2 ^ 64 \<Longrightarrow>
     ciphertext_len_for_padded (of_nat p)
     = of_nat (header_len + (p + AEAD_TAG_LEN * blob_chunks p))"
  by (simp add: ciphertext_len_for_padded_def chunk_count_word)

lemma sealed_count_word:
  assumes "0 < p" and "p \<le> 2 ^ 58"
  shows "div_ceil (of_nat (p + AEAD_TAG_LEN * blob_chunks p)) (of_nat (CHUNK_LEN + AEAD_TAG_LEN))
    = of_nat (blob_chunks p)"
proof (rule word_eqI_unat)
  have "p + AEAD_TAG_LEN * blob_chunks p \<le> 17 * 2 ^ 58"
    using assms(2) blob_chunks_le [of p] by (simp add: AEAD_TAG_LEN_def)
  then have room: "p + AEAD_TAG_LEN * blob_chunks p < 2 ^ 64" by simp
  have "blob_chunks p < 2 ^ 64" using assms(2) blob_chunks_le [of p] by simp
  then show "unat (div_ceil (of_nat (p + AEAD_TAG_LEN * blob_chunks p))
        (of_nat (CHUNK_LEN + AEAD_TAG_LEN)) :: u64) = unat (of_nat (blob_chunks p) :: u64)"
    using assms(1) chunk_words(2) ceil_nat_sealed [of CHUNK_LEN p AEAD_TAG_LEN, folded blob_chunks_def]
    by (simp add: unat_div_ceil unat_of_nat_u64 [OF room] unat_of_nat_u64
        del: of_nat_add of_nat_mult)
qed

text \<open>The length alone tells the padded plaintext, so the server's check takes every blob.\<close>

lemma valid_ciphertext_len:
  assumes "256 \<le> p" and "p \<le> 2 ^ 58" and "padme_nat p = p"
  shows "is_valid_blob_ciphertext_len (ciphertext_len_for_padded (of_nat p))"
proof -
  let ?room = "p + AEAD_TAG_LEN * blob_chunks p"
  have len: "ciphertext_len_for_padded (of_nat p) = of_nat (header_len + ?room)"
    using assms(2) by (simp add: ciphertext_len_word)
  have "?room \<le> 17 * 2 ^ 58"
    using assms(2) blob_chunks_le [of p] by (simp add: AEAD_TAG_LEN_def)
  then have room: "header_len + ?room < 2 ^ 64" "?room < 2 ^ 64"
    by (simp_all add: header_len_eq)
  have one: "checked_sub (of_nat (header_len + ?room)) (of_nat header_len) = Some (of_nat ?room)"
    using unat_of_nat_u64 [OF room(1)]
    by (simp add: checked_sub_def word_le_nat_alt unat_of_nat_u64 header_len_eq del: of_nat_mult)
  have count: "div_ceil (of_nat ?room) (of_nat (CHUNK_LEN + AEAD_TAG_LEN)) = of_nat (blob_chunks p)"
    using assms by (intro sealed_count_word) simp_all
  have tags: "of_nat (blob_chunks p) * of_nat AEAD_TAG_LEN = (of_nat (AEAD_TAG_LEN * blob_chunks p) :: u64)"
    by (simp add: mult.commute)
  have "AEAD_TAG_LEN * blob_chunks p < 2 ^ 64" using room(2) by linarith
  then have two: "checked_sub (of_nat ?room) (of_nat (AEAD_TAG_LEN * blob_chunks p)) = Some (of_nat p)"
    using unat_of_nat_u64 [OF room(2)] unat_of_nat_u64
    by (simp add: checked_sub_def word_le_nat_alt del: of_nat_mult of_nat_add) (simp add: of_nat_add)
  have "is_valid_padded_length (of_nat p)"
    using assms by (simp add: valid_padded_iff)
  then show ?thesis
    unfolding is_valid_blob_ciphertext_len_def len one option.case Let_def count tags two
    by (simp only: len simp_thms)
qed

end
