(* ===== verification/Blob_Runs.thy ===== *)
theory Blob_Runs
  imports Blob_Laws
begin

text \<open>
  The loops of \<^verbatim>\<open>blob.rs\<close> chunk by chunk: which bytes of the file each chunk holds, what
  the encrypting loop writes for it, and what the decrypting loop reads back.
\<close>

subsection \<open>The chunks of a file\<close>

text \<open>How many of the \<open>n\<close> bytes of a file the first \<open>i\<close> chunks hold.\<close>

definition taken :: "nat \<Rightarrow> nat \<Rightarrow> nat" where
  "taken n i = (if i = 0 then 0 else min n (i * CHUNK_LEN - 8))"

definition chunk_first :: "nat \<Rightarrow> nat \<Rightarrow> byte list" where
  "chunk_first n i = (if i = 0 then be_bytes 8 n else [])"

definition chunk_len :: "nat \<Rightarrow> nat \<Rightarrow> nat" where
  "chunk_len p i = min (p - i * CHUNK_LEN) CHUNK_LEN"

definition chunk_bytes :: "nat \<Rightarrow> byte list \<Rightarrow> nat \<Rightarrow> byte list" where
  "chunk_bytes n file i = take (taken n (Suc i) - taken n i) (drop (taken n i) file)"

definition chunk_plain :: "nat \<Rightarrow> nat \<Rightarrow> byte list \<Rightarrow> nat \<Rightarrow> byte list" where
  "chunk_plain n p file i =
     chunk_first n i @ chunk_bytes n file i
     @ replicate (chunk_len p i - length (chunk_first n i) - (taken n (Suc i) - taken n i)) 0"

lemma taken_0 [simp]: "taken n 0 = 0"
  by (simp add: taken_def)

lemma taken_le [simp]: "taken n i \<le> n"
  by (simp add: taken_def)

lemma taken_mono: "taken n i \<le> taken n (Suc i)"
  by (auto simp: taken_def CHUNK_LEN_def)

lemma chunk_below: "0 < p \<Longrightarrow> i < blob_chunks p \<longleftrightarrow> i * CHUNK_LEN < p"
  by (simp add: blob_chunks_def ceil_nat_bounds)

lemma taken_all:
  assumes "n + 8 \<le> p"
  shows "taken n (blob_chunks p) = n"
proof -
  have "0 < p" using assms by simp
  then have "p \<le> blob_chunks p * CHUNK_LEN" and "0 < blob_chunks p"
    using chunk_below [of p "blob_chunks p"] chunk_below [of p 0] by simp_all
  then show ?thesis using assms by (simp add: taken_def)
qed

lemma length_chunk_first: "length (chunk_first n i) = (if i = 0 then 8 else 0)"
  by (simp add: chunk_first_def)

text \<open>What the loop reads for a chunk: the room in it or the bytes left.\<close>

lemma taken_step:
  assumes "n + 8 \<le> p" and "i < blob_chunks p"
  shows "min (chunk_len p i - length (chunk_first n i)) (n - taken n i)
    = taken n (Suc i) - taken n i"
proof -
  have "i * CHUNK_LEN < p" using assms chunk_below by simp
  then show ?thesis
    using assms(1) by (cases i) (auto simp: taken_def length_chunk_first chunk_len_def CHUNK_LEN_def)
qed

lemma taken_room:
  assumes "n + 8 \<le> p" and "i < blob_chunks p"
  shows "taken n (Suc i) - taken n i + length (chunk_first n i) \<le> chunk_len p i"
proof -
  have "i * CHUNK_LEN < p" using assms chunk_below by simp
  then have "length (chunk_first n i) \<le> chunk_len p i"
    using assms(1) by (cases i) (auto simp: length_chunk_first chunk_len_def CHUNK_LEN_def)
  then show ?thesis using taken_step [OF assms] by linarith
qed

lemma length_chunk_bytes:
  "taken n (Suc i) \<le> length file \<Longrightarrow> length (chunk_bytes n file i) = taken n (Suc i) - taken n i"
  by (simp add: chunk_bytes_def)

lemma length_chunk_plain:
  assumes "n + 8 \<le> p" and "i < blob_chunks p" and "taken n (Suc i) \<le> length file"
  shows "length (chunk_plain n p file i) = chunk_len p i"
  using taken_room [OF assms(1,2)] by (simp add: chunk_plain_def length_chunk_bytes [OF assms(3)])

lemma chunk_len_le [simp]: "chunk_len p i \<le> CHUNK_LEN"
  by (simp add: chunk_len_def)

lemma take_chunk: "take (taken n i) file @ chunk_bytes n file i = take (taken n (Suc i)) file"
  using taken_mono [of n i] by (simp add: chunk_bytes_def take_add [symmetric])

subsection \<open>Encrypting\<close>

definition sealed_chunk ::
  "stream_cipher \<Rightarrow> secret_key \<Rightarrow> byte list \<Rightarrow> byte list \<Rightarrow> nat \<Rightarrow> nat \<Rightarrow> byte list \<Rightarrow> nat
   \<Rightarrow> byte list" where
  "sealed_chunk sc key prefix hdr n p file i =
     the (stream_encrypt sc (secret_val key) prefix (ucast (of_nat i :: u64))
            (of_nat i + 1 = (of_nat (blob_chunks p) :: u64)) hdr (chunk_plain n p file i))"

lemma sealed_chunk_law:
  assumes "stream_law sc" and "n + 8 \<le> p" and "i < blob_chunks p" and "taken n (Suc i) \<le> length file"
  shows "stream_encrypt sc (secret_val key) prefix (ucast (of_nat i :: u64))
      (of_nat i + 1 = (of_nat (blob_chunks p) :: u64)) hdr (chunk_plain n p file i)
      = Some (sealed_chunk sc key prefix hdr n p file i)"
    and "length (sealed_chunk sc key prefix hdr n p file i) = chunk_len p i + AEAD_TAG_LEN"
    and "stream_decrypt sc (secret_val key) prefix (ucast (of_nat i :: u64))
      (of_nat i + 1 = (of_nat (blob_chunks p) :: u64)) hdr (sealed_chunk sc key prefix hdr n p file i)
      = Some (chunk_plain n p file i)"
proof -
  have "length (chunk_plain n p file i) \<le> CHUNK_LEN"
    by (simp add: length_chunk_plain [OF assms(2-)])
  then obtain c where c: "stream_encrypt sc (secret_val key) prefix (ucast (of_nat i :: u64))
      (of_nat i + 1 = (of_nat (blob_chunks p) :: u64)) hdr (chunk_plain n p file i) = Some c"
      "length c = length (chunk_plain n p file i) + AEAD_TAG_LEN"
      "stream_decrypt sc (secret_val key) prefix (ucast (of_nat i :: u64))
      (of_nat i + 1 = (of_nat (blob_chunks p) :: u64)) hdr c = Some (chunk_plain n p file i)"
    using assms(1) unfolding stream_law_def by blast
  show "stream_encrypt sc (secret_val key) prefix (ucast (of_nat i :: u64))
      (of_nat i + 1 = (of_nat (blob_chunks p) :: u64)) hdr (chunk_plain n p file i)
      = Some (sealed_chunk sc key prefix hdr n p file i)"
    "length (sealed_chunk sc key prefix hdr n p file i) = chunk_len p i + AEAD_TAG_LEN"
    "stream_decrypt sc (secret_val key) prefix (ucast (of_nat i :: u64))
      (of_nat i + 1 = (of_nat (blob_chunks p) :: u64)) hdr (sealed_chunk sc key prefix hdr n p file i)
      = Some (chunk_plain n p file i)"
    using c length_chunk_plain [OF assms(2-)] by (simp_all add: sealed_chunk_def)
qed

text \<open>
  The state of the encrypting loop before chunk \<open>i\<close>: the file has given the bytes of the
  chunks before, the sink and the segment hasher hold the header and those chunks.
\<close>

definition written ::
  "stream_cipher \<Rightarrow> secret_key \<Rightarrow> byte list \<Rightarrow> byte list \<Rightarrow> nat \<Rightarrow> nat \<Rightarrow> byte list \<Rightarrow> nat
   \<Rightarrow> byte list" where
  "written sc key prefix hdr n p file i =
     hdr @ concat (map (sealed_chunk sc key prefix hdr n p file) [0..<i])"

definition enc_at ::
  "crypto \<Rightarrow> stream_cipher \<Rightarrow> secret_key \<Rightarrow> byte list \<Rightarrow> byte list \<Rightarrow> nat \<Rightarrow> nat \<Rightarrow> source
   \<Rightarrow> sink \<Rightarrow> nat \<Rightarrow> encrypting \<Rightarrow> bool" where
  "enc_at cr sc key prefix hdr n p src out i s \<longleftrightarrow>
     taken n i \<le> length (src_bytes src)
     \<and> ef_file s = src\<lparr>src_bytes := drop (taken n i) (src_bytes src)\<rparr>
     \<and> ef_out s = out\<lparr>snk_bytes := snk_bytes out @ written sc key prefix hdr n p (src_bytes src) i\<rparr>
     \<and> segments_fed cr (ef_segments s) (written sc key prefix hdr n p (src_bytes src) i)
     \<and> ef_hash s = take (taken n i) (src_bytes src)
     \<and> ef_remaining s = of_nat (n - taken n i)"

lemma written_Suc:
  "written sc key prefix hdr n p file (Suc i)
   = written sc key prefix hdr n p file i @ sealed_chunk sc key prefix hdr n p file i"
  by (simp add: written_def)

text \<open>The number of bytes the loop reads, on the words.\<close>

lemma chunk_read_word:
  assumes "n + 8 \<le> p" and "p \<le> 2 ^ 58" and "i < blob_chunks p"
  shows "unat (min (of_nat p - of_nat i * of_nat CHUNK_LEN) (of_nat CHUNK_LEN) :: u64) = chunk_len p i"
    and "unat (min (of_nat (chunk_len p i - length (chunk_first n i))) (of_nat (n - taken n i)) :: u64)
      = taken n (Suc i) - taken n i"
proof -
  have below: "i * CHUNK_LEN < p" using assms chunk_below by simp
  then show "unat (min (of_nat p - of_nat i * of_nat CHUNK_LEN) (of_nat CHUNK_LEN) :: u64) = chunk_len p i"
    using assms(2) unat_window [of i CHUNK_LEN p] by (simp add: chunk_len_def CHUNK_LEN_def)
  have "chunk_len p i - length (chunk_first n i) < 2 ^ 64" "n - taken n i < 2 ^ 64"
    using assms(1,2) chunk_len_le [of p i] by (simp_all add: CHUNK_LEN_def)
  then show "unat (min (of_nat (chunk_len p i - length (chunk_first n i))) (of_nat (n - taken n i)) :: u64)
      = taken n (Suc i) - taken n i"
    using taken_step [OF assms(1,3)] by (simp only: unat_min_u64)
qed

lemma of_nat_zero_iff: "i < 2 ^ 64 \<Longrightarrow> of_nat i = (0 :: u64) \<longleftrightarrow> i = 0"
  unfolding unat_eq_0 [symmetric] by (simp add: unat_of_nat_u64)

lemma chunk_first_word:
  assumes "i < 2 ^ 58" and "n < 2 ^ 58"
  shows "(if of_nat i = (0 :: u64) then word_bytes 8 (of_nat n :: u64) else []) = chunk_first n i"
proof -
  have "of_nat i = (0 :: u64) \<longleftrightarrow> i = 0"
    using assms(1) by (intro of_nat_zero_iff) simp
  then show ?thesis
    using assms(2) by (simp add: chunk_first_def word_bytes_def unat_of_nat_u64)
qed

text \<open>A fault of the file while a chunk is read, as \<open>encrypt_blob_to\<close> reports it.\<close>

definition short_file :: "source \<Rightarrow> blob_error" where
  "short_file src = map_eof Blob_FileChanged
     (case src_fault src of Some kind \<Rightarrow> kind | None \<Rightarrow> Io_UnexpectedEof)"

lemma encrypt_chunk_step:
  assumes "stream_law sc" and "n + 8 \<le> p" and "p \<le> 2 ^ 58" and "i < blob_chunks p"
    and "snk_fault out = None" and at: "enc_at cr sc key prefix hdr n p src out i s"
  shows "if taken n (Suc i) \<le> length (src_bytes src)
    then \<exists>s'. encrypt_chunk cr sc key prefix hdr (of_nat n) (of_nat p) (of_nat (blob_chunks p)) s (of_nat i)
          = Inr s' \<and> enc_at cr sc key prefix hdr n p src out (Suc i) s'
    else encrypt_chunk cr sc key prefix hdr (of_nat n) (of_nat p) (of_nat (blob_chunks p)) s (of_nat i)
          = Inl (short_file src)"
proof -
  let ?n = "taken n (Suc i) - taken n i"
  have bounds: "i < 2 ^ 58" "n < 2 ^ 58"
    using assms blob_chunks_le [of p] by simp_all
  note words = chunk_first_word [OF bounds] chunk_read_word [OF assms(2-4)]
  have le: "taken n i \<le> length (src_bytes src)" and from_file: "ef_file s = src\<lparr>src_bytes := drop (taken n i) (src_bytes src)\<rparr>"
    and out: "ef_out s = out\<lparr>snk_bytes := snk_bytes out @ written sc key prefix hdr n p (src_bytes src) i\<rparr>"
    and segs: "segments_fed cr (ef_segments s) (written sc key prefix hdr n p (src_bytes src) i)"
    and hash: "ef_hash s = take (taken n i) (src_bytes src)"
    and remaining: "ef_remaining s = of_nat (n - taken n i)"
    using at by (simp_all add: enc_at_def)
  show ?thesis
  proof (cases "taken n (Suc i) \<le> length (src_bytes src)")
    case True
    let ?chunk = "chunk_plain n p (src_bytes src) i"
    let ?sealed = "sealed_chunk sc key prefix hdr n p (src_bytes src) i"
    have "read_exact (ef_file s) ?n
        = Inr (chunk_bytes n (src_bytes src) i,
            src\<lparr>src_bytes := drop (taken n (Suc i)) (src_bytes src)\<rparr>)"
      using True taken_mono [of n i] by (simp add: read_exact_def from_file chunk_bytes_def diff_le_mono)
    moreover have "write_all (ef_out s) ?sealed
        = Inr (out\<lparr>snk_bytes := snk_bytes out @ written sc key prefix hdr n p (src_bytes src) (Suc i)\<rparr>)"
      by (simp add: write_all_def out assms(5) written_Suc)
    moreover have "n - taken n i - ?n = n - taken n (Suc i)"
      using taken_mono [of n i] by simp
    then have "ef_remaining s - of_nat ?n = of_nat (n - taken n (Suc i))"
      using taken_mono [of n i] taken_le [of n "Suc i"] remaining
      by (metis diff_le_mono of_nat_diff)
    ultimately have "encrypt_chunk cr sc key prefix hdr (of_nat n) (of_nat p) (of_nat (blob_chunks p)) s (of_nat i)
        = Inr \<lparr>ef_file = src\<lparr>src_bytes := drop (taken n (Suc i)) (src_bytes src)\<rparr>,
            ef_out = out\<lparr>snk_bytes := snk_bytes out @ written sc key prefix hdr n p (src_bytes src) (Suc i)\<rparr>,
            ef_segments = segments_update cr (ef_segments s) ?sealed,
            ef_hash = take (taken n (Suc i)) (src_bytes src),
            ef_remaining = of_nat (n - taken n (Suc i))\<rparr>"
      using sealed_chunk_law(1) [OF assms(1,2,4) True, unfolded chunk_plain_def]
      unfolding encrypt_chunk_def Let_def words remaining
      by (simp add: hash take_chunk)
    then show ?thesis
      using True segments.fed_feed [OF segs, of ?sealed]
      by (simp add: enc_at_def written_Suc)
  next
    case False
    then have "read_exact (ef_file s) ?n
        = Inl (case src_fault src of Some kind \<Rightarrow> kind | None \<Rightarrow> Io_UnexpectedEof)"
      using le taken_mono [of n i] by (auto simp: read_exact_def from_file split: option.splits)
    then show ?thesis
      using False unfolding encrypt_chunk_def Let_def words remaining
      by (simp add: short_file_def)
  qed
qed

text \<open>The blob of a file: its header and its sealed chunks, and the reference that names it.\<close>

definition blob_of :: "crypto \<Rightarrow> stream_cipher \<Rightarrow> byte list \<Rightarrow> ident \<Rightarrow> secret_key \<Rightarrow> byte list" where
  "blob_of cr sc file blob key =
     (let prefix = nonce_prefix cr key blob; p = blob_padded (length file)
      in written sc key prefix (blob_header blob prefix) (length file) p file (blob_chunks p))"

definition ref_of :: "crypto \<Rightarrow> byte list \<Rightarrow> nat \<Rightarrow> ident \<Rightarrow> secret_key \<Rightarrow> blob_ref" where
  "ref_of cr ciphertext n blob key =
     \<lparr>br_blob = blob, br_ciphertext_length = of_nat (length ciphertext),
      br_ciphertext_digest = ciphertext_digest cr ciphertext, br_blob_key = key,
      br_plaintext_length = of_nat n\<rparr>"

lemma encrypt_outcome:
  assumes "stream_law sc" and "snk_fault out = None" and n: "n \<le> 2 ^ 31"
  shows "encrypt_blob_to cr sc src (of_nat n) blob key out =
    (if length (src_bytes src) < n then Inl (short_file src)
     else if n < length (src_bytes src) then Inl Blob_FileChanged
     else case src_fault src of Some kind \<Rightarrow> Inl (Blob_Io kind)
       | None \<Rightarrow> let ct = blob_of cr sc (src_bytes src) blob key
           in Inr ((ref_of cr ct n blob key, hash cr (src_bytes src)),
                   out\<lparr>snk_bytes := snk_bytes out @ ct\<rparr>))"
proof -
  let ?p = "blob_padded n"
  let ?prefix = "nonce_prefix cr key blob"
  let ?hdr = "blob_header blob ?prefix"
  let ?I = "enc_at cr sc key ?prefix ?hdr n ?p src out"
  let ?f = "encrypt_chunk cr sc key ?prefix ?hdr (of_nat n) (of_nat ?p) (of_nat (blob_chunks ?p))"
  let ?start = "\<lparr>ef_file = src, ef_out = out\<lparr>snk_bytes := snk_bytes out @ ?hdr\<rparr>,
      ef_segments = segments_update cr segments_new ?hdr, ef_hash = [], ef_remaining = of_nat n\<rparr>"
  let ?run = "try_fold ?f ?start (map of_nat [0..<blob_chunks ?p])"
  have p: "n + 8 \<le> ?p" "?p \<le> 2 ^ 58" "?p < 2 ^ 64"
    using blob_padded_bounds [OF n] by simp_all
  have small: "\<not> MAX_BLOB_FILE < of_nat n"
    using n by (simp add: MAX_BLOB_FILE_def word_less_nat_alt unat_of_nat_u64 push_bit_eq_mult)
  have start: "?I 0 ?start"
    using segments.fed_feed [OF segments_fed_new, of cr ?hdr] by (simp add: enc_at_def written_def)
  have step: "(\<exists>s'. ?f s (of_nat i) = Inr s' \<and> ?I (Suc i) s')
      \<or> ?f s (of_nat i) = Inl (short_file src)" if "i < blob_chunks ?p" and "?I i s" for i s
    using encrypt_chunk_step [OF assms(1) p(1,2) that(1) assms(2) that(2)] by (simp split: if_splits)
  have good: "\<exists>s'. ?f s (of_nat i) = Inr s' \<and> ?I (Suc i) s'"
    if "i < blob_chunks ?p" and "?I i s" and "n \<le> length (src_bytes src)" for i s
    using encrypt_chunk_step [OF assms(1) p(1,2) that(1) assms(2) that(2)]
      le_trans [OF taken_le that(3), of "Suc i"] by simp
  have short: "(\<exists>t. ?run = Inr t \<and> ?I (blob_chunks ?p) t) \<or> ?run = Inl (short_file src)"
    using try_fold_upt_cases [of 0 "blob_chunks ?p" ?I ?f of_nat "short_file src" ?start] step start by blast
  have long: "\<exists>t. ?run = Inr t \<and> ?I (blob_chunks ?p) t" if "n \<le> length (src_bytes src)"
    using try_fold_upt [of 0 "blob_chunks ?p" ?I ?f of_nat ?start] good start that by blast
  have range: "range_u64 (of_nat (blob_chunks ?p)) = map of_nat [0..<blob_chunks ?p]"
    using p(3) blob_chunks_le [of ?p] by (simp add: range_u64_def unat_of_nat_u64)
  have header: "write_all out ?hdr = Inr (out\<lparr>snk_bytes := snk_bytes out @ ?hdr\<rparr>)"
    using assms(2) by (simp add: write_all_def)
  note unfolded = encrypt_blob_to_def Let_def if_not_P [OF small] blob_padded_word [OF n]
    chunk_count_word [OF p(3)] range header map_err_simps and_then_simps
  show ?thesis
  proof (cases "length (src_bytes src) < n")
    case True
    then have "?run = Inl (short_file src)"
      using short taken_all [OF p(1)] by (auto simp: enc_at_def)
    then show ?thesis using True unfolding unfolded by simp
  next
    case False
    then obtain t where run: "?run = Inr t" and at: "?I (blob_chunks ?p) t" using long by auto
    have left: "src_bytes (ef_file t) = drop n (src_bytes src)" "src_fault (ef_file t) = src_fault src"
      using at taken_all [OF p(1)] by (simp_all add: enc_at_def)
    show ?thesis
    proof (cases "n < length (src_bytes src)")
      case True
      then show ?thesis using False run left unfolding unfolded by (simp add: read_extra_def)
    next
      case False
      then have len: "n = length (src_bytes src)" using \<open>\<not> length (src_bytes src) < n\<close> by simp
      let ?ct = "blob_of cr sc (src_bytes src) blob key"
      have ct: "written sc key ?prefix ?hdr n ?p (src_bytes src) (blob_chunks ?p) = ?ct"
        by (simp add: blob_of_def Let_def len)
      then have "segments_finish cr (ef_segments t) = (ciphertext_digest cr ?ct, of_nat (length ?ct))"
          "ef_out t = out\<lparr>snk_bytes := snk_bytes out @ ?ct\<rparr>" "ef_hash t = src_bytes src"
        using at taken_all [OF p(1)] segments.give_fed [of cr "ef_segments t" ?ct] len
        by (simp_all add: enc_at_def)
      then show ?thesis
        using len run left unfolding unfolded
        by (simp add: read_extra_def ref_of_def split: option.splits)
    qed
  qed
qed

end
