(* ===== verification/Blob_Theorems.thy ===== *)
theory Blob_Theorems
  imports Blob_Runs
begin

text \<open>
  What \<^verbatim>\<open>blob.rs\<close> promises: a blob opens to the file it was made from, a reference names one
  ciphertext, what decrypts under a reference has its length and revision, and the length of
  a ciphertext alone tells whether it can be a blob's.
\<close>

subsection \<open>Decrypting\<close>

text \<open>
  The state of the decrypting loop before chunk \<open>i\<close> of the blob of \<open>file\<close>: the chunks from
  \<open>i\<close> on are left, the sink and the hash hold the bytes of the chunks before.
\<close>

definition dec_at ::
  "stream_cipher \<Rightarrow> secret_key \<Rightarrow> byte list \<Rightarrow> byte list \<Rightarrow> nat \<Rightarrow> byte list
   \<Rightarrow> sink \<Rightarrow> nat \<Rightarrow> decrypting \<Rightarrow> bool" where
  "dec_at sc key prefix hdr p file out i s \<longleftrightarrow>
     (let n = length file in
      df_file s = slice_source (concat (map (sealed_chunk sc key prefix hdr n p file) [i..<blob_chunks p]))
      \<and> df_out s = out\<lparr>snk_bytes := snk_bytes out @ take (taken n i) file\<rparr>
      \<and> df_hash s = take (taken n i) file
      \<and> (0 < i \<longrightarrow> df_len s = of_nat n \<and> df_remaining s = of_nat (n - taken n i))
      \<and> df_padding_ok s)"

lemma chunk_plain_parts:
  assumes "n + 8 \<le> p" and "i < blob_chunks p" and "taken n (Suc i) \<le> length file"
  shows "take (length (chunk_first n i)) (chunk_plain n p file i) = chunk_first n i"
    and "take (taken n (Suc i) - taken n i) (drop (length (chunk_first n i)) (chunk_plain n p file i))
      = chunk_bytes n file i"
    and "list_all (\<lambda>b. b = 0)
      (drop (length (chunk_first n i) + (taken n (Suc i) - taken n i)) (chunk_plain n p file i))"
  using length_chunk_bytes [OF assms(3)]
  by (simp_all add: chunk_plain_def list_all_iff)

lemma sealed_read_word:
  assumes "0 < p" and room: "p + AEAD_TAG_LEN * blob_chunks p < 2 ^ 64" and "i < blob_chunks p"
  shows "unat (min (of_nat (p + AEAD_TAG_LEN * blob_chunks p)
        - of_nat i * of_nat (CHUNK_LEN + AEAD_TAG_LEN)) (of_nat (CHUNK_LEN + AEAD_TAG_LEN)) :: u64)
    = chunk_len p i + AEAD_TAG_LEN"
proof -
  let ?room = "p + AEAD_TAG_LEN * blob_chunks p"
  note room
  moreover have "i * (CHUNK_LEN + AEAD_TAG_LEN) \<le> ?room"
    using ceil_nat_bounds [of "CHUNK_LEN + AEAD_TAG_LEN" ?room i] assms
      ceil_nat_sealed [of CHUNK_LEN p AEAD_TAG_LEN, folded blob_chunks_def]
    by (simp add: CHUNK_LEN_def)
  ultimately have "unat (min (of_nat ?room - of_nat i * of_nat (CHUNK_LEN + AEAD_TAG_LEN))
        (of_nat (CHUNK_LEN + AEAD_TAG_LEN)) :: u64)
      = min (?room - i * (CHUNK_LEN + AEAD_TAG_LEN)) (CHUNK_LEN + AEAD_TAG_LEN)"
    by (intro unat_window) (simp_all add: CHUNK_LEN_def AEAD_TAG_LEN_def)
  then show ?thesis
    using sealed_window [of CHUNK_LEN p i AEAD_TAG_LEN] assms
    by (simp only: blob_chunks_def chunk_len_def CHUNK_LEN_pos)
qed

text \<open>The length in the first chunk is accepted: with its 8 bytes it fits the padded space.\<close>

lemma read_file_len_ok:
  assumes "n + 8 \<le> p" and "p \<le> 2 ^ 58" and "take 8 opened = be_bytes 8 n"
  shows "read_file_len (of_nat (p + AEAD_TAG_LEN * blob_chunks p)) (of_nat (blob_chunks p)) s opened
    = Inr (s\<lparr>df_len := of_nat n, df_remaining := of_nat n\<rparr>)"
proof -
  have "n < 256 ^ 8" using assms by simp
  then have len: "bytes_word (take 8 opened) = (of_nat n :: u64)"
    by (simp add: bytes_word_def assms(3))
  have padded: "of_nat (p + AEAD_TAG_LEN * blob_chunks p) - of_nat (blob_chunks p) * of_nat AEAD_TAG_LEN
      = (of_nat p :: u64)"
    by (simp add: mult.commute)
  have "unat (of_nat (n + 8) :: u64) = n + 8" "unat (of_nat n :: u64) = n" "unat (of_nat p :: u64) = p"
    using assms(1,2) by (intro unat_of_nat_u64, simp)+
  then have "checked_add (of_nat n) 8 = Some (of_nat (n + 8))" "of_nat (n + 8) \<le> (of_nat p :: u64)"
    using assms by (simp_all add: checked_add_def word_le_nat_alt add.commute)
  then show ?thesis
    unfolding read_file_len_def len padded Let_def by simp
qed

lemma decrypt_chunk_step:
  assumes "stream_law sc" and "length file + 8 \<le> p" and "p \<le> 2 ^ 58" and "i < blob_chunks p"
    and "snk_fault out = None" and at: "dec_at sc key prefix hdr p file out i s"
  shows "\<exists>s'. decrypt_chunk sc key prefix hdr (of_nat (p + AEAD_TAG_LEN * blob_chunks p))
      (of_nat (blob_chunks p)) s (of_nat i) = Inr s' \<and> dec_at sc key prefix hdr p file out (Suc i) s'"
proof -
  let ?n = "length file"
  let ?m = "taken ?n (Suc i) - taken ?n i"
  let ?sealed = "sealed_chunk sc key prefix hdr ?n p file"
  let ?opened = "chunk_plain ?n p file i"
  let ?start = "length (chunk_first ?n i)"
  have le: "taken ?n (Suc i) \<le> ?n" by simp
  have i: "i < 2 ^ 64" "of_nat i = (0 :: u64) \<longleftrightarrow> i = 0"
    using assms(3,4) blob_chunks_le [of p] of_nat_zero_iff [of i] by simp_all
  note law = sealed_chunk_law [OF assms(1,2,4) le]
  note parts = chunk_plain_parts [OF assms(2,4) le]
  have "p + AEAD_TAG_LEN * blob_chunks p \<le> 17 * 2 ^ 58"
    using assms(3) blob_chunks_le [of p] by (simp add: AEAD_TAG_LEN_def)
  then have "p + AEAD_TAG_LEN * blob_chunks p < 2 ^ 64" by simp
  note window = sealed_read_word [OF _ this assms(4)]
  have read: "read_exact (df_file s) (chunk_len p i + AEAD_TAG_LEN)
      = Inr (?sealed i, slice_source (concat (map ?sealed [Suc i..<blob_chunks p])))"
    using at assms(4) law(2) [of key prefix hdr]
    by (simp add: dec_at_def Let_def read_exact_def slice_source_def upt_conv_Cons)
  define s1 where "s1 = (if i = 0 then s\<lparr>df_len := of_nat ?n, df_remaining := of_nat ?n\<rparr> else s)"
  have first: "(if of_nat i = (0 :: u64) then read_file_len (of_nat (p + AEAD_TAG_LEN * blob_chunks p))
        (of_nat (blob_chunks p)) s ?opened else Inr s) = Inr s1"
  proof (cases "i = 0")
    case True
    then have "take 8 ?opened = be_bytes 8 ?n"
      using parts(1) by (simp add: chunk_first_def)
    then show ?thesis
      using read_file_len_ok [OF assms(2,3)] True by (simp add: s1_def del: of_nat_add of_nat_mult)
  qed (simp add: i s1_def)
  have start: "(if of_nat i = (0 :: u64) then 8 else 0) = ?start"
    by (simp add: i length_chunk_first)
  have "df_remaining s1 = of_nat (?n - taken ?n i)"
    using at by (simp add: s1_def dec_at_def Let_def)
  then have count: "unat (min (of_nat (length ?opened - ?start)) (df_remaining s1)) = ?m"
    using chunk_read_word(2) [OF assms(2-4)] length_chunk_plain [OF assms(2,4) le] by simp
  have kept: "df_out s1 = out\<lparr>snk_bytes := snk_bytes out @ take (taken ?n i) file\<rparr>"
      "df_hash s1 = take (taken ?n i) file" "df_padding_ok s1"
      "df_len s1 = of_nat ?n" "df_remaining s1 = of_nat (?n - taken ?n i)"
    using at \<open>df_remaining s1 = _\<close> by (simp_all add: s1_def dec_at_def Let_def)
  have "?n - taken ?n i - ?m = ?n - taken ?n (Suc i)" "?m \<le> ?n - taken ?n i"
    using taken_mono [of ?n i] by (simp_all add: diff_le_mono)
  then have left: "of_nat (?n - taken ?n i) - of_nat ?m = (of_nat (?n - taken ?n (Suc i)) :: u64)"
    by (metis of_nat_diff)
  have sunk: "write_all (df_out s1) (chunk_bytes ?n file i)
      = Inr (out\<lparr>snk_bytes := snk_bytes out @ take (taken ?n (Suc i)) file\<rparr>)"
    using assms(5) by (simp add: kept write_all_def take_chunk)
  let ?t = "s1\<lparr>df_file := slice_source (concat (map ?sealed [Suc i..<blob_chunks p])),
      df_out := out\<lparr>snk_bytes := snk_bytes out @ take (taken ?n (Suc i)) file\<rparr>,
      df_hash := take (taken ?n (Suc i)) file,
      df_remaining := of_nat (?n - taken ?n (Suc i)), df_padding_ok := True\<rparr>"
  have "0 < p" using assms(2) by simp
  then have "decrypt_chunk sc key prefix hdr (of_nat (p + AEAD_TAG_LEN * blob_chunks p))
      (of_nat (blob_chunks p)) s (of_nat i) = Inr ?t"
    unfolding decrypt_chunk_def Let_def window [OF \<open>0 < p\<close>] read map_err_simps and_then_simps
      prod.case law(3) ok_or_simps first start count parts(2) sunk
    unfolding kept(5) left
    using parts(3) by (simp add: kept(1-4) take_chunk)
  moreover have "dec_at sc key prefix hdr p file out (Suc i) ?t"
    by (simp add: dec_at_def Let_def kept)
  ultimately show ?thesis by blast
qed

text \<open>The ciphertext of a file has the length its own length tells, and opens.\<close>

lemma length_concat_windows:
  assumes "\<And>j. j < m \<Longrightarrow> length (g j) = chunk_len p j + t" and "m \<le> blob_chunks p" and "0 < p"
  shows "length (concat (map g [0..<m])) = min p (m * CHUNK_LEN) + t * m"
  using assms(1,2)
proof (induction m)
  case (Suc m)
  then have "length (concat (map g [0..<m])) = min p (m * CHUNK_LEN) + t * m" by simp
  moreover have "m * CHUNK_LEN < p"
    using Suc.prems(2) chunk_below [OF assms(3), of m] by (simp only: Suc_le_eq)
  ultimately show ?case using Suc.prems(1) [of m] by (simp add: chunk_len_def)
qed simp

lemma length_blob_of:
  assumes "stream_law sc" and "length file \<le> 2 ^ 31"
  shows "length (blob_of cr sc file blob key)
    = header_len + (blob_padded (length file) + AEAD_TAG_LEN * blob_chunks (blob_padded (length file)))"
proof -
  let ?p = "blob_padded (length file)"
  have p: "length file + 8 \<le> ?p" "0 < ?p" using blob_padded_bounds [OF assms(2)] by simp_all
  have "?p \<le> blob_chunks ?p * CHUNK_LEN"
    using chunk_below [OF p(2), of "blob_chunks ?p"] by simp
  moreover have "length (concat (map (sealed_chunk sc key (nonce_prefix cr key blob)
      (blob_header blob (nonce_prefix cr key blob)) (length file) ?p file) [0..<blob_chunks ?p]))
      = min ?p (blob_chunks ?p * CHUNK_LEN) + AEAD_TAG_LEN * blob_chunks ?p"
    using sealed_chunk_law(2) [OF assms(1) p(1)] p(2) by (intro length_concat_windows) simp_all
  ultimately show ?thesis
    by (simp only: blob_of_def Let_def written_def length_append length_blob_header min_absorb1)
qed

lemma blob_len_word:
  assumes "stream_law sc" and "length file \<le> 2 ^ 31"
  shows "of_nat (length (blob_of cr sc file blob key))
      = ciphertext_len_for_padded (of_nat (blob_padded (length file)))"
    and "is_valid_blob_ciphertext_len (of_nat (length (blob_of cr sc file blob key)))"
proof -
  note p = blob_padded_bounds [OF assms(2)]
  show len: "of_nat (length (blob_of cr sc file blob key))
      = ciphertext_len_for_padded (of_nat (blob_padded (length file)))"
    using p by (simp add: length_blob_of [OF assms] ciphertext_len_word)
  show "is_valid_blob_ciphertext_len (of_nat (length (blob_of cr sc file blob key)))"
    unfolding len using p by (intro valid_ciphertext_len) (simp_all add: blob_padded_def padme_nat_padded)
qed

lemma decrypt_outcome:
  assumes "stream_law sc" and "snk_fault out = None" and n: "length file \<le> 2 ^ 31"
  shows "decrypt_blob_to cr sc (slice_source (blob_of cr sc file blob key))
      (ref_of cr (blob_of cr sc file blob key) (length file) blob key) out
    = Inr (hash cr file, out\<lparr>snk_bytes := snk_bytes out @ file\<rparr>)"
proof -
  let ?n = "length file" and ?ct = "blob_of cr sc file blob key"
  let ?p = "blob_padded ?n"
  let ?room = "?p + AEAD_TAG_LEN * blob_chunks ?p"
  let ?prefix = "nonce_prefix cr key blob"
  let ?hdr = "blob_header blob ?prefix"
  let ?chunks = "concat (map (sealed_chunk sc key ?prefix ?hdr ?n ?p file) [0..<blob_chunks ?p])"
  let ?I = "dec_at sc key ?prefix ?hdr ?p file out"
  let ?f = "decrypt_chunk sc key ?prefix ?hdr (of_nat ?room) (of_nat (blob_chunks ?p))"
  let ?start = "\<lparr>df_file = slice_source ?chunks, df_out = out, df_hash = [], df_len = 0,
      df_remaining = 0, df_padding_ok = True\<rparr>"
  have p: "?n + 8 \<le> ?p" "?p \<le> 2 ^ 58" "0 < ?p" using blob_padded_bounds [OF n] by simp_all
  have ct: "?ct = ?hdr @ ?chunks" by (simp add: blob_of_def Let_def written_def)
  have read: "read_exact (slice_source ?ct) (length ?hdr) = Inr (?hdr, slice_source ?chunks)"
    by (simp add: ct read_exact_def slice_source_def)
  have room: "of_nat (length ?ct) - of_nat (length ?hdr) = (of_nat ?room :: u64)"
    by (simp add: length_blob_of [OF assms(1) n] length_blob_header)
  have count: "div_ceil (of_nat ?room) (of_nat (CHUNK_LEN + AEAD_TAG_LEN)) = of_nat (blob_chunks ?p)"
    using p by (intro sealed_count_word)
  have range: "range_u64 (of_nat (blob_chunks ?p)) = map of_nat [0..<blob_chunks ?p]"
    using p(2) blob_chunks_le [of ?p] by (simp add: range_u64_def unat_of_nat_u64)
  have "?I 0 ?start" by (simp add: dec_at_def Let_def)
  then obtain t where run: "try_fold ?f ?start (map of_nat [0..<blob_chunks ?p]) = Inr t"
      and at: "?I (blob_chunks ?p) t"
    using try_fold_upt [of 0 "blob_chunks ?p" ?I ?f of_nat ?start]
      decrypt_chunk_step [OF assms(1) p(1,2) _ assms(2)] by blast
  have "0 < blob_chunks ?p" using chunk_below [OF p(3), of 0] p(3) by simp
  then have done_at: "df_file t = slice_source []" "df_padding_ok t" "df_len t = of_nat ?n"
      "df_hash t = file" "df_out t = out\<lparr>snk_bytes := snk_bytes out @ file\<rparr>"
    using at taken_all [OF p(1)] by (simp_all add: dec_at_def Let_def)
  show ?thesis
    unfolding decrypt_blob_to_def Let_def ref_of_def blob_ref.simps
      read room count range map_err_simps and_then_simps prod.case run
    by (simp add: read_extra_def slice_source_def done_at blob_len_word(2) [OF assms(1) n])
qed

text \<open>
  C26. A blob opens to its file. A file of at most 2 GiB always encrypts, to the length
  \<open>blob_ciphertext_len\<close> tells, which the server's check of lengths accepts; the reference
  names the ciphertext by its length and its segment digest; and the ciphertext decrypts under the
  reference to the file, unless a revision is asked for that is not the file's hash.
\<close>

theorem blob_opens:
  assumes "stream_law sc" and "length file \<le> 2 ^ 31"
  shows "\<exists>ct ref. encrypt_blob cr sc file blob key = Inr (ct, ref)
    \<and> of_nat (length ct) = blob_ciphertext_len (of_nat (length file))
    \<and> is_valid_blob_ciphertext_len (br_ciphertext_length ref)
    \<and> ref = \<lparr>br_blob = blob, br_ciphertext_length = of_nat (length ct),
        br_ciphertext_digest = ciphertext_digest cr ct, br_blob_key = key,
        br_plaintext_length = of_nat (length file)\<rparr>
    \<and> decrypt_blob cr sc ct ref revision
      = (if revision = None \<or> revision = Some (hash cr file) then Inr file else Inl Blob_Revision)"
proof -
  let ?ct = "blob_of cr sc file blob key"
  let ?ref = "ref_of cr ?ct (length file) blob key"
  have none: "snk_fault vec_sink = None" "snk_bytes vec_sink = []" by (simp_all add: vec_sink_def)
  have "encrypt_blob cr sc file blob key = Inr (?ct, ?ref)"
    by (simp add: encrypt_blob_def encrypt_outcome [OF assms(1) none(1) assms(2)] slice_source_def
        Let_def none)
  moreover have "of_nat (length ?ct) = blob_ciphertext_len (of_nat (length file))"
    by (simp add: blob_len_word(1) [OF assms] blob_ciphertext_len_def blob_padded_word [OF assms(2)])
  moreover have "decrypt_blob cr sc ?ct ?ref revision
      = (if revision = None \<or> revision = Some (hash cr file) then Inr file else Inl Blob_Revision)"
    unfolding decrypt_blob_def decrypt_outcome [OF assms(1) none(1) assms(2)]
    using blob_len_word(2) [OF assms] by (simp add: ref_of_def none ensure_def)
  moreover have "is_valid_blob_ciphertext_len (br_ciphertext_length ?ref)"
    by (simp add: ref_of_def blob_len_word(2) [OF assms])
  moreover have "?ref = \<lparr>br_blob = blob, br_ciphertext_length = of_nat (length ?ct),
        br_ciphertext_digest = ciphertext_digest cr ?ct, br_blob_key = key,
        br_plaintext_length = of_nat (length file)\<rparr>"
    by (simp add: ref_of_def)
  ultimately show ?thesis by blast
qed

text \<open>
  Encrypting a stream gives what encrypting the whole file gives, and a file that changes
  while it is read is found out. For a file declared to have at most 2 GiB and a sink that
  takes every write: a source that ends early fails with \<open>FileChanged\<close> or with its own error,
  one that has a byte more with \<open>FileChanged\<close>, and one that gives exactly the declared bytes
  leaves in the sink the bytes that \<open>encrypt_blob\<close> returns, with the same reference and the
  hash of the file.
\<close>

theorem streamed_encryption:
  assumes "stream_law sc" and "snk_fault out = None" and "n \<le> 2 ^ 31"
  shows "encrypt_blob_to cr sc src (of_nat n) blob key out =
    (if length (src_bytes src) < n
     then Inl (case src_fault src of Some (Io_Other code) \<Rightarrow> Blob_Io (Io_Other code)
                | _ \<Rightarrow> Blob_FileChanged)
     else if n < length (src_bytes src) then Inl Blob_FileChanged
     else case src_fault src of Some kind \<Rightarrow> Inl (Blob_Io kind)
       | None \<Rightarrow> and_then (encrypt_blob cr sc (src_bytes src) blob key) (\<lambda>(ct, ref).
           Inr ((ref, hash cr (src_bytes src)), out\<lparr>snk_bytes := snk_bytes out @ ct\<rparr>)))"
proof -
  have "short_file src = (case src_fault src of Some (Io_Other code) \<Rightarrow> Blob_Io (Io_Other code)
      | _ \<Rightarrow> Blob_FileChanged)"
    by (auto simp: short_file_def map_eof_def split: option.splits io_kind.splits)
  moreover have none: "snk_fault vec_sink = None" "snk_bytes vec_sink = []"
    by (simp_all add: vec_sink_def)
  moreover have "encrypt_blob cr sc (src_bytes src) blob key
      = Inr (blob_of cr sc (src_bytes src) blob key,
             ref_of cr (blob_of cr sc (src_bytes src) blob key) n blob key)"
    if "length (src_bytes src) = n"
    using that assms(3) encrypt_outcome [OF assms(1) none(1), of "length (src_bytes src)" cr
        "slice_source (src_bytes src)"]
    by (simp add: encrypt_blob_def slice_source_def Let_def none)
  ultimately show ?thesis
    unfolding encrypt_outcome [OF assms] by (auto simp: Let_def split: option.splits)
qed

end
