(* ===== verification/Blob_Format.thy ===== *)
theory Blob_Format
  imports Blob_Theorems Manifest_Laws
begin

text \<open>
  The converse of \<open>blob_opens\<close>: what \<open>decrypt_blob\<close> accepts has the format of \<^verbatim>\<open>blob.rs\<close>,
  whoever made it. \<open>stream_opens\<close> is what this relies on of the stream cipher: a chunk that
  opens gives 16 bytes less. A slice has less than \<open>2 ^ 63\<close> bytes, as any Rust allocation.
\<close>

definition stream_opens :: "stream_cipher \<Rightarrow> bool" where
  "stream_opens sc \<longleftrightarrow>
     (\<forall>key prefix i final aad c m. stream_decrypt sc key prefix i final aad c = Some m \<longrightarrow>
        length c = length m + AEAD_TAG_LEN)"

lemma try_fold_upt_inv:
  assumes "try_fold f s (map g [m..<n]) = Inr t" and "I m s" and "m \<le> n"
    and "\<And>i s s'. m \<le> i \<Longrightarrow> i < n \<Longrightarrow> I i s \<Longrightarrow> f s (g i) = Inr s' \<Longrightarrow> I (Suc i) s'"
  shows "I n t"
  using assms
proof (induction "n - m" arbitrary: m s)
  case (Suc k)
  then have less: "m < n" by simp
  obtain s' where "f s (g m) = Inr s'" and rest: "try_fold f s' (map g [Suc m..<n]) = Inr t"
    using Suc.prems(1) less by (auto simp: upt_conv_Cons)
  then have "I (Suc m) s'" using Suc.prems(2,4) less by blast
  then show ?case
    using Suc.hyps(1) [OF _ rest] Suc.hyps(2) Suc.prems(4) less by simp
qed simp

subsection \<open>Valid lengths\<close>

lemma sealed_room:
  assumes "p < 2 ^ 63"
  shows "header_len + (p + AEAD_TAG_LEN * blob_chunks p) < 2 ^ 64"
proof (cases "p = 0")
  case False
  then have pos: "0 < p" by simp
  then have "0 < blob_chunks p" using chunk_below [of p 0] by simp
  then have "(blob_chunks p - 1) * CHUNK_LEN < p"
    using chunk_below [OF pos, of "blob_chunks p - 1"] by simp
  then have "blob_chunks p * CHUNK_LEN < p + CHUNK_LEN"
    by (simp add: diff_mult_distrib)
  then show ?thesis
    using assms by (simp add: CHUNK_LEN_def AEAD_TAG_LEN_def header_len_eq)
qed (simp add: blob_chunks_def ceil_nat_def header_len_eq CHUNK_LEN_def)

text \<open>The server's check of a length finds the padded plaintext.\<close>

lemma valid_len_parts:
  assumes valid: "is_valid_blob_ciphertext_len (of_nat m)" and m: "m < 2 ^ 63"
  obtains p where "m = header_len + (p + AEAD_TAG_LEN * blob_chunks p)" and "256 \<le> p"
    and "is_valid_padded_length (of_nat p)"
    and "div_ceil (of_nat (m - header_len)) (of_nat (CHUNK_LEN + AEAD_TAG_LEN)) = of_nat (blob_chunks p)"
proof -
  let ?room = "m - header_len"
  let ?c = "ceil_nat ?room (CHUNK_LEN + AEAD_TAG_LEN)"
  have unat_m: "unat (of_nat m :: u64) = m" using m by (simp add: unat_of_nat_u64)
  have hdr: "header_len \<le> m"
    using valid unat_m by (auto simp: is_valid_blob_ciphertext_len_def checked_sub_def word_le_nat_alt
        header_len_eq unat_of_nat_u64 split: if_splits)
  then have room: "of_nat m - of_nat header_len = (of_nat ?room :: u64)" by (simp add: of_nat_diff)
  have unat_room: "unat (of_nat ?room :: u64) = ?room" using m by (simp add: unat_of_nat_u64)
  have "?c \<le> ?room div (CHUNK_LEN + AEAD_TAG_LEN) + 1"
    by (simp add: ceil_nat_eq CHUNK_LEN_def)
  also have "?room div (CHUNK_LEN + AEAD_TAG_LEN) \<le> ?room div 32"
    by (intro div_le_mono2) (simp_all add: CHUNK_LEN_def)
  also have "?room div 32 < 2 ^ 58" using m by (simp add: less_mult_imp_div_less)
  finally have c: "?c < 2 ^ 59" by simp
  then have tags: "?c * AEAD_TAG_LEN < 2 ^ 64" by (simp add: AEAD_TAG_LEN_def)
  have count: "div_ceil (of_nat ?room) (of_nat (CHUNK_LEN + AEAD_TAG_LEN)) = of_nat ?c"
    using c chunk_words(2) unat_room
    by (intro word_eqI_unat) (simp add: unat_div_ceil unat_of_nat_u64 CHUNK_LEN_def)
  obtain w where w: "checked_sub (of_nat ?room) (of_nat ?c * of_nat AEAD_TAG_LEN) = Some w"
      and pad: "is_valid_padded_length w" and len: "ciphertext_len_for_padded w = of_nat m"
    using valid unfolding is_valid_blob_ciphertext_len_def
    by (auto simp: checked_sub_def [of "of_nat m"] Let_def room count simp del: of_nat_add
        split: if_splits option.splits)
  have "of_nat ?c * of_nat AEAD_TAG_LEN = (of_nat (?c * AEAD_TAG_LEN) :: u64)" by simp
  then have le: "?c * AEAD_TAG_LEN \<le> ?room"
      and w_diff: "w = of_nat ?room - of_nat (?c * AEAD_TAG_LEN)"
    using w unat_room unat_of_nat_u64 [OF tags]
    by (simp_all add: checked_sub_def word_le_nat_alt del: of_nat_mult split: if_splits)
  have w_eq: "w = of_nat (?room - ?c * AEAD_TAG_LEN)"
    by (simp only: of_nat_diff [OF le] w_diff)
  define p where "p = ?room - ?c * AEAD_TAG_LEN"
  have p: "p < 2 ^ 63" "p < 2 ^ 64" using m by (simp_all add: p_def)
  have "of_nat (header_len + (p + AEAD_TAG_LEN * blob_chunks p)) = (of_nat m :: u64)"
    using len by (simp only: w_eq flip: p_def) (simp only: ciphertext_len_word [OF p(2)])
  then have m_eq: "m = header_len + (p + AEAD_TAG_LEN * blob_chunks p)"
    using unat_m unat_of_nat_u64 [OF sealed_room [OF p(1)]] by simp
  then have "AEAD_TAG_LEN * blob_chunks p = ?c * AEAD_TAG_LEN"
    using le hdr unfolding p_def by linarith
  then have chunks: "?c = blob_chunks p" by (simp add: AEAD_TAG_LEN_def)
  have padded: "is_valid_padded_length (of_nat p)"
    using pad unfolding w_eq p_def .
  then have "256 \<le> p"
    using unat_of_nat_u64 [OF p(2)]
    by (simp add: is_valid_padded_length_def MIN_PADDED_LEN_def word_le_nat_alt)
  from m_eq this padded count [unfolded chunks] show thesis by (rule that)
qed

subsection \<open>What the decrypting loop accepted\<close>

text \<open>One chunk more: the file's bytes and the padding of the plaintext \<open>x\<close> and one chunk.\<close>

lemma plain_step:
  assumes "x = [] \<and> start = 8 \<and> 8 \<le> length y \<or> 8 \<le> length x \<and> start = 0"
    and "n = min (length y - start) (len - (length x - 8))"
  shows "take len (drop 8 x) @ take n (drop start y) = take len (drop 8 (x @ y))"
    and "list_all z (drop (8 + len) x) \<and> list_all z (drop (start + n) y) \<longleftrightarrow> list_all z (drop (8 + len) (x @ y))"
    and "len - (length x - 8) - n = len - (length (x @ y) - 8)"
proof -
  show "len - (length x - 8) - n = len - (length (x @ y) - 8)"
    using assms by auto
  show "take len (drop 8 x) @ take n (drop start y) = take len (drop 8 (x @ y))"
    using assms by (auto simp: min_def)
  show "list_all z (drop (8 + len) x) \<and> list_all z (drop (start + n) y) \<longleftrightarrow> list_all z (drop (8 + len) (x @ y))"
    using assms by (auto simp: min_def add.commute)
qed

text \<open>
  The chunks \<open>cs\<close> the loop read and what they opened to, each at its own position and only
  the last with the last-chunk flag, and what the loop made of the plaintext so far.
\<close>

definition opened_chunks ::
  "stream_cipher \<Rightarrow> secret_key \<Rightarrow> byte list \<Rightarrow> byte list \<Rightarrow> nat \<Rightarrow> byte list list \<Rightarrow> byte list list
   \<Rightarrow> bool" where
  "opened_chunks sc key prefix hdr count cs ops \<longleftrightarrow>
     length ops = length cs
     \<and> (\<forall>j < length cs. stream_decrypt sc (secret_val key) prefix (ucast (of_nat j :: u64))
           (of_nat j + 1 = (of_nat count :: u64)) hdr (cs ! j) = Some (ops ! j))"

definition read_at ::
  "stream_cipher \<Rightarrow> secret_key \<Rightarrow> byte list \<Rightarrow> byte list \<Rightarrow> nat \<Rightarrow> byte list \<Rightarrow> sink \<Rightarrow> nat
   \<Rightarrow> decrypting \<Rightarrow> bool" where
  "read_at sc key prefix hdr p bytes out i s \<longleftrightarrow>
     (\<exists>cs ops. opened_chunks sc key prefix hdr (blob_chunks p) cs ops \<and> length cs = i
        \<and> bytes = concat cs @ src_bytes (df_file s) \<and> src_fault (df_file s) = None
        \<and> length (concat ops) = min p (i * CHUNK_LEN)
        \<and> snk_bytes (df_out s) = snk_bytes out @ df_hash s
        \<and> (i = 0 \<longrightarrow> df_hash s = [] \<and> df_padding_ok s)
        \<and> (0 < i \<longrightarrow>
             df_len s = bytes_word (take 8 (concat ops)) \<and> unat (df_len s) + 8 \<le> p
             \<and> df_hash s = take (unat (df_len s)) (drop 8 (concat ops))
             \<and> df_remaining s = of_nat (unat (df_len s) - (length (concat ops) - 8))
             \<and> (df_padding_ok s \<longleftrightarrow>
                  list_all (\<lambda>b. b = 0) (drop (8 + unat (df_len s)) (concat ops)))))"

lemma opened_chunks_snoc:
  assumes "opened_chunks sc key prefix hdr count cs ops"
    and "stream_decrypt sc (secret_val key) prefix (ucast (of_nat (length cs) :: u64))
           (of_nat (length cs) + 1 = (of_nat count :: u64)) hdr c = Some y"
  shows "opened_chunks sc key prefix hdr count (cs @ [c]) (ops @ [y])"
  using assms by (auto simp: opened_chunks_def nth_append less_Suc_eq)

lemma write_all_ok: "write_all k bytes = Inr k' \<Longrightarrow> snk_bytes k' = snk_bytes k @ bytes"
  by (auto simp: write_all_def split: option.splits if_splits)

lemma read_exact_ok:
  "read_exact s n = Inr (bytes, s') \<Longrightarrow>
     src_bytes s = bytes @ src_bytes s' \<and> length bytes = n \<and> src_fault s' = src_fault s"
  by (auto simp: read_exact_def split: if_splits option.splits)

lemma read_file_len_Inr:
  assumes "read_file_len (of_nat (p + AEAD_TAG_LEN * blob_chunks p)) (of_nat (blob_chunks p)) s opened
      = Inr s'" and "p < 2 ^ 64"
  shows "s' = s\<lparr>df_len := bytes_word (take 8 opened), df_remaining := bytes_word (take 8 opened)\<rparr>"
    and "unat (bytes_word (take 8 opened) :: u64) + 8 \<le> p"
proof -
  let ?len = "bytes_word (take 8 opened) :: u64"
  have padded: "of_nat (p + AEAD_TAG_LEN * blob_chunks p) - of_nat (blob_chunks p) * of_nat AEAD_TAG_LEN
      = (of_nat p :: u64)"
    by (simp add: mult.commute)
  have no_wrap: "?len \<le> ?len + 8" and "?len + 8 \<le> of_nat p"
    and s': "s' = s\<lparr>df_len := ?len, df_remaining := ?len\<rparr>"
    using assms(1) unfolding read_file_len_def padded Let_def
    by (auto simp: checked_add_def split: if_splits)
  then have "unat (?len + 8) \<le> p"
    using unat_of_nat_u64 [OF assms(2)] by (simp add: word_le_nat_alt)
  moreover have "unat (?len + 8) = unat ?len + unat (8 :: u64)"
    using no_wrap unat_plus_simple [of ?len 8] by blast
  ultimately show "unat ?len + 8 \<le> p" by simp
  show "s' = s\<lparr>df_len := ?len, df_remaining := ?len\<rparr>" by (rule s')
qed

lemma read_step:
  assumes opens: "stream_opens sc" and p: "256 \<le> p" "p < 2 ^ 63"
    and i: "i < blob_chunks p" and at: "read_at sc key prefix hdr p bytes out i s"
    and ok: "decrypt_chunk sc key prefix hdr (of_nat (p + AEAD_TAG_LEN * blob_chunks p))
      (of_nat (blob_chunks p)) s (of_nat i) = Inr s'"
  shows "read_at sc key prefix hdr p bytes out (Suc i) s'"
proof -
  have room: "p + AEAD_TAG_LEN * blob_chunks p < 2 ^ 64" and pos: "0 < p" and p64: "p < 2 ^ 64"
    using sealed_room [OF p(2)] p by simp_all
  have "i < 2 ^ 64" using i blob_chunks_le [of p] p64 by simp
  note zero = of_nat_zero_iff [OF this]
  obtain cs ops where cs: "opened_chunks sc key prefix hdr (blob_chunks p) cs ops" "length cs = i"
      and bytes: "bytes = concat cs @ src_bytes (df_file s)" "src_fault (df_file s) = None"
      and len: "length (concat ops) = min p (i * CHUNK_LEN)"
      and out: "snk_bytes (df_out s) = snk_bytes out @ df_hash s"
      and fresh: "i = 0 \<longrightarrow> df_hash s = [] \<and> df_padding_ok s"
      and later: "0 < i \<longrightarrow>
             df_len s = bytes_word (take 8 (concat ops)) \<and> unat (df_len s) + 8 \<le> p
             \<and> df_hash s = take (unat (df_len s)) (drop 8 (concat ops))
             \<and> df_remaining s = of_nat (unat (df_len s) - (length (concat ops) - 8))
             \<and> (df_padding_ok s \<longleftrightarrow>
                  list_all (\<lambda>b. b = 0) (drop (8 + unat (df_len s)) (concat ops)))"
    using at unfolding read_at_def by blast
  have window: "unat (min (of_nat (p + AEAD_TAG_LEN * blob_chunks p)
        - of_nat i * of_nat (CHUNK_LEN + AEAD_TAG_LEN)) (of_nat (CHUNK_LEN + AEAD_TAG_LEN)) :: u64)
      = chunk_len p i + AEAD_TAG_LEN"
    by (rule sealed_read_word [OF pos room i])
  let ?start = "if i = 0 then 8 else 0 :: nat"
  obtain c src y s1 k where
        read: "read_exact (df_file s) (chunk_len p i + AEAD_TAG_LEN) = Inr (c, src)"
    and open_c: "stream_decrypt sc (secret_val key) prefix (ucast (of_nat i :: u64))
           (of_nat i + 1 = (of_nat (blob_chunks p) :: u64)) hdr c = Some y"
    and first: "(if i = 0 then read_file_len (of_nat (p + AEAD_TAG_LEN * blob_chunks p))
           (of_nat (blob_chunks p)) s y else Inr s) = Inr s1"
    and sunk: "write_all (df_out s1) (take (unat (min (of_nat (length y - ?start)) (df_remaining s1)))
           (drop ?start y)) = Inr k"
    and s': "s' = s1\<lparr>df_file := src, df_out := k,
        df_hash := df_hash s1 @ take (unat (min (of_nat (length y - ?start)) (df_remaining s1))) (drop ?start y),
        df_remaining := df_remaining s1 - of_nat (unat (min (of_nat (length y - ?start)) (df_remaining s1))),
        df_padding_ok := df_padding_ok s1 \<and> list_all (\<lambda>b. b = 0)
          (drop (?start + unat (min (of_nat (length y - ?start)) (df_remaining s1))) y)\<rparr>"
    using ok unfolding decrypt_chunk_def Let_def window zero by auto
  have y: "length y = chunk_len p i"
    using opens open_c read_exact_ok [OF read] unfolding stream_opens_def by fastforce
  let ?x = "concat ops"
  let ?L = "unat (df_len s1)"
  have below: "i * CHUNK_LEN < p" using i pos by (simp add: chunk_below)
  then have x: "length ?x = i * CHUNK_LEN" using len by simp
  have xy: "length (?x @ y) = min p (Suc i * CHUNK_LEN)"
    using below y x by (simp add: chunk_len_def)
  have shape: "?x = [] \<and> ?start = 8 \<and> 8 \<le> length y \<or> 8 \<le> length ?x \<and> ?start = 0"
    using p(1) x y by (cases i) (simp_all add: chunk_len_def CHUNK_LEN_def)
  have s1: "df_len s1 = bytes_word (take 8 (?x @ y)) \<and> ?L + 8 \<le> p \<and> df_remaining s1 = of_nat (?L - (length ?x - 8))
      \<and> df_hash s1 = take ?L (drop 8 ?x) \<and> df_out s1 = df_out s \<and> df_hash s1 = df_hash s
      \<and> (df_padding_ok s1 \<longleftrightarrow> list_all (\<lambda>b. b = 0) (drop (8 + ?L) ?x))"
  proof (cases "i = 0")
    case True
    then have "?x = []" using x by (simp only: length_0_conv mult_0)
    then show ?thesis
      unfolding \<open>?x = []\<close> using first read_file_len_Inr [OF _ p64, of s y s1] fresh True by simp
  next
    case False
    then have "8 \<le> length ?x" using shape by auto
    then show ?thesis using first later False by auto
  qed
  define n where "n = min (length y - ?start) (?L - (length ?x - 8))"
  have "length y - ?start < 2 ^ 64"
    using y chunk_len_le [of p i] by (simp add: CHUNK_LEN_def)
  moreover have "?L < 2 ^ 64" using s1 p64 by linarith
  then have "?L - (length ?x - 8) < 2 ^ 64" by linarith
  ultimately have count: "unat (min (of_nat (length y - ?start)) (df_remaining s1)) = n"
    using s1 by (simp only: n_def unat_min_u64)
  note step = plain_step [OF shape n_def]
  have "n \<le> ?L - (length ?x - 8)" by (simp add: n_def)
  then have left: "df_remaining s1 - of_nat n = of_nat (?L - (length (?x @ y) - 8))"
    using s1 step(3) by (metis of_nat_diff)
  have len': "df_len s' = df_len s1" unfolding s' by simp
  have out': "snk_bytes (df_out s') = snk_bytes out @ df_hash s'"
  proof -
    have "df_out s1 = df_out s" "df_hash s1 = df_hash s" using s1 by blast+
    then show ?thesis using write_all_ok [OF sunk] out by (simp add: s')
  qed
  have plain: "df_len s' = bytes_word (take 8 (?x @ y)) \<and> unat (df_len s') + 8 \<le> p
      \<and> df_hash s' = take (unat (df_len s')) (drop 8 (?x @ y))
      \<and> df_remaining s' = of_nat (unat (df_len s') - (length (?x @ y) - 8))
      \<and> (df_padding_ok s' \<longleftrightarrow> list_all (\<lambda>b. b = 0) (drop (8 + unat (df_len s')) (?x @ y)))"
  proof -
    have hash: "df_hash s1 = take ?L (drop 8 ?x)"
        and pad: "df_padding_ok s1 \<longleftrightarrow> list_all (\<lambda>b. b = 0) (drop (8 + ?L) ?x)"
        and "df_len s1 = bytes_word (take 8 (?x @ y))" "?L + 8 \<le> p"
      using s1 by blast+
    have "df_hash s' = df_hash s1 @ take n (drop ?start y)"
        "df_padding_ok s' \<longleftrightarrow> df_padding_ok s1 \<and> list_all (\<lambda>b. b = 0) (drop (?start + n) y)"
        "df_remaining s' = df_remaining s1 - of_nat n"
      unfolding s' count by simp_all
    then show ?thesis
      unfolding len' left hash pad step using \<open>df_len s1 = _\<close> \<open>?L + 8 \<le> p\<close> by blast
  qed
  have "opened_chunks sc key prefix hdr (blob_chunks p) (cs @ [c]) (ops @ [y])"
    using opened_chunks_snoc [OF cs(1)] open_c cs(2) by blast
  moreover have "bytes = concat (cs @ [c]) @ src_bytes (df_file s')" "src_fault (df_file s') = None"
    using bytes read_exact_ok [OF read] by (simp_all add: s')
  moreover have "concat (ops @ [y]) = ?x @ y" "length (cs @ [c]) = Suc i" using cs(2) by simp_all
  ultimately show ?thesis
    unfolding read_at_def using out' plain xy by (metis nat.distinct(1))
qed

subsection \<open>Accepted blobs\<close>

lemma opened_positions:
  assumes "opened_chunks sc key prefix hdr count cs ops" and "length cs = count" and "count < 2 ^ 64"
    and "j < length cs"
  shows "stream_decrypt sc (secret_val key) prefix (of_nat j) (j + 1 = length cs) hdr (cs ! j) = Some (ops ! j)"
proof -
  have "unat (of_nat (j + 1) :: u64) = j + 1" "unat (of_nat count :: u64) = count"
    using assms by (intro unat_of_nat_u64, simp)+
  then have "of_nat j + 1 = (of_nat count :: u64) \<longleftrightarrow> j + 1 = length cs"
    using assms(2) by (metis of_nat_1 of_nat_add)
  moreover have "ucast (of_nat j :: u64) = (of_nat j :: u32)"
    by (rule word_eqI_unat) (simp add: unat_of_nat unsigned_ucast_eq take_bit_eq_mod mod_mod_cancel)
  moreover have "stream_decrypt sc (secret_val key) prefix (ucast (of_nat j :: u64))
      (of_nat j + 1 = (of_nat count :: u64)) hdr (cs ! j) = Some (ops ! j)"
    using assms(1,4) unfolding opened_chunks_def by blast
  ultimately show ?thesis by (simp only:)
qed

lemma decrypt_to_format:
  assumes "stream_opens sc" and m: "length ct < 2 ^ 63" and "br_ciphertext_length bref = of_nat (length ct)"
    and out: "snk_bytes out = []"
    and ok: "decrypt_blob_to cr sc (slice_source ct) bref out = Inr (h, out')"
  defines "hdr \<equiv> blob_header (br_blob bref) (nonce_prefix cr (br_blob_key bref) (br_blob bref))"
  shows "\<exists>cs ops k. ct = hdr @ concat cs \<and> length ops = length cs
      \<and> (\<forall>j < length cs. stream_decrypt sc (secret_val (br_blob_key bref))
            (nonce_prefix cr (br_blob_key bref) (br_blob bref)) (of_nat j) (j + 1 = length cs) hdr (cs ! j)
            = Some (ops ! j))
      \<and> concat ops = word_bytes 8 (br_plaintext_length bref) @ snk_bytes out' @ replicate k 0
      \<and> length (snk_bytes out') = unat (br_plaintext_length bref)
      \<and> is_valid_padded_length (of_nat (length (concat ops))) \<and> h = hash cr (snk_bytes out')"
proof -
  let ?key = "br_blob_key bref"
  let ?prefix = "nonce_prefix cr ?key (br_blob bref)"
  have hdr_len: "length hdr = header_len" by (simp add: hdr_def length_blob_header)
  have "is_valid_blob_ciphertext_len (of_nat (length ct))"
    using ok by (auto simp: decrypt_blob_to_def Let_def assms(3))
  then obtain p where len: "length ct = header_len + (p + AEAD_TAG_LEN * blob_chunks p)" and p: "256 \<le> p"
      and pad: "is_valid_padded_length (of_nat p)"
      and count: "div_ceil (of_nat (length ct - header_len)) (of_nat (CHUNK_LEN + AEAD_TAG_LEN)) = of_nat (blob_chunks p)"
    using m by (rule valid_len_parts)
  have p63: "p < 2 ^ 63" and pos: "0 < p" using m len p by simp_all
  have room: "of_nat (length ct) - of_nat (length hdr) = (of_nat (p + AEAD_TAG_LEN * blob_chunks p) :: u64)"
    by (simp add: len hdr_len)
  have count': "div_ceil (of_nat (p + AEAD_TAG_LEN * blob_chunks p)) (of_nat (CHUNK_LEN + AEAD_TAG_LEN))
      = of_nat (blob_chunks p)"
    using count by (simp add: len)
  have chunks64: "blob_chunks p < 2 ^ 64" using blob_chunks_le [of p] p63 by simp
  then have range: "range_u64 (of_nat (blob_chunks p)) = map of_nat [0..<blob_chunks p]"
    by (simp add: range_u64_def unat_of_nat_u64)
  have found: "take (length hdr) ct = hdr"
    and read: "read_exact (slice_source ct) (length hdr) = Inr (hdr, slice_source (drop (length hdr) ct))"
    using ok len by (auto simp: decrypt_blob_to_def Let_def read_exact_def slice_source_def hdr_len simp flip: hdr_def)
  let ?start = "\<lparr>df_file = slice_source (drop (length hdr) ct), df_out = out, df_hash = [], df_len = 0,
      df_remaining = 0, df_padding_ok = True\<rparr>"
  obtain t where run: "try_fold (decrypt_chunk sc ?key ?prefix hdr (of_nat (p + AEAD_TAG_LEN * blob_chunks p))
        (of_nat (blob_chunks p))) ?start (map of_nat [0..<blob_chunks p]) = Inr t"
      and extra: "read_extra (df_file t) = Inr 0" and padding: "df_padding_ok t"
      and plain: "df_len t = br_plaintext_length bref" and h: "h = hash cr (df_hash t)" and out': "out' = df_out t"
    using ok unfolding decrypt_blob_to_def Let_def assms(3) hdr_def [symmetric] read room count' range
    by auto
  have "read_at sc ?key ?prefix hdr p (drop (length hdr) ct) out 0 ?start"
    using out pos by (simp add: read_at_def opened_chunks_def slice_source_def)
  then have "read_at sc ?key ?prefix hdr p (drop (length hdr) ct) out (blob_chunks p) t"
    using try_fold_upt_inv [OF run, of "read_at sc ?key ?prefix hdr p (drop (length hdr) ct) out"]
      read_step [OF assms(1) p p63] by blast
  then obtain cs ops where chunks: "opened_chunks sc ?key ?prefix hdr (blob_chunks p) cs ops" "length cs = blob_chunks p"
      and bytes: "drop (length hdr) ct = concat cs @ src_bytes (df_file t)"
      and total: "length (concat ops) = min p (blob_chunks p * CHUNK_LEN)"
      and sunk: "snk_bytes (df_out t) = df_hash t"
      and at: "df_len t = bytes_word (take 8 (concat ops))" "unat (df_len t) + 8 \<le> p"
        "df_hash t = take (unat (df_len t)) (drop 8 (concat ops))"
        "df_padding_ok t \<longleftrightarrow> list_all (\<lambda>b. b = 0) (drop (8 + unat (df_len t)) (concat ops))"
    unfolding read_at_def using out chunk_below [OF pos, of 0] pos by auto
  let ?x = "concat ops" and ?L = "unat (df_len t)"
  have x: "length ?x = p" using total chunk_below [OF pos, of "blob_chunks p"] by simp
  have "ct = hdr @ concat cs"
    using found bytes extra by (metis append_Nil2 append_take_drop_id read_extra_def sum.inject(2) sum.distinct(1) option.exhaust option.simps(4,5) zero_neq_one)
  moreover have "word_bytes 8 (br_plaintext_length bref) = take 8 ?x"
    using x p by (simp add: word_bytes_bytes_word flip: plain) (simp add: at(1) word_bytes_bytes_word)
  moreover have "drop (8 + ?L) ?x = replicate (p - (8 + ?L)) 0"
    using at(4) padding x by (intro replicate_eqI) (auto simp: list_all_iff)
  then have "?x = take 8 ?x @ df_hash t @ replicate (p - (8 + ?L)) 0"
    by (metis append_take_drop_id at(3) drop_drop add.commute)
  moreover have "length (df_hash t) = ?L" using at(2,3) x by simp
  moreover have "length ops = length cs" using chunks(1) by (simp add: opened_chunks_def)
  ultimately show ?thesis
    using opened_positions [OF chunks(1,2) chunks64] pad x h sunk out' plain
    by (intro exI [of _ cs] exI [of _ ops] exI [of _ "p - (8 + ?L)"]) simp
qed

text \<open>
  C25. What \<open>decrypt_blob\<close> accepts has the format of a blob, whoever made it. The ciphertext has the
  length and the segment digest the reference names; it is the header of this blob and key and sealed
  chunks that each opened at their own position, only the last with the last-chunk flag; the
  opened chunks are the file's length, the file and zeros, of a valid padded length; the file
  has the length the reference names, and the revision when one was asked for.
\<close>

theorem accepted_blob_format:
  assumes "stream_opens sc" and "length ct < 2 ^ 63"
    and "decrypt_blob cr sc ct bref revision = Inr file"
  shows "unat (br_ciphertext_length bref) = length ct
    \<and> br_ciphertext_digest bref = ciphertext_digest cr ct
    \<and> (\<exists>cs ops k. ct = blob_header (br_blob bref) (nonce_prefix cr (br_blob_key bref) (br_blob bref)) @ concat cs
      \<and> length ops = length cs
      \<and> (\<forall>j < length cs. stream_decrypt sc (secret_val (br_blob_key bref))
            (nonce_prefix cr (br_blob_key bref) (br_blob bref)) (of_nat j) (j + 1 = length cs)
            (blob_header (br_blob bref) (nonce_prefix cr (br_blob_key bref) (br_blob bref))) (cs ! j)
            = Some (ops ! j))
      \<and> concat ops = word_bytes 8 (br_plaintext_length bref) @ file @ replicate k 0
      \<and> is_valid_padded_length (of_nat (length (concat ops))))
    \<and> length file = unat (br_plaintext_length bref)
    \<and> (revision = None \<or> revision = Some (hash cr file))"
proof -
  obtain h out where len: "br_ciphertext_length bref = of_nat (length ct)"
      and digest: "br_ciphertext_digest bref = ciphertext_digest cr ct"
      and run: "decrypt_blob_to cr sc (slice_source ct) bref vec_sink = Inr (h, out)"
      and rev: "revision = None \<or> revision = Some h" and whole: "file = snk_bytes out"
    using assms(3) by (auto simp: decrypt_blob_def)
  have "snk_bytes vec_sink = []" by (simp add: vec_sink_def)
  from decrypt_to_format [OF assms(1,2) len this run] show ?thesis
    using digest rev whole len assms(2) by (auto simp: unat_of_nat_u64)
qed

subsection \<open>One file per reference\<close>

text \<open>What \<open>ciphertext_digest\<close> hashes: the segments, and the list of their hashes.\<close>

definition digest_inputs :: "crypto \<Rightarrow> byte list \<Rightarrow> byte list set" where
  "digest_inputs cr ct =
     insert (tag_bytes Tag_BlobParts @ encode_list digest_bytes (map (hash cr) (chunks_of SEGMENT_LEN ct)))
       (set (chunks_of SEGMENT_LEN ct))"

lemma hashes_eq:
  assumes "map (hash cr) xs = map (hash cr) ys" and "\<not> inputs_collide cr A B"
    and "set xs \<subseteq> A" and "set ys \<subseteq> B"
  shows "xs = ys"
  using assms(1,3,4)
proof (induction xs arbitrary: ys)
  case (Cons x xs)
  then obtain y zs where ys: "ys = y # zs" "hash cr x = hash cr y" by auto
  have "x = y"
    using assms(2) ys Cons.prems(2,3) by (auto simp: inputs_collide_def collision_def)
  then show ?case using Cons.IH [of zs] Cons.prems ys by auto
qed simp

lemma ciphertext_digest_eq:
  assumes "ciphertext_digest cr ct = ciphertext_digest cr ct'"
    and "\<not> inputs_collide cr (digest_inputs cr ct) (digest_inputs cr ct')"
  shows "ct = ct'"
proof -
  have "tag_bytes Tag_BlobParts @ encode_list digest_bytes (map (hash cr) (chunks_of SEGMENT_LEN ct))
      = tag_bytes Tag_BlobParts @ encode_list digest_bytes (map (hash cr) (chunks_of SEGMENT_LEN ct'))"
    using assms(1)
    by (intro hash_eq [OF assms(2)])
      (simp_all add: digest_inputs_def ciphertext_digest_def digest_of_segment_hashes_def hash_parts_def)
  then have "map (hash cr) (chunks_of SEGMENT_LEN ct) = map (hash cr) (chunks_of SEGMENT_LEN ct')"
    by (simp add: encode_list_def w_u32_def del: map_map)
  then have "chunks_of SEGMENT_LEN ct = chunks_of SEGMENT_LEN ct'"
    by (rule hashes_eq [OF _ assms(2)]) (auto simp: digest_inputs_def)
  then show ?thesis
    by (metis concat_chunks_of [OF SEGMENT_LEN_pos])
qed

text \<open>
  A reference names one blob. Two ciphertexts that decrypt under the same reference are
  the same bytes, so the two files are the same too, or the hashed inputs of their digests
  hold an explicit collision. Nothing is assumed of the stream cipher.
\<close>

theorem blob_ref_names_one:
  assumes "decrypt_blob cr sc ct bref revision = Inr file"
    and "decrypt_blob cr sc ct' bref revision' = Inr file'"
  shows "ct = ct' \<and> file = file'
    \<or> inputs_collide cr (digest_inputs cr ct) (digest_inputs cr ct')"
proof (cases "inputs_collide cr (digest_inputs cr ct) (digest_inputs cr ct')")
  case False
  have "ciphertext_digest cr ct = ciphertext_digest cr ct'"
    using assms by (auto simp: decrypt_blob_def)
  then have "ct = ct'" using False by (rule ciphertext_digest_eq)
  then show ?thesis using assms by (auto simp: decrypt_blob_def)
qed simp

subsection \<open>The server's check of a length\<close>

text \<open>
  The check of a ciphertext's length takes the lengths of blobs and no others: up to
  \<open>2 ^ 57\<close> bytes of file, far above the 2 GiB a blob may carry, a length is valid exactly when it is
  the ciphertext length of some file length.
\<close>

theorem valid_lengths_exact:
  "unat len \<le> 2 ^ 57 \<Longrightarrow>
     is_valid_blob_ciphertext_len len \<longleftrightarrow> (\<exists>n. unat n \<le> 2 ^ 57 \<and> len = blob_ciphertext_len n)"
proof
  assume len: "unat len \<le> 2 ^ 57" and "is_valid_blob_ciphertext_len len"
  then obtain p where m: "unat len = header_len + (p + AEAD_TAG_LEN * blob_chunks p)" and p: "256 \<le> p"
      and pad: "is_valid_padded_length (of_nat p)"
    using valid_len_parts [of "unat len"] by auto
  have p57: "p \<le> 2 ^ 57" using len m by simp
  have "(of_nat (p - 8) :: u64) + 8 = of_nat (p - 8 + 8)" by (simp only: of_nat_add of_nat_numeral)
  then have "(of_nat (p - 8) :: u64) + 8 = of_nat p" using p by simp
  then have "padded_length (of_nat (p - 8) + 8) = of_nat p"
    using pad by (auto simp: padded_length_def is_valid_padded_length_def max_def)
  moreover have "len = of_nat (header_len + (p + AEAD_TAG_LEN * blob_chunks p))"
  proof (rule word_eqI_unat)
    have "header_len + (p + AEAD_TAG_LEN * blob_chunks p) < 2 ^ 64" using p57 by (intro sealed_room) simp
    then show "unat len = unat (of_nat (header_len + (p + AEAD_TAG_LEN * blob_chunks p)) :: u64)"
      by (simp only: m unat_of_nat_u64)
  qed
  ultimately have "len = blob_ciphertext_len (of_nat (p - 8))"
    using p57 by (simp add: blob_ciphertext_len_def ciphertext_len_word)
  moreover have "unat (of_nat (p - 8) :: u64) \<le> 2 ^ 57" using p57 by (simp add: unat_of_nat_u64)
  ultimately show "\<exists>n. unat n \<le> 2 ^ 57 \<and> len = blob_ciphertext_len n" by blast
next
  assume "\<exists>n. unat n \<le> 2 ^ 57 \<and> len = blob_ciphertext_len n"
  then obtain n where n: "unat n \<le> 2 ^ 57" and len: "len = blob_ciphertext_len n" by blast
  have n8: "unat (n + 8) = unat n + 8" using n by (simp add: unat_word_ariths)
  let ?p = "padded_nat (unat n + 8)"
  have "?p \<le> padded_nat (2 ^ 58)" using n by (intro padded_nat_mono) simp
  also have "\<dots> = 2 ^ 58" using padme_nat_power [of 58] by (simp add: padded_nat_def)
  finally have p: "?p \<le> 2 ^ 58" .
  have "padded_length (n + 8) = of_nat ?p"
    using n n8 p unat_padded_length [of "n + 8"] by (intro word_eqI_unat) (simp add: unat_of_nat_u64)
  moreover have "is_valid_blob_ciphertext_len (ciphertext_len_for_padded (of_nat ?p))"
    using p by (intro valid_ciphertext_len) (simp_all add: padme_nat_padded, simp add: padded_nat_def)
  ultimately show "is_valid_blob_ciphertext_len len" by (simp add: len blob_ciphertext_len_def)
qed

end
