(* ===== verification/Blob_Examples.thy ===== *)
theory Blob_Examples
  imports Blob_Format Account_Examples
begin

text \<open>
  A concrete file and stream cipher on which the hypotheses of the blob theorems hold. The
  cipher appends a tag of 16 bytes that ends in the position and the last-chunk flag, so a chunk
  opens only at its own position.
\<close>

definition demo_mark :: "u32 \<Rightarrow> bool \<Rightarrow> byte list" where
  "demo_mark i final = replicate 11 0 @ word_bytes 4 i @ [if final then 1 else 0]"

definition demo_stream :: stream_cipher where
  "demo_stream = \<lparr>stream_encrypt = (\<lambda>key prefix i final aad m. Some (m @ demo_mark i final)),
     stream_decrypt = (\<lambda>key prefix i final aad c.
       if AEAD_TAG_LEN \<le> length c \<and> drop (length c - AEAD_TAG_LEN) c = demo_mark i final
       then Some (take (length c - AEAD_TAG_LEN) c) else None)\<rparr>"

lemma length_demo_mark: "length (demo_mark i final) = AEAD_TAG_LEN"
  by (simp add: demo_mark_def AEAD_TAG_LEN_def)

lemma demo_stream_law: "stream_law demo_stream"
  by (simp add: stream_law_def demo_stream_def length_demo_mark)

lemma demo_stream_opens: "stream_opens demo_stream"
  by (auto simp: stream_opens_def demo_stream_def split: if_splits)

definition demo_file :: "byte list" where
  "demo_file = [78, 111, 117, 114, 97]"

abbreviation demo_blob_key :: secret_key where
  "demo_blob_key \<equiv> SecretKey 7"

abbreviation demo_blob :: "byte list" where
  "demo_blob \<equiv> blob_of demo_crypto demo_stream demo_file (Ident 9) demo_blob_key"

abbreviation demo_blob_ref :: blob_ref where
  "demo_blob_ref \<equiv> ref_of demo_crypto demo_blob 5 (Ident 9) demo_blob_key"

lemma length_demo_file: "length demo_file = 5"
  by (simp add: demo_file_def)

lemma demo_padded: "padded_length 13 = 256" "blob_padded 5 = 256" "blob_chunks 256 = 1"
proof -
  show "padded_length 13 = 256" by code_simp
  then have "unat (of_nat (blob_padded 5) :: u64) = 256"
    using blob_padded_word [of 5] by simp
  then show "blob_padded 5 = 256"
    using blob_padded_bounds(3) [of 5] by (simp add: unat_of_nat_u64)
  show "blob_chunks 256 = 1" by (simp add: blob_chunks_def ceil_nat_def CHUNK_LEN_def)
qed

lemma length_demo_blob: "length demo_blob = 325"
  by (simp add: length_blob_of [OF demo_stream_law] length_demo_file demo_padded header_len_eq
      AEAD_TAG_LEN_def)

lemma demo_decrypts: "decrypt_blob demo_crypto demo_stream demo_blob demo_blob_ref None = Inr demo_file"
proof -
  have "snk_fault vec_sink = None" "snk_bytes vec_sink = []" by (simp_all add: vec_sink_def)
  then show ?thesis
    using decrypt_outcome [OF demo_stream_law, of vec_sink demo_file demo_crypto "Ident 9" demo_blob_key]
      blob_len_word(2) [OF demo_stream_law, of demo_file demo_crypto "Ident 9" demo_blob_key]
    unfolding decrypt_blob_def length_demo_file by (simp add: ref_of_def)
qed

theorem blob_opens_witness:
  "\<exists>ct ref. encrypt_blob demo_crypto demo_stream demo_file (Ident 9) demo_blob_key = Inr (ct, ref)
    \<and> length demo_file = 5 \<and> decrypt_blob demo_crypto demo_stream ct ref None = Inr demo_file"
  using blob_opens [OF demo_stream_law, of demo_file demo_crypto "Ident 9" demo_blob_key None]
  by (auto simp: length_demo_file)

theorem streamed_encryption_witness:
  "encrypt_blob_to demo_crypto demo_stream \<lparr>src_bytes = demo_file, src_fault = None\<rparr> 6 (Ident 9)
     demo_blob_key vec_sink = Inl Blob_FileChanged"
  using streamed_encryption [OF demo_stream_law, of vec_sink 6 demo_crypto
      "\<lparr>src_bytes = demo_file, src_fault = None\<rparr>" "Ident 9" demo_blob_key]
  by (simp add: vec_sink_def demo_file_def)

theorem accepted_blob_format_witness:
  "unat (br_ciphertext_length demo_blob_ref) = 325 \<and> unat (br_plaintext_length demo_blob_ref) = 5
   \<and> (\<exists>cs ops k. demo_blob = blob_header (Ident 9) (nonce_prefix demo_crypto demo_blob_key (Ident 9)) @ concat cs
        \<and> length ops = length cs
        \<and> concat ops = word_bytes 8 (5 :: u64) @ demo_file @ replicate k 0)"
proof -
  have "length demo_blob < 2 ^ 63" by (simp add: length_demo_blob)
  note applied = accepted_blob_format [OF demo_stream_opens this demo_decrypts]
  have "br_blob demo_blob_ref = Ident 9" "br_blob_key demo_blob_ref = demo_blob_key"
      "br_plaintext_length demo_blob_ref = 5"
    by (simp_all add: ref_of_def)
  then show ?thesis using applied unfolding length_demo_blob by auto
qed

theorem blob_ref_names_one_witness:
  "length demo_file = 5 \<and> (demo_blob = demo_blob \<and> demo_file = demo_file
    \<or> inputs_collide demo_crypto (digest_inputs demo_crypto demo_blob) (digest_inputs demo_crypto demo_blob))"
  using blob_ref_names_one [OF demo_decrypts demo_decrypts] length_demo_file by blast

theorem valid_lengths_exact_witness:
  "(\<exists>n. unat n \<le> 2 ^ 57 \<and> 325 = blob_ciphertext_len n)
   \<and> \<not> (\<exists>n. unat n \<le> 2 ^ 57 \<and> 326 = blob_ciphertext_len n)"
proof -
  have "is_valid_padded_length 256" "\<not> is_valid_padded_length 257" by code_simp+
  then have "is_valid_blob_ciphertext_len 325" "\<not> is_valid_blob_ciphertext_len 326"
    by (simp_all add: is_valid_blob_ciphertext_len_def ciphertext_len_for_padded_def checked_sub_def
        div_ceil_def header_len_eq CHUNK_LEN_def AEAD_TAG_LEN_def Let_def)
  then show ?thesis
    using valid_lengths_exact [of 325] valid_lengths_exact [of 326] by simp
qed

end
