(* ===== verification/Server_Checkpoints.thy ===== *)
theory Server_Checkpoints
  imports Pull Manifest
begin

text \<open>
  Checkpoints on the server (\<^verbatim>\<open>sync-store/src/checkpoints.rs\<close>, \<section>17, \<section>18): what a pushed checkpoint is
  checked against, the recomputation of its manifest from the previous checkpoint's bucket hashes
  and the records between the two, its write, and the routes that serve checkpoints and manifests.
  The queries are those of \<^verbatim>\<open>sync-store-sqlite/src/txn.rs\<close>.
\<close>

subsection \<open>Queries and updates\<close>

definition checkpoint_rows :: "store \<Rightarrow> ident \<Rightarrow> ident \<Rightarrow> stored_checkpoint list" where
  "checkpoint_rows st w d = filter (\<lambda>c. scp_workspace c = w \<and> scp_domain c = d) (st_checkpoints st)"

definition newest_checkpoint :: "store \<Rightarrow> ident \<Rightarrow> ident \<Rightarrow> checkpoint_row option" where
  "newest_checkpoint st w d =
     (let rows = sort_key (cpw_number \<circ> scp_row) (checkpoint_rows st w d)
      in if rows = [] then None else Some (scp_row (last rows)))"

definition checkpoint_numbered :: "store \<Rightarrow> ident \<Rightarrow> ident \<Rightarrow> u64 \<Rightarrow> checkpoint_row option" where
  "checkpoint_numbered st w d number =
     map_option scp_row (find (\<lambda>c. cpw_number (scp_row c) = at_most number) (checkpoint_rows st w d))"

definition checkpoint_named :: "store \<Rightarrow> ident \<Rightarrow> ident \<Rightarrow> digest \<Rightarrow> checkpoint_row option" where
  "checkpoint_named st w d checkpoint =
     map_option scp_row (find (\<lambda>c. cpw_digest (scp_row c) = checkpoint) (checkpoint_rows st w d))"

definition checkpoint_at :: "store \<Rightarrow> ident \<Rightarrow> ident \<Rightarrow> u64 \<Rightarrow> checkpoint_row option" where
  "checkpoint_at st w d covered_seq =
     map_option scp_row (find (\<lambda>c. cpw_covered_seq (scp_row c) = at_most covered_seq) (checkpoint_rows st w d))"

definition checkpoint_buckets :: "store \<Rightarrow> ident \<Rightarrow> ident \<Rightarrow> u64 \<Rightarrow> byte list option" where
  "checkpoint_buckets st w d number =
     (case find (\<lambda>c. cpw_number (scp_row c) = at_most number) (checkpoint_rows st w d) of
        None \<Rightarrow> None | Some c \<Rightarrow> scp_buckets c)"

text \<open>A \<open>btree\<close> lists its entries by key, so those of one domain come by sequence.\<close>

definition newest_entry :: "store \<Rightarrow> ident \<Rightarrow> ident \<Rightarrow> u8 \<Rightarrow> u64 \<Rightarrow> raw_entry option" where
  "newest_entry st w d record_type at =
     (let rows = filter (\<lambda>((w', d', s), (t, _)). w' = w \<and> d' = d \<and> t = record_type \<and> s \<le> at_most at)
            (bt_entries (st_entries st))
      in if rows = [] then None
         else case last rows of ((_, _, s), (t, bs)) \<Rightarrow> Some \<lparr>re_seq = s, re_type = t, re_record = bs\<rparr>)"

definition row_ref :: "operation_row \<Rightarrow> op_ref" where
  "row_ref r = \<lparr>ref_device = or_device r, ref_counter = or_counter r, ref_seq = or_seq r, ref_op_digest = or_digest r\<rparr>"

definition ops_between :: "store \<Rightarrow> ident \<Rightarrow> ident \<Rightarrow> u64 \<Rightarrow> u64 \<Rightarrow> (ident \<times> op_ref) list" where
  "ops_between st w d after through = map (\<lambda>r. (or_rid r, row_ref r)) (sort_key or_seq
     (filter (\<lambda>r. or_workspace r = w \<and> or_domain r = d \<and> or_seq r > at_most after \<and> or_seq r \<le> at_most through)
       (st_operations st)))"

definition domain_rids :: "store \<Rightarrow> ident \<Rightarrow> ident \<Rightarrow> ident \<Rightarrow> ident \<Rightarrow> nat \<Rightarrow> ident list" where
  "domain_rids st w d from through limit = take limit (map (\<lambda>((_, rid), _). rid)
     (filter (\<lambda>((w', rid), d'). w' = w \<and> from \<le> rid \<and> rid \<le> through \<and> d' = d) (bt_entries (st_rids st))))"

definition chain_head_devices :: "store \<Rightarrow> ident \<Rightarrow> ident \<Rightarrow> ident list" where
  "chain_head_devices st w d = map (\<lambda>((_, _, device), _). device)
     (filter (\<lambda>((w', d', _), _). w' = w \<and> d' = d) (bt_entries (st_chain_heads st)))"

definition insert_checkpoint ::
  "ident \<Rightarrow> ident \<Rightarrow> checkpoint_row \<Rightarrow> byte list \<Rightarrow> store \<Rightarrow> store_error + store" where
  "insert_checkpoint w d row buckets st =
     and_then (int_column (cpw_number row)) (\<lambda>_. and_then (int_column (cpw_seq row)) (\<lambda>_.
     and_then (int_column (cpw_covered_seq row)) (\<lambda>_. and_then (int_column (cpw_floor row)) (\<lambda>_.
     if list_ex (\<lambda>c. cpw_number (scp_row c) = cpw_number row \<or> cpw_digest (scp_row c) = cpw_digest row
          \<or> cpw_covered_seq (scp_row c) = cpw_covered_seq row) (checkpoint_rows st w d)
     then Inl Store_Internal
     else Inr (st\<lparr>st_checkpoints := st_checkpoints st @ [\<lparr>scp_workspace = w, scp_domain = d,
             scp_row = row\<lparr>cpw_log_weight := at_most (cpw_log_weight row)\<rparr>, scp_buckets = Some buckets\<rparr>],
           st_domains := bt_adjust (w, d) (\<lambda>c. c\<lparr>dr_checkpoint_seq := cpw_covered_seq row\<rparr>) (st_domains st)\<rparr>)))))"

definition set_pruned_floor :: "ident \<Rightarrow> ident \<Rightarrow> u64 \<Rightarrow> store \<Rightarrow> store_error + store" where
  "set_pruned_floor w d floor_seq st = and_then (int_column floor_seq) (\<lambda>f.
     Inr (st\<lparr>st_domains := bt_adjust (w, d) (\<lambda>c. c\<lparr>dr_pruned_floor := f\<rparr>) (st_domains st)\<rparr>))"

subsection \<open>Entries that make a checkpoint due\<close>

definition ENTRY_CHECKPOINT :: u8 where "ENTRY_CHECKPOINT = 5"
definition ENTRY_EPOCH :: u8 where "ENTRY_EPOCH = 8"
definition ENTRY_POLICY :: u8 where "ENTRY_POLICY = 9"
definition RIDS_PER_QUERY :: nat where "RIDS_PER_QUERY = 512"
definition BUCKET_HASH_WEIGHT :: u64 where "BUCKET_HASH_WEIGHT = of_nat (BUCKETS * 32)"

definition row_signed :: "checkpoint_row \<Rightarrow> store_error + checkpoint signed" where
  "row_signed row = stored (dec_signed dec_checkpoint) (cpw_record row)"

definition row_heads :: "checkpoint_row \<Rightarrow> store_error + op_ref list" where
  "row_heads row = stored dec_ref_heads (cpw_heads row)"

definition bundle_of_row :: "checkpoint_row \<Rightarrow> store_error + checkpoint_bundle" where
  "bundle_of_row row = and_then (row_signed row) (\<lambda>c. and_then (row_heads row) (\<lambda>hs.
     Inr \<lparr>cb_checkpoint = c, cb_heads = hs\<rparr>))"

definition note_entry ::
  "checkpoint_interval \<Rightarrow> ident \<Rightarrow> ident \<Rightarrow> u64 \<Rightarrow> u64 \<Rightarrow> bool \<Rightarrow> store \<Rightarrow> store_error + store" where
  "note_entry interval w d seqno weight due_now st =
     and_then (ok_or (store_domain st w d) Store_Internal) (\<lambda>row.
     set_checkpoint_progress w d (progress row interval seqno weight due_now) st)"

definition ends_write_access ::
  "store \<Rightarrow> ident \<Rightarrow> ident \<Rightarrow> snapshot \<Rightarrow> snapshot \<Rightarrow> store_error + bool" where
  "ends_write_access st w d prev next1 =
     (let devices = chain_head_devices st w d
      in and_then (case newest_checkpoint st w d of
             None \<Rightarrow> Inr devices
           | Some row \<Rightarrow> and_then (row_signed row) (\<lambda>c. Inr (devices @ [cp_signer (body c)]))) (\<lambda>devices.
         Inr (list_ex (\<lambda>x. can_write prev x d \<and> \<not> can_write next1 x d) devices)))"

definition append_policy_entry ::
  "checkpoint_interval \<Rightarrow> ident \<Rightarrow> ident \<Rightarrow> policy_entry \<Rightarrow> snapshot option \<Rightarrow> snapshot \<Rightarrow> store
   \<Rightarrow> store_error + u64 \<times> store" where
  "append_policy_entry interval w d e prev next1 st =
     and_then (case prev of Some prev \<Rightarrow> ends_write_access st w d prev next1 | None \<Rightarrow> Inr False) (\<lambda>due_now.
     let bs = enc_policy_entry e in
     and_then (append_entry w d ENTRY_POLICY bs st) (\<lambda>(seqno, st).
     and_then (note_entry interval w d seqno (of_nat (length bs)) due_now st) (\<lambda>st.
     Inr (seqno, add_usage w d 0 (int (length bs)) st))))"

subsection \<open>The leaves of a bucket\<close>

definition buckets_from :: "byte list \<Rightarrow> store_error + digest list" where
  "buckets_from bs =
     (if length bs \<noteq> BUCKETS * 32 then Inl Store_Internal
      else Inr (map (\<lambda>i. Digest (bytes_word (take 32 (drop (i * 32) bs)))) [0..<BUCKETS]))"

definition empty_buckets :: "crypto \<Rightarrow> digest list" where
  "empty_buckets cr = map (\<lambda>i. bucket_hash cr (of_nat i) []) [0..<BUCKETS]"

definition bucket_range :: "u16 \<Rightarrow> ident \<times> ident" where
  "bucket_range index =
     (let low0 = ucast (drop_bit 4 index) :: byte;
          low1 = ucast (push_bit 4 (index AND 0x0f)) :: byte
      in (Ident (bytes_word ([low0, low1] @ replicate 14 0)),
          Ident (bytes_word ([low0, low1 OR 0x0f] @ replicate 14 0xff))))"

definition live_refs ::
  "store \<Rightarrow> ident \<Rightarrow> ident \<Rightarrow> u64 \<Rightarrow> (ident \<times> ident \<times> u64) set \<Rightarrow> op_ref list" where
  "live_refs st w rid at exclude = sort_key (\<lambda>r. (ref_device r, ref_counter r))
     (map (\<lambda>(x, _). as_ref x)
       (filter (\<lambda>(x, _). (rid, lo_device x, lo_counter x) \<notin> exclude) (live_ops st w rid at)))"

definition next_id :: "ident \<Rightarrow> ident option" where
  "next_id rid = (if ident_val rid + 1 = 0 then None else Some (Ident (ident_val rid + 1)))"

definition leaves_of ::
  "store \<Rightarrow> ident \<Rightarrow> u64 \<Rightarrow> (ident \<times> ident \<times> u64) set \<Rightarrow> ident list \<Rightarrow> (ident \<times> op_ref list) list" where
  "leaves_of st w at exclude rids =
     filter (\<lambda>(_, refs). refs \<noteq> []) (map (\<lambda>rid. (rid, live_refs st w rid at exclude)) rids)"

lemma domain_rids_above: "rid \<in> set (domain_rids st w d from through limit) \<Longrightarrow> from \<le> rid"
  by (auto simp: domain_rids_def dest: in_set_takeD)

lemma next_id_less: "next_id rid = Some next1 \<Longrightarrow> rid < next1"
  by (auto simp: next_id_def less_ident_def split: if_splits) uint_arith

text \<open>The lower end rises with every query.\<close>

lemma rids_loop_rises:
  assumes "domain_rids st w d from through limit \<noteq> []"
    and "next_id (last (domain_rids st w d from through limit)) = Some next1"
  shows "unat (- 1 - ident_val next1) < unat (- 1 - ident_val from)"
proof -
  have "from \<le> last (domain_rids st w d from through limit)"
    using assms(1) by (intro domain_rids_above) (rule last_in_set)
  then have "from < next1" using next_id_less [OF assms(2)] by simp
  then have "ident_val from < ident_val next1" by (simp add: less_ident_def)
  then show ?thesis
    using unat_sub [of "ident_val from" "- 1"] unat_sub [of "ident_val next1" "- 1"]
      word_le_nat_alt [of "ident_val next1" "- 1"]
    by (simp add: word_less_nat_alt)
qed

function leaves_loop ::
  "store \<Rightarrow> ident \<Rightarrow> ident \<Rightarrow> u64 \<Rightarrow> (ident \<times> ident \<times> u64) set \<Rightarrow> ident \<Rightarrow> ident
   \<Rightarrow> (ident \<times> op_ref list) list \<Rightarrow> (ident \<times> op_ref list) list" where
  "leaves_loop st w d at exclude from through leaves =
     (let rids = domain_rids st w d from through RIDS_PER_QUERY;
          leaves = leaves @ leaves_of st w at exclude rids
      in if rids = [] \<or> length rids \<noteq> RIDS_PER_QUERY then leaves
         else case next_id (last rids) of
           None \<Rightarrow> leaves
         | Some next1 \<Rightarrow> leaves_loop st w d at exclude next1 through leaves)"
  by pat_completeness auto

termination
  by (relation "measure (\<lambda>(_, _, _, _, _, from, _, _). unat (- 1 - ident_val from))")
    (auto intro: rids_loop_rises)

declare leaves_loop.simps [simp del]

definition server_leaves ::
  "store \<Rightarrow> ident \<Rightarrow> ident \<Rightarrow> u16 \<Rightarrow> u64 \<Rightarrow> (ident \<times> ident \<times> u64) set \<Rightarrow> (ident \<times> op_ref list) list" where
  "server_leaves st w d index at exclude =
     (let (from, through) = bucket_range index in leaves_loop st w d at exclude from through [])"

subsection \<open>Planning a pushed checkpoint\<close>

record checkpoint_plan =
  cpl_previous :: "checkpoint_row option"
  cpl_buckets :: "digest list"
  cpl_root :: digest
  cpl_live_objects :: u64
  cpl_heads :: "op_ref list"
  cpl_dropped :: "delete_row list"

definition check_checkpoint_signer :: "policy_chain \<Rightarrow> session \<Rightarrow> checkpoint \<Rightarrow> store_error + unit" where
  "check_checkpoint_signer p sess c =
     (let s = head_snapshot p in
      if session_reader s sess = None then Inl (refuse ''forbidden'')
      else if \<not> bt_contains (sn_domains s) (cp_domain c) then Inl (refuse ''not_found'')
      else if \<not> can_write s (cp_signer c) (cp_domain c) then Inl (refuse ''forbidden'')
      else Inr ())"

definition check_checkpoint_rotation :: "policy_chain \<Rightarrow> ident \<Rightarrow> u64 \<Rightarrow> store_error + unit" where
  "check_checkpoint_rotation p d epoch_policy_revision =
     ensure (rotation_required p d epoch_policy_revision (fst (policy_head p)) = None) (refuse ''rotation_pending'')"

text \<open>\<open>transpose\<close>: a missing entry decodes to nothing.\<close>

definition decode_entry :: "'a decoder \<Rightarrow> raw_entry option \<Rightarrow> store_error + 'a option" where
  "decode_entry dec raw = (case raw of None \<Rightarrow> Inr None
     | Some e \<Rightarrow> and_then (stored dec (re_record e)) (\<lambda>x. Inr (Some x)))"

definition check_policy_and_epoch ::
  "crypto \<Rightarrow> store \<Rightarrow> ident \<Rightarrow> checkpoint \<Rightarrow> store_error + unit" where
  "check_policy_and_epoch cr st w c =
     and_then (decode_entry dec_policy_entry (newest_entry st w (cp_domain c) ENTRY_POLICY (cp_covered_seq c))) (\<lambda>policy_at.
     and_then (ensure (case policy_at of None \<Rightarrow> False
         | Some e \<Rightarrow> pe_revision e = cp_policy_revision c \<and> pe_head e = cp_policy_head c)
       (refuse ''manifest_mismatch'')) (\<lambda>_.
     and_then (decode_entry (dec_signed dec_epoch) (newest_entry st w (cp_domain c) ENTRY_EPOCH (cp_covered_seq c))) (\<lambda>epoch_at.
     ensure (case epoch_at of None \<Rightarrow> False
         | Some e \<Rightarrow> ep_epoch (body e) = cp_epoch c \<and> signed_digest cr enc_epoch e = cp_epoch_record c)
       (refuse ''manifest_mismatch''))))"

definition check_checkpoint_link ::
  "store \<Rightarrow> ident \<Rightarrow> checkpoint \<Rightarrow> checkpoint_row option \<Rightarrow> store_error + unit" where
  "check_checkpoint_link st w c previous =
     (let (latest_digest, latest_number) = (case previous of None \<Rightarrow> (ZERO_digest, 0)
            | Some r \<Rightarrow> (cpw_digest r, cpw_number r));
          skip = skip_number (cp_number c);
          skip_digest = (if skip = 0 then Some ZERO_digest
            else map_option cpw_digest (checkpoint_numbered st w (cp_domain c) skip))
      in if cp_previous c \<noteq> latest_digest then Inl (refuse ''checkpoint_stale'')
         else if cp_number c \<noteq> latest_number + 1 \<or> skip_digest \<noteq> Some (cp_skip c)
         then Inl (refuse ''manifest_mismatch'')
         else Inr ())"

definition check_checkpoint_bounds ::
  "checkpoint \<Rightarrow> checkpoint_row option \<Rightarrow> u64 \<Rightarrow> u64 \<Rightarrow> store_error + unit" where
  "check_checkpoint_bounds c previous retention_floor head_seq =
     (let (prev_seq, prev_floor) = (case previous of None \<Rightarrow> (0, 0) | Some r \<Rightarrow> (cpw_seq r, cpw_floor r))
      in if cp_covered_seq c < prev_seq \<or> cp_covered_seq c < retention_floor \<or> cp_covered_seq c > head_seq
         then Inl (refuse ''checkpoint_not_due'')
         else if cp_floor c < prev_floor \<or> cp_floor c > retention_floor then Inl (refuse ''manifest_mismatch'')
         else Inr ())"

definition delete_key :: "delete_row \<Rightarrow> ident \<times> ident \<times> u64" where
  "delete_key x = (del_rid x, ref_device (del_op x), ref_counter (del_op x))"

definition floor_drops ::
  "store \<Rightarrow> ident \<Rightarrow> ident \<Rightarrow> u64 \<Rightarrow> u64 \<Rightarrow> u64 \<Rightarrow> delete_row list" where
  "floor_drops st w d previous_floor new_floor covered_seq =
     (if new_floor \<le> previous_floor then []
      else sort_key delete_key (filter (\<lambda>x. case live_ops st w (del_rid x) covered_seq of
             [(y, _)] \<Rightarrow> lo_delete y \<and> lo_device y = ref_device (del_op x) \<and> lo_counter y = ref_counter (del_op x)
           | _ \<Rightarrow> False) (deletes_between st w d previous_floor new_floor)))"

definition replan_bucket ::
  "crypto \<Rightarrow> store \<Rightarrow> ident \<Rightarrow> ident \<Rightarrow> u64 \<Rightarrow> u64 \<Rightarrow> (ident \<times> ident \<times> u64) set
   \<Rightarrow> digest list \<times> u64 \<Rightarrow> u16 \<Rightarrow> store_error + digest list \<times> u64" where
  "replan_bucket cr st w d prev_covered covered_seq exclude = (\<lambda>(buckets, live_objects) index.
     let before = of_nat (length (server_leaves st w d index prev_covered {}));
         after = server_leaves st w d index covered_seq exclude;
         hashes = map (\<lambda>(rid, refs). leaf_hash cr rid refs) after;
         total = live_objects + of_nat (length after)
     in if before \<le> total then Inr (buckets[unat index := bucket_hash cr index hashes], total - before)
        else Inl Store_Internal)"

definition raise_head :: "(ident, op_ref) btree \<Rightarrow> ident \<times> op_ref \<Rightarrow> (ident, op_ref) btree" where
  "raise_head heads = (\<lambda>(_, x). case bt_get heads (ref_device x) of
       Some h \<Rightarrow> if ref_counter h \<ge> ref_counter x then heads else bt_insert (ref_device x) x heads
     | None \<Rightarrow> bt_insert (ref_device x) x heads)"

text \<open>The recomputation, from the previous checkpoint's row, bucket hashes and heads.\<close>

definition replan ::
  "crypto \<Rightarrow> store \<Rightarrow> policy_chain \<Rightarrow> ident \<Rightarrow> checkpoint \<Rightarrow> checkpoint_row option
   \<Rightarrow> store_error + checkpoint_plan" where
  "replan cr st p w c previous =
     (let d = cp_domain c in
      and_then (case previous of
          None \<Rightarrow> Inr ((0, 0, 0, None), empty_buckets cr, bt_empty)
        | Some r \<Rightarrow> and_then (row_signed r) (\<lambda>record1.
            and_then (ok_or (checkpoint_buckets st w d (cpw_number r)) Store_Internal) (\<lambda>bs.
            and_then (buckets_from bs) (\<lambda>buckets.
            and_then (row_heads r) (\<lambda>hs.
            Inr ((cpw_covered_seq r, cpw_floor r, cp_live_objects (body record1),
                  Some (cp_policy_revision (body record1))),
                 buckets, bt_collect (map (\<lambda>h. (ref_device h, h)) hs))))))) (\<lambda>((prev_covered, prev_floor, prev_live, prev_revision), buckets, heads).
      let ops = ops_between st w d prev_covered (cp_covered_seq c);
          dropped = floor_drops st w d prev_floor (cp_floor c) (cp_covered_seq c);
          exclude = delete_key ` set dropped;
          touched = sort (remdups (map (bucket_of \<circ> fst) ops @ map (bucket_of \<circ> del_rid) dropped))
      in and_then (try_fold (replan_bucket cr st w d prev_covered (cp_covered_seq c) exclude) (buckets, prev_live) touched) (\<lambda>(buckets, live_objects).
         let heads = fold (\<lambda>x m. raise_head m x) ops heads;
             heads = (case prev_revision of None \<Rightarrow> heads
               | Some revision \<Rightarrow> bt_filter (\<lambda>device _. \<not> card_gone p device revision) heads)
         in Inr \<lparr>cpl_previous = previous, cpl_buckets = buckets, cpl_root = root_of_buckets cr buckets,
              cpl_live_objects = live_objects, cpl_heads = bt_values heads, cpl_dropped = dropped\<rparr>)))"

definition plan_checkpoint ::
  "crypto \<Rightarrow> store \<Rightarrow> policy_chain \<Rightarrow> session \<Rightarrow> ident \<Rightarrow> checkpoint_bundle \<Rightarrow> store_error + checkpoint_plan" where
  "plan_checkpoint cr st p sess w bundle =
     (let record1 = cb_checkpoint bundle; c = body record1; d = cp_domain c in
      case store_workspace st w of None \<Rightarrow> Inl (refuse ''not_found'') | Some _ \<Rightarrow>
      and_then (check_checkpoint_signer p sess c) (\<lambda>_.
      case store_domain st w d of None \<Rightarrow> Inl (refuse ''not_found'') | Some row \<Rightarrow>
      and_then (check_checkpoint_rotation p d (dr_epoch_policy_revision row)) (\<lambda>_.
      let previous = newest_checkpoint st w d in
      if (case previous of None \<Rightarrow> False | Some r \<Rightarrow> cpw_digest r = signed_checkpoint_digest cr record1)
      then Inr \<lparr>cpl_previous = previous, cpl_buckets = [], cpl_root = ZERO_digest, cpl_live_objects = 0,
             cpl_heads = [], cpl_dropped = []\<rparr>
      else and_then (check_policy_and_epoch cr st w c) (\<lambda>_.
           and_then (check_checkpoint_link st w c previous) (\<lambda>_.
           and_then (check_checkpoint_bounds c previous (dr_retention_floor row) (dr_head_seq row)) (\<lambda>_.
           replan cr st p w c previous))))))"

subsection \<open>Committing a checkpoint\<close>

definition note_dropped :: "ident \<Rightarrow> ident \<Rightarrow> u64 \<Rightarrow> store \<Rightarrow> store_error + store" where
  "note_dropped w d seqno st = and_then (leave_live w d seqno st) (\<lambda>((usage, history), st).
     Inr (add_usage w d usage history st))"

definition drop_step :: "ident \<Rightarrow> ident \<Rightarrow> store \<Rightarrow> delete_row \<Rightarrow> store_error + store" where
  "drop_step w d st x = note_dropped w d (ref_seq (del_op x))
     (drop_delete w (del_rid x) (ref_device (del_op x)) (ref_counter (del_op x)) st)"

definition write_checkpoint ::
  "crypto \<Rightarrow> ident \<Rightarrow> checkpoint_bundle \<Rightarrow> checkpoint_plan \<Rightarrow> domain_row \<Rightarrow> store \<Rightarrow> store_error + receipt \<times> store" where
  "write_checkpoint cr w bundle pl row st =
     (let record1 = cb_checkpoint bundle; c = body record1; d = cp_domain c;
          record_digest = signed_checkpoint_digest cr record1; bs = enc_checkpoint_bundle bundle
      in and_then (append_entry w d ENTRY_CHECKPOINT bs st) (\<lambda>(seqno, st).
         let log_weight = saturating_add (saturating_add (dr_log_weight row) (of_nat (length bs))) BUCKET_HASH_WEIGHT
         in and_then (insert_checkpoint w d \<lparr>cpw_number = cp_number c, cpw_digest = record_digest, cpw_seq = seqno,
                cpw_covered_seq = cp_covered_seq c, cpw_floor = cp_floor c,
                cpw_record = enc_signed enc_checkpoint record1,
                cpw_heads = encode_list enc_ref (cb_heads bundle), cpw_log_weight = log_weight\<rparr>
              (concat (map digest_bytes (cpl_buckets pl))) st) (\<lambda>st.
            and_then (try_fold (drop_step w d) st (cpl_dropped pl)) (\<lambda>st.
            and_then (set_checkpoint_progress w d \<lparr>cpr_entries = 0, cpr_weight = 0, cpr_due = 0,
                cpr_log_weight = log_weight, cpr_crossing_seen = dr_quota_crossings row\<rparr> st) (\<lambda>st.
            and_then (if cpl_dropped pl = [] then Inr st else set_pruned_floor w d 0 st) (\<lambda>st.
            Inr (\<lparr>rc_record_digest = record_digest, rc_domain = d, rc_seq = seqno\<rparr>, st)))))))"

definition commit_after ::
  "crypto \<Rightarrow> policy_chain \<Rightarrow> ident \<Rightarrow> checkpoint_bundle \<Rightarrow> checkpoint_plan \<Rightarrow> bool
   \<Rightarrow> checkpoint_row option \<Rightarrow> store \<Rightarrow> store_error + receipt \<times> store" where
  "commit_after cr p w bundle pl floor_setting latest st =
     (let c = body (cb_checkpoint bundle); d = cp_domain c;
          digest_of = (\<lambda>r. case r of None \<Rightarrow> ZERO_digest | Some r \<Rightarrow> cpw_digest r)
      in if digest_of latest \<noteq> cp_previous c \<or> digest_of latest \<noteq> digest_of (cpl_previous pl)
         then Inl (refuse ''checkpoint_stale'')
         else case store_domain st w d of None \<Rightarrow> Inl (refuse ''not_found'') | Some row \<Rightarrow>
         and_then (check_checkpoint_rotation p d (dr_epoch_policy_revision row)) (\<lambda>_.
         if \<not> floor_setting \<and> (dr_checkpoint_due row = 0 \<or> cp_covered_seq c < dr_checkpoint_due row)
         then Inl (refuse ''checkpoint_not_due'')
         else if cpl_root pl \<noteq> cp_manifest_root c \<or> cpl_live_objects pl \<noteq> cp_live_objects c
           \<or> heads_digest cr (cpl_heads pl) \<noteq> cp_heads_digest c
           \<or> heads_digest cr (cb_heads bundle) \<noteq> cp_heads_digest c
         then Inl (refuse ''manifest_mismatch'')
         else write_checkpoint cr w bundle pl row st))"

text \<open>Under locks the caller holds; a checkpoint that sets an account's history floor needs no due point.\<close>

definition commit_checkpoint_locked ::
  "crypto \<Rightarrow> policy_chain \<Rightarrow> session \<Rightarrow> ident \<Rightarrow> checkpoint_bundle \<Rightarrow> checkpoint_plan \<Rightarrow> bool \<Rightarrow> store
   \<Rightarrow> store_error + receipt \<times> store" where
  "commit_checkpoint_locked cr p sess w bundle pl floor_setting st =
     (let record1 = cb_checkpoint bundle; c = body record1; d = cp_domain c;
          record_digest = signed_checkpoint_digest cr record1
      in and_then (check_checkpoint_signer p sess c) (\<lambda>_.
      let latest = newest_checkpoint st w d in
      case (case latest of None \<Rightarrow> None | Some r \<Rightarrow> if cpw_digest r = record_digest then Some r else None) of
        Some r \<Rightarrow> Inr (\<lparr>rc_record_digest = record_digest, rc_domain = d, rc_seq = cpw_seq r\<rparr>, st)
      | None \<Rightarrow> commit_after cr p w bundle pl floor_setting latest st))"

definition commit_checkpoint ::
  "crypto \<Rightarrow> policy_chain \<Rightarrow> session \<Rightarrow> ident \<Rightarrow> checkpoint_bundle \<Rightarrow> checkpoint_plan \<Rightarrow> store
   \<Rightarrow> store_error + push_response \<times> store" where
  "commit_checkpoint cr p sess w bundle pl st =
     (case store_workspace st w of
        None \<Rightarrow> Inl (refuse ''not_found'')
      | Some ws_row \<Rightarrow> and_then (commit_checkpoint_locked cr p sess w bundle pl False st) (\<lambda>(receipt, st).
          Inr (\<lparr>pr_policy_revision = wsr_policy_revision ws_row, pr_receipts = [receipt]\<rparr>, st)))"

end
