(* ===== verification/Checkpoint_Routes.thy ===== *)
theory Checkpoint_Routes
  imports Server_Checkpoints
begin

text \<open>
  The routes that serve checkpoints, their chain and the manifest at a checkpoint
  (\<^verbatim>\<open>sync-store/src/checkpoints.rs\<close>, \<section>17, \<section>26). Each reads one snapshot of the tables.
\<close>

subsection \<open>Messages\<close>

record live_cursor =
  lcu_rid :: ident
  lcu_device :: ident
  lcu_counter :: u64

record leaf_ref =
  lf_rid :: ident
  lf_op :: op_ref

definition by_rid_device_counter :: "leaf_ref \<Rightarrow> byte list" where
  "by_rid_device_counter r = ident_bytes (lf_rid r) @ ident_bytes (ref_device (lf_op r)) @ word_bytes 8 (ref_counter (lf_op r))"

record live_response =
  lrs_at :: u64
  lrs_next :: "live_cursor option"
  lrs_entries :: "wire_entry list"

definition cursor_compacted_detail :: "u64 \<Rightarrow> u64 \<Rightarrow> byte list" where
  "cursor_compacted_detail retention_floor checkpoint_covered_seq = w_u64 retention_floor @ w_u64 checkpoint_covered_seq"

subsection \<open>Checkpoints and their chain\<close>

definition latest_route ::
  "store \<Rightarrow> policy_chain \<Rightarrow> session \<Rightarrow> ident \<Rightarrow> ident \<Rightarrow> store_error + u64 \<times> checkpoint_bundle" where
  "latest_route st p sess w d = and_then (authorize_domain st p sess w d) (\<lambda>_.
     and_then (ok_or (newest_checkpoint st w d) (refuse ''not_found'')) (\<lambda>row.
     and_then (bundle_of_row row) (\<lambda>bundle. Inr (cpw_seq row, bundle))))"

definition by_digest_route ::
  "store \<Rightarrow> policy_chain \<Rightarrow> session \<Rightarrow> ident \<Rightarrow> ident \<Rightarrow> digest \<Rightarrow> store_error + wire_entry" where
  "by_digest_route st p sess w d checkpoint = and_then (authorize_domain st p sess w d) (\<lambda>_.
     and_then (ok_or (checkpoint_named st w d checkpoint) (refuse ''not_found'')) (\<lambda>row.
     and_then (bundle_of_row row) (\<lambda>bundle.
     Inr \<lparr>we_seq = cpw_seq row, we_record = Entry_Checkpoint bundle\<rparr>)))"

text \<open>The records on the walk, as many as fit the budget.\<close>

fun walk_records ::
  "store \<Rightarrow> ident \<Rightarrow> ident \<Rightarrow> u64 list \<Rightarrow> nat \<Rightarrow> checkpoint signed list \<Rightarrow> store_error + checkpoint signed list" where
  "walk_records st w d [] budget records = Inr records"
| "walk_records st w d (number # numbers) budget records =
     and_then (ok_or (checkpoint_numbered st w d number) Store_Internal) (\<lambda>row.
     let size1 = 4 + length (cpw_record row) in
     if size1 > budget then Inr records
     else and_then (row_signed row) (\<lambda>r. walk_records st w d numbers (budget - size1) (records @ [r])))"

definition chain_route ::
  "store \<Rightarrow> policy_chain \<Rightarrow> session \<Rightarrow> ident \<Rightarrow> ident \<Rightarrow> digest \<Rightarrow> digest \<Rightarrow> store_error + checkpoint signed list" where
  "chain_route st p sess w d from to = and_then (authorize_domain st p sess w d) (\<lambda>_.
     and_then (ok_or (checkpoint_named st w d from) (refuse ''not_found'')) (\<lambda>from.
     and_then (ok_or (checkpoint_named st w d to) (refuse ''not_found'')) (\<lambda>to.
     if cpw_number to > cpw_number from then Inl (refuse ''bad_request'')
     else walk_records st w d (descent_path (cpw_number from) (cpw_number to)) (MAX_BODY - 4) [])))"

text \<open>A checkpoint is servable at or above the retention floor, to an account whose history reaches it.\<close>

definition servable ::
  "store \<Rightarrow> policy_chain \<Rightarrow> session \<Rightarrow> ident \<Rightarrow> ident \<Rightarrow> u64 \<Rightarrow> store_error + checkpoint_row" where
  "servable st p sess w d at = and_then (authorize_domain st p sess w d) (\<lambda>_.
     and_then (ok_or (store_domain st w d) (refuse ''not_found'')) (\<lambda>row.
     if at < history_floor st w (ss_account sess) d then Inl (refuse ''before_history_floor'')
     else case (if at \<ge> dr_retention_floor row then checkpoint_at st w d at else None) of
       Some checkpoint \<Rightarrow> Inr checkpoint
     | None \<Rightarrow> Inl (Refused ''cursor_compacted''
         (Some (cursor_compacted_detail (dr_retention_floor row) (dr_checkpoint_seq row))))))"

subsection \<open>Live operations\<close>

definition after_cursor :: "live_cursor option \<Rightarrow> ident \<Rightarrow> op_ref \<Rightarrow> bool" where
  "after_cursor cursor rid x = (case cursor of None \<Rightarrow> True
     | Some c \<Rightarrow> (rid, ref_device x, ref_counter x) > (lcu_rid c, lcu_device c, lcu_counter c))"

text \<open>What the page's reading has so far: the budget, and the entries with their cursors.\<close>

type_synonym live_read = "nat \<times> (live_cursor \<times> wire_entry) list"

definition live_raw :: "store \<Rightarrow> ident \<Rightarrow> ident \<Rightarrow> op_ref \<Rightarrow> store_error + raw_entry" where
  "live_raw st w d x = (case entries_after st w d (ref_seq x - 1) 1 of
       [] \<Rightarrow> Inl Store_Internal
     | raw # _ \<Rightarrow> if re_seq raw = ref_seq x then Inr raw else Inl Store_Internal)"

text \<open>The result says whether the budget cut the page off.\<close>

fun live_page_refs ::
  "store \<Rightarrow> ident \<Rightarrow> ident \<Rightarrow> live_cursor option \<Rightarrow> ident \<Rightarrow> op_ref list \<Rightarrow> live_read
   \<Rightarrow> store_error + bool \<times> live_read" where
  "live_page_refs st w d after rid [] (budget, entries) = Inr (False, budget, entries)"
| "live_page_refs st w d after rid (x # xs) (budget, entries) =
     (if \<not> after_cursor after rid x then live_page_refs st w d after rid xs (budget, entries)
      else and_then (live_raw st w d x) (\<lambda>raw.
        let size1 = 8 + 1 + 4 + length (re_record raw) in
        if size1 > budget then Inr (True, budget, entries)
        else and_then (entry_of_raw raw) (\<lambda>e. live_page_refs st w d after rid xs (budget - size1,
          entries @ [(\<lparr>lcu_rid = rid, lcu_device = ref_device x, lcu_counter = ref_counter x\<rparr>, e)]))))"

fun live_page_rids ::
  "store \<Rightarrow> ident \<Rightarrow> ident \<Rightarrow> u64 \<Rightarrow> live_cursor option \<Rightarrow> ident list \<Rightarrow> live_read
   \<Rightarrow> store_error + bool \<times> live_read" where
  "live_page_rids st w d at after [] r = Inr (False, r)"
| "live_page_rids st w d at after (rid # rids) r =
     and_then (live_page_refs st w d after rid (live_refs st w rid at {}) r) (\<lambda>(cut, r).
     if cut then Inr (True, r) else live_page_rids st w d at after rids r)"

function live_loop ::
  "store \<Rightarrow> ident \<Rightarrow> ident \<Rightarrow> u64 \<Rightarrow> live_cursor option \<Rightarrow> ident \<Rightarrow> ident \<Rightarrow> live_read
   \<Rightarrow> store_error + bool \<times> live_read" where
  "live_loop st w d at after from through r =
     (let rids = domain_rids st w d from through RIDS_PER_QUERY in
      case live_page_rids st w d at after rids r of
        Inl e \<Rightarrow> Inl e
      | Inr (True, r) \<Rightarrow> Inr (True, r)
      | Inr (False, r) \<Rightarrow>
          (if rids = [] \<or> length rids \<noteq> RIDS_PER_QUERY then Inr (False, r)
           else case next_id (last rids) of
             None \<Rightarrow> Inr (False, r)
           | Some next1 \<Rightarrow> live_loop st w d at after next1 through r))"
  by pat_completeness auto

termination
  by (relation "measure (\<lambda>(_, _, _, _, _, from, _, _). unat (- 1 - ident_val from))")
    (auto intro: rids_loop_rises)

declare live_loop.simps [simp del]

definition live_route ::
  "store \<Rightarrow> policy_chain \<Rightarrow> session \<Rightarrow> ident \<Rightarrow> ident \<Rightarrow> u64 \<Rightarrow> ident option \<Rightarrow> live_cursor option
   \<Rightarrow> store_error + live_response" where
  "live_route st p sess w d at rid after = and_then (servable st p sess w d at) (\<lambda>_.
     let from = (case rid of Some rid \<Rightarrow> rid
           | None \<Rightarrow> (case after of Some c \<Rightarrow> lcu_rid c | None \<Rightarrow> Ident 0));
         through = (case rid of Some rid \<Rightarrow> rid | None \<Rightarrow> Ident (- 1))
     in and_then (live_loop st w d at after from through (MAX_BODY - (8 + 1 + 40 + 4), [])) (\<lambda>(cut, _, entries).
        Inr \<lparr>lrs_at = at,
          lrs_next = (if cut then if entries = [] then after else Some (fst (last entries)) else None),
          lrs_entries = map snd entries\<rparr>))"

subsection \<open>The manifest at a checkpoint\<close>

definition stored_buckets ::
  "store \<Rightarrow> policy_chain \<Rightarrow> session \<Rightarrow> ident \<Rightarrow> ident \<Rightarrow> u64 \<Rightarrow> store_error + digest list" where
  "stored_buckets st p sess w d at = and_then (servable st p sess w d at) (\<lambda>checkpoint.
     and_then (ok_or (checkpoint_buckets st w d (cpw_number checkpoint)) Store_Internal) buckets_from)"

definition manifest_buckets_route ::
  "store \<Rightarrow> policy_chain \<Rightarrow> session \<Rightarrow> ident \<Rightarrow> ident \<Rightarrow> u64 \<Rightarrow> store_error + digest list" where
  "manifest_buckets_route st p sess w d at = stored_buckets st p sess w d at"

definition manifest_node_route ::
  "crypto \<Rightarrow> store \<Rightarrow> policy_chain \<Rightarrow> session \<Rightarrow> ident \<Rightarrow> ident \<Rightarrow> u64 \<Rightarrow> u8 \<Rightarrow> u16 \<Rightarrow> store_error + digest list" where
  "manifest_node_route cr st p sess w d at level index = and_then (stored_buckets st p sess w d at) (\<lambda>buckets.
     ok_or (node_children cr buckets level index) (refuse ''bad_request''))"

definition LEAVES_FIT :: nat where "LEAVES_FIT = (MAX_BODY - (4 + 1 + 40)) div (16 + 16 + 8 + 8 + 32)"

fun leaf_page ::
  "nat \<Rightarrow> live_cursor option \<Rightarrow> (ident \<times> op_ref) list \<Rightarrow> leaf_ref list \<Rightarrow> leaf_ref list \<times> live_cursor option" where
  "leaf_page fits after [] refs = (refs, None)"
| "leaf_page fits after ((rid, x) # rest) refs =
     (if \<not> after_cursor after rid x then leaf_page fits after rest refs
      else if length refs = fits
      then (refs, if refs = [] then None else Some \<lparr>lcu_rid = lf_rid (last refs),
        lcu_device = ref_device (lf_op (last refs)), lcu_counter = ref_counter (lf_op (last refs))\<rparr>)
      else leaf_page fits after rest (refs @ [\<lparr>lf_rid = rid, lf_op = x\<rparr>]))"

definition flat_leaves :: "(ident \<times> op_ref list) list \<Rightarrow> (ident \<times> op_ref) list" where
  "flat_leaves leaves = concat (map (\<lambda>(rid, refs). map (Pair rid) refs) leaves)"

definition manifest_leaves_route ::
  "store \<Rightarrow> policy_chain \<Rightarrow> session \<Rightarrow> ident \<Rightarrow> ident \<Rightarrow> u64 \<Rightarrow> u16 \<Rightarrow> live_cursor option
   \<Rightarrow> store_error + leaf_ref list \<times> live_cursor option" where
  "manifest_leaves_route st p sess w d at index after =
     (if unat index \<ge> BUCKETS then Inl (refuse ''bad_request'')
      else and_then (servable st p sess w d at) (\<lambda>_.
        let (refs, next1) = leaf_page LEAVES_FIT after (flat_leaves (server_leaves st w d index at {})) []
        in and_then (map_err (\<lambda>_. Store_Internal) (sorted_new by_rid_device_counter UNBOUNDED refs)) (\<lambda>refs.
           Inr (refs, next1))))"

end
