(* ===== verification/Server_Leaves.thy ===== *)
theory Server_Leaves
  imports Server_Checkpoints Manifest_Laws Push_Laws Pull_Laws
begin

text \<open>
  The leaves that the server reads from its tables: reading a bucket in pages of 512 objects is
  one pass over the domain's objects, the range of identifiers that a bucket reads is exactly the
  bucket, and the leaves depend on the rows at or below their sequence alone.
\<close>

subsection \<open>The objects of a domain, in one pass\<close>

definition rids_from :: "store \<Rightarrow> ident \<Rightarrow> ident \<Rightarrow> ident \<Rightarrow> ident \<Rightarrow> ident list" where
  "rids_from st w d from through = map (\<lambda>((_, rid), _). rid)
     (filter (\<lambda>((w', rid), d'). w' = w \<and> from \<le> rid \<and> rid \<le> through \<and> d' = d) (bt_entries (st_rids st)))"

lemma domain_rids_take: "domain_rids st w d from through limit = take limit (rids_from st w d from through)"
  by (simp add: domain_rids_def rids_from_def)

lemma rids_from_iff: "rid \<in> set (rids_from st w d from through)
    \<longleftrightarrow> rid_domain st w rid = Some d \<and> from \<le> rid \<and> rid \<le> through"
  by (force simp: rids_from_def rid_domain_def)

lemma rids_from_rise: "sorted_wrt (<) (rids_from st w d from through)"
proof -
  have "sorted_wrt (\<lambda>x y. fst x < fst y) (bt_entries (st_rids st))"
    using bt.entries_rising [of "st_rids st"] by (simp add: rising_def sorted_wrt_map)
  then have "sorted_wrt (\<lambda>x y. fst x < fst y) (filter (\<lambda>((w', rid), d'). w' = w \<and> from \<le> rid \<and> rid \<le> through \<and> d' = d)
      (bt_entries (st_rids st)))"
    by (rule sorted_wrt_filter)
  then show ?thesis
    unfolding rids_from_def sorted_wrt_map by (rule sorted_wrt_mono_rel [rotated]) (auto simp: less_prod_def)
qed

lemma next_id_above: "next_id rid = Some next1 \<Longrightarrow> next1 \<le> x \<longleftrightarrow> rid < x"
proof -
  assume "next_id rid = Some next1"
  then have next1: "ident_val rid + 1 \<noteq> 0" "next1 = Ident (ident_val rid + 1)"
    by (auto simp: next_id_def split: if_splits)
  have "unat (ident_val rid + 1) = Suc (unat (ident_val rid))" using next1(1) by unat_arith
  then show ?thesis
    using next1(2) by (simp add: less_ident_def less_eq_ident_def word_le_nat_alt word_less_nat_alt Suc_le_eq)
qed

lemma next_id_none: "next_id rid = None \<Longrightarrow> x \<le> rid"
proof -
  assume "next_id rid = None"
  then have "ident_val rid = - 1" by (simp add: next_id_def eq_neg_iff_add_eq_0 split: if_splits)
  then show ?thesis by (simp add: less_eq_ident_def)
qed

lemma rid_below_last: "sorted_wrt (<) xs \<Longrightarrow> x \<in> set xs \<Longrightarrow> x \<le> (last xs :: 'a::order)"
  by (induction xs) (auto intro: less_imp_le less_le_trans)

text \<open>After a full page, what is left are the objects from the one right after its last.\<close>

lemma rids_beyond:
  assumes "domain_rids st w d from through n \<noteq> []"
  shows "drop n (rids_from st w d from through) =
    (case next_id (last (domain_rids st w d from through n)) of None \<Rightarrow> [] | Some next1 \<Rightarrow> rids_from st w d next1 through)"
proof -
  let ?xs = "rids_from st w d from through"
  let ?l = "last (take n ?xs)"
  have n: "take n ?xs \<noteq> []" using assms by (simp add: domain_rids_take)
  have split: "set ?xs = set (take n ?xs) \<union> set (drop n ?xs)" by (metis append_take_drop_id set_append)
  have above: "\<forall>x \<in> set (drop n ?xs). ?l < x"
    using rids_from_rise [of st w d "from" through] n sorted_wrt_append [of "(<)" "take n ?xs" "drop n ?xs"] by simp
  have "sorted_wrt (<) (take n ?xs)" using rids_from_rise by (rule sorted_wrt_take)
  then have below: "\<forall>x \<in> set (take n ?xs). x \<le> ?l" using rid_below_last by blast
  have l: "?l \<in> set ?xs" using last_in_set [OF n] split by blast
  show ?thesis
  proof (cases "next_id ?l")
    case None
    then show ?thesis
      using above next_id_none [OF None] by (auto simp: domain_rids_take not_less [symmetric] intro: hd_in_set)
  next
    case (Some next1)
    have "drop n ?xs = rids_from st w d next1 through"
    proof (rule rising_eq [where f = "\<lambda>x. x"])
      show "sorted_wrt (<) (drop n ?xs)" using rids_from_rise by (rule sorted_wrt_drop)
      show "sorted_wrt (<) (rids_from st w d next1 through)" by (rule rids_from_rise)
      have "from \<le> x" if "?l < x" for x using l that by (auto simp: rids_from_iff)
      then have "set (rids_from st w d next1 through) = {x \<in> set ?xs. ?l < x}"
        by (auto simp: rids_from_iff next_id_above [OF Some])
      also have "\<dots> = set (drop n ?xs)" using above below split by fastforce
      finally show "set (drop n ?xs) = set (rids_from st w d next1 through)" ..
    qed
    then show ?thesis by (simp add: domain_rids_take Some)
  qed
qed

lemma leaves_of_append: "leaves_of st w at ex (xs @ ys) = leaves_of st w at ex xs @ leaves_of st w at ex ys"
  by (simp add: leaves_of_def)

lemma leaves_loop_one_pass:
  "leaves_loop st w d at ex from through leaves = leaves @ leaves_of st w at ex (rids_from st w d from through)"
proof (induction st w d at ex "from" through leaves rule: leaves_loop.induct)
  case (1 st w d at ex "from" through leaves)
  let ?all = "rids_from st w d from through" and ?rids = "domain_rids st w d from through RIDS_PER_QUERY"
  have all: "?all = ?rids @ drop RIDS_PER_QUERY ?all" by (simp add: domain_rids_take)
  show ?case
  proof (cases "?rids = [] \<or> length ?rids \<noteq> RIDS_PER_QUERY")
    case True
    then have "drop RIDS_PER_QUERY ?all = []" by (auto simp: domain_rids_take RIDS_PER_QUERY_def)
    then have "?rids = ?all" using all by simp
    then show ?thesis using True by (subst leaves_loop.simps) (simp add: Let_def)
  next
    case False
    then have beyond: "leaves_of st w at ex ?all = leaves_of st w at ex ?rids @ leaves_of st w at ex
        (case next_id (last ?rids) of None \<Rightarrow> [] | Some next1 \<Rightarrow> rids_from st w d next1 through)"
      using rids_beyond [of st w d "from" through RIDS_PER_QUERY] by (subst all) (simp add: leaves_of_append)
    show ?thesis
    proof (cases "next_id (last ?rids)")
      case None
      then show ?thesis using False beyond by (subst leaves_loop.simps) (simp add: Let_def leaves_of_def)
    next
      case (Some next1)
      then show ?thesis using False beyond 1 [OF refl refl False Some] by (subst leaves_loop.simps) (simp add: Let_def)
    qed
  qed
qed

subsection \<open>The range of a bucket\<close>

lemma be_nat_append: "be_nat (xs @ ys) = be_nat xs * 256 ^ length ys + be_nat ys"
  by (induction ys rule: rev_induct) (simp_all add: append_assoc [symmetric] algebra_simps del: append_assoc)

lemma be_nat_low: "be_nat (replicate n 0) = 0"
proof (induction n)
  case (Suc n)
  then show ?case by (simp only: replicate_Suc replicate_append_same [symmetric] be_nat_snoc) simp
qed simp

lemma be_nat_high: "be_nat (replicate n (0xff :: byte)) + 1 = 256 ^ n"
proof (induction n)
  case (Suc n)
  have "be_nat (replicate (Suc n) (0xff :: byte)) = 256 * be_nat (replicate n 0xff) + 255"
    by (simp only: replicate_Suc replicate_append_same [symmetric] be_nat_snoc) simp
  with Suc show ?case by simp
qed simp

lemma bucket_range_nat:
  assumes "unat index < BUCKETS" and "bucket_range index = (low, high)"
  shows "unat (ident_val low) = unat index * 2 ^ 116"
    and "unat (ident_val high) = unat index * 2 ^ 116 + (2 ^ 116 - 1)"
proof -
  define i where "i = unat index"
  define b0 b1 where "b0 = (ucast (drop_bit 4 index) :: byte)" and "b1 = (ucast (push_bit 4 (index AND 0x0f)) :: byte)"
  have i: "i < 4096" using assms(1) by (simp add: i_def BUCKETS_def)
  have low: "low = Ident (bytes_word ([b0, b1] @ replicate 14 0))"
    and high: "high = Ident (bytes_word ([b0, b1 OR 0x0f] @ replicate 14 0xff))"
    using assms(2) by (simp_all only: bucket_range_def Let_def b0_def b1_def prod.inject)
  have b0: "unat b0 = i div 16"
    using i by (simp add: b0_def i_def drop_bit_eq_div unsigned_ucast_eq take_bit_eq_mod unat_div)
  have mask: "index AND 0x0f = take_bit 4 index" by (simp add: take_bit_eq_mask mask_eq_exp_minus_1)
  have mod: "i mod 16 * 16 + 15 < 256" using mod_less_divisor [of 16 i] by simp
  then have b1: "unat b1 = i mod 16 * 16"
    by (simp add: b1_def mask i_def unsigned_ucast_eq unsigned_push_bit_eq unsigned_take_bit_eq push_bit_eq_mult take_bit_eq_mod
      unat_word_ariths unat_mod)
  have "take_bit 4 b1 = 0" by (rule bit_word_eqI) (auto simp: b1_def mask bit_simps)
  then have "b1 AND 0x0f = 0" by (simp add: take_bit_eq_mask mask_eq_exp_minus_1)
  then have "b1 OR 0x0f = b1 + 0x0f" using word_plus_and_or [of b1 "0x0f"] by simp
  then have b1': "unat (b1 OR 0x0f) = i mod 16 * 16 + 15" using mod b1 by (simp add: unat_word_ariths)
  have "256 * (i div 16) + i mod 16 * 16 = i * 16" using div_mult_mod_eq [of i 16] by linarith
  then have "be_nat [b0, b1] = i * 16" "be_nat [b0, b1 OR 0x0f] = i * 16 + 15"
    using b0 b1 b1' by (simp_all add: be_nat_def)
  then have "be_nat ([b0, b1] @ replicate 14 0) = i * 2 ^ 116"
    "be_nat ([b0, b1 OR 0x0f] @ replicate 14 0xff) = i * 2 ^ 116 + (2 ^ 116 - 1)"
    using be_nat_high [of 14] unfolding be_nat_append be_nat_low by simp_all
  moreover have "unat (bytes_word bs :: 128 word) = be_nat bs" if "length bs = 16" for bs
    using be_nat_bound [of bs] that by (simp add: bytes_word_def unat_of_nat)
  ultimately show "unat (ident_val low) = unat index * 2 ^ 116"
    "unat (ident_val high) = unat index * 2 ^ 116 + (2 ^ 116 - 1)"
    unfolding low high ident.sel i_def by simp_all
qed

definition domain_objects :: "store \<Rightarrow> ident \<Rightarrow> ident \<Rightarrow> ident list" where
  "domain_objects st w d = rids_from st w d (Ident 0) (Ident (- 1))"

lemma domain_objects_iff [simp]: "rid \<in> set (domain_objects st w d) \<longleftrightarrow> rid_domain st w rid = Some d"
  by (simp add: domain_objects_def rids_from_iff less_eq_ident_def)

lemma div_range:
  fixes x n k :: nat
  assumes "0 < n"
  shows "x div n = k \<longleftrightarrow> k * n \<le> x \<and> x \<le> k * n + (n - 1)"
proof
  assume "x div n = k"
  then show "k * n \<le> x \<and> x \<le> k * n + (n - 1)"
    using div_mult_mod_eq [of x n] mod_less_divisor [OF assms, of x] by auto
next
  assume "k * n \<le> x \<and> x \<le> k * n + (n - 1)"
  then show "x div n = k" using assms by (intro div_nat_eqI) (auto simp: algebra_simps)
qed

lemma bucket_rids:
  assumes "unat index < BUCKETS" and "bucket_range index = (low, high)"
  shows "rids_from st w d low high = filter (\<lambda>rid. bucket_of rid = index) (domain_objects st w d)"
proof (rule rising_eq [where f = "\<lambda>x. x"])
  show "sorted_wrt (<) (rids_from st w d low high)" by (rule rids_from_rise)
  show "sorted_wrt (<) (filter (\<lambda>rid. bucket_of rid = index) (domain_objects st w d))"
    unfolding domain_objects_def by (intro sorted_wrt_filter rids_from_rise)
  have "low \<le> rid \<and> rid \<le> high \<longleftrightarrow> bucket_of rid = index" for rid
  proof -
    have "bucket_of rid = index \<longleftrightarrow> unat (ident_val rid) div 2 ^ 116 = unat index"
      by (simp only: bucket_of_nat [symmetric]) (rule word_unat_eq_iff)
    also have "\<dots> \<longleftrightarrow> unat index * 2 ^ 116 \<le> unat (ident_val rid) \<and> unat (ident_val rid) \<le> unat index * 2 ^ 116 + (2 ^ 116 - 1)"
      by (rule div_range) simp
    finally show ?thesis
      using bucket_range_nat [OF assms] by (simp add: less_eq_ident_def word_le_nat_alt)
  qed
  then show "set (rids_from st w d low high) = set (filter (\<lambda>rid. bucket_of rid = index) (domain_objects st w d))"
    by (simp only: set_eq_iff rids_from_iff set_filter mem_Collect_eq domain_objects_iff simp_thms)
qed

text \<open>The leaves of a whole domain, without pages and buckets.\<close>

definition live_leaves ::
  "store \<Rightarrow> ident \<Rightarrow> ident \<Rightarrow> u64 \<Rightarrow> (ident \<times> ident \<times> u64) set \<Rightarrow> (ident \<times> op_ref list) list" where
  "live_leaves st w d at ex = leaves_of st w at ex (domain_objects st w d)"

abbreviation in_bucket :: "u16 \<Rightarrow> (ident \<times> op_ref list) list \<Rightarrow> (ident \<times> op_ref list) list" where
  "in_bucket index leaves \<equiv> filter (\<lambda>(rid, _). bucket_of rid = index) leaves"

lemma leaves_of_filter: "leaves_of st w at ex (filter P rids) = filter (\<lambda>(rid, _). P rid) (leaves_of st w at ex rids)"
  by (induction rids) (simp_all add: leaves_of_def)

lemma server_leaves_bucket:
  assumes "unat index < BUCKETS"
  shows "server_leaves st w d index at ex = in_bucket index (live_leaves st w d at ex)"
  using bucket_rids [OF assms]
  by (auto simp: server_leaves_def leaves_loop_one_pass live_leaves_def leaves_of_filter split: prod.splits)

lemma leaves_of_rise: "sorted_wrt (<) rids \<Longrightarrow> sorted_wrt (\<lambda>x y. fst x < fst y) (leaves_of st w at ex rids)"
  unfolding leaves_of_def by (intro sorted_wrt_filter) (simp add: sorted_wrt_map)

lemma live_leaves_rise: "sorted_wrt (\<lambda>x y. fst x < fst y) (live_leaves st w d at ex)"
  unfolding live_leaves_def domain_objects_def by (intro leaves_of_rise rids_from_rise)

lemma live_leaves_iff: "(rid, refs) \<in> set (live_leaves st w d at ex) \<longleftrightarrow>
    rid_domain st w rid = Some d \<and> refs = live_refs st w rid at ex \<and> refs \<noteq> []"
  by (auto simp: live_leaves_def leaves_of_def)

definition hashed :: "crypto \<Rightarrow> (ident \<times> op_ref list) list \<Rightarrow> digest list" where
  "hashed cr leaves = map (\<lambda>(rid, refs). leaf_hash cr rid refs) leaves"

definition leaves_buckets :: "crypto \<Rightarrow> (ident \<times> op_ref list) list \<Rightarrow> digest list" where
  "leaves_buckets cr leaves = map (\<lambda>i. bucket_hash cr (of_nat i) (hashed cr (in_bucket (of_nat i) leaves))) [0..<BUCKETS]"

lemma length_leaves_buckets [simp]: "length (leaves_buckets cr leaves) = BUCKETS"
  by (simp add: leaves_buckets_def)

lemma manifest_of_leaves:
  assumes "bt_entries (mf_leaves m) = leaves"
  shows "bucket_hashes cr m = leaves_buckets cr leaves" and "manifest_live_objects m = of_nat (length leaves)"
  using bucket_hashes_nth(1) [of cr m] bucket_hashes_nth(2) [of _ cr m] assms
  by (auto simp: leaves_buckets_def hashed_def bucket_leaves_def manifest_live_objects_def bt_len_def intro: nth_equalityI)

subsection \<open>What the leaves depend on\<close>

definition seen_rows :: "store \<Rightarrow> ident \<Rightarrow> ident \<Rightarrow> u64 \<Rightarrow> operation_row list \<times> cover_row list" where
  "seen_rows st w rid at =
     (filter (\<lambda>r. or_workspace r = w \<and> or_rid r = rid \<and> or_seq r \<le> at_most at) (st_operations st),
      filter (\<lambda>c. cvr_workspace c = w \<and> cvr_rid c = rid \<and> cvr_by_seq c \<le> at_most at) (st_covers st))"

lemma live_ops_seen: "live_ops st w rid at = map (\<lambda>r. (row_op r, or_class r)) (sort_key or_seq
    (filter (\<lambda>r. \<not> or_dropped r \<and> \<not> list_ex (\<lambda>c. cvr_device c = or_device r \<and> cvr_counter c \<ge> or_counter r)
      (snd (seen_rows st w rid at))) (fst (seen_rows st w rid at))))"
  unfolding live_ops_def seen_rows_def
  by (intro arg_cong [where f = "map _"] arg_cong [where f = "sort_key _"]) (auto simp: list_ex_iff intro!: filter_cong)

lemma live_ops_same: "seen_rows st w rid at = seen_rows st' w rid at' \<Longrightarrow> live_ops st w rid at = live_ops st' w rid at'"
  by (simp add: live_ops_seen)

end
