(* ===== verification/Server_Plan.thy ===== *)
theory Server_Plan
  imports Server_Leaves
begin

text \<open>
  The server's incremental recomputation of a manifest against the full one: from the previous
  checkpoint's bucket hashes, recomputing the buckets that the records between the two checkpoints
  and the dropped deletes touch gives every bucket hash of the live set at the new checkpoint, and its
  count of leaves.
\<close>

subsection \<open>What the tables keep\<close>

text \<open>
  Every operation and every cover is of an object recorded in its domain, and a cover of the domain
  above \<open>base\<close> was recorded by an operation on its object.
\<close>

definition rows_sound :: "store \<Rightarrow> ident \<Rightarrow> ident \<Rightarrow> u64 \<Rightarrow> bool" where
  "rows_sound st w d base \<longleftrightarrow>
     (\<forall>r \<in> set (st_operations st). or_workspace r = w \<longrightarrow> rid_domain st w (or_rid r) = Some (or_domain r))
   \<and> (\<forall>c \<in> set (st_covers st). cvr_workspace c = w \<longrightarrow> rid_domain st w (cvr_rid c) = Some (cvr_domain c)
       \<and> (cvr_domain c = d \<and> base < cvr_by_seq c \<longrightarrow>
         (\<exists>r \<in> set (st_operations st). or_workspace r = w \<and> or_rid r = cvr_rid c \<and> or_seq r = cvr_by_seq c)))"

definition covered_of :: "checkpoint_row option \<Rightarrow> u64" where
  "covered_of previous = (case previous of None \<Rightarrow> 0 | Some r \<Rightarrow> cpw_covered_seq r)"

text \<open>
  The latest checkpoint's stored bucket hashes, its leaf count and its root are those of the live set
  it covers.
\<close>

definition manifest_stored :: "crypto \<Rightarrow> store \<Rightarrow> ident \<Rightarrow> ident \<Rightarrow> checkpoint_row option \<Rightarrow> bool" where
  "manifest_stored cr st w d latest = (case latest of
       None \<Rightarrow> live_leaves st w d 0 {} = []
     | Some r \<Rightarrow> \<exists>c bs. row_signed r = Inr c \<and> checkpoint_buckets st w d (cpw_number r) = Some bs
         \<and> buckets_from bs = Inr (leaves_buckets cr (live_leaves st w d (cpw_covered_seq r) {}))
         \<and> cp_live_objects (body c) = of_nat (length (live_leaves st w d (cpw_covered_seq r) {}))
         \<and> cp_manifest_root (body c) = root_of_buckets cr (leaves_buckets cr (live_leaves st w d (cpw_covered_seq r) {})))"

subsection \<open>Buckets that nothing touches\<close>

lemma in_ops_between: "rid \<in> fst ` set (ops_between st w d after through) \<longleftrightarrow>
    (\<exists>r \<in> set (st_operations st). or_workspace r = w \<and> or_domain r = d \<and> or_rid r = rid
      \<and> at_most after < or_seq r \<and> or_seq r \<le> at_most through)"
  by (force simp: ops_between_def)

lemma at_most_mono: "a \<le> b \<Longrightarrow> at_most a \<le> at_most b"
  by (auto simp: at_most_def min_def)

lemma untouched_seen:
  assumes "rows_sound st w d prev" and "rid_domain st w rid = Some d" and "prev \<le> at" and "prev \<le> INTEGER_MAX"
    and "rid \<notin> fst ` set (ops_between st w d prev at)"
  shows "seen_rows st w rid prev = seen_rows st w rid at"
proof -
  have prev: "at_most prev = prev" using assms(4) by (simp add: at_most_def)
  have rows: "or_seq r \<le> prev"
    if "r \<in> set (st_operations st)" "or_workspace r = w" "or_rid r = rid" "or_seq r \<le> at_most at" for r
  proof (rule ccontr)
    assume "\<not> or_seq r \<le> prev"
    moreover have "or_domain r = d" using assms(1,2) that(1-3) unfolding rows_sound_def by force
    ultimately show False using assms(5) that unfolding in_ops_between prev by auto
  qed
  have covers: "cvr_by_seq c \<le> prev"
    if c: "c \<in> set (st_covers st)" "cvr_workspace c = w" "cvr_rid c = rid" "cvr_by_seq c \<le> at_most at" for c
  proof (rule ccontr)
    assume "\<not> cvr_by_seq c \<le> prev"
    moreover have "cvr_domain c = d" using assms(1,2) c(1-3) unfolding rows_sound_def by force
    ultimately obtain r where "r \<in> set (st_operations st)" "or_workspace r = w" "or_rid r = rid" "or_seq r = cvr_by_seq c"
      using assms(1) c unfolding rows_sound_def by (auto simp: not_le)
    then show False using rows [of r] c(4) \<open>\<not> cvr_by_seq c \<le> prev\<close> by simp
  qed
  have "prev \<le> at_most at" using at_most_mono [OF assms(3)] prev by simp
  with rows covers show ?thesis
    unfolding seen_rows_def prev by (auto intro!: filter_cong dest: order_trans)
qed

lemma live_refs_none_dropped:
  "rid \<notin> fst ` ex \<Longrightarrow> live_refs st w rid at ex = live_refs st w rid at {}"
  unfolding live_refs_def by (subst filter_True) (auto simp: image_iff)

lemma leaves_of_cong:
  "(\<And>rid. rid \<in> set rids \<Longrightarrow> live_refs st w rid at ex = live_refs st' w rid at' ex')
    \<Longrightarrow> leaves_of st w at ex rids = leaves_of st' w at' ex' rids"
  by (simp add: leaves_of_def cong: map_cong)

lemma untouched_leaves:
  assumes "rows_sound st w d prev" and "prev \<le> at" and "prev \<le> INTEGER_MAX"
    and "bucket_of ` fst ` set (ops_between st w d prev at) \<subseteq> T" and "bucket_of ` fst ` ex \<subseteq> T"
  shows "filter (\<lambda>(rid, _). bucket_of rid \<notin> T) (live_leaves st w d prev {})
    = filter (\<lambda>(rid, _). bucket_of rid \<notin> T) (live_leaves st w d at ex)"
  unfolding live_leaves_def leaves_of_filter [symmetric]
proof (rule leaves_of_cong)
  fix rid assume "rid \<in> set (filter (\<lambda>rid. bucket_of rid \<notin> T) (domain_objects st w d))"
  then have rid: "rid_domain st w rid = Some d" "bucket_of rid \<notin> T" by auto
  then have "rid \<notin> fst ` set (ops_between st w d prev at)" "rid \<notin> fst ` ex" using assms(4,5) by blast+
  then show "live_refs st w rid prev {} = live_refs st w rid at ex"
    using live_ops_same [OF untouched_seen [OF assms(1) rid(1) assms(2,3)]] live_refs_none_dropped [of rid ex]
    by (simp add: live_refs_def)
qed

subsection \<open>The fold over the touched buckets\<close>

lemma count_buckets:
  "distinct T \<Longrightarrow> (\<Sum>i\<leftarrow>T. length (in_bucket i leaves)) = length (filter (\<lambda>(rid, _). bucket_of rid \<in> set T) leaves)"
proof (induction T)
  case (Cons i T)
  have "length (filter (\<lambda>(rid, _). bucket_of rid \<in> set (i # T)) leaves)
      = length (in_bucket i leaves) + length (filter (\<lambda>(rid, _). bucket_of rid \<in> set T) leaves)"
    using Cons.prems by (induction leaves) auto
  then show ?case using Cons by simp
qed simp

lemma replan_step:
  assumes "unat k < BUCKETS" and "replan_bucket cr st w d prev at ex (bs, n) k = Inr (bs', n')"
  shows "bs' = bs[unat k := bucket_hash cr k (hashed cr (in_bucket k (live_leaves st w d at ex)))]"
    and "n' + of_nat (length (in_bucket k (live_leaves st w d prev {})))
      = n + of_nat (length (in_bucket k (live_leaves st w d at ex)))"
  using assms by (auto simp: replan_bucket_def Let_def server_leaves_bucket hashed_def split: if_splits)

lemma total_step: "n' + b = n1 + y \<Longrightarrow> n1 + a = n + x \<Longrightarrow> n' + (a + b) = n + (x + y)" for a :: "'a::comm_ring"
  by (metis add.assoc add.commute)

lemma replan_fold:
  assumes "try_fold (replan_bucket cr st w d prev at ex) (bs, n) T = Inr (bs', n')" and "distinct T"
    and "\<forall>i \<in> set T. unat i < BUCKETS" and "length bs = BUCKETS"
  shows "length bs' = BUCKETS
    \<and> (\<forall>i < BUCKETS. bs' ! i = (if of_nat i \<in> set T
        then bucket_hash cr (of_nat i) (hashed cr (in_bucket (of_nat i) (live_leaves st w d at ex))) else bs ! i))
    \<and> n' + of_nat (\<Sum>i\<leftarrow>T. length (in_bucket i (live_leaves st w d prev {})))
      = n + of_nat (\<Sum>i\<leftarrow>T. length (in_bucket i (live_leaves st w d at ex)))"
  using assms
proof (induction T arbitrary: bs n)
  case (Cons k T)
  have k: "unat k < BUCKETS" using Cons.prems(3) by simp
  obtain bs1 n1 where step: "replan_bucket cr st w d prev at ex (bs, n) k = Inr (bs1, n1)"
    and rest: "try_fold (replan_bucket cr st w d prev at ex) (bs1, n1) T = Inr (bs', n')"
    using Cons.prems(1) by auto
  note bs1 = replan_step [OF k step]
  have "of_nat i = k \<longleftrightarrow> i = unat k" if "i < BUCKETS" for i
    using that by (auto simp: word_unat_eq_iff unat_of_nat BUCKETS_def)
  then show ?case
    using Cons.IH [OF rest] Cons.prems(2,3,4) bs1(1) k total_step [OF _ bs1(2)] by (auto simp: nth_list_update)
qed simp

subsection \<open>The plan is the full recomputation\<close>

lemma empty_buckets_leaves: "empty_buckets cr = leaves_buckets cr []"
  by (simp add: empty_buckets_def leaves_buckets_def hashed_def)

text \<open>What the plan starts from: the previous checkpoint's floor, leaf count, bucket hashes and heads.\<close>

lemma replan_parts:
  assumes "replan cr st p w c previous = Inr pl" and "manifest_stored cr st w (cp_domain c) previous"
  defines "prev \<equiv> covered_of previous" and "d \<equiv> cp_domain c" and "at \<equiv> cp_covered_seq c"
  defines "ops \<equiv> ops_between st w d prev at"
    and "T \<equiv> sort (remdups (map (bucket_of \<circ> fst) (ops_between st w d prev at) @ map (bucket_of \<circ> del_rid) (cpl_dropped pl)))"
  shows "cpl_previous pl = previous"
    and "cpl_dropped pl = floor_drops st w d (case previous of None \<Rightarrow> 0 | Some r \<Rightarrow> cpw_floor r) (cp_floor c) at"
    and "try_fold (replan_bucket cr st w d prev at (delete_key ` set (cpl_dropped pl)))
      (leaves_buckets cr (live_leaves st w d prev {}), of_nat (length (live_leaves st w d prev {}))) T
      = Inr (cpl_buckets pl, cpl_live_objects pl)"
    and "cpl_root pl = root_of_buckets cr (cpl_buckets pl)"
proof -
  show "cpl_previous pl = previous"
    and "cpl_dropped pl = floor_drops st w d (case previous of None \<Rightarrow> 0 | Some r \<Rightarrow> cpw_floor r) (cp_floor c) at"
    and "try_fold (replan_bucket cr st w d prev at (delete_key ` set (cpl_dropped pl)))
      (leaves_buckets cr (live_leaves st w d prev {}), of_nat (length (live_leaves st w d prev {}))) T
      = Inr (cpl_buckets pl, cpl_live_objects pl)"
    and "cpl_root pl = root_of_buckets cr (cpl_buckets pl)"
    using assms(1,2) unfolding replan_def manifest_stored_def T_def prev_def d_def at_def covered_of_def
    by (cases previous; auto simp: Let_def empty_buckets_leaves)+
qed

lemma replan_exact:
  assumes "replan cr st p w c previous = Inr pl" and "manifest_stored cr st w (cp_domain c) previous"
    and "rows_sound st w (cp_domain c) (covered_of previous)"
    and "covered_of previous \<le> cp_covered_seq c" and "covered_of previous \<le> INTEGER_MAX"
  defines "leaves \<equiv> live_leaves st w (cp_domain c) (cp_covered_seq c) (delete_key ` set (cpl_dropped pl))"
  shows "cpl_buckets pl = leaves_buckets cr leaves" and "cpl_root pl = root_of_buckets cr (leaves_buckets cr leaves)"
    and "cpl_live_objects pl = of_nat (length leaves)"
proof -
  let ?d = "cp_domain c" and ?prev = "covered_of previous" and ?ex = "delete_key ` set (cpl_dropped pl)"
  let ?old = "live_leaves st w ?d ?prev {}"
  define T where "T = sort (remdups (map (bucket_of \<circ> fst) (ops_between st w ?d ?prev (cp_covered_seq c))
    @ map (bucket_of \<circ> del_rid) (cpl_dropped pl)))"
  note parts = replan_parts [OF assms(1,2)]
  have T: "distinct T" "\<forall>i \<in> set T. unat i < BUCKETS"
    "set T = bucket_of ` fst ` set (ops_between st w ?d ?prev (cp_covered_seq c)) \<union> bucket_of ` fst ` ?ex"
    using bucket_of_less by (auto simp: T_def delete_key_def image_comp comp_def image_Un)
  note fold = replan_fold [OF parts(3) [folded T_def] T(1,2) length_leaves_buckets]
  have same: "filter (\<lambda>(rid, _). bucket_of rid \<notin> set T) ?old = filter (\<lambda>(rid, _). bucket_of rid \<notin> set T) leaves"
    unfolding leaves_def by (rule untouched_leaves [OF assms(3,4,5)]) (auto simp: T(3))
  have rest: "in_bucket i ?old = in_bucket i leaves" if "i \<notin> set T" for i
  proof -
    have "in_bucket i (filter (\<lambda>(rid, _). bucket_of rid \<notin> set T) ls) = in_bucket i ls" for ls :: "(ident \<times> op_ref list) list"
      using that by (induction ls) auto
    then show ?thesis using same by metis
  qed
  show buckets: "cpl_buckets pl = leaves_buckets cr leaves"
  proof (rule nth_equalityI)
    fix i assume "i < length (cpl_buckets pl)"
    then have i: "i < BUCKETS" using fold by simp
    then show "cpl_buckets pl ! i = leaves_buckets cr leaves ! i"
      using fold rest [of "of_nat i"] by (auto simp: leaves_buckets_def leaves_def [symmetric])
  qed (use fold in simp)
  show "cpl_root pl = root_of_buckets cr (leaves_buckets cr leaves)" using parts(4) buckets by simp
  have split: "length ls = length (filter (\<lambda>(rid, _). bucket_of rid \<in> set T) ls) + length (filter (\<lambda>(rid, _). bucket_of rid \<notin> set T) ls)"
    for ls :: "(ident \<times> op_ref list) list"
    by (induction ls) auto
  have "length ?old + length (filter (\<lambda>(rid, _). bucket_of rid \<in> set T) leaves)
      = length leaves + length (filter (\<lambda>(rid, _). bucket_of rid \<in> set T) ?old)"
    using split [of ?old] split [of leaves] arg_cong [OF same, of length] by simp
  then have "(of_nat (length ?old + length (filter (\<lambda>(rid, _). bucket_of rid \<in> set T) leaves)) :: u64)
      = of_nat (length leaves + length (filter (\<lambda>(rid, _). bucket_of rid \<in> set T) ?old))" by simp
  then show "cpl_live_objects pl = of_nat (length leaves)"
    using fold unfolding count_buckets [OF T(1)] leaves_def [symmetric] by (simp add: algebra_simps)
qed

end
