(* ===== verification/Server_Commit.thy ===== *)
theory Server_Commit
  imports Server_Plan Checkpoint_Laws
begin

text \<open>
  What a committed checkpoint writes: its row, its entry, the dropped deletes, and nothing else of
  the tables that decide live sets; and what the later reads of those tables then give.
\<close>

subsection \<open>Dropped deletes\<close>

definition mark_dropped :: "ident \<Rightarrow> (ident \<times> ident \<times> u64) set \<Rightarrow> operation_row \<Rightarrow> operation_row" where
  "mark_dropped w ks r = (if or_workspace r = w \<and> (or_rid r, or_device r, or_counter r) \<in> ks then r\<lparr>or_dropped := True\<rparr> else r)"

lemma mark_dropped_fields [simp]:
  "or_workspace (mark_dropped w ks r) = or_workspace r" "or_domain (mark_dropped w ks r) = or_domain r"
  "or_seq (mark_dropped w ks r) = or_seq r" "or_device (mark_dropped w ks r) = or_device r"
  "or_counter (mark_dropped w ks r) = or_counter r" "or_rid (mark_dropped w ks r) = or_rid r"
  "or_dropped (mark_dropped w ks r) \<longleftrightarrow> or_dropped r \<or> or_workspace r = w \<and> (or_rid r, or_device r, or_counter r) \<in> ks"
  by (auto simp: mark_dropped_def)

text \<open>The tables after the deletes of \<open>ks\<close> were dropped.\<close>

definition with_dropped :: "ident \<Rightarrow> (ident \<times> ident \<times> u64) set \<Rightarrow> store \<Rightarrow> store \<Rightarrow> bool" where
  "with_dropped w ks st st' \<longleftrightarrow> st_operations st' = map (mark_dropped w ks) (st_operations st)
     \<and> st_covers st' = st_covers st \<and> st_rids st' = st_rids st \<and> st_chain_heads st' = st_chain_heads st
     \<and> st_entries st' = st_entries st \<and> st_checkpoints st' = st_checkpoints st \<and> head_seq_of st' = head_seq_of st"

lemma with_dropped_same: "same_tables st st' \<Longrightarrow> with_dropped w {} st st'"
  by (auto simp: with_dropped_def same_tables_def core_tables_def mark_dropped_def map_idI)

lemma mark_dropped_twice: "mark_dropped w ks' (mark_dropped w ks r) = mark_dropped w (ks \<union> ks') r"
  by (auto simp: mark_dropped_def)

lemma with_dropped_trans: "with_dropped w ks a b \<Longrightarrow> with_dropped w ks' b c \<Longrightarrow> with_dropped w (ks \<union> ks') a c"
  by (simp add: with_dropped_def mark_dropped_twice)

lemma drop_stepD:
  assumes "drop_step w d st x = Inr st'"
  shows "with_dropped w {delete_key x} st st'"
proof -
  let ?st = "drop_delete w (del_rid x) (ref_device (del_op x)) (ref_counter (del_op x)) st"
  have "with_dropped w {delete_key x} st ?st"
    by (auto simp: with_dropped_def drop_delete_def mark_dropped_def delete_key_def head_seq_of_def fun_eq_iff)
  moreover obtain usage history st1 where "leave_live w d (ref_seq (del_op x)) ?st = Inr ((usage, history), st1)"
    "st' = add_usage w d usage history st1"
    using assms by (auto simp: drop_step_def note_dropped_def)
  then have "same_tables ?st st'"
    using same_tables_leave_live same_tables_updates(3) same_tables_trans by blast
  ultimately show ?thesis using with_dropped_trans [OF _ with_dropped_same] by fastforce
qed

lemma drop_fold:
  assumes "try_fold (drop_step w d) st xs = Inr st'"
  shows "with_dropped w (delete_key ` set xs) st st'"
  using assms
proof (induction xs arbitrary: st)
  case Nil
  then show ?case by (simp add: with_dropped_same)
next
  case (Cons x xs)
  then obtain st1 where "drop_step w d st x = Inr st1" "try_fold (drop_step w d) st1 xs = Inr st'" by auto
  then show ?case using with_dropped_trans [OF drop_stepD Cons.IH] by simp
qed

lemma live_ops_dropped:
  assumes "st_operations st' = map (mark_dropped w ks) (st_operations st)" and "st_covers st' = st_covers st"
  shows "live_ops st' w0 rid at
    = filter (\<lambda>(x, _). \<not> (w0 = w \<and> (rid, lo_device x, lo_counter x) \<in> ks)) (live_ops st w0 rid at)"
proof -
  let ?live = "\<lambda>st r. or_workspace r = w0 \<and> or_rid r = rid \<and> or_seq r \<le> at_most at \<and> \<not> or_dropped r
         \<and> \<not> list_ex (\<lambda>c. cvr_workspace c = or_workspace r \<and> cvr_rid c = or_rid r
             \<and> cvr_device c = or_device r \<and> cvr_counter c \<ge> or_counter r \<and> cvr_by_seq c \<le> at_most at) (st_covers st)"
  let ?kept = "\<lambda>r. \<not> (w0 = w \<and> (rid, or_device r, or_counter r) \<in> ks)"
  have "filter (?live st') (map (mark_dropped w ks) rs) = filter (\<lambda>r. ?live st r \<and> ?kept r) rs" for rs
    using assms(2) by (induction rs) (auto simp: mark_dropped_def)
  then have "live_ops st' w0 rid at = map (\<lambda>r. (row_op r, or_class r)) (filter ?kept (sort_key or_seq (filter (?live st) (st_operations st))))"
    unfolding live_ops_def assms(1) by (simp add: filter_sort conj_commute)
  then show ?thesis by (simp add: live_ops_def filter_map comp_def row_op_def)
qed

lemma live_refs_dropped:
  assumes "st_operations st' = map (mark_dropped w ks) (st_operations st)" and "st_covers st' = st_covers st"
  shows "live_refs st' w rid at {} = live_refs st w rid at ks"
  using live_ops_dropped [OF assms, of w] by (simp add: live_refs_def)

lemma live_leaves_dropped:
  assumes "st_operations st' = map (mark_dropped w ks) (st_operations st)" and "st_covers st' = st_covers st"
    and "st_rids st' = st_rids st"
  shows "live_leaves st' w d at {} = live_leaves st w d at ks"
  using live_refs_dropped [OF assms(1,2)] assms(3)
  unfolding live_leaves_def domain_objects_def rids_from_def leaves_of_def by simp

subsection \<open>The commit\<close>

lemma write_checkpointD:
  assumes "write_checkpoint cr w bundle pl row st = Inr (r, st')"
  defines "c \<equiv> body (cb_checkpoint bundle)" and "d \<equiv> cp_domain (body (cb_checkpoint bundle))"
  obtains h weight where "head_seq_of st w d = Some h" and "h < INTEGER_MAX"
    and "r = \<lparr>rc_record_digest = signed_checkpoint_digest cr (cb_checkpoint bundle), rc_domain = d, rc_seq = h + 1\<rparr>"
    and "cp_number c \<le> INTEGER_MAX" and "cp_covered_seq c \<le> INTEGER_MAX"
    and "\<forall>x \<in> set (checkpoint_rows st w d). cpw_number (scp_row x) \<noteq> cp_number c
        \<and> cpw_digest (scp_row x) \<noteq> signed_checkpoint_digest cr (cb_checkpoint bundle)"
    and "checkpoint_rows st' w d = checkpoint_rows st w d @ [\<lparr>scp_workspace = w, scp_domain = d,
        scp_row = \<lparr>cpw_number = cp_number c, cpw_digest = signed_checkpoint_digest cr (cb_checkpoint bundle),
          cpw_seq = h + 1, cpw_covered_seq = cp_covered_seq c, cpw_floor = cp_floor c,
          cpw_record = enc_signed enc_checkpoint (cb_checkpoint bundle),
          cpw_heads = encode_list enc_ref (cb_heads bundle), cpw_log_weight = weight\<rparr>,
        scp_buckets = Some (concat (map digest_bytes (cpl_buckets pl)))\<rparr>]"
    and "st_operations st' = map (mark_dropped w (delete_key ` set (cpl_dropped pl))) (st_operations st)"
    and "st_covers st' = st_covers st" and "st_rids st' = st_rids st"
    and "head_seq_of st' w d = Some (h + 1)"
proof -
  let ?bs = "enc_checkpoint_bundle bundle"
  let ?digest = "signed_checkpoint_digest cr (cb_checkpoint bundle)"
  define weight where "weight = saturating_add (saturating_add (dr_log_weight row) (of_nat (length ?bs))) BUCKET_HASH_WEIGHT"
  define bs where "bs = concat (map digest_bytes (cpl_buckets pl))"
  have d: "cp_domain c = d" by (simp add: c_def d_def)
  obtain seqno st1 st2 st3 st4 where "append_entry w (cp_domain c) ENTRY_CHECKPOINT ?bs st = Inr (seqno, st1)"
    "insert_checkpoint w (cp_domain c) \<lparr>cpw_number = cp_number c, cpw_digest = ?digest, cpw_seq = seqno,
       cpw_covered_seq = cp_covered_seq c, cpw_floor = cp_floor c, cpw_record = enc_signed enc_checkpoint (cb_checkpoint bundle),
       cpw_heads = encode_list enc_ref (cb_heads bundle), cpw_log_weight = weight\<rparr> bs st1 = Inr st2"
    "try_fold (drop_step w (cp_domain c)) st2 (cpl_dropped pl) = Inr st3"
    "set_checkpoint_progress w (cp_domain c) \<lparr>cpr_entries = 0, cpr_weight = 0, cpr_due = 0, cpr_log_weight = weight,
       cpr_crossing_seen = dr_quota_crossings row\<rparr> st3 = Inr st4"
    "(if cpl_dropped pl = [] then Inr st4 else set_pruned_floor w (cp_domain c) 0 st4) = Inr st'"
    "r = \<lparr>rc_record_digest = ?digest, rc_domain = cp_domain c, rc_seq = seqno\<rparr>"
    using assms(1) unfolding write_checkpoint_def c_def [symmetric] Let_def weight_def [symmetric] bs_def [symmetric]
    unfolding and_then_Inr_iff split_paired_Ex prod.case sum.inject prod.inject by blast
  note steps = this [unfolded d]
  obtain col where col: "seqno = dr_head_seq col + 1" "dr_head_seq col < INTEGER_MAX" "bt_get (st_domains st) (w, d) = Some col"
    "st1 = st\<lparr>st_domains := bt_insert (w, d) (col\<lparr>dr_head_seq := seqno\<rparr>) (st_domains st),
        st_entries := bt_insert (w, d, seqno) (ENTRY_CHECKPOINT, ?bs) (st_entries st)\<rparr>"
    by (rule append_entryD [OF steps(1)]) blast
  have fits: "cp_number c \<le> INTEGER_MAX" "cp_covered_seq c \<le> INTEGER_MAX"
    and fresh: "\<not> list_ex (\<lambda>x. cpw_number (scp_row x) = cp_number c \<or> cpw_digest (scp_row x) = ?digest
          \<or> cpw_covered_seq (scp_row x) = cp_covered_seq c) (checkpoint_rows st1 w d)"
    and st2: "st2 = st1\<lparr>st_checkpoints := st_checkpoints st1 @ [\<lparr>scp_workspace = w, scp_domain = d,
        scp_row = \<lparr>cpw_number = cp_number c, cpw_digest = ?digest,
          cpw_seq = seqno, cpw_covered_seq = cp_covered_seq c, cpw_floor = cp_floor c,
          cpw_record = enc_signed enc_checkpoint (cb_checkpoint bundle),
          cpw_heads = encode_list enc_ref (cb_heads bundle), cpw_log_weight = at_most weight\<rparr>, scp_buckets = Some bs\<rparr>],
        st_domains := bt_adjust (w, d) (\<lambda>x. x\<lparr>dr_checkpoint_seq := cp_covered_seq c\<rparr>) (st_domains st1)\<rparr>"
    using steps(2) by (auto simp: insert_checkpoint_def int_column_def split: if_splits)
  have st': "with_dropped w (delete_key ` set (cpl_dropped pl)) st2 st'"
  proof -
    have "same_tables st4 st'"
      using steps(5) by (auto simp: set_pruned_floor_def int_column_def same_tables_def core_tables_def head_seq_of_def
          option.map_comp comp_def fun_eq_iff split: if_splits)
    then have "same_tables st3 st'" using same_tables_progress [OF steps(4)] same_tables_trans by blast
    then show ?thesis using with_dropped_trans [OF drop_fold [OF steps(3)] with_dropped_same] by simp
  qed
  have rows: "checkpoint_rows st1 w d = checkpoint_rows st w d" by (simp add: col(4) checkpoint_rows_def)
  show ?thesis
  proof (rule that)
    show "head_seq_of st w d = Some (dr_head_seq col)" using col by (simp add: head_seq_of_def)
    show "dr_head_seq col < INTEGER_MAX" by (rule col(2))
    show "r = \<lparr>rc_record_digest = ?digest, rc_domain = d, rc_seq = dr_head_seq col + 1\<rparr>" using steps(6) col(1) by simp
    show "cp_number c \<le> INTEGER_MAX" "cp_covered_seq c \<le> INTEGER_MAX" by (rule fits)+
    show "\<forall>x \<in> set (checkpoint_rows st w d). cpw_number (scp_row x) \<noteq> cp_number c \<and> cpw_digest (scp_row x) \<noteq> ?digest"
      using fresh unfolding rows by (auto simp: list_ex_iff)
    show "checkpoint_rows st' w d = checkpoint_rows st w d @ [\<lparr>scp_workspace = w, scp_domain = d,
        scp_row = \<lparr>cpw_number = cp_number c, cpw_digest = ?digest,
          cpw_seq = dr_head_seq col + 1, cpw_covered_seq = cp_covered_seq c, cpw_floor = cp_floor c,
          cpw_record = enc_signed enc_checkpoint (cb_checkpoint bundle),
          cpw_heads = encode_list enc_ref (cb_heads bundle), cpw_log_weight = at_most weight\<rparr>,
        scp_buckets = Some (concat (map digest_bytes (cpl_buckets pl)))\<rparr>]"
      using st' by (simp add: with_dropped_def checkpoint_rows_def st2 col(1,4) bs_def)
    show "st_operations st' = map (mark_dropped w (delete_key ` set (cpl_dropped pl))) (st_operations st)"
      "st_covers st' = st_covers st" "st_rids st' = st_rids st"
      using st' by (simp_all add: with_dropped_def st2 col(4))
    show "head_seq_of st' w d = Some (dr_head_seq col + 1)"
      using st' by (simp add: with_dropped_def st2 head_seq_of_def col(1,4))
  qed
qed

end
