(* ===== verification/Server_Run.thy ===== *)
theory Server_Run
  imports Server_Commit
begin

text \<open>
  The runs of a server for one domain: checkpoints are planned in one transaction and committed in a
  later one, with anything in between, and the invariant of its checkpoint table.
\<close>

subsection \<open>Runs\<close>

definition newest_row :: "store \<Rightarrow> ident \<Rightarrow> ident \<Rightarrow> stored_checkpoint option" where
  "newest_row st w d = (let rows = checkpoint_rows st w d in if rows = [] then None else Some (last rows))"

definition row_kept :: "stored_checkpoint \<Rightarrow> checkpoint_row" where
  "row_kept x = (scp_row x)\<lparr>cpw_heads := []\<rparr>"

text \<open>
  What every other transaction does to a domain: its log grows, its checkpoint rows stay, but for
  bucket hashes and heads that are cleared below the newest one, and the live sets at the sequences
  from the newest checkpoint's on, which are committed, stay what they are.
\<close>

definition keeps_live :: "store \<Rightarrow> store \<Rightarrow> ident \<Rightarrow> ident \<Rightarrow> bool" where
  "keeps_live st st' w d \<longleftrightarrow>
     map row_kept (checkpoint_rows st' w d) = map row_kept (checkpoint_rows st w d)
   \<and> newest_row st' w d = newest_row st w d
   \<and> (let base = covered_of (map_option scp_row (newest_row st w d)) in
       rows_sound st' w d base
     \<and> (\<exists>h h'. head_seq_of st w d = Some h \<and> head_seq_of st' w d = Some h' \<and> h \<le> h' \<and> h' \<le> INTEGER_MAX
         \<and> (\<forall>at. base \<le> at \<and> at \<le> h \<longrightarrow> live_leaves st' w d at {} = live_leaves st w d at {})))"

text \<open>The plans of checkpoints that were pushed and may still be committed.\<close>

type_synonym planned = "(checkpoint_bundle \<times> checkpoint_plan) set"

inductive checkpoint_run :: "crypto \<Rightarrow> ident \<Rightarrow> ident \<Rightarrow> store \<Rightarrow> planned \<Rightarrow> bool" for cr w d where
  run_start: "checkpoint_rows st w d = [] \<Longrightarrow> rows_sound st w d 0 \<Longrightarrow> live_leaves st w d 0 {} = []
    \<Longrightarrow> head_seq_of st w d = Some h \<Longrightarrow> h \<le> INTEGER_MAX \<Longrightarrow> checkpoint_run cr w d st {}"
| run_plan: "checkpoint_run cr w d st planned \<Longrightarrow> plan_checkpoint cr st p sess w bundle = Inr pl
    \<Longrightarrow> cp_domain (body (cb_checkpoint bundle)) = d \<Longrightarrow> wf_checkpoint_bundle bundle
    \<Longrightarrow> checkpoint_run cr w d st (insert (bundle, pl) planned)"
| run_commit: "checkpoint_run cr w d st planned \<Longrightarrow> (bundle, pl) \<in> planned
    \<Longrightarrow> commit_checkpoint_locked cr p sess w bundle pl floor_setting st = Inr (r, st')
    \<Longrightarrow> checkpoint_run cr w d st' planned"
| run_other: "checkpoint_run cr w d st planned \<Longrightarrow> keeps_live st st' w d \<Longrightarrow> checkpoint_run cr w d st' planned"

subsection \<open>The invariant\<close>

text \<open>A row holds a record of the chain, and its entry comes after what it covers.\<close>

definition row_of_record :: "crypto \<Rightarrow> checkpoint_row \<Rightarrow> checkpoint signed \<Rightarrow> bool" where
  "row_of_record cr x r \<longleftrightarrow> wf_signed wf_checkpoint r \<and> cpw_record x = enc_signed enc_checkpoint r
     \<and> cpw_number x = cp_number (body r) \<and> cpw_digest x = signed_checkpoint_digest cr r
     \<and> cpw_covered_seq x = cp_covered_seq (body r) \<and> cpw_floor x = cp_floor (body r)
     \<and> cpw_covered_seq x < cpw_seq x"

definition holds_chain :: "crypto \<Rightarrow> store \<Rightarrow> ident \<Rightarrow> ident \<Rightarrow> checkpoint signed list \<Rightarrow> bool" where
  "holds_chain cr st w d rs \<longleftrightarrow> list_all2 (row_of_record cr) (map scp_row (checkpoint_rows st w d)) rs
     \<and> genuine_chain cr rs \<and> length rs \<le> unat INTEGER_MAX
     \<and> distinct (map (cpw_digest \<circ> scp_row) (checkpoint_rows st w d))
     \<and> (\<exists>h. head_seq_of st w d = Some h \<and> h \<le> INTEGER_MAX \<and> (\<forall>x \<in> set (checkpoint_rows st w d). cpw_seq (scp_row x) \<le> h))"

definition checkpoint_inv :: "crypto \<Rightarrow> store \<Rightarrow> ident \<Rightarrow> ident \<Rightarrow> bool" where
  "checkpoint_inv cr st w d \<longleftrightarrow> (\<exists>rs. holds_chain cr st w d rs)
     \<and> manifest_stored cr st w d (newest_checkpoint st w d)
     \<and> rows_sound st w d (covered_of (newest_checkpoint st w d))"

text \<open>
  A plan follows from a checkpoint of the table; while that is the newest one and the plan is
  no retry, the plan is what the tables say of the live set it covers.
\<close>

definition is_retry :: "crypto \<Rightarrow> checkpoint_bundle \<Rightarrow> checkpoint_plan \<Rightarrow> bool" where
  "is_retry cr bundle pl \<longleftrightarrow> (case cpl_previous pl of None \<Rightarrow> False
     | Some r \<Rightarrow> cpw_digest r = signed_checkpoint_digest cr (cb_checkpoint bundle))"

definition plan_exact :: "crypto \<Rightarrow> store \<Rightarrow> ident \<Rightarrow> checkpoint_bundle \<Rightarrow> checkpoint_plan \<Rightarrow> bool" where
  "plan_exact cr st w bundle pl \<longleftrightarrow>
     (let c = body (cb_checkpoint bundle); d = cp_domain c;
          leaves = live_leaves st w d (cp_covered_seq c) (delete_key ` set (cpl_dropped pl))
      in cpl_buckets pl = leaves_buckets cr leaves \<and> cpl_live_objects pl = of_nat (length leaves)
       \<and> cpl_root pl = root_of_buckets cr (cpl_buckets pl)
       \<and> check_checkpoint_link st w c (cpl_previous pl) = Inr ()
       \<and> (\<exists>h. head_seq_of st w d = Some h \<and> cp_covered_seq c \<le> h)
       \<and> (case cpl_previous pl of None \<Rightarrow> True | Some r \<Rightarrow> cpw_seq r \<le> cp_covered_seq c \<and> cpw_floor r \<le> cp_floor c))"

definition plan_sound :: "crypto \<Rightarrow> store \<Rightarrow> ident \<Rightarrow> ident \<Rightarrow> checkpoint_bundle \<Rightarrow> checkpoint_plan \<Rightarrow> bool" where
  "plan_sound cr st w d bundle pl \<longleftrightarrow> wf_checkpoint_bundle bundle \<and> cp_domain (body (cb_checkpoint bundle)) = d
     \<and> (case cpl_previous pl of None \<Rightarrow> cp_number (body (cb_checkpoint bundle)) = 1
        | Some r \<Rightarrow> newest_checkpoint st w d = Some r
            \<or> cpw_digest r \<in> set (map (cpw_digest \<circ> scp_row) (butlast (checkpoint_rows st w d))))
     \<and> (\<not> is_retry cr bundle pl \<and> cpl_previous pl = newest_checkpoint st w d \<longrightarrow> plan_exact cr st w bundle pl)"

subsection \<open>The newest checkpoint and the rows by number\<close>

lemma chain_numbers:
  assumes "holds_chain cr st w d rs"
  shows "length (checkpoint_rows st w d) = length rs"
    and "i < length rs \<Longrightarrow> row_of_record cr (scp_row (checkpoint_rows st w d ! i)) (rs ! i)"
    and "i < length rs \<Longrightarrow> cpw_number (scp_row (checkpoint_rows st w d ! i)) = of_nat (Suc i)"
    and "i < length rs \<Longrightarrow> unat (cpw_number (scp_row (checkpoint_rows st w d ! i))) = Suc i"
proof -
  have all: "list_all2 (row_of_record cr) (map scp_row (checkpoint_rows st w d)) rs" and genuine: "genuine_chain cr rs"
    using assms by (simp_all add: holds_chain_def)
  show len: "length (checkpoint_rows st w d) = length rs" using list_all2_lengthD [OF all] by simp
  show row: "row_of_record cr (scp_row (checkpoint_rows st w d ! i)) (rs ! i)" if "i < length rs"
    using list_all2_nthD2 [OF all that] len that by simp
  show number: "cpw_number (scp_row (checkpoint_rows st w d ! i)) = of_nat (Suc i)" if "i < length rs"
    using row [OF that] genuine_nth(1) [OF genuine, of "Suc i"] that by (simp add: row_of_record_def)
  show "unat (cpw_number (scp_row (checkpoint_rows st w d ! i))) = Suc i" if "i < length rs"
    using number [OF that] genuine_nth(2) [OF genuine, of "Suc i"] that by simp
qed

lemma newest_is_last:
  assumes "holds_chain cr st w d rs"
  shows "newest_checkpoint st w d = map_option scp_row (newest_row st w d)"
proof -
  let ?rows = "checkpoint_rows st w d"
  have "sorted (map (cpw_number \<circ> scp_row) ?rows)"
    using chain_numbers(1,4) [OF assms] by (auto simp: sorted_iff_nth_mono word_le_nat_alt)
  then have "sort_key (cpw_number \<circ> scp_row) ?rows = ?rows" by (rule sort_key_id_if_sorted)
  then show ?thesis by (simp add: newest_checkpoint_def newest_row_def Let_def)
qed

lemma numbered_row:
  assumes "holds_chain cr st w d rs" and "1 \<le> n" and "n \<le> length rs"
  shows "checkpoint_numbered st w d (of_nat n) = Some (scp_row (checkpoint_rows st w d ! (n - 1)))"
proof -
  let ?rows = "checkpoint_rows st w d"
  have n: "unat (of_nat n :: u64) = n" using assms by (intro genuine_nth(2)) (auto simp: holds_chain_def)
  have "(of_nat n :: u64) \<le> INTEGER_MAX" using assms n by (simp add: holds_chain_def word_le_nat_alt)
  then have number: "at_most (of_nat n) = of_nat n" by (simp add: at_most_def)
  have "find (\<lambda>c. cpw_number (scp_row c) = of_nat n) ?rows = Some (?rows ! (n - 1))"
    unfolding find_Some_iff
    using assms(2,3) chain_numbers(1) [OF assms(1)] chain_numbers(3,4) [OF assms(1)] n
    by (intro exI [of _ "n - 1"]) (auto simp: word_unat_eq_iff simp del: of_nat_Suc)
  then show ?thesis by (simp add: checkpoint_numbered_def number)
qed

lemma buckets_of_newest:
  assumes "holds_chain cr st w d rs" and "newest_row st w d = Some x"
  shows "checkpoint_buckets st w d (cpw_number (scp_row x)) = scp_buckets x"
proof -
  let ?rows = "checkpoint_rows st w d" and ?n = "length rs"
  have x: "x = ?rows ! (?n - 1)" "?rows \<noteq> []"
    using assms(2) chain_numbers(1) [OF assms(1)] by (auto simp: newest_row_def Let_def last_conv_nth split: if_splits)
  then have n: "1 \<le> ?n" using chain_numbers(1) [OF assms(1)] by (cases ?n) auto
  then have number: "cpw_number (scp_row x) = of_nat ?n" "unat (of_nat ?n :: u64) = ?n"
    using chain_numbers(3,4) [OF assms(1), of "?n - 1"] x by auto
  have "(of_nat ?n :: u64) \<le> INTEGER_MAX" using assms n number by (simp add: holds_chain_def word_le_nat_alt)
  then have "at_most (of_nat ?n) = of_nat ?n" by (simp add: at_most_def)
  moreover have "find (\<lambda>c. cpw_number (scp_row c) = of_nat ?n) ?rows = Some x"
    unfolding find_Some_iff
    using n chain_numbers(1) [OF assms(1)] chain_numbers(3,4) [OF assms(1)] number x(1)
    by (intro exI [of _ "?n - 1"]) (auto simp: word_unat_eq_iff simp del: of_nat_Suc)
  ultimately show ?thesis by (simp add: checkpoint_buckets_def number(1))
qed

subsection \<open>Plans\<close>

lemma newest_in_rows:
  assumes "holds_chain cr st w d rs" and "newest_checkpoint st w d = Some r"
  shows "r \<in> set (map scp_row (checkpoint_rows st w d))"
  using assms(2) unfolding newest_is_last [OF assms(1)] by (auto simp: newest_row_def Let_def split: if_splits)

lemma row_covers_less:
  assumes "holds_chain cr st w d rs" and "r \<in> set (map scp_row (checkpoint_rows st w d))"
  shows "cpw_covered_seq r < cpw_seq r" and "cpw_seq r \<le> INTEGER_MAX"
proof -
  obtain i where i: "i < length rs" "r = scp_row (checkpoint_rows st w d ! i)"
    using assms chain_numbers(1) [OF assms(1)] by (auto simp: in_set_conv_nth)
  then show "cpw_covered_seq r < cpw_seq r" using chain_numbers(2) [OF assms(1) i(1)] unfolding row_of_record_def i(2) by blast
  show "cpw_seq r \<le> INTEGER_MAX" using assms by (auto simp: holds_chain_def)
qed

lemma plan_is_sound:
  assumes "checkpoint_inv cr st w d" and "plan_checkpoint cr st p sess w bundle = Inr pl"
    and "cp_domain (body (cb_checkpoint bundle)) = d" and "wf_checkpoint_bundle bundle"
  shows "plan_sound cr st w d bundle pl"
proof -
  let ?c = "body (cb_checkpoint bundle)" and ?newest = "newest_checkpoint st w d"
  obtain rs where chain: "holds_chain cr st w d rs" using assms(1) by (auto simp: checkpoint_inv_def)
  have in_rows: "r \<in> set (map scp_row (checkpoint_rows st w d))" if "?newest = Some r" for r
    using newest_in_rows [OF chain that] .
  show ?thesis
  proof (cases "case ?newest of None \<Rightarrow> False | Some r \<Rightarrow> cpw_digest r = signed_checkpoint_digest cr (cb_checkpoint bundle)")
    case True
    then have "cpl_previous pl = ?newest"
      using assms(2,3) unfolding plan_checkpoint_def Let_def by (auto split: option.splits if_splits)
    then show ?thesis using True assms(3,4) by (auto simp: plan_sound_def is_retry_def split: option.splits)
  next
    case False
    obtain row where row: "store_domain st w d = Some row"
      using assms(2,3) unfolding plan_checkpoint_def Let_def by (auto split: option.splits)
    have checks: "check_checkpoint_link st w ?c ?newest = Inr ()"
      "check_checkpoint_bounds ?c ?newest (dr_retention_floor row) (dr_head_seq row) = Inr ()"
      and plan: "replan cr st p w ?c ?newest = Inr pl"
      using assms(2,3) False row unfolding plan_checkpoint_def Let_def by (auto split: option.splits)
    have head: "head_seq_of st w d = Some (dr_head_seq row)"
      using row by (auto simp: store_domain_def head_seq_of_def domain_columns.defs domain_row.defs)
    have bounds: "cp_covered_seq ?c \<le> dr_head_seq row"
      "case ?newest of None \<Rightarrow> True | Some r \<Rightarrow> cpw_seq r \<le> cp_covered_seq ?c \<and> cpw_floor r \<le> cp_floor ?c"
      using checks(2) by (auto simp: check_checkpoint_bounds_def Let_def split: option.splits if_splits)
    have base: "covered_of ?newest \<le> cp_covered_seq ?c" "covered_of ?newest \<le> INTEGER_MAX"
      using bounds(2) row_covers_less [OF chain in_rows] by (auto simp: covered_of_def split: option.splits)
    have inv: "manifest_stored cr st w (cp_domain ?c) ?newest" "rows_sound st w (cp_domain ?c) (covered_of ?newest)"
      using assms(1,3) by (simp_all add: checkpoint_inv_def)
    note exact = replan_exact [OF plan inv base] replan_parts(1,4) [OF plan inv(1)]
    have "plan_exact cr st w bundle pl"
      using exact checks(1) bounds head assms(3) by (auto simp: plan_exact_def Let_def)
    moreover have "cp_number ?c = 1" if "?newest = None"
      using checks(1) that by (auto simp: check_checkpoint_link_def Let_def split: if_splits)
    ultimately show ?thesis using exact(4) assms(3,4) by (auto simp: plan_sound_def split: option.splits)
  qed
qed

subsection \<open>A commit keeps the invariant\<close>

lemma skip_of_chain:
  assumes "holds_chain cr st w d rs" and "Suc (length rs) \<le> unat INTEGER_MAX" and "low (Suc (length rs)) \<noteq> 0"
  shows "map_option cpw_digest (checkpoint_numbered st w d (skip_number (of_nat (Suc (length rs)))))
    = Some (signed_checkpoint_digest cr (rs ! (low (Suc (length rs)) - 1)))"
    and "skip_number (of_nat (Suc (length rs))) \<noteq> 0"
proof -
  let ?n = "Suc (length rs)"
  have n: "unat (of_nat ?n :: u64) = ?n"
    using assms(2) by (intro unat_of_nat_u64) (simp add: INTEGER_MAX_def)
  have l: "1 \<le> low ?n" "low ?n \<le> length rs" using assms(3) low_less [of ?n] by auto
  have skip: "unat (skip_number (of_nat ?n)) = low ?n" by (simp only: skip_number_low n)
  then show "skip_number (of_nat ?n) \<noteq> 0" using assms(3) by (metis unat_0)
  have "skip_number (of_nat ?n) = of_nat (low ?n)" unfolding skip [symmetric] by simp
  then have "checkpoint_numbered st w d (skip_number (of_nat ?n)) = Some (scp_row (checkpoint_rows st w d ! (low ?n - 1)))"
    using numbered_row [OF assms(1) l] by simp
  moreover have "cpw_digest (scp_row (checkpoint_rows st w d ! (low ?n - 1))) = signed_checkpoint_digest cr (rs ! (low ?n - 1))"
    using chain_numbers(2) [OF assms(1), of "low ?n - 1"] l by (simp add: row_of_record_def)
  ultimately show "map_option cpw_digest (checkpoint_numbered st w d (skip_number (of_nat ?n)))
      = Some (signed_checkpoint_digest cr (rs ! (low ?n - 1)))" by simp
qed

text \<open>The link check of a plan is the rule of the chain.\<close>

lemma link_follows:
  assumes "holds_chain cr st w d rs" and "check_checkpoint_link st w (body r) (newest_checkpoint st w d) = Inr ()"
    and "cp_domain (body r) = d" and "cp_number (body r) \<le> INTEGER_MAX"
    and "case newest_checkpoint st w d of None \<Rightarrow> True
      | Some x \<Rightarrow> cpw_covered_seq x < cp_covered_seq (body r) \<and> cpw_floor x \<le> cp_floor (body r)"
  shows "follows cr rs r" and "Suc (length rs) \<le> unat INTEGER_MAX"
proof -
  let ?n = "Suc (length rs)"
  let ?rows = "checkpoint_rows st w d"
  have len: "length ?rows = length rs" by (rule chain_numbers(1) [OF assms(1)])
  have newest: "newest_checkpoint st w d = (if rs = [] then None else Some (scp_row (?rows ! (length rs - 1))))"
    using newest_is_last [OF assms(1)] len by (auto simp: newest_row_def Let_def last_conv_nth)
  have last_row: "row_of_record cr (scp_row (?rows ! (length rs - 1))) (last rs)" if "rs \<noteq> []"
    using chain_numbers(2) [OF assms(1), of "length rs - 1"] that by (simp add: last_conv_nth)
  have number: "cp_number (body r) = of_nat ?n"
    using assms(2) newest chain_numbers(3) [OF assms(1), of "length rs - 1"]
    by (auto simp: check_checkpoint_link_def Let_def split: if_splits)
  have max: "length rs \<le> unat INTEGER_MAX" using assms(1) by (simp add: holds_chain_def)
  have "unat INTEGER_MAX < 2 ^ 63" by (simp add: INTEGER_MAX_def)
  then have "unat (of_nat ?n :: u64) = ?n" using max by (intro unat_of_nat_u64) simp
  then show fits: "?n \<le> unat INTEGER_MAX" using assms(4) unfolding number word_le_nat_alt by simp
  have previous: "cp_previous (body r) = (if rs = [] then ZERO_digest else signed_checkpoint_digest cr (last rs))"
    using assms(2) newest last_row by (auto simp: check_checkpoint_link_def Let_def row_of_record_def split: if_splits)
  have skip: "cp_skip (body r) = (if low ?n = 0 then ZERO_digest else signed_checkpoint_digest cr (rs ! (low ?n - 1)))"
  proof (cases "low ?n = 0")
    case True
    have "unat (skip_number (of_nat ?n)) = 0" using \<open>unat (of_nat ?n) = ?n\<close> True by (simp only: skip_number_low)
    then have "skip_number (cp_number (body r)) = 0" by (simp only: number unat_eq_zero)
    then show ?thesis using assms(2) True by (auto simp: check_checkpoint_link_def Let_def split: option.splits if_splits)
  next
    case False
    then show ?thesis
      using assms(2,3) skip_of_chain [OF assms(1) fits False] unfolding number [symmetric]
      by (auto simp: check_checkpoint_link_def Let_def split: option.splits if_splits)
  qed
  show "follows cr rs r"
    using number previous skip newest last_row assms(5) by (auto simp: follows_def row_of_record_def)
qed

lemma commit_cases:
  assumes "checkpoint_inv cr st w d" and "plan_sound cr st w d bundle pl"
    and "commit_checkpoint_locked cr p sess w bundle pl floor_setting st = Inr (r, st')"
  obtains "st' = st"
  | row where "plan_exact cr st w bundle pl" and "write_checkpoint cr w bundle pl row st = Inr (r, st')"
      and "cpl_previous pl = newest_checkpoint st w d" and "cpl_root pl = cp_manifest_root (body (cb_checkpoint bundle))"
      and "cpl_live_objects pl = cp_live_objects (body (cb_checkpoint bundle))"
      and "heads_digest cr (cpl_heads pl) = cp_heads_digest (body (cb_checkpoint bundle))"
      and "heads_digest cr (cb_heads bundle) = cp_heads_digest (body (cb_checkpoint bundle))"
proof -
  let ?c = "body (cb_checkpoint bundle)" and ?newest = "newest_checkpoint st w d"
  let ?digest = "signed_checkpoint_digest cr (cb_checkpoint bundle)"
  have d: "cp_domain ?c = d" using assms(2) by (simp add: plan_sound_def)
  obtain rs where chain: "holds_chain cr st w d rs" using assms(1) by (auto simp: checkpoint_inv_def)
  show ?thesis
  proof (cases "case ?newest of None \<Rightarrow> False | Some x \<Rightarrow> cpw_digest x = ?digest")
    case True
    then have "st' = st" using assms(3) d by (auto simp: commit_checkpoint_locked_def Let_def split: option.splits)
    then show ?thesis by (rule that(1))
  next
    case False
    then have "commit_after cr p w bundle pl floor_setting ?newest st = Inr (r, st')"
      using assms(3) d by (auto simp: commit_checkpoint_locked_def Let_def split: option.splits)
    then obtain row where stale: "(case ?newest of None \<Rightarrow> ZERO_digest | Some x \<Rightarrow> cpw_digest x)
          = (case cpl_previous pl of None \<Rightarrow> ZERO_digest | Some x \<Rightarrow> cpw_digest x)"
      and same: "cpl_root pl = cp_manifest_root ?c" "cpl_live_objects pl = cp_live_objects ?c"
        "heads_digest cr (cpl_heads pl) = cp_heads_digest ?c" "heads_digest cr (cb_heads bundle) = cp_heads_digest ?c"
      and written: "write_checkpoint cr w bundle pl row st = Inr (r, st')"
      by (auto simp: commit_after_def Let_def split: option.splits if_splits)
    have previous: "cpl_previous pl = ?newest"
    proof (cases "cpl_previous pl")
      case None
      then have number: "cp_number ?c = 1" using assms(2) by (simp add: plan_sound_def)
      have "\<forall>x \<in> set (checkpoint_rows st w d). cpw_number (scp_row x) \<noteq> 1"
        by (rule write_checkpointD [OF written]) (simp add: d number)
      moreover have "cpw_number (scp_row (checkpoint_rows st w d ! 0)) = 1" if "rs \<noteq> []"
        using chain_numbers(3) [OF chain, of 0] that by simp
      ultimately have "rs = []" using chain_numbers(1) [OF chain] by (metis length_greater_0_conv nth_mem)
      then have "?newest = None" using chain_numbers(1) [OF chain] newest_is_last [OF chain] by (simp add: newest_row_def)
      then show ?thesis using None by simp
    next
      case (Some x)
      then have older: "?newest = Some x \<or> cpw_digest x \<in> set (map (cpw_digest \<circ> scp_row) (butlast (checkpoint_rows st w d)))"
        using assms(2) by (simp add: plan_sound_def)
      then have "checkpoint_rows st w d \<noteq> []"
        using newest_is_last [OF chain] by (auto simp: newest_row_def)
      then obtain y ys where rows: "checkpoint_rows st w d = ys @ [y]" by (metis append_butlast_last_id)
      then have y: "?newest = Some (scp_row y)" using newest_is_last [OF chain] by (simp add: newest_row_def)
      moreover have "cpw_digest (scp_row y) = cpw_digest x" using stale Some y by simp
      moreover have "cpw_digest (scp_row y) \<notin> set (map (cpw_digest \<circ> scp_row) ys)"
        using chain unfolding holds_chain_def rows by simp
      ultimately show ?thesis using older Some rows by auto
    qed
    have "\<not> is_retry cr bundle pl" using False previous by (auto simp: is_retry_def)
    then have "plan_exact cr st w bundle pl" using assms(2) previous by (simp add: plan_sound_def)
    from that(2) [OF this written previous same] show ?thesis .
  qed
qed

lemma wf_bundle_record: "wf_checkpoint_bundle bundle \<Longrightarrow> wf_signed wf_checkpoint (cb_checkpoint bundle)"
  by (simp add: wf_checkpoint_bundle_def wf_nested_def)

lemma row_of_record_signed: "row_of_record cr x r \<Longrightarrow> row_signed x = Inr r"
  by (simp add: row_of_record_def row_signed_def stored_def wire.from_bytes_enc [OF signed_checkpoint_wire])

lemma buckets_of_bytes:
  assumes "length ds = BUCKETS"
  shows "buckets_from (concat (map digest_bytes ds)) = Inr ds"
proof -
  have digests: "take 32 (drop (i * 32) (concat (map digest_bytes ds))) = digest_bytes (ds ! i)" if "i < length ds" for ds :: "digest list" and i
    using that
  proof (induction ds arbitrary: i)
    case (Cons x ds)
    then show ?case by (cases i) (simp_all add: digest_bytes_def)
  qed simp
  have "length (concat (map digest_bytes ds)) = BUCKETS * 32" if "length ds = BUCKETS" for ds :: "digest list"
    using that by (simp add: length_concat comp_def digest_bytes_def sum_list_triv)
  moreover have "map (\<lambda>i. Digest (bytes_word (take 32 (drop (i * 32) (concat (map digest_bytes ds)))))) [0..<BUCKETS] = ds"
    using assms digests [of _ ds] by (intro nth_equalityI) (auto simp: digest_bytes_def bytes_word_word_bytes)
  ultimately show ?thesis using assms by (simp add: buckets_from_def)
qed

lemma rises_below: "h < (m :: u64) \<Longrightarrow> h < h + 1"
  by unat_arith

lemma commit_keeps_inv:
  assumes "checkpoint_inv cr st w d" and "plan_sound cr st w d bundle pl"
    and "commit_checkpoint_locked cr p sess w bundle pl floor_setting st = Inr (r, st')"
  shows "checkpoint_inv cr st' w d"
  using assms
proof (cases rule: commit_cases)
  case 1
  then show ?thesis using assms(1) by simp
next
  case (2 row)
  let ?c = "body (cb_checkpoint bundle)" and ?rec = "cb_checkpoint bundle" and ?ks = "delete_key ` set (cpl_dropped pl)"
  obtain rs where chain: "holds_chain cr st w d rs" using assms(1) by (auto simp: checkpoint_inv_def)
  have d: "cp_domain ?c = d" and wf: "wf_signed wf_checkpoint ?rec"
    using assms(2) wf_bundle_record by (simp_all add: plan_sound_def)
  obtain h weight where head: "head_seq_of st w d = Some h" "h < INTEGER_MAX"
    and fits: "cp_number ?c \<le> INTEGER_MAX" "cp_covered_seq ?c \<le> INTEGER_MAX"
    and fresh: "\<forall>x \<in> set (checkpoint_rows st w d). cpw_number (scp_row x) \<noteq> cp_number ?c
        \<and> cpw_digest (scp_row x) \<noteq> signed_checkpoint_digest cr ?rec"
    and rows: "checkpoint_rows st' w d = checkpoint_rows st w d @ [\<lparr>scp_workspace = w, scp_domain = d,
        scp_row = \<lparr>cpw_number = cp_number ?c, cpw_digest = signed_checkpoint_digest cr ?rec,
          cpw_seq = h + 1, cpw_covered_seq = cp_covered_seq ?c, cpw_floor = cp_floor ?c,
          cpw_record = enc_signed enc_checkpoint ?rec,
          cpw_heads = encode_list enc_ref (cb_heads bundle), cpw_log_weight = weight\<rparr>,
        scp_buckets = Some (concat (map digest_bytes (cpl_buckets pl)))\<rparr>]"
    and tables: "st_operations st' = map (mark_dropped w ?ks) (st_operations st)" "st_covers st' = st_covers st"
      "st_rids st' = st_rids st"
    and head': "head_seq_of st' w d = Some (h + 1)"
    by (rule write_checkpointD [OF 2(2), unfolded d])
  let ?x = "last (checkpoint_rows st' w d)"
  define leaves where "leaves = live_leaves st' w d (cp_covered_seq ?c) {}"
  have leaves: "live_leaves st w d (cp_covered_seq ?c) ?ks = leaves"
    unfolding leaves_def by (rule live_leaves_dropped [OF tables, symmetric])
  have plan: "cpl_buckets pl = leaves_buckets cr leaves" "cpl_live_objects pl = of_nat (length leaves)"
    "cpl_root pl = root_of_buckets cr (leaves_buckets cr leaves)" "cp_covered_seq ?c \<le> h"
    "check_checkpoint_link st w ?c (newest_checkpoint st w d) = Inr ()"
    and rises: "case newest_checkpoint st w d of None \<Rightarrow> True | Some x \<Rightarrow> cpw_seq x \<le> cp_covered_seq ?c \<and> cpw_floor x \<le> cp_floor ?c"
    using 2(1,3) head(1) d leaves by (auto simp: plan_exact_def Let_def)
  have rises: "case newest_checkpoint st w d of None \<Rightarrow> True | Some x \<Rightarrow> cpw_covered_seq x < cp_covered_seq ?c \<and> cpw_floor x \<le> cp_floor ?c"
    using rises row_covers_less(1) [OF chain newest_in_rows [OF chain]] by (auto split: option.splits intro: order_less_le_trans)
  note follows = link_follows [OF chain plan(5) d fits(1) rises]
  have above: "h < h + 1" "h + 1 \<le> INTEGER_MAX" using head(2) inc_le [of h INTEGER_MAX] by (auto simp: rises_below)
  have chain': "holds_chain cr st' w d (rs @ [?rec])"
    unfolding holds_chain_def
  proof (intro conjI)
    show "list_all2 (row_of_record cr) (map scp_row (checkpoint_rows st' w d)) (rs @ [?rec])"
      using chain wf plan(4) above(1) by (auto simp: rows holds_chain_def row_of_record_def intro!: list_all2_appendI)
    show "genuine_chain cr (rs @ [?rec])"
      using chain follows by (simp add: genuine_snoc holds_chain_def INTEGER_MAX_def)
    show "length (rs @ [?rec]) \<le> unat INTEGER_MAX" using follows(2) by simp
    show "distinct (map (cpw_digest \<circ> scp_row) (checkpoint_rows st' w d))"
      using chain fresh by (auto simp: rows holds_chain_def)
    show "\<exists>h. head_seq_of st' w d = Some h \<and> h \<le> INTEGER_MAX \<and> (\<forall>x \<in> set (checkpoint_rows st' w d). cpw_seq (scp_row x) \<le> h)"
      using chain head(1) head' above by (auto simp: rows holds_chain_def intro: order_trans less_imp_le)
  qed
  have newest': "newest_row st' w d = Some ?x" by (simp add: newest_row_def rows)
  have newest: "newest_checkpoint st' w d = Some (scp_row ?x)" using newest_is_last [OF chain'] newest' by simp
  have row': "row_of_record cr (scp_row ?x) ?rec"
    using wf plan(4) above(1) by (simp add: rows row_of_record_def)
  have bytes: "checkpoint_buckets st' w d (cpw_number (scp_row ?x)) = Some (concat (map digest_bytes (leaves_buckets cr leaves)))"
    using buckets_of_newest [OF chain' newest'] by (simp add: rows plan(1))
  have covered: "cpw_covered_seq (scp_row ?x) = cp_covered_seq ?c" by (simp add: rows)
  have "manifest_stored cr st' w d (newest_checkpoint st' w d)"
    using row_of_record_signed [OF row'] bytes buckets_of_bytes [of "leaves_buckets cr leaves"] plan(2,3) 2(4,5)
    unfolding newest manifest_stored_def option.case covered leaves_def [symmetric] by auto
  moreover have "rows_sound st' w d (covered_of (newest_checkpoint st' w d))"
  proof -
    have "covered_of (newest_checkpoint st w d) \<le> cp_covered_seq ?c"
      using rises by (auto simp: covered_of_def split: option.splits)
    moreover have "rid_domain st' = rid_domain st" by (simp add: rid_domain_def tables fun_eq_iff)
    moreover have "rows_sound st w d (covered_of (newest_checkpoint st w d))" using assms(1) by (simp add: checkpoint_inv_def)
    ultimately show ?thesis
      unfolding newest covered_of_def option.case covered rows_sound_def tables
      by (auto simp: covered_of_def dest: order_le_less_trans)
  qed
  ultimately show ?thesis using chain' by (auto simp: checkpoint_inv_def)
qed

text \<open>Another plan, made before the commit, no longer follows from the newest checkpoint.\<close>

lemma commit_keeps_plans:
  assumes "checkpoint_inv cr st w d" and "plan_sound cr st w d bundle pl" and "plan_sound cr st w d bundle' pl'"
    and "commit_checkpoint_locked cr p sess w bundle pl floor_setting st = Inr (r, st')"
  shows "plan_sound cr st' w d bundle' pl'"
  using assms(1,2,4)
proof (cases rule: commit_cases)
  case 1
  then show ?thesis using assms(3) by simp
next
  case (2 row)
  have d: "cp_domain (body (cb_checkpoint bundle)) = d" using assms(2) by (simp add: plan_sound_def)
  obtain x where rows: "checkpoint_rows st' w d = checkpoint_rows st w d @ [x]"
    and fresh: "\<forall>y \<in> set (checkpoint_rows st w d). cpw_digest (scp_row y) \<noteq> cpw_digest (scp_row x)"
    by (rule write_checkpointD [OF 2(2), unfolded d]) force
  obtain rs where "holds_chain cr st' w d rs"
    using commit_keeps_inv [OF assms(1,2,4)] by (auto simp: checkpoint_inv_def)
  then have "newest_checkpoint st' w d = Some (scp_row x)"
    using newest_is_last by (fastforce simp: newest_row_def rows)
  moreover have older: "cpw_digest r \<in> set (map (cpw_digest \<circ> scp_row) (butlast (checkpoint_rows st' w d)))"
    if "cpl_previous pl' = Some r" for r
  proof -
    obtain rs where chain: "holds_chain cr st w d rs" using assms(1) by (auto simp: checkpoint_inv_def)
    from that have "newest_checkpoint st w d = Some r \<or> cpw_digest r \<in> set (map (cpw_digest \<circ> scp_row) (butlast (checkpoint_rows st w d)))"
      using assms(3) by (simp add: plan_sound_def)
    then have "cpw_digest r \<in> set (map (cpw_digest \<circ> scp_row) (checkpoint_rows st w d))"
      using newest_in_rows [OF chain] by (auto dest: in_set_butlastD)
    then show ?thesis by (simp add: rows)
  qed
  moreover have "cpw_digest (scp_row x) \<notin> set (map (cpw_digest \<circ> scp_row) (butlast (checkpoint_rows st' w d)))"
    using fresh by (auto simp: rows)
  ultimately have "cpl_previous pl' \<noteq> newest_checkpoint st' w d" by force
  then show ?thesis using assms(3) older by (auto simp: plan_sound_def split: option.splits)
qed

subsection \<open>Other transactions keep the invariant\<close>

text \<open>Leaving operations out of the live set afterwards or while reading it is the same.\<close>

lemma live_refs_without:
  "live_refs st w rid at ex = filter (\<lambda>x. (rid, ref_device x, ref_counter x) \<notin> ex) (live_refs st w rid at {})"
proof -
  have "map (\<lambda>(x, _). as_ref x) (filter (\<lambda>(x, _). (rid, lo_device x, lo_counter x) \<notin> ex) xs)
      = filter (\<lambda>x. (rid, ref_device x, ref_counter x) \<notin> ex) (map (\<lambda>(x, _). as_ref x) xs)" for xs :: "(live_op \<times> op_class) list"
    by (induction xs) (auto simp: as_ref_def)
  then show ?thesis by (simp add: live_refs_def filter_sort)
qed

lemma live_leaves_without: "live_leaves st w d at ex = filter (\<lambda>(_, refs). refs \<noteq> [])
    (map (\<lambda>(rid, refs). (rid, filter (\<lambda>x. (rid, ref_device x, ref_counter x) \<notin> ex) refs)) (live_leaves st w d at {}))"
proof -
  have "leaves_of st w at ex rids = filter (\<lambda>(_, refs). refs \<noteq> [])
    (map (\<lambda>(rid, refs). (rid, filter (\<lambda>x. (rid, ref_device x, ref_counter x) \<notin> ex) refs)) (leaves_of st w at {} rids))" for rids
    by (induction rids) (auto simp: leaves_of_def live_refs_without [of st w _ at ex])
  then show ?thesis by (simp add: live_leaves_def)
qed

lemma numbered_digest: "map_option cpw_digest (checkpoint_numbered st w d n)
    = map_option cpw_digest (find (\<lambda>x. cpw_number x = at_most n) (map row_kept (checkpoint_rows st w d)))"
proof -
  have "map_option cpw_digest (map_option scp_row (find (\<lambda>c. cpw_number (scp_row c) = k) xs))
      = map_option cpw_digest (find (\<lambda>x. cpw_number x = k) (map row_kept xs))" for k xs
    by (induction xs) (auto simp: row_kept_def)
  then show ?thesis by (simp add: checkpoint_numbered_def)
qed

lemma row_of_kept: "row_of_record cr ((x :: checkpoint_row)\<lparr>cpw_heads := hs\<rparr>) r = row_of_record cr x r"
  by (simp add: row_of_record_def)

lemma keeps_chain:
  assumes "holds_chain cr st w d rs" and "keeps_live st st' w d"
  shows "holds_chain cr st' w d rs"
proof -
  have rows: "map row_kept (checkpoint_rows st' w d) = map row_kept (checkpoint_rows st w d)"
    using assms(2) by (simp add: keeps_live_def)
  have digests: "map (cpw_digest \<circ> scp_row) (checkpoint_rows st' w d) = map (cpw_digest \<circ> scp_row) (checkpoint_rows st w d)"
    using arg_cong [OF rows, of "map cpw_digest"] by (simp add: row_kept_def comp_def)
  have seqs: "map (cpw_seq \<circ> scp_row) (checkpoint_rows st' w d) = map (cpw_seq \<circ> scp_row) (checkpoint_rows st w d)"
    using arg_cong [OF rows, of "map cpw_seq"] by (simp add: row_kept_def comp_def)
  have "list_all2 (row_of_record cr) (map scp_row xs) rs = list_all2 (row_of_record cr) (map row_kept xs) rs" for xs
    by (simp add: list_all2_map1 row_kept_def row_of_kept)
  then have records: "list_all2 (row_of_record cr) (map scp_row (checkpoint_rows st' w d)) rs
      = list_all2 (row_of_record cr) (map scp_row (checkpoint_rows st w d)) rs"
    by (simp only: rows)
  have "(\<forall>x \<in> set (checkpoint_rows st0 w d). cpw_seq (scp_row x) \<le> h)
      \<longleftrightarrow> (\<forall>s \<in> set (map (cpw_seq \<circ> scp_row) (checkpoint_rows st0 w d)). s \<le> h)" for st0 h
    by simp
  then have "(\<forall>x \<in> set (checkpoint_rows st' w d). cpw_seq (scp_row x) \<le> h)
      = (\<forall>x \<in> set (checkpoint_rows st w d). cpw_seq (scp_row x) \<le> h)" for h
    by (simp only: seqs)
  then show ?thesis
    using assms unfolding holds_chain_def keeps_live_def Let_def records digests by (fastforce intro: order_trans)
qed

lemma keeps_newest:
  assumes "holds_chain cr st w d rs" and "keeps_live st st' w d"
  shows "newest_checkpoint st' w d = newest_checkpoint st w d"
  using newest_is_last [OF assms(1)] newest_is_last [OF keeps_chain [OF assms]] assms(2) by (simp add: keeps_live_def)

lemma keeps_inv:
  assumes "checkpoint_inv cr st w d" and "keeps_live st st' w d"
  shows "checkpoint_inv cr st' w d"
proof -
  obtain rs where chain: "holds_chain cr st w d rs" using assms(1) by (auto simp: checkpoint_inv_def)
  let ?base = "covered_of (newest_checkpoint st w d)"
  note chain' = keeps_chain [OF chain assms(2)] and newest = keeps_newest [OF chain assms(2)]
  have row: "newest_row st' w d = newest_row st w d" using assms(2) by (simp add: keeps_live_def)
  have base: "?base = covered_of (map_option scp_row (newest_row st w d))" using newest_is_last [OF chain] by simp
  obtain h where h: "head_seq_of st w d = Some h"
    and live: "\<And>at. ?base \<le> at \<Longrightarrow> at \<le> h \<Longrightarrow> live_leaves st' w d at {} = live_leaves st w d at {}"
    using assms(2) unfolding base by (auto simp: keeps_live_def Let_def)
  have "?base \<le> h"
  proof (cases "newest_checkpoint st w d")
    case (Some x)
    then have "x \<in> set (map scp_row (checkpoint_rows st w d))" by (rule newest_in_rows [OF chain])
    then have "cpw_covered_seq x < cpw_seq x" "cpw_seq x \<le> h" using row_covers_less(1) [OF chain] chain h by (auto simp: holds_chain_def)
    then show ?thesis using Some by (simp add: covered_of_def)
  qed (simp add: covered_of_def)
  then have "live_leaves st' w d ?base {} = live_leaves st w d ?base {}" using live by simp
  moreover have "checkpoint_buckets st' w d (cpw_number x) = checkpoint_buckets st w d (cpw_number x)"
    if "newest_checkpoint st w d = Some x" for x
    using that buckets_of_newest [OF chain] buckets_of_newest [OF chain'] row unfolding newest_is_last [OF chain] by auto
  ultimately have "manifest_stored cr st' w d (newest_checkpoint st' w d)"
    using assms(1) unfolding newest checkpoint_inv_def manifest_stored_def covered_of_def by (auto split: option.splits)
  moreover have "rows_sound st' w d (covered_of (newest_checkpoint st' w d))"
    using assms(2) unfolding newest base by (simp add: keeps_live_def Let_def)
  ultimately show ?thesis using chain' by (auto simp: checkpoint_inv_def)
qed

lemma keeps_plan:
  assumes "checkpoint_inv cr st w d" and "keeps_live st st' w d" and "plan_sound cr st w d bundle pl"
  shows "plan_sound cr st' w d bundle pl"
proof -
  obtain rs where chain: "holds_chain cr st w d rs" using assms(1) by (auto simp: checkpoint_inv_def)
  note newest = keeps_newest [OF chain assms(2)]
  have rows: "map row_kept (checkpoint_rows st' w d) = map row_kept (checkpoint_rows st w d)"
    using assms(2) by (simp add: keeps_live_def)
  have digests: "map (cpw_digest \<circ> scp_row) (checkpoint_rows st' w d) = map (cpw_digest \<circ> scp_row) (checkpoint_rows st w d)"
    using arg_cong [OF rows, of "map cpw_digest"] by (simp add: row_kept_def comp_def)
  have older: "map (cpw_digest \<circ> scp_row) (butlast (checkpoint_rows st' w d)) = map (cpw_digest \<circ> scp_row) (butlast (checkpoint_rows st w d))"
    unfolding map_butlast digests ..
  let ?c = "body (cb_checkpoint bundle)"
  have d: "cp_domain ?c = d" using assms(3) by (simp add: plan_sound_def)
  have "plan_exact cr st' w bundle pl" if exact: "plan_exact cr st w bundle pl" and previous: "cpl_previous pl = newest_checkpoint st w d"
  proof -
    let ?base = "covered_of (newest_checkpoint st w d)"
    have base: "?base = covered_of (map_option scp_row (newest_row st w d))" using newest_is_last [OF chain] by simp
    obtain h h' where h: "head_seq_of st w d = Some h" "head_seq_of st' w d = Some h'" "h \<le> h'"
      and live: "\<And>at. ?base \<le> at \<Longrightarrow> at \<le> h \<Longrightarrow> live_leaves st' w d at {} = live_leaves st w d at {}"
      using assms(2) unfolding base by (auto simp: keeps_live_def Let_def)
    have "?base \<le> cp_covered_seq ?c"
      using exact previous row_covers_less(1) [OF chain newest_in_rows [OF chain]]
      by (auto simp: plan_exact_def covered_of_def Let_def split: option.splits)
    moreover have "cp_covered_seq ?c \<le> h" using exact h(1) d by (auto simp: plan_exact_def Let_def)
    ultimately have "live_leaves st' w d (cp_covered_seq ?c) ex = live_leaves st w d (cp_covered_seq ?c) ex" for ex
      using live live_leaves_without [of _ w d _ ex] by simp
    moreover have "check_checkpoint_link st' w ?c x = check_checkpoint_link st w ?c x" for x
      unfolding check_checkpoint_link_def numbered_digest d rows ..
    ultimately show ?thesis using exact h d by (auto simp: plan_exact_def Let_def)
  qed
  then show ?thesis using assms(3) unfolding plan_sound_def newest older by blast
qed

subsection \<open>Every run keeps it\<close>

lemma run_inv:
  assumes "checkpoint_run cr w d st planned"
  shows "checkpoint_inv cr st w d \<and> (\<forall>(bundle, pl) \<in> planned. plan_sound cr st w d bundle pl)"
  using assms
proof (induction rule: checkpoint_run.induct)
  case (run_start st h)
  have "newest_checkpoint st w d = None" using run_start(1) by (simp add: newest_checkpoint_def)
  then show ?case
    using run_start by (auto simp: checkpoint_inv_def holds_chain_def genuine_chain_def manifest_stored_def covered_of_def
        intro!: exI [of _ "[]"])
next
  case (run_plan st planned p sess x pl)
  then show ?case using plan_is_sound by auto
next
  case (run_commit st planned x pl p sess floor_setting r st')
  then have inv: "checkpoint_inv cr st w d" and sound: "\<And>b q. (b, q) \<in> planned \<Longrightarrow> plan_sound cr st w d b q" by auto
  note commit = inv sound [OF run_commit(2)]
  show ?case using commit_keeps_inv [OF commit run_commit(3)] commit_keeps_plans [OF commit sound run_commit(3)] by auto
next
  case (run_other st planned st')
  then have inv: "checkpoint_inv cr st w d" and sound: "\<And>b q. (b, q) \<in> planned \<Longrightarrow> plan_sound cr st w d b q" by auto
  show ?case using keeps_inv [OF inv run_other(2)] keeps_plan [OF inv run_other(2) sound] by auto
qed

end
