(* ===== verification/Server_Growth.thy ===== *)
theory Server_Growth
  imports Server_Run
begin

text \<open>
  The transactions of the model keep the live sets of a domain's committed sequences: a push of an
  operation, to any domain, and the append of a policy entry. So they are steps of a checkpoint run.
\<close>

lemma keeps_live_by_rows:
  assumes "st_checkpoints st' = st_checkpoints st"
    and "rows_sound st' w d (covered_of (map_option scp_row (newest_row st w d)))"
    and "head_seq_of st w d = Some h" and "head_seq_of st' w d = Some h'" and "h \<le> h'" and "h' \<le> INTEGER_MAX"
    and "\<And>rid at. at \<le> h \<Longrightarrow> rid_domain st w rid = Some d \<Longrightarrow>
      rid_domain st' w rid = Some d \<and> seen_rows st' w rid at = seen_rows st w rid at"
    and "\<And>rid at. at \<le> h \<Longrightarrow> rid_domain st' w rid = Some d \<Longrightarrow> rid_domain st w rid \<noteq> Some d \<Longrightarrow> fst (seen_rows st' w rid at) = []"
  shows "keeps_live st st' w d"
proof -
  have rows: "checkpoint_rows st' w d = checkpoint_rows st w d" by (simp add: checkpoint_rows_def assms(1))
  have "live_leaves st' w d at {} = live_leaves st w d at {}" if "at \<le> h" for at
  proof (rule rising_eq [where f = fst])
    have old: "live_refs st' w rid at {} = live_refs st w rid at {}" if "rid_domain st w rid = Some d" for rid
      using live_ops_same [of st' w rid at st at] assms(7) [OF \<open>at \<le> h\<close> that] by (simp add: live_refs_def)
    moreover have new: "live_refs st' w rid at {} = []" if "rid_domain st' w rid = Some d" "rid_domain st w rid \<noteq> Some d" for rid
      using assms(8) [OF \<open>at \<le> h\<close> that] by (simp add: live_refs_def live_ops_seen)
    ultimately have "(rid, refs) \<in> set (live_leaves st' w d at {}) \<longleftrightarrow> (rid, refs) \<in> set (live_leaves st w d at {})" for rid refs
      using assms(7) [OF \<open>at \<le> h\<close>, of rid] by (cases "rid_domain st w rid = Some d") (auto simp: live_leaves_iff)
    then show "set (live_leaves st' w d at {}) = set (live_leaves st w d at {})" by auto
  qed (rule live_leaves_rise)+
  then show ?thesis using assms(2-6) by (simp add: keeps_live_def rows newest_row_def)
qed

text \<open>A transaction that changes none of these tables and lets the log grow.\<close>

lemma keeps_live_same:
  assumes "rows_sound st w d (covered_of (map_option scp_row (newest_row st w d)))"
    and "st_operations st' = st_operations st" and "st_covers st' = st_covers st" and "st_rids st' = st_rids st"
    and "st_checkpoints st' = st_checkpoints st"
    and "head_seq_of st w d = Some h" and "head_seq_of st' w d = Some h'" and "h \<le> h'" and "h' \<le> INTEGER_MAX"
  shows "keeps_live st st' w d"
proof (rule keeps_live_by_rows [OF assms(5) _ assms(6-9)])
  have rid: "rid_domain st' = rid_domain st" by (simp add: rid_domain_def assms(4) fun_eq_iff)
  then show "rows_sound st' w d (covered_of (map_option scp_row (newest_row st w d)))"
    using assms(1) by (simp add: rows_sound_def assms(2,3))
  show "rid_domain st' w rid = Some d \<and> seen_rows st' w rid at = seen_rows st w rid at"
    if "at \<le> h" "rid_domain st w rid = Some d" for rid at
    using that by (simp add: rid seen_rows_def assms(2,3))
  show "fst (seen_rows st' w rid at) = []"
    if "at \<le> h" "rid_domain st' w rid = Some d" "rid_domain st w rid \<noteq> Some d" for rid at
    using that by (simp add: rid)
qed

text \<open>
  C13. A push of an operation, accepted or a retry, into whatever workspace and domain, is a step of
  every domain's checkpoint run: it changes no live set at a sequence already committed, so a checkpoint
  planned before it can be committed after it.
\<close>

theorem push_keeps_live:
  assumes "apply_operation cr p interval quota generation w' pushed st = Inr (r, st')"
    and "rows_sound st w d (covered_of (map_option scp_row (newest_row st w d)))"
    and "head_seq_of st w d = Some h" and "h \<le> INTEGER_MAX"
  shows "keeps_live st st' w d"
  using apply_operation_cases [OF assms(1)]
proof (elim disjE exE conjE)
  assume "st' = st"
  then show ?thesis using assms keeps_live_same [OF assms(2), of st h h] by simp
next
  fix row class1 assume fresh: "accepted_fresh cr p generation w' pushed st row class1 r st'"
  let ?d = "op_domain (body (po_op pushed))" and ?rid = "op_rid (body (po_op pushed))"
  obtain y st1 where written: "write_operation w' ?d y st = Inr st1" and same: "same_tables st1 st'"
    and y: "ow_op y = live_op_of cr (po_op pushed) (dr_head_seq row + 1)" "ow_new_rid y \<longleftrightarrow> rid_domain st w' ?rid = None"
    and rid: "rid_domain st w' ?rid = None \<or> rid_domain st w' ?rid = Some ?d"
    and row: "store_domain st w' ?d = Some row"
    using fresh unfolding accepted_fresh_def Let_def by (elim conjE exE) (rule that, assumption+)
  let ?s = "dr_head_seq row + 1"
  have x: "lo_rid (ow_op y) = ?rid" "lo_seq (ow_op y) = ?s" by (simp_all add: y(1) live_op_of_def)
  define nr nc where "nr = op_row w' ?d (ow_op y) (ow_class y)" and "nc = cover_row_of w' ?d (ow_op y)"
  have st': "st_operations st' = st_operations st @ [nr]"
    "st_covers st' = st_covers st @ map nc (lo_covers (ow_op y))"
    "st_rids st' = (if rid_domain st w' ?rid = None then bt_insert (w', ?rid) ?d (st_rids st) else st_rids st)"
    "head_seq_of st' = (head_seq_of st)(w' := (head_seq_of st w')(?d := Some ?s))"
    "st_checkpoints st' = st_checkpoints st"
    using write_operationD(1-6,9) [OF written] same x y(2) by (simp_all add: same_tables_def core_tables_def nr_def nc_def)
  obtain k where k: "head_seq_of st w' ?d = Some k" "k < INTEGER_MAX" "?s = k + 1"
    using write_operationD(7) [OF written] x by auto
  have rids: "rid_domain st' w'' rid'' = (if w'' = w' \<and> rid'' = ?rid then Some ?d else rid_domain st w'' rid'')" for w'' rid''
    using rid by (auto simp: rid_domain_def st'(3) split: if_splits)
  have kept: "rid_domain st' w rid'' = Some e" if "rid_domain st w rid'' = Some e" for rid'' e
    using that rid by (auto simp: rids)
  have sound: "\<And>r. r \<in> set (st_operations st) \<Longrightarrow> or_workspace r = w \<Longrightarrow> rid_domain st w (or_rid r) = Some (or_domain r)"
    "\<And>c. c \<in> set (st_covers st) \<Longrightarrow> cvr_workspace c = w \<Longrightarrow> rid_domain st w (cvr_rid c) = Some (cvr_domain c)"
    "\<And>c. c \<in> set (st_covers st) \<Longrightarrow> cvr_workspace c = w
      \<Longrightarrow> cvr_domain c = d \<and> covered_of (map_option scp_row (newest_row st w d)) < cvr_by_seq c
      \<Longrightarrow> \<exists>r \<in> set (st_operations st). or_workspace r = w \<and> or_rid r = cvr_rid c \<and> or_seq r = cvr_by_seq c"
    using assms(2) unfolding rows_sound_def by simp_all
  have new: "or_workspace nr = w'" "or_rid nr = ?rid" "or_seq nr = ?s" "or_domain nr = ?d"
    by (simp_all add: nr_def op_row_def x)
  have newc: "cvr_workspace (nc c) = w'" "cvr_rid (nc c) = ?rid" "cvr_by_seq (nc c) = ?s" "cvr_domain (nc c) = ?d" for c
    by (simp_all add: nc_def cover_row_of_def x)
  have above: "\<not> ?s \<le> at_most at" if "at \<le> h" "w' = w" "?d = d" for at
  proof -
    have "k = h" using k(1) assms(3) that by simp
    then have "h < ?s" using rises_below [OF k(2)] k(3) by simp
    moreover have "at_most at \<le> at" by (simp add: at_most_def)
    ultimately show ?thesis using that(1) by auto
  qed
  show ?thesis
  proof (rule keeps_live_by_rows [OF st'(5) _ assms(3)])
    show "rows_sound st' w d (covered_of (map_option scp_row (newest_row st w d)))"
      unfolding rows_sound_def
    proof (intro conjI ballI impI)
      fix r assume r: "r \<in> set (st_operations st')" "or_workspace r = w"
      show "rid_domain st' w (or_rid r) = Some (or_domain r)"
      proof (cases "r = nr")
        case True
        then show ?thesis using r(2) by (simp add: new rids)
      next
        case False
        then have "r \<in> set (st_operations st)" using r(1) by (simp add: st'(1))
        then show ?thesis using kept sound(1) r(2) by blast
      qed
    next
      fix c assume c: "c \<in> set (st_covers st')" "cvr_workspace c = w"
      show "rid_domain st' w (cvr_rid c) = Some (cvr_domain c)"
      proof (cases "c \<in> set (st_covers st)")
        case True
        then show ?thesis using kept sound(2) c(2) by blast
      next
        case False
        then obtain c' where "c = nc c'" using c(1) by (auto simp: st'(2))
        then show ?thesis using c(2) by (simp add: newc rids)
      qed
    next
      fix c assume c: "c \<in> set (st_covers st')" "cvr_workspace c = w"
        "cvr_domain c = d \<and> covered_of (map_option scp_row (newest_row st w d)) < cvr_by_seq c"
      show "\<exists>r \<in> set (st_operations st'). or_workspace r = w \<and> or_rid r = cvr_rid c \<and> or_seq r = cvr_by_seq c"
      proof (cases "c \<in> set (st_covers st)")
        case True
        then show ?thesis using sound(3) c(2,3) by (simp add: st'(1))
      next
        case False
        then obtain c' where "c = nc c'" using c(1) by (auto simp: st'(2))
        then show ?thesis using c(2) by (simp add: st'(1) new newc)
      qed
    qed
    show "head_seq_of st' w d = Some (if w = w' \<and> d = ?d then ?s else h)" using assms(3) by (auto simp: st'(4))
    have "h \<le> ?s" "?s \<le> INTEGER_MAX" if "w = w' \<and> d = ?d"
      using that k assms(3) rises_below [OF k(2)] inc_le [OF k(2)] by auto
    then show "h \<le> (if w = w' \<and> d = ?d then ?s else h)" "(if w = w' \<and> d = ?d then ?s else h) \<le> INTEGER_MAX"
      using assms(4) by simp_all
  next
    fix rid'' at assume at: "at \<le> h" and rid'': "rid_domain st w rid'' = Some d"
    show "rid_domain st' w rid'' = Some d \<and> seen_rows st' w rid'' at = seen_rows st w rid'' at"
      using rid rid'' above [OF at] by (auto simp: rids seen_rows_def st'(1,2) new newc filter_empty_conv)
  next
    fix rid'' at assume at: "at \<le> h" and rid'': "rid_domain st' w rid'' = Some d" "rid_domain st w rid'' \<noteq> Some d"
    then have fresh: "w' = w" "rid'' = ?rid" "?d = d" "rid_domain st w rid'' = None" using rid by (auto simp: rids split: if_splits)
    then have "\<forall>r \<in> set (st_operations st). \<not> (or_workspace r = w \<and> or_rid r = rid'')"
      using sound(1) by fastforce
    then show "fst (seen_rows st' w rid'' at) = []"
      using above [OF at fresh(1,3)] fresh by (auto simp: seen_rows_def st'(1) new filter_empty_conv)
  qed
qed

text \<open>So is the append of a policy entry.\<close>

lemma policy_entry_keeps_live:
  assumes "append_policy_entry interval w' d' e prev snapshot1 st = Inr (s, st')"
    and "rows_sound st w d (covered_of (map_option scp_row (newest_row st w d)))"
    and "head_seq_of st w d = Some h" and "h \<le> INTEGER_MAX"
  shows "keeps_live st st' w d"
proof -
  obtain due st1 st2 where steps: "append_entry w' d' ENTRY_POLICY (enc_policy_entry e) st = Inr (s, st1)"
    "note_entry interval w' d' s (of_nat (length (enc_policy_entry e))) due st1 = Inr st2"
    "st' = add_usage w' d' 0 (int (length (enc_policy_entry e))) st2"
    using assms(1) by (auto simp: append_policy_entry_def Let_def split: option.splits)
  have "same_tables st1 st2" using steps(2) same_tables_progress by (auto simp: note_entry_def)
  then have same: "same_tables st1 st'" unfolding steps(3) using same_tables_updates(3) same_tables_trans by blast
  obtain c where c: "bt_get (st_domains st) (w', d') = Some c" "s = dr_head_seq c + 1" "dr_head_seq c < INTEGER_MAX"
    "st1 = st\<lparr>st_domains := bt_insert (w', d') (c\<lparr>dr_head_seq := s\<rparr>) (st_domains st),
        st_entries := bt_insert (w', d', s) (ENTRY_POLICY, enc_policy_entry e) (st_entries st)\<rparr>"
    by (rule append_entryD [OF steps(1)]) blast
  have tables: "st_operations st' = st_operations st" "st_covers st' = st_covers st" "st_rids st' = st_rids st"
    "st_checkpoints st' = st_checkpoints st" and head: "head_seq_of st' = head_seq_of st1"
    using same by (simp_all add: same_tables_def core_tables_def c(4))
  have "head_seq_of st' w d = Some (if w = w' \<and> d = d' then s else h)"
    using assms(3) by (auto simp: head head_seq_of_def c(4))
  moreover have "h \<le> s" "s \<le> INTEGER_MAX" if "w = w' \<and> d = d'"
    using that c(1-3) assms(3) rises_below [OF c(3)] inc_le [OF c(3)] by (auto simp: head_seq_of_def)
  ultimately show ?thesis
    using keeps_live_same [OF assms(2) tables assms(3)] assms(4) by (cases "w = w' \<and> d = d'") auto
qed

end
