(* ===== verification/Server_Accepts.thy ===== *)
theory Server_Accepts
  imports Server_Run
begin

text \<open>
  A checkpoint that the server commits passes the client's check of a checkpoint: the server refuses
  what a client would refuse, and its own heads never fall back.
\<close>

subsection \<open>Heads\<close>

definition raise_heads :: "(ident \<times> op_ref) list \<Rightarrow> (ident, op_ref) btree \<Rightarrow> (ident, op_ref) btree" where
  "raise_heads ops heads = fold (\<lambda>x m. raise_head m x) ops heads"

definition keyed_heads :: "(ident, op_ref) btree \<Rightarrow> bool" where
  "keyed_heads m \<longleftrightarrow> (\<forall>device h. bt_get m device = Some h \<longrightarrow> ref_device h = device)"

lemma raise_head_get: "bt_get (raise_head m x) device =
    (if device = ref_device (snd x) \<and> (case bt_get m device of None \<Rightarrow> True | Some h \<Rightarrow> ref_counter h < ref_counter (snd x))
     then Some (snd x) else bt_get m device)"
  by (auto simp: raise_head_def split: option.splits prod.splits)

lemma raise_heads_facts:
  assumes "keyed_heads m"
  shows "keyed_heads (raise_heads ops m)"
    and "bt_get (raise_heads ops m) device = Some h \<Longrightarrow> bt_get m device = Some h \<or> h \<in> snd ` set ops"
    and "bt_get m device = Some h \<Longrightarrow> \<exists>h'. bt_get (raise_heads ops m) device = Some h' \<and> ref_counter h \<le> ref_counter h'"
proof -
  have "keyed_heads (raise_heads ops m)
    \<and> (\<forall>device h. bt_get (raise_heads ops m) device = Some h \<longrightarrow> bt_get m device = Some h \<or> h \<in> snd ` set ops)
    \<and> (\<forall>device h. bt_get m device = Some h \<longrightarrow> (\<exists>h'. bt_get (raise_heads ops m) device = Some h' \<and> ref_counter h \<le> ref_counter h'))"
    using assms
  proof (induction ops arbitrary: m)
    case (Cons x ops)
    have keyed: "keyed_heads (raise_head m x)" using Cons.prems by (auto simp: keyed_heads_def raise_head_get)
    have raised: "\<exists>h'. bt_get (raise_head m x) device = Some h' \<and> ref_counter h \<le> ref_counter h'"
      if "bt_get m device = Some h" for device h
      using that by (auto simp: raise_head_get)
    have from1: "bt_get m device = Some h \<or> h = snd x" if "bt_get (raise_head m x) device = Some h" for device h
      using that by (auto simp: raise_head_get split: if_splits)
    have fold: "raise_heads (x # ops) m = raise_heads ops (raise_head m x)" by (simp add: raise_heads_def)
    show ?case
      unfolding fold using Cons.IH [OF keyed] raised from1 by (fastforce intro: order_trans)
  qed (auto simp: raise_heads_def)
  then show "keyed_heads (raise_heads ops m)"
    and "bt_get (raise_heads ops m) device = Some h \<Longrightarrow> bt_get m device = Some h \<or> h \<in> snd ` set ops"
    and "bt_get m device = Some h \<Longrightarrow> \<exists>h'. bt_get (raise_heads ops m) device = Some h' \<and> ref_counter h \<le> ref_counter h'"
    by blast+
qed

lemma heads_of_previous:
  assumes "wf_ref_heads hs"
  defines "m \<equiv> bt_collect (map (\<lambda>h. (ref_device h, h)) hs)"
  shows "keyed_heads m" and "h \<in> set hs \<Longrightarrow> bt_get m (ref_device h) = Some h"
    and "bt_get m device = Some h \<Longrightarrow> h \<in> set hs"
proof -
  have "transp (\<lambda>a b. ref_by_device a < ref_by_device b)" by (auto simp: transp_def intro: order_less_trans)
  then have "sorted_wrt (\<lambda>a b. ref_by_device a < ref_by_device b) hs"
    using assms(1) by (simp add: wf_ref_heads_def wf_sorted_def rises_strictly_def windows2_sorted_wrt)
  then have "distinct (map (ident_bytes \<circ> ref_device) hs)"
    by (induction hs) (auto simp: ref_by_device_def)
  then have distinct: "distinct (map ref_device hs)" by (auto simp: distinct_map inj_on_def)
  show "keyed_heads m" "bt_get m device = Some h \<Longrightarrow> h \<in> set hs"
    by (auto simp: keyed_heads_def m_def dest!: map_of_SomeD)
  show "bt_get m (ref_device h) = Some h" if "h \<in> set hs"
    using that distinct by (auto simp: m_def comp_def rev_map [symmetric] intro!: map_of_is_SomeI)
qed

text \<open>The heads of a plan: no head falls back or leaves, unless its device's card is gone.\<close>

lemma values_find:
  assumes "keyed_heads m"
  shows "find (\<lambda>h. ref_device h = device) (bt_values m) = bt_get m device"
proof (cases "bt_get m device")
  case None
  then show ?thesis using assms by (auto simp: find_None_iff keyed_heads_def ran_def)
next
  case (Some h)
  obtain h' where h': "find (\<lambda>h. ref_device h = device) (bt_values m) = Some h'"
    using Some assms by (cases "find (\<lambda>h. ref_device h = device) (bt_values m)")
      (auto simp: find_None_iff keyed_heads_def ran_def)
  then have "h' \<in> ran (bt_get m)" "ref_device h' = device"
    by (auto simp: find_Some_iff bt_set_values [symmetric] simp del: bt_set_values)
  then show ?thesis using h' Some assms by (auto simp: keyed_heads_def ran_def)
qed

lemma replan_heads:
  assumes "replan cr st p w c previous = Inr pl"
  defines "ops \<equiv> ops_between st w (cp_domain c) (covered_of previous) (cp_covered_seq c)"
  shows "case previous of None \<Rightarrow> cpl_heads pl = bt_values (raise_heads ops bt_empty)
    | Some x \<Rightarrow> \<exists>b. bundle_of_row x = Inr b \<and> wf_ref_heads (cb_heads b) \<and>
        cpl_heads pl = bt_values (bt_filter (\<lambda>device _. \<not> card_gone p device (cp_policy_revision (body (cb_checkpoint b))))
          (raise_heads ops (bt_collect (map (\<lambda>h. (ref_device h, h)) (cb_heads b)))))"
proof (cases previous)
  case None
  then show ?thesis using assms by (auto simp: replan_def Let_def raise_heads_def covered_of_def)
next
  case (Some x)
  obtain c0 hs where "row_signed x = Inr c0" and hs: "row_heads x = Inr hs"
    and heads: "cpl_heads pl = bt_values (bt_filter (\<lambda>device _. \<not> card_gone p device (cp_policy_revision (body c0)))
      (raise_heads ops (bt_collect (map (\<lambda>h. (ref_device h, h)) hs))))"
    using assms Some by (auto simp: replan_def Let_def raise_heads_def covered_of_def)
  then have "bundle_of_row x = Inr \<lparr>cb_checkpoint = c0, cb_heads = hs\<rparr>" by (simp add: bundle_of_row_def)
  moreover have "wf_ref_heads hs"
    using hs by (cases "from_bytes dec_ref_heads (cpw_heads x)")
      (auto simp: row_heads_def stored_def map_err_def ref_heads.from_bytes_iff)
  ultimately show ?thesis using heads Some by auto
qed

lemma ops_between_seq: "x \<in> snd ` set (ops_between st w d after through) \<Longrightarrow> ref_seq x \<le> through"
  by (auto simp: ops_between_def row_ref_def at_most_def min_def split: if_splits)

text \<open>The client's rules on heads: none lies above what the checkpoint covers, and none falls back.\<close>

lemma plan_heads:
  assumes "replan cr st p w c previous = Inr pl"
    and "case previous of None \<Rightarrow> True | Some x \<Rightarrow> \<exists>b. bundle_of_row x = Inr b
      \<and> (\<forall>h \<in> set (cb_heads b). ref_seq h \<le> cp_covered_seq c)
      \<and> (\<forall>device. card_gone p device (cp_policy_revision (body (cb_checkpoint b))) \<longrightarrow> may_leave device)"
  shows "h \<in> set (cpl_heads pl) \<Longrightarrow> ref_seq h \<le> cp_covered_seq c"
    and "previous = Some x \<Longrightarrow> bundle_of_row x = Inr b \<Longrightarrow> \<not> heads_fell_back (cpl_heads pl) (cb_heads b) may_leave"
proof -
  define ops where "ops = ops_between st w (cp_domain c) (covered_of previous) (cp_covered_seq c)"
  have "keyed_heads bt_empty" by (simp add: keyed_heads_def)
  note none = raise_heads_facts(2) [OF this, where ops = ops]
  { assume h: "h \<in> set (cpl_heads pl)"
    show "ref_seq h \<le> cp_covered_seq c"
    proof (cases previous)
      case None
      then obtain device where "bt_get (raise_heads ops bt_empty) device = Some h"
        using replan_heads [OF assms(1)] h by (auto simp: ops_def ran_def)
      then show ?thesis using none ops_between_seq unfolding ops_def by fastforce
    next
      case (Some x)
      then obtain b where b: "bundle_of_row x = Inr b" "wf_ref_heads (cb_heads b)"
        "cpl_heads pl = bt_values (bt_filter (\<lambda>device _. \<not> card_gone p device (cp_policy_revision (body (cb_checkpoint b))))
          (raise_heads ops (bt_collect (map (\<lambda>h. (ref_device h, h)) (cb_heads b)))))"
        using replan_heads [OF assms(1)] by (auto simp: ops_def)
      note old = heads_of_previous [OF b(2)]
      obtain device where "bt_get (raise_heads ops (bt_collect (map (\<lambda>h. (ref_device h, h)) (cb_heads b)))) device = Some h"
        using h by (auto simp: b(3) ran_def simp del: bt_get_collect)
      then have "h \<in> set (cb_heads b) \<or> h \<in> snd ` set ops"
        using raise_heads_facts(2) [OF old(1)] old(3) by blast
      then show ?thesis using assms(2) Some b(1) ops_between_seq unfolding ops_def by fastforce
    qed }
  assume x: "previous = Some x" "bundle_of_row x = Inr b"
  then have b: "wf_ref_heads (cb_heads b)"
    "cpl_heads pl = bt_values (bt_filter (\<lambda>device _. \<not> card_gone p device (cp_policy_revision (body (cb_checkpoint b))))
      (raise_heads ops (bt_collect (map (\<lambda>h. (ref_device h, h)) (cb_heads b)))))"
    using replan_heads [OF assms(1)] by (auto simp: ops_def)
  let ?m = "bt_collect (map (\<lambda>h. (ref_device h, h)) (cb_heads b))"
  let ?gone = "\<lambda>device. card_gone p device (cp_policy_revision (body (cb_checkpoint b)))"
  note old = heads_of_previous [OF b(1)]
  have keyed: "keyed_heads (bt_filter (\<lambda>device _. \<not> ?gone device) (raise_heads ops ?m))"
    using raise_heads_facts(1) [OF old(1)] by (auto simp: keyed_heads_def)
  have "case find (\<lambda>h. ref_device h = ref_device h0) (cpl_heads pl) of
      Some new1 \<Rightarrow> \<not> ref_counter new1 < ref_counter h0 | None \<Rightarrow> may_leave (ref_device h0)" if h0: "h0 \<in> set (cb_heads b)" for h0
  proof -
    obtain h' where h': "bt_get (raise_heads ops ?m) (ref_device h0) = Some h'" "ref_counter h0 \<le> ref_counter h'"
      using raise_heads_facts(3) [OF old(1) old(2) [OF h0]] by blast
    then have "bt_get (bt_filter (\<lambda>device _. \<not> ?gone device) (raise_heads ops ?m)) (ref_device h0)
      = (if ?gone (ref_device h0) then None else Some h')"
      by (simp add: bt_get_filter del: bt_get_collect)
    then show ?thesis
      unfolding b(2) values_find [OF keyed] using h'(2) assms(2) x by (auto simp: not_less)
  qed
  then show "\<not> heads_fell_back (cpl_heads pl) (cb_heads b) may_leave"
    by (fastforce simp: heads_fell_back_def list_ex_iff split: option.splits)
qed

subsection \<open>The client's check\<close>

text \<open>
  A client that accepted the checkpoints the server holds: its view of the chain is the table's, the heads
  it accepted lie at or below what they cover, and it lets a device's head leave once the card is gone.
\<close>

definition client_follows ::
  "store \<Rightarrow> ident \<Rightarrow> ident \<Rightarrow> policy_chain \<Rightarrow> chain_view \<Rightarrow> (ident \<Rightarrow> bool) \<Rightarrow> bool" where
  "client_follows st w d p view may_leave \<longleftrightarrow>
     vw_last view = map_option (\<lambda>x. (cpw_digest x, cpw_number x)) (newest_checkpoint st w d)
   \<and> (\<forall>n. vw_skip_of view n = map_option cpw_digest (checkpoint_numbered st w d n))
   \<and> (case newest_checkpoint st w d of None \<Rightarrow> vw_accepted view = None
      | Some x \<Rightarrow> \<exists>b. bundle_of_row x = Inr b \<and> vw_accepted view = Some (body (cb_checkpoint b), cb_heads b)
          \<and> (\<forall>h \<in> set (cb_heads b). ref_seq h \<le> cp_covered_seq (body (cb_checkpoint b)))
          \<and> (\<forall>device. card_gone p device (cp_policy_revision (body (cb_checkpoint b))) \<longrightarrow> may_leave device))"

lemma plan_checkpointD:
  assumes "plan_checkpoint cr st p sess w bundle = Inr pl" and "cp_domain (body (cb_checkpoint bundle)) = d"
  shows "is_retry cr bundle pl \<or> replan cr st p w (body (cb_checkpoint bundle)) (newest_checkpoint st w d) = Inr pl"
  using assms unfolding plan_checkpoint_def Let_def is_retry_def by (auto split: option.splits if_splits)

lemma checkpoint_passes:
  assumes "heads_digest cr heads = cp_heads_digest (body r)" and "\<forall>h \<in> set heads. ref_seq h \<le> cp_covered_seq (body r)"
    and "check_checkpoint_link st w (body r) (newest_checkpoint st w d) = Inr ()" and "cp_domain (body r) = d"
    and "manifest_root cr m = cp_manifest_root (body r)" and "manifest_live_objects m = cp_live_objects (body r)"
    and "client_follows st w d p view may_leave"
    and "\<And>x b. newest_checkpoint st w d = Some x \<Longrightarrow> bundle_of_row x = Inr b \<Longrightarrow>
      cp_floor (body (cb_checkpoint b)) \<le> cp_floor (body r) \<and> cp_covered_seq (body (cb_checkpoint b)) < cp_covered_seq (body r)
      \<and> \<not> heads_fell_back heads (cb_heads b) may_leave"
  shows "check_checkpoint cr r heads m view may_leave = Inr ()"
proof -
  have last1: "(case vw_last view of None \<Rightarrow> (ZERO_digest, 0) | Some l \<Rightarrow> l)
      = (case newest_checkpoint st w d of None \<Rightarrow> (ZERO_digest, 0) | Some x \<Rightarrow> (cpw_digest x, cpw_number x))"
    using assms(7) by (auto simp: client_follows_def split: option.splits)
  have skip: "\<And>n. vw_skip_of view n = map_option cpw_digest (checkpoint_numbered st w d n)"
    using assms(7) by (simp add: client_follows_def)
  have accepted: "\<not> (case vw_accepted view of None \<Rightarrow> False
      | Some (accepted, previous_heads) \<Rightarrow> cp_floor (body r) < cp_floor accepted \<or> cp_covered_seq (body r) \<le> cp_covered_seq accepted
          \<or> heads_fell_back heads previous_heads may_leave)"
  proof (cases "newest_checkpoint st w d")
    case None
    then show ?thesis using assms(7) by (simp add: client_follows_def)
  next
    case (Some x)
    then obtain b where b: "bundle_of_row x = Inr b" "vw_accepted view = Some (body (cb_checkpoint b), cb_heads b)"
      using assms(7) by (auto simp: client_follows_def)
    show ?thesis using assms(8) [OF Some b(1)] by (simp add: b(2) not_less not_le)
  qed
  have heads: "\<not> (heads_digest cr heads \<noteq> cp_heads_digest (body r) \<or> list_ex (\<lambda>h. ref_seq h > cp_covered_seq (body r)) heads)"
    using assms(1,2) by (auto simp: list_ex_iff not_less)
  show ?thesis
    using assms(3-6) heads accepted unfolding check_checkpoint_def check_checkpoint_link_def Let_def last1 skip
    by (auto split: option.splits if_splits)
qed

text \<open>
  C8. A checkpoint that the server commits passes the client's check. Its plan may come from an
  earlier transaction than its commit. For a client that accepted the checkpoints before it and whose live
  set at \<open>covered_seq\<close> is the server's, the digest of the heads, the link to the previous and the
  skipped checkpoint, the floor, the heads that may not fall back, the root and the number of live
  objects all hold, unless the heads sent and the heads planned collide under the hash.
\<close>

theorem commit_passes_client:
  assumes "checkpoint_run cr w d st planned" and "plan_checkpoint cr st p sess w bundle = Inr pl"
    and "cp_domain (body (cb_checkpoint bundle)) = d" and "wf_checkpoint_bundle bundle" and "keeps_live st st1 w d"
    and "commit_checkpoint_locked cr p' sess' w bundle pl floor_setting st1 = Inr (r, st')" and "st' \<noteq> st1"
    and "client_follows st w d p view may_leave"
    and "bt_entries (mf_leaves m) = live_leaves st' w d (cp_covered_seq (body (cb_checkpoint bundle))) {}"
  shows "check_checkpoint cr (cb_checkpoint bundle) (cb_heads bundle) m view may_leave = Inr ()
    \<or> collision (hash cr) (heads_input (cb_heads bundle)) (heads_input (cpl_heads pl))"
proof (rule disjCI)
  assume apart: "\<not> collision (hash cr) (heads_input (cb_heads bundle)) (heads_input (cpl_heads pl))"
  let ?c = "body (cb_checkpoint bundle)" and ?newest = "newest_checkpoint st w d"
  note inv = conjunct1 [OF run_inv [OF assms(1)]]
  obtain rs where chain: "holds_chain cr st w d rs" using inv by (auto simp: checkpoint_inv_def)
  note newest = keeps_newest [OF chain assms(5)]
  have sound: "plan_sound cr st w d bundle pl" by (rule plan_is_sound [OF inv assms(2-4)])
  note inv1 = keeps_inv [OF inv assms(5)] and sound1 = keeps_plan [OF inv assms(5) sound]
  obtain row where exact: "plan_exact cr st1 w bundle pl" and written: "write_checkpoint cr w bundle pl row st1 = Inr (r, st')"
    and previous: "cpl_previous pl = ?newest"
    and same: "cpl_root pl = cp_manifest_root ?c" "cpl_live_objects pl = cp_live_objects ?c"
      "heads_digest cr (cpl_heads pl) = cp_heads_digest ?c" "heads_digest cr (cb_heads bundle) = cp_heads_digest ?c"
    using commit_cases [OF inv1 sound1 assms(6)] assms(7) newest by metis
  have "\<not> is_retry cr bundle pl"
  proof
    assume "is_retry cr bundle pl"
    then have "commit_checkpoint_locked cr p' sess' w bundle pl floor_setting st1 = Inr (r, st1)"
      using assms(3,6) previous newest by (auto simp: is_retry_def commit_checkpoint_locked_def Let_def split: option.splits)
    then show False using assms(6,7) by simp
  qed
  then have plan: "replan cr st p w ?c ?newest = Inr pl" using plan_checkpointD [OF assms(2,3)] by simp
  then have exact0: "plan_exact cr st w bundle pl"
    using sound previous \<open>\<not> is_retry cr bundle pl\<close> by (simp add: plan_sound_def)
  have heads: "cb_heads bundle = cpl_heads pl"
    using apart same(3,4) by (auto simp: collision_def heads_digest_def hash_parts_hash)
  have rises: "cp_floor (body (cb_checkpoint b)) \<le> cp_floor ?c \<and> cp_covered_seq (body (cb_checkpoint b)) < cp_covered_seq ?c"
    if x: "?newest = Some x" "bundle_of_row x = Inr b" for x b
  proof -
    obtain i where "i < length rs" "x = scp_row (checkpoint_rows st w d ! i)"
      using newest_in_rows [OF chain x(1)] chain_numbers(1) [OF chain] by (auto simp: in_set_conv_nth)
    then have row: "row_of_record cr x (rs ! i)" using chain_numbers(2) [OF chain] by simp
    have "cb_checkpoint b = rs ! i" using x(2) row_of_record_signed [OF row] by (auto simp: bundle_of_row_def)
    then show ?thesis
      using row exact0 previous x(1) by (auto simp: plan_exact_def row_of_record_def Let_def)
  qed
  have view: "case ?newest of None \<Rightarrow> True | Some x \<Rightarrow> \<exists>b. bundle_of_row x = Inr b
      \<and> (\<forall>h \<in> set (cb_heads b). ref_seq h \<le> cp_covered_seq ?c)
      \<and> (\<forall>device. card_gone p device (cp_policy_revision (body (cb_checkpoint b))) \<longrightarrow> may_leave device)"
    using assms(8) rises by (cases ?newest) (fastforce simp: client_follows_def)+
  let ?ks = "delete_key ` set (cpl_dropped pl)"
  have "live_leaves st' w d (cp_covered_seq ?c) {} = live_leaves st1 w d (cp_covered_seq ?c) ?ks"
    by (rule write_checkpointD [OF written]) (rule live_leaves_dropped)
  then have leaves: "cpl_root pl = manifest_root cr m" "cpl_live_objects pl = manifest_live_objects m"
    using exact assms(3,9) manifest_of_leaves(1) [OF assms(9), of cr] manifest_of_leaves(2) [OF assms(9)]
    by (simp_all add: plan_exact_def Let_def manifest_root_def)
  show "check_checkpoint cr (cb_checkpoint bundle) (cb_heads bundle) m view may_leave = Inr ()"
  proof (rule checkpoint_passes [OF same(4) _ _ assms(3) _ _ assms(8)])
    show "\<forall>h \<in> set (cb_heads bundle). ref_seq h \<le> cp_covered_seq ?c"
      unfolding heads using plan_heads(1) [OF plan view] by blast
    show "check_checkpoint_link st w ?c ?newest = Inr ()" using exact0 previous by (simp add: plan_exact_def Let_def)
    show "manifest_root cr m = cp_manifest_root ?c" "manifest_live_objects m = cp_live_objects ?c"
      using leaves same(1,2) by simp_all
    fix x b assume "?newest = Some x" "bundle_of_row x = Inr b"
    then show "cp_floor (body (cb_checkpoint b)) \<le> cp_floor ?c \<and> cp_covered_seq (body (cb_checkpoint b)) < cp_covered_seq ?c
      \<and> \<not> heads_fell_back (cb_heads bundle) (cb_heads b) may_leave"
      unfolding heads using rises plan_heads(2) [OF plan view] by blast
  qed
qed

end
