(* ===== verification/Server_Serves.thy ===== *)
theory Server_Serves
  imports Server_Run Checkpoint_Routes
begin

text \<open>
  What a client gets from a server in any run: a chain of checkpoints it can verify, whose newest
  manifest is the live set's.
\<close>

subsection \<open>The chain\<close>

definition stored_records :: "store \<Rightarrow> ident \<Rightarrow> ident \<Rightarrow> (store_error + checkpoint signed) list" where
  "stored_records st w d = map (row_signed \<circ> scp_row) (checkpoint_rows st w d)"

lemma chain_records:
  assumes "holds_chain cr st w d rs"
  shows "stored_records st w d = map Inr rs"
  unfolding stored_records_def
  using chain_numbers(1) [OF assms] row_of_record_signed [OF chain_numbers(2) [OF assms]]
  by (intro nth_equalityI) simp_all

text \<open>
  C11. Whatever the order of plans, commits and other transactions, retries and lost races included,
  the checkpoints that the server holds of a domain are a genuine chain: numbered from 1, each naming the
  digest of the one before it and of the one its skip reaches, with rising \<open>covered_seq\<close> and a
  floor that never falls.
\<close>

theorem server_chain_genuine:
  assumes "checkpoint_run cr w d st planned"
  shows "\<exists>rs. stored_records st w d = map Inr rs \<and> genuine_chain cr rs"
proof -
  obtain rs where "holds_chain cr st w d rs" using run_inv [OF assms] by (auto simp: checkpoint_inv_def)
  then show ?thesis using chain_records by (auto simp: holds_chain_def)
qed

text \<open>
  C10. The bucket hashes stored with the newest checkpoint, carried from checkpoint to checkpoint and
  recomputed only where the log touched them, are at every moment those of the manifest of the
  whole live set that the checkpoint covers, and that manifest has the root and the number of
  live objects that the checkpoint's record states.
\<close>

theorem newest_manifest_exact:
  assumes "checkpoint_run cr w d st planned" and "newest_checkpoint st w d = Some x"
    and "bt_entries (mf_leaves m) = live_leaves st w d (cpw_covered_seq x) {}"
  shows "\<exists>c bs. row_signed x = Inr c \<and> checkpoint_buckets st w d (cpw_number x) = Some bs
    \<and> buckets_from bs = Inr (bucket_hashes cr m)
    \<and> verify_manifest cr m (cp_manifest_root (body c)) (cp_live_objects (body c)) = Inr ()"
proof -
  let ?leaves = "live_leaves st w d (cpw_covered_seq x) {}"
  have "manifest_stored cr st w d (Some x)" using run_inv [OF assms(1)] assms(2) by (simp add: checkpoint_inv_def)
  then obtain c bs where "row_signed x = Inr c" "checkpoint_buckets st w d (cpw_number x) = Some bs"
    "buckets_from bs = Inr (leaves_buckets cr ?leaves)" "cp_live_objects (body c) = of_nat (length ?leaves)"
    "cp_manifest_root (body c) = root_of_buckets cr (leaves_buckets cr ?leaves)"
    by (auto simp: manifest_stored_def)
  then show ?thesis
    using manifest_of_leaves(1) [OF assms(3), of cr] manifest_of_leaves(2) [OF assms(3)]
    by (intro exI [of _ c] exI [of _ bs]) (simp add: verify_manifest_def manifest_root_def)
qed

subsection \<open>The walk of \<^verbatim>\<open>checkpoint-chain\<close>\<close>

lemma signed_checkpoint_length: "length (enc_signed enc_checkpoint r) \<le> 480"
  by (simp add: enc_signed_def enc_checkpoint_def w_u64_def encoded_len_def signature_bytes_def)

lemma descent_from_ge: "n \<in> set (descent_from to current) \<Longrightarrow> to \<le> n"
proof (induction to current rule: descent_from.induct)
  case (1 to current)
  show ?case
  proof (cases "to < current")
    case True
    then have "n = descent_step to current \<or> n \<in> set (descent_from to (descent_step to current))"
      using 1(2) by (subst (asm) descent_from.simps) auto
    then show ?thesis using 1(1) True descent_step_ge [OF True] by auto
  next
    case False
    then show ?thesis using 1(2) by (subst (asm) descent_from.simps) simp
  qed
qed

lemma walk_records_all:
  assumes "\<forall>n \<in> set ns. \<exists>row. checkpoint_numbered st w d n = Some row \<and> row_signed row = Inr (f n) \<and> length (cpw_record row) \<le> 480"
    and "length ns * 484 \<le> budget"
  shows "walk_records st w d ns budget records = Inr (records @ map f ns)"
  using assms
proof (induction ns arbitrary: budget records)
  case (Cons n ns)
  then obtain row where row: "checkpoint_numbered st w d n = Some row" "row_signed row = Inr (f n)" "length (cpw_record row) \<le> 480"
    by auto
  then show ?case
    using Cons.IH [of "budget - (4 + length (cpw_record row))" "records @ [f n]"] Cons.prems by simp
qed simp

lemma named_row:
  assumes "holds_chain cr st w d rs" and "checkpoint_named st w d x = Some row"
  shows "1 \<le> unat (cpw_number row)" and "unat (cpw_number row) \<le> length rs"
    and "signed_checkpoint_digest cr (rs ! (unat (cpw_number row) - 1)) = x"
proof -
  obtain i where i: "i < length rs" "row = scp_row (checkpoint_rows st w d ! i)" "cpw_digest row = x"
    using assms chain_numbers(1) [OF assms(1)] by (auto simp: checkpoint_named_def find_Some_iff)
  have n: "unat (cpw_number row) = Suc i" unfolding i(2) by (rule chain_numbers(4) [OF assms(1) i(1)])
  then show "1 \<le> unat (cpw_number row)" "unat (cpw_number row) \<le> length rs" using i(1) by simp_all
  show "signed_checkpoint_digest cr (rs ! (unat (cpw_number row) - 1)) = x"
    using chain_numbers(2) [OF assms(1) i(1)] i(2,3) n by (simp add: row_of_record_def)
qed

text \<open>
  C12. A reader who names two of the domain's checkpoints, newest first, always gets the whole walk
  between them in one answer, and it verifies: it starts at the one, ends at the other, and each
  record names the next by \<open>previous\<close> or \<open>skip\<close>. No answer is cut at the budget of 1 MiB.
\<close>

theorem chain_route_verifies:
  assumes "checkpoint_run cr w d st planned" and "authorize_domain st p sess w d = Inr ()"
    and "checkpoint_named st w d newer = Some x" and "checkpoint_named st w d older = Some y"
    and "cpw_number y \<le> cpw_number x"
  shows "\<exists>walk. chain_route st p sess w d newer older = Inr walk \<and> walk \<noteq> []
    \<and> signed_checkpoint_digest cr (hd walk) = newer \<and> verify_descent cr walk older = Inr ()"
proof -
  obtain rs where chain: "holds_chain cr st w d rs" using run_inv [OF assms(1)] by (auto simp: checkpoint_inv_def)
  let ?f = "\<lambda>n. rs ! (unat n - 1)" and ?path = "descent_path (cpw_number x) (cpw_number y)"
  note x = named_row [OF chain assms(3)] and y = named_row [OF chain assms(4)]
  have to: "1 \<le> cpw_number y" using y(1) by (simp add: word_le_nat_alt)
  have small: "unat (cpw_number x) < 2 ^ 63"
    using x(2) chain by (simp add: holds_chain_def INTEGER_MAX_def)
  have rows: "\<exists>row. checkpoint_numbered st w d n = Some row \<and> row_signed row = Inr (?f n) \<and> length (cpw_record row) \<le> 480"
    if "n \<in> set ?path" for n
  proof -
    have n: "1 \<le> unat n" "unat n \<le> length rs"
      using that descent_path_le [of n "cpw_number x" "cpw_number y"] descent_from_ge [of n "cpw_number y" "cpw_number x"]
        assms(5) x(2) y(1)
      by (auto simp: descent_path_def word_le_nat_alt)
    then have "row_of_record cr (scp_row (checkpoint_rows st w d ! (unat n - 1))) (?f n)"
      by (intro chain_numbers(2) [OF chain]) simp
    then show ?thesis
      using numbered_row [OF chain n] row_of_record_signed signed_checkpoint_length [of "?f n"] by (auto simp: row_of_record_def)
  qed
  have "length ?path \<le> 63 * (63 + 1) div 2" by (rule descent_walk_short [OF small to assms(5)])
  then have "length ?path * 484 \<le> MAX_BODY - 4" by (simp add: MAX_BODY_def)
  then have "walk_records st w d ?path (MAX_BODY - 4) [] = Inr (map ?f ?path)"
    using walk_records_all [of ?path st w d ?f "MAX_BODY - 4" "[]"] rows by simp
  then have "chain_route st p sess w d newer older = Inr (map ?f ?path)"
    using assms(2-5) by (simp add: chain_route_def)
  moreover have "verify_descent cr (map ?f ?path) older = Inr ()"
    using genuine_path_verifies [OF _ to assms(5) x(2), of cr] chain y(3) by (simp add: holds_chain_def)
  moreover have "signed_checkpoint_digest cr (hd (map ?f ?path)) = newer" "map ?f ?path \<noteq> []"
    using x(3) by (simp_all add: descent_path_def)
  ultimately show ?thesis by blast
qed

end
