(* ===== verification/Server_Buckets.thy ===== *)
theory Server_Buckets
  imports Server_Serves
begin

text \<open>
  The pages of a bucket's leaves: following the cursor from page to page gives every leaf of the bucket
  once, in order, and at the newest checkpoint they verify against the bucket's hash. And what a dropped
  delete does to an older checkpoint that is still served: it leaves the live set at every sequence, the older
  checkpoint's included, whose bucket hashes stay as they were.
\<close>

subsection \<open>Order\<close>

definition leaf_key :: "ident \<times> op_ref \<Rightarrow> ident \<times> ident \<times> u64" where
  "leaf_key = (\<lambda>(rid, x). (rid, ref_device x, ref_counter x))"

definition cursor_at :: "ident \<times> op_ref \<Rightarrow> live_cursor" where
  "cursor_at = (\<lambda>(rid, x). \<lparr>lcu_rid = rid, lcu_device = ref_device x, lcu_counter = ref_counter x\<rparr>)"

definition as_leaf :: "ident \<times> op_ref \<Rightarrow> leaf_ref" where
  "as_leaf = (\<lambda>(rid, x). \<lparr>lf_rid = rid, lf_op = x\<rparr>)"

lemma after_cursor_at: "after_cursor (Some (cursor_at y)) (fst x) (snd x) \<longleftrightarrow> leaf_key y < leaf_key x"
  by (cases x; cases y) (simp add: after_cursor_def cursor_at_def leaf_key_def)

lemma lex_append:
  fixes xs ys :: "byte list"
  assumes "length xs = length ys"
  shows "xs @ us < ys @ vs \<longleftrightarrow> xs < ys \<or> xs = ys \<and> us < vs"
  using assms by (induction xs ys rule: list_induct2) auto

lemma leaf_bytes_less: "by_rid_device_counter (as_leaf x) < by_rid_device_counter (as_leaf y) \<longleftrightarrow> leaf_key x < leaf_key y"
proof -
  have "(word_bytes 8 (a :: u64) < word_bytes 8 b) = (a < b)" for a b by (rule word_bytes_less_iff) simp
  moreover have "length (ident_bytes a) = 16" for a by (simp add: ident_bytes_def)
  ultimately show ?thesis
    by (cases x; cases y) (auto simp: by_rid_device_counter_def as_leaf_def leaf_key_def lex_append ident_bytes_less_iff)
qed

text \<open>The table's key: a device has one operation of each counter in a domain.\<close>

definition op_keys_distinct :: "store \<Rightarrow> ident \<Rightarrow> bool" where
  "op_keys_distinct st w \<longleftrightarrow> distinct (map (\<lambda>r. (or_domain r, or_device r, or_counter r))
     (filter (\<lambda>r. or_workspace r = w) (st_operations st)))"

lemma distinct_filter_mono: "distinct (map f (filter A xs)) \<Longrightarrow> (\<And>x. B x \<Longrightarrow> A x) \<Longrightarrow> distinct (map f (filter B xs))"
  by (induction xs) (auto split: if_splits)

lemma live_refs_rise:
  assumes "op_keys_distinct st w" and "rows_sound st w d base"
  shows "sorted_wrt (\<lambda>x y. (ref_device x, ref_counter x) < (ref_device y, ref_counter y)) (live_refs st w rid at {})"
proof (rule sorted_key_strict)
  let ?key = "\<lambda>r. (or_domain r, or_device r, or_counter r)"
  let ?mine = "filter (\<lambda>r. or_workspace r = w) (st_operations st)"
  have "sorted (map (\<lambda>x. (ref_device x, ref_counter x)) (live_refs st w rid at {}))"
    unfolding live_refs_def by (rule sorted_sort_key)
  then show "sorted_wrt (\<lambda>x y. (ref_device x, ref_counter x) \<le> (ref_device y, ref_counter y)) (live_refs st w rid at {})"
    by (simp only: sorted_map)
  define rows where "rows = sort_key or_seq (filter (\<lambda>r. or_workspace r = w \<and> or_rid r = rid \<and> or_seq r \<le> at_most at \<and> \<not> or_dropped r
         \<and> \<not> list_ex (\<lambda>c. cvr_workspace c = or_workspace r \<and> cvr_rid c = or_rid r
             \<and> cvr_device c = or_device r \<and> cvr_counter c \<ge> or_counter r \<and> cvr_by_seq c \<le> at_most at)
           (st_covers st)) (st_operations st))"
  have "distinct (map ?key (filter B (st_operations st)))" if "\<And>r. B r \<Longrightarrow> or_workspace r = w" for B
    using assms(1) that unfolding op_keys_distinct_def by (rule distinct_filter_mono)
  then have d: "distinct (filter B (st_operations st))" if "\<And>r. B r \<Longrightarrow> or_workspace r = w" for B
    using that distinct_map by blast
  have mine: "set rows \<subseteq> set ?mine" by (auto simp: rows_def)
  have "distinct rows" unfolding rows_def distinct_sort by (rule d) simp
  have "\<And>r. r \<in> set (st_operations st) \<Longrightarrow> or_workspace r = w \<Longrightarrow> rid_domain st w (or_rid r) = Some (or_domain r)"
    using assms(2) unfolding rows_sound_def by blast
  then have domain1: "rid_domain st w rid = Some (or_domain r)" if "r \<in> set rows" for r
    using that by (auto simp: rows_def)
  have key: "inj_on ?key (set rows)"
    using assms(1) inj_on_subset [OF _ mine] unfolding op_keys_distinct_def distinct_map by blast
  have "inj_on (\<lambda>r. (or_device r, or_counter r)) (set rows)"
  proof (rule inj_onI)
    fix r r' assume r: "r \<in> set rows" "r' \<in> set rows" "(or_device r, or_counter r) = (or_device r', or_counter r')"
    then have "?key r = ?key r'" using domain1 [OF r(1)] domain1 [OF r(2)] by simp
    then show "r = r'" using key r(1,2) by (blast dest: inj_onD)
  qed
  then have "distinct (map (\<lambda>r. (or_device r, or_counter r)) rows)" using \<open>distinct rows\<close> by (simp add: distinct_map)
  then have keys: "distinct (map (\<lambda>x. (ref_device x, ref_counter x)) (map (\<lambda>r. as_ref (row_op r)) rows))"
    by (simp add: comp_def as_ref_def row_op_def)
  have "live_ops st w rid at = map (\<lambda>r. (row_op r, or_class r)) rows" by (simp add: live_ops_def rows_def)
  then have "live_refs st w rid at {} = sort_key (\<lambda>x. (ref_device x, ref_counter x)) (map (\<lambda>r. as_ref (row_op r)) rows)"
    by (simp add: live_refs_def comp_def)
  then show "distinct (map (\<lambda>x. (ref_device x, ref_counter x)) (live_refs st w rid at {}))"
    using keys by (simp only: distinct_map distinct_sort set_sort)
qed

lemma flat_leaves_rise:
  assumes "sorted_wrt (\<lambda>x y. fst x < fst y) leaves"
    and "\<forall>(rid, refs) \<in> set leaves. sorted_wrt (\<lambda>x y. (ref_device x, ref_counter x) < (ref_device y, ref_counter y)) refs"
  shows "sorted_wrt (\<lambda>x y. leaf_key x < leaf_key y) (flat_leaves leaves)"
  using assms
proof (induction leaves)
  case (Cons l leaves)
  obtain rid refs where l: "l = (rid, refs)" by (cases l)
  have "sorted_wrt (\<lambda>x y. leaf_key x < leaf_key y) (map (Pair rid) refs)"
    using Cons.prems(2) by (auto simp: l sorted_wrt_map leaf_key_def elim: sorted_wrt_mono_rel [rotated])
  moreover have "\<forall>x \<in> set (map (Pair rid) refs). \<forall>y \<in> set (flat_leaves leaves). leaf_key x < leaf_key y"
    using Cons.prems(1) by (fastforce simp: l flat_leaves_def leaf_key_def)
  moreover have "flat_leaves (l # leaves) = map (Pair rid) refs @ flat_leaves leaves" by (simp add: l flat_leaves_def)
  ultimately show ?case using Cons by (simp add: sorted_wrt_append)
qed (simp add: flat_leaves_def)

subsection \<open>Pages\<close>

lemma leaf_page_eq:
  fixes xs :: "(ident \<times> op_ref) list" and after :: "live_cursor option"
  assumes "length refs \<le> fits" and "0 < fits"
  defines "ys \<equiv> filter (\<lambda>(rid, x). after_cursor after rid x) xs"
  shows "leaf_page fits after xs refs = (let out = refs @ map as_leaf (take (fits - length refs) ys) in
    (out, if length ys \<le> fits - length refs then None else Some \<lparr>lcu_rid = lf_rid (last out),
      lcu_device = ref_device (lf_op (last out)), lcu_counter = ref_counter (lf_op (last out))\<rparr>))"
  using assms(1,2) unfolding ys_def
proof (induction fits after xs refs rule: leaf_page.induct)
  case (2 fits after rid x rest refs)
  show ?case
  proof (cases "after_cursor after rid x \<and> length refs \<noteq> fits")
    case True
    then have "fits - length refs = Suc (fits - Suc (length refs))" using 2(3) by (metis Suc_diff_Suc le_neq_implies_less)
    then show ?thesis
      using True 2(2) 2(3,4) by (simp add: Let_def as_leaf_def)
  next
    case False
    then show ?thesis using 2(1) 2(3,4) by (auto simp: Let_def)
  qed
qed simp

text \<open>The first page after a cursor, and what the cursor it ends with leaves.\<close>

lemma leaf_page_first:
  fixes xs :: "(ident \<times> op_ref) list" and after :: "live_cursor option"
  assumes "0 < fits" and "sorted_wrt (\<lambda>x y. leaf_key x < leaf_key y) xs"
  defines "ys \<equiv> filter (\<lambda>(rid, x). after_cursor after rid x) xs"
  shows "length ys \<le> fits \<Longrightarrow> leaf_page fits after xs [] = (map as_leaf ys, None)"
    and "fits < length ys \<Longrightarrow> \<exists>c. leaf_page fits after xs [] = (map as_leaf (take fits ys), Some c)
      \<and> filter (\<lambda>(rid, x). after_cursor (Some c) rid x) xs = drop fits ys"
proof -
  note page = leaf_page_eq [of "[]" fits after xs, folded ys_def, simplified, OF assms(1)]
  show "length ys \<le> fits \<Longrightarrow> leaf_page fits after xs [] = (map as_leaf ys, None)" using page by (simp add: Let_def)
  assume more: "fits < length ys"
  then have ne: "take fits ys \<noteq> []" using assms(1) by auto
  define l where "l = last (take fits ys)"
  have cursor: "leaf_page fits after xs [] = (map as_leaf (take fits ys), Some (cursor_at l))"
    using page more ne by (auto simp: l_def Let_def last_map as_leaf_def cursor_at_def split: prod.splits)
  have sorted: "sorted_wrt (\<lambda>x y. leaf_key x < leaf_key y) ys" unfolding ys_def by (rule sorted_wrt_filter [OF assms(2)])
  have split: "ys = take fits ys @ drop fits ys" by simp
  have apart: "\<forall>x \<in> set (take fits ys). \<forall>y \<in> set (drop fits ys). leaf_key x < leaf_key y"
    using sorted sorted_wrt_append [of "\<lambda>x y. leaf_key x < leaf_key y" "take fits ys" "drop fits ys"] by simp
  have below: "leaf_key x \<le> leaf_key l" if "x \<in> set (take fits ys)" for x
    using rid_below_last [of "map leaf_key (take fits ys)" "leaf_key x"] that ne sorted_wrt_take [OF sorted, of fits]
    by (simp add: l_def sorted_wrt_map last_map)
  have after: "after_cursor (Some (cursor_at l)) rid x \<longleftrightarrow> leaf_key l < leaf_key (rid, x)" for rid x
    using after_cursor_at [of l "(rid, x)"] by simp
  have l: "l \<in> set ys" using last_in_set [OF ne] set_take_subset unfolding l_def by fastforce
  have "filter (\<lambda>(rid, x). after_cursor (Some (cursor_at l)) rid x) xs = filter (\<lambda>y. leaf_key l < leaf_key y) xs"
    by (intro filter_cong) (auto simp: after)
  also have "\<dots> = filter (\<lambda>y. leaf_key l < leaf_key y) ys"
  proof -
    have "after_cursor after rid x" if "leaf_key l < leaf_key (rid, x)" for rid x
      using l that unfolding ys_def by (cases after; cases l) (auto simp: after_cursor_def leaf_key_def)
    then show ?thesis unfolding ys_def filter_filter by (intro filter_cong) auto
  qed
  also have "\<dots> = filter (\<lambda>y. leaf_key l < leaf_key y) (take fits ys) @ filter (\<lambda>y. leaf_key l < leaf_key y) (drop fits ys)"
    by (subst split) (simp only: filter_append)
  also have "filter (\<lambda>y. leaf_key l < leaf_key y) (take fits ys) = []"
    using below by (auto simp: filter_empty_conv not_less)
  also have "filter (\<lambda>y. leaf_key l < leaf_key y) (drop fits ys) = drop fits ys"
    using apart last_in_set [OF ne] unfolding l_def by (auto intro: filter_True)
  finally show "\<exists>c. leaf_page fits after xs [] = (map as_leaf (take fits ys), Some c)
      \<and> filter (\<lambda>(rid, x). after_cursor (Some c) rid x) xs = drop fits ys"
    using cursor by auto
qed

subsection \<open>A reader of a bucket\<close>

text \<open>A reader that follows the cursors, for at most \<open>n\<close> pages.\<close>

fun read_bucket ::
  "nat \<Rightarrow> store \<Rightarrow> policy_chain \<Rightarrow> session \<Rightarrow> ident \<Rightarrow> ident \<Rightarrow> u64 \<Rightarrow> u16 \<Rightarrow> live_cursor option \<Rightarrow> leaf_ref list option" where
  "read_bucket 0 st p sess w d at index after = None"
| "read_bucket (Suc n) st p sess w d at index after =
     (case manifest_leaves_route st p sess w d at index after of
        Inl _ \<Rightarrow> None
      | Inr (refs, None) \<Rightarrow> Some refs
      | Inr (refs, Some c) \<Rightarrow> map_option (\<lambda>rest. refs @ rest) (read_bucket n st p sess w d at index (Some c)))"

lemma sorted_leaves_kept:
  assumes "sorted_wrt (\<lambda>x y. leaf_key x < leaf_key y) ys" and "length ys \<le> UNBOUNDED"
  shows "sorted_new by_rid_device_counter UNBOUNDED (map as_leaf ys) = Inr (map as_leaf ys)"
proof -
  let ?key = by_rid_device_counter
  have rises: "sorted_wrt (\<lambda>a b. ?key a < ?key b) (map as_leaf ys)"
    using assms(1) by (simp add: sorted_wrt_map leaf_bytes_less)
  then have "sorted (map ?key (map as_leaf ys))"
    unfolding sorted_map by (rule sorted_wrt_mono_rel [rotated]) simp
  then have "sort_key ?key (map as_leaf ys) = map as_leaf ys" by (rule sort_key_id_if_sorted)
  moreover have "transp (\<lambda>a b. ?key a < ?key b)" by (auto simp: transp_def intro: order_less_trans)
  then have "rises_strictly ?key (map as_leaf ys)"
    using rises by (simp add: rises_strictly_def windows2_sorted_wrt)
  ultimately show ?thesis using assms(2) by (simp add: sorted_new_def Let_def)
qed

lemma leaves_fit: "0 < LEAVES_FIT" "LEAVES_FIT \<le> UNBOUNDED"
  by (simp_all add: LEAVES_FIT_def MAX_BODY_def UNBOUNDED_def usize_MAX_def)

lemma read_bucket_rest:
  assumes "servable st p sess w d at = Inr x" and "unat index < BUCKETS"
    and "sorted_wrt (\<lambda>x y. leaf_key x < leaf_key y) (flat_leaves (server_leaves st w d index at {}))"
  defines "rest \<equiv> \<lambda>after. filter (\<lambda>(rid, x). after_cursor after rid x) (flat_leaves (server_leaves st w d index at {}))"
  shows "length (rest after) < n * LEAVES_FIT \<Longrightarrow> read_bucket n st p sess w d at index after = Some (map as_leaf (rest after))"
proof (induction n arbitrary: after)
  case (Suc n)
  let ?xs = "flat_leaves (server_leaves st w d index at {})"
  note page = leaf_page_first [OF leaves_fit(1) assms(3), of after]
  have sorted: "sorted_wrt (\<lambda>x y. leaf_key x < leaf_key y) (rest after)"
    unfolding rest_def by (rule sorted_wrt_filter [OF assms(3)])
  have route: "manifest_leaves_route st p sess w d at index after = Inr (map as_leaf ys, c)"
    if "leaf_page LEAVES_FIT after ?xs [] = (map as_leaf ys, c)" "sorted_wrt (\<lambda>x y. leaf_key x < leaf_key y) ys"
      "length ys \<le> LEAVES_FIT" for ys c
    using that assms(1,2) sorted_leaves_kept [OF that(2)] leaves_fit(2)
    by (simp add: manifest_leaves_route_def map_err_def)
  show ?case
  proof (cases "length (rest after) \<le> LEAVES_FIT")
    case True
    then show ?thesis using route [OF page(1)] sorted unfolding rest_def by simp
  next
    case False
    then obtain c where c: "leaf_page LEAVES_FIT after ?xs [] = (map as_leaf (take LEAVES_FIT (rest after)), Some c)"
      "rest (Some c) = drop LEAVES_FIT (rest after)"
      using page(2) unfolding rest_def by force
    have "length (rest (Some c)) < n * LEAVES_FIT" using Suc.prems False by (simp add: c(2))
    then have "read_bucket n st p sess w d at index (Some c) = Some (map as_leaf (rest (Some c)))" by (rule Suc.IH)
    then show ?thesis
      using route [OF c(1)] sorted_wrt_take [OF sorted] by (simp add: c(2) map_append [symmetric] del: map_append)
  qed
qed simp

lemma newest_bucket:
  assumes "checkpoint_run cr w d st planned" and "newest_checkpoint st w d = Some x" and "unat index < BUCKETS"
  defines "leaves \<equiv> server_leaves st w d index (cpw_covered_seq x) {}"
  shows "\<exists>c bs. row_signed x = Inr c \<and> checkpoint_buckets st w d (cpw_number x) = Some bs
    \<and> (\<exists>buckets. buckets_from bs = Inr buckets \<and> verify_buckets cr buckets (cp_manifest_root (body c)) = Inr ()
        \<and> verify_bucket cr index leaves (buckets ! unat index) = Inr ())"
proof -
  let ?leaves = "live_leaves st w d (cpw_covered_seq x) {}"
  have "manifest_stored cr st w d (Some x)" using run_inv [OF assms(1)] assms(2) by (simp add: checkpoint_inv_def)
  then obtain c bs where c: "row_signed x = Inr c" "checkpoint_buckets st w d (cpw_number x) = Some bs"
    "buckets_from bs = Inr (leaves_buckets cr ?leaves)"
    "cp_manifest_root (body c) = root_of_buckets cr (leaves_buckets cr ?leaves)"
    by (auto simp: manifest_stored_def)
  have leaves: "leaves = in_bucket index ?leaves" unfolding leaves_def by (rule server_leaves_bucket [OF assms(3)])
  have "sorted_wrt (\<lambda>x y. fst x < fst y) leaves" unfolding leaves by (rule sorted_wrt_filter [OF live_leaves_rise])
  then have "list_all (\<lambda>(x, y). fst x < fst y) (windows2 leaves)"
    by (subst windows2_sorted_wrt) (auto simp: transp_def)
  moreover have "of_nat (unat index) = index" by simp
  ultimately have "verify_bucket cr index leaves (leaves_buckets cr ?leaves ! unat index) = Inr ()"
    using assms(3) by (auto simp: verify_bucket_def Let_def leaves_buckets_def hashed_def leaves list_ex_iff)
  moreover have "verify_buckets cr (leaves_buckets cr ?leaves) (cp_manifest_root (body c)) = Inr ()"
    by (simp add: verify_buckets_def c(4))
  ultimately show ?thesis using c(1-3) by blast
qed

text \<open>
  C9. A client can bootstrap from the newest checkpoint, whatever run led to it: the bucket hashes the
  server sends verify against the root in the checkpoint's record, and in each bucket the leaves
  it sends, page after page by the cursor, are leaves that verify against the bucket's hash, none left out
  and none sent twice.
\<close>

theorem newest_checkpoint_bootstraps:
  assumes "checkpoint_run cr w d st planned" and "newest_checkpoint st w d = Some x"
    and "servable st p sess w d (cpw_covered_seq x) = Inr x" and "op_keys_distinct st w" and "unat index < BUCKETS"
    and "length (flat_leaves (server_leaves st w d index (cpw_covered_seq x) {})) < n * LEAVES_FIT"
  shows "\<exists>c buckets leaves. row_signed x = Inr c
    \<and> manifest_buckets_route st p sess w d (cpw_covered_seq x) = Inr buckets
    \<and> verify_buckets cr buckets (cp_manifest_root (body c)) = Inr ()
    \<and> read_bucket n st p sess w d (cpw_covered_seq x) index None = Some (map as_leaf (flat_leaves leaves))
    \<and> verify_bucket cr index leaves (buckets ! unat index) = Inr ()"
proof -
  let ?leaves = "server_leaves st w d index (cpw_covered_seq x) {}"
  obtain c bs buckets where c: "row_signed x = Inr c" "checkpoint_buckets st w d (cpw_number x) = Some bs"
    "buckets_from bs = Inr buckets" "verify_buckets cr buckets (cp_manifest_root (body c)) = Inr ()"
    "verify_bucket cr index ?leaves (buckets ! unat index) = Inr ()"
    using newest_bucket [OF assms(1,2,5)] by blast
  have "manifest_buckets_route st p sess w d (cpw_covered_seq x) = Inr buckets"
    using assms(3) c(2,3) by (simp add: manifest_buckets_route_def stored_buckets_def)
  moreover have "sorted_wrt (\<lambda>x y. leaf_key x < leaf_key y) (flat_leaves ?leaves)"
  proof (rule flat_leaves_rise)
    show "sorted_wrt (\<lambda>x y. fst x < fst y) ?leaves"
      unfolding server_leaves_bucket [OF assms(5)] by (rule sorted_wrt_filter [OF live_leaves_rise])
    have "rows_sound st w d (covered_of (newest_checkpoint st w d))"
      using run_inv [OF assms(1)] by (simp add: checkpoint_inv_def)
    then show "\<forall>(rid, refs) \<in> set ?leaves.
        sorted_wrt (\<lambda>x y. (ref_device x, ref_counter x) < (ref_device y, ref_counter y)) refs"
      unfolding server_leaves_bucket [OF assms(5)] using live_refs_rise [OF assms(4)] by (auto simp: live_leaves_iff)
  qed
  then have "read_bucket n st p sess w d (cpw_covered_seq x) index None = Some (map as_leaf (flat_leaves ?leaves))"
    using read_bucket_rest [OF assms(3,5), of None n] assms(6) by (simp add: after_cursor_def)
  ultimately show ?thesis using c(1,4,5) by blast
qed

subsection \<open>Dropped deletes\<close>

lemma commit_writes:
  assumes "commit_checkpoint_locked cr p sess w bundle pl floor_setting st = Inr (r, st')" and "st' \<noteq> st"
  obtains row where "write_checkpoint cr w bundle pl row st = Inr (r, st')"
  using assms by (auto simp: commit_checkpoint_locked_def commit_after_def Let_def split: option.splits if_splits)

lemma find_appended: "find P (xs @ ys) = (case find P xs of None \<Rightarrow> find P ys | Some x \<Rightarrow> Some x)"
  by (induction xs) auto

text \<open>
  C29. When a commit's floor drops a lone delete that an older checkpoint still covers, that checkpoint can
  no longer be bootstrapped from, though its bucket hashes are kept: the leaves the server then
  sends of the delete's bucket lack the delete, so they fail against the stored hash, short
  of a collision. The server drops a delete for every sequence at once, while pruning keeps its
  record until no served checkpoint holds it.
\<close>

theorem dropped_delete_breaks_older_checkpoint:
  assumes "checkpoint_run cr w d st planned" and "newest_checkpoint st w d = Some x"
    and "cp_domain (body (cb_checkpoint bundle)) = d"
    and "commit_checkpoint_locked cr p sess w bundle pl floor_setting st = Inr (r, st')" and "st' \<noteq> st"
    and "z \<in> set (cpl_dropped pl)" and "rid_domain st w (del_rid z) = Some d"
    and "y \<in> set (live_refs st w (del_rid z) (cpw_covered_seq x) {})"
    and "ref_device y = ref_device (del_op z)" and "ref_counter y = ref_counter (del_op z)"
  defines "index \<equiv> bucket_of (del_rid z)"
  shows "\<exists>bs buckets. checkpoint_buckets st' w d (cpw_number x) = Some bs \<and> buckets_from bs = Inr buckets
    \<and> (verify_bucket cr index (server_leaves st' w d index (cpw_covered_seq x) {}) (buckets ! unat index) \<noteq> Inr ()
      \<or> inputs_collide cr (bucket_inputs cr (unat index) (server_leaves st' w d index (cpw_covered_seq x) {}))
          (bucket_inputs cr (unat index) (server_leaves st w d index (cpw_covered_seq x) {})))"
proof -
  let ?at = "cpw_covered_seq x"
  let ?new = "server_leaves st' w d index ?at {}" and ?old = "server_leaves st w d index ?at {}"
  have index: "unat index < BUCKETS" unfolding index_def by (rule bucket_of_less)
  obtain rs where chain: "holds_chain cr st w d rs" using run_inv [OF assms(1)] by (auto simp: checkpoint_inv_def)
  obtain bs buckets where bs: "checkpoint_buckets st w d (cpw_number x) = Some bs" "buckets_from bs = Inr buckets"
    "verify_bucket cr index ?old (buckets ! unat index) = Inr ()"
    using newest_bucket [OF assms(1,2) index] by blast
  obtain row where written: "write_checkpoint cr w bundle pl row st = Inr (r, st')"
    by (rule commit_writes [OF assms(4,5)])
  let ?ks = "delete_key ` set (cpl_dropped pl)"
  obtain n where rows: "checkpoint_rows st' w d = checkpoint_rows st w d @ [n]"
    and tables: "st_operations st' = map (mark_dropped w ?ks) (st_operations st)" "st_covers st' = st_covers st" "st_rids st' = st_rids st"
    by (rule write_checkpointD [OF written, unfolded assms(3)]) blast
  have kept: "checkpoint_buckets st' w d (cpw_number x) = Some bs"
    using bs(1) by (auto simp: checkpoint_buckets_def rows find_appended split: option.splits)
  have refs: "live_refs st' w (del_rid z) ?at {} = live_refs st w (del_rid z) ?at ?ks"
    by (rule live_refs_dropped [OF tables(1,2)])
  have key: "(del_rid z, ref_device y, ref_counter y) \<in> ?ks"
    using assms(6,9,10) by (auto simp: delete_key_def image_iff intro!: bexI [of _ z])
  have "y \<notin> set (live_refs st' w (del_rid z) ?at {})"
    unfolding refs live_refs_without [of st w "del_rid z" ?at ?ks] using key by simp
  moreover have "(del_rid z, live_refs st w (del_rid z) ?at {}) \<in> set ?old"
    unfolding server_leaves_bucket [OF index] using assms(7,8) by (auto simp: live_leaves_iff index_def)
  moreover have "refs = live_refs st' w (del_rid z) ?at {}" if "(del_rid z, refs) \<in> set ?new" for refs
    using that unfolding server_leaves_bucket [OF index] by (auto simp: live_leaves_iff)
  ultimately have differ: "?new \<noteq> ?old" using assms(8) by metis
  have "inputs_collide cr (bucket_inputs cr (unat index) ?new) (bucket_inputs cr (unat index) ?old)"
    if "verify_bucket cr index ?new (buckets ! unat index) = Inr ()"
  proof (rule ccontr)
    assume apart: "\<not> ?thesis"
    have "bucket_hash cr index (map (\<lambda>(rid, refs). leaf_hash cr rid refs) ?new)
        = bucket_hash cr index (map (\<lambda>(rid, refs). leaf_hash cr rid refs) ?old)"
      using that bs(3) by (auto simp: verify_bucket_def Let_def split: if_splits)
    then have "?new = ?old" by (rule bucket_binds [OF _ apart order_refl order_refl]) simp
    then show False using differ by simp
  qed
  then show ?thesis using kept bs(2) by blast
qed

end
