(* ===== verification/Server_Examples.thy ===== *)
theory Server_Examples
  imports Push_Examples Checkpoint_Examples Server_Growth Server_Accepts Server_Buckets
begin

declare One_nat_def [simp del]

text \<open>
  A small server with a domain of four entries, on which the first checkpoint is planned and
  committed while an operation is pushed, and a second one drops a lone delete.
\<close>

subsection \<open>The server\<close>

definition srv_op :: "nat \<Rightarrow> ident \<Rightarrow> bool \<Rightarrow> operation_row" where
  "srv_op n rid del = \<lparr>or_workspace = Ident 40, or_domain = Ident 50, or_seq = of_nat n, or_device = Ident 1,
     or_counter = of_nat n, or_rid = rid, or_digest = demo_digest (70 + n), or_delete = del, or_class = Class_State,
     or_weight = 1, or_dropped = False\<rparr>"

definition srv_columns :: domain_columns where
  "srv_columns = demo_columns\<lparr>dr_head_seq := 4, dr_checkpoint_due := 3\<rparr>"

definition srv_store :: store where
  "srv_store = demo_store\<lparr>st_domains := bt_insert (Ident 40, Ident 50) srv_columns bt_empty,
     st_entries := bt_insert (Ident 40, Ident 50, 1) (ENTRY_POLICY, enc_policy_entry \<lparr>pe_revision = 1, pe_head = demo_digest 21\<rparr>)
       (bt_insert (Ident 40, Ident 50, 2) (ENTRY_EPOCH, enc_signed enc_epoch (demo_epoch 1))
       (bt_insert (Ident 40, Ident 50, 3) (ENTRY_OPERATION, []) (bt_insert (Ident 40, Ident 50, 4) (ENTRY_OPERATION, []) bt_empty))),
     st_operations := [srv_op 3 (Ident 60) False, srv_op 4 (Ident 61) True],
     st_rids := bt_insert (Ident 40, Ident 60) (Ident 50) (bt_insert (Ident 40, Ident 61) (Ident 50) bt_empty)\<rparr>"

definition srv_ref :: "nat \<Rightarrow> op_ref" where
  "srv_ref n = \<lparr>ref_device = Ident 1, ref_counter = of_nat n, ref_seq = of_nat n, ref_op_digest = demo_digest (70 + n)\<rparr>"

definition srv_leaves :: "(ident \<times> op_ref list) list" where
  "srv_leaves = [(Ident 60, [srv_ref 3]), (Ident 61, [srv_ref 4])]"

lemma srv_tables [simp]: "st_operations srv_store = [srv_op 3 (Ident 60) False, srv_op 4 (Ident 61) True]"
  "st_covers srv_store = []" "st_checkpoints srv_store = []" "st_workspaces srv_store = st_workspaces demo_store"
  "bt_entries (st_rids srv_store) = [((Ident 40, Ident 60), Ident 50), ((Ident 40, Ident 61), Ident 50)]"
  "bt_get (st_domains srv_store) k = (if k = (Ident 40, Ident 50) then Some srv_columns else None)" "st_history_floors srv_store = bt_empty"
  by (simp_all add: srv_store_def demo_store_def)

lemma srv_objects: "domain_objects srv_store (Ident 40) (Ident 50) = [Ident 60, Ident 61]"
  by (simp add: domain_objects_def rids_from_def)

lemma srv_live: "live_ops srv_store (Ident 40) rid at = map (\<lambda>r. (row_op r, or_class r))
    (sort_key or_seq (filter (\<lambda>r. operation_row.or_rid r = rid \<and> or_seq r \<le> at_most at) [srv_op 3 (Ident 60) False, srv_op 4 (Ident 61) True]))"
  by (simp add: live_ops_def srv_op_def)

lemma srv_live_leaves:
  "live_leaves srv_store (Ident 40) (Ident 50) 0 {} = []"
  "live_leaves srv_store (Ident 40) (Ident 50) 4 {} = srv_leaves"
  by (simp_all add: live_leaves_def srv_objects leaves_of_def live_refs_def srv_live srv_op_def at_most_def INTEGER_MAX_def
      row_op_def as_ref_def srv_leaves_def srv_ref_def)

lemma srv_sound: "rows_sound srv_store (Ident 40) (Ident 50) base"
  by (simp add: rows_sound_def srv_store_def demo_store_def srv_op_def rid_domain_def)

lemma srv_run: "checkpoint_run epoch_crypto (Ident 40) (Ident 50) srv_store {}"
proof (rule run_start)
  show "head_seq_of srv_store (Ident 40) (Ident 50) = Some 4" by (simp add: head_seq_of_def srv_columns_def)
qed (simp_all add: srv_sound srv_live_leaves checkpoint_rows_def INTEGER_MAX_def)

subsection \<open>The first checkpoint\<close>

definition srv_checkpoint :: "checkpoint signed" where
  "srv_checkpoint = \<lparr>body = \<lparr>cp_workspace = Ident 40, cp_domain = Ident 50, cp_previous = ZERO_digest, cp_number = 1,
       cp_skip = ZERO_digest, cp_covered_seq = 4, cp_floor = 0, cp_policy_revision = 1, cp_policy_head = demo_digest 21,
       cp_live_objects = 2, cp_manifest_root = root_of_buckets epoch_crypto (leaves_buckets epoch_crypto srv_leaves),
       cp_heads_digest = heads_digest epoch_crypto [srv_ref 4], cp_epoch = 1, cp_epoch_record = demo_digest 31,
       cp_signer = Ident 1\<rparr>, sig = Signature 91\<rparr>"

definition srv_bundle :: checkpoint_bundle where
  "srv_bundle = \<lparr>cb_checkpoint = srv_checkpoint, cb_heads = [srv_ref 4]\<rparr>"

abbreviation srv_plan :: "store_error + checkpoint_plan" where
  "srv_plan \<equiv> plan_checkpoint epoch_crypto srv_store (demo_policy 1) demo_session (Ident 40) srv_bundle"

lemma srv_fields [simp]: "cb_checkpoint srv_bundle = srv_checkpoint" "cb_heads srv_bundle = [srv_ref 4]"
  "cp_domain (body srv_checkpoint) = Ident 50" "cp_previous (body srv_checkpoint) = ZERO_digest" "cp_number (body srv_checkpoint) = 1"
  "cp_skip (body srv_checkpoint) = ZERO_digest" "cp_covered_seq (body srv_checkpoint) = 4" "cp_floor (body srv_checkpoint) = 0"
  "cp_policy_revision (body srv_checkpoint) = 1" "cp_policy_head (body srv_checkpoint) = demo_digest 21"
  "cp_live_objects (body srv_checkpoint) = 2" "cp_heads_digest (body srv_checkpoint) = heads_digest epoch_crypto [srv_ref 4]"
  "cp_manifest_root (body srv_checkpoint) = root_of_buckets epoch_crypto (leaves_buckets epoch_crypto srv_leaves)"
  "cp_epoch (body srv_checkpoint) = 1" "cp_epoch_record (body srv_checkpoint) = demo_digest 31" "cp_signer (body srv_checkpoint) = Ident 1"
  by (simp_all add: srv_bundle_def srv_checkpoint_def)

lemma srv_digest [simp]: "signed_checkpoint_digest epoch_crypto srv_checkpoint = demo_digest 91"
proof -
  have "signed_checkpoint_digest demo_crypto srv_checkpoint = demo_digest 91"
    unfolding srv_checkpoint_def using demo_sig_digest [of 91] by simp
  then show ?thesis by (simp add: signed_digest_def hash_def epoch_crypto_def)
qed

lemma srv_bundle_wf: "wf_checkpoint_bundle srv_bundle"
proof -
  have "length (enc_signed enc_checkpoint srv_checkpoint) \<le> 480" by (rule signed_checkpoint_length)
  then have "fits_u32 (length (enc_signed enc_checkpoint srv_checkpoint))" by (simp add: fits_u32_def)
  moreover have "wf_signed wf_checkpoint srv_checkpoint"
    by (simp add: wf_signed_def wf_checkpoint_def srv_checkpoint_def wf_ident_def ident_is_zero_def)
  moreover have "wf_ref_heads [srv_ref 4]"
    by (simp add: wf_ref_heads_def wf_sorted_def wf_list_def rises_strictly_def fits_u32_def UNBOUNDED_def usize_MAX_def
        wf_ref_def srv_ref_def wf_ident_def ident_is_zero_def)
  ultimately show ?thesis by (simp add: wf_checkpoint_bundle_def wf_nested_def)
qed

lemma srv_signer: "check_checkpoint_signer (demo_policy 1) demo_session (body srv_checkpoint) = Inr ()"
  using demo_head1 demo_active1 by (simp add: check_checkpoint_signer_def Let_def session_reader_def)

lemma srv_rotation: "check_checkpoint_rotation (demo_policy 1) (Ident 50) 1 = Inr ()"
  using demo_head1 by (simp add: check_checkpoint_rotation_def rotation_required_def)

lemma srv_domain_row: "store_domain srv_store (Ident 40) (Ident 50) = Some (domain_columns.extend srv_columns (domain_row.fields 0))"
  by (simp add: store_domain_def demo_store_def)

lemma srv_row_fields [simp]: "dr_head_seq (domain_columns.extend srv_columns (domain_row.fields 0)) = 4"
  "dr_epoch_policy_revision (domain_columns.extend srv_columns (domain_row.fields 0)) = 1"
  "dr_retention_floor (domain_columns.extend srv_columns (domain_row.fields 0)) = 0"
  "dr_checkpoint_due (domain_columns.extend srv_columns (domain_row.fields 0)) = 3"
  "dr_quota_crossings (domain_columns.extend srv_columns (domain_row.fields 0)) = 0"
  by (simp_all add: srv_columns_def demo_columns_def domain_columns.extend_def domain_row.fields_def)

lemma srv_entries:
  "newest_entry srv_store (Ident 40) (Ident 50) ENTRY_POLICY 4
    = Some \<lparr>re_seq = 1, re_type = ENTRY_POLICY, re_record = enc_policy_entry \<lparr>pe_revision = 1, pe_head = demo_digest 21\<rparr>\<rparr>"
  "newest_entry srv_store (Ident 40) (Ident 50) ENTRY_EPOCH 4
    = Some \<lparr>re_seq = 2, re_type = ENTRY_EPOCH, re_record = enc_signed enc_epoch (demo_epoch 1)\<rparr>"
  by (simp_all add: newest_entry_def srv_store_def ENTRY_POLICY_def ENTRY_EPOCH_def ENTRY_OPERATION_def at_most_def INTEGER_MAX_def)

lemma srv_epoch_wf: "wf_signed wf_epoch (demo_epoch 1)"
  by (simp add: wf_signed_def wf_epoch_def demo_epoch_def build_epoch_def demo_params_def Let_def wf_ident_def ident_is_zero_def
      wf_lineage_def)

lemma srv_policy_epoch: "check_policy_and_epoch epoch_crypto srv_store (Ident 40) (body srv_checkpoint) = Inr ()"
  using srv_epoch_wf
  by (simp add: check_policy_and_epoch_def srv_entries decode_entry_def stored_def policy_entry.from_bytes_enc
      wire.from_bytes_enc [OF signed_epoch_wire])

lemma replan_from_nothing:
  assumes "live_leaves st w d prev {} = []" and "\<forall>i \<in> set T. unat i < BUCKETS"
  shows "\<exists>x. try_fold (replan_bucket cr st w d prev at ex) (bs, n) T = Inr x"
  using assms(2)
proof (induction T arbitrary: bs n)
  case (Cons k T)
  then show ?case by (simp add: replan_bucket_def server_leaves_bucket assms(1) Let_def)
qed simp

lemma srv_planned: "\<exists>pl. srv_plan = Inr pl \<and> cpl_previous pl = None \<and> cpl_dropped pl = [] \<and> cpl_heads pl = [srv_ref 4]"
proof -
  let ?c = "body srv_checkpoint"
  have none: "newest_checkpoint srv_store (Ident 40) (Ident 50) = None" by (simp add: newest_checkpoint_def checkpoint_rows_def)
  have workspace: "store_workspace srv_store (Ident 40) \<noteq> None" by (simp add: store_workspace_def demo_store_def)
  have ops: "ops_between srv_store (Ident 40) (Ident 50) 0 4 = [(Ident 60, srv_ref 3), (Ident 61, srv_ref 4)]"
    by (simp add: ops_between_def srv_op_def at_most_def INTEGER_MAX_def row_ref_def srv_ref_def)
  have heads: "bt_values (raise_heads [(Ident 60, srv_ref 3), (Ident 61, srv_ref 4)] bt_empty) = [srv_ref 4]"
    by (simp add: raise_heads_def raise_head_def srv_ref_def bt_values_def word_le_nat_alt)
  have link: "check_checkpoint_link srv_store (Ident 40) ?c None = Inr ()"
    by (simp add: check_checkpoint_link_def skip_number_def)
  have bounds: "check_checkpoint_bounds ?c None 0 4 = Inr ()" by (simp add: check_checkpoint_bounds_def)
  have "\<exists>x. try_fold (replan_bucket epoch_crypto srv_store (Ident 40) (Ident 50) 0 4 {}) (empty_buckets epoch_crypto, 0)
      (sort (remdups [bucket_of (Ident 60), bucket_of (Ident 61)])) = Inr x"
    by (rule replan_from_nothing [OF srv_live_leaves(1)]) (simp add: bucket_of_less)
  then obtain bs n where fold: "try_fold (replan_bucket epoch_crypto srv_store (Ident 40) (Ident 50) 0 4 {}) (empty_buckets epoch_crypto, 0)
      (sort (remdups [bucket_of (Ident 60), bucket_of (Ident 61)])) = Inr (bs, n)"
    by (elim exE) (case_tac x, blast)
  have "replan epoch_crypto srv_store (demo_policy 1) (Ident 40) ?c None = Inr \<lparr>cpl_previous = None, cpl_buckets = bs,
      cpl_root = root_of_buckets epoch_crypto bs, cpl_live_objects = n, cpl_heads = [srv_ref 4], cpl_dropped = []\<rparr>"
    using fold heads by (simp add: replan_def ops floor_drops_def Let_def raise_heads_def)
  then show ?thesis
    using workspace srv_signer srv_rotation srv_policy_epoch link bounds
    by (auto simp: plan_checkpoint_def Let_def none srv_domain_row)
qed

definition srv_pl :: checkpoint_plan where
  "srv_pl = (case srv_plan of Inr pl \<Rightarrow> pl | Inl _ \<Rightarrow> undefined)"

lemma srv_plan_ok: "srv_plan = Inr srv_pl" "cpl_previous srv_pl = None" "cpl_dropped srv_pl = []" "cpl_heads srv_pl = [srv_ref 4]"
  using srv_planned by (auto simp: srv_pl_def)

lemma srv_newest: "newest_checkpoint srv_store (Ident 40) (Ident 50) = None"
  by (simp add: newest_checkpoint_def checkpoint_rows_def)

lemma srv_exact: "cpl_buckets srv_pl = leaves_buckets epoch_crypto srv_leaves" "cpl_live_objects srv_pl = 2"
  "cpl_root srv_pl = root_of_buckets epoch_crypto (leaves_buckets epoch_crypto srv_leaves)"
proof -
  have "plan_sound epoch_crypto srv_store (Ident 40) (Ident 50) srv_bundle srv_pl"
    using plan_is_sound [OF _ srv_plan_ok(1) _ srv_bundle_wf] run_inv [OF srv_run] by simp
  then have "plan_exact epoch_crypto srv_store (Ident 40) srv_bundle srv_pl"
    using srv_plan_ok(2) srv_newest by (simp add: plan_sound_def is_retry_def)
  then show "cpl_buckets srv_pl = leaves_buckets epoch_crypto srv_leaves" "cpl_live_objects srv_pl = 2"
    "cpl_root srv_pl = root_of_buckets epoch_crypto (leaves_buckets epoch_crypto srv_leaves)"
    using srv_plan_ok(3) by (simp_all add: plan_exact_def Let_def srv_live_leaves srv_leaves_def)
qed

abbreviation srv_commit :: "store_error + receipt \<times> store" where
  "srv_commit \<equiv> commit_checkpoint_locked epoch_crypto (demo_policy 1) demo_session (Ident 40) srv_bundle srv_pl False srv_store"

definition srv_receipt :: receipt where
  "srv_receipt = \<lparr>rc_record_digest = demo_digest 91, rc_domain = Ident 50, rc_seq = 5\<rparr>"

lemma srv_committed: "\<exists>st'. srv_commit = Inr (srv_receipt, st') \<and> st_workspaces st' = st_workspaces demo_store
    \<and> st_history_floors st' = bt_empty \<and> st_blob_listings st' = [] \<and> bt_contains (st_entries st') (Ident 40, Ident 50, 4)
    \<and> \<not> bt_contains (st_entries st') (Ident 40, Ident 50, 6)
    \<and> st_entries st' = bt_insert (Ident 40, Ident 50, 5) (ENTRY_CHECKPOINT, enc_checkpoint_bundle srv_bundle) (st_entries srv_store)
    \<and> (\<exists>c. bt_get (st_domains st') (Ident 40, Ident 50) = Some c \<and> dr_retention_floor c = 0 \<and> dr_head_seq c = 5
        \<and> dr_epoch_policy_revision c = 1)"
proof -
  have after: "srv_commit = write_checkpoint epoch_crypto (Ident 40) srv_bundle srv_pl (domain_columns.extend srv_columns (domain_row.fields 0)) srv_store"
    using srv_signer srv_rotation
    by (simp add: commit_checkpoint_locked_def commit_after_def Let_def srv_newest srv_plan_ok srv_domain_row srv_exact)
  have entry: "append_entry (Ident 40) (Ident 50) ENTRY_CHECKPOINT bs srv_store
      = Inr (5, srv_store\<lparr>st_domains := bt_insert (Ident 40, Ident 50) (srv_columns\<lparr>dr_head_seq := 5\<rparr>) (st_domains srv_store),
          st_entries := bt_insert (Ident 40, Ident 50, 5) (ENTRY_CHECKPOINT, bs) (st_entries srv_store)\<rparr>)" for bs
    by (simp add: append_entry_def srv_columns_def INTEGER_MAX_def domIff) (simp add: srv_store_def)
  show ?thesis
    unfolding after write_checkpoint_def Let_def srv_fields entry
    by (simp add: insert_checkpoint_def int_column_def INTEGER_MAX_def checkpoint_rows_def srv_plan_ok set_checkpoint_progress_def
        srv_receipt_def domIff) (simp add: srv_store_def demo_store_def srv_columns_def demo_columns_def)
qed

definition srv_after :: store where
  "srv_after = (case srv_commit of Inr (_, st') \<Rightarrow> st' | Inl _ \<Rightarrow> srv_store)"

lemma srv_after_facts: "srv_commit = Inr (srv_receipt, srv_after)" "st_workspaces srv_after = st_workspaces demo_store"
  "st_history_floors srv_after = bt_empty" "st_blob_listings srv_after = []" "bt_contains (st_entries srv_after) (Ident 40, Ident 50, 4)"
  "\<not> bt_contains (st_entries srv_after) (Ident 40, Ident 50, 6)"
  "st_entries srv_after = bt_insert (Ident 40, Ident 50, 5) (ENTRY_CHECKPOINT, enc_checkpoint_bundle srv_bundle) (st_entries srv_store)"
  "\<exists>c. bt_get (st_domains srv_after) (Ident 40, Ident 50) = Some c \<and> dr_retention_floor c = 0 \<and> dr_head_seq c = 5
      \<and> dr_epoch_policy_revision c = 1"
proof -
  obtain st' where st': "srv_commit = Inr (srv_receipt, st')" "st_workspaces st' = st_workspaces demo_store"
    "st_history_floors st' = bt_empty" "st_blob_listings st' = []" "bt_contains (st_entries st') (Ident 40, Ident 50, 4)"
    "\<not> bt_contains (st_entries st') (Ident 40, Ident 50, 6)"
    "st_entries st' = bt_insert (Ident 40, Ident 50, 5) (ENTRY_CHECKPOINT, enc_checkpoint_bundle srv_bundle) (st_entries srv_store)"
    "\<exists>c. bt_get (st_domains st') (Ident 40, Ident 50) = Some c \<and> dr_retention_floor c = 0 \<and> dr_head_seq c = 5
      \<and> dr_epoch_policy_revision c = 1"
    using srv_committed by blast
  have "srv_after = st'" by (simp add: srv_after_def st'(1))
  with st' show "srv_commit = Inr (srv_receipt, srv_after)" "st_workspaces srv_after = st_workspaces demo_store"
    "st_history_floors srv_after = bt_empty" "st_blob_listings srv_after = []" "bt_contains (st_entries srv_after) (Ident 40, Ident 50, 4)"
    "\<not> bt_contains (st_entries srv_after) (Ident 40, Ident 50, 6)"
  "st_entries srv_after = bt_insert (Ident 40, Ident 50, 5) (ENTRY_CHECKPOINT, enc_checkpoint_bundle srv_bundle) (st_entries srv_store)"
    "\<exists>c. bt_get (st_domains srv_after) (Ident 40, Ident 50) = Some c \<and> dr_retention_floor c = 0 \<and> dr_head_seq c = 5
      \<and> dr_epoch_policy_revision c = 1"
    by simp_all
qed

lemma srv_after_run: "checkpoint_run epoch_crypto (Ident 40) (Ident 50) srv_after {(srv_bundle, srv_pl)}"
proof -
  have "checkpoint_run epoch_crypto (Ident 40) (Ident 50) srv_store {(srv_bundle, srv_pl)}"
    by (rule run_plan [OF srv_run srv_plan_ok(1) _ srv_bundle_wf]) simp
  then show ?thesis by (rule run_commit [OF _ _ srv_after_facts(1)]) simp
qed

lemma srv_changed: "srv_after \<noteq> srv_store"
  using srv_after_facts(8) by (auto simp: srv_columns_def)

definition srv_row :: checkpoint_row where
  "srv_row = scp_row (last (checkpoint_rows srv_after (Ident 40) (Ident 50)))"

lemma srv_written:
  "checkpoint_rows srv_after (Ident 40) (Ident 50) = [\<lparr>scp_workspace = Ident 40, scp_domain = Ident 50, scp_row = srv_row,
     scp_buckets = Some (concat (map digest_bytes (leaves_buckets epoch_crypto srv_leaves)))\<rparr>]"
  "cpw_number srv_row = 1" "cpw_digest srv_row = demo_digest 91" "cpw_seq srv_row = 5" "cpw_covered_seq srv_row = 4"
  "cpw_floor srv_row = 0" "cpw_record srv_row = enc_signed enc_checkpoint srv_checkpoint"
  "st_operations srv_after = st_operations srv_store" "st_covers srv_after = []" "st_rids srv_after = st_rids srv_store"
  "cpw_heads srv_row = encode_list enc_ref [srv_ref 4]"
proof -
  obtain row where written: "write_checkpoint epoch_crypto (Ident 40) srv_bundle srv_pl row srv_store = Inr (srv_receipt, srv_after)"
    by (rule commit_writes [OF srv_after_facts(1) srv_changed])
  have none: "checkpoint_rows srv_store (Ident 40) (Ident 50) = []" by (simp add: checkpoint_rows_def)
  have same: "mark_dropped (Ident 40) {} r = r" for r by (simp add: mark_dropped_def)
  obtain h weight where "srv_receipt = \<lparr>rc_record_digest = demo_digest 91, rc_domain = Ident 50, rc_seq = h + 1\<rparr>"
    and rows: "checkpoint_rows srv_after (Ident 40) (Ident 50) = [\<lparr>scp_workspace = Ident 40, scp_domain = Ident 50,
        scp_row = \<lparr>cpw_number = 1, cpw_digest = demo_digest 91, cpw_seq = h + 1, cpw_covered_seq = 4, cpw_floor = 0,
          cpw_record = enc_signed enc_checkpoint srv_checkpoint,
          cpw_heads = encode_list enc_ref [srv_ref 4], cpw_log_weight = weight\<rparr>,
        scp_buckets = Some (concat (map digest_bytes (leaves_buckets epoch_crypto srv_leaves)))\<rparr>]"
    and tables: "st_operations srv_after = st_operations srv_store" "st_covers srv_after = []" "st_rids srv_after = st_rids srv_store"
    by (rule write_checkpointD [OF written]) (simp add: none srv_exact srv_plan_ok same)
  then show "checkpoint_rows srv_after (Ident 40) (Ident 50) = [\<lparr>scp_workspace = Ident 40, scp_domain = Ident 50, scp_row = srv_row,
     scp_buckets = Some (concat (map digest_bytes (leaves_buckets epoch_crypto srv_leaves)))\<rparr>]"
    "cpw_number srv_row = 1" "cpw_digest srv_row = demo_digest 91" "cpw_seq srv_row = 5" "cpw_covered_seq srv_row = 4"
    "cpw_floor srv_row = 0" "cpw_record srv_row = enc_signed enc_checkpoint srv_checkpoint"
    "cpw_heads srv_row = encode_list enc_ref [srv_ref 4]"
    by (simp_all add: srv_row_def srv_receipt_def)
  show "st_operations srv_after = st_operations srv_store" "st_covers srv_after = []" "st_rids srv_after = st_rids srv_store"
    by (rule tables)+
qed

lemma srv_after_newest: "newest_checkpoint srv_after (Ident 40) (Ident 50) = Some srv_row"
  by (simp add: newest_checkpoint_def srv_written(1))

lemma srv_after_leaves: "live_leaves srv_after (Ident 40) (Ident 50) at {} = live_leaves srv_store (Ident 40) (Ident 50) at {}"
  by (rule live_leaves_dropped) (simp_all add: srv_written(8-10) mark_dropped_def)

lemma srv_signed: "row_signed srv_row = Inr srv_checkpoint"
  using wf_bundle_record [OF srv_bundle_wf]
  by (simp add: row_signed_def srv_written(7) stored_def wire.from_bytes_enc [OF signed_checkpoint_wire])

lemma srv_authorized: "authorize_domain srv_after (demo_policy 1) demo_session (Ident 40) (Ident 50) = Inr ()"
  using demo_head1 demo_active1
  by (simp add: authorize_domain_def authorize_def session_reader_def store_workspace_def srv_after_facts(2) demo_store_def Let_def)

lemma srv_servable: "servable srv_after (demo_policy 1) demo_session (Ident 40) (Ident 50) 4 = Inr srv_row"
proof -
  obtain row where "store_domain srv_after (Ident 40) (Ident 50) = Some row" "dr_retention_floor row = 0"
    using srv_after_facts(8) by (auto simp: store_domain_def domain_columns.extend_def)
  then show ?thesis
    by (simp add: servable_def srv_authorized history_floor_def srv_after_facts(3) checkpoint_at_def srv_written at_most_def INTEGER_MAX_def)
qed

definition srv_manifest :: manifest where
  "srv_manifest = \<lparr>mf_leaves = bt_insert (Ident 60) [srv_ref 3] (bt_insert (Ident 61) [srv_ref 4] bt_empty)\<rparr>"

lemma srv_manifest_leaves: "bt_entries (mf_leaves srv_manifest) = srv_leaves"
  by (simp add: srv_manifest_def srv_leaves_def)

subsection \<open>Witnesses\<close>

theorem server_chain_genuine_witness:
  "stored_records srv_after (Ident 40) (Ident 50) = [Inr srv_checkpoint] \<and> genuine_chain epoch_crypto [srv_checkpoint]"
proof -
  have records: "stored_records srv_after (Ident 40) (Ident 50) = [Inr srv_checkpoint]"
    by (simp add: stored_records_def srv_written(1) srv_signed)
  then show ?thesis using server_chain_genuine [OF srv_after_run] by (auto simp: map_eq_Cons_conv)
qed

theorem newest_manifest_exact_witness:
  "\<exists>bs. checkpoint_buckets srv_after (Ident 40) (Ident 50) 1 = Some bs \<and> buckets_from bs = Inr (bucket_hashes epoch_crypto srv_manifest)
    \<and> verify_manifest epoch_crypto srv_manifest (cp_manifest_root (body srv_checkpoint)) 2 = Inr ()"
  using newest_manifest_exact [OF srv_after_run srv_after_newest, of srv_manifest] srv_signed
  by (auto simp: srv_written srv_after_leaves srv_live_leaves srv_manifest_leaves)

theorem chain_route_verifies_witness:
  "\<exists>walk. chain_route srv_after (demo_policy 1) demo_session (Ident 40) (Ident 50) (demo_digest 91) (demo_digest 91) = Inr walk
    \<and> verify_descent epoch_crypto walk (demo_digest 91) = Inr ()"
proof -
  have "checkpoint_named srv_after (Ident 40) (Ident 50) (demo_digest 91) = Some srv_row"
    by (simp add: checkpoint_named_def srv_written)
  then show ?thesis using chain_route_verifies [OF srv_after_run srv_authorized] by blast
qed

theorem push_keeps_live_witness: "keeps_live demo_store demo_after (Ident 40) (Ident 50)"
  by (rule push_keeps_live [OF demo_applied(1), of _ _ 0])
    (simp_all add: rows_sound_def demo_store_def head_seq_of_def demo_columns_def)

lemma srv_keeps: "keeps_live srv_store srv_store (Ident 40) (Ident 50)"
  by (rule keeps_live_same [OF srv_sound, where h = 4 and h' = 4]) (simp_all add: head_seq_of_def srv_columns_def INTEGER_MAX_def)

theorem commit_passes_client_witness:
  "check_checkpoint epoch_crypto srv_checkpoint [srv_ref 4] srv_manifest
     \<lparr>vw_last = None, vw_skip_of = \<lambda>_. None, vw_accepted = None\<rparr> (\<lambda>_. False) = Inr ()"
proof -
  have "client_follows srv_store (Ident 40) (Ident 50) (demo_policy 1)
      \<lparr>vw_last = None, vw_skip_of = \<lambda>_. None, vw_accepted = None\<rparr> (\<lambda>_. False)"
    by (simp add: client_follows_def srv_newest checkpoint_numbered_def checkpoint_rows_def)
  from commit_passes_client [OF srv_run srv_plan_ok(1) _ srv_bundle_wf srv_keeps srv_after_facts(1) srv_changed this, of srv_manifest]
  show ?thesis
    by (simp add: srv_plan_ok collision_def srv_after_leaves srv_live_leaves srv_manifest_leaves)
qed

theorem newest_checkpoint_bootstraps_witness:
  "\<exists>buckets leaves. manifest_buckets_route srv_after (demo_policy 1) demo_session (Ident 40) (Ident 50) 4 = Inr buckets
    \<and> verify_buckets epoch_crypto buckets (cp_manifest_root (body srv_checkpoint)) = Inr ()
    \<and> read_bucket 1 srv_after (demo_policy 1) demo_session (Ident 40) (Ident 50) 4 0 None = Some (map as_leaf (flat_leaves leaves))
    \<and> verify_bucket epoch_crypto 0 leaves (buckets ! 0) = Inr ()"
proof -
  have keys: "op_keys_distinct srv_after (Ident 40)" by (simp add: op_keys_distinct_def srv_written(8) srv_op_def)
  have leaves: "server_leaves srv_after (Ident 40) (Ident 50) 0 4 {} = in_bucket 0 srv_leaves"
    by (subst server_leaves_bucket) (simp_all add: BUCKETS_def srv_after_leaves srv_live_leaves)
  have "length (flat_leaves (in_bucket 0 srv_leaves)) \<le> 2" by (simp add: srv_leaves_def flat_leaves_def)
  then have "length (flat_leaves (server_leaves srv_after (Ident 40) (Ident 50) 0 (cpw_covered_seq srv_row) {})) < 1 * LEAVES_FIT"
    by (simp add: srv_written(5) leaves LEAVES_FIT_def MAX_BODY_def)
  then show ?thesis
    using newest_checkpoint_bootstraps [OF srv_after_run srv_after_newest _ keys _, of "demo_policy 1" demo_session 0 1]
      srv_servable srv_signed
    by (fastforce simp: srv_written(5) BUCKETS_def)
qed

subsection \<open>A retention floor at the first checkpoint\<close>

text \<open>
  The second checkpoint: the plan and the commit that drop a lone delete, and what the first checkpoint's bucket comes to.
\<close>


definition late_columns :: "domain_columns \<Rightarrow> domain_columns" where
  "late_columns c = c\<lparr>dr_retention_floor := 4, dr_checkpoint_due := 5\<rparr>"

definition late_store :: store where
  "late_store = srv_after\<lparr>st_domains := bt_adjust (Ident 40, Ident 50) late_columns (st_domains srv_after)\<rparr>"

lemma late_tables [simp]: "st_operations late_store = st_operations srv_store" "st_covers late_store = []"
  "st_rids late_store = st_rids srv_store" "st_checkpoints late_store = st_checkpoints srv_after"
  "st_workspaces late_store = st_workspaces demo_store" "st_blob_listings late_store = []"
  "st_entries late_store = bt_insert (Ident 40, Ident 50, 5) (ENTRY_CHECKPOINT, enc_checkpoint_bundle srv_bundle) (st_entries srv_store)"
  by (simp_all add: late_store_def srv_written(8-10) srv_after_facts)

lemma late_rows: "checkpoint_rows late_store (Ident 40) (Ident 50) = checkpoint_rows srv_after (Ident 40) (Ident 50)"
  by (simp add: checkpoint_rows_def)

lemma late_columns_facts:
  obtains c where "bt_get (st_domains late_store) (Ident 40, Ident 50) = Some c" and "dr_retention_floor c = 4"
    and "dr_checkpoint_due c = 5" and "dr_head_seq c = 5" and "dr_epoch_policy_revision c = 1"
  using srv_after_facts(8) by (force simp: late_store_def late_columns_def)

lemma late_newest: "newest_checkpoint late_store (Ident 40) (Ident 50) = Some srv_row"
  by (simp add: newest_checkpoint_def late_rows srv_written(1))

lemma late_live: "live_ops late_store (Ident 40) rid at = live_ops srv_store (Ident 40) rid at"
  by (simp add: live_ops_def)

lemma late_live_leaves: "live_leaves late_store (Ident 40) (Ident 50) at ex = live_leaves srv_store (Ident 40) (Ident 50) at ex"
  by (simp add: live_leaves_def domain_objects_def rids_from_def leaves_of_def live_refs_def late_live)

lemma late_run: "checkpoint_run epoch_crypto (Ident 40) (Ident 50) late_store {(srv_bundle, srv_pl)}"
proof (rule run_other [OF srv_after_run])
  have head: "head_seq_of st (Ident 40) (Ident 50) = Some 5" if "st = srv_after \<or> st = late_store" for st
    using that late_columns_facts srv_after_facts(8) by (auto simp: head_seq_of_def)
  have "rows_sound srv_after (Ident 40) (Ident 50) base" for base
    using srv_sound [of base] by (simp add: rows_sound_def srv_written(8-10) rid_domain_def)
  then show "keeps_live srv_after late_store (Ident 40) (Ident 50)"
    by (rule keeps_live_same [OF _ _ _ _ _ head head]) (simp_all add: srv_written(8-10) INTEGER_MAX_def)
qed

subsection \<open>The second checkpoint\<close>

definition late_checkpoint :: "checkpoint signed" where
  "late_checkpoint = \<lparr>body = \<lparr>cp_workspace = Ident 40, cp_domain = Ident 50, cp_previous = demo_digest 91, cp_number = 2,
       cp_skip = ZERO_digest, cp_covered_seq = 5, cp_floor = 4, cp_policy_revision = 1, cp_policy_head = demo_digest 21,
       cp_live_objects = 1, cp_manifest_root = root_of_buckets epoch_crypto (leaves_buckets epoch_crypto [(Ident 60, [srv_ref 3])]),
       cp_heads_digest = heads_digest epoch_crypto [srv_ref 4], cp_epoch = 1, cp_epoch_record = demo_digest 31,
       cp_signer = Ident 1\<rparr>, sig = Signature 92\<rparr>"

definition late_bundle :: checkpoint_bundle where
  "late_bundle = \<lparr>cb_checkpoint = late_checkpoint, cb_heads = [srv_ref 4]\<rparr>"

lemma late_fields [simp]: "cb_checkpoint late_bundle = late_checkpoint" "cb_heads late_bundle = [srv_ref 4]"
  "cp_domain (body late_checkpoint) = Ident 50" "cp_previous (body late_checkpoint) = demo_digest 91" "cp_number (body late_checkpoint) = 2"
  "cp_skip (body late_checkpoint) = ZERO_digest" "cp_covered_seq (body late_checkpoint) = 5" "cp_floor (body late_checkpoint) = 4"
  "cp_policy_revision (body late_checkpoint) = 1" "cp_policy_head (body late_checkpoint) = demo_digest 21"
  "cp_live_objects (body late_checkpoint) = 1" "cp_heads_digest (body late_checkpoint) = heads_digest epoch_crypto [srv_ref 4]"
  "cp_manifest_root (body late_checkpoint) = root_of_buckets epoch_crypto (leaves_buckets epoch_crypto [(Ident 60, [srv_ref 3])])"
  "cp_epoch (body late_checkpoint) = 1" "cp_epoch_record (body late_checkpoint) = demo_digest 31" "cp_signer (body late_checkpoint) = Ident 1"
  by (simp_all add: late_bundle_def late_checkpoint_def)

lemma late_digest [simp]: "signed_checkpoint_digest epoch_crypto late_checkpoint = demo_digest 92"
proof -
  have "signed_checkpoint_digest demo_crypto late_checkpoint = demo_digest 92"
    unfolding late_checkpoint_def using demo_sig_digest [of 92] by simp
  then show ?thesis by (simp add: signed_digest_def hash_def epoch_crypto_def)
qed

lemma late_bundle_wf: "wf_checkpoint_bundle late_bundle"
proof -
  have "length (enc_signed enc_checkpoint late_checkpoint) \<le> 480" by (rule signed_checkpoint_length)
  then have "fits_u32 (length (enc_signed enc_checkpoint late_checkpoint))" by (simp add: fits_u32_def)
  moreover have "wf_signed wf_checkpoint late_checkpoint"
    by (simp add: wf_signed_def wf_checkpoint_def late_checkpoint_def wf_ident_def ident_is_zero_def)
  moreover have "wf_ref_heads [srv_ref 4]" using srv_bundle_wf by (simp add: wf_checkpoint_bundle_def)
  ultimately show ?thesis by (simp add: wf_checkpoint_bundle_def wf_nested_def)
qed

lemma late_signer: "check_checkpoint_signer (demo_policy 1) demo_session (body late_checkpoint) = Inr ()"
  using demo_head1 demo_active1 by (simp add: check_checkpoint_signer_def Let_def session_reader_def)

lemma late_policy_epoch: "check_policy_and_epoch epoch_crypto late_store (Ident 40) (body late_checkpoint) = Inr ()"
proof -
  have "newest_entry late_store (Ident 40) (Ident 50) ENTRY_POLICY 5
    = Some \<lparr>re_seq = 1, re_type = ENTRY_POLICY, re_record = enc_policy_entry \<lparr>pe_revision = 1, pe_head = demo_digest 21\<rparr>\<rparr>"
    "newest_entry late_store (Ident 40) (Ident 50) ENTRY_EPOCH 5
    = Some \<lparr>re_seq = 2, re_type = ENTRY_EPOCH, re_record = enc_signed enc_epoch (demo_epoch 1)\<rparr>"
    by (simp_all add: newest_entry_def) (simp_all add: srv_store_def ENTRY_POLICY_def ENTRY_EPOCH_def ENTRY_OPERATION_def
        ENTRY_CHECKPOINT_def at_most_def INTEGER_MAX_def)
  then show ?thesis
    using srv_epoch_wf
    by (simp add: check_policy_and_epoch_def decode_entry_def stored_def policy_entry.from_bytes_enc
        wire.from_bytes_enc [OF signed_epoch_wire])
qed

lemma late_drops: "floor_drops late_store (Ident 40) (Ident 50) 0 4 5 = [\<lparr>del_rid = Ident 61, del_op = srv_ref 4\<rparr>]"
  by (simp add: floor_drops_def deletes_between_def srv_op_def at_most_def INTEGER_MAX_def late_live srv_live row_op_def srv_ref_def
      delete_key_def)

lemma srv_row_heads: "row_heads srv_row = Inr [srv_ref 4]"
proof -
  have "cpw_heads srv_row = encode_list enc_ref [srv_ref 4]" by (rule srv_written(11))
  moreover have "wf_ref_heads [srv_ref 4]" using srv_bundle_wf by (simp add: wf_checkpoint_bundle_def)
  ultimately show ?thesis by (simp add: row_heads_def stored_def ref_heads.from_bytes_enc)
qed

lemma late_bucket_count: "length (server_leaves late_store (Ident 40) (Ident 50) i at ex) \<le> 2" if "unat i < BUCKETS"
proof -
  have "length (live_leaves srv_store (Ident 40) (Ident 50) at ex) \<le> length (domain_objects srv_store (Ident 40) (Ident 50))"
    using length_filter_le by (fastforce simp: live_leaves_def leaves_of_def intro: order_trans)
  then show ?thesis
    unfolding server_leaves_bucket [OF that] late_live_leaves srv_objects by (auto intro: order_trans [OF length_filter_le])
qed

abbreviation late_delete :: delete_row where
  "late_delete \<equiv> \<lparr>del_rid = Ident 61, del_op = srv_ref 4\<rparr>"

abbreviation late_plan :: "store_error + checkpoint_plan" where
  "late_plan \<equiv> plan_checkpoint epoch_crypto late_store (demo_policy 1) demo_session (Ident 40) late_bundle"

lemma late_domain: "store_domain late_store (Ident 40) (Ident 50) \<noteq> None"
  "store_domain late_store (Ident 40) (Ident 50) = Some row \<Longrightarrow>
    dr_retention_floor row = 4 \<and> dr_checkpoint_due row = 5 \<and> dr_head_seq row = 5 \<and> dr_epoch_policy_revision row = 1"
  by (rule late_columns_facts, auto simp: store_domain_def domain_columns.extend_def)+

lemma few_objects: "n \<le> 2 \<Longrightarrow> m \<le> 2 \<Longrightarrow> (of_nat n :: u64) \<le> 2 + of_nat m" for n m :: nat
proof -
  assume small: "n \<le> 2" "m \<le> 2"
  then have "unat (2 + of_nat m :: u64) = 2 + m" "unat (of_nat n :: u64) = n"
    by (simp_all add: unat_word_ariths unat_of_nat)
  then show ?thesis using small by (simp add: word_le_nat_alt)
qed

lemma late_replan:
  "\<exists>pl. replan epoch_crypto late_store (demo_policy 1) (Ident 40) (body late_checkpoint) (Some srv_row) = Inr pl
    \<and> cpl_previous pl = Some srv_row \<and> cpl_dropped pl = [late_delete] \<and> cpl_heads pl = [srv_ref 4]"
proof -
  define bs where "bs = leaves_buckets epoch_crypto srv_leaves"
  have buckets: "checkpoint_buckets late_store (Ident 40) (Ident 50) 1 = Some (concat (map digest_bytes bs))"
    using srv_written(2) by (simp add: checkpoint_buckets_def late_rows srv_written(1) at_most_def INTEGER_MAX_def bs_def)
  have read: "buckets_from (concat (map digest_bytes bs)) = Inr bs" by (rule buckets_of_bytes) (simp add: bs_def)
  have ops: "ops_between late_store (Ident 40) (Ident 50) 4 5 = []"
    by (simp add: ops_between_def srv_op_def at_most_def INTEGER_MAX_def)
  have kept: "\<not> card_gone (demo_policy 1) (Ident 1) 1"
    using demo_head1 by (simp add: card_gone_def demo_snapshot_def)
  have heads: "bt_values (bt_filter (\<lambda>device _. \<not> card_gone (demo_policy 1) device 1)
      (bt_collect [(ref_device (srv_ref 4), srv_ref 4)])) = [srv_ref 4]"
    by (simp add: bt_values_def bt_collect_def kept srv_ref_def)
  let ?n = "\<lambda>at ex. length (server_leaves late_store (Ident 40) (Ident 50) (bucket_of (Ident 61)) at ex)"
  have "(of_nat (?n 4 {}) :: u64) \<le> 2 + of_nat (?n 5 {delete_key late_delete})"
    by (rule few_objects) (rule late_bucket_count [OF bucket_of_less])+
  then show ?thesis
    by (simp add: replan_def srv_signed srv_row_heads srv_written buckets read ops late_drops heads Let_def replan_bucket_def)
qed


lemma late_apart: "demo_digest 91 \<noteq> demo_digest 92" "demo_digest 92 \<noteq> demo_digest 91"
  by (simp_all add: demo_digest_def push_bit_eq_mult)

lemma late_planned: "\<exists>pl. late_plan = Inr pl \<and> cpl_previous pl = Some srv_row \<and> cpl_dropped pl = [late_delete] \<and> cpl_heads pl = [srv_ref 4]"
proof -
  let ?c = "body late_checkpoint"
  obtain row where row: "store_domain late_store (Ident 40) (Ident 50) = Some row" using late_domain(1) by blast
  have workspace: "store_workspace late_store (Ident 40) \<noteq> None" by (simp add: store_workspace_def demo_store_def)
  have link: "check_checkpoint_link late_store (Ident 40) ?c (Some srv_row) = Inr ()"
    by (simp add: check_checkpoint_link_def skip_number_def srv_written)
  have bounds: "check_checkpoint_bounds ?c (Some srv_row) 4 5 = Inr ()" by (simp add: check_checkpoint_bounds_def srv_written)
  show ?thesis
    using workspace late_replan late_signer srv_rotation late_policy_epoch link bounds late_domain(2) [OF row]
    by (auto simp: plan_checkpoint_def Let_def late_newest row srv_written(3) late_apart)
qed

definition late_pl :: checkpoint_plan where
  "late_pl = (case late_plan of Inr pl \<Rightarrow> pl | Inl _ \<Rightarrow> undefined)"

lemma late_plan_ok: "late_plan = Inr late_pl" "cpl_previous late_pl = Some srv_row" "cpl_dropped late_pl = [late_delete]"
  "cpl_heads late_pl = [srv_ref 4]"
  using late_planned by (auto simp: late_pl_def)

lemma late_left: "live_leaves late_store (Ident 40) (Ident 50) 5 (delete_key ` set [late_delete]) = [(Ident 60, [srv_ref 3])]"
  unfolding late_live_leaves
  by (simp add: live_leaves_def srv_objects leaves_of_def live_refs_def srv_live srv_op_def at_most_def INTEGER_MAX_def
      row_op_def as_ref_def srv_ref_def delete_key_def)

lemma late_exact: "cpl_live_objects late_pl = 1"
  "cpl_root late_pl = root_of_buckets epoch_crypto (leaves_buckets epoch_crypto [(Ident 60, [srv_ref 3])])"
proof -
  have "plan_sound epoch_crypto late_store (Ident 40) (Ident 50) late_bundle late_pl"
    using plan_is_sound [OF _ late_plan_ok(1) _ late_bundle_wf] run_inv [OF late_run] by simp
  then have "plan_exact epoch_crypto late_store (Ident 40) late_bundle late_pl"
    using late_plan_ok(2) by (simp add: plan_sound_def is_retry_def srv_written(3) late_newest late_apart)
  then show "cpl_live_objects late_pl = 1"
    "cpl_root late_pl = root_of_buckets epoch_crypto (leaves_buckets epoch_crypto [(Ident 60, [srv_ref 3])])"
    using late_left by (simp_all add: plan_exact_def Let_def late_plan_ok(3))
qed


abbreviation late_commit :: "store_error + receipt \<times> store" where
  "late_commit \<equiv> commit_checkpoint_locked epoch_crypto (demo_policy 1) demo_session (Ident 40) late_bundle late_pl False late_store"

lemma late_committed: "\<exists>st'. late_commit = Inr (\<lparr>rc_record_digest = demo_digest 92, rc_domain = Ident 50, rc_seq = 6\<rparr>, st')
    \<and> (\<exists>c. bt_get (st_domains st') (Ident 40, Ident 50) = Some c \<and> dr_head_seq c = 6)"
proof -
  obtain c where c: "bt_get (st_domains late_store) (Ident 40, Ident 50) = Some c" "dr_head_seq c = 5"
    by (rule late_columns_facts) blast
  obtain row where row: "store_domain late_store (Ident 40) (Ident 50) = Some row" using late_domain(1) by blast
  have after: "late_commit = write_checkpoint epoch_crypto (Ident 40) late_bundle late_pl row late_store"
    using late_signer srv_rotation late_domain(2) [OF row]
    by (simp add: commit_checkpoint_locked_def commit_after_def Let_def late_newest late_plan_ok row late_exact srv_written late_apart)
  have entry: "append_entry (Ident 40) (Ident 50) ENTRY_CHECKPOINT bs late_store
      = Inr (6, late_store\<lparr>st_domains := bt_insert (Ident 40, Ident 50) (c\<lparr>dr_head_seq := 6\<rparr>) (st_domains late_store),
          st_entries := bt_insert (Ident 40, Ident 50, 6) (ENTRY_CHECKPOINT, bs) (st_entries late_store)\<rparr>)" for bs
    using c by (simp add: append_entry_def INTEGER_MAX_def domIff) (simp add: srv_store_def)
  have rows: "checkpoint_rows st (Ident 40) (Ident 50) = checkpoint_rows srv_after (Ident 40) (Ident 50)"
    if "st_checkpoints st = st_checkpoints srv_after" for st
    using that by (simp add: checkpoint_rows_def)
  have lone: "bt_get (st_entries srv_store) (Ident 40, Ident 50, 4) = Some (ENTRY_OPERATION, [])" by (simp add: srv_store_def)
  show ?thesis
    unfolding after write_checkpoint_def Let_def late_fields entry
    by (simp add: insert_checkpoint_def int_column_def INTEGER_MAX_def rows srv_written late_plan_ok set_checkpoint_progress_def
        set_pruned_floor_def drop_step_def note_dropped_def leave_live_def drop_delete_def entry_length_def listed_blobs_def
        lone srv_ref_def add_usage_def late_apart ok_or_def signed_i64_def)
qed


lemma late_rid: "rid_domain late_store (Ident 40) (Ident 61) = Some (Ident 50)"
  by (simp add: rid_domain_def srv_store_def)

lemma late_refs: "live_refs late_store (Ident 40) (Ident 61) 4 {} = [srv_ref 4]"
  by (simp add: live_refs_def late_live srv_live srv_op_def at_most_def INTEGER_MAX_def row_op_def as_ref_def srv_ref_def)

theorem dropped_delete_breaks_older_checkpoint_witness:
  "\<exists>r st' bs buckets. late_commit = Inr (r, st') \<and> checkpoint_buckets st' (Ident 40) (Ident 50) 1 = Some bs
    \<and> buckets_from bs = Inr buckets
    \<and> (verify_bucket epoch_crypto (bucket_of (Ident 61)) (server_leaves st' (Ident 40) (Ident 50) (bucket_of (Ident 61)) 4 {})
          (buckets ! unat (bucket_of (Ident 61))) \<noteq> Inr ()
      \<or> inputs_collide epoch_crypto
          (bucket_inputs epoch_crypto (unat (bucket_of (Ident 61))) (server_leaves st' (Ident 40) (Ident 50) (bucket_of (Ident 61)) 4 {}))
          (bucket_inputs epoch_crypto (unat (bucket_of (Ident 61))) (server_leaves late_store (Ident 40) (Ident 50) (bucket_of (Ident 61)) 4 {})))"
proof -
  obtain r st' c where commit: "late_commit = Inr (r, st')" "bt_get (st_domains st') (Ident 40, Ident 50) = Some c" "dr_head_seq c = 6"
    using late_committed by blast
  have changed: "st' \<noteq> late_store" using commit(2,3) by (rule_tac late_columns_facts) auto
  from dropped_delete_breaks_older_checkpoint [OF late_run late_newest _ commit(1) changed, of late_delete "srv_ref 4"]
  show ?thesis using commit(1) by (simp add: late_plan_ok late_rid late_refs srv_written)
qed

end
