(* ===== verification/Retention.thy ===== *)
theory Retention
  imports Server_Checkpoints
begin

text \<open>
  Retention on the server (\<^verbatim>\<open>sync-store/src/retention.rs\<close>, \<section>19): how a domain's retention floor rises, and
  the batches that delete what lies below it. The queries are those of
  \<^verbatim>\<open>sync-store-sqlite/src/txn.rs\<close>.
\<close>

subsection \<open>Queries\<close>

definition PRUNE_BATCH :: nat where "PRUNE_BATCH = 512"

record prune_scan =
  psc_after :: u64
  psc_floor :: u64
  psc_delete_floor :: u64
  psc_keep_epoch :: u64
  psc_keep_policy :: u64

record pruned_entry =
  pre_seq :: u64
  pre_type :: u8
  pre_length :: u64
  pre_rid :: "ident option"

definition checkpoint_at_weight :: "store \<Rightarrow> ident \<Rightarrow> ident \<Rightarrow> u64 \<Rightarrow> u64 option" where
  "checkpoint_at_weight st w d log_weight =
     (let rows = sort (map (cpw_covered_seq \<circ> scp_row)
            (filter (\<lambda>c. cpw_log_weight (scp_row c) \<le> at_most log_weight) (checkpoint_rows st w d)))
      in if rows = [] then None else Some (last rows))"

definition checkpoint_above :: "store \<Rightarrow> ident \<Rightarrow> ident \<Rightarrow> u64 \<Rightarrow> u64 option" where
  "checkpoint_above st w d covered_seq =
     (case sort (filter (\<lambda>s. s > at_most covered_seq) (map (cpw_covered_seq \<circ> scp_row) (checkpoint_rows st w d))) of
        [] \<Rightarrow> None | s # _ \<Rightarrow> Some s)"

definition servable_floor :: "store \<Rightarrow> ident \<Rightarrow> ident \<Rightarrow> u64 \<Rightarrow> u64 option" where
  "servable_floor st w d covered_seq =
     (case sort_key (cpw_covered_seq \<circ> scp_row)
         (filter (\<lambda>c. cpw_covered_seq (scp_row c) \<ge> at_most covered_seq) (checkpoint_rows st w d)) of
        [] \<Rightarrow> None | c # _ \<Rightarrow> Some (cpw_floor (scp_row c)))"

text \<open>The row that an entry joins, and whether a cover at or below the floor covers it.\<close>

definition op_at :: "store \<Rightarrow> ident \<Rightarrow> ident \<Rightarrow> u64 \<Rightarrow> operation_row option" where
  "op_at st w d s = find (\<lambda>r. or_workspace r = w \<and> or_domain r = d \<and> or_seq r = s) (st_operations st)"

definition covered_through :: "store \<Rightarrow> operation_row \<Rightarrow> u64 \<Rightarrow> bool" where
  "covered_through st r floor_seq \<longleftrightarrow> list_ex (\<lambda>c. cvr_workspace c = or_workspace r \<and> cvr_rid c = or_rid r
     \<and> cvr_device c = or_device r \<and> cvr_counter c \<ge> or_counter r \<and> cvr_by_seq c \<le> floor_seq) (st_covers st)"

definition prunable :: "store \<Rightarrow> ident \<Rightarrow> ident \<Rightarrow> prune_scan \<Rightarrow> u64 \<Rightarrow> u8 \<Rightarrow> bool" where
  "prunable st w d scan s t \<longleftrightarrow> s > at_most (psc_after scan) \<and> s \<le> at_most (psc_floor scan)
   \<and> (t = ENTRY_CHECKPOINT \<and> s < at_most (psc_floor scan)
    \<or> t = ENTRY_EPOCH \<and> s < at_most (psc_keep_epoch scan)
    \<or> t = ENTRY_POLICY \<and> s < at_most (psc_keep_policy scan)
    \<or> t = ENTRY_OPERATION \<and> (case op_at st w d s of None \<Rightarrow> False
        | Some r \<Rightarrow> or_dropped r \<and> s \<le> at_most (psc_delete_floor scan)
            \<or> covered_through st r (at_most (psc_floor scan))))"

definition prunable_entries :: "store \<Rightarrow> ident \<Rightarrow> ident \<Rightarrow> prune_scan \<Rightarrow> nat \<Rightarrow> pruned_entry list" where
  "prunable_entries st w d scan limit = take limit (map (\<lambda>((_, _, s), (t, bs)).
       \<lparr>pre_seq = s, pre_type = t, pre_length = of_nat (length bs), pre_rid = map_option or_rid (op_at st w d s)\<rparr>)
     (filter (\<lambda>((w', d', s), (t, _)). w' = w \<and> d' = d \<and> prunable st w d scan s t) (bt_entries (st_entries st))))"

definition rid_in_use :: "store \<Rightarrow> ident \<Rightarrow> ident \<Rightarrow> bool" where
  "rid_in_use st w rid \<longleftrightarrow> list_ex (\<lambda>r. or_workspace r = w \<and> or_rid r = rid) (st_operations st)"

subsection \<open>Updates\<close>

definition set_retention_floor :: "ident \<Rightarrow> ident \<Rightarrow> u64 \<Rightarrow> store \<Rightarrow> store_error + store" where
  "set_retention_floor w d floor_seq st = and_then (int_column floor_seq) (\<lambda>f.
     Inr (st\<lparr>st_domains := bt_adjust (w, d) (\<lambda>c. c\<lparr>dr_retention_floor := f\<rparr>) (st_domains st)\<rparr>))"

definition delete_log_entry :: "ident \<Rightarrow> ident \<Rightarrow> u64 \<Rightarrow> u8 \<Rightarrow> store \<Rightarrow> store_error + store" where
  "delete_log_entry w d seqno record_type st = and_then (int_column seqno) (\<lambda>s.
     let st = (if record_type = 1
           then st\<lparr>st_covers := filter (\<lambda>c. \<not> (cvr_workspace c = w \<and> cvr_domain c = d \<and> cvr_by_seq c = s)) (st_covers st),
             st_operations := filter (\<lambda>r. \<not> (or_workspace r = w \<and> or_domain r = d \<and> or_seq r = s)) (st_operations st)\<rparr>
           else st)
     in Inr (st\<lparr>st_entries := bt_remove (w, d, s) (st_entries st)\<rparr>))"

definition delete_rid :: "ident \<Rightarrow> ident \<Rightarrow> store \<Rightarrow> store" where
  "delete_rid w rid st = st\<lparr>st_rids := bt_remove (w, rid) (st_rids st)\<rparr>"

definition delete_blob_listing :: "ident \<Rightarrow> ident \<Rightarrow> ident \<Rightarrow> u64 \<Rightarrow> store \<Rightarrow> store_error + store" where
  "delete_blob_listing w blob d seqno st = and_then (int_column seqno) (\<lambda>s.
     Inr (st\<lparr>st_blob_listings := filter (\<lambda>x. x \<noteq> (w, blob, d, s)) (st_blob_listings st)\<rparr>))"

text \<open>How many rows it cleared comes with the new tables.\<close>

definition clear_checkpoint_data ::
  "ident \<Rightarrow> ident \<Rightarrow> u64 \<Rightarrow> byte list \<Rightarrow> nat \<Rightarrow> store \<Rightarrow> nat \<times> store" where
  "clear_checkpoint_data w d floor_seq empty_heads limit st =
     (let numbers = take limit (sort (map (cpw_number \<circ> scp_row) (filter (\<lambda>c.
            cpw_covered_seq (scp_row c) < at_most floor_seq \<and> scp_buckets c \<noteq> None) (checkpoint_rows st w d))));
          cleared = (\<lambda>c. scp_workspace c = w \<and> scp_domain c = d \<and> cpw_number (scp_row c) \<in> set numbers)
      in (length (filter cleared (st_checkpoints st)),
          st\<lparr>st_checkpoints := map (\<lambda>c. if cleared c
            then c\<lparr>scp_buckets := None, scp_row := (scp_row c)\<lparr>cpw_heads := empty_heads\<rparr>\<rparr> else c) (st_checkpoints st)\<rparr>))"

subsection \<open>The floor\<close>

definition rule_floor :: "store \<Rightarrow> u64 \<Rightarrow> ident \<Rightarrow> ident \<Rightarrow> domain_row \<Rightarrow> u64" where
  "rule_floor st retained_bytes w d row =
     (let qualifies = (if dr_log_weight row < retained_bytes then None
            else checkpoint_at_weight st w d (dr_log_weight row - retained_bytes))
      in max (case qualifies of None \<Rightarrow> 0 | Some s \<Rightarrow> s) (dr_retention_floor row))"

definition persist_floor ::
  "u64 \<Rightarrow> ident \<Rightarrow> ident \<Rightarrow> u64 option \<Rightarrow> store \<Rightarrow> store_error + (u64 \<times> bool) \<times> store" where
  "persist_floor retained w d forced st =
     (case store_domain st w d of
        None \<Rightarrow> Inr ((0, False), st)
      | Some row \<Rightarrow>
          if dr_deleted row then Inr ((dr_retention_floor row, False), st)
          else let floor_seq = min (max (rule_floor st retained w d row) (case forced of None \<Rightarrow> 0 | Some f \<Rightarrow> f)) (dr_checkpoint_seq row)
            in if floor_seq > dr_retention_floor row
               then and_then (set_retention_floor w d floor_seq st) (\<lambda>st. Inr ((floor_seq, True), st))
               else Inr ((dr_retention_floor row, False), st))"

definition raise_floor :: "u64 \<Rightarrow> ident \<Rightarrow> ident \<Rightarrow> store \<Rightarrow> store_error + u64 \<times> store" where
  "raise_floor retained w d st = and_then (persist_floor retained w d None st) (\<lambda>((f, _), st). Inr (f, st))"

subsection \<open>One batch\<close>

definition newest_entry_seq :: "store \<Rightarrow> ident \<Rightarrow> ident \<Rightarrow> u8 \<Rightarrow> u64 \<Rightarrow> u64" where
  "newest_entry_seq st w d record_type floor_seq =
     (case newest_entry st w d record_type floor_seq of None \<Rightarrow> 0 | Some e \<Rightarrow> re_seq e)"

definition scan_of :: "store \<Rightarrow> ident \<Rightarrow> ident \<Rightarrow> u64 \<Rightarrow> u64 \<Rightarrow> prune_scan" where
  "scan_of st w d after floor_seq = \<lparr>psc_after = after, psc_floor = floor_seq,
     psc_delete_floor = (case servable_floor st w d floor_seq of None \<Rightarrow> 0 | Some lowest \<Rightarrow> min lowest floor_seq),
     psc_keep_epoch = newest_entry_seq st w d ENTRY_EPOCH floor_seq,
     psc_keep_policy = newest_entry_seq st w d ENTRY_POLICY floor_seq\<rparr>"

text \<open>A blob that no operation lists any more counts as an upload until the collector takes it.\<close>

definition unlist_blob ::
  "ident \<Rightarrow> ident \<Rightarrow> u64 \<Rightarrow> u64 \<Rightarrow> (int \<times> int) \<times> store \<Rightarrow> ident \<Rightarrow> store_error + (int \<times> int) \<times> store" where
  "unlist_blob w d seqno now = (\<lambda>((usage, history), st) blob.
     and_then (delete_blob_listing w blob d seqno st) (\<lambda>st.
     if blob_listed st w blob then Inr ((usage, history), st)
     else and_then (store_blob st w blob) (\<lambda>row. case row of
         None \<Rightarrow> Inr ((usage, history), st)
       | Some row \<Rightarrow> Inr ((usage + signed_i64 (br_length row), history - signed_i64 (br_length row)),
           set_blob_delete_after w blob (Some now) st))))"

definition prune_entry ::
  "ident \<Rightarrow> ident \<Rightarrow> u64 \<Rightarrow> (int \<times> int) \<times> store \<Rightarrow> pruned_entry \<Rightarrow> store_error + (int \<times> int) \<times> store" where
  "prune_entry w d now = (\<lambda>((usage, history), st) e.
     and_then (if pre_type e = ENTRY_OPERATION
         then try_fold (unlist_blob w d (pre_seq e) now) ((usage, history - signed_i64 (pre_length e)), st)
           (listed_blobs st w d (pre_seq e))
         else if pre_type e = ENTRY_EPOCH \<or> pre_type e = ENTRY_POLICY
         then Inr ((usage, history - signed_i64 (pre_length e)), st)
         else Inr ((usage, history), st)) (\<lambda>(counters, st).
     and_then (delete_log_entry w d (pre_seq e) (pre_type e) st) (\<lambda>st.
     Inr (counters, case pre_rid e of None \<Rightarrow> st
       | Some rid \<Rightarrow> if rid_in_use st w rid then st else delete_rid w rid st))))"

definition prune_rest ::
  "ident \<Rightarrow> ident \<Rightarrow> u64 \<Rightarrow> u64 \<Rightarrow> nat \<Rightarrow> pruned_entry list \<Rightarrow> store \<Rightarrow> store_error + (u64 \<times> u64 option) \<times> store" where
  "prune_rest w d after floor_seq batch entries st =
     (let count = of_nat (length entries); final = (if entries = [] then None else Some (pre_seq (last entries)))
      in if length entries = batch then Inr ((count, final), st)
         else let (cleared, st) = clear_checkpoint_data w d floor_seq (encode_list enc_ref []) PRUNE_BATCH st
           in if cleared = PRUNE_BATCH
              then Inr ((count, Some (case final of None \<Rightarrow> after | Some s \<Rightarrow> s)), st)
              else and_then (set_pruned_floor w d floor_seq st) (\<lambda>st. Inr ((count, None), st)))"

definition prune_batch ::
  "ident \<Rightarrow> ident \<Rightarrow> u64 \<Rightarrow> u64 \<Rightarrow> nat \<Rightarrow> store \<Rightarrow> store_error + (u64 \<times> u64 option) \<times> store" where
  "prune_batch w d after now batch st =
     (case store_domain st w d of
        None \<Rightarrow> Inr ((0, None), st)
      | Some row \<Rightarrow>
          let floor_seq = dr_retention_floor row;
              entries = prunable_entries st w d (scan_of st w d after floor_seq) batch
          in and_then (try_fold (prune_entry w d now) ((0, 0), st) entries) (\<lambda>((usage, history), st).
             prune_rest w d after floor_seq batch entries (add_usage w d usage history st)))"

end
