(* ===== verification/Retention_Laws.thy ===== *)
theory Retention_Laws
  imports Retention Server_Growth
begin

text \<open>
  What a batch of pruning deletes, and that no live set at or above the retention floor changes: an
  operation goes only when it is dropped or covered at or below the floor, and the covers that go with
  it cover nothing that stays, as long as no batch before left something prunable behind.
\<close>

subsection \<open>What a batch deletes\<close>

text \<open>The operations at the sequences \<open>S\<close>, with the covers they wrote, and the entries at \<open>E\<close>.\<close>

definition deleted_at :: "ident \<Rightarrow> ident \<Rightarrow> u64 set \<Rightarrow> u64 set \<Rightarrow> store \<Rightarrow> store \<Rightarrow> bool" where
  "deleted_at w d S E st st' \<longleftrightarrow>
     st_operations st' = filter (\<lambda>r. \<not> (or_workspace r = w \<and> or_domain r = d \<and> or_seq r \<in> S)) (st_operations st)
   \<and> st_covers st' = filter (\<lambda>c. \<not> (cvr_workspace c = w \<and> cvr_domain c = d \<and> cvr_by_seq c \<in> S)) (st_covers st)
   \<and> bt_get (st_entries st') = (\<lambda>k. if k \<in> (\<lambda>s. (w, d, s)) ` E then None else bt_get (st_entries st) k)
   \<and> st_chain_heads st' = st_chain_heads st \<and> st_checkpoints st' = st_checkpoints st \<and> head_seq_of st' = head_seq_of st
   \<and> (\<forall>w' rid. rid_domain st' w' rid = rid_domain st w' rid
        \<or> w' = w \<and> rid_domain st' w' rid = None \<and> \<not> rid_in_use st' w' rid)"

lemma deleted_none: "same_tables st st' \<Longrightarrow> deleted_at w d {} {} st st'"
  by (auto simp: deleted_at_def same_tables_def core_tables_def rid_domain_def)

lemma deleted_trans:
  assumes "deleted_at w d S E st st1" and "deleted_at w d S' E' st1 st2"
  shows "deleted_at w d (S \<union> S') (E \<union> E') st st2"
proof -
  have use: "rid_in_use st1 w' rid" if "rid_in_use st2 w' rid" for w' rid
    using that assms(2) by (auto simp: rid_in_use_def deleted_at_def list_ex_iff)
  have "rid_domain st2 w' rid = rid_domain st w' rid \<or> w' = w \<and> rid_domain st2 w' rid = None \<and> \<not> rid_in_use st2 w' rid" for w' rid
    using assms use unfolding deleted_at_def by metis
  then show ?thesis using assms by (auto simp: deleted_at_def fun_eq_iff conj_commute intro!: filter_cong)
qed

lemma same_unlisted: "unlist_blob w d s now x b = Inr y \<Longrightarrow> same_tables (snd x) (snd y)"
  by (auto simp: unlist_blob_def delete_blob_listing_def int_column_def same_tables_def core_tables_def head_seq_of_def
      set_blob_delete_after_def fun_eq_iff split: prod.splits option.splits if_splits)

lemma prune_entryE:
  assumes "prune_entry w d now x e = Inr y"
  obtains c0 c1 st1 st2 where "(\<exists>bs. try_fold (unlist_blob w d (pre_seq e) now) (c0, snd x) bs = Inr (c1, st1)) \<or> st1 = snd x"
    and "delete_log_entry w d (pre_seq e) (pre_type e) st1 = Inr st2"
    and "y = (c1, case pre_rid e of None \<Rightarrow> st2 | Some rid \<Rightarrow> if rid_in_use st2 w rid then st2 else delete_rid w rid st2)"
proof -
  obtain usage history st where x: "x = ((usage, history), st)" by (metis surj_pair)
  let ?c0 = "(usage, history - signed_i64 (pre_length e))"
  obtain c1 st1 st2 where s1: "(if pre_type e = ENTRY_OPERATION
         then try_fold (unlist_blob w d (pre_seq e) now) (?c0, st) (listed_blobs st w d (pre_seq e))
         else if pre_type e = ENTRY_EPOCH \<or> pre_type e = ENTRY_POLICY
         then Inr (?c0, st) else Inr ((usage, history), st)) = Inr (c1, st1)"
    and rest: "delete_log_entry w d (pre_seq e) (pre_type e) st1 = Inr st2"
      "y = (c1, case pre_rid e of None \<Rightarrow> st2 | Some rid \<Rightarrow> if rid_in_use st2 w rid then st2 else delete_rid w rid st2)"
    using assms unfolding x prune_entry_def prod.case and_then_Inr_iff by auto
  have "(\<exists>bs. try_fold (unlist_blob w d (pre_seq e) now) (?c0, snd x) bs = Inr (c1, st1)) \<or> st1 = snd x"
    using s1 unfolding x by (cases c1) (auto split: if_splits)
  then show ?thesis using that rest by blast
qed

lemma deleted_entry:
  assumes "prune_entry w d now x e = Inr y"
  shows "deleted_at w d (if pre_type e = ENTRY_OPERATION then {pre_seq e} else {}) {pre_seq e} (snd x) (snd y)"
  using assms
proof (rule prune_entryE)
  fix c0 c1 st1 st2
  assume s1: "(\<exists>bs. try_fold (unlist_blob w d (pre_seq e) now) (c0, snd x) bs = Inr (c1, st1)) \<or> st1 = snd x"
    and s2: "delete_log_entry w d (pre_seq e) (pre_type e) st1 = Inr st2"
    and y: "y = (c1, case pre_rid e of None \<Rightarrow> st2 | Some rid \<Rightarrow> if rid_in_use st2 w rid then st2 else delete_rid w rid st2)"
  have "same_tables (snd s) (snd s')" if "try_fold (unlist_blob w d (pre_seq e) now) s bs = Inr s'" for s bs s'
    using same_tables_fold [OF same_unlisted that] .
  then have "same_tables (snd x) st1" using s1 by fastforce
  moreover have "deleted_at w d (if pre_type e = ENTRY_OPERATION then {pre_seq e} else {}) {pre_seq e} st1 st2"
    using s2 by (auto simp: delete_log_entry_def int_column_def deleted_at_def ENTRY_OPERATION_def Let_def head_seq_of_def
        rid_domain_def fun_eq_iff split: if_splits)
  moreover have "deleted_at w d {} {} st2 (snd y)"
    by (auto simp: y deleted_at_def delete_rid_def rid_domain_def head_seq_of_def rid_in_use_def fun_eq_iff split: option.splits)
  ultimately show ?thesis
    using deleted_trans [OF deleted_trans [OF deleted_none]] by fastforce
qed

lemma deleted_entries:
  assumes "try_fold (prune_entry w d now) x es = Inr y"
  shows "deleted_at w d {s. \<exists>e \<in> set es. pre_type e = ENTRY_OPERATION \<and> pre_seq e = s} (pre_seq ` set es) (snd x) (snd y)"
  using assms
proof (induction es arbitrary: x)
  case Nil
  then show ?case using deleted_none [OF same_tables_refl] by simp
next
  case (Cons e es)
  then obtain x1 where x1: "prune_entry w d now x e = Inr x1" "try_fold (prune_entry w d now) x1 es = Inr y" by auto
  have "{s. \<exists>e' \<in> set (e # es). pre_type e' = ENTRY_OPERATION \<and> pre_seq e' = s}
      = (if pre_type e = ENTRY_OPERATION then {pre_seq e} else {}) \<union> {s. \<exists>e' \<in> set es. pre_type e' = ENTRY_OPERATION \<and> pre_seq e' = s}"
    by auto
  then show ?case using deleted_trans [OF deleted_entry [OF x1(1)] Cons.IH [OF x1(2)]] by simp
qed


subsection \<open>What the tables keep\<close>

text \<open>
  Every operation is of an object recorded in its domain and has its log entry; sequences are an
  operation's own; every cover was written by an operation on the object, after all that it covers.
\<close>

definition row_sound :: "store \<Rightarrow> operation_row \<Rightarrow> bool" where
  "row_sound st r \<longleftrightarrow> rid_domain st (or_workspace r) (or_rid r) = Some (or_domain r)
   \<and> 0 < or_seq r \<and> or_seq r \<le> INTEGER_MAX \<and> op_at st (or_workspace r) (or_domain r) (or_seq r) = Some r
   \<and> (\<exists>bs. bt_get (st_entries st) (or_workspace r, or_domain r, or_seq r) = Some (ENTRY_OPERATION, bs))
   \<and> (\<exists>h. head_seq_of st (or_workspace r) (or_domain r) = Some h \<and> or_seq r \<le> h)
   \<and> (\<exists>h. chain_head_at st (or_workspace r) (or_domain r) (or_device r) = Some h \<and> or_counter r \<le> chr_counter h)"

definition cover_sound :: "store \<Rightarrow> cover_row \<Rightarrow> bool" where
  "cover_sound st c \<longleftrightarrow> rid_domain st (cvr_workspace c) (cvr_rid c) = Some (cvr_domain c)
   \<and> (\<exists>r \<in> set (st_operations st). or_workspace r = cvr_workspace c \<and> or_rid r = cvr_rid c \<and> or_seq r = cvr_by_seq c)
   \<and> (\<exists>h. chain_head_at st (cvr_workspace c) (cvr_domain c) (cvr_device c) = Some h \<and> cvr_counter c \<le> chr_counter h)"

definition row_covered :: "cover_row \<Rightarrow> operation_row \<Rightarrow> bool" where
  "row_covered c r \<longleftrightarrow> cvr_workspace c = or_workspace r \<and> cvr_rid c = or_rid r \<and> cvr_device c = or_device r
   \<and> or_counter r \<le> cvr_counter c"

definition tables_sound :: "store \<Rightarrow> ident \<Rightarrow> bool" where
  "tables_sound st w \<longleftrightarrow> (\<forall>r \<in> set (st_operations st). or_workspace r = w \<longrightarrow> row_sound st r)
   \<and> (\<forall>c \<in> set (st_covers st). cvr_workspace c = w \<longrightarrow> cover_sound st c)
   \<and> (\<forall>r \<in> set (st_operations st). \<forall>c \<in> set (st_covers st). or_workspace r = w \<and> row_covered c r \<longrightarrow> or_seq r < cvr_by_seq c)"

lemma tables_soundD:
  assumes "tables_sound st w" and "r \<in> set (st_operations st)" and "or_workspace r = w"
  shows "rid_domain st w (or_rid r) = Some (or_domain r)"
    and "0 < or_seq r" and "or_seq r \<le> INTEGER_MAX" and "op_at st w (or_domain r) (or_seq r) = Some r"
    and "\<exists>bs. bt_get (st_entries st) (w, or_domain r, or_seq r) = Some (ENTRY_OPERATION, bs)"
    and "c \<in> set (st_covers st) \<Longrightarrow> row_covered c r \<Longrightarrow> or_seq r < cvr_by_seq c"
  using assms unfolding tables_sound_def row_sound_def by blast+

lemma tables_coverD:
  assumes "tables_sound st w" and "c \<in> set (st_covers st)" and "cvr_workspace c = w"
  shows "rid_domain st w (cvr_rid c) = Some (cvr_domain c)"
    and "\<exists>r \<in> set (st_operations st). or_workspace r = w \<and> or_rid r = cvr_rid c \<and> or_seq r = cvr_by_seq c"
  using assms unfolding tables_sound_def cover_sound_def by blast+

lemma tables_rows_sound: "tables_sound st w \<Longrightarrow> rows_sound st w d base"
  unfolding rows_sound_def using tables_soundD(1) tables_coverD by blast

lemma covered_through_iff: "covered_through st r f \<longleftrightarrow> (\<exists>c \<in> set (st_covers st). row_covered c r \<and> cvr_by_seq c \<le> f)"
  by (auto simp: covered_through_def row_covered_def list_ex_iff)

text \<open>Nothing prunable at the floor was left behind at or below \<open>after\<close>.\<close>

definition settled :: "store \<Rightarrow> ident \<Rightarrow> ident \<Rightarrow> u64 \<Rightarrow> u64 \<Rightarrow> bool" where
  "settled st w d after floor_seq \<longleftrightarrow> (\<forall>r \<in> set (st_operations st). or_workspace r = w \<and> or_domain r = d
     \<and> or_seq r \<le> at_most after \<longrightarrow> \<not> covered_through st r (at_most floor_seq))"

lemma settled_start: "tables_sound st w \<Longrightarrow> settled st w d 0 floor_seq"
  using tables_soundD(2) by (fastforce simp: settled_def at_most_def)

subsection \<open>Which operations go\<close>

definition pruned_seqs :: "pruned_entry list \<Rightarrow> u64 set" where
  "pruned_seqs es = {s. \<exists>e \<in> set es. pre_type e = ENTRY_OPERATION \<and> pre_seq e = s}"

lemma entries_rise:
  "sorted_wrt (\<lambda>x y. pre_seq x < pre_seq y) (map (\<lambda>((_, _, s), (t, bs)).
       \<lparr>pre_seq = s, pre_type = t, pre_length = of_nat (length bs), pre_rid = f s\<rparr>)
     (filter (\<lambda>((w', d', s), (t, _)). w' = w \<and> d' = d \<and> P s t) (bt_entries (m :: (ident \<times> ident \<times> u64, u8 \<times> byte list) btree))))"
proof -
  have "sorted_wrt (\<lambda>x y. fst x < fst y) (bt_entries m)"
    using bt.entries_rising [of m] by (simp add: rising_def sorted_wrt_map)
  then have "sorted_wrt (\<lambda>x y. fst x < fst y) (filter (\<lambda>((w', d', s), (t, _)). w' = w \<and> d' = d \<and> P s t) (bt_entries m))"
    by (rule sorted_wrt_filter)
  then show ?thesis
    unfolding sorted_wrt_map by (rule sorted_wrt_mono_rel [rotated]) (auto simp: less_prod_def)
qed

lemma taken_first:
  assumes "sorted_wrt (\<lambda>x y. f x < (f y :: 'b::linorder)) xs" and "x \<in> set xs" and "y \<in> set (take n xs)" and "f x \<le> f y"
  shows "x \<in> set (take n xs)"
proof -
  have split: "xs = take n xs @ drop n xs" by simp
  have "\<forall>a \<in> set (take n xs). \<forall>b \<in> set (drop n xs). f a < f b"
    using assms(1) sorted_wrt_append [of "\<lambda>x y. f x < f y" "take n xs" "drop n xs"] by simp
  then show ?thesis using assms(2-4) by (subst (asm) split) (auto simp del: append_take_drop_id dest: leD)
qed


lemma prunable_entry:
  assumes "scan = scan_of st w d after floor_seq" and "es = prunable_entries st w d scan batch"
  shows "e \<in> set es \<Longrightarrow> prunable st w d scan (pre_seq e) (pre_type e)
      \<and> (\<exists>bs. bt_get (st_entries st) (w, d, pre_seq e) = Some (pre_type e, bs))"
    and "bt_get (st_entries st) (w, d, s) = Some (t, bs) \<Longrightarrow> prunable st w d scan s t \<Longrightarrow> e \<in> set es \<Longrightarrow> s \<le> pre_seq e
      \<Longrightarrow> \<exists>e' \<in> set es. pre_seq e' = s \<and> pre_type e' = t"
    and "bt_get (st_entries st) (w, d, s) = Some (t, bs) \<Longrightarrow> prunable st w d scan s t \<Longrightarrow> length es \<noteq> batch
      \<Longrightarrow> \<exists>e' \<in> set es. pre_seq e' = s \<and> pre_type e' = t"
proof -
  let ?f = "\<lambda>((_, _, s), (t, bs)). \<lparr>pre_seq = s, pre_type = t, pre_length = of_nat (length bs), pre_rid = map_option or_rid (op_at st w d s)\<rparr>"
  define all where "all = map ?f
    (filter (\<lambda>((w', d', s), (t, _)). w' = w \<and> d' = d \<and> prunable st w d scan s t) (bt_entries (st_entries st)))"
  have es: "es = take batch all" by (simp add: assms(2) prunable_entries_def all_def)
  have rise: "sorted_wrt (\<lambda>x y. pre_seq x < pre_seq y) all" unfolding all_def by (rule entries_rise)
  have all: "e \<in> set all \<Longrightarrow> prunable st w d scan (pre_seq e) (pre_type e)
      \<and> (\<exists>bs. bt_get (st_entries st) (w, d, pre_seq e) = Some (pre_type e, bs))" for e
    by (auto simp: all_def)
  then show "e \<in> set es \<Longrightarrow> prunable st w d scan (pre_seq e) (pre_type e)
      \<and> (\<exists>bs. bt_get (st_entries st) (w, d, pre_seq e) = Some (pre_type e, bs))"
    unfolding es by (blast dest: in_set_takeD)
  { assume s: "bt_get (st_entries st) (w, d, s) = Some (t, bs)" "prunable st w d scan s t"
    then have "?f ((w, d, s), (t, bs)) \<in> set all"
      unfolding all_def set_map by (intro imageI) auto
    then obtain e' where e': "e' \<in> set all" "pre_seq e' = s" "pre_type e' = t" by fastforce
    show "\<exists>e' \<in> set es. pre_seq e' = s \<and> pre_type e' = t" if "e \<in> set es" "s \<le> pre_seq e"
      using taken_first [OF rise e'(1)] e'(2,3) that unfolding es by blast
    show "\<exists>e' \<in> set es. pre_seq e' = s \<and> pre_type e' = t" if "length es \<noteq> batch"
      using that e' unfolding es by (auto split: if_splits) }
qed

text \<open>An operation that goes was not live at the floor, and a cover that goes covers nothing that stays.\<close>

lemma pruned_dead:
  assumes "tables_sound st w" and "es = prunable_entries st w d (scan_of st w d after floor_seq) batch"
    and "r \<in> set (st_operations st)" and "or_workspace r = w" and "or_domain r = d" and "or_seq r \<in> pruned_seqs es"
  shows "or_dropped r \<or> covered_through st r (at_most floor_seq)"
proof -
  let ?scan = "scan_of st w d after floor_seq"
  obtain e where e: "e \<in> set es" "pre_type e = ENTRY_OPERATION" "pre_seq e = or_seq r"
    using assms(6) by (auto simp: pruned_seqs_def)
  then have "prunable st w d ?scan (or_seq r) ENTRY_OPERATION" using prunable_entry(1) [OF refl assms(2) e(1)] by simp
  moreover have "op_at st w d (or_seq r) = Some r" using tables_soundD(4) [OF assms(1,3,4)] assms(5) by simp
  ultimately show ?thesis
    by (auto simp: prunable_def scan_of_def ENTRY_OPERATION_def ENTRY_CHECKPOINT_def ENTRY_EPOCH_def ENTRY_POLICY_def)
qed

lemma pruned_cover:
  assumes "tables_sound st w" and "settled st w d after floor_seq"
    and "es = prunable_entries st w d (scan_of st w d after floor_seq) batch"
    and "r \<in> set (st_operations st)" and "or_workspace r = w" and "c \<in> set (st_covers st)" and "row_covered c r"
    and "cvr_domain c = d" and "cvr_by_seq c \<in> pruned_seqs es"
  shows "or_domain r = d \<and> or_seq r \<in> pruned_seqs es"
proof -
  let ?scan = "scan_of st w d after floor_seq"
  note sound = tables_soundD [OF assms(1,4,5)]
  have "cvr_workspace c = w" using assms(5,7) by (simp add: row_covered_def)
  then have d: "or_domain r = d"
    using sound(1) tables_coverD(1) [OF assms(1,6)] assms(7,8) by (simp add: row_covered_def)
  have r: "or_seq r < cvr_by_seq c" using sound(6) assms(6,7) by blast
  obtain e where e: "e \<in> set es" "pre_type e = ENTRY_OPERATION" "pre_seq e = cvr_by_seq c"
    using assms(9) by (auto simp: pruned_seqs_def)
  have below: "cvr_by_seq c \<le> at_most floor_seq"
    using prunable_entry(1) [OF refl assms(3) e(1)] e(3) by (simp add: prunable_def scan_of_def)
  then have cov: "covered_through st r (at_most floor_seq)" using assms(6,7) by (auto simp: covered_through_iff)
  have "at_most after < or_seq r"
  proof (rule ccontr)
    assume "\<not> at_most after < or_seq r"
    then have "\<not> covered_through st r (at_most floor_seq)" using assms(2,4,5) d by (simp add: settled_def)
    then show False using cov by simp
  qed
  then have prunable: "prunable st w d ?scan (or_seq r) ENTRY_OPERATION"
    using r sound(4) below cov d by (auto simp: prunable_def scan_of_def)
  obtain bs where "bt_get (st_entries st) (w, d, or_seq r) = Some (ENTRY_OPERATION, bs)" using sound(5) d by auto
  then obtain e' where "e' \<in> set es" "pre_seq e' = or_seq r" "pre_type e' = ENTRY_OPERATION"
    using prunable_entry(2) [OF refl assms(3) _ prunable e(1)] r e(3) by fastforce
  then show ?thesis using d by (auto simp: pruned_seqs_def)
qed

subsection \<open>Live sets stay\<close>

lemma live_ops_filtered:
  assumes "st_operations st' = filter K (st_operations st)"
    and "\<And>r. r \<in> set (st_operations st) \<Longrightarrow> or_workspace r = w \<Longrightarrow> or_rid r = rid \<Longrightarrow> or_seq r \<le> at_most at \<Longrightarrow> \<not> or_dropped r
      \<Longrightarrow> K r \<and> \<not> covered_through st' r (at_most at) \<longleftrightarrow> \<not> covered_through st r (at_most at)"
  shows "live_ops st' w rid at = live_ops st w rid at"
proof -
  let ?P = "\<lambda>st r. or_workspace r = w \<and> or_rid r = rid \<and> or_seq r \<le> at_most at \<and> \<not> or_dropped r \<and> \<not> covered_through st r (at_most at)"
  have "filter (?P st') (filter K (st_operations st)) = filter (?P st) (st_operations st)"
    using assms(2) by (auto intro!: filter_cong)
  then show ?thesis by (simp add: live_ops_def assms(1) covered_through_def)
qed

lemma pruning_keeps_live_ops:
  assumes "tables_sound st w" and "settled st w d after floor_seq"
    and "es = prunable_entries st w d (scan_of st w d after floor_seq) batch"
    and "deleted_at w d (pruned_seqs es) E st st'"
    and "w' = w \<and> rid_domain st w rid = Some d \<longrightarrow> floor_seq \<le> at"
  shows "live_ops st' w' rid at = live_ops st w' rid at"
proof (rule live_ops_filtered)
  let ?S = "pruned_seqs es"
  show "st_operations st' = filter (\<lambda>r. \<not> (or_workspace r = w \<and> or_domain r = d \<and> or_seq r \<in> ?S)) (st_operations st)"
    using assms(4) by (simp add: deleted_at_def)
  have covers: "set (st_covers st') = {c \<in> set (st_covers st). \<not> (cvr_workspace c = w \<and> cvr_domain c = d \<and> cvr_by_seq c \<in> ?S)}"
    using assms(4) by (auto simp: deleted_at_def)
  fix r assume r: "r \<in> set (st_operations st)" "or_workspace r = w'" "or_rid r = rid" "\<not> or_dropped r"
  have "covered_through st r (at_most at)" if gone: "or_workspace r = w" "or_domain r = d" "or_seq r \<in> ?S"
  proof -
    have "rid_domain st w rid = Some d" using tables_soundD(1) [OF assms(1) r(1) gone(1)] r(3) gone(2) by simp
    then have "at_most floor_seq \<le> at_most at" using assms(5) gone r(2) by (simp add: at_most_mono)
    then show ?thesis
      using pruned_dead [OF assms(1,3) r(1) gone] r(4) by (auto simp: covered_through_iff intro: order_trans)
  qed
  moreover have "covered_through st r (at_most at)" if "covered_through st' r (at_most at)"
    using that covers by (auto simp: covered_through_iff)
  moreover have "covered_through st' r (at_most at)"
    if kept: "\<not> (or_workspace r = w \<and> or_domain r = d \<and> or_seq r \<in> ?S)" and cov: "covered_through st r (at_most at)"
  proof -
    obtain c where c: "c \<in> set (st_covers st)" "row_covered c r" "cvr_by_seq c \<le> at_most at"
      using cov by (auto simp: covered_through_iff)
    have "\<not> (cvr_workspace c = w \<and> cvr_domain c = d \<and> cvr_by_seq c \<in> ?S)"
      using pruned_cover [OF assms(1-3) r(1) _ c(1,2)] c(2) kept by (auto simp: row_covered_def)
    then have "c \<in> set (st_covers st')" using c(1) covers by simp
    then show ?thesis using c by (auto simp: covered_through_iff)
  qed
  ultimately show "\<not> (or_workspace r = w \<and> or_domain r = d \<and> or_seq r \<in> ?S) \<and> \<not> covered_through st' r (at_most at)
      \<longleftrightarrow> \<not> covered_through st r (at_most at)"
    by blast
qed

lemma pruning_keeps_leaves:
  assumes "tables_sound st w" and "settled st w d after floor_seq"
    and "es = prunable_entries st w d (scan_of st w d after floor_seq) batch"
    and "deleted_at w d (pruned_seqs es) E st st'" and "w' = w \<and> d' = d \<longrightarrow> floor_seq \<le> at"
  shows "live_leaves st' w' d' at {} = live_leaves st w' d' at {}"
proof (rule rising_eq [where f = fst])
  have refs: "live_refs st' w' rid at {} = live_refs st w' rid at {}" if "rid_domain st w' rid = Some d'" for rid
  proof -
    have "w' = w \<and> rid_domain st w rid = Some d \<longrightarrow> floor_seq \<le> at" using that assms(5) by auto
    then show ?thesis using pruning_keeps_live_ops [OF assms(1-4)] by (simp add: live_refs_def)
  qed
  have unused: "live_refs st' w' rid at {} = []" if "\<not> rid_in_use st' w' rid" for rid
  proof -
    have "filter (\<lambda>r. or_workspace r = w' \<and> or_rid r = rid \<and> Q r) (st_operations st') = []" for Q
      using that by (auto simp: rid_in_use_def list_ex_iff filter_empty_conv)
    then show ?thesis by (simp add: live_refs_def live_ops_def)
  qed
  have rids: "rid_domain st' w' rid = rid_domain st w' rid \<or> rid_domain st' w' rid = None \<and> \<not> rid_in_use st' w' rid" for rid
    using assms(4) by (auto simp: deleted_at_def)
  have "(rid, refs) \<in> set (live_leaves st' w' d' at {}) \<longleftrightarrow> (rid, refs) \<in> set (live_leaves st w' d' at {})" for rid refs
    using rids [of rid] refs [of rid] unused [of rid] unfolding live_leaves_iff by auto
  then show "set (live_leaves st' w' d' at {}) = set (live_leaves st w' d' at {})" by auto
qed (rule live_leaves_rise)+


subsection \<open>What the tables keep, they keep\<close>

lemma find_filter_kept: "(\<And>x. x \<in> set xs \<Longrightarrow> P x \<Longrightarrow> K x) \<Longrightarrow> find P (filter K xs) = find P xs"
  by (induction xs) auto

lemma kept_operations:
  assumes "deleted_at w d S E st st'"
  shows "r \<in> set (st_operations st') \<longleftrightarrow> r \<in> set (st_operations st) \<and> \<not> (or_workspace r = w \<and> or_domain r = d \<and> or_seq r \<in> S)"
    and "c \<in> set (st_covers st') \<longleftrightarrow> c \<in> set (st_covers st) \<and> \<not> (cvr_workspace c = w \<and> cvr_domain c = d \<and> cvr_by_seq c \<in> S)"
    and "r \<in> set (st_operations st') \<Longrightarrow> rid_domain st' (or_workspace r) (or_rid r) = rid_domain st (or_workspace r) (or_rid r)"
proof -
  show r: "r \<in> set (st_operations st') \<longleftrightarrow> r \<in> set (st_operations st) \<and> \<not> (or_workspace r = w \<and> or_domain r = d \<and> or_seq r \<in> S)"
    using assms by (auto simp: deleted_at_def)
  show "c \<in> set (st_covers st') \<longleftrightarrow> c \<in> set (st_covers st) \<and> \<not> (cvr_workspace c = w \<and> cvr_domain c = d \<and> cvr_by_seq c \<in> S)"
    using assms by (auto simp: deleted_at_def)
  assume "r \<in> set (st_operations st')"
  then have "rid_in_use st' (or_workspace r) (or_rid r)" by (auto simp: rid_in_use_def list_ex_iff)
  then show "rid_domain st' (or_workspace r) (or_rid r) = rid_domain st (or_workspace r) (or_rid r)"
    using assms by (auto simp: deleted_at_def)
qed

lemma kept_covers:
  assumes "tables_sound st w" and "deleted_at w d S E st st'" and "c \<in> set (st_covers st')" and "cvr_workspace c = w"
  shows "cover_sound st' c"
proof -
  have c: "c \<in> set (st_covers st)" "\<not> (cvr_domain c = d \<and> cvr_by_seq c \<in> S)"
    using assms(3,4) kept_operations(2) [OF assms(2)] by auto
  then have sound: "cover_sound st c" using assms(1,4) by (simp add: tables_sound_def)
  obtain r where r: "r \<in> set (st_operations st)" "or_workspace r = w" "or_rid r = cvr_rid c" "or_seq r = cvr_by_seq c"
    using tables_coverD(2) [OF assms(1) c(1) assms(4)] by blast
  then have "or_domain r = cvr_domain c"
    using tables_soundD(1) [OF assms(1) r(1,2)] sound assms(4) by (simp add: cover_sound_def)
  then have r': "r \<in> set (st_operations st')" using r c(2) kept_operations(1) [OF assms(2)] by auto
  then have "rid_domain st' w (cvr_rid c) = rid_domain st w (cvr_rid c)" using kept_operations(3) [OF assms(2) r'] r by simp
  moreover have "chain_head_at st' = chain_head_at st" using assms(2) by (simp add: deleted_at_def chain_head_at_def fun_eq_iff)
  ultimately show ?thesis using sound r r' assms(4) unfolding cover_sound_def by auto
qed

lemma kept_rows:
  assumes "tables_sound st w" and "es = prunable_entries st w d (scan_of st w d after floor_seq) batch"
    and "deleted_at w d (pruned_seqs es) (pre_seq ` set es) st st'" and "r \<in> set (st_operations st')" and "or_workspace r = w"
  shows "row_sound st' r"
proof -
  note kept = kept_operations [OF assms(3)]
  have old: "r \<in> set (st_operations st)" "or_domain r = d \<Longrightarrow> or_seq r \<notin> pruned_seqs es" using kept(1) assms(4,5) by auto
  then have sound: "row_sound st r" using assms(1,5) by (simp add: tables_sound_def)
  have "op_at st' w (or_domain r) (or_seq r) = op_at st w (or_domain r) (or_seq r)"
    using assms(3) old(2) unfolding op_at_def by (auto simp: deleted_at_def intro!: find_filter_kept)
  moreover have "or_seq r \<notin> pre_seq ` set es" if d: "or_domain r = d"
  proof
    assume "or_seq r \<in> pre_seq ` set es"
    then obtain e where e: "e \<in> set es" "pre_seq e = or_seq r" by auto
    obtain bs where "bt_get (st_entries st) (w, d, or_seq r) = Some (ENTRY_OPERATION, bs)"
      using tables_soundD(5) [OF assms(1) old(1) assms(5)] d by auto
    then have "pre_type e = ENTRY_OPERATION" using prunable_entry(1) [OF refl assms(2) e(1)] e(2) by auto
    then show False using old(2) [OF d] e by (auto simp: pruned_seqs_def)
  qed
  then have "bt_get (st_entries st') (w, or_domain r, or_seq r) = bt_get (st_entries st) (w, or_domain r, or_seq r)"
    using assms(3) by (auto simp: deleted_at_def)
  moreover have "rid_domain st' w (or_rid r) = rid_domain st w (or_rid r)" using kept(3) [OF assms(4)] assms(5) by simp
  moreover have "head_seq_of st' = head_seq_of st" "chain_head_at st' = chain_head_at st"
    using assms(3) by (simp_all add: deleted_at_def chain_head_at_def fun_eq_iff)
  ultimately show ?thesis using sound assms(5) by (simp add: row_sound_def)
qed

lemma pruning_keeps_sound:
  assumes "tables_sound st w" and "es = prunable_entries st w d (scan_of st w d after floor_seq) batch"
    and "deleted_at w d (pruned_seqs es) (pre_seq ` set es) st st'"
  shows "tables_sound st' w"
  unfolding tables_sound_def
  using kept_rows [OF assms] kept_covers [OF assms(1,3)] kept_operations(1,2) [OF assms(3)] tables_soundD(6) [OF assms(1)]
  by blast

lemma pruning_settles:
  assumes "tables_sound st w" and "settled st w d after floor_seq"
    and "es = prunable_entries st w d (scan_of st w d after floor_seq) batch"
    and "deleted_at w d (pruned_seqs es) E st st'"
  shows "es \<noteq> [] \<Longrightarrow> settled st' w d (pre_seq (last es)) floor_seq"
    and "length es \<noteq> batch \<Longrightarrow> settled st' w d to floor_seq"
proof -
  let ?scan = "scan_of st w d after floor_seq"
  have left: "\<not> covered_through st' r (at_most floor_seq)"
    if r: "r \<in> set (st_operations st')" "or_workspace r = w" "or_domain r = d"
      and found: "prunable st w d ?scan (or_seq r) ENTRY_OPERATION \<Longrightarrow> \<exists>e \<in> set es. pre_seq e = or_seq r \<and> pre_type e = ENTRY_OPERATION" for r
  proof
    assume "covered_through st' r (at_most floor_seq)"
    then have cov: "covered_through st r (at_most floor_seq)"
      using kept_operations(2) [OF assms(4)] by (auto simp: covered_through_iff)
    have old: "r \<in> set (st_operations st)" "or_seq r \<notin> pruned_seqs es" using kept_operations(1) [OF assms(4)] r by auto
    obtain c where c: "c \<in> set (st_covers st)" "row_covered c r" "cvr_by_seq c \<le> at_most floor_seq"
      using cov by (auto simp: covered_through_iff)
    note sound = tables_soundD [OF assms(1) old(1) r(2)]
    have "or_seq r < at_most floor_seq" by (rule order_less_le_trans [OF sound(6) [OF c(1,2)] c(3)])
    moreover have "op_at st w d (or_seq r) = Some r" using sound(4) r(3) by simp
    moreover have "at_most after < or_seq r"
    proof (rule ccontr)
      assume "\<not> at_most after < or_seq r"
      then have "\<not> covered_through st r (at_most floor_seq)" using assms(2) old(1) r(2,3) by (simp add: settled_def)
      then show False using cov by simp
    qed
    ultimately have "prunable st w d ?scan (or_seq r) ENTRY_OPERATION"
      using cov by (auto simp: prunable_def scan_of_def)
    then show False using found old(2) by (auto simp: pruned_seqs_def)
  qed
  have entry: "\<exists>bs. bt_get (st_entries st) (w, d, or_seq r) = Some (ENTRY_OPERATION, bs)"
    if "r \<in> set (st_operations st')" "or_workspace r = w" "or_domain r = d" for r
    using tables_soundD(5) [OF assms(1)] kept_operations(1) [OF assms(4)] that by blast
  have last1: "at_most s \<le> s" for s :: u64 by (simp add: at_most_def)
  show "settled st' w d (pre_seq (last es)) floor_seq" if "es \<noteq> []"
    unfolding settled_def
  proof (intro ballI impI)
    fix r assume r: "r \<in> set (st_operations st')" and at: "or_workspace r = w \<and> or_domain r = d \<and> or_seq r \<le> at_most (pre_seq (last es))"
    then have "or_seq r \<le> pre_seq (last es)" using last1 order_trans by blast
    then show "\<not> covered_through st' r (at_most floor_seq)"
    proof -
      obtain bs where "bt_get (st_entries st) (w, d, or_seq r) = Some (ENTRY_OPERATION, bs)" using entry [OF r] at by blast
      from prunable_entry(2) [OF refl assms(3) this _ last_in_set [OF that]]
      show ?thesis using left [OF r] at \<open>or_seq r \<le> pre_seq (last es)\<close> by simp
    qed
  qed
  show "settled st' w d to floor_seq" if "length es \<noteq> batch"
    unfolding settled_def
  proof (intro ballI impI)
    fix r assume r: "r \<in> set (st_operations st')" and at: "or_workspace r = w \<and> or_domain r = d \<and> or_seq r \<le> at_most to"
    obtain bs where "bt_get (st_entries st) (w, d, or_seq r) = Some (ENTRY_OPERATION, bs)" using entry [OF r] at by blast
    from prunable_entry(3) [OF refl assms(3) this _ that]
    show "\<not> covered_through st' r (at_most floor_seq)" using left [OF r] at by simp
  qed
qed

end
