(* ===== verification/Retention_Theorems.thy ===== *)
theory Retention_Theorems
  imports Retention_Laws
begin

text \<open>
  The batches of a domain's pruning one after another, and what they leave: every live set at or above the
  retention floor, and of the operations below it none that is covered there.
\<close>

subsection \<open>A batch\<close>

text \<open>Clearing a checkpoint below the floor changes its bucket hashes and heads only.\<close>

definition cleared_below :: "ident \<Rightarrow> ident \<Rightarrow> u64 \<Rightarrow> store \<Rightarrow> store \<Rightarrow> bool" where
  "cleared_below w d floor_seq st st' \<longleftrightarrow> st_operations st' = st_operations st \<and> st_covers st' = st_covers st
   \<and> st_entries st' = st_entries st \<and> st_rids st' = st_rids st \<and> st_chain_heads st' = st_chain_heads st \<and> head_seq_of st' = head_seq_of st
   \<and> (\<exists>g. st_checkpoints st' = map g (st_checkpoints st) \<and> (\<forall>c. row_kept (g c) = row_kept c
       \<and> scp_workspace (g c) = scp_workspace c \<and> scp_domain (g c) = scp_domain c \<and> (scp_buckets c = None \<longrightarrow> scp_buckets (g c) = None)
       \<and> (g c = c \<or> scp_workspace c = w \<and> scp_domain c = d \<and> (\<exists>x \<in> set (checkpoint_rows st w d).
           cpw_number (scp_row x) = cpw_number (scp_row c) \<and> cpw_covered_seq (scp_row x) < at_most floor_seq))))"

definition retention_floor_of :: "store \<Rightarrow> ident \<Rightarrow> ident \<Rightarrow> u64 option" where
  "retention_floor_of st w d = map_option dr_retention_floor (bt_get (st_domains st) (w, d))"

definition kept_buckets :: "store \<Rightarrow> nat" where
  "kept_buckets st = length (filter (\<lambda>c. scp_buckets c \<noteq> None) (st_checkpoints st))"

lemma retention_floor_row: "store_domain st w d = Some row \<Longrightarrow> retention_floor_of st w d = Some (dr_retention_floor row)"
  by (auto simp: store_domain_def retention_floor_of_def domain_columns.defs)

lemma cleared_same: "same_tables st st' \<Longrightarrow> cleared_below w d f st st'"
  by (auto simp: cleared_below_def same_tables_def core_tables_def intro!: exI [of _ "\<lambda>c. c"])

lemma cleared_clear: "clear_checkpoint_data w d f hs limit st = (n, st') \<Longrightarrow> cleared_below w d f st st'"
proof -
  assume clear: "clear_checkpoint_data w d f hs limit st = (n, st')"
  define numbers where "numbers = take limit (sort (map (cpw_number \<circ> scp_row) (filter (\<lambda>c.
      cpw_covered_seq (scp_row c) < at_most f \<and> scp_buckets c \<noteq> None) (checkpoint_rows st w d))))"
  define g :: "stored_checkpoint \<Rightarrow> stored_checkpoint" where
    "g = (\<lambda>c. if scp_workspace c = w \<and> scp_domain c = d \<and> cpw_number (scp_row c) \<in> set numbers
       then c\<lparr>scp_buckets := None, scp_row := (scp_row c)\<lparr>cpw_heads := hs\<rparr>\<rparr> else c)"
  have st': "st' = st\<lparr>st_checkpoints := map g (st_checkpoints st)\<rparr>"
    using clear unfolding clear_checkpoint_data_def Let_def numbers_def [symmetric] g_def by simp
  have number: "\<exists>x \<in> set (checkpoint_rows st w d). cpw_number (scp_row x) = m \<and> cpw_covered_seq (scp_row x) < at_most f"
    if "m \<in> set numbers" for m
    using that unfolding numbers_def by (auto dest!: in_set_takeD)
  have "row_kept (g c) = row_kept c \<and> scp_workspace (g c) = scp_workspace c \<and> scp_domain (g c) = scp_domain c
      \<and> (scp_buckets c = None \<longrightarrow> scp_buckets (g c) = None)
      \<and> (g c = c \<or> scp_workspace c = w \<and> scp_domain c = d \<and> (\<exists>x \<in> set (checkpoint_rows st w d).
          cpw_number (scp_row x) = cpw_number (scp_row c) \<and> cpw_covered_seq (scp_row x) < at_most f))" for c
    using number by (simp add: g_def row_kept_def)
  moreover have "head_seq_of st' = head_seq_of st" by (simp add: st' head_seq_of_def fun_eq_iff)
  ultimately show ?thesis unfolding cleared_below_def by (auto simp: st')
qed

lemma cleared_then_same: "cleared_below w d f st st1 \<Longrightarrow> same_tables st1 st2 \<Longrightarrow> cleared_below w d f st st2"
  by (simp add: cleared_below_def same_tables_def core_tables_def)

lemma same_then_cleared: "same_tables st st1 \<Longrightarrow> cleared_below w d f st1 st2 \<Longrightarrow> cleared_below w d f st st2"
  by (simp add: cleared_below_def same_tables_def core_tables_def checkpoint_rows_def)

lemma same_pruned_floor: "set_pruned_floor w d f st = Inr st' \<Longrightarrow> same_tables st st'"
  by (auto simp: set_pruned_floor_def int_column_def same_tables_def core_tables_def head_seq_of_def
      option.map_comp comp_def fun_eq_iff split: if_splits)

lemma floor_kept_updates: "retention_floor_of (add_usage w' d' u h st) w d = retention_floor_of st w d"
  "set_pruned_floor w' d' f st = Inr st' \<Longrightarrow> retention_floor_of st' w d = retention_floor_of st w d"
  by (auto simp: add_usage_def set_pruned_floor_def int_column_def retention_floor_of_def option.map_comp comp_def split: if_splits)

lemma domains_kept: "try_fold (prune_entry w d now) x es = Inr y \<Longrightarrow> st_domains (snd y) = st_domains (snd x)"
proof (induction es arbitrary: x)
  case (Cons e es)
  have unlist: "st_domains (snd s') = st_domains (snd s)" if "try_fold (unlist_blob w d q now) s bs = Inr s'" for q s bs s'
    using that
  proof (induction bs arbitrary: s)
    case (Cons b bs)
    obtain s1 where s1: "unlist_blob w d q now s b = Inr s1" "try_fold (unlist_blob w d q now) s1 bs = Inr s'" using Cons.prems by auto
    then have "st_domains (snd s1) = st_domains (snd s)"
      by (auto simp: unlist_blob_def delete_blob_listing_def int_column_def set_blob_delete_after_def
          split: prod.splits option.splits if_splits)
    then show ?case using Cons.IH [OF s1(2)] by simp
  qed simp
  obtain x1 where x1: "prune_entry w d now x e = Inr x1" "try_fold (prune_entry w d now) x1 es = Inr y" using Cons.prems by auto
  have "st_domains (snd x1) = st_domains (snd x)"
    using x1(1)
  proof (rule prune_entryE)
    fix c0 c1 st1 st2
    assume "(\<exists>bs. try_fold (unlist_blob w d (pre_seq e) now) (c0, snd x) bs = Inr (c1, st1)) \<or> st1 = snd x"
    then have "st_domains st1 = st_domains (snd x)" using unlist by fastforce
    moreover assume "delete_log_entry w d (pre_seq e) (pre_type e) st1 = Inr st2"
    then have "st_domains st2 = st_domains st1" by (auto simp: delete_log_entry_def int_column_def Let_def split: if_splits)
    moreover assume "x1 = (c1, case pre_rid e of None \<Rightarrow> st2 | Some rid \<Rightarrow> if rid_in_use st2 w rid then st2 else delete_rid w rid st2)"
    ultimately show ?thesis by (auto simp: delete_rid_def split: option.splits)
  qed
  then show ?case using Cons.IH [OF x1(2)] by simp
qed simp

lemma length_filter_less_if:
  "(\<And>x. P x \<Longrightarrow> Q x) \<Longrightarrow> y \<in> set xs \<Longrightarrow> Q y \<Longrightarrow> \<not> P y \<Longrightarrow> length (filter P xs) < length (filter Q xs)"
proof (induction xs)
  case (Cons x xs)
  have "length (filter P xs) \<le> length (filter Q xs)"
    using Cons.prems(1) by (induction xs) auto
  then show ?case using Cons by (auto simp: less_Suc_eq_le)
qed simp

lemma clear_shrinks:
  assumes "clear_checkpoint_data w d f hs limit st = (PRUNE_BATCH, st')"
  shows "kept_buckets st' < kept_buckets st"
proof -
  define numbers where "numbers = take limit (sort (map (cpw_number \<circ> scp_row) (filter (\<lambda>c.
      cpw_covered_seq (scp_row c) < at_most f \<and> scp_buckets c \<noteq> None) (checkpoint_rows st w d))))"
  define cleared :: "stored_checkpoint \<Rightarrow> bool" where "cleared = (\<lambda>c. scp_workspace c = w \<and> scp_domain c = d \<and> cpw_number (scp_row c) \<in> set numbers)"
  define g where "g = (\<lambda>c. if cleared c then c\<lparr>scp_buckets := None, scp_row := (scp_row c)\<lparr>cpw_heads := hs\<rparr>\<rparr> else c)"
  have n: "length (filter cleared (st_checkpoints st)) = PRUNE_BATCH"
    and "st' = st\<lparr>st_checkpoints := map g (st_checkpoints st)\<rparr>"
    using assms unfolding clear_checkpoint_data_def Let_def numbers_def [symmetric] g_def by (simp_all add: cleared_def)
  then have st': "st_checkpoints st' = map g (st_checkpoints st)" by simp
  have "filter cleared (st_checkpoints st) \<noteq> []" using n by (auto simp: PRUNE_BATCH_def)
  then obtain c where "c \<in> set (st_checkpoints st)" "cleared c" by (auto simp: filter_empty_conv)
  then have "cpw_number (scp_row c) \<in> set numbers" by (simp add: cleared_def)
  then obtain x where x: "x \<in> set (checkpoint_rows st w d)" "scp_buckets x \<noteq> None" "cpw_number (scp_row x) = cpw_number (scp_row c)"
    unfolding numbers_def by (auto dest!: in_set_takeD)
  then have x': "x \<in> set (st_checkpoints st)" "cleared x"
    using \<open>cleared c\<close> by (auto simp: checkpoint_rows_def cleared_def)
  have kept: "scp_buckets (g y) \<noteq> None \<longleftrightarrow> scp_buckets y \<noteq> None \<and> \<not> cleared y" for y by (simp add: g_def)
  have "kept_buckets st' = length (filter (\<lambda>y. scp_buckets y \<noteq> None \<and> \<not> cleared y) (st_checkpoints st))"
    by (simp add: kept_buckets_def st' filter_map comp_def kept del: not_None_eq)
  also have "\<dots> < kept_buckets st"
    unfolding kept_buckets_def using x(2) x' by (intro length_filter_less_if) auto
  finally show ?thesis .
qed

lemma prune_batchD:
  assumes "prune_batch w d after now batch st = Inr ((n, next1), st')" and "retention_floor_of st w d = Some floor_seq"
  defines "es \<equiv> prunable_entries st w d (scan_of st w d after floor_seq) batch"
  obtains st1 where "deleted_at w d (pruned_seqs es) (pre_seq ` set es) st st1" and "cleared_below w d floor_seq st1 st'"
    and "retention_floor_of st' w d = Some floor_seq"
    and "case next1 of None \<Rightarrow> batch = 0 \<or> length es \<noteq> batch
      | Some a \<Rightarrow> if es = [] then a = after \<and> kept_buckets st' < kept_buckets st else a = pre_seq (last es)"
proof -
  obtain row where row: "store_domain st w d = Some row" "dr_retention_floor row = floor_seq"
    using assms(2) by (auto simp: retention_floor_of_def store_domain_def domain_columns.defs)
  obtain u h st0 where fold: "try_fold (prune_entry w d now) ((0, 0), st) es = Inr ((u, h), st0)"
    and rest: "prune_rest w d after floor_seq batch es (add_usage w d u h st0) = Inr ((n, next1), st')"
    using assms(1) row unfolding prune_batch_def by (auto simp: Let_def es_def)
  let ?st1 = "add_usage w d u h st0"
  have "deleted_at w d (pruned_seqs es) (pre_seq ` set es) st st0"
    using deleted_entries [OF fold] by (simp add: pruned_seqs_def)
  from deleted_trans [OF this deleted_none [OF same_tables_updates(3)]]
  have deleted: "deleted_at w d (pruned_seqs es) (pre_seq ` set es) st ?st1" by simp
  have floor1: "retention_floor_of ?st1 w d = Some floor_seq"
    using domains_kept [OF fold] assms(2) by (simp add: floor_kept_updates) (simp add: retention_floor_of_def)
  show ?thesis
  proof (cases "length es = batch")
    case True
    show ?thesis
    proof (cases "es = []")
      case 2: True
      then show ?thesis
        using rest \<open>length es = batch\<close> that [OF deleted] cleared_same [OF same_tables_refl] floor1 by (auto simp: prune_rest_def Let_def)
    next
      case 2: False
      then show ?thesis
        using rest \<open>length es = batch\<close> that [OF deleted] cleared_same [OF same_tables_refl] floor1 by (auto simp: prune_rest_def Let_def)
    qed
  next
    case False
    obtain cleared st2 where clear: "clear_checkpoint_data w d floor_seq (encode_list enc_ref []) PRUNE_BATCH ?st1 = (cleared, st2)"
      by (metis surj_pair)
    then have floor2: "retention_floor_of st2 w d = Some floor_seq"
      using floor1 by (auto simp: clear_checkpoint_data_def retention_floor_of_def Let_def)
    show ?thesis
    proof (cases "cleared = PRUNE_BATCH")
      case True
      then have result: "st' = st2" "next1 = Some (if es = [] then after else pre_seq (last es))"
        using rest False clear by (auto simp: prune_rest_def)
      have "kept_buckets st2 < kept_buckets ?st1"
        using clear_shrinks [OF clear [unfolded True]] .
      moreover have "kept_buckets ?st1 = kept_buckets st" using deleted by (simp add: kept_buckets_def deleted_at_def)
      ultimately show ?thesis
        using that [OF deleted] cleared_clear [OF clear] floor2 result by simp
    next
      case 2: False
      then have "next1 = None" "set_pruned_floor w d floor_seq st2 = Inr st'"
        using rest False clear by (auto simp: prune_rest_def)
      then show ?thesis
        using that [OF deleted cleared_then_same [OF cleared_clear [OF clear] same_pruned_floor]] False floor2
        by (simp add: floor_kept_updates)
    qed
  qed
qed


subsection \<open>Live sets\<close>

lemma cleared_tables:
  assumes "cleared_below w d f st st'"
  shows "tables_sound st' w' = tables_sound st w'" "settled st' w' d' a f' = settled st w' d' a f'"
    "live_ops st' w' rid at = live_ops st w' rid at" "live_leaves st' w' d' at {} = live_leaves st w' d' at {}"
    "rows_sound st' w' d' base = rows_sound st w' d' base"
proof -
  have same: "st_operations st' = st_operations st" "st_covers st' = st_covers st" "st_entries st' = st_entries st"
    "st_rids st' = st_rids st" "st_chain_heads st' = st_chain_heads st" "head_seq_of st' = head_seq_of st" using assms by (simp_all add: cleared_below_def)
  then show "tables_sound st' w' = tables_sound st w'" "settled st' w' d' a f' = settled st w' d' a f'"
    "rows_sound st' w' d' base = rows_sound st w' d' base"
    by (simp_all add: tables_sound_def row_sound_def cover_sound_def settled_def rows_sound_def covered_through_def op_at_def
        rid_domain_def chain_head_at_def)
  have ops: "live_ops st' w' rid at = live_ops st w' rid at" for rid at by (simp add: live_ops_def same)
  then show "live_ops st' w' rid at = live_ops st w' rid at" .
  show "live_leaves st' w' d' at {} = live_leaves st w' d' at {}"
    by (simp add: live_leaves_def domain_objects_def rids_from_def leaves_of_def live_refs_def ops same)
qed

text \<open>
  A batch changes no live set at or above the floor, as long as the one before left nothing prunable at
  this floor behind, and leaves the same behind itself.
\<close>

lemma prune_keeps_live_sets:
  assumes "prune_batch w d after now batch st = Inr ((n, next1), st')" and "retention_floor_of st w d = Some f"
    and "tables_sound st w" and "settled st w d after f"
  shows "((rid_domain st w rid = Some d \<longrightarrow> f \<le> at) \<longrightarrow> live_ops st' w rid at = live_ops st w rid at)
    \<and> rid_domain st' w rid \<in> {rid_domain st w rid, None} \<and> tables_sound st' w \<and> retention_floor_of st' w d = Some f
    \<and> (case next1 of None \<Rightarrow> batch \<noteq> 0 \<longrightarrow> settled st' w d through f | Some a \<Rightarrow> settled st' w d a f)"
proof -
  define es where "es = prunable_entries st w d (scan_of st w d after f) batch"
  obtain st1 where st1: "deleted_at w d (pruned_seqs es) (pre_seq ` set es) st st1" "cleared_below w d f st1 st'"
    and f: "retention_floor_of st' w d = Some f"
    and next1: "case next1 of None \<Rightarrow> batch = 0 \<or> length es \<noteq> batch
      | Some a \<Rightarrow> if es = [] then a = after \<and> kept_buckets st' < kept_buckets st else a = pre_seq (last es)"
    unfolding es_def by (rule prune_batchD [OF assms(1,2)])
  note kept = cleared_tables [OF st1(2)]
  note settles = pruning_settles [OF assms(3,4) es_def st1(1)]
  have "settled st1 w d after f" if "es = []"
    using assms(4) st1(1) unfolding settled_def that pruned_seqs_def deleted_at_def by (auto simp: covered_through_def)
  then have "case next1 of None \<Rightarrow> batch \<noteq> 0 \<longrightarrow> settled st' w d through f | Some a \<Rightarrow> settled st' w d a f"
    using next1 settles unfolding kept by (auto split: option.splits if_splits)
  moreover have "rid_domain st w rid = Some d \<longrightarrow> f \<le> at \<Longrightarrow> live_ops st' w rid at = live_ops st w rid at"
    using pruning_keeps_live_ops [OF assms(3,4) es_def st1(1)] unfolding kept by blast
  moreover have "rid_domain st' w rid \<in> {rid_domain st w rid, None}"
  proof -
    have "rid_domain st' w rid = rid_domain st1 w rid" using st1(2) by (simp add: cleared_below_def rid_domain_def)
    moreover have "\<forall>w' rid. rid_domain st1 w' rid = rid_domain st w' rid
        \<or> w' = w \<and> rid_domain st1 w' rid = None \<and> \<not> rid_in_use st1 w' rid"
      using st1(1) unfolding deleted_at_def by (elim conjE)
    ultimately show ?thesis by (metis insertCI)
  qed
  ultimately show ?thesis
    using pruning_keeps_sound [OF assms(3) es_def st1(1)] f unfolding kept by blast
qed

lemma numbers_apart:
  assumes "holds_chain cr st w d rs"
  shows "inj_on (cpw_number \<circ> scp_row) (set (checkpoint_rows st w d))"
proof -
  let ?rows = "checkpoint_rows st w d"
  have "unat (cpw_number (scp_row (?rows ! i))) = Suc i" if "i < length ?rows" for i
    using chain_numbers(1,4) [OF assms] that by simp
  then have "distinct (map (unat \<circ> cpw_number \<circ> scp_row) ?rows)" by (auto simp: distinct_conv_nth)
  then show ?thesis by (auto simp: distinct_map inj_on_def)
qed

lemma rows_sound_alike:
  assumes "rows_sound st w d base" and "\<And>rid. rid_domain st' w rid = rid_domain st w rid"
    and "\<And>r. or_workspace r = w \<Longrightarrow> r \<in> set (st_operations st') \<longleftrightarrow> r \<in> set (st_operations st)"
    and "\<And>c. cvr_workspace c = w \<Longrightarrow> c \<in> set (st_covers st') \<longleftrightarrow> c \<in> set (st_covers st)"
  shows "rows_sound st' w d base"
  unfolding rows_sound_def assms(2)
proof (intro conjI ballI impI)
  fix r assume "r \<in> set (st_operations st')" "or_workspace r = w"
  then show "rid_domain st w (or_rid r) = Some (or_domain r)" using assms(1,3) by (simp add: rows_sound_def)
next
  fix c assume "c \<in> set (st_covers st')" "cvr_workspace c = w"
  then have c: "c \<in> set (st_covers st)" "cvr_workspace c = w" using assms(4) by simp_all
  then show "rid_domain st w (cvr_rid c) = Some (cvr_domain c)" using assms(1) by (simp add: rows_sound_def)
  assume "cvr_domain c = d \<and> base < cvr_by_seq c"
  then obtain r where "r \<in> set (st_operations st)" "or_workspace r = w" "or_rid r = cvr_rid c" "or_seq r = cvr_by_seq c"
    using assms(1) c unfolding rows_sound_def by blast
  then show "\<exists>r \<in> set (st_operations st'). or_workspace r = w \<and> or_rid r = cvr_rid c \<and> or_seq r = cvr_by_seq c"
    using assms(3) by blast
qed

lemma pruning_keeps_live:
  assumes "checkpoint_inv cr st w' d'" and "deleted_at w d (pruned_seqs es) (pre_seq ` set es) st st1"
    and "cleared_below w d f st1 st'" and "es = prunable_entries st w d (scan_of st w d after f) batch"
    and "tables_sound st w" and "settled st w d after f"
    and "w' = w \<and> d' = d \<longrightarrow> f \<le> covered_of (newest_checkpoint st w d)"
  shows "keeps_live st st' w' d'"
proof -
  obtain rs where chain: "holds_chain cr st w' d' rs" using assms(1) by (auto simp: checkpoint_inv_def)
  obtain h where h: "head_seq_of st w' d' = Some h" "h \<le> INTEGER_MAX" using chain by (auto simp: holds_chain_def)
  let ?base = "covered_of (map_option scp_row (newest_row st w' d'))"
  have base: "?base = covered_of (newest_checkpoint st w' d')" using newest_is_last [OF chain] by simp
  have rows1: "checkpoint_rows st1 w0 d0 = checkpoint_rows st w0 d0" for w0 d0
    using assms(2) by (simp add: checkpoint_rows_def deleted_at_def)
  obtain g where g: "st_checkpoints st' = map g (st_checkpoints st1)"
    "\<And>c. row_kept (g c) = row_kept c" "\<And>c. scp_workspace (g c) = scp_workspace c" "\<And>c. scp_domain (g c) = scp_domain c"
    "\<And>c. g c = c \<or> scp_workspace c = w \<and> scp_domain c = d \<and> (\<exists>x \<in> set (checkpoint_rows st w d).
        cpw_number (scp_row x) = cpw_number (scp_row c) \<and> cpw_covered_seq (scp_row x) < at_most f)"
    using assms(3) unfolding cleared_below_def rows1 by auto
  have rows: "checkpoint_rows st' w' d' = map g (checkpoint_rows st w' d')"
    unfolding checkpoint_rows_def g(1) filter_map comp_def g(3,4)
    using rows1 [of w' d'] by (simp add: checkpoint_rows_def)
  have last1: "g (last (checkpoint_rows st w' d')) = last (checkpoint_rows st w' d')" if ne: "checkpoint_rows st w' d' \<noteq> []"
  proof (rule ccontr)
    let ?l = "last (checkpoint_rows st w' d')"
    assume "g ?l \<noteq> ?l"
    moreover have l: "?l \<in> set (checkpoint_rows st w' d')" by (rule last_in_set [OF ne])
    ultimately obtain x where x: "w' = w" "d' = d" "x \<in> set (checkpoint_rows st w d)"
      "cpw_number (scp_row x) = cpw_number (scp_row ?l)" "cpw_covered_seq (scp_row x) < at_most f"
      using g(5) [of ?l] by (auto simp: checkpoint_rows_def)
    have "inj_on (cpw_number \<circ> scp_row) (set (checkpoint_rows st w' d'))" by (rule numbers_apart [OF chain])
    then have "x = ?l" by (rule inj_onD) (use x l in simp_all)
    moreover have "newest_checkpoint st w d = Some (scp_row ?l)"
      using newest_is_last [OF chain] ne x(1,2) by (simp add: newest_row_def)
    ultimately show False using x assms(7) by (auto simp: covered_of_def at_most_def split: if_splits)
  qed
  have "rows_sound st1 w' d' ?base"
  proof (cases "w' = w")
    case True
    then show ?thesis using tables_rows_sound [OF pruning_keeps_sound [OF assms(5,4,2)]] by simp
  next
    case False
    have "rows_sound st w' d' ?base" using assms(1) unfolding base by (simp add: checkpoint_inv_def)
    moreover have "rid_domain st1 w' rid = rid_domain st w' rid" for rid
      using assms(2) False unfolding deleted_at_def by blast
    moreover have "r \<in> set (st_operations st1) \<longleftrightarrow> r \<in> set (st_operations st)" if "or_workspace r = w'" for r
      using kept_operations(1) [OF assms(2)] that False by simp
    moreover have "c \<in> set (st_covers st1) \<longleftrightarrow> c \<in> set (st_covers st)" if "cvr_workspace c = w'" for c
      using kept_operations(2) [OF assms(2)] that False by simp
    ultimately show ?thesis by (rule rows_sound_alike)
  qed
  moreover have "live_leaves st' w' d' at {} = live_leaves st w' d' at {}" if "?base \<le> at" for at
    using pruning_keeps_leaves [OF assms(5,6,4,2), of w' d' at] that assms(7) unfolding base
    by (auto simp: cleared_tables [OF assms(3)] intro: order_trans)
  moreover have "head_seq_of st' = head_seq_of st" using assms(2,3) by (simp add: deleted_at_def cleared_below_def)
  moreover have "map row_kept (checkpoint_rows st' w' d') = map row_kept (checkpoint_rows st w' d')"
    by (simp add: rows comp_def g(2))
  moreover have "newest_row st' w' d' = newest_row st w' d'"
    using last1 by (simp add: newest_row_def Let_def rows last_map)
  ultimately show ?thesis
    using h unfolding keeps_live_def Let_def by (simp add: cleared_tables [OF assms(3)])
qed


text \<open>
  C15. Such a batch is a step of every domain's checkpoint run, of the pruned one's too while its floor
  does not pass its newest checkpoint: its rows stay but for what it clears below the floor, a plan
  made before can be committed after, and the newest checkpoint's bucket hashes remain those of its live set.
\<close>

theorem pruning_continues_run:
  assumes "checkpoint_run cr w' d' st planned" and "prune_batch w d after now batch st = Inr ((n, next1), st')"
    and "retention_floor_of st w d = Some f" and "tables_sound st w" and "settled st w d after f"
    and "w' = w \<and> d' = d \<longrightarrow> f \<le> covered_of (newest_checkpoint st w d)"
  shows "checkpoint_run cr w' d' st' planned"
proof -
  define es where "es = prunable_entries st w d (scan_of st w d after f) batch"
  obtain st1 where "deleted_at w d (pruned_seqs es) (pre_seq ` set es) st st1" "cleared_below w d f st1 st'"
    unfolding es_def by (rule prune_batchD [OF assms(2,3)])
  then have "keeps_live st st' w' d'"
    using pruning_keeps_live [OF _ _ _ es_def assms(4-6)] run_inv [OF assms(1)] by blast
  then show ?thesis by (rule run_other [OF assms(1)])
qed

subsection \<open>Pruning a domain\<close>

definition rows_left :: "store \<Rightarrow> nat" where
  "rows_left st = card (dom (bt_get (st_entries st))) + kept_buckets st"

text \<open>Every batch that asks for another one deletes an entry or clears a checkpoint.\<close>

lemma batch_progress:
  assumes "prune_batch w d after now batch st = Inr ((n, Some a), st')"
  shows "rows_left st' < rows_left st"
proof -
  obtain f where f: "retention_floor_of st w d = Some f"
    using assms by (cases "store_domain st w d") (auto simp: prune_batch_def dest: retention_floor_row)
  define es where "es = prunable_entries st w d (scan_of st w d after f) batch"
  obtain st1 where st1: "deleted_at w d (pruned_seqs es) (pre_seq ` set es) st st1" "cleared_below w d f st1 st'"
    and progress: "if es = [] then kept_buckets st' < kept_buckets st else a = pre_seq (last es)"
    unfolding es_def by (rule prune_batchD [OF assms f]) (auto split: if_splits)
  have entries: "bt_get (st_entries st') = (\<lambda>k. if k \<in> (\<lambda>s. (w, d, s)) ` pre_seq ` set es then None else bt_get (st_entries st) k)"
    using st1 by (simp add: deleted_at_def cleared_below_def)
  then have sub: "dom (bt_get (st_entries st')) \<subseteq> dom (bt_get (st_entries st))" by (auto split: if_splits)
  obtain g where g: "st_checkpoints st' = map g (st_checkpoints st)" "\<And>c. scp_buckets c = None \<Longrightarrow> scp_buckets (g c) = None"
    using st1 by (auto simp: deleted_at_def cleared_below_def)
  have "length (filter (\<lambda>c. scp_buckets (g c) \<noteq> None) xs) \<le> length (filter (\<lambda>c. scp_buckets c \<noteq> None) xs)" for xs
    using g(2) by (induction xs) auto
  then have buckets: "kept_buckets st' \<le> kept_buckets st"
    by (simp add: kept_buckets_def g(1) filter_map comp_def del: not_None_eq)
  show ?thesis
  proof (cases "es = []")
    case True
    then show ?thesis using progress card_mono [OF bt_finite_dom sub] by (simp add: rows_left_def)
  next
    case False
    obtain e where e: "e \<in> set es" using False by (cases es) auto
    then have "(w, d, pre_seq e) \<in> dom (bt_get (st_entries st))" "(w, d, pre_seq e) \<notin> dom (bt_get (st_entries st'))"
      using prunable_entry(1) [OF refl es_def e] by (auto simp: entries)
    then have "dom (bt_get (st_entries st')) \<subset> dom (bt_get (st_entries st))" using sub by blast
    from psubset_card_mono [OF bt_finite_dom this] show ?thesis using buckets by (simp add: rows_left_def)
  qed
qed

text \<open>
  Every batch is a transaction of its own, so an error leaves what the batches before it committed;
  \<open>clock\<close> is the time of each.
\<close>

function prune_loop ::
  "ident \<Rightarrow> ident \<Rightarrow> (nat \<Rightarrow> u64) \<Rightarrow> nat \<Rightarrow> nat \<Rightarrow> u64 \<Rightarrow> u64 \<Rightarrow> store \<Rightarrow> (store_error + u64) \<times> store" where
  "prune_loop w d clock batch i from pruned st =
     (case prune_batch w d from (clock i) batch st of
        Inl e \<Rightarrow> (Inl e, st)
      | Inr ((count, None), st') \<Rightarrow> (Inr (pruned + count), st')
      | Inr ((count, Some after), st') \<Rightarrow> prune_loop w d clock batch (Suc i) after (pruned + count) st')"
  by pat_completeness auto

termination
  by (relation "measure (\<lambda>(_, _, _, _, _, _, _, st). rows_left st)") (auto intro: batch_progress)

declare prune_loop.simps [simp del]

definition prune_domain :: "ident \<Rightarrow> ident \<Rightarrow> (nat \<Rightarrow> u64) \<Rightarrow> nat \<Rightarrow> store \<Rightarrow> (store_error + u64) \<times> store" where
  "prune_domain w d clock batch st = prune_loop w d clock batch 0 0 0 st"

lemma prune_loop_keeps:
  assumes "retention_floor_of st w d = Some f" and "tables_sound st w" and "settled st w d from f"
    and "rid_domain st w rid = Some d \<longrightarrow> f \<le> at" and "prune_loop w d clock batch i from pruned st = (r, st')"
  shows "live_ops st' w rid at = live_ops st w rid at \<and> rid_domain st' w rid \<in> {rid_domain st w rid, None} \<and> tables_sound st' w
    \<and> (batch \<noteq> 0 \<and> r \<in> range Inr \<longrightarrow> settled st' w d through f)"
  using assms
proof (induction w d clock batch i "from" pruned st rule: prune_loop.induct)
  case (1 w d clock batch i "from" pruned st)
  consider e where "prune_batch w d from (clock i) batch st = Inl e"
    | count st1 where "prune_batch w d from (clock i) batch st = Inr ((count, None), st1)"
    | count a st1 where "prune_batch w d from (clock i) batch st = Inr ((count, Some a), st1)"
    by (cases "prune_batch w d from (clock i) batch st") (auto, metis option.exhaust)
  then show ?case
  proof cases
    case (1 e)
    then have "prune_loop w d clock batch i from pruned st = (Inl e, st)" by (subst prune_loop.simps) simp
    then show ?thesis using "1.prems" by auto
  next
    case (2 count st1)
    then have "prune_loop w d clock batch i from pruned st = (Inr (pruned + count), st1)" by (subst prune_loop.simps) simp
    then have "r = Inr (pruned + count)" "st' = st1" using "1.prems"(5) by simp_all
    then show ?thesis using prune_keeps_live_sets [OF 2 "1.prems"(1-3)] "1.prems"(4) by auto
  next
    case (3 count a st1)
    then have "prune_loop w d clock batch i from pruned st = prune_loop w d clock batch (Suc i) a (pruned + count) st1"
      by (subst prune_loop.simps) simp
    then have rec: "prune_loop w d clock batch (Suc i) a (pruned + count) st1 = (r, st')" using "1.prems"(5) by simp
    note step = prune_keeps_live_sets [OF 3 "1.prems"(1-3), of rid at]
    then have "rid_domain st1 w rid = Some d \<longrightarrow> f \<le> at" using "1.prems"(4) by auto
    from "1.IH" [OF 3 refl refl refl _ _ _ this rec] show ?thesis using step "1.prems"(4) by auto
  qed
qed


lemma prune_domain_exact:
  assumes "prune_domain w d clock batch st = (r, st')" and "batch \<noteq> 0"
    and "retention_floor_of st w d = Some f" and "tables_sound st w"
    and "rid_domain st w rid = Some d \<longrightarrow> f \<le> at"
  shows "live_ops st' w rid at = live_ops st w rid at
    \<and> (\<forall>count. r = Inr count \<longrightarrow> (\<forall>x \<in> set (st_operations st'). or_workspace x = w \<and> or_domain x = d
        \<longrightarrow> \<not> covered_through st' x (at_most f)))"
proof -
  have all: "live_ops st' w rid at = live_ops st w rid at \<and> rid_domain st' w rid \<in> {rid_domain st w rid, None} \<and> tables_sound st' w
      \<and> (batch \<noteq> 0 \<and> r \<in> range Inr \<longrightarrow> settled st' w d (- 1) f)"
    using prune_loop_keeps [OF assms(3,4) settled_start [OF assms(4)] assms(5)] assms(1) by (simp add: prune_domain_def)
  moreover have "or_seq x \<le> at_most (- 1)" if "x \<in> set (st_operations st')" "or_workspace x = w" "or_domain x = d" for x
  proof -
    have "or_seq x \<le> INTEGER_MAX" using tables_soundD(3) all that by blast
    then show ?thesis by (simp add: at_most_def)
  qed
  ultimately show ?thesis using assms(2) by (auto simp: settled_def)
qed

text \<open>A floor that rises stays at or below the newest checkpoint's sequence, and none falls.\<close>

lemma persist_floor_bounds:
  assumes "persist_floor retained w d forced st = Inr ((f, raised), st')" and "retention_floor_of st w d = Some f0"
    and "store_domain st w d = Some row" and "f0 \<le> dr_checkpoint_seq row"
  shows "retention_floor_of st' w d = Some f" and "f0 \<le> f" and "f \<le> dr_checkpoint_seq row"
  using assms by (auto simp: persist_floor_def set_retention_floor_def int_column_def retention_floor_of_def Let_def
      store_domain_def domain_columns.defs min_def max_def split: if_splits)

end
