(* ===== verification/Retention_Runs.thy ===== *)
theory Retention_Runs
  imports Retention_Theorems Server_Buckets Push_Log
begin

text \<open>
  Every run of pushes, checkpoint commits, rising floors and prunings keeps the tables sound, so pruning
  keeps the live sets of whatever such a run built.
\<close>

subsection \<open>Appends and dropped deletes\<close>

definition sound_parts :: "store \<Rightarrow> _" where
  "sound_parts st = (st_operations st, st_covers st, rid_domain st, chain_head_at st, bt_get (st_entries st), head_seq_of st)"

lemma sound_parts_same: "sound_parts st' = sound_parts st \<Longrightarrow> tables_sound st' w = tables_sound st w"
  by (simp add: sound_parts_def tables_sound_def row_sound_def cover_sound_def op_at_def)

lemma same_sound_parts: "same_tables st st' \<Longrightarrow> sound_parts st' = sound_parts st"
  by (simp add: same_tables_def core_tables_def sound_parts_def rid_domain_def chain_head_at_def fun_eq_iff)

lemma append_sound:
  assumes "append_entry w' d t bs st = Inr (seqno, st')" and "tables_sound st w"
  shows "tables_sound st' w"
proof -
  obtain c where c: "bt_get (st_domains st) (w', d) = Some c" "seqno = dr_head_seq c + 1" "dr_head_seq c < INTEGER_MAX"
    "bt_get (st_entries st) (w', d, seqno) = None"
    "st' = st\<lparr>st_domains := bt_insert (w', d) (c\<lparr>dr_head_seq := seqno\<rparr>) (st_domains st),
        st_entries := bt_insert (w', d, seqno) (t, bs) (st_entries st)\<rparr>"
    by (rule append_entryD [OF assms(1)])
  have same: "st_operations st' = st_operations st" "st_covers st' = st_covers st" "rid_domain st' = rid_domain st"
    "chain_head_at st' = chain_head_at st" "op_at st' = op_at st"
    using c(5) by (simp_all add: rid_domain_def chain_head_at_def op_at_def fun_eq_iff)
  have "row_sound st' r" if "row_sound st r" for r
  proof -
    have rises: "dr_head_seq c \<le> seqno" using rises_below [OF c(3)] c(2) by simp
    have "head_seq_of st' (or_workspace r) (or_domain r) = (if or_workspace r = w' \<and> or_domain r = d then Some seqno
        else head_seq_of st (or_workspace r) (or_domain r))"
      by (auto simp: c(5) head_seq_of_def)
    moreover have "head_seq_of st w' d = Some (dr_head_seq c)" using c(1) by (simp add: head_seq_of_def)
    ultimately have "\<exists>h. head_seq_of st' (or_workspace r) (or_domain r) = Some h \<and> or_seq r \<le> h"
      using that rises unfolding row_sound_def by (metis option.inject order_trans)
    moreover have "\<exists>bs. bt_get (st_entries st') (or_workspace r, or_domain r, or_seq r) = Some (ENTRY_OPERATION, bs)"
      using that c(4) unfolding row_sound_def c(5) by auto
    ultimately show ?thesis using that unfolding row_sound_def same by simp
  qed
  moreover have "cover_sound st' x \<longleftrightarrow> cover_sound st x" for x by (simp add: cover_sound_def same)
  ultimately show ?thesis using assms(2) by (simp add: tables_sound_def same)
qed

lemma find_mapped: "(\<And>x. P (f x) = P x) \<Longrightarrow> find P (map f xs) = map_option f (find P xs)"
  by (induction xs) auto

lemma dropped_sound:
  assumes "with_dropped w' ks st st'" and "tables_sound st w"
  shows "tables_sound st' w"
proof -
  let ?m = "mark_dropped w' ks"
  have ops: "st_operations st' = map ?m (st_operations st)" and same: "st_covers st' = st_covers st"
    "rid_domain st' = rid_domain st" "chain_head_at st' = chain_head_at st" "head_seq_of st' = head_seq_of st"
    "st_entries st' = st_entries st"
    using assms(1) by (simp_all add: with_dropped_def rid_domain_def chain_head_at_def fun_eq_iff)
  have "op_at st' w0 d s = map_option ?m (op_at st w0 d s)" for w0 d s
    unfolding op_at_def ops by (rule find_mapped) simp
  then have "row_sound st' (?m r)" if "row_sound st r" for r
    using that unfolding row_sound_def same by simp
  moreover have "cover_sound st' c" if "cover_sound st c" for c
    using that unfolding cover_sound_def same ops by auto
  moreover have "row_covered c (?m r) = row_covered c r" for c r by (simp add: row_covered_def)
  ultimately show ?thesis using assms(2) unfolding tables_sound_def ops same by auto
qed

subsection \<open>A commit and a raised floor\<close>

lemma commit_sound:
  assumes "commit_checkpoint_locked cr p sess w' bundle pl floor_setting st = Inr (r, st')" and "tables_sound st w"
  shows "tables_sound st' w"
proof (cases "st' = st")
  case False
  obtain row where "write_checkpoint cr w' bundle pl row st = Inr (r, st')" by (rule commit_writes [OF assms(1) False])
  then obtain d bs seqno st1 x buckets st2 st3 pr st4 where steps: "append_entry w' d ENTRY_CHECKPOINT bs st = Inr (seqno, st1)"
    "insert_checkpoint w' d x buckets st1 = Inr st2" "try_fold (drop_step w' d) st2 (cpl_dropped pl) = Inr st3"
    "set_checkpoint_progress w' d pr st3 = Inr st4" "(if cpl_dropped pl = [] then Inr st4 else set_pruned_floor w' d 0 st4) = Inr st'"
    unfolding write_checkpoint_def Let_def and_then_Inr_iff split_paired_Ex prod.case sum.inject prod.inject by blast
  have "sound_parts st2 = sound_parts st1"
    using steps(2) by (auto simp: insert_checkpoint_def int_column_def sound_parts_def rid_domain_def chain_head_at_def
        head_seq_of_def option.map_comp comp_def fun_eq_iff split: if_splits)
  then have "tables_sound st2 w" using append_sound [OF steps(1) assms(2)] sound_parts_same by blast
  then have "tables_sound st3 w" using dropped_sound [OF drop_fold [OF steps(3)]] by blast
  moreover have "same_tables st3 st'"
    using same_tables_progress [OF steps(4)] same_pruned_floor steps(5) same_tables_trans by (auto split: if_splits)
  ultimately show ?thesis using sound_parts_same [OF same_sound_parts] by blast
qed (use assms(2) in simp)

lemma persist_sound:
  assumes "persist_floor kept_bytes w' d forced st = Inr (r, st')" and "tables_sound st w"
  shows "tables_sound st' w"
proof -
  have "same_tables st st'"
    using assms(1) by (auto simp: persist_floor_def set_retention_floor_def int_column_def Let_def same_tables_def core_tables_def
        head_seq_of_def option.map_comp comp_def fun_eq_iff split: option.splits if_splits)
  then show ?thesis using sound_parts_same [OF same_sound_parts] assms(2) by blast
qed


subsection \<open>A push\<close>

lemma push_sound:
  assumes "apply_operation cr p interval quota generation w' pushed st = Inr (r, st')" and "tables_sound st w"
  shows "tables_sound st' w"
  using apply_operation_cases [OF assms(1)]
proof (elim disjE exE conjE)
  assume "st' = st"
  then show ?thesis using assms(2) by simp
next
  fix row class1 assume fresh: "accepted_fresh cr p generation w' pushed st row class1 r st'"
  let ?b = "body (po_op pushed)"
  let ?d = "op_domain ?b" and ?rid = "op_rid ?b" and ?device = "op_device ?b"
  obtain y st1 where written: "write_operation w' ?d y st = Inr st1" and same: "same_tables st1 st'"
    and y: "ow_op y = live_op_of cr (po_op pushed) (dr_head_seq row + 1)" "ow_new_rid y \<longleftrightarrow> rid_domain st w' ?rid = None"
      "chr_counter (ow_chain_head y) = op_counter ?b"
    and rid: "rid_domain st w' ?rid = None \<or> rid_domain st w' ?rid = Some ?d"
    and position: "check_position st w' generation ?b row (chain_head_at st w' ?d ?device) = Inr ()"
    and judged: "\<forall>c \<in> set (op_supersedes ?b). op_exists st w' ?rid (cov_device c) (cov_counter c)"
    using fresh unfolding accepted_fresh_def Let_def judge_live_def by (auto simp: list_ex_iff split: if_splits)
  let ?s = "dr_head_seq row + 1"
  have x: "lo_rid (ow_op y) = ?rid" "lo_seq (ow_op y) = ?s" "lo_device (ow_op y) = ?device" "lo_counter (ow_op y) = op_counter ?b"
    "lo_covers (ow_op y) = op_supersedes ?b"
    by (simp_all add: y(1) live_op_of_def)
  define nr nc where "nr = op_row w' ?d (ow_op y) (ow_class y)" and "nc = cover_row_of w' ?d (ow_op y)"
  note wrote = write_operationD [OF written]
  have st': "st_operations st' = st_operations st @ [nr]"
    "st_covers st' = st_covers st @ map nc (op_supersedes ?b)"
    "rid_domain st' = (rid_domain st)(w' := (rid_domain st w')(?rid := Some ?d))"
    "chain_head_at st' = (\<lambda>w d device. if (w, d, device) = (w', ?d, ?device) then Some (ow_chain_head y) else chain_head_at st w d device)"
    "bt_get (st_entries st') = (bt_get (st_entries st))((w', ?d, ?s) := Some (ENTRY_OPERATION, ow_record y))"
    "head_seq_of st' = (head_seq_of st)(w' := (head_seq_of st w')(?d := Some ?s))"
    using wrote(1-6) same x y(2) rid
    by (auto simp: same_tables_def core_tables_def nr_def nc_def rid_domain_def chain_head_at_def fun_eq_iff split: if_splits)
  obtain k where k: "head_seq_of st w' ?d = Some k" "k < INTEGER_MAX" "?s = k + 1" using wrote(7) x(2) by auto
  have room: "k < ?s" "?s \<le> INTEGER_MAX" "0 < ?s" using head_room [OF k(2)] k(3) order_le_less_trans [of 0 k "k + 1"] by auto
  have raised: "\<exists>h'. chain_head_at st' w0 d0 device = Some h' \<and> counter \<le> chr_counter h'"
    if "\<exists>h. chain_head_at st w0 d0 device = Some h \<and> counter \<le> chr_counter h" for w0 d0 device counter
    using that position y(3) by (auto simp: st'(4) check_position_def Let_def not_le split: if_splits)
  have nr: "or_workspace nr = w'" "or_domain nr = ?d" "or_seq nr = ?s" "or_rid nr = ?rid" "or_device nr = ?device" "or_counter nr = op_counter ?b"
    by (simp_all add: nr_def op_row_def x)
  have nc: "cvr_workspace (nc c) = w'" "cvr_domain (nc c) = ?d" "cvr_by_seq (nc c) = ?s" "cvr_rid (nc c) = ?rid"
    "cvr_device (nc c) = cov_device c" "cvr_counter (nc c) = cov_counter c" for c
    by (simp_all add: nc_def cover_row_of_def x)
  have op_old: "op_at st' w0 d0 s = op_at st w0 d0 s" if "op_at st w0 d0 s \<noteq> None" for w0 d0 s
    using that by (auto simp: op_at_def st'(1) find_appended split: option.splits)
  have op_new: "op_at st' w' ?d ?s = Some nr"
  proof -
    have "find (\<lambda>r. or_workspace r = w' \<and> or_domain r = ?d \<and> or_seq r = ?s) (st_operations st) = None"
      using wrote(8) x(2) by (auto simp: find_None_iff)
    then show ?thesis by (simp add: op_at_def st'(1) find_appended nr)
  qed
  have old: "row_sound st' r" if r: "row_sound st r" for r
  proof -
    have "rid_domain st' (or_workspace r) (or_rid r) = Some (or_domain r)" using r rid by (auto simp: row_sound_def st'(3))
    moreover have "op_at st' (or_workspace r) (or_domain r) (or_seq r) = Some r" using r op_old by (simp add: row_sound_def)
    moreover have "\<exists>h. head_seq_of st' (or_workspace r) (or_domain r) = Some h \<and> or_seq r \<le> h"
      using r k room(1) by (auto simp: row_sound_def st'(6) intro: order_trans less_imp_le)
    moreover have "\<exists>bs. bt_get (st_entries st') (or_workspace r, or_domain r, or_seq r) = Some (ENTRY_OPERATION, bs)"
      using r by (auto simp: row_sound_def st'(5))
    ultimately show ?thesis using r raised by (simp add: row_sound_def)
  qed
  have "row_sound st' nr"
    using room op_new y(3) by (auto simp: row_sound_def nr st'(3-6))
  moreover have "cover_sound st' c" if c: "cover_sound st c" for c
  proof -
    have "rid_domain st' (cvr_workspace c) (cvr_rid c) = Some (cvr_domain c)" using c rid by (auto simp: cover_sound_def st'(3))
    then show ?thesis using c raised by (auto simp: cover_sound_def st'(1))
  qed
  moreover have "cover_sound st' (nc c)" if c: "c \<in> set (op_supersedes ?b)" and "w' = w" for c
  proof -
    obtain r where r: "r \<in> set (st_operations st)" "or_workspace r = w'" "or_rid r = ?rid" "or_device r = cov_device c"
      "or_counter r = cov_counter c"
      using judged c by (auto simp: op_exists_def list_ex_iff)
    then have "row_sound st' r" using assms(2) old \<open>w' = w\<close> by (simp add: tables_sound_def)
    then have "\<exists>h. chain_head_at st' w' ?d (cov_device c) = Some h \<and> cov_counter c \<le> chr_counter h"
      using r by (auto simp: row_sound_def st'(3))
    then show ?thesis by (auto simp: cover_sound_def nc st'(1,3) nr)
  qed
  moreover have "or_seq r < cvr_by_seq c"
    if r: "r \<in> set (st_operations st')" and c: "c \<in> set (st_covers st')" and w: "or_workspace r = w" and cov: "row_covered c r" for r c
  proof -
    have c': "cvr_workspace c = w" using cov w by (simp add: row_covered_def)
    have behind: "\<not> op_counter ?b \<le> cnt"
      if "\<exists>h. chain_head_at st w' ?d ?device = Some h \<and> cnt \<le> chr_counter h" for cnt
      using that position by (auto simp: check_position_def Let_def not_le split: if_splits)
    have held: "\<exists>h. chain_head_at st w' ?d (cov_device x) = Some h \<and> cov_counter x \<le> chr_counter h"
      if x1: "x \<in> set (op_supersedes ?b)" and "w' = w" for x
    proof -
      obtain q where q: "q \<in> set (st_operations st)" "or_workspace q = w'" "or_rid q = ?rid" "or_device q = cov_device x"
        "or_counter q = cov_counter x"
        using judged x1 by (auto simp: op_exists_def list_ex_iff)
      then have "row_sound st q" using assms(2) \<open>w' = w\<close> by (simp add: tables_sound_def)
      then show ?thesis using q rid by (auto simp: row_sound_def)
    qed
    consider "r \<in> set (st_operations st)" "c \<in> set (st_covers st)" | "r = nr" "c \<in> set (st_covers st)"
      | x where "r \<in> set (st_operations st)" "x \<in> set (op_supersedes ?b)" "c = nc x"
      | x where "r = nr" "x \<in> set (op_supersedes ?b)" "c = nc x"
      using r c by (auto simp: st'(1,2))
    then show ?thesis
    proof cases
      case 1
      then show ?thesis using tables_soundD(6) [OF assms(2) _ w] cov by blast
    next
      case 2
      then have "cover_sound st c" using assms(2) c' by (simp add: tables_sound_def)
      then have "\<exists>h. chain_head_at st w' ?d ?device = Some h \<and> cvr_counter c \<le> chr_counter h"
        using cov 2 rid by (auto simp: row_covered_def nr cover_sound_def)
      then show ?thesis using behind cov 2 by (auto simp: row_covered_def nr)
    next
      case (3 x)
      then have "row_sound st r" using assms(2) w by (simp add: tables_sound_def)
      then have "or_seq r \<le> k" using 3 cov rid k(1) by (auto simp: row_sound_def row_covered_def nc)
      then show ?thesis using 3 room(1) by (simp add: nc)
    next
      case (4 x)
      then have "w' = w" using w by (simp add: nr)
      then have "\<exists>h. chain_head_at st w' ?d ?device = Some h \<and> cov_counter x \<le> chr_counter h"
        using held [OF 4(2)] 4 cov by (auto simp: row_covered_def nr nc)
      then show ?thesis using behind 4 cov by (auto simp: row_covered_def nr nc)
    qed
  qed
  ultimately show ?thesis using assms(2) old unfolding tables_sound_def by (auto simp: st'(1,2) nr nc)
qed


subsection \<open>Pruning, in its own workspace and beside others\<close>

lemma deleted_elsewhere:
  assumes "deleted_at w d S E st st'" and "w0 \<noteq> w" and "tables_sound st w0"
  shows "tables_sound st' w0"
proof -
  note kept = kept_operations [OF assms(1)]
  have same: "rid_domain st' w0 rid = rid_domain st w0 rid" "chain_head_at st' = chain_head_at st" "head_seq_of st' = head_seq_of st"
    "bt_get (st_entries st') (w0, d0, s) = bt_get (st_entries st) (w0, d0, s)" "op_at st' w0 d0 s = op_at st w0 d0 s" for rid d0 s
    using assms(1,2) by (auto simp: deleted_at_def chain_head_at_def op_at_def fun_eq_iff intro!: find_filter_kept)
  have "row_sound st' r" if "row_sound st r" "or_workspace r = w0" for r
    using that by (simp add: row_sound_def same)
  moreover have "cover_sound st' c" if "cover_sound st c" "cvr_workspace c = w0" for c
    using that kept(1) assms(2) unfolding cover_sound_def same by (metis same(1))
  moreover have "or_seq r < cvr_by_seq c"
    if "r \<in> set (st_operations st')" "c \<in> set (st_covers st')" "or_workspace r = w0" "row_covered c r" for r c
    using tables_soundD(6) [OF assms(3)] kept(1,2) that by blast
  ultimately show ?thesis
    using assms(3) kept(1,2) unfolding tables_sound_def by blast
qed

text \<open>What every batch keeps, the loop keeps, however it ends.\<close>

lemma prune_loop_steps:
  assumes "prune_loop w d clock batch i from pruned st = (r, st')" and "P st"
    and "\<And>from now n next1 s s'. P s \<Longrightarrow> prune_batch w d from now batch s = Inr ((n, next1), s') \<Longrightarrow> P s'"
  shows "P st'"
  using assms
proof (induction w d clock batch i "from" pruned st rule: prune_loop.induct)
  case (1 w d clock batch i "from" pruned st)
  show ?case
  proof (cases "prune_batch w d from (clock i) batch st")
    case (Inl e)
    then have "prune_loop w d clock batch i from pruned st = (Inl e, st)" by (subst prune_loop.simps) simp
    then show ?thesis using "1.prems" by simp
  next
    case (Inr x)
    obtain count next1 st1 where x: "x = ((count, next1), st1)" by (metis surj_pair)
    note batch = Inr [unfolded x]
    show ?thesis
    proof (cases next1)
      case None
      then have "prune_loop w d clock batch i from pruned st = (Inr (pruned + count), st1)"
        using batch by (subst prune_loop.simps) simp
      then show ?thesis using "1.prems"(1) "1.prems"(3) [OF "1.prems"(2) batch] by simp
    next
      case (Some a)
      then have "prune_loop w d clock batch i from pruned st = prune_loop w d clock batch (Suc i) a (pruned + count) st1"
        using batch by (subst prune_loop.simps) simp
      then show ?thesis
        using "1.IH" [OF batch refl refl Some _ _ "1.prems"(3)] "1.prems"(1) "1.prems"(3) [OF "1.prems"(2) batch] by simp
    qed
  qed
qed

lemma prune_loop_elsewhere:
  assumes "prune_loop w d clock batch i from pruned st = (r, st')" and "w0 \<noteq> w" and "tables_sound st w0"
  shows "tables_sound st' w0"
proof (rule prune_loop_steps [where P = "\<lambda>s. tables_sound s w0", OF assms(1,3)])
  fix "from" now n next1 s s'
  assume sound: "tables_sound s w0" and batch: "prune_batch w d from now batch s = Inr ((n, next1), s')"
  show "tables_sound s' w0"
  proof (cases "retention_floor_of s w d")
    case None
    then have "s' = s" using batch by (auto simp: prune_batch_def retention_floor_of_def store_domain_def)
    then show ?thesis using sound by simp
  next
    case (Some f)
    obtain s1 S E where s1: "deleted_at w d S E s s1" "cleared_below w d f s1 s'"
      using prune_batchD [OF batch Some] by metis
    show ?thesis
      using deleted_elsewhere [OF s1(1) assms(2) sound] unfolding cleared_tables(1) [OF s1(2)] .
  qed
qed

lemma prune_sound:
  assumes "prune_domain w' d clock batch st = (r, st')" and "tables_sound st w"
  shows "tables_sound st' w"
proof (cases "w' = w")
  case True
  show ?thesis
  proof (cases "retention_floor_of st w d")
    case None
    then have "store_domain st w d = None" by (auto simp: retention_floor_of_def store_domain_def)
    then have "prune_domain w d clock batch st = (Inr 0, st)"
      unfolding prune_domain_def by (subst prune_loop.simps) (simp add: prune_batch_def)
    then show ?thesis using assms True by simp
  next
    case (Some f)
    show ?thesis
      using prune_loop_keeps [OF Some assms(2) settled_start [OF assms(2)], of _ f] assms(1) True by (simp add: prune_domain_def)
  qed
next
  case False
  then show ?thesis using prune_loop_elsewhere [of w' d clock batch 0 0 0 st r st' w] assms by (simp add: prune_domain_def)
qed

subsection \<open>Runs\<close>

text \<open>Other work leaves the tables alone that live sets and chains come from.\<close>

inductive stored_run :: "crypto \<Rightarrow> store \<Rightarrow> bool" for cr where
  stored_start: "st_operations st = [] \<Longrightarrow> st_covers st = [] \<Longrightarrow> stored_run cr st"
| stored_push: "stored_run cr st \<Longrightarrow> apply_operation cr p interval quota generation w pushed st = Inr (r, st') \<Longrightarrow> stored_run cr st'"
| stored_entry: "stored_run cr st \<Longrightarrow> append_entry w d t bs st = Inr (seqno, st') \<Longrightarrow> stored_run cr st'"
| stored_commit: "stored_run cr st \<Longrightarrow> commit_checkpoint_locked cr p sess w bundle pl floor_setting st = Inr (r, st') \<Longrightarrow> stored_run cr st'"
| stored_floor: "stored_run cr st \<Longrightarrow> persist_floor kept_bytes w d forced st = Inr (r, st') \<Longrightarrow> stored_run cr st'"
| stored_prune: "stored_run cr st \<Longrightarrow> prune_domain w d clock batch st = (r, st') \<Longrightarrow> stored_run cr st'"
| stored_other: "stored_run cr st \<Longrightarrow> same_tables st st' \<Longrightarrow> stored_run cr st'"

lemma stored_tables_sound: "stored_run cr st \<Longrightarrow> tables_sound st w"
proof (induction rule: stored_run.induct)
  case (stored_start st)
  then show ?case by (simp add: tables_sound_def)
next
  case (stored_push st p interval quota generation w pushed r st')
  then show ?case using push_sound by blast
next
  case (stored_entry st w d t bs seqno st')
  then show ?case using append_sound by blast
next
  case (stored_commit st p sess w "bundle" pl floor_setting r st')
  then show ?case using commit_sound by blast
next
  case (stored_floor st kept_bytes w d forced r st')
  then show ?case using persist_sound by blast
next
  case (stored_prune st w d clock batch r st')
  then show ?case using prune_sound by blast
next
  case (stored_other st st')
  then show ?case using sound_parts_same [OF same_sound_parts] by blast
qed

text \<open>
  C14. Whatever pushes, checkpoints, rising floors and earlier prunings built the tables, pruning a domain
  ends and leaves every live set of its objects at or above the retention floor as it was, so those at every
  servable checkpoint, and every live set of other objects, also when a batch fails half-way. When
  it succeeds, no operation is left that another one at or below the floor covers.
\<close>

theorem pruning_keeps_servable:
  assumes "stored_run cr st" and "prune_domain w d clock batch st = (r, st')" and "batch \<noteq> 0"
    and "retention_floor_of st w d = Some f" and "rid_domain st w rid = Some d \<longrightarrow> f \<le> at"
  shows "live_ops st' w rid at = live_ops st w rid at
    \<and> (\<forall>count. r = Inr count \<longrightarrow> (\<forall>x \<in> set (st_operations st'). or_workspace x = w \<and> or_domain x = d
        \<longrightarrow> \<not> covered_through st' x (at_most f)))"
  by (rule prune_domain_exact [OF assms(2-4) stored_tables_sound [OF assms(1)] assms(5)])

subsection \<open>A pruning that is resumed below a risen floor\<close>

text \<open>
  A pruning goes on after a sequence while the floor has risen in between, as when another instance
  persists it between two batches: a batch reads the floor again but not what lies at or below the sequence.
\<close>

lemma live_op_row:
  assumes "tables_sound st w" and "r \<in> set (st_operations st)" and "or_workspace r = w"
    and "(row_op r, cls) \<in> set (live_ops st w (or_rid r) at)"
  shows "\<not> covered_through st r (at_most at)"
proof -
  obtain x where x: "x \<in> set (st_operations st)" "or_workspace x = w" "or_rid x = or_rid r"
    "\<not> covered_through st x (at_most at)" "row_op x = row_op r"
    using assms(4) by (auto simp: live_ops_def covered_through_def)
  then have "or_seq x = or_seq r" by (simp add: row_op_def)
  moreover have "or_domain x = or_domain r"
    using tables_soundD(1) [OF assms(1) x(1,2)] tables_soundD(1) [OF assms(1-3)] x(3) by simp
  ultimately have "Some x = Some r"
    unfolding tables_soundD(4) [OF assms(1) x(1,2), symmetric] tables_soundD(4) [OF assms(1-3), symmetric] by simp
  then have "x = r" by simp
  then show ?thesis using x(4) by simp
qed

lemma live_op_alone:
  assumes "r \<in> set (st_operations st)" and "or_workspace r = w" and "\<not> or_dropped r" and "or_seq r \<le> at_most at"
    and "\<not> covered_through st r (at_most at)"
  shows "(row_op r, or_class r) \<in> set (live_ops st w (or_rid r) at)"
  using assms by (auto simp: live_ops_def covered_through_def)

text \<open>The last batch takes every operation that it finds covered.\<close>

lemma last_batch_takes:
  assumes "tables_sound st w" and "es = prunable_entries st w d (scan_of st w d after f) batch" and "length es \<noteq> batch"
    and "x \<in> set (st_operations st)" and "or_workspace x = w" and "or_domain x = d"
    and "at_most after < or_seq x" and "or_seq x \<le> at_most f" and "covered_through st x (at_most f)"
  shows "or_seq x \<in> pruned_seqs es"
proof -
  note sound = tables_soundD [OF assms(1,4,5)]
  have "prunable st w d (scan_of st w d after f) (or_seq x) ENTRY_OPERATION"
    using sound(4) assms(6-9) by (auto simp: prunable_def scan_of_def)
  moreover obtain bs where "bt_get (st_entries st) (w, d, or_seq x) = Some (ENTRY_OPERATION, bs)" using sound(5) assms(6) by auto
  ultimately show ?thesis using prunable_entry(3) [OF refl assms(2)] assms(3) by (fastforce simp: pruned_seqs_def)
qed

text \<open>
  C30. An operation that an earlier batch passed, uncovered at the floor it had, and that is covered at
  the floor a resumed batch reads, only by operations which that batch finds covered too, comes back: no live set at or
  above the floor held it, and all of them hold it once the batch is done. Nothing covers it any more,
  so no later pruning removes it either.
\<close>

theorem resumed_prune_revives:
  assumes "prune_batch w d after now batch st = Inr ((n, None), st')" and "batch \<noteq> 0"
    and "retention_floor_of st w d = Some f" and "tables_sound st w"
    and "r \<in> set (st_operations st)" and "or_workspace r = w" and "or_domain r = d" and "\<not> or_dropped r"
    and "or_seq r \<le> at_most after" and "covered_through st r (at_most f)"
    and "\<forall>c \<in> set (st_covers st). row_covered c r \<longrightarrow> (\<exists>x \<in> set (st_operations st). or_workspace x = w \<and> or_domain x = d
      \<and> or_seq x = cvr_by_seq c \<and> at_most after < or_seq x \<and> or_seq x \<le> at_most f \<and> covered_through st x (at_most f))"
    and "f \<le> at"
  shows "(row_op r, or_class r) \<notin> set (live_ops st w (or_rid r) at)
    \<and> (row_op r, or_class r) \<in> set (live_ops st' w (or_rid r) at)
    \<and> (\<forall>c \<in> set (st_covers st'). \<not> row_covered c r)"
proof -
  define es where "es = prunable_entries st w d (scan_of st w d after f) batch"
  obtain st1 where st1: "deleted_at w d (pruned_seqs es) (pre_seq ` set es) st st1" "cleared_below w d f st1 st'"
    and "batch = 0 \<or> length es \<noteq> batch"
    unfolding es_def by (rule prune_batchD [OF assms(1,3)]) simp
  then have short: "length es \<noteq> batch" using assms(2) by simp
  have tables: "st_operations st' = st_operations st1" "st_covers st' = st_covers st1" using st1(2) by (simp_all add: cleared_below_def)
  note kept = kept_operations [OF st1(1), folded tables]
  obtain c where c: "c \<in> set (st_covers st)" "row_covered c r" "cvr_by_seq c \<le> at_most f"
    using assms(10) by (auto simp: covered_through_iff)
  have "or_seq r < cvr_by_seq c" by (rule tables_soundD(6) [OF assms(4-6) c(1,2)])
  then have r_at: "or_seq r \<le> at_most at" using c(3) at_most_mono [OF assms(12)] by order
  have "covered_through st r (at_most at)"
    using c at_most_mono [OF assms(12)] by (auto simp: covered_through_iff intro: order_trans)
  then have before: "(row_op r, or_class r) \<notin> set (live_ops st w (or_rid r) at)"
    using live_op_row [OF assms(4-6)] by blast
  have gone: "\<not> row_covered c' r" if c': "c' \<in> set (st_covers st')" for c'
  proof
    assume cov: "row_covered c' r"
    then have old: "c' \<in> set (st_covers st)" "cvr_workspace c' = w" using c' kept(2) assms(6) by (auto simp: row_covered_def)
    then obtain x where "x \<in> set (st_operations st)" "or_workspace x = w" "or_domain x = d" "or_seq x = cvr_by_seq c'"
      "at_most after < or_seq x" "or_seq x \<le> at_most f" "covered_through st x (at_most f)"
      using assms(11) cov by blast
    then have "cvr_by_seq c' \<in> pruned_seqs es" using last_batch_takes [OF assms(4) es_def short] by metis
    moreover have "cvr_domain c' = d"
      using tables_coverD(1) [OF assms(4) old] tables_soundD(1) [OF assms(4-6)] cov assms(7) by (simp add: row_covered_def)
    ultimately show False using c' kept(2) old(2) by auto
  qed
  have "or_seq r \<notin> pruned_seqs es"
  proof
    assume "or_seq r \<in> pruned_seqs es"
    then obtain e where "e \<in> set es" "pre_seq e = or_seq r" by (auto simp: pruned_seqs_def)
    then have "at_most after < or_seq r" using prunable_entry(1) [OF refl es_def] by (fastforce simp: prunable_def scan_of_def)
    then show False using assms(9) by simp
  qed
  then have "r \<in> set (st_operations st')" using kept(1) assms(5) by auto
  then have "(row_op r, or_class r) \<in> set (live_ops st' w (or_rid r) at)"
    using live_op_alone [OF _ assms(6,8) r_at] gone by (simp add: covered_through_iff)
  then show ?thesis using before gone by blast
qed

end
