(* ===== verification/Relief.thy ===== *)
theory Relief
  imports Retention_Runs
begin

text \<open>
  Relief of quota pressure (\<^verbatim>\<open>sync-store/src/retention.rs\<close>, \<section>20): the floors of a workspace's domains rise one
  checkpoint at a time until usage and history fit the quota, and what they pass is pruned.
\<close>

subsection \<open>The next floor\<close>

record domain_history =
  dh_domain :: ident
  dh_history_bytes :: int
  dh_retention_floor :: u64
  dh_checkpoint_seq :: u64

definition domain_histories :: "store \<Rightarrow> ident \<Rightarrow> store_error + domain_history list" where
  "domain_histories st w = try_fold (\<lambda>acc ((_, d), c).
       and_then (uint_column (dr_history_bytes c)) (\<lambda>history. Inr (acc @ [\<lparr>dh_domain = d, dh_history_bytes = history,
         dh_retention_floor = dr_retention_floor c, dh_checkpoint_seq = dr_checkpoint_seq c\<rparr>])))
     [] (sort_key (\<lambda>(_, c). - dr_history_bytes c)
       (filter (\<lambda>((w', _), c). w' = w \<and> \<not> dr_deleted c) (bt_entries (st_domains st))))"

text \<open>The domain whose floor rises next, and to where.\<close>

definition relief_target :: "store \<Rightarrow> ident \<Rightarrow> u64 \<Rightarrow> store_error + (ident \<times> u64) option" where
  "relief_target st w quota =
     and_then (workspace_usage_of st w) (\<lambda>u.
     and_then (domain_histories st w) (\<lambda>domains.
     let total = wu_usage u + wu_history u in
     if wu_usage u > uint quota \<or> total \<le> uint quota then Inr None
     else case find (\<lambda>x. dh_retention_floor x < dh_checkpoint_seq x) domains of
         None \<Rightarrow> Inr None
       | Some x \<Rightarrow> Inr (map_option (Pair (dh_domain x)) (checkpoint_above st w (dh_domain x) (dh_retention_floor x)))))"

text \<open>
  The loop, with the counts of risen floors and pruned entries, which stay when it fails; \<open>clock i\<close> gives
  the times of the batches of its \<open>i\<close>th pruning.
\<close>

partial_function (option) relief_loop ::
  "u64 \<Rightarrow> u64 \<Rightarrow> ident \<Rightarrow> (nat \<Rightarrow> nat \<Rightarrow> u64) \<Rightarrow> nat \<Rightarrow> nat \<Rightarrow> u64 \<Rightarrow> u64 \<Rightarrow> store
    \<Rightarrow> ((u64 \<times> u64) \<times> (store_error + unit) \<times> store) option" where
  "relief_loop kept_bytes quota w clock batch i raised pruned st =
     (case relief_target st w quota of
        Inl e \<Rightarrow> Some ((raised, pruned), Inl e, st)
      | Inr None \<Rightarrow> (case note_pressure w (Some quota) st of
            Inl e \<Rightarrow> Some ((raised, pruned), Inl e, st)
          | Inr st' \<Rightarrow> Some ((raised, pruned), Inr (), st'))
      | Inr (Some (d, floor_seq)) \<Rightarrow> (case persist_floor kept_bytes w d (Some floor_seq) st of
            Inl e \<Rightarrow> Some ((raised, pruned), Inl e, st)
          | Inr ((_, rose), st1) \<Rightarrow> (case prune_domain w d (clock i) batch st1 of
                (Inl e, st2) \<Rightarrow> Some ((raised + of_bool rose, pruned), Inl e, st2)
              | (Inr count, st2) \<Rightarrow>
                  relief_loop kept_bytes quota w clock batch (Suc i) (raised + of_bool rose) (pruned + count) st2)))"

definition relieve :: "u64 \<Rightarrow> u64 \<Rightarrow> ident \<Rightarrow> (nat \<Rightarrow> nat \<Rightarrow> u64) \<Rightarrow> nat \<Rightarrow> store
    \<Rightarrow> ((u64 \<times> u64) \<times> (store_error + unit) \<times> store) option" where
  "relieve kept_bytes quota w clock batch st = relief_loop kept_bytes quota w clock batch 0 0 0 st"

subsection \<open>What pruning keeps of a domain's row\<close>

definition floor_columns :: "store \<Rightarrow> ident \<times> ident \<Rightarrow> (u64 \<times> u64 \<times> bool) option" where
  "floor_columns st k = map_option (\<lambda>c. (dr_retention_floor c, dr_checkpoint_seq c, dr_deleted c)) (bt_get (st_domains st) k)"

definition covered_seqs :: "store \<Rightarrow> ident \<Rightarrow> ident \<Rightarrow> u64 list" where
  "covered_seqs st w d = map (cpw_covered_seq \<circ> scp_row) (checkpoint_rows st w d)"

lemma covered_seqs_kept:
  assumes "deleted_at w d S E st st1" and "cleared_below w d f st1 st'"
  shows "covered_seqs st' w' d' = covered_seqs st w' d'"
proof -
  obtain g where g: "st_checkpoints st' = map g (st_checkpoints st)" "\<And>c. row_kept (g c) = row_kept c"
    "\<And>c. scp_workspace (g c) = scp_workspace c" "\<And>c. scp_domain (g c) = scp_domain c"
    using assms unfolding deleted_at_def cleared_below_def by metis
  have "cpw_covered_seq (scp_row (g c)) = cpw_covered_seq (scp_row c)" for c
    using g(2) [of c] by (simp add: row_kept_def) (metis checkpoint_row.select_convs(4) checkpoint_row.surjective checkpoint_row.update_convs(7))
  then show ?thesis unfolding covered_seqs_def checkpoint_rows_def g(1) filter_map comp_def g(3,4) by simp
qed

lemma batch_keeps_columns:
  assumes "prune_batch w d after now batch st = Inr ((n, next1), st')"
  shows "floor_columns st' = floor_columns st" and "covered_seqs st' = covered_seqs st"
proof -
  show "floor_columns st' = floor_columns st"
  proof (cases "store_domain st w d")
    case None
    then show ?thesis using assms by (simp add: prune_batch_def)
  next
    case (Some row)
    obtain es u h st0 where fold: "try_fold (prune_entry w d now) ((0, 0), st) es = Inr ((u, h), st0)"
      and rest: "prune_rest w d after (dr_retention_floor row) batch es (add_usage w d u h st0) = Inr ((n, next1), st')"
      using assms Some unfolding prune_batch_def by (auto simp: Let_def)
    have "st_domains st0 = st_domains st" using domains_kept [OF fold] by simp
    then have "floor_columns (add_usage w d u h st0) = floor_columns st"
      by (auto simp: add_usage_def floor_columns_def fun_eq_iff option.map_comp comp_def)
    then show ?thesis
      using rest by (auto simp: prune_rest_def Let_def clear_checkpoint_data_def set_pruned_floor_def int_column_def floor_columns_def
          fun_eq_iff option.map_comp comp_def split: if_splits)
  qed
  show "covered_seqs st' = covered_seqs st"
  proof (cases "retention_floor_of st w d")
    case None
    then show ?thesis using assms by (auto simp: prune_batch_def retention_floor_of_def store_domain_def)
  next
    case (Some f)
    show ?thesis by (rule prune_batchD [OF assms Some]) (auto simp: fun_eq_iff covered_seqs_kept)
  qed
qed

lemma prune_keeps_columns:
  assumes "prune_loop w d clock batch i from pruned st = (r, st')"
  shows "floor_columns st' = floor_columns st \<and> covered_seqs st' = covered_seqs st"
  by (rule prune_loop_steps [where P = "\<lambda>s. floor_columns s = floor_columns st \<and> covered_seqs s = covered_seqs st", OF assms])
    (simp_all add: batch_keeps_columns)

subsection \<open>One step\<close>

lemma histories_loop:
  "try_fold (\<lambda>acc ((_, d), c). and_then (uint_column (dr_history_bytes c)) (\<lambda>history. Inr (acc @ [\<lparr>dh_domain = d, dh_history_bytes = history,
       dh_retention_floor = dr_retention_floor c, dh_checkpoint_seq = dr_checkpoint_seq c\<rparr>]))) acc xs = Inr ys
    \<Longrightarrow> ys = acc @ map (\<lambda>((_, d), c). \<lparr>dh_domain = d, dh_history_bytes = dr_history_bytes c,
       dh_retention_floor = dr_retention_floor c, dh_checkpoint_seq = dr_checkpoint_seq c\<rparr>) xs"
proof (induction xs arbitrary: acc)
  case (Cons x xs)
  obtain w d c where x: "x = ((w, d), c)" by (metis surj_pair)
  then have "dr_history_bytes c \<ge> 0" using Cons.prems by (auto simp: uint_column_def split: if_splits)
  then show ?case using Cons.IH Cons.prems x by (fastforce simp: uint_column_def)
qed simp

lemma histories_exact:
  assumes "domain_histories st w = Inr xs"
  shows "x \<in> set xs \<longleftrightarrow> (\<exists>d c. bt_get (st_domains st) (w, d) = Some c \<and> \<not> dr_deleted c
    \<and> x = \<lparr>dh_domain = d, dh_history_bytes = dr_history_bytes c, dh_retention_floor = dr_retention_floor c,
        dh_checkpoint_seq = dr_checkpoint_seq c\<rparr>)"
proof -
  have "xs = map (\<lambda>((_, d), c). \<lparr>dh_domain = d, dh_history_bytes = dr_history_bytes c,
       dh_retention_floor = dr_retention_floor c, dh_checkpoint_seq = dr_checkpoint_seq c\<rparr>)
     (sort_key (\<lambda>(_, c). - dr_history_bytes c) (filter (\<lambda>((w', _), c). w' = w \<and> \<not> dr_deleted c) (bt_entries (st_domains st))))"
    using histories_loop [OF assms [unfolded domain_histories_def]] by simp
  then show ?thesis by (force simp: image_iff)
qed

lemma above_iff:
  "checkpoint_above st w d f = Some s \<Longrightarrow> s \<in> set (covered_seqs st w d) \<and> at_most f < s"
  "checkpoint_above st w d f = None \<Longrightarrow> s \<in> set (covered_seqs st w d) \<Longrightarrow> s \<le> at_most f"
proof -
  let ?xs = "filter (\<lambda>s. s > at_most f) (covered_seqs st w d)"
  have above: "checkpoint_above st w d f = (case sort ?xs of [] \<Rightarrow> None | s # _ \<Rightarrow> Some s)"
    by (simp add: checkpoint_above_def covered_seqs_def)
  show "checkpoint_above st w d f = Some s \<Longrightarrow> s \<in> set (covered_seqs st w d) \<and> at_most f < s"
    unfolding above using set_sort [of "\<lambda>s. s" ?xs] by (cases "sort ?xs") auto
  show "checkpoint_above st w d f = None \<Longrightarrow> s \<in> set (covered_seqs st w d) \<Longrightarrow> s \<le> at_most f"
    unfolding above using set_sort [of "\<lambda>s. s" ?xs] by (cases "sort ?xs") (auto simp: filter_empty_conv not_less)
qed

text \<open>
  What relief relies on: the floors fit their column, and where a domain's floor lies below its checkpoint
  sequence, that sequence is the one a checkpoint covers.
\<close>

definition relief_ready :: "store \<Rightarrow> ident \<Rightarrow> bool" where
  "relief_ready st w \<longleftrightarrow> (\<forall>d f s x. floor_columns st (w, d) = Some (f, s, x)
     \<longrightarrow> f \<le> INTEGER_MAX \<and> (f < s \<longrightarrow> s \<in> set (covered_seqs st w d)))"

lemma floor_columns_Some: "floor_columns st k = Some (f, s, x) \<longleftrightarrow> (\<exists>c. bt_get (st_domains st) k = Some c
    \<and> dr_retention_floor c = f \<and> dr_checkpoint_seq c = s \<and> dr_deleted c = x)"
  by (auto simp: floor_columns_def)

text \<open>There is no next floor when the quota fits, or usage alone is above it, or every floor is at its checkpoint.\<close>

definition relieved :: "store \<Rightarrow> ident \<Rightarrow> u64 \<Rightarrow> bool" where
  "relieved st w quota \<longleftrightarrow> (\<exists>u. workspace_usage_of st w = Inr u
     \<and> (wu_usage u > uint quota \<or> wu_usage u + wu_history u \<le> uint quota
       \<or> (\<forall>d f s. floor_columns st (w, d) = Some (f, s, False) \<longrightarrow> s \<le> f)))"

lemma no_target:
  assumes "relief_target st w quota = Inr None" and "relief_ready st w"
  shows "relieved st w quota"
proof -
  obtain u xs where u: "workspace_usage_of st w = Inr u" "domain_histories st w = Inr xs"
    and none: "wu_usage u > uint quota \<or> wu_usage u + wu_history u \<le> uint quota
      \<or> find (\<lambda>x. dh_retention_floor x < dh_checkpoint_seq x) xs = None
      \<or> (\<exists>x. find (\<lambda>x. dh_retention_floor x < dh_checkpoint_seq x) xs = Some x
          \<and> checkpoint_above st w (dh_domain x) (dh_retention_floor x) = None)"
    using assms(1) unfolding relief_target_def and_then_Inr_iff by (auto simp: Let_def split: if_splits option.splits)
  have "s \<le> f" if "find (\<lambda>x. dh_retention_floor x < dh_checkpoint_seq x) xs = None" "floor_columns st (w, d) = Some (f, s, False)" for d f s
    using that histories_exact [OF u(2)] unfolding find_None_iff floor_columns_Some by (fastforce simp: not_less)
  moreover have False if found: "find (\<lambda>x. dh_retention_floor x < dh_checkpoint_seq x) xs = Some x"
      "checkpoint_above st w (dh_domain x) (dh_retention_floor x) = None" for x
  proof -
    have x: "x \<in> set xs" "dh_retention_floor x < dh_checkpoint_seq x" using found(1) by (auto simp: find_Some_iff)
    then have columns: "floor_columns st (w, dh_domain x) = Some (dh_retention_floor x, dh_checkpoint_seq x, False)"
      using histories_exact [OF u(2), of x] by (auto simp: floor_columns_Some)
    then have "dh_checkpoint_seq x \<in> set (covered_seqs st w (dh_domain x))" "dh_retention_floor x \<le> INTEGER_MAX"
      using assms(2) x(2) unfolding relief_ready_def by blast+
    then show False using above_iff(2) [OF found(2)] x(2) by (fastforce simp: at_most_def min_def)
  qed
  ultimately show ?thesis using u(1) none unfolding relieved_def by blast
qed

lemma target_rises:
  assumes "relief_target st w quota = Inr (Some (d, s))" and "relief_ready st w"
    and "persist_floor kept_bytes w d (Some s) st = Inr ((f', rose), st1)"
  obtains f cp where "floor_columns st (w, d) = Some (f, cp, False)" and "f < f'" and "f' \<le> cp" and "f' \<le> INTEGER_MAX" and "rose"
    and "floor_columns st1 = (floor_columns st)((w, d) := Some (f', cp, False))" and "covered_seqs st1 = covered_seqs st"
    and "rid_domain st1 = rid_domain st" and "live_ops st1 = live_ops st"
proof -
  obtain xs x where xs: "domain_histories st w = Inr xs"
    and x: "find (\<lambda>x. dh_retention_floor x < dh_checkpoint_seq x) xs = Some x" "d = dh_domain x"
      "checkpoint_above st w d (dh_retention_floor x) = Some s"
    using assms(1) unfolding relief_target_def and_then_Inr_iff by (auto simp: Let_def split: if_splits option.splits)
  have mem: "x \<in> set xs" and less: "dh_retention_floor x < dh_checkpoint_seq x" using x(1) by (auto simp: find_Some_iff)
  obtain d' c where found: "bt_get (st_domains st) (w, d') = Some c" "\<not> dr_deleted c"
    "x = \<lparr>dh_domain = d', dh_history_bytes = dr_history_bytes c, dh_retention_floor = dr_retention_floor c,
        dh_checkpoint_seq = dr_checkpoint_seq c\<rparr>"
    using mem unfolding histories_exact [OF xs] by blast
  have "d' = d" using found(3) x(2) by simp
  then have c: "bt_get (st_domains st) (w, d) = Some c" "\<not> dr_deleted c" "dr_retention_floor c = dh_retention_floor x"
    "dr_checkpoint_seq c = dh_checkpoint_seq x"
    using found by simp_all
  let ?f = "dr_retention_floor c" and ?cp = "dr_checkpoint_seq c"
  have "?f \<le> INTEGER_MAX" using assms(2) c(1) unfolding relief_ready_def floor_columns_Some by blast
  then have above: "?f < s" using above_iff(1) [OF x(3)] c(3) by (simp add: at_most_def)
  obtain row where row: "store_domain st w d = Some row" "dr_retention_floor row = ?f" "dr_checkpoint_seq row = ?cp" "\<not> dr_deleted row"
    using c by (auto simp: store_domain_def domain_columns.defs)
  define new where "new = min (max (rule_floor st kept_bytes w d row) s) ?cp"
  have rises: "?f < new" using above less c(3,4) by (auto simp: new_def less_max_iff_disj)
  have "persist_floor kept_bytes w d (Some s) st = and_then (set_retention_floor w d new st) (\<lambda>st. Inr ((new, True), st))"
    using rises by (simp add: persist_floor_def row Let_def new_def [symmetric])
  then have "and_then (set_retention_floor w d new st) (\<lambda>st. Inr ((new, True), st)) = Inr ((f', rose), st1)"
    using assms(3) by simp
  then have set1: "set_retention_floor w d new st = Inr st1" "f' = new" "rose" by auto
  then have st1: "st1 = st\<lparr>st_domains := bt_adjust (w, d) (\<lambda>c. c\<lparr>dr_retention_floor := f'\<rparr>) (st_domains st)\<rparr>" "f' \<le> INTEGER_MAX"
    by (auto simp: set_retention_floor_def int_column_def split: if_splits)
  show ?thesis
  proof
    show "floor_columns st (w, d) = Some (?f, ?cp, False)" using c by (simp add: floor_columns_def)
    show "floor_columns st1 = (floor_columns st)((w, d) := Some (f', ?cp, False))"
      using c by (auto simp: st1(1) floor_columns_def)
    show "covered_seqs st1 = covered_seqs st" "rid_domain st1 = rid_domain st" "live_ops st1 = live_ops st"
      by (simp_all add: st1(1) covered_seqs_def checkpoint_rows_def rid_domain_def live_ops_def fun_eq_iff)
    show "f' \<le> ?cp" by (simp add: set1(2) new_def)
  qed (use rises set1 st1(2) in simp_all)
qed

definition floor_room :: "store \<Rightarrow> nat" where
  "floor_room st = (\<Sum>k \<in> dom (floor_columns st). case floor_columns st k of None \<Rightarrow> 0 | Some (f, s, _) \<Rightarrow> unat s - unat f)"

lemma room_shrinks:
  assumes "floor_columns st k = Some (f, s, x)" and "floor_columns st' = (floor_columns st)(k := Some (f', s, x))"
    and "f < f'" and "f' \<le> s"
  shows "floor_room st' < floor_room st"
proof -
  let ?r = "\<lambda>cols k. case cols k of None \<Rightarrow> 0 | Some (f, s, _) \<Rightarrow> unat (s :: u64) - unat (f :: u64)"
  have same: "dom (floor_columns st') = dom (floor_columns st)" using assms(1,2) by auto
  have finite: "finite (dom (floor_columns st))"
    by (rule finite_subset [OF _ bt_finite_dom [of "st_domains st"]]) (auto simp: floor_columns_def)
  have less: "unat s - unat f' < unat s - unat f" using assms(3,4) by (simp add: word_less_nat_alt word_le_nat_alt)
  have "(\<Sum>k \<in> dom (floor_columns st). ?r (floor_columns st') k) < (\<Sum>k \<in> dom (floor_columns st). ?r (floor_columns st) k)"
  proof (rule sum_strict_mono_ex1 [OF finite])
    show "\<forall>k' \<in> dom (floor_columns st). ?r (floor_columns st') k' \<le> ?r (floor_columns st) k'"
      using less assms(1,2) by auto
    show "\<exists>k' \<in> dom (floor_columns st). ?r (floor_columns st') k' < ?r (floor_columns st) k'"
      using less assms(1,2) by (intro bexI [of _ k]) auto
  qed
  then show ?thesis by (simp add: floor_room_def same)
qed

subsection \<open>The loop\<close>

definition floors_risen :: "store \<Rightarrow> store \<Rightarrow> ident \<Rightarrow> bool" where
  "floors_risen st st' w \<longleftrightarrow> (\<forall>d f s x. floor_columns st (w, d) = Some (f, s, x)
     \<longrightarrow> (\<exists>f'. floor_columns st' (w, d) = Some (f', s, x) \<and> f \<le> f' \<and> (f' = f \<or> f' \<le> s)))"

definition live_kept :: "store \<Rightarrow> store \<Rightarrow> ident \<Rightarrow> bool" where
  "live_kept st st' w \<longleftrightarrow> (\<forall>rid at. (\<forall>d f. rid_domain st w rid = Some d \<and> retention_floor_of st' w d = Some f \<longrightarrow> f \<le> at)
     \<longrightarrow> live_ops st' w rid at = live_ops st w rid at)"

lemma risen_trans:
  assumes "floors_risen st st1 w" and "floors_risen st1 st2 w"
  shows "floors_risen st st2 w"
  unfolding floors_risen_def
proof (intro allI impI)
  fix d f s x assume "floor_columns st (w, d) = Some (f, s, x)"
  then obtain f1 where f1: "floor_columns st1 (w, d) = Some (f1, s, x)" "f \<le> f1" "f1 = f \<or> f1 \<le> s"
    using assms(1) unfolding floors_risen_def by blast
  then obtain f2 where "floor_columns st2 (w, d) = Some (f2, s, x)" "f1 \<le> f2" "f2 = f1 \<or> f2 \<le> s"
    using assms(2) unfolding floors_risen_def by blast
  then show "\<exists>f'. floor_columns st2 (w, d) = Some (f', s, x) \<and> f \<le> f' \<and> (f' = f \<or> f' \<le> s)" using f1 by auto
qed

lemma floor_of_columns: "retention_floor_of st w d = map_option fst (floor_columns st (w, d))"
  by (simp add: retention_floor_of_def floor_columns_def option.map_comp comp_def)

text \<open>A rise and the pruning after it.\<close>

lemma rise_and_prune:
  assumes "relief_target st w quota = Inr (Some (d, s))" and "relief_ready st w" and "tables_sound st w"
    and "persist_floor kept_bytes w d (Some s) st = Inr ((f', rose), st1)" and "prune_domain w d clock batch st1 = (r, st2)"
  shows "relief_ready st2 w" and "tables_sound st2 w" and "floors_risen st st2 w" and "floor_room st2 < floor_room st"
    and "rid_domain st2 w rid \<in> {rid_domain st w rid, None}"
    and "(rid_domain st w rid = Some d \<longrightarrow> f' \<le> at) \<Longrightarrow> live_ops st2 w rid at = live_ops st w rid at"
    and "retention_floor_of st2 w d = Some f'"
proof -
  obtain f cp where f: "floor_columns st (w, d) = Some (f, cp, False)" "f < f'" "f' \<le> cp" "f' \<le> INTEGER_MAX"
    and st1: "floor_columns st1 = (floor_columns st)((w, d) := Some (f', cp, False))" "covered_seqs st1 = covered_seqs st"
      "rid_domain st1 = rid_domain st" "live_ops st1 = live_ops st"
    by (rule target_rises [OF assms(1,2,4)]) blast
  have kept: "floor_columns st2 = floor_columns st1" "covered_seqs st2 = covered_seqs st1"
    using prune_keeps_columns assms(5) unfolding prune_domain_def by blast+
  have floor1: "retention_floor_of st1 w d = Some f'" by (simp add: floor_of_columns st1(1))
  have sound1: "tables_sound st1 w" by (rule persist_sound [OF assms(4,3)])
  note loop = prune_loop_keeps [OF floor1 sound1 settled_start [OF sound1] _ assms(5) [unfolded prune_domain_def], of rid]
  have "rid_domain st1 w rid = Some d \<longrightarrow> f' \<le> - 1" by (simp add: word_order.extremum)
  then show "tables_sound st2 w" "rid_domain st2 w rid \<in> {rid_domain st w rid, None}" using loop [of "- 1"] st1(3) by auto
  show "live_ops st2 w rid at = live_ops st w rid at" if "rid_domain st w rid = Some d \<longrightarrow> f' \<le> at"
    using loop [of at] that st1(3,4) by simp
  show "relief_ready st2 w" using assms(2) f unfolding relief_ready_def kept st1(1,2) by auto
  show "floors_risen st st2 w" using f unfolding floors_risen_def kept st1(1) by auto
  show "floor_room st2 < floor_room st" by (rule room_shrinks [OF f(1) _ f(2,3)]) (simp add: kept st1(1))
  show "retention_floor_of st2 w d = Some f'" using floor1 by (simp add: floor_of_columns kept)
qed

lemma pressure_keeps:
  assumes "note_pressure w quota st = Inr st'"
  shows "floors_risen st st' w'" and "live_kept st st' w'" and "relieved st' w' q = relieved st w' q"
proof -
  have domains: "st_domains st' = st_domains st" and same: "same_tables st st'"
    using assms by (auto simp: note_pressure_def Let_def set_quota_pressure_def same_tables_def core_tables_def head_seq_of_def
        fun_eq_iff split: option.splits if_splits)
  have usage: "(\<exists>u. workspace_usage_of st' w' = Inr u \<and> P (wu_usage u) (wu_history u))
      \<longleftrightarrow> (\<exists>u. workspace_usage_of st w' = Inr u \<and> P (wu_usage u) (wu_history u))" for P
    unfolding workspace_usage_of_def domains and_then_Inr_iff Let_def by auto
  have columns: "floor_columns st' = floor_columns st" by (simp add: floor_columns_def domains fun_eq_iff)
  show "floors_risen st st' w'" by (simp add: floors_risen_def columns)
  have "live_ops st' = live_ops st" using same by (simp add: same_tables_def core_tables_def live_ops_def fun_eq_iff)
  then show "live_kept st st' w'" by (simp add: live_kept_def)
  show "relieved st' w' q = relieved st w' q"
    unfolding relieved_def columns
    by (rule usage [of "\<lambda>u h. u > uint q \<or> u + h \<le> uint q \<or> (\<forall>d f s. floor_columns st (w', d) = Some (f, s, False) \<longrightarrow> s \<le> f)"])
qed

lemma kept_after_rise:
  assumes "relief_target st w quota = Inr (Some (d, s))" and "relief_ready st w" and "tables_sound st w"
    and "persist_floor kept_bytes w d (Some s) st = Inr ((f', rose), st1)" and "prune_domain w d clock batch st1 = (r, st2)"
    and "floors_risen st2 st' w" and "live_kept st2 st' w"
  shows "live_kept st st' w"
  unfolding live_kept_def
proof (intro allI impI)
  note step = rise_and_prune [OF assms(1-5)]
  fix rid at
  assume at: "\<forall>d f. rid_domain st w rid = Some d \<and> retention_floor_of st' w d = Some f \<longrightarrow> f \<le> at"
  have "live_ops st' w rid at = live_ops st2 w rid at"
    using assms(7) step(5) [of rid] at unfolding live_kept_def by auto
  moreover have "rid_domain st w rid = Some d \<longrightarrow> f' \<le> at"
  proof
    assume d: "rid_domain st w rid = Some d"
    obtain s2 x2 where "floor_columns st2 (w, d) = Some (f', s2, x2)"
      using step(7) by (auto simp: floor_of_columns)
    then obtain f3 where "floor_columns st' (w, d) = Some (f3, s2, x2)" "f' \<le> f3"
      using assms(6) unfolding floors_risen_def by blast
    then show "f' \<le> at" using at d by (auto simp: floor_of_columns intro: order_trans)
  qed
  then have "live_ops st2 w rid at = live_ops st w rid at" by (rule step(6))
  ultimately show "live_ops st' w rid at = live_ops st w rid at" by simp
qed

lemma relief_loop_ends:
  assumes "relief_ready st w" and "tables_sound st w"
  shows "\<exists>report r st'. relief_loop kept_bytes quota w clock batch i raised pruned st = Some (report, r, st')
    \<and> floors_risen st st' w \<and> live_kept st st' w \<and> (r = Inr () \<longrightarrow> relieved st' w quota)"
  using assms
proof (induction "floor_room st" arbitrary: st i raised pruned rule: less_induct)
  case less
  have self: "floors_risen st st w" "live_kept st st w" by (auto simp: floors_risen_def live_kept_def)
  show ?case
  proof (cases "relief_target st w quota")
    case (Inl e)
    then have "relief_loop kept_bytes quota w clock batch i raised pruned st = Some ((raised, pruned), Inl e, st)"
      by (subst relief_loop.simps) simp
    then show ?thesis using self by auto
  next
    case (Inr target)
    show ?thesis
    proof (cases target)
      case None
      note end1 = no_target [OF Inr [unfolded None] less.prems(1)]
      show ?thesis
      proof (cases "note_pressure w (Some quota) st")
        case e: (Inl e)
        have "relief_loop kept_bytes quota w clock batch i raised pruned st = Some ((raised, pruned), Inl e, st)"
          by (subst relief_loop.simps) (simp add: Inr None e)
        then show ?thesis using self by auto
      next
        case st': (Inr st')
        have "relief_loop kept_bytes quota w clock batch i raised pruned st = Some ((raised, pruned), Inr (), st')"
          by (subst relief_loop.simps) (simp add: Inr None st')
        then show ?thesis using pressure_keeps [OF st'] end1 by auto
      qed
    next
      case (Some dest)
      obtain d s where dest: "dest = (d, s)" by (metis surj_pair)
      note target = Inr [unfolded Some dest]
      show ?thesis
      proof (cases "persist_floor kept_bytes w d (Some s) st")
        case e: (Inl e)
        have "relief_loop kept_bytes quota w clock batch i raised pruned st = Some ((raised, pruned), Inl e, st)"
          by (subst relief_loop.simps) (simp add: target e)
        then show ?thesis using self by auto
      next
        case x: (Inr x)
        obtain f' rose st1 where "x = ((f', rose), st1)" by (metis surj_pair)
        note persist = x [unfolded this]
        obtain r2 st2 where prune: "prune_domain w d (clock i) batch st1 = (r2, st2)" by (metis surj_pair)
        note step = rise_and_prune [OF target less.prems persist prune]
        note later = kept_after_rise [OF target less.prems persist prune]
        have start: "floors_risen st2 st2 w" "live_kept st2 st2 w" by (auto simp: floors_risen_def live_kept_def)
        show ?thesis
        proof (cases r2)
          case e: (Inl e)
          have "relief_loop kept_bytes quota w clock batch i raised pruned st
              = Some ((raised + of_bool rose, pruned), Inl e, st2)"
            by (subst relief_loop.simps) (simp add: target persist prune e)
          then show ?thesis using step(3) later [OF start] by auto
        next
          case count: (Inr count)
          have "relief_loop kept_bytes quota w clock batch i raised pruned st
              = relief_loop kept_bytes quota w clock batch (Suc i) (raised + of_bool rose) (pruned + count) st2"
            by (subst relief_loop.simps) (simp add: target persist prune count)
          moreover obtain report r st' where "relief_loop kept_bytes quota w clock batch (Suc i) (raised + of_bool rose) (pruned + count) st2
                = Some (report, r, st')"
              and st': "floors_risen st2 st' w" "live_kept st2 st' w" "r = Inr () \<longrightarrow> relieved st' w quota"
            using less.hyps [OF step(4,1,2)] by blast
          ultimately show ?thesis using risen_trans [OF step(3) st'(1)] later [OF st'(1,2)] st'(3) by auto
        qed
      qed
    qed
  qed
qed

text \<open>
  C16. Relief of a workspace's pressure ends, however much history its domains hold: the floors only rise, none past its
  domain's checkpoint sequence, and no object's live set at or above the floor its domain comes to changes. When
  no step fails, the workspace then fits its quota, or its usage alone is above it, which history cannot
  help, or every floor has reached its domain's checkpoint.
\<close>

theorem relief_ends:
  assumes "stored_run cr st" and "relief_ready st w"
  shows "\<exists>report r st'. relieve kept_bytes quota w clock batch st = Some (report, r, st')
    \<and> floors_risen st st' w \<and> live_kept st st' w \<and> (r = Inr () \<longrightarrow> relieved st' w quota)"
  unfolding relieve_def by (rule relief_loop_ends [OF assms(2) stored_tables_sound [OF assms(1)]])

end
