(* ===== verification/Server_Log.thy ===== *)
theory Server_Log
  imports Relief Push_Theorems
begin

text \<open>
  The log behind the tables of a server that also commits checkpoints, raises floors and prunes: what the
  tables still hold of it, the live sets they give at and above the retention floor, and the
  positions of the devices' chains.
\<close>

subsection \<open>Retention floors\<close>

definition floor_at :: "store \<Rightarrow> ident \<Rightarrow> ident \<Rightarrow> u64" where
  "floor_at st w d = (case retention_floor_of st w d of None \<Rightarrow> 0 | Some f \<Rightarrow> f)"

lemma floor_fold:
  assumes "\<And>s x s'. f s x = Inr s' \<Longrightarrow> retention_floor_of (g s') = retention_floor_of (g s)" and "try_fold f s xs = Inr s'"
  shows "retention_floor_of (g s') = retention_floor_of (g s)"
  using assms(2)
proof (induction xs arbitrary: s)
  case (Cons x xs)
  then obtain t where "f s x = Inr t" "try_fold f t xs = Inr s'" by auto
  then show ?case using assms(1) Cons.IH by metis
qed simp

lemma floor_updates [simp]:
  "retention_floor_of (add_blob_live w blob delta st) = retention_floor_of st"
  "retention_floor_of (set_blob_delete_after w blob t st) = retention_floor_of st"
  "retention_floor_of (add_usage w d usage history st) = retention_floor_of st"
  "retention_floor_of (drop_delete w rid device counter st) = retention_floor_of st"
  by (auto simp: retention_floor_of_def add_blob_live_def set_blob_delete_after_def add_usage_def drop_delete_def
      option.map_comp comp_def fun_eq_iff)

lemma floor_writes:
  "append_entry w d t bs st = Inr (s, st') \<Longrightarrow> retention_floor_of st' = retention_floor_of st"
  "set_checkpoint_progress w d x st = Inr st' \<Longrightarrow> retention_floor_of st' = retention_floor_of st"
  "set_pruned_floor w d f st = Inr st' \<Longrightarrow> retention_floor_of st' = retention_floor_of st"
  "insert_checkpoint w d row buckets st = Inr st' \<Longrightarrow> retention_floor_of st' = retention_floor_of st"
  "insert_rid w rid d st = Inr st' \<Longrightarrow> retention_floor_of st' = retention_floor_of st"
  "insert_operation w d y class1 st = Inr st' \<Longrightarrow> retention_floor_of st' = retention_floor_of st"
  "set_chain_head w d device h st = Inr st' \<Longrightarrow> retention_floor_of st' = retention_floor_of st"
  "insert_blob_listing w d s st blob = Inr st' \<Longrightarrow> retention_floor_of st' = retention_floor_of st"
proof -
  show "retention_floor_of st' = retention_floor_of st" if "append_entry w d t bs st = Inr (s, st')"
    by (rule append_entryD [OF that]) (auto simp: retention_floor_of_def fun_eq_iff)
qed (auto simp: retention_floor_of_def set_checkpoint_progress_def set_pruned_floor_def insert_checkpoint_def insert_rid_def
    set_chain_head_def insert_blob_listing_def int_column_def option.map_comp comp_def fun_eq_iff
    dest!: insert_operationD(1) split: if_splits)

lemma floor_leave_live:
  assumes "leave_live w d s st = Inr (x, st')"
  shows "retention_floor_of st' = retention_floor_of st"
proof -
  have step: "retention_floor_of (snd s') = retention_floor_of (snd s)" if "leave_blob w s b = Inr s'" for s b s'
    using that by (auto simp: leave_blob_def Let_def split: prod.splits option.splits if_splits)
  obtain len where "try_fold (leave_blob w) ((- signed_i64 len, signed_i64 len), st) (listed_blobs st w d s) = Inr (x, st')"
    using assms by (auto simp: leave_live_def)
  from floor_fold [where g = snd, OF _ this] have "retention_floor_of (snd (x, st')) = retention_floor_of (snd ((- signed_i64 len, signed_i64 len), st))"
    using step by blast
  then show ?thesis by simp
qed

lemma floor_note:
  assumes "note_operation quota w d len payload blobs left st = Inr st'"
  shows "retention_floor_of st' = retention_floor_of st"
proof -
  have listing: "retention_floor_of (snd s') = retention_floor_of (snd s)" if "note_listing w s x = Inr s'" for s x s'
    using that by (auto simp: note_listing_def Let_def split: prod.splits)
  have gone: "retention_floor_of (snd s') = retention_floor_of (snd s)" if "note_left w d s x = Inr s'" for s x s'
    using that by (auto simp: note_left_def dest!: floor_leave_live split: prod.splits)
  show ?thesis
  proof (cases "counted_by_write blobs left")
    case True
    then show ?thesis using assms by (auto simp: note_operation_def)
  next
    case False
    then obtain s usage history st1 where fold: "try_fold (note_listing w) ((signed_i64 len, 0), st) blobs = Inr s"
      "try_fold (note_left w d) s left = Inr ((usage, history), st1)" and st': "st' = add_usage w d usage history st1"
      using assms by (auto simp: note_operation_def Let_def)
    have "retention_floor_of (snd s) = retention_floor_of (snd ((signed_i64 len, 0 :: int), st))"
      by (rule floor_fold [where g = snd, OF listing fold(1)])
    moreover have "retention_floor_of (snd ((usage, history), st1)) = retention_floor_of (snd s)"
      by (rule floor_fold [where g = snd, OF gone fold(2)])
    ultimately show ?thesis by (simp add: st')
  qed
qed

lemma floor_push:
  assumes "apply_operation cr p interval quota generation w pushed st = Inr (r, st')"
  shows "retention_floor_of st' = retention_floor_of st"
proof (cases "st' = st")
  case False
  obtain d y seqno blobs len payload listings left st1 st2 where steps: "write_operation w d y st = Inr st1"
    "list_blobs w d seqno blobs st1 = Inr st2" "note_operation quota w d len payload listings left st2 = Inr st'"
    using assms False
    by (auto simp: apply_operation_def Let_def split: if_splits prod.splits option.splits)
  obtain s1 a1 a2 a3 a4 where "append_entry w d ENTRY_OPERATION (ow_record y) st = Inr (s1, a1)"
    "(if ow_new_rid y then insert_rid w (lo_rid (ow_op y)) d a1 else Inr a1) = Inr a2"
    "insert_operation w d (ow_op y) (ow_class y) a2 = Inr a3" "set_checkpoint_progress w d (ow_progress y) a3 = Inr a4"
    "set_chain_head w d (lo_device (ow_op y)) (ow_chain_head y) (add_usage w d (ow_usage y) 0 a4) = Inr st1"
    using steps(1) by (auto simp: write_operation_def split: if_splits)
  then have "retention_floor_of st1 = retention_floor_of st"
    using floor_writes by (auto split: if_splits)
  moreover have "retention_floor_of st2 = retention_floor_of st1"
    using floor_fold [where g = id, OF _ steps(2) [unfolded list_blobs_def]] floor_writes(8) by simp
  ultimately show ?thesis using floor_note [OF steps(3)] by simp
qed simp

lemma floor_drop:
  assumes "try_fold (drop_step w d) st xs = Inr st'"
  shows "retention_floor_of st' = retention_floor_of st"
proof -
  have "retention_floor_of t = retention_floor_of s" if "drop_step w d s x = Inr t" for s x t
    using that by (auto simp: drop_step_def note_dropped_def dest!: floor_leave_live)
  then show ?thesis using floor_fold [where g = id, OF _ assms] by simp
qed

subsection \<open>Steps that only grow\<close>

text \<open>Heads of domains and of chains, and floors, never fall.\<close>

definition grows :: "store \<Rightarrow> store \<Rightarrow> bool" where
  "grows st st' \<longleftrightarrow> (\<forall>w d h. head_seq_of st w d = Some h \<longrightarrow> (\<exists>h'. head_seq_of st' w d = Some h' \<and> h \<le> h'))
   \<and> (\<forall>w d device h. chain_head_at st w d device = Some h
        \<longrightarrow> (\<exists>h'. chain_head_at st' w d device = Some h' \<and> chr_counter h \<le> chr_counter h'))
   \<and> (\<forall>w d. floor_at st w d \<le> floor_at st' w d)"

lemma heads_grow:
  assumes "grows st st'" and "\<exists>h. head_seq_of st w d = Some h \<and> n \<le> h"
  shows "\<exists>h. head_seq_of st' w d = Some h \<and> n \<le> h"
  using assms unfolding grows_def by (meson order_trans)

lemma chains_grow:
  assumes "grows st st'" and "\<exists>h. chain_head_at st w d device = Some h \<and> n \<le> chr_counter h"
  shows "\<exists>h. chain_head_at st' w d device = Some h \<and> n \<le> chr_counter h"
  using assms unfolding grows_def by (meson order_trans)

lemma grows_same:
  assumes "\<And>w d h. head_seq_of st w d = Some h \<Longrightarrow> \<exists>h'. head_seq_of st' w d = Some h' \<and> h \<le> h'"
    and "chain_head_at st' = chain_head_at st" and "retention_floor_of st' = retention_floor_of st"
  shows "grows st st'"
  using assms by (auto simp: grows_def floor_at_def)

lemma commit_tables:
  assumes "commit_checkpoint_locked cr p sess w bundle pl floor_setting st = Inr (r, st')" and "st' \<noteq> st"
  shows "st_operations st' = map (mark_dropped w (delete_key ` set (cpl_dropped pl))) (st_operations st)"
    and "st_covers st' = st_covers st" and "rid_domain st' = rid_domain st" and "grows st st'"
proof -
  obtain row where "write_checkpoint cr w bundle pl row st = Inr (r, st')" by (rule commit_writes [OF assms])
  then obtain d bs seqno st1 x buckets st2 st3 pr st4 where steps: "append_entry w d ENTRY_CHECKPOINT bs st = Inr (seqno, st1)"
    "insert_checkpoint w d x buckets st1 = Inr st2" "try_fold (drop_step w d) st2 (cpl_dropped pl) = Inr st3"
    "set_checkpoint_progress w d pr st3 = Inr st4" "(if cpl_dropped pl = [] then Inr st4 else set_pruned_floor w d 0 st4) = Inr st'"
    unfolding write_checkpoint_def Let_def and_then_Inr_iff split_paired_Ex prod.case sum.inject prod.inject by blast
  obtain c where c: "bt_get (st_domains st) (w, d) = Some c" "seqno = dr_head_seq c + 1" "dr_head_seq c < INTEGER_MAX"
    "st1 = st\<lparr>st_domains := bt_insert (w, d) (c\<lparr>dr_head_seq := seqno\<rparr>) (st_domains st),
        st_entries := bt_insert (w, d, seqno) (ENTRY_CHECKPOINT, bs) (st_entries st)\<rparr>"
    by (rule append_entryD [OF steps(1)]) blast
  have st2: "st_operations st2 = st_operations st" "st_covers st2 = st_covers st" "rid_domain st2 = rid_domain st"
    "chain_head_at st2 = chain_head_at st" "head_seq_of st2 = head_seq_of st1"
    using steps(2) by (auto simp: c(4) insert_checkpoint_def int_column_def rid_domain_def chain_head_at_def
        head_seq_of_def option.map_comp comp_def fun_eq_iff split: if_splits)
  note dropped = drop_fold [OF steps(3), unfolded with_dropped_def]
  have same: "same_tables st3 st'"
    using same_tables_progress [OF steps(4)] same_pruned_floor steps(5) same_tables_trans by (auto split: if_splits)
  show "st_operations st' = map (mark_dropped w (delete_key ` set (cpl_dropped pl))) (st_operations st)"
    "st_covers st' = st_covers st"
    using dropped same st2 by (simp_all add: same_tables_def core_tables_def)
  have rids: "rid_domain st' = rid_domain st2" "chain_head_at st' = chain_head_at st2"
    using dropped same by (simp_all add: same_tables_def core_tables_def rid_domain_def chain_head_at_def fun_eq_iff)
  then show "rid_domain st' = rid_domain st" by (simp add: st2)
  have "retention_floor_of st4 = retention_floor_of st"
    using floor_writes(1) [OF steps(1)] floor_writes(4) [OF steps(2)] floor_drop [OF steps(3)] floor_writes(2) [OF steps(4)] by simp
  then have "retention_floor_of st' = retention_floor_of st" using floor_writes(3) steps(5) by (auto split: if_splits)
  moreover have "head_seq_of st' = head_seq_of st1" using dropped same st2(5) by (simp add: same_tables_def)
  then have "\<exists>h'. head_seq_of st' w0 d0 = Some h' \<and> h \<le> h'" if "head_seq_of st w0 d0 = Some h" for w0 d0 h
    using that c(1,2) rises_below [OF c(3)] by (cases "(w0, d0) = (w, d)") (auto simp: c(4) head_seq_of_def)
  ultimately show "grows st st'" by (intro grows_same) (simp_all add: rids st2)
qed

lemma persist_tables:
  assumes "persist_floor kept_bytes w d forced st = Inr (r, st')"
  shows "same_tables st st'" and "grows st st'"
proof -
  show same: "same_tables st st'"
    using assms by (auto simp: persist_floor_def set_retention_floor_def int_column_def Let_def same_tables_def core_tables_def
        head_seq_of_def option.map_comp comp_def fun_eq_iff split: option.splits if_splits)
  have "st' = st \<or> (\<exists>f row. store_domain st w d = Some row \<and> dr_retention_floor row < f \<and> set_retention_floor w d f st = Inr st')"
    using assms by (auto simp: persist_floor_def Let_def simp del: min_less_iff_conj split: option.splits if_splits)
  then have "floor_at st w0 d0 \<le> floor_at st' w0 d0" for w0 d0
  proof (elim disjE exE conjE)
    fix f row assume row: "store_domain st w d = Some row" "dr_retention_floor row < f" "set_retention_floor w d f st = Inr st'"
    then have "retention_floor_of st w d = Some (dr_retention_floor row)" by (simp add: retention_floor_row)
    moreover have "retention_floor_of st' w0 d0 = (if (w0, d0) = (w, d) then map_option (\<lambda>_. f) (retention_floor_of st w d)
        else retention_floor_of st w0 d0)"
      using row(3) by (auto simp: set_retention_floor_def int_column_def retention_floor_of_def option.map_comp comp_def split: if_splits)
    ultimately show ?thesis using row(2) by (auto simp: floor_at_def)
  qed simp
  then show "grows st st'" using same by (auto simp: grows_def same_tables_def core_tables_def chain_head_at_def)
qed

text \<open>What pruning keeps beside the live sets.\<close>

definition prune_keeps :: "ident \<Rightarrow> store \<Rightarrow> store \<Rightarrow> bool" where
  "prune_keeps w st st' \<longleftrightarrow> set (st_operations st') \<subseteq> set (st_operations st)
     \<and> chain_head_at st' = chain_head_at st \<and> head_seq_of st' = head_seq_of st
     \<and> (\<forall>w' rid. rid_domain st' w' rid \<in> {rid_domain st w' rid, None})
     \<and> (\<forall>w' rid at. w' \<noteq> w \<longrightarrow> rid_domain st' w' rid = rid_domain st w' rid \<and> live_ops st' w' rid at = live_ops st w' rid at)"

lemma prune_keeps_trans: "prune_keeps w a b \<Longrightarrow> prune_keeps w b c \<Longrightarrow> prune_keeps w a c"
  unfolding prune_keeps_def by (intro conjI) (blast, simp, simp, metis insert_iff singletonD, metis)

lemma deleted_keeps:
  assumes "deleted_at w d S E st st'"
  shows "prune_keeps w st st'"
proof -
  have "seen_rows st' w' rid at = seen_rows st w' rid at" if "w' \<noteq> w" for w' rid at
    using assms that by (auto simp: deleted_at_def seen_rows_def intro!: filter_cong)
  then have "live_ops st' w' rid at = live_ops st w' rid at" if "w' \<noteq> w" for w' rid at
    using that live_ops_same by blast
  moreover have "rid_domain st' w' rid \<in> {rid_domain st w' rid, None}" and "w' \<noteq> w \<Longrightarrow> rid_domain st' w' rid = rid_domain st w' rid" for w' rid
    using assms unfolding deleted_at_def by blast+
  moreover have "set (st_operations st') \<subseteq> set (st_operations st)" "chain_head_at st' = chain_head_at st" "head_seq_of st' = head_seq_of st"
    using assms by (auto simp: deleted_at_def chain_head_at_def fun_eq_iff)
  ultimately show ?thesis by (simp add: prune_keeps_def)
qed

lemma prune_tables:
  assumes "prune_domain w d clock batch st = (r, st')"
  shows "prune_keeps w st st'" and "grows st st'"
proof -
  have "prune_keeps w st st"  by (simp add: prune_keeps_def)
  with assms [unfolded prune_domain_def] show keeps: "prune_keeps w st st'"
  proof (rule prune_loop_steps)
    fix "from" now n next1 s s'
    assume kept: "prune_keeps w st s" and batch: "prune_batch w d from now batch s = Inr ((n, next1), s')"
    show "prune_keeps w st s'"
    proof (cases "retention_floor_of s w d")
      case None
      then have "s' = s" using batch by (auto simp: prune_batch_def retention_floor_of_def store_domain_def)
      then show ?thesis using kept by simp
    next
      case (Some f)
      obtain s1 S E where s1: "deleted_at w d S E s s1" "cleared_below w d f s1 s'"
        using prune_batchD [OF batch Some] by metis
      have "prune_keeps w s1 s'"
        using s1(2) live_ops_same [of s' _ _ _ s1]
        by (auto simp: cleared_below_def prune_keeps_def rid_domain_def chain_head_at_def seen_rows_def fun_eq_iff)
      then show ?thesis using prune_keeps_trans [OF kept] prune_keeps_trans [OF deleted_keeps [OF s1(1)]] by blast
    qed
  qed
  have "floor_columns st' = floor_columns st" using prune_keeps_columns assms unfolding prune_domain_def by blast
  then have "retention_floor_of st' = retention_floor_of st" by (simp add: floor_of_columns fun_eq_iff)
  then show "grows st st'" using keeps by (intro grows_same) (simp_all add: prune_keeps_def)
qed

subsection \<open>What an accepted push writes\<close>

text \<open>The operation's device was behind it, the object was free or the domain's, and what it covers was there.\<close>

definition follows :: "store \<Rightarrow> log_entry \<Rightarrow> bool" where
  "follows st e \<longleftrightarrow> (\<forall>h. chain_head_at st (lg_workspace e) (lg_domain e) (lg_device e) = Some h
        \<longrightarrow> chr_counter h < op_counter (body (lg_op e)))
   \<and> rid_domain st (lg_workspace e) (lg_rid e) \<in> {None, Some (lg_domain e)}
   \<and> (\<forall>c \<in> set (op_supersedes (body (lg_op e))). op_exists st (lg_workspace e) (lg_rid e) (cov_device c) (cov_counter c))
   \<and> (\<exists>k. head_seq_of st (lg_workspace e) (lg_domain e) = Some k \<and> k < lg_seq e) \<and> lg_seq e \<le> INTEGER_MAX"

definition written :: "crypto \<Rightarrow> log_entry \<Rightarrow> store \<Rightarrow> store \<Rightarrow> bool" where
  "written cr e st st' \<longleftrightarrow> st_operations st' = st_operations st @ [entry_row cr e]
   \<and> st_covers st' = st_covers st @ entry_covers cr e
   \<and> rid_domain st' = (rid_domain st)(lg_workspace e := (rid_domain st (lg_workspace e))(lg_rid e := Some (lg_domain e)))
   \<and> chain_head_at st' = (\<lambda>w d device. if (w, d, device) = (lg_workspace e, lg_domain e, lg_device e)
        then Some (entry_head cr e) else chain_head_at st w d device)
   \<and> head_seq_of st' = (head_seq_of st)(lg_workspace e := (head_seq_of st (lg_workspace e))(lg_domain e := Some (lg_seq e)))
   \<and> retention_floor_of st' = retention_floor_of st"

lemma pushed_written:
  assumes "decoded_op cr pushed" and "apply_operation cr p interval quota generation w pushed st = Inr (r, st')"
    and "st_operations st' = st_operations st @ [row]"
  defines "e \<equiv> \<lparr>lg_workspace = w, lg_op = po_op pushed, lg_seq = rc_seq r, lg_class = or_class row\<rparr>"
  shows "written cr e st st'" and "follows st e"
proof -
  have "st' \<noteq> st" using assms(3) by auto
  then obtain drow class1 where fresh: "accepted_fresh cr p generation w pushed st drow class1 r st'"
    using apply_operation_cases [OF assms(2)] by blast
  let ?b = "body (po_op pushed)"
  let ?d = "op_domain ?b"
  have rid: "rid_domain st w (op_rid ?b) = None \<or> rid_domain st w (op_rid ?b) = Some ?d"
    and position: "check_position st w generation ?b drow (chain_head_at st w ?d (op_device ?b)) = Inr ()"
    and judged: "\<forall>c \<in> set (op_supersedes ?b). op_exists st w (op_rid ?b) (cov_device c) (cov_counter c)"
    using fresh by (auto simp: accepted_fresh_def Let_def judge_live_def list_ex_iff split: if_splits)
  obtain y st1 where op_write: "write_operation w ?d y st = Inr st1" and same: "same_tables st1 st'"
    and y: "ow_op y = entry_live cr e" "ow_class y = class1"
      "ow_new_rid y \<longleftrightarrow> rid_domain st w (op_rid ?b) = None" "ow_chain_head y = entry_head cr e"
    using assms(1) fresh by (auto simp: accepted_fresh_def Let_def entry_live_def entry_head_def decoded_op_def e_def)
  note wrote = write_operationD [OF op_write]
  have core: "st_operations st' = st_operations st1" "st_covers st' = st_covers st1" "st_rids st' = st_rids st1"
    "st_chain_heads st' = st_chain_heads st1" "head_seq_of st' = head_seq_of st1"
    using same by (simp_all add: same_tables_def core_tables_def)
  have "row = op_row w ?d (entry_live cr e) class1" using assms(3) wrote(1) y core by simp
  moreover from this have class1: "or_class row = class1" by (simp add: op_row_def)
  ultimately have row: "row = entry_row cr e" by (simp add: entry_row_def e_def)
  have e: "lg_workspace e = w" "lg_domain e = ?d" "lg_rid e = op_rid ?b" "lg_device e = op_device ?b"
    "op_counter (body (lg_op e)) = op_counter ?b" "op_supersedes (body (lg_op e)) = op_supersedes ?b"
    by (simp_all add: e_def)
  show "written cr e st st'"
    unfolding written_def
  proof (intro conjI)
    show "st_operations st' = st_operations st @ [entry_row cr e]" using assms(3) row by simp
    show "st_covers st' = st_covers st @ entry_covers cr e" using wrote(2) y core by (simp add: entry_covers_def e)
    show "rid_domain st' = (rid_domain st)(lg_workspace e := (rid_domain st (lg_workspace e))(lg_rid e := Some (lg_domain e)))"
      using rid wrote(3) y core by (auto simp: rid_domain_def fun_eq_iff e)
    show "chain_head_at st' = (\<lambda>w' d' device. if (w', d', device) = (lg_workspace e, lg_domain e, lg_device e)
        then Some (entry_head cr e) else chain_head_at st w' d' device)"
      using wrote(4) y core by (auto simp: chain_head_at_def fun_eq_iff e)
    show "head_seq_of st' = (head_seq_of st)(lg_workspace e := (head_seq_of st (lg_workspace e))(lg_domain e := Some (lg_seq e)))"
      using wrote(6) y core by (simp add: e)
    show "retention_floor_of st' = retention_floor_of st" by (rule floor_push [OF assms(2)])
  qed
  have "chr_counter h < op_counter ?b" if "chain_head_at st w ?d (op_device ?b) = Some h" for h
    using position that by (auto simp: check_position_def Let_def not_le split: if_splits)
  moreover obtain k where "head_seq_of st w ?d = Some k" "k < INTEGER_MAX" "lg_seq e = k + 1" using wrote(7) y(1) by auto
  ultimately show "follows st e" using rid judged head_room by (auto simp: follows_def e)
qed

lemma written_grows:
  assumes "written cr e st st'" and "follows st e"
  shows "grows st st'"
  using assms by (fastforce simp: grows_def written_def follows_def floor_at_def entry_head_def)

subsection \<open>Live sets after a push\<close>

abbreviation stripped :: "(live_op \<times> op_class) list \<Rightarrow> (live_op \<times> op_class) list" where
  "stripped \<equiv> map (\<lambda>(x, c). (x\<lparr>lo_covers := []\<rparr>, c))"

lemma covers_stripped [simp]: "covers x (y\<lparr>lo_covers := cs\<rparr>) = covers x y"
  by (simp add: covers_def covered_by_def [abs_def])

lemma filter_stripped: "filter (\<lambda>(y, _). \<not> covers x y) (stripped lives) = stripped (filter (\<lambda>(y, _). \<not> covers x y) lives)"
  by (induction lives) auto

lemma state_live_snoc:
  assumes "\<forall>(y, _) \<in> set ops. \<not> covers y x" and "\<not> covers x x" and "(lo_device x, lo_counter x) \<notin> gone"
  shows "state_live_at \<lparr>rs_ops = ops @ [(x, c)], rs_dropped = gone\<rparr> at =
    (if lo_seq x \<le> at
     then filter (\<lambda>(y, _). \<not> covers x y) (state_live_at \<lparr>rs_ops = ops, rs_dropped = gone\<rparr> at) @ [(x, c)]
     else state_live_at \<lparr>rs_ops = ops, rs_dropped = gone\<rparr> at)"
  using assms by (auto simp: state_live_at_def Let_def list_ex_iff intro!: filter_cong)

lemma sort_key_snoc:
  assumes "\<forall>x \<in> set xs. f x \<le> (f y :: 'b::linorder)"
  shows "sort_key f (xs @ [y]) = sort_key f xs @ [y]"
proof -
  have insort: "f x \<le> f y \<Longrightarrow> insort_key f x (ys @ [y]) = insort_key f x ys @ [y]" for x ys
    by (induction ys) auto
  show ?thesis using assms by (induction xs) (simp_all add: insort)
qed

lemma row_domain:
  assumes "tables_sound st (lg_workspace e)" and "follows st e"
    and "r \<in> set (st_operations st)" and "or_workspace r = lg_workspace e" and "or_rid r = lg_rid e"
  shows "or_domain r = lg_domain e"
  using tables_soundD(1) [OF assms(1,3,4)] assms(2,5) by (auto simp: follows_def)

lemma ahead:
  assumes "follows st e" and "\<exists>h. chain_head_at st (lg_workspace e) (lg_domain e) (lg_device e) = Some h \<and> n \<le> chr_counter h"
  shows "\<not> op_counter (body (lg_op e)) \<le> n"
  using assms by (fastforce simp: follows_def)

lemma not_itself:
  assumes "tables_sound st (lg_workspace e)" and "follows st e"
  shows "\<not> covers (entry_live cr e) (entry_live cr e)"
proof -
  have "\<not> op_counter (body (lg_op e)) \<le> cov_counter c"
    if c: "c \<in> set (op_supersedes (body (lg_op e)))" "cov_device c = lg_device e" for c
  proof -
    obtain r where r: "r \<in> set (st_operations st)" "or_workspace r = lg_workspace e" "or_rid r = lg_rid e"
      "or_device r = lg_device e" "or_counter r = cov_counter c"
      using c assms(2) by (auto simp: follows_def op_exists_def list_ex_iff)
    then have "row_sound st r" using assms(1) by (simp add: tables_sound_def)
    then show ?thesis using ahead [OF assms(2)] r row_domain [OF assms r(1-3)] by (auto simp: row_sound_def)
  qed
  then show ?thesis by (auto simp: covers_entry)
qed

lemma live_ops_written:
  assumes "tables_sound st (lg_workspace e)" and "written cr e st st'" and "follows st e"
  shows "live_ops st' (lg_workspace e) (lg_rid e) at =
    (if lg_seq e \<le> at
     then filter (\<lambda>(x, _). \<not> covers (entry_live cr e) x) (live_ops st (lg_workspace e) (lg_rid e) at)
       @ stripped [(entry_live cr e, lg_class e)]
     else live_ops st (lg_workspace e) (lg_rid e) at)"
proof -
  let ?w = "lg_workspace e" and ?rid = "lg_rid e"
  define R C where "R = fst (seen_rows st ?w ?rid at)" and "C = snd (seen_rows st ?w ?rid at)"
  have row: "lg_seq e \<le> at_most at \<longleftrightarrow> lg_seq e \<le> at" using assms(3) by (simp add: at_most_le follows_def)
  have tables: "st_operations st' = st_operations st @ [entry_row cr e]" "st_covers st' = st_covers st @ entry_covers cr e"
    using assms(2) by (simp_all add: written_def)
  have fields: "cvr_workspace c = ?w \<and> cvr_rid c = ?rid \<and> cvr_by_seq c = lg_seq e" if "c \<in> set (entry_covers cr e)" for c
    using that by (auto simp: entry_covers_def cover_row_of_def)
  then have own: "filter (\<lambda>c. cvr_workspace c = ?w \<and> cvr_rid c = ?rid \<and> cvr_by_seq c \<le> at_most at) (entry_covers cr e)
      = (if lg_seq e \<le> at then entry_covers cr e else [])"
    using row by (auto simp: filter_empty_conv intro: filter_True)
  have seen: "seen_rows st' ?w ?rid at = (if lg_seq e \<le> at then (R @ [entry_row cr e], C @ entry_covers cr e) else (R, C))"
    using row own by (simp add: seen_rows_def tables R_def C_def)
  have covered: "list_ex (\<lambda>c. cvr_device c = or_device r \<and> cvr_counter c \<ge> or_counter r) (entry_covers cr e)
      \<longleftrightarrow> covers (entry_live cr e) (row_op r)" for r
    by (auto simp: covers_entry entry_covers_def cover_row_of_def list_ex_iff row_op_def)
  note behind = ahead [OF assms(3)] and old = row_domain [OF assms(1,3)]
  have fresh: "\<not> list_ex (\<lambda>c. cvr_device c = lg_device e \<and> cvr_counter c \<ge> op_counter (body (lg_op e))) C"
  proof -
    have "\<not> op_counter (body (lg_op e)) \<le> cvr_counter c" if c: "c \<in> set C" "cvr_device c = lg_device e" for c
    proof -
      have "c \<in> set (st_covers st)" "cvr_workspace c = ?w" "cvr_rid c = ?rid" using c(1) by (auto simp: C_def seen_rows_def)
      then have "cover_sound st c" using assms(1) by (simp add: tables_sound_def)
      then show ?thesis using behind c(2) \<open>cvr_workspace c = ?w\<close> \<open>cvr_rid c = ?rid\<close> assms(3) by (auto simp: cover_sound_def follows_def)
    qed
    then show ?thesis by (auto simp: list_ex_iff)
  qed
  note itself = not_itself [OF assms(1,3), of cr]
  have rises: "\<forall>r \<in> set (filter P R). or_seq r \<le> or_seq (entry_row cr e)" for P
  proof
    fix r assume "r \<in> set (filter P R)"
    then have r: "r \<in> set (st_operations st)" "or_workspace r = ?w" "or_rid r = ?rid" by (auto simp: R_def seen_rows_def)
    then have "row_sound st r" using assms(1) by (simp add: tables_sound_def)
    then show "or_seq r \<le> or_seq (entry_row cr e)" using r old [OF r] assms(3) by (auto simp: row_sound_def follows_def)
  qed
  show ?thesis
  proof (cases "lg_seq e \<le> at")
    case False
    then have "seen_rows st' ?w ?rid at = seen_rows st ?w ?rid at" using seen by (simp add: R_def C_def)
    then show ?thesis using False live_ops_same [of st' ?w ?rid at st at] by simp
  next
    case True
    let ?live = "\<lambda>r. \<not> or_dropped r \<and> \<not> list_ex (\<lambda>c. cvr_device c = or_device r \<and> cvr_counter c \<ge> or_counter r) C"
    have "\<not> covers (entry_live cr e) ((entry_live cr e)\<lparr>lo_covers := []\<rparr>)" using itself by simp
    then have "filter (\<lambda>r. \<not> or_dropped r \<and> \<not> list_ex (\<lambda>c. cvr_device c = or_device r \<and> cvr_counter c \<ge> or_counter r)
          (C @ entry_covers cr e)) (R @ [entry_row cr e])
        = filter (\<lambda>r. \<not> covers (entry_live cr e) (row_op r)) (filter ?live R) @ [entry_row cr e]"
      using fresh by (auto simp: covered intro!: filter_cong)
    then have "live_ops st' ?w ?rid at = map (\<lambda>r. (row_op r, or_class r)) (filter (\<lambda>r. \<not> covers (entry_live cr e) (row_op r))
        (sort_key or_seq (filter ?live R)) @ [entry_row cr e])"
      using rises [of "\<lambda>r. ?live r \<and> \<not> covers (entry_live cr e) (row_op r)"]
      by (simp add: live_ops_seen [of st'] seen True sort_key_snoc filter_sort conj_commute)
    then show ?thesis using True by (simp add: live_ops_seen [of st] R_def C_def filter_map comp_def)
  qed
qed

subsection \<open>Runs\<close>

text \<open>
  The live set of an object after the entries of its domain, without the deletes that checkpoints
  dropped: what a client computes that dropped the same.
\<close>

definition own_entry :: "ident \<Rightarrow> ident \<Rightarrow> ident \<Rightarrow> log_entry \<Rightarrow> bool" where
  "own_entry w d rid e \<longleftrightarrow> in_domain w d e \<and> lg_rid e = rid"

definition log_live ::
  "crypto \<Rightarrow> log_entry list \<Rightarrow> log_entry set \<Rightarrow> ident \<Rightarrow> ident \<Rightarrow> ident \<Rightarrow> u64 \<Rightarrow> (live_op \<times> op_class) list" where
  "log_live cr log drops w d rid at = state_live_at
     \<lparr>rs_ops = map (\<lambda>e. (entry_live cr e, lg_class e)) (filter (own_entry w d rid) log),
      rs_dropped = (\<lambda>e. (lg_device e, op_counter (body (lg_op e)))) ` {e \<in> drops. own_entry w d rid e}\<rparr> at"

text \<open>The entries whose operations a commit of the plan \<open>pl\<close> marks as dropped.\<close>

definition dropped_by :: "store \<Rightarrow> ident \<Rightarrow> checkpoint_plan \<Rightarrow> log_entry list \<Rightarrow> log_entry set" where
  "dropped_by st w pl log = {e \<in> set log. lg_workspace e = w \<and> rid_domain st w (lg_rid e) = Some (lg_domain e)
     \<and> (lg_rid e, lg_device e, op_counter (body (lg_op e))) \<in> delete_key ` set (cpl_dropped pl)}"

text \<open>Other work: it appends entries of other kinds, and changes the policy, epochs, blobs and counters.\<close>

definition side_work :: "store \<Rightarrow> store \<Rightarrow> bool" where
  "side_work st st' \<longleftrightarrow> st_operations st' = st_operations st \<and> st_covers st' = st_covers st
     \<and> rid_domain st' = rid_domain st \<and> chain_head_at st' = chain_head_at st
     \<and> (\<forall>k bs. bt_get (st_entries st) k = Some (ENTRY_OPERATION, bs) \<longrightarrow> bt_get (st_entries st') k = Some (ENTRY_OPERATION, bs))
     \<and> grows st st'"

text \<open>
  Everything that writes operations, covers, dropped marks and floors, in any order: pushes, retries, commits
  of checkpoints, whatever their plans, rises of a floor, prunings that run to their end or fail.
\<close>

inductive logged_run :: "crypto \<Rightarrow> store \<Rightarrow> log_entry list \<Rightarrow> log_entry set \<Rightarrow> bool" for cr where
  logged_start: "st_operations st = [] \<Longrightarrow> st_covers st = [] \<Longrightarrow> logged_run cr st [] {}"
| logged_push: "logged_run cr st log drops \<Longrightarrow> decoded_op cr pushed
    \<Longrightarrow> apply_operation cr p interval quota generation w pushed st = Inr (r, st')
    \<Longrightarrow> st_operations st' = st_operations st @ [row]
    \<Longrightarrow> logged_run cr st' (log @ [\<lparr>lg_workspace = w, lg_op = po_op pushed, lg_seq = rc_seq r, lg_class = or_class row\<rparr>]) drops"
| logged_retry: "logged_run cr st log drops
    \<Longrightarrow> apply_operation cr p interval quota generation w pushed st = Inr (r, st) \<Longrightarrow> logged_run cr st log drops"
| logged_commit: "logged_run cr st log drops
    \<Longrightarrow> commit_checkpoint_locked cr p sess w bundle pl floor_setting st = Inr (r, st')
    \<Longrightarrow> logged_run cr st' log (drops \<union> (if st' = st then {} else dropped_by st w pl log))"
| logged_floor: "logged_run cr st log drops \<Longrightarrow> persist_floor kept_bytes w d forced st = Inr (r, st') \<Longrightarrow> logged_run cr st' log drops"
| logged_prune: "logged_run cr st log drops \<Longrightarrow> prune_domain w d clock batch st = (r, st') \<Longrightarrow> logged_run cr st' log drops"
| logged_other: "logged_run cr st log drops \<Longrightarrow> side_work st st' \<Longrightarrow> logged_run cr st' log drops"

lemma side_sound:
  assumes "side_work st st'" and "tables_sound st w"
  shows "tables_sound st' w"
proof -
  have same: "st_operations st' = st_operations st" "st_covers st' = st_covers st" "rid_domain st' = rid_domain st"
    "chain_head_at st' = chain_head_at st"
    using assms(1) by (simp_all add: side_work_def)
  have op: "op_at st' = op_at st" by (simp add: op_at_def same fun_eq_iff)
  have "row_sound st' r" if "row_sound st r" for r
  proof -
    have "\<exists>h. head_seq_of st (or_workspace r) (or_domain r) = Some h \<and> or_seq r \<le> h"
      and "\<exists>bs. bt_get (st_entries st) (or_workspace r, or_domain r, or_seq r) = Some (ENTRY_OPERATION, bs)"
      using that by (simp_all add: row_sound_def)
    then have "\<exists>h'. head_seq_of st' (or_workspace r) (or_domain r) = Some h' \<and> or_seq r \<le> h'"
      and "\<exists>bs. bt_get (st_entries st') (or_workspace r, or_domain r, or_seq r) = Some (ENTRY_OPERATION, bs)"
      using heads_grow [of st st'] assms(1) unfolding side_work_def by blast+
    then show ?thesis using that by (simp add: row_sound_def same op)
  qed
  moreover have "cover_sound st' c \<longleftrightarrow> cover_sound st c" for c by (simp add: cover_sound_def same)
  ultimately show ?thesis using assms(2) by (simp add: tables_sound_def same)
qed

lemma logged_sound: "logged_run cr st log drops \<Longrightarrow> tables_sound st w"
proof (induction rule: logged_run.induct)
  case (logged_start st)
  then show ?case by (simp add: tables_sound_def)
next
  case (logged_push st log drops pushed p interval quota generation w r st' row)
  then show ?case using push_sound by blast
next
  case (logged_commit st log drops p sess w "bundle" pl floor_setting r st')
  then show ?case using commit_sound by blast
next
  case (logged_floor st log drops kept_bytes w d forced r st')
  then show ?case using persist_sound by blast
next
  case (logged_prune st log drops w d clock batch r st')
  then show ?case using prune_sound by blast
next
  case (logged_other st log drops st')
  then show ?case using side_sound by blast
qed

subsection \<open>What the tables keep of the log\<close>

definition entry_bounds :: "store \<Rightarrow> log_entry \<Rightarrow> bool" where
  "entry_bounds st e \<longleftrightarrow> (\<exists>h. head_seq_of st (lg_workspace e) (lg_domain e) = Some h \<and> lg_seq e \<le> h)
   \<and> (\<forall>(device, counter) \<in> set ((lg_device e, op_counter (body (lg_op e)))
        # map (\<lambda>c. (cov_device c, cov_counter c)) (op_supersedes (body (lg_op e)))).
        \<exists>h. chain_head_at st (lg_workspace e) (lg_domain e) device = Some h \<and> counter \<le> chr_counter h)"

definition apart :: "log_entry \<Rightarrow> log_entry \<Rightarrow> bool" where
  "apart e e' \<longleftrightarrow> (lg_workspace e = lg_workspace e' \<and> lg_domain e = lg_domain e' \<and> lg_device e = lg_device e'
     \<longrightarrow> op_counter (body (lg_op e)) < op_counter (body (lg_op e')))"

text \<open>The live sets at and above a domain's floor are the log's; an object that the domain lost has none.\<close>

definition live_logged :: "crypto \<Rightarrow> store \<Rightarrow> log_entry list \<Rightarrow> log_entry set \<Rightarrow> bool" where
  "live_logged cr st log drops \<longleftrightarrow> (\<forall>w d rid at. floor_at st w d \<le> at \<longrightarrow>
     stripped (log_live cr log drops w d rid at) = (if rid_domain st w rid = Some d then live_ops st w rid at else []))"

definition keeps_log :: "crypto \<Rightarrow> store \<Rightarrow> log_entry list \<Rightarrow> log_entry set \<Rightarrow> bool" where
  "keeps_log cr st log drops \<longleftrightarrow> (\<forall>e \<in> set log. entry_bounds st e) \<and> drops \<subseteq> set log
     \<and> (\<forall>r \<in> set (st_operations st). \<exists>e \<in> set log. r\<lparr>or_dropped := False\<rparr> = entry_row cr e)
     \<and> sorted_wrt apart log \<and> live_logged cr st log drops"

lemma bounds_grow:
  assumes "grows st st'" and "entry_bounds st e"
  shows "entry_bounds st' e"
  using assms(2) heads_grow [OF assms(1)] chains_grow [OF assms(1)] unfolding entry_bounds_def by fast

lemma live_ops_none:
  assumes "tables_sound st w" and "rid_domain st w rid = None"
  shows "live_ops st w rid at = []"
proof -
  have "\<not> (or_workspace r = w \<and> or_rid r = rid)" if "r \<in> set (st_operations st)" for r
    using tables_soundD(1) [OF assms(1) that] assms(2) by auto
  then have "filter (\<lambda>r. or_workspace r = w \<and> or_rid r = rid \<and> P r) (st_operations st) = []" for P
    by (auto simp: filter_empty_conv)
  then show ?thesis by (simp add: live_ops_def)
qed

lemma written_elsewhere:
  assumes "written cr e st st'" and "\<not> (w = lg_workspace e \<and> rid = lg_rid e)"
  shows "live_ops st' w rid at = live_ops st w rid at" and "rid_domain st' w rid = rid_domain st w rid"
proof -
  have "filter (\<lambda>c. cvr_workspace c = w \<and> cvr_rid c = rid \<and> cvr_by_seq c \<le> at_most at) (entry_covers cr e) = []"
    using assms(2) by (auto simp: filter_empty_conv entry_covers_def cover_row_of_def)
  then have "seen_rows st' w rid at = seen_rows st w rid at"
    using assms by (auto simp: seen_rows_def written_def)
  then show "live_ops st' w rid at = live_ops st w rid at" by (rule live_ops_same)
  show "rid_domain st' w rid = rid_domain st w rid" using assms by (auto simp: written_def)
qed

lemma live_logged_written:
  assumes "keeps_log cr st log drops" and "\<And>w. tables_sound st w" and "written cr e st st'" and "follows st e"
  shows "live_logged cr st' (log @ [e]) drops"
  unfolding live_logged_def
proof (intro allI impI)
  fix w d rid at assume "floor_at st' w d \<le> at"
  then have floor: "floor_at st w d \<le> at" using assms(3) by (simp add: written_def floor_at_def)
  then have before: "stripped (log_live cr log drops w d rid at) = (if rid_domain st w rid = Some d then live_ops st w rid at else [])"
    using assms(1) by (simp add: keeps_log_def live_logged_def)
  show "stripped (log_live cr (log @ [e]) drops w d rid at) = (if rid_domain st' w rid = Some d then live_ops st' w rid at else [])"
  proof (cases "own_entry w d rid e")
    case False
    have "log_live cr (log @ [e]) drops w d rid at = log_live cr log drops w d rid at" using False by (simp add: log_live_def)
    moreover have "(if rid_domain st' w rid = Some d then live_ops st' w rid at else [])
        = (if rid_domain st w rid = Some d then live_ops st w rid at else [])"
    proof (cases "w = lg_workspace e \<and> rid = lg_rid e")
      case True
      then have "rid_domain st' w rid \<noteq> Some d" "rid_domain st w rid \<noteq> Some d"
        using False assms(3,4) by (auto simp: written_def follows_def own_entry_def in_domain_def)
      then show ?thesis by simp
    qed (simp add: written_elsewhere [OF assms(3)])
    ultimately show ?thesis using before by simp
  next
    case True
    then have e: "w = lg_workspace e" "d = lg_domain e" "rid = lg_rid e" by (auto simp: own_entry_def in_domain_def)
    define ops gone where "ops = map (\<lambda>e. (entry_live cr e, lg_class e)) (filter (own_entry w d rid) log)"
      and "gone = (\<lambda>e. (lg_device e, op_counter (body (lg_op e)))) ` {e \<in> drops. own_entry w d rid e}"
    have bounds: "\<not> op_counter (body (lg_op e)) \<le> n"
      if "x \<in> set log" "own_entry w d rid x"
        "(lg_device e, n) \<in> set ((lg_device x, op_counter (body (lg_op x))) # map (\<lambda>c. (cov_device c, cov_counter c)) (op_supersedes (body (lg_op x))))" for x n
    proof (rule ahead [OF assms(4)])
      have "entry_bounds st x" using assms(1) that(1) by (simp add: keeps_log_def)
      then show "\<exists>h. chain_head_at st (lg_workspace e) (lg_domain e) (lg_device e) = Some h \<and> n \<le> chr_counter h"
        using that(2,3) e unfolding entry_bounds_def own_entry_def in_domain_def by fastforce
    qed
    have "\<not> covers (entry_live cr x) (entry_live cr e)" if "x \<in> set log" "own_entry w d rid x" for x
    proof
      assume "covers (entry_live cr x) (entry_live cr e)"
      then obtain c where "c \<in> set (op_supersedes (body (lg_op x)))" "cov_device c = lg_device e"
        "op_counter (body (lg_op e)) \<le> cov_counter c"
        by (auto simp: covers_entry)
      then show False using bounds [OF that, of "cov_counter c"] by force
    qed
    then have "\<forall>(y, _) \<in> set ops. \<not> covers y (entry_live cr e)" by (auto simp: ops_def)
    moreover have "(lo_device (entry_live cr e), lo_counter (entry_live cr e)) \<notin> gone"
      using bounds assms(1) unfolding gone_def keeps_log_def by fastforce
    moreover have "log_live cr (log @ [e]) drops w d rid at
        = state_live_at \<lparr>rs_ops = ops @ [(entry_live cr e, lg_class e)], rs_dropped = gone\<rparr> at"
      using True by (simp add: log_live_def ops_def gone_def)
    moreover have "log_live cr log drops w d rid at = state_live_at \<lparr>rs_ops = ops, rs_dropped = gone\<rparr> at"
      by (simp add: log_live_def ops_def gone_def)
    ultimately have "log_live cr (log @ [e]) drops w d rid at = (if lg_seq e \<le> at
        then filter (\<lambda>(y, _). \<not> covers (entry_live cr e) y) (log_live cr log drops w d rid at) @ [(entry_live cr e, lg_class e)]
        else log_live cr log drops w d rid at)"
      using state_live_snoc [of ops "entry_live cr e" gone] not_itself [OF assms(2,4)] by simp
    moreover have "stripped (log_live cr log drops w d rid at) = live_ops st w rid at"
      using before assms(4) live_ops_none [OF assms(2)] by (auto simp: follows_def e)
    moreover have "rid_domain st' w rid = Some d" using assms(3) by (simp add: written_def e)
    ultimately show ?thesis
      using live_ops_written [OF assms(2-4), of at] by (simp add: e flip: filter_stripped)
  qed
qed

lemma state_live_dropped:
  "state_live_at \<lparr>rs_ops = ops, rs_dropped = gone \<union> extra\<rparr> at
    = filter (\<lambda>(x, _). (lo_device x, lo_counter x) \<notin> extra) (state_live_at \<lparr>rs_ops = ops, rs_dropped = gone\<rparr> at)"
  by (auto simp: state_live_at_def Let_def intro!: filter_cong)

lemma log_live_entry:
  assumes "(x, c) \<in> set (log_live cr log drops w d rid at)"
  obtains e where "e \<in> set log" and "own_entry w d rid e" and "x = entry_live cr e"
  using assms by (auto simp: log_live_def state_live_at_def Let_def)

lemma live_logged_dropped:
  assumes "live_logged cr st log drops" and "st_operations st' = map (mark_dropped w0 (delete_key ` set (cpl_dropped pl))) (st_operations st)"
    and "st_covers st' = st_covers st" and "rid_domain st' = rid_domain st" and "grows st st'"
  shows "live_logged cr st' log (drops \<union> dropped_by st w0 pl log)"
  unfolding live_logged_def
proof (intro allI impI)
  fix w d rid at assume "floor_at st' w d \<le> at"
  then have "floor_at st w d \<le> at" using assms(5) unfolding grows_def by (meson order_trans)
  then have before: "stripped (log_live cr log drops w d rid at) = (if rid_domain st w rid = Some d then live_ops st w rid at else [])"
    using assms(1) by (simp add: live_logged_def)
  define key where "key = (\<lambda>e. (lg_device e, op_counter (body (lg_op e))))"
  let ?more = "key ` {e \<in> dropped_by st w0 pl log. own_entry w d rid e}"
  let ?gone = "\<lambda>x. w = w0 \<and> (rid, lo_device x, lo_counter x) \<in> delete_key ` set (cpl_dropped pl)"
  have "key ` {e \<in> drops \<union> dropped_by st w0 pl log. own_entry w d rid e} = key ` {e \<in> drops. own_entry w d rid e} \<union> ?more" by auto
  then have after: "log_live cr log (drops \<union> dropped_by st w0 pl log) w d rid at
      = filter (\<lambda>(x, _). (lo_device x, lo_counter x) \<notin> ?more) (log_live cr log drops w d rid at)"
    unfolding log_live_def key_def by (simp only: state_live_dropped)
  show "stripped (log_live cr log (drops \<union> dropped_by st w0 pl log) w d rid at)
      = (if rid_domain st' w rid = Some d then live_ops st' w rid at else [])"
  proof (cases "rid_domain st w rid = Some d")
    case False
    then show ?thesis using before after assms(4) by simp
  next
    case True
    have "(lo_device x, lo_counter x) \<in> ?more \<longleftrightarrow> ?gone x" if listed: "(x, c) \<in> set (log_live cr log drops w d rid at)" for x c
    proof -
      obtain e where "e \<in> set log" "own_entry w d rid e" "x = entry_live cr e" by (rule log_live_entry [OF listed])
      then show ?thesis using True by (force simp: key_def dropped_by_def own_entry_def in_domain_def)
    qed
    then have "log_live cr log (drops \<union> dropped_by st w0 pl log) w d rid at
        = filter (\<lambda>(x, _). \<not> ?gone x) (log_live cr log drops w d rid at)"
      unfolding after by (intro filter_cong) auto
    moreover have "stripped (filter (\<lambda>(x, _). \<not> ?gone x) lives) = filter (\<lambda>(x, _). \<not> ?gone x) (stripped lives)" for lives
      by (induction lives) auto
    ultimately show ?thesis
      using live_ops_dropped [OF assms(2,3), of w rid at] before True assms(4) by simp
  qed
qed

lemma live_logged_same:
  assumes "live_logged cr st log drops" and "grows st st'"
    and "\<And>w d rid at. floor_at st w d \<le> at \<Longrightarrow> (if rid_domain st' w rid = Some d then live_ops st' w rid at else [])
      = (if rid_domain st w rid = Some d then live_ops st w rid at else [])"
  shows "live_logged cr st' log drops"
  unfolding live_logged_def
proof (intro allI impI)
  fix w d rid at assume "floor_at st' w d \<le> at"
  then have "floor_at st w d \<le> at" using assms(2) unfolding grows_def by (meson order_trans)
  then show "stripped (log_live cr log drops w d rid at) = (if rid_domain st' w rid = Some d then live_ops st' w rid at else [])"
    using assms(1,3) by (simp add: live_logged_def)
qed

lemma live_logged_pruned:
  assumes "live_logged cr st log drops" and "\<And>w. tables_sound st w" and "prune_domain w0 d0 clock batch st = (r, st')"
  shows "live_logged cr st' log drops"
proof (rule live_logged_same [OF assms(1) prune_tables(2) [OF assms(3)]])
  fix w d rid at assume floor: "floor_at st w d \<le> at"
  note keeps = prune_tables(1) [OF assms(3), unfolded prune_keeps_def]
  show "(if rid_domain st' w rid = Some d then live_ops st' w rid at else [])
      = (if rid_domain st w rid = Some d then live_ops st w rid at else [])"
  proof (cases "w = w0 \<and> rid_domain st w rid = Some d")
    case False
    moreover have "rid_domain st' w rid \<noteq> Some d" if "rid_domain st w rid \<noteq> Some d"
      using keeps that by (metis insert_iff option.distinct(1) singletonD)
    ultimately show ?thesis using keeps by auto
  next
    case True
    have "live_ops st' w0 rid at = live_ops st w0 rid at"
    proof (cases "retention_floor_of st w0 d0")
      case None
      then have "store_domain st w0 d0 = None" by (auto simp: retention_floor_of_def store_domain_def)
      then show ?thesis
        using assms(3) unfolding prune_domain_def by (subst (asm) prune_loop.simps) (simp add: prune_batch_def)
    next
      case (Some f)
      have "rid_domain st w0 rid = Some d0 \<longrightarrow> f \<le> at" using True floor Some by (auto simp: floor_at_def)
      then show ?thesis
        using prune_loop_keeps [OF Some assms(2) settled_start [OF assms(2)]] assms(3) unfolding prune_domain_def by blast
    qed
    moreover have "live_ops st' w0 rid at = []" if "rid_domain st' w0 rid = None"
      using live_ops_none prune_sound [OF assms(3,2)] that by blast
    ultimately show ?thesis using True keeps by (metis insert_iff singletonD)
  qed
qed

lemma new_bounds:
  assumes "tables_sound st (lg_workspace e)" and "written cr e st st'" and "follows st e"
  shows "entry_bounds st' e"
proof -
  have "\<exists>h. chain_head_at st' (lg_workspace e) (lg_domain e) (cov_device c) = Some h \<and> cov_counter c \<le> chr_counter h"
    if c: "c \<in> set (op_supersedes (body (lg_op e)))" for c
  proof (rule chains_grow [OF written_grows [OF assms(2,3)]])
    obtain r where r: "r \<in> set (st_operations st)" "or_workspace r = lg_workspace e" "or_rid r = lg_rid e"
      "or_device r = cov_device c" "or_counter r = cov_counter c"
      using c assms(3) by (auto simp: follows_def op_exists_def list_ex_iff)
    then have "row_sound st r" using assms(1) by (simp add: tables_sound_def)
    then show "\<exists>h. chain_head_at st (lg_workspace e) (lg_domain e) (cov_device c) = Some h \<and> cov_counter c \<le> chr_counter h"
      using r row_domain [OF assms(1,3) r(1-3)] by (auto simp: row_sound_def)
  qed
  moreover have "head_seq_of st' (lg_workspace e) (lg_domain e) = Some (lg_seq e)"
    "chain_head_at st' (lg_workspace e) (lg_domain e) (lg_device e) = Some (entry_head cr e)"
    using assms(2) by (simp_all add: written_def)
  ultimately show ?thesis by (auto simp: entry_bounds_def entry_head_def)
qed

lemma keeps_log_written:
  assumes "keeps_log cr st log drops" and "\<And>w. tables_sound st w" and "written cr e st st'" and "follows st e"
  shows "keeps_log cr st' (log @ [e]) drops"
proof -
  have "apart x e" if x: "x \<in> set log" for x
  proof -
    have "entry_bounds st x" using assms(1) x by (simp add: keeps_log_def)
    then show ?thesis using ahead [OF assms(4)] by (auto simp: apart_def entry_bounds_def not_le)
  qed
  moreover have "\<exists>x \<in> set (log @ [e]). r\<lparr>or_dropped := False\<rparr> = entry_row cr x" if "r \<in> set (st_operations st')" for r
  proof (cases "r = entry_row cr e")
    case True
    then show ?thesis by (simp add: entry_row_def op_row_def)
  next
    case False
    then have "r \<in> set (st_operations st)" using that assms(3) by (simp add: written_def)
    then show ?thesis using assms(1) by (auto simp: keeps_log_def)
  qed
  moreover have "entry_bounds st' x" if "x \<in> set (log @ [e])" for x
    using that assms(1) bounds_grow [OF written_grows [OF assms(3,4)]] new_bounds [OF assms(2-4)] by (auto simp: keeps_log_def)
  ultimately show ?thesis
    using assms(1) live_logged_written [OF assms] by (auto simp: keeps_log_def sorted_wrt_append)
qed

lemma keeps_log_step:
  assumes "keeps_log cr st log drops" and "grows st st'" and "live_logged cr st' log drops'" and "drops' \<subseteq> set log"
    and "\<And>r. r \<in> set (st_operations st') \<Longrightarrow> \<exists>r' \<in> set (st_operations st). r\<lparr>or_dropped := False\<rparr> = r'\<lparr>or_dropped := False\<rparr>"
  shows "keeps_log cr st' log drops'"
  using assms(1,3,4) assms(5) bounds_grow [OF assms(2)] unfolding keeps_log_def by metis

lemma run_keeps_log: "logged_run cr st log drops \<Longrightarrow> keeps_log cr st log drops"
proof (induction rule: logged_run.induct)
  case (logged_start st)
  then show ?case by (simp add: keeps_log_def live_logged_def log_live_def state_live_at_def live_ops_def)
next
  case (logged_push st log drops pushed p interval quota generation w r st' row)
  then show ?case
    by (intro keeps_log_written [OF logged_push.IH logged_sound [OF logged_push.hyps(1)] pushed_written [OF logged_push.hyps(2-4)]])
next
  case (logged_commit st log drops p sess w "bundle" pl floor_setting r st')
  show ?case
  proof (cases "st' = st")
    case False
    note tables = commit_tables [OF logged_commit.hyps(2) False]
    have live: "live_logged cr st log drops" using logged_commit.IH by (simp add: keeps_log_def)
    have "keeps_log cr st' log (drops \<union> dropped_by st w pl log)"
      by (rule keeps_log_step [OF logged_commit.IH tables(4) live_logged_dropped [OF live tables]])
        (use logged_commit.IH in \<open>auto simp: keeps_log_def dropped_by_def tables(1) mark_dropped_def\<close>)
    then show ?thesis using False by simp
  qed (use logged_commit.IH in simp)
next
  case (logged_floor st log drops kept_bytes w d forced r st')
  note tables = persist_tables [OF logged_floor.hyps(2)]
  have live: "live_logged cr st log drops" using logged_floor.IH by (simp add: keeps_log_def)
  have "live_ops st' = live_ops st" "rid_domain st' = rid_domain st" "st_operations st' = st_operations st"
    using tables(1) by (simp_all add: same_tables_def core_tables_def live_ops_def rid_domain_def fun_eq_iff)
  then show ?case
    using logged_floor.IH by (intro keeps_log_step [OF logged_floor.IH tables(2) live_logged_same [OF live tables(2)]]) (auto simp: keeps_log_def)
next
  case (logged_prune st log drops w d clock batch r st')
  note tables = prune_tables [OF logged_prune.hyps(2)]
  have live: "live_logged cr st log drops" using logged_prune.IH by (simp add: keeps_log_def)
  show ?case
    using logged_prune.IH tables(1) logged_sound [OF logged_prune.hyps(1)]
    by (intro keeps_log_step [OF logged_prune.IH tables(2) live_logged_pruned [OF live _ logged_prune.hyps(2)]]) (auto simp: keeps_log_def prune_keeps_def)
next
  case (logged_other st log drops st')
  have live: "live_logged cr st log drops" using logged_other.IH by (simp add: keeps_log_def)
  have grow: "grows st st'" using logged_other.hyps(2) by (simp add: side_work_def)
  have "live_ops st' = live_ops st" "rid_domain st' = rid_domain st" "st_operations st' = st_operations st"
    using logged_other.hyps(2) by (simp_all add: side_work_def live_ops_def fun_eq_iff)
  then show ?case
    using logged_other.IH by (intro keeps_log_step [OF logged_other.IH grow live_logged_same [OF live grow]]) (auto simp: keeps_log_def)
qed

subsection \<open>Live sets\<close>

text \<open>
  C40. The tables keep refining the log when the server also prunes: after any run of pushes, retries, commits
  of checkpoints, rises of floors, prunings and other work, for each object of a domain and as of each
  sequence at or above the domain's retention floor, the rows that the server's query returns are the
  operations that the rule of \<section>13 leaves live of the object's entries in the whole log, with the classes they
  were accepted with and in the log's order, without the deletes that commits dropped; and an
  object whose rows are all pruned, which the server then takes for new, has no live operation left
  at any of these sequences. Each pruning runs to its end, or fails, before a floor rises again.
\<close>

theorem pruned_tables_refine_log:
  assumes "logged_run cr st log drops" and "retention_floor_of st w d = Some f" and "f \<le> at"
  shows "map (\<lambda>(x, c). (x\<lparr>lo_covers := []\<rparr>, c)) (log_live cr log drops w d rid at)
    = (if rid_domain st w rid = Some d then live_ops st w rid at else [])"
  using run_keeps_log [OF assms(1)] assms(2,3) by (simp add: keeps_log_def live_logged_def floor_at_def)

subsection \<open>Positions\<close>

lemma logged_position:
  assumes "keeps_log cr st log drops" and "e \<in> set log"
  shows "op_position st (lg_workspace e) (lg_domain e) (lg_device e) (op_counter (body (lg_op e)))
    \<in> {None, Some (lg_seq e, signed_operation_digest cr (lg_op e))}"
proof -
  let ?P = "\<lambda>r. or_workspace r = lg_workspace e \<and> or_domain r = lg_domain e \<and> or_device r = lg_device e
    \<and> or_counter r = op_counter (body (lg_op e))"
  have "or_seq r = lg_seq e \<and> or_digest r = signed_operation_digest cr (lg_op e)" if "find ?P (st_operations st) = Some r" for r
  proof -
    have r: "r \<in> set (st_operations st)" "?P r" using that by (auto simp: find_Some_iff)
    then obtain x where x: "x \<in> set log" "r\<lparr>or_dropped := False\<rparr> = entry_row cr x" using assms(1) by (auto simp: keeps_log_def)
    have fields: "or_workspace r = lg_workspace x" "or_domain r = lg_domain x" "or_device r = lg_device x"
      "or_counter r = op_counter (body (lg_op x))" "or_seq r = lg_seq x" "or_digest r = signed_operation_digest cr (lg_op x)"
      using arg_cong [OF x(2), of or_workspace] arg_cong [OF x(2), of or_domain] arg_cong [OF x(2), of or_device]
        arg_cong [OF x(2), of or_counter] arg_cong [OF x(2), of or_seq] arg_cong [OF x(2), of or_digest] by simp_all
    have "x = e"
    proof (rule ccontr)
      assume "x \<noteq> e"
      moreover have "sorted_wrt apart log" using assms(1) by (simp add: keeps_log_def)
      ultimately have "apart x e \<or> apart e x" using x(1) assms(2) by (induction log) auto
      then show False using r(2) fields by (auto simp: apart_def)
    qed
    then show ?thesis using fields by simp
  qed
  then show ?thesis by (cases "find ?P (st_operations st)") (auto simp: op_position_def)
qed

lemma access_refused: "check_access p b row h \<in> insert (Inr ()) (Inl ` range refuse)"
  by (auto simp: check_access_def Let_def)

lemma position_refused:
  assumes "op_counter b \<le> chr_counter h"
  shows "\<exists>code detail. check_position st w generation b row (Some h) = Inl (Refused code detail)"
  using assms by (auto simp: check_position_def Let_def chain_conflict_def refuse_def)

text \<open>
  C22. A position of a device's chain is taken for good, whatever the server accepts, commits and prunes
  afterwards: no record is accepted at it a second time. As long as the server still has the
  operation's row, the device is still one of the workspace's and the domain is not deleted, pushing the
  record that was accepted there returns the same receipt and changes nothing, and any other record at that counter
  is a conflict that names the device's head. Once the row is pruned, or the device or the
  domain is gone, every record there is refused.
\<close>

theorem position_is_taken:
  assumes "logged_run cr st log drops" and "e \<in> set log"
    and "op_domain (body (po_op pushed)) = lg_domain e" and "op_device (body (po_op pushed)) = lg_device e"
    and "op_counter (body (po_op pushed)) = op_counter (body (lg_op e))"
  shows "if op_position st (lg_workspace e) (lg_domain e) (lg_device e) (op_counter (body (lg_op e))) \<noteq> None
      \<and> is_device (head_snapshot p) (lg_device e) \<and> bt_contains (sn_domains (head_snapshot p)) (lg_domain e)
    then apply_operation cr p interval quota generation (lg_workspace e) pushed st =
      (if po_digest pushed = signed_operation_digest cr (lg_op e)
       then Inr (\<lparr>rc_record_digest = po_digest pushed, rc_domain = lg_domain e, rc_seq = lg_seq e\<rparr>, st)
       else Inl (chain_conflict (lg_domain e) (chain_head_at st (lg_workspace e) (lg_domain e) (lg_device e))))
    else \<exists>code detail. apply_operation cr p interval quota generation (lg_workspace e) pushed st = Inl (Refused code detail)"
proof -
  let ?w = "lg_workspace e" and ?b = "body (po_op pushed)"
  have kept: "keeps_log cr st log drops" by (rule run_keeps_log [OF assms(1)])
  then have bounds: "entry_bounds st e" using assms(2) by (simp add: keeps_log_def)
  then obtain h where head: "chain_head_at st ?w (lg_domain e) (lg_device e) = Some h" "op_counter ?b \<le> chr_counter h"
    using assms(5) by (auto simp: entry_bounds_def)
  have held: "held_at st ?w ?b (Some h) = op_position st ?w (lg_domain e) (lg_device e) (op_counter (body (lg_op e)))"
    using head(2) assms(3-5) by (simp add: held_at_def)
  obtain row where row: "store_domain st ?w (lg_domain e) = Some row"
    using bounds by (auto simp: entry_bounds_def head_seq_of_def store_domain_def)
  obtain code detail where refused: "check_position st ?w generation ?b row (Some h) = Inl (Refused code detail)"
    using position_refused [OF head(2)] by blast
  show ?thesis
    using logged_position [OF kept assms(2)] access_refused [of p ?b row "Some h"] refused assms(3,4) head(1) held row
    by (auto simp: apply_operation_def operation_state_def Let_def refuse_def)
qed

end
