(* ===== verification/Retention_Examples.thy ===== *)
theory Retention_Examples
  imports Server_Log Server_Examples
begin

declare One_nat_def [simp del]

text \<open>
  A domain of five operations on two objects, pruned by batches of one while its floor rises, and
  witnesses of the theorems on pruning.
\<close>

subsection \<open>A resumed pruning\<close>

definition old_op :: "nat \<Rightarrow> nat \<Rightarrow> nat \<Rightarrow> nat \<Rightarrow> operation_row" where
  "old_op n device counter rid = \<lparr>or_workspace = Ident 40, or_domain = Ident 50, or_seq = of_nat n, or_device = Ident (of_nat device),
     or_counter = of_nat counter, or_rid = Ident (of_nat rid), or_digest = demo_digest (70 + n), or_delete = False,
     or_class = Class_State, or_weight = 1, or_dropped = False\<rparr>"

definition old_cover :: "nat \<Rightarrow> nat \<Rightarrow> nat \<Rightarrow> nat \<Rightarrow> cover_row" where
  "old_cover n device counter rid = \<lparr>cvr_workspace = Ident 40, cvr_rid = Ident (of_nat rid), cvr_device = Ident (of_nat device),
     cvr_counter = of_nat counter, cvr_by_seq = of_nat n, cvr_domain = Ident 50\<rparr>"

definition old_head :: "nat \<Rightarrow> nat \<Rightarrow> chain_head_row" where
  "old_head counter n = \<lparr>chr_counter = of_nat counter, chr_digest = demo_digest (70 + n), chr_seq = of_nat n,
     chr_policy_revision = 1, chr_generation = 0\<rparr>"

definition old_columns :: domain_columns where
  "old_columns = demo_columns\<lparr>dr_head_seq := 5, dr_checkpoint_seq := 5, dr_retention_floor := 3\<rparr>"

definition old_store :: store where
  "old_store = demo_store\<lparr>st_domains := bt_insert (Ident 40, Ident 50) old_columns bt_empty,
     st_entries := bt_collect (map (\<lambda>n. ((Ident 40, Ident 50, of_nat n), (ENTRY_OPERATION, []))) [1, 2, 3, 4, 5]),
     st_operations := [old_op 1 1 1 60, old_op 2 1 2 61, old_op 3 1 3 61, old_op 4 2 1 60, old_op 5 2 2 60],
     st_covers := [old_cover 3 1 2 61, old_cover 4 1 1 60, old_cover 5 2 1 60],
     st_rids := bt_insert (Ident 40, Ident 60) (Ident 50) (bt_insert (Ident 40, Ident 61) (Ident 50) bt_empty),
     st_chain_heads := bt_insert (Ident 40, Ident 50, Ident 1) (old_head 3 3)
       (bt_insert (Ident 40, Ident 50, Ident 2) (old_head 2 5) bt_empty)\<rparr>"

text \<open>What a batch of one leaves at the first floor, and the floor that rises then.\<close>

definition cut_store :: store where
  "cut_store = old_store\<lparr>st_operations := [old_op 1 1 1 60, old_op 3 1 3 61, old_op 4 2 1 60, old_op 5 2 2 60],
     st_entries := bt_remove (Ident 40, Ident 50, 2) (st_entries old_store)\<rparr>"

definition mid_store :: store where
  "mid_store = cut_store\<lparr>st_domains := bt_adjust (Ident 40, Ident 50) (\<lambda>c. c\<lparr>dr_retention_floor := 5\<rparr>) (st_domains old_store)\<rparr>"

lemma old_rows [simp]: "or_workspace (old_op n device counter rid) = Ident 40" "operation_row.or_domain (old_op n device counter rid) = Ident 50"
  "operation_row.or_seq (old_op n device counter rid) = of_nat n" "or_device (old_op n device counter rid) = Ident (of_nat device)"
  "or_counter (old_op n device counter rid) = of_nat counter" "operation_row.or_rid (old_op n device counter rid) = Ident (of_nat rid)"
  "\<not> or_dropped (old_op n device counter rid)"
  by (simp_all add: old_op_def)

lemma old_cover_rows [simp]: "cvr_workspace (old_cover n device counter rid) = Ident 40"
  "cvr_domain (old_cover n device counter rid) = Ident 50" "cvr_by_seq (old_cover n device counter rid) = of_nat n"
  "cvr_device (old_cover n device counter rid) = Ident (of_nat device)" "cvr_counter (old_cover n device counter rid) = of_nat counter"
  "cvr_rid (old_cover n device counter rid) = Ident (of_nat rid)"
  by (simp_all add: old_cover_def)

lemma old_tables [simp]:
  "st_operations old_store = [old_op 1 1 1 60, old_op 2 1 2 61, old_op 3 1 3 61, old_op 4 2 1 60, old_op 5 2 2 60]"
  "st_covers old_store = [old_cover 3 1 2 61, old_cover 4 1 1 60, old_cover 5 2 1 60]"
  "bt_get (st_entries old_store) (Ident 40, Ident 50, s) = (if s \<in> {1, 2, 3, 4, 5} then Some (ENTRY_OPERATION, []) else None)"
  "rid_domain old_store (Ident 40) rid = (if rid \<in> {Ident 60, Ident 61} then Some (Ident 50) else None)"
  "head_seq_of old_store (Ident 40) (Ident 50) = Some 5"
  by (simp_all add: old_store_def rid_domain_def head_seq_of_def old_columns_def bt_collect_def)

lemma old_heads [simp]: "chain_head_at old_store (Ident 40) (Ident 50) (Ident 1) = Some (old_head 3 3)"
  "chain_head_at old_store (Ident 40) (Ident 50) (Ident 2) = Some (old_head 2 5)" "chr_counter (old_head counter n) = of_nat counter"
  by (simp_all add: old_store_def chain_head_at_def old_head_def)

lemma old_sound: "tables_sound old_store (Ident 40)"
proof -
  have "list_all (row_sound old_store) (st_operations old_store)"
    by (simp add: row_sound_def op_at_def INTEGER_MAX_def)
  moreover have "list_all (cover_sound old_store) (st_covers old_store)"
    by (simp add: cover_sound_def)
  moreover have "list_all (\<lambda>r. list_all (\<lambda>c. row_covered c r \<longrightarrow> operation_row.or_seq r < cvr_by_seq c) (st_covers old_store))
      (st_operations old_store)"
    by (simp add: row_covered_def word_le_nat_alt)
  ultimately show ?thesis unfolding tables_sound_def list_all_iff by blast
qed

lemma old_entries: "bt_entries (st_entries old_store) = map (\<lambda>n. ((Ident 40, Ident 50, of_nat n), (ENTRY_OPERATION, []))) [1, 2, 3, 4, 5]"
  by (simp add: old_store_def bt_collect_def)

lemma small_columns: "at_most 0 = 0" "at_most 2 = 2" "at_most 3 = 3" "at_most 5 = 5"
  by (simp_all add: at_most_def INTEGER_MAX_def)

lemma old_prunable: "prunable_entries old_store (Ident 40) (Ident 50) (scan_of old_store (Ident 40) (Ident 50) 0 3) 1
    = [\<lparr>pre_seq = 2, pre_type = ENTRY_OPERATION, pre_length = 0, pre_rid = Some (Ident 61)\<rparr>]"
  by (simp add: prunable_entries_def old_entries prunable_def scan_of_def op_at_def small_columns covered_through_def word_le_nat_alt
      ENTRY_OPERATION_def ENTRY_CHECKPOINT_def ENTRY_EPOCH_def ENTRY_POLICY_def)

lemma old_batch: "prune_batch (Ident 40) (Ident 50) 0 9 1 old_store = Inr ((1, Some 2), cut_store)"
proof -
  have row: "\<exists>row. store_domain old_store (Ident 40) (Ident 50) = Some row \<and> dr_retention_floor row = 3"
    by (simp add: store_domain_def domain_columns.defs old_store_def old_columns_def)
  have blobs: "listed_blobs old_store w d s = []" for w d s by (simp add: listed_blobs_def old_store_def demo_store_def)
  have "prune_entry (Ident 40) (Ident 50) 9 ((0, 0), old_store)
      \<lparr>pre_seq = 2, pre_type = ENTRY_OPERATION, pre_length = 0, pre_rid = Some (Ident 61)\<rparr> = Inr ((0, 0), cut_store)"
    by (simp add: prune_entry_def blobs delete_log_entry_def int_column_def INTEGER_MAX_def ENTRY_OPERATION_def signed_i64_def
        rid_in_use_def cut_store_def small_columns)
  then show ?thesis
    using row by (auto simp: prune_batch_def old_prunable prune_rest_def add_usage_def)
qed

lemma raised: "persist_floor 0 (Ident 40) (Ident 50) (Some 5) cut_store = Inr ((5, True), mid_store)"
  by (simp add: persist_floor_def store_domain_def domain_columns.defs cut_store_def mid_store_def old_store_def old_columns_def
      demo_columns_def rule_floor_def checkpoint_at_weight_def checkpoint_rows_def demo_store_def set_retention_floor_def
      int_column_def INTEGER_MAX_def)

lemma mid_tables [simp]:
  "st_operations mid_store = [old_op 1 1 1 60, old_op 3 1 3 61, old_op 4 2 1 60, old_op 5 2 2 60]"
  "st_covers mid_store = [old_cover 3 1 2 61, old_cover 4 1 1 60, old_cover 5 2 1 60]"
  "bt_entries (st_entries mid_store) = map (\<lambda>n. ((Ident 40, Ident 50, of_nat n), (ENTRY_OPERATION, []))) [1, 3, 4, 5]"
  "retention_floor_of mid_store (Ident 40) (Ident 50) = Some 5"
  by (simp_all add: mid_store_def cut_store_def bt_remove_def old_entries retention_floor_of_def)
    (simp add: old_store_def)

lemma mid_sound: "tables_sound mid_store (Ident 40)"
proof -
  have "retention_floor_of old_store (Ident 40) (Ident 50) = Some 3"
    by (simp add: retention_floor_of_def old_store_def old_columns_def)
  from prune_keeps_live_sets [OF old_batch this old_sound settled_start [OF old_sound]]
  have "tables_sound cut_store (Ident 40)" by blast
  then show ?thesis by (rule persist_sound [OF raised])
qed

lemma mid_prunable: "prunable_entries mid_store (Ident 40) (Ident 50) (scan_of mid_store (Ident 40) (Ident 50) 2 5) PRUNE_BATCH
    = [\<lparr>pre_seq = 4, pre_type = ENTRY_OPERATION, pre_length = 0, pre_rid = Some (Ident 60)\<rparr>]"
  by (simp add: prunable_entries_def prunable_def scan_of_def op_at_def small_columns covered_through_def word_le_nat_alt
      PRUNE_BATCH_def ENTRY_OPERATION_def ENTRY_CHECKPOINT_def ENTRY_EPOCH_def ENTRY_POLICY_def)

lemma mid_batch: "\<exists>st. prune_batch (Ident 40) (Ident 50) 2 9 PRUNE_BATCH mid_store = Inr ((1, None), st)"
proof -
  have row: "\<exists>row. store_domain mid_store (Ident 40) (Ident 50) = Some row \<and> dr_retention_floor row = 5"
    by (simp add: store_domain_def domain_columns.defs mid_store_def cut_store_def old_store_def)
  have blobs: "listed_blobs mid_store w d s = []" for w d s
    by (simp add: listed_blobs_def mid_store_def cut_store_def old_store_def demo_store_def)
  have "\<exists>st. prune_entry (Ident 40) (Ident 50) 9 ((0, 0), mid_store)
      \<lparr>pre_seq = 4, pre_type = ENTRY_OPERATION, pre_length = 0, pre_rid = Some (Ident 60)\<rparr> = Inr ((0, 0), st) \<and> st_checkpoints st = []"
    by (simp add: prune_entry_def blobs delete_log_entry_def int_column_def INTEGER_MAX_def ENTRY_OPERATION_def signed_i64_def
        rid_in_use_def small_columns) (simp add: mid_store_def cut_store_def old_store_def demo_store_def)
  then obtain st where st: "prune_entry (Ident 40) (Ident 50) 9 ((0, 0), mid_store)
      \<lparr>pre_seq = 4, pre_type = ENTRY_OPERATION, pre_length = 0, pre_rid = Some (Ident 60)\<rparr> = Inr ((0, 0), st)" "st_checkpoints st = []"
    by blast
  have "clear_checkpoint_data w d f hs n st = (0, st)" for w d f hs n
    using st(2) by (simp add: clear_checkpoint_data_def checkpoint_rows_def)
  moreover have "PRUNE_BATCH \<noteq> 0" "PRUNE_BATCH \<noteq> 1" by (simp_all add: PRUNE_BATCH_def)
  ultimately show ?thesis
    using row st(1) by (auto simp: prune_batch_def mid_prunable prune_rest_def add_usage_def set_pruned_floor_def
        int_column_def INTEGER_MAX_def)
qed

theorem resumed_prune_revives_witness:
  "\<exists>mid after st'. prune_batch (Ident 40) (Ident 50) 0 9 1 old_store = Inr ((1, Some 2), after)
    \<and> persist_floor 0 (Ident 40) (Ident 50) (Some 5) after = Inr ((5, True), mid)
    \<and> prune_batch (Ident 40) (Ident 50) 2 9 PRUNE_BATCH mid = Inr ((1, None), st')
    \<and> (row_op (old_op 1 1 1 60), Class_State) \<notin> set (live_ops mid (Ident 40) (Ident 60) 5)
    \<and> (row_op (old_op 1 1 1 60), Class_State) \<in> set (live_ops st' (Ident 40) (Ident 60) 5)"
proof -
  obtain st' where batch: "prune_batch (Ident 40) (Ident 50) 2 9 PRUNE_BATCH mid_store = Inr ((1, None), st')"
    using mid_batch by blast
  have "or_class (old_op 1 1 1 60) = Class_State" by (simp add: old_op_def)
  with resumed_prune_revives [OF batch _ mid_tables(4) mid_sound, of "old_op 1 1 1 60" 5]
  show ?thesis
    using old_batch raised batch
    by (simp add: small_columns PRUNE_BATCH_def covered_through_def row_covered_def word_le_nat_alt)
qed

subsection \<open>A pruning of the demo domain\<close>

definition demo_old :: store where
  "demo_old = demo_after\<lparr>st_domains := bt_adjust (Ident 40, Ident 50) (\<lambda>c. c\<lparr>dr_retention_floor := 1\<rparr>) (st_domains demo_after)\<rparr>"

lemma demo_old_run: "stored_run epoch_crypto demo_old"
proof -
  have "stored_run epoch_crypto demo_store" by (rule stored_start) (simp_all add: demo_store_def)
  then have "stored_run epoch_crypto demo_after" by (rule stored_push [OF _ demo_applied(1)])
  moreover have "same_tables demo_after demo_old"
    by (simp add: demo_old_def same_tables_def core_tables_def head_seq_of_def option.map_comp comp_def fun_eq_iff)
  ultimately show ?thesis by (rule stored_other)
qed

theorem pruning_keeps_servable_witness:
  "\<exists>r st'. prune_domain (Ident 40) (Ident 50) (\<lambda>_. 9) PRUNE_BATCH demo_old = (r, st')
    \<and> live_ops st' (Ident 40) (Ident 60) 1 = live_ops demo_old (Ident 40) (Ident 60) 1"
proof -
  obtain r st' where prune: "prune_domain (Ident 40) (Ident 50) (\<lambda>_. 9) PRUNE_BATCH demo_old = (r, st')" by (metis surj_pair)
  have "retention_floor_of demo_old (Ident 40) (Ident 50) = Some 1"
    using demo_applied(5) by (auto simp: retention_floor_of_def demo_old_def)
  from pruning_keeps_servable [OF demo_old_run prune _ this, of "Ident 60" 1] show ?thesis
    using prune by (simp add: PRUNE_BATCH_def)
qed

text \<open>The same server with the log behind its tables.\<close>

lemma demo_tables: "st_operations demo_after = [entry_row epoch_crypto demo_entry]" "rid_domain demo_after (Ident 40) (Ident 60) = Some (Ident 50)"
proof -
  have "holds_log epoch_crypto demo_after [demo_entry]" using run_log [OF demo_run] by blast
  then show "st_operations demo_after = [entry_row epoch_crypto demo_entry]" "rid_domain demo_after (Ident 40) (Ident 60) = Some (Ident 50)"
    by (simp_all add: holds_log_def in_domain_def demo_entry_def)
qed

lemma demo_logged: "logged_run epoch_crypto demo_after [demo_entry] {}"
proof -
  have start: "logged_run epoch_crypto demo_store [] {}" by (rule logged_start) (simp_all add: demo_store_def)
  have "st_operations demo_after = st_operations demo_store @ [entry_row epoch_crypto demo_entry]"
    by (simp add: demo_tables demo_store_def)
  from logged_push [OF start demo_push_decoded demo_applied(1) this] show ?thesis
    by (simp add: demo_entry_def demo_receipt_def)
qed

lemma demo_old_logged: "logged_run epoch_crypto demo_old [demo_entry] {}"
proof (rule logged_other [OF demo_logged])
  have "floor_at demo_after w d \<le> floor_at demo_old w d" for w d
    using demo_applied(5) by (auto simp: floor_at_def retention_floor_of_def demo_old_def)
  then show "side_work demo_after demo_old"
    by (auto simp: side_work_def grows_def demo_old_def rid_domain_def chain_head_at_def head_seq_of_def fun_eq_iff)
qed

theorem pruned_tables_refine_log_witness:
  "\<exists>r st'. prune_domain (Ident 40) (Ident 50) (\<lambda>_. 9) PRUNE_BATCH demo_old = (r, st')
    \<and> live_ops st' (Ident 40) (Ident 60) 1 = [((entry_live epoch_crypto demo_entry)\<lparr>lo_covers := []\<rparr>, Class_State)]"
proof -
  obtain r st' where prune: "prune_domain (Ident 40) (Ident 50) (\<lambda>_. 9) PRUNE_BATCH demo_old = (r, st')" by (metis surj_pair)
  have floor: "retention_floor_of demo_old (Ident 40) (Ident 50) = Some 1"
    using demo_applied(5) by (auto simp: retention_floor_of_def demo_old_def)
  have "floor_columns st' = floor_columns demo_old" using prune_keeps_columns prune unfolding prune_domain_def by blast
  then have "retention_floor_of st' (Ident 40) (Ident 50) = Some 1" using floor by (simp add: floor_of_columns)
  note refined = pruned_tables_refine_log [OF logged_prune [OF demo_old_logged prune] this, of 1 "Ident 60"]
  have fields: "lg_seq demo_entry = 1" "lg_class demo_entry = Class_State" "own_entry (Ident 40) (Ident 50) (Ident 60) demo_entry"
    "op_supersedes (body (lg_op demo_entry)) = []"
    by (simp_all add: demo_entry_def own_entry_def in_domain_def)
  then have "log_live epoch_crypto [demo_entry] {} (Ident 40) (Ident 50) (Ident 60) 1 = [(entry_live epoch_crypto demo_entry, Class_State)]"
    by (simp add: log_live_def state_live_at_def covers_entry)
  then show ?thesis using refined prune by (auto split: if_splits)
qed

theorem position_is_taken_witness: "demo_apply demo_after = Inr (demo_receipt, demo_after)"
proof -
  have "op_position demo_after (lg_workspace demo_entry) (lg_domain demo_entry) (lg_device demo_entry)
      (op_counter (body (lg_op demo_entry))) \<noteq> None"
    by (simp add: op_position_def demo_tables)
  then show ?thesis
    using position_is_taken [OF demo_logged, of demo_entry demo_push "demo_policy 1" default_interval None 0]
      demo_head1 demo_active1 demo_push_digest
    by (simp add: demo_entry_def demo_receipt_def)
qed

subsection \<open>A batch on the small server, whose floor stands at the end of its checkpoint\<close>


definition kept_store :: store where
  "kept_store = late_store\<lparr>st_chain_heads := bt_insert (Ident 40, Ident 50, Ident 1)
     \<lparr>chr_counter = 4, chr_digest = demo_digest 74, chr_seq = 4, chr_policy_revision = 1, chr_generation = 0\<rparr> bt_empty\<rparr>"

lemma kept_tables [simp]: "st_operations kept_store = [srv_op 3 (Ident 60) False, srv_op 4 (Ident 61) True]"
  "st_covers kept_store = []" "st_rids kept_store = st_rids srv_store" "st_entries kept_store = st_entries late_store"
  "st_domains kept_store = st_domains late_store" "st_checkpoints kept_store = st_checkpoints srv_after"
  "chain_head_at kept_store (Ident 40) (Ident 50) (Ident 1)
    = Some \<lparr>chr_counter = 4, chr_digest = demo_digest 74, chr_seq = 4, chr_policy_revision = 1, chr_generation = 0\<rparr>"
  by (simp_all add: kept_store_def chain_head_at_def del: late_tables(7))

lemma kept_head: "head_seq_of late_store (Ident 40) (Ident 50) = Some 5" "head_seq_of kept_store (Ident 40) (Ident 50) = Some 5"
  "retention_floor_of kept_store (Ident 40) (Ident 50) = Some 4"
  by (rule late_columns_facts, simp add: head_seq_of_def retention_floor_of_def)+

lemma kept_run: "checkpoint_run epoch_crypto (Ident 40) (Ident 50) kept_store {(srv_bundle, srv_pl)}"
proof (rule run_other [OF late_run])
  have "rows_sound late_store (Ident 40) (Ident 50) base" for base
    using srv_sound [of base] by (simp add: rows_sound_def rid_domain_def)
  then show "keeps_live late_store kept_store (Ident 40) (Ident 50)"
    by (rule keeps_live_same [OF _ _ _ _ _ kept_head(1,2)]) (simp_all add: INTEGER_MAX_def)
qed

lemma kept_sound: "tables_sound kept_store (Ident 40)"
proof -
  have "list_all (row_sound kept_store) (st_operations kept_store)"
    by (simp add: row_sound_def op_at_def INTEGER_MAX_def srv_op_def rid_domain_def kept_head word_le_nat_alt word_less_nat_alt)
      (simp add: srv_store_def)
  then show ?thesis unfolding tables_sound_def list_all_iff by simp
qed

lemma kept_rows_written: "checkpoint_rows kept_store (Ident 40) (Ident 50) = checkpoint_rows srv_after (Ident 40) (Ident 50)"
  by (simp add: checkpoint_rows_def)

lemma kept_scan: "scan_of kept_store (Ident 40) (Ident 50) 0 4
    = \<lparr>psc_after = 0, psc_floor = 4, psc_delete_floor = 0, psc_keep_epoch = 2, psc_keep_policy = 1\<rparr>"
proof -
  have "servable_floor kept_store (Ident 40) (Ident 50) 4 = Some 0"
    by (simp add: servable_floor_def kept_rows_written srv_written at_most_def INTEGER_MAX_def)
  moreover have "newest_entry_seq kept_store (Ident 40) (Ident 50) ENTRY_EPOCH 4 = 2"
    "newest_entry_seq kept_store (Ident 40) (Ident 50) ENTRY_POLICY 4 = 1"
    by (simp_all add: newest_entry_seq_def newest_entry_def) (simp_all add: srv_store_def ENTRY_POLICY_def ENTRY_EPOCH_def
        ENTRY_OPERATION_def ENTRY_CHECKPOINT_def at_most_def INTEGER_MAX_def)
  ultimately show ?thesis by (simp add: scan_of_def)
qed

lemma kept_prunable: "prunable_entries kept_store (Ident 40) (Ident 50) (scan_of kept_store (Ident 40) (Ident 50) 0 4) n = []"
proof -
  have "\<not> covered_through kept_store r f" for r f by (simp add: covered_through_def)
  then show ?thesis
    unfolding kept_scan
    by (simp add: prunable_entries_def prunable_def op_at_def srv_op_def) (simp add: srv_store_def at_most_def INTEGER_MAX_def ENTRY_POLICY_def ENTRY_EPOCH_def
      ENTRY_OPERATION_def ENTRY_CHECKPOINT_def)
qed

abbreviation kept_batch :: "store_error + (u64 \<times> u64 option) \<times> store" where
  "kept_batch \<equiv> prune_batch (Ident 40) (Ident 50) 0 9 PRUNE_BATCH kept_store"

lemma kept_batched: "\<exists>st'. kept_batch = Inr ((0, None), st')"
proof -
  have row: "\<exists>row. store_domain kept_store (Ident 40) (Ident 50) = Some row \<and> dr_retention_floor row = 4"
    using kept_head(3) by (auto simp: retention_floor_of_def store_domain_def domain_columns.defs)
  have "clear_checkpoint_data (Ident 40) (Ident 50) 4 hs n kept_store = (0, kept_store)" for hs n
    by (simp add: clear_checkpoint_data_def kept_rows_written srv_written at_most_def INTEGER_MAX_def)
  moreover have "PRUNE_BATCH \<noteq> 0" by (simp add: PRUNE_BATCH_def)
  ultimately show ?thesis
    using row by (auto simp: prune_batch_def kept_prunable prune_rest_def add_usage_def set_pruned_floor_def int_column_def INTEGER_MAX_def)
qed

theorem pruning_continues_run_witness:
  "\<exists>st'. kept_batch = Inr ((0, None), st') \<and> checkpoint_run epoch_crypto (Ident 40) (Ident 50) st' {(srv_bundle, srv_pl)}"
proof -
  obtain st' where batch: "kept_batch = Inr ((0, None), st')" using kept_batched by blast
  have "newest_checkpoint kept_store (Ident 40) (Ident 50) = Some srv_row"
    by (simp add: newest_checkpoint_def kept_rows_written srv_written(1))
  then show ?thesis
    using pruning_continues_run [OF kept_run batch kept_head(3) kept_sound settled_start [OF kept_sound]] batch
    by (simp add: covered_of_def srv_written(5))
qed

subsection \<open>A workspace under pressure\<close>

definition full_columns :: domain_columns where
  "full_columns = demo_columns\<lparr>dr_head_seq := 4, dr_checkpoint_seq := 3, dr_usage_bytes := 10, dr_history_bytes := 100\<rparr>"

definition full_store :: store where
  "full_store = demo_store\<lparr>st_domains := bt_insert (Ident 40, Ident 50) full_columns bt_empty,
     st_checkpoints := [\<lparr>scp_workspace = Ident 40, scp_domain = Ident 50, scp_row = srv_row\<lparr>cpw_covered_seq := 3\<rparr>, scp_buckets = None\<rparr>]\<rparr>"

lemma full_ready: "relief_ready full_store (Ident 40)"
  by (simp add: relief_ready_def floor_columns_def full_store_def full_columns_def demo_columns_def covered_seqs_def
      checkpoint_rows_def INTEGER_MAX_def)

lemma full_target: "relief_target full_store (Ident 40) 50 = Inr (Some (Ident 50, 3))"
  by (simp add: relief_target_def workspace_usage_of_def domain_histories_def checkpoint_above_def checkpoint_rows_def full_store_def
      full_columns_def demo_columns_def uint_column_def small_columns)

theorem relief_ends_witness:
  "\<exists>report r st'. relief_target full_store (Ident 40) 50 = Inr (Some (Ident 50, 3))
    \<and> relieve 60 50 (Ident 40) (\<lambda>_ _. 9) PRUNE_BATCH full_store = Some (report, r, st')
    \<and> floors_risen full_store st' (Ident 40) \<and> live_kept full_store st' (Ident 40)"
proof -
  have "stored_run epoch_crypto full_store"
    by (rule stored_start) (simp_all add: full_store_def demo_store_def)
  from relief_ends [OF this full_ready, of 60 50 "\<lambda>_ _. 9" PRUNE_BATCH] show ?thesis using full_target by blast
qed

end
