(* ===== verification/Spec2Isabelle.thy ===== *)
theory Spec2Isabelle
  imports Text_Forms Tags Wire_Laws Padding Crypto Records_Account Account_Examples
    Records_Policy Policy_Heads Policy_Examples Policy_Queries
    Records_Epoch Keys_Theorems Keys_Log Keys_Examples
    Payloads Chain_Laws Live_Laws Log_Examples
    Manifest_Laws Checkpoint_Walks Checkpoint_Examples
    Push_Reads Push_Examples
    Blob_Format Blob_Examples
    Checkpoint_Routes Server_Examples Retention_Examples
begin

text \<open>
  Verification of the pure core of noura's sync protocol, \<^verbatim>\<open>src/crates/sync-protocol\<close>: the
  record formats and the checks that the server and every client run on what others send them.
  The crate has no I/O. Whatever a device or the server accepts goes through these functions, so
  the theorems say what a peer, or the server itself, cannot make them accept. On top of it, the
  server's path of an operation, \<^verbatim>\<open>src/crates/sync-store\<close> over the SQLite tables of
  \<^verbatim>\<open>src/crates/sync-store-sqlite\<close>: how it is pushed, stored, pulled and read, and that honest
  clients accept what such a server serves; and the server's checkpoints, from the push of one to the
  bootstrap from it, and the pruning of what a retention floor has passed. Section numbers are those of the protocol document that
  the code's comments refer to.

  \<^bold>\<open>Parts and theories.\<close>
  \<^item> \<open>Prelude\<close>, \<open>BTree\<close>: fallible sequencing (\<open>?\<close> is \<open>and_then\<close>, an early return is \<open>ensure\<close>),
    big-endian bytes, and the standard library's ordered map as a sorted association list with
    the map laws as a locale and its interpretation.
  \<^item> \<open>Types\<close>, \<open>Text_Forms\<close> (\<^verbatim>\<open>types.rs\<close>): fixed-size fields as datatypes around words, hexadecimal
    and decimal text forms.
  \<^item> \<open>Tags\<close> (\<^verbatim>\<open>tag.rs\<close>): domain tags and their separation.
  \<^item> \<open>Wire\<close>, \<open>Wire_Laws\<close> (\<^verbatim>\<open>codec.rs\<close>): the reader with its offsets and errors, the writer as the
    bytes it appends; the locale \<open>wire\<close> is the contract of \<open>Encode\<close> and \<open>Decode\<close> (decoding an
    encoding gives the value back, and nothing else decodes to it), interpreted on every field
    type and record.
  \<^item> \<open>Padding\<close> (\<^verbatim>\<open>padding.rs\<close>): Padme lengths and padded contents.
  \<^item> \<open>Crypto\<close> (\<^verbatim>\<open>crypto.rs\<close>, \<^verbatim>\<open>ids.rs\<close>): hashing, signing, sealing and derived identifiers.
  \<^item> \<open>Records_Account\<close> (\<^verbatim>\<open>records/mod.rs\<close>, \<^verbatim>\<open>records/card.rs\<close>, \<^verbatim>\<open>records/link.rs\<close>): signed records, device
    cards, account links and heads.
  \<^item> \<open>Hash_Chain\<close>: the locale of records that name the digest of the record before them, with
    the theorem that a head binds its whole chain; account links, policy changes and
    checkpoints interpret it.
  \<^item> \<open>Account\<close>, \<open>Account_Laws\<close>, \<open>Account_History\<close>, \<open>Account_Examples\<close> (\<^verbatim>\<open>account.rs\<close>): the account
    chain, the removal cascade, its invariant, cutting back, and kept heads.
  \<^item> \<open>Records_Policy\<close> (\<^verbatim>\<open>records/policy.rs\<close>): policy changes and access lists.
  \<^item> \<open>Policy\<close>, \<open>Policy_Laws\<close>, \<open>Policy_Invariant\<close>, \<open>Policy_Theorems\<close>, \<open>Policy_Heads\<close>, \<open>Policy_Queries\<close>,
    \<open>Policy_Examples\<close> (\<^verbatim>\<open>policy.rs\<close>): the policy chain, the state after each revision, who may do
    what, and what sessions may read through a workspace.
  \<^item> \<open>Records_Epoch\<close> (\<^verbatim>\<open>records/epoch.rs\<close>): epoch records, bundles and envelopes.
  \<^item> \<open>Keys\<close>, \<open>Keys_Laws\<close>, \<open>Keys_Theorems\<close>, \<open>Keys_Log\<close>, \<open>Keys_Examples\<close> (\<^verbatim>\<open>keys.rs\<close>): a domain's
    epochs, their keys and lineage, replacements, envelopes, and the judge of the log; the relation
    \<open>epoch_run\<close> holds every way a client comes by its records.
  \<^item> \<open>Records_Operation\<close>, \<open>Payloads\<close>, \<open>Records_Checkpoint\<close> (\<^verbatim>\<open>records/operation.rs\<close>,
    \<^verbatim>\<open>records/checkpoint.rs\<close>): operations, their payloads and paths, checkpoints.
  \<^item> \<open>Chain\<close>, \<open>Chain_Laws\<close> (\<^verbatim>\<open>chain.rs\<close>): the verifier of every device's chain in a log, against a
    server that drops, reorders, repeats or withholds records of a device that seals a position again
    when the server rejects it (\<open>device_history\<close>); a fetch is a function of a state of
    its own. \<open>process\<close> and the loops over attempts are functions whose measures count the digests not
    yet seen.
  \<^item> \<open>Live\<close>, \<open>Live_Laws\<close> (\<^verbatim>\<open>live.rs\<close>): which operations on an object are live, the server's limits,
    rising floors, and the covers an edit writes.
  \<^item> \<open>Log_Examples\<close>: concrete histories and live sets.
  \<^item> \<open>Manifest\<close>, \<open>Manifest_Laws\<close>, \<open>Checkpoint_Laws\<close>, \<open>Checkpoint_Walks\<close>, \<open>Checkpoint_Examples\<close>
    (\<^verbatim>\<open>manifest.rs\<close>): the Merkle tree over the live objects and what its root binds, the checks on
    one checkpoint after another, the descent walk a device asks for, and the walk for checkpoints
    that a server leaves out of the log.
  \<^item> \<open>Blob\<close>, \<open>Blob_Segments\<close>, \<open>Blob_Laws\<close>, \<open>Blob_Runs\<close>, \<open>Blob_Theorems\<close>, \<open>Blob_Format\<close>,
    \<open>Blob_Examples\<close> (\<^verbatim>\<open>blob.rs\<close>): the blob format. Files and ciphertexts are streams that end or
    fail; the incremental hasher is a locale that the segment hasher interprets; the loops over chunks
    run forward and back; what decrypts has the format, and the length check takes blobs' lengths only.
  \<^item> \<open>Pages\<close> (\<^verbatim>\<open>messages.rs\<close>): log entries, pull cursors and pages with their encodings.
  \<^item> \<open>Store\<close> (\<^verbatim>\<open>sync-store/src/lib.rs\<close>, \<^verbatim>\<open>sync-store-sqlite/src/txn.rs\<close>): the rows of the server's
    tables and the queries and updates that the path of an operation uses.
  \<^item> \<open>Push\<close>, \<open>Push_Laws\<close>, \<open>Push_Log\<close>, \<open>Push_Theorems\<close> (\<^verbatim>\<open>push.rs\<close>, \<^verbatim>\<open>retention.rs\<close>, \<^verbatim>\<open>blobs.rs\<close> and
    \<open>progress\<close> of \<^verbatim>\<open>checkpoints.rs\<close>): the checks of one pushed operation and its write. The relation
    \<open>server_run\<close> holds every sequence of accepted pushes, retries and other work on the tables, with
    the log of the operations it accepted; \<open>holds_log\<close> is the abstraction from the tables to that log,
    \<open>good_log\<close> what every entry passed, and both are kept by every step. No step of this relation prunes or drops
    a delete: the claims on it are about a server before its first pruning.
  \<^item> \<open>Pull\<close>, \<open>Pull_Laws\<close>, \<open>Pull_Theorems\<close>, \<open>Push_Pull\<close>, \<open>Push_Reads\<close> (\<^verbatim>\<open>pull.rs\<close>, \<^verbatim>\<open>reads.rs\<close>): pulls, chain
    records, chain heads and epoch records. The reading of a page in chunks is one pass over its rows;
    a page holds its range of the log; the client's verifier of \<open>Chain\<close> accepts it whole.
  \<^item> \<open>Push_Examples\<close>: a server with one domain and one accepted operation.
  \<^item> \<open>Server_Checkpoints\<close>, \<open>Checkpoint_Routes\<close> (\<^verbatim>\<open>sync-store/src/checkpoints.rs\<close>, \<open>floor_drops\<close> of
    \<^verbatim>\<open>live.rs\<close>): the plan of a pushed checkpoint with its checks and the recomputation of the manifest from
    the previous checkpoint's bucket hashes, the commit, policy entries and due points, and the routes
    for checkpoints, their chain, the live set and the manifest.
  \<^item> \<open>Server_Leaves\<close>, \<open>Server_Plan\<close>, \<open>Server_Commit\<close>: reading a bucket in queries is one pass over its
    range of identifiers, the recomputation is the manifest of the live set, and what a commit writes.
  \<^item> \<open>Server_Run\<close>, \<open>Server_Growth\<close>, \<open>Server_Serves\<close>, \<open>Server_Accepts\<close>, \<open>Server_Buckets\<close>: the relation
    \<open>checkpoint_run\<close> holds every sequence of plans, commits and other transactions on a domain, a
    plan made before other commits included; its invariant is that the rows are a genuine chain of
    checkpoints, the newest with the bucket hashes of its live set. On it rest: the push of an
    operation is such another transaction, a walk of the chain verifies, what is committed
    passes the client's check, and a device bootstraps from the newest checkpoint; \<open>Server_Buckets\<close> also shows what a dropped
    delete does to an older checkpoint that is still served.
  \<^item> \<open>Server_Examples\<close>: a server that commits two checkpoints.
  \<^item> \<open>Retention\<close>, \<open>Retention_Laws\<close>, \<open>Retention_Theorems\<close>, \<open>Retention_Runs\<close> (\<^verbatim>\<open>sync-store/src/retention.rs\<close>):
    how a retention floor rises, and the batches that prune what it has passed. \<open>tables_sound\<close> is the
    invariant of the tables that pruning needs, kept by every run of pushes, commits, rising floors and
    prunings, the relation \<open>stored_run\<close>; what a batch deletes (\<open>deleted_at\<close>) leaves every live set at or above the floor as
    it was, as long as the batches before left nothing prunable behind (\<open>settled\<close>); a batch is one of
    the other transactions of a \<open>checkpoint_run\<close>; and what comes back when a pruning goes on below a floor
    that has risen in between.
  \<^item> \<open>Relief\<close> (\<^verbatim>\<open>retention.rs\<close>): the rise of a workspace's floors under quota pressure, one checkpoint at a
    time, each followed by a pruning; the loop is a partial function that is shown to end.
  \<^item> \<open>Server_Log\<close>: the log behind a server that also commits checkpoints, raises floors and prunes, the relation
    \<open>logged_run\<close>. \<open>keeps_log\<close> is what its tables still hold of the log: every row is an entry's, heads are
    at or above every entry and its covers, and the live sets at and above a retention floor are those of the
    whole log less the dropped deletes; so a position once taken is never taken again.
  \<^item> \<open>Retention_Examples\<close>: a domain of five operations pruned in batches of one,
    a batch on the small server, and a workspace under pressure.

  \<^bold>\<open>How the code is read.\<close> A \<open>u8\<close> to \<open>u64\<close> is a word of its width, with the wrap-around of a
  release build; lengths of vectors are naturals. \<open>BTreeMap\<close> is \<open>btree\<close> and \<open>BTreeSet\<close> a set. A
  \<open>Result\<close> is a sum with the source's error enum on the left, and every error is a branch. A
  method that mutates \<open>self\<close> returns the new state. The third-party cryptography is a record of
  functions passed as an argument, of which nothing is assumed: a theorem that needs a hash to be
  collision-free concludes with the explicit pair of inputs that would be the collision. The stream
  cipher of blobs is a parameter too, with \<open>stream_law\<close> and \<open>stream_opens\<close> what its crate documents.
  Encoder
  panics on fields beyond their limit are excluded by the \<open>wf_\<close> predicates, which the decoders
  are proved to guarantee. A table is a map by its primary key or the list of its rows, oldest first;
  an \<open>INTEGER\<close> column holds at most \<open>2 ^ 63 - 1\<close>, an insert that breaks a key fails, and a failed
  update keeps only its error, as the transaction rolls back. A transaction is a step: the locks that
  order concurrent ones are not modelled. The verified policy chain that the server loads for a
  request is an argument. A refusal is its code and structured detail, without the text for people
  and the retry hint.

  \<^bold>\<open>Bounds.\<close> Theorems on whole chains assume fewer than \<open>2 ^ 64\<close> links or changes, which no memory
  holds. The removal cascade is a \<open>function\<close> whose measure is the number of active cards not yet
  taken; the loop over a page's chunks is a \<open>function\<close> whose measure is the room above the last
  sequence it read, the loop over a domain's batches one whose measure is the entries and bucket
  hashes left, that of a relief ends as the floors' room below their checkpoints shrinks, the loops over a domain's identifiers ones whose measure is the room above the last
  identifier; no fuel is used anywhere. \<open>read_bucket\<close>, a client's reading of a bucket's pages in
  a theorem, counts pages: any number that the bucket's leaves fill is enough.

  \<^bold>\<open>Not modelled.\<close> Serde and display impls, random generation, base64url text forms, the marker
  file. Of the server: requests and responses over HTTP, pushes of records other than operations
  and checkpoints, accounts and sessions, invitations, shares, resets, of retention the maintenance passes, the
  reclaiming of deleted domains and the collection of blobs, realtime notices and the PostgreSQL tables; what other work does to the tables of a run is the hypothesis of its step
  \<open>served_other\<close>, it keeps the operations' rows and entries and never lowers a head, of \<open>logged_other\<close>
  (\<open>side_work\<close>, which lowers no floor either), and of \<open>run_other\<close>,
  the predicate \<open>keeps_live\<close>: a domain's checkpoint rows, but for what pruning clears of those before the newest,
  and its live sets from the newest checkpoint on stay what they are. And the
  applications, which wrap these checks in files, networks and user interfaces.
\<close>

end
